(* ===== verification/Prelude.thy ===== *)
theory Prelude
  imports Main "HOL-Library.Code_Target_Nat"
begin

text \<open>
  Shared vocabulary of the development: the outcome of a Rust call that may return
  \<open>Ok\<close>, return \<open>Err\<close> or panic; the sequencing of such calls; the \<open>usize\<close>/\<open>u64\<close>
  arithmetic the sources use (checked and saturating); and the generic list and option
  facts that the component theories share.
\<close>

section \<open>Outcomes of fallible calls\<close>

text \<open>
  A Rust function of type \<open>Result<A, E>\<close> has three observable endings: \<open>Ok(a)\<close>,
  \<open>Err(e)\<close>, and a panic raised by \<open>expect\<close>, by indexing a map with a missing key or by an
  overflow check. The panic carries the message of the source.
\<close>

datatype ('e, 'a) outcome = Ok 'a | Err 'e | Panic string

named_theorems outcome_simps
named_theorems usize_simps

fun bind_outcome :: "('e, 'a) outcome \<Rightarrow> ('a \<Rightarrow> ('e, 'b) outcome) \<Rightarrow> ('e, 'b) outcome" where
  "bind_outcome (Ok a) f = f a"
| "bind_outcome (Err e) f = Err e"
| "bind_outcome (Panic p) f = Panic p"

lemma bind_outcome_cong [fundef_cong]:
  "m = m' \<Longrightarrow> (\<And>a. m' = Ok a \<Longrightarrow> f a = g a) \<Longrightarrow> bind_outcome m f = bind_outcome m' g"
  by (cases m') auto

lemma bind_outcome_Ok_iff [outcome_simps]:
  "bind_outcome m f = Ok b \<longleftrightarrow> (\<exists>a. m = Ok a \<and> f a = Ok b)"
  by (cases m) auto

lemma bind_outcome_Err_iff [outcome_simps]:
  "bind_outcome m f = Err e \<longleftrightarrow> m = Err e \<or> (\<exists>a. m = Ok a \<and> f a = Err e)"
  by (cases m) auto

lemma bind_outcome_Panic_iff [outcome_simps]:
  "bind_outcome m f = Panic p \<longleftrightarrow> m = Panic p \<or> (\<exists>a. m = Ok a \<and> f a = Panic p)"
  by (cases m) auto

lemma bind_outcome_assoc:
  "bind_outcome (bind_outcome m f) g = bind_outcome m (\<lambda>a. bind_outcome (f a) g)"
  by (cases m) auto

text \<open>\<open>Option::expect\<close> and \<open>Option::ok_or\<close>.\<close>

fun expect :: "string \<Rightarrow> 'a option \<Rightarrow> ('e, 'a) outcome" where
  "expect msg None = Panic msg"
| "expect msg (Some a) = Ok a"

fun ok_or :: "'e \<Rightarrow> 'a option \<Rightarrow> ('e, 'a) outcome" where
  "ok_or e None = Err e"
| "ok_or e (Some a) = Ok a"

lemma expect_Ok_iff [outcome_simps]: "expect msg x = Ok a \<longleftrightarrow> x = Some a"
  by (cases x) auto

lemma expect_Err_iff [outcome_simps]: "expect msg x = Err e \<longleftrightarrow> False"
  by (cases x) auto

lemma expect_Panic_iff [outcome_simps]: "expect msg x = Panic p \<longleftrightarrow> x = None \<and> p = msg"
  by (cases x) auto

lemma ok_or_Ok_iff [outcome_simps]: "ok_or e x = Ok a \<longleftrightarrow> x = Some a"
  by (cases x) auto

lemma ok_or_Err_iff [outcome_simps]: "ok_or e x = Err e' \<longleftrightarrow> x = None \<and> e' = e"
  by (cases x) auto

lemma ok_or_Panic_iff [outcome_simps]: "ok_or e x = Panic p \<longleftrightarrow> False"
  by (cases x) auto

text \<open>\<open>Result::map_err\<close>.\<close>

fun map_err :: "('e \<Rightarrow> 'f) \<Rightarrow> ('e, 'a) outcome \<Rightarrow> ('f, 'a) outcome" where
  "map_err f (Ok a) = Ok a"
| "map_err f (Err e) = Err (f e)"
| "map_err f (Panic p) = Panic p"

lemma map_err_iff [outcome_simps]:
  "map_err f m = Ok a \<longleftrightarrow> m = Ok a"
  "map_err f m = Err e' \<longleftrightarrow> (\<exists>e. m = Err e \<and> e' = f e)"
  "map_err f m = Panic p \<longleftrightarrow> m = Panic p"
  by (cases m; auto)+

text \<open>A \<open>for\<close> loop whose body may return early: the state is threaded and the first error or
  panic leaves the loop.\<close>

fun for_each :: "('a \<Rightarrow> 's \<Rightarrow> ('e, 's) outcome) \<Rightarrow> 'a list \<Rightarrow> 's \<Rightarrow> ('e, 's) outcome" where
  "for_each body [] s = Ok s"
| "for_each body (x # xs) s = bind_outcome (body x s) (for_each body xs)"

lemma for_each_append:
  "for_each body (xs @ ys) s = bind_outcome (for_each body xs s) (for_each body ys)"
proof (induction xs arbitrary: s)
  case (Cons x xs)
  have "for_each body (xs @ ys) = (\<lambda>u. bind_outcome (for_each body xs u) (for_each body ys))"
    using Cons.IH by (rule ext)
  then show ?case by (simp add: bind_outcome_assoc)
qed simp

lemma for_each_cong [fundef_cong]:
  "xs = ys \<Longrightarrow> s = t \<Longrightarrow> (\<And>x u. x \<in> set ys \<Longrightarrow> f x u = g x u) \<Longrightarrow> for_each f xs s = for_each g ys t"
proof (induction xs arbitrary: ys s t)
  case (Cons x xs)
  then have "bind_outcome (f x t) (for_each f xs) = bind_outcome (g x t) (for_each g xs)"
    by (intro bind_outcome_cong) auto
  with Cons.prems show ?case by auto
qed auto

text \<open>The invariant rule of such a loop: what every iteration keeps holds at the end.\<close>

lemma for_each_invariant:
  assumes "for_each body xs s = Ok t" "I s"
    and "\<And>x u v. x \<in> set xs \<Longrightarrow> I u \<Longrightarrow> body x u = Ok v \<Longrightarrow> I v"
  shows "I t"
  using assms
proof (induction xs arbitrary: s)
  case (Cons x xs)
  from Cons.prems(1) obtain u where u: "body x s = Ok u" "for_each body xs u = Ok t"
    by (auto simp: outcome_simps)
  from Cons.prems(2,3) u(1) have "I u" by force
  from Cons.IH[OF u(2) this] Cons.prems(3) show ?case
    by (meson list.set_intros(2))
qed simp

text \<open>The same with the already processed prefix as a ghost argument of the invariant.\<close>

lemma for_each_invariant_prefix:
  assumes "for_each body xs s = Ok t" "I [] s"
    and "\<And>ys x u v. prefix_of ys x xs \<Longrightarrow> I ys u \<Longrightarrow> body x u = Ok v \<Longrightarrow> I (ys @ [x]) v"
    and prefix: "\<And>ys x zs. xs = ys @ x # zs \<Longrightarrow> prefix_of ys x xs"
  shows "I xs t"
proof -
  have "for_each body ys u = Ok t \<Longrightarrow> xs = zs @ ys \<Longrightarrow> I zs u \<Longrightarrow> I xs t" for ys zs u
  proof (induction ys arbitrary: zs u)
    case (Cons y ys)
    from Cons.prems(1) obtain v where v: "body y u = Ok v" "for_each body ys v = Ok t"
      by (auto simp: outcome_simps)
    have "I (zs @ [y]) v"
      by (rule assms(3)[OF prefix[OF Cons.prems(2)] Cons.prems(3) v(1)])
    with Cons.IH[OF v(2), of "zs @ [y]"] Cons.prems(2) show ?case by simp
  qed simp
  from this[of xs s "[]"] assms(1,2) show ?thesis by simp
qed

text \<open>A loop whose body neither fails nor panics under its invariant completes.\<close>

lemma for_each_total:
  assumes "I s" and "\<And>x u. x \<in> set xs \<Longrightarrow> I u \<Longrightarrow> \<exists>v. body x u = Ok v \<and> I v"
  shows "\<exists>t. for_each body xs s = Ok t \<and> I t"
  using assms
proof (induction xs arbitrary: s)
  case (Cons x xs)
  then obtain v where v: "body x s = Ok v" "I v" by force
  from Cons.IH[OF v(2)] Cons.prems(2) v(1) show ?case by auto
qed auto

lemma for_each_no_panic:
  assumes "I s"
    and "\<And>x u. x \<in> set xs \<Longrightarrow> I u \<Longrightarrow> (\<exists>e. body x u = Err e) \<or> (\<exists>v. body x u = Ok v \<and> I v)"
  shows "(\<exists>e. for_each body xs s = Err e) \<or> (\<exists>t. for_each body xs s = Ok t \<and> I t)"
  using assms
proof (induction xs arbitrary: s)
  case (Cons x xs)
  from Cons.prems(2)[of x s] Cons.prems(1)
  consider e where "body x s = Err e" | v where "body x s = Ok v" "I v" by auto
  then show ?case
  proof cases
    case (2 v)
    with Cons.IH[OF 2(2)] Cons.prems(2) show ?thesis by auto
  qed auto
qed auto

lemma for_each_not_Panic:
  assumes "I s" and "\<And>x u q. x \<in> set xs \<Longrightarrow> I u \<Longrightarrow> body x u \<noteq> Panic q"
    and "\<And>x u v. x \<in> set xs \<Longrightarrow> I u \<Longrightarrow> body x u = Ok v \<Longrightarrow> I v"
  shows "for_each body xs s \<noteq> Panic q"
  using assms
proof (induction xs arbitrary: s)
  case (Cons x xs)
  show ?case
  proof
    assume "for_each body (x # xs) s = Panic q"
    with Cons.prems(1,2) obtain v where v: "body x s = Ok v" "for_each body xs v = Panic q"
      by (auto simp: outcome_simps)
    have "I v" using Cons.prems(1,3) v(1) by (meson list.set_intros(1))
    then have "for_each body xs v \<noteq> Panic q"
      by (rule Cons.IH) (use Cons.prems(2,3) in \<open>meson list.set_intros(2)\<close>)+
    with v(2) show False by simp
  qed
qed simp

section \<open>Worklist loops\<close>

text \<open>
  The loop \<open>while let Some(item) = work.pop() { body }\<close> of the sources. It may run forever:
  \<open>None\<close> is the value of a loop that does not return, and an error or a panic of the body ends it.
\<close>

partial_function (option) while_let ::
  "('st \<Rightarrow> ('p \<times> 'st) option) \<Rightarrow> ('p \<Rightarrow> 'st \<Rightarrow> ('err, 'st) outcome) \<Rightarrow> 'st \<Rightarrow> ('err, 'st) outcome option" where
  "while_let pop body st =
     (case pop st of
        None \<Rightarrow> Some (Ok st)
      | Some (item, st') \<Rightarrow>
          (case body item st' of
             Ok st'' \<Rightarrow> while_let pop body st''
           | Err e \<Rightarrow> Some (Err e)
           | Panic p \<Rightarrow> Some (Panic p)))"

declare while_let.simps [code]

text \<open>The runs of such a loop that end with an empty worklist.\<close>

inductive drained :: "('st \<Rightarrow> ('p \<times> 'st) option) \<Rightarrow> ('p \<Rightarrow> 'st \<Rightarrow> ('err, 'st) outcome) \<Rightarrow> 'st \<Rightarrow> 'st \<Rightarrow> bool"
  for pop body where
  drained_done: "pop st = None \<Longrightarrow> drained pop body st st"
| drained_step: "pop st = Some (item, st1) \<Longrightarrow> body item st1 = Ok st2 \<Longrightarrow> drained pop body st2 st3 \<Longrightarrow>
    drained pop body st st3"

lemma while_let_drained:
  assumes "while_let pop body st = Some (Ok st')"
  shows "drained pop body st st'"
proof -
  have "\<forall>st'. r = Ok st' \<longrightarrow> drained pop body st st'" if "while_let pop body st = Some r" for r
  proof (rule while_let.raw_induct[where P = "\<lambda>pop body st r. \<forall>st'. r = Ok st' \<longrightarrow> drained pop body st st'", OF _ that])
    fix loop pop body st r
    assume IH: "\<And>pop body st r. loop pop body st = Some r \<Longrightarrow> \<forall>st'. r = Ok st' \<longrightarrow> drained pop body st st'"
      and eq: "(case pop st of None \<Rightarrow> Some (Ok st) | Some (item, st') \<Rightarrow> (case body item st' of
             Ok st'' \<Rightarrow> loop pop body st'' | Err e \<Rightarrow> Some (Err e) | Panic p \<Rightarrow> Some (Panic p))) = Some r"
    show "\<forall>st'. r = Ok st' \<longrightarrow> drained pop body st st'"
    proof (cases "\<exists>item st1 st2. pop st = Some (item, st1) \<and> body item st1 = Ok st2")
      case True
      then obtain item st1 st2 where s: "pop st = Some (item, st1)" "body item st1 = Ok st2" by blast
      with eq have "loop pop body st2 = Some r" by simp
      from IH[OF this] drained_step[of pop st item st1 body st2, OF s] show ?thesis by blast
    next
      case False
      with eq show ?thesis by (auto split: option.splits outcome.splits intro: drained_done)
    qed
  qed
  with assms show ?thesis by blast
qed

lemma while_let_result:
  assumes "while_let pop body st = Some r" and "I st"
    and "\<And>s p s1 s2. I s \<Longrightarrow> pop s = Some (p, s1) \<Longrightarrow> body p s1 = Ok s2 \<Longrightarrow> I s2"
  shows "(\<exists>s. r = Ok s \<and> I s \<and> pop s = None) \<or>
    ((\<forall>s. r \<noteq> Ok s) \<and> (\<exists>s p s1. I s \<and> pop s = Some (p, s1) \<and> body p s1 = r))"
proof -
  have "(\<forall>s p s1 s2. I s \<longrightarrow> pop s = Some (p, s1) \<longrightarrow> body p s1 = Ok s2 \<longrightarrow> I s2) \<longrightarrow> I st \<longrightarrow>
    (\<exists>s. r = Ok s \<and> I s \<and> pop s = None) \<or>
    ((\<forall>s. r \<noteq> Ok s) \<and> (\<exists>s p s1. I s \<and> pop s = Some (p, s1) \<and> body p s1 = r))" (is "?P pop body st r")
  proof (rule while_let.raw_induct[where P = "\<lambda>pop body st r. ?P pop body st r", OF _ assms(1)])
    fix loop pop body st r
    assume IH: "\<And>pop body st r. loop pop body st = Some r \<Longrightarrow> ?P pop body st r"
      and eq: "(case pop st of None \<Rightarrow> Some (Ok st) | Some (item, st') \<Rightarrow> (case body item st' of
             Ok st'' \<Rightarrow> loop pop body st'' | Err e \<Rightarrow> Some (Err e) | Panic p \<Rightarrow> Some (Panic p))) = Some r"
    show "?P pop body st r"
    proof (cases "pop st")
      case None
      with eq show ?thesis by auto
    next
      case (Some pr)
      then obtain p s1 where pop: "pop st = Some (p, s1)" by (cases pr) auto
      show ?thesis
      proof (cases "body p s1")
        case (Ok s2)
        with eq pop have "loop pop body s2 = Some r" by simp
        from IH[OF this] pop Ok show ?thesis by blast
      qed (use eq pop in force)+
    qed
  qed
  with assms(2,3) show ?thesis by blast
qed

lemma while_let_returns:
  assumes "wf R" and "I st"
    and "\<And>s p s1 s2. I s \<Longrightarrow> pop s = Some (p, s1) \<Longrightarrow> body p s1 = Ok s2 \<Longrightarrow> I s2 \<and> (s2, s) \<in> R"
  shows "\<exists>r. while_let pop body st = Some r"
  using assms(1,2)
proof (induction st rule: wf_induct_rule)
  case (less st)
  show ?case
  proof (cases "pop st")
    case (Some pr)
    then obtain p s1 where pop: "pop st = Some (p, s1)" by (cases pr) auto
    show ?thesis
    proof (cases "body p s1")
      case (Ok s2)
      from assms(3)[OF less.prems pop Ok] less.IH have "\<exists>r. while_let pop body s2 = Some r" by blast
      with Ok pop show ?thesis by (subst while_let.simps) simp
    qed (use pop in \<open>subst while_let.simps; simp\<close>)+
  qed (subst while_let.simps; simp)
qed

section \<open>Machine arithmetic\<close>

text \<open>
  \<open>usize\<close> and \<open>u64\<close> values are natural numbers below \<open>2 ^ 64\<close>. Only the operations the
  sources use are modelled: \<open>saturating_add\<close>, \<open>saturating_mul\<close>, \<open>saturating_sub\<close> (the
  truncated subtraction of \<open>nat\<close>), and \<open>+=\<close>, which panics on overflow.
\<close>

type_synonym usize = nat
type_synonym u64 = nat

definition usize_max :: nat where
  "usize_max = 2 ^ 64 - 1"

definition saturating_add :: "nat \<Rightarrow> nat \<Rightarrow> nat" where
  "saturating_add a b = min (a + b) usize_max"

definition saturating_mul :: "nat \<Rightarrow> nat \<Rightarrow> nat" where
  "saturating_mul a b = min (a * b) usize_max"

definition checked_add :: "usize \<Rightarrow> usize \<Rightarrow> usize option" where
  "checked_add a b = (if a + b \<le> usize_max then Some (a + b) else None)"

definition checked_incr :: "nat \<Rightarrow> ('e, nat) outcome" where
  "checked_incr a = (if a < usize_max then Ok (a + 1) else Panic ''attempt to add with overflow'')"

lemma saturating_add_le [usize_simps]: "saturating_add a b \<le> a + b"
  by (simp add: saturating_add_def)

lemma saturating_add_bound [usize_simps]: "saturating_add a b \<le> usize_max"
  by (simp add: saturating_add_def)

lemma saturating_add_exact: "saturating_add a b < usize_max \<Longrightarrow> saturating_add a b = a + b"
  by (simp add: saturating_add_def min_def split: if_splits)

lemma saturating_add_ge: "a \<le> usize_max \<Longrightarrow> a \<le> saturating_add a b"
  by (simp add: saturating_add_def)

lemma saturating_mul_bound [usize_simps]: "saturating_mul a b \<le> usize_max"
  by (simp add: saturating_mul_def)

lemma checked_incr_Ok_iff [outcome_simps]:
  "checked_incr a = Ok b \<longleftrightarrow> a < usize_max \<and> b = a + 1"
  by (auto simp: checked_incr_def)

lemma checked_incr_Err_iff [outcome_simps]: "checked_incr a = Err e \<longleftrightarrow> False"
  by (auto simp: checked_incr_def)

end
