(* ===== verification/Ordered_Map.thy ===== *)
theory Ordered_Map
  imports Prelude
begin

text \<open>
  The ordered collections of the Rust standard library that every component keeps its state
  in. A \<open>BTreeMap<K, V>\<close> is a strictly sorted association list, kept abstract by a typedef, so
  that equality of maps is equality of contents and iteration is in key order; a
  \<open>BTreeSet<K>\<close> is, as in the standard library, a map to the unit type.
\<close>

section \<open>Strictly sorted association lists\<close>

fun al_insert :: "'k::linorder \<Rightarrow> 'v \<Rightarrow> ('k \<times> 'v) list \<Rightarrow> ('k \<times> 'v) list" where
  "al_insert k v [] = [(k, v)]"
| "al_insert k v ((k', v') # xs) =
     (if k < k' then (k, v) # (k', v') # xs
      else if k = k' then (k, v) # xs
      else (k', v') # al_insert k v xs)"

definition al_sorted :: "('k::linorder \<times> 'v) list \<Rightarrow> bool" where
  "al_sorted xs = sorted_wrt (<) (map fst xs)"

lemma keys_al_insert: "fst ` set (al_insert k v xs) = insert k (fst ` set xs)"
  by (induction k v xs rule: al_insert.induct) auto

lemma al_sorted_insert: "al_sorted xs \<Longrightarrow> al_sorted (al_insert k v xs)"
proof (induction k v xs rule: al_insert.induct)
  case (2 k v k' v' xs)
  then show ?case
    using keys_al_insert[of k v xs] by (auto simp: al_sorted_def)
qed (simp add: al_sorted_def)

lemma map_of_al_insert: "map_of (al_insert k v xs) = (map_of xs)(k \<mapsto> v)"
  by (induction k v xs rule: al_insert.induct) (auto simp: fun_eq_iff)

lemma al_sorted_filter: "al_sorted xs \<Longrightarrow> al_sorted (filter P xs)"
  unfolding al_sorted_def by (induction xs) auto

lemma al_sorted_map_values: "al_sorted xs \<Longrightarrow> al_sorted (map (\<lambda>(k, v). (k, f k v)) xs)"
  by (simp add: al_sorted_def comp_def case_prod_unfold)

lemma al_sorted_distinct: "al_sorted xs \<Longrightarrow> distinct (map fst xs)"
  by (simp add: al_sorted_def strict_sorted_iff)

lemma al_sorted_unique:
  assumes "al_sorted xs" "al_sorted ys" "map_of xs = map_of ys"
  shows "xs = ys"
proof -
  from assms(3) have sets: "set xs = set ys"
    using assms(1,2) by (metis al_sorted_distinct map_of_inject_set)
  then have "set (map fst xs) = set (map fst ys)" by simp
  with assms(1,2) have "map fst xs = map fst ys"
    unfolding al_sorted_def by (intro strict_sorted_equal) auto
  with sets assms(1) show ?thesis
    by (metis al_sorted_distinct distinct_map distinct_map map_eq_imp_length_eq
        inj_on_map_eq_map sup.idem)
qed

section \<open>Ordered maps\<close>

typedef (overloaded) ('k::linorder, 'v) bmap = "{xs :: ('k \<times> 'v) list. al_sorted xs}"
  morphisms bm_entries Bmap
  by (rule exI[of _ "[]"]) (simp add: al_sorted_def)

setup_lifting type_definition_bmap

lift_definition bm_empty :: "('k::linorder, 'v) bmap" is "[]"
  by (simp add: al_sorted_def)

lift_definition bm_get :: "('k::linorder, 'v) bmap \<Rightarrow> 'k \<Rightarrow> 'v option" is map_of .

lift_definition bm_insert :: "'k::linorder \<Rightarrow> 'v \<Rightarrow> ('k, 'v) bmap \<Rightarrow> ('k, 'v) bmap" is al_insert
  by (rule al_sorted_insert)

lift_definition bm_filter :: "('k::linorder \<Rightarrow> 'v \<Rightarrow> bool) \<Rightarrow> ('k, 'v) bmap \<Rightarrow> ('k, 'v) bmap"
  is "\<lambda>P. filter (\<lambda>(k, v). P k v)"
  by (rule al_sorted_filter)

lift_definition bm_map :: "('k::linorder \<Rightarrow> 'v \<Rightarrow> 'w) \<Rightarrow> ('k, 'v) bmap \<Rightarrow> ('k, 'w) bmap"
  is "\<lambda>f. map (\<lambda>(k, v). (k, f k v))"
  by (rule al_sorted_map_values)

instantiation bmap :: (linorder, equal) equal
begin
definition equal_bmap :: "('a, 'b) bmap \<Rightarrow> ('a, 'b) bmap \<Rightarrow> bool" where
  "equal_bmap a b = HOL.equal (bm_entries a) (bm_entries b)"
instance
  by standard (simp add: equal_bmap_def equal_eq bm_entries_inject)
end

definition bm_remove :: "'k::linorder \<Rightarrow> ('k, 'v) bmap \<Rightarrow> ('k, 'v) bmap" where
  "bm_remove k = bm_filter (\<lambda>k' _. k' \<noteq> k)"

definition bm_keys :: "('k::linorder, 'v) bmap \<Rightarrow> 'k list" where
  "bm_keys m = map fst (bm_entries m)"

definition bm_values :: "('k::linorder, 'v) bmap \<Rightarrow> 'v list" where
  "bm_values m = map snd (bm_entries m)"

definition bm_len :: "('k::linorder, 'v) bmap \<Rightarrow> nat" where
  "bm_len m = length (bm_entries m)"

definition bm_contains_key :: "'k::linorder \<Rightarrow> ('k, 'v) bmap \<Rightarrow> bool" where
  "bm_contains_key k m = (bm_get m k \<noteq> None)"

text \<open>\<open>collect::<BTreeMap<_, _>>()\<close>: a later binding of a key replaces an earlier one.\<close>

definition bm_from_list :: "('k::linorder \<times> 'v) list \<Rightarrow> ('k, 'v) bmap" where
  "bm_from_list xs = fold (\<lambda>(k, v). bm_insert k v) xs bm_empty"

lemma bm_entries_empty [simp]: "bm_entries bm_empty = []"
  by transfer simp

lemma bm_get_empty [simp]: "bm_get bm_empty k = None"
  by transfer simp

lemma bm_get_insert [simp]: "bm_get (bm_insert k v m) k' = (if k' = k then Some v else bm_get m k')"
  by transfer (simp add: map_of_al_insert)

lemma map_of_filter_key:
  "distinct (map fst xs) \<Longrightarrow>
   map_of (filter (\<lambda>(k, v). P k v) xs) k =
     (case map_of xs k of None \<Rightarrow> None | Some v \<Rightarrow> if P k v then Some v else None)"
  by (induction xs) (auto split: option.splits simp: map_of_eq_None_iff image_iff)

lemma bm_get_filter:
  "bm_get (bm_filter P m) k =
     (case bm_get m k of None \<Rightarrow> None | Some v \<Rightarrow> if P k v then Some v else None)"
  by transfer (simp add: map_of_filter_key al_sorted_distinct)

lemma bm_get_remove [simp]: "bm_get (bm_remove k m) k' = (if k' = k then None else bm_get m k')"
  by (auto simp: bm_remove_def bm_get_filter split: option.splits)

lemma bm_get_map [simp]: "bm_get (bm_map f m) k = map_option (f k) (bm_get m k)"
proof -
  have "map_of (map (\<lambda>(k, v). (k, f k v)) xs) k = map_option (f k) (map_of xs k)" for xs
    by (induction xs) auto
  then show ?thesis by transfer simp
qed

lemma bm_ext: "(\<And>k. bm_get m k = bm_get m' k) \<Longrightarrow> m = m'"
  by transfer (auto intro: al_sorted_unique)

lemma bm_entries_sorted: "al_sorted (bm_entries m)"
  using bm_entries[of m] by simp

lemma bm_keys_sorted [simp]: "sorted_wrt (<) (bm_keys m)"
  using bm_entries_sorted[of m] by (simp add: bm_keys_def al_sorted_def)

lemma bm_keys_distinct [simp]: "distinct (bm_keys m)"
  using bm_entries_sorted[of m] by (simp add: bm_keys_def al_sorted_distinct)

lemma bm_get_eq_map_of: "bm_get m k = map_of (bm_entries m) k"
  by transfer simp

lemma bm_entries_iff: "(k, v) \<in> set (bm_entries m) \<longleftrightarrow> bm_get m k = Some v"
  using bm_entries_sorted[of m]
  by (simp add: bm_get_eq_map_of al_sorted_distinct)

lemma set_bm_keys: "set (bm_keys m) = {k. bm_get m k \<noteq> None}"
  by (auto simp: bm_keys_def bm_get_eq_map_of map_of_eq_None_iff)

lemma in_bm_keys_iff: "k \<in> set (bm_keys m) \<longleftrightarrow> (\<exists>v. bm_get m k = Some v)"
  by (simp add: set_bm_keys)

lemma in_bm_values_iff: "v \<in> set (bm_values m) \<longleftrightarrow> (\<exists>k. bm_get m k = Some v)"
  by (force simp: bm_values_def image_iff simp flip: bm_entries_iff)

lemma bm_contains_key_iff [simp]: "bm_contains_key k m \<longleftrightarrow> k \<in> set (bm_keys m)"
  by (auto simp: bm_contains_key_def set_bm_keys)

lemma bm_len_keys: "bm_len m = card (set (bm_keys m))"
  by (simp add: bm_len_def distinct_card) (simp add: bm_keys_def)

lemma finite_bm_dom [simp]: "finite {k. bm_get m k \<noteq> None}"
  using set_bm_keys[of m] by (metis finite_set)

lemma set_bm_keys_insert [simp]: "set (bm_keys (bm_insert k v m)) = insert k (set (bm_keys m))"
  by (auto simp: set_bm_keys)

lemma set_bm_keys_empty [simp]: "set (bm_keys bm_empty) = {}"
  by (auto simp: set_bm_keys)

lemma bm_entries_unique:
  "bm_entries m = bm_entries m' \<longleftrightarrow> m = m'"
  by (rule bm_entries_inject)

text \<open>
  The contract a client of an ordered map relies on, stated apart from the representation:
  lookups after an update and iteration in strict key order. The facts about collecting a
  list into a map are proved from it once.
\<close>

locale ordered_map =
  fixes empty :: 'm
    and get :: "'m \<Rightarrow> 'k::linorder \<Rightarrow> 'v option"
    and insert_at :: "'k \<Rightarrow> 'v \<Rightarrow> 'm \<Rightarrow> 'm"
    and entries_of :: "'m \<Rightarrow> ('k \<times> 'v) list"
  assumes get_empty_law: "get empty k = None"
    and get_insert_law: "get (insert_at k v m) k' = (if k' = k then Some v else get m k')"
    and extensional_law: "(\<And>k. get m k = get m' k) \<Longrightarrow> m = m'"
    and entries_law: "(k, v) \<in> set (entries_of m) \<longleftrightarrow> get m k = Some v"
begin

lemma insert_twice: "insert_at k v (insert_at k w m) = insert_at k v m"
  by (rule extensional_law) (simp add: get_insert_law)

lemma insert_commute:
  "k \<noteq> l \<Longrightarrow> insert_at k v (insert_at l w m) = insert_at l w (insert_at k v m)"
  by (rule extensional_law) (simp add: get_insert_law)

lemma insert_same: "get m k = Some v \<Longrightarrow> insert_at k v m = m"
  by (rule extensional_law) (simp add: get_insert_law)

lemma fold_insert_get:
  "get (fold (\<lambda>(k, v). insert_at k v) xs m) k =
     (case map_of (rev xs) k of None \<Rightarrow> get m k | Some v \<Rightarrow> Some v)"
  by (induction xs arbitrary: m)
    (auto simp: get_insert_law map_add_def split: option.splits)

lemma fold_insert_unordered:
  assumes "distinct (map fst xs)" "set xs = set ys" "distinct (map fst ys)"
  shows "fold (\<lambda>(k, v). insert_at k v) xs m = fold (\<lambda>(k, v). insert_at k v) ys m"
proof (rule extensional_law)
  fix k
  have "map_of (rev xs) = map_of (rev ys)"
    using assms by (subst map_of_inject_set) (simp_all flip: rev_map)
  then show "get (fold (\<lambda>(k, v). insert_at k v) xs m) k = get (fold (\<lambda>(k, v). insert_at k v) ys m) k"
    by (simp add: fold_insert_get)
qed

end

interpretation bmap_impl: ordered_map bm_empty bm_get bm_insert bm_entries
  by unfold_locales (auto intro: bm_ext simp: bm_entries_iff)

lemma bm_get_from_list: "bm_get (bm_from_list xs) k = map_of (rev xs) k"
  by (simp add: bm_from_list_def bmap_impl.fold_insert_get split: option.splits)

lemma bm_get_from_list_distinct:
  "distinct (map fst xs) \<Longrightarrow> bm_get (bm_from_list xs) k = map_of xs k"
  using map_of_inject_set[of "rev xs" xs] by (simp add: bm_get_from_list flip: rev_map)

lemma bm_get_from_list_entries [simp]: "bm_get (bm_from_list (bm_entries m)) k = bm_get m k"
  by (subst bm_get_from_list_distinct) (simp_all add: bm_get_eq_map_of flip: bm_keys_def)

lemma bm_from_list_unordered:
  "distinct (map fst xs) \<Longrightarrow> set xs = set ys \<Longrightarrow> distinct (map fst ys) \<Longrightarrow>
   bm_from_list xs = bm_from_list ys"
  unfolding bm_from_list_def by (rule bmap_impl.fold_insert_unordered)

section \<open>Ordered sets\<close>

type_synonym 'k bset = "('k, unit) bmap"

definition bs_empty :: "'k::linorder bset" where
  "bs_empty = bm_empty"

definition bs_insert :: "'k::linorder \<Rightarrow> 'k bset \<Rightarrow> 'k bset" where
  "bs_insert k = bm_insert k ()"

definition bs_remove :: "'k::linorder \<Rightarrow> 'k bset \<Rightarrow> 'k bset" where
  "bs_remove = bm_remove"

definition bs_elems :: "'k::linorder bset \<Rightarrow> 'k list" where
  "bs_elems = bm_keys"

definition bs_contains :: "'k::linorder \<Rightarrow> 'k bset \<Rightarrow> bool" where
  "bs_contains k s = bm_contains_key k s"

definition bs_from_list :: "'k::linorder list \<Rightarrow> 'k bset" where
  "bs_from_list xs = fold bs_insert xs bs_empty"

definition bs_extend :: "'k::linorder list \<Rightarrow> 'k bset \<Rightarrow> 'k bset" where
  "bs_extend xs s = fold bs_insert xs s"

text \<open>\<open>pop_first\<close> removes and returns the least element.\<close>

definition bs_pop_first :: "'k::linorder bset \<Rightarrow> ('k \<times> 'k bset) option" where
  "bs_pop_first s = (case bs_elems s of [] \<Rightarrow> None | k # _ \<Rightarrow> Some (k, bs_remove k s))"

abbreviation bs_set :: "'k::linorder bset \<Rightarrow> 'k set" where
  "bs_set s \<equiv> set (bs_elems s)"

lemma bs_set_empty [simp]: "bs_set bs_empty = {}"
  by (simp add: bs_elems_def bs_empty_def)

lemma bs_elems_empty [simp]: "bs_elems bs_empty = []"
  using bs_set_empty by (metis set_empty)

lemma bs_set_insert [simp]: "bs_set (bs_insert k s) = insert k (bs_set s)"
  by (simp add: bs_elems_def bs_insert_def)

lemma bs_set_remove [simp]: "bs_set (bs_remove k s) = bs_set s - {k}"
  by (auto simp: bs_elems_def bs_remove_def set_bm_keys)

lemma bs_contains_iff [simp]: "bs_contains k s \<longleftrightarrow> k \<in> bs_set s"
  by (simp add: bs_contains_def bs_elems_def)

lemma bs_set_extend [simp]: "bs_set (bs_extend xs s) = set xs \<union> bs_set s"
  by (induction xs arbitrary: s) (auto simp: bs_extend_def)

lemma bs_set_from_list [simp]: "bs_set (bs_from_list xs) = set xs"
  using bs_set_extend[of xs bs_empty] by (simp add: bs_from_list_def bs_extend_def)

lemma bs_ext: "bs_set s = bs_set t \<Longrightarrow> s = t"
proof (rule bm_ext)
  fix k assume "bs_set s = bs_set t"
  then have "k \<in> {k. bm_get s k \<noteq> None} \<longleftrightarrow> k \<in> {k. bm_get t k \<noteq> None}"
    by (simp add: bs_elems_def set_bm_keys)
  then show "bm_get s k = bm_get t k"
    by (cases "bm_get s k"; cases "bm_get t k") auto
qed

lemma bs_elems_sorted [simp]: "sorted_wrt (<) (bs_elems s)"
  by (simp add: bs_elems_def)

lemma bs_elems_distinct [simp]: "distinct (bs_elems s)"
  by (simp add: bs_elems_def)

lemma bs_elems_eq_sorted_list: "bs_elems s = sorted_list_of_set (bs_set s)"
  by (metis bs_elems_sorted finite_set sorted_list_of_set.idem_if_sorted_distinct
      strict_sorted_iff)

lemma bs_elems_from_set: "bs_set s = A \<Longrightarrow> bs_elems s = sorted_list_of_set A"
  using bs_elems_eq_sorted_list by blast

lemma sorted_list_of_Collect_empty: "(\<And>x. \<not> P x) \<Longrightarrow> sorted_list_of_set {x. P x} = []"
  by simp

lemma bs_pop_first_None [simp]: "bs_pop_first s = None \<longleftrightarrow> bs_set s = {}"
  by (auto simp: bs_pop_first_def split: list.splits)

lemma bs_pop_first_empty [simp]: "bs_elems s = [] \<Longrightarrow> bs_pop_first s = None"
  by (simp add: bs_pop_first_def)

lemma bs_pop_first_Some:
  "bs_pop_first s = Some (k, t) \<Longrightarrow> k \<in> bs_set s \<and> bs_set t = bs_set s - {k} \<and> t = bs_remove k s"
  by (auto simp: bs_pop_first_def split: list.splits)

lemma bs_pop_first_least:
  assumes "bs_pop_first s = Some (k, t)" "k' \<in> bs_set s"
  shows "k \<le> k'"
proof -
  from assms(1) obtain ks where "bs_elems s = k # ks"
    by (auto simp: bs_pop_first_def split: list.splits)
  with bs_elems_sorted[of s] assms(2) show ?thesis by auto
qed

lemma card_bs_pop_first:
  "bs_pop_first s = Some (k, t) \<Longrightarrow> card (bs_set t) < card (bs_set s)"
  by (auto dest!: bs_pop_first_Some intro: psubset_card_mono)

end
