(* ===== verification/Incremental_Types.thy ===== *)
theory Incremental_Types
  imports Ordered_Map
begin

text \<open>
  The protocol records that the query engine and the dataflow engine of
  \<open>sim-incremental-core\<close> share: budgets, fingerprints, revisions, continuation tokens,
  observations and the query errors.
\<close>

section \<open>Budgets (budget.rs)\<close>

datatype budget_kind = Work | Observations | Depth | Output

record query_budgets =
  max_work :: usize
  max_observations :: usize
  max_depth :: usize
  max_output :: usize
  max_explanation_causes :: usize

definition unlimited_query_budgets :: query_budgets where
  "unlimited_query_budgets =
     \<lparr>max_work = usize_max, max_observations = usize_max, max_depth = usize_max,
      max_output = usize_max, max_explanation_causes = usize_max\<rparr>"

definition new_query_budgets :: "usize \<Rightarrow> usize \<Rightarrow> usize \<Rightarrow> usize \<Rightarrow> query_budgets" where
  "new_query_budgets work observations depth output =
     \<lparr>max_work = work, max_observations = observations, max_depth = depth,
      max_output = output, max_explanation_causes = usize_max\<rparr>"

definition with_explanation_causes :: "query_budgets \<Rightarrow> usize \<Rightarrow> query_budgets" where
  "with_explanation_causes b n = b\<lparr>max_explanation_causes := n\<rparr>"

record snapshot_budgets =
  max_nodes :: usize
  max_edges :: usize

definition unlimited_snapshot_budgets :: snapshot_budgets where
  "unlimited_snapshot_budgets = \<lparr>max_nodes = usize_max, max_edges = usize_max\<rparr>"

definition new_snapshot_budgets :: "usize \<Rightarrow> usize \<Rightarrow> snapshot_budgets" where
  "new_snapshot_budgets n e = \<lparr>max_nodes = n, max_edges = e\<rparr>"

section \<open>Fingerprints, revisions and tokens (fingerprint.rs, observation.rs, error.rs)\<close>

text \<open>
  The three newtypes over \<open>u64\<close>. \<open>FingerprintValue::incremental_fingerprint\<close> hashes a value
  with the hasher of the standard library; the definitions that call it take the hash
  function as an argument.
\<close>

type_synonym value_fingerprint = u64
type_synonym revision = u64
type_synonym continuation_token = u64

definition revision_zero :: revision where
  "revision_zero = 0"

section \<open>Observations (observation.rs)\<close>

datatype observation_kind =
  Read | Missing | Listing | Policy | Epoch | CustomKind string

record 'k observation =
  obs_key :: 'k
  obs_kind :: observation_kind
  obs_revision :: revision
  obs_fingerprint :: "value_fingerprint option"

definition observation_new ::
  "'k \<Rightarrow> observation_kind \<Rightarrow> revision \<Rightarrow> value_fingerprint option \<Rightarrow> 'k observation" where
  "observation_new k kind r fp =
     \<lparr>obs_key = k, obs_kind = kind, obs_revision = r, obs_fingerprint = fp\<rparr>"

definition observation_read :: "'k \<Rightarrow> revision \<Rightarrow> value_fingerprint \<Rightarrow> 'k observation" where
  "observation_read k r fp = observation_new k Read r (Some fp)"

lemma observation_new_sel [simp]:
  "obs_key (observation_new k kind r fp) = k"
  "obs_kind (observation_new k kind r fp) = kind"
  "obs_revision (observation_new k kind r fp) = r"
  "obs_fingerprint (observation_new k kind r fp) = fp"
  by (simp_all add: observation_new_def)

lemma observation_read_sel [simp]:
  "obs_key (observation_read k r f) = k"
  "obs_kind (observation_read k r f) = Read"
  "obs_revision (observation_read k r f) = r"
  "obs_fingerprint (observation_read k r f) = Some f"
  by (simp_all add: observation_read_def)

section \<open>Query errors (error.rs)\<close>

datatype 'k incremental_error =
    UnknownQuery 'k
  | Cycle "'k list"
  | BudgetExceeded budget_kind usize usize "continuation_token option"
  | Cancelled
  | UnknownContinuation continuation_token

fun error_continuation :: "'k incremental_error \<Rightarrow> continuation_token option" where
  "error_continuation (BudgetExceeded kind limit consumed token) = token"
| "error_continuation _ = None"

datatype 'k snapshot_error = DuplicateSnapshotNode 'k

end
