(* ===== verification/Lattice_Laws.thy ===== *)
theory Lattice_Laws
  imports Incremental_Types
begin

text \<open>
  Checked semilattice state and transfer-policy admission (dataflow/lattice.rs): the traits
  \<open>JoinSemilattice\<close> and \<open>TransferPolicy\<close> as records of their methods, the \<open>LawSuite\<close> that
  tests their laws on samples, admission, and the contract that the solver relies on as
  the locales \<open>join_semilattice\<close> and \<open>monotone_transfer\<close>.
\<close>

section \<open>The traits\<close>

record 's join_semilattice_ops =
  bottom_of :: "'s \<Rightarrow> 's"
  join :: "'s \<Rightarrow> 's \<Rightarrow> 's"
  less_equal :: "'s \<Rightarrow> 's \<Rightarrow> bool"
  state_size :: "'s \<Rightarrow> usize"

record 's transfer_policy =
  policy_fingerprint :: value_fingerprint
  policy_size :: usize
  transfer :: "'s \<Rightarrow> 's"

section \<open>Law violations\<close>

datatype dataflow_law =
    JoinIdempotent
  | JoinCommutative
  | JoinAssociative
  | BottomLaw
  | PartialOrderConsistent
  | TransferDeterministic
  | TransferMonotone
  | TransferProgress

record law_violation =
  law :: dataflow_law
  witnesses :: "usize list"

definition law_violation_new :: "dataflow_law \<Rightarrow> usize list \<Rightarrow> law_violation" where
  "law_violation_new l ws = \<lparr>law = l, witnesses = ws\<rparr>"

section \<open>The law suite\<close>

definition check_lattice_triple ::
  "'s join_semilattice_ops \<Rightarrow> nat \<times> 's \<Rightarrow> nat \<times> 's \<Rightarrow> nat \<times> 's \<Rightarrow> unit \<Rightarrow> (law_violation, unit) outcome" where
  "check_lattice_triple L = (\<lambda>(i, a) (j, b) (k, c) _.
     if join L (join L a b) c \<noteq> join L a (join L b c)
     then Err (law_violation_new JoinAssociative [i, j, k]) else Ok ())"

definition check_lattice_pair ::
  "'s join_semilattice_ops \<Rightarrow> (nat \<times> 's) list \<Rightarrow> nat \<times> 's \<Rightarrow> nat \<times> 's \<Rightarrow> unit \<Rightarrow>
   (law_violation, unit) outcome" where
  "check_lattice_pair L samples = (\<lambda>(i, a) (j, b) _.
     if join L a b \<noteq> join L b a then Err (law_violation_new JoinCommutative [i, j])
     else if less_equal L a b \<noteq> (join L a b = b) \<or>
             less_equal L a b \<and> less_equal L b a \<and> a \<noteq> b
       then Err (law_violation_new PartialOrderConsistent [i, j])
     else for_each (check_lattice_triple L (i, a) (j, b)) samples ())"

definition check_lattice_state ::
  "'s join_semilattice_ops \<Rightarrow> 's \<Rightarrow> (nat \<times> 's) list \<Rightarrow> nat \<times> 's \<Rightarrow> unit \<Rightarrow> (law_violation, unit) outcome" where
  "check_lattice_state L bottom samples = (\<lambda>(i, a) _.
     if join L a a \<noteq> a then Err (law_violation_new JoinIdempotent [i])
     else if \<not> less_equal L bottom a \<or> join L bottom a \<noteq> a \<or> join L a bottom \<noteq> a
       then Err (law_violation_new BottomLaw [i])
     else if \<not> less_equal L a a then Err (law_violation_new PartialOrderConsistent [i])
     else for_each (check_lattice_pair L samples (i, a)) samples ())"

definition check_lattice :: "'s join_semilattice_ops \<Rightarrow> 's list \<Rightarrow> (law_violation, unit) outcome" where
  "check_lattice L samples =
     (case samples of
        [] \<Rightarrow> Err (law_violation_new BottomLaw [])
      | first # _ \<Rightarrow>
          for_each (check_lattice_state L (bottom_of L first) (enumerate 0 samples))
            (enumerate 0 samples) ())"

definition check_transfer_pair ::
  "'s join_semilattice_ops \<Rightarrow> 's transfer_policy \<Rightarrow> nat \<times> 's \<Rightarrow> nat \<times> 's \<Rightarrow> unit \<Rightarrow>
   (law_violation, unit) outcome" where
  "check_transfer_pair L policy = (\<lambda>(i, a) (j, b) _.
     if less_equal L a b \<and> \<not> less_equal L (transfer policy a) (transfer policy b)
     then Err (law_violation_new TransferMonotone [i, j]) else Ok ())"

definition check_transfer_state ::
  "'s join_semilattice_ops \<Rightarrow> 's transfer_policy \<Rightarrow> (nat \<times> 's) list \<Rightarrow> nat \<times> 's \<Rightarrow> unit \<Rightarrow>
   (law_violation, unit) outcome" where
  "check_transfer_state L policy samples = (\<lambda>(i, a) _.
     let output = transfer policy a in
     if output \<noteq> transfer policy a then Err (law_violation_new TransferDeterministic [i])
     else if \<not> less_equal L a output then Err (law_violation_new TransferProgress [i])
     else for_each (check_transfer_pair L policy (i, a)) samples ())"

definition check_transfer ::
  "'s join_semilattice_ops \<Rightarrow> 's transfer_policy \<Rightarrow> 's list \<Rightarrow> (law_violation, unit) outcome" where
  "check_transfer L policy samples =
     for_each (check_transfer_state L policy (enumerate 0 samples)) (enumerate 0 samples) ()"

section \<open>Admission\<close>

record 's admitted_transfer =
  at_policy :: "'s transfer_policy"
  at_fingerprint :: value_fingerprint
  at_policy_size :: usize

definition admit ::
  "'s join_semilattice_ops \<Rightarrow> 's transfer_policy \<Rightarrow> 's list \<Rightarrow> (law_violation, 's admitted_transfer) outcome" where
  "admit L policy samples =
     bind_outcome (check_lattice L samples) (\<lambda>_.
     bind_outcome (check_transfer L policy samples) (\<lambda>_.
       Ok \<lparr>at_policy = policy, at_fingerprint = policy_fingerprint policy,
           at_policy_size = policy_size policy\<rparr>))"

definition admitted_transfer_apply :: "'s admitted_transfer \<Rightarrow> 's \<Rightarrow> 's" where
  "admitted_transfer_apply t = transfer (at_policy t)"

section \<open>The contract of a lattice and of a transfer\<close>

locale join_semilattice =
  fixes L :: "'s join_semilattice_ops" and bottom :: 's
  assumes join_idem: "join L a a = a"
    and join_comm: "join L a b = join L b a"
    and join_assoc: "join L (join L a b) c = join L a (join L b c)"
    and join_bot: "join L bottom a = a"
    and less_equal_join: "less_equal L a b \<longleftrightarrow> join L a b = b"
begin

lemma le_refl [simp]: "less_equal L a a"
  by (simp add: less_equal_join join_idem)

lemma le_antisym: "less_equal L a b \<Longrightarrow> less_equal L b a \<Longrightarrow> a = b"
  by (metis less_equal_join join_comm)

lemma le_trans: "less_equal L a b \<Longrightarrow> less_equal L b c \<Longrightarrow> less_equal L a c"
  by (metis less_equal_join join_assoc)

lemma bot_le [simp]: "less_equal L bottom a"
  by (simp add: less_equal_join join_bot)

lemma le_bot_iff: "less_equal L a bottom \<longleftrightarrow> a = bottom"
  using le_antisym by auto

lemma join_ub1 [simp]: "less_equal L a (join L a b)"
  by (simp add: less_equal_join join_idem flip: join_assoc)

lemma join_ub2 [simp]: "less_equal L b (join L a b)"
  by (metis join_comm join_ub1)

lemma join_lub: "less_equal L a c \<Longrightarrow> less_equal L b c \<Longrightarrow> less_equal L (join L a b) c"
  by (simp add: less_equal_join join_assoc)

lemma join_eq_iff: "join L a b = a \<longleftrightarrow> less_equal L b a"
  by (metis less_equal_join join_comm)

lemma join_le_iff: "less_equal L (join L a b) c \<longleftrightarrow> less_equal L a c \<and> less_equal L b c"
  by (meson join_lub join_ub1 join_ub2 le_trans)

lemma join_bot_right [simp]: "join L a bottom = a"
  by (simp add: join_eq_iff)

end

locale monotone_transfer = join_semilattice L bottom
  for L :: "'s join_semilattice_ops" and bottom :: 's +
  fixes f :: "'s \<Rightarrow> 's"
  assumes transfer_mono: "less_equal L a b \<Longrightarrow> less_equal L (f a) (f b)"
    and transfer_progress: "less_equal L a (f a)"

section \<open>What the law suite decides\<close>

text \<open>The laws a list of samples is checked for, as one predicate.\<close>

definition laws_on_samples :: "'s join_semilattice_ops \<Rightarrow> 's \<Rightarrow> 's set \<Rightarrow> bool" where
  "laws_on_samples L bottom S \<longleftrightarrow>
     (\<forall>a\<in>S. join L a a = a \<and> less_equal L bottom a \<and> join L bottom a = a \<and>
        join L a bottom = a \<and> less_equal L a a) \<and>
     (\<forall>a\<in>S. \<forall>b\<in>S. join L a b = join L b a \<and> (less_equal L a b \<longleftrightarrow> join L a b = b) \<and>
        (less_equal L a b \<longrightarrow> less_equal L b a \<longrightarrow> a = b)) \<and>
     (\<forall>a\<in>S. \<forall>b\<in>S. \<forall>c\<in>S. join L (join L a b) c = join L a (join L b c))"

definition transfer_laws_on_samples ::
  "'s join_semilattice_ops \<Rightarrow> 's transfer_policy \<Rightarrow> 's set \<Rightarrow> bool" where
  "transfer_laws_on_samples L policy S \<longleftrightarrow>
     (\<forall>a\<in>S. less_equal L a (transfer policy a)) \<and>
     (\<forall>a\<in>S. \<forall>b\<in>S. less_equal L a b \<longrightarrow> less_equal L (transfer policy a) (transfer policy b))"

lemma for_each_unit_Ok:
  "for_each body xs () = Ok () \<longleftrightarrow> (\<forall>x\<in>set xs. body x () = Ok ())"
  by (induction xs) (auto simp: outcome_simps)

lemma for_each_unit_Err:
  "for_each body xs () = Err e \<Longrightarrow> \<exists>x\<in>set xs. body x () = Err e"
  by (induction xs) (auto simp: outcome_simps)

lemma for_each_unit_Panic:
  "for_each body xs () = Panic p \<Longrightarrow> \<exists>x\<in>set xs. body x () = Panic p"
  by (induction xs) (auto simp: outcome_simps)

lemma enumerate_iff: "(i, a) \<in> set (enumerate 0 xs) \<longleftrightarrow> i < length xs \<and> a = xs ! i"
  by (auto simp: in_set_enumerate_eq)

lemma set_enumerate: "set xs = snd ` set (enumerate 0 xs)"
  by (metis list.set_map map_snd_enumerate)

lemma check_lattice_pair_Ok:
  "check_lattice_pair L samples p q () = Ok () \<longleftrightarrow>
     join L (snd p) (snd q) = join L (snd q) (snd p) \<and>
     (less_equal L (snd p) (snd q) \<longleftrightarrow> join L (snd p) (snd q) = snd q) \<and>
     (less_equal L (snd p) (snd q) \<longrightarrow> less_equal L (snd q) (snd p) \<longrightarrow> snd p = snd q) \<and>
     (\<forall>r\<in>set samples. join L (join L (snd p) (snd q)) (snd r) = join L (snd p) (join L (snd q) (snd r)))"
  by (cases p; cases q)
    (auto simp: check_lattice_pair_def check_lattice_triple_def for_each_unit_Ok split: if_splits)

lemma check_lattice_state_Ok:
  "check_lattice_state L bottom samples p () = Ok () \<longleftrightarrow>
     join L (snd p) (snd p) = snd p \<and> less_equal L bottom (snd p) \<and> join L bottom (snd p) = snd p \<and>
     join L (snd p) bottom = snd p \<and> less_equal L (snd p) (snd p) \<and>
     (\<forall>q\<in>set samples. check_lattice_pair L samples p q () = Ok ())"
  by (cases p) (auto simp: check_lattice_state_def for_each_unit_Ok)

lemma check_lattice_Ok_iff:
  "check_lattice L samples = Ok () \<longleftrightarrow>
     samples \<noteq> [] \<and> laws_on_samples L (bottom_of L (hd samples)) (set samples)"
proof (cases samples)
  case (Cons first rest)
  have "check_lattice L samples = Ok () \<longleftrightarrow>
      (\<forall>p\<in>set (enumerate 0 samples).
         check_lattice_state L (bottom_of L first) (enumerate 0 samples) p () = Ok ())"
    unfolding for_each_unit_Ok[symmetric] by (simp add: check_lattice_def Cons)
  also have "\<dots> \<longleftrightarrow> laws_on_samples L (bottom_of L first) (set samples)"
    unfolding check_lattice_state_Ok check_lattice_pair_Ok laws_on_samples_def
      set_enumerate[of samples] ball_simps by blast
  finally show ?thesis by (simp add: Cons)
qed (simp add: check_lattice_def)

lemma check_transfer_state_Ok:
  "check_transfer_state L policy samples p () = Ok () \<longleftrightarrow>
     less_equal L (snd p) (transfer policy (snd p)) \<and>
     (\<forall>q\<in>set samples. less_equal L (snd p) (snd q) \<longrightarrow>
        less_equal L (transfer policy (snd p)) (transfer policy (snd q)))"
  by (cases p)
    (auto simp: check_transfer_state_def check_transfer_pair_def for_each_unit_Ok split: if_splits)

lemma check_transfer_Ok_iff:
  "check_transfer L policy samples = Ok () \<longleftrightarrow> transfer_laws_on_samples L policy (set samples)"
  unfolding check_transfer_def for_each_unit_Ok check_transfer_state_Ok transfer_laws_on_samples_def
    set_enumerate[of samples] ball_simps by blast

text \<open>What a refusal says: the named law fails at the sample indices it carries.\<close>

fun law_broken ::
  "'s join_semilattice_ops \<Rightarrow> 's transfer_policy \<Rightarrow> 's list \<Rightarrow> dataflow_law \<Rightarrow> usize list \<Rightarrow> bool" where
  "law_broken L P xs JoinIdempotent [i] \<longleftrightarrow> i < length xs \<and> join L (xs ! i) (xs ! i) \<noteq> xs ! i"
| "law_broken L P xs BottomLaw [] \<longleftrightarrow> xs = []"
| "law_broken L P xs BottomLaw [i] \<longleftrightarrow> i < length xs \<and>
     (let b = bottom_of L (xs ! 0)
      in \<not> less_equal L b (xs ! i) \<or> join L b (xs ! i) \<noteq> xs ! i \<or> join L (xs ! i) b \<noteq> xs ! i)"
| "law_broken L P xs PartialOrderConsistent [i] \<longleftrightarrow> i < length xs \<and> \<not> less_equal L (xs ! i) (xs ! i)"
| "law_broken L P xs PartialOrderConsistent [i, j] \<longleftrightarrow> i < length xs \<and> j < length xs \<and>
     (less_equal L (xs ! i) (xs ! j) \<noteq> (join L (xs ! i) (xs ! j) = xs ! j) \<or>
      less_equal L (xs ! i) (xs ! j) \<and> less_equal L (xs ! j) (xs ! i) \<and> xs ! i \<noteq> xs ! j)"
| "law_broken L P xs JoinCommutative [i, j] \<longleftrightarrow> i < length xs \<and> j < length xs \<and>
     join L (xs ! i) (xs ! j) \<noteq> join L (xs ! j) (xs ! i)"
| "law_broken L P xs JoinAssociative [i, j, k] \<longleftrightarrow> i < length xs \<and> j < length xs \<and> k < length xs \<and>
     join L (join L (xs ! i) (xs ! j)) (xs ! k) \<noteq> join L (xs ! i) (join L (xs ! j) (xs ! k))"
| "law_broken L P xs TransferProgress [i] \<longleftrightarrow> i < length xs \<and>
     \<not> less_equal L (xs ! i) (transfer P (xs ! i))"
| "law_broken L P xs TransferMonotone [i, j] \<longleftrightarrow> i < length xs \<and> j < length xs \<and>
     less_equal L (xs ! i) (xs ! j) \<and> \<not> less_equal L (transfer P (xs ! i)) (transfer P (xs ! j))"
| "law_broken L P xs _ _ \<longleftrightarrow> False"

lemma check_lattice_pair_Err:
  assumes "check_lattice_pair L (enumerate 0 xs) (i, xs ! i) (j, xs ! j) () = Err v"
    and "i < length xs" "j < length xs"
  shows "law_broken L P xs (law v) (witnesses v)"
  using assms
  by (auto simp: check_lattice_pair_def check_lattice_triple_def law_violation_new_def enumerate_iff
      split: if_splits dest!: for_each_unit_Err)

lemma check_lattice_state_Err:
  assumes "check_lattice_state L (bottom_of L (xs ! 0)) (enumerate 0 xs) (i, xs ! i) () = Err v"
    and "i < length xs"
  shows "law_broken L P xs (law v) (witnesses v)"
  using assms
  by (auto simp: check_lattice_state_def law_violation_new_def enumerate_iff Let_def
      split: if_splits dest!: for_each_unit_Err intro: check_lattice_pair_Err)

lemma check_lattice_Err:
  assumes "check_lattice L xs = Err v"
  shows "law_broken L P xs (law v) (witnesses v)"
proof (cases xs)
  case Nil
  with assms show ?thesis by (auto simp: check_lattice_def law_violation_new_def)
next
  case (Cons first rest)
  with assms have "for_each (check_lattice_state L (bottom_of L (xs ! 0)) (enumerate 0 xs))
      (enumerate 0 xs) () = Err v"
    by (simp add: check_lattice_def)
  then obtain i where "i < length xs"
    "check_lattice_state L (bottom_of L (xs ! 0)) (enumerate 0 xs) (i, xs ! i) () = Err v"
    by (auto dest!: for_each_unit_Err simp: enumerate_iff)
  then show ?thesis by (rule check_lattice_state_Err[rotated])
qed

lemma check_transfer_Err:
  assumes "check_transfer L P xs = Err v"
  shows "law_broken L P xs (law v) (witnesses v)"
  using assms
  by (auto simp: check_transfer_def check_transfer_state_def check_transfer_pair_def
      law_violation_new_def enumerate_iff split: if_splits dest!: for_each_unit_Err)

lemma law_suite_no_panic: "check_lattice L xs \<noteq> Panic p" "check_transfer L P xs \<noteq> Panic p"
  by (cases xs;
      auto simp del: for_each.simps enumerate_simps simp: check_lattice_def check_lattice_state_def
        check_lattice_pair_def check_lattice_triple_def split: if_splits dest!: for_each_unit_Panic)
    (auto simp: check_transfer_def check_transfer_state_def check_transfer_pair_def
      split: if_splits dest!: for_each_unit_Panic)

lemma admit_Ok_unfold:
  "admit L policy samples = Ok t \<longleftrightarrow>
     samples \<noteq> [] \<and> laws_on_samples L (bottom_of L (hd samples)) (set samples) \<and>
     transfer_laws_on_samples L policy (set samples) \<and>
     t = \<lparr>at_policy = policy, at_fingerprint = policy_fingerprint policy,
          at_policy_size = policy_size policy\<rparr>"
  by (auto simp: admit_def outcome_simps check_lattice_Ok_iff check_transfer_Ok_iff)

section \<open>Properties of admission\<close>

text \<open>
  \<open>AdmittedTransfer::admit\<close> never panics; it admits exactly the policies whose samples are
  non-empty and satisfy every lattice and transfer law, and captures the policy's identity
  and size.
\<close>

theorem admit_Ok_iff:
  "admit L policy samples = Ok t \<longleftrightarrow>
     samples \<noteq> [] \<and> laws_on_samples L (bottom_of L (hd samples)) (set samples) \<and>
     transfer_laws_on_samples L policy (set samples) \<and>
     t = \<lparr>at_policy = policy, at_fingerprint = policy_fingerprint policy,
          at_policy_size = policy_size policy\<rparr>"
  by (rule admit_Ok_unfold)

text \<open>
  A refusal names a law and carries sample indices at which that law really fails.
\<close>

theorem admit_Err_broken:
  assumes "admit L policy samples = Err v"
  shows "law_broken L policy samples (law v) (witnesses v)"
  using assms by (auto simp: admit_def outcome_simps intro: check_lattice_Err check_transfer_Err)

text \<open>
  When the samples enumerate the whole state type, admission establishes the contract the
  solver relies on: a join semilattice and a monotone inflationary transfer.
\<close>

theorem admit_exhaustive:
  assumes "admit L policy samples = Ok t" and "set samples = UNIV"
  shows "monotone_transfer L (bottom_of L (hd samples)) (admitted_transfer_apply t)"
  using assms unfolding admit_Ok_unfold
  by unfold_locales
    (auto simp: laws_on_samples_def transfer_laws_on_samples_def admitted_transfer_apply_def)

end
