(* ===== verification/Dataflow_Graph.thy ===== *)
theory Dataflow_Graph
  imports Lattice_Laws
begin

text \<open>
  Immutable dataflow graphs (dataflow/graph.rs): declarations, checked construction with the
  predecessor and successor indices, and the lookups. The properties: which declarations are
  accepted, what the frozen indices hold, that construction never reaches one of its
  \<open>expect\<close> calls with a missing entry, and that the order of the declarations is irrelevant.
\<close>

section \<open>Declarations and graph\<close>

datatype 'c edge_class = Data | Control | Custom 'c

datatype graph_direction = Forward | Reverse

datatype boundary = Internal | Input | Output | InputOutput

fun is_input :: "boundary \<Rightarrow> bool" where
  "is_input Input = True"
| "is_input InputOutput = True"
| "is_input _ = False"

fun is_output :: "boundary \<Rightarrow> bool" where
  "is_output boundary.Output = True"
| "is_output InputOutput = True"
| "is_output _ = False"

record ('n, 'l) node_spec =
  ns_id :: 'n
  ns_location :: 'l
  ns_boundary :: boundary

record ('e, 'n, 'c) edge_spec =
  es_id :: 'e
  es_source :: 'n
  es_target :: 'n
  es_class :: "'c edge_class"
  es_direction :: graph_direction

record ('n, 'l) graph_node =
  n_id :: 'n
  n_location :: 'l
  n_boundary :: boundary

record ('e, 'n, 'c) graph_edge =
  e_id :: 'e
  e_source :: 'n
  e_target :: 'n
  e_class :: "'c edge_class"
  e_direction :: graph_direction

definition predecessor_and_successor :: "('e, 'n, 'c) graph_edge \<Rightarrow> 'n \<times> 'n" where
  "predecessor_and_successor e =
     (case e_direction e of
        Forward \<Rightarrow> (e_source e, e_target e)
      | Reverse \<Rightarrow> (e_target e, e_source e))"

abbreviation edge_pred :: "('e, 'n, 'c) graph_edge \<Rightarrow> 'n" where
  "edge_pred e \<equiv> fst (predecessor_and_successor e)"

abbreviation edge_succ :: "('e, 'n, 'c) graph_edge \<Rightarrow> 'n" where
  "edge_succ e \<equiv> snd (predecessor_and_successor e)"

datatype ('n, 'e) graph_build_error =
    DuplicateNode 'n
  | DuplicateEdge 'e
  | MissingNode 'e 'n
  | InputHasPredecessor 'n
  | OutputHasSuccessor 'n
  | EmptyGraph

record (overloaded) ('n, 'e, 'l, 'c) dataflow_graph =
  g_nodes :: "('n::linorder, ('n, 'l) graph_node) bmap"
  g_edges :: "('e::linorder, ('e, 'n, 'c) graph_edge) bmap"
  g_predecessors :: "('n, 'e list) bmap"
  g_successors :: "('n, 'e list) bmap"
  g_fingerprint :: value_fingerprint

section \<open>Checked construction\<close>

definition frozen_node :: "('n, 'l) node_spec \<Rightarrow> ('n, 'l) graph_node" where
  "frozen_node s = \<lparr>n_id = ns_id s, n_location = ns_location s, n_boundary = ns_boundary s\<rparr>"

definition frozen_edge :: "('e, 'n, 'c) edge_spec \<Rightarrow> ('e, 'n, 'c) graph_edge" where
  "frozen_edge s = \<lparr>e_id = es_id s, e_source = es_source s, e_target = es_target s,
     e_class = es_class s, e_direction = es_direction s\<rparr>"

definition freeze_node ::
  "('n::linorder, 'l) node_spec \<Rightarrow> ('n, ('n, 'l) graph_node) bmap \<Rightarrow>
   (('n, 'e) graph_build_error, ('n, ('n, 'l) graph_node) bmap) outcome" where
  "freeze_node s m =
     (if bm_contains_key (ns_id s) m then Err (DuplicateNode (ns_id s))
      else Ok (bm_insert (ns_id s) (frozen_node s) m))"

definition check_endpoint ::
  "('n::linorder, ('n, 'l) graph_node) bmap \<Rightarrow> 'e \<Rightarrow> 'n \<Rightarrow> unit \<Rightarrow> (('n, 'e) graph_build_error, unit) outcome" where
  "check_endpoint nodes i endpoint _ =
     (if \<not> bm_contains_key endpoint nodes then Err (MissingNode i endpoint) else Ok ())"

definition freeze_edge ::
  "('n::linorder, ('n, 'l) graph_node) bmap \<Rightarrow> ('e::linorder, 'n, 'c) edge_spec \<Rightarrow>
   ('e, ('e, 'n, 'c) graph_edge) bmap \<Rightarrow>
   (('n, 'e) graph_build_error, ('e, ('e, 'n, 'c) graph_edge) bmap) outcome" where
  "freeze_edge nodes s m =
     bind_outcome (for_each (check_endpoint nodes (es_id s)) [es_source s, es_target s] ()) (\<lambda>_.
       if bm_contains_key (es_id s) m then Err (DuplicateEdge (es_id s))
       else Ok (bm_insert (es_id s) (frozen_edge s) m))"

definition index_edge ::
  "'e::linorder \<times> ('e, 'n::linorder, 'c) graph_edge \<Rightarrow> ('n, 'e bset) bmap \<times> ('n, 'e bset) bmap \<Rightarrow>
   (('n, 'e) graph_build_error, ('n, 'e bset) bmap \<times> ('n, 'e bset) bmap) outcome" where
  "index_edge = (\<lambda>(i, edge) (predecessors, successors).
     let (predecessor, successor) = predecessor_and_successor edge in
     bind_outcome (expect ''validated edge source exists'' (bm_get successors predecessor)) (\<lambda>out.
     bind_outcome (expect ''validated edge target exists'' (bm_get predecessors successor)) (\<lambda>inc.
       Ok (bm_insert successor (bs_insert i inc) predecessors,
           bm_insert predecessor (bs_insert i out) successors))))"

definition check_boundary ::
  "('n::linorder, 'e::linorder bset) bmap \<Rightarrow> ('n, 'e bset) bmap \<Rightarrow> 'n \<times> ('n, 'l) graph_node \<Rightarrow> unit \<Rightarrow>
   (('n, 'e) graph_build_error, unit) outcome" where
  "check_boundary predecessors successors = (\<lambda>(i, node) _.
     bind_outcome
       (if is_input (n_boundary node) then
          bind_outcome (expect ''no entry found for key'' (bm_get predecessors i)) (\<lambda>inc.
            if bs_elems inc \<noteq> [] then Err (InputHasPredecessor i) else Ok ())
        else Ok ()) (\<lambda>_.
       if is_output (n_boundary node) then
         bind_outcome (expect ''no entry found for key'' (bm_get successors i)) (\<lambda>out.
           if bs_elems out \<noteq> [] then Err (OutputHasSuccessor i) else Ok ())
       else Ok ()))"

definition freeze_index :: "('k::linorder, 'v::linorder bset) bmap \<Rightarrow> ('k, 'v list) bmap" where
  "freeze_index = bm_map (\<lambda>_. bs_elems)"

definition build ::
  "(('n::linorder, ('n, 'l) graph_node) bmap \<times> ('e::linorder, ('e, 'n, 'c) graph_edge) bmap \<Rightarrow> value_fingerprint) \<Rightarrow>
   ('n, 'l) node_spec list \<Rightarrow> ('e, 'n, 'c) edge_spec list \<Rightarrow>
   (('n, 'e) graph_build_error, ('n, 'e, 'l, 'c) dataflow_graph) outcome" where
  "build fp nodes edges =
     bind_outcome (for_each freeze_node nodes bm_empty) (\<lambda>frozen_nodes.
     if bm_entries frozen_nodes = [] then Err EmptyGraph else
     bind_outcome (for_each (freeze_edge frozen_nodes) edges bm_empty) (\<lambda>frozen_edges.
     let blank = bm_map (\<lambda>_ _. bs_empty) frozen_nodes in
     bind_outcome (for_each index_edge (bm_entries frozen_edges) (blank, blank))
       (\<lambda>(predecessors, successors).
     bind_outcome
       (for_each (check_boundary predecessors successors) (bm_entries frozen_nodes) ()) (\<lambda>_.
       Ok \<lparr>g_nodes = frozen_nodes, g_edges = frozen_edges,
           g_predecessors = freeze_index predecessors, g_successors = freeze_index successors,
           g_fingerprint = fp (frozen_nodes, frozen_edges)\<rparr>))))"

section \<open>Lookups\<close>

definition node_of :: "('n::linorder, 'e::linorder, 'l, 'c) dataflow_graph \<Rightarrow> 'n \<Rightarrow> ('n, 'l) graph_node option" where
  "node_of g n = bm_get (g_nodes g) n"

definition edge_of :: "('n::linorder, 'e::linorder, 'l, 'c) dataflow_graph \<Rightarrow> 'e \<Rightarrow> ('e, 'n, 'c) graph_edge option" where
  "edge_of g e = bm_get (g_edges g) e"

definition nodes_of :: "('n::linorder, 'e::linorder, 'l, 'c) dataflow_graph \<Rightarrow> ('n, 'l) graph_node list" where
  "nodes_of g = bm_values (g_nodes g)"

definition edges_of :: "('n::linorder, 'e::linorder, 'l, 'c) dataflow_graph \<Rightarrow> ('e, 'n, 'c) graph_edge list" where
  "edges_of g = bm_values (g_edges g)"

definition predecessors_of :: "('n::linorder, 'e::linorder, 'l, 'c) dataflow_graph \<Rightarrow> 'n \<Rightarrow> 'e list option" where
  "predecessors_of g n = bm_get (g_predecessors g) n"

definition successors_of :: "('n::linorder, 'e::linorder, 'l, 'c) dataflow_graph \<Rightarrow> 'n \<Rightarrow> 'e list option" where
  "successors_of g n = bm_get (g_successors g) n"

section \<open>What construction decides\<close>

abbreviation node_ids :: "('n::linorder, 'e::linorder, 'l, 'c) dataflow_graph \<Rightarrow> 'n set" where
  "node_ids g \<equiv> set (bm_keys (g_nodes g))"

text \<open>The invariant of a frozen graph.\<close>

definition wf_graph :: "('n::linorder, 'e::linorder, 'l, 'c) dataflow_graph \<Rightarrow> bool" where
  "wf_graph g \<longleftrightarrow>
     node_ids g \<noteq> {} \<and>
     (\<forall>n v. node_of g n = Some v \<longrightarrow> n_id v = n) \<and>
     (\<forall>i e. edge_of g i = Some e \<longrightarrow> e_id e = i \<and> edge_pred e \<in> node_ids g \<and> edge_succ e \<in> node_ids g) \<and>
     (\<forall>n. successors_of g n =
        (if n \<in> node_ids g
         then Some (sorted_list_of_set {i. \<exists>e. edge_of g i = Some e \<and> edge_pred e = n}) else None)) \<and>
     (\<forall>n. predecessors_of g n =
        (if n \<in> node_ids g
         then Some (sorted_list_of_set {i. \<exists>e. edge_of g i = Some e \<and> edge_succ e = n}) else None)) \<and>
     (\<forall>n v. node_of g n = Some v \<longrightarrow>
        (is_input (n_boundary v) \<longrightarrow> predecessors_of g n = Some []) \<and>
        (is_output (n_boundary v) \<longrightarrow> successors_of g n = Some []))"

text \<open>The declarations that may be frozen.\<close>

definition valid_declarations :: "('n, 'l) node_spec list \<Rightarrow> ('e, 'n, 'c) edge_spec list \<Rightarrow> bool" where
  "valid_declarations nodes edges \<longleftrightarrow>
     nodes \<noteq> [] \<and> distinct (map ns_id nodes) \<and> distinct (map es_id edges) \<and>
     (\<forall>e\<in>set edges. es_source e \<in> ns_id ` set nodes \<and> es_target e \<in> ns_id ` set nodes) \<and>
     (\<forall>n\<in>set nodes. is_input (ns_boundary n) \<longrightarrow>
        (\<forall>e\<in>set edges. edge_succ (frozen_edge e) \<noteq> ns_id n)) \<and>
     (\<forall>n\<in>set nodes. is_output (ns_boundary n) \<longrightarrow>
        (\<forall>e\<in>set edges. edge_pred (frozen_edge e) \<noteq> ns_id n))"

definition declared_nodes :: "('n::linorder, 'l) node_spec list \<Rightarrow> ('n, ('n, 'l) graph_node) bmap" where
  "declared_nodes nodes = bm_from_list (map (\<lambda>s. (ns_id s, frozen_node s)) nodes)"

definition declared_edges :: "('e::linorder, 'n, 'c) edge_spec list \<Rightarrow> ('e, ('e, 'n, 'c) graph_edge) bmap" where
  "declared_edges edges = bm_from_list (map (\<lambda>s. (es_id s, frozen_edge s)) edges)"

subsection \<open>Freezing the declarations\<close>

lemma freeze_nodes_fold:
  "for_each freeze_node nodes m = Ok m' \<longleftrightarrow>
     distinct (map ns_id nodes) \<and> ns_id ` set nodes \<inter> set (bm_keys m) = {} \<and>
     m' = fold (\<lambda>(k, v). bm_insert k v) (map (\<lambda>s. (ns_id s, frozen_node s)) nodes) m"
proof (induction nodes arbitrary: m)
  case (Cons s nodes)
  then show ?case
    by (cases "ns_id s \<in> set (bm_keys m)") (auto simp: freeze_node_def)
qed auto

lemma freeze_nodes_Ok:
  "for_each freeze_node nodes bm_empty = Ok m \<longleftrightarrow> distinct (map ns_id nodes) \<and> m = declared_nodes nodes"
  by (simp add: freeze_nodes_fold declared_nodes_def bm_from_list_def)

lemma freeze_nodes_eq:
  "distinct (map ns_id nodes) \<Longrightarrow> for_each freeze_node nodes bm_empty = Ok (declared_nodes nodes)"
  by (simp add: freeze_nodes_Ok)

lemma freeze_nodes_no_panic: "for_each freeze_node nodes m \<noteq> Panic p"
  by (induction nodes arbitrary: m) (auto simp: freeze_node_def outcome_simps)

lemma freeze_edge_Ok:
  "freeze_edge nodes s m = Ok m' \<longleftrightarrow>
     es_source s \<in> set (bm_keys nodes) \<and> es_target s \<in> set (bm_keys nodes) \<and>
     es_id s \<notin> set (bm_keys m) \<and> m' = bm_insert (es_id s) (frozen_edge s) m"
  by (auto simp: freeze_edge_def check_endpoint_def outcome_simps)

lemma freeze_edges_fold:
  "for_each (freeze_edge nodes) edges m = Ok m' \<longleftrightarrow>
     (\<forall>e\<in>set edges. es_source e \<in> set (bm_keys nodes) \<and> es_target e \<in> set (bm_keys nodes)) \<and>
     distinct (map es_id edges) \<and> es_id ` set edges \<inter> set (bm_keys m) = {} \<and>
     m' = fold (\<lambda>(k, v). bm_insert k v) (map (\<lambda>s. (es_id s, frozen_edge s)) edges) m"
proof (induction edges arbitrary: m)
  case (Cons s edges)
  show ?case unfolding for_each.simps bind_outcome_Ok_iff freeze_edge_Ok
    using Cons by auto
qed auto

lemma freeze_edges_Ok:
  "for_each (freeze_edge nodes) edges bm_empty = Ok m \<longleftrightarrow>
     (\<forall>e\<in>set edges. es_source e \<in> set (bm_keys nodes) \<and> es_target e \<in> set (bm_keys nodes)) \<and>
     distinct (map es_id edges) \<and> m = declared_edges edges"
  by (simp add: freeze_edges_fold declared_edges_def bm_from_list_def)

lemma freeze_edges_no_panic: "for_each (freeze_edge nodes) edges m \<noteq> Panic p"
  by (induction edges arbitrary: m) (auto simp: freeze_edge_def check_endpoint_def outcome_simps)

lemma get_declared_nodes:
  assumes "distinct (map ns_id nodes)"
  shows "bm_get (declared_nodes nodes) n = Some v \<longleftrightarrow> (\<exists>s\<in>set nodes. n = ns_id s \<and> v = frozen_node s)"
proof -
  have "distinct (map fst (map (\<lambda>s. (ns_id s, frozen_node s)) nodes))"
    using assms by (simp add: comp_def)
  then show ?thesis
    by (auto simp: declared_nodes_def bm_get_from_list_distinct simp del: map_map)
qed

lemma get_declared_edges:
  assumes "distinct (map es_id edges)"
  shows "bm_get (declared_edges edges) i = Some v \<longleftrightarrow> (\<exists>s\<in>set edges. i = es_id s \<and> v = frozen_edge s)"
proof -
  have "distinct (map fst (map (\<lambda>s. (es_id s, frozen_edge s)) edges))"
    using assms by (simp add: comp_def)
  then show ?thesis
    by (auto simp: declared_edges_def bm_get_from_list_distinct simp del: map_map)
qed

lemma keys_declared_nodes:
  "distinct (map ns_id nodes) \<Longrightarrow> set (bm_keys (declared_nodes nodes)) = ns_id ` set nodes"
  unfolding set_eq_iff in_bm_keys_iff by (simp add: get_declared_nodes) blast

lemma declared_nodes_empty:
  "distinct (map ns_id nodes) \<Longrightarrow> bm_entries (declared_nodes nodes) = [] \<longleftrightarrow> nodes = []"
  using keys_declared_nodes[of nodes] by (auto simp: bm_keys_def)

subsection \<open>The indices\<close>

text \<open>The invariant of the indexing loop after the edges in \<open>I\<close>.\<close>

definition index_inv ::
  "'n::linorder set \<Rightarrow> ('e::linorder \<times> ('e, 'n, 'c) graph_edge) set \<Rightarrow>
   ('n, 'e bset) bmap \<times> ('n, 'e bset) bmap \<Rightarrow> bool" where
  "index_inv V I = (\<lambda>(predecessors, successors).
     set (bm_keys predecessors) = V \<and> set (bm_keys successors) = V \<and>
     (\<forall>n s. bm_get predecessors n = Some s \<longrightarrow> bs_set s = {i. \<exists>e. (i, e) \<in> I \<and> edge_succ e = n}) \<and>
     (\<forall>n s. bm_get successors n = Some s \<longrightarrow> bs_set s = {i. \<exists>e. (i, e) \<in> I \<and> edge_pred e = n}))"

lemma index_edge_step:
  assumes "index_inv V I ps" "edge_pred e \<in> V" "edge_succ e \<in> V"
  shows "\<exists>qs. index_edge (i, e) ps = Ok qs \<and> index_inv V (insert (i, e) I) qs"
proof -
  obtain p s where ps: "ps = (p, s)" by (cases ps)
  from assms have "edge_pred e \<in> set (bm_keys s)" "edge_succ e \<in> set (bm_keys p)"
    by (simp_all add: index_inv_def ps)
  then obtain out inc where
    get: "bm_get s (edge_pred e) = Some out" "bm_get p (edge_succ e) = Some inc"
    unfolding in_bm_keys_iff by blast
  let ?qs = "(bm_insert (edge_succ e) (bs_insert i inc) p, bm_insert (edge_pred e) (bs_insert i out) s)"
  have "index_edge (i, e) ps = Ok ?qs"
    using get by (simp add: index_edge_def ps case_prod_beta Let_def)
  moreover have "index_inv V (insert (i, e) I) ?qs"
    using assms get by (auto simp: index_inv_def ps split: if_splits)
  ultimately show ?thesis by blast
qed

lemma index_edges:
  assumes "index_inv V I ps" "\<And>i e. (i, e) \<in> set xs \<Longrightarrow> edge_pred e \<in> V \<and> edge_succ e \<in> V"
  shows "\<exists>qs. for_each index_edge xs ps = Ok qs \<and> index_inv V (set xs \<union> I) qs"
  using assms
proof (induction xs arbitrary: I ps)
  case (Cons x xs)
  obtain i e where x: "x = (i, e)" by (cases x)
  with Cons.prems obtain qs where qs: "index_edge x ps = Ok qs" "index_inv V (insert x I) qs"
    using index_edge_step[of V I ps e i] by auto
  from Cons.IH[OF qs(2)] Cons.prems(2) obtain rs where
    "for_each index_edge xs qs = Ok rs" "index_inv V (set xs \<union> insert x I) rs" by auto
  with qs(1) show ?case by auto
qed auto

lemma index_inv_blank: "index_inv (set (bm_keys m)) {} (bm_map (\<lambda>_ _. bs_empty) m, bm_map (\<lambda>_ _. bs_empty) m)"
  by (auto simp: index_inv_def set_bm_keys)

lemma check_boundary_cases:
  assumes "bm_get predecessors i = Some inc" "bm_get successors i = Some out"
  shows "check_boundary predecessors successors (i, node) () \<noteq> Panic p"
    and "check_boundary predecessors successors (i, node) () = Ok () \<longleftrightarrow>
      (is_input (n_boundary node) \<longrightarrow> bs_set inc = {}) \<and> (is_output (n_boundary node) \<longrightarrow> bs_set out = {})"
  using assms by (auto simp: check_boundary_def outcome_simps)

text \<open>The whole construction, once the loops are replaced by what they compute.\<close>

lemma build_unfold:
  assumes "nodes \<noteq> []" "distinct (map ns_id nodes)" "distinct (map es_id edges)"
    and "\<forall>e\<in>set edges. es_source e \<in> ns_id ` set nodes \<and> es_target e \<in> ns_id ` set nodes"
  defines "N \<equiv> declared_nodes nodes" and "E \<equiv> declared_edges edges"
  obtains predecessors successors where
    "build fp nodes edges =
       bind_outcome (for_each (check_boundary predecessors successors) (bm_entries N) ()) (\<lambda>_.
         Ok \<lparr>g_nodes = N, g_edges = E, g_predecessors = freeze_index predecessors,
             g_successors = freeze_index successors, g_fingerprint = fp (N, E)\<rparr>)"
    "index_inv (set (bm_keys N)) (set (bm_entries E)) (predecessors, successors)"
proof -
  let ?blank = "bm_map (\<lambda>_ _. bs_empty) N"
  have ends: "edge_pred e \<in> set (bm_keys N) \<and> edge_succ e \<in> set (bm_keys N)"
    if "(i, e) \<in> set (bm_entries E)" for i e
    using that assms(2,3,4) unfolding N_def E_def
    by (auto simp: bm_entries_iff get_declared_edges keys_declared_nodes frozen_edge_def
        predecessor_and_successor_def split: graph_direction.splits)
  from index_edges[OF index_inv_blank[of N], of "bm_entries E"] ends
  obtain ps where ps: "for_each index_edge (bm_entries E) (?blank, ?blank) = Ok ps"
    "index_inv (set (bm_keys N)) (set (bm_entries E)) ps" by auto
  have "bm_entries N \<noteq> []"
    using assms(1,2) by (simp add: N_def declared_nodes_empty)
  moreover have "for_each (freeze_edge N) edges bm_empty = Ok E"
    using assms(2,3,4) by (simp add: freeze_edges_Ok N_def E_def keys_declared_nodes)
  ultimately have "build fp nodes edges =
       bind_outcome (for_each (check_boundary (fst ps) (snd ps)) (bm_entries N) ()) (\<lambda>_.
         Ok \<lparr>g_nodes = N, g_edges = E, g_predecessors = freeze_index (fst ps),
             g_successors = freeze_index (snd ps), g_fingerprint = fp (N, E)\<rparr>)"
    using ps(1)
    by (simp add: build_def Let_def case_prod_beta freeze_nodes_eq[OF assms(2), folded N_def])
  then show ?thesis using ps(2) by (intro that[of "fst ps" "snd ps"]) simp_all
qed

lemma boundaries_Ok:
  fixes N :: "('n::linorder, ('n, 'l) graph_node) bmap"
  assumes "index_inv (set (bm_keys N)) (set (bm_entries E)) (predecessors, successors)"
  shows "for_each (check_boundary predecessors successors) (bm_entries N) () \<noteq> Panic p"
    and "for_each (check_boundary predecessors successors) (bm_entries N) () = Ok () \<longleftrightarrow>
      (\<forall>n v. bm_get N n = Some v \<longrightarrow>
         (is_input (n_boundary v) \<longrightarrow> (\<forall>i e. bm_get E i = Some e \<longrightarrow> edge_succ e \<noteq> n)) \<and>
         (is_output (n_boundary v) \<longrightarrow> (\<forall>i e. bm_get E i = Some e \<longrightarrow> edge_pred e \<noteq> n)))"
proof -
  have idx: "\<exists>inc out. bm_get predecessors n = Some inc \<and> bm_get successors n = Some out \<and>
      bs_set inc = {i. \<exists>e. bm_get E i = Some e \<and> edge_succ e = n} \<and>
      bs_set out = {i. \<exists>e. bm_get E i = Some e \<and> edge_pred e = n}"
    if "bm_get N n = Some v" for n v
  proof -
    from that have "n \<in> set (bm_keys N)" by (auto simp: in_bm_keys_iff)
    with assms have "n \<in> set (bm_keys predecessors)" "n \<in> set (bm_keys successors)"
      by (simp_all add: index_inv_def)
    then obtain inc out where io: "bm_get predecessors n = Some inc" "bm_get successors n = Some out"
      unfolding in_bm_keys_iff by blast
    with assms have "bs_set inc = {i. \<exists>e. (i, e) \<in> set (bm_entries E) \<and> edge_succ e = n}"
      "bs_set out = {i. \<exists>e. (i, e) \<in> set (bm_entries E) \<and> edge_pred e = n}"
      unfolding index_inv_def by blast+
    with io show ?thesis unfolding bm_entries_iff by blast
  qed
  show "for_each (check_boundary predecessors successors) (bm_entries N) () \<noteq> Panic p"
  proof
    assume "for_each (check_boundary predecessors successors) (bm_entries N) () = Panic p"
    then obtain n v where "bm_get N n = Some v" "check_boundary predecessors successors (n, v) () = Panic p"
      by (auto dest!: for_each_unit_Panic simp: bm_entries_iff)
    with idx[of n v] obtain inc out where
      "bm_get predecessors n = Some inc" "bm_get successors n = Some out" by blast
    from check_boundary_cases(1)[OF this] show False
      using \<open>check_boundary predecessors successors (n, v) () = Panic p\<close> by blast
  qed
  define Q where "Q n v \<longleftrightarrow>
      (is_input (n_boundary v) \<longrightarrow> (\<forall>i e. bm_get E i = Some e \<longrightarrow> edge_succ e \<noteq> n)) \<and>
      (is_output (n_boundary v) \<longrightarrow> (\<forall>i e. bm_get E i = Some e \<longrightarrow> edge_pred e \<noteq> n))"
    for n and v :: "('n, 'l) graph_node"
  have "check_boundary predecessors successors (n, v) () = Ok () \<longleftrightarrow> Q n v"
    if "bm_get N n = Some v" for n v
  proof -
    from idx[OF that] obtain inc out where io:
      "bm_get predecessors n = Some inc" "bm_get successors n = Some out"
      "bs_set inc = {i. \<exists>e. bm_get E i = Some e \<and> edge_succ e = n}"
      "bs_set out = {i. \<exists>e. bm_get E i = Some e \<and> edge_pred e = n}" by blast
    show ?thesis unfolding check_boundary_cases(2)[OF io(1,2)] io(3,4) Q_def by blast
  qed
  then have "for_each (check_boundary predecessors successors) (bm_entries N) () = Ok () \<longleftrightarrow>
      (\<forall>n v. bm_get N n = Some v \<longrightarrow> Q n v)"
    unfolding for_each_unit_Ok by (force simp: bm_entries_iff)
  then show "for_each (check_boundary predecessors successors) (bm_entries N) () = Ok () \<longleftrightarrow>
      (\<forall>n v. bm_get N n = Some v \<longrightarrow>
         (is_input (n_boundary v) \<longrightarrow> (\<forall>i e. bm_get E i = Some e \<longrightarrow> edge_succ e \<noteq> n)) \<and>
         (is_output (n_boundary v) \<longrightarrow> (\<forall>i e. bm_get E i = Some e \<longrightarrow> edge_pred e \<noteq> n)))"
    unfolding Q_def .
qed

lemma frozen_index_get:
  assumes "set (bm_keys m) = V" "\<And>n s. bm_get m n = Some s \<Longrightarrow> bs_set s = A n"
  shows "bm_get (freeze_index m) n = (if n \<in> V then Some (sorted_list_of_set (A n)) else None)"
proof (cases "bm_get m n")
  case None
  with assms(1) have "n \<notin> V" by (auto simp: set_bm_keys)
  with None show ?thesis by (simp add: freeze_index_def)
next
  case (Some s)
  with assms(1) have "n \<in> V" by (auto simp: set_bm_keys)
  with Some show ?thesis
    by (simp add: freeze_index_def bs_elems_from_set[OF assms(2)[OF Some]])
qed

lemma frozen_successors:
  assumes "index_inv V (set (bm_entries E)) (predecessors, successors)"
  shows "bm_get (freeze_index successors) n =
    (if n \<in> V then Some (sorted_list_of_set {i. \<exists>e. bm_get E i = Some e \<and> edge_pred e = n}) else None)"
  by (rule frozen_index_get) (use assms in \<open>auto simp: index_inv_def bm_entries_iff\<close>)

lemma frozen_predecessors:
  assumes "index_inv V (set (bm_entries E)) (predecessors, successors)"
  shows "bm_get (freeze_index predecessors) n =
    (if n \<in> V then Some (sorted_list_of_set {i. \<exists>e. bm_get E i = Some e \<and> edge_succ e = n}) else None)"
  by (rule frozen_index_get) (use assms in \<open>auto simp: index_inv_def bm_entries_iff\<close>)

lemma valid_boundaries:
  assumes "distinct (map ns_id nodes)" "distinct (map es_id edges)"
  shows "(\<forall>n v. bm_get (declared_nodes nodes) n = Some v \<longrightarrow>
      (is_input (n_boundary v) \<longrightarrow> (\<forall>i e. bm_get (declared_edges edges) i = Some e \<longrightarrow> edge_succ e \<noteq> n)) \<and>
      (is_output (n_boundary v) \<longrightarrow> (\<forall>i e. bm_get (declared_edges edges) i = Some e \<longrightarrow> edge_pred e \<noteq> n))) \<longleftrightarrow>
    (\<forall>n\<in>set nodes. is_input (ns_boundary n) \<longrightarrow> (\<forall>e\<in>set edges. edge_succ (frozen_edge e) \<noteq> ns_id n)) \<and>
    (\<forall>n\<in>set nodes. is_output (ns_boundary n) \<longrightarrow> (\<forall>e\<in>set edges. edge_pred (frozen_edge e) \<noteq> ns_id n))"
proof -
  have boundary: "n_boundary (frozen_node s) = ns_boundary s" for s :: "('a, 'b) node_spec"
    by (simp add: frozen_node_def)
  have declared: "(\<forall>n v. (\<exists>s\<in>S. n = f s \<and> v = h s) \<longrightarrow> P n v) \<longleftrightarrow> (\<forall>s\<in>S. P (f s) (h s))"
    for S :: "'s set" and f :: "'s \<Rightarrow> 'x" and h :: "'s \<Rightarrow> 'y" and P by blast
  show ?thesis
    unfolding get_declared_nodes[OF assms(1)] get_declared_edges[OF assms(2)] declared boundary
    by blast
qed

section \<open>Properties of construction\<close>

lemma build_early_exit:
  fixes edges :: "('e::linorder, 'n::linorder, 'c) edge_spec list"
  assumes "\<not> (nodes \<noteq> [] \<and> distinct (map ns_id nodes) \<and> distinct (map es_id edges) \<and>
    (\<forall>e\<in>set edges. es_source e \<in> ns_id ` set nodes \<and> es_target e \<in> ns_id ` set nodes))"
  shows "\<exists>err. build fp nodes edges = Err err"
proof (cases "distinct (map ns_id nodes) \<and> nodes \<noteq> []")
  case True
  then have "bm_entries (declared_nodes nodes) \<noteq> []" by (simp add: declared_nodes_empty)
  moreover have "\<not> (\<exists>E. for_each (freeze_edge (declared_nodes nodes)) edges bm_empty = Ok E)"
    using assms True by (auto simp: freeze_edges_Ok keys_declared_nodes)
  then obtain err where "for_each (freeze_edge (declared_nodes nodes)) edges bm_empty = Err err"
    using freeze_edges_no_panic by (metis outcome.exhaust)
  ultimately show ?thesis
    using True by (simp add: build_def freeze_nodes_eq)
next
  case False
  show ?thesis
  proof (cases "distinct (map ns_id nodes)")
    case True
    with False show ?thesis
      by (simp add: build_def declared_nodes_def bm_from_list_def)
  next
    case False
    then obtain err where
      "(for_each freeze_node nodes bm_empty :: (('n, 'e) graph_build_error, _) outcome) = Err err"
      using freeze_nodes_no_panic freeze_nodes_Ok by (metis outcome.exhaust)
    then show ?thesis by (simp add: build_def)
  qed
qed

lemma build_Ok_iff:
  "(\<forall>p. build fp nodes edges \<noteq> Panic p) \<and>
   ((\<exists>g. build fp nodes edges = Ok g) \<longleftrightarrow> valid_declarations nodes edges)"
proof (cases "nodes \<noteq> [] \<and> distinct (map ns_id nodes) \<and> distinct (map es_id edges) \<and>
    (\<forall>e\<in>set edges. es_source e \<in> ns_id ` set nodes \<and> es_target e \<in> ns_id ` set nodes)")
  case True
  then obtain ps ss where b: "build fp nodes edges =
       bind_outcome (for_each (check_boundary ps ss) (bm_entries (declared_nodes nodes)) ()) (\<lambda>_.
         Ok \<lparr>g_nodes = declared_nodes nodes, g_edges = declared_edges edges,
             g_predecessors = freeze_index ps, g_successors = freeze_index ss,
             g_fingerprint = fp (declared_nodes nodes, declared_edges edges)\<rparr>)"
    and inv: "index_inv (set (bm_keys (declared_nodes nodes))) (set (bm_entries (declared_edges edges))) (ps, ss)"
    using build_unfold[of nodes edges fp] by blast
  from True boundaries_Ok[OF inv] valid_boundaries[of nodes edges] show ?thesis
    unfolding b by (auto simp: outcome_simps valid_declarations_def)
next
  case False
  from build_early_exit[OF False, of fp] False show ?thesis
    by (auto simp: valid_declarations_def)
qed

lemma build_frozen:
  assumes "build fp nodes edges = Ok g"
  shows "wf_graph g \<and> g_nodes g = declared_nodes nodes \<and> g_edges g = declared_edges edges"
proof -
  from assms build_Ok_iff[of fp nodes edges] have valid: "valid_declarations nodes edges" by blast
  then obtain ps ss where b: "build fp nodes edges =
       bind_outcome (for_each (check_boundary ps ss) (bm_entries (declared_nodes nodes)) ()) (\<lambda>_.
         Ok \<lparr>g_nodes = declared_nodes nodes, g_edges = declared_edges edges,
             g_predecessors = freeze_index ps, g_successors = freeze_index ss,
             g_fingerprint = fp (declared_nodes nodes, declared_edges edges)\<rparr>)"
    and inv: "index_inv (set (bm_keys (declared_nodes nodes))) (set (bm_entries (declared_edges edges))) (ps, ss)"
    using build_unfold[of nodes edges fp] unfolding valid_declarations_def by blast
  from assms[unfolded b] have g: "g = \<lparr>g_nodes = declared_nodes nodes, g_edges = declared_edges edges,
      g_predecessors = freeze_index ps, g_successors = freeze_index ss,
      g_fingerprint = fp (declared_nodes nodes, declared_edges edges)\<rparr>"
    by (auto simp: outcome_simps)
  from assms[unfolded b] have "for_each (check_boundary ps ss) (bm_entries (declared_nodes nodes)) () = Ok ()"
    by (auto simp: outcome_simps)
  then have bounds: "(is_input (n_boundary v) \<longrightarrow> (\<forall>i e. edge_of g i = Some e \<longrightarrow> edge_succ e \<noteq> n)) \<and>
      (is_output (n_boundary v) \<longrightarrow> (\<forall>i e. edge_of g i = Some e \<longrightarrow> edge_pred e \<noteq> n))"
    if "node_of g n = Some v" for n v
    using that boundaries_Ok(2)[OF inv] by (simp add: g node_of_def edge_of_def)
  have succ: "successors_of g n = (if n \<in> node_ids g
      then Some (sorted_list_of_set {i. \<exists>e. edge_of g i = Some e \<and> edge_pred e = n}) else None)" for n
    using frozen_successors[OF inv] by (simp add: g successors_of_def edge_of_def)
  have pred: "predecessors_of g n = (if n \<in> node_ids g
      then Some (sorted_list_of_set {i. \<exists>e. edge_of g i = Some e \<and> edge_succ e = n}) else None)" for n
    using frozen_predecessors[OF inv] by (simp add: g predecessors_of_def edge_of_def)
  have "wf_graph g"
    unfolding wf_graph_def
  proof (intro conjI)
    show "node_ids g \<noteq> {}"
      using valid by (simp add: g keys_declared_nodes valid_declarations_def)
    show "\<forall>n v. node_of g n = Some v \<longrightarrow> n_id v = n"
      using valid by (auto simp: g node_of_def get_declared_nodes valid_declarations_def frozen_node_def)
    show "\<forall>i e. edge_of g i = Some e \<longrightarrow> e_id e = i \<and> edge_pred e \<in> node_ids g \<and> edge_succ e \<in> node_ids g"
      using valid by (auto simp: g edge_of_def get_declared_edges valid_declarations_def
          keys_declared_nodes frozen_edge_def predecessor_and_successor_def split: graph_direction.splits)
    show "\<forall>n v. node_of g n = Some v \<longrightarrow>
        (is_input (n_boundary v) \<longrightarrow> predecessors_of g n = Some []) \<and>
        (is_output (n_boundary v) \<longrightarrow> successors_of g n = Some [])"
    proof (intro allI impI)
      fix n v assume n: "node_of g n = Some v"
      then have "n \<in> node_ids g" by (auto simp: node_of_def in_bm_keys_iff)
      moreover have "sorted_list_of_set {i. \<exists>e. edge_of g i = Some e \<and> edge_succ e = n} = []"
        if "is_input (n_boundary v)"
        by (rule sorted_list_of_Collect_empty) (use bounds[OF n] that in blast)
      moreover have "sorted_list_of_set {i. \<exists>e. edge_of g i = Some e \<and> edge_pred e = n} = []"
        if "is_output (n_boundary v)"
        by (rule sorted_list_of_Collect_empty) (use bounds[OF n] that in blast)
      ultimately show "(is_input (n_boundary v) \<longrightarrow> predecessors_of g n = Some []) \<and>
          (is_output (n_boundary v) \<longrightarrow> successors_of g n = Some [])"
        unfolding pred succ by (simp only: if_True simp_thms option.inject) blast
    qed
  qed (use succ pred in blast)+
  then show ?thesis by (simp add: g)
qed

section \<open>Properties of construction\<close>

text \<open>
  C16: \<open>DataflowGraph::build\<close> never panics (its \<open>expect\<close> calls are unreachable), and it succeeds
  exactly on the valid declarations: at least one node, unique identities, existing
  endpoints, inputs without predecessors and outputs without successors.
\<close>

theorem build_accepts:
  "(\<forall>p. build fp nodes edges \<noteq> Panic p) \<and>
   ((\<exists>g. build fp nodes edges = Ok g) \<longleftrightarrow> valid_declarations nodes edges)"
  by (rule build_Ok_iff)

text \<open>
  A constructed graph is well formed: every node and edge is stored under its own identity,
  every edge ends in the graph, the successor (predecessor) index of every node is the sorted
  list of exactly the edges leaving (entering) it in propagation direction, and the declared
  boundaries are respected.
\<close>

theorem build_wf_graph:
  assumes "build fp nodes edges = Ok g"
  shows "wf_graph g \<and> g_nodes g = declared_nodes nodes \<and> g_edges g = declared_edges edges"
  using assms by (rule build_frozen)

text \<open>
  The order in which nodes and edges are declared does not matter: declarations with the
  same nodes and the same edges freeze to the same graph, fingerprint included.
\<close>

theorem build_order_irrelevant:
  assumes "build fp nodes edges = Ok g"
    and "set nodes' = set nodes" "distinct nodes'" "set edges' = set edges" "distinct edges'"
  shows "build fp nodes' edges' = Ok g"
proof -
  have valid: "valid_declarations nodes edges"
    using assms(1) build_Ok_iff[of fp nodes edges] by blast
  then have d: "distinct (map ns_id nodes)" "distinct (map es_id edges)"
    by (simp_all add: valid_declarations_def)
  then have "inj_on ns_id (set nodes)" "inj_on es_id (set edges)"
    by (simp_all add: distinct_map)
  then have d': "distinct (map ns_id nodes')" "distinct (map es_id edges')"
    using assms(2-5) by (simp_all add: distinct_map)
  with valid assms(2,4) have valid': "valid_declarations nodes' edges'"
    by (auto simp: valid_declarations_def)
  then obtain g' where g': "build fp nodes' edges' = Ok g'"
    using build_Ok_iff[of fp nodes' edges'] by blast
  have same: "declared_nodes nodes' = declared_nodes nodes" "declared_edges edges' = declared_edges edges"
    unfolding declared_nodes_def declared_edges_def
    using d d' assms(2,4) by (auto intro!: bm_from_list_unordered simp: comp_def)
  from build_frozen[OF assms(1)] build_frozen[OF g'] same
  have wf: "wf_graph g" "wf_graph g'" "g_nodes g' = g_nodes g" "g_edges g' = g_edges g" by simp_all
  have "g_predecessors g' = g_predecessors g" "g_successors g' = g_successors g"
    by (rule bm_ext, use wf in \<open>simp add: wf_graph_def predecessors_of_def successors_of_def edge_of_def\<close>)+
  moreover have "g_fingerprint g = fp (g_nodes g, g_edges g)" "g_fingerprint g' = fp (g_nodes g', g_edges g')"
    using assms(1) g' by (auto simp: build_def outcome_simps Let_def split: if_splits prod.splits)
  ultimately have "g' = g" using wf(3,4) by (intro dataflow_graph.equality) simp_all
  with g' show ?thesis by simp
qed

end
