(* ===== verification/Worklist.thy ===== *)
theory Worklist
  imports Dataflow_Graph
begin

text \<open>
  The specification of the dataflow solver and the worklist argument shared by its three
  loops. A valuation of the nodes is closed when it covers the seeds and every edge out of a
  node above bottom; the solver promises the least closed valuation. The effect of one
  worklist visit on states and worklist is isolated here as \<open>visit_node\<close>; the loops of the
  engine refine it.
\<close>

section \<open>Specification\<close>

definition state_at :: "'s \<Rightarrow> ('n::linorder, 's) bmap \<Rightarrow> 'n \<Rightarrow> 's" where
  "state_at bottom M n = (case bm_get M n of None \<Rightarrow> bottom | Some s \<Rightarrow> s)"

lemma state_at_Some [simp]: "bm_get M n = Some s \<Longrightarrow> state_at bottom M n = s"
  by (simp add: state_at_def)

lemma state_at_insert [simp]:
  "state_at bottom (bm_insert k s M) n = (if n = k then s else state_at bottom M n)"
  by (simp add: state_at_def)

text \<open>A set of nodes that contains, with a node, every node that propagates into it.\<close>

definition pred_closed :: "('n::linorder, 'e::linorder, 'l, 'c) dataflow_graph \<Rightarrow> 'n set \<Rightarrow> bool" where
  "pred_closed g U \<longleftrightarrow>
     (\<forall>i e. edge_of g i = Some e \<longrightarrow> edge_succ e \<in> U \<longrightarrow> edge_pred e \<in> U)"

definition closed_on ::
  "'s join_semilattice_ops \<Rightarrow> ('s \<Rightarrow> 's) \<Rightarrow> 's \<Rightarrow> ('n::linorder, 'e::linorder, 'l, 'c) dataflow_graph \<Rightarrow>
   ('n \<times> 's) list \<Rightarrow> 'n set \<Rightarrow> ('n \<Rightarrow> 's) \<Rightarrow> bool" where
  "closed_on L f bottom g seeds U M \<longleftrightarrow>
     (\<forall>(n, s)\<in>set seeds. n \<in> U \<longrightarrow> less_equal L s (M n)) \<and>
     (\<forall>i e. edge_of g i = Some e \<longrightarrow> edge_succ e \<in> U \<longrightarrow> M (edge_pred e) \<noteq> bottom \<longrightarrow>
        less_equal L (f (M (edge_pred e))) (M (edge_succ e)))"

definition least_solution ::
  "'s join_semilattice_ops \<Rightarrow> ('s \<Rightarrow> 's) \<Rightarrow> 's \<Rightarrow> ('n::linorder, 'e::linorder, 'l, 'c) dataflow_graph \<Rightarrow>
   ('n \<times> 's) list \<Rightarrow> ('n \<Rightarrow> 's) \<Rightarrow> bool" where
  "least_solution L f bottom g seeds M \<longleftrightarrow>
     closed_on L f bottom g seeds UNIV M \<and>
     (\<forall>U M'. pred_closed g U \<longrightarrow> closed_on L f bottom g seeds U M' \<longrightarrow>
        (\<forall>n\<in>U. less_equal L (M n) (M' n)))"

section \<open>One visit\<close>

definition propagate ::
  "'s join_semilattice_ops \<Rightarrow> 's \<Rightarrow> 'n::linorder \<Rightarrow> ('n, 's) bmap \<times> 'n bset \<Rightarrow> ('n, 's) bmap \<times> 'n bset" where
  "propagate L output q = (\<lambda>(M, P).
     case bm_get M q of
       None \<Rightarrow> (M, P)
     | Some old \<Rightarrow>
         let joined = join L old output in
         if joined \<noteq> old then (bm_insert q joined M, bs_insert q P) else (M, P))"

definition propagate_edge ::
  "'s join_semilattice_ops \<Rightarrow> ('n::linorder, 'e::linorder, 'l, 'c) dataflow_graph \<Rightarrow> 's \<Rightarrow> 'e \<Rightarrow>
   ('n, 's) bmap \<times> 'n bset \<Rightarrow> ('n, 's) bmap \<times> 'n bset" where
  "propagate_edge L g output i =
     (case edge_of g i of None \<Rightarrow> id | Some e \<Rightarrow> propagate L output (edge_succ e))"

definition visit_node ::
  "'s join_semilattice_ops \<Rightarrow> ('s \<Rightarrow> 's) \<Rightarrow> 's \<Rightarrow> ('n::linorder, 'e::linorder, 'l, 'c) dataflow_graph \<Rightarrow> 'n \<Rightarrow>
   ('n, 's) bmap \<times> 'n bset \<Rightarrow> ('n, 's) bmap \<times> 'n bset" where
  "visit_node L f bottom g p = (\<lambda>(M, P).
     case successors_of g p of
       None \<Rightarrow> (M, P)
     | Some es \<Rightarrow> fold (propagate_edge L g (f (state_at bottom M p))) es (M, P))"

section \<open>The worklist invariant\<close>

lemma wf_successors:
  assumes "wf_graph g" "p \<in> node_ids g"
  obtains es where "successors_of g p = Some es"
    "\<And>i. i \<in> set es \<longleftrightarrow> (\<exists>e. edge_of g i = Some e \<and> edge_pred e = p)"
proof -
  have "finite {i. \<exists>e. edge_of g i = Some e \<and> edge_pred e = p}"
    by (rule finite_subset[OF _ finite_bm_dom[of "g_edges g"]]) (auto simp: edge_of_def)
  with assms that show ?thesis
    unfolding wf_graph_def by force
qed

lemma wf_predecessors:
  assumes "wf_graph g" "p \<in> node_ids g"
  obtains es where "predecessors_of g p = Some es"
    "\<And>i. i \<in> set es \<longleftrightarrow> (\<exists>e. edge_of g i = Some e \<and> edge_succ e = p)"
proof -
  have "finite {i. \<exists>e. edge_of g i = Some e \<and> edge_succ e = p}"
    by (rule finite_subset[OF _ finite_bm_dom[of "g_edges g"]]) (auto simp: edge_of_def)
  with assms that show ?thesis
    unfolding wf_graph_def by force
qed

lemma wf_edge_ends:
  "wf_graph g \<Longrightarrow> edge_of g i = Some e \<Longrightarrow> edge_pred e \<in> node_ids g \<and> edge_succ e \<in> node_ids g"
  unfolding wf_graph_def by blast

locale dataflow_system = monotone_transfer L bottom f
  for L :: "'s join_semilattice_ops" and bottom :: 's and f :: "'s \<Rightarrow> 's" +
  fixes g :: "('n::linorder, 'e::linorder, 'l, 'c) dataflow_graph"
  assumes graph_wf: "wf_graph g"
begin

definition below_all :: "('n \<times> 's) list \<Rightarrow> ('n, 's) bmap \<Rightarrow> bool" where
  "below_all seeds M \<longleftrightarrow>
     (\<forall>U M'. pred_closed g U \<longrightarrow> closed_on L f bottom g seeds U M' \<longrightarrow>
        (\<forall>n\<in>U. less_equal L (state_at bottom M n) (M' n)))"

definition base_inv :: "('n \<times> 's) list \<Rightarrow> ('n, 's) bmap \<times> 'n bset \<Rightarrow> bool" where
  "base_inv seeds = (\<lambda>(M, P).
     set (bm_keys M) = node_ids g \<and> bs_set P \<subseteq> node_ids g \<and>
     (\<forall>n\<in>bs_set P. state_at bottom M n \<noteq> bottom) \<and>
     (\<forall>(n, s)\<in>set seeds. less_equal L s (state_at bottom M n)) \<and>
     below_all seeds M)"

definition edge_covered :: "('n, 's) bmap \<Rightarrow> ('e, 'n, 'c) graph_edge \<Rightarrow> bool" where
  "edge_covered M e \<longleftrightarrow> state_at bottom M (edge_pred e) \<noteq> bottom \<longrightarrow>
     less_equal L (f (state_at bottom M (edge_pred e))) (state_at bottom M (edge_succ e))"

definition wl_inv :: "('n \<times> 's) list \<Rightarrow> ('n, 's) bmap \<times> 'n bset \<Rightarrow> bool" where
  "wl_inv seeds = (\<lambda>(M, P). base_inv seeds (M, P) \<and>
     (\<forall>i e. edge_of g i = Some e \<longrightarrow> edge_pred e \<notin> bs_set P \<longrightarrow> edge_covered M e))"

text \<open>Inside a visit of \<open>p\<close> with old state \<open>v\<close>: the edges in \<open>K\<close> have been propagated.\<close>

definition visit_inv :: "('n \<times> 's) list \<Rightarrow> 'n \<Rightarrow> 's \<Rightarrow> 'e set \<Rightarrow> ('n, 's) bmap \<times> 'n bset \<Rightarrow> bool" where
  "visit_inv seeds p v K = (\<lambda>(M, P). base_inv seeds (M, P) \<and>
     (\<forall>i e. edge_of g i = Some e \<longrightarrow> edge_pred e \<notin> bs_set P \<longrightarrow> edge_pred e \<noteq> p \<longrightarrow> edge_covered M e) \<and>
     (\<forall>i\<in>K. \<forall>e. edge_of g i = Some e \<longrightarrow> less_equal L (f v) (state_at bottom M (edge_succ e))) \<and>
     (p \<notin> bs_set P \<longrightarrow> state_at bottom M p = v) \<and> less_equal L v (state_at bottom M p))"

lemma below_all_insert:
  assumes "below_all seeds M"
    and "\<And>U M'. pred_closed g U \<Longrightarrow> closed_on L f bottom g seeds U M' \<Longrightarrow> q \<in> U \<Longrightarrow> less_equal L s (M' q)"
  shows "below_all seeds (bm_insert q s M)"
  using assms unfolding below_all_def by auto

lemma output_below:
  assumes "below_all seeds M" "pred_closed g U" "closed_on L f bottom g seeds U M'"
    and e: "edge_of g i = Some e" "edge_succ e \<in> U"
    and v: "less_equal L v (state_at bottom M (edge_pred e))" "v \<noteq> bottom"
  shows "less_equal L (f v) (M' (edge_succ e))"
proof -
  from assms(2) e have "edge_pred e \<in> U" unfolding pred_closed_def by blast
  with assms(1-3) v(1) have le: "less_equal L v (M' (edge_pred e))"
    unfolding below_all_def using le_trans by blast
  with v(2) have "M' (edge_pred e) \<noteq> bottom" by (metis le_bot_iff)
  with assms(3) e have "less_equal L (f (M' (edge_pred e))) (M' (edge_succ e))"
    unfolding closed_on_def by blast
  with transfer_mono[OF le] show ?thesis by (rule le_trans)
qed

lemma visit_inv_step:
  assumes inv: "visit_inv seeds p v K (M, P)" and "v \<noteq> bottom"
    and e: "edge_of g i = Some e" "edge_pred e = p"
  shows "visit_inv seeds p v (insert i K) (propagate_edge L g (f v) i (M, P))"
proof -
  let ?q = "edge_succ e"
  have "?q \<in> set (bm_keys M)"
    using wf_edge_ends[OF graph_wf e(1)] inv by (simp add: visit_inv_def base_inv_def)
  then obtain old where old: "bm_get M ?q = Some old" unfolding in_bm_keys_iff by blast
  let ?j = "join L old (f v)"
  show ?thesis
  proof (cases "?j = old")
    case True
    then have "less_equal L (f v) old" by (simp add: join_eq_iff)
    moreover have "propagate_edge L g (f v) i (M, P) = (M, P)"
      using True by (simp add: propagate_edge_def e(1) propagate_def old)
    ultimately show ?thesis using inv e(1) old by (auto simp: visit_inv_def)
  next
    case False
    let ?M = "bm_insert ?q ?j M" and ?P = "bs_insert ?q P"
    have step: "propagate_edge L g (f v) i (M, P) = (?M, ?P)"
      using False by (simp add: propagate_edge_def e(1) propagate_def old)
    have up: "less_equal L (state_at bottom M n) (state_at bottom ?M n)" for n
      using old by auto
    have jbot: "?j \<noteq> bottom" using False join_ub1[of old "f v"] by (metis le_bot_iff)
    have below: "below_all seeds ?M"
    proof (rule below_all_insert)
      show "below_all seeds M" using inv by (simp add: visit_inv_def base_inv_def)
      fix U M' assume U: "pred_closed g U" "closed_on L f bottom g seeds U M'" "?q \<in> U"
      have "less_equal L (f v) (M' ?q)"
        by (rule output_below[OF \<open>below_all seeds M\<close> U(1,2) e(1) U(3)])
          (use inv e(2) assms(2) in \<open>auto simp: visit_inv_def\<close>)
      moreover have "less_equal L old (M' ?q)"
        using \<open>below_all seeds M\<close> U old unfolding below_all_def by force
      ultimately show "less_equal L ?j (M' ?q)" by (rule join_lub[rotated])
    qed
    have base: "base_inv seeds (?M, ?P)"
      unfolding base_inv_def prod.case
    proof (intro conjI)
      show "set (bm_keys ?M) = node_ids g" "bs_set ?P \<subseteq> node_ids g" "\<forall>n\<in>bs_set ?P. state_at bottom ?M n \<noteq> bottom"
        using inv jbot \<open>?q \<in> set (bm_keys M)\<close> by (auto simp: visit_inv_def base_inv_def)
      show "\<forall>(n, s)\<in>set seeds. less_equal L s (state_at bottom ?M n)"
        using inv up le_trans unfolding visit_inv_def base_inv_def by blast
    qed (fact below)
    have covered: "edge_covered ?M e'" if "edge_of g i' = Some e'" "edge_pred e' \<notin> bs_set ?P" "edge_pred e' \<noteq> p" for i' e'
    proof -
      have "edge_covered M e'" using inv that by (auto simp: visit_inv_def)
      moreover have "state_at bottom ?M (edge_pred e') = state_at bottom M (edge_pred e')" using that(2) by auto
      ultimately show ?thesis using up[of "edge_succ e'"] le_trans unfolding edge_covered_def by metis
    qed
    have handled: "less_equal L (f v) (state_at bottom ?M (edge_succ e'))"
      if "i' \<in> insert i K" "edge_of g i' = Some e'" for i' e'
    proof (cases "i' = i")
      case True
      with that e(1) show ?thesis by simp
    next
      case False
      then have "less_equal L (f v) (state_at bottom M (edge_succ e'))" using inv that by (auto simp: visit_inv_def)
      then show ?thesis using up le_trans by blast
    qed
    show ?thesis
      unfolding step visit_inv_def prod.case
      using base covered handled inv up[of p] le_trans by (auto simp: visit_inv_def split: if_splits)
  qed
qed

lemma visit_inv_edges:
  assumes "visit_inv seeds p v K (M, P)" "v \<noteq> bottom"
    and "\<And>i. i \<in> set es \<Longrightarrow> \<exists>e. edge_of g i = Some e \<and> edge_pred e = p"
  shows "visit_inv seeds p v (set es \<union> K) (fold (propagate_edge L g (f v)) es (M, P))"
  using assms
proof (induction es arbitrary: K M P)
  case (Cons i es)
  obtain M' P' where mp: "propagate_edge L g (f v) i (M, P) = (M', P')" by fastforce
  from Cons.prems(3)[of i] obtain e where e: "edge_of g i = Some e" "edge_pred e = p" by auto
  from visit_inv_step[OF Cons.prems(1,2) e] have "visit_inv seeds p v (insert i K) (M', P')"
    by (simp add: mp)
  from Cons.IH[OF this Cons.prems(2)] Cons.prems(3) show ?case by (simp add: mp)
qed simp

lemma wl_inv_visit:
  assumes inv: "wl_inv seeds (M, P)" and pop: "bs_pop_first P = Some (p, P')"
  shows "wl_inv seeds (visit_node L f bottom g p (M, P'))"
proof -
  let ?v = "state_at bottom M p"
  from bs_pop_first_Some[OF pop] have p: "p \<in> bs_set P" "bs_set P' = bs_set P - {p}" by auto
  with inv have "p \<in> node_ids g" and v: "?v \<noteq> bottom" by (auto simp: wl_inv_def base_inv_def)
  obtain es where es: "successors_of g p = Some es"
    "\<And>i. i \<in> set es \<longleftrightarrow> (\<exists>e. edge_of g i = Some e \<and> edge_pred e = p)"
    by (rule wf_successors[OF graph_wf \<open>p \<in> node_ids g\<close>]) blast
  have "visit_inv seeds p ?v {} (M, P')"
    using inv p by (auto simp: wl_inv_def visit_inv_def base_inv_def)
  from visit_inv_edges[OF this v, of es] es(2)
  have post: "visit_inv seeds p ?v (set es) (visit_node L f bottom g p (M, P'))"
    by (simp add: visit_node_def es(1))
  obtain M1 P1 where r: "visit_node L f bottom g p (M, P') = (M1, P1)" by fastforce
  have "edge_covered M1 e" if e: "edge_of g i = Some e" "edge_pred e \<notin> bs_set P1" for i e
  proof (cases "edge_pred e = p")
    case True
    with e es(2) have "i \<in> set es" by blast
    with post r e True show ?thesis by (auto simp: visit_inv_def edge_covered_def)
  qed (use post r e in \<open>auto simp: visit_inv_def\<close>)
  with post r show ?thesis by (auto simp: visit_inv_def wl_inv_def)
qed

lemma wl_inv_done:
  assumes "wl_inv seeds (M, P)" "bs_set P = {}"
  shows "least_solution L f bottom g seeds (state_at bottom M)"
  using assms
  by (auto simp: wl_inv_def base_inv_def least_solution_def closed_on_def below_all_def edge_covered_def)

text \<open>While the seeds are joined in: every state above bottom is on the worklist.\<close>

definition seed_inv :: "('n \<times> 's) list \<Rightarrow> ('n \<times> 's) set \<Rightarrow> ('n, 's) bmap \<times> 'n bset \<Rightarrow> bool" where
  "seed_inv seeds K = (\<lambda>(M, P).
     set (bm_keys M) = node_ids g \<and> bs_set P = {n. state_at bottom M n \<noteq> bottom} \<and>
     (\<forall>(n, s)\<in>K. less_equal L s (state_at bottom M n)) \<and> below_all seeds M)"

lemma seed_inv_start:
  assumes "\<And>n. bm_get M n = (if n \<in> node_ids g then Some bottom else None)"
  shows "seed_inv seeds {} (M, bs_empty)"
  using assms by (auto simp: seed_inv_def state_at_def below_all_def set_bm_keys)

lemma seed_inv_step:
  assumes inv: "seed_inv seeds K (M, P)" and "(n, s) \<in> set seeds" "n \<in> node_ids g"
  shows "seed_inv seeds (insert (n, s) K) (propagate L s n (M, P))"
proof -
  from inv assms(3) have "n \<in> set (bm_keys M)" by (simp add: seed_inv_def)
  then obtain old where old: "bm_get M n = Some old" unfolding in_bm_keys_iff by blast
  let ?j = "join L old s"
  show ?thesis
  proof (cases "?j = old")
    case True
    then have "less_equal L s old" by (simp add: join_eq_iff)
    with True inv old show ?thesis by (auto simp: seed_inv_def propagate_def)
  next
    case False
    then have "?j \<noteq> bottom" using join_ub1[of old s] by (metis le_bot_iff)
    have "below_all seeds (bm_insert n ?j M)"
    proof (rule below_all_insert)
      show b: "below_all seeds M" using inv by (simp add: seed_inv_def)
      fix U M' assume U: "pred_closed g U" "closed_on L f bottom g seeds U M'" "n \<in> U"
      have "less_equal L s (M' n)" using U assms(2) unfolding closed_on_def by blast
      moreover have "less_equal L old (M' n)" using b U old unfolding below_all_def by force
      ultimately show "less_equal L ?j (M' n)" by (rule join_lub[rotated])
    qed
    moreover have "\<forall>(m, r)\<in>insert (n, s) K. less_equal L r (state_at bottom (bm_insert n ?j M) m)"
      using inv old le_trans[OF _ join_ub1[of old s]] by (fastforce simp: seed_inv_def)
    ultimately show ?thesis
      using inv old False \<open>?j \<noteq> bottom\<close> \<open>n \<in> set (bm_keys M)\<close>
      by (auto simp: seed_inv_def propagate_def split: if_splits)
  qed
qed

lemma seed_inv_done:
  assumes "seed_inv seeds (set seeds) (M, P)"
  shows "wl_inv seeds (M, P)"
proof -
  have "n \<in> node_ids g" if "state_at bottom M n \<noteq> bottom" for n
    using assms that by (auto simp: seed_inv_def state_at_def set_bm_keys split: option.splits)
  with assms show ?thesis
    by (auto simp: seed_inv_def wl_inv_def base_inv_def edge_covered_def)
qed

lemma least_solution_unique:
  assumes "least_solution L f bottom g seeds M" "least_solution L f bottom g seeds M'"
  shows "M = M'"
proof
  fix n
  have "pred_closed g UNIV" by (simp add: pred_closed_def)
  with assms have "less_equal L (M n) (M' n)" "less_equal L (M' n) (M n)"
    unfolding least_solution_def by blast+
  then show "M n = M' n" by (rule le_antisym)
qed

end

end
