(* ===== verification/Dataflow_Solve.thy ===== *)
theory Dataflow_Solve
  imports Worklist
begin

text \<open>
  The budgeted worklist solver (dataflow/engine/contracts.rs, \<open>FixpointEngine::solve\<close> of
  dataflow/engine/execution.rs and the accounting helpers of dataflow/engine/proof.rs). The
  operations are translated statement by statement. The worklist loop may run forever on a
  lattice without finite ascending chains, so the outer \<open>option\<close> of its result is \<open>None\<close>
  when the loop does not return.
\<close>

section \<open>Contracts (contracts.rs)\<close>

datatype dataflow_failure = Transfer | Join

datatype ('n, 'e, 'c) dataflow_event = Visit 'n | Propagate 'e "'c edge_class"

record dataflow_usage =
  u_work :: usize
  u_observations :: usize
  u_depth :: usize
  u_output :: usize

definition default_usage :: dataflow_usage where
  "default_usage = \<lparr>u_work = 0, u_observations = 0, u_depth = 0, u_output = 0\<rparr>"

datatype continuation_fingerprint = GraphFingerprint | PolicyFingerprint | DependenciesFingerprint

datatype ('n, 'e, 'l) dataflow_error =
    UnknownSeed 'n
  | ContinuationMismatch continuation_fingerprint value_fingerprint value_fingerprint
  | BudgetExceeded budget_kind usize usize "'n option" "'e option" 'l "'l option"
  | NodeFailure dataflow_failure 'n 'l
  | EdgeFailure dataflow_failure 'e 'l 'l

record ('n, 'e) causal_predecessor =
  cp_node :: 'n
  cp_edge :: "'e option"

record ('n, 'e) causal_record =
  retained :: "('n, 'e) causal_predecessor list"
  omitted :: usize

record ('n, 'e) dataflow_explanation =
  ex_predecessors :: "('n, 'e) causal_predecessor list"
  ex_omitted :: usize

definition truncated :: "('n, 'e) dataflow_explanation \<Rightarrow> bool" where
  "truncated x = (ex_omitted x \<noteq> 0)"

record ('n, 'e, 'l) charge_location =
  cl_node :: "'n option"
  cl_edge :: "'e option"
  cl_location :: 'l
  cl_target_location :: "'l option"

record (overloaded) ('n, 'e, 'c, 's) dataflow_solution =
  sol_states :: "('n::linorder, 's) bmap"
  sol_events :: "('n, 'e, 'c) dataflow_event list"
  sol_usage :: dataflow_usage
  sol_causes :: "('n, ('n, 'e) causal_record) bmap"

definition explain ::
  "('n::linorder, 'e, 'c, 's) dataflow_solution \<Rightarrow> 'n \<Rightarrow> usize \<Rightarrow> ('n, 'e) dataflow_explanation option" where
  "explain sol n limit =
     (case bm_get (sol_causes sol) n of
        None \<Rightarrow> None
      | Some causes \<Rightarrow>
          let kept = take limit (retained causes) in
          Some \<lparr>ex_predecessors = kept,
                ex_omitted = saturating_add (omitted causes) (length (retained causes) - length kept)\<rparr>)"

section \<open>Accounting (proof.rs)\<close>

definition charge ::
  "usize \<Rightarrow> usize \<Rightarrow> usize \<Rightarrow> budget_kind \<Rightarrow> ('n, 'e, 'l) charge_location \<Rightarrow>
   (('n, 'e, 'l) dataflow_error, usize) outcome" where
  "charge counter units limit kind at =
     (let attempted = saturating_add counter units in
      if attempted > limit
      then Err (dataflow_error.BudgetExceeded kind limit attempted
                 (cl_node at) (cl_edge at) (cl_location at) (cl_target_location at))
      else Ok attempted)"

definition charge_work ::
  "dataflow_usage \<Rightarrow> query_budgets \<Rightarrow> 'n option \<Rightarrow> 'l \<Rightarrow> (('n, 'e, 'l) dataflow_error, dataflow_usage) outcome" where
  "charge_work usage budgets node location =
     bind_outcome
       (charge (u_work usage) 1 (max_work budgets) Work
         \<lparr>cl_node = node, cl_edge = None, cl_location = location, cl_target_location = None\<rparr>)
       (\<lambda>w. Ok (usage\<lparr>u_work := w\<rparr>))"

definition charge_work_edge ::
  "dataflow_usage \<Rightarrow> query_budgets \<Rightarrow> 'e \<Rightarrow> 'l \<Rightarrow> 'l \<Rightarrow> (('n, 'e, 'l) dataflow_error, dataflow_usage) outcome" where
  "charge_work_edge usage budgets edge location target =
     bind_outcome
       (charge (u_work usage) 1 (max_work budgets) Work
         \<lparr>cl_node = None, cl_edge = Some edge, cl_location = location, cl_target_location = Some target\<rparr>)
       (\<lambda>w. Ok (usage\<lparr>u_work := w\<rparr>))"

definition replace_state ::
  "'s join_semilattice_ops \<Rightarrow> ('n::linorder, 's) bmap \<Rightarrow> 'n \<Rightarrow> 's \<Rightarrow> dataflow_usage \<Rightarrow> query_budgets \<Rightarrow> 'l \<Rightarrow>
   (('n, 'e, 'l) dataflow_error, ('n, 's) bmap \<times> dataflow_usage) outcome" where
  "replace_state L states node state usage budgets location =
     bind_outcome
       (charge (u_output usage) (state_size L state) (max_output budgets) budget_kind.Output
         \<lparr>cl_node = None, cl_edge = None, cl_location = location, cl_target_location = None\<rparr>)
       (\<lambda>out. Ok (bm_insert node state states, usage\<lparr>u_output := out\<rparr>))"

definition record_cause ::
  "('n::linorder, ('n, 'e) causal_record) bmap \<Rightarrow> 'n \<Rightarrow> ('n, 'e) causal_predecessor \<Rightarrow> usize \<Rightarrow>
   ('n, ('n, 'e) causal_record) bmap" where
  "record_cause causes node cause limit =
     (let r = (case bm_get causes node of None \<Rightarrow> \<lparr>retained = [], omitted = 0\<rparr> | Some r \<Rightarrow> r) in
      bm_insert node
        (if length (retained r) < limit then r\<lparr>retained := retained r @ [cause]\<rparr>
         else r\<lparr>omitted := saturating_add (omitted r) 1\<rparr>)
        causes)"

section \<open>The solver (execution.rs)\<close>

record (overloaded) ('n, 'e, 'c, 's) solve_state =
  ss_states :: "('n::linorder, 's) bmap"
  ss_pending :: "'n bset"
  ss_events :: "('n, 'e, 'c) dataflow_event list"
  ss_usage :: dataflow_usage
  ss_causes :: "('n, ('n, 'e) causal_record) bmap"

text \<open>The indexing \<open>states[&node]\<close> panics on a missing key.\<close>

abbreviation index_state :: "('n::linorder, 's) bmap \<Rightarrow> 'n \<Rightarrow> ('err, 's) outcome" where
  "index_state states n \<equiv> expect ''no entry found for key'' (bm_get states n)"

text \<open>The location used for whole-graph charges: that of the first node.\<close>

definition first_location ::
  "('n::linorder, 'e::linorder, 'l, 'c) dataflow_graph \<Rightarrow> ('err, 'l) outcome" where
  "first_location g =
     (case nodes_of g of
        [] \<Rightarrow> Panic ''graphs are non-empty''
      | node # _ \<Rightarrow> Ok (n_location node))"

definition solve_seed ::
  "'s join_semilattice_ops \<Rightarrow> ('n::linorder, 'e::linorder, 'l, 'c) dataflow_graph \<Rightarrow> query_budgets \<Rightarrow>
   'n \<times> 's \<Rightarrow> ('n, 'e, 'c, 's) solve_state \<Rightarrow> (('n, 'e, 'l) dataflow_error, ('n, 'e, 'c, 's) solve_state) outcome" where
  "solve_seed L g budgets = (\<lambda>(node_id, seed) st.
     case node_of g node_id of
       None \<Rightarrow> Err (UnknownSeed node_id)
     | Some node \<Rightarrow>
         bind_outcome (index_state (ss_states st) node_id) (\<lambda>current.
         let joined = join L current seed in
         bind_outcome (charge_work (ss_usage st) budgets (Some node_id) (n_location node)) (\<lambda>usage.
         if \<not> less_equal L current joined \<or> \<not> less_equal L seed joined
         then Err (NodeFailure Join node_id (n_location node))
         else if joined \<noteq> current then
           bind_outcome (replace_state L (ss_states st) node_id joined usage budgets (n_location node))
             (\<lambda>(states, usage').
               Ok (st\<lparr>ss_states := states, ss_usage := usage',
                      ss_pending := bs_insert node_id (ss_pending st),
                      ss_causes := record_cause (ss_causes st) node_id
                        \<lparr>cp_node = node_id, cp_edge = None\<rparr> (max_explanation_causes budgets)\<rparr>))
         else Ok (st\<lparr>ss_usage := usage\<rparr>))))"

definition solve_edge ::
  "'s join_semilattice_ops \<Rightarrow> ('n::linorder, 'e::linorder, 'l, 'c) dataflow_graph \<Rightarrow> query_budgets \<Rightarrow>
   'n \<Rightarrow> 'l \<Rightarrow> 's \<Rightarrow> 'e \<Rightarrow> ('n, 'e, 'c, 's) solve_state \<Rightarrow>
   (('n, 'e, 'l) dataflow_error, ('n, 'e, 'c, 's) solve_state) outcome" where
  "solve_edge L g budgets node_id location output edge_id st =
     bind_outcome (expect ''edge index is complete'' (edge_of g edge_id)) (\<lambda>edge.
     let target_id = edge_succ edge in
     bind_outcome (expect ''edge target exists'' (node_of g target_id)) (\<lambda>target.
     bind_outcome
       (charge (u_observations (ss_usage st)) 1 (max_observations budgets) Observations
         \<lparr>cl_node = None, cl_edge = Some edge_id, cl_location = location,
          cl_target_location = Some (n_location target)\<rparr>) (\<lambda>observations.
     let events = ss_events st @ [Propagate edge_id (e_class edge)] in
     bind_outcome
       (charge_work_edge ((ss_usage st)\<lparr>u_observations := observations\<rparr>) budgets edge_id location
         (n_location target)) (\<lambda>usage.
     bind_outcome (index_state (ss_states st) target_id) (\<lambda>current.
     let joined = join L current output in
     if \<not> less_equal L current joined \<or> \<not> less_equal L output joined
     then Err (EdgeFailure Join edge_id location (n_location target))
     else if joined \<noteq> current then
       bind_outcome (replace_state L (ss_states st) target_id joined usage budgets (n_location target))
         (\<lambda>(states, usage').
           Ok (st\<lparr>ss_states := states, ss_usage := usage', ss_events := events,
                  ss_pending := bs_insert target_id (ss_pending st),
                  ss_causes := record_cause (ss_causes st) target_id
                    \<lparr>cp_node = node_id, cp_edge = Some edge_id\<rparr> (max_explanation_causes budgets)\<rparr>))
     else Ok (st\<lparr>ss_usage := usage, ss_events := events\<rparr>))))))"

definition solve_visit ::
  "'s join_semilattice_ops \<Rightarrow> ('n::linorder, 'e::linorder, 'l, 'c) dataflow_graph \<Rightarrow> 's admitted_transfer \<Rightarrow>
   query_budgets \<Rightarrow> 'n \<Rightarrow> ('n, 'e, 'c, 's) solve_state \<Rightarrow>
   (('n, 'e, 'l) dataflow_error, ('n, 'e, 'c, 's) solve_state) outcome" where
  "solve_visit L g t budgets node_id st =
     bind_outcome (expect ''worklist node belongs to graph'' (node_of g node_id)) (\<lambda>node.
     bind_outcome (charge_work (ss_usage st) budgets (Some node_id) (n_location node)) (\<lambda>usage.
     bind_outcome (charge_work usage budgets (Some node_id) (n_location node)) (\<lambda>usage'.
     bind_outcome (index_state (ss_states st) node_id) (\<lambda>current.
     let output = admitted_transfer_apply t current in
     if \<not> less_equal L current output
     then Err (NodeFailure Transfer node_id (n_location node))
     else
       bind_outcome (expect ''node index is complete'' (successors_of g node_id)) (\<lambda>edges.
         for_each (solve_edge L g budgets node_id (n_location node) output) edges
           (st\<lparr>ss_usage := usage', ss_events := ss_events st @ [Visit node_id]\<rparr>))))))"

text \<open>\<open>pending.pop_first()\<close>: the least node of the worklist.\<close>

definition pop_pending :: "('n::linorder, 'e, 'c, 's) solve_state \<Rightarrow> ('n \<times> ('n, 'e, 'c, 's) solve_state) option" where
  "pop_pending st = map_option (\<lambda>(n, rest). (n, st\<lparr>ss_pending := rest\<rparr>)) (bs_pop_first (ss_pending st))"

definition solve_loop ::
  "'s join_semilattice_ops \<Rightarrow> ('n::linorder, 'e::linorder, 'l, 'c) dataflow_graph \<Rightarrow> 's admitted_transfer \<Rightarrow>
   query_budgets \<Rightarrow> ('n, 'e, 'c, 's) solve_state \<Rightarrow>
   (('n, 'e, 'l) dataflow_error, ('n, 'e, 'c, 's) solve_state) outcome option" where
  "solve_loop L g t budgets = while_let pop_pending (solve_visit L g t budgets)"

definition solve_start ::
  "'s join_semilattice_ops \<Rightarrow> ('n::linorder, 'e::linorder, 'l, 'c) dataflow_graph \<Rightarrow> 's \<Rightarrow>
   ('n \<times> 's) list \<Rightarrow> query_budgets \<Rightarrow>
   (('n, 'e, 'l) dataflow_error, ('n, 'e, 'c, 's) solve_state) outcome" where
  "solve_start L g bottom seeds budgets =
     (let held = length (nodes_of g) in
     bind_outcome (first_location g) (\<lambda>location.
     bind_outcome
       (charge 0 held (max_depth budgets) Depth
         \<lparr>cl_node = None, cl_edge = None, cl_location = location, cl_target_location = None\<rparr>) (\<lambda>depth.
     bind_outcome
       (charge 0 (saturating_mul (state_size L bottom) held) (max_output budgets) budget_kind.Output
         \<lparr>cl_node = None, cl_edge = None, cl_location = location, cl_target_location = None\<rparr>) (\<lambda>out.
     for_each (solve_seed L g budgets) seeds
       \<lparr>ss_states = bm_from_list (map (\<lambda>node. (n_id node, bottom)) (nodes_of g)),
        ss_pending = bs_empty, ss_events = [],
        ss_usage = default_usage\<lparr>u_depth := depth, u_output := out\<rparr>, ss_causes = bm_empty\<rparr>))))"

definition solution_of :: "('n::linorder, 'e, 'c, 's) solve_state \<Rightarrow> ('n, 'e, 'c, 's) dataflow_solution" where
  "solution_of st = \<lparr>sol_states = ss_states st, sol_events = ss_events st,
     sol_usage = ss_usage st, sol_causes = ss_causes st\<rparr>"

definition solve ::
  "'s join_semilattice_ops \<Rightarrow> ('n::linorder, 'e::linorder, 'l, 'c) dataflow_graph \<Rightarrow> 's admitted_transfer \<Rightarrow>
   's \<Rightarrow> ('n \<times> 's) list \<Rightarrow> query_budgets \<Rightarrow>
   (('n, 'e, 'l) dataflow_error, ('n, 'e, 'c, 's) dataflow_solution) outcome option" where
  "solve L g t bottom seeds budgets =
     (case solve_start L g bottom seeds budgets of
        Err e \<Rightarrow> Some (Err e)
      | Panic p \<Rightarrow> Some (Panic p)
      | Ok st \<Rightarrow>
          map_option (\<lambda>r. bind_outcome r (\<lambda>st'. Ok (solution_of st'))) (solve_loop L g t budgets st))"

section \<open>Reasoning about the loop\<close>

lemmas charge_simps = charge_def charge_work_def charge_work_edge_def replace_state_def Let_def outcome_simps

lemma charge_Ok_iff [outcome_simps]:
  "charge c u limit kind at = Ok r \<longleftrightarrow> saturating_add c u \<le> limit \<and> r = saturating_add c u"
  by (auto simp: charge_def Let_def)

lemma charge_no_panic [outcome_simps]: "charge c u limit kind at = Panic p \<longleftrightarrow> False"
  by (simp add: charge_def Let_def)

lemma charge_work_Ok_iff [outcome_simps]:
  "charge_work usage b n l = Ok usage' \<longleftrightarrow>
     saturating_add (u_work usage) 1 \<le> max_work b \<and>
     usage' = usage\<lparr>u_work := saturating_add (u_work usage) 1\<rparr>"
  by (auto simp: charge_work_def outcome_simps)

lemma charge_work_edge_Ok_iff [outcome_simps]:
  "charge_work_edge usage b e l l' = Ok usage' \<longleftrightarrow>
     saturating_add (u_work usage) 1 \<le> max_work b \<and>
     usage' = usage\<lparr>u_work := saturating_add (u_work usage) 1\<rparr>"
  by (auto simp: charge_work_edge_def outcome_simps)

lemma replace_state_Ok_iff [outcome_simps]:
  "replace_state L M n s usage b l = Ok r \<longleftrightarrow>
     saturating_add (u_output usage) (state_size L s) \<le> max_output b \<and>
     r = (bm_insert n s M, usage\<lparr>u_output := saturating_add (u_output usage) (state_size L s)\<rparr>)"
  by (auto simp: replace_state_def outcome_simps)

text \<open>The rule for every property of a returning run: an invariant of the visits.\<close>

lemma pop_pending_Some:
  "pop_pending st = Some (p, st1) \<longleftrightarrow> (\<exists>rest. bs_pop_first (ss_pending st) = Some (p, rest) \<and> st1 = st\<lparr>ss_pending := rest\<rparr>)"
  by (auto simp: pop_pending_def)

lemma pop_pending_None [simp]: "pop_pending st = None \<longleftrightarrow> bs_set (ss_pending st) = {}"
  by (simp add: pop_pending_def)

lemma solve_loop_result:
  assumes "solve_loop L g t b st = Some r" and "I st"
    and "\<And>s p rest s'. I s \<Longrightarrow> bs_pop_first (ss_pending s) = Some (p, rest) \<Longrightarrow>
      solve_visit L g t b p (s\<lparr>ss_pending := rest\<rparr>) = Ok s' \<Longrightarrow> I s'"
  shows "(\<exists>s. r = Ok s \<and> I s \<and> bs_set (ss_pending s) = {}) \<or>
    ((\<forall>s. r \<noteq> Ok s) \<and> (\<exists>s p rest. I s \<and> bs_pop_first (ss_pending s) = Some (p, rest) \<and>
        solve_visit L g t b p (s\<lparr>ss_pending := rest\<rparr>) = r))"
proof -
  have "I s2" if "I s" "pop_pending s = Some (p, s1)" "solve_visit L g t b p s1 = Ok s2" for s p s1 s2
    using that assms(3) unfolding pop_pending_Some by blast
  with assms(1,2) show ?thesis
    unfolding solve_loop_def pop_pending_None[symmetric]
    by (rule while_let_result[of pop_pending _ st r I, THEN disj_forward]) (auto simp: pop_pending_Some)
qed

lemma for_each_measure:
  assumes "for_each body xs s = Ok s'" "\<And>x u v. x \<in> set xs \<Longrightarrow> body x u = Ok v \<Longrightarrow> m u \<le> (m v :: nat)"
  shows "m s \<le> m s'"
  using assms
proof (induction xs arbitrary: s)
  case (Cons x xs)
  from Cons.prems(1) obtain u where "body x s = Ok u" "for_each body xs u = Ok s'"
    by (auto simp: outcome_simps)
  with Cons.IH[of u] Cons.prems(2) show ?case by (meson le_trans list.set_intros)
qed simp

subsection \<open>What one edge and one visit do\<close>

lemma solve_edge_OkD:
  assumes "solve_edge L g b p l out i st = Ok st'"
  obtains e where "edge_of g i = Some e"
    "(ss_states st', ss_pending st') = propagate_edge L g out i (ss_states st, ss_pending st)"
    "ss_events st' = ss_events st @ [Propagate i (e_class e)]"
    "u_work (ss_usage st') = saturating_add (u_work (ss_usage st)) 1"
    "u_work (ss_usage st') \<le> max_work b"
    "u_observations (ss_usage st') = saturating_add (u_observations (ss_usage st)) 1"
    "u_observations (ss_usage st') \<le> max_observations b"
    "u_depth (ss_usage st') = u_depth (ss_usage st)"
    "u_output (ss_usage st') = u_output (ss_usage st) \<or> u_output (ss_usage st') \<le> max_output b"
proof -
  from assms obtain e where e: "edge_of g i = Some e"
    by (auto simp: solve_edge_def outcome_simps)
  show ?thesis
    by (rule that[OF e])
      (use assms e in \<open>auto simp: solve_edge_def propagate_edge_def propagate_def outcome_simps Let_def
        split: if_splits\<close>)
qed

lemma solve_edges_OkD:
  assumes "for_each (solve_edge L g b p l out) es st = Ok st'"
  shows "(ss_states st', ss_pending st') = fold (propagate_edge L g out) es (ss_states st, ss_pending st)"
  using assms
proof (induction es arbitrary: st)
  case (Cons i es)
  from Cons.prems obtain u where u: "solve_edge L g b p l out i st = Ok u"
    "for_each (solve_edge L g b p l out) es u = Ok st'"
    by (auto simp: outcome_simps)
  from u(1) Cons.IH[OF u(2)] show ?case by (auto elim!: solve_edge_OkD)
qed simp

lemma solve_visit_OkD:
  assumes "solve_visit L g t b p st = Ok st'"
  obtains es u v l where
    "successors_of g p = Some es" "bm_get (ss_states st) p = Some v"
    "for_each (solve_edge L g b p l (admitted_transfer_apply t v)) es u = Ok st'"
    "ss_states u = ss_states st" "ss_pending u = ss_pending st"
    "ss_events u = ss_events st @ [Visit p]" "ss_causes u = ss_causes st"
    "u_work (ss_usage u) = saturating_add (saturating_add (u_work (ss_usage st)) 1) 1"
    "u_work (ss_usage u) \<le> max_work b"
    "u_observations (ss_usage u) = u_observations (ss_usage st)"
    "u_depth (ss_usage u) = u_depth (ss_usage st)" "u_output (ss_usage u) = u_output (ss_usage st)"
proof -
  from assms obtain node v es where
    r: "node_of g p = Some node" "bm_get (ss_states st) p = Some v" "successors_of g p = Some es"
    by (auto simp: solve_visit_def outcome_simps Let_def split: if_splits)
  let ?u = "st\<lparr>ss_usage := (ss_usage st)\<lparr>u_work :=
      saturating_add (saturating_add (u_work (ss_usage st)) 1) 1\<rparr>, ss_events := ss_events st @ [Visit p]\<rparr>"
  have "for_each (solve_edge L g b p (n_location node) (admitted_transfer_apply t v)) es ?u = Ok st'"
    "saturating_add (saturating_add (u_work (ss_usage st)) 1) 1 \<le> max_work b"
    using assms r by (auto simp: solve_visit_def outcome_simps Let_def split: if_splits)
  then show ?thesis using r by (intro that[of es v "n_location node" ?u]) simp_all
qed

lemma solve_visit_effect:
  assumes "solve_visit L g t b p st = Ok st'"
  shows "(ss_states st', ss_pending st') =
    visit_node L (admitted_transfer_apply t) bottom g p (ss_states st, ss_pending st)"
  using assms
proof (rule solve_visit_OkD)
  fix es u v l
  assume "successors_of g p = Some es" "bm_get (ss_states st) p = Some v"
    "ss_states u = ss_states st" "ss_pending u = ss_pending st"
    and run: "for_each (solve_edge L g b p l (admitted_transfer_apply t v)) es u = Ok st'"
  with solve_edges_OkD[OF run] show ?thesis by (simp add: visit_node_def)
qed

lemma solve_seed_OkD:
  assumes "solve_seed L g b (n, s) st = Ok st'"
  shows "n \<in> node_ids g"
    "(ss_states st', ss_pending st') = propagate L s n (ss_states st, ss_pending st)"
    "ss_events st' = ss_events st"
    "u_work (ss_usage st') = saturating_add (u_work (ss_usage st)) 1" "u_work (ss_usage st') \<le> max_work b"
    "u_observations (ss_usage st') = u_observations (ss_usage st)"
    "u_depth (ss_usage st') = u_depth (ss_usage st)"
    "u_output (ss_usage st') = u_output (ss_usage st) \<or> u_output (ss_usage st') \<le> max_output b"
  using assms
  by (auto simp: solve_seed_def propagate_def outcome_simps Let_def in_bm_keys_iff node_of_def
      split: option.splits if_splits)

lemma wf_node_keys:
  assumes "wf_graph g"
  shows "map n_id (nodes_of g) = bm_keys (g_nodes g)"
proof -
  have "n_id node = k" if "(k, node) \<in> set (bm_entries (g_nodes g))" for k node
    using that assms by (auto simp: wf_graph_def node_of_def bm_entries_iff)
  then show ?thesis by (auto simp: nodes_of_def bm_values_def bm_keys_def)
qed

lemma wf_node_table:
  assumes "wf_graph g"
  shows "bm_get (bm_from_list (map (\<lambda>node. (n_id node, F (n_id node))) (nodes_of g))) n =
      (if n \<in> node_ids g then Some (F n) else None)"
proof -
  have keys: "map (\<lambda>node. (n_id node, F (n_id node))) (nodes_of g) = map (\<lambda>k. (k, F k)) (bm_keys (g_nodes g))"
    unfolding wf_node_keys[OF assms, symmetric] by simp
  have "map_of (map (\<lambda>k. (k, F k)) ks) n = (if n \<in> set ks then Some (F n) else None)" for ks
    by (induction ks) auto
  then show ?thesis
    unfolding keys by (subst bm_get_from_list_distinct) (simp_all add: comp_def)
qed

lemma wf_nodes_of:
  assumes "wf_graph g"
  shows "bm_get (bm_from_list (map (\<lambda>node. (n_id node, b)) (nodes_of g))) n =
      (if n \<in> node_ids g then Some b else None)"
    and "\<exists>node rest. nodes_of g = node # rest" and "length (nodes_of g) = card (node_ids g)"
proof -
  show "bm_get (bm_from_list (map (\<lambda>node. (n_id node, b)) (nodes_of g))) n =
      (if n \<in> node_ids g then Some b else None)"
    by (rule wf_node_table[OF assms])
  show "length (nodes_of g) = card (node_ids g)"
    by (simp add: nodes_of_def bm_values_def flip: bm_len_keys) (simp add: bm_len_def)
  have "node_ids g \<noteq> {}" using assms by (simp add: wf_graph_def)
  then show "\<exists>node rest. nodes_of g = node # rest"
    by (cases "nodes_of g") (auto simp: nodes_of_def bm_values_def bm_keys_def)
qed

section \<open>Correctness of the solver\<close>

context dataflow_system
begin

lemma solve_seeds_inv:
  assumes "for_each (solve_seed L g b) xs st = Ok st'" "set xs \<subseteq> set seeds"
    and "seed_inv seeds K (ss_states st, ss_pending st)"
  shows "seed_inv seeds (set xs \<union> K) (ss_states st', ss_pending st')"
  using assms
proof (induction xs arbitrary: st K)
  case (Cons x xs)
  obtain n s where x: "x = (n, s)" by (cases x)
  from Cons.prems(1) obtain u where u: "solve_seed L g b x st = Ok u" "for_each (solve_seed L g b) xs u = Ok st'"
    by (auto simp: outcome_simps)
  note d = solve_seed_OkD[OF u(1)[unfolded x]]
  have "seed_inv seeds (insert x K) (ss_states u, ss_pending u)"
    unfolding d(2) x using Cons.prems(2,3) d(1) x by (auto intro: seed_inv_step)
  from Cons.IH[OF u(2) _ this] Cons.prems(2) show ?case by simp
qed simp

lemma solve_start_inv:
  assumes "solve_start L g bottom seeds b = Ok st"
  shows "wl_inv seeds (ss_states st, ss_pending st)"
proof -
  let ?M = "bm_from_list (map (\<lambda>node. (n_id node, bottom)) (nodes_of g))"
  from assms obtain st0 where st0: "for_each (solve_seed L g b) seeds st0 = Ok st"
    "ss_states st0 = ?M" "ss_pending st0 = bs_empty"
    by (auto simp: solve_start_def Let_def outcome_simps)
  have "seed_inv seeds {} (?M, bs_empty)"
    by (rule seed_inv_start) (rule wf_nodes_of(1)[OF graph_wf])
  with solve_seeds_inv[OF st0(1), of seeds "{}"] st0(2,3)
  have "seed_inv seeds (set seeds) (ss_states st, ss_pending st)" by simp
  then show ?thesis by (rule seed_inv_done)
qed

lemma solve_loop_least:
  assumes "solve_loop L g t b st = Some (Ok st')" "f = admitted_transfer_apply t"
    and "wl_inv seeds (ss_states st, ss_pending st)"
  shows "least_solution L f bottom g seeds (state_at bottom (ss_states st')) \<and>
    set (bm_keys (ss_states st')) = node_ids g"
proof -
  let ?I = "\<lambda>s. wl_inv seeds (ss_states s, ss_pending s)"
  have step: "?I s'" if "?I s" "bs_pop_first (ss_pending s) = Some (p, rest)"
    "solve_visit L g t b p (s\<lparr>ss_pending := rest\<rparr>) = Ok s'" for s p rest s'
    using wl_inv_visit[OF that(1,2)] solve_visit_effect[OF that(3), of bottom] assms(2) by simp
  from solve_loop_result[of L g t b st "Ok st'" ?I, OF assms(1,3) step]
  have "?I st'" "bs_set (ss_pending st') = {}" by auto
  then show ?thesis using wl_inv_done by (auto simp: wl_inv_def base_inv_def)
qed

end

text \<open>
  C1: When \<open>solve\<close> returns a solution for a lattice and a transfer that satisfy the admitted
  laws, the solution's states are the least valuation that covers every seed and every edge
  out of a node above bottom, and every node of the graph has a state.
\<close>

theorem solve_least_solution:
  assumes "monotone_transfer L bottom (admitted_transfer_apply t)" and "wf_graph g"
    and "solve L g t bottom seeds budgets = Some (Ok sol)"
  shows "least_solution L (admitted_transfer_apply t) bottom g seeds (state_at bottom (sol_states sol)) \<and>
    set (bm_keys (sol_states sol)) = node_ids g"
proof -
  have sys: "dataflow_system L bottom (admitted_transfer_apply t) g"
    using assms(1,2) by (simp add: dataflow_system_def dataflow_system_axioms_def)
  from assms(3) obtain st st' where st: "solve_start L g bottom seeds budgets = Ok st"
    "solve_loop L g t budgets st = Some (Ok st')" "sol = solution_of st'"
    by (auto simp: solve_def outcome_simps split: outcome.splits)
  from dataflow_system.solve_loop_least[OF sys st(2) refl dataflow_system.solve_start_inv[OF sys st(1)]] st(3)
  show ?thesis by (simp add: solution_of_def)
qed

end
