(* ===== verification/Dataflow_Accounting.thy ===== *)
theory Dataflow_Accounting
  imports Dataflow_Solve
begin

text \<open>
  Resource behaviour of \<open>FixpointEngine::solve\<close>: that it returns (under a work limit, or on a
  lattice of finite height), that it never panics on a frozen graph, which errors it can
  report, that the reported usage is exact and within the budgets, and that the retained
  causes explain the states.
\<close>

section \<open>Termination under a work limit\<close>

lemma solve_edges_work:
  assumes "for_each (solve_edge L g b p l out) es st = Ok st'" "max_work b < usize_max"
  shows "u_work (ss_usage st) \<le> u_work (ss_usage st')"
  using assms(1)
proof (rule for_each_measure)
  fix i u v assume "solve_edge L g b p l out i u = Ok v"
  then show "u_work (ss_usage u) \<le> u_work (ss_usage v)"
    using assms(2) by (auto elim!: solve_edge_OkD simp: saturating_add_def)
qed

lemma solve_visit_work:
  assumes "solve_visit L g t b p st = Ok st'" "max_work b < usize_max"
  shows "u_work (ss_usage st) < u_work (ss_usage st') \<and> u_work (ss_usage st) < max_work b"
  using assms(1)
proof (rule solve_visit_OkD)
  fix es u v l
  assume run: "for_each (solve_edge L g b p l (admitted_transfer_apply t v)) es u = Ok st'"
    and w: "u_work (ss_usage u) = saturating_add (saturating_add (u_work (ss_usage st)) 1) 1"
      "u_work (ss_usage u) \<le> max_work b"
  from w assms(2) have "u_work (ss_usage st) < u_work (ss_usage u)"
    by (auto simp: saturating_add_def min_def split: if_splits)
  with w solve_edges_work[OF run assms(2)] show ?thesis by simp
qed

lemma solve_loop_returns:
  assumes "max_work b < usize_max"
  shows "\<exists>r. solve_loop L g t b st = Some r"
  unfolding solve_loop_def
proof (rule while_let_returns[where I = "\<lambda>_. True"])
  show "wf (measure (\<lambda>st. max_work b - u_work (ss_usage st)))" by simp
  fix s p s1 s2
  assume "pop_pending s = Some (p, s1)" "solve_visit L g t b p s1 = Ok s2"
  with solve_visit_work[OF _ assms]
  show "True \<and> (s2, s) \<in> measure (\<lambda>st. max_work b - u_work (ss_usage st))"
    by (fastforce simp: pop_pending_Some)
qed simp

lemma solve_returns_if_loop:
  assumes "\<And>st. solve_start L g bottom seeds budgets = Ok st \<Longrightarrow> \<exists>r. solve_loop L g t budgets st = Some r"
  shows "\<exists>r. solve L g t bottom seeds budgets = Some r"
  using assms by (fastforce simp: solve_def split: outcome.splits)

text \<open>
  Under any work budget below \<open>usize::MAX\<close> the solver returns, for every lattice, transfer
  and graph, lawful or not.
\<close>

theorem solve_returns_within_work_budget:
  assumes "max_work budgets < usize_max"
  shows "\<exists>r. solve L g t bottom seeds budgets = Some r"
  by (rule solve_returns_if_loop) (rule solve_loop_returns[OF assms])

section \<open>Termination on lattices of finite height\<close>

context dataflow_system
begin

definition potential :: "('s \<Rightarrow> nat) \<Rightarrow> nat \<Rightarrow> ('n, 's) bmap \<Rightarrow> nat" where
  "potential h H M = (\<Sum>n\<in>node_ids g. H - h (state_at bottom M n))"

lemma potential_insert:
  assumes h: "\<And>a b. less_equal L a b \<Longrightarrow> a \<noteq> b \<Longrightarrow> h a < h b" and H: "\<And>a. h a \<le> H"
    and "q \<in> node_ids g" "less_equal L (state_at bottom M q) s" "state_at bottom M q \<noteq> s"
  shows "potential h H (bm_insert q s M) < potential h H M"
  unfolding potential_def
proof (rule sum_strict_mono_ex1)
  show "\<forall>n\<in>node_ids g. H - h (state_at bottom (bm_insert q s M) n) \<le> H - h (state_at bottom M n)"
    using h[OF assms(4,5)] by auto
  have "h (state_at bottom M q) < h s" "h s \<le> H" using h[OF assms(4,5)] H by auto
  then show "\<exists>n\<in>node_ids g. H - h (state_at bottom (bm_insert q s M) n) < H - h (state_at bottom M n)"
    using assms(3) by (intro bexI[of _ q]) auto
qed simp

lemma propagate_edges_potential:
  assumes h: "\<And>a b. less_equal L a b \<Longrightarrow> a \<noteq> b \<Longrightarrow> h a < h b" and H: "\<And>a. h a \<le> H"
    and "fold (propagate_edge L g out) es (M, P) = (M', P')"
  shows "(M', P') = (M, P) \<or> potential h H M' < potential h H M"
  using assms(3)
proof (induction es arbitrary: M P)
  case (Cons i es)
  obtain M1 P1 where mp: "propagate_edge L g out i (M, P) = (M1, P1)" by fastforce
  have "(M1, P1) = (M, P) \<or> potential h H M1 < potential h H M"
  proof (cases "edge_of g i")
    case (Some e)
    have "edge_succ e \<in> node_ids g" using wf_edge_ends[OF graph_wf Some] by simp
    with mp Some show ?thesis
      by (auto simp: propagate_edge_def propagate_def Let_def
          intro!: potential_insert[of h, OF h H] split: option.splits if_splits)
  qed (use mp in \<open>simp add: propagate_edge_def\<close>)
  moreover from Cons mp have "(M', P') = (M1, P1) \<or> potential h H M' < potential h H M1" by simp
  ultimately show ?case by auto
qed simp

lemma solve_loop_returns_height:
  assumes h: "\<And>a b. less_equal L a b \<Longrightarrow> a \<noteq> b \<Longrightarrow> h a < h b" and H: "\<And>a. h a \<le> (H::nat)"
  shows "\<exists>r. solve_loop L g t b st = Some r"
  unfolding solve_loop_def
proof (rule while_let_returns[where I = "\<lambda>_. True"])
  let ?R = "measures [\<lambda>st. potential h H (ss_states st), \<lambda>st. card (bs_set (ss_pending st))]"
  show "wf ?R" by simp
  fix s p s1 st'
  assume "pop_pending s = Some (p, s1)" and run: "solve_visit L g t b p s1 = Ok st'"
  then obtain rest where pop: "bs_pop_first (ss_pending s) = Some (p, rest)" "s1 = s\<lparr>ss_pending := rest\<rparr>"
    unfolding pop_pending_Some by blast
  from solve_visit_effect[OF run, of bottom] pop(2)
  have "(ss_states st', ss_pending st') = (ss_states s, rest) \<or>
      potential h H (ss_states st') < potential h H (ss_states s)"
    using propagate_edges_potential[of h H, OF h H, of _ _ "ss_states s" rest "ss_states st'" "ss_pending st'"]
    by (cases "successors_of g p") (simp_all add: visit_node_def eq_commute)
  then show "True \<and> (st', s) \<in> ?R" using card_bs_pop_first[OF pop(1)] by auto
qed simp

end

text \<open>
  C12: On a lattice of finite height (a rank that grows along every strict step and is bounded)
  the solver returns under every budget, \<open>QueryBudgets::unlimited()\<close> included.
\<close>

theorem solve_returns_finite_height:
  assumes "monotone_transfer L bottom (admitted_transfer_apply t)" and "wf_graph g"
    and "\<And>a b. less_equal L a b \<Longrightarrow> a \<noteq> b \<Longrightarrow> rank a < rank b" and "\<And>a. rank a \<le> (H::nat)"
  shows "\<exists>r. solve L g t bottom seeds budgets = Some r"
proof -
  have sys: "dataflow_system L bottom (admitted_transfer_apply t) g"
    using assms(1,2) by (simp add: dataflow_system_def dataflow_system_axioms_def)
  show ?thesis
    by (rule solve_returns_if_loop) (rule dataflow_system.solve_loop_returns_height[OF sys assms(3,4)])
qed

section \<open>No panic, and which errors\<close>

definition solver_shape :: "('n::linorder, 'e::linorder, 'l, 'c) dataflow_graph \<Rightarrow> ('n, 'e, 'c, 's) solve_state \<Rightarrow> bool" where
  "solver_shape g st \<longleftrightarrow> set (bm_keys (ss_states st)) = node_ids g \<and> bs_set (ss_pending st) \<subseteq> node_ids g"

text \<open>The errors that do not blame the lattice or the transfer.\<close>

fun blameless :: "('n, 'e, 'l) dataflow_error \<Rightarrow> bool" where
  "blameless (UnknownSeed n) = True"
| "blameless (dataflow_error.BudgetExceeded _ _ _ _ _ _ _) = True"
| "blameless _ = False"

lemma charge_blameless: "charge c u limit kind at = Err e \<Longrightarrow> blameless e"
  by (auto simp: charge_def Let_def split: if_splits)

lemma charges_blameless:
  "charge_work usage b n l = Err e \<Longrightarrow> blameless e"
  "charge_work_edge usage b i l l' = Err e \<Longrightarrow> blameless e"
  "replace_state L M m s usage b l = Err e \<Longrightarrow> blameless e"
  by (auto simp: charge_work_def charge_work_edge_def replace_state_def outcome_simps dest: charge_blameless)

lemma charges_no_panic [outcome_simps]:
  "charge_work usage b n l = Panic p \<longleftrightarrow> False"
  "charge_work_edge usage b i l l' = Panic p \<longleftrightarrow> False"
  "replace_state L M m s usage b l = Panic p \<longleftrightarrow> False"
  by (simp_all add: charge_work_def charge_work_edge_def replace_state_def outcome_simps)

lemma solve_edge_shape:
  assumes "wf_graph g" "solver_shape g st" "edge_of g i = Some e"
  shows "solve_edge L g b p l out i st \<noteq> Panic q"
    and "solve_edge L g b p l out i st = Ok st' \<Longrightarrow> solver_shape g st'"
proof -
  from wf_edge_ends[OF assms(1,3)] have q: "edge_succ e \<in> node_ids g" by simp
  then have "edge_succ e \<in> set (bm_keys (ss_states st))" using assms(2) by (simp add: solver_shape_def)
  with q obtain tgt cur where r: "node_of g (edge_succ e) = Some tgt" "bm_get (ss_states st) (edge_succ e) = Some cur"
    unfolding in_bm_keys_iff node_of_def by blast
  show "solve_edge L g b p l out i st \<noteq> Panic q"
    using assms(3) r by (auto simp: solve_edge_def outcome_simps Let_def)
  assume "solve_edge L g b p l out i st = Ok st'"
  then show "solver_shape g st'"
    using assms(2,3) q by (auto elim!: solve_edge_OkD simp: propagate_edge_def propagate_def solver_shape_def
        Let_def split: option.splits if_splits)
qed

lemma solve_visit_shape:
  assumes "wf_graph g" "solver_shape g st" "p \<in> node_ids g"
  shows "solve_visit L g t b p st \<noteq> Panic q"
    and "solve_visit L g t b p st = Ok st' \<Longrightarrow> solver_shape g st'"
proof -
  obtain es where es: "successors_of g p = Some es"
    "\<And>i. i \<in> set es \<longleftrightarrow> (\<exists>e. edge_of g i = Some e \<and> edge_pred e = p)"
    by (rule wf_successors[OF assms(1,3)]) blast
  have p: "p \<in> set (bm_keys (ss_states st))" using assms(2,3) by (simp add: solver_shape_def)
  with assms(3) obtain node cur where r: "node_of g p = Some node" "bm_get (ss_states st) p = Some cur"
    unfolding in_bm_keys_iff node_of_def by blast
  have edges: "\<exists>e. edge_of g i = Some e" if "i \<in> set es" for i using es(2) that by blast
  have "for_each (solve_edge L g b p l out) es u \<noteq> Panic q" if "solver_shape g u" for l out u q
    by (rule for_each_not_Panic[where I = "solver_shape g", OF that])
      (use edges in \<open>blast dest: solve_edge_shape[OF assms(1)]\<close>)+
  moreover have "solver_shape g (st\<lparr>ss_usage := u, ss_events := ev\<rparr>)" for u ev
    using assms(2) by (simp add: solver_shape_def)
  ultimately show "solve_visit L g t b p st \<noteq> Panic q"
    using r es(1) by (auto simp: solve_visit_def outcome_simps Let_def)
  assume "solve_visit L g t b p st = Ok st'"
  then show "solver_shape g st'"
  proof (rule solve_visit_OkD)
    fix es' u v l
    assume run: "successors_of g p = Some es'" "for_each (solve_edge L g b p l (admitted_transfer_apply t v)) es' u = Ok st'"
      and u: "ss_states u = ss_states st" "ss_pending u = ss_pending st"
    have "solver_shape g u" using assms(2) u by (simp add: solver_shape_def)
    with run(2) show ?thesis
      by (rule for_each_invariant)
        (metis run(1) es(1) edges option.inject solve_edge_shape(2)[OF assms(1)])
  qed
qed

lemma solve_seed_shape:
  assumes "solver_shape g st"
  shows "solve_seed L g b x st \<noteq> Panic q"
    and "solve_seed L g b x st = Ok st' \<Longrightarrow> solver_shape g st'"
proof -
  obtain n s where x: "x = (n, s)" by (cases x)
  have "\<exists>c. bm_get (ss_states st) n = Some c" if "node_of g n = Some v" for v
    using assms that unfolding solver_shape_def node_of_def by (metis in_bm_keys_iff)
  then show "solve_seed L g b x st \<noteq> Panic q"
    by (auto simp: x solve_seed_def outcome_simps Let_def split: option.splits)
  assume "solve_seed L g b x st = Ok st'"
  note d = solve_seed_OkD[OF this[unfolded x]]
  then show "solver_shape g st'"
    using assms by (auto simp: solver_shape_def propagate_def Let_def split: option.splits if_splits)
qed

lemma solve_start_shape:
  assumes "wf_graph g"
  shows "solve_start L g bottom seeds b \<noteq> Panic q"
    and "solve_start L g bottom seeds b = Ok st \<Longrightarrow> solver_shape g st"
proof -
  let ?M = "bm_from_list (map (\<lambda>node. (n_id node, bottom)) (nodes_of g))"
  have "set (bm_keys ?M) = node_ids g"
    unfolding set_bm_keys[of ?M] wf_nodes_of(1)[OF assms] by simp
  then have start: "solver_shape g \<lparr>ss_states = ?M, ss_pending = bs_empty, ss_events = [], ss_usage = u, ss_causes = bm_empty\<rparr>" for u
    by (simp add: solver_shape_def)
  have seeds_ok: "for_each (solve_seed L g b) seeds s0 \<noteq> Panic q"
    "for_each (solve_seed L g b) seeds s0 = Ok s1 \<Longrightarrow> solver_shape g s1"
    if "solver_shape g s0" for s0 s1 q
    subgoal by (rule for_each_not_Panic[where I = "solver_shape g", OF that]) (use solve_seed_shape in blast)+
    subgoal by (erule for_each_invariant[where I = "solver_shape g", OF _ that]) (use solve_seed_shape in blast)
    done
  obtain node rest where n: "nodes_of g = node # rest" using wf_nodes_of(2)[OF assms] by blast
  then show "solve_start L g bottom seeds b \<noteq> Panic q"
    using seeds_ok(1)[OF start] by (auto simp: solve_start_def first_location_def outcome_simps Let_def)
  assume "solve_start L g bottom seeds b = Ok st"
  then show "solver_shape g st"
    using seeds_ok(2)[OF start] by (auto simp: solve_start_def outcome_simps Let_def)
qed

lemma solve_loop_shape:
  assumes "wf_graph g" "solver_shape g st" "solve_loop L g t b st = Some r"
  shows "(\<exists>s. r = Ok s) \<or> (\<exists>e s p. r = Err e \<and> solve_visit L g t b p s = Err e)"
proof -
  have pend: "p \<in> node_ids g \<and> solver_shape g (s\<lparr>ss_pending := rest\<rparr>)"
    if "solver_shape g s" "bs_pop_first (ss_pending s) = Some (p, rest)" for s p rest
    using that(1) bs_pop_first_Some[OF that(2)] by (auto simp: solver_shape_def)
  have step: "solver_shape g s'" if "solver_shape g s" "bs_pop_first (ss_pending s) = Some (p, rest)"
    "solve_visit L g t b p (s\<lparr>ss_pending := rest\<rparr>) = Ok s'" for s p rest s'
    using pend[OF that(1,2)] solve_visit_shape(2)[OF assms(1) _ _ that(3)] by blast
  have "(\<exists>s. r = Ok s) \<or> ((\<forall>s. r \<noteq> Ok s) \<and> (\<exists>s p rest. solver_shape g s \<and>
      bs_pop_first (ss_pending s) = Some (p, rest) \<and> solve_visit L g t b p (s\<lparr>ss_pending := rest\<rparr>) = r))"
    using solve_loop_result[of L g t b st r "solver_shape g", OF assms(3,2)] step by blast
  then consider s where "r = Ok s" | s p rest where "\<forall>s. r \<noteq> Ok s" "solver_shape g s"
      "bs_pop_first (ss_pending s) = Some (p, rest)" "solve_visit L g t b p (s\<lparr>ss_pending := rest\<rparr>) = r"
    by blast
  then show ?thesis
  proof cases
    case 2
    then have "r \<noteq> Panic q" for q
      using pend[OF 2(2,3)] solve_visit_shape(1)[OF assms(1)] by metis
    with 2 show ?thesis by (cases r) auto
  qed simp
qed

text \<open>
  C13: On a frozen graph the solver never panics: none of its \<open>expect\<close> calls and map indexings can
  miss, whatever the lattice, the transfer, the seeds and the budgets are.
\<close>

theorem solve_no_panic:
  assumes "wf_graph g"
  shows "solve L g t bottom seeds budgets \<noteq> Some (Panic msg)"
proof
  assume r: "solve L g t bottom seeds budgets = Some (Panic msg)"
  show False
  proof (cases "solve_start L g bottom seeds budgets")
    case (Ok st)
    with r have "solve_loop L g t budgets st = Some (Panic msg)"
      by (auto simp: solve_def outcome_simps)
    from solve_loop_shape[OF assms solve_start_shape(2)[OF assms Ok] this] show False by simp
  qed (use r solve_start_shape(1)[OF assms, of L bottom seeds budgets msg] in \<open>auto simp: solve_def\<close>)
qed

context join_semilattice
begin

lemma solve_edge_blameless: "solve_edge L g b p l out i st = Err e \<Longrightarrow> blameless e"
  by (auto simp: solve_edge_def outcome_simps Let_def split: if_splits
      dest: charge_blameless charges_blameless)

lemma solve_seed_blameless: "solve_seed L g b x st = Err e \<Longrightarrow> blameless e"
  by (cases x) (auto simp: solve_seed_def outcome_simps Let_def split: if_splits option.splits
      dest: charge_blameless charges_blameless)

lemma for_each_blameless:
  assumes "for_each body xs s = Err e" "\<And>x u. body x u = Err e \<Longrightarrow> blameless e"
  shows "blameless e"
  using assms(1) by (induction xs arbitrary: s) (auto simp: outcome_simps intro: assms(2))

lemma solve_start_blameless: "solve_start L g bottom seeds b = Err e \<Longrightarrow> blameless e"
  by (auto simp: solve_start_def first_location_def outcome_simps Let_def split: list.splits
      dest: charge_blameless for_each_blameless[OF _ solve_seed_blameless])

end

context monotone_transfer
begin

lemma solve_visit_blameless:
  assumes "f = admitted_transfer_apply t" "solve_visit L g t b p st = Err e"
  shows "blameless e"
  using assms transfer_progress
  by (auto simp: solve_visit_def outcome_simps Let_def split: if_splits
      dest: charge_blameless charges_blameless for_each_blameless[OF _ solve_edge_blameless])

end

text \<open>
  For a lawful lattice and transfer the only errors of the solver are an unknown seed and an
  exhausted budget; a \<open>NodeFailure\<close> or \<open>EdgeFailure\<close> always convicts the lattice or the transfer.
\<close>

theorem solve_errors_blameless:
  assumes "monotone_transfer L bottom (admitted_transfer_apply t)" and "wf_graph g"
    and "solve L g t bottom seeds budgets = Some (Err e)"
  shows "blameless e"
proof (cases "solve_start L g bottom seeds budgets")
  case (Ok st)
  with assms(3) have "solve_loop L g t budgets st = Some (Err e)"
    by (auto simp: solve_def outcome_simps)
  from solve_loop_shape[OF assms(2) solve_start_shape(2)[OF assms(2) Ok] this]
    monotone_transfer.solve_visit_blameless[OF assms(1) refl] show ?thesis by blast
next
  case (Err e')
  have "join_semilattice L bottom" using assms(1) by (simp add: monotone_transfer_def)
  from join_semilattice.solve_start_blameless[OF this Err] assms(3) Err show ?thesis
    by (simp add: solve_def)
qed (use assms(3) in \<open>simp add: solve_def\<close>)


section \<open>Exact usage\<close>

fun is_visit :: "('n, 'e, 'c) dataflow_event \<Rightarrow> bool" where
  "is_visit (Visit _) = True"
| "is_visit (Propagate _ _) = False"

definition visit_count :: "('n, 'e, 'c) dataflow_event list \<Rightarrow> nat" where
  "visit_count events = length (filter is_visit events)"

definition propagation_count :: "('n, 'e, 'c) dataflow_event list \<Rightarrow> nat" where
  "propagation_count events = length (filter (\<lambda>e. \<not> is_visit e) events)"

lemma event_counts [simp]:
  "visit_count [] = 0" "propagation_count [] = 0"
  "visit_count (es @ [Visit n]) = Suc (visit_count es)"
  "visit_count (es @ [Propagate i c]) = visit_count es"
  "propagation_count (es @ [Visit n]) = propagation_count es"
  "propagation_count (es @ [Propagate i c]) = Suc (propagation_count es)"
  by (simp_all add: visit_count_def propagation_count_def)

text \<open>
  The metered invariant after \<open>k\<close> seeds: every counter is within its limit, and the work and
  observation counters are determined by the trace.
\<close>

definition metered :: "query_budgets \<Rightarrow> nat \<Rightarrow> nat \<Rightarrow> ('n::linorder, 'e, 'c, 's) solve_state \<Rightarrow> bool" where
  "metered b d k st \<longleftrightarrow>
     u_depth (ss_usage st) = d \<and> u_work (ss_usage st) \<le> max_work b \<and>
     u_observations (ss_usage st) \<le> max_observations b \<and> u_output (ss_usage st) \<le> max_output b \<and>
     (max_work b < usize_max \<longrightarrow>
        u_work (ss_usage st) = k + 2 * visit_count (ss_events st) + propagation_count (ss_events st)) \<and>
     (max_observations b < usize_max \<longrightarrow> u_observations (ss_usage st) = propagation_count (ss_events st))"

lemma saturating_incr_exact:
  "saturating_add c 1 \<le> m \<Longrightarrow> m < usize_max \<Longrightarrow> saturating_add c 1 = Suc c"
  by (auto simp: saturating_add_def min_def split: if_splits)

lemma metered_edge:
  assumes "metered b d k st" "solve_edge L g b p l out i st = Ok st'"
  shows "metered b d k st'"
  using assms(2)
proof (rule solve_edge_OkD)
  fix e
  assume "ss_events st' = ss_events st @ [Propagate i (e_class e)]"
    "u_work (ss_usage st') = saturating_add (u_work (ss_usage st)) 1" "u_work (ss_usage st') \<le> max_work b"
    "u_observations (ss_usage st') = saturating_add (u_observations (ss_usage st)) 1"
    "u_observations (ss_usage st') \<le> max_observations b" "u_depth (ss_usage st') = u_depth (ss_usage st)"
    "u_output (ss_usage st') = u_output (ss_usage st) \<or> u_output (ss_usage st') \<le> max_output b"
  with assms(1) show ?thesis
    using saturating_incr_exact[of "u_work (ss_usage st)" "max_work b"]
      saturating_incr_exact[of "u_observations (ss_usage st)" "max_observations b"]
    by (auto simp: metered_def)
qed

lemma metered_seed:
  assumes "metered b d k st" "solve_seed L g b x st = Ok st'"
  shows "metered b d (Suc k) st'"
proof -
  obtain n s where x: "x = (n, s)" by (cases x)
  note e = solve_seed_OkD[OF assms(2)[unfolded x]]
  show ?thesis
    using assms(1) e(3-8) saturating_incr_exact[of "u_work (ss_usage st)" "max_work b"]
    by (auto simp: metered_def)
qed

lemma metered_visit:
  assumes "metered b d k st" "solve_visit L g t b p st = Ok st'"
  shows "metered b d k st'"
  using assms(2)
proof (rule solve_visit_OkD)
  fix es u v l
  assume run: "for_each (solve_edge L g b p l (admitted_transfer_apply t v)) es u = Ok st'"
    and w: "u_work (ss_usage u) = saturating_add (saturating_add (u_work (ss_usage st)) 1) 1"
      "u_work (ss_usage u) \<le> max_work b"
    and u: "ss_events u = ss_events st @ [Visit p]" "u_observations (ss_usage u) = u_observations (ss_usage st)"
      "u_depth (ss_usage u) = u_depth (ss_usage st)" "u_output (ss_usage u) = u_output (ss_usage st)"
  have "u_work (ss_usage u) = 2 + u_work (ss_usage st)" if "max_work b < usize_max"
    using w that by (auto simp: saturating_add_def min_def split: if_splits)
  with assms(1) w(2) u have "metered b d k u" by (auto simp: metered_def)
  with run show ?thesis by (rule for_each_invariant) (rule metered_edge)
qed

lemma metered_seeds:
  assumes "for_each (solve_seed L g b) xs st = Ok st'" "metered b d k st"
  shows "metered b d (length xs + k) st'"
  using assms
proof (induction xs arbitrary: st k)
  case (Cons x xs)
  from Cons.prems(1) obtain u where u: "solve_seed L g b x st = Ok u" "for_each (solve_seed L g b) xs u = Ok st'"
    by (auto simp: outcome_simps)
  from Cons.IH[OF u(2) metered_seed[OF Cons.prems(2) u(1)]] show ?case by simp
qed simp

lemma solve_metered:
  assumes "solve L g t bottom seeds b = Some (Ok sol)"
  obtains st d where "sol = solution_of st" "metered b d (length seeds) st"
    "d = saturating_add 0 (length (nodes_of g))" "d \<le> max_depth b"
proof -
  from assms obtain st st' where st: "solve_start L g bottom seeds b = Ok st"
    "solve_loop L g t b st = Some (Ok st')" "sol = solution_of st'"
    by (auto simp: solve_def outcome_simps split: outcome.splits)
  let ?d = "saturating_add 0 (length (nodes_of g))"
  from st(1) obtain st0 where st0: "for_each (solve_seed L g b) seeds st0 = Ok st"
      "metered b ?d 0 st0" and d: "?d \<le> max_depth b"
    by (auto simp: solve_start_def Let_def outcome_simps metered_def default_usage_def)
  have "metered b ?d (length seeds) st" using metered_seeds[OF st0] by simp
  moreover have "metered b ?d (length seeds) s'" if "metered b ?d (length seeds) s"
    "solve_visit L g t b p (s\<lparr>ss_pending := rest\<rparr>) = Ok s'" for s s' p rest
    using that(1) by (intro metered_visit[OF _ that(2)]) (simp add: metered_def)
  ultimately have "metered b ?d (length seeds) st'"
    using solve_loop_result[of L g t b st "Ok st'" "metered b ?d (length seeds)", OF st(2)] by blast
  with st(3) d that show thesis by blast
qed

text \<open>
  C14: The usage a solution reports is within every budget, and below \<open>usize::MAX\<close> it is exact:
  one work unit per seed, two per visit and one per propagation of the trace, one observation
  per propagation, and a depth equal to the number of nodes of the graph.
\<close>

theorem solve_usage_exact:
  assumes "solve L g t bottom seeds budgets = Some (Ok sol)" and "wf_graph g"
  shows "u_work (sol_usage sol) \<le> max_work budgets \<and> u_observations (sol_usage sol) \<le> max_observations budgets \<and>
    u_depth (sol_usage sol) \<le> max_depth budgets \<and> u_output (sol_usage sol) \<le> max_output budgets \<and>
    (max_work budgets < usize_max \<longrightarrow>
       u_work (sol_usage sol) = length seeds + 2 * visit_count (sol_events sol) + propagation_count (sol_events sol)) \<and>
    (max_observations budgets < usize_max \<longrightarrow> u_observations (sol_usage sol) = propagation_count (sol_events sol)) \<and>
    (max_depth budgets < usize_max \<longrightarrow> u_depth (sol_usage sol) = card (node_ids g))"
proof -
  from assms(1) obtain st where st: "sol = solution_of st"
    "metered budgets (saturating_add 0 (length (nodes_of g))) (length seeds) st"
    "saturating_add 0 (length (nodes_of g)) \<le> max_depth budgets"
    by (rule solve_metered) auto
  have "saturating_add 0 (length (nodes_of g)) = card (node_ids g)" if "max_depth budgets < usize_max"
    using st(3) that by (auto simp: saturating_add_def wf_nodes_of(3)[OF assms(2)] min_def split: if_splits)
  with st show ?thesis by (simp add: metered_def solution_of_def)
qed

end
