(* ===== verification/Dataflow_Causes.thy ===== *)
theory Dataflow_Causes
  imports Dataflow_Accounting
begin

text \<open>
  Causality of a solution: what \<open>record_cause\<close> keeps during a run and what
  \<open>DataflowSolution::explain\<close> reports. Every recorded cause is a seed of the node or an edge of
  the graph into it, a node has a record exactly when its state is above bottom, and following
  the first retained cause of a node leads back to a seed.
\<close>

section \<open>Cause records\<close>

definition cause_ok ::
  "('n::linorder, 'e::linorder, 'l, 'c) dataflow_graph \<Rightarrow> ('n \<times> 's) list \<Rightarrow> 'n \<Rightarrow> ('n, 'e) causal_predecessor \<Rightarrow> bool" where
  "cause_ok g seeds n c =
     (case cp_edge c of
        None \<Rightarrow> cp_node c = n \<and> n \<in> fst ` set seeds
      | Some i \<Rightarrow> (case edge_of g i of
            None \<Rightarrow> False
          | Some e \<Rightarrow> edge_pred e = cp_node c \<and> edge_succ e = n))"

definition record_ok ::
  "('n::linorder, 'e::linorder, 'l, 'c) dataflow_graph \<Rightarrow> ('n \<times> 's) list \<Rightarrow> usize \<Rightarrow> 'n \<Rightarrow> ('n, 'e) causal_record \<Rightarrow> bool" where
  "record_ok g seeds limit n r \<longleftrightarrow>
     (\<forall>c\<in>set (retained r). cause_ok g seeds n c) \<and> length (retained r) \<le> limit \<and>
     (omitted r > 0 \<longrightarrow> length (retained r) = limit) \<and> (limit > 0 \<longrightarrow> retained r \<noteq> [])"

text \<open>The chain of first retained causes from a node back to a seed.\<close>

inductive traced ::
  "('n::linorder, ('n, 'e) causal_record) bmap \<Rightarrow> 'n \<Rightarrow> bool" for causes where
  traced_seed: "bm_get causes n = Some r \<Longrightarrow> retained r = c # cs \<Longrightarrow> cp_edge c = None \<Longrightarrow> traced causes n"
| traced_edge: "bm_get causes n = Some r \<Longrightarrow> retained r = c # cs \<Longrightarrow> cp_edge c = Some i \<Longrightarrow>
    traced causes (cp_node c) \<Longrightarrow> traced causes n"

inductive_cases traced_cases: "traced causes n"

definition cause_inv ::
  "('n::linorder, 'e::linorder, 'l, 'c) dataflow_graph \<Rightarrow> ('n \<times> 's) list \<Rightarrow> 's \<Rightarrow> usize \<Rightarrow>
   ('n, 'e, 'c, 's) solve_state \<Rightarrow> bool" where
  "cause_inv g seeds bottom limit st \<longleftrightarrow>
     (\<forall>n. (bm_get (ss_causes st) n \<noteq> None) = (state_at bottom (ss_states st) n \<noteq> bottom)) \<and>
     (\<forall>n\<in>bs_set (ss_pending st). state_at bottom (ss_states st) n \<noteq> bottom) \<and>
     (\<forall>n r. bm_get (ss_causes st) n = Some r \<longrightarrow> record_ok g seeds limit n r) \<and>
     (limit > 0 \<longrightarrow> (\<forall>n. bm_get (ss_causes st) n \<noteq> None \<longrightarrow> traced (ss_causes st) n))"

lemma record_cause_get:
  "bm_get (record_cause C n c limit) m =
     (if m = n then
        let r = (case bm_get C n of None \<Rightarrow> \<lparr>retained = [], omitted = 0\<rparr> | Some r \<Rightarrow> r) in
        Some (if length (retained r) < limit then r\<lparr>retained := retained r @ [c]\<rparr>
              else r\<lparr>omitted := saturating_add (omitted r) 1\<rparr>)
      else bm_get C m)"
  by (simp add: record_cause_def Let_def)

lemma record_cause_ok:
  assumes "\<And>r. bm_get C n = Some r \<Longrightarrow> record_ok g seeds limit n r" "cause_ok g seeds n c"
    "bm_get (record_cause C n c limit) n = Some r"
  shows "record_ok g seeds limit n r"
  using assms by (cases "bm_get C n") (auto simp: record_cause_get Let_def record_ok_def split: if_splits)

text \<open>Recording keeps every chain: records only grow at their end.\<close>

lemma record_cause_grows:
  assumes "bm_get C m = Some r" "retained r = d # cs"
  obtains r' cs' where "bm_get (record_cause C n c limit) m = Some r'" "retained r' = d # cs'"
proof (cases "m = n")
  case True
  show ?thesis
    by (rule that[of "if length (retained r) < limit then r\<lparr>retained := retained r @ [c]\<rparr>
            else r\<lparr>omitted := saturating_add (omitted r) 1\<rparr>"
          "if length (retained r) < limit then cs @ [c] else cs"])
      (use assms True in \<open>simp_all add: record_cause_get\<close>)
qed (use assms that in \<open>simp add: record_cause_get\<close>)

lemma traced_record_cause:
  assumes "traced C m"
  shows "traced (record_cause C n c limit) m"
  using assms
proof (induction rule: traced.induct)
  case (traced_seed m r d cs)
  from traced_seed(1,2) obtain r' cs' where
    "bm_get (record_cause C n c limit) m = Some r'" "retained r' = d # cs'"
    by (rule record_cause_grows)
  then show ?case using traced_seed(3) by (rule traced.traced_seed)
next
  case (traced_edge m r d cs i)
  from traced_edge(1,2) obtain r' cs' where
    "bm_get (record_cause C n c limit) m = Some r'" "retained r' = d # cs'"
    by (rule record_cause_grows)
  then show ?case using traced_edge(3,5) by (rule traced.traced_edge)
qed

lemma traced_new_cause:
  assumes "limit > 0" "cp_edge c \<noteq> None \<Longrightarrow> traced C (cp_node c)"
    and "bm_get C n \<noteq> None \<Longrightarrow> traced C n"
  shows "traced (record_cause C n c limit) n"
proof (cases "bm_get C n")
  case None
  with assms(1) have r: "bm_get (record_cause C n c limit) n = Some \<lparr>retained = [c], omitted = 0\<rparr>"
    by (simp add: record_cause_get)
  show ?thesis
  proof (cases "cp_edge c")
    case None
    with r show ?thesis by (intro traced_seed[OF r]) simp_all
  next
    case (Some i)
    with assms(2) have "traced (record_cause C n c limit) (cp_node c)" by (simp add: traced_record_cause)
    with Some show ?thesis by (intro traced_edge[OF r]) simp_all
  qed
qed (use assms(3) in \<open>simp add: traced_record_cause\<close>)

section \<open>Preservation along a run\<close>

lemma record_cause_keeps: "bm_get C m \<noteq> None \<Longrightarrow> bm_get (record_cause C n c limit) m \<noteq> None"
  by (simp add: record_cause_def Let_def)

lemma solve_edge_keeps_causes:
  assumes "solve_edge L g b p l out i st = Ok st'" "bm_get (ss_causes st) m \<noteq> None"
  shows "bm_get (ss_causes st') m \<noteq> None"
  using assms by (auto simp: solve_edge_def outcome_simps Let_def record_cause_def split: if_splits)

context join_semilattice
begin

lemma cause_inv_raise:
  assumes inv: "cause_inv g seeds bottom limit st"
    and up: "less_equal L (state_at bottom (ss_states st) n) s" "s \<noteq> state_at bottom (ss_states st) n"
    and c: "cause_ok g seeds n c" "cp_edge c \<noteq> None \<Longrightarrow> state_at bottom (ss_states st) (cp_node c) \<noteq> bottom"
    and st': "ss_states st' = bm_insert n s (ss_states st)" "ss_pending st' = bs_insert n (ss_pending st)"
      "ss_causes st' = record_cause (ss_causes st) n c limit"
  shows "cause_inv g seeds bottom limit st'"
proof -
  have s: "s \<noteq> bottom" using up le_bot_iff by fastforce
  have "bm_get (ss_causes st') m = Some r \<Longrightarrow> record_ok g seeds limit m r" for m r
    using inv record_cause_ok[of "ss_causes st" n g seeds limit c r] c(1)
    by (cases "m = n") (auto simp: cause_inv_def st' record_cause_get)
  moreover have "traced (ss_causes st') m" if "limit > 0" "bm_get (ss_causes st') m \<noteq> None" for m
  proof (cases "m = n")
    case True
    then show ?thesis unfolding st'(3) True
      using inv c(2) by (intro traced_new_cause[OF that(1)]) (auto simp: cause_inv_def that(1))
  next
    case False
    with that inv have "traced (ss_causes st) m" by (simp add: cause_inv_def st' record_cause_get)
    then show ?thesis unfolding st'(3) by (rule traced_record_cause)
  qed
  ultimately show ?thesis
    using inv s by (auto simp: cause_inv_def st' record_cause_get Let_def)
qed

lemma cause_inv_edge:
  assumes inv: "cause_inv g seeds bottom (max_explanation_causes b) st"
    and p: "state_at bottom (ss_states st) p \<noteq> bottom" "edge_of g i = Some e" "edge_pred e = p"
    and run: "solve_edge L g b p l out i st = Ok st'"
  shows "cause_inv g seeds bottom (max_explanation_causes b) st'"
proof (cases "bm_get (ss_states st) (edge_succ e)")
  case (Some cur)
  show ?thesis
  proof (cases "join L cur out = cur")
    case True
    with run p Some have "ss_states st' = ss_states st" "ss_pending st' = ss_pending st" "ss_causes st' = ss_causes st"
      by (auto simp: solve_edge_def outcome_simps Let_def split: if_splits)
    with inv show ?thesis by (simp add: cause_inv_def)
  next
    case False
    with run p Some have "ss_states st' = bm_insert (edge_succ e) (join L cur out) (ss_states st)"
      "ss_pending st' = bs_insert (edge_succ e) (ss_pending st)"
      "ss_causes st' = record_cause (ss_causes st) (edge_succ e) \<lparr>cp_node = p, cp_edge = Some i\<rparr> (max_explanation_causes b)"
      by (auto simp: solve_edge_def outcome_simps Let_def split: if_splits)
    with False Some p show ?thesis
      by (intro cause_inv_raise[OF inv]) (auto simp: state_at_def cause_ok_def)
  qed
qed (use run p in \<open>auto simp: solve_edge_def outcome_simps Let_def\<close>)

lemma cause_inv_seed:
  assumes inv: "cause_inv g seeds bottom (max_explanation_causes b) st" "x \<in> set seeds"
    and run: "solve_seed L g b x st = Ok st'"
  shows "cause_inv g seeds bottom (max_explanation_causes b) st'"
proof -
  obtain n s where x: "x = (n, s)" by (cases x)
  with run obtain cur where cur: "bm_get (ss_states st) n = Some cur"
    by (auto simp: solve_seed_def outcome_simps split: option.splits)
  show ?thesis
  proof (cases "join L cur s = cur")
    case True
    with run x cur have "ss_states st' = ss_states st" "ss_pending st' = ss_pending st" "ss_causes st' = ss_causes st"
      by (auto simp: solve_seed_def outcome_simps Let_def split: if_splits option.splits)
    with inv(1) show ?thesis by (simp add: cause_inv_def)
  next
    case False
    with run x cur have "ss_states st' = bm_insert n (join L cur s) (ss_states st)"
      "ss_pending st' = bs_insert n (ss_pending st)"
      "ss_causes st' = record_cause (ss_causes st) n \<lparr>cp_node = n, cp_edge = None\<rparr> (max_explanation_causes b)"
      by (auto simp: solve_seed_def outcome_simps Let_def split: if_splits option.splits)
    with False cur inv(2) x show ?thesis
      by (intro cause_inv_raise[OF inv(1), of n "join L cur s" "\<lparr>cp_node = n, cp_edge = None\<rparr>"])
        (force simp: cause_ok_def)+
  qed
qed


lemma cause_inv_visit:
  assumes inv: "cause_inv g seeds bottom (max_explanation_causes b) st"
    and g: "wf_graph g" "p \<in> node_ids g" and p: "state_at bottom (ss_states st) p \<noteq> bottom"
    and run: "solve_visit L g t b p st = Ok st'"
  shows "cause_inv g seeds bottom (max_explanation_causes b) st'"
  using run
proof (rule solve_visit_OkD)
  let ?J = "\<lambda>s. cause_inv g seeds bottom (max_explanation_causes b) s \<and> state_at bottom (ss_states s) p \<noteq> bottom"
  fix es u v l
  assume es: "successors_of g p = Some es"
    and loop: "for_each (solve_edge L g b p l (admitted_transfer_apply t v)) es u = Ok st'"
    and u: "ss_states u = ss_states st" "ss_pending u = ss_pending st" "ss_causes u = ss_causes st"
  have "?J u" using inv p u by (simp add: cause_inv_def)
  with loop have "?J st'"
  proof (rule for_each_invariant)
    fix i s s' assume i: "i \<in> set es" and J: "?J s"
      and s': "solve_edge L g b p l (admitted_transfer_apply t v) i s = Ok s'"
    obtain e where e: "edge_of g i = Some e" "edge_pred e = p"
      by (rule wf_successors[OF g]) (use i es that in auto)
    from J have s: "cause_inv g seeds bottom (max_explanation_causes b) s" "state_at bottom (ss_states s) p \<noteq> bottom"
      by blast+
    have inv': "cause_inv g seeds bottom (max_explanation_causes b) s'"
      by (rule cause_inv_edge[OF s e s'])
    have "bm_get (ss_causes s) p \<noteq> None" using s unfolding cause_inv_def by blast
    then have "bm_get (ss_causes s') p \<noteq> None" by (rule solve_edge_keeps_causes[OF s'])
    with inv' show "?J s'" unfolding cause_inv_def by blast
  qed
  then show ?thesis by blast
qed

lemma cause_inv_start:
  assumes "wf_graph g" "solve_start L g bottom seeds b = Ok st"
  shows "cause_inv g seeds bottom (max_explanation_causes b) st"
proof -
  let ?M = "bm_from_list (map (\<lambda>node. (n_id node, bottom)) (nodes_of g))"
  from assms(2) obtain st0 where st0: "for_each (solve_seed L g b) seeds st0 = Ok st"
    "ss_states st0 = ?M" "ss_pending st0 = bs_empty" "ss_causes st0 = bm_empty"
    by (auto simp: solve_start_def Let_def outcome_simps)
  have "cause_inv g seeds bottom (max_explanation_causes b) st0"
    by (simp add: cause_inv_def st0 state_at_def wf_nodes_of(1)[OF assms(1)])
  with st0(1) show ?thesis by (rule for_each_invariant) (rule cause_inv_seed)
qed

lemma cause_inv_loop:
  assumes "wf_graph g" "solver_shape g st" "cause_inv g seeds bottom (max_explanation_causes b) st"
    and "solve_loop L g t b st = Some (Ok st')"
  shows "cause_inv g seeds bottom (max_explanation_causes b) st'"
proof -
  let ?J = "\<lambda>s. cause_inv g seeds bottom (max_explanation_causes b) s \<and> solver_shape g s"
  have "?J s'" if J: "?J s" and pop: "bs_pop_first (ss_pending s) = Some (p, rest)"
    and run: "solve_visit L g t b p (s\<lparr>ss_pending := rest\<rparr>) = Ok s'" for s p rest s'
  proof -
    from bs_pop_first_Some[OF pop] J have p: "p \<in> node_ids g" "state_at bottom (ss_states s) p \<noteq> bottom"
        "solver_shape g (s\<lparr>ss_pending := rest\<rparr>)"
        "cause_inv g seeds bottom (max_explanation_causes b) (s\<lparr>ss_pending := rest\<rparr>)"
      by (auto simp: cause_inv_def solver_shape_def)
    with cause_inv_visit[OF p(4) assms(1) p(1) _ run] solve_visit_shape(2)[OF assms(1) p(3,1) run]
    show ?thesis by simp
  qed
  then show ?thesis
    using solve_loop_result[of L g t b st "Ok st'" ?J, OF assms(4)] assms(2,3) by blast
qed

lemma solve_cause_inv:
  assumes "wf_graph g" "solve L g t bottom seeds b = Some (Ok sol)"
  obtains st where "sol = solution_of st" "cause_inv g seeds bottom (max_explanation_causes b) st"
proof -
  from assms(2) obtain st st' where st: "solve_start L g bottom seeds b = Ok st"
    "solve_loop L g t b st = Some (Ok st')" "sol = solution_of st'"
    by (auto simp: solve_def outcome_simps split: outcome.splits)
  from cause_inv_loop[OF assms(1) solve_start_shape(2)[OF assms(1) st(1)] cause_inv_start[OF assms(1) st(1)] st(2)]
  show thesis using st(3) that by blast
qed

end

section \<open>The causality budget only cuts what is kept\<close>






abbreviation with_budget where
  "with_budget m b \<equiv> b\<lparr>max_explanation_causes := m\<rparr>"



lemma charge_work_budget [simp]: "charge_work usage (with_budget m b) n l = charge_work usage b n l"
  by (simp add: charge_work_def)








section \<open>Properties of explanations\<close>


text \<open>
  With a causality budget of at least one, every node above bottom is explained back to a
  seed: following first retained causes from it ends in a seed cause.
\<close>

theorem solve_causes_traced:
  assumes "join_semilattice L bottom" and "wf_graph g"
    and "solve L g t bottom seeds budgets = Some (Ok sol)" and "max_explanation_causes budgets > 0"
    and "state_at bottom (sol_states sol) n \<noteq> bottom"
  shows "traced (sol_causes sol) n"
proof -
  from join_semilattice.solve_cause_inv[OF assms(1-3)] obtain st where st: "sol = solution_of st"
    "cause_inv g seeds bottom (max_explanation_causes budgets) st" by blast
  with assms(4,5) show ?thesis by (simp add: solution_of_def cause_inv_def)
qed

end
