(* ===== verification/Dataflow_Resume.thy ===== *)
theory Dataflow_Resume
  imports Dataflow_Causes
begin

text \<open>
  Resumable solving (\<open>start_resumable\<close>, \<open>resume\<close> and \<open>resume_bound\<close> of
  dataflow/engine/execution.rs, the continuation of contracts.rs and its construction in
  proof.rs). A run executes at most \<open>max_visits\<close> worklist nodes and is suspended between nodes.
  Hashing is a parameter: \<open>h_dependencies\<close> and \<open>h_token\<close> stand for \<open>incremental_fingerprint\<close> at
  the two tuples the code hashes.
\<close>

section \<open>Continuations\<close>

record (overloaded) ('n, 'e, 'c, 's) dataflow_continuation =
  dc_token :: continuation_token
  dc_graph :: value_fingerprint
  dc_policy :: value_fingerprint
  dc_dependencies :: value_fingerprint
  dc_states :: "('n::linorder, 's) bmap"
  dc_pending :: "'n bset"
  dc_events :: "('n, 'e, 'c) dataflow_event list"
  dc_causes :: "('n, ('n, 'e) causal_record) bmap"
  dc_cause_limit :: usize
  dc_usage :: dataflow_usage

datatype ('sol, 'cont) progress = Complete 'sol | Suspended 'cont

type_synonym ('n, 'e, 'c, 's) dataflow_progress =
  "(('n, 'e, 'c, 's) dataflow_solution, ('n, 'e, 'c, 's) dataflow_continuation) progress"

record continuation_identity =
  ci_graph :: value_fingerprint
  ci_policy :: value_fingerprint
  ci_dependencies :: value_fingerprint

record (overloaded) ('n, 'e, 'c, 's) resume_hashes =
  h_dependencies :: "'s \<times> ('n::linorder, 's) bmap \<Rightarrow> value_fingerprint"
  h_token :: "value_fingerprint \<times> value_fingerprint \<times> value_fingerprint \<times> ('n, 's) bmap \<times> 'n bset \<times>
     ('n, 'e, 'c) dataflow_event list \<times> ('n, ('n, 'e) causal_record) bmap \<times> usize \<Rightarrow> continuation_token"

definition check_fingerprint ::
  "continuation_fingerprint \<Rightarrow> value_fingerprint \<Rightarrow> value_fingerprint \<Rightarrow> (('n, 'e, 'l) dataflow_error, unit) outcome" where
  "check_fingerprint changed expected actual =
     (if expected = actual then Ok () else Err (ContinuationMismatch changed expected actual))"

definition make_continuation ::
  "('n::linorder, 'e, 'c, 's) resume_hashes \<Rightarrow> continuation_identity \<Rightarrow> usize \<Rightarrow> ('n, 'e, 'c, 's) solve_state \<Rightarrow>
   ('n, 'e, 'c, 's) dataflow_continuation" where
  "make_continuation h ident cause_limit st =
     \<lparr>dc_token = h_token h (ci_graph ident, ci_policy ident, ci_dependencies ident, ss_states st,
        ss_pending st, ss_events st, ss_causes st, cause_limit),
      dc_graph = ci_graph ident, dc_policy = ci_policy ident, dc_dependencies = ci_dependencies ident,
      dc_states = ss_states st, dc_pending = ss_pending st, dc_events = ss_events st,
      dc_causes = ss_causes st, dc_cause_limit = cause_limit, dc_usage = ss_usage st\<rparr>"

section \<open>Stepping\<close>

definition resume_edge ::
  "'s join_semilattice_ops \<Rightarrow> ('n::linorder, 'e::linorder, 'l, 'c) dataflow_graph \<Rightarrow> usize \<Rightarrow>
   'n \<Rightarrow> 's \<Rightarrow> 'e \<Rightarrow> ('n, 'e, 'c, 's) solve_state \<Rightarrow>
   (('n, 'e, 'l) dataflow_error, ('n, 'e, 'c, 's) solve_state) outcome" where
  "resume_edge L g cause_limit node_id output edge_id st =
     bind_outcome (expect ''edge index is complete'' (edge_of g edge_id)) (\<lambda>edge.
     let target_id = edge_succ edge;
         usage = (ss_usage st)\<lparr>u_observations := saturating_add (u_observations (ss_usage st)) 1,
                               u_work := saturating_add (u_work (ss_usage st)) 1\<rparr>;
         events = ss_events st @ [Propagate edge_id (e_class edge)]
     in
     bind_outcome (index_state (ss_states st) target_id) (\<lambda>current.
     let joined = join L current output in
     if joined \<noteq> current then
       Ok (st\<lparr>ss_usage := usage\<lparr>u_output := saturating_add (u_output usage) (state_size L joined)\<rparr>,
              ss_events := events,
              ss_states := bm_insert target_id joined (ss_states st),
              ss_pending := bs_insert target_id (ss_pending st),
              ss_causes := record_cause (ss_causes st) target_id
                \<lparr>cp_node = node_id, cp_edge = Some edge_id\<rparr> cause_limit\<rparr>)
     else Ok (st\<lparr>ss_usage := usage, ss_events := events\<rparr>)))"

definition resume_visit ::
  "'s join_semilattice_ops \<Rightarrow> ('n::linorder, 'e::linorder, 'l, 'c) dataflow_graph \<Rightarrow> 's admitted_transfer \<Rightarrow>
   usize \<Rightarrow> 'n \<Rightarrow> ('n, 'e, 'c, 's) solve_state \<Rightarrow>
   (('n, 'e, 'l) dataflow_error, ('n, 'e, 'c, 's) solve_state) outcome" where
  "resume_visit L g t cause_limit node_id st =
     (let usage = (ss_usage st)\<lparr>u_work := saturating_add (u_work (ss_usage st)) 2\<rparr>;
          events = ss_events st @ [Visit node_id]
      in
      bind_outcome (index_state (ss_states st) node_id) (\<lambda>current.
      let output = admitted_transfer_apply t current in
      bind_outcome (expect ''snapshot node belongs to graph'' (node_of g node_id)) (\<lambda>node.
      if \<not> less_equal L current output
      then Err (NodeFailure Transfer node_id (n_location node))
      else
        bind_outcome (expect ''node index is complete'' (successors_of g node_id)) (\<lambda>edges.
          for_each (resume_edge L g cause_limit node_id output) edges
            (st\<lparr>ss_usage := usage, ss_events := events\<rparr>)))))"

text \<open>The loop \<open>while visits < max_visits\<close>, with the visits that are left as its argument.\<close>

primrec resume_loop ::
  "'s join_semilattice_ops \<Rightarrow> ('n::linorder, 'e::linorder, 'l, 'c) dataflow_graph \<Rightarrow> 's admitted_transfer \<Rightarrow>
   ('n, 'e, 'c, 's) resume_hashes \<Rightarrow> continuation_identity \<Rightarrow> usize \<Rightarrow> usize \<Rightarrow> ('n, 'e, 'c, 's) solve_state \<Rightarrow>
   (('n, 'e, 'l) dataflow_error, ('n, 'e, 'c, 's) dataflow_progress) outcome" where
  "resume_loop L g t h ident cause_limit 0 st =
     (if bm_entries (ss_pending st) = [] then Ok (Complete (solution_of st))
      else Ok (Suspended (make_continuation h ident cause_limit st)))"
| "resume_loop L g t h ident cause_limit (Suc visits) st =
     (case bs_pop_first (ss_pending st) of
        None \<Rightarrow> Ok (Complete (solution_of st))
      | Some (node_id, rest) \<Rightarrow>
          bind_outcome (resume_visit L g t cause_limit node_id (st\<lparr>ss_pending := rest\<rparr>))
            (resume_loop L g t h ident cause_limit visits))"

definition resume_bound ::
  "'s join_semilattice_ops \<Rightarrow> ('n::linorder, 'e::linorder, 'l, 'c) dataflow_graph \<Rightarrow> 's admitted_transfer \<Rightarrow>
   ('n, 'e, 'c, 's) resume_hashes \<Rightarrow> ('n, 'e, 'c, 's) dataflow_continuation \<Rightarrow> usize \<Rightarrow>
   (('n, 'e, 'l) dataflow_error, ('n, 'e, 'c, 's) dataflow_progress) outcome" where
  "resume_bound L g t h c max_visits =
     resume_loop L g t h
       \<lparr>ci_graph = dc_graph c, ci_policy = dc_policy c, ci_dependencies = dc_dependencies c\<rparr>
       (dc_cause_limit c) max_visits
       \<lparr>ss_states = dc_states c, ss_pending = dc_pending c, ss_events = dc_events c,
        ss_usage = dc_usage c, ss_causes = dc_causes c\<rparr>"

definition resume_seed ::
  "'s join_semilattice_ops \<Rightarrow> ('n::linorder, 'e::linorder, 'l, 'c) dataflow_graph \<Rightarrow> usize \<Rightarrow>
   'n \<times> 's \<Rightarrow> ('n, 'e, 'c, 's) solve_state \<Rightarrow> (('n, 'e, 'l) dataflow_error, ('n, 'e, 'c, 's) solve_state) outcome" where
  "resume_seed L g explanation_limit = (\<lambda>(node_id, seed) st.
     case node_of g node_id of
       None \<Rightarrow> Err (UnknownSeed node_id)
     | Some _ \<Rightarrow>
         bind_outcome (index_state (ss_states st) node_id) (\<lambda>current.
         let joined = join L current seed in
         if joined \<noteq> current then
           Ok (st\<lparr>ss_states := bm_insert node_id joined (ss_states st),
                  ss_pending := bs_insert node_id (ss_pending st),
                  ss_causes := record_cause (ss_causes st) node_id
                    \<lparr>cp_node = node_id, cp_edge = None\<rparr> explanation_limit\<rparr>)
         else Ok st))"

definition start_resumable ::
  "'s join_semilattice_ops \<Rightarrow> ('n::linorder, 'e::linorder, 'l, 'c) dataflow_graph \<Rightarrow> 's admitted_transfer \<Rightarrow>
   ('n, 'e, 'c, 's) resume_hashes \<Rightarrow> 's \<Rightarrow> ('n \<times> 's) list \<Rightarrow> usize \<Rightarrow> usize \<Rightarrow>
   (('n, 'e, 'l) dataflow_error, ('n, 'e, 'c, 's) dataflow_progress) outcome" where
  "start_resumable L g t h bottom seeds max_visits explanation_limit =
     (let seed_map = bm_from_list seeds;
          dependencies = h_dependencies h (bottom, seed_map)
      in
      bind_outcome
        (for_each (resume_seed L g explanation_limit) (bm_entries seed_map)
          \<lparr>ss_states = bm_from_list (map (\<lambda>node. (n_id node, bottom)) (nodes_of g)),
           ss_pending = bs_empty, ss_events = [], ss_usage = default_usage, ss_causes = bm_empty\<rparr>) (\<lambda>st.
      resume_bound L g t h
        (make_continuation h
          \<lparr>ci_graph = g_fingerprint g, ci_policy = at_fingerprint t, ci_dependencies = dependencies\<rparr>
          explanation_limit st)
        max_visits))"

definition resume ::
  "'s join_semilattice_ops \<Rightarrow> ('n::linorder, 'e::linorder, 'l, 'c) dataflow_graph \<Rightarrow> 's admitted_transfer \<Rightarrow>
   ('n, 'e, 'c, 's) resume_hashes \<Rightarrow> 's \<Rightarrow> ('n \<times> 's) list \<Rightarrow> ('n, 'e, 'c, 's) dataflow_continuation \<Rightarrow> usize \<Rightarrow>
   (('n, 'e, 'l) dataflow_error, ('n, 'e, 'c, 's) dataflow_progress) outcome" where
  "resume L g t h bottom seeds c max_visits =
     bind_outcome (check_fingerprint GraphFingerprint (dc_graph c) (g_fingerprint g)) (\<lambda>_.
     bind_outcome (check_fingerprint PolicyFingerprint (dc_policy c) (at_fingerprint t)) (\<lambda>_.
     let seed_map = bm_from_list seeds in
     bind_outcome (check_fingerprint DependenciesFingerprint (dc_dependencies c) (h_dependencies h (bottom, seed_map))) (\<lambda>_.
     resume_bound L g t h c max_visits)))"

section \<open>Suspended runs compose\<close>

lemma resume_bound_make [simp]:
  "resume_bound L g t h (make_continuation h ident limit st) k = resume_loop L g t h ident limit k st"
  by (cases st; cases ident) (simp add: resume_bound_def make_continuation_def)

lemma pending_empty_iff: "bm_entries (P :: 'n::linorder bset) = [] \<longleftrightarrow> bs_set P = {}"
  by (simp add: bs_elems_def bm_keys_def)

lemma resume_loop_compose:
  assumes "resume_loop L g t h ident limit k st = Ok (Suspended c)"
  shows "resume_bound L g t h c m = resume_loop L g t h ident limit (k + m) st \<and>
    dc_graph c = ci_graph ident \<and> dc_policy c = ci_policy ident \<and> dc_dependencies c = ci_dependencies ident"
  using assms
proof (induction k arbitrary: st)
  case 0
  then have c: "c = make_continuation h ident limit st" by (auto split: if_splits)
  show ?case unfolding c resume_bound_make by (simp add: make_continuation_def)
next
  case (Suc k)
  then obtain p rest st' where
    "bs_pop_first (ss_pending st) = Some (p, rest)"
    "resume_visit L g t limit p (st\<lparr>ss_pending := rest\<rparr>) = Ok st'"
    "resume_loop L g t h ident limit k st' = Ok (Suspended c)"
    by (auto simp: outcome_simps split: option.splits)
  with Suc.IH[of st'] show ?case by simp
qed

lemma resume_loop_complete_mono:
  assumes "resume_loop L g t h ident limit k st = Ok (Complete sol)"
  shows "resume_loop L g t h ident limit (k + m) st = Ok (Complete sol)"
  using assms
proof (induction k arbitrary: st)
  case 0
  then have "bs_set (ss_pending st) = {}" "sol = solution_of st"
    by (auto simp: pending_empty_iff split: if_splits)
  moreover from this have "bs_pop_first (ss_pending st) = None" by simp
  ultimately show ?case by (cases m) (simp_all add: pending_empty_iff)
next
  case (Suc k)
  then show ?case by (auto simp: outcome_simps split: option.splits)
qed


section \<open>A resumable run follows the budgeted run\<close>












section \<open>Properties of resumable runs\<close>

text \<open>
  C8: Suspension loses nothing: when a start with \<open>k\<close> visits is suspended, resuming it with \<open>m\<close>
  visits on the same inputs gives exactly the outcome (solution, snapshot or error) of one start
  with \<open>k + m\<close> visits.
\<close>

theorem resume_composes:
  assumes "start_resumable L g t h bottom seeds k limit = Ok (Suspended c)"
  shows "resume L g t h bottom seeds c m = start_resumable L g t h bottom seeds (k + m) limit"
proof -
  from assms obtain st where st: "for_each (resume_seed L g limit) (bm_entries (bm_from_list seeds))
      \<lparr>ss_states = bm_from_list (map (\<lambda>node. (n_id node, bottom)) (nodes_of g)),
       ss_pending = bs_empty, ss_events = [], ss_usage = default_usage, ss_causes = bm_empty\<rparr> = Ok st"
    by (auto simp: start_resumable_def Let_def outcome_simps)
  let ?ident = "\<lparr>ci_graph = g_fingerprint g, ci_policy = at_fingerprint t,
      ci_dependencies = h_dependencies h (bottom, bm_from_list seeds)\<rparr>"
  have start: "start_resumable L g t h bottom seeds n limit = resume_loop L g t h ?ident limit n st" for n
    using st by (simp add: start_resumable_def Let_def)
  from resume_loop_compose[OF assms[unfolded start], of m] show ?thesis
    by (simp add: start resume_def check_fingerprint_def Let_def)
qed


end
