(* ===== verification/Dataflow_Incremental.thy ===== *)
theory Dataflow_Incremental
  imports Dataflow_Resume "HOL-Library.Product_Lexorder"
begin

text \<open>
  Completion proofs and incremental re-solving (\<open>solve_proven\<close>, \<open>present\<close> and
  \<open>solve_incremental\<close> of dataflow/engine/execution.rs; \<open>DataflowCompletionProof\<close> and
  \<open>CompletionProofMismatch\<close> of contracts.rs; \<open>proof_inputs\<close>, \<open>mint_completion_proof\<close> and
  \<open>previous_seed_fingerprints\<close> of proof.rs). The hashes the code takes with
  \<open>incremental_fingerprint\<close> are the fields of a parameter.
\<close>

section \<open>Completion proofs\<close>

record (overloaded) ('n, 'e, 's) proof_hashes =
  ph_state :: "'s \<Rightarrow> value_fingerprint"
  ph_boundaries :: "('n::linorder \<times> boundary) list \<Rightarrow> value_fingerprint"
  ph_limits :: "usize \<times> usize \<times> usize \<times> usize \<times> usize \<Rightarrow> value_fingerprint"
  ph_seeds :: "('n, 's) bmap \<Rightarrow> value_fingerprint"
  ph_identity :: "u64 \<times> value_fingerprint \<times> value_fingerprint \<times> value_fingerprint \<times> value_fingerprint \<times>
     value_fingerprint \<times> value_fingerprint \<times> ('n \<times> 'e \<times> 'n) list \<times> ('n, value_fingerprint) bmap \<times>
     ('n, ('n, 'e) causal_record) bmap \<Rightarrow> value_fingerprint"

definition dataflow_proof_schema_revision :: u64 where
  "dataflow_proof_schema_revision = 2"

record proof_inputs =
  pi_graph :: value_fingerprint
  pi_lattice :: value_fingerprint
  pi_policy :: value_fingerprint
  pi_boundaries :: value_fingerprint
  pi_limits :: value_fingerprint
  pi_dependencies :: value_fingerprint

record (overloaded) ('n, 'e, 'c, 's) dataflow_completion_proof =
  pf_identity :: value_fingerprint
  pf_graph :: value_fingerprint
  pf_lattice :: value_fingerprint
  pf_policy :: value_fingerprint
  pf_boundaries :: value_fingerprint
  pf_limits :: value_fingerprint
  pf_dependencies :: value_fingerprint
  pf_seed_fingerprints :: "('n::linorder, value_fingerprint) bmap"
  pf_observations :: "('n \<times> 'e \<times> 'n) list"
  pf_node_fingerprints :: "('n, value_fingerprint) bmap"
  pf_solution :: "('n, 'e, 'c, 's) dataflow_solution"

datatype completion_proof_mismatch =
  GraphMismatch | LatticeMismatch | PolicyMismatch | LimitsMismatch | DependenciesMismatch

definition make_proof_inputs ::
  "('n::linorder, 'e::linorder, 's) proof_hashes \<Rightarrow> ('n, 'e, 'l, 'c) dataflow_graph \<Rightarrow> 's admitted_transfer \<Rightarrow> 's \<Rightarrow>
   ('n, 's) bmap \<Rightarrow> query_budgets \<Rightarrow> proof_inputs" where
  "make_proof_inputs h g t bottom seeds budgets =
     \<lparr>pi_graph = g_fingerprint g, pi_lattice = ph_state h bottom, pi_policy = at_fingerprint t,
      pi_boundaries = ph_boundaries h (map (\<lambda>node. (n_id node, n_boundary node)) (nodes_of g)),
      pi_limits = ph_limits h (max_work budgets, max_observations budgets, max_depth budgets,
        max_output budgets, max_explanation_causes budgets),
      pi_dependencies = ph_seeds h seeds\<rparr>"

text \<open>The seed of a node, bottom when it has none: \<open>seeds.get(node).unwrap_or(bottom)\<close>.\<close>

abbreviation seed_or_bottom :: "('n::linorder, 's) bmap \<Rightarrow> 's \<Rightarrow> 'n \<Rightarrow> 's" where
  "seed_or_bottom seeds bottom n \<equiv> state_at bottom seeds n"

definition seed_fingerprints_of ::
  "('n::linorder, 'e::linorder, 's) proof_hashes \<Rightarrow> ('n, 'e, 'l, 'c) dataflow_graph \<Rightarrow> 's \<Rightarrow> ('n, 's) bmap \<Rightarrow>
   ('n, value_fingerprint) bmap" where
  "seed_fingerprints_of h g bottom seeds =
     bm_from_list (map (\<lambda>node. (n_id node, ph_state h (seed_or_bottom seeds bottom (n_id node)))) (nodes_of g))"

definition collect_observation ::
  "('n::linorder, 'e::linorder, 'l, 'c) dataflow_graph \<Rightarrow> ('n, 'e, 'c) dataflow_event \<Rightarrow>
   ('n \<times> 'e \<times> 'n) bset \<Rightarrow> ('err, ('n \<times> 'e \<times> 'n) bset) outcome" where
  "collect_observation g event acc =
     (case event of
        Visit _ \<Rightarrow> Ok acc
      | Propagate edge _ \<Rightarrow>
          bind_outcome (expect ''solution edge belongs to graph'' (edge_of g edge)) (\<lambda>r.
          Ok (bs_insert (edge_pred r, edge, edge_succ r) acc)))"

definition mint_completion_proof ::
  "('n::linorder, 'e::linorder, 's) proof_hashes \<Rightarrow> ('n, 'e, 'l, 'c) dataflow_graph \<Rightarrow> 's admitted_transfer \<Rightarrow> 's \<Rightarrow>
   ('n, 's) bmap \<Rightarrow> query_budgets \<Rightarrow> ('n, 'e, 'c, 's) dataflow_solution \<Rightarrow>
   (('n, 'e, 'l) dataflow_error, ('n, 'e, 'c, 's) dataflow_completion_proof) outcome" where
  "mint_completion_proof h g t bottom seeds budgets sol =
     (let inputs = make_proof_inputs h g t bottom seeds budgets;
          node_fingerprints = bm_map (\<lambda>_. ph_state h) (sol_states sol);
          seed_fingerprints = seed_fingerprints_of h g bottom seeds
      in
      bind_outcome (for_each (collect_observation g) (sol_events sol) bs_empty) (\<lambda>obs.
      let observations = bs_elems obs;
          identity = ph_identity h (dataflow_proof_schema_revision, pi_graph inputs, pi_lattice inputs,
            pi_policy inputs, pi_boundaries inputs, pi_limits inputs, pi_dependencies inputs,
            observations, node_fingerprints, sol_causes sol)
      in
      Ok \<lparr>pf_identity = identity, pf_graph = pi_graph inputs, pf_lattice = pi_lattice inputs,
          pf_policy = pi_policy inputs, pf_boundaries = pi_boundaries inputs, pf_limits = pi_limits inputs,
          pf_dependencies = pi_dependencies inputs, pf_seed_fingerprints = seed_fingerprints,
          pf_observations = observations, pf_node_fingerprints = node_fingerprints, pf_solution = sol\<rparr>))"

definition solve_proven ::
  "('n::linorder, 'e::linorder, 's) proof_hashes \<Rightarrow> 's join_semilattice_ops \<Rightarrow> ('n, 'e, 'l, 'c) dataflow_graph \<Rightarrow>
   's admitted_transfer \<Rightarrow> 's \<Rightarrow> ('n \<times> 's) list \<Rightarrow> query_budgets \<Rightarrow>
   (('n, 'e, 'l) dataflow_error, ('n, 'e, 'c, 's) dataflow_completion_proof) outcome option" where
  "solve_proven h L g t bottom seeds budgets =
     (let seed_map = bm_from_list seeds in
      map_option (\<lambda>r. bind_outcome r (mint_completion_proof h g t bottom seed_map budgets))
        (solve L g t bottom (bm_entries seed_map) budgets))"

definition present ::
  "('n::linorder, 'e::linorder, 's) proof_hashes \<Rightarrow> ('n, 'e, 'c, 's) dataflow_completion_proof \<Rightarrow>
   ('n, 'e, 'l, 'c) dataflow_graph \<Rightarrow> 's admitted_transfer \<Rightarrow> 's \<Rightarrow> ('n \<times> 's) list \<Rightarrow> query_budgets \<Rightarrow>
   (completion_proof_mismatch, ('n, 'e, 'c, 's) dataflow_solution) outcome" where
  "present h pf g t bottom seeds budgets =
     (let identities = make_proof_inputs h g t bottom (bm_from_list seeds) budgets in
      if pf_graph pf \<noteq> pi_graph identities \<or> pf_boundaries pf \<noteq> pi_boundaries identities then Err GraphMismatch
      else if pf_lattice pf \<noteq> pi_lattice identities then Err LatticeMismatch
      else if pf_policy pf \<noteq> pi_policy identities then Err PolicyMismatch
      else if pf_limits pf \<noteq> pi_limits identities then Err LimitsMismatch
      else if pf_dependencies pf \<noteq> pi_dependencies identities then Err DependenciesMismatch
      else Ok (pf_solution pf))"

section \<open>The affected cone\<close>

definition previous_seed_fingerprints ::
  "('n::linorder, 'e, 'c, 's) dataflow_completion_proof \<Rightarrow> ('n, value_fingerprint) bmap" where
  "previous_seed_fingerprints previous = pf_seed_fingerprints previous"

definition changed_nodes ::
  "('n::linorder, 'e::linorder, 's) proof_hashes \<Rightarrow> ('n, 'e, 'l, 'c) dataflow_graph \<Rightarrow> 's \<Rightarrow> ('n, 's) bmap \<Rightarrow>
   ('n, value_fingerprint) bmap \<Rightarrow> 'n bset" where
  "changed_nodes h g bottom seeds old_seeds =
     bs_from_list (filter (\<lambda>n. bm_get old_seeds n \<noteq> Some (ph_state h (seed_or_bottom seeds bottom n)))
       (map n_id (nodes_of g)))"

definition cone_edge ::
  "('n::linorder, 'e::linorder, 'l, 'c) dataflow_graph \<Rightarrow> 'e \<Rightarrow> 'n bset \<times> 'n bset \<Rightarrow> ('err, 'n bset \<times> 'n bset) outcome" where
  "cone_edge g edge_id = (\<lambda>(affected, frontier).
     bind_outcome (expect ''graph edge has an index'' (edge_of g edge_id)) (\<lambda>edge.
     let target = edge_succ edge in
     Ok (if bs_contains target affected then (affected, frontier)
         else (bs_insert target affected, bs_insert target frontier))))"

definition cone_node ::
  "('n::linorder, 'e::linorder, 'l, 'c) dataflow_graph \<Rightarrow> 'n \<Rightarrow> 'n bset \<times> 'n bset \<Rightarrow> ('err, 'n bset \<times> 'n bset) outcome" where
  "cone_node g node st =
     bind_outcome (expect ''graph node has an index'' (successors_of g node))
       (\<lambda>edges. for_each (cone_edge g) edges st)"

definition pop_frontier :: "'n::linorder bset \<times> 'n bset \<Rightarrow> ('n \<times> 'n bset \<times> 'n bset) option" where
  "pop_frontier = (\<lambda>(affected, frontier).
     map_option (\<lambda>(n, rest). (n, affected, rest)) (bs_pop_first frontier))"

definition cone_loop ::
  "('n::linorder, 'e::linorder, 'l, 'c) dataflow_graph \<Rightarrow> 'n bset \<times> 'n bset \<Rightarrow>
   ('err, 'n bset \<times> 'n bset) outcome option" where
  "cone_loop g = while_let pop_frontier (cone_node g)"

section \<open>Rebuilding the affected states\<close>

definition rebuild_edge ::
  "'s join_semilattice_ops \<Rightarrow> ('n::linorder, 'e::linorder, 'l, 'c) dataflow_graph \<Rightarrow> 's admitted_transfer \<Rightarrow> 'n bset \<Rightarrow>
   usize \<Rightarrow> ('n, 's) bmap \<Rightarrow> 'n \<Rightarrow> 'e \<Rightarrow> 's \<times> ('n, ('n, 'e) causal_record) bmap \<Rightarrow>
   ('err, 's \<times> ('n, ('n, 'e) causal_record) bmap) outcome" where
  "rebuild_edge L g t affected limit states node edge_id = (\<lambda>(state, causes).
     bind_outcome (expect ''graph edge has an index'' (edge_of g edge_id)) (\<lambda>edge.
     let source = edge_pred edge in
     if bs_contains source affected then Ok (state, causes)
     else
       bind_outcome (index_state states source) (\<lambda>source_state.
       let joined = join L state (admitted_transfer_apply t source_state) in
       Ok (joined,
         if joined \<noteq> state
         then record_cause causes node \<lparr>cp_node = source, cp_edge = Some edge_id\<rparr> limit
         else causes))))"

definition rebuild_node ::
  "'s join_semilattice_ops \<Rightarrow> ('n::linorder, 'e::linorder, 'l, 'c) dataflow_graph \<Rightarrow> 's admitted_transfer \<Rightarrow> 's \<Rightarrow>
   ('n, 's) bmap \<Rightarrow> 'n bset \<Rightarrow> usize \<Rightarrow> 'n \<Rightarrow> ('n, 's) bmap \<times> ('n, ('n, 'e) causal_record) bmap \<Rightarrow>
   ('err, ('n, 's) bmap \<times> ('n, ('n, 'e) causal_record) bmap) outcome" where
  "rebuild_node L g t bottom seeds affected limit node = (\<lambda>(states, causes).
     let state = seed_or_bottom seeds bottom node;
         causes' = (if state \<noteq> bottom
           then record_cause causes node \<lparr>cp_node = node, cp_edge = None\<rparr> limit else causes)
     in
     bind_outcome (expect ''graph node has an index'' (predecessors_of g node)) (\<lambda>edges.
     bind_outcome (for_each (rebuild_edge L g t affected limit states node) edges (state, causes'))
       (\<lambda>(state', causes''). Ok (bm_insert node state' states, causes''))))"

definition keep_event ::
  "('n::linorder, 'e::linorder, 'l, 'c) dataflow_graph \<Rightarrow> 'n bset \<Rightarrow> ('n, 'e, 'c) dataflow_event \<Rightarrow>
   ('n, 'e, 'c) dataflow_event list \<Rightarrow> ('err, ('n, 'e, 'c) dataflow_event list) outcome" where
  "keep_event g affected event acc =
     (case event of
        Visit node \<Rightarrow> Ok (if bs_contains node affected then acc else acc @ [event])
      | Propagate edge _ \<Rightarrow>
          bind_outcome (expect ''proof edge belongs to graph'' (edge_of g edge)) (\<lambda>r.
          Ok (if bs_contains (edge_pred r) affected then acc else acc @ [event])))"

section \<open>The incremental loop\<close>

definition incremental_edge ::
  "'s join_semilattice_ops \<Rightarrow> ('n::linorder, 'e::linorder, 'l, 'c) dataflow_graph \<Rightarrow> query_budgets \<Rightarrow>
   'n \<Rightarrow> 'l \<Rightarrow> 's \<Rightarrow> 'e \<Rightarrow> ('n, 'e, 'c, 's) solve_state \<Rightarrow>
   (('n, 'e, 'l) dataflow_error, ('n, 'e, 'c, 's) solve_state) outcome" where
  "incremental_edge L g budgets node location output edge_id st =
     bind_outcome (expect ''graph edge exists'' (edge_of g edge_id)) (\<lambda>edge.
     let target = edge_succ edge in
     bind_outcome (expect ''edge target exists'' (node_of g target)) (\<lambda>target_node.
     let target_location = n_location target_node in
     bind_outcome
       (charge (u_observations (ss_usage st)) 1 (max_observations budgets) Observations
         \<lparr>cl_node = None, cl_edge = Some edge_id, cl_location = location,
          cl_target_location = Some target_location\<rparr>) (\<lambda>observations.
     let events = ss_events st @ [Propagate edge_id (e_class edge)] in
     bind_outcome
       (charge_work_edge ((ss_usage st)\<lparr>u_observations := observations\<rparr>) budgets edge_id location
         target_location) (\<lambda>usage.
     bind_outcome (index_state (ss_states st) target) (\<lambda>current.
     let joined = join L current output in
     if joined \<noteq> current then
       Ok (st\<lparr>ss_states := bm_insert target joined (ss_states st), ss_usage := usage, ss_events := events,
              ss_pending := bs_insert target (ss_pending st),
              ss_causes := record_cause (ss_causes st) target
                \<lparr>cp_node = node, cp_edge = Some edge_id\<rparr> (max_explanation_causes budgets)\<rparr>)
     else Ok (st\<lparr>ss_usage := usage, ss_events := events\<rparr>))))))"

definition incremental_visit ::
  "'s join_semilattice_ops \<Rightarrow> ('n::linorder, 'e::linorder, 'l, 'c) dataflow_graph \<Rightarrow> 's admitted_transfer \<Rightarrow>
   query_budgets \<Rightarrow> 'n \<Rightarrow> ('n, 'e, 'c, 's) solve_state \<Rightarrow>
   (('n, 'e, 'l) dataflow_error, ('n, 'e, 'c, 's) solve_state) outcome" where
  "incremental_visit L g t budgets node st =
     bind_outcome (expect ''affected node exists'' (node_of g node)) (\<lambda>node_record.
     let location = n_location node_record in
     bind_outcome (charge_work (ss_usage st) budgets (Some node) location) (\<lambda>usage.
     bind_outcome (charge_work usage budgets (Some node) location) (\<lambda>usage'.
     bind_outcome (index_state (ss_states st) node) (\<lambda>current.
     let output = admitted_transfer_apply t current in
     if \<not> less_equal L current output
     then Err (NodeFailure Transfer node location)
     else
       bind_outcome (expect ''affected node has an index'' (successors_of g node)) (\<lambda>edges.
         for_each (incremental_edge L g budgets node location output) edges
           (st\<lparr>ss_usage := usage', ss_events := ss_events st @ [Visit node]\<rparr>))))))"

definition incremental_loop ::
  "'s join_semilattice_ops \<Rightarrow> ('n::linorder, 'e::linorder, 'l, 'c) dataflow_graph \<Rightarrow> 's admitted_transfer \<Rightarrow>
   query_budgets \<Rightarrow> ('n, 'e, 'c, 's) solve_state \<Rightarrow>
   (('n, 'e, 'l) dataflow_error, ('n, 'e, 'c, 's) solve_state) outcome option" where
  "incremental_loop L g t budgets = while_let pop_pending (incremental_visit L g t budgets)"

text \<open>
  The state the loop starts from, once the affected cone is known. The worklist filter reads
  \<open>states[node]\<close> for affected nodes only, which the loop before has just inserted.
\<close>

definition incremental_start ::
  "'s join_semilattice_ops \<Rightarrow> ('n::linorder, 'e::linorder, 'l, 'c) dataflow_graph \<Rightarrow> 's admitted_transfer \<Rightarrow> 's \<Rightarrow>
   ('n, 's) bmap \<Rightarrow> query_budgets \<Rightarrow> ('n, 'e, 'c, 's) dataflow_completion_proof \<Rightarrow> 'n bset \<Rightarrow>
   (('n, 'e, 'l) dataflow_error, ('n, 'e, 'c, 's) solve_state) outcome" where
  "incremental_start L g t bottom seeds budgets previous affected =
     (let causes = bm_filter (\<lambda>node _. \<not> bs_contains node affected) (sol_causes (pf_solution previous));
          states = fold (\<lambda>node. bm_insert node bottom) (bs_elems affected) (sol_states (pf_solution previous))
      in
      bind_outcome (for_each (rebuild_node L g t bottom seeds affected (max_explanation_causes budgets))
          (bs_elems affected) (states, causes)) (\<lambda>(states', causes').
      let pending = bs_from_list (filter (\<lambda>n. state_at bottom states' n \<noteq> bottom) (bs_elems affected)) in
      bind_outcome (for_each (keep_event g affected) (sol_events (pf_solution previous)) []) (\<lambda>events.
      bind_outcome (first_location g) (\<lambda>location.
      bind_outcome
        (charge 0 (bm_len states') (max_depth budgets) Depth
          \<lparr>cl_node = None, cl_edge = None, cl_location = location, cl_target_location = None\<rparr>) (\<lambda>depth.
      Ok \<lparr>ss_states = states', ss_pending = pending, ss_events = events,
          ss_usage = default_usage\<lparr>u_depth := depth\<rparr>, ss_causes = causes'\<rparr>)))))"

definition sum_sizes :: "'s join_semilattice_ops \<Rightarrow> 's list \<Rightarrow> ('err, usize) outcome" where
  "sum_sizes L states =
     (let total = sum_list (map (state_size L) states) in
      if total > usize_max then Panic ''attempt to add with overflow'' else Ok total)"

definition incremental_finish ::
  "('n::linorder, 'e::linorder, 's) proof_hashes \<Rightarrow> 's join_semilattice_ops \<Rightarrow> ('n, 'e, 'l, 'c) dataflow_graph \<Rightarrow>
   's admitted_transfer \<Rightarrow> 's \<Rightarrow> ('n, 's) bmap \<Rightarrow> query_budgets \<Rightarrow> ('n, 'e, 'c, 's) solve_state \<Rightarrow>
   (('n, 'e, 'l) dataflow_error, ('n, 'e, 'c, 's) dataflow_completion_proof) outcome" where
  "incremental_finish h L g t bottom seeds budgets st =
     bind_outcome (sum_sizes L (bm_values (ss_states st))) (\<lambda>total.
     bind_outcome (first_location g) (\<lambda>location.
     bind_outcome
       (charge (u_output (ss_usage st)) total (max_output budgets) budget_kind.Output
         \<lparr>cl_node = None, cl_edge = None, cl_location = location, cl_target_location = None\<rparr>) (\<lambda>out.
     mint_completion_proof h g t bottom seeds budgets
       (solution_of (st\<lparr>ss_usage := (ss_usage st)\<lparr>u_output := out\<rparr>\<rparr>)))))"

definition solve_incremental ::
  "('n::linorder, 'e::linorder, 's) proof_hashes \<Rightarrow> 's join_semilattice_ops \<Rightarrow>
   ('n, 'e, 'c, 's) dataflow_completion_proof \<Rightarrow> ('n, 'e, 'l, 'c) dataflow_graph \<Rightarrow>
   's admitted_transfer \<Rightarrow> 's \<Rightarrow> ('n \<times> 's) list \<Rightarrow> query_budgets \<Rightarrow>
   (('n, 'e, 'l) dataflow_error, ('n, 'e, 'c, 's) dataflow_completion_proof) outcome option" where
  "solve_incremental h L previous g t bottom seeds budgets =
     (let seed_map = bm_from_list seeds in
      case List.find (\<lambda>node. node_of g node = None) (bm_keys seed_map) of
        Some node \<Rightarrow> Some (Err (UnknownSeed node))
      | None \<Rightarrow>
        (let inputs = make_proof_inputs h g t bottom seed_map budgets in
         if pf_graph previous \<noteq> pi_graph inputs \<or> pf_lattice previous \<noteq> pi_lattice inputs \<or>
            pf_policy previous \<noteq> pi_policy inputs \<or> pf_boundaries previous \<noteq> pi_boundaries inputs \<or>
            pf_limits previous \<noteq> pi_limits inputs
         then solve_proven h L g t bottom (bm_entries seed_map) budgets
         else if pf_dependencies previous = pi_dependencies inputs then Some (Ok previous)
         else
           (let changed = changed_nodes h g bottom seed_map (previous_seed_fingerprints previous) in
            case cone_loop g (changed, changed) of
              None \<Rightarrow> None
            | Some (Err e) \<Rightarrow> Some (Err e)
            | Some (Panic p) \<Rightarrow> Some (Panic p)
            | Some (Ok (affected, _)) \<Rightarrow>
                (case incremental_start L g t bottom seed_map budgets previous affected of
                   Err e \<Rightarrow> Some (Err e)
                 | Panic p \<Rightarrow> Some (Panic p)
                 | Ok st \<Rightarrow>
                     map_option (\<lambda>r. bind_outcome r (incremental_finish h L g t bottom seed_map budgets))
                       (incremental_loop L g t budgets st)))))"

end
