(* ===== verification/Incremental_Correct.thy ===== *)
theory Incremental_Correct
  imports Dataflow_Incremental
begin

text \<open>
  Correctness of incremental re-solving: the affected cone is closed under successors, the
  rebuilt states satisfy the worklist invariant for the new seeds, and so the incremental
  solution is the least solution a clean solve computes. The transfer must map bottom to
  bottom; a counterexample shows that this is necessary.
\<close>

section \<open>The affected cone\<close>

lemma cone_edges_effect:
  assumes "wf_graph g" and "for_each (cone_edge g) es (A, F) = (Ok (A', F') :: ('err, _) outcome)"
  shows "bs_set A \<subseteq> bs_set A' \<and> bs_set F \<subseteq> bs_set F' \<and> bs_set F' \<subseteq> bs_set F \<union> (bs_set A' - bs_set A) \<and>
    bs_set A' - bs_set A \<subseteq> bs_set F' \<and>
    (\<forall>i\<in>set es. \<exists>e. edge_of g i = Some e \<and> edge_succ e \<in> bs_set A') \<and>
    bs_set A' \<subseteq> bs_set A \<union> node_ids g"
  using assms(2)
proof (induction es arbitrary: A F)
  case (Cons i es)
  from Cons.prems obtain st1 where 1: "cone_edge g i (A, F) = (Ok st1 :: ('err, _) outcome)"
    and r: "for_each (cone_edge g) es st1 = (Ok (A', F') :: ('err, _) outcome)" by (auto simp: outcome_simps)
  obtain A1 F1 where st1: "st1 = (A1, F1)" by fastforce
  from 1 obtain e where e: "edge_of g i = Some e"
    and s: "(A1, F1) = (if edge_succ e \<in> bs_set A then (A, F)
       else (bs_insert (edge_succ e) A, bs_insert (edge_succ e) F))"
    by (auto simp: cone_edge_def outcome_simps Let_def st1)
  have "edge_succ e \<in> node_ids g" using wf_edge_ends[OF assms(1) e] by simp
  with Cons.IH[OF r[unfolded st1]] e s show ?case
    by (cases "edge_succ e \<in> bs_set A") auto
qed simp

definition cone_inv :: "('n::linorder, 'e::linorder, 'l, 'c) dataflow_graph \<Rightarrow> 'n bset \<Rightarrow> 'n bset \<times> 'n bset \<Rightarrow> bool" where
  "cone_inv g C = (\<lambda>(A, F). bs_set C \<subseteq> bs_set A \<and> bs_set F \<subseteq> bs_set A \<and> bs_set A \<subseteq> node_ids g \<and>
     (\<forall>i e. edge_of g i = Some e \<longrightarrow> edge_pred e \<in> bs_set A - bs_set F \<longrightarrow> edge_succ e \<in> bs_set A))"

lemma cone_node_step:
  assumes wf: "wf_graph g" and inv: "cone_inv g C st" and pop: "pop_frontier st = Some (p, st1)"
    and run: "cone_node g p st1 = Ok st2"
  shows "cone_inv g C st2 \<and>
    (st2, st) \<in> measures [\<lambda>(A, F). card (node_ids g - bs_set A), \<lambda>(A, F). card (bs_set F)]"
proof -
  obtain A F A' F' where st: "st = (A, F)" "st2 = (A', F')" by fastforce
  from pop st obtain R where p: "bs_pop_first F = Some (p, R)" "st1 = (A, R)" by (auto simp: pop_frontier_def)
  from bs_pop_first_Some[OF p(1)] have R: "p \<in> bs_set F" "bs_set R = bs_set F - {p}" by auto
  with inv st have "p \<in> node_ids g" by (auto simp: cone_inv_def)
  then obtain es where es: "successors_of g p = Some es"
    "\<And>i. i \<in> set es \<longleftrightarrow> (\<exists>e. edge_of g i = Some e \<and> edge_pred e = p)"
    using wf_successors[OF wf] by blast
  note eff = cone_edges_effect[OF wf run[unfolded cone_node_def p(2) st(2) es(1) expect.simps bind_outcome.simps]]
  have sub: "bs_set A' \<subseteq> node_ids g"
    using eff inv st unfolding cone_inv_def by blast
  have "edge_succ e \<in> bs_set A'" if "edge_of g i = Some e" "edge_pred e \<in> bs_set A' - bs_set F'" for i e
  proof (cases "edge_pred e = p")
    case True
    with that(1) es(2) have "i \<in> set es" by blast
    with eff obtain e' where "edge_of g i = Some e'" "edge_succ e' \<in> bs_set A'" by blast
    with that(1) show ?thesis by simp
  next
    case False
    with that eff R have "edge_pred e \<in> bs_set A - bs_set F" by blast
    with that(1) inv st eff show ?thesis by (auto simp: cone_inv_def)
  qed
  with eff inv st R sub have "cone_inv g C st2" by (auto simp: cone_inv_def)
  moreover have "card (node_ids g - bs_set A') < card (node_ids g - bs_set A) \<or>
      card (node_ids g - bs_set A') = card (node_ids g - bs_set A) \<and> card (bs_set F') < card (bs_set F)"
  proof (cases "bs_set A' = bs_set A")
    case True
    with eff have "bs_set F' = bs_set R" by blast
    with True card_bs_pop_first[OF p(1)] show ?thesis by simp
  next
    case False
    with eff sub have "node_ids g - bs_set A' \<subset> node_ids g - bs_set A" by blast
    then have "card (node_ids g - bs_set A') < card (node_ids g - bs_set A)"
      by (intro psubset_card_mono) simp_all
    then show ?thesis ..
  qed
  ultimately show ?thesis using st by auto
qed

lemma cone_loop_returns:
  assumes "wf_graph g" "bs_set C \<subseteq> node_ids g"
  shows "\<exists>r. cone_loop g (C, C) = Some r"
  unfolding cone_loop_def
proof (rule while_let_returns[where I = "cone_inv g C", OF wf_measures])
  show "cone_inv g C (C, C)" using assms(2) by (simp add: cone_inv_def)
qed (rule cone_node_step[OF assms(1)])

lemma cone_loop_closed:
  assumes wf: "wf_graph g" and "bs_set C \<subseteq> node_ids g" and "cone_loop g (C, C) = Some (Ok (A, F))"
  shows "bs_set C \<subseteq> bs_set A" "bs_set A \<subseteq> node_ids g"
    "\<And>i e. edge_of g i = Some e \<Longrightarrow> edge_pred e \<in> bs_set A \<Longrightarrow> edge_succ e \<in> bs_set A"
proof -
  have start: "cone_inv g C (C, C)" using assms(2) by (simp add: cone_inv_def)
  have "\<exists>s. Ok (A, F) = Ok s \<and> cone_inv g C s \<and> pop_frontier s = None"
    using while_let_result[of _ _ _ _ "cone_inv g C", OF assms(3)[unfolded cone_loop_def] start] cone_node_step[OF wf] by blast
  then have "cone_inv g C (A, F)" "bs_set F = {}"
    by (auto simp: pop_frontier_def simp del: bs_pop_first_empty)
  then show "bs_set C \<subseteq> bs_set A" "bs_set A \<subseteq> node_ids g"
    "\<And>i e. edge_of g i = Some e \<Longrightarrow> edge_pred e \<in> bs_set A \<Longrightarrow> edge_succ e \<in> bs_set A"
    by (auto simp: cone_inv_def)
qed

section \<open>The incremental loop refines the worklist visit\<close>

lemma incremental_edge_effect:
  assumes "incremental_edge L g b p l out i st = Ok st'"
  shows "(ss_states st', ss_pending st') = propagate_edge L g out i (ss_states st, ss_pending st)"
proof -
  from assms obtain e cur where e: "edge_of g i = Some e" "bm_get (ss_states st) (edge_succ e) = Some cur"
    by (auto simp: incremental_edge_def outcome_simps Let_def)
  then show ?thesis
    using assms by (cases "join L cur out = cur")
      (auto simp: incremental_edge_def propagate_edge_def propagate_def outcome_simps Let_def)
qed

lemma incremental_edges_effect:
  assumes "for_each (incremental_edge L g b p l out) es st = Ok st'"
  shows "(ss_states st', ss_pending st') = fold (propagate_edge L g out) es (ss_states st, ss_pending st)"
  using assms
proof (induction es arbitrary: st)
  case (Cons i es)
  from Cons.prems obtain u where u: "incremental_edge L g b p l out i st = Ok u"
    "for_each (incremental_edge L g b p l out) es u = Ok st'"
    by (auto simp: outcome_simps)
  from Cons.IH[OF u(2)] show ?case by (simp add: incremental_edge_effect[OF u(1)])
qed simp

lemma incremental_visit_effect:
  assumes "incremental_visit L g t b p st = Ok st'"
  shows "(ss_states st', ss_pending st') =
    visit_node L (admitted_transfer_apply t) bottom g p (ss_states st, ss_pending st)"
proof -
  from assms obtain node v es u where r: "node_of g p = Some node" "bm_get (ss_states st) p = Some v"
    "successors_of g p = Some es"
    "for_each (incremental_edge L g b p (n_location node) (admitted_transfer_apply t v)) es
       (st\<lparr>ss_usage := u, ss_events := ss_events st @ [Visit p]\<rparr>) = Ok st'"
    by (auto simp: incremental_visit_def outcome_simps Let_def split: if_splits)
  from incremental_edges_effect[OF r(4)] r(2,3) show ?thesis by (simp add: visit_node_def)
qed

context dataflow_system
begin

lemma incremental_loop_least:
  assumes "incremental_loop L g t b st = Some (Ok st')" "f = admitted_transfer_apply t"
    and "wl_inv seeds (ss_states st, ss_pending st)"
  shows "least_solution L f bottom g seeds (state_at bottom (ss_states st')) \<and>
    set (bm_keys (ss_states st')) = node_ids g"
proof -
  let ?I = "\<lambda>s. wl_inv seeds (ss_states s, ss_pending s)"
  have "?I s2" if "?I s" "pop_pending s = Some (p, s1)" "incremental_visit L g t b p s1 = Ok s2" for s p s1 s2
  proof -
    from that(2) obtain rest where pop: "bs_pop_first (ss_pending s) = Some (p, rest)" "s1 = s\<lparr>ss_pending := rest\<rparr>"
      unfolding pop_pending_Some by blast
    from wl_inv_visit[OF that(1) pop(1)] incremental_visit_effect[OF that(3), of bottom] assms(2) pop(2)
    show ?thesis by simp
  qed
  with while_let_result[of pop_pending _ st "Ok st'" ?I, OF assms(1)[unfolded incremental_loop_def] assms(3)]
  have "?I st'" "bs_set (ss_pending st') = {}" by auto
  then show ?thesis using wl_inv_done by (auto simp: wl_inv_def base_inv_def)
qed


section \<open>Rebuilding\<close>

text \<open>
  What the rebuilt state of an affected node is: the least state above its seed and above the
  outputs of its unaffected predecessors.
\<close>

definition inputs_below :: "('n, 's) bmap \<Rightarrow> 'n set \<Rightarrow> 'n \<Rightarrow> 's \<Rightarrow> bool" where
  "inputs_below M A n u \<longleftrightarrow>
     (\<forall>i e. edge_of g i = Some e \<longrightarrow> edge_succ e = n \<longrightarrow> edge_pred e \<notin> A \<longrightarrow>
        less_equal L (f (state_at bottom M (edge_pred e))) u)"

definition rebuilt :: "('n, 's) bmap \<Rightarrow> ('n, 's) bmap \<Rightarrow> 'n set \<Rightarrow> 'n \<Rightarrow> 's \<Rightarrow> bool" where
  "rebuilt seeds M A n s \<longleftrightarrow>
     less_equal L (state_at bottom seeds n) s \<and> inputs_below M A n s \<and>
     (\<forall>u. less_equal L (state_at bottom seeds n) u \<longrightarrow> inputs_below M A n u \<longrightarrow> less_equal L s u)"

lemma rebuild_edges_effect:
  assumes f: "f = admitted_transfer_apply t"
    and "for_each (rebuild_edge L g t A limit M node) es (s0, c0) = (Ok (s, c) :: ('err, _) outcome)"
  shows "less_equal L s0 s \<and>
    (\<forall>i\<in>set es. \<forall>e. edge_of g i = Some e \<longrightarrow> edge_pred e \<notin> bs_set A \<longrightarrow>
       less_equal L (f (state_at bottom M (edge_pred e))) s) \<and>
    (\<forall>u. less_equal L s0 u \<longrightarrow>
       (\<forall>i\<in>set es. \<forall>e. edge_of g i = Some e \<longrightarrow> edge_pred e \<notin> bs_set A \<longrightarrow>
          less_equal L (f (state_at bottom M (edge_pred e))) u) \<longrightarrow> less_equal L s u)"
  using assms(2)
proof (induction es arbitrary: s0 c0)
  case (Cons i es)
  from Cons.prems obtain s1 c1 where 1: "rebuild_edge L g t A limit M node i (s0, c0) = (Ok (s1, c1) :: ('err, _) outcome)"
    and r: "for_each (rebuild_edge L g t A limit M node) es (s1, c1) = (Ok (s, c) :: ('err, _) outcome)"
    by (auto simp: outcome_simps)
  from 1 obtain e where e: "edge_of g i = Some e"
    and s1: "edge_pred e \<in> bs_set A \<and> s1 = s0 \<or>
       edge_pred e \<notin> bs_set A \<and> s1 = join L s0 (f (state_at bottom M (edge_pred e)))"
    by (auto simp: rebuild_edge_def outcome_simps Let_def f split: if_splits)
  note IH = Cons.IH[OF r]
  from s1 show ?case
  proof (elim disjE conjE)
    assume *: "edge_pred e \<in> bs_set A" "s1 = s0"
    then show ?thesis using IH e by auto
  next
    let ?o = "f (state_at bottom M (edge_pred e))"
    assume *: "edge_pred e \<notin> bs_set A" "s1 = join L s0 ?o"
    have up: "less_equal L s0 s" "less_equal L ?o s"
      using IH *(2) by (auto simp: join_le_iff)
    have "less_equal L s u" if "less_equal L s0 u" "\<forall>i\<in>set (i # es). \<forall>e. edge_of g i = Some e \<longrightarrow>
        edge_pred e \<notin> bs_set A \<longrightarrow> less_equal L (f (state_at bottom M (edge_pred e))) u" for u
    proof -
      have "less_equal L s1 u" using that *(1) e by (simp add: *(2) join_le_iff)
      then show ?thesis using IH that(2) by (meson list.set_intros(2))
    qed
    then show ?thesis using IH up e by auto
  qed
qed simp

lemma rebuild_node_effect:
  assumes f: "f = admitted_transfer_apply t" and "node \<in> node_ids g"
    and "rebuild_node L g t bottom seeds A limit node (M, C) = (Ok (M', C') :: ('err, _) outcome)"
  shows "\<exists>s. M' = bm_insert node s M \<and> rebuilt seeds M (bs_set A) node s"
proof -
  obtain es where es: "predecessors_of g node = Some es"
    "\<And>i. i \<in> set es \<longleftrightarrow> (\<exists>e. edge_of g i = Some e \<and> edge_succ e = node)"
    by (rule wf_predecessors[OF graph_wf assms(2)]) blast
  from assms(3) es(1) obtain s c c0 where
    "for_each (rebuild_edge L g t A limit M node) es (state_at bottom seeds node, c0) = (Ok (s, c) :: ('err, _) outcome)"
    and M': "M' = bm_insert node s M"
    by (auto simp: rebuild_node_def outcome_simps Let_def)
  note eff = rebuild_edges_effect[OF f this(1)]
  have "inputs_below M (bs_set A) node u \<longleftrightarrow> (\<forall>i\<in>set es. \<forall>e. edge_of g i = Some e \<longrightarrow>
      edge_pred e \<notin> bs_set A \<longrightarrow> less_equal L (f (state_at bottom M (edge_pred e))) u)" for u
    unfolding inputs_below_def Ball_def es(2) by (metis option.inject)
  with eff have "rebuilt seeds M (bs_set A) node s" by (simp add: rebuilt_def)
  with M' show ?thesis by blast
qed

lemma rebuilt_cong:
  assumes "\<And>n. n \<notin> A \<Longrightarrow> state_at bottom M' n = state_at bottom M n"
  shows "rebuilt seeds M' A n s = rebuilt seeds M A n s"
proof -
  have "inputs_below M' A n = inputs_below M A n" using assms by (auto simp: inputs_below_def fun_eq_iff)
  then show ?thesis by (simp add: rebuilt_def)
qed

lemma rebuild_nodes_effect:
  assumes f: "f = admitted_transfer_apply t"
    and "for_each (rebuild_node L g t bottom seeds A limit) xs (M, C) = (Ok (M', C') :: ('err, _) outcome)"
    and "distinct xs" "set xs \<subseteq> bs_set A" "bs_set A \<subseteq> node_ids g"
  shows "(\<forall>n. n \<notin> set xs \<longrightarrow> bm_get M' n = bm_get M n) \<and>
    (\<forall>n\<in>set xs. \<exists>s. bm_get M' n = Some s \<and> rebuilt seeds M (bs_set A) n s)"
  using assms(2-5)
proof (induction xs arbitrary: M C)
  case (Cons x xs)
  from Cons.prems(1) obtain M1 C1 where 1: "rebuild_node L g t bottom seeds A limit x (M, C) = (Ok (M1, C1) :: ('err, _) outcome)"
    and r: "for_each (rebuild_node L g t bottom seeds A limit) xs (M1, C1) = (Ok (M', C') :: ('err, _) outcome)"
    by (auto simp: outcome_simps)
  from rebuild_node_effect[OF f _ 1] Cons.prems(3,4) obtain s where
    s: "M1 = bm_insert x s M" "rebuilt seeds M (bs_set A) x s" by auto
  have same: "rebuilt seeds M1 (bs_set A) n u = rebuilt seeds M (bs_set A) n u" for n u
    by (rule rebuilt_cong) (use Cons.prems(3) s(1) in auto)
  from Cons.IH[OF r] Cons.prems(2-4) have IH: "\<forall>n. n \<notin> set xs \<longrightarrow> bm_get M' n = bm_get M1 n"
    "\<forall>n\<in>set xs. \<exists>s. bm_get M' n = Some s \<and> rebuilt seeds M (bs_set A) n s"
    unfolding same by auto
  then show ?case using s Cons.prems(2) by auto
qed simp


lemma bm_get_reset: "bm_get (fold (\<lambda>node. bm_insert node v) xs M) n = (if n \<in> set xs then Some v else bm_get M n)"
  by (induction xs arbitrary: M) auto

lemma incremental_start_states:
  assumes f: "f = admitted_transfer_apply t" and A: "bs_set A \<subseteq> node_ids g"
    and "incremental_start L g t bottom seeds b pf A = Ok st"
  shows "\<And>n. n \<notin> bs_set A \<Longrightarrow> bm_get (ss_states st) n = bm_get (sol_states (pf_solution pf)) n"
    "\<And>n. n \<in> bs_set A \<Longrightarrow>
      \<exists>s. bm_get (ss_states st) n = Some s \<and> rebuilt seeds (sol_states (pf_solution pf)) (bs_set A) n s"
    "bs_set (ss_pending st) = {n \<in> bs_set A. state_at bottom (ss_states st) n \<noteq> bottom}"
proof -
  let ?M = "fold (\<lambda>node. bm_insert node bottom) (bs_elems A) (sol_states (pf_solution pf))"
  from assms(3) obtain C C' where
    run: "for_each (rebuild_node L g t bottom seeds A (max_explanation_causes b)) (bs_elems A) (?M, C) =
      (Ok (ss_states st, C') :: (('n, 'e, 'l) dataflow_error, _) outcome)"
    and P: "ss_pending st = bs_from_list (filter (\<lambda>n. state_at bottom (ss_states st) n \<noteq> bottom) (bs_elems A))"
    by (auto simp: incremental_start_def Let_def outcome_simps)
  note eff = rebuild_nodes_effect[OF f run bs_elems_distinct subset_refl A]
  then show "bm_get (ss_states st) n = bm_get (sol_states (pf_solution pf)) n" if "n \<notin> bs_set A" for n
    using that by (simp add: bm_get_reset)
  have "rebuilt seeds ?M (bs_set A) n s = rebuilt seeds (sol_states (pf_solution pf)) (bs_set A) n s" for n s
    by (rule rebuilt_cong) (simp add: state_at_def bm_get_reset)
  with eff show "\<exists>s. bm_get (ss_states st) n = Some s \<and> rebuilt seeds (sol_states (pf_solution pf)) (bs_set A) n s"
    if "n \<in> bs_set A" for n
    using that by auto
  show "bs_set (ss_pending st) = {n \<in> bs_set A. state_at bottom (ss_states st) n \<noteq> bottom}"
    unfolding P by auto
qed

lemma incremental_start_inv:
  assumes strict: "f bottom = bottom" and f: "f = admitted_transfer_apply t"
    and old: "least_solution L f bottom g (bm_entries seeds0) (state_at bottom M)" "set (bm_keys M) = node_ids g"
    and A: "bs_set A \<subseteq> node_ids g"
      "\<And>i e. edge_of g i = Some e \<Longrightarrow> edge_pred e \<in> bs_set A \<Longrightarrow> edge_succ e \<in> bs_set A"
    and same: "\<And>n. n \<notin> bs_set A \<Longrightarrow> state_at bottom seeds0 n = state_at bottom seeds n"
    and out: "\<And>n. n \<notin> bs_set A \<Longrightarrow> bm_get M' n = bm_get M n"
    and inn: "\<And>n. n \<in> bs_set A \<Longrightarrow> \<exists>s. bm_get M' n = Some s \<and> rebuilt seeds M (bs_set A) n s"
    and P: "bs_set P = {n \<in> bs_set A. state_at bottom M' n \<noteq> bottom}"
  shows "wl_inv (bm_entries seeds) (M', P)"
proof -
  let ?A = "bs_set A"
  have out': "state_at bottom M' n = state_at bottom M n" if "n \<notin> ?A" for n
    using out[OF that] by (simp add: state_at_def)
  have inn': "rebuilt seeds M ?A n (state_at bottom M' n)" if "n \<in> ?A" for n
    using inn[OF that] by auto
  have keys: "set (bm_keys M') = node_ids g"
  proof (rule set_eqI)
    fix n
    show "n \<in> set (bm_keys M') \<longleftrightarrow> n \<in> node_ids g"
    proof (cases "n \<in> ?A")
      case True
      then have "n \<in> node_ids g" "n \<in> set (bm_keys M')"
        using inn[OF True] A(1) unfolding in_bm_keys_iff[of n M'] by auto
      then show ?thesis by simp
    next
      case False
      then show ?thesis unfolding old(2)[symmetric] in_bm_keys_iff by (simp add: out)
    qed
  qed
  have oldc: "closed_on L f bottom g (bm_entries seeds0) UNIV (state_at bottom M)"
    using old(1) by (simp add: least_solution_def)
  have seed: "less_equal L (state_at bottom seeds n) (state_at bottom M' n)" for n
  proof (cases "n \<in> ?A")
    case True
    with inn' show ?thesis by (simp add: rebuilt_def)
  next
    case False
    have "less_equal L (state_at bottom seeds0 n) (state_at bottom M n)"
      using oldc by (cases "bm_get seeds0 n") (auto simp: closed_on_def state_at_def bm_entries_iff)
    with False same out' show ?thesis by simp
  qed
  have seeds_le: "closed_on L f bottom g (bm_entries seeds) U X \<Longrightarrow> n \<in> U \<Longrightarrow>
      less_equal L (state_at bottom seeds n) (X n)" for U X n
    by (cases "bm_get seeds n") (auto simp: closed_on_def state_at_def bm_entries_iff)
  have below_out: "less_equal L (state_at bottom M n) (X n)"
    if U: "pred_closed g U" "closed_on L f bottom g (bm_entries seeds) U X" "n \<in> U" "n \<notin> ?A" for U X n
  proof -
    have "pred_closed g (U - ?A)" using U(1) A(2) unfolding pred_closed_def by blast
    moreover have "closed_on L f bottom g (bm_entries seeds0) (U - ?A) X"
      unfolding closed_on_def
    proof (intro conjI)
      show "\<forall>(m, s)\<in>set (bm_entries seeds0). m \<in> U - ?A \<longrightarrow> less_equal L s (X m)"
      proof clarify
        fix m s assume "(m, s) \<in> set (bm_entries seeds0)" "m \<in> U" "m \<notin> ?A"
        then have "s = state_at bottom seeds m" using same[of m] by (simp add: bm_entries_iff)
        with seeds_le[OF U(2) \<open>m \<in> U\<close>] show "less_equal L s (X m)" by simp
      qed
    qed (use U(2) in \<open>simp add: closed_on_def\<close>)
    ultimately show ?thesis using old(1) U(3,4) unfolding least_solution_def by blast
  qed
  have "less_equal L (state_at bottom M' n) (X n)"
    if U: "pred_closed g U" "closed_on L f bottom g (bm_entries seeds) U X" "n \<in> U" for U X n
  proof (cases "n \<in> ?A")
    case True
    have "less_equal L (f (state_at bottom M (edge_pred e))) (X n)"
      if e: "edge_of g i = Some e" "edge_succ e = n" "edge_pred e \<notin> ?A" for i e
    proof (cases "state_at bottom M (edge_pred e) = bottom")
      case True
      then show ?thesis by (simp add: strict)
    next
      case False
      have p: "edge_pred e \<in> U" using U(1,3) e(1,2) unfolding pred_closed_def by blast
      have le: "less_equal L (state_at bottom M (edge_pred e)) (X (edge_pred e))"
        by (rule below_out[OF U(1,2) p e(3)])
      with False have "X (edge_pred e) \<noteq> bottom" by (metis le_bot_iff)
      with U(2,3) e(1,2) have "less_equal L (f (X (edge_pred e))) (X n)" unfolding closed_on_def by blast
      with transfer_mono[OF le] show ?thesis by (rule le_trans)
    qed
    with inn'[OF True] seeds_le[OF U(2,3)] show ?thesis unfolding rebuilt_def inputs_below_def by blast
  qed (use below_out[OF U] out' in simp)
  then have below: "below_all (bm_entries seeds) M'" unfolding below_all_def by blast
  have covered: "edge_covered M' e" if e: "edge_of g i = Some e" "edge_pred e \<notin> bs_set P" for i e
  proof (cases "edge_pred e \<in> ?A")
    case True
    with e(2) P show ?thesis by (simp add: edge_covered_def)
  next
    case pred: False
    show ?thesis
    proof (cases "edge_succ e \<in> ?A")
      case True
      with inn'[OF True] e(1) pred out' show ?thesis
        unfolding rebuilt_def inputs_below_def edge_covered_def by metis
    next
      case False
      with oldc e(1) pred out' show ?thesis by (simp add: closed_on_def edge_covered_def)
    qed
  qed
  have "\<forall>(n, s)\<in>set (bm_entries seeds). less_equal L s (state_at bottom M' n)"
  proof clarify
    fix n s assume "(n, s) \<in> set (bm_entries seeds)"
    then have "state_at bottom seeds n = s" by (simp add: bm_entries_iff)
    with seed[of n] show "less_equal L s (state_at bottom M' n)" by simp
  qed
  with keys below covered P A(1) show ?thesis
    by (auto simp: wl_inv_def base_inv_def)
qed

end


section \<open>Certificates\<close>

lemma bm_eq_state_at:
  assumes "state_at bottom M = state_at bottom M'" "set (bm_keys M) = set (bm_keys M')"
  shows "M = M'"
proof (rule bm_ext)
  fix k
  have "bm_get M k = None \<longleftrightarrow> bm_get M' k = None" using assms(2) unfolding set_bm_keys by blast
  with fun_cong[OF assms(1), of k] show "bm_get M k = bm_get M' k"
    by (auto simp: state_at_def split: option.splits)
qed

text \<open>
  What a completion proof says of its inputs: its states are the least solution for its seeds,
  and it carries the fingerprints of these seeds.
\<close>

definition certifies ::
  "('n::linorder, 'e::linorder, 's) proof_hashes \<Rightarrow> 's join_semilattice_ops \<Rightarrow> ('n, 'e, 'l, 'c) dataflow_graph \<Rightarrow>
   's admitted_transfer \<Rightarrow> 's \<Rightarrow> ('n, 's) bmap \<Rightarrow> ('n, 'e, 'c, 's) dataflow_completion_proof \<Rightarrow> bool" where
  "certifies h L g t bottom seeds pf \<longleftrightarrow>
     least_solution L (admitted_transfer_apply t) bottom g (bm_entries seeds)
       (state_at bottom (sol_states (pf_solution pf))) \<and>
     set (bm_keys (sol_states (pf_solution pf))) = node_ids g \<and>
     pf_seed_fingerprints pf = seed_fingerprints_of h g bottom seeds \<and>
     pf_dependencies pf = ph_seeds h seeds"

text \<open>No two of the seed states (bottom included) and not the two seed maps collide.\<close>

definition collision_free ::
  "('n::linorder, 'e, 's) proof_hashes \<Rightarrow> 's \<Rightarrow> ('n, 's) bmap \<Rightarrow> ('n, 's) bmap \<Rightarrow> bool" where
  "collision_free h bottom seeds seeds' \<longleftrightarrow>
     inj_on (ph_state h) (insert bottom (set (bm_values seeds) \<union> set (bm_values seeds'))) \<and>
     (ph_seeds h seeds = ph_seeds h seeds' \<longrightarrow> seeds = seeds')"

lemma mint_completion_proof_OkD:
  assumes "mint_completion_proof h g t bottom seeds b sol = Ok pf"
  shows "pf_solution pf = sol" "pf_seed_fingerprints pf = seed_fingerprints_of h g bottom seeds"
    "pf_dependencies pf = ph_seeds h seeds"
  using assms by (auto simp: mint_completion_proof_def make_proof_inputs_def Let_def outcome_simps)

lemma solve_incremental_OkD:
  fixes g :: "('n::linorder, 'e::linorder, 'l, 'c) dataflow_graph"
  assumes "solve_incremental h L pf g t bottom seeds b = Some (Ok pf')"
  defines "S \<equiv> bm_from_list seeds"
  defines "C \<equiv> changed_nodes h g bottom S (previous_seed_fingerprints pf)"
  shows "set (bm_keys S) \<subseteq> node_ids g"
    and "solve_proven h L g t bottom (bm_entries S) b = Some (Ok pf') \<or>
      pf_dependencies pf = ph_seeds h S \<and> pf' = pf \<or>
      (\<exists>A F st st'. cone_loop g (C, C) = Some (Ok (A, F) :: (('n, 'e, 'l) dataflow_error, _) outcome) \<and>
         incremental_start L g t bottom S b pf A = Ok st \<and> incremental_loop L g t b st = Some (Ok st') \<and>
         incremental_finish h L g t bottom S b st' = Ok pf')"
proof -
  have find: "List.find (\<lambda>node. node_of g node = None) (bm_keys S) = None"
    using assms(1) by (auto simp: solve_incremental_def Let_def S_def split: option.splits)
  then show "set (bm_keys S) \<subseteq> node_ids g"
    unfolding find_None_iff node_of_def set_bm_keys by (metis (mono_tags, lifting) mem_Collect_eq subsetI)
  let ?inputs = "make_proof_inputs h g t bottom S b"
  note run = assms(1)[unfolded solve_incremental_def Let_def, folded S_def, unfolded find option.case, folded C_def]
  show "solve_proven h L g t bottom (bm_entries S) b = Some (Ok pf') \<or>
      pf_dependencies pf = ph_seeds h S \<and> pf' = pf \<or>
      (\<exists>A F st st'. cone_loop g (C, C) = Some (Ok (A, F) :: (('n, 'e, 'l) dataflow_error, _) outcome) \<and>
         incremental_start L g t bottom S b pf A = Ok st \<and> incremental_loop L g t b st = Some (Ok st') \<and>
         incremental_finish h L g t bottom S b st' = Ok pf')"
  proof (cases "solve_proven h L g t bottom (bm_entries S) b = Some (Ok pf') \<or>
      pf_dependencies pf = pi_dependencies ?inputs")
    case True
    with run show ?thesis by (auto simp: make_proof_inputs_def split: if_splits)
  next
    case False
    with run have "(case cone_loop g (C, C) of
        None \<Rightarrow> None | Some (Err e) \<Rightarrow> Some (Err e) | Some (Panic p) \<Rightarrow> Some (Panic p)
      | Some (Ok (affected, _)) \<Rightarrow> (case incremental_start L g t bottom S b pf affected of
          Err e \<Rightarrow> Some (Err e) | Panic p \<Rightarrow> Some (Panic p)
        | Ok st \<Rightarrow> map_option (\<lambda>r. bind_outcome r (incremental_finish h L g t bottom S b))
            (incremental_loop L g t b st))) = Some (Ok pf')"
      by (auto split: if_splits)
    then show ?thesis
      by (auto simp: outcome_simps split: option.splits outcome.splits prod.splits)
  qed
qed

context dataflow_system
begin

lemma solve_least:
  assumes "solve L g t bottom seeds b = Some (Ok sol)" "f = admitted_transfer_apply t"
  shows "least_solution L f bottom g seeds (state_at bottom (sol_states sol)) \<and>
    set (bm_keys (sol_states sol)) = node_ids g"
proof -
  from assms(1) obtain st st' where st: "solve_start L g bottom seeds b = Ok st"
    "solve_loop L g t b st = Some (Ok st')" "sol = solution_of st'"
    by (auto simp: solve_def outcome_simps split: outcome.splits)
  from solve_loop_least[OF st(2) assms(2) solve_start_inv[OF st(1)]] st(3)
  show ?thesis by (simp add: solution_of_def)
qed

lemma solve_proven_certifies:
  assumes "solve_proven h L g t bottom seeds b = Some (Ok pf)" "f = admitted_transfer_apply t"
  shows "certifies h L g t bottom (bm_from_list seeds) pf"
proof -
  from assms(1) obtain sol where sol: "solve L g t bottom (bm_entries (bm_from_list seeds)) b = Some (Ok sol)"
    "mint_completion_proof h g t bottom (bm_from_list seeds) b sol = Ok pf"
    by (auto simp: solve_proven_def Let_def outcome_simps)
  from solve_least[OF sol(1) assms(2)] mint_completion_proof_OkD[OF sol(2)] assms(2)
  show ?thesis by (simp add: certifies_def)
qed

lemma unchanged_seed:
  assumes cf: "collision_free h bottom seeds0 seeds"
    and c: "certifies h L g t bottom seeds0 pf" "f = admitted_transfer_apply t"
    and "set (bm_keys seeds) \<subseteq> node_ids g"
    and "n \<notin> bs_set (changed_nodes h g bottom seeds (previous_seed_fingerprints pf))"
  shows "state_at bottom seeds0 n = state_at bottom seeds n"
proof (cases "n \<in> node_ids g")
  case True
  have "bm_get (pf_seed_fingerprints pf) n = Some (ph_state h (state_at bottom seeds0 n))"
    using c(1) True wf_node_table[OF graph_wf, of "\<lambda>k. ph_state h (state_at bottom seeds0 k)" n]
    by (simp add: certifies_def seed_fingerprints_of_def)
  with assms(5) True have "ph_state h (state_at bottom seeds0 n) = ph_state h (state_at bottom seeds n)"
    by (simp add: changed_nodes_def previous_seed_fingerprints_def wf_node_keys[OF graph_wf])
  moreover have "state_at bottom m n \<in> insert bottom (set (bm_values m))" for m :: "('n, 's) bmap"
    using in_bm_values_iff[of _ m] by (cases "bm_get m n") (auto simp: state_at_def)
  ultimately show ?thesis using cf unfolding collision_free_def inj_on_def by blast
next
  case False
  have "state_at bottom seeds0 n = bottom"
  proof (cases "bm_get seeds0 n")
    case (Some s)
    have "state_at bottom (sol_states (pf_solution pf)) n = bottom"
    proof (rule ccontr)
      assume "state_at bottom (sol_states (pf_solution pf)) n \<noteq> bottom"
      then have "n \<in> set (bm_keys (sol_states (pf_solution pf)))"
        by (auto simp: state_at_def in_bm_keys_iff split: option.splits)
      with c(1) False show False by (simp add: certifies_def)
    qed
    moreover have "less_equal L s (state_at bottom (sol_states (pf_solution pf)) n)"
      using c(1) Some by (auto simp: certifies_def least_solution_def closed_on_def bm_entries_iff)
    ultimately show ?thesis using Some by (simp add: le_bot_iff)
  qed (simp add: state_at_def)
  moreover have "bm_get seeds n = None" using False assms(4) by (auto simp: set_bm_keys)
  ultimately show ?thesis by (simp add: state_at_def)
qed

lemma incremental_certifies:
  assumes strict: "f bottom = bottom" and f: "f = admitted_transfer_apply t"
    and c: "certifies h L g t bottom seeds0 pf"
    and cf: "collision_free h bottom seeds0 (bm_from_list seeds)"
    and run: "solve_incremental h L pf g t bottom seeds b = Some (Ok pf')"
  shows "certifies h L g t bottom (bm_from_list seeds) pf'"
proof -
  let ?S = "bm_from_list seeds" and ?sol = "sol_states (pf_solution pf)"
  let ?C = "changed_nodes h g bottom ?S (previous_seed_fingerprints pf)"
  note d = solve_incremental_OkD[OF run]
  have known: "set (bm_keys ?S) \<subseteq> node_ids g" by (rule d(1))
  from d(2) consider
      (clean) "solve_proven h L g t bottom (bm_entries ?S) b = Some (Ok pf')"
    | (same) "pf_dependencies pf = ph_seeds h ?S" "pf' = pf"
    | (cone) A F st st' where "cone_loop g (?C, ?C) = Some (Ok (A, F) :: (('n, 'e, 'l) dataflow_error, _) outcome)"
        "incremental_start L g t bottom ?S b pf A = Ok st"
        "incremental_loop L g t b st = Some (Ok st')" "incremental_finish h L g t bottom ?S b st' = Ok pf'"
    by metis
  then show ?thesis
  proof cases
    case clean
    have "bm_from_list (bm_entries ?S) = ?S" by (rule bm_ext) (simp add: bm_get_from_list_entries)
    with solve_proven_certifies[OF clean f] show ?thesis by simp
  next
    case same
    then have "ph_seeds h seeds0 = ph_seeds h ?S" using c by (simp add: certifies_def)
    with cf have "seeds0 = ?S" unfolding collision_free_def by blast
    with c same(2) show ?thesis by simp
  next
    case cone
    have C: "bs_set ?C \<subseteq> node_ids g"
      by (auto simp: changed_nodes_def wf_node_keys[OF graph_wf])
    note A = cone_loop_closed[OF graph_wf C cone(1)]
    have "wl_inv (bm_entries ?S) (ss_states st, ss_pending st)"
    proof (rule incremental_start_inv[OF strict f])
      show "least_solution L f bottom g (bm_entries seeds0) (state_at bottom ?sol)" "set (bm_keys ?sol) = node_ids g"
        using c f by (simp_all add: certifies_def)
      show "state_at bottom seeds0 n = state_at bottom ?S n" if "n \<notin> bs_set A" for n
        by (rule unchanged_seed[OF cf c f known]) (use that A(1) in blast)
    qed (fact A(2), fact A(3), (fact incremental_start_states[OF f A(2) cone(2)])+)
    note least = incremental_loop_least[OF cone(3) f this]
    from cone(4) obtain u where "mint_completion_proof h g t bottom ?S b (solution_of (st'\<lparr>ss_usage := u\<rparr>)) = Ok pf'"
      by (auto simp: incremental_finish_def outcome_simps)
    from mint_completion_proof_OkD[OF this] least f show ?thesis
      by (simp add: certifies_def solution_of_def)
  qed
qed

end


section \<open>Termination under a work limit\<close>

lemma incremental_visit_work:
  assumes "incremental_visit L g t b p st = Ok st'" and limit: "max_work b < usize_max"
  shows "u_work (ss_usage st) < u_work (ss_usage st') \<and> u_work (ss_usage st) < max_work b"
proof -
  let ?w = "saturating_add (saturating_add (u_work (ss_usage st)) 1) 1"
  let ?u = "st\<lparr>ss_usage := (ss_usage st)\<lparr>u_work := ?w\<rparr>, ss_events := ss_events st @ [Visit p]\<rparr>"
  from assms(1) obtain l out es where w: "?w \<le> max_work b"
    and run: "for_each (incremental_edge L g b p l out) es ?u = Ok st'"
    by (auto simp: incremental_visit_def outcome_simps Let_def split: if_splits)
  have "u_work (ss_usage ?u) \<le> u_work (ss_usage st')"
    using run
  proof (rule for_each_measure)
    fix i x y assume "incremental_edge L g b p l out i x = Ok y"
    then have "u_work (ss_usage y) = saturating_add (u_work (ss_usage x)) 1" "u_work (ss_usage y) \<le> max_work b"
      by (auto simp: incremental_edge_def outcome_simps Let_def split: if_splits)
    then show "u_work (ss_usage x) \<le> u_work (ss_usage y)"
      using limit by (auto simp: saturating_add_def)
  qed
  with w limit show ?thesis by (auto simp: saturating_add_def min_def split: if_splits)
qed

lemma incremental_loop_returns:
  assumes "max_work b < usize_max"
  shows "\<exists>r. incremental_loop L g t b st = Some r"
  unfolding incremental_loop_def
proof (rule while_let_returns[where I = "\<lambda>_. True"])
  show "wf (measure (\<lambda>st. max_work b - u_work (ss_usage st)))" by simp
  fix s p s1 s2
  assume "pop_pending s = Some (p, s1)" "incremental_visit L g t b p s1 = Ok s2"
  with incremental_visit_work[OF _ assms]
  show "True \<and> (s2, s) \<in> measure (\<lambda>st. max_work b - u_work (ss_usage st))"
    by (fastforce simp: pop_pending_Some)
qed simp

lemma solve_proven_returns:
  assumes "max_work b < usize_max"
  shows "\<exists>r. solve_proven h L g t bottom seeds b = Some r"
proof -
  have "\<exists>r. solve L g t bottom (bm_entries (bm_from_list seeds)) b = Some r"
    by (rule solve_returns_if_loop) (rule solve_loop_returns[OF assms])
  then show ?thesis by (auto simp: solve_proven_def Let_def)
qed

lemma solve_incremental_returns_if:
  fixes g :: "('n::linorder, 'e::linorder, 'l, 'c) dataflow_graph"
  assumes "wf_graph g" "max_work b < usize_max"
  shows "\<exists>r. solve_incremental h L pf g t bottom seeds b = Some r"
proof -
  let ?S = "bm_from_list seeds"
  let ?C = "changed_nodes h g bottom ?S (previous_seed_fingerprints pf)"
  have "bs_set ?C \<subseteq> node_ids g"
    by (auto simp: changed_nodes_def wf_node_keys[OF assms(1)])
  from cone_loop_returns[OF assms(1) this] obtain r where
    cone: "cone_loop g (?C, ?C) = (Some r :: (('n, 'e, 'l) dataflow_error, _) outcome option)" by blast
  obtain q where proven: "solve_proven h L g t bottom (bm_entries ?S) b = Some q"
    using solve_proven_returns[OF assms(2), of h L g t bottom "bm_entries ?S"] by (elim exE)
  have inner: "\<exists>r. (case incremental_start L g t bottom ?S b pf A of
      Err e \<Rightarrow> Some (Err e) | Panic p \<Rightarrow> Some (Panic p)
    | Ok st \<Rightarrow> map_option (\<lambda>r. bind_outcome r (incremental_finish h L g t bottom ?S b))
        (incremental_loop L g t b st)) = Some r" for A
    using incremental_loop_returns[OF assms(2)] by (auto split: outcome.splits)
  show ?thesis
    unfolding solve_incremental_def Let_def cone proven using inner
    by (auto split: option.splits outcome.splits prod.splits)
qed

section \<open>Properties of incremental solving\<close>

text \<open>
  C7: Certificates are kept along every edit of the seeds: from a completion proof that certifies
  the least solution of its seeds, an incremental solve whose fingerprints do not collide mints
  a proof that certifies the least solution of the new seeds, when the transfer is lawful and maps
  bottom to bottom.
\<close>

theorem incremental_keeps_certificate:
  assumes "monotone_transfer L bottom (admitted_transfer_apply t)" and "wf_graph g"
    and "admitted_transfer_apply t bottom = bottom"
    and "certifies h L g t bottom (bm_from_list seeds) previous"
    and "collision_free h bottom (bm_from_list seeds) (bm_from_list seeds')"
    and "solve_incremental h L previous g t bottom seeds' budgets = Some (Ok next)"
  shows "certifies h L g t bottom (bm_from_list seeds') next"
proof -
  have sys: "dataflow_system L bottom (admitted_transfer_apply t) g"
    using assms(1,2) by (simp add: dataflow_system_def dataflow_system_axioms_def)
  show ?thesis
    by (rule dataflow_system.incremental_certifies[OF sys assms(3) refl assms(4-6)])
qed

text \<open>
  C3: The states an incremental solve reaches from a proven solution are exactly the states of a
  clean solve for the new seeds.
\<close>

theorem incremental_equals_clean:
  assumes "monotone_transfer L bottom (admitted_transfer_apply t)" and "wf_graph g"
    and "admitted_transfer_apply t bottom = bottom"
    and "solve_proven h L g t bottom seeds budgets = Some (Ok previous)"
    and "collision_free h bottom (bm_from_list seeds) (bm_from_list seeds')"
    and "solve_incremental h L previous g t bottom seeds' budgets = Some (Ok next)"
    and "solve_proven h L g t bottom seeds' budgets' = Some (Ok clean)"
  shows "sol_states (pf_solution next) = sol_states (pf_solution clean)"
proof -
  have sys: "dataflow_system L bottom (admitted_transfer_apply t) g"
    using assms(1,2) by (simp add: dataflow_system_def dataflow_system_axioms_def)
  have c: "certifies h L g t bottom (bm_from_list seeds') next"
    by (rule dataflow_system.incremental_certifies[OF sys assms(3) refl
          dataflow_system.solve_proven_certifies[OF sys assms(4) refl] assms(5,6)])
  have d: "certifies h L g t bottom (bm_from_list seeds') clean"
    by (rule dataflow_system.solve_proven_certifies[OF sys assms(7) refl])
  have "state_at bottom (sol_states (pf_solution next)) = state_at bottom (sol_states (pf_solution clean))"
    using c d by (auto simp: certifies_def intro: dataflow_system.least_solution_unique[OF sys])
  moreover have "set (bm_keys (sol_states (pf_solution next))) = set (bm_keys (sol_states (pf_solution clean)))"
    using c d by (simp add: certifies_def)
  ultimately show ?thesis by (rule bm_eq_state_at)
qed

text \<open>
  Under a work budget below \<open>usize::MAX\<close> an incremental solve returns, whatever proof it
  starts from: the affected cone, the worklist and a clean re-solve all terminate.
\<close>

theorem solve_incremental_returns:
  assumes "wf_graph g" and "max_work budgets < usize_max"
  shows "\<exists>r. solve_incremental h L previous g t bottom seeds budgets = Some r"
  using assms by (rule solve_incremental_returns_if)

end
