(* ===== verification/Jvm_Types.thy ===== *)
theory Jvm_Types
  imports Lattice_Laws
begin

text \<open>
  The verification types of the JVM verifier (sim-lib-lang-jvm, verifier/types.rs) and their join,
  the instance of \<open>JoinSemilattice\<close> the verifier runs the dataflow contracts on. The size of the
  Rust enum, \<open>size_of::<Self>()\<close>, is the parameter \<open>size_of\<close>.
\<close>

section \<open>Verification types\<close>

datatype verification_type_width = Category1 | Category2

datatype reference_type = Object | Class string | Array string

datatype verification_type =
    Bottom
  | IntType
  | Float
  | Long
  | Double
  | Null
  | Reference reference_type
  | UninitializedThis
  | Uninitialized nat
  | Unusable

fun width :: "verification_type \<Rightarrow> verification_type_width option" where
  "width Long = Some Category2"
| "width Double = Some Category2"
| "width IntType = Some Category1"
| "width Float = Some Category1"
| "width Null = Some Category1"
| "width (Reference _) = Some Category1"
| "width UninitializedThis = Some Category1"
| "width (Uninitialized _) = Some Category1"
| "width Bottom = None"
| "width Unusable = None"

definition join_reference :: "reference_type \<Rightarrow> reference_type \<Rightarrow> reference_type" where
  "join_reference left right = (if left = right then left else Object)"

text \<open>The arms of the \<open>match\<close> in the order of the source.\<close>

definition join_types :: "verification_type \<Rightarrow> verification_type \<Rightarrow> verification_type" where
  "join_types a b =
     (if a = Bottom then b
      else if b = Bottom then a
      else if a = Unusable \<or> b = Unusable then Unusable
      else if a = b then a
      else case (a, b) of
             (Null, Reference r) \<Rightarrow> Reference r
           | (Reference r, Null) \<Rightarrow> Reference r
           | (Reference l, Reference r) \<Rightarrow> Reference (join_reference l r)
           | _ \<Rightarrow> Unusable)"

definition verification_type_lattice :: "usize \<Rightarrow> verification_type join_semilattice_ops" where
  "verification_type_lattice size_of =
     \<lparr>bottom_of = (\<lambda>_. Bottom), join = join_types, less_equal = (\<lambda>a b. join_types a b = b),
      state_size = (\<lambda>_. size_of)\<rparr>"

section \<open>Descriptors\<close>

datatype verification_query_error = InvalidDescriptor string

definition is_primitive_descriptor :: "string \<Rightarrow> bool" where
  "is_primitive_descriptor descriptor \<longleftrightarrow>
     length descriptor = 1 \<and> hd descriptor \<in> set ''BCDFIJSZ''"

text \<open>\<open>strip_prefix('L')\<close> followed by \<open>strip_suffix(';')\<close> on what remains.\<close>

definition strip_class :: "string \<Rightarrow> string option" where
  "strip_class descriptor =
     (case descriptor of
        [] \<Rightarrow> None
      | c # rest \<Rightarrow>
          if c = CHR ''L'' \<and> rest \<noteq> [] \<and> last rest = CHR '';'' then Some (butlast rest) else None)"

definition descriptor_reference :: "string \<Rightarrow> (verification_query_error, reference_type) outcome" where
  "descriptor_reference descriptor =
     (if descriptor \<noteq> [] \<and> hd descriptor = CHR ''['' then Ok (Array descriptor)
      else case strip_class descriptor of
             Some name \<Rightarrow> Ok (Class name)
           | None \<Rightarrow> Err (InvalidDescriptor descriptor))"

fun reference_descriptor :: "reference_type \<Rightarrow> string" where
  "reference_descriptor Object = ''Ljava/lang/Object;''"
| "reference_descriptor (Class name) = ''L'' @ name @ '';''"
| "reference_descriptor (Array descriptor) = descriptor"

section \<open>The lattice\<close>

lemma join_types_simps [simp]:
  "join_types Bottom b = b" "join_types a Bottom = a" "join_types Unusable b = Unusable" "join_types a Unusable = Unusable"
  "join_types a a = a"
  "join_types (Reference l) (Reference r) = Reference (join_reference l r)"
  by (auto simp: join_types_def join_reference_def)

lemma join_types_comm: "join_types a b = join_types b a"
  by (cases a; cases b) (simp_all add: join_types_def join_reference_def)

text \<open>Two types without a reference in common meet only in \<open>Unusable\<close>.\<close>

fun reference_like :: "verification_type \<Rightarrow> bool" where
  "reference_like Null = True"
| "reference_like (Reference _) = True"
| "reference_like _ = False"

lemma join_types_clash:
  "\<not> reference_like a \<Longrightarrow> a \<noteq> b \<Longrightarrow> a \<noteq> Bottom \<Longrightarrow> b \<noteq> Bottom \<Longrightarrow> join_types a b = Unusable"
  by (cases a) (simp_all add: join_types_def)

lemma reference_like_join: "reference_like a \<Longrightarrow> reference_like b \<Longrightarrow> reference_like (join_types a b)"
  by (cases a; cases b) (simp_all add: join_types_def)

lemma join_types_assoc: "join_types (join_types a b) c = join_types a (join_types b c)"
proof (cases "a = Bottom \<or> b = Bottom \<or> c = Bottom")
  case False
  show ?thesis
  proof (cases "reference_like a \<and> reference_like b \<and> reference_like c")
    case True
    then show ?thesis
      by (cases a; cases b; cases c) (simp_all add: join_types_def join_reference_def)
  next
    case clash: False
    have "join_types x y \<noteq> Bottom" if "x \<noteq> Bottom" "y \<noteq> Bottom" for x y
      using that by (auto simp: join_types_def split: verification_type.split)
    moreover have "join_types x y \<noteq> z" if "\<not> reference_like z" "reference_like x" "reference_like y" for x y z
      using that reference_like_join by blast
    ultimately show ?thesis
      using False clash join_types_clash join_types_comm join_types_simps(3-5) by metis
  qed
qed auto

interpretation jvm_types: join_semilattice "verification_type_lattice size_of" Bottom
  by unfold_locales (simp_all add: verification_type_lattice_def join_types_assoc, rule join_types_comm)

text \<open>Every strict step up in the lattice raises the rank, so chains have at most five elements.\<close>

fun type_rank :: "verification_type \<Rightarrow> nat" where
  "type_rank Bottom = 0"
| "type_rank Unusable = 4"
| "type_rank (Reference r) = (if r = Object then 3 else 2)"
| "type_rank _ = 1"

lemma type_rank_bound: "type_rank a \<le> 4"
  by (cases a) auto

lemma type_rank_strict:
  "less_equal (verification_type_lattice size_of) a b \<Longrightarrow> a \<noteq> b \<Longrightarrow> type_rank a < type_rank b"
  by (cases a; cases b) (auto simp: verification_type_lattice_def join_types_def join_reference_def split: if_splits)

lemma strip_class_Some: "strip_class d = Some name \<longleftrightarrow> d = ''L'' @ name @ '';''"
proof -
  have "rest = butlast rest @ '';''" if "rest \<noteq> []" "last rest = CHR '';''" for rest :: string
    using that append_butlast_last_id[of rest] by simp
  then show ?thesis by (auto simp: strip_class_def split: list.splits if_splits)
qed

section \<open>Properties\<close>

text \<open>
  Descriptors round trip: a descriptor that parses as a reference is printed back unchanged,
  and a class or array reference is parsed back from its descriptor; \<open>Object\<close> comes back as the
  class \<open>java/lang/Object\<close>.
\<close>

theorem descriptor_round_trip:
  "(\<forall>r. descriptor_reference d = Ok r \<longrightarrow> reference_descriptor r = d) \<and>
   descriptor_reference (reference_descriptor (Class name)) = Ok (Class name) \<and>
   descriptor_reference (reference_descriptor (Array (CHR ''['' # c))) = Ok (Array (CHR ''['' # c)) \<and>
   descriptor_reference (reference_descriptor Object) = Ok (Class ''java/lang/Object'')"
proof -
  have "reference_descriptor r = d" if "descriptor_reference d = Ok r" for r
    using that by (auto simp: descriptor_reference_def strip_class_Some split: if_splits option.splits)
  moreover have "descriptor_reference (''L'' @ n @ '';'') = Ok (Class n)" for n
    using strip_class_Some[of "''L'' @ n @ '';''" n] by (simp add: descriptor_reference_def)
  ultimately show ?thesis by (simp add: descriptor_reference_def strip_class_def)
qed

theorem descriptor_round_trip_witness:
  "descriptor_reference ''LA;'' = Ok (Class ''A'') \<and> reference_descriptor (Class ''A'') = ''LA;''"
proof -
  have p: "descriptor_reference ''LA;'' = Ok (Class ''A'')" by (simp add: descriptor_reference_def strip_class_def)
  with descriptor_round_trip[of "''LA;''" "''A''" "[]"] show ?thesis by blast
qed

end
