(* ===== verification/Definite_Assignment.thy ===== *)
theory Definite_Assignment
  imports Incremental_Correct Jvm_Types
begin

text \<open>
  The definite-assignment analysis of \<open>tests/definite_assignment_specimen.rs\<close>, the client of the
  dataflow engine that the repository keeps as its specimen: sets of facts under union, the
  identity transfer, and the control-flow graph of a small register machine. It interprets the
  contracts of the solver, and its runs show that the hypotheses of the dataflow properties hold.
\<close>

section \<open>Facts\<close>

datatype location = Location nat nat

definition location_of :: "nat \<Rightarrow> location" where
  "location_of instruction = Location instruction instruction"

datatype fact =
    Assigned nat location
  | UnassignedBranch nat location
  | InstructionRevision nat nat

text \<open>The derived \<open>Ord\<close>: the variant first, then the fields in order.\<close>

fun fact_key :: "fact \<Rightarrow> nat \<times> nat \<times> nat \<times> nat" where
  "fact_key (Assigned r (Location i l)) = (0, r, i, l)"
| "fact_key (UnassignedBranch r (Location i l)) = (1, r, i, l)"
| "fact_key (InstructionRevision i v) = (2, i, v, 0)"

lemma fact_key_inject: "fact_key a = fact_key b \<Longrightarrow> a = b"
  by (cases a rule: fact_key.cases; cases b rule: fact_key.cases) simp_all

instantiation fact :: linorder
begin

definition less_eq_fact :: "fact \<Rightarrow> fact \<Rightarrow> bool" where
  "less_eq_fact a b \<longleftrightarrow> fact_key a \<le> fact_key b"

definition less_fact :: "fact \<Rightarrow> fact \<Rightarrow> bool" where
  "less_fact a b \<longleftrightarrow> fact_key a < fact_key b"

instance
  by standard (auto simp: less_eq_fact_def less_fact_def dest: fact_key_inject)

end

type_synonym facts = "fact bset"

definition facts_one :: "fact \<Rightarrow> facts" where
  "facts_one f = bs_insert f bs_empty"

definition bs_union :: "'k::linorder bset \<Rightarrow> 'k bset \<Rightarrow> 'k bset" where
  "bs_union a b = bs_extend (bs_elems b) a"

definition bs_subset :: "'k::linorder bset \<Rightarrow> 'k bset \<Rightarrow> bool" where
  "bs_subset a b = list_all (\<lambda>k. bs_contains k b) (bs_elems a)"

definition facts_lattice :: "facts join_semilattice_ops" where
  "facts_lattice = \<lparr>bottom_of = (\<lambda>_. bs_empty), join = bs_union, less_equal = bs_subset,
     state_size = (\<lambda>s. length (bs_elems s))\<rparr>"

definition identity_policy :: "'s transfer_policy" where
  "identity_policy = \<lparr>policy_fingerprint = 0x4445464153534947, policy_size = 0, transfer = (\<lambda>state. state)\<rparr>"

section \<open>The control-flow graph\<close>

datatype flow_edge =
    BranchAssigned | BranchBypass | AssignedMerge | BypassMerge | MergeUse | UseLoop | LoopBack | LoopExit
  | ProtectedHandler | HandlerReturn | UnreachableReturn

datatype flow_class = Exceptional

fun flow_edge_ord :: "flow_edge \<Rightarrow> nat" where
  "flow_edge_ord BranchAssigned = 0"
| "flow_edge_ord BranchBypass = 1"
| "flow_edge_ord AssignedMerge = 2"
| "flow_edge_ord BypassMerge = 3"
| "flow_edge_ord MergeUse = 4"
| "flow_edge_ord UseLoop = 5"
| "flow_edge_ord LoopBack = 6"
| "flow_edge_ord LoopExit = 7"
| "flow_edge_ord ProtectedHandler = 8"
| "flow_edge_ord HandlerReturn = 9"
| "flow_edge_ord UnreachableReturn = 10"

lemma flow_edge_ord_inject: "flow_edge_ord a = flow_edge_ord b \<Longrightarrow> a = b"
  by (cases a; cases b) simp_all

instantiation flow_edge :: linorder
begin

definition less_eq_flow_edge :: "flow_edge \<Rightarrow> flow_edge \<Rightarrow> bool" where
  "less_eq_flow_edge a b \<longleftrightarrow> flow_edge_ord a \<le> flow_edge_ord b"

definition less_flow_edge :: "flow_edge \<Rightarrow> flow_edge \<Rightarrow> bool" where
  "less_flow_edge a b \<longleftrightarrow> flow_edge_ord a < flow_edge_ord b"

instance
  by standard (auto simp: less_eq_flow_edge_def less_flow_edge_def dest: flow_edge_ord_inject)

end

definition register_cfg_nodes :: "(nat, location) node_spec list" where
  "register_cfg_nodes = map (\<lambda>i. \<lparr>ns_id = i, ns_location = location_of i,
     ns_boundary = (if i = 1 then Input else if i = 7 then boundary.Output else Internal)\<rparr>) [1, 2, 3, 4, 5, 6, 7, 8, 9]"

definition cfg_edge :: "flow_edge \<Rightarrow> nat \<Rightarrow> nat \<Rightarrow> flow_class edge_class \<Rightarrow> (flow_edge, nat, flow_class) edge_spec" where
  "cfg_edge i source target c =
     \<lparr>es_id = i, es_source = source, es_target = target, es_class = c, es_direction = Forward\<rparr>"

definition register_cfg_edges :: "(flow_edge, nat, flow_class) edge_spec list" where
  "register_cfg_edges =
     [cfg_edge BranchAssigned 1 2 Control, cfg_edge BranchBypass 1 3 Control,
      cfg_edge AssignedMerge 2 4 Control, cfg_edge BypassMerge 3 4 Control,
      cfg_edge MergeUse 4 5 Control, cfg_edge UseLoop 5 6 Control,
      cfg_edge LoopBack 6 4 Control, cfg_edge LoopExit 6 7 Control,
      cfg_edge ProtectedHandler 6 8 (Custom Exceptional), cfg_edge HandlerReturn 8 7 Control,
      cfg_edge UnreachableReturn 9 7 Control]"

definition specimen_seeds :: "nat \<Rightarrow> (nat \<times> facts) list" where
  "specimen_seeds rv =
     [(2, facts_one (Assigned 0 (location_of 2))), (3, facts_one (UnassignedBranch 0 (location_of 3))),
      (8, facts_one (InstructionRevision 8 rv))]"

definition specimen_samples :: "facts list" where
  "specimen_samples = [bs_empty, facts_one (Assigned 0 (location_of 2)), facts_one (UnassignedBranch 0 (location_of 3))]"

text \<open>The graph and the admitted transfer the test unwraps. Hashing the graph is a parameter; here it is constant.\<close>

fun unwrap_outcome :: "('e, 'a) outcome \<Rightarrow> 'a option" where
  "unwrap_outcome (Ok a) = Some a"
| "unwrap_outcome _ = None"

definition specimen_graph :: "(nat, flow_edge, location, flow_class) dataflow_graph" where
  "specimen_graph = the (unwrap_outcome (build (\<lambda>_. 5) register_cfg_nodes register_cfg_edges))"

definition admitted_identity :: "'s admitted_transfer" where
  "admitted_identity = \<lparr>at_policy = identity_policy, at_fingerprint = policy_fingerprint (identity_policy :: 's transfer_policy),
     at_policy_size = policy_size (identity_policy :: 's transfer_policy)\<rparr>"

text \<open>A concrete choice of the hash functions, without collisions on the specimen.\<close>

definition facts_hash :: "facts \<Rightarrow> value_fingerprint" where
  "facts_hash s = sum_list (map (\<lambda>f. case fact_key f of (a, b, c, d) \<Rightarrow> 1 + a + 4 * b + 40 * c + 400 * d) (bs_elems s))"

definition specimen_hashes :: "(nat, flow_edge, facts) proof_hashes" where
  "specimen_hashes = \<lparr>ph_state = facts_hash,
     ph_boundaries = (\<lambda>_. 1), ph_limits = (\<lambda>_. 2), ph_seeds = (\<lambda>m. sum_list (map facts_hash (bm_values m))),
     ph_identity = (\<lambda>_. 4)\<rparr>"

definition specimen_resume_hashes :: "(nat, flow_edge, flow_class, facts) resume_hashes" where
  "specimen_resume_hashes = \<lparr>h_dependencies = (\<lambda>_. 6), h_token = (\<lambda>_. 7)\<rparr>"

text \<open>A two-point lattice, whose states a sample list can enumerate.\<close>

definition flag_lattice :: "bool join_semilattice_ops" where
  "flag_lattice = \<lparr>bottom_of = (\<lambda>_. False), join = (\<or>), less_equal = (\<le>), state_size = (\<lambda>_. 1)\<rparr>"

section \<open>The contracts\<close>

lemma bs_set_union [simp]: "bs_set (bs_union a b) = bs_set a \<union> bs_set b"
  by (auto simp: bs_union_def)

lemma bs_subset_iff [simp]: "bs_subset a b \<longleftrightarrow> bs_set a \<subseteq> bs_set b"
  by (auto simp: bs_subset_def list_all_iff)

lemma admitted_identity_apply [simp]: "admitted_transfer_apply admitted_identity = (\<lambda>s. s)"
  by (simp add: admitted_transfer_apply_def admitted_identity_def identity_policy_def)

lemma bs_union_absorb: "bs_union a b = b \<longleftrightarrow> bs_set a \<subseteq> bs_set b"
  by (metis bs_ext bs_set_union subset_Un_eq)

interpretation facts_lattice: join_semilattice facts_lattice bs_empty
  by unfold_locales (auto simp: facts_lattice_def bs_union_absorb intro!: bs_ext)

interpretation definite_assignment: monotone_transfer facts_lattice bs_empty "admitted_transfer_apply admitted_identity"
  by unfold_locales simp_all

lemma specimen_build: "build (\<lambda>_. 5) register_cfg_nodes register_cfg_edges = Ok specimen_graph"
proof -
  have "unwrap_outcome (build (\<lambda>_. 5) register_cfg_nodes register_cfg_edges) \<noteq> None" by code_simp
  then show ?thesis
    unfolding specimen_graph_def
    by (cases "build (\<lambda>_. 5) register_cfg_nodes register_cfg_edges") auto
qed

lemma specimen_wf: "wf_graph specimen_graph"
  using build_frozen[OF specimen_build] by simp

interpretation specimen: dataflow_system facts_lattice bs_empty "admitted_transfer_apply admitted_identity" specimen_graph
  by unfold_locales (rule specimen_wf)

lemma jvm_identity: "monotone_transfer (verification_type_lattice n) Bottom (admitted_transfer_apply admitted_identity)"
  by unfold_locales simp_all

context join_semilattice
begin

lemma lawful_on_samples: "laws_on_samples L bottom S"
  unfolding laws_on_samples_def
proof (intro conjI ballI impI)
  show "join L a b = join L b a" for a b by (rule join_comm)
  show "less_equal L a b \<Longrightarrow> less_equal L b a \<Longrightarrow> a = b" for a b by (rule le_antisym)
qed (simp_all add: join_idem join_bot join_assoc less_equal_join)

end

lemma admit_lawful:
  assumes lawful: "monotone_transfer L bottom (transfer policy)" and "samples \<noteq> []" "bottom_of L (hd samples) = bottom"
  shows "admit L policy samples = Ok \<lparr>at_policy = policy, at_fingerprint = policy_fingerprint policy,
    at_policy_size = policy_size policy\<rparr>"
proof -
  from lawful have "join_semilattice L bottom" by (simp add: monotone_transfer_def)
  then have "laws_on_samples L bottom (set samples)" by (rule join_semilattice.lawful_on_samples)
  moreover have "transfer_laws_on_samples L policy (set samples)"
    unfolding transfer_laws_on_samples_def
    using monotone_transfer.transfer_mono[OF lawful] monotone_transfer.transfer_progress[OF lawful] by blast
  ultimately show ?thesis unfolding admit_Ok_unfold using assms(2,3) by simp
qed

lemma specimen_admit: "admit facts_lattice identity_policy specimen_samples = Ok admitted_identity"
  unfolding admitted_identity_def
proof (rule admit_lawful)
  have "transfer identity_policy = admitted_transfer_apply (admitted_identity :: facts admitted_transfer)"
    by (simp add: identity_policy_def)
  with definite_assignment.monotone_transfer_axioms
  show "monotone_transfer facts_lattice bs_empty (transfer identity_policy)" by simp
qed (simp_all add: specimen_samples_def facts_lattice_def)

section \<open>The specimen's runs\<close>

fun solved :: "('err, 'a) outcome option \<Rightarrow> bool" where
  "solved (Some (Ok _)) = True"
| "solved _ = False"

lemma solvedE: "solved x \<Longrightarrow> (\<And>a. x = Some (Ok a) \<Longrightarrow> thesis) \<Longrightarrow> thesis"
  by (cases x rule: solved.cases) auto

abbreviation specimen_budgets :: query_budgets where
  "specimen_budgets \<equiv> new_query_budgets 1000 1000 1000 1000"

abbreviation specimen_solve where
  "specimen_solve rv \<equiv> solve facts_lattice specimen_graph admitted_identity bs_empty (specimen_seeds rv) specimen_budgets"

abbreviation specimen_proven where
  "specimen_proven rv \<equiv> solve_proven specimen_hashes facts_lattice specimen_graph admitted_identity bs_empty
     (specimen_seeds rv) specimen_budgets"

lemma specimen_solved: "solved (specimen_solve 1)"
  by code_simp

lemma specimen_proven_solved: "solved (specimen_proven 1)" "solved (specimen_proven 2)"
  by code_simp+

lemma specimen_incremental_solved:
  "case specimen_proven 1 of Some (Ok pf) \<Rightarrow> solved (solve_incremental specimen_hashes facts_lattice pf specimen_graph
     admitted_identity bs_empty (specimen_seeds 2) specimen_budgets) | _ \<Rightarrow> False"
  by code_simp

lemma specimen_collision_free:
  "collision_free specimen_hashes bs_empty (bm_from_list (specimen_seeds 1)) (bm_from_list (specimen_seeds 2))"
proof -
  let ?states = "[bs_empty, facts_one (Assigned 0 (location_of 2)), facts_one (UnassignedBranch 0 (location_of 3)),
    facts_one (InstructionRevision 8 1), facts_one (InstructionRevision 8 2)]"
  have "insert bs_empty (set (bm_values (bm_from_list (specimen_seeds 1))) \<union> set (bm_values (bm_from_list (specimen_seeds 2))))
      = set ?states" by code_simp
  moreover have "distinct (map facts_hash ?states)" by code_simp
  then have "inj_on facts_hash (set ?states)" unfolding distinct_map by (rule conjunct2)
  moreover have "ph_seeds specimen_hashes (bm_from_list (specimen_seeds 1)) \<noteq> ph_seeds specimen_hashes (bm_from_list (specimen_seeds 2))"
    by code_simp
  ultimately show ?thesis by (simp add: collision_free_def specimen_hashes_def)
qed

section \<open>The dataflow properties on the specimen\<close>

text \<open>Each theorem applies one of the dataflow properties where its hypotheses hold.\<close>

theorem admit_Err_broken_witness:
  "admit facts_lattice identity_policy [] = Err \<lparr>law = BottomLaw, witnesses = []\<rparr> \<and>
   law_broken facts_lattice (identity_policy :: facts transfer_policy) [] BottomLaw []"
proof -
  have e: "admit facts_lattice identity_policy [] = Err \<lparr>law = BottomLaw, witnesses = []\<rparr>"
    by (simp add: admit_def check_lattice_def law_violation_new_def)
  with admit_Err_broken[OF e] show ?thesis by simp
qed

theorem admit_exhaustive_witness:
  "admit flag_lattice identity_policy [False, True] = Ok admitted_identity \<and> set [False, True] = UNIV \<and>
   monotone_transfer flag_lattice False (admitted_transfer_apply admitted_identity)"
proof -
  have a: "admit flag_lattice identity_policy [False, True] = Ok admitted_identity"
    unfolding admitted_identity_def admit_Ok_unfold
    by (simp add: flag_lattice_def laws_on_samples_def transfer_laws_on_samples_def identity_policy_def)
  have u: "set [False, True] = UNIV" by auto
  have "bottom_of flag_lattice (hd [False, True]) = False" by (simp add: flag_lattice_def)
  with admit_exhaustive[OF a u] a u show ?thesis by simp
qed

theorem build_wf_graph_witness:
  "build (\<lambda>_. 5) register_cfg_nodes register_cfg_edges = Ok specimen_graph \<and> wf_graph specimen_graph"
  using build_wf_graph[OF specimen_build] specimen_build by simp

theorem build_order_irrelevant_witness:
  "build (\<lambda>_. 5) (rev register_cfg_nodes) (rev register_cfg_edges) = Ok specimen_graph"
proof (rule build_order_irrelevant[OF specimen_build])
  show "distinct (rev register_cfg_nodes)" "distinct (rev register_cfg_edges)" by code_simp+
qed simp_all

theorem solve_least_solution_witness:
  "\<exists>sol. specimen_solve 1 = Some (Ok sol) \<and>
     least_solution facts_lattice (\<lambda>s. s) bs_empty specimen_graph (specimen_seeds 1) (state_at bs_empty (sol_states sol))"
proof -
  from specimen_solved obtain sol where sol: "specimen_solve 1 = Some (Ok sol)" by (rule solvedE)
  from solve_least_solution[OF definite_assignment.monotone_transfer_axioms specimen_wf sol] sol show ?thesis by auto
qed

theorem solve_returns_within_work_budget_witness:
  "max_work specimen_budgets < usize_max \<and> (\<exists>r. specimen_solve 1 = Some r)"
proof -
  have "max_work specimen_budgets < usize_max" by (simp add: new_query_budgets_def usize_max_def)
  with solve_returns_within_work_budget[OF this, of facts_lattice specimen_graph admitted_identity bs_empty "specimen_seeds 1"]
  show ?thesis by simp
qed

theorem solve_returns_finite_height_witness:
  "\<exists>r. solve (verification_type_lattice 24) specimen_graph admitted_identity Bottom [(1, Null)] unlimited_query_budgets = Some r"
  by (rule solve_returns_finite_height[OF jvm_identity specimen_wf, where rank = type_rank and H = 4])
    (rule type_rank_strict type_rank_bound; assumption)+

theorem solve_no_panic_witness:
  "wf_graph specimen_graph \<and> (\<forall>msg. specimen_solve 1 \<noteq> Some (Panic msg))"
proof (intro conjI allI)
  show "specimen_solve 1 \<noteq> Some (Panic msg)" for msg by (rule solve_no_panic[OF specimen_wf])
qed (rule specimen_wf)

theorem solve_errors_blameless_witness:
  "\<exists>e. solve facts_lattice specimen_graph admitted_identity bs_empty [(77, bs_empty)] specimen_budgets = Some (Err e) \<and> blameless e"
proof -
  have e: "solve facts_lattice specimen_graph admitted_identity bs_empty [(77, bs_empty)] specimen_budgets = Some (Err (UnknownSeed 77))"
    by code_simp
  from solve_errors_blameless[OF definite_assignment.monotone_transfer_axioms specimen_wf e] e show ?thesis by blast
qed

theorem solve_usage_exact_witness:
  "\<exists>sol. specimen_solve 1 = Some (Ok sol) \<and>
     u_work (sol_usage sol) = 3 + 2 * visit_count (sol_events sol) + propagation_count (sol_events sol)"
proof -
  from specimen_solved obtain sol where sol: "specimen_solve 1 = Some (Ok sol)" by (rule solvedE)
  have "max_work specimen_budgets < usize_max" by (simp add: new_query_budgets_def usize_max_def)
  with solve_usage_exact[OF sol specimen_wf] sol show ?thesis by (simp add: specimen_seeds_def)
qed


theorem solve_causes_traced_witness:
  "\<exists>sol. specimen_solve 1 = Some (Ok sol) \<and> state_at bs_empty (sol_states sol) 7 \<noteq> bs_empty \<and> traced (sol_causes sol) 7"
proof -
  from specimen_solved obtain sol where sol: "specimen_solve 1 = Some (Ok sol)" by (rule solvedE)
  have "case specimen_solve 1 of Some (Ok s) \<Rightarrow> state_at bs_empty (sol_states s) 7 \<noteq> bs_empty | _ \<Rightarrow> False" by code_simp
  with sol have n: "state_at bs_empty (sol_states sol) 7 \<noteq> bs_empty" by simp
  have "max_explanation_causes specimen_budgets > 0" by (simp add: new_query_budgets_def usize_max_def)
  from solve_causes_traced[OF facts_lattice.join_semilattice_axioms specimen_wf sol this n] sol n show ?thesis by blast
qed

abbreviation specimen_start where
  "specimen_start k \<equiv> start_resumable facts_lattice specimen_graph admitted_identity specimen_resume_hashes bs_empty (specimen_seeds 1) k 9"

theorem resume_composes_witness:
  "\<exists>c. specimen_start 2 = Ok (Suspended c) \<and>
     resume facts_lattice specimen_graph admitted_identity specimen_resume_hashes bs_empty (specimen_seeds 1) c 30 = specimen_start (2 + 30)"
proof -
  have "case specimen_start 2 of Ok (Suspended c) \<Rightarrow> True | _ \<Rightarrow> False" by code_simp
  then obtain c where c: "specimen_start 2 = Ok (Suspended c)" by (auto split: outcome.splits progress.splits)
  from resume_composes[OF c, of 30] c show ?thesis by blast
qed


lemma specimen_incremental:
  obtains previous incremental clean where "specimen_proven 1 = Some (Ok previous)" "specimen_proven 2 = Some (Ok clean)"
    "solve_incremental specimen_hashes facts_lattice previous specimen_graph admitted_identity bs_empty (specimen_seeds 2) specimen_budgets
      = Some (Ok incremental)"
proof -
  from specimen_proven_solved(1) obtain p where p: "specimen_proven 1 = Some (Ok p)" by (rule solvedE)
  from specimen_proven_solved(2) obtain c where c: "specimen_proven 2 = Some (Ok c)" by (rule solvedE)
  from specimen_incremental_solved p have "solved (solve_incremental specimen_hashes facts_lattice p specimen_graph
     admitted_identity bs_empty (specimen_seeds 2) specimen_budgets)" by simp
  then show ?thesis using that[OF p c] by (auto elim: solvedE)
qed

theorem incremental_keeps_certificate_witness:
  "\<exists>previous next. specimen_proven 1 = Some (Ok previous) \<and>
     solve_incremental specimen_hashes facts_lattice previous specimen_graph admitted_identity bs_empty (specimen_seeds 2) specimen_budgets
       = Some (Ok next) \<and>
     certifies specimen_hashes facts_lattice specimen_graph admitted_identity bs_empty (bm_from_list (specimen_seeds 2)) next"
proof -
  obtain p n c where 1: "specimen_proven 1 = Some (Ok p)"
    "solve_incremental specimen_hashes facts_lattice p specimen_graph admitted_identity bs_empty (specimen_seeds 2) specimen_budgets = Some (Ok n)"
    by (rule specimen_incremental)
  have "certifies specimen_hashes facts_lattice specimen_graph admitted_identity bs_empty (bm_from_list (specimen_seeds 1)) p"
    by (rule specimen.solve_proven_certifies[OF 1(1) refl])
  from incremental_keeps_certificate[OF definite_assignment.monotone_transfer_axioms specimen_wf _ this specimen_collision_free 1(2)]
  show ?thesis using 1 by simp
qed

theorem incremental_equals_clean_witness:
  "\<exists>previous next clean. specimen_proven 1 = Some (Ok previous) \<and> specimen_proven 2 = Some (Ok clean) \<and>
     solve_incremental specimen_hashes facts_lattice previous specimen_graph admitted_identity bs_empty (specimen_seeds 2) specimen_budgets
       = Some (Ok next) \<and>
     sol_states (pf_solution next) = sol_states (pf_solution clean)"
proof -
  obtain p n c where 1: "specimen_proven 1 = Some (Ok p)" "specimen_proven 2 = Some (Ok c)"
    "solve_incremental specimen_hashes facts_lattice p specimen_graph admitted_identity bs_empty (specimen_seeds 2) specimen_budgets = Some (Ok n)"
    by (rule specimen_incremental)
  from incremental_equals_clean[OF definite_assignment.monotone_transfer_axioms specimen_wf _ 1(1) specimen_collision_free 1(3,2)]
  show ?thesis using 1 by simp
qed

theorem solve_incremental_returns_witness:
  "\<exists>previous r. specimen_proven 1 = Some (Ok previous) \<and>
     solve_incremental specimen_hashes facts_lattice previous specimen_graph admitted_identity bs_empty (specimen_seeds 2) specimen_budgets
       = Some r"
proof -
  from specimen_proven_solved(1) obtain p where p: "specimen_proven 1 = Some (Ok p)" by (rule solvedE)
  have "max_work specimen_budgets < usize_max" by (simp add: new_query_budgets_def usize_max_def)
  from solve_incremental_returns[OF specimen_wf this, of specimen_hashes facts_lattice p admitted_identity bs_empty "specimen_seeds 2"] p
  show ?thesis by blast
qed

section \<open>A transfer that lifts bottom\<close>

text \<open>A lawful transfer that maps bottom to the top, on a graph with two sources and one sink.\<close>

definition raise_flag :: "bool admitted_transfer" where
  "raise_flag = \<lparr>at_policy = \<lparr>policy_fingerprint = 7, policy_size = 1, transfer = (\<lambda>_. True)\<rparr>,
     at_fingerprint = 7, at_policy_size = 1\<rparr>"

definition fork_graph :: "(nat, nat, nat, nat) dataflow_graph" where
  "fork_graph = the (unwrap_outcome (build (\<lambda>_. 5)
     (map (\<lambda>i. \<lparr>ns_id = i, ns_location = i, ns_boundary = Internal\<rparr>) [1, 2, 3])
     (map (\<lambda>i. \<lparr>es_id = i, es_source = i, es_target = 3, es_class = Data, es_direction = Forward\<rparr>) [1, 2])))"

definition flag_hashes :: "(nat, nat, bool) proof_hashes" where
  "flag_hashes = \<lparr>ph_state = (\<lambda>b. if b then 1 else 0), ph_boundaries = (\<lambda>_. 0), ph_limits = (\<lambda>_. 0),
     ph_seeds = (\<lambda>m. length (bm_entries m)), ph_identity = (\<lambda>_. 0)\<rparr>"

text \<open>
  The condition that the transfer keeps bottom cannot be dropped from the equivalence with a
  clean solve: \<open>solve_incremental\<close> also joins the transfer of unaffected predecessors that are
  still at bottom, which a clean solve never visits. After the only seed is removed, the
  incremental states differ from the clean ones.
\<close>

theorem incremental_lifts_unreached_bottom:
  "\<exists>previous next clean.
     solve_proven flag_hashes flag_lattice fork_graph raise_flag False [(1, True)] specimen_budgets = Some (Ok previous) \<and>
     solve_incremental flag_hashes flag_lattice previous fork_graph raise_flag False [] specimen_budgets = Some (Ok next) \<and>
     solve_proven flag_hashes flag_lattice fork_graph raise_flag False [] specimen_budgets = Some (Ok clean) \<and>
     bm_get (sol_states (pf_solution next)) 3 = Some True \<and> bm_get (sol_states (pf_solution clean)) 3 = Some False"
proof -
  let ?first = "solve_proven flag_hashes flag_lattice fork_graph raise_flag False [(1, True)] specimen_budgets"
  let ?clean = "solve_proven flag_hashes flag_lattice fork_graph raise_flag False [] specimen_budgets"
  let ?next = "\<lambda>p. solve_incremental flag_hashes flag_lattice p fork_graph raise_flag False [] specimen_budgets"
  have "solved ?first" by code_simp
  then obtain p where p: "?first = Some (Ok p)" by (rule solvedE)
  have "case ?first of Some (Ok p) \<Rightarrow> (case ?next p of Some (Ok n) \<Rightarrow> bm_get (sol_states (pf_solution n)) 3 = Some True | _ \<Rightarrow> False)
      | _ \<Rightarrow> False" by code_simp
  with p obtain n where n: "?next p = Some (Ok n)" "bm_get (sol_states (pf_solution n)) 3 = Some True"
    by (auto split: option.splits outcome.splits)
  have "case ?clean of Some (Ok c) \<Rightarrow> bm_get (sol_states (pf_solution c)) 3 = Some False | _ \<Rightarrow> False" by code_simp
  then obtain c where c: "?clean = Some (Ok c)" "bm_get (sol_states (pf_solution c)) 3 = Some False"
    by (auto split: option.splits outcome.splits)
  from p n c show ?thesis by blast
qed

end
