(* ===== verification/Query_Engine.thy ===== *)
theory Query_Engine
  imports Incremental_Types
begin

text \<open>
  The incremental query engine (engine.rs, query.rs, state.rs of \<open>sim-incremental-core\<close>).
  Query callbacks are code of the engine's clients. A callback is an interaction tree over the
  calls of \<open>QueryFrame\<close>: at each call it receives the result the engine gives back and
  continues. \<open>Observe\<close> also hands over the external content that belongs to the observed key at
  its current source revision; the content of every key at every revision is the parameter
  \<open>world\<close>, and hashing a value is the parameter \<open>fp\<close>.
\<close>

section \<open>Callbacks (query.rs)\<close>

datatype ('k, 'v, 'x) query_body =
    Return 'v
  | Fail "'k incremental_error"
  | ReadQuery 'k "'k incremental_error + 'v \<Rightarrow> ('k, 'v, 'x) query_body"
  | Observe observation_kind 'k "'k incremental_error + 'x \<Rightarrow> ('k, 'v, 'x) query_body"
  | ChargeWork usize "'k incremental_error + unit \<Rightarrow> ('k, 'v, 'x) query_body"
  | ChargeOutput usize "'k incremental_error + unit \<Rightarrow> ('k, 'v, 'x) query_body"
  | Cancel "('k, 'v, 'x) query_body"
  | CancellationRequested "bool \<Rightarrow> ('k, 'v, 'x) query_body"

type_synonym ('k, 'v, 'x) query = "'k \<Rightarrow> ('k, 'v, 'x) query_body"

section \<open>State (state.rs, engine.rs)\<close>

record ('k, 'v) memo_node =
  node_revision :: revision
  node_dirty :: bool
  node_value :: "'v option"
  node_fingerprint :: "value_fingerprint option"
  node_dependencies :: "'k observation list"

definition default_node :: "('k, 'v) memo_node" where
  "default_node = \<lparr>node_revision = revision_zero, node_dirty = True, node_value = None,
     node_fingerprint = None, node_dependencies = []\<rparr>"

record 'k run_state =
  run_root :: 'k
  run_budgets :: query_budgets
  run_stack :: "'k list"
  run_work :: usize
  run_observations :: usize
  run_output :: usize
  run_cancelled :: bool

definition run_state_new :: "'k \<Rightarrow> query_budgets \<Rightarrow> 'k run_state" where
  "run_state_new root budgets = \<lparr>run_root = root, run_budgets = budgets, run_stack = [], run_work = 0,
     run_observations = 0, run_output = 0, run_cancelled = False\<rparr>"

record (overloaded) ('k, 'v, 'x) incremental_engine =
  queries :: "('k::linorder, ('k, 'v, 'x) query) bmap"
  nodes :: "('k, ('k, 'v) memo_node) bmap"
  reverse_deps :: "('k, 'k bset) bmap"
  source_revisions :: "('k, revision) bmap"
  continuations :: "(continuation_token, 'k) bmap"
  next_revision :: u64
  next_token :: u64

definition engine_new :: "('k::linorder, 'v, 'x) incremental_engine" where
  "engine_new = \<lparr>queries = bm_empty, nodes = bm_empty, reverse_deps = bm_empty,
     source_revisions = bm_empty, continuations = bm_empty, next_revision = 1, next_token = 1\<rparr>"

definition alloc_revision ::
  "('k::linorder, 'v, 'x) incremental_engine \<Rightarrow> ('err, revision \<times> ('k, 'v, 'x) incremental_engine) outcome" where
  "alloc_revision e =
     bind_outcome (checked_incr (next_revision e)) (\<lambda>n. Ok (next_revision e, e\<lparr>next_revision := n\<rparr>))"

definition alloc_continuation ::
  "'k \<Rightarrow> ('k::linorder, 'v, 'x) incremental_engine \<Rightarrow>
   ('err, continuation_token \<times> ('k, 'v, 'x) incremental_engine) outcome" where
  "alloc_continuation root e =
     bind_outcome (checked_incr (next_token e)) (\<lambda>n.
     Ok (next_token e, e\<lparr>next_token := n, continuations := bm_insert (next_token e) root (continuations e)\<rparr>))"

definition source_revision :: "('k::linorder, 'v, 'x) incremental_engine \<Rightarrow> 'k \<Rightarrow> revision" where
  "source_revision e k = (case bm_get (source_revisions e) k of None \<Rightarrow> revision_zero | Some r \<Rightarrow> r)"

definition dirty_keys :: "('k::linorder, 'v, 'x) incremental_engine \<Rightarrow> 'k list" where
  "dirty_keys e = map fst (filter (\<lambda>(_, node). node_dirty node) (bm_entries (nodes e)))"

definition memo_revision :: "('k::linorder, 'v, 'x) incremental_engine \<Rightarrow> 'k \<Rightarrow> revision option" where
  "memo_revision e k = map_option node_revision (bm_get (nodes e) k)"

definition memo_fingerprint :: "('k::linorder, 'v, 'x) incremental_engine \<Rightarrow> 'k \<Rightarrow> value_fingerprint option" where
  "memo_fingerprint e k = (case bm_get (nodes e) k of None \<Rightarrow> None | Some n \<Rightarrow> node_fingerprint n)"

section \<open>Dirty marking and graph surgery (engine.rs)\<close>

definition dependents :: "('k::linorder, 'k bset) bmap \<Rightarrow> 'k \<Rightarrow> 'k list" where
  "dependents rd k = (case bm_get rd k of None \<Rightarrow> [] | Some s \<Rightarrow> bs_elems s)"

definition mark_dirty :: "'k \<Rightarrow> ('k::linorder, ('k, 'v) memo_node) bmap \<Rightarrow> ('k, ('k, 'v) memo_node) bmap" where
  "mark_dirty k ns = (case bm_get ns k of None \<Rightarrow> ns | Some n \<Rightarrow> bm_insert k (n\<lparr>node_dirty := True\<rparr>) ns)"

text \<open>Every key the reverse index can add to the worklist.\<close>

definition all_dependents :: "('k::linorder, 'k bset) bmap \<Rightarrow> 'k set" where
  "all_dependents rd = (\<Union>s\<in>set (bm_values rd). bs_set s)"

lemma finite_all_dependents [simp]: "finite (all_dependents rd)"
  by (simp add: all_dependents_def)

lemma dependents_subset: "set (dependents rd k) \<subseteq> all_dependents rd"
proof (cases "bm_get rd k")
  case (Some s)
  then have "s \<in> set (bm_values rd)" by (auto simp: in_bm_values_iff)
  with Some show ?thesis by (auto simp: dependents_def all_dependents_def)
qed (simp add: dependents_def)

function cascade_loop ::
  "('k::linorder, 'k bset) bmap \<Rightarrow> 'k bset \<Rightarrow> 'k bset \<Rightarrow> ('k, ('k, 'v) memo_node) bmap \<Rightarrow>
   ('k, ('k, 'v) memo_node) bmap" where
  "cascade_loop rd pending seen ns =
     (case bs_pop_first pending of
        None \<Rightarrow> ns
      | Some (next, rest) \<Rightarrow>
          if bs_contains next seen then cascade_loop rd rest seen ns
          else cascade_loop rd (bs_extend (dependents rd next) rest) (bs_insert next seen) (mark_dirty next ns))"
  by pat_completeness auto
termination
proof (relation "measures [\<lambda>(rd, pending, seen, ns). card ((bs_set pending \<union> all_dependents rd) - bs_set seen),
      \<lambda>(rd, pending, seen, ns). card (bs_set pending)]", goal_cases)
  case (2 rd pending seen ns x n rest)
  then have r: "bs_pop_first pending = Some (n, rest)" by simp
  from bs_pop_first_Some[OF r] have "bs_set rest \<subseteq> bs_set pending" by auto
  then have "card ((bs_set rest \<union> all_dependents rd) - bs_set seen)
      \<le> card ((bs_set pending \<union> all_dependents rd) - bs_set seen)"
    by (intro card_mono) auto
  with card_bs_pop_first[OF r] show ?case by auto
next
  case (3 rd pending seen ns x n rest)
  then have r: "bs_pop_first pending = Some (n, rest)" and new: "n \<notin> bs_set seen" by simp_all
  from bs_pop_first_Some[OF r] have p: "n \<in> bs_set pending" "bs_set rest \<subseteq> bs_set pending" by auto
  have "(bs_set (bs_extend (dependents rd n) rest) \<union> all_dependents rd) - bs_set (bs_insert n seen)
      \<subset> (bs_set pending \<union> all_dependents rd) - bs_set seen"
    using p new dependents_subset[of rd n] by auto
  then have "card ((bs_set (bs_extend (dependents rd n) rest) \<union> all_dependents rd) - bs_set (bs_insert n seen))
      < card ((bs_set pending \<union> all_dependents rd) - bs_set seen)"
    by (intro psubset_card_mono) auto
  then show ?case by simp
qed simp

declare cascade_loop.simps [simp del]

definition mark_dirty_cascade :: "'k \<Rightarrow> ('k::linorder, 'v, 'x) incremental_engine \<Rightarrow> ('k, 'v, 'x) incremental_engine" where
  "mark_dirty_cascade k e = e\<lparr>nodes := cascade_loop (reverse_deps e) (bs_insert k bs_empty) bs_empty (nodes e)\<rparr>"

text \<open>\<open>if let Some(dependents) = self.reverse.get_mut(o.key()) { dependents.remove(&key) }\<close>.\<close>

definition drop_dependent :: "'k \<Rightarrow> 'k observation \<Rightarrow> ('k::linorder, 'k bset) bmap \<Rightarrow> ('k, 'k bset) bmap" where
  "drop_dependent k obs rd =
     (case bm_get rd (obs_key obs) of None \<Rightarrow> rd | Some s \<Rightarrow> bm_insert (obs_key obs) (bs_remove k s) rd)"

text \<open>\<open>self.reverse.entry(o.key()).or_default().insert(key)\<close>.\<close>

definition add_dependent :: "'k \<Rightarrow> 'k observation \<Rightarrow> ('k::linorder, 'k bset) bmap \<Rightarrow> ('k, 'k bset) bmap" where
  "add_dependent k obs rd =
     bm_insert (obs_key obs) (bs_insert k (case bm_get rd (obs_key obs) of None \<Rightarrow> bs_empty | Some s \<Rightarrow> s)) rd"

definition detach_node :: "'k \<Rightarrow> ('k::linorder, 'v, 'x) incremental_engine \<Rightarrow> ('k, 'v, 'x) incremental_engine" where
  "detach_node k e =
     (case bm_get (nodes e) k of
        None \<Rightarrow> e
      | Some node \<Rightarrow>
          e\<lparr>nodes := bm_remove k (nodes e),
            reverse_deps := bm_remove k (fold (drop_dependent k) (node_dependencies node) (reverse_deps e))\<rparr>)"

definition register_query ::
  "'k \<Rightarrow> ('k, 'v, 'x) query \<Rightarrow> ('k::linorder, 'v, 'x) incremental_engine \<Rightarrow> ('k, 'v, 'x) incremental_engine" where
  "register_query k q e =
     (let node = (case bm_get (nodes e) k of None \<Rightarrow> default_node | Some n \<Rightarrow> n) in
      mark_dirty_cascade k
        (e\<lparr>queries := bm_insert k q (queries e),
           nodes := bm_insert k (node\<lparr>node_dirty := True\<rparr>) (nodes e)\<rparr>))"

definition remove_query ::
  "'k \<Rightarrow> ('k::linorder, 'v, 'x) incremental_engine \<Rightarrow> bool \<times> ('k, 'v, 'x) incremental_engine" where
  "remove_query k e =
     (if bm_contains_key k (queries e)
      then (True, detach_node k (mark_dirty_cascade k (e\<lparr>queries := bm_remove k (queries e)\<rparr>)))
      else (False, e))"

definition invalidate ::
  "'k \<Rightarrow> ('k::linorder, 'v, 'x) incremental_engine \<Rightarrow> ('err, revision \<times> ('k, 'v, 'x) incremental_engine) outcome" where
  "invalidate k e =
     bind_outcome (alloc_revision e) (\<lambda>(r, e').
     Ok (r, mark_dirty_cascade k (e'\<lparr>source_revisions := bm_insert k r (source_revisions e')\<rparr>)))"

section \<open>Computations of a run\<close>

text \<open>
  A computation threads the engine and the run state through, also when it ends in an error.
  \<open>None\<close> is the value of a computation that ran out of fuel.
\<close>

type_synonym ('k, 'v, 'x, 'a) run_result =
  "(('k incremental_error, 'a) outcome \<times> ('k, 'v, 'x) incremental_engine \<times> 'k run_state) option"

type_synonym ('k, 'v, 'x, 'a) comp =
  "('k, 'v, 'x) incremental_engine \<Rightarrow> 'k run_state \<Rightarrow> ('k, 'v, 'x, 'a) run_result"

definition ret :: "'a \<Rightarrow> ('k::linorder, 'v, 'x, 'a) comp" where
  "ret a e r = Some (Ok a, e, r)"

definition throw :: "'k incremental_error \<Rightarrow> ('k::linorder, 'v, 'x, 'a) comp" where
  "throw err e r = Some (Err err, e, r)"

definition andThen ::
  "('k::linorder, 'v, 'x, 'a) comp \<Rightarrow> ('a \<Rightarrow> ('k, 'v, 'x, 'b) comp) \<Rightarrow> ('k, 'v, 'x, 'b) comp" where
  "andThen m f e r =
     (case m e r of
        None \<Rightarrow> None
      | Some (Ok a, e', r') \<Rightarrow> f a e' r'
      | Some (Err err, e', r') \<Rightarrow> Some (Err err, e', r')
      | Some (Panic p, e', r') \<Rightarrow> Some (Panic p, e', r'))"

definition check_cancelled :: "('k::linorder, 'v, 'x, unit) comp" where
  "check_cancelled e r = (if run_cancelled r then throw Cancelled e r else ret () e r)"

definition budget_error :: "budget_kind \<Rightarrow> usize \<Rightarrow> usize \<Rightarrow> ('k::linorder, 'v, 'x, 'a) comp" where
  "budget_error kind limit consumed e r =
     (case alloc_continuation (run_root r) e of
        Ok (token, e') \<Rightarrow> throw (BudgetExceeded kind limit consumed (Some token)) e' r
      | Err err \<Rightarrow> throw err e r
      | Panic p \<Rightarrow> Some (Panic p, e, r))"

definition query_charge_work :: "usize \<Rightarrow> ('k::linorder, 'v, 'x, unit) comp" where
  "query_charge_work units = andThen check_cancelled (\<lambda>_ e r.
     let consumed = saturating_add (run_work r) units; limit = max_work (run_budgets r) in
     if consumed > limit then budget_error Work limit consumed e r
     else if run_work r + units > usize_max then Some (Panic ''attempt to add with overflow'', e, r)
     else ret () e (r\<lparr>run_work := run_work r + units\<rparr>))"

definition query_charge_output :: "usize \<Rightarrow> ('k::linorder, 'v, 'x, unit) comp" where
  "query_charge_output units = andThen check_cancelled (\<lambda>_ e r.
     let consumed = saturating_add (run_output r) units; limit = max_output (run_budgets r) in
     if consumed > limit then budget_error Output limit consumed e r
     else if run_output r + units > usize_max then Some (Panic ''attempt to add with overflow'', e, r)
     else ret () e (r\<lparr>run_output := run_output r + units\<rparr>))"

definition query_charge_depth :: "('k::linorder, 'v, 'x, unit) comp" where
  "query_charge_depth e r =
     (let consumed = saturating_add (length (run_stack r)) 1; limit = max_depth (run_budgets r) in
      if consumed > limit then budget_error Depth limit consumed e r else ret () e r)"

definition query_charge_observation :: "('k::linorder, 'v, 'x, unit) comp" where
  "query_charge_observation e r =
     (let consumed = saturating_add (run_observations r) 1; limit = max_observations (run_budgets r) in
      if consumed > limit then budget_error Observations limit consumed e r
      else if run_observations r + 1 > usize_max then Some (Panic ''attempt to add with overflow'', e, r)
      else ret () e (r\<lparr>run_observations := run_observations r + 1\<rparr>))"

definition memo_observation ::
  "'k \<Rightarrow> ('k::linorder, 'v, 'x) incremental_engine \<Rightarrow> ('k incremental_error, 'k observation) outcome" where
  "memo_observation k e =
     (case bm_get (nodes e) k of
        None \<Rightarrow> Err (UnknownQuery k)
      | Some node \<Rightarrow>
          (case node_fingerprint node of
             None \<Rightarrow> Err (UnknownQuery k)
           | Some f \<Rightarrow> Ok (observation_read k (node_revision node) f)))"

definition observation_is_current :: "('k::linorder, 'v, 'x) incremental_engine \<Rightarrow> 'k observation \<Rightarrow> bool" where
  "observation_is_current e obs =
     (case obs_kind obs of
        Read \<Rightarrow>
          (case bm_get (nodes e) (obs_key obs) of
             None \<Rightarrow> False
           | Some node \<Rightarrow> \<not> node_dirty node \<and> node_revision node = obs_revision obs \<and>
               node_fingerprint node = obs_fingerprint obs)
      | _ \<Rightarrow> source_revision e (obs_key obs) = obs_revision obs)"

definition commit_value ::
  "('v \<Rightarrow> value_fingerprint) \<Rightarrow> 'k \<Rightarrow> 'v \<Rightarrow> 'k observation list \<Rightarrow> ('k::linorder, 'v, 'x) incremental_engine \<Rightarrow>
   ('err, ('k, 'v, 'x) incremental_engine) outcome" where
  "commit_value fp k v deps e =
     (let old = bm_get (nodes e) k;
          old_deps = (case old of None \<Rightarrow> [] | Some n \<Rightarrow> node_dependencies n);
          rd = fold (drop_dependent k) old_deps (reverse_deps e);
          same_value = (case old of None \<Rightarrow> False | Some n \<Rightarrow> node_value n = Some v)
      in
      bind_outcome
        (case old of
           Some n \<Rightarrow> if same_value then Ok (node_revision n, e) else alloc_revision e
         | None \<Rightarrow> alloc_revision e) (\<lambda>(rv, e').
      Ok (e'\<lparr>reverse_deps := fold (add_dependent k) deps rd,
             nodes := bm_insert k \<lparr>node_revision = rv, node_dirty = False, node_value = Some v,
               node_fingerprint = Some (fp v), node_dependencies = deps\<rparr> (nodes e')\<rparr>)))"

section \<open>Evaluation\<close>

text \<open>The frame calls of a callback; \<open>ev\<close> evaluates another query.\<close>

definition frame_read ::
  "('k \<Rightarrow> ('k::linorder, 'v, 'x, 'v) comp) \<Rightarrow> 'k \<Rightarrow> 'k observation list \<Rightarrow> ('k, 'v, 'x, 'v \<times> 'k observation list) comp" where
  "frame_read ev k obs =
     andThen (ev k) (\<lambda>v e r.
       case memo_observation k e of
         Err err \<Rightarrow> throw err e r
       | Panic p \<Rightarrow> Some (Panic p, e, r)
       | Ok new_obs \<Rightarrow> andThen query_charge_observation (\<lambda>_. ret (v, obs @ [new_obs])) e r)"

definition frame_observe ::
  "observation_kind \<Rightarrow> 'k \<Rightarrow> 'k observation list \<Rightarrow> ('k::linorder, 'v, 'x, 'k observation list) comp" where
  "frame_observe kind k obs e r =
     andThen query_charge_observation
       (\<lambda>_. ret (obs @ [observation_new k kind (source_revision e k) None])) e r"

primrec run_body ::
  "('k::linorder \<Rightarrow> revision \<Rightarrow> 'x) \<Rightarrow> ('k \<Rightarrow> ('k, 'v, 'x, 'v) comp) \<Rightarrow> ('k, 'v, 'x) query_body \<Rightarrow>
   'k observation list \<Rightarrow> ('k, 'v, 'x, 'v \<times> 'k observation list) comp" where
  "run_body world ev (Return v) obs = ret (v, obs)"
| "run_body world ev (Fail err) obs = throw err"
| "run_body world ev (ReadQuery k cont) obs = (\<lambda>e r.
     case frame_read ev k obs e r of
       None \<Rightarrow> None
     | Some (Ok (v, obs'), e', r') \<Rightarrow> run_body world ev (cont (Inr v)) obs' e' r'
     | Some (Err err, e', r') \<Rightarrow> run_body world ev (cont (Inl err)) obs e' r'
     | Some (Panic p, e', r') \<Rightarrow> Some (Panic p, e', r'))"
| "run_body world ev (Observe kind k cont) obs = (\<lambda>e r.
     case frame_observe kind k obs e r of
       None \<Rightarrow> None
     | Some (Ok obs', e', r') \<Rightarrow> run_body world ev (cont (Inr (world k (source_revision e' k)))) obs' e' r'
     | Some (Err err, e', r') \<Rightarrow> run_body world ev (cont (Inl err)) obs e' r'
     | Some (Panic p, e', r') \<Rightarrow> Some (Panic p, e', r'))"
| "run_body world ev (ChargeWork units cont) obs = (\<lambda>e r.
     case query_charge_work units e r of
       None \<Rightarrow> None
     | Some (Ok u, e', r') \<Rightarrow> run_body world ev (cont (Inr u)) obs e' r'
     | Some (Err err, e', r') \<Rightarrow> run_body world ev (cont (Inl err)) obs e' r'
     | Some (Panic p, e', r') \<Rightarrow> Some (Panic p, e', r'))"
| "run_body world ev (ChargeOutput units cont) obs = (\<lambda>e r.
     case query_charge_output units e r of
       None \<Rightarrow> None
     | Some (Ok u, e', r') \<Rightarrow> run_body world ev (cont (Inr u)) obs e' r'
     | Some (Err err, e', r') \<Rightarrow> run_body world ev (cont (Inl err)) obs e' r'
     | Some (Panic p, e', r') \<Rightarrow> Some (Panic p, e', r'))"
| "run_body world ev (Cancel body) obs = (\<lambda>e r. run_body world ev body obs e (r\<lparr>run_cancelled := True\<rparr>))"
| "run_body world ev (CancellationRequested cont) obs = (\<lambda>e r.
     run_body world ev (cont (run_cancelled r)) obs e r)"

text \<open>The refresh loop of \<open>try_reuse_memo\<close>: evaluate every read dependency.\<close>

primrec refresh_reads ::
  "('k::linorder \<Rightarrow> ('k, 'v, 'x, 'v) comp) \<Rightarrow> 'k observation list \<Rightarrow> ('k, 'v, 'x, unit) comp" where
  "refresh_reads ev [] = ret ()"
| "refresh_reads ev (obs # rest) =
     (if obs_kind obs = Read then andThen (ev (obs_key obs)) (\<lambda>_. refresh_reads ev rest)
      else refresh_reads ev rest)"

definition set_clean :: "'k \<Rightarrow> ('k::linorder, 'v, 'x) incremental_engine \<Rightarrow> ('k, 'v, 'x) incremental_engine" where
  "set_clean k e =
     (case bm_get (nodes e) k of
        None \<Rightarrow> e
      | Some n \<Rightarrow> e\<lparr>nodes := bm_insert k (n\<lparr>node_dirty := False\<rparr>) (nodes e)\<rparr>)"

definition try_reuse_memo ::
  "('k::linorder \<Rightarrow> ('k, 'v, 'x, 'v) comp) \<Rightarrow> 'k \<Rightarrow> ('k, 'v, 'x, bool) comp" where
  "try_reuse_memo ev k e r =
     (case bm_get (nodes e) k of
        None \<Rightarrow> ret False e r
      | Some node \<Rightarrow>
          if node_value node = None then ret False e r
          else
            (let deps = node_dependencies node;
                 needs_refresh = (node_dirty node \<or> \<not> list_all (observation_is_current e) deps)
             in
             andThen (if needs_refresh then refresh_reads ev deps else ret ()) (\<lambda>_ e' r'.
               if list_all (observation_is_current e') deps
               then ret True (set_clean k e') r'
               else ret False e' r') e r))"

definition memo_value :: "'k \<Rightarrow> ('k::linorder, 'v, 'x, 'v) comp" where
  "memo_value k e r =
     (case bm_get (nodes e) k of
        None \<Rightarrow> throw (UnknownQuery k) e r
      | Some node \<Rightarrow> (case node_value node of None \<Rightarrow> throw (UnknownQuery k) e r | Some v \<Rightarrow> ret v e r))"

text \<open>The recomputation of \<open>evaluate_pushed\<close>, from its end: charge the output and commit, run the callback, charge the work.\<close>

definition commit_output ::
  "('v \<Rightarrow> value_fingerprint) \<Rightarrow> 'k \<Rightarrow> 'v \<Rightarrow> 'k observation list \<Rightarrow> ('k::linorder, 'v, 'x, 'v) comp" where
  "commit_output fp k v obs =
     andThen (query_charge_output 1) (\<lambda>_ e r.
       case commit_value fp k v obs e of
         Ok e' \<Rightarrow> memo_value k e' r
       | Err err \<Rightarrow> throw err e r
       | Panic p \<Rightarrow> Some (Panic p, e, r))"

definition run_query ::
  "('v \<Rightarrow> value_fingerprint) \<Rightarrow> ('k \<Rightarrow> revision \<Rightarrow> 'x) \<Rightarrow> ('k::linorder \<Rightarrow> ('k, 'v, 'x, 'v) comp) \<Rightarrow> 'k \<Rightarrow>
   ('k, 'v, 'x, 'v) comp" where
  "run_query fp world ev k e r =
     (case bm_get (queries e) k of
        None \<Rightarrow> throw (UnknownQuery k) e r
      | Some q \<Rightarrow> andThen (run_body world ev (q k) []) (\<lambda>vo. commit_output fp k (fst vo) (snd vo)) e r)"

definition recompute ::
  "('v \<Rightarrow> value_fingerprint) \<Rightarrow> ('k \<Rightarrow> revision \<Rightarrow> 'x) \<Rightarrow> ('k::linorder \<Rightarrow> ('k, 'v, 'x, 'v) comp) \<Rightarrow> 'k \<Rightarrow>
   ('k, 'v, 'x, 'v) comp" where
  "recompute fp world ev k = andThen (query_charge_work 1) (\<lambda>_. run_query fp world ev k)"

definition evaluate_pushed ::
  "('v \<Rightarrow> value_fingerprint) \<Rightarrow> ('k \<Rightarrow> revision \<Rightarrow> 'x) \<Rightarrow> ('k::linorder \<Rightarrow> ('k, 'v, 'x, 'v) comp) \<Rightarrow> 'k \<Rightarrow>
   ('k, 'v, 'x, 'v) comp" where
  "evaluate_pushed fp world ev k =
     andThen (try_reuse_memo ev k) (\<lambda>reused. if reused then memo_value k else recompute fp world ev k)"

definition cycle_path :: "'k list \<Rightarrow> 'k \<Rightarrow> 'k list" where
  "cycle_path stack k = dropWhile (\<lambda>x. x \<noteq> k) stack @ [k]"

definition evaluate_step ::
  "('v \<Rightarrow> value_fingerprint) \<Rightarrow> ('k \<Rightarrow> revision \<Rightarrow> 'x) \<Rightarrow> ('k::linorder \<Rightarrow> ('k, 'v, 'x, 'v) comp) \<Rightarrow> 'k \<Rightarrow>
   ('k, 'v, 'x, 'v) comp" where
  "evaluate_step fp world ev k =
     andThen check_cancelled (\<lambda>_ e r.
       if \<not> bm_contains_key k (queries e) then throw (UnknownQuery k) e r
       else if k \<in> set (run_stack r) then throw (Cycle (cycle_path (run_stack r) k)) e r
       else
         andThen query_charge_depth (\<lambda>_ e r.
           case evaluate_pushed fp world ev k e (r\<lparr>run_stack := run_stack r @ [k]\<rparr>) of
             None \<Rightarrow> None
           | Some (res, e', r') \<Rightarrow> Some (res, e', r'\<lparr>run_stack := butlast (run_stack r')\<rparr>)) e r)"

text \<open>
  The recursion through callbacks and refreshes is bounded by the number of registered queries:
  every nested call has one more of them on the stack.
\<close>

primrec evaluate ::
  "('v \<Rightarrow> value_fingerprint) \<Rightarrow> ('k::linorder \<Rightarrow> revision \<Rightarrow> 'x) \<Rightarrow> nat \<Rightarrow> 'k \<Rightarrow> ('k, 'v, 'x, 'v) comp" where
  "evaluate fp world 0 k = (\<lambda>e r. None)"
| "evaluate fp world (Suc fuel) k = evaluate_step fp world (evaluate fp world fuel) k"

definition evaluation_fuel :: "('k::linorder, 'v, 'x) incremental_engine \<Rightarrow> nat" where
  "evaluation_fuel e = Suc (bm_len (queries e))"

definition verify_with_budgets ::
  "('v \<Rightarrow> value_fingerprint) \<Rightarrow> ('k::linorder \<Rightarrow> revision \<Rightarrow> 'x) \<Rightarrow> 'k \<Rightarrow> query_budgets \<Rightarrow>
   ('k, 'v, 'x) incremental_engine \<Rightarrow> (('k incremental_error, 'v) outcome \<times> ('k, 'v, 'x) incremental_engine) option" where
  "verify_with_budgets fp world k budgets e =
     map_option (\<lambda>(res, e', r'). (res, e')) (evaluate fp world (evaluation_fuel e) k e (run_state_new k budgets))"

definition verify ::
  "('v \<Rightarrow> value_fingerprint) \<Rightarrow> ('k::linorder \<Rightarrow> revision \<Rightarrow> 'x) \<Rightarrow> 'k \<Rightarrow>
   ('k, 'v, 'x) incremental_engine \<Rightarrow> (('k incremental_error, 'v) outcome \<times> ('k, 'v, 'x) incremental_engine) option" where
  "verify fp world k e = verify_with_budgets fp world k unlimited_query_budgets e"

definition engine_resume ::
  "('v \<Rightarrow> value_fingerprint) \<Rightarrow> ('k::linorder \<Rightarrow> revision \<Rightarrow> 'x) \<Rightarrow> continuation_token \<Rightarrow> query_budgets \<Rightarrow>
   ('k, 'v, 'x) incremental_engine \<Rightarrow> (('k incremental_error, 'v) outcome \<times> ('k, 'v, 'x) incremental_engine) option" where
  "engine_resume fp world token budgets e =
     (case bm_get (continuations e) token of
        None \<Rightarrow> Some (Err (UnknownContinuation token), e)
      | Some root \<Rightarrow>
          map_option (\<lambda>(res, e').
            case res of
              Ok v \<Rightarrow> (Ok v, e'\<lparr>continuations := bm_remove token (continuations e')\<rparr>)
            | _ \<Rightarrow> (res, e'))
          (verify_with_budgets fp world root budgets e))"

primrec verify_many_loop ::
  "('v \<Rightarrow> value_fingerprint) \<Rightarrow> ('k::linorder \<Rightarrow> revision \<Rightarrow> 'x) \<Rightarrow> query_budgets \<Rightarrow> 'k list \<Rightarrow> ('k \<times> 'v) list \<Rightarrow>
   ('k, 'v, 'x) incremental_engine \<Rightarrow>
   (('k incremental_error, ('k \<times> 'v) list) outcome \<times> ('k, 'v, 'x) incremental_engine) option" where
  "verify_many_loop fp world budgets [] acc e = Some (Ok acc, e)"
| "verify_many_loop fp world budgets (k # ks) acc e =
     (case verify_with_budgets fp world k budgets e of
        None \<Rightarrow> None
      | Some (Ok v, e') \<Rightarrow> verify_many_loop fp world budgets ks (acc @ [(k, v)]) e'
      | Some (Err err, e') \<Rightarrow> Some (Err err, e')
      | Some (Panic p, e') \<Rightarrow> Some (Panic p, e'))"

definition verify_many_with_budgets ::
  "('v \<Rightarrow> value_fingerprint) \<Rightarrow> ('k::linorder \<Rightarrow> revision \<Rightarrow> 'x) \<Rightarrow> 'k list \<Rightarrow> query_budgets \<Rightarrow>
   ('k, 'v, 'x) incremental_engine \<Rightarrow>
   (('k incremental_error, ('k \<times> 'v) list) outcome \<times> ('k, 'v, 'x) incremental_engine) option" where
  "verify_many_with_budgets fp world ks budgets e =
     verify_many_loop fp world budgets (bs_elems (bs_from_list ks)) [] e"

end
