(* ===== verification/Query_Soundness.thy ===== *)
theory Query_Soundness
  imports Query_Engine
begin

text \<open>
  Soundness of memo reuse in the query engine: whatever the engine returns for a query is what
  running the registered callbacks from scratch on the current external contents returns. The
  proof rests on an invariant of the engine (clean memos are hereditarily current, the reverse
  index is complete, every memo replays) and on a contract for the evaluator, stated as a locale
  that the fuelled evaluation interprets.
\<close>

section \<open>Reference semantics\<close>

inductive denotes ::
  "('k \<Rightarrow> 'x) \<Rightarrow> ('k::linorder, ('k, 'v, 'x) query) bmap \<Rightarrow> 'k \<Rightarrow> 'v \<Rightarrow> bool"
  and body_denotes ::
  "('k \<Rightarrow> 'x) \<Rightarrow> ('k::linorder, ('k, 'v, 'x) query) bmap \<Rightarrow> ('k, 'v, 'x) query_body \<Rightarrow> 'v \<Rightarrow> bool"
  for ext Q where
  denotes_query: "bm_get Q k = Some q \<Longrightarrow> body_denotes ext Q (q k) v \<Longrightarrow> denotes ext Q k v"
| denotes_return: "body_denotes ext Q (Return v) v"
| denotes_read: "denotes ext Q k u \<Longrightarrow> body_denotes ext Q (c (Inr u)) v \<Longrightarrow> body_denotes ext Q (ReadQuery k c) v"
| denotes_observe: "body_denotes ext Q (c (Inr (ext k))) v \<Longrightarrow> body_denotes ext Q (Observe kind k c) v"
| denotes_work: "body_denotes ext Q (c (Inr ())) v \<Longrightarrow> body_denotes ext Q (ChargeWork units c) v"
| denotes_output: "body_denotes ext Q (c (Inr ())) v \<Longrightarrow> body_denotes ext Q (ChargeOutput units c) v"
| denotes_poll: "body_denotes ext Q (c False) v \<Longrightarrow> body_denotes ext Q (CancellationRequested c) v"

text \<open>The external contents the engine's clients see in a state.\<close>

definition contents :: "('k \<Rightarrow> revision \<Rightarrow> 'x) \<Rightarrow> ('k::linorder, 'v, 'x) incremental_engine \<Rightarrow> 'k \<Rightarrow> 'x" where
  "contents world e k = world k (source_revision e k)"

text \<open>
  The discipline the engine expects of callbacks: they pass every error of a frame call on (the
  \<open>?\<close> of the callback), and read queries with \<open>read\<close>, not by observing the kind \<open>Read\<close>.
\<close>

primrec disciplined :: "('k, 'v, 'x) query_body \<Rightarrow> bool" where
  "disciplined (Return v) = True"
| "disciplined (Fail err) = True"
| "disciplined (ReadQuery k c) = ((\<forall>err. c (Inl err) = Fail err) \<and> (\<forall>v. disciplined (c (Inr v))))"
| "disciplined (Observe kind k c) =
     (kind \<noteq> Read \<and> (\<forall>err. c (Inl err) = Fail err) \<and> (\<forall>x. disciplined (c (Inr x))))"
| "disciplined (ChargeWork units c) = ((\<forall>err. c (Inl err) = Fail err) \<and> disciplined (c (Inr ())))"
| "disciplined (ChargeOutput units c) = ((\<forall>err. c (Inl err) = Fail err) \<and> disciplined (c (Inr ())))"
| "disciplined (Cancel body) = disciplined body"
| "disciplined (CancellationRequested c) = (\<forall>b. disciplined (c b))"

section \<open>The engine invariant\<close>

text \<open>
  A history records which value each key had at each revision. A callback follows a list of
  observations when it returns \<open>v\<close> on the historical values of the reads and the external
  contents of the observed revisions.
\<close>

type_synonym ('k, 'v) history = "'k \<Rightarrow> revision \<Rightarrow> 'v option"

primrec follows ::
  "('k, 'v) history \<Rightarrow> ('k \<Rightarrow> revision \<Rightarrow> 'x) \<Rightarrow> ('k, 'v, 'x) query_body \<Rightarrow> 'k observation list \<Rightarrow> 'v \<Rightarrow> bool" where
  "follows h w (Return v) deps u = (deps = [] \<and> u = v)"
| "follows h w (Fail err) deps u = False"
| "follows h w (ReadQuery k c) deps u =
     (case deps of [] \<Rightarrow> False
      | ob # rest \<Rightarrow> obs_key ob = k \<and> obs_kind ob = Read \<and>
          (case h k (obs_revision ob) of None \<Rightarrow> False | Some x \<Rightarrow> follows h w (c (Inr x)) rest u))"
| "follows h w (Observe kind k c) deps u =
     (case deps of [] \<Rightarrow> False
      | ob # rest \<Rightarrow> obs_key ob = k \<and> obs_kind ob = kind \<and> kind \<noteq> Read \<and>
          follows h w (c (Inr (w k (obs_revision ob)))) rest u)"
| "follows h w (ChargeWork units c) deps u = follows h w (c (Inr ())) deps u"
| "follows h w (ChargeOutput units c) deps u = follows h w (c (Inr ())) deps u"
| "follows h w (Cancel body) deps u = False"
| "follows h w (CancellationRequested c) deps u = follows h w (c False) deps u"

definition extends_history :: "('k, 'v) history \<Rightarrow> ('k, 'v) history \<Rightarrow> bool" where
  "extends_history h h' \<longleftrightarrow> (\<forall>k r v. h k r = Some v \<longrightarrow> h' k r = Some v)"

lemma extends_refl [simp]: "extends_history h h"
  by (simp add: extends_history_def)

lemma extends_trans: "extends_history h h' \<Longrightarrow> extends_history h' h'' \<Longrightarrow> extends_history h h''"
  by (simp add: extends_history_def)

lemma follows_extends: "extends_history h h' \<Longrightarrow> follows h w body deps u \<Longrightarrow> follows h' w body deps u"
proof (induction body arbitrary: deps)
  case (ReadQuery k c)
  from ReadQuery.prems(2) obtain ob rest x where d: "deps = ob # rest" "obs_key ob = k" "obs_kind ob = Read"
    "h k (obs_revision ob) = Some x" "follows h w (c (Inr x)) rest u"
    by (auto split: list.splits option.splits)
  from d(4) ReadQuery.prems(1) have "h' k (obs_revision ob) = Some x" by (simp add: extends_history_def)
  moreover have "follows h' w (c (Inr x)) rest u" by (rule ReadQuery.IH[OF _ ReadQuery.prems(1) d(5)]) simp
  ultimately show ?case using d by simp
qed (auto split: list.splits)

abbreviation clean_at :: "('k::linorder, 'v, 'x) incremental_engine \<Rightarrow> 'k \<Rightarrow> ('k, 'v) memo_node \<Rightarrow> bool" where
  "clean_at e k n \<equiv> bm_get (nodes e) k = Some n \<and> \<not> node_dirty n"

definition memo_ok ::
  "('v \<Rightarrow> value_fingerprint) \<Rightarrow> ('k \<Rightarrow> revision \<Rightarrow> 'x) \<Rightarrow> ('k, 'v) history \<Rightarrow> ('k::linorder, 'v, 'x) incremental_engine \<Rightarrow>
   'k \<Rightarrow> ('k, 'v) memo_node \<Rightarrow> bool" where
  "memo_ok fp w h e k n \<longleftrightarrow>
     (case node_value n of
        None \<Rightarrow> node_dirty n \<and> node_dependencies n = []
      | Some v \<Rightarrow> h k (node_revision n) = Some v \<and> node_fingerprint n = Some (fp v) \<and>
          (\<exists>q. bm_get (queries e) k = Some q \<and> follows h w (q k) (node_dependencies n) v)) \<and>
     (\<forall>ob\<in>set (node_dependencies n). k \<in> set (dependents (reverse_deps e) (obs_key ob))) \<and>
     (\<not> node_dirty n \<longrightarrow> (\<forall>ob\<in>set (node_dependencies n). observation_is_current e ob))"

definition ranked :: "('k::linorder, 'v, 'x) incremental_engine \<Rightarrow> ('k \<Rightarrow> nat) \<Rightarrow> bool" where
  "ranked e rank \<longleftrightarrow> (\<forall>k n. clean_at e k n \<longrightarrow>
     (\<forall>ob\<in>set (node_dependencies n). obs_kind ob = Read \<longrightarrow> rank (obs_key ob) < rank k))"

definition engine_inv ::
  "('v \<Rightarrow> value_fingerprint) \<Rightarrow> ('k \<Rightarrow> revision \<Rightarrow> 'x) \<Rightarrow> ('k, 'v) history \<Rightarrow> ('k::linorder, 'v, 'x) incremental_engine \<Rightarrow> bool" where
  "engine_inv fp w h e \<longleftrightarrow>
     (\<forall>k n. bm_get (nodes e) k = Some n \<longrightarrow> memo_ok fp w h e k n) \<and>
     (\<forall>k r v. h k r = Some v \<longrightarrow> r < next_revision e) \<and>
     (\<exists>rank. ranked e rank) \<and>
     (\<forall>k q. bm_get (queries e) k = Some q \<longrightarrow> disciplined (q k))"

text \<open>A clean memo means what its query denotes.\<close>

lemma follows_denotes:
  assumes "follows h w body deps v" "\<And>ob. ob \<in> set deps \<Longrightarrow> observation_is_current e ob"
    and "\<And>ob x. ob \<in> set deps \<Longrightarrow> obs_kind ob = Read \<Longrightarrow> h (obs_key ob) (obs_revision ob) = Some x \<Longrightarrow>
      denotes (contents w e) Q (obs_key ob) x"
  shows "body_denotes (contents w e) Q body v"
  using assms
proof (induction body arbitrary: deps)
  case (ReadQuery k c)
  from ReadQuery.prems(1) obtain ob rest x where d: "deps = ob # rest" "obs_key ob = k" "obs_kind ob = Read"
    "h k (obs_revision ob) = Some x" "follows h w (c (Inr x)) rest v"
    by (auto split: list.splits option.splits)
  have "denotes (contents w e) Q k x" using ReadQuery.prems(3)[of ob x] d by simp
  moreover have "body_denotes (contents w e) Q (c (Inr x)) v"
    by (rule ReadQuery.IH[OF _ d(5)]) (use ReadQuery.prems(2,3) d(1) in auto)
  ultimately show ?case by (rule denotes_read)
next
  case (Observe kind k c)
  from Observe.prems(1) obtain ob rest where d: "deps = ob # rest" "obs_key ob = k" "obs_kind ob = kind" "kind \<noteq> Read"
    "follows h w (c (Inr (w k (obs_revision ob)))) rest v"
    by (auto split: list.splits)
  have "source_revision e k = obs_revision ob"
    using Observe.prems(2)[of ob] d by (auto simp: observation_is_current_def split: observation_kind.splits)
  then have "w k (obs_revision ob) = contents w e k" by (simp add: contents_def)
  moreover have "body_denotes (contents w e) Q (c (Inr (w k (obs_revision ob)))) v"
    by (rule Observe.IH[OF _ d(5)]) (use Observe.prems(2,3) d(1) in auto)
  ultimately show ?case by (auto intro: denotes_observe)
qed (auto intro: denotes_return denotes_work denotes_output denotes_poll)

lemma clean_denotes:
  assumes inv: "engine_inv fp w h e" and "clean_at e k n" "node_value n = Some v"
  shows "denotes (contents w e) (queries e) k v"
proof -
  from inv obtain rank where rank: "ranked e rank" unfolding engine_inv_def by blast
  show ?thesis
    using assms(2,3)
  proof (induction "rank k" arbitrary: k n v rule: less_induct)
    case less
    from inv less.prems have ok: "memo_ok fp w h e k n" by (simp add: engine_inv_def)
    with less.prems(2) obtain q where q: "bm_get (queries e) k = Some q" "follows h w (q k) (node_dependencies n) v"
      by (auto simp: memo_ok_def)
    have current: "observation_is_current e ob" if "ob \<in> set (node_dependencies n)" for ob
      using ok less.prems(1) that by (simp add: memo_ok_def)
    have "body_denotes (contents w e) (queries e) (q k) v"
    proof (rule follows_denotes[OF q(2) current])
      fix ob x assume ob: "ob \<in> set (node_dependencies n)" "obs_kind ob = Read"
        "h (obs_key ob) (obs_revision ob) = Some x"
      from current[OF ob(1)] ob(2) obtain m where m: "clean_at e (obs_key ob) m" "node_revision m = obs_revision ob"
        by (auto simp: observation_is_current_def split: option.splits)
      have "memo_ok fp w h e (obs_key ob) m" using inv m(1) by (simp add: engine_inv_def)
      with m ob(3) have mv: "node_value m = Some x" by (auto simp: memo_ok_def split: option.splits)
      have "rank (obs_key ob) < rank k" using rank less.prems(1) ob(1,2) unfolding ranked_def by blast
      from less.hyps[OF this m(1) mv] show "denotes (contents w e) (queries e) (obs_key ob) x" .
    qed auto
    with q(1) show ?case by (rule denotes_query)
  qed
qed


section \<open>What a run may change\<close>

text \<open>The parts of the engine the invariant is about; charging changes none of them.\<close>

definition same_core :: "('k::linorder, 'v, 'x) incremental_engine \<Rightarrow> ('k, 'v, 'x) incremental_engine \<Rightarrow> bool" where
  "same_core e e' \<longleftrightarrow> queries e' = queries e \<and> nodes e' = nodes e \<and> reverse_deps e' = reverse_deps e \<and>
     source_revisions e' = source_revisions e \<and> next_revision e' = next_revision e"

lemma same_core_current: "same_core e e' \<Longrightarrow> observation_is_current e' ob = observation_is_current e ob"
  by (simp add: same_core_def observation_is_current_def source_revision_def split: observation_kind.split)

lemma same_core_memo_ok: "same_core e e' \<Longrightarrow> memo_ok fp w h e' k n = memo_ok fp w h e k n"
  by (simp add: memo_ok_def same_core_current) (simp add: same_core_def cong: option.case_cong)

lemma same_core_inv:
  assumes "same_core e e'" "engine_inv fp w h e"
  shows "engine_inv fp w h e'"
proof -
  have "ranked e' = ranked e" using assms(1) by (simp add: ranked_def same_core_def fun_eq_iff)
  with assms same_core_memo_ok[OF assms(1)] show ?thesis
    by (simp add: engine_inv_def) (simp add: same_core_def)
qed

text \<open>
  A run on top of the stack \<open>S\<close> keeps the queries, the source revisions, every clean memo and
  every memo on the stack.
\<close>

definition run_frame :: "'k set \<Rightarrow> ('k::linorder, 'v, 'x) incremental_engine \<Rightarrow> ('k, 'v, 'x) incremental_engine \<Rightarrow> bool" where
  "run_frame S e e' \<longleftrightarrow> queries e' = queries e \<and> source_revisions e' = source_revisions e \<and>
     (\<forall>k n. clean_at e k n \<longrightarrow> bm_get (nodes e') k = Some n) \<and>
     (\<forall>k\<in>S. bm_get (nodes e') k = bm_get (nodes e) k)"

lemma run_frame_refl [simp]: "run_frame S e e"
  by (simp add: run_frame_def)

lemma run_frame_trans: "run_frame S e e' \<Longrightarrow> run_frame S e' e'' \<Longrightarrow> run_frame S e e''"
  by (simp add: run_frame_def)

lemma run_frame_subset: "run_frame S e e' \<Longrightarrow> T \<subseteq> S \<Longrightarrow> run_frame T e e'"
  by (auto simp: run_frame_def)

lemma same_core_frame: "same_core e e' \<Longrightarrow> run_frame S e e'"
  by (simp add: same_core_def run_frame_def)

lemma run_frame_current:
  "run_frame S e e' \<Longrightarrow> observation_is_current e ob \<Longrightarrow> observation_is_current e' ob"
  by (auto simp: observation_is_current_def run_frame_def source_revision_def
      split: observation_kind.splits option.splits)

text \<open>One step of a run, from a history and a state to another: the contract all its parts keep.\<close>

definition run_step ::
  "('v \<Rightarrow> value_fingerprint) \<Rightarrow> ('k \<Rightarrow> revision \<Rightarrow> 'x) \<Rightarrow> ('k, 'v) history \<Rightarrow> ('k::linorder, 'v, 'x) incremental_engine \<Rightarrow>
   'k run_state \<Rightarrow> ('k, 'v) history \<Rightarrow> ('k, 'v, 'x) incremental_engine \<Rightarrow> 'k run_state \<Rightarrow> bool" where
  "run_step fp w h e r h' e' r' \<longleftrightarrow>
     extends_history h h' \<and> engine_inv fp w h' e' \<and> run_frame (set (run_stack r)) e e' \<and>
     run_stack r' = run_stack r \<and> (run_cancelled r \<longrightarrow> run_cancelled r')"

lemma run_step_trans:
  "run_step fp w h e r h1 e1 r1 \<Longrightarrow> run_step fp w h1 e1 r1 h2 e2 r2 \<Longrightarrow> run_step fp w h e r h2 e2 r2"
  by (auto simp: run_step_def intro: extends_trans run_frame_trans)

lemma run_step_same_core:
  "engine_inv fp w h e \<Longrightarrow> same_core e e' \<Longrightarrow> run_stack r' = run_stack r \<Longrightarrow>
   (run_cancelled r \<longrightarrow> run_cancelled r') \<Longrightarrow> run_step fp w h e r h e' r'"
  by (simp add: run_step_def same_core_inv same_core_frame)

definition charging :: "('k::linorder, 'v, 'x, 'a) comp \<Rightarrow> bool" where
  "charging m \<longleftrightarrow> (\<forall>e r res e' r'. m e r = Some (res, e', r') \<longrightarrow>
     same_core e e' \<and> run_stack r' = run_stack r \<and> run_cancelled r' = run_cancelled r)"

lemma budget_errorD:
  assumes "budget_error kind limit consumed e r = Some (res, e', r')"
  shows "same_core e e'" "r' = r"
  using assms
  by (auto simp: budget_error_def alloc_continuation_def throw_def same_core_def outcome_simps
      split: outcome.splits)

lemma same_core_refl [simp]: "same_core e e"
  by (simp add: same_core_def)

lemma charge_steps:
  "charging (query_charge_work units)" "charging (query_charge_output units)"
  "charging query_charge_depth" "charging query_charge_observation" "charging check_cancelled"
  by (auto simp: charging_def query_charge_work_def query_charge_output_def query_charge_depth_def
      query_charge_observation_def andThen_def check_cancelled_def throw_def ret_def Let_def
      split: if_splits dest: budget_errorD)

lemma charging_step:
  assumes "charging m" "engine_inv fp w h e" "m e r = Some (res, e', r')"
  shows "run_step fp w h e r h e' r'"
  using assms by (intro run_step_same_core) (auto simp: charging_def)

lemma charging_current:
  assumes "charging m" "m e r = Some (res, e', r')"
  shows "observation_is_current e' ob = observation_is_current e ob" "nodes e' = nodes e" "queries e' = queries e"
    "source_revision e' = source_revision e" "run_stack r' = run_stack r" "run_cancelled r' = run_cancelled r"
  using assms same_core_current[of e e']
  by (auto simp: charging_def same_core_def source_revision_def fun_eq_iff)

section \<open>The evaluator contract\<close>

definition memo_is :: "('k::linorder, 'v, 'x) incremental_engine \<Rightarrow> 'k \<Rightarrow> 'v \<Rightarrow> bool" where
  "memo_is e k v \<longleftrightarrow> (\<exists>n. clean_at e k n \<and> node_value n = Some v)"

text \<open>Making one memo clean whose dependencies are current.\<close>

lemma ranked_clean:
  assumes "ranked e rank" "\<And>n. \<not> clean_at e k n"
    and "\<And>j n. j \<noteq> k \<Longrightarrow> clean_at e' j n \<Longrightarrow> clean_at e j n"
    and "\<And>n. clean_at e' k n \<Longrightarrow> node_dependencies n = deps"
    and "\<And>j n. clean_at e j n \<Longrightarrow> (\<forall>ob\<in>set (node_dependencies n). observation_is_current e ob)"
    and "\<And>ob. ob \<in> set deps \<Longrightarrow> observation_is_current e ob"
  shows "\<exists>rank'. ranked e' rank'"
proof
  let ?rank = "rank(k := Suc (Max (insert 0 ((\<lambda>ob. rank (obs_key ob)) ` set deps))))"
  have other: "obs_key ob \<noteq> k" if "observation_is_current e ob" "obs_kind ob = Read" for ob
    using that assms(2) by (auto simp: observation_is_current_def split: option.splits)
  show "ranked e' ?rank"
    unfolding ranked_def
  proof (intro allI impI ballI)
    fix j n ob assume j: "clean_at e' j n" and ob: "ob \<in> set (node_dependencies n)" "obs_kind ob = Read"
    show "?rank (obs_key ob) < ?rank j"
    proof (cases "j = k")
      case True
      with j assms(4) ob(1) have d: "ob \<in> set deps" by blast
      then have "rank (obs_key ob) \<le> Max (insert 0 ((\<lambda>ob. rank (obs_key ob)) ` set deps))"
        by (intro Max_ge) auto
      with True other[OF assms(6)[OF d] ob(2)] show ?thesis by simp
    next
      case False
      from assms(3)[OF False j] have c: "clean_at e j n" .
      with assms(1) ob have "rank (obs_key ob) < rank j" unfolding ranked_def by blast
      moreover have "obs_key ob \<noteq> k" using assms(5)[OF c] ob other by blast
      ultimately show ?thesis using False by simp
    qed
  qed
qed

lemma set_clean_step:
  assumes inv: "engine_inv fp w h e" and n: "bm_get (nodes e) k = Some n" "node_value n \<noteq> None"
    and cur: "\<And>ob. ob \<in> set (node_dependencies n) \<Longrightarrow> observation_is_current e ob"
    and S: "k \<notin> S"
  shows "engine_inv fp w h (set_clean k e) \<and> run_frame S e (set_clean k e)"
proof (cases "node_dirty n")
  case False
  then have "n\<lparr>node_dirty := False\<rparr> = n" by simp
  moreover have "bm_insert k n (nodes e) = nodes e" by (rule bm_ext) (simp add: n)
  ultimately have "set_clean k e = e" using n(1) by (simp add: set_clean_def)
  with inv show ?thesis by simp
next
  case True
  let ?m = "n\<lparr>node_dirty := False\<rparr>"
  let ?e = "e\<lparr>nodes := bm_insert k ?m (nodes e)\<rparr>"
  have e': "set_clean k e = ?e" using n by (simp add: set_clean_def)
  have frame: "run_frame S e ?e" using True n S by (auto simp: run_frame_def)
  have ok: "memo_ok fp w h e j m" if "bm_get (nodes e) j = Some m" for j m
    using inv that by (simp add: engine_inv_def)
  have "memo_ok fp w h ?e j m" if "bm_get (nodes ?e) j = Some m" for j m
  proof (cases "j = k")
    case True
    with that have m: "m = ?m" by simp
    have "memo_ok fp w h e k n" by (rule ok[OF n(1)])
    with n(2) True cur run_frame_current[OF frame] show ?thesis
      by (auto simp: memo_ok_def m split: option.splits)
  next
    case False
    with that have "memo_ok fp w h e j m" by (intro ok) simp
    with run_frame_current[OF frame] show ?thesis
      by (auto simp: memo_ok_def split: option.splits)
  qed
  moreover have "\<exists>rank. ranked ?e rank"
  proof -
    from inv obtain rank where "ranked e rank" by (auto simp: engine_inv_def)
    then show ?thesis
      by (rule ranked_clean[of e _ k ?e "node_dependencies n"])
        (use True n cur ok in \<open>auto simp: memo_ok_def split: if_splits\<close>)
  qed
  ultimately have "engine_inv fp w h ?e" using inv by (simp add: engine_inv_def)
  with frame e' show ?thesis by simp
qed

lemma dependents_drop:
  "set (dependents (drop_dependent k ob rd) j) = (if j = obs_key ob then set (dependents rd j) - {k} else set (dependents rd j))"
  by (cases "bm_get rd (obs_key ob)") (auto simp: drop_dependent_def dependents_def)

lemma dependents_add:
  "set (dependents (add_dependent k ob rd) j) = (if j = obs_key ob then insert k (set (dependents rd j)) else set (dependents rd j))"
  by (auto simp: add_dependent_def dependents_def split: option.splits)

lemma dependents_drops:
  "set (dependents rd j) - {k} \<subseteq> set (dependents (fold (drop_dependent k) obs rd) j)"
proof (induction obs arbitrary: rd)
  case (Cons ob obs)
  have "set (dependents rd j) - {k} \<subseteq> set (dependents (drop_dependent k ob rd) j) - {k}"
    by (auto simp: dependents_drop)
  also have "\<dots> \<subseteq> set (dependents (fold (drop_dependent k) obs (drop_dependent k ob rd)) j)" by (rule Cons)
  finally show ?case by simp
qed simp

lemma dependents_adds:
  "set (dependents (fold (add_dependent k) obs rd) j) =
     set (dependents rd j) \<union> (if j \<in> obs_key ` set obs then {k} else {})"
  by (induction obs arbitrary: rd) (auto simp: dependents_add)

lemma commit_value_OkD:
  assumes "commit_value fp k v deps e = Ok e'"
  obtains rv where
    "nodes e' = bm_insert k \<lparr>node_revision = rv, node_dirty = False, node_value = Some v,
       node_fingerprint = Some (fp v), node_dependencies = deps\<rparr> (nodes e)"
    "queries e' = queries e" "source_revisions e' = source_revisions e"
    "\<And>j. set (dependents (reverse_deps e) j) - {k} \<union> (if j \<in> obs_key ` set deps then {k} else {})
       \<subseteq> set (dependents (reverse_deps e') j)"
    "rv = next_revision e \<and> next_revision e' = Suc (next_revision e) \<or>
     (\<exists>n. bm_get (nodes e) k = Some n \<and> node_value n = Some v \<and> node_revision n = rv) \<and> next_revision e' = next_revision e"
proof -
  let ?old = "case bm_get (nodes e) k of None \<Rightarrow> [] | Some n \<Rightarrow> node_dependencies n"
  from assms obtain rv where
    "nodes e' = bm_insert k \<lparr>node_revision = rv, node_dirty = False, node_value = Some v,
       node_fingerprint = Some (fp v), node_dependencies = deps\<rparr> (nodes e)"
    "queries e' = queries e" "source_revisions e' = source_revisions e"
    and rd: "reverse_deps e' = fold (add_dependent k) deps (fold (drop_dependent k) ?old (reverse_deps e))"
    and "rv = next_revision e \<and> next_revision e' = Suc (next_revision e) \<or>
     (\<exists>n. bm_get (nodes e) k = Some n \<and> node_value n = Some v \<and> node_revision n = rv) \<and> next_revision e' = next_revision e"
    by (auto simp: commit_value_def Let_def outcome_simps alloc_revision_def split: option.splits if_splits)
  moreover have "set (dependents (reverse_deps e) j) - {k} \<union> (if j \<in> obs_key ` set deps then {k} else {})
       \<subseteq> set (dependents (reverse_deps e') j)" for j
    unfolding rd dependents_adds using dependents_drops[of "reverse_deps e" j k ?old] by auto
  ultimately show ?thesis using that by blast
qed

lemma commit_value_step:
  assumes inv: "engine_inv fp w h e" and nc: "\<And>n. \<not> clean_at e k n"
    and q: "bm_get (queries e) k = Some q" "follows h w (q k) deps v"
    and cur: "\<And>ob. ob \<in> set deps \<Longrightarrow> observation_is_current e ob"
    and run: "commit_value fp k v deps e = Ok e'" and S: "k \<notin> S"
  shows "\<exists>h'. extends_history h h' \<and> engine_inv fp w h' e' \<and> run_frame S e e' \<and> memo_is e' k v"
  using run
proof (rule commit_value_OkD)
  fix rv
  let ?m = "\<lparr>node_revision = rv, node_dirty = False, node_value = Some v,
       node_fingerprint = Some (fp v), node_dependencies = deps\<rparr>"
  let ?h = "\<lambda>j r. if j = k \<and> r = rv then Some v else h j r"
  assume e': "nodes e' = bm_insert k ?m (nodes e)"
    "queries e' = queries e" "source_revisions e' = source_revisions e"
    and rd: "\<And>j. set (dependents (reverse_deps e) j) - {k} \<union> (if j \<in> obs_key ` set deps then {k} else {})
       \<subseteq> set (dependents (reverse_deps e') j)"
    and rv: "rv = next_revision e \<and> next_revision e' = Suc (next_revision e) \<or>
     (\<exists>n. bm_get (nodes e) k = Some n \<and> node_value n = Some v \<and> node_revision n = rv) \<and> next_revision e' = next_revision e"
  have ok: "memo_ok fp w h e j m" if "bm_get (nodes e) j = Some m" for j m
    using inv that by (simp add: engine_inv_def)
  have hist: "r < next_revision e" if "h j r = Some u" for j r u
    using inv that unfolding engine_inv_def by blast
  have kept: "h k rv = Some v" if "bm_get (nodes e) k = Some n" "node_value n = Some v" "node_revision n = rv" for n
    using ok[OF that(1)] that(2,3) by (simp add: memo_ok_def)
  then have old: "h k rv = Some v" if "rv \<noteq> next_revision e" using rv that by blast
  have ext: "extends_history h ?h"
    unfolding extends_history_def using old hist by fastforce
  have frame: "run_frame S e e'" using e' nc S by (auto simp: run_frame_def)
  have "memo_ok fp w ?h e' j m" if j: "bm_get (nodes e') j = Some m" for j m
  proof (cases "j = k")
    case True
    with j e' have m: "m = ?m" by simp
    have "k \<in> set (dependents (reverse_deps e') (obs_key ob))" if "ob \<in> set deps" for ob
      using rd[of "obs_key ob"] that by auto
    with True q follows_extends[OF ext q(2)] cur run_frame_current[OF frame] e'(2) show ?thesis
      by (auto simp: memo_ok_def m)
  next
    case False
    with j e' have ok': "memo_ok fp w h e j m" by (intro ok) simp
    have "j \<in> set (dependents (reverse_deps e') (obs_key ob))" if "ob \<in> set (node_dependencies m)" for ob
      using ok' that rd[of "obs_key ob"] False by (auto simp: memo_ok_def)
    moreover have "?h j (node_revision m) = Some u" if "h j (node_revision m) = Some u" for u
      using that False by simp
    ultimately show ?thesis
      using ok' follows_extends[OF ext] run_frame_current[OF frame] e'(2)
      unfolding memo_ok_def by (auto split: option.splits)
  qed
  moreover have "\<exists>rank. ranked e' rank"
  proof -
    from inv obtain rank where "ranked e rank" by (auto simp: engine_inv_def)
    then show ?thesis
      by (rule ranked_clean[of e _ k e' deps])
        (use nc e' cur ok in \<open>auto simp: memo_ok_def split: if_splits\<close>)
  qed
  moreover have "r < next_revision e'" if "?h j r = Some u" for j r u
  proof (cases "j = k \<and> r = rv")
    case True
    with rv kept hist[of k rv v] show ?thesis by (elim disjE exE conjE) auto
  next
    case False
    with that hist[of j r u] rv show ?thesis by auto
  qed
  ultimately have "engine_inv fp w ?h e'"
    using inv e'(2) unfolding engine_inv_def by simp
  moreover have "memo_is e' k v" using e'(1) by (simp add: memo_is_def)
  ultimately show ?thesis using ext frame by blast
qed

lemma andThen_SomeE:
  assumes "andThen m f e r = Some (res, e', r')"
  obtains a e1 r1 where "m e r = Some (Ok a, e1, r1)" "f a e1 r1 = Some (res, e', r')"
    | res1 where "m e r = Some (res1, e', r')" "\<forall>a. res1 \<noteq> Ok a" "\<forall>a. res \<noteq> Ok a"
  using assms by (auto simp: andThen_def split: option.splits outcome.splits)

locale evaluator =
  fixes fp :: "'v \<Rightarrow> value_fingerprint" and w :: "'k::linorder \<Rightarrow> revision \<Rightarrow> 'x"
    and ev :: "'k \<Rightarrow> ('k, 'v, 'x, 'v) comp"
  assumes ev_step: "engine_inv fp w h e \<Longrightarrow> ev k e r = Some (res, e', r') \<Longrightarrow>
      \<exists>h'. run_step fp w h e r h' e' r' \<and> (\<forall>v. res = Ok v \<longrightarrow> memo_is e' k v)"
begin

lemma frame_read_step:
  assumes inv: "engine_inv fp w h e" and run: "frame_read ev k obs e r = Some (res, e', r')"
  shows "\<exists>h'. run_step fp w h e r h' e' r' \<and> (\<forall>v obs'. res = Ok (v, obs') \<longrightarrow>
    (\<exists>ob. obs' = obs @ [ob] \<and> obs_key ob = k \<and> obs_kind ob = Read \<and> h' k (obs_revision ob) = Some v \<and>
       observation_is_current e' ob))"
proof -
  from run obtain res1 e1 r1 where 1: "ev k e r = Some (res1, e1, r1)"
    by (auto simp: frame_read_def andThen_def split: option.splits)
  from ev_step[OF inv 1] obtain h1 where
    h1: "run_step fp w h e r h1 e1 r1" "\<And>v. res1 = Ok v \<Longrightarrow> memo_is e1 k v" by blast
  show ?thesis
  proof (cases res1)
    case (Ok v)
    with h1(2) obtain n where n: "clean_at e1 k n" "node_value n = Some v" by (auto simp: memo_is_def)
    have ok: "memo_ok fp w h1 e1 k n" using h1(1) n(1) by (simp add: run_step_def engine_inv_def)
    with n(2) have f: "node_fingerprint n = Some (fp v)" "h1 k (node_revision n) = Some v" by (auto simp: memo_ok_def)
    let ?ob = "observation_read k (node_revision n) (fp v)"
    have memo: "memo_observation k e1 = Ok ?ob" using n f by (simp add: memo_observation_def)
    have cur: "observation_is_current e1 ?ob" using n f by (simp add: observation_is_current_def)
    from run 1 Ok memo obtain res2 e2 r2 where
      2: "query_charge_observation e1 r1 = Some (res2, e2, r2)"
      and r: "case res2 of Ok _ \<Rightarrow> res = Ok (v, obs @ [?ob]) | _ \<Rightarrow> \<forall>x. res \<noteq> Ok x" "e' = e2" "r' = r2"
      by (auto simp: frame_read_def andThen_def ret_def split: option.splits outcome.splits)
    have "engine_inv fp w h1 e1" using h1(1) by (simp add: run_step_def)
    from charging_step[OF charge_steps(4) this 2] have "run_step fp w h1 e1 r1 h1 e2 r2" .
    with h1(1) have "run_step fp w h e r h1 e' r'" using r by (auto intro: run_step_trans)
    moreover have "observation_is_current e' ?ob" using charging_current(1)[OF charge_steps(4) 2] cur r by simp
    ultimately show ?thesis using r(1) f(2) by (intro exI[of _ h1]) (auto split: outcome.splits)
  next
    case (Err err)
    with run 1 h1(1) show ?thesis by (auto simp: frame_read_def andThen_def)
  next
    case (Panic p)
    with run 1 h1(1) show ?thesis by (auto simp: frame_read_def andThen_def)
  qed
qed


text \<open>What a callback records while it runs.\<close>

definition recorded ::
  "('k, 'v) history \<Rightarrow> ('k, 'v, 'x) query_body \<Rightarrow> 'k observation list \<Rightarrow>
   ('k incremental_error, 'v \<times> 'k observation list) outcome \<Rightarrow> ('k, 'v, 'x) incremental_engine \<Rightarrow> 'k run_state \<Rightarrow> bool" where
  "recorded h body obs res e r \<longleftrightarrow> (\<forall>v obs'. res = Ok (v, obs') \<longrightarrow> \<not> run_cancelled r \<longrightarrow>
     (\<exists>deps. obs' = obs @ deps \<and> follows h w body deps v \<and> (\<forall>ob\<in>set deps. observation_is_current e ob)))"

lemma recorded_Err [simp]: "recorded h body obs (Err err) e r" "recorded h body obs (Panic p) e r"
  by (simp_all add: recorded_def)

lemma run_body_step:
  assumes "disciplined body" "engine_inv fp w h e" "run_body w ev body obs e r = Some (res, e', r')"
  shows "\<exists>h'. run_step fp w h e r h' e' r' \<and> recorded h' body obs res e' r'"
  using assms
proof (induction body arbitrary: obs h e r)
  case (Return v)
  then show ?case by (intro exI[of _ h]) (auto simp: ret_def run_step_def recorded_def)
next
  case (Fail err)
  then show ?case by (intro exI[of _ h]) (auto simp: throw_def run_step_def)
next
  case (ReadQuery k c)
  from ReadQuery.prems(3) obtain res1 e1 r1 where 1: "frame_read ev k obs e r = Some (res1, e1, r1)"
    by (auto split: option.splits)
  from frame_read_step[OF ReadQuery.prems(2) 1] obtain h1 where
    h1: "run_step fp w h e r h1 e1 r1"
      "\<And>v obs'. res1 = Ok (v, obs') \<Longrightarrow> \<exists>ob. obs' = obs @ [ob] \<and> obs_key ob = k \<and> obs_kind ob = Read \<and>
         h1 k (obs_revision ob) = Some v \<and> observation_is_current e1 ob" by blast
  show ?case
  proof (cases res1)
    case (Ok vo)
    then obtain v ob where v: "res1 = Ok (v, obs @ [ob])" "obs_key ob = k" "obs_kind ob = Read"
      "h1 k (obs_revision ob) = Some v" "observation_is_current e1 ob"
      using h1(2) by (cases vo) blast
    have inv1: "engine_inv fp w h1 e1" using h1(1) by (simp add: run_step_def)
    have "disciplined (c (Inr v))" "run_body w ev (c (Inr v)) (obs @ [ob]) e1 r1 = Some (res, e', r')"
      using ReadQuery.prems(1,3) 1 v(1) by auto
    from ReadQuery.IH[OF _ this(1) inv1 this(2)] obtain h2 where
      h2: "run_step fp w h1 e1 r1 h2 e' r'" "recorded h2 (c (Inr v)) (obs @ [ob]) res e' r'" by auto
    have "h2 k (obs_revision ob) = Some v" "observation_is_current e' ob"
      using h2(1) v(4,5) run_frame_current by (auto simp: run_step_def extends_history_def)
    then have "recorded h2 (ReadQuery k c) obs res e' r'"
      using h2(2) v(2,3) unfolding recorded_def by fastforce
    with run_step_trans[OF h1(1) h2(1)] show ?thesis by blast
  qed (use 1 h1(1) ReadQuery.prems in \<open>auto simp: throw_def\<close>)
next
  case (Observe kind k c)
  from Observe.prems(3) obtain res1 e1 r1 where 1: "frame_observe kind k obs e r = Some (res1, e1, r1)"
    by (auto split: option.splits)
  then obtain res0 where 0: "query_charge_observation e r = Some (res0, e1, r1)"
    and res1: "res1 = (case res0 of Ok _ \<Rightarrow> Ok (obs @ [observation_new k kind (source_revision e k) None])
        | Err err \<Rightarrow> Err err | Panic p \<Rightarrow> Panic p)"
    by (auto simp: frame_observe_def andThen_def ret_def split: option.splits outcome.splits)
  note step1 = charging_step[OF charge_steps(4) Observe.prems(2) 0]
  note cc = charging_current[OF charge_steps(4) 0]
  let ?ob = "observation_new k kind (source_revision e k) None"
  show ?case
  proof (cases res0)
    case (Ok u)
    have inv1: "engine_inv fp w h e1" using step1 by (simp add: run_step_def)
    let ?x = "w k (source_revision e k)"
    have d: "disciplined (c (Inr ?x))" "run_body w ev (c (Inr ?x)) (obs @ [?ob]) e1 r1 = Some (res, e', r')"
      using Observe.prems(1,3) 1 res1 Ok cc(4) by auto
    from Observe.IH[OF _ d(1) inv1 d(2)] obtain h2 where
      h2: "run_step fp w h e1 r1 h2 e' r'" "recorded h2 (c (Inr ?x)) (obs @ [?ob]) res e' r'" by auto
    have "kind \<noteq> Read" using Observe.prems(1) by simp
    moreover from this have "observation_is_current e ?ob"
      by (auto simp: observation_is_current_def split: observation_kind.splits)
    then have "observation_is_current e1 ?ob" by (simp only: cc(1))
    then have "observation_is_current e' ?ob"
      by (rule run_frame_current[of "set (run_stack r1)", rotated]) (use h2(1) in \<open>simp add: run_step_def\<close>)
    ultimately have "recorded h2 (Observe kind k c) obs res e' r'"
      using h2(2) unfolding recorded_def by fastforce
    with run_step_trans[OF step1 h2(1)] show ?thesis by blast
  qed (use 1 res1 step1 Observe.prems in \<open>auto simp: throw_def\<close>)
next
  case (ChargeWork units c)
  from ChargeWork.prems(3) obtain res1 e1 r1 where 1: "query_charge_work units e r = Some (res1, e1, r1)"
    by (auto split: option.splits)
  note step1 = charging_step[OF charge_steps(1) ChargeWork.prems(2) 1]
  show ?case
  proof (cases res1)
    case (Ok u)
    have inv1: "engine_inv fp w h e1" using step1 by (simp add: run_step_def)
    have d: "disciplined (c (Inr u))" "run_body w ev (c (Inr u)) obs e1 r1 = Some (res, e', r')"
      using ChargeWork.prems(1,3) 1 Ok by auto
    from ChargeWork.IH[OF _ d(1) inv1 d(2)] obtain h2 where
      h2: "run_step fp w h e1 r1 h2 e' r'" "recorded h2 (c (Inr u)) obs res e' r'" by auto
    with run_step_trans[OF step1 h2(1)] show ?thesis by (auto simp: recorded_def)
  qed (use 1 step1 ChargeWork.prems in \<open>auto simp: throw_def\<close>)
next
  case (ChargeOutput units c)
  from ChargeOutput.prems(3) obtain res1 e1 r1 where 1: "query_charge_output units e r = Some (res1, e1, r1)"
    by (auto split: option.splits)
  note step1 = charging_step[OF charge_steps(2) ChargeOutput.prems(2) 1]
  show ?case
  proof (cases res1)
    case (Ok u)
    have inv1: "engine_inv fp w h e1" using step1 by (simp add: run_step_def)
    have d: "disciplined (c (Inr u))" "run_body w ev (c (Inr u)) obs e1 r1 = Some (res, e', r')"
      using ChargeOutput.prems(1,3) 1 Ok by auto
    from ChargeOutput.IH[OF _ d(1) inv1 d(2)] obtain h2 where
      h2: "run_step fp w h e1 r1 h2 e' r'" "recorded h2 (c (Inr u)) obs res e' r'" by auto
    with run_step_trans[OF step1 h2(1)] show ?thesis by (auto simp: recorded_def)
  qed (use 1 step1 ChargeOutput.prems in \<open>auto simp: throw_def\<close>)
next
  case (Cancel body)
  have "disciplined body" "run_body w ev body obs e (r\<lparr>run_cancelled := True\<rparr>) = Some (res, e', r')"
    using Cancel.prems(1,3) by simp_all
  from Cancel.IH[OF this(1) Cancel.prems(2) this(2)] obtain h' where
    "run_step fp w h e (r\<lparr>run_cancelled := True\<rparr>) h' e' r'" by blast
  then show ?case by (intro exI[of _ h']) (auto simp: run_step_def recorded_def)
next
  case (CancellationRequested c)
  have d: "disciplined (c (run_cancelled r))" "run_body w ev (c (run_cancelled r)) obs e r = Some (res, e', r')"
    using CancellationRequested.prems(1,3) by simp_all
  from CancellationRequested.IH[OF _ d(1) CancellationRequested.prems(2) d(2)] obtain h' where
    h': "run_step fp w h e r h' e' r'" "recorded h' (c (run_cancelled r)) obs res e' r'" by auto
  then have "recorded h' (CancellationRequested c) obs res e' r'"
    by (cases "run_cancelled r") (auto simp: recorded_def run_step_def)
  with h'(1) show ?case by blast
qed

lemma refresh_reads_step:
  assumes "engine_inv fp w h e" "refresh_reads ev deps e r = Some (res, e', r')"
  shows "\<exists>h'. run_step fp w h e r h' e' r'"
  using assms
proof (induction deps arbitrary: h e r)
  case Nil
  then show ?case by (intro exI[of _ h]) (auto simp: ret_def run_step_def)
next
  case (Cons ob deps)
  show ?case
  proof (cases "obs_kind ob = Read")
    case True
    with Cons.prems(2) obtain res1 e1 r1 where 1: "ev (obs_key ob) e r = Some (res1, e1, r1)"
      by (auto simp: andThen_def split: option.splits)
    from ev_step[OF Cons.prems(1) 1] obtain h1 where h1: "run_step fp w h e r h1 e1 r1" by blast
    then have inv1: "engine_inv fp w h1 e1" by (simp add: run_step_def)
    show ?thesis
    proof (cases res1)
      case (Ok v)
      with True 1 Cons.prems(2) have "refresh_reads ev deps e1 r1 = Some (res, e', r')" by (simp add: andThen_def)
      from Cons.IH[OF inv1 this] h1 show ?thesis by (blast intro: run_step_trans)
    qed (use True 1 h1 Cons.prems(2) in \<open>auto simp: andThen_def\<close>)
  qed (use Cons in simp)
qed


lemma memo_value_result:
  assumes "memo_value k e r = Some (res, e', r')"
  shows "e' = e" "r' = r"
  using assms by (auto simp: memo_value_def throw_def ret_def split: option.splits)

lemma try_reuse_memo_step:
  assumes inv: "engine_inv fp w h e" and run: "try_reuse_memo ev k e (r\<lparr>run_stack := S @ [k]\<rparr>) = Some (res, e', r')"
    and S: "k \<notin> set S" "run_stack r = S"
  shows "\<exists>h'. run_step fp w h e r h' e' (r'\<lparr>run_stack := S\<rparr>) \<and> run_stack r' = S @ [k] \<and>
    (res = Ok True \<longrightarrow> (\<exists>n. clean_at e' k n)) \<and> (res = Ok False \<longrightarrow> (\<forall>n. \<not> clean_at e' k n))"
proof (cases "\<exists>n v. bm_get (nodes e) k = Some n \<and> node_value n = Some v")
  case False
  have "\<not> clean_at e k n" for n
  proof
    assume c: "clean_at e k n"
    with inv have "memo_ok fp w h e k n" by (simp add: engine_inv_def)
    with False c show False by (auto simp: memo_ok_def)
  qed
  moreover from False run have "res = Ok False" "e' = e" "r' = r\<lparr>run_stack := S @ [k]\<rparr>"
    by (auto simp: try_reuse_memo_def ret_def split: option.splits)
  ultimately show ?thesis using inv S by (intro exI[of _ h]) (auto simp: run_step_def)
next
  case True
  then obtain n v where n: "bm_get (nodes e) k = Some n" "node_value n = Some v" by blast
  let ?deps = "node_dependencies n" and ?r = "r\<lparr>run_stack := S @ [k]\<rparr>"
  let ?first = "if node_dirty n \<or> \<not> list_all (observation_is_current e) ?deps then refresh_reads ev ?deps else ret ()"
  from run n obtain res1 e1 r1 where 1: "?first e ?r = Some (res1, e1, r1)"
    and r: "case res1 of Ok _ \<Rightarrow> (if list_all (observation_is_current e1) ?deps
          then res = Ok True \<and> e' = set_clean k e1 \<and> r' = r1 else res = Ok False \<and> e' = e1 \<and> r' = r1)
        | _ \<Rightarrow> (\<forall>b. res \<noteq> Ok b) \<and> e' = e1 \<and> r' = r1"
    by (auto simp: try_reuse_memo_def andThen_def Let_def ret_def split: option.splits outcome.splits if_splits)
  have "\<exists>h1. run_step fp w h e ?r h1 e1 r1"
  proof (cases "node_dirty n \<or> \<not> list_all (observation_is_current e) ?deps")
    case True
    with 1 have "refresh_reads ev ?deps e ?r = Some (res1, e1, r1)" by simp
    then show ?thesis by (rule refresh_reads_step[OF inv])
  next
    case False
    with 1 have "e1 = e" "r1 = ?r" by (auto simp: ret_def)
    with inv show ?thesis by (intro exI[of _ h]) (simp add: run_step_def)
  qed
  then obtain h1 where h1: "run_step fp w h e ?r h1 e1 r1" by blast
  then have inv1: "engine_inv fp w h1 e1" and st: "run_stack r1 = S @ [k]"
    and n1: "bm_get (nodes e1) k = Some n" and step: "run_step fp w h e r h1 e1 (r1\<lparr>run_stack := S\<rparr>)"
    using n(1) S(2) by (auto simp: run_step_def run_frame_def)
  show ?thesis
  proof (cases "(\<exists>u. res1 = Ok u) \<and> list_all (observation_is_current e1) ?deps")
    case True
    have "engine_inv fp w h1 (set_clean k e1) \<and> run_frame (set S) e1 (set_clean k e1)"
      by (rule set_clean_step[OF inv1 n1]) (use n(2) True S in \<open>auto simp: list_all_iff\<close>)
    with step True r st S(2) show ?thesis
      by (intro exI[of _ h1]) (auto simp: run_step_def set_clean_def n1 intro: run_frame_trans)
  next
    case False
    have "\<not> clean_at e1 k m" if "res = Ok False" for m
      using False that r inv1 n1
      by (auto simp: engine_inv_def memo_ok_def list_all_iff split: outcome.splits)
    with step False r st show ?thesis
      by (intro exI[of _ h1]) (auto split: outcome.splits)
  qed
qed

lemma charge_output_Ok_not_cancelled:
  "query_charge_output u e r = Some (Ok x, e', r') \<Longrightarrow> \<not> run_cancelled r"
  by (auto simp: query_charge_output_def andThen_def check_cancelled_def throw_def)

lemma pop_step:
  assumes "run_step fp w h e r h' e' r'" "run_stack r = S @ [k]"
  shows "run_step fp w h e (r\<lparr>run_stack := S\<rparr>) h' e' (r'\<lparr>run_stack := S\<rparr>)"
  using assms run_frame_subset[of "set (S @ [k])" e e' "set S"] by (auto simp: run_step_def)

lemma memo_value_Ok:
  "memo_value k e r = Some (res, e', r') \<Longrightarrow> memo_is e k v \<Longrightarrow> res = Ok v"
  by (auto simp: memo_value_def memo_is_def ret_def)

lemma commit_step:
  assumes inv: "engine_inv fp w h e" and q: "bm_get (queries e) k = Some q" and nc: "\<And>n. \<not> clean_at e k n"
    and rec: "recorded h (q k) [] (Ok (v, obs)) e r" and st: "run_stack r = S @ [k]" "k \<notin> set S"
    and run: "commit_output fp k v obs e r = Some (res, e', r')"
  shows "\<exists>h'. run_step fp w h e (r\<lparr>run_stack := S\<rparr>) h' e' (r'\<lparr>run_stack := S\<rparr>) \<and> run_stack r' = S @ [k] \<and>
    (\<forall>v. res = Ok v \<longrightarrow> memo_is e' k v)"
  using run unfolding commit_output_def
proof (cases rule: andThen_SomeE)
  case (1 u e1 r1)
  note cc = charging_current[OF charge_steps(2) 1(1)]
  have step: "run_step fp w h e r h e1 r1" by (rule charging_step[OF charge_steps(2) inv 1(1)])
  then have inv1: "engine_inv fp w h e1" by (simp add: run_step_def)
  note step = pop_step[OF step st(1)]
  from rec charge_output_Ok_not_cancelled[OF 1(1)] have
    f: "follows h w (q k) obs v" "\<And>ob. ob \<in> set obs \<Longrightarrow> observation_is_current e1 ob"
    by (auto simp: recorded_def cc(1))
  show ?thesis
  proof (cases "commit_value fp k v obs e1 :: ('k incremental_error, _) outcome")
    case (Ok e2)
    have "\<exists>h'. extends_history h h' \<and> engine_inv fp w h' e2 \<and> run_frame (set S) e1 e2 \<and> memo_is e2 k v"
      by (rule commit_value_step[where q = q and deps = obs]) (use inv1 f Ok st(2) nc q cc in auto)
    then obtain h' where h': "extends_history h h'" "engine_inv fp w h' e2" "run_frame (set S) e1 e2" "memo_is e2 k v"
      by blast
    from 1(2) Ok have m: "memo_value k e2 r1 = Some (res, e', r')" by simp
    have r: "res = Ok v" "e' = e2" "r' = r1" using memo_value_result[OF m] memo_value_Ok[OF m h'(4)] by simp_all
    have "run_step fp w h e1 (r1\<lparr>run_stack := S\<rparr>) h' e2 (r1\<lparr>run_stack := S\<rparr>)"
      using h' by (simp add: run_step_def)
    from run_step_trans[OF step this] h'(4) r cc(5) st(1) show ?thesis by auto
  qed (use 1 step cc(5) st(1) in \<open>auto simp: throw_def\<close>)
next
  case (2 res1)
  have "run_step fp w h e r h e' r'" by (rule charging_step[OF charge_steps(2) inv 2(1)])
  from pop_step[OF this st(1)] charging_current(5)[OF charge_steps(2) 2(1)] 2(3) st(1) show ?thesis by auto
qed

lemma recompute_step:
  assumes inv: "engine_inv fp w h e" and nc: "\<And>n. \<not> clean_at e k n"
    and run: "recompute fp w ev k e r = Some (res, e', r')" and st: "run_stack r = S @ [k]" "k \<notin> set S"
  shows "\<exists>h'. run_step fp w h e (r\<lparr>run_stack := S\<rparr>) h' e' (r'\<lparr>run_stack := S\<rparr>) \<and> run_stack r' = S @ [k] \<and>
    (\<forall>v. res = Ok v \<longrightarrow> memo_is e' k v)"
  using run unfolding recompute_def
proof (cases rule: andThen_SomeE)
  case (1 u e1 r1)
  note cc = charging_current[OF charge_steps(1) 1(1)]
  have step1: "run_step fp w h e r h e1 r1" by (rule charging_step[OF charge_steps(1) inv 1(1)])
  then have inv1: "engine_inv fp w h e1" by (simp add: run_step_def)
  note step1' = pop_step[OF step1 st(1)]
  show ?thesis
  proof (cases "bm_get (queries e1) k")
    case None
    with 1(2) step1' cc(5) st(1) show ?thesis by (auto simp: throw_def run_query_def)
  next
    case (Some q)
    have d: "disciplined (q k)" using inv1 Some by (simp add: engine_inv_def)
    from 1(2) Some have "andThen (run_body w ev (q k) []) (\<lambda>vo. commit_output fp k (fst vo) (snd vo)) e1 r1
        = Some (res, e', r')" by (simp add: run_query_def)
    then show ?thesis
    proof (cases rule: andThen_SomeE)
      case (1 vo e2 r2)
      obtain v obs where vo: "vo = (v, obs)" by (cases vo)
      from run_body_step[OF d inv1 1(1)] obtain h2 where
        h2: "run_step fp w h e1 r1 h2 e2 r2" "recorded h2 (q k) [] (Ok (v, obs)) e2 r2" unfolding vo by blast
      have st2: "run_stack r2 = S @ [k]" "run_stack r1 = S @ [k]" using h2(1) cc(5) st(1) by (simp_all add: run_step_def)
      have keep: "engine_inv fp w h2 e2" "queries e2 = queries e1" "bm_get (nodes e2) k = bm_get (nodes e1) k"
        using h2(1) st2 by (auto simp: run_step_def run_frame_def)
      have "\<exists>h'. run_step fp w h2 e2 (r2\<lparr>run_stack := S\<rparr>) h' e' (r'\<lparr>run_stack := S\<rparr>) \<and> run_stack r' = S @ [k] \<and>
          (\<forall>v. res = Ok v \<longrightarrow> memo_is e' k v)"
        by (rule commit_step[where q = q and v = v and obs = obs]) (use h2(2) st2(1) st(2) 1(2) vo keep Some nc cc in auto)
      with run_step_trans[OF step1' run_step_trans[OF pop_step[OF h2(1) st2(2)]]] show ?thesis by blast
    next
      case (2 res1)
      from run_body_step[OF d inv1 2(1)] obtain h2 where h2: "run_step fp w h e1 r1 h2 e' r'" by blast
      have "run_stack r' = S @ [k]" "run_stack r1 = S @ [k]" using h2 cc(5) st(1) by (simp_all add: run_step_def)
      with run_step_trans[OF step1' pop_step[OF h2]] 2(3) show ?thesis by blast
    qed
  qed
next
  case (2 res1)
  have "run_step fp w h e r h e' r'" by (rule charging_step[OF charge_steps(1) inv 2(1)])
  from pop_step[OF this st(1)] charging_current(5)[OF charge_steps(1) 2(1)] 2(3) st(1) show ?thesis by auto
qed

lemma evaluate_pushed_step:
  assumes inv: "engine_inv fp w h e" and run: "evaluate_pushed fp w ev k e (r\<lparr>run_stack := S @ [k]\<rparr>) = Some (res, e', r')"
    and S: "k \<notin> set S" "run_stack r = S"
  shows "\<exists>h'. run_step fp w h e r h' e' (r'\<lparr>run_stack := S\<rparr>) \<and> run_stack r' = S @ [k] \<and>
    (\<forall>v. res = Ok v \<longrightarrow> memo_is e' k v)"
  using run unfolding evaluate_pushed_def
proof (cases rule: andThen_SomeE)
  case (1 reused e1 r1)
  from try_reuse_memo_step[OF inv 1(1) S] obtain h1 where
    h1: "run_step fp w h e r h1 e1 (r1\<lparr>run_stack := S\<rparr>)" "run_stack r1 = S @ [k]"
      "reused \<Longrightarrow> \<exists>n. clean_at e1 k n" "\<not> reused \<Longrightarrow> \<forall>n. \<not> clean_at e1 k n" by fastforce
  have inv1: "engine_inv fp w h1 e1" using h1(1) by (simp add: run_step_def)
  show ?thesis
  proof (cases reused)
    case True
    with h1(3) obtain n where n: "clean_at e1 k n" by auto
    from 1(2) True have m: "memo_value k e1 r1 = Some (res, e', r')" by simp
    then have "memo_is e' k v" if "res = Ok v" for v
      using that n by (auto simp: memo_is_def memo_value_def ret_def throw_def split: option.splits)
    with h1(1,2) memo_value_result[OF m] show ?thesis by blast
  next
    case False
    with 1(2) have "recompute fp w ev k e1 r1 = Some (res, e', r')" by simp
    from recompute_step[OF inv1 _ this h1(2) S(1)] h1(4) False obtain h2 where
      "run_step fp w h1 e1 (r1\<lparr>run_stack := S\<rparr>) h2 e' (r'\<lparr>run_stack := S\<rparr>)" "run_stack r' = S @ [k]"
      "\<forall>v. res = Ok v \<longrightarrow> memo_is e' k v" by auto
    with run_step_trans[OF h1(1)] show ?thesis by blast
  qed
next
  case (2 res1)
  from try_reuse_memo_step[OF inv 2(1) S] 2(3) show ?thesis by blast
qed

lemma evaluate_step_step:
  assumes inv: "engine_inv fp w h e" and run: "evaluate_step fp w ev k e r = Some (res, e', r')"
  shows "\<exists>h'. run_step fp w h e r h' e' r' \<and> (\<forall>v. res = Ok v \<longrightarrow> memo_is e' k v)"
  using run unfolding evaluate_step_def
proof (cases rule: andThen_SomeE)
  case (1 u e1 r1)
  have same: "e1 = e" "r1 = r" using 1(1) by (auto simp: check_cancelled_def ret_def throw_def split: if_splits)
  show ?thesis
  proof (cases "bm_contains_key k (queries e) \<and> k \<notin> set (run_stack r)")
    case False
    with 1(2) same inv show ?thesis
      by (intro exI[of _ h]) (auto simp: throw_def run_step_def split: if_splits)
  next
    case True
    with 1(2) same have "andThen query_charge_depth (\<lambda>_ e r.
           case evaluate_pushed fp w ev k e (r\<lparr>run_stack := run_stack r @ [k]\<rparr>) of
             None \<Rightarrow> None
           | Some (res, e', r') \<Rightarrow> Some (res, e', r'\<lparr>run_stack := butlast (run_stack r')\<rparr>)) e r = Some (res, e', r')"
      by simp
    then show ?thesis
    proof (cases rule: andThen_SomeE)
      case (1 u e2 r2)
      note cc = charging_current[OF charge_steps(3) 1(1)]
      have step: "run_step fp w h e r h e2 r2" by (rule charging_step[OF charge_steps(3) inv 1(1)])
      then have inv2: "engine_inv fp w h e2" by (simp add: run_step_def)
      from 1(2) obtain r3 where r3: "evaluate_pushed fp w ev k e2 (r2\<lparr>run_stack := run_stack r2 @ [k]\<rparr>) = Some (res, e', r3)"
        "r' = r3\<lparr>run_stack := butlast (run_stack r3)\<rparr>" by (auto split: option.splits)
      have "k \<notin> set (run_stack r2)" using True cc(5) by simp
      from evaluate_pushed_step[OF inv2 r3(1) this refl] obtain h' where
        h': "run_step fp w h e2 r2 h' e' (r3\<lparr>run_stack := run_stack r2\<rparr>)" "run_stack r3 = run_stack r2 @ [k]"
          "\<forall>v. res = Ok v \<longrightarrow> memo_is e' k v" by blast
      from h'(2) r3(2) have "r' = r3\<lparr>run_stack := run_stack r2\<rparr>" by simp
      with run_step_trans[OF step] h'(1,3) show ?thesis by blast
    next
      case (2 res1)
      from charging_step[OF charge_steps(3) inv 2(1)] 2(3) show ?thesis by blast
    qed
  qed
next
  case (2 res1)
  from charging_step[OF charge_steps(5) inv 2(1)] 2(3) show ?thesis by blast
qed

end

lemma evaluate_evaluator: "evaluator fp w (evaluate fp w fuel)"
proof (induction fuel)
  case 0
  show ?case by unfold_locales simp
next
  case (Suc fuel)
  show ?case
    by unfold_locales (use evaluator.evaluate_step_step[OF Suc] in simp)
qed

interpretation engine_evaluator: evaluator fp w "evaluate fp w fuel"
  by (rule evaluate_evaluator)

end
