(* ===== verification/Query_Runs.thy ===== *)
theory Query_Runs
  imports Query_Soundness
begin

text \<open>
  The engine seen from its clients: what \<open>mark_dirty_cascade\<close> dirties, the states an engine can
  reach through its public operations and the invariant of all of them, that \<open>verify\<close> always
  returns, and that what it returns is the value of the registered queries on the current
  external contents.
\<close>

section \<open>The dirty cascade (engine.rs, \<open>mark_dirty_cascade\<close>)\<close>

definition depends_on :: "('k::linorder, 'k bset) bmap \<Rightarrow> ('k \<times> 'k) set" where
  "depends_on rd = {(i, j). j \<in> set (dependents rd i)}"

text \<open>What the memos themselves record: \<open>j\<close> has a dependency on \<open>i\<close>. The reverse index is sound when
  it holds nothing else.\<close>

definition memo_dependencies :: "('k::linorder, ('k, 'v) memo_node) bmap \<Rightarrow> ('k \<times> 'k) set" where
  "memo_dependencies ns = {(i, j). \<exists>n. bm_get ns j = Some n \<and> i \<in> obs_key ` set (node_dependencies n)}"

definition reverse_sound :: "('k::linorder, 'v, 'x) incremental_engine \<Rightarrow> bool" where
  "reverse_sound e \<longleftrightarrow> depends_on (reverse_deps e) \<subseteq> memo_dependencies (nodes e)"

lemma reverse_sound_cong: "reverse_deps e' = reverse_deps e \<Longrightarrow> nodes e' = nodes e \<Longrightarrow> reverse_sound e' = reverse_sound e"
  by (simp add: reverse_sound_def)

lemma memo_dependencies_kept:
  fixes ns ns' :: "('k::linorder, ('k, 'v) memo_node) bmap"
  assumes "\<And>j. map_option node_dependencies (bm_get ns' j) = map_option node_dependencies (bm_get ns j)"
  shows "memo_dependencies ns' = memo_dependencies ns"
proof -
  have "memo_dependencies m = {(i, j). \<exists>deps. map_option node_dependencies (bm_get m j) = Some deps \<and> i \<in> obs_key ` set deps}"
    for m :: "('k, ('k, 'v) memo_node) bmap"
    by (auto simp: memo_dependencies_def)
  from this[of ns] this[of ns'] show ?thesis unfolding assms by (rule trans[OF _ sym, rotated])
qed

lemma mark_dirty_get:
  "bm_get (mark_dirty k ns) j = (if j = k then map_option (node_dirty_update (\<lambda>_. True)) (bm_get ns k) else bm_get ns j)"
  by (auto simp: mark_dirty_def split: option.splits)

lemma closure_leaves:
  assumes "(i, j) \<in> (depends_on rd)\<^sup>*" "i \<in> seen" "j \<notin> seen"
    and "\<And>s. s \<in> seen \<Longrightarrow> set (dependents rd s) \<subseteq> seen \<union> P"
  shows "\<exists>x\<in>P - seen. (x, j) \<in> (depends_on rd)\<^sup>*"
  using assms(1,2)
proof (induction rule: converse_rtrancl_induct)
  case base
  with assms(3) show ?case by simp
next
  case (step i i')
  show ?case
  proof (cases "i' \<in> seen")
    case True
    then show ?thesis by (rule step.IH)
  next
    case False
    with step.hyps(1) step.prems assms(4)[of i] have "i' \<in> P" by (auto simp: depends_on_def)
    with False step.hyps(2) show ?thesis by blast
  qed
qed

lemma cascade_loop_get:
  assumes "\<And>s. s \<in> bs_set seen \<Longrightarrow> set (dependents rd s) \<subseteq> bs_set seen \<union> bs_set pending"
  shows "bm_get (cascade_loop rd pending seen ns) j =
    (if j \<in> (depends_on rd)\<^sup>* `` bs_set pending - bs_set seen
     then map_option (node_dirty_update (\<lambda>_. True)) (bm_get ns j) else bm_get ns j)"
  using assms
proof (induction rd pending seen ns rule: cascade_loop.induct)
  case (1 rd pending seen ns)
  show ?case
  proof (cases "bs_pop_first pending")
    case None
    then have "bs_set pending = {}" by simp
    with None show ?thesis by (subst cascade_loop.simps) simp
  next
    case (Some p)
    obtain n rest where p: "p = (n, rest)" by (cases p)
    with Some have pop: "bs_pop_first pending = Some (n, rest)" by simp
    from bs_pop_first_Some[OF pop] have P: "bs_set pending = insert n (bs_set rest)" "n \<notin> bs_set rest" by auto
    show ?thesis
    proof (cases "n \<in> bs_set seen")
      case True
      have closed: "set (dependents rd s) \<subseteq> bs_set seen \<union> bs_set rest" if "s \<in> bs_set seen" for s
        using "1.prems"[OF that] True P by auto
      have "(depends_on rd)\<^sup>* `` bs_set pending - bs_set seen = (depends_on rd)\<^sup>* `` bs_set rest - bs_set seen"
      proof -
        have "j \<in> (depends_on rd)\<^sup>* `` bs_set rest" if "(n, j) \<in> (depends_on rd)\<^sup>*" "j \<notin> bs_set seen" for j
          using closure_leaves[OF that(1) True that(2) closed] by auto
        with P(1) show ?thesis by auto
      qed
      moreover have "cascade_loop rd pending seen ns = cascade_loop rd rest seen ns"
        by (subst cascade_loop.simps) (simp add: pop True)
      ultimately show ?thesis using "1.IH"(1)[OF pop refl _ closed] True by simp
    next
      case False
      let ?R = "(depends_on rd)\<^sup>*"
      have closed: "set (dependents rd s) \<subseteq> bs_set (bs_insert n seen) \<union> bs_set (bs_extend (dependents rd n) rest)"
        if "s \<in> bs_set (bs_insert n seen)" for s
        using that "1.prems"[of s] P by auto
      have "?R `` {n} = insert n (?R `` set (dependents rd n))"
        by (auto simp: depends_on_def elim: converse_rtranclE intro: converse_rtrancl_into_rtrancl)
      then have R: "?R `` bs_set pending - bs_set seen =
          insert n (?R `` bs_set (bs_extend (dependents rd n) rest) - bs_set (bs_insert n seen))"
        using False P by auto
      have unfold: "cascade_loop rd pending seen ns =
          cascade_loop rd (bs_extend (dependents rd n) rest) (bs_insert n seen) (mark_dirty n ns)"
        by (subst cascade_loop.simps) (simp add: pop False)
      have "\<not> bs_contains n seen" using False by simp
      from "1.IH"(2)[OF pop refl this closed] show ?thesis
        unfolding unfold R by (simp add: mark_dirty_get)
    qed
  qed
qed

lemma mark_dirty_cascade_get:
  "bm_get (nodes (mark_dirty_cascade k e)) j =
    (if (k, j) \<in> (depends_on (reverse_deps e))\<^sup>*
     then map_option (node_dirty_update (\<lambda>_. True)) (bm_get (nodes e) j) else bm_get (nodes e) j)"
  using cascade_loop_get[of bs_empty "reverse_deps e" "bs_insert k bs_empty" "nodes e" j]
  by (simp add: mark_dirty_cascade_def Image_singleton)

lemma mark_dirty_cascade_sel [simp]:
  "queries (mark_dirty_cascade k e) = queries e" "reverse_deps (mark_dirty_cascade k e) = reverse_deps e"
  "source_revisions (mark_dirty_cascade k e) = source_revisions e" "next_revision (mark_dirty_cascade k e) = next_revision e"
  "continuations (mark_dirty_cascade k e) = continuations e" "next_token (mark_dirty_cascade k e) = next_token e"
  by (simp_all add: mark_dirty_cascade_def)

lemma memo_dependencies_cascade [simp]: "memo_dependencies (nodes (mark_dirty_cascade k e)) = memo_dependencies (nodes e)"
  by (rule memo_dependencies_kept) (simp add: mark_dirty_cascade_get option.map_comp comp_def)

section \<open>The reverse index holds recorded dependencies only\<close>

lemma dependents_dropped:
  "set (dependents (fold (drop_dependent k) obs rd) j) \<subseteq> set (dependents rd j) - (if j \<in> obs_key ` set obs then {k} else {})"
proof (induction obs arbitrary: rd)
  case (Cons ob obs)
  have "set (dependents (fold (drop_dependent k) obs (drop_dependent k ob rd)) j)
      \<subseteq> set (dependents (drop_dependent k ob rd) j) - (if j \<in> obs_key ` set obs then {k} else {})" by (rule Cons)
  also have "\<dots> \<subseteq> set (dependents rd j) - (if j \<in> obs_key ` set (ob # obs) then {k} else {})"
    by (auto simp: dependents_drop)
  finally show ?case by simp
qed simp

lemma dependents_remove: "set (dependents (bm_remove k rd) j) \<subseteq> set (dependents rd j)"
  by (simp add: dependents_def)

lemma engine_new_sound: "reverse_sound engine_new"
  by (simp add: reverse_sound_def depends_on_def dependents_def engine_new_def)

lemma mark_dirty_cascade_sound [simp]: "reverse_sound (mark_dirty_cascade k e) = reverse_sound e"
  by (simp add: reverse_sound_def)

lemma register_query_sound:
  assumes "reverse_sound e"
  shows "reverse_sound (register_query k q e)"
proof -
  let ?node = "case bm_get (nodes e) k of None \<Rightarrow> default_node | Some n \<Rightarrow> n"
  have "memo_dependencies (nodes e) \<subseteq> memo_dependencies (bm_insert k (?node\<lparr>node_dirty := True\<rparr>) (nodes e))"
    by (auto simp: memo_dependencies_def split: option.splits)
  with assms show ?thesis by (auto simp: register_query_def Let_def reverse_sound_def)
qed

lemma invalidate_sound: "invalidate k e = Ok (r, e') \<Longrightarrow> reverse_sound e \<Longrightarrow> reverse_sound e'"
  by (auto simp: invalidate_def alloc_revision_def outcome_simps reverse_sound_def split: if_splits)

lemma commit_value_sound:
  assumes "commit_value fp k v deps e = Ok e'" "reverse_sound e"
  shows "reverse_sound e'"
proof -
  let ?old = "case bm_get (nodes e) k of None \<Rightarrow> [] | Some n \<Rightarrow> node_dependencies n"
  from assms(1) obtain n where nodes: "nodes e' = bm_insert k n (nodes e)" "node_dependencies n = deps"
    and rd: "reverse_deps e' = fold (add_dependent k) deps (fold (drop_dependent k) ?old (reverse_deps e))"
    by (auto simp: commit_value_def Let_def outcome_simps alloc_revision_def split: option.splits if_splits)
  have "(i, j) \<in> memo_dependencies (nodes e')" if "j \<in> set (dependents (reverse_deps e') i)" for i j
  proof (cases "j = k \<and> i \<in> obs_key ` set deps")
    case False
    with that dependents_dropped[of k ?old "reverse_deps e" i]
    have ij: "j \<in> set (dependents (reverse_deps e) i)" "j = k \<longrightarrow> i \<notin> obs_key ` set ?old"
      unfolding rd dependents_adds by (auto split: if_splits)
    with assms(2) have "(i, j) \<in> memo_dependencies (nodes e)" by (auto simp: reverse_sound_def depends_on_def)
    with ij(2) show ?thesis by (auto simp: memo_dependencies_def nodes(1))
  qed (simp add: memo_dependencies_def nodes)
  then show ?thesis by (auto simp: reverse_sound_def depends_on_def)
qed

lemma detach_node_sound:
  assumes "reverse_sound e"
  shows "reverse_sound (detach_node k e)"
proof (cases "bm_get (nodes e) k")
  case (Some n)
  let ?e = "detach_node k e"
  have "(i, j) \<in> memo_dependencies (nodes ?e)" if "j \<in> set (dependents (reverse_deps ?e) i)" for i j
  proof -
    from that have "j \<in> set (dependents (fold (drop_dependent k) (node_dependencies n) (reverse_deps e)) i)"
      using dependents_remove[of k _ i] by (auto simp: detach_node_def Some)
    with dependents_dropped[of k "node_dependencies n" "reverse_deps e" i]
    have ij: "j \<in> set (dependents (reverse_deps e) i)" "j = k \<longrightarrow> i \<notin> obs_key ` set (node_dependencies n)"
      by (auto split: if_splits)
    with assms have "(i, j) \<in> memo_dependencies (nodes e)" by (auto simp: reverse_sound_def depends_on_def)
    with ij(2) Some show ?thesis by (auto simp: memo_dependencies_def detach_node_def)
  qed
  then show ?thesis by (auto simp: reverse_sound_def depends_on_def)
qed (use assms in \<open>simp add: detach_node_def\<close>)

lemma remove_query_sound: "reverse_sound e \<Longrightarrow> reverse_sound (snd (remove_query k e))"
  by (auto simp: remove_query_def reverse_sound_cong[of "e\<lparr>queries := _\<rparr>" e] intro!: detach_node_sound)

lemma set_clean_sound: "reverse_sound e \<Longrightarrow> reverse_sound (set_clean k e)"
  by (auto simp: set_clean_def reverse_sound_def memo_dependencies_def split: option.splits)

section \<open>The invariant through the public operations\<close>

lemma memo_ok_stale:
  assumes "memo_ok fp w h e k n" "bm_get (queries e') k = bm_get (queries e) k"
    and "\<And>i. k \<in> set (dependents (reverse_deps e) i) \<Longrightarrow> i \<in> obs_key ` set (node_dependencies n) \<Longrightarrow>
      k \<in> set (dependents (reverse_deps e') i)"
  shows "memo_ok fp w h e' k (n\<lparr>node_dirty := True\<rparr>)"
  using assms unfolding memo_ok_def by (auto split: option.splits)

lemma memo_ok_kept:
  assumes "memo_ok fp w h e k n" "bm_get (queries e') k = bm_get (queries e) k"
    and "\<And>i. k \<in> set (dependents (reverse_deps e) i) \<Longrightarrow> i \<in> obs_key ` set (node_dependencies n) \<Longrightarrow>
      k \<in> set (dependents (reverse_deps e') i)"
    and "\<And>i. i \<in> obs_key ` set (node_dependencies n) \<Longrightarrow>
      bm_get (nodes e') i = bm_get (nodes e) i \<and> source_revision e' i = source_revision e i"
  shows "memo_ok fp w h e' k n"
proof -
  have "observation_is_current e' ob = observation_is_current e ob" if "ob \<in> set (node_dependencies n)" for ob
    using assms(4)[of "obs_key ob"] that by (simp add: observation_is_current_def split: observation_kind.split)
  with assms(1-3) show ?thesis unfolding memo_ok_def by (auto split: option.splits)
qed

lemma cascade_inv:
  assumes inv: "engine_inv fp w h e" and rd: "reverse_deps e1 = reverse_deps e"
    and others: "\<And>j. j \<noteq> k \<Longrightarrow> bm_get (nodes e1) j = bm_get (nodes e) j \<and>
      source_revision e1 j = source_revision e j \<and> bm_get (queries e1) j = bm_get (queries e) j"
    and k: "\<And>n. bm_get (nodes e1) k = Some n \<Longrightarrow> memo_ok fp w h e1 k (n\<lparr>node_dirty := True\<rparr>)"
    and "next_revision e \<le> next_revision e1"
    and disc: "\<And>q. bm_get (queries e1) k = Some q \<Longrightarrow> disciplined (q k)"
  shows "engine_inv fp w h (mark_dirty_cascade k e1)"
proof -
  let ?e = "mark_dirty_cascade k e1" and ?R = "(depends_on (reverse_deps e))\<^sup>*"
  have src: "source_revision ?e i = source_revision e1 i" for i by (simp add: source_revision_def)
  have get: "bm_get (nodes ?e) i =
      (if (k, i) \<in> ?R then map_option (node_dirty_update (\<lambda>_. True)) (bm_get (nodes e1) i) else bm_get (nodes e1) i)" for i
    using mark_dirty_cascade_get[of k e1 i] by (simp add: rd)
  have clean: "clean_at e j n \<and> j \<noteq> k \<and> (k, j) \<notin> ?R" if "clean_at ?e j n" for j n
  proof -
    from that get[of j] have u: "(k, j) \<notin> ?R" "bm_get (nodes e1) j = Some n"
      by (auto split: if_splits simp: eq_commute[of "Some n"])
    then have "j \<noteq> k" by blast
    with u others[of j] that show ?thesis by auto
  qed
  have "memo_ok fp w h ?e j m" if j: "bm_get (nodes ?e) j = Some m" for j m
  proof (cases "j = k")
    case True
    then obtain n where "bm_get (nodes e1) k = Some n" "m = n\<lparr>node_dirty := True\<rparr>"
      using j get by auto
    with memo_ok_stale[OF k[of n], of ?e] True show ?thesis by simp
  next
    case False
    show ?thesis
    proof (cases "(k, j) \<in> ?R")
      case True
      with j get False others obtain n where n: "bm_get (nodes e) j = Some n" "m = n\<lparr>node_dirty := True\<rparr>" by auto
      with inv have "memo_ok fp w h e j n" by (simp add: engine_inv_def)
      from memo_ok_stale[OF this, of ?e] n(2) others[OF False] rd show ?thesis by simp
    next
      case unreached: False
      with j get False others have m: "bm_get (nodes e) j = Some m" by auto
      with inv have ok: "memo_ok fp w h e j m" by (simp add: engine_inv_def)
      have "(k, i) \<notin> ?R" if "i \<in> obs_key ` set (node_dependencies m)" for i
      proof
        assume "(k, i) \<in> ?R"
        moreover have "(i, j) \<in> depends_on (reverse_deps e)" using ok that by (auto simp: memo_ok_def depends_on_def)
        ultimately show False using unreached by (blast intro: rtrancl_into_rtrancl)
      qed
      then have same: "bm_get (nodes ?e) i = bm_get (nodes e) i \<and> source_revision ?e i = source_revision e i"
        if "i \<in> obs_key ` set (node_dependencies m)" for i
        using that get[of i] others[of i] src[of i] by (cases "i = k") auto
      show ?thesis
        by (rule memo_ok_kept[OF ok _ _ same]) (use others[OF False] rd in auto)
    qed
  qed
  moreover have "\<exists>rank. ranked ?e rank"
    using inv clean unfolding engine_inv_def ranked_def by meson
  moreover have "disciplined (q j)" if "bm_get (queries ?e) j = Some q" for j q
    using that inv disc[of q] others[of j] by (cases "j = k") (auto simp: engine_inv_def)
  moreover have "r < next_revision ?e" if "h j r = Some v" for j r v
    using inv that assms(5) unfolding engine_inv_def mark_dirty_cascade_sel by (meson less_le_trans)
  ultimately show ?thesis unfolding engine_inv_def by blast
qed

lemma engine_new_inv: "engine_inv fp w (\<lambda>_ _. None) engine_new"
  by (simp add: engine_inv_def engine_new_def ranked_def)

lemma register_query_inv:
  assumes inv: "engine_inv fp w h e" and fresh: "bm_get (queries e) k = None" and "disciplined (q k)"
  shows "engine_inv fp w h (register_query k q e)"
proof -
  let ?n = "case bm_get (nodes e) k of None \<Rightarrow> default_node | Some n \<Rightarrow> n"
  let ?e = "e\<lparr>queries := bm_insert k q (queries e), nodes := bm_insert k (?n\<lparr>node_dirty := True\<rparr>) (nodes e)\<rparr>"
  have "node_value ?n = None \<and> node_dependencies ?n = []"
  proof (cases "bm_get (nodes e) k")
    case None
    then show ?thesis by (simp add: default_node_def)
  next
    case (Some n)
    with inv have "memo_ok fp w h e k n" by (simp add: engine_inv_def)
    with Some fresh show ?thesis by (auto simp: memo_ok_def split: option.splits)
  qed
  then have "engine_inv fp w h (mark_dirty_cascade k ?e)"
    by (intro cascade_inv[OF inv]) (use assms(3) in \<open>auto simp: memo_ok_def source_revision_def\<close>)
  then show ?thesis by (simp add: register_query_def Let_def)
qed

lemma invalidate_OkD:
  assumes "invalidate k e = Ok (r, e')"
  shows "r = next_revision e"
    "e' = mark_dirty_cascade k (e\<lparr>next_revision := Suc r, source_revisions := bm_insert k r (source_revisions e)\<rparr>)"
  using assms by (auto simp: invalidate_def alloc_revision_def outcome_simps)

lemma invalidate_inv:
  assumes inv: "engine_inv fp w h e" and run: "invalidate k e = Ok (r, e')"
  shows "engine_inv fp w h e'"
proof -
  note e' = invalidate_OkD[OF run]
  show ?thesis
    unfolding e'(2)
  proof (rule cascade_inv[OF inv])
    fix n assume "bm_get (nodes (e\<lparr>next_revision := Suc r, source_revisions := bm_insert k r (source_revisions e)\<rparr>)) k = Some n"
    with inv have "memo_ok fp w h e k n" by (simp add: engine_inv_def)
    then show "memo_ok fp w h (e\<lparr>next_revision := Suc r, source_revisions := bm_insert k r (source_revisions e)\<rparr>) k (n\<lparr>node_dirty := True\<rparr>)"
      by (rule memo_ok_stale) auto
  qed (use inv e'(1) in \<open>auto simp: source_revision_def engine_inv_def\<close>)
qed

lemma detach_node_dependents:
  assumes "dependents (reverse_deps e) k = []" "j \<noteq> k" "j \<in> set (dependents (reverse_deps e) i)"
  shows "j \<in> set (dependents (reverse_deps (detach_node k e)) i)"
proof (cases "bm_get (nodes e) k")
  case (Some n)
  let ?rd = "fold (drop_dependent k) (node_dependencies n) (reverse_deps e)"
  have "i \<noteq> k" using assms by auto
  moreover have "j \<in> set (dependents ?rd i)"
    using dependents_drops[of "reverse_deps e" i k] assms(2,3) by blast
  ultimately show ?thesis using Some by (simp add: detach_node_def dependents_def)
qed (use assms in \<open>simp add: detach_node_def\<close>)

lemma detach_node_sel [simp]:
  "bm_get (nodes (detach_node k e)) j = (if j = k then None else bm_get (nodes e) j)"
  "queries (detach_node k e) = queries e" "source_revisions (detach_node k e) = source_revisions e"
  "next_revision (detach_node k e) = next_revision e" "continuations (detach_node k e) = continuations e"
  "next_token (detach_node k e) = next_token e"
  by (auto simp: detach_node_def split: option.splits)

lemma remove_query_inv:
  assumes inv: "engine_inv fp w h e" and leaf: "dependents (reverse_deps e) k = []"
  shows "engine_inv fp w h (snd (remove_query k e))"
proof (cases "bm_contains_key k (queries e)")
  case True
  let ?e1 = "mark_dirty_cascade k (e\<lparr>queries := bm_remove k (queries e)\<rparr>)"
  let ?e = "detach_node k ?e1"
  have e: "snd (remove_query k e) = ?e" using True by (simp add: remove_query_def)
  have "(k, j) \<notin> (depends_on (reverse_deps e))\<^sup>*" if "j \<noteq> k" for j
    using that leaf by (auto simp: depends_on_def elim: converse_rtranclE)
  then have get: "bm_get (nodes ?e) j = (if j = k then None else bm_get (nodes e) j)" for j
    by (simp add: mark_dirty_cascade_get)
  have src: "source_revision ?e i = source_revision e i" for i by (simp add: source_revision_def)
  have "memo_ok fp w h ?e j m" if j: "bm_get (nodes ?e) j = Some m" for j m
  proof -
    from j get have m: "j \<noteq> k" "bm_get (nodes e) j = Some m" by (auto split: if_splits)
    with inv have ok: "memo_ok fp w h e j m" by (simp add: engine_inv_def)
    then have nk: "i \<noteq> k" if "i \<in> obs_key ` set (node_dependencies m)" for i
      using that leaf by (auto simp: memo_ok_def)
    show ?thesis
    proof (rule memo_ok_kept[OF ok])
      show "bm_get (queries ?e) j = bm_get (queries e) j" using m(1) by simp
      show "j \<in> set (dependents (reverse_deps ?e) i)" if "j \<in> set (dependents (reverse_deps e) i)" for i
        by (rule detach_node_dependents) (use leaf m(1) that in simp_all)
      show "bm_get (nodes ?e) i = bm_get (nodes e) i \<and> source_revision ?e i = source_revision e i"
        if "i \<in> obs_key ` set (node_dependencies m)" for i
        using nk[OF that] get[of i] src[of i] by simp
    qed
  qed
  moreover have "clean_at e j n" if "clean_at ?e j n" for j n
    using that get[of j] by (auto split: if_splits)
  then have "\<exists>rank. ranked ?e rank"
    using inv unfolding engine_inv_def ranked_def by meson
  moreover have "disciplined (q j)" if "bm_get (queries ?e) j = Some q" for j q
    using that inv by (auto simp: engine_inv_def split: if_splits)
  moreover have "r < next_revision ?e" if "h j r = Some v" for j r v
  proof -
    have "r < next_revision e" using inv that unfolding engine_inv_def by blast
    then show ?thesis by simp
  qed
  ultimately show ?thesis unfolding e engine_inv_def by blast
qed (use inv in \<open>simp add: remove_query_def\<close>)

section \<open>Reachable engines\<close>

lemma verify_with_budgets_step:
  assumes "engine_inv fp w h e" "verify_with_budgets fp w k b e = Some (res, e')"
  obtains h' where "engine_inv fp w h' e'" "queries e' = queries e" "source_revisions e' = source_revisions e"
    "\<And>v. res = Ok v \<Longrightarrow> memo_is e' k v"
proof -
  from assms(2) obtain r' where
    "evaluate fp w (evaluation_fuel e) k e (run_state_new k b) = Some (res, e', r')"
    by (auto simp: verify_with_budgets_def)
  from engine_evaluator.ev_step[OF assms(1) this] show ?thesis
    using that by (auto simp: run_step_def run_frame_def)
qed

text \<open>
  The states of an engine under a disciplined use of its public operations: callbacks pass errors of
  frame calls on and use \<open>read\<close> for queries (\<open>disciplined\<close>), a query is registered under a key that
  has none, and removed only when no memo depends on it. The public interface allows more; what
  the engine does outside is the subject of \<open>reregister_reuses_old_value\<close> and
  \<open>remove_query_loses_dependents\<close> in the theory of the query specimen.
\<close>

inductive disciplined_reachable ::
  "('v \<Rightarrow> value_fingerprint) \<Rightarrow> ('k::linorder \<Rightarrow> revision \<Rightarrow> 'x) \<Rightarrow> ('k, 'v, 'x) incremental_engine \<Rightarrow> bool"
  for fp w where
  reach_new: "disciplined_reachable fp w engine_new"
| reach_register: "disciplined_reachable fp w e \<Longrightarrow> bm_get (queries e) k = None \<Longrightarrow> disciplined (q k) \<Longrightarrow>
    disciplined_reachable fp w (register_query k q e)"
| reach_remove: "disciplined_reachable fp w e \<Longrightarrow> dependents (reverse_deps e) k = [] \<Longrightarrow>
    disciplined_reachable fp w (snd (remove_query k e))"
| reach_invalidate: "disciplined_reachable fp w e \<Longrightarrow>
    invalidate k e = (Ok (r, e') :: ('k incremental_error, _) outcome) \<Longrightarrow> disciplined_reachable fp w e'"
| reach_verify: "disciplined_reachable fp w e \<Longrightarrow> verify_with_budgets fp w k b e = Some (res, e') \<Longrightarrow>
    disciplined_reachable fp w e'"
| reach_resume: "disciplined_reachable fp w e \<Longrightarrow> engine_resume fp w t b e = Some (res, e') \<Longrightarrow>
    disciplined_reachable fp w e'"

lemma engine_resume_cases:
  assumes "engine_resume fp w t b e = Some (res, e')"
  obtains "bm_get (continuations e) t = None" "res = Err (UnknownContinuation t)" "e' = e"
    | k e1 where "bm_get (continuations e) t = Some k" "verify_with_budgets fp w k b e = Some (res, e1)"
      "e' = (case res of Ok v \<Rightarrow> e1\<lparr>continuations := bm_remove t (continuations e1)\<rparr> | _ \<Rightarrow> e1)"
proof (cases "bm_get (continuations e) t")
  case None
  show ?thesis by (rule that(1)) (use assms None in \<open>simp_all add: engine_resume_def\<close>)
next
  case (Some k)
  with assms obtain p where p: "verify_with_budgets fp w k b e = Some p"
    "(case p of (res1, e1) \<Rightarrow> case res1 of Ok v \<Rightarrow> (Ok v, e1\<lparr>continuations := bm_remove t (continuations e1)\<rparr>)
       | _ \<Rightarrow> (res1, e1)) = (res, e')"
    unfolding engine_resume_def by auto
  obtain res1 e1 where "p = (res1, e1)" by (cases p)
  with p have 1: "verify_with_budgets fp w k b e = Some (res1, e1)"
    "(case res1 of Ok v \<Rightarrow> (Ok v, e1\<lparr>continuations := bm_remove t (continuations e1)\<rparr>) | _ \<Rightarrow> (res1, e1)) = (res, e')"
    by simp_all
  show ?thesis
    by (cases res1; rule that(2)[OF Some, of e1]) (use 1 in auto)
qed

lemma engine_resume_inv:
  assumes inv: "engine_inv fp w h e" and run: "engine_resume fp w t b e = Some (res, e')"
  shows "\<exists>h'. engine_inv fp w h' e'"
  using run
proof (cases rule: engine_resume_cases)
  case 1
  with inv show ?thesis by blast
next
  case (2 k e1)
  from verify_with_budgets_step[OF inv 2(2)] obtain h' where "engine_inv fp w h' e1" by blast
  moreover have "same_core e1 e'" by (simp add: 2(3) same_core_def split: outcome.split)
  ultimately show ?thesis by (blast intro: same_core_inv)
qed

lemma disciplined_reachable_inv: "disciplined_reachable fp w e \<Longrightarrow> \<exists>h. engine_inv fp w h e"
proof (induction rule: disciplined_reachable.induct)
  case reach_new
  show ?case using engine_new_inv by blast
next
  case (reach_verify e k b res e')
  then obtain h where "engine_inv fp w h e" by blast
  from verify_with_budgets_step[OF this reach_verify(2)] show ?case by blast
qed (blast intro: register_query_inv remove_query_inv invalidate_inv engine_resume_inv)+

lemma verify_inv_value:
  assumes "engine_inv fp w h e" "verify_with_budgets fp w k b e = Some (Ok v, e')"
  shows "denotes (contents w e) (queries e) k v"
proof -
  from verify_with_budgets_step[OF assms] obtain h' where
    h': "engine_inv fp w h' e'" "queries e' = queries e" "source_revisions e' = source_revisions e" "memo_is e' k v"
    by blast
  then obtain n where "clean_at e' k n" "node_value n = Some v" by (auto simp: memo_is_def)
  from clean_denotes[OF h'(1) this] have "denotes (contents w e') (queries e') k v" .
  moreover have "contents w e' = contents w e" using h'(3) by (simp add: contents_def source_revision_def fun_eq_iff)
  ultimately show ?thesis using h'(2) by simp
qed

lemma verify_value:
  assumes "disciplined_reachable fp w e" "verify_with_budgets fp w k b e = Some (Ok v, e')"
  shows "denotes (contents w e) (queries e) k v"
  using disciplined_reachable_inv[OF assms(1)] verify_inv_value[OF _ assms(2)] by blast

inductive_simps denotes_iff: "denotes ext Q k v"

inductive_simps body_denotes_simps [simp]:
  "body_denotes ext Q (Return v) u"
  "body_denotes ext Q (Fail err) u"
  "body_denotes ext Q (ReadQuery k c) u"
  "body_denotes ext Q (Observe kind k c) u"
  "body_denotes ext Q (ChargeWork units c') u"
  "body_denotes ext Q (ChargeOutput units c') u"
  "body_denotes ext Q (Cancel body) u"
  "body_denotes ext Q (CancellationRequested c'') u"

lemma denotes_unique:
  "denotes ext Q k v \<Longrightarrow> denotes ext Q k u \<Longrightarrow> u = v"
  and "body_denotes ext Q body v \<Longrightarrow> body_denotes ext Q body u \<Longrightarrow> u = v"
proof (induction arbitrary: u and u rule: denotes_body_denotes.inducts)
  case (denotes_query k q v)
  then show ?case by (auto simp: denotes_iff[of ext Q k u])
next
  case (denotes_read k x c v)
  from denotes_read(5) obtain y where "denotes ext Q k y" "body_denotes ext Q (c (Inr y)) u" by auto
  with denotes_read(2)[of y] denotes_read(4)[of u] show ?case by simp
qed simp_all

section \<open>Every run returns, within its budgets\<close>

definition within_budgets :: "'k run_state \<Rightarrow> bool" where
  "within_budgets r \<longleftrightarrow> run_work r \<le> max_work (run_budgets r) \<and>
     run_observations r \<le> max_observations (run_budgets r) \<and> run_output r \<le> max_output (run_budgets r)"

text \<open>What every part of a run keeps: the registered queries, the stack, the budgets with their bounds, and the
  soundness of the reverse index.\<close>

definition keeps :: "('k::linorder, 'v, 'x, 'a) comp \<Rightarrow> bool" where
  "keeps m \<longleftrightarrow> (\<forall>e r res e' r'. m e r = Some (res, e', r') \<longrightarrow> queries e' = queries e \<and>
     run_stack r' = run_stack r \<and> run_budgets r' = run_budgets r \<and> (within_budgets r \<longrightarrow> within_budgets r') \<and>
     (reverse_sound e \<longrightarrow> reverse_sound e'))"

lemma keepsD:
  assumes "keeps m" "m e r = Some (res, e', r')"
  shows "queries e' = queries e" "run_stack r' = run_stack r" "run_budgets r' = run_budgets r"
    "within_budgets r \<Longrightarrow> within_budgets r'" "reverse_sound e \<Longrightarrow> reverse_sound e'"
  using assms unfolding keeps_def by blast+

lemma keeps_all:
  assumes "keeps m" "m e r = Some (res, e', r')"
  shows "queries e' = queries e \<and> run_stack r' = run_stack r \<and> run_budgets r' = run_budgets r \<and>
    (within_budgets r \<longrightarrow> within_budgets r') \<and> (reverse_sound e \<longrightarrow> reverse_sound e')"
  using assms unfolding keeps_def by blast

lemma keeps_basic:
  "keeps (ret a)" "keeps (throw err)" "keeps check_cancelled" "keeps (\<lambda>e r. Some (Panic p, e, r))"
  by (auto simp: keeps_def ret_def throw_def check_cancelled_def split: if_splits)

lemma keeps_andThen:
  assumes m: "keeps m" and f: "\<And>a. keeps (f a)"
  shows "keeps (andThen m f)"
  unfolding keeps_def
proof (intro allI impI)
  fix e r res e' r' assume "andThen m f e r = Some (res, e', r')"
  then show "queries e' = queries e \<and> run_stack r' = run_stack r \<and> run_budgets r' = run_budgets r \<and>
      (within_budgets r \<longrightarrow> within_budgets r') \<and> (reverse_sound e \<longrightarrow> reverse_sound e')"
  proof (cases rule: andThen_SomeE)
    case (1 a e1 r1)
    from keepsD[OF m 1(1)] keepsD[OF f 1(2)] show ?thesis by simp
  next
    case (2 res1)
    from keepsD[OF m 2(1)] show ?thesis by simp
  qed
qed

lemma keeps_budget_error: "keeps (budget_error kind limit consumed)"
  by (auto simp: keeps_def budget_error_def alloc_continuation_def throw_def outcome_simps reverse_sound_def split: outcome.splits)

lemma keeps_state:
  "(\<And>e r. \<exists>m. keeps m \<and> g e r = m e r) \<Longrightarrow> keeps g"
  unfolding keeps_def by metis

lemma keeps_cond: "keeps m \<Longrightarrow> keeps m' \<Longrightarrow> keeps (\<lambda>e r. if P e r then m e r else m' e r)"
  unfolding keeps_def by simp

lemma keeps_throw: "keeps (\<lambda>e r. throw (err e r) e r)"
  by (simp add: keeps_def throw_def)

lemma keeps_charges:
  "keeps (query_charge_work u)" "keeps (query_charge_output u)" "keeps query_charge_depth" "keeps query_charge_observation"
proof -
  have "keeps (\<lambda>e r. let consumed = saturating_add (run_work r) u; limit = max_work (run_budgets r) in
     if consumed > limit then budget_error Work limit consumed e r
     else if run_work r + u > usize_max then Some (Panic ''attempt to add with overflow'', e, r)
     else ret () e (r\<lparr>run_work := run_work r + u\<rparr>))"
    by (auto simp: keeps_def Let_def ret_def within_budgets_def saturating_add_def split: if_splits
        dest: keepsD[OF keeps_budget_error])
  then show "keeps (query_charge_work u)"
    unfolding query_charge_work_def by (rule keeps_andThen[OF keeps_basic(3)])
  have "keeps (\<lambda>e r. let consumed = saturating_add (run_output r) u; limit = max_output (run_budgets r) in
     if consumed > limit then budget_error Output limit consumed e r
     else if run_output r + u > usize_max then Some (Panic ''attempt to add with overflow'', e, r)
     else ret () e (r\<lparr>run_output := run_output r + u\<rparr>))"
    by (auto simp: keeps_def Let_def ret_def within_budgets_def saturating_add_def split: if_splits
        dest: keepsD[OF keeps_budget_error])
  then show "keeps (query_charge_output u)"
    unfolding query_charge_output_def by (rule keeps_andThen[OF keeps_basic(3)])
  show "keeps query_charge_depth"
    by (auto simp: keeps_def query_charge_depth_def Let_def ret_def split: if_splits dest: keepsD[OF keeps_budget_error])
  show "keeps query_charge_observation"
    by (auto simp: keeps_def query_charge_observation_def Let_def ret_def within_budgets_def saturating_add_def
        split: if_splits dest: keepsD[OF keeps_budget_error])
qed

text \<open>
  A bounded evaluator returns whenever fewer than \<open>n\<close> registered queries are off the stack, and
  keeps what a run keeps.
\<close>

definition off_stack :: "('k::linorder, 'v, 'x) incremental_engine \<Rightarrow> 'k run_state \<Rightarrow> nat" where
  "off_stack e r = card (set (bm_keys (queries e)) - set (run_stack r))"

lemma off_stack_keeps: "keeps m \<Longrightarrow> m e r = Some (res, e', r') \<Longrightarrow> off_stack e' r' = off_stack e r"
  by (simp add: off_stack_def keepsD)

locale bounded_evaluator =
  fixes ev :: "'k::linorder \<Rightarrow> ('k, 'v, 'x, 'v) comp" and n :: nat
  assumes ev_keeps: "keeps (ev k)"
    and ev_returns: "off_stack e r < n \<Longrightarrow> ev k e r \<noteq> None"
begin

lemma andThen_returns:
  assumes "keeps m" "m e r \<noteq> None" "off_stack e r < n" "\<And>a e' r'. off_stack e' r' < n \<Longrightarrow> f a e' r' \<noteq> None"
  shows "andThen m f e r \<noteq> None"
proof -
  from assms(2) obtain res e1 r1 where 1: "m e r = Some (res, e1, r1)" by auto
  then have "off_stack e1 r1 < n" using assms(3) off_stack_keeps[OF assms(1)] by simp
  with assms(4)[of e1 r1] 1 show ?thesis by (auto simp: andThen_def split: outcome.splits)
qed

lemma keeps_observed: "keeps (andThen query_charge_observation (\<lambda>_. ret a))"
  by (intro keeps_andThen keeps_charges keeps_basic)

lemma keeps_frame_read: "keeps (frame_read ev k obs)"
  unfolding frame_read_def
proof (rule keeps_andThen[OF ev_keeps], rule keeps_state)
  fix v e r
  show "\<exists>m. keeps m \<and> (case memo_observation k e of Ok new_obs \<Rightarrow> andThen query_charge_observation (\<lambda>_. ret (v, obs @ [new_obs])) e r
       | Err err \<Rightarrow> throw err e r | Panic p \<Rightarrow> Some (Panic p, e, r)) = m e r"
  proof (cases "memo_observation k e")
    case (Ok x)
    with keeps_observed[of "(v, obs @ [x])"] show ?thesis by auto
  next
    case (Err err)
    with keeps_basic(2)[of err] show ?thesis by auto
  next
    case (Panic p)
    with keeps_basic(4)[of p] show ?thesis by auto
  qed
qed

lemma keeps_frame_observe: "keeps (frame_observe kind k obs)"
  by (rule keeps_state) (use keeps_observed in \<open>force simp: frame_observe_def\<close>)

lemma charges_return:
  "query_charge_observation e r \<noteq> None" "query_charge_work u e r \<noteq> None" "query_charge_output u e r \<noteq> None"
  "query_charge_depth e r \<noteq> None" "check_cancelled e r \<noteq> None"
  by (auto simp: query_charge_observation_def query_charge_work_def query_charge_output_def query_charge_depth_def
      check_cancelled_def budget_error_def throw_def ret_def andThen_def Let_def split: outcome.splits)

lemma frame_read_returns: "off_stack e r < n \<Longrightarrow> frame_read ev k obs e r \<noteq> None"
  unfolding frame_read_def
  by (rule andThen_returns[OF ev_keeps ev_returns])
    (auto simp: andThen_def ret_def throw_def charges_return split: outcome.splits option.splits)

lemma frame_observe_returns: "frame_observe kind k obs e r \<noteq> None"
  using charges_return(1)[of e r] by (auto simp: frame_observe_def andThen_def ret_def split: outcome.splits option.splits)

lemma keeps_run_body: "keeps (run_body w ev body obs)"
proof (induction body arbitrary: obs)
  case (ReadQuery k c)
  have IH: "keeps (run_body w ev (c x) obs')" for x obs' by (rule ReadQuery) simp
  show ?case unfolding keeps_def
    by (auto split: option.splits outcome.splits dest!: keeps_all[OF keeps_frame_read] keeps_all[OF IH])
next
  case (Observe kind k c)
  have IH: "keeps (run_body w ev (c x) obs')" for x obs' by (rule Observe) simp
  show ?case unfolding keeps_def
    by (auto split: option.splits outcome.splits dest!: keeps_all[OF keeps_frame_observe] keeps_all[OF IH])
next
  case (ChargeWork u c)
  have IH: "keeps (run_body w ev (c x) obs')" for x obs' by (rule ChargeWork) simp
  show ?case unfolding keeps_def
    by (auto split: option.splits outcome.splits dest!: keeps_all[OF keeps_charges(1)] keeps_all[OF IH])
next
  case (ChargeOutput u c)
  have IH: "keeps (run_body w ev (c x) obs')" for x obs' by (rule ChargeOutput) simp
  show ?case unfolding keeps_def
    by (auto split: option.splits outcome.splits dest!: keeps_all[OF keeps_charges(2)] keeps_all[OF IH])
next
  case (Cancel body)
  have "within_budgets (r\<lparr>run_cancelled := b\<rparr>) = within_budgets r" for r :: "'k run_state" and b
    by (simp add: within_budgets_def)
  with keeps_all[OF Cancel] show ?case unfolding keeps_def by fastforce
next
  case (CancellationRequested c)
  have "keeps (run_body w ev (c b) obs)" for b by (rule CancellationRequested) simp
  then show ?case by (auto simp: keeps_def)
qed (auto simp: keeps_basic)

lemma run_body_returns: "off_stack e r < n \<Longrightarrow> run_body w ev body obs e r \<noteq> None"
proof (induction body arbitrary: obs e r)
  case (ReadQuery k c)
  obtain res e1 r1 where 1: "frame_read ev k obs e r = Some (res, e1, r1)"
    using frame_read_returns[OF ReadQuery.prems, of k obs] by auto
  have "off_stack e1 r1 < n" using ReadQuery.prems off_stack_keeps[OF keeps_frame_read 1] by simp
  with 1 ReadQuery.IH show ?case by (auto split: outcome.splits)
next
  case (Observe kind k c)
  obtain res e1 r1 where 1: "frame_observe kind k obs e r = Some (res, e1, r1)"
    using frame_observe_returns by fastforce
  have "off_stack e1 r1 < n" using Observe.prems off_stack_keeps[OF keeps_frame_observe 1] by simp
  with 1 Observe.IH show ?case by (auto split: outcome.splits)
next
  case (ChargeWork u c)
  obtain res e1 r1 where 1: "query_charge_work u e r = Some (res, e1, r1)"
    using charges_return(2) by fastforce
  have "off_stack e1 r1 < n" using ChargeWork.prems off_stack_keeps[OF keeps_charges(1) 1] by simp
  with 1 ChargeWork.IH show ?case by (auto split: outcome.splits)
next
  case (ChargeOutput u c)
  obtain res e1 r1 where 1: "query_charge_output u e r = Some (res, e1, r1)"
    using charges_return(3) by fastforce
  have "off_stack e1 r1 < n" using ChargeOutput.prems off_stack_keeps[OF keeps_charges(2) 1] by simp
  with 1 ChargeOutput.IH show ?case by (auto split: outcome.splits)
next
  case (Cancel body)
  then show ?case by (simp add: off_stack_def)
qed (auto simp: ret_def throw_def)

lemma keeps_refresh_reads: "keeps (refresh_reads ev deps)"
  by (induction deps) (auto intro: keeps_basic keeps_andThen ev_keeps)

lemma refresh_reads_returns: "off_stack e r < n \<Longrightarrow> refresh_reads ev deps e r \<noteq> None"
  by (induction deps arbitrary: e r) (auto simp: ret_def intro: andThen_returns[OF ev_keeps ev_returns, simplified])

lemma set_clean_queries [simp]: "queries (set_clean k e) = queries e"
  by (simp add: set_clean_def split: option.split)

lemma keeps_memo_value: "keeps (memo_value k)"
  by (auto simp: keeps_def memo_value_def ret_def throw_def split: option.splits)

lemma memo_value_returns: "memo_value k e r \<noteq> None"
  by (simp add: memo_value_def ret_def throw_def split: option.split)

lemma keeps_reuse_check:
  "keeps (\<lambda>e r. if list_all (observation_is_current e) deps then ret True (set_clean k e) r else ret False e r)"
  by (auto simp: keeps_def ret_def set_clean_sound split: if_splits)

lemma keeps_try_reuse_memo: "keeps (try_reuse_memo ev k)"
proof (rule keeps_state)
  fix e :: "('k, 'v, 'x) incremental_engine" and r :: "'k run_state"
  have first: "keeps (if b then refresh_reads ev deps else ret ())" for b deps
    by (simp add: keeps_refresh_reads keeps_basic)
  show "\<exists>m. keeps m \<and> try_reuse_memo ev k e r = m e r"
  proof (cases "bm_get (nodes e) k = None \<or> (\<exists>n. bm_get (nodes e) k = Some n \<and> node_value n = None)")
    case True
    then have "try_reuse_memo ev k e r = ret False e r" by (auto simp: try_reuse_memo_def)
    with keeps_basic(1)[of False] show ?thesis by metis
  next
    case False
    then obtain n where n: "bm_get (nodes e) k = Some n" "node_value n \<noteq> None" by auto
    show ?thesis
      by (rule exI, rule conjI[OF keeps_andThen[OF first keeps_reuse_check]])
        (simp add: try_reuse_memo_def n Let_def)
  qed
qed

lemma try_reuse_memo_returns: "off_stack e r < n \<Longrightarrow> try_reuse_memo ev k e r \<noteq> None"
proof (cases "bm_get (nodes e) k")
  case (Some m)
  assume "off_stack e r < n"
  from refresh_reads_returns[OF this, of "node_dependencies m"] Some show ?thesis
    by (auto simp: try_reuse_memo_def andThen_def ret_def Let_def split: option.splits outcome.splits)
qed (simp add: try_reuse_memo_def ret_def)

lemma keeps_commit_output: "keeps (commit_output fp k v obs)"
proof -
  have "keeps (\<lambda>e r. case commit_value fp k v obs e of Ok e' \<Rightarrow> memo_value k e' r
      | Err err \<Rightarrow> throw err e r | Panic p \<Rightarrow> Some (Panic p, e, r))"
    unfolding keeps_def
    by (auto simp: throw_def elim: commit_value_OkD split: outcome.splits dest!: keeps_all[OF keeps_memo_value]
        dest: commit_value_sound)
  then show ?thesis unfolding commit_output_def by (rule keeps_andThen[OF keeps_charges(2)])
qed

lemma commit_output_returns: "commit_output fp k v obs e r \<noteq> None"
  using charges_return(3)[of 1 e r] memo_value_returns
  by (auto simp: commit_output_def andThen_def throw_def split: outcome.split)

lemma keeps_run_query: "keeps (run_query fp world ev k)"
proof (rule keeps_state)
  fix e :: "('k, 'v, 'x) incremental_engine" and r :: "'k run_state"
  have "keeps (andThen (run_body world ev (q k) []) (\<lambda>vo. commit_output fp k (fst vo) (snd vo)))" for q
    by (rule keeps_andThen[OF keeps_run_body keeps_commit_output])
  with keeps_basic(2)[of "UnknownQuery k"] show "\<exists>m. keeps m \<and> run_query fp world ev k e r = m e r"
    by (cases "bm_get (queries e) k") (auto simp: run_query_def)
qed

lemma run_query_returns: "off_stack e r < n \<Longrightarrow> run_query fp world ev k e r \<noteq> None"
  unfolding run_query_def
  by (cases "bm_get (queries e) k")
    (simp add: throw_def, simp only: option.case, rule andThen_returns[OF keeps_run_body run_body_returns _ commit_output_returns])

lemma keeps_evaluate_pushed: "keeps (evaluate_pushed fp world ev k)"
  unfolding evaluate_pushed_def recompute_def
  by (rule keeps_andThen[OF keeps_try_reuse_memo])
    (simp add: keeps_memo_value keeps_andThen[OF keeps_charges(1) keeps_run_query])

lemma evaluate_pushed_returns: "off_stack e r < n \<Longrightarrow> evaluate_pushed fp world ev k e r \<noteq> None"
  unfolding evaluate_pushed_def
proof (rule andThen_returns[OF keeps_try_reuse_memo try_reuse_memo_returns])
  fix reused e' and r' :: "'k run_state" assume "off_stack (e' :: ('k, 'v, 'x) incremental_engine) r' < n"
  then have "recompute fp world ev k e' r' \<noteq> None"
    unfolding recompute_def by (rule andThen_returns[OF keeps_charges(1) charges_return(2)]) (rule run_query_returns)
  with memo_value_returns[of k e' r'] show "(if reused then memo_value k else recompute fp world ev k) e' r' \<noteq> None" by simp
qed

lemma evaluate_step_bounded: "bounded_evaluator (evaluate_step fp world ev) (Suc n)"
proof
  fix k
  let ?pushed = "\<lambda>e r. case evaluate_pushed fp world ev k e (r\<lparr>run_stack := run_stack r @ [k]\<rparr>) of
      None \<Rightarrow> None | Some (res, e', r') \<Rightarrow> Some (res, e', r'\<lparr>run_stack := butlast (run_stack r')\<rparr>)"
  have [simp]: "within_budgets (r\<lparr>run_stack := S\<rparr>) = within_budgets r" for r :: "'k run_state" and S
    by (simp add: within_budgets_def)
  have pushed: "keeps ?pushed"
    unfolding keeps_def by (fastforce split: option.splits dest: keeps_all[OF keeps_evaluate_pushed])
  have "keeps (\<lambda>e r. if \<not> bm_contains_key k (queries e) then throw (UnknownQuery k) e r
       else if k \<in> set (run_stack r) then throw (Cycle (cycle_path (run_stack r) k)) e r
       else andThen query_charge_depth (\<lambda>_. ?pushed) e r)"
    by (rule keeps_cond[OF keeps_throw keeps_cond[OF keeps_throw keeps_andThen[OF keeps_charges(3) pushed]]])
  then show "keeps (evaluate_step fp world ev k)"
    unfolding evaluate_step_def by (rule keeps_andThen[OF keeps_basic(3)])
  fix e :: "('k, 'v, 'x) incremental_engine" and r assume o: "off_stack e r < Suc n"
  have push: "off_stack e1 (r1\<lparr>run_stack := run_stack r1 @ [k]\<rparr>) < n"
    if "off_stack e1 r1 < Suc n" "k \<in> set (bm_keys (queries e1))" "k \<notin> set (run_stack r1)"
    for e1 :: "('k, 'v, 'x) incremental_engine" and r1
  proof -
    let ?A = "set (bm_keys (queries e1)) - set (run_stack r1)"
    have "set (bm_keys (queries e1)) - set (run_stack r1 @ [k]) = ?A - {k}" by auto
    moreover have "card ?A = Suc (card (?A - {k}))" by (rule card.remove) (use that(2,3) in auto)
    ultimately have "off_stack e1 r1 = Suc (off_stack e1 (r1\<lparr>run_stack := run_stack r1 @ [k]\<rparr>))"
      unfolding off_stack_def by (cases r1) simp
    with that(1) show ?thesis by simp
  qed
  show "evaluate_step fp world ev k e r \<noteq> None"
  proof (cases "run_cancelled r \<or> k \<notin> set (bm_keys (queries e)) \<or> k \<in> set (run_stack r)")
    case True
    then show ?thesis by (auto simp: evaluate_step_def andThen_def check_cancelled_def throw_def ret_def)
  next
    case False
    obtain res e1 r1 where 1: "query_charge_depth e r = Some (res, e1, r1)" using charges_return(4)[of e r] by auto
    note K = keepsD[OF keeps_charges(3) 1]
    have "evaluate_pushed fp world ev k e1 (r1\<lparr>run_stack := run_stack r1 @ [k]\<rparr>) \<noteq> None"
      by (rule evaluate_pushed_returns, rule push) (use False K o in \<open>auto simp: off_stack_def\<close>)
    with 1 False show ?thesis
      by (auto simp: evaluate_step_def andThen_def check_cancelled_def throw_def ret_def split: outcome.split)
  qed
qed

end

lemma evaluate_bounded: "bounded_evaluator (evaluate fp w fuel) fuel"
proof (induction fuel)
  case 0
  show ?case by unfold_locales (simp_all add: keeps_def)
next
  case (Suc fuel)
  have "evaluate fp w (Suc fuel) = evaluate_step fp w (evaluate fp w fuel)" by (simp add: fun_eq_iff)
  with bounded_evaluator.evaluate_step_bounded[OF Suc] show ?case by simp
qed

interpretation engine_bounded: bounded_evaluator "evaluate fp w fuel" fuel
  by (rule evaluate_bounded)

lemma verify_clean:
  assumes "engine_inv fp w h e" and n: "clean_at e k n" "node_value n = Some v" and "0 < max_depth b"
  shows "verify_with_budgets fp w k b e = Some (Ok v, e)"
proof -
  have ok: "memo_ok fp w h e k n" using assms(1) n(1) by (simp add: engine_inv_def)
  then have cur: "list_all (observation_is_current e) (node_dependencies n)"
    and q: "k \<in> set (bm_keys (queries e))"
    using n by (auto simp: memo_ok_def list_all_iff in_bm_keys_iff)
  have upd: "n\<lparr>node_dirty := False\<rparr> = n" using n(1) by simp
  have "bm_insert k n (nodes e) = nodes e" by (rule bm_ext) (simp add: n)
  then have clean: "set_clean k e = e" using n(1) by (simp add: set_clean_def upd)
  have "saturating_add 0 1 = (1::nat)" by (simp add: saturating_add_def usize_max_def)
  with n cur q clean assms(4) show ?thesis
    by (simp add: verify_with_budgets_def evaluation_fuel_def evaluate_step_def evaluate_pushed_def andThen_def
        check_cancelled_def query_charge_depth_def try_reuse_memo_def memo_value_def ret_def run_state_new_def)
qed

lemma verify_Some: "\<exists>res e'. verify_with_budgets fp w k b e = Some (res, e')"
proof -
  have "off_stack e (run_state_new k b) < evaluation_fuel e"
    by (simp add: off_stack_def run_state_new_def evaluation_fuel_def bm_len_keys)
  from engine_bounded.ev_returns[OF this] show ?thesis
    unfolding verify_with_budgets_def by (metis (no_types, lifting) map_option_eq_Some not_None_eq old.prod.exhaust)
qed

lemma disciplined_reachable_sound: "disciplined_reachable fp w e \<Longrightarrow> reverse_sound e"
proof (induction rule: disciplined_reachable.induct)
  case (reach_verify e k b res e')
  then show ?case
    by (auto simp: verify_with_budgets_def dest!: keepsD(5)[OF engine_bounded.ev_keeps])
next
  case (reach_resume e t b res e')
  from reach_resume.hyps(2) show ?case
  proof (cases rule: engine_resume_cases)
    case (2 k e1)
    then have "reverse_sound e1"
      using reach_resume.IH by (auto simp: verify_with_budgets_def dest!: keepsD(5)[OF engine_bounded.ev_keeps])
    with 2(3) show ?thesis by (simp add: reverse_sound_def split: outcome.split)
  qed (use reach_resume.IH in simp)
qed (simp_all add: engine_new_sound register_query_sound remove_query_sound invalidate_sound)

text \<open>On such an engine the reverse index is the inverse of what the memos record.\<close>

lemma disciplined_reachable_index:
  assumes "disciplined_reachable fp w e"
  shows "depends_on (reverse_deps e) = memo_dependencies (nodes e)"
proof
  show "depends_on (reverse_deps e) \<subseteq> memo_dependencies (nodes e)"
    using disciplined_reachable_sound[OF assms] by (simp add: reverse_sound_def)
  from disciplined_reachable_inv[OF assms] obtain h where "engine_inv fp w h e" by blast
  then show "memo_dependencies (nodes e) \<subseteq> depends_on (reverse_deps e)"
    by (auto simp: engine_inv_def memo_ok_def memo_dependencies_def depends_on_def)
qed

section \<open>Properties\<close>

text \<open>
  C2: Whatever \<open>verify_with_budgets\<close> returns for a query, on an engine reached by a disciplined use of
  the public operations, is the value of the registered callbacks run from scratch on the external
  contents of that moment, and that value is the only one. The discipline (\<open>disciplined_reachable\<close>):
  every callback passes errors of frame calls on and uses \<open>read\<close> for queries, no key is registered
  again while it has a query, and no key is removed while a memo depends on it; invalidations,
  verifications and resumptions are unrestricted. Without it the statement fails.
\<close>

theorem verify_sound:
  assumes "disciplined_reachable fp w e" "verify_with_budgets fp w k b e = Some (Ok v, e')"
  shows "denotes (contents w e) (queries e) k v \<and> (\<forall>u. denotes (contents w e) (queries e) k u \<longrightarrow> u = v)"
  using verify_value[OF assms] by (auto dest: denotes_unique(1))

text \<open>
  C10: A verification always comes to an end: the nesting of evaluations is bounded by the number of
  registered queries, whatever the callbacks (which end themselves) read.
\<close>

theorem verify_returns: "\<exists>res e'. verify_with_budgets fp w k b e = Some (res, e')"
  by (rule verify_Some)

text \<open>
  C18: A run never consumes more work, observations or output than its budgets allow, also when it
  ends in an error, and leaves the stack as it found it.
\<close>

theorem evaluate_within_budgets:
  assumes "evaluate fp w fuel k e r = Some (res, e', r')" "within_budgets r"
  shows "within_budgets r' \<and> run_stack r' = run_stack r \<and> run_budgets r' = run_budgets r"
  using keeps_all[OF engine_bounded.ev_keeps assms(1)] assms(2) by simp

text \<open>
  Verifying a clean query of a reachable engine returns the memoised value and changes nothing:
  no callback runs, no revision or token is spent.
\<close>

theorem verify_reuses_clean_memo:
  assumes "disciplined_reachable fp w e" "bm_get (nodes e) k = Some n" "\<not> node_dirty n" "node_value n = Some v"
    and "0 < max_depth b"
  shows "verify_with_budgets fp w k b e = Some (Ok v, e)"
  using disciplined_reachable_inv[OF assms(1)] verify_clean[of fp w _ e k n v b] assms(2-5) by auto

text \<open>
  C17: Invalidating a key, on an engine reached by a disciplined use of the public operations
  (\<open>disciplined_reachable\<close>), dirties exactly the memos that depend on it through the
  dependencies recorded in the memos, directly or through other queries; every other memo is left as
  it is, no memo loses its value, and the revision of the key advances.
\<close>

theorem invalidate_dirties_dependents:
  assumes "disciplined_reachable fp w e" "invalidate k e = Ok (r, e')"
  shows "bm_get (nodes e') j =
    (if (k, j) \<in> (memo_dependencies (nodes e))\<^sup>*
     then map_option (node_dirty_update (\<lambda>_. True)) (bm_get (nodes e) j) else bm_get (nodes e) j) \<and>
    source_revision e' j = (if j = k then next_revision e else source_revision e j)"
  unfolding disciplined_reachable_index[OF assms(1), symmetric] invalidate_OkD[OF assms(2)]
  by (subst mark_dirty_cascade_get) (simp add: source_revision_def invalidate_OkD(1)[OF assms(2)])

text \<open>
  A clean memo of a reachable engine is hereditarily current: every observation it rests on is
  current, so the memos it read are clean too and carry the revision it saw.
\<close>

theorem reachable_clean_current:
  assumes "disciplined_reachable fp w e" "bm_get (nodes e) k = Some n" "\<not> node_dirty n" "ob \<in> set (node_dependencies n)"
  shows "observation_is_current e ob \<and> k \<in> set (dependents (reverse_deps e) (obs_key ob))"
proof -
  from disciplined_reachable_inv[OF assms(1)] obtain h where "engine_inv fp w h e" by blast
  then have "memo_ok fp w h e k n" using assms(2) by (simp add: engine_inv_def)
  with assms(3,4) show ?thesis by (simp add: memo_ok_def)
qed

text \<open>
  Resuming a suspended query returns the sound value for the query the token was issued for and
  consumes the token; with an unknown token it fails and changes nothing.
\<close>

theorem resume_sound:
  assumes "disciplined_reachable fp w e" "engine_resume fp w t b e = Some (res, e')"
  shows "case bm_get (continuations e) t of
      None \<Rightarrow> res = Err (UnknownContinuation t) \<and> e' = e
    | Some k \<Rightarrow> (\<forall>v. res = Ok v \<longrightarrow> denotes (contents w e) (queries e) k v \<and> bm_get (continuations e') t = None)"
  using assms(2)
proof (cases rule: engine_resume_cases)
  case (2 k e1)
  with verify_value[OF assms(1)] show ?thesis by auto
qed simp

end
