(* ===== verification/Snapshot.thy ===== *)
theory Snapshot
  imports Query_Runs
begin

text \<open>
  Snapshots of the memo graph (snapshot.rs of \<open>sim-incremental-core\<close>): the bounded export of the
  memos reachable from a set of roots, and the import that replaces the memos of an engine. A
  snapshot carries no fingerprints; the import recomputes them with the hash \<open>fp\<close> and marks every
  memo dirty.
\<close>

section \<open>Records\<close>

record 'k snapshot_observation =
  so_key :: 'k
  so_kind :: observation_kind
  so_revision :: revision

record ('k, 'v) snapshot_node =
  sn_key :: 'k
  sn_revision :: revision
  sn_dirty :: bool
  sn_value :: "'v option"
  sn_dependencies :: "'k snapshot_observation list"

record ('k, 'v) graph_snapshot =
  snapshot_nodes :: "('k, 'v) snapshot_node list"

record restore_report =
  report_nodes :: usize
  report_recovered_dirty :: usize

section \<open>Export\<close>

definition snapshot_observation_of :: "'k observation \<Rightarrow> 'k snapshot_observation" where
  "snapshot_observation_of obs = \<lparr>so_key = obs_key obs, so_kind = obs_kind obs, so_revision = obs_revision obs\<rparr>"

definition snapshot_node_of :: "'k \<Rightarrow> ('k, 'v) memo_node \<Rightarrow> ('k, 'v) snapshot_node" where
  "snapshot_node_of k node =
     \<lparr>sn_key = k, sn_revision = node_revision node, sn_dirty = node_dirty node, sn_value = node_value node,
      sn_dependencies = map snapshot_observation_of (node_dependencies node)\<rparr>"

definition read_keys :: "('k, 'v) memo_node \<Rightarrow> 'k list" where
  "read_keys node = map obs_key (filter (\<lambda>obs. obs_kind obs = Read) (node_dependencies node))"

definition output_exceeded ::
  "'k \<Rightarrow> usize \<Rightarrow> usize \<Rightarrow> ('k::linorder, 'v, 'x) incremental_engine \<Rightarrow>
   ('k incremental_error, ('k, 'v) snapshot_node list) outcome \<times> ('k, 'v, 'x) incremental_engine" where
  "output_exceeded root limit consumed e =
     (case alloc_continuation root e of
        Ok (token, e') \<Rightarrow> (Err (BudgetExceeded Output limit consumed (Some token)), e')
      | Err err \<Rightarrow> (Err err, e)
      | Panic p \<Rightarrow> (Panic p, e))"

text \<open>Every key the loop can add to its worklist.\<close>

definition all_read_keys :: "('k::linorder, 'v, 'x) incremental_engine \<Rightarrow> 'k set" where
  "all_read_keys e = (\<Union>node\<in>set (bm_values (nodes e)). set (read_keys node))"

lemma finite_all_read_keys [simp]: "finite (all_read_keys e)"
  by (simp add: all_read_keys_def)

lemma read_keys_subset: "bm_get (nodes e) k = Some node \<Longrightarrow> set (read_keys node) \<subseteq> all_read_keys e"
  using in_bm_values_iff[of node "nodes e"] by (auto simp: all_read_keys_def)

function snapshot_loop ::
  "'k \<Rightarrow> snapshot_budgets \<Rightarrow> ('k::linorder, 'v, 'x) incremental_engine \<Rightarrow> 'k bset \<Rightarrow> 'k bset \<Rightarrow>
   ('k, 'v) snapshot_node list \<Rightarrow> usize \<Rightarrow>
   ('k incremental_error, ('k, 'v) snapshot_node list) outcome \<times> ('k, 'v, 'x) incremental_engine" where
  "snapshot_loop root budgets e pending seen acc edges =
     (case bs_pop_first pending of
        None \<Rightarrow> (Ok acc, e)
      | Some (key, rest) \<Rightarrow>
          if bs_contains key seen then snapshot_loop root budgets e rest seen acc edges
          else if saturating_add (length acc) 1 > max_nodes budgets
          then output_exceeded root (max_nodes budgets) (saturating_add (length acc) 1) e
          else case bm_get (nodes e) key of
            None \<Rightarrow> (Err (UnknownQuery key), e)
          | Some node \<Rightarrow>
              (let edges' = saturating_add edges (length (node_dependencies node)) in
               if edges' > max_edges budgets then output_exceeded root (max_edges budgets) edges' e
               else snapshot_loop root budgets e (bs_extend (read_keys node) rest) (bs_insert key seen)
                      (acc @ [snapshot_node_of key node]) edges'))"
  by pat_completeness auto
termination
proof (relation "measures [\<lambda>(root, budgets, e, pending, seen, acc, edges). card ((bs_set pending \<union> all_read_keys e) - bs_set seen),
      \<lambda>(root, budgets, e, pending, seen, acc, edges). card (bs_set pending)]", goal_cases)
  case (2 root budgets e pending seen acc edges x key rest)
  then have r: "bs_pop_first pending = Some (key, rest)" by simp
  from bs_pop_first_Some[OF r] have "bs_set rest \<subseteq> bs_set pending" by auto
  then have "card ((bs_set rest \<union> all_read_keys e) - bs_set seen) \<le> card ((bs_set pending \<union> all_read_keys e) - bs_set seen)"
    by (intro card_mono) auto
  with card_bs_pop_first[OF r] show ?case by auto
next
  case (3 root budgets e pending seen acc edges x key rest node edges')
  then have r: "bs_pop_first pending = Some (key, rest)" and new: "key \<notin> bs_set seen" and node: "bm_get (nodes e) key = Some node"
    by simp_all
  from bs_pop_first_Some[OF r] have p: "key \<in> bs_set pending" "bs_set rest \<subseteq> bs_set pending" by auto
  have "(bs_set (bs_extend (read_keys node) rest) \<union> all_read_keys e) - bs_set (bs_insert key seen)
      \<subset> (bs_set pending \<union> all_read_keys e) - bs_set seen"
    using p new read_keys_subset[OF node] by auto
  then have "card ((bs_set (bs_extend (read_keys node) rest) \<union> all_read_keys e) - bs_set (bs_insert key seen))
      < card ((bs_set pending \<union> all_read_keys e) - bs_set seen)"
    by (intro psubset_card_mono) auto
  then show ?case by simp
qed simp

declare snapshot_loop.simps [simp del]

definition engine_snapshot ::
  "'k list \<Rightarrow> snapshot_budgets \<Rightarrow> ('k::linorder, 'v, 'x) incremental_engine \<Rightarrow>
   ('k incremental_error, ('k, 'v) graph_snapshot) outcome \<times> ('k, 'v, 'x) incremental_engine" where
  "engine_snapshot roots budgets e =
     (case bs_elems (bs_from_list roots) of
        [] \<Rightarrow> (Ok \<lparr>snapshot_nodes = []\<rparr>, e)
      | root # _ \<Rightarrow>
          (case snapshot_loop root budgets e (bs_from_list roots) bs_empty [] 0 of
             (res, e') \<Rightarrow> (bind_outcome res (\<lambda>ns. Ok \<lparr>snapshot_nodes = ns\<rparr>), e')))"

section \<open>Import\<close>

fun first_duplicate :: "'k::linorder bset \<Rightarrow> ('k, 'v) snapshot_node list \<Rightarrow> 'k option" where
  "first_duplicate keys [] = None"
| "first_duplicate keys (node # rest) =
     (if bs_contains (sn_key node) keys then Some (sn_key node) else first_duplicate (bs_insert (sn_key node) keys) rest)"

definition restored_fingerprints ::
  "('v \<Rightarrow> value_fingerprint) \<Rightarrow> ('k::linorder, 'v) snapshot_node list \<Rightarrow> ('k, value_fingerprint) bmap" where
  "restored_fingerprints fp ns =
     bm_from_list (List.map_filter (\<lambda>node. map_option (\<lambda>v. (sn_key node, fp v)) (sn_value node)) ns)"

definition restore_external_revision :: "'k snapshot_observation \<Rightarrow> ('k::linorder, revision) bmap \<Rightarrow> ('k, revision) bmap" where
  "restore_external_revision obs revs =
     (if so_kind obs = Read then revs
      else case bm_get revs (so_key obs) of
        None \<Rightarrow> bm_insert (so_key obs) (so_revision obs) revs
      | Some r \<Rightarrow> if so_revision obs > r then bm_insert (so_key obs) (so_revision obs) revs else revs)"

definition restore_external_revisions ::
  "('k, 'v) snapshot_node \<Rightarrow> ('k::linorder, revision) bmap \<Rightarrow> ('k, revision) bmap" where
  "restore_external_revisions node revs = fold restore_external_revision (sn_dependencies node) revs"

definition restore_observation ::
  "('k::linorder, value_fingerprint) bmap \<Rightarrow> 'k snapshot_observation \<Rightarrow> 'k observation" where
  "restore_observation fps obs =
     (if so_kind obs = Read
      then observation_read (so_key obs) (so_revision obs) (case bm_get fps (so_key obs) of None \<Rightarrow> 0 | Some f \<Rightarrow> f)
      else observation_new (so_key obs) (so_kind obs) (so_revision obs) None)"

definition restore_node ::
  "('v \<Rightarrow> value_fingerprint) \<Rightarrow> ('k::linorder, value_fingerprint) bmap \<Rightarrow> ('k, 'v) snapshot_node \<Rightarrow> ('k, 'v) memo_node" where
  "restore_node fp fps node =
     \<lparr>node_revision = sn_revision node, node_dirty = True, node_value = sn_value node,
      node_fingerprint = map_option fp (sn_value node),
      node_dependencies = map (restore_observation fps) (sn_dependencies node)\<rparr>"

definition rebuild_reverse :: "('k::linorder, 'v, 'x) incremental_engine \<Rightarrow> ('k, 'v, 'x) incremental_engine" where
  "rebuild_reverse e =
     e\<lparr>reverse_deps := fold (\<lambda>(key, node). fold (add_dependent key) (node_dependencies node)) (bm_entries (nodes e)) bm_empty\<rparr>"

text \<open>One turn of the restore loop, over the engine, the recovered count and the highest revision.\<close>

definition restore_step ::
  "('v \<Rightarrow> value_fingerprint) \<Rightarrow> ('k::linorder, value_fingerprint) bmap \<Rightarrow> ('k, 'v) snapshot_node \<Rightarrow>
   ('k, 'v, 'x) incremental_engine \<times> usize \<times> u64 \<Rightarrow> ('k, 'v, 'x) incremental_engine \<times> usize \<times> u64" where
  "restore_step fp fps node = (\<lambda>(e, recovered, max_revision).
     (e\<lparr>source_revisions := restore_external_revisions node (source_revisions e),
        nodes := bm_insert (sn_key node) (restore_node fp fps node) (nodes e)\<rparr>,
      if sn_dirty node then recovered else recovered + 1,
      max max_revision (sn_revision node)))"

definition restore_snapshot ::
  "('v \<Rightarrow> value_fingerprint) \<Rightarrow> ('k::linorder, 'v) graph_snapshot \<Rightarrow> ('k, 'v, 'x) incremental_engine \<Rightarrow>
   ('k snapshot_error, restore_report) outcome \<times> ('k, 'v, 'x) incremental_engine" where
  "restore_snapshot fp snap e =
     (case first_duplicate bs_empty (snapshot_nodes snap) of
        Some key \<Rightarrow> (Err (DuplicateSnapshotNode key), e)
      | None \<Rightarrow>
          (case fold (restore_step fp (restored_fingerprints fp (snapshot_nodes snap))) (snapshot_nodes snap)
                  (e\<lparr>nodes := bm_empty, reverse_deps := bm_empty\<rparr>, 0, next_revision e - 1) of
             (e1, recovered, max_revision) \<Rightarrow>
               (let e2 = rebuild_reverse (e1\<lparr>next_revision := max (next_revision e1) (saturating_add max_revision 1)\<rparr>) in
                (Ok \<lparr>report_nodes = bm_len (nodes e2), report_recovered_dirty = recovered\<rparr>, e2))))"

section \<open>What an export collects\<close>

inductive read_reach :: "('k::linorder, 'v, 'x) incremental_engine \<Rightarrow> 'k set \<Rightarrow> 'k \<Rightarrow> bool" for e roots where
  reach_root: "k \<in> roots \<Longrightarrow> read_reach e roots k"
| reach_read: "read_reach e roots k \<Longrightarrow> bm_get (nodes e) k = Some node \<Longrightarrow> j \<in> set (read_keys node) \<Longrightarrow> read_reach e roots j"

definition edge_count :: "('k, 'v) snapshot_node list \<Rightarrow> nat" where
  "edge_count ns = sum_list (map (\<lambda>node. length (sn_dependencies node)) ns)"

definition exported :: "('k::linorder, 'v, 'x) incremental_engine \<Rightarrow> 'k set \<Rightarrow> ('k, 'v) snapshot_node \<Rightarrow> bool" where
  "exported e keys sn \<longleftrightarrow> (\<exists>node. bm_get (nodes e) (sn_key sn) = Some node \<and> sn = snapshot_node_of (sn_key sn) node \<and>
     set (read_keys node) \<subseteq> keys)"

definition loop_inv ::
  "('k::linorder, 'v, 'x) incremental_engine \<Rightarrow> snapshot_budgets \<Rightarrow> 'k set \<Rightarrow> 'k bset \<Rightarrow> 'k bset \<Rightarrow>
   ('k, 'v) snapshot_node list \<Rightarrow> usize \<Rightarrow> bool" where
  "loop_inv e b roots pending seen acc edges \<longleftrightarrow>
     set (map sn_key acc) = bs_set seen \<and> distinct (map sn_key acc) \<and>
     (\<forall>sn\<in>set acc. exported e (bs_set seen \<union> bs_set pending) sn) \<and>
     bs_set seen \<union> bs_set pending \<subseteq> Collect (read_reach e roots) \<and> roots \<subseteq> bs_set seen \<union> bs_set pending \<and>
     edges = min (edge_count acc) usize_max \<and> min (length acc) usize_max \<le> max_nodes b \<and> edges \<le> max_edges b"

lemma snapshot_node_of_sel [simp]:
  "sn_key (snapshot_node_of k node) = k" "length (sn_dependencies (snapshot_node_of k node)) = length (node_dependencies node)"
  by (simp_all add: snapshot_node_of_def)

lemma loop_inv_skip:
  assumes "loop_inv e b roots pending seen acc edges" "bs_pop_first pending = Some (key, rest)" "key \<in> bs_set seen"
  shows "loop_inv e b roots rest seen acc edges"
proof -
  from bs_pop_first_Some[OF assms(2)] assms(3) have "bs_set seen \<union> bs_set pending = bs_set seen \<union> bs_set rest" by auto
  with assms(1) show ?thesis by (simp add: loop_inv_def)
qed

lemma loop_inv_visit:
  assumes inv: "loop_inv e b roots pending seen acc edges" and pop: "bs_pop_first pending = Some (key, rest)"
    and new: "key \<notin> bs_set seen" and node: "bm_get (nodes e) key = Some node"
    and ok: "saturating_add (length acc) 1 \<le> max_nodes b" "saturating_add edges (length (node_dependencies node)) \<le> max_edges b"
  shows "loop_inv e b roots (bs_extend (read_keys node) rest) (bs_insert key seen) (acc @ [snapshot_node_of key node])
    (saturating_add edges (length (node_dependencies node)))"
proof -
  let ?keys = "bs_set (bs_insert key seen) \<union> bs_set (bs_extend (read_keys node) rest)"
  from bs_pop_first_Some[OF pop] have p: "bs_set pending = insert key (bs_set rest)" by auto
  have keys: "?keys = bs_set seen \<union> bs_set pending \<union> set (read_keys node)" using p by auto
  have "exported e ?keys sn" if "sn \<in> set acc" for sn
  proof -
    from inv that have "exported e (bs_set seen \<union> bs_set pending) sn" by (simp add: loop_inv_def)
    then show ?thesis unfolding keys by (auto simp: exported_def)
  qed
  moreover have "exported e ?keys (snapshot_node_of key node)" unfolding keys using node by (auto simp: exported_def)
  moreover have "read_reach e roots key" using inv p by (auto simp: loop_inv_def)
  from reach_read[OF this node] have "set (read_keys node) \<subseteq> Collect (read_reach e roots)" by auto
  then have "?keys \<subseteq> Collect (read_reach e roots)" "roots \<subseteq> ?keys" using inv unfolding keys by (auto simp: loop_inv_def)
  moreover have "saturating_add edges (length (node_dependencies node)) = min (edge_count (acc @ [snapshot_node_of key node])) usize_max"
    using inv by (simp add: loop_inv_def edge_count_def saturating_add_def min_def)
  moreover have "min (length (acc @ [snapshot_node_of key node])) usize_max \<le> max_nodes b"
    using ok(1) by (simp add: saturating_add_def)
  ultimately show ?thesis using inv new ok(2) by (auto simp: loop_inv_def)
qed

text \<open>What the loop returns from a state that satisfies the invariant.\<close>

definition export_result ::
  "('k::linorder, 'v, 'x) incremental_engine \<Rightarrow> snapshot_budgets \<Rightarrow> 'k set \<Rightarrow> 'k \<Rightarrow>
   ('k incremental_error, ('k, 'v) snapshot_node list) outcome \<Rightarrow> ('k, 'v, 'x) incremental_engine \<Rightarrow> bool" where
  "export_result e b roots root res e' =
     (case res of
        Ok ns \<Rightarrow> e' = e \<and> distinct (map sn_key ns) \<and> set (map sn_key ns) = Collect (read_reach e roots) \<and>
          (\<forall>sn\<in>set ns. \<exists>node. bm_get (nodes e) (sn_key sn) = Some node \<and> sn = snapshot_node_of (sn_key sn) node) \<and>
          min (length ns) usize_max \<le> max_nodes b \<and> min (edge_count ns) usize_max \<le> max_edges b
      | Err err \<Rightarrow>
          (\<exists>k. err = UnknownQuery k \<and> e' = e \<and> read_reach e roots k \<and> bm_get (nodes e) k = None) \<or>
          (\<exists>limit consumed token. err = BudgetExceeded Output limit consumed (Some token) \<and> limit < consumed \<and>
             bm_get (continuations e') token = Some root \<and> same_core e e')
      | Panic _ \<Rightarrow> next_token e \<ge> usize_max)"

lemma output_exceeded_result:
  assumes "output_exceeded root limit consumed e = (res, e')" "limit < consumed"
  shows "export_result e b roots root res e'"
  using assms
  by (auto simp: output_exceeded_def alloc_continuation_def export_result_def same_core_def checked_incr_def split: if_splits)

lemma loop_inv_closed:
  assumes "loop_inv e b roots pending seen acc edges" "bs_set pending = {}" "read_reach e roots k"
  shows "k \<in> bs_set seen"
  using assms(3)
proof (induction rule: read_reach.induct)
  case (reach_root k)
  with assms show ?case by (auto simp: loop_inv_def)
next
  case (reach_read k node j)
  have "set (map sn_key acc) = bs_set seen" using assms(1) by (simp add: loop_inv_def)
  with reach_read.IH obtain sn where "sn \<in> set acc" "sn_key sn = k" by (metis imageE list.set_map)
  with assms(1,2) have "exported e (bs_set seen) sn" by (simp add: loop_inv_def)
  with reach_read.hyps \<open>sn_key sn = k\<close> show ?case by (auto simp: exported_def)
qed

lemma snapshot_loop_result:
  assumes "loop_inv e b roots pending seen acc edges" "snapshot_loop root b e pending seen acc edges = (res, e')"
  shows "export_result e b roots root res e'"
  using assms
proof (induction root b e pending seen acc edges arbitrary: res e' rule: snapshot_loop.induct)
  case (1 root b e pending seen acc edges)
  note inv = 1(3) and run = 1(4)[unfolded snapshot_loop.simps[of root b e pending seen acc edges]]
  show ?case
  proof (cases "bs_pop_first pending")
    case None
    then have "bs_set pending = {}" by simp
    with inv loop_inv_closed[OF inv this] have "set (map sn_key acc) = Collect (read_reach e roots)" by (auto simp: loop_inv_def)
    moreover have "\<forall>sn\<in>set acc. \<exists>node. bm_get (nodes e) (sn_key sn) = Some node \<and> sn = snapshot_node_of (sn_key sn) node"
      using inv unfolding loop_inv_def exported_def by blast
    moreover have "res = Ok acc" "e' = e" using run None by auto
    ultimately show ?thesis using inv by (auto simp: export_result_def loop_inv_def)
  next
    case (Some p)
    obtain key rest where p: "p = (key, rest)" by (cases p)
    note pop = Some[unfolded p]
    show ?thesis
    proof (cases "key \<in> bs_set seen")
      case True
      with 1(1)[OF pop refl] run pop loop_inv_skip[OF inv pop True] show ?thesis by simp
    next
      case new: False
      show ?thesis
      proof (cases "saturating_add (length acc) 1 > max_nodes b")
        case True
        with run pop new show ?thesis by (intro output_exceeded_result) auto
      next
        case fits: False
        show ?thesis
        proof (cases "bm_get (nodes e) key")
          case None
          have "read_reach e roots key" using inv bs_pop_first_Some[OF pop] by (auto simp: loop_inv_def)
          with run pop new fits None show ?thesis by (auto simp: export_result_def)
        next
          case node: (Some node)
          let ?edges = "saturating_add edges (length (node_dependencies node))"
          show ?thesis
          proof (cases "?edges > max_edges b")
            case True
            with run pop new fits node show ?thesis by (intro output_exceeded_result) (auto simp: Let_def)
          next
            case False
            with run pop new fits node have "snapshot_loop root b e (bs_extend (read_keys node) rest) (bs_insert key seen)
                (acc @ [snapshot_node_of key node]) ?edges = (res, e')" by (simp add: Let_def)
            with 1(2)[OF pop refl _ fits node refl False] new loop_inv_visit[OF inv pop new node] fits False show ?thesis by simp
          qed
        qed
      qed
    qed
  qed
qed

lemma bs_elems_from_list_Cons:
  assumes "bs_elems (bs_from_list roots) = root # rest"
  shows "root = Min (set roots)"
proof -
  have "set roots = set (root # rest)" "sorted_wrt (<) (root # rest)"
    using bs_elems_sorted[of "bs_from_list roots"] bs_set_from_list[of roots] unfolding assms by auto
  then show ?thesis by (auto intro!: Min_eqI[symmetric] intro: less_imp_le)
qed

lemma engine_snapshot_result:
  assumes "engine_snapshot roots b e = (res, e')"
  shows "\<exists>res'. res = bind_outcome res' (\<lambda>ns. Ok \<lparr>snapshot_nodes = ns\<rparr>) \<and> export_result e b (set roots) (Min (set roots)) res' e'"
proof (cases "bs_elems (bs_from_list roots)")
  case Nil
  then have "roots = []" using bs_set_from_list[of roots] by simp
  have "\<not> read_reach e {} k" for k
  proof
    assume "read_reach e {} k" then show False by induction auto
  qed
  with Nil assms \<open>roots = []\<close> show ?thesis
    by (intro exI[of _ "Ok []"]) (auto simp: engine_snapshot_def export_result_def edge_count_def)
next
  case (Cons root rest)
  obtain res' e1 where run: "snapshot_loop root b e (bs_from_list roots) bs_empty [] 0 = (res', e1)" by fastforce
  have "loop_inv e b (set roots) (bs_from_list roots) bs_empty [] 0" by (auto simp: loop_inv_def edge_count_def intro: reach_root)
  from snapshot_loop_result[OF this run] run Cons assms bs_elems_from_list_Cons[OF Cons] show ?thesis
    by (intro exI[of _ res']) (simp add: engine_snapshot_def)
qed

lemma engine_snapshot_Ok:
  assumes "engine_snapshot roots b e = (Ok snap, e')"
  shows "e' = e" "distinct (map sn_key (snapshot_nodes snap))"
    "\<forall>sn\<in>set (snapshot_nodes snap). \<exists>node. bm_get (nodes e) (sn_key sn) = Some node \<and> sn = snapshot_node_of (sn_key sn) node"
proof -
  from engine_snapshot_result[OF assms] obtain res' where
    "Ok snap = bind_outcome res' (\<lambda>ns. Ok \<lparr>snapshot_nodes = ns\<rparr>)" "export_result e b (set roots) (Min (set roots)) res' e'" by blast
  then have "export_result e b (set roots) (Min (set roots)) (Ok (snapshot_nodes snap)) e'" by (cases res') auto
  then show "e' = e" "distinct (map sn_key (snapshot_nodes snap))"
    "\<forall>sn\<in>set (snapshot_nodes snap). \<exists>node. bm_get (nodes e) (sn_key sn) = Some node \<and> sn = snapshot_node_of (sn_key sn) node"
    unfolding export_result_def outcome.case by blast+
qed

section \<open>What an import leaves\<close>

lemma first_duplicate_None:
  "first_duplicate keys ns = None \<longleftrightarrow> distinct (map sn_key ns) \<and> set (map sn_key ns) \<inter> bs_set keys = {}"
  by (induction ns arbitrary: keys) auto

lemma first_duplicate_Some:
  assumes "first_duplicate keys ns = Some k"
  shows "\<exists>pre node post. ns = pre @ node # post \<and> sn_key node = k \<and> (k \<in> bs_set keys \<or> k \<in> sn_key ` set pre)"
  using assms
proof (induction ns arbitrary: keys)
  case (Cons a ns)
  show ?case
  proof (cases "sn_key a \<in> bs_set keys")
    case True
    with Cons.prems show ?thesis by (intro exI[of _ "[]"]) simp
  next
    case False
    with Cons.prems have "first_duplicate (bs_insert (sn_key a) keys) ns = Some k" by simp
    from Cons.IH[OF this] obtain pre node post where
      "ns = pre @ node # post" "sn_key node = k" "k \<in> insert (sn_key a) (bs_set keys) \<or> k \<in> sn_key ` set pre" by auto
    then show ?thesis by (intro exI[of _ "a # pre"]) auto
  qed
qed simp

lemma fold_restore_step:
  "fold (restore_step fp fps) ns (e, recovered, m) =
    (e\<lparr>source_revisions := fold restore_external_revisions ns (source_revisions e),
       nodes := fold (\<lambda>(k, n). bm_insert k n) (map (\<lambda>node. (sn_key node, restore_node fp fps node)) ns) (nodes e)\<rparr>,
     recovered + length (filter (\<lambda>node. \<not> sn_dirty node) ns), fold max (map sn_revision ns) m)"
  by (induction ns arbitrary: e recovered m) (simp_all add: restore_step_def max.commute)

definition restored_engine ::
  "('v \<Rightarrow> value_fingerprint) \<Rightarrow> ('k::linorder, 'v) snapshot_node list \<Rightarrow> ('k, 'v, 'x) incremental_engine \<Rightarrow>
   ('k, 'v, 'x) incremental_engine" where
  "restored_engine fp ns e = rebuild_reverse (e\<lparr>nodes := bm_from_list (map (\<lambda>node. (sn_key node, restore_node fp (restored_fingerprints fp ns) node)) ns),
     source_revisions := fold restore_external_revisions ns (source_revisions e),
     next_revision := max (next_revision e) (saturating_add (fold max (map sn_revision ns) (next_revision e - 1)) 1)\<rparr>)"

lemma restore_snapshot_Ok:
  assumes "distinct (map sn_key (snapshot_nodes snap))"
  shows "restore_snapshot fp snap e =
    (Ok \<lparr>report_nodes = bm_len (nodes (restored_engine fp (snapshot_nodes snap) e)),
         report_recovered_dirty = length (filter (\<lambda>node. \<not> sn_dirty node) (snapshot_nodes snap))\<rparr>,
     restored_engine fp (snapshot_nodes snap) e)"
proof -
  have "first_duplicate bs_empty (snapshot_nodes snap) = None" using assms by (simp add: first_duplicate_None)
  then show ?thesis
    by (simp add: restore_snapshot_def fold_restore_step Let_def restored_engine_def bm_from_list_def rebuild_reverse_def)
qed

lemma restored_engine_sel:
  "queries (restored_engine fp ns e) = queries e" "continuations (restored_engine fp ns e) = continuations e"
  "next_revision (restored_engine fp ns e) = max (next_revision e) (saturating_add (fold max (map sn_revision ns) (next_revision e - 1)) 1)"
  "nodes (restored_engine fp ns e) = bm_from_list (map (\<lambda>node. (sn_key node, restore_node fp (restored_fingerprints fp ns) node)) ns)"
  by (simp_all add: restored_engine_def rebuild_reverse_def)

lemma restored_get:
  assumes "distinct (map sn_key ns)"
  shows "bm_get (nodes (restored_engine fp ns e)) k = Some n \<longleftrightarrow>
    (\<exists>node\<in>set ns. sn_key node = k \<and> n = restore_node fp (restored_fingerprints fp ns) node)"
proof -
  have d: "distinct (map fst (map (\<lambda>node. (sn_key node, restore_node fp (restored_fingerprints fp ns) node)) ns))"
    using assms by (simp add: comp_def)
  show ?thesis
    unfolding restored_engine_sel bm_get_from_list_distinct[OF d] using map_of_eq_Some_iff[OF d, of k n] by auto
qed

lemma dependents_rebuilt:
  "set (dependents (fold (\<lambda>(key, node). fold (add_dependent key) (node_dependencies node)) xs rd) j) =
    set (dependents rd j) \<union> {k. \<exists>node. (k, node) \<in> set xs \<and> j \<in> obs_key ` set (node_dependencies node)}"
  by (induction xs arbitrary: rd) (auto simp: dependents_adds split: if_splits)

lemma restored_dependents:
  "set (dependents (reverse_deps (restored_engine fp ns e)) j) =
    {k. \<exists>node. bm_get (nodes (restored_engine fp ns e)) k = Some node \<and> j \<in> obs_key ` set (node_dependencies node)}"
  unfolding restored_engine_def rebuild_reverse_def
  by (simp add: dependents_rebuilt bm_entries_iff) (simp add: dependents_def)

lemma restore_observation_sel [simp]:
  "obs_key (restore_observation fps ob) = so_key ob" "obs_kind (restore_observation fps ob) = so_kind ob"
  "obs_revision (restore_observation fps ob) = so_revision ob"
  by (simp_all add: restore_observation_def)

lemma snapshot_node_of_restore: "snapshot_node_of (sn_key node) (restore_node fp fps node) = node\<lparr>sn_dirty := True\<rparr>"
proof -
  have "map (snapshot_observation_of \<circ> restore_observation fps) obs = obs" for obs :: "'a snapshot_observation list"
    by (rule map_idI) (simp add: snapshot_observation_of_def)
  then show ?thesis by (cases node) (simp add: snapshot_node_of_def restore_node_def)
qed

lemma fold_max_ge: "(m::nat) \<le> fold max xs m" "x \<in> set xs \<Longrightarrow> x \<le> fold max xs m"
proof -
  show ge: "m \<le> fold max xs m" for m :: nat and xs
  proof (induction xs arbitrary: m)
    case (Cons a xs)
    from Cons[of "max a m"] show ?case by simp
  qed simp
  show "x \<in> set xs \<Longrightarrow> x \<le> fold max xs m"
  proof (induction xs arbitrary: m)
    case (Cons a xs)
    with ge[of "max a m" xs] show ?case by auto
  qed simp
qed

section \<open>Restored memos keep the engine invariant\<close>

text \<open>The engine operations between a snapshot and its restore.\<close>

inductive engine_evolves ::
  "('v \<Rightarrow> value_fingerprint) \<Rightarrow> ('k::linorder \<Rightarrow> revision \<Rightarrow> 'x) \<Rightarrow> ('k, 'v, 'x) incremental_engine \<Rightarrow>
   ('k, 'v, 'x) incremental_engine \<Rightarrow> bool"
  for fp w e where
  evolve_refl: "engine_evolves fp w e e"
| evolve_invalidate: "engine_evolves fp w e e1 \<Longrightarrow> invalidate k e1 = (Ok (r, e2) :: ('k incremental_error, _) outcome) \<Longrightarrow>
    engine_evolves fp w e e2"
| evolve_verify: "engine_evolves fp w e e1 \<Longrightarrow> verify_with_budgets fp w k b e1 = Some (res, e2) \<Longrightarrow> engine_evolves fp w e e2"

lemma verify_with_budgets_extends:
  assumes "engine_inv fp w h e" "verify_with_budgets fp w k b e = Some (res, e')"
  obtains h' where "extends_history h h'" "engine_inv fp w h' e'" "queries e' = queries e"
proof -
  from assms(2) obtain r' where
    "evaluate fp w (evaluation_fuel e) k e (run_state_new k b) = Some (res, e', r')"
    by (auto simp: verify_with_budgets_def)
  from engine_evaluator.ev_step[OF assms(1) this] that show ?thesis
    by (auto simp: run_step_def run_frame_def)
qed

lemma engine_evolves_inv:
  assumes "engine_evolves fp w e e'" "engine_inv fp w h e"
  shows "\<exists>h'. extends_history h h' \<and> engine_inv fp w h' e' \<and> queries e' = queries e"
  using assms(1)
proof (induction rule: engine_evolves.induct)
  case evolve_refl
  with assms(2) show ?case by (intro exI[of _ h]) simp
next
  case (evolve_invalidate e1 k r e2)
  then obtain h' where h': "extends_history h h'" "engine_inv fp w h' e1" "queries e1 = queries e" by blast
  from invalidate_inv[OF h'(2) evolve_invalidate(2)] h' invalidate_OkD(2)[OF evolve_invalidate(2)] show ?case
    by (intro exI[of _ h']) (simp add: mark_dirty_cascade_def)
next
  case (evolve_verify e1 k b res e2)
  then obtain h' where h': "extends_history h h'" "engine_inv fp w h' e1" "queries e1 = queries e" by blast
  from h'(2) evolve_verify(2) obtain h'' where "extends_history h' h''" "engine_inv fp w h'' e2" "queries e2 = queries e1"
    by (rule verify_with_budgets_extends)
  with h' show ?case by (auto intro: extends_trans)
qed

text \<open>An observation with a new fingerprint follows the same callback.\<close>

lemma follows_restored:
  "follows h w body (map (restore_observation fps \<circ> snapshot_observation_of) deps) u = follows h w body deps u"
proof (induction body arbitrary: deps)
  case (ReadQuery k c)
  then show ?case by (cases deps) (auto simp: snapshot_observation_of_def split: option.split)
next
  case (Observe kind k c)
  then show ?case by (cases deps) (auto simp: snapshot_observation_of_def)
qed auto

lemma restored_memo_ok:
  assumes inv: "engine_inv fp w h e" and ext: "extends_history h h'" and d: "distinct (map sn_key ns)"
    and sn: "\<forall>sn\<in>set ns. \<exists>node. bm_get (nodes e) (sn_key sn) = Some node \<and> sn = snapshot_node_of (sn_key sn) node"
    and q: "queries e2 = queries e"
    and n: "bm_get (nodes (restored_engine fp ns e2)) k = Some n"
  shows "memo_ok fp w h' (restored_engine fp ns e2) k n"
proof -
  let ?fps = "restored_fingerprints fp ns"
  from n sn obtain node where node: "bm_get (nodes e) k = Some node" and n': "n = restore_node fp ?fps (snapshot_node_of k node)"
    unfolding restored_get[OF d] by metis
  have f: "node_dirty n" "node_value n = node_value node" "node_revision n = node_revision node"
    "node_fingerprint n = map_option fp (node_value node)"
    "node_dependencies n = map (restore_observation ?fps \<circ> snapshot_observation_of) (node_dependencies node)"
    by (simp_all add: n' restore_node_def snapshot_node_of_def)
  have ok: "memo_ok fp w h e k node" using inv node by (simp add: engine_inv_def)
  have dep: "k \<in> set (dependents (reverse_deps (restored_engine fp ns e2)) (obs_key ob))" if "ob \<in> set (node_dependencies n)" for ob
    using n that by (auto simp: restored_dependents)
  show ?thesis
  proof (cases "node_value node")
    case None
    with ok f(1-3,5) show ?thesis by (simp add: memo_ok_def)
  next
    case (Some v)
    with ok obtain q' where q': "h k (node_revision node) = Some v" "bm_get (queries e) k = Some q'" "follows h w (q' k) (node_dependencies node) v"
      by (auto simp: memo_ok_def)
    have "h' k (node_revision node) = Some v" using q'(1) ext by (simp add: extends_history_def)
    moreover have "follows h' w (q' k) (node_dependencies n) v"
      unfolding f(5) follows_restored using follows_extends[OF ext q'(3)] .
    ultimately show ?thesis using f(1-4) Some q'(2) q dep unfolding memo_ok_def by (simp add: restored_engine_sel)
  qed
qed

lemma restored_inv:
  assumes inv: "engine_inv fp w h e" and ext: "extends_history h h'" and inv': "engine_inv fp w h' e2" and q: "queries e2 = queries e"
    and d: "distinct (map sn_key ns)"
    and sn: "\<forall>sn\<in>set ns. \<exists>node. bm_get (nodes e) (sn_key sn) = Some node \<and> sn = snapshot_node_of (sn_key sn) node"
  shows "engine_inv fp w h' (restored_engine fp ns e2)"
proof -
  have "\<not> clean_at (restored_engine fp ns e2) k n" for k n
    by (auto simp: restored_get[OF d] restore_node_def)
  moreover have "r < next_revision (restored_engine fp ns e2)" if "h' k r = Some v" for k r v
    using inv' that by (fastforce simp: engine_inv_def restored_engine_sel)
  ultimately show ?thesis
    using restored_memo_ok[OF inv ext d sn q] inv' unfolding engine_inv_def ranked_def
    by (auto simp: restored_engine_sel(1))
qed

section \<open>Exporting what was imported\<close>

definition marked_dirty :: "('k, 'v) snapshot_node \<Rightarrow> ('k, 'v) snapshot_node" where
  "marked_dirty node = node\<lparr>sn_dirty := True\<rparr>"

lemma marked_dirty_sel [simp]:
  "sn_key (marked_dirty node) = sn_key node" "sn_dependencies (marked_dirty node) = sn_dependencies node"
  by (simp_all add: marked_dirty_def)

lemma read_keys_snapshot:
  "read_keys node = map so_key (filter (\<lambda>obs. so_kind obs = Read) (sn_dependencies (snapshot_node_of k node)))"
  by (simp add: read_keys_def snapshot_node_of_def filter_map comp_def snapshot_observation_of_def)

lemma same_export:
  assumes "snapshot_node_of k n' = marked_dirty (snapshot_node_of k n)"
  shows "read_keys n' = read_keys n" "length (node_dependencies n') = length (node_dependencies n)"
proof -
  have d: "sn_dependencies (snapshot_node_of k n') = sn_dependencies (snapshot_node_of k n)" using assms by simp
  show "read_keys n' = read_keys n" unfolding read_keys_snapshot[of _ k] d ..
  from arg_cong[OF d, of length] show "length (node_dependencies n') = length (node_dependencies n)" by simp
qed

lemma snapshot_loop_again:
  assumes "snapshot_loop root b e pending seen acc edges = (Ok ns, e1)"
    and "\<And>k n. bm_get (nodes e) k = Some n \<Longrightarrow> k \<in> set (map sn_key ns) \<Longrightarrow>
      \<exists>n'. bm_get (nodes e') k = Some n' \<and> snapshot_node_of k n' = marked_dirty (snapshot_node_of k n)"
  shows "snapshot_loop root b e' pending seen (map marked_dirty acc) edges = (Ok (map marked_dirty ns), e') \<and> set acc \<subseteq> set ns"
  using assms
proof (induction root b e pending seen acc edges rule: snapshot_loop.induct)
  case (1 root b e pending seen acc edges)
  note run = 1(3)[unfolded snapshot_loop.simps[of root b e pending seen acc edges]] and same = 1(4)
  note unfold = snapshot_loop.simps[of root b e' pending]
  show ?case
  proof (cases "bs_pop_first pending")
    case None
    with run show ?thesis unfolding unfold by simp
  next
    case (Some p)
    obtain key rest where p: "p = (key, rest)" by (cases p)
    note pop = Some[unfolded p]
    show ?thesis
    proof (cases "key \<in> bs_set seen")
      case True
      with 1(1)[OF pop refl] run pop same show ?thesis unfolding unfold by simp
    next
      case new: False
      have no: "output_exceeded r l c e = (Ok ns, e1) \<longleftrightarrow> False" for r l c
        by (auto simp: output_exceeded_def split: outcome.splits)
      with run pop new have fits: "\<not> saturating_add (length acc) 1 > max_nodes b" by (auto split: if_splits)
      with run pop new no obtain node where node: "bm_get (nodes e) key = Some node"
        and edges: "\<not> saturating_add edges (length (node_dependencies node)) > max_edges b"
        and run': "snapshot_loop root b e (bs_extend (read_keys node) rest) (bs_insert key seen)
          (acc @ [snapshot_node_of key node]) (saturating_add edges (length (node_dependencies node))) = (Ok ns, e1)"
        by (auto simp: Let_def split: if_splits option.splits)
      from 1(2)[OF pop refl _ fits node refl edges run' same] new
      have IH: "snapshot_loop root b e' (bs_extend (read_keys node) rest) (bs_insert key seen) (map marked_dirty (acc @ [snapshot_node_of key node]))
          (saturating_add edges (length (node_dependencies node))) = (Ok (map marked_dirty ns), e')"
        "set (acc @ [snapshot_node_of key node]) \<subseteq> set ns" by simp_all
      then have "key \<in> set (map sn_key ns)" by (force simp: image_iff)
      with same[OF node] obtain n' where n': "bm_get (nodes e') key = Some n'" "snapshot_node_of key n' = marked_dirty (snapshot_node_of key node)"
        by blast
      with IH pop new fits edges same_export[OF n'(2)] show ?thesis unfolding unfold by (simp add: Let_def)
    qed
  qed
qed

section \<open>Properties\<close>

text \<open>
  A snapshot holds exactly the memos reachable from the roots over read dependencies, each
  once, as the engine has it, within the node and edge budgets, and does not change the engine. It
  fails only on a reachable key without a memo, or on a budget, and then leaves the memo graph
  alone and hands out a token that resumes at the least root.
\<close>

theorem snapshot_exact:
  "case engine_snapshot roots b e of
     (Ok snap, e') \<Rightarrow> e' = e \<and> distinct (map sn_key (snapshot_nodes snap)) \<and>
       set (map sn_key (snapshot_nodes snap)) = {k. read_reach e (set roots) k} \<and>
       (\<forall>sn\<in>set (snapshot_nodes snap). \<exists>node. bm_get (nodes e) (sn_key sn) = Some node \<and> sn = snapshot_node_of (sn_key sn) node) \<and>
       min (length (snapshot_nodes snap)) usize_max \<le> max_nodes b \<and> min (edge_count (snapshot_nodes snap)) usize_max \<le> max_edges b
   | (Err err, e') \<Rightarrow>
       (\<exists>k. err = UnknownQuery k \<and> e' = e \<and> read_reach e (set roots) k \<and> bm_get (nodes e) k = None) \<or>
       (\<exists>limit consumed token. err = BudgetExceeded Output limit consumed (Some token) \<and> limit < consumed \<and>
          bm_get (continuations e') token = Some (Min (set roots)) \<and> same_core e e')
   | (Panic _, e') \<Rightarrow> next_token e \<ge> usize_max"
proof -
  obtain res e' where r: "engine_snapshot roots b e = (res, e')" by fastforce
  from engine_snapshot_result[OF r] obtain res' where
    "res = bind_outcome res' (\<lambda>ns. Ok \<lparr>snapshot_nodes = ns\<rparr>)" "export_result e b (set roots) (Min (set roots)) res' e'" by blast
  with r show ?thesis by (cases res') (auto simp: export_result_def)
qed

text \<open>
  An import of a snapshot with a repeated key is rejected, naming a key that occurs twice,
  and leaves the engine as it was.
\<close>

theorem restore_rejects_duplicates:
  assumes "\<not> distinct (map sn_key (snapshot_nodes snap))"
  shows "\<exists>pre node post. snapshot_nodes snap = pre @ node # post \<and> sn_key node \<in> sn_key ` set pre \<and>
    restore_snapshot fp snap e = (Err (DuplicateSnapshotNode (sn_key node)), e)"
proof -
  from assms have "first_duplicate bs_empty (snapshot_nodes snap) \<noteq> None" by (simp add: first_duplicate_None)
  then obtain k where k: "first_duplicate bs_empty (snapshot_nodes snap) = Some k" by blast
  from first_duplicate_Some[OF k] k show ?thesis by (auto simp: restore_snapshot_def)
qed

text \<open>
  An import of a snapshot with distinct keys replaces the memos by those of the snapshot,
  every one dirty, reports how many were imported and how many had been clean, indexes every
  dependency in reverse and nothing else, and moves the revision counter above every imported
  revision below the maximum.
\<close>

theorem restore_replaces_memos:
  assumes "distinct (map sn_key (snapshot_nodes snap))"
  shows "\<exists>report e'. restore_snapshot fp snap e = (Ok report, e') \<and>
    report_nodes report = length (snapshot_nodes snap) \<and>
    report_recovered_dirty report = length (filter (\<lambda>node. \<not> sn_dirty node) (snapshot_nodes snap)) \<and>
    (\<forall>k n. bm_get (nodes e') k = Some n \<longrightarrow> node_dirty n) \<and>
    (\<forall>sn. (\<exists>k n. bm_get (nodes e') k = Some n \<and> sn = snapshot_node_of k n) \<longleftrightarrow> sn \<in> marked_dirty ` set (snapshot_nodes snap)) \<and>
    (\<forall>j. set (dependents (reverse_deps e') j) = {k. \<exists>n. bm_get (nodes e') k = Some n \<and> j \<in> obs_key ` set (node_dependencies n)}) \<and>
    next_revision e \<le> next_revision e' \<and>
    (\<forall>sn\<in>set (snapshot_nodes snap). sn_revision sn < usize_max \<longrightarrow> sn_revision sn < next_revision e') \<and>
    queries e' = queries e"
proof -
  let ?ns = "snapshot_nodes snap"
  let ?e = "restored_engine fp ?ns e"
  have keys: "set (bm_keys (nodes ?e)) = sn_key ` set ?ns"
    by (auto simp: set_bm_keys restored_get[OF assms])
  have "bm_len (nodes ?e) = length ?ns"
    unfolding bm_len_keys keys using distinct_card[OF assms] by simp
  moreover have "sn_revision sn < next_revision ?e" if "sn \<in> set ?ns" "sn_revision sn < usize_max" for sn
  proof -
    have "sn_revision sn \<le> fold max (map sn_revision ?ns) (next_revision e - 1)" using that by (intro fold_max_ge) simp
    with that show ?thesis by (simp add: restored_engine_sel saturating_add_def less_max_iff_disj)
  qed
  moreover have "(\<exists>k n. bm_get (nodes ?e) k = Some n \<and> sn = snapshot_node_of k n) \<longleftrightarrow> sn \<in> marked_dirty ` set ?ns" for sn
    unfolding restored_get[OF assms] by (auto simp: marked_dirty_def image_iff simp flip: snapshot_node_of_restore[of _ fp "restored_fingerprints fp ?ns"])
  moreover have "bm_get (nodes ?e) k = Some n \<longrightarrow> node_dirty n" for k n
    by (auto simp: restored_get[OF assms] restore_node_def)
  moreover have "set (dependents (reverse_deps ?e) j) = {k. \<exists>n. bm_get (nodes ?e) k = Some n \<and> j \<in> obs_key ` set (node_dependencies n)}" for j
    by (rule restored_dependents)
  ultimately show ?thesis
    using restore_snapshot_Ok[OF assms, of fp e]
    by (intro exI[of _ "\<lparr>report_nodes = length ?ns, report_recovered_dirty = length (filter (\<lambda>node. \<not> sn_dirty node) ?ns)\<rparr>"] exI[of _ ?e])
      (simp add: restored_engine_sel(1-3))
qed

text \<open>
  C36: A snapshot imported into any engine and exported again from the same roots under the same
  budgets gives the same nodes in the same order, all dirty.
\<close>

theorem snapshot_round_trip:
  assumes "engine_snapshot roots b e = (Ok snap, e1)" "restore_snapshot fp snap e0 = (res, e2)"
  shows "engine_snapshot roots b e2 = (Ok \<lparr>snapshot_nodes = map marked_dirty (snapshot_nodes snap)\<rparr>, e2)"
proof (cases "bs_elems (bs_from_list roots)")
  case Nil
  with assms(1) show ?thesis by (auto simp: engine_snapshot_def)
next
  case (Cons root rest)
  let ?ns = "snapshot_nodes snap"
  from assms(1) Cons have run: "snapshot_loop root b e (bs_from_list roots) bs_empty [] 0 = (Ok ?ns, e1)"
    by (auto simp: engine_snapshot_def outcome_simps split: prod.splits)
  note d = engine_snapshot_Ok(2)[OF assms(1)] and sn = engine_snapshot_Ok(3)[OF assms(1)]
  have e2: "e2 = restored_engine fp ?ns e0" using assms(2) restore_snapshot_Ok[OF d, of fp e0] by simp
  have "\<exists>n'. bm_get (nodes e2) k = Some n' \<and> snapshot_node_of k n' = marked_dirty (snapshot_node_of k n)"
    if k: "bm_get (nodes e) k = Some n" "k \<in> set (map sn_key ?ns)" for k n
  proof -
    from k(2) obtain node where node: "node \<in> set ?ns" "sn_key node = k" by auto
    with sn k(1) have "node = snapshot_node_of k n" by fastforce
    with node snapshot_node_of_restore[of node fp "restored_fingerprints fp ?ns"] show ?thesis
      unfolding e2 restored_get[OF d]
      by (intro exI[of _ "restore_node fp (restored_fingerprints fp ?ns) node"] conjI bexI[of _ node]) (simp_all add: marked_dirty_def)
  qed
  from snapshot_loop_again[OF run this] Cons show ?thesis by (simp add: engine_snapshot_def)
qed

text \<open>
  C19: Rolling back is sound: a snapshot of an engine reached by a disciplined use of the public
  operations (\<open>disciplined_reachable\<close>: callbacks that pass errors on and use \<open>read\<close> for queries, no
  key registered twice, none removed while a memo depends on it), imported again into that engine
  after any sequence of invalidations and verifications (\<open>engine_evolves\<close>: the registered callbacks
  stay), leaves an engine in which every value a verification returns is what its query denotes on
  the current external content.
\<close>

theorem restore_rollback_sound:
  assumes "disciplined_reachable fp w e" "engine_snapshot roots b e = (Ok snap, e1)" "engine_evolves fp w e1 e2"
    "restore_snapshot fp snap e2 = (res, e3)" "verify_with_budgets fp w k budgets e3 = Some (Ok v, e4)"
  shows "denotes (contents w e3) (queries e3) k v"
proof -
  note e1 = engine_snapshot_Ok(1)[OF assms(2)] and d = engine_snapshot_Ok(2)[OF assms(2)] and sn = engine_snapshot_Ok(3)[OF assms(2)]
  from disciplined_reachable_inv[OF assms(1)] obtain h where h: "engine_inv fp w h e" by blast
  from engine_evolves_inv[OF assms(3)[unfolded e1] h] obtain h' where
    h': "extends_history h h'" "engine_inv fp w h' e2" "queries e2 = queries e" by blast
  have e3: "e3 = restored_engine fp (snapshot_nodes snap) e2" using assms(4) restore_snapshot_Ok[OF d, of fp e2] by simp
  have "engine_inv fp w h' e3" unfolding e3 by (rule restored_inv[OF h h' d sn])
  from verify_inv_value[OF this assms(5)] show ?thesis .
qed

end
