(* ===== verification/Query_Specimen.thy ===== *)
theory Query_Specimen
  imports Snapshot
begin

text \<open>
  Engines with concrete callbacks: a source, a query over it and a total. Their runs show that the
  hypotheses of the query properties hold, and two runs outside the discipline of
  \<open>disciplined_reachable\<close> show what the engine does there.
\<close>

section \<open>Callbacks\<close>

text \<open>The \<open>?\<close> of a callback: errors of a frame call are passed on.\<close>

fun try_then :: "('a \<Rightarrow> ('k, 'v, 'x) query_body) \<Rightarrow> 'k incremental_error + 'a \<Rightarrow> ('k, 'v, 'x) query_body" where
  "try_then f (Inl err) = Fail err"
| "try_then f (Inr a) = f a"

definition source_query :: "nat \<Rightarrow> (nat, nat, nat) query" where
  "source_query k _ = Observe Epoch k (try_then (\<lambda>x. ChargeWork 1 (try_then (\<lambda>_. Return x))))"

definition total_query :: "nat \<Rightarrow> nat \<Rightarrow> (nat, nat, nat) query" where
  "total_query a b _ = ReadQuery a (try_then (\<lambda>x. ReadQuery b (try_then (\<lambda>y. Return (x + y)))))"

text \<open>The external contents of every key are its revision plus three.\<close>

definition contents_by_revision :: "nat \<Rightarrow> revision \<Rightarrow> nat" where
  "contents_by_revision k r = r + 3"

definition totals_engine :: "(nat, nat, nat) incremental_engine" where
  "totals_engine = register_query 1 (total_query 2 3) (register_query 3 (source_query 11)
     (register_query 2 (source_query 10) engine_new))"

abbreviation totals_verify where
  "totals_verify k e \<equiv> verify_with_budgets id contents_by_revision k (new_query_budgets 50 50 50 50) e"

fun run_engine :: "(('k::linorder incremental_error, 'v) outcome \<times> ('k, 'v, 'x) incremental_engine) option \<Rightarrow> ('k, 'v, 'x) incremental_engine" where
  "run_engine (Some (_, e)) = e"
| "run_engine None = engine_new"

definition verified_engine :: "(nat, nat, nat) incremental_engine" where
  "verified_engine = run_engine (totals_verify 1 totals_engine)"

section \<open>Reachability\<close>

lemma disciplined_specimen: "disciplined (source_query k j)" "disciplined (total_query a b j)"
  by (simp_all add: source_query_def total_query_def)

lemma totals_reachable: "disciplined_reachable id contents_by_revision totals_engine"
proof -
  have "bm_get (queries (engine_new :: (nat, nat, nat) incremental_engine)) 2 = None" by code_simp
  moreover have "bm_get (queries (register_query 2 (source_query 10) engine_new)) 3 = None"
    by (simp add: register_query_def Let_def engine_new_def)
  moreover have "bm_get (queries (register_query 3 (source_query 11) (register_query 2 (source_query 10) engine_new))) 1 = None"
    by (simp add: register_query_def Let_def engine_new_def)
  ultimately show ?thesis
    unfolding totals_engine_def
    by (intro reach_register reach_new disciplined_specimen)
qed

lemma totals_verified: "totals_verify 1 totals_engine = Some (Ok 6, verified_engine)"
proof -
  have "map_option fst (totals_verify 1 totals_engine) = Some (Ok 6)" by code_simp
  then show ?thesis unfolding verified_engine_def by (cases "totals_verify 1 totals_engine") auto
qed

lemma verified_reachable: "disciplined_reachable id contents_by_revision verified_engine"
  by (rule reach_verify[OF totals_reachable totals_verified])

section \<open>The query properties on the specimen\<close>

theorem verify_sound_witness:
  "totals_verify 1 totals_engine = Some (Ok 6, verified_engine) \<and>
   denotes (contents contents_by_revision totals_engine) (queries totals_engine) 1 6"
  using verify_sound[OF totals_reachable totals_verified] totals_verified by simp

theorem evaluate_within_budgets_witness:
  "\<exists>res e r. evaluate id contents_by_revision 4 1 totals_engine (run_state_new 1 (new_query_budgets 3 9 9 9)) = Some (res, e, r) \<and>
     within_budgets r"
proof -
  have "evaluate id contents_by_revision 4 1 totals_engine (run_state_new 1 (new_query_budgets 3 9 9 9)) \<noteq> None" by code_simp
  then obtain res e r where run: "evaluate id contents_by_revision 4 1 totals_engine (run_state_new 1 (new_query_budgets 3 9 9 9)) = Some (res, e, r)"
    by auto
  have "within_budgets (run_state_new (1 :: nat) (new_query_budgets 3 9 9 9))"
    by (simp add: within_budgets_def run_state_new_def)
  from evaluate_within_budgets[OF run this] run show ?thesis by blast
qed

lemma verified_node:
  obtains n where "bm_get (nodes verified_engine) 1 = Some n" "\<not> node_dirty n" "node_value n = Some 6"
    "map obs_key (node_dependencies n) = [2, 3]"
proof -
  have "case bm_get (nodes verified_engine) 1 of Some n \<Rightarrow> \<not> node_dirty n \<and> node_value n = Some 6 \<and>
      map obs_key (node_dependencies n) = [2, 3] | None \<Rightarrow> False"
    by code_simp
  then show ?thesis using that by (auto split: option.splits)
qed

theorem verify_reuses_clean_memo_witness: "totals_verify 1 verified_engine = Some (Ok 6, verified_engine)"
proof -
  obtain n where n: "bm_get (nodes verified_engine) 1 = Some n" "\<not> node_dirty n" "node_value n = Some 6" by (rule verified_node)
  show ?thesis
    by (rule verify_reuses_clean_memo[OF verified_reachable n]) (simp add: new_query_budgets_def)
qed

theorem invalidate_dirties_dependents_witness:
  "\<exists>r e'. (invalidate 10 verified_engine :: (unit, _) outcome) = Ok (r, e') \<and> (\<exists>n. bm_get (nodes e') 1 = Some n \<and> node_dirty n)"
proof -
  have "case invalidate 10 verified_engine :: (unit, _) outcome of Ok _ \<Rightarrow> True | _ \<Rightarrow> False" by code_simp
  then obtain r e' where inv: "(invalidate 10 verified_engine :: (unit, _) outcome) = Ok (r, e')" by (auto split: outcome.splits)
  have "case bm_get (nodes verified_engine) 2 of Some n \<Rightarrow> 10 \<in> obs_key ` set (node_dependencies n) | None \<Rightarrow> False"
    "case bm_get (nodes verified_engine) 1 of Some n \<Rightarrow> 2 \<in> obs_key ` set (node_dependencies n) | None \<Rightarrow> False"
    by code_simp+
  then have "(10, 2) \<in> memo_dependencies (nodes verified_engine)" "(2, 1) \<in> memo_dependencies (nodes verified_engine)"
    by (auto simp: memo_dependencies_def split: option.splits)
  then have "(10, 1) \<in> (memo_dependencies (nodes verified_engine))\<^sup>*" by (meson r_into_rtrancl rtrancl_into_rtrancl)
  moreover obtain n where "bm_get (nodes verified_engine) 1 = Some n" by (rule verified_node)
  ultimately show ?thesis using invalidate_dirties_dependents[OF verified_reachable inv, of 1] inv by auto
qed

theorem reachable_clean_current_witness:
  "\<exists>n ob. bm_get (nodes verified_engine) 1 = Some n \<and> ob \<in> set (node_dependencies n) \<and> observation_is_current verified_engine ob"
proof -
  obtain n where n: "bm_get (nodes verified_engine) 1 = Some n" "\<not> node_dirty n" "map obs_key (node_dependencies n) = [2, 3]"
    by (rule verified_node)
  then obtain ob where ob: "ob \<in> set (node_dependencies n)" by (cases "node_dependencies n") auto
  from reachable_clean_current[OF verified_reachable n(1,2) ob] n(1) ob show ?thesis by blast
qed

text \<open>A run that the work budget suspends, and its continuation.\<close>

definition suspended_engine :: "(nat, nat, nat) incremental_engine" where
  "suspended_engine = run_engine (verify_with_budgets id contents_by_revision 1 (new_query_budgets 3 9 9 9) totals_engine)"

lemma suspended_reachable: "disciplined_reachable id contents_by_revision suspended_engine"
proof -
  obtain res e' where run: "verify_with_budgets id contents_by_revision 1 (new_query_budgets 3 9 9 9) totals_engine = Some (res, e')"
    using verify_Some[of id contents_by_revision 1 "new_query_budgets 3 9 9 9" totals_engine] by blast
  then have "suspended_engine = e'" by (simp add: suspended_engine_def)
  with reach_verify[OF totals_reachable run] show ?thesis by simp
qed

theorem resume_sound_witness:
  "\<exists>e'. engine_resume id contents_by_revision 1 (new_query_budgets 50 50 50 50) suspended_engine = Some (Ok 6, e') \<and>
     denotes (contents contents_by_revision suspended_engine) (queries suspended_engine) 1 6 \<and> bm_get (continuations e') 1 = None"
proof -
  let ?run = "engine_resume id contents_by_revision 1 (new_query_budgets 50 50 50 50) suspended_engine"
  have k: "bm_get (continuations suspended_engine) 1 = Some 1" by code_simp
  have "map_option fst ?run = Some (Ok 6)" by code_simp
  then obtain e' where run: "?run = Some (Ok 6, e')" by (cases ?run) auto
  from resume_sound[OF suspended_reachable run] k run show ?thesis by simp
qed

section \<open>The snapshot properties on the specimen\<close>

definition totals_snapshot :: "(nat, nat) graph_snapshot" where
  "totals_snapshot = (case fst (engine_snapshot [1] (new_snapshot_budgets 3 4) verified_engine) of Ok snap \<Rightarrow> snap | _ \<Rightarrow> \<lparr>snapshot_nodes = []\<rparr>)"

lemma totals_snapshot_taken: "engine_snapshot [1] (new_snapshot_budgets 3 4) verified_engine = (Ok totals_snapshot, verified_engine)"
proof -
  have "case fst (engine_snapshot [1] (new_snapshot_budgets 3 4) verified_engine) of Ok _ \<Rightarrow> True | _ \<Rightarrow> False" by code_simp
  then obtain snap e' where run: "engine_snapshot [1] (new_snapshot_budgets 3 4) verified_engine = (Ok snap, e')"
    by (cases "engine_snapshot [1] (new_snapshot_budgets 3 4) verified_engine") (auto split: outcome.splits)
  with engine_snapshot_Ok(1)[OF run] show ?thesis by (simp add: totals_snapshot_def)
qed

lemma totals_snapshot_keys: "map sn_key (snapshot_nodes totals_snapshot) = [1, 2, 3]"
  by code_simp

theorem snapshot_exact_witness: "read_reach verified_engine {1} 3 \<and> edge_count (snapshot_nodes totals_snapshot) \<le> 4"
proof -
  have "set (map sn_key (snapshot_nodes totals_snapshot)) = {k. read_reach verified_engine {1} k} \<and>
      min (edge_count (snapshot_nodes totals_snapshot)) usize_max \<le> 4"
    using snapshot_exact[where roots = "[1]" and b = "new_snapshot_budgets 3 4" and e = verified_engine] totals_snapshot_taken by (simp add: new_snapshot_budgets_def)
  then show ?thesis unfolding totals_snapshot_keys by (auto simp: usize_max_def)
qed

theorem restore_rejects_duplicates_witness:
  "\<exists>k. restore_snapshot id \<lparr>snapshot_nodes = snapshot_nodes totals_snapshot @ snapshot_nodes totals_snapshot\<rparr> totals_engine =
     (Err (DuplicateSnapshotNode k), totals_engine)"
proof -
  have "\<not> distinct (map sn_key (snapshot_nodes \<lparr>snapshot_nodes = snapshot_nodes totals_snapshot @ snapshot_nodes totals_snapshot\<rparr>))"
    by (simp add: totals_snapshot_keys)
  from restore_rejects_duplicates[OF this, of id totals_engine] show ?thesis by blast
qed

theorem restore_replaces_memos_witness:
  "\<exists>report e'. restore_snapshot id totals_snapshot totals_engine = (Ok report, e') \<and> report_nodes report = 3 \<and>
     report_recovered_dirty report = 3 \<and> queries e' = queries totals_engine"
proof -
  have d: "distinct (map sn_key (snapshot_nodes totals_snapshot))" by (simp add: totals_snapshot_keys)
  have len: "length (snapshot_nodes totals_snapshot) = 3" using arg_cong[OF totals_snapshot_keys, of length] by simp
  have "length (filter (\<lambda>node. \<not> sn_dirty node) (snapshot_nodes totals_snapshot)) = 3" by code_simp
  with restore_replaces_memos[OF d, of id totals_engine] len show ?thesis by force
qed

theorem snapshot_round_trip_witness:
  "engine_snapshot [1] (new_snapshot_budgets 3 4) (snd (restore_snapshot id totals_snapshot engine_new)) =
     (Ok \<lparr>snapshot_nodes = map marked_dirty (snapshot_nodes totals_snapshot)\<rparr>, snd (restore_snapshot id totals_snapshot engine_new))"
  by (rule snapshot_round_trip[OF totals_snapshot_taken surjective_pairing])

theorem restore_rollback_sound_witness:
  "\<exists>r e2 e4. (invalidate 10 verified_engine :: (nat incremental_error, _) outcome) = Ok (r, e2) \<and>
     totals_verify 1 (snd (restore_snapshot id totals_snapshot e2)) = Some (Ok 10, e4) \<and>
     denotes (contents contents_by_revision (snd (restore_snapshot id totals_snapshot e2)))
       (queries (snd (restore_snapshot id totals_snapshot e2))) 1 10"
proof -
  have test: "case invalidate 10 verified_engine :: (nat incremental_error, _) outcome of
      Ok (r, e2) \<Rightarrow> map_option fst (totals_verify 1 (snd (restore_snapshot id totals_snapshot e2))) = Some (Ok 10) | _ \<Rightarrow> False"
    by code_simp
  then obtain r e2 where i: "(invalidate 10 verified_engine :: (nat incremental_error, _) outcome) = Ok (r, e2)"
    by (auto split: outcome.splits)
  with test obtain e4 where v: "totals_verify 1 (snd (restore_snapshot id totals_snapshot e2)) = Some (Ok 10, e4)" by auto
  from restore_rollback_sound[OF verified_reachable totals_snapshot_taken evolve_invalidate[OF evolve_refl i] surjective_pairing v] i v
  show ?thesis by blast
qed

text \<open>The nodes of a snapshot are in the order of their discovery, not in key order.\<close>

lemma snapshot_order:
  "(case fst (engine_snapshot [1] unlimited_snapshot_budgets
      (run_engine (totals_verify 1 (register_query 0 (source_query 10) (register_query 1 (total_query 0 0) engine_new))))) of
     Ok snap \<Rightarrow> map sn_key (snapshot_nodes snap) = [1, 0] | _ \<Rightarrow> False)"
  by code_simp

section \<open>Outside the discipline\<close>

text \<open>Replacing the callback of an evaluated query.\<close>

definition replaced_engine :: "(nat, nat, nat) incremental_engine" where
  "replaced_engine = register_query 1 (\<lambda>_. Return 7)
     (run_engine (totals_verify 1 (register_query 1 (\<lambda>_. Return 5) engine_new)))"

text \<open>
  Replacing the callback of an evaluated query has no effect on its value: \<open>register_query\<close>
  marks the memo dirty but keeps it, and \<open>try_reuse_memo\<close> finds all its observations current, so
  \<open>verify\<close> returns the value of the old callback, which is not what the registered queries denote.
\<close>

theorem reregister_reuses_old_value:
  "map_option fst (totals_verify 1 replaced_engine) = Some (Ok 5) \<and>
   denotes (contents contents_by_revision replaced_engine) (queries replaced_engine) 1 7"
proof
  show "map_option fst (totals_verify 1 replaced_engine) = Some (Ok 5)" by code_simp
  have "bm_get (queries replaced_engine) 1 = Some (\<lambda>_. Return 7)"
    by (simp add: replaced_engine_def register_query_def Let_def)
  then show "denotes (contents contents_by_revision replaced_engine) (queries replaced_engine) 1 7"
    by (rule denotes_query) (rule denotes_return)
qed

text \<open>Removing a query whose key another query observes as a source.\<close>

definition removed_engine :: "(nat, nat, nat) incremental_engine" where
  "removed_engine = run_engine (totals_verify 3 (snd (remove_query 1
     (run_engine (totals_verify 3 (register_query 3 (total_query 2 2)
       (register_query 2 (source_query 1) (register_query 1 (\<lambda>_. Return 0) engine_new))))))))"

text \<open>
  \<open>detach_node\<close> drops the dependents of the removed key, so a later invalidation of that key no
  longer reaches the total: it is returned stale, although its source now reads otherwise.
\<close>

lemma remove_query_loses_dependents:
  "case invalidate 1 removed_engine :: (unit, _) outcome of
     Ok (r, e) \<Rightarrow> map_option fst (totals_verify 3 e) = Some (Ok 6) \<and> contents contents_by_revision e 1 > 3
   | _ \<Rightarrow> False"
  by code_simp

text \<open>A dependency of the previous run that the current run no longer has closes a cycle.\<close>

definition mode_query :: "nat \<Rightarrow> nat \<Rightarrow> (nat, nat, nat) query_body \<Rightarrow> (nat, nat, nat) query" where
  "mode_query mode other body _ = Observe Epoch 9 (try_then (\<lambda>m.
     if m = mode then ReadQuery other (try_then (\<lambda>v. Return (v + 1))) else body))"

definition mode_engine :: "(nat, nat, nat) incremental_engine" where
  "mode_engine = run_engine (totals_verify 1 (register_query 2 (mode_query 6 1 (Return 1))
     (register_query 1 (mode_query 3 2 (Return 5)) engine_new)))"

lemma stale_dependency_cycle:
  "case invalidate 9 mode_engine :: (unit, _) outcome of
     Ok (r, e) \<Rightarrow> map_option fst (totals_verify 1 e) = Some (Err (Cycle [1, 2, 1]))
   | _ \<Rightarrow> False"
  by code_simp

end
