(* ===== verification/Jvm_Frame.thy ===== *)
theory Jvm_Frame
  imports Jvm_Types
begin

text \<open>
  Verifier frames (sim-lib-lang-jvm, verifier/frame.rs and the frame part of verifier/types.rs):
  slots, locals and operand-stack frames, the writes that keep category-2 pairs whole, and the
  join of frames (verifier/environment_tests.rs, which the verifier includes). A slice index out
  of range panics in Rust and is a \<open>Panic\<close> here.
\<close>

section \<open>Frames\<close>

datatype verification_slot = UnusableSlot | Value verification_type | Category2Tail

datatype frame_kind = Locals | OperandStack

datatype frame_error = OutOfBounds | TruncatedCategory2 | WrongKind

datatype verification_frame =
    BottomFrame frame_kind usize
  | Reachable frame_kind "verification_slot list"

definition bottom_frame :: "frame_kind \<Rightarrow> usize \<Rightarrow> verification_frame" where
  "bottom_frame kind capacity = BottomFrame kind capacity"

definition frame_new :: "frame_kind \<Rightarrow> usize \<Rightarrow> verification_frame" where
  "frame_new kind capacity = Reachable kind (replicate capacity UnusableSlot)"

fun frame_kind_of :: "verification_frame \<Rightarrow> frame_kind" where
  "frame_kind_of (BottomFrame kind _) = kind"
| "frame_kind_of (Reachable kind _) = kind"

fun frame_capacity :: "verification_frame \<Rightarrow> usize" where
  "frame_capacity (BottomFrame _ capacity) = capacity"
| "frame_capacity (Reachable _ slots) = length slots"

fun normalized_slots :: "verification_frame \<Rightarrow> verification_slot list option" where
  "normalized_slots (Reachable _ slots) = Some slots"
| "normalized_slots (BottomFrame _ _) = None"

definition slice_get :: "'a list \<Rightarrow> nat \<Rightarrow> 'a option" where
  "slice_get xs i = (if i < length xs then Some (xs ! i) else None)"

fun frame_get :: "verification_frame \<Rightarrow> usize \<Rightarrow> verification_type option" where
  "frame_get (Reachable _ slots) index = (case slice_get slots index of Some (Value v) \<Rightarrow> Some v | _ \<Rightarrow> None)"
| "frame_get (BottomFrame _ _) index = None"

section \<open>Writing frames\<close>

definition is_head :: "verification_slot \<Rightarrow> bool" where
  "is_head slot = (case slot of Value v \<Rightarrow> width v = Some Category2 | _ \<Rightarrow> False)"

text \<open>\<open>slots[index] = slot\<close>: out of range it panics.\<close>

definition slice_set :: "nat \<Rightarrow> 'a \<Rightarrow> 'a list \<Rightarrow> ('e, 'a list) outcome" where
  "slice_set i x xs = (if i < length xs then Ok (xs[i := x]) else Panic ''index out of bounds'')"

definition invalidate_value_at :: "verification_slot list \<Rightarrow> usize \<Rightarrow> ('e, verification_slot list) outcome" where
  "invalidate_value_at slots index =
     bind_outcome
       (if (case slice_get slots index of Some slot \<Rightarrow> is_head slot | None \<Rightarrow> False) \<and> index + 1 < length slots
        then slice_set (index + 1) UnusableSlot slots else Ok slots) (\<lambda>slots.
     slice_set index UnusableSlot slots)"

fun set_local :: "usize \<Rightarrow> verification_type \<Rightarrow> verification_frame \<Rightarrow> (frame_error, verification_frame) outcome" where
  "set_local index v (BottomFrame _ _) = Err OutOfBounds"
| "set_local index v (Reachable kind slots) =
     (if kind \<noteq> Locals then Err WrongKind
      else case width v of
        None \<Rightarrow> Err OutOfBounds
      | Some w \<Rightarrow>
          if index \<ge> length slots then Err OutOfBounds
          else if w = Category2 \<and> index + 1 \<ge> length slots then Err TruncatedCategory2
          else
            (let overwrote_tail = (slots ! index = Category2Tail) in
             bind_outcome (invalidate_value_at slots index) (\<lambda>slots.
             bind_outcome (if index > 0 \<and> overwrote_tail then invalidate_value_at slots (index - 1) else Ok slots) (\<lambda>slots.
             bind_outcome (slice_set index (Value v) slots) (\<lambda>slots.
             if w = Category2
             then bind_outcome (invalidate_value_at slots (index + 1)) (\<lambda>slots.
                  bind_outcome (slice_set (index + 1) Category2Tail slots) (\<lambda>slots. Ok (Reachable kind slots)))
             else Ok (Reachable kind slots))))))"

fun position :: "('a \<Rightarrow> bool) \<Rightarrow> 'a list \<Rightarrow> nat option" where
  "position P [] = None"
| "position P (x # xs) = (if P x then Some 0 else map_option Suc (position P xs))"

fun push :: "verification_type \<Rightarrow> verification_frame \<Rightarrow> (frame_error, verification_frame) outcome" where
  "push v (BottomFrame _ _) = Err OutOfBounds"
| "push v (Reachable kind slots) =
     (if kind \<noteq> OperandStack then Err WrongKind
      else case width v of
        None \<Rightarrow> Err OutOfBounds
      | Some w \<Rightarrow>
          (let n = (case w of Category1 \<Rightarrow> 1 | Category2 \<Rightarrow> 2);
               start = (case position (\<lambda>slot. slot = UnusableSlot) slots of Some i \<Rightarrow> i | None \<Rightarrow> length slots)
           in
           if start + n > length slots then Err TruncatedCategory2
           else
             bind_outcome (slice_set start (Value v) slots) (\<lambda>slots.
             if n = 2 then bind_outcome (slice_set (start + 1) Category2Tail slots) (\<lambda>slots. Ok (Reachable kind slots))
             else Ok (Reachable kind slots))))"

definition type_width :: "verification_type \<Rightarrow> usize" where
  "type_width v = (if width v = Some Category2 then 1 else 0) + 1"

definition stack_values :: "verification_frame \<Rightarrow> verification_type list" where
  "stack_values frame =
     List.map_filter (\<lambda>slot. case slot of Value v \<Rightarrow> Some v | _ \<Rightarrow> None)
       (case normalized_slots frame of None \<Rightarrow> [] | Some slots \<Rightarrow> slots)"

definition stack_from_values :: "usize \<Rightarrow> verification_type list \<Rightarrow> (frame_error, verification_frame) outcome" where
  "stack_from_values capacity vs = for_each push vs (frame_new OperandStack capacity)"

section \<open>The join of frames\<close>

fun slot_join :: "verification_slot \<Rightarrow> verification_slot \<Rightarrow> verification_slot" where
  "slot_join (Value a) (Value b) = Value (join_types a b)"
| "slot_join Category2Tail Category2Tail = Category2Tail"
| "slot_join _ _ = UnusableSlot"

text \<open>One turn of the loop of \<open>normalize_category2\<close>.\<close>

definition normalize_slot :: "nat \<Rightarrow> verification_slot list \<Rightarrow> verification_slot list" where
  "normalize_slot index slots =
     (let valid_head = (is_head (slots ! index) \<and> slice_get slots (index + 1) = Some Category2Tail);
          valid_tail = (index > 0 \<and> is_head (slots ! (index - 1)))
      in
      if (is_head (slots ! index) \<and> \<not> valid_head) \<or> (slots ! index = Category2Tail \<and> \<not> valid_tail)
      then slots[index := UnusableSlot] else slots)"

fun normalize_category2 :: "verification_frame \<Rightarrow> verification_frame" where
  "normalize_category2 (BottomFrame kind capacity) = BottomFrame kind capacity"
| "normalize_category2 (Reachable kind slots) = Reachable kind (fold normalize_slot [0..<length slots] slots)"

definition frame_join :: "verification_frame \<Rightarrow> verification_frame \<Rightarrow> verification_frame" where
  "frame_join a b =
     (if frame_kind_of a \<noteq> frame_kind_of b \<or> frame_capacity a \<noteq> frame_capacity b
      then frame_new (frame_kind_of a) (max (frame_capacity a) (frame_capacity b))
      else case (normalized_slots a, normalized_slots b) of
             (None, _) \<Rightarrow> b
           | (_, None) \<Rightarrow> a
           | (Some left, Some right) \<Rightarrow>
               normalize_category2 (Reachable (frame_kind_of a) (map2 slot_join left right)))"

definition frame_less_equal :: "verification_frame \<Rightarrow> verification_frame \<Rightarrow> bool" where
  "frame_less_equal a b \<longleftrightarrow> frame_join a b = b"

definition frame_bottom :: "verification_frame \<Rightarrow> verification_frame" where
  "frame_bottom a = bottom_frame (frame_kind_of a) (frame_capacity a)"

section \<open>Verifier states\<close>

record verification_state =
  vs_locals :: verification_frame
  vs_stack :: verification_frame

definition state_bottom :: "verification_state \<Rightarrow> verification_state" where
  "state_bottom s = \<lparr>vs_locals = frame_bottom (vs_locals s), vs_stack = frame_bottom (vs_stack s)\<rparr>"

definition state_join :: "verification_state \<Rightarrow> verification_state \<Rightarrow> verification_state" where
  "state_join a b = \<lparr>vs_locals = frame_join (vs_locals a) (vs_locals b), vs_stack = frame_join (vs_stack a) (vs_stack b)\<rparr>"

definition state_less_equal :: "verification_state \<Rightarrow> verification_state \<Rightarrow> bool" where
  "state_less_equal a b \<longleftrightarrow> frame_less_equal (vs_locals a) (vs_locals b) \<and> frame_less_equal (vs_stack a) (vs_stack b)"

section \<open>Well-paired slots\<close>

text \<open>Category-2 heads and tails come in adjacent pairs.\<close>

definition well_paired :: "verification_slot list \<Rightarrow> bool" where
  "well_paired slots \<longleftrightarrow> (\<forall>i<length slots.
     (is_head (slots ! i) \<longrightarrow> i + 1 < length slots \<and> slots ! (i + 1) = Category2Tail) \<and>
     (slots ! i = Category2Tail \<longrightarrow> 0 < i \<and> is_head (slots ! (i - 1))))"

lemma is_head_simps [simp]:
  "\<not> is_head UnusableSlot" "\<not> is_head Category2Tail" "is_head (Value v) = (width v = Some Category2)"
  by (simp_all add: is_head_def)

lemma well_pairedD:
  assumes "well_paired slots"
  shows "is_head (slots ! i) \<Longrightarrow> i < length slots \<Longrightarrow> i + 1 < length slots \<and> slots ! (i + 1) = Category2Tail"
    "slots ! i = Category2Tail \<Longrightarrow> i < length slots \<Longrightarrow> 0 < i \<and> is_head (slots ! (i - 1))"
  using assms unfolding well_paired_def by blast+

definition invalidated :: "verification_slot list \<Rightarrow> nat \<Rightarrow> verification_slot list" where
  "invalidated slots i =
     (if is_head (slots ! i) \<and> i + 1 < length slots then slots[i + 1 := UnusableSlot] else slots)[i := UnusableSlot]"

lemma invalidate_value_at_Ok: "i < length slots \<Longrightarrow> invalidate_value_at slots i = Ok (invalidated slots i)"
  by (simp add: invalidate_value_at_def invalidated_def slice_get_def slice_set_def)

lemma length_invalidated [simp]: "length (invalidated slots i) = length slots"
  by (simp add: invalidated_def)

lemma nth_invalidated:
  "j < length slots \<Longrightarrow> i < length slots \<Longrightarrow>
   invalidated slots i ! j = (if j = i \<or> j = i + 1 \<and> is_head (slots ! i) then UnusableSlot else slots ! j)"
  by (auto simp: invalidated_def nth_list_update)

text \<open>What \<open>set_local\<close> writes, slot by slot.\<close>

definition local_written :: "usize \<Rightarrow> verification_type \<Rightarrow> verification_slot list \<Rightarrow> nat \<Rightarrow> verification_slot" where
  "local_written index v slots j =
     (if j = index then Value v
      else if j = index + 1 \<and> width v = Some Category2 then Category2Tail
      else if j = index + 1 \<and> is_head (slots ! index) then UnusableSlot
      else if j + 1 = index \<and> slots ! index = Category2Tail then UnusableSlot
      else if j = index + 2 \<and> width v = Some Category2 \<and> is_head (slots ! (index + 1)) then UnusableSlot
      else slots ! j)"

lemma set_local_Ok:
  assumes wp: "well_paired slots" and v: "width v = Some w" "index < length slots" "w = Category2 \<Longrightarrow> index + 1 < length slots"
  shows "set_local index v (Reachable Locals slots) =
    Ok (Reachable Locals (map (local_written index v slots) [0..<length slots]))"
proof -
  define s2 where "s2 = (if index > 0 \<and> slots ! index = Category2Tail then invalidated (invalidated slots index) (index - 1)
    else invalidated slots index)"
  define s3 where "s3 = s2[index := Value v]"
  define s4 where "s4 = (if w = Category2 then (invalidated s3 (index + 1))[index + 1 := Category2Tail] else s3)"
  have len: "length s2 = length slots" "length s3 = length slots" "length s4 = length slots"
    by (simp_all add: s2_def s3_def s4_def)
  have run: "set_local index v (Reachable Locals slots) = Ok (Reachable Locals s4)"
    using v len by (auto simp: Let_def invalidate_value_at_Ok slice_set_def s4_def s3_def s2_def)
  have s2: "s2 ! j = (if j = index \<or> j = index + 1 \<and> is_head (slots ! index) \<or> j + 1 = index \<and> slots ! index = Category2Tail
      then UnusableSlot else slots ! j)" if "j < length slots" for j
    using that v(2) by (auto simp: s2_def nth_invalidated)
  have "\<not> is_head (slots ! (index + 1))" if "is_head (slots ! index)"
    using well_pairedD(1)[OF wp that v(2)] by simp
  then have "s4 ! j = local_written index v slots j" if "j < length slots" for j
    using that v len by (auto simp: s4_def s3_def local_written_def nth_list_update nth_invalidated s2)
  then have "s4 = map (local_written index v slots) [0..<length slots]"
    by (intro nth_equalityI) (simp_all add: len)
  with run show ?thesis by simp
qed

lemma local_written_paired:
  assumes wp: "well_paired slots" and v: "width v = Some w" "index < length slots" "w = Category2 \<Longrightarrow> index + 1 < length slots"
  shows "well_paired (map (local_written index v slots) [0..<length slots])"
  unfolding well_paired_def
proof (intro allI impI conjI)
  fix i assume i: "i < length (map (local_written index v slots) [0..<length slots])"
  then have i': "i < length slots" by simp
  note D = well_pairedD[OF wp]
  let ?new = "map (local_written index v slots) [0..<length slots]"
  {
    assume h: "is_head (?new ! i)"
    then show "i + 1 < length ?new"
      using i' v D(1)[of i] by (auto simp: local_written_def split: if_splits)
    moreover have "local_written index v slots (i + 1) = Category2Tail"
    proof (cases "i = index")
      case True
      with h i' v show ?thesis by (simp add: local_written_def)
    next
      case False
      with h i' have s: "is_head (slots ! i)" and n: "\<not> (i + 1 = index \<and> slots ! index = Category2Tail)"
        "\<not> (i = index + 1 \<and> width v = Some Category2)"
        by (auto simp: local_written_def split: if_splits)
      from D(1)[OF s i'] have t: "i + 1 < length slots" "slots ! (i + 1) = Category2Tail" by auto
      have "\<not> (i + 2 = index \<and> slots ! index = Category2Tail)"
        using D(2)[of index] v(2) t by auto
      with False n t show ?thesis by (auto simp: local_written_def)
    qed
    ultimately show "?new ! (i + 1) = Category2Tail" by simp
  }
  {
    assume t: "?new ! i = Category2Tail"
    then show "0 < i" using i' v D(2)[of i] by (auto simp: local_written_def split: if_splits)
    have "is_head (local_written index v slots (i - 1))"
    proof (cases "i = index + 1 \<and> width v = Some Category2")
      case True
      then show ?thesis by (simp add: local_written_def)
    next
      case False
      with t i' have s: "slots ! i = Category2Tail" and n: "i \<noteq> index" "\<not> (i = index + 1 \<and> is_head (slots ! index))"
        "\<not> (i = index + 2 \<and> width v = Some Category2 \<and> is_head (slots ! (index + 1)))"
        by (auto simp: local_written_def split: if_splits)
      from D(2)[OF s i'] obtain k where k: "i = Suc k" "is_head (slots ! k)" by (cases i) auto
      have "\<not> (k = index + 1 \<and> is_head (slots ! index))" using D(1)[of index] v(2) k by auto
      moreover have "\<not> (k = index + 2 \<and> is_head (slots ! (index + 1)))" using D(1)[of "index + 1"] i' k by auto
      ultimately show ?thesis using n k by (auto simp: local_written_def)
    qed
    then show "is_head (?new ! (i - 1))" using i' by simp
  }
qed

section \<open>Operand stacks\<close>

text \<open>
  A packed stack frame holds the values of a list from the bottom, a category-2 value with its
  tail, and unusable slots above.
\<close>

definition slots_of :: "verification_type list \<Rightarrow> verification_slot list" where
  "slots_of vs = concat (map (\<lambda>v. if width v = Some Category2 then [Value v, Category2Tail] else [Value v]) vs)"

definition packed :: "usize \<Rightarrow> verification_type list \<Rightarrow> verification_slot list" where
  "packed capacity vs = slots_of vs @ replicate (capacity - length (slots_of vs)) UnusableSlot"

lemma slots_of_simps [simp]:
  "slots_of [] = []" "slots_of (vs @ ws) = slots_of vs @ slots_of ws"
  "slots_of (v # vs) = (if width v = Some Category2 then [Value v, Category2Tail] else [Value v]) @ slots_of vs"
  by (simp_all add: slots_of_def)

lemma length_slots_of: "length (slots_of vs) = sum_list (map type_width vs)"
  by (induction vs) (simp_all add: type_width_def)

lemma length_packed: "length (slots_of vs) \<le> capacity \<Longrightarrow> length (packed capacity vs) = capacity"
  by (simp add: packed_def)

lemma slots_of_usable: "UnusableSlot \<notin> set (slots_of vs)"
  by (induction vs) auto

lemma position_packed:
  "position (\<lambda>slot. slot = UnusableSlot) (slots_of vs @ replicate n UnusableSlot) =
    (if n = 0 then None else Some (length (slots_of vs)))"
proof -
  have "position (\<lambda>slot. slot = UnusableSlot) (xs @ replicate n UnusableSlot) = (if n = 0 then None else Some (length xs))"
    if "UnusableSlot \<notin> set xs" for xs
    using that by (induction xs) (cases n, auto)
  from this[OF slots_of_usable] show ?thesis .
qed

lemma packed_append:
  assumes "length (slots_of vs) + type_width v \<le> capacity"
  shows "packed capacity (vs @ [v]) =
    (let slots = (packed capacity vs)[length (slots_of vs) := Value v] in
     if width v = Some Category2 then slots[length (slots_of vs) + 1 := Category2Tail] else slots)"
proof -
  obtain d where d: "capacity = length (slots_of vs) + type_width v + d" using assms le_Suc_ex by blast
  show ?thesis
    unfolding d by (cases "width v = Some Category2") (simp_all add: packed_def type_width_def list_update_append)
qed

lemma push_packed:
  assumes "length (slots_of vs) \<le> capacity"
  shows "push v (Reachable OperandStack (packed capacity vs)) =
    (if width v = None then Err OutOfBounds
     else if length (slots_of (vs @ [v])) \<le> capacity then Ok (Reachable OperandStack (packed capacity (vs @ [v])))
     else Err TruncatedCategory2)"
proof (cases "width v")
  case (Some w)
  have start: "(case position (\<lambda>slot. slot = UnusableSlot) (packed capacity vs) of Some i \<Rightarrow> i | None \<Rightarrow> length (packed capacity vs))
      = length (slots_of vs)"
    using assms by (simp add: packed_def position_packed)
  have len: "length (packed capacity vs) = capacity" using assms by (rule length_packed)
  have n: "(case w of Category1 \<Rightarrow> 1 | Category2 \<Rightarrow> 2) = type_width v"
    using Some by (cases w) (simp_all add: type_width_def)
  have total: "length (slots_of (vs @ [v])) = length (slots_of vs) + type_width v" unfolding length_slots_of by simp
  show ?thesis
  proof (cases "length (slots_of vs) + type_width v \<le> capacity")
    case True
    have "push v (Reachable OperandStack (packed capacity vs)) = Ok (Reachable OperandStack (packed capacity (vs @ [v])))"
      unfolding packed_append[OF True] using True Some len start n
      by (cases w) (simp_all add: Let_def slice_set_def type_width_def)
    with True Some total show ?thesis by simp
  next
    case False
    then have "push v (Reachable OperandStack (packed capacity vs)) = Err TruncatedCategory2"
      using Some len start n by (simp add: Let_def)
    with False Some total show ?thesis by simp
  qed
qed simp

text \<open>Locals written one after the other from slot zero are packed as a stack is.\<close>

lemma set_local_packed:
  assumes "width v \<noteq> None" "length (slots_of vs) + type_width v \<le> capacity"
  shows "set_local (length (slots_of vs)) v (Reachable Locals (packed capacity vs)) = Ok (Reachable Locals (packed capacity (vs @ [v])))"
proof -
  have len: "length (packed capacity vs) = capacity" using assms by (intro length_packed) simp
  have i: "length (slots_of vs) < capacity" using assms(2) by (simp add: type_width_def)
  have free: "packed capacity vs ! j = UnusableSlot" if "length (slots_of vs) \<le> j" "j < capacity" for j
    using that by (simp add: packed_def nth_append)
  have same: "(packed capacity vs)[length (slots_of vs) := UnusableSlot] = packed capacity vs"
    using free[OF order_refl i] by (metis list_update_id)
  show ?thesis
  proof (cases "width v = Some Category2")
    case True
    with assms have i': "length (slots_of vs) + 1 < capacity" by (simp add: type_width_def)
    have "(packed capacity vs)[length (slots_of vs) := Value v, length (slots_of vs) + 1 := UnusableSlot, length (slots_of vs) + 1 := Category2Tail] =
        (packed capacity vs)[length (slots_of vs) := Value v, length (slots_of vs) + 1 := Category2Tail]"
      by (rule list_update_overwrite)
    with True i i' len same free[OF order_refl i] free[of "length (slots_of vs) + 1"] show ?thesis
      unfolding packed_append[OF assms(2)]
      by (simp add: Let_def invalidate_value_at_def slice_get_def slice_set_def)
  next
    case False
    with assms(1) have "width v = Some Category1" by (cases "width v"; cases "the (width v)") auto
    with i len same free[OF order_refl i] show ?thesis
      unfolding packed_append[OF assms(2)]
      by (simp add: Let_def invalidate_value_at_def slice_get_def slice_set_def)
  qed
qed

lemma packed_nth:
  assumes "i < length vs"
  shows "packed capacity vs ! sum_list (map type_width (take i vs)) = Value (vs ! i)"
proof -
  have "vs = take i vs @ vs ! i # drop (Suc i) vs" using assms by (rule id_take_nth_drop)
  then have "slots_of vs = slots_of (take i vs) @ slots_of (vs ! i # drop (Suc i) vs)" by (metis slots_of_simps(2))
  moreover have "hd (slots_of (vs ! i # drop (Suc i) vs)) = Value (vs ! i)" "slots_of (vs ! i # drop (Suc i) vs) \<noteq> []" by simp_all
  ultimately show ?thesis by (simp add: packed_def nth_append hd_conv_nth flip: length_slots_of del: slots_of_simps)
qed

lemma map_filter_append: "List.map_filter f (xs @ ys) = List.map_filter f xs @ List.map_filter f ys"
  by (simp add: List.map_filter_def)

lemma stack_values_packed [simp]: "stack_values (Reachable kind (packed capacity vs)) = vs"
proof -
  let ?f = "\<lambda>slot. case slot of Value v \<Rightarrow> Some v | _ \<Rightarrow> None"
  have "List.map_filter ?f (slots_of vs) = vs"
    by (induction vs) (simp_all add: map_filter_append List.map_filter_def)
  moreover have "List.map_filter ?f (replicate n UnusableSlot) = []" for n
    by (simp add: List.map_filter_def)
  ultimately show ?thesis by (simp add: stack_values_def packed_def map_filter_append)
qed

text \<open>Pushing a list of values onto a packed stack.\<close>

lemma push_all_packed:
  assumes "length (slots_of ws) \<le> capacity"
  shows "case for_each push vs (Reachable OperandStack (packed capacity ws)) of
      Ok f \<Rightarrow> f = Reachable OperandStack (packed capacity (ws @ vs)) \<and> length (slots_of (ws @ vs)) \<le> capacity \<and>
        (\<forall>v\<in>set vs. width v \<noteq> None)
    | Err e \<Rightarrow> (\<exists>v\<in>set vs. width v = None) \<or> length (slots_of (ws @ vs)) > capacity
    | Panic _ \<Rightarrow> False"
  using assms
proof (induction vs arbitrary: ws)
  case (Cons v vs)
  show ?case
  proof (cases "width v \<noteq> None \<and> length (slots_of (ws @ [v])) \<le> capacity")
    case True
    from Cons.IH[of "ws @ [v]"] True have IH: "case for_each push vs (Reachable OperandStack (packed capacity (ws @ [v]))) of
        Ok f \<Rightarrow> f = Reachable OperandStack (packed capacity (ws @ v # vs)) \<and> length (slots_of (ws @ v # vs)) \<le> capacity \<and>
          (\<forall>v\<in>set vs. width v \<noteq> None)
      | Err e \<Rightarrow> (\<exists>v\<in>set vs. width v = None) \<or> length (slots_of (ws @ v # vs)) > capacity
      | Panic _ \<Rightarrow> False" by (simp only: append_assoc append_Cons append_Nil)
    have "for_each push (v # vs) (Reachable OperandStack (packed capacity ws)) =
        for_each push vs (Reachable OperandStack (packed capacity (ws @ [v])))"
      using push_packed[OF Cons.prems, of v] True by simp
    with IH True show ?thesis
      by (cases "for_each push vs (Reachable OperandStack (packed capacity (ws @ [v])))") (simp_all only: outcome.case list.set, auto)
  next
    case False
    then have "\<exists>e. for_each push (v # vs) (Reachable OperandStack (packed capacity ws)) = Err e"
      using push_packed[OF Cons.prems, of v] by (auto split: if_splits)
    moreover from False have "width v = None \<or> length (slots_of (ws @ v # vs)) > capacity" by auto
    ultimately show ?thesis by (elim exE) (simp only: outcome.case, auto)
  qed
qed simp

lemma stack_from_values_cases:
  "case stack_from_values capacity vs of
      Ok f \<Rightarrow> f = Reachable OperandStack (packed capacity vs) \<and> length (slots_of vs) \<le> capacity \<and>
        (\<forall>v\<in>set vs. width v \<noteq> None)
    | Err e \<Rightarrow> (\<exists>v\<in>set vs. width v = None) \<or> length (slots_of vs) > capacity
    | Panic _ \<Rightarrow> False"
proof -
  have "packed capacity [] = replicate capacity UnusableSlot" by (simp add: packed_def)
  with push_all_packed[of "[]" capacity vs] show ?thesis
    unfolding stack_from_values_def frame_new_def by (simp only: append_Nil slots_of_simps list.size)
qed

section \<open>Joining frames\<close>

text \<open>What the normalisation loop leaves in each slot.\<close>

definition head_kept :: "verification_slot list \<Rightarrow> nat \<Rightarrow> bool" where
  "head_kept slots i \<longleftrightarrow> is_head (slots ! i) \<and> i + 1 < length slots \<and> slots ! (i + 1) = Category2Tail"

definition normal_slot :: "verification_slot list \<Rightarrow> nat \<Rightarrow> verification_slot" where
  "normal_slot slots i =
     (if is_head (slots ! i) \<and> \<not> head_kept slots i then UnusableSlot
      else if slots ! i = Category2Tail \<and> \<not> (0 < i \<and> head_kept slots (i - 1)) then UnusableSlot
      else slots ! i)"

lemma is_head_normal_slot [simp]: "is_head (normal_slot slots i) \<longleftrightarrow> head_kept slots i"
  by (auto simp: normal_slot_def head_kept_def)

lemma length_normalize_slots [simp]: "length (fold normalize_slot is slots) = length slots"
  by (induction "is" arbitrary: slots) (simp_all add: normalize_slot_def Let_def)

lemma normalize_slots_nth:
  assumes "n \<le> length slots" "j < length slots"
  shows "fold normalize_slot [0..<n] slots ! j = (if j < n then normal_slot slots j else slots ! j)"
  using assms
proof (induction n arbitrary: j)
  case (Suc n)
  let ?s = "fold normalize_slot [0..<n] slots"
  have IH: "?s ! i = (if i < n then normal_slot slots i else slots ! i)" if "i < length slots" for i
    using Suc.IH[of i] Suc.prems(1) that by simp
  have n: "n < length slots" using Suc.prems(1) by simp
  have succ: "slice_get ?s (n + 1) = Some Category2Tail \<longleftrightarrow> n + 1 < length slots \<and> slots ! (n + 1) = Category2Tail"
    using IH[of "n + 1"] by (simp add: slice_get_def)
  have pred: "0 < n \<Longrightarrow> is_head (?s ! (n - 1)) \<longleftrightarrow> head_kept slots (n - 1)"
    using IH[of "n - 1"] n by simp
  have step: "normalize_slot n ?s =
      (if is_head (slots ! n) \<and> \<not> head_kept slots n \<or> slots ! n = Category2Tail \<and> \<not> (0 < n \<and> head_kept slots (n - 1))
       then ?s[n := UnusableSlot] else ?s)"
    using n IH[of n] succ pred by (auto simp: normalize_slot_def Let_def head_kept_def)
  have "normalize_slot n ?s ! j = (if j = n then normal_slot slots n else ?s ! j)"
    unfolding step using n Suc.prems(2) IH[of n] by (auto simp: normal_slot_def)
  with IH[OF Suc.prems(2)] show ?case by (simp add: less_Suc_eq)
qed simp

lemma normalize_category2_Reachable:
  "normalize_category2 (Reachable kind slots) = Reachable kind (map (normal_slot slots) [0..<length slots])"
  by (auto intro!: nth_equalityI simp: normalize_slots_nth)

lemma normalized_paired: "well_paired (map (normal_slot slots) [0..<length slots])"
  unfolding well_paired_def
proof (intro allI impI conjI)
  fix i assume i: "i < length (map (normal_slot slots) [0..<length slots])"
  {
    assume "is_head (map (normal_slot slots) [0..<length slots] ! i)"
    with i have "head_kept slots i" by simp
    then show "i + 1 < length (map (normal_slot slots) [0..<length slots])"
      "map (normal_slot slots) [0..<length slots] ! (i + 1) = Category2Tail"
      by (auto simp: head_kept_def normal_slot_def)
  }
  {
    assume "map (normal_slot slots) [0..<length slots] ! i = Category2Tail"
    with i have "0 < i \<and> head_kept slots (i - 1)" by (auto simp: normal_slot_def split: if_splits)
    with i show "0 < i" "is_head (map (normal_slot slots) [0..<length slots] ! (i - 1))" by auto
  }
qed

text \<open>Frames the verifier builds: paired, and without an unreached value in a reachable frame.\<close>

fun wf_frame :: "verification_frame \<Rightarrow> bool" where
  "wf_frame (BottomFrame _ _) = True"
| "wf_frame (Reachable _ slots) = (well_paired slots \<and> Value Bottom \<notin> set slots)"

text \<open>The join of two paired slot lists, slot by slot.\<close>

definition joined_slot :: "verification_slot list \<Rightarrow> verification_slot list \<Rightarrow> nat \<Rightarrow> verification_slot" where
  "joined_slot l r i =
     (case (l ! i, r ! i) of
        (Value a, Value b) \<Rightarrow> Value (join_types a b)
      | (Category2Tail, Category2Tail) \<Rightarrow> if l ! (i - 1) = r ! (i - 1) then Category2Tail else UnusableSlot
      | _ \<Rightarrow> UnusableSlot)"

lemma join_types_head:
  "a \<noteq> Bottom \<Longrightarrow> b \<noteq> Bottom \<Longrightarrow> width (join_types a b) = Some Category2 \<longleftrightarrow> a = b \<and> width a = Some Category2"
  by (cases a; cases b) (auto simp: join_types_def)

lemma frame_join_slots:
  assumes l: "wf_frame (Reachable k l)" and r: "wf_frame (Reachable k r)" and len: "length l = length r"
  shows "frame_join (Reachable k l) (Reachable k r) = Reachable k (map (joined_slot l r) [0..<length l])"
proof -
  let ?s = "map2 slot_join l r"
  have nth: "?s ! i = slot_join (l ! i) (r ! i)" if "i < length l" for i using that len by simp
  have nb: "l ! i \<noteq> Value Bottom" "r ! i \<noteq> Value Bottom" if "i < length l" for i
    using that l r len by (auto simp: in_set_conv_nth)
  have head: "is_head (?s ! i) \<longleftrightarrow> l ! i = r ! i \<and> is_head (l ! i)" if i: "i < length l" for i
    using nb[OF i] unfolding nth[OF i] by (cases "l ! i"; cases "r ! i") (auto simp: join_types_head)
  have kept: "head_kept ?s i \<longleftrightarrow> l ! i = r ! i \<and> is_head (l ! i)" if i: "i < length l" for i
    using head[OF i] well_pairedD(1)[of l i] well_pairedD(1)[of r i] l r i len nth[of "i + 1"]
    by (auto simp: head_kept_def)
  have "normal_slot ?s i = joined_slot l r i" if i: "i < length l" for i
  proof (cases "?s ! i = Category2Tail")
    case True
    then have t: "l ! i = Category2Tail" "r ! i = Category2Tail" unfolding nth[OF i] by (cases "l ! i"; cases "r ! i"; simp)+
    from well_pairedD(2)[of l i] l t i have p: "0 < i" "is_head (l ! (i - 1))" by auto
    with True t kept[of "i - 1"] i show ?thesis by (auto simp: normal_slot_def joined_slot_def)
  next
    case False
    with head[OF i] kept[OF i] have "normal_slot ?s i = ?s ! i" by (auto simp: normal_slot_def)
    with False show ?thesis unfolding nth[OF i] joined_slot_def by (cases "l ! i"; cases "r ! i") auto
  qed
  with len show ?thesis
    by (simp add: frame_join_def normalize_category2_Reachable del: normalize_category2.simps)
qed

lemma frame_join_wf:
  assumes "wf_frame a" "wf_frame b" shows "wf_frame (frame_join a b)"
proof (cases "frame_kind_of a \<noteq> frame_kind_of b \<or> frame_capacity a \<noteq> frame_capacity b")
  case True
  then show ?thesis by (auto simp: frame_join_def frame_new_def well_paired_def)
next
  case False
  show ?thesis
  proof (cases a)
    case (Reachable k l)
    show ?thesis
    proof (cases b)
      case b: (Reachable k' r)
      with Reachable False assms have k: "k' = k" "length l = length r" "wf_frame (Reachable k l)" "wf_frame (Reachable k r)" by auto
      have "joined_slot l r i \<noteq> Value Bottom" if "i < length l" for i
        using that k by (auto simp: joined_slot_def join_types_def in_set_conv_nth
            split: verification_slot.splits verification_type.splits if_splits)
      then have "Value Bottom \<notin> set (map (joined_slot l r) [0..<length l])" by (fastforce simp: in_set_conv_nth)
      moreover have "frame_join (Reachable k l) (Reachable k r) = normalize_category2 (Reachable k (map2 slot_join l r))"
        using k by (simp add: frame_join_def)
      then have "map (joined_slot l r) [0..<length l] = map (normal_slot (map2 slot_join l r)) [0..<length (map2 slot_join l r)]"
        unfolding frame_join_slots[OF k(3,4,2)] normalize_category2_Reachable by simp
      then have "well_paired (map (joined_slot l r) [0..<length l])" by (simp only: normalized_paired)
      ultimately show ?thesis
        unfolding Reachable b k(1) frame_join_slots[OF k(3,4,2)] wf_frame.simps by blast
    qed (use False assms Reachable in \<open>auto simp: frame_join_def\<close>)
  qed (use False assms in \<open>auto simp: frame_join_def\<close>)
qed

definition same_shape :: "verification_frame \<Rightarrow> verification_frame \<Rightarrow> bool" where
  "same_shape a b \<longleftrightarrow> frame_kind_of a = frame_kind_of b \<and> frame_capacity a = frame_capacity b"

lemma frame_join_shape: "same_shape a b \<Longrightarrow> same_shape a (frame_join a b)"
  by (cases a; cases b) (auto simp: same_shape_def frame_join_def)

lemma frame_join_bottom: "same_shape a b \<Longrightarrow> frame_join (frame_bottom a) b = b"
  by (simp add: frame_join_def frame_bottom_def bottom_frame_def same_shape_def)

lemma joined_slot_comm: "joined_slot l r i = joined_slot r l i"
  by (auto simp: joined_slot_def join_types_comm split: verification_slot.splits)

lemma frame_join_comm:
  assumes "wf_frame a" "wf_frame b" "same_shape a b"
  shows "frame_join a b = frame_join b a"
proof (cases "\<exists>k l r. a = Reachable k l \<and> b = Reachable k r")
  case True
  then obtain k l r where ab: "a = Reachable k l" "b = Reachable k r" by blast
  with assms have w: "wf_frame (Reachable k l)" "wf_frame (Reachable k r)" "length l = length r" by (auto simp: same_shape_def)
  show ?thesis
    unfolding ab frame_join_slots[OF w] frame_join_slots[OF w(2,1) w(3)[symmetric]] w(3)
    by (simp add: joined_slot_comm)
next
  case False
  with assms(3) show ?thesis by (cases a; cases b) (auto simp: same_shape_def frame_join_def)
qed

lemma frame_join_idem:
  assumes "wf_frame a" shows "frame_join a a = a"
proof (cases a)
  case (Reachable k l)
  have "joined_slot l l i = l ! i" for i by (simp add: joined_slot_def split: verification_slot.split)
  then have "map (joined_slot l l) [0..<length l] = l" by (intro nth_equalityI) simp_all
  with Reachable assms show ?thesis using frame_join_slots[of k l l] by simp
qed (simp add: frame_join_def)

lemma joined_slot_assoc:
  assumes w: "wf_frame (Reachable k l)" "wf_frame (Reachable k r)" "wf_frame (Reachable k s)"
    and len: "length l = length r" "length r = length s" and i: "i < length l"
  shows "joined_slot (map (joined_slot l r) [0..<length l]) s i = joined_slot l (map (joined_slot r s) [0..<length r]) i"
proof -
  have wp: "well_paired l" "well_paired r" "well_paired s" using w by auto
  show ?thesis
  proof (cases "l ! i = Category2Tail \<and> r ! i = Category2Tail \<and> s ! i = Category2Tail")
    case True
    from well_pairedD(2)[OF wp(1)] well_pairedD(2)[OF wp(2)] well_pairedD(2)[OF wp(3)] True i len
    have h: "0 < i" "is_head (l ! (i - 1))" "is_head (r ! (i - 1))" "is_head (s ! (i - 1))" by auto
    then obtain a b c where v: "l ! (i - 1) = Value a" "r ! (i - 1) = Value b" "s ! (i - 1) = Value c"
      by (cases "l ! (i - 1)"; cases "r ! (i - 1)"; cases "s ! (i - 1)") auto
    with True h(1) i len show ?thesis
      by (cases "a = b"; cases "b = c") (auto simp: joined_slot_def)
  next
    case False
    with i len show ?thesis
      by (cases "l ! i"; cases "r ! i"; cases "s ! i") (auto simp: joined_slot_def join_types_assoc)
  qed
qed

lemma frame_join_assoc:
  assumes w: "wf_frame a" "wf_frame b" "wf_frame c" and s: "same_shape a b" "same_shape b c"
  shows "frame_join (frame_join a b) c = frame_join a (frame_join b c)"
proof (cases "\<exists>k l r t. a = Reachable k l \<and> b = Reachable k r \<and> c = Reachable k t")
  case True
  then obtain k l r t where abc: "a = Reachable k l" "b = Reachable k r" "c = Reachable k t" by blast
  with w s have ws: "wf_frame (Reachable k l)" "wf_frame (Reachable k r)" "wf_frame (Reachable k t)"
    and len: "length l = length r" "length r = length t" by (auto simp: same_shape_def)
  have ab: "frame_join a b = Reachable k (map (joined_slot l r) [0..<length l])"
    unfolding abc by (rule frame_join_slots[OF ws(1,2) len(1)])
  have bc: "frame_join b c = Reachable k (map (joined_slot r t) [0..<length r])"
    unfolding abc by (rule frame_join_slots[OF ws(2,3) len(2)])
  have "wf_frame (frame_join a b)" "wf_frame (frame_join b c)" using frame_join_wf w by blast+
  then have "frame_join (frame_join a b) c = Reachable k (map (joined_slot (map (joined_slot l r) [0..<length l]) t) [0..<length l])"
    "frame_join a (frame_join b c) = Reachable k (map (joined_slot l (map (joined_slot r t) [0..<length r])) [0..<length l])"
    unfolding ab bc abc using ws len by (simp_all add: frame_join_slots del: wf_frame.simps)
  then show ?thesis using joined_slot_assoc[OF ws len] by simp
next
  case False
  then show ?thesis
    using s frame_join_shape[of a b] frame_join_shape[of b c]
    by (cases a; cases b; cases c) (auto simp: same_shape_def frame_join_def)
qed

section \<open>Properties\<close>

text \<open>
  Writing a local of a well-formed frame never panics; it succeeds exactly when the value has
  a width and fits, keeps category-2 pairs whole, makes the written value readable at its index,
  and changes no other readable value unless the write cut through its pair.
\<close>

theorem set_local_correct:
  assumes "well_paired slots"
  shows "case set_local index v (Reachable Locals slots) of
      Panic _ \<Rightarrow> False
    | Err e \<Rightarrow> width v = None \<or> index + type_width v > length slots
    | Ok f \<Rightarrow> \<exists>slots'. f = Reachable Locals slots' \<and> length slots' = length slots \<and> well_paired slots' \<and>
        index + type_width v \<le> length slots \<and> frame_get f index = Some v \<and>
        (\<forall>j. j < index \<and> index \<noteq> j + 1 \<or> j > index + 2 \<longrightarrow> frame_get f j = frame_get (Reachable Locals slots) j)"
proof (cases "\<exists>w. width v = Some w \<and> index < length slots \<and> (w = Category2 \<longrightarrow> index + 1 < length slots)")
  case True
  then obtain w where w: "width v = Some w" "index < length slots" "w = Category2 \<Longrightarrow> index + 1 < length slots" by blast
  note run = set_local_Ok[OF assms w] and paired = local_written_paired[OF assms w]
  have "index + type_width v \<le> length slots" using w by (cases w) (auto simp: type_width_def)
  moreover have "local_written index v slots j = slots ! j" if "j < index \<and> index \<noteq> j + 1 \<or> j > index + 2" for j
    using that by (auto simp: local_written_def)
  moreover have "local_written index v slots index = Value v" by (simp add: local_written_def)
  ultimately show ?thesis
    using paired w(2) by (simp only: run outcome.case) (auto simp: slice_get_def)
next
  case False
  then have bad: "width v = None \<or> index + type_width v > length slots"
    by (cases "width v"; cases "the (width v)") (auto simp: type_width_def)
  moreover from False have "\<exists>e. set_local index v (Reachable Locals slots) = Err e"
    by (cases "width v"; cases "the (width v)") auto
  ultimately show ?thesis by (elim exE) (simp only: outcome.case)
qed

theorem set_local_correct_witness:
  "well_paired [Value Long, Category2Tail, UnusableSlot] \<and>
   (case set_local 1 IntType (Reachable Locals [Value Long, Category2Tail, UnusableSlot]) of
      Panic _ \<Rightarrow> False
    | Err e \<Rightarrow> False
    | Ok f \<Rightarrow> frame_get f 1 = Some IntType \<and> frame_get f 0 = None)"
proof -
  have wp: "well_paired [Value Long, Category2Tail, UnusableSlot]"
    by (auto simp: well_paired_def less_Suc_eq nth_Cons split: nat.splits)
  have run: "set_local 1 IntType (Reachable Locals [Value Long, Category2Tail, UnusableSlot]) =
      Ok (Reachable Locals [UnusableSlot, Value IntType, UnusableSlot])"
    by (simp add: invalidate_value_at_def slice_get_def slice_set_def)
  from set_local_correct[OF wp, of 1 IntType] have "frame_get (Reachable Locals [UnusableSlot, Value IntType, UnusableSlot]) 1 = Some IntType"
    unfolding run by simp
  with wp show ?thesis unfolding run by (simp add: slice_get_def)
qed

text \<open>
  Rebuilding an operand stack from a list of values succeeds exactly when every value has a
  width and together they fit the capacity, never panics, and reading the stack back gives the
  same list.
\<close>

theorem stack_round_trip:
  "case stack_from_values capacity vs of
      Ok f \<Rightarrow> stack_values f = vs \<and> frame_capacity f = capacity \<and> sum_list (map type_width vs) \<le> capacity \<and>
        (\<forall>v\<in>set vs. width v \<noteq> None)
    | Err e \<Rightarrow> (\<exists>v\<in>set vs. width v = None) \<or> sum_list (map type_width vs) > capacity
    | Panic _ \<Rightarrow> False"
  using stack_from_values_cases[of capacity vs]
  by (cases "stack_from_values capacity vs") (auto simp: length_packed simp flip: length_slots_of)

theorem stack_round_trip_witness:
  "case stack_from_values 3 [Long, IntType] of Ok f \<Rightarrow> stack_values f = [Long, IntType] \<and> frame_capacity f = 3 | _ \<Rightarrow> False"
proof -
  have "stack_from_values 3 [Long, IntType] = Ok (Reachable OperandStack [Value Long, Category2Tail, Value IntType])"
    by (simp add: stack_from_values_def frame_new_def slice_set_def eval_nat_numeral)
  with stack_round_trip[where capacity = 3 and vs = "[Long, IntType]"] show ?thesis by simp
qed

text \<open>
  C37: On well-formed frames of one shape the frame join is a join semilattice: idempotent,
  commutative, associative, with the unreachable frame as bottom, and joins are well formed and of
  the same shape again.
\<close>

theorem frame_join_semilattice:
  assumes "wf_frame a" "wf_frame b" "wf_frame c" "same_shape a b" "same_shape b c"
  shows "frame_join a a = a \<and> frame_join a b = frame_join b a \<and>
    frame_join (frame_join a b) c = frame_join a (frame_join b c) \<and>
    frame_join (frame_bottom a) b = b \<and> wf_frame (frame_join a b) \<and> same_shape a (frame_join a b)"
  using assms by (simp add: frame_join_idem frame_join_assoc frame_join_bottom frame_join_wf frame_join_shape)
    (rule frame_join_comm[OF assms(1,2,4)])

theorem frame_join_semilattice_witness:
  "frame_join (Reachable Locals [Value Long, Category2Tail]) (Reachable Locals [Value IntType, Value Float]) =
     frame_join (Reachable Locals [Value IntType, Value Float]) (Reachable Locals [Value Long, Category2Tail]) \<and>
   frame_join (Reachable Locals [Value Long, Category2Tail]) (Reachable Locals [Value IntType, Value Float]) =
     Reachable Locals [Value Unusable, UnusableSlot]"
proof -
  let ?a = "Reachable Locals [Value Long, Category2Tail]" and ?b = "Reachable Locals [Value IntType, Value Float]"
  have wf: "wf_frame ?a" "wf_frame ?b" "same_shape ?a ?b" "same_shape ?b ?b"
    by (auto simp: well_paired_def same_shape_def less_Suc_eq nth_Cons split: nat.splits)
  have "frame_join ?a ?b = Reachable Locals [Value Unusable, UnusableSlot]"
    by (simp add: frame_join_def upt_rec normalize_slot_def slice_get_def join_types_def)
  with frame_join_semilattice[OF wf(1,2,2) wf(3,4)] show ?thesis by simp
qed

end
