(* ===== verification/Jvm_Transfer.thy ===== *)
theory Jvm_Transfer
  imports Jvm_Frame
begin

text \<open>
  The storage transfer of the JVM verifier: constants, loads, stores, \<open>iinc\<close> and the stack
  shuffles (\<open>transfer_storage_instruction\<close> of verifier/frame.rs, \<open>shuffle_descriptor\<close> of
  execution.rs). \<open>Opcode\<close> and \<open>InstructionOperand\<close> come from the class-file codec, which is not
  in the repository: the model has the variants the verifier's storage, numeric, initialization and
  control transfers name, the numeric and control ones in groups, every other opcode is
  \<open>OtherOpcode\<close>, and the opcode's byte (\<open>opcode as u8\<close>) is the parameter \<open>byte\<close>. The constant
  pool is the parameter \<open>constants\<close>.
\<close>

section \<open>Instructions\<close>

datatype integral_opcode =
    Iadd | Isub | Imul | Idiv | Irem | Iand | Ior | Ixor | Ishl | Ishr | Iushr
  | Ladd | Lsub | Lmul | Ldiv | Lrem | Land | Lor | Lxor | Lshl | Lshr | Lushr | Ineg | Lneg | Lcmp | I2b | I2c | I2s

datatype floating_opcode =
    Fadd | Fsub | Fmul | Fdiv | Frem | Dadd | Dsub | Dmul | Ddiv | Drem | Fneg | Dneg
  | I2l | I2f | I2d | L2i | L2f | L2d | F2i | F2l | F2d | D2i | D2l | D2f | Fcmpl | Fcmpg | Dcmpl | Dcmpg

datatype control_opcode =
    Ifeq | Ifne | Iflt | Ifge | Ifgt | Ifle | Tableswitch | Lookupswitch
  | IfIcmpeq | IfIcmpne | IfIcmplt | IfIcmpge | IfIcmpgt | IfIcmple | IfAcmpeq | IfAcmpne | Ifnull | Ifnonnull
  | Goto | GotoW | Ireturn | Lreturn | Freturn | Dreturn | Areturn | ReturnVoid

datatype opcode =
    Nop | AconstNull | IconstM1 | Iconst0 | Iconst1 | Iconst2 | Iconst3 | Iconst4 | Iconst5 | Bipush | Sipush
  | Lconst0 | Lconst1 | Fconst0 | Fconst1 | Fconst2 | Dconst0 | Dconst1 | Ldc | LdcW | Ldc2W
  | Iload | Lload | Fload | Dload | Aload | Istore | Lstore | Fstore | Dstore | Astore
  | Iload0 | Lload0 | Fload0 | Dload0 | Aload0 | Istore0 | Lstore0 | Fstore0 | Dstore0 | Astore0
  | Iinc | Pop | Pop2 | Dup | DupX1 | DupX2 | Dup2 | Dup2X1 | Dup2X2 | Swap
  | New | Invokespecial | Athrow
  | Integral integral_opcode | Floating floating_opcode | Control control_opcode | OtherOpcode nat

datatype instruction_operand =
  Constant nat | Local nat | Immediate int | Branch nat | TableLow int | TableHigh int | LookupKey int | OtherOperand

record 'i prepared_instruction =
  pi_id :: 'i
  pi_opcode :: opcode
  pi_operands :: "instruction_operand list"
  pi_input_width :: usize

datatype 'd verification_transfer_kind =
    MalformedPreparedInput | LocalBounds | StackBounds | Category | ReturnType | ConstantKind nat | UninitializedUse
  | IllegalConstructorReceiver | InitializationMerge | UninitializedHandlerEntry | FieldStaticness | MemberAccess
  | ProtectedMemberAccess | MemoryType | ArrayType | InvocationType | InvocationStaticness | InvocationOwnerKind
  | SignaturePolymorphic | DynamicBootstrap 'd

record ('i, 'd) verification_transfer_error =
  te_instruction :: 'i
  te_offset :: usize
  te_opcode :: opcode
  te_kind :: "'d verification_transfer_kind"

datatype verification_category = CatInt | CatLong | CatFloat | CatDouble | CatReference

section \<open>Classification\<close>

fun constant_operands_valid :: "opcode \<Rightarrow> instruction_operand list \<Rightarrow> bool" where
  "constant_operands_valid opcode operands =
     (if opcode \<in> {Bipush, Sipush} then (case operands of [Immediate _] \<Rightarrow> True | _ \<Rightarrow> False)
      else if opcode \<in> {Ldc, LdcW, Ldc2W} then (case operands of [Constant _] \<Rightarrow> True | _ \<Rightarrow> False)
      else operands = [])"

fun require_verification_category :: "verification_type \<Rightarrow> verification_category \<Rightarrow> bool" where
  "require_verification_category IntType CatInt = True"
| "require_verification_category Long CatLong = True"
| "require_verification_category Float CatFloat = True"
| "require_verification_category Double CatDouble = True"
| "require_verification_category Null CatReference = True"
| "require_verification_category (Reference _) CatReference = True"
| "require_verification_category UninitializedThis CatReference = True"
| "require_verification_category (Uninitialized _) CatReference = True"
| "require_verification_category _ _ = False"

definition verifier_implicit_local :: "(opcode \<Rightarrow> nat) \<Rightarrow> opcode \<Rightarrow> bool \<Rightarrow> (verification_category \<times> usize option) option" where
  "verifier_implicit_local byte opcode load =
     (let families = (if load
        then [(Iload0, CatInt), (Lload0, CatLong), (Fload0, CatFloat), (Dload0, CatDouble), (Aload0, CatReference)]
        else [(Istore0, CatInt), (Lstore0, CatLong), (Fstore0, CatFloat), (Dstore0, CatDouble), (Astore0, CatReference)])
      in
      case find (\<lambda>(first, _). byte opcode \<ge> byte first \<and> byte opcode - byte first < 4) families of
        None \<Rightarrow> None
      | Some (first, category) \<Rightarrow> Some (category, Some (byte opcode - byte first)))"

text \<open>The explicit forms name their local as an operand, the implicit ones in the opcode.\<close>

definition explicit_local :: "opcode \<Rightarrow> bool \<Rightarrow> verification_category option" where
  "explicit_local opcode load =
     map_of (if load
       then [(Iload, CatInt), (Lload, CatLong), (Fload, CatFloat), (Dload, CatDouble), (Aload, CatReference)]
       else [(Istore, CatInt), (Lstore, CatLong), (Fstore, CatFloat), (Dstore, CatDouble), (Astore, CatReference)]) opcode"

definition verifier_local_access ::
  "(opcode \<Rightarrow> nat) \<Rightarrow> opcode \<Rightarrow> instruction_operand list \<Rightarrow> bool \<Rightarrow>
   ('d verification_transfer_kind, (usize \<times> verification_category) option) outcome" where
  "verifier_local_access byte opcode operands load =
     (case (case explicit_local opcode load of
              Some category \<Rightarrow> Some (category, None)
            | None \<Rightarrow> verifier_implicit_local byte opcode load) of
        None \<Rightarrow> Ok None
      | Some (category, Some slot) \<Rightarrow>
          if operands = [] then Ok (Some (slot, category)) else Err MalformedPreparedInput
      | Some (category, None) \<Rightarrow>
          (case operands of [Local slot] \<Rightarrow> Ok (Some (slot, category)) | _ \<Rightarrow> Err MalformedPreparedInput))"

fun shuffle_descriptor :: "opcode \<Rightarrow> (usize list \<times> usize list) list option" where
  "shuffle_descriptor Pop = Some [([1], [])]"
| "shuffle_descriptor Pop2 = Some [([2], []), ([1, 1], [])]"
| "shuffle_descriptor Dup = Some [([1], [0, 0])]"
| "shuffle_descriptor DupX1 = Some [([1, 1], [1, 0, 1])]"
| "shuffle_descriptor DupX2 = Some [([2, 1], [1, 0, 1]), ([1, 1, 1], [2, 0, 1, 2])]"
| "shuffle_descriptor Dup2 = Some [([2], [0, 0]), ([1, 1], [0, 1, 0, 1])]"
| "shuffle_descriptor Dup2X1 = Some [([1, 2], [1, 0, 1]), ([1, 1, 1], [1, 2, 0, 1, 2])]"
| "shuffle_descriptor Dup2X2 = Some [([2, 2], [1, 0, 1]), ([1, 1, 2], [2, 0, 1, 2]), ([2, 1, 1], [1, 2, 0, 1, 2]),
     ([1, 1, 1, 1], [2, 3, 0, 1, 2, 3])]"
| "shuffle_descriptor Swap = Some [([1, 1], [1, 0])]"
| "shuffle_descriptor _ = None"

definition ends_with :: "'a list \<Rightarrow> 'a list \<Rightarrow> bool" where
  "ends_with xs ys \<longleftrightarrow> length ys \<le> length xs \<and> drop (length xs - length ys) xs = ys"

section \<open>The transfer\<close>

definition ensure :: "'e \<Rightarrow> bool \<Rightarrow> ('e, unit) outcome" where
  "ensure e b = (if b then Ok () else Err e)"

text \<open>The \<open>constant\<close> a constant instruction pushes; \<open>Ok None\<close> for every other opcode.\<close>

definition constant_of ::
  "(nat \<Rightarrow> verification_type option) \<Rightarrow> opcode \<Rightarrow> instruction_operand list \<Rightarrow>
   ('d verification_transfer_kind, verification_type option) outcome" where
  "constant_of constants opcode operands =
     (if opcode = AconstNull then Ok (Some Null)
      else if opcode \<in> {IconstM1, Iconst0, Iconst1, Iconst2, Iconst3, Iconst4, Iconst5, Bipush, Sipush} then Ok (Some IntType)
      else if opcode \<in> {Lconst0, Lconst1} then Ok (Some Long)
      else if opcode \<in> {Fconst0, Fconst1, Fconst2} then Ok (Some Float)
      else if opcode \<in> {Dconst0, Dconst1} then Ok (Some Double)
      else if opcode \<in> {Ldc, LdcW, Ldc2W} then
        (case operands of
           [Constant index] \<Rightarrow>
             (case constants index of
                None \<Rightarrow> Err (ConstantKind index)
              | Some v \<Rightarrow>
                  if type_width v \<noteq> (if opcode = Ldc2W then 2 else 1) then Err (ConstantKind index) else Ok (Some v))
         | _ \<Rightarrow> Err MalformedPreparedInput)
      else Ok None)"

definition shuffle_stack ::
  "'i prepared_instruction \<Rightarrow> (usize list \<times> usize list) list \<Rightarrow> verification_state \<Rightarrow>
   ('d verification_transfer_kind, verification_state) outcome" where
  "shuffle_stack instruction choices s =
     bind_outcome (ensure MalformedPreparedInput (pi_operands instruction = [])) (\<lambda>_.
     let vals = stack_values (vs_stack s); widths = map type_width vals in
     case find (\<lambda>(inputs, _). ends_with widths inputs) choices of
       None \<Rightarrow> Err (if sum_list widths < pi_input_width instruction then StackBounds else Category)
     | Some (inputs, outputs) \<Rightarrow>
         if length vals < length inputs then Panic ''attempt to subtract with overflow''
         else
           (let prefix = length vals - length inputs in
            if list_all (\<lambda>i. prefix + i < length vals) outputs
            then bind_outcome (map_err (\<lambda>_. StackBounds)
                   (stack_from_values (frame_capacity (vs_stack s)) (take prefix vals @ map (\<lambda>i. vals ! (prefix + i)) outputs)))
                   (\<lambda>stack. Ok (s\<lparr>vs_stack := stack\<rparr>))
            else Panic ''index out of bounds''))"

definition transfer_storage_kind ::
  "(opcode \<Rightarrow> nat) \<Rightarrow> (nat \<Rightarrow> verification_type option) \<Rightarrow> 'i prepared_instruction \<Rightarrow> verification_state \<Rightarrow>
   ('d verification_transfer_kind, verification_state) outcome" where
  "transfer_storage_kind byte constants instruction s =
     (let opcode = pi_opcode instruction; operands = pi_operands instruction in
      if opcode = Nop then bind_outcome (ensure MalformedPreparedInput (operands = [])) (\<lambda>_. Ok s)
      else
        bind_outcome (constant_of constants opcode operands) (\<lambda>const.
        case const of
          Some v \<Rightarrow>
            bind_outcome (ensure MalformedPreparedInput (constant_operands_valid opcode operands)) (\<lambda>_.
            bind_outcome (map_err (\<lambda>_. StackBounds) (push v (vs_stack s))) (\<lambda>stack. Ok (s\<lparr>vs_stack := stack\<rparr>)))
        | None \<Rightarrow>
            bind_outcome (verifier_local_access byte opcode operands True) (\<lambda>access.
            case access of
              Some (slot, expected) \<Rightarrow>
                bind_outcome (ok_or LocalBounds (frame_get (vs_locals s) slot)) (\<lambda>v.
                bind_outcome (ensure Category (require_verification_category v expected)) (\<lambda>_.
                bind_outcome (map_err (\<lambda>_. StackBounds) (push v (vs_stack s))) (\<lambda>stack. Ok (s\<lparr>vs_stack := stack\<rparr>))))
            | None \<Rightarrow>
                bind_outcome (verifier_local_access byte opcode operands False) (\<lambda>access.
                case access of
                  Some (slot, expected) \<Rightarrow>
                    (let vals = stack_values (vs_stack s) in
                     if vals = [] then Err StackBounds
                     else
                       bind_outcome (ensure Category (require_verification_category (last vals) expected)) (\<lambda>_.
                       bind_outcome (map_err (\<lambda>_. LocalBounds) (set_local slot (last vals) (vs_locals s))) (\<lambda>locals.
                       bind_outcome (map_err (\<lambda>_. StackBounds) (stack_from_values (frame_capacity (vs_stack s)) (butlast vals))) (\<lambda>stack.
                       Ok \<lparr>vs_locals = locals, vs_stack = stack\<rparr>))))
                | None \<Rightarrow>
                    if opcode = Iinc then
                      (case operands of
                         [Local slot, Immediate _] \<Rightarrow>
                           bind_outcome (ok_or LocalBounds (frame_get (vs_locals s) slot)) (\<lambda>v.
                           bind_outcome (ensure Category (v = IntType)) (\<lambda>_. Ok s))
                       | _ \<Rightarrow> Err MalformedPreparedInput)
                    else
                      (case shuffle_descriptor opcode of
                         Some choices \<Rightarrow> shuffle_stack instruction choices s
                       | None \<Rightarrow> Err MalformedPreparedInput)))))"

definition transfer_storage_instruction ::
  "(opcode \<Rightarrow> nat) \<Rightarrow> (nat \<Rightarrow> verification_type option) \<Rightarrow> 'i prepared_instruction \<Rightarrow> usize \<Rightarrow> verification_state \<Rightarrow>
   (('i, 'd) verification_transfer_error, verification_state) outcome" where
  "transfer_storage_instruction byte constants instruction offset s =
     map_err (\<lambda>kind. \<lparr>te_instruction = pi_id instruction, te_offset = offset, te_opcode = pi_opcode instruction, te_kind = kind\<rparr>)
       (transfer_storage_kind byte constants instruction s)"

section \<open>States the verifier reaches\<close>

text \<open>
  The stack frame is the packing of its own values, each of a category, and the locals frame is
  paired and holds no unreached value.
\<close>

definition stack_ok :: "verification_frame \<Rightarrow> bool" where
  "stack_ok f \<longleftrightarrow> f = Reachable OperandStack (packed (frame_capacity f) (stack_values f)) \<and>
     list_all (\<lambda>v. width v \<noteq> None) (stack_values f)"

fun locals_ok :: "verification_frame \<Rightarrow> bool" where
  "locals_ok (BottomFrame _ _) = False"
| "locals_ok (Reachable kind slots) = (kind = Locals \<and> wf_frame (Reachable kind slots))"

definition state_ok :: "verification_state \<Rightarrow> bool" where
  "state_ok s \<longleftrightarrow> locals_ok (vs_locals s) \<and> stack_ok (vs_stack s)"

text \<open>A state of the same shape as another.\<close>

definition state_shape :: "verification_state \<Rightarrow> verification_state \<Rightarrow> bool" where
  "state_shape s s' \<longleftrightarrow> same_shape (vs_locals s) (vs_locals s') \<and> same_shape (vs_stack s) (vs_stack s')"

lemma stack_ok_packed:
  assumes "length (slots_of vs) \<le> capacity" "list_all (\<lambda>v. width v \<noteq> None) vs"
  shows "stack_ok (Reachable OperandStack (packed capacity vs))"
  using assms by (simp add: stack_ok_def length_packed)

lemma stack_okE:
  assumes "stack_ok f"
  obtains capacity vs where "f = Reachable OperandStack (packed capacity vs)" "length (slots_of vs) \<le> capacity"
    "list_all (\<lambda>v. width v \<noteq> None) vs" "stack_values f = vs" "frame_capacity f = capacity"
proof -
  have f: "f = Reachable OperandStack (packed (frame_capacity f) (stack_values f))" "list_all (\<lambda>v. width v \<noteq> None) (stack_values f)"
    using assms by (simp_all add: stack_ok_def)
  from arg_cong[OF f(1), of frame_capacity] have "length (slots_of (stack_values f)) \<le> frame_capacity f"
    by (simp add: packed_def)
  with f that show thesis by blast
qed

text \<open>The two ways a stack changes: a value pushed, or the whole stack rebuilt.\<close>

lemma push_ok:
  assumes "stack_ok f"
  shows "case push v f of
      Ok f' \<Rightarrow> stack_ok f' \<and> same_shape f f' \<and> stack_values f' = stack_values f @ [v]
    | Err e \<Rightarrow> True | Panic _ \<Rightarrow> False"
proof -
  from assms obtain capacity vs where f: "f = Reachable OperandStack (packed capacity vs)" "length (slots_of vs) \<le> capacity"
    "list_all (\<lambda>v. width v \<noteq> None) vs" by (rule stack_okE)
  show ?thesis
  proof (cases "width v \<noteq> None \<and> length (slots_of (vs @ [v])) \<le> capacity")
    case True
    then have "push v f = Ok (Reachable OperandStack (packed capacity (vs @ [v])))" using push_packed[OF f(2), of v] f(1) by simp
    moreover have "stack_ok (Reachable OperandStack (packed capacity (vs @ [v])))" using True f(3) by (intro stack_ok_packed) auto
    ultimately show ?thesis using True f length_packed[of "vs @ [v]" capacity] length_packed[of vs capacity]
      by (simp add: same_shape_def del: slots_of_simps)
  next
    case False
    then have "\<exists>e. push v f = Err e" using push_packed[OF f(2), of v] f(1) by auto
    then show ?thesis by (elim exE) simp
  qed
qed

lemma stack_from_values_ok:
  assumes "stack_ok f"
  shows "case stack_from_values (frame_capacity f) vs of
      Ok f' \<Rightarrow> stack_ok f' \<and> same_shape f f' \<and> stack_values f' = vs
    | Err e \<Rightarrow> True | Panic _ \<Rightarrow> False"
proof -
  from assms obtain capacity ws where f: "f = Reachable OperandStack (packed capacity ws)" "length (slots_of ws) \<le> capacity"
    "frame_capacity f = capacity" by (rule stack_okE)
  show ?thesis
    using stack_from_values_cases[of capacity vs] f
    by (cases "stack_from_values capacity vs") (auto simp: same_shape_def length_packed list_all_iff intro!: stack_ok_packed)
qed

lemma set_local_ok:
  assumes "locals_ok f" "width v \<noteq> None"
  shows "case set_local index v f of
      Ok f' \<Rightarrow> locals_ok f' \<and> same_shape f f' \<and> frame_get f' index = Some v
    | Err e \<Rightarrow> True | Panic _ \<Rightarrow> False"
proof -
  from assms obtain slots w where f: "f = Reachable Locals slots" "well_paired slots" "Value Bottom \<notin> set slots" "width v = Some w"
    by (cases f) auto
  show ?thesis
  proof (cases "index < length slots \<and> (w = Category2 \<longrightarrow> index + 1 < length slots)")
    case True
    note args = f(2,4) True[THEN conjunct1] True[THEN conjunct2, rule_format]
    from f(4) have "v \<noteq> Bottom" by auto
    with f(3) have "Value Bottom \<notin> set (map (local_written index v slots) [0..<length slots])"
      by (auto simp: local_written_def in_set_conv_nth)
    with local_written_paired[OF args] True set_local_Ok[OF args] f(1) show ?thesis
      by (simp add: same_shape_def slice_get_def) (simp add: local_written_def)
  next
    case False
    then have "\<exists>e. set_local index v f = Err e" using f by auto
    then show ?thesis by (elim exE) simp
  qed
qed

lemma ensure_iff [outcome_simps]:
  "ensure e b = Ok u \<longleftrightarrow> b" "ensure e b = Panic p \<longleftrightarrow> False" "ensure e b = Err e' \<longleftrightarrow> \<not> b \<and> e' = e"
  by (auto simp: ensure_def)

section \<open>The branches of the transfer\<close>

text \<open>What every branch guarantees: no panic, and a good state of the same shape.\<close>

definition transfer_good :: "verification_state \<Rightarrow> ('e, verification_state) outcome \<Rightarrow> bool" where
  "transfer_good s r = (case r of Ok s' \<Rightarrow> state_ok s' \<and> state_shape s s' | Err e \<Rightarrow> True | Panic _ \<Rightarrow> False)"

lemma transfer_good_simps [simp]:
  "transfer_good s (Err e)" "\<not> transfer_good s (Panic p)" "transfer_good s (Ok s') \<longleftrightarrow> state_ok s' \<and> state_shape s s'"
  by (simp_all add: transfer_good_def)

lemma transfer_good_bind:
  "(\<And>p. m \<noteq> Panic p) \<Longrightarrow> (\<And>a. m = Ok a \<Longrightarrow> transfer_good s (f a)) \<Longrightarrow> transfer_good s (bind_outcome m f)"
  by (cases m) auto

lemma state_shape_refl [simp]: "state_shape s s"
  by (simp add: state_shape_def same_shape_def)

lemma transfer_good_push:
  assumes "state_ok s"
  shows "transfer_good s (bind_outcome (map_err g (push v (vs_stack s))) (\<lambda>stack. Ok (s\<lparr>vs_stack := stack\<rparr>)))"
  using assms push_ok[of "vs_stack s" v]
  by (cases "push v (vs_stack s)") (auto simp: state_ok_def state_shape_def same_shape_def)

lemma transfer_good_rebuild:
  assumes "state_ok s"
  shows "transfer_good s (bind_outcome (map_err g (stack_from_values (frame_capacity (vs_stack s)) vs)) (\<lambda>stack. Ok (s\<lparr>vs_stack := stack\<rparr>)))"
  using assms stack_from_values_ok[of "vs_stack s" vs]
  by (cases "stack_from_values (frame_capacity (vs_stack s)) vs") (auto simp: state_ok_def state_shape_def same_shape_def)

lemma transfer_good_store:
  assumes ok: "state_ok s" and v: "width v \<noteq> None"
  shows "transfer_good s
    (bind_outcome (map_err g (set_local slot v (vs_locals s))) (\<lambda>locals.
     bind_outcome (map_err h (stack_from_values (frame_capacity (vs_stack s)) vs)) (\<lambda>stack.
     Ok \<lparr>vs_locals = locals, vs_stack = stack\<rparr>)))"
  using ok set_local_ok[of "vs_locals s" v slot] stack_from_values_ok[of "vs_stack s" vs] v
  by (cases "set_local slot v (vs_locals s)"; cases "stack_from_values (frame_capacity (vs_stack s)) vs")
    (auto simp: state_ok_def state_shape_def)

text \<open>The descriptors only name inputs they match.\<close>

lemma shuffle_outputs_in_range:
  "shuffle_descriptor opcode = Some choices \<Longrightarrow> (inputs, outputs) \<in> set choices \<Longrightarrow> i \<in> set outputs \<Longrightarrow> i < length inputs"
  by (cases opcode) (auto simp: less_Suc_eq)

lemma shuffle_stack_good:
  assumes ok: "state_ok s" and d: "shuffle_descriptor opcode = Some choices"
  shows "transfer_good s (shuffle_stack instruction choices s)"
proof -
  let ?vals = "stack_values (vs_stack s)"
  have "length inputs \<le> length ?vals \<and> list_all (\<lambda>i. length ?vals - length inputs + i < length ?vals) outputs"
    if "find (\<lambda>(inputs, _). ends_with (map type_width ?vals) inputs) choices = Some (inputs, outputs)" for inputs outputs
  proof -
    from that have e: "ends_with (map type_width ?vals) inputs" and "(inputs, outputs) \<in> set choices"
      by (auto simp: find_Some_iff in_set_conv_nth)
    from shuffle_outputs_in_range[OF d this(2)] have out: "\<forall>i\<in>set outputs. i < length inputs" by blast
    have "length inputs \<le> length ?vals" using e by (simp add: ends_with_def)
    with out show ?thesis by (auto simp: list_all_iff)
  qed
  then show ?thesis
    unfolding shuffle_stack_def
    by (intro transfer_good_bind) (auto simp: outcome_simps Let_def split: option.split intro!: transfer_good_rebuild[OF ok])
qed

lemma verifier_local_access_no_panic [simp]: "verifier_local_access byte opcode operands load \<noteq> Panic p"
  by (auto simp: verifier_local_access_def split: option.splits list.splits instruction_operand.splits)

lemma constant_of_no_panic [simp]: "constant_of constants opcode operands \<noteq> Panic p"
  by (auto simp: constant_of_def split: option.splits list.splits instruction_operand.splits)

lemma category_width: "require_verification_category v c \<Longrightarrow> \<exists>w. width v = Some w"
  by (cases v; cases c) auto

lemma transfer_storage_kind_good:
  assumes ok: "state_ok s"
  shows "transfer_good s (transfer_storage_kind byte constants instruction s :: ('d verification_transfer_kind, _) outcome)"
proof -
  have get: "ok_or e (frame_get f i) \<noteq> Panic p" for e f i and p by (simp add: outcome_simps)
  have iinc: "transfer_good s
      (case operands of [Local slot, Immediate _] \<Rightarrow>
         bind_outcome (ok_or LocalBounds (frame_get (vs_locals s) slot)) (\<lambda>v. bind_outcome (ensure Category (v = IntType)) (\<lambda>_. Ok s))
       | _ \<Rightarrow> Err MalformedPreparedInput)" for operands
    using ok by (auto split: list.split instruction_operand.split intro!: transfer_good_bind simp: outcome_simps)
  show ?thesis
    unfolding transfer_storage_kind_def Let_def
    by (auto simp: outcome_simps ok split: option.split
        intro!: transfer_good_bind transfer_good_push transfer_good_store iinc shuffle_stack_good
        dest!: category_width simp del: constant_operands_valid.simps)
qed

section \<open>Explicit loads and stores\<close>

text \<open>
  The bytes the class-file format gives the implicit loads and stores and the explicit stores: an
  explicit store is then not read as an implicit load.
\<close>

definition class_file_bytes :: "(opcode \<Rightarrow> nat) \<Rightarrow> bool" where
  "class_file_bytes byte \<longleftrightarrow>
     map byte [Iload0, Lload0, Fload0, Dload0, Aload0] = [26, 30, 34, 38, 42] \<and>
     map byte [Istore, Lstore, Fstore, Dstore, Astore] = [54, 55, 56, 57, 58]"

lemma explicit_store_cases:
  "explicit_local opcode False = Some category \<Longrightarrow>
   (opcode, category) \<in> {(Istore, CatInt), (Lstore, CatLong), (Fstore, CatFloat), (Dstore, CatDouble), (Astore, CatReference)}"
  by (auto simp: explicit_local_def split: if_splits)

lemma explicit_load_cases:
  "explicit_local opcode True = Some category \<Longrightarrow>
   (opcode, category) \<in> {(Iload, CatInt), (Lload, CatLong), (Fload, CatFloat), (Dload, CatDouble), (Aload, CatReference)}"
  by (auto simp: explicit_local_def split: if_splits)

lemma explicit_store_not_load:
  assumes "class_file_bytes byte" "explicit_local opcode False = Some category"
  shows "verifier_local_access byte opcode operands True = Ok None"
proof -
  have "byte Iload0 = 26" "byte Lload0 = 30" "byte Fload0 = 34" "byte Dload0 = 38" "byte Aload0 = 42" "byte Istore = 54" "byte Lstore = 55"
    "byte Fstore = 56" "byte Dstore = 57" "byte Astore = 58"
    using assms(1) by (simp_all add: class_file_bytes_def)
  with explicit_store_cases[OF assms(2)] show ?thesis
    by (elim insertE emptyE) (simp_all add: verifier_local_access_def explicit_local_def verifier_implicit_local_def)
qed

lemma explicit_access:
  "explicit_local opcode load = Some category \<Longrightarrow>
   verifier_local_access byte opcode [Local slot] load = Ok (Some (slot, category))"
  by (simp add: verifier_local_access_def)

lemma explicit_not_constant:
  assumes "explicit_local opcode load = Some category"
  shows "opcode \<noteq> Nop \<and> constant_of constants opcode operands = Ok None"
  using assms explicit_load_cases[of opcode category] explicit_store_cases[of opcode category]
  by (cases load) (auto simp: constant_of_def)

lemma transfer_load:
  assumes "explicit_local (pi_opcode instruction) True = Some category" "pi_operands instruction = [Local slot]"
  shows "transfer_storage_kind byte constants instruction s =
    bind_outcome (ok_or LocalBounds (frame_get (vs_locals s) slot)) (\<lambda>v.
    bind_outcome (ensure Category (require_verification_category v category)) (\<lambda>_.
    bind_outcome (map_err (\<lambda>_. StackBounds) (push v (vs_stack s))) (\<lambda>stack. Ok (s\<lparr>vs_stack := stack\<rparr>))))"
  by (simp add: transfer_storage_kind_def Let_def explicit_not_constant[OF assms(1)] explicit_access[OF assms(1)] assms(2)
      del: constant_operands_valid.simps)

lemma transfer_store:
  assumes "class_file_bytes byte" "explicit_local (pi_opcode instruction) False = Some category" "pi_operands instruction = [Local slot]"
  shows "transfer_storage_kind byte constants instruction s =
    (let vals = stack_values (vs_stack s) in
     if vals = [] then Err StackBounds
     else
       bind_outcome (ensure Category (require_verification_category (last vals) category)) (\<lambda>_.
       bind_outcome (map_err (\<lambda>_. LocalBounds) (set_local slot (last vals) (vs_locals s))) (\<lambda>locals.
       bind_outcome (map_err (\<lambda>_. StackBounds) (stack_from_values (frame_capacity (vs_stack s)) (butlast vals))) (\<lambda>stack.
       Ok \<lparr>vs_locals = locals, vs_stack = stack\<rparr>))))"
  by (simp add: transfer_storage_kind_def Let_def explicit_not_constant[OF assms(2)] explicit_access[OF assms(2)]
      explicit_store_not_load[OF assms(1,2)] assms(3) del: constant_operands_valid.simps)

section \<open>Shuffles at the level of words\<close>

lemma type_width_iff:
  "type_width v = Suc 0 \<longleftrightarrow> width v \<noteq> Some Category2" "type_width v = 2 \<longleftrightarrow> width v = Some Category2"
  by (simp_all add: type_width_def)

text \<open>Every form of a shuffle takes the same number of words, and rearranges them as the one-word form does.\<close>

lemma shuffle_words:
  "shuffle_descriptor opcode = Some choices \<Longrightarrow> (inputs, outputs) \<in> set choices \<Longrightarrow> map type_width vs = inputs \<Longrightarrow>
   length (slots_of vs) = length (fst (last choices)) \<and>
   slots_of (map ((!) vs) outputs) = map ((!) (slots_of vs)) (snd (last choices))"
  by (cases opcode) (auto simp: map_eq_Cons_conv type_width_iff)

lemma shuffle_stack_Ok:
  assumes ok: "state_ok s" and d: "shuffle_descriptor opcode = Some choices" and run: "shuffle_stack instruction choices s = Ok s'"
  obtains inputs outputs pre top where "(inputs, outputs) \<in> set choices" "stack_values (vs_stack s) = pre @ top"
    "map type_width top = inputs" "stack_values (vs_stack s') = pre @ map ((!) top) outputs"
proof -
  let ?vals = "stack_values (vs_stack s)"
  from run obtain inputs outputs where f: "find (\<lambda>(inputs, _). ends_with (map type_width ?vals) inputs) choices = Some (inputs, outputs)"
    by (auto simp: shuffle_stack_def outcome_simps Let_def split: option.splits)
  then have mem: "(inputs, outputs) \<in> set choices" and e: "ends_with (map type_width ?vals) inputs"
    by (auto simp: find_Some_iff in_set_conv_nth)
  define n where "n = length ?vals - length inputs"
  have le: "length inputs \<le> length ?vals" using e by (simp add: ends_with_def)
  have top: "map type_width (drop n ?vals) = inputs" using e by (simp add: ends_with_def n_def drop_map)
  have out: "map (\<lambda>i. ?vals ! (n + i)) outputs = map ((!) (drop n ?vals)) outputs"
    using le by (simp add: n_def)
  from run f le have "\<exists>f'. stack_from_values (frame_capacity (vs_stack s)) (take n ?vals @ map (\<lambda>i. ?vals ! (n + i)) outputs) = Ok f' \<and> vs_stack s' = f'"
    unfolding shuffle_stack_def by (auto simp: outcome_simps Let_def n_def split: if_splits)
  moreover have "stack_ok (vs_stack s)" using ok by (simp add: state_ok_def)
  ultimately have "stack_values (vs_stack s') = take n ?vals @ map ((!) (drop n ?vals)) outputs"
    using stack_from_values_ok[of "vs_stack s" "take n ?vals @ map ((!) (drop n ?vals)) outputs"] unfolding out by auto
  with mem top that[of inputs outputs "take n ?vals" "drop n ?vals"] show thesis by simp
qed

section \<open>A sample method\<close>

text \<open>A stack holding a reference under a long, one local for the long, and the instructions run on it.\<close>

definition sample_state :: verification_state where
  "sample_state = \<lparr>vs_locals = frame_new Locals 2, vs_stack = Reachable OperandStack [Value Null, Value Long, Category2Tail, UnusableSlot, UnusableSlot]\<rparr>"

definition sample_instruction :: "opcode \<Rightarrow> instruction_operand list \<Rightarrow> nat prepared_instruction" where
  "sample_instruction opcode operands = \<lparr>pi_id = 7, pi_opcode = opcode, pi_operands = operands, pi_input_width = 0\<rparr>"

fun sample_byte :: "opcode \<Rightarrow> nat" where
  "sample_byte Iload0 = 26" | "sample_byte Lload0 = 30" | "sample_byte Fload0 = 34" | "sample_byte Dload0 = 38"
| "sample_byte Aload0 = 42" | "sample_byte Istore = 54" | "sample_byte Lstore = 55" | "sample_byte Fstore = 56"
| "sample_byte Dstore = 57" | "sample_byte Astore = 58" | "sample_byte _ = 0"

lemma sample_ok: "state_ok sample_state"
  by (simp add: sample_state_def state_ok_def stack_ok_def frame_new_def well_paired_def stack_values_def List.map_filter_def
      packed_def eval_nat_numeral less_Suc_eq)

lemma sample_bytes: "class_file_bytes sample_byte"
  by (simp add: class_file_bytes_def)

lemma sample_store:
  "transfer_storage_kind sample_byte constants (sample_instruction Lstore [Local 0]) sample_state =
     Ok \<lparr>vs_locals = Reachable Locals [Value Long, Category2Tail],
         vs_stack = Reachable OperandStack [Value Null, UnusableSlot, UnusableSlot, UnusableSlot, UnusableSlot]\<rparr>"
proof -
  have e: "explicit_local (pi_opcode (sample_instruction Lstore [Local 0])) False = Some CatLong"
    "pi_operands (sample_instruction Lstore [Local 0]) = [Local 0]"
    by (simp_all add: explicit_local_def sample_instruction_def)
  show ?thesis
    unfolding transfer_store[OF sample_bytes e]
    by (simp add: sample_state_def stack_values_def List.map_filter_def ensure_def frame_new_def stack_from_values_def
        invalidate_value_at_def slice_get_def slice_set_def eval_nat_numeral)
qed

lemma sample_shuffle:
  "shuffle_stack (sample_instruction Dup2X1 []) [([1, 2], [1, 0, 1]), ([1, 1, 1], [1, 2, 0, 1, 2])] sample_state =
     Ok (sample_state\<lparr>vs_stack := Reachable OperandStack [Value Long, Category2Tail, Value Null, Value Long, Category2Tail]\<rparr>)"
  by (simp add: shuffle_stack_def sample_state_def sample_instruction_def stack_values_def List.map_filter_def ensure_def ends_with_def
      type_width_def frame_new_def stack_from_values_def slice_set_def eval_nat_numeral)

section \<open>Properties\<close>

text \<open>
  C35: The storage transfer never panics on a state the verifier can reach: it either rejects the
  instruction, naming the instruction, its offset and its opcode in the error, or returns a state
  of the same shape whose locals are still paired and whose stack is still packed.
\<close>

theorem transfer_storage_safe:
  assumes "state_ok s"
  shows "case (transfer_storage_instruction byte constants instruction offset s
        :: (('i, 'd) verification_transfer_error, verification_state) outcome) of
      Ok s' \<Rightarrow> state_ok s' \<and> state_shape s s'
    | Err e \<Rightarrow> te_instruction e = pi_id instruction \<and> te_offset e = offset \<and> te_opcode e = pi_opcode instruction
    | Panic _ \<Rightarrow> False"
  using transfer_storage_kind_good[OF assms, of byte constants instruction, where 'd = 'd]
  by (cases "transfer_storage_kind byte constants instruction s :: ('d verification_transfer_kind, _) outcome") (simp_all add: transfer_storage_instruction_def)

theorem transfer_storage_safe_witness:
  "state_ok sample_state \<and>
   (case (transfer_storage_instruction sample_byte (\<lambda>_. None) (sample_instruction Lstore [Local 1]) 4 sample_state
        :: ((nat, unit) verification_transfer_error, verification_state) outcome) of
      Ok s' \<Rightarrow> state_ok s' \<and> state_shape sample_state s' | Err e \<Rightarrow> te_instruction e = 7 \<and> te_offset e = 4 | Panic _ \<Rightarrow> False)"
  using sample_ok transfer_storage_safe[OF sample_ok, where byte = sample_byte and constants = "\<lambda>_. None" and offset = 4
      and instruction = "sample_instruction Lstore [Local 1]" and 'd = unit]
  by (simp add: sample_instruction_def split: outcome.splits)

text \<open>
  Storing the top of the stack into a local and loading it back restores the operand stack
  exactly and leaves the locals as the store wrote them, for every category.
\<close>

theorem store_load_round_trip:
  assumes "class_file_bytes byte" "state_ok s"
    "explicit_local (pi_opcode st) False = Some category" "pi_operands st = [Local slot]"
    "explicit_local (pi_opcode ld) True = Some category" "pi_operands ld = [Local slot]"
    "transfer_storage_kind byte constants st s = (Ok s1 :: ('d verification_transfer_kind, _) outcome)"
  shows "transfer_storage_kind byte constants ld s1 =
    (Ok \<lparr>vs_locals = vs_locals s1, vs_stack = vs_stack s\<rparr> :: ('d verification_transfer_kind, _) outcome)"
proof -
  obtain capacity vs where f: "vs_stack s = Reachable OperandStack (packed capacity vs)" "length (slots_of vs) \<le> capacity"
    "list_all (\<lambda>v. width v \<noteq> None) vs" "stack_values (vs_stack s) = vs" "frame_capacity (vs_stack s) = capacity"
    using assms(2) by (metis stack_okE state_ok_def)
  from assms(7) f(4,5) have ne: "vs \<noteq> []" and cat: "require_verification_category (last vs) category"
    and loc: "set_local slot (last vs) (vs_locals s) = Ok (vs_locals s1)"
    and stk: "stack_from_values capacity (butlast vs) = Ok (vs_stack s1)"
    unfolding transfer_store[OF assms(1,3,4)] by (auto simp: outcome_simps Let_def split: if_splits)
  have w: "width (last vs) \<noteq> None" using category_width[OF cat] by auto
  from stack_from_values_cases[of capacity "butlast vs"] stk
  have s1: "vs_stack s1 = Reachable OperandStack (packed capacity (butlast vs))" "length (slots_of (butlast vs)) \<le> capacity" by auto
  have vs: "butlast vs @ [last vs] = vs" using ne by simp
  have "push (last vs) (vs_stack s1) = Ok (vs_stack s)"
    unfolding s1(1) push_packed[OF s1(2)] vs using w f(1,2) by simp
  moreover have "frame_get (vs_locals s1) slot = Some (last vs)"
    using set_local_ok[of "vs_locals s" "last vs" slot] loc w assms(2) by (simp add: state_ok_def)
  ultimately show ?thesis unfolding transfer_load[OF assms(5,6)] using cat by (simp add: ensure_def)
qed

theorem store_load_round_trip_witness:
  "transfer_storage_kind sample_byte (\<lambda>_. None) (sample_instruction Lload [Local 0])
     \<lparr>vs_locals = Reachable Locals [Value Long, Category2Tail],
      vs_stack = Reachable OperandStack [Value Null, UnusableSlot, UnusableSlot, UnusableSlot, UnusableSlot]\<rparr> =
   (Ok \<lparr>vs_locals = Reachable Locals [Value Long, Category2Tail], vs_stack = vs_stack sample_state\<rparr>
     :: (unit verification_transfer_kind, verification_state) outcome)"
  using store_load_round_trip[OF sample_bytes sample_ok _ _ _ _ sample_store, of CatLong 0 "sample_instruction Lload [Local 0]",
      where 'd = unit]
  by (simp add: explicit_local_def sample_instruction_def)

text \<open>
  C38: Whatever mix of one- and two-word values a shuffle finds on the stack, it moves the words as
  its all-one-word form does: the forms of \<open>shuffle_descriptor\<close> are one untyped rearrangement.
\<close>

theorem shuffle_is_word_shuffle:
  assumes "state_ok s" "shuffle_descriptor opcode = Some choices" "shuffle_stack instruction choices s = Ok s'"
  shows "let words = slots_of (stack_values (vs_stack s)); n = length words - length (fst (last choices)) in
    slots_of (stack_values (vs_stack s')) = take n words @ map (\<lambda>i. words ! (n + i)) (snd (last choices))"
proof -
  from assms obtain inputs outputs pre top where c: "(inputs, outputs) \<in> set choices" "stack_values (vs_stack s) = pre @ top"
    "map type_width top = inputs" "stack_values (vs_stack s') = pre @ map ((!) top) outputs"
    by (rule shuffle_stack_Ok)
  from shuffle_words[OF assms(2) c(1,3)] c(2,4) show ?thesis by (simp add: Let_def)
qed

theorem shuffle_is_word_shuffle_witness:
  "let words = slots_of (stack_values (vs_stack sample_state)); n = length words - Suc (Suc (Suc 0)) in
     slots_of [Long, Null, Long] = take n words @ map (\<lambda>i. words ! (n + i)) [1, 2, 0, 1, 2]"
proof -
  have d: "shuffle_descriptor Dup2X1 = Some [([1, 2], [1, 0, 1]), ([1, 1, 1], [1, 2, 0, 1, 2])]" by simp
  have "stack_values (Reachable OperandStack [Value Long, Category2Tail, Value Null, Value Long, Category2Tail]) = [Long, Null, Long]"
    by (simp add: stack_values_def List.map_filter_def)
  with shuffle_is_word_shuffle[OF sample_ok d sample_shuffle] show ?thesis by (simp only: Let_def) simp
qed

end
