(* ===== verification/Jvm_Stack_Map.thy ===== *)
theory Jvm_Stack_Map
  imports Jvm_Transfer
begin

text \<open>
  The numeric transfer, the method-entry frame and the declared stack-map frames of the JVM
  verifier (verifier/stack_map.rs and \<open>VerificationState::initial\<close> of verifier/types.rs). A
  descriptor is its list of bytes. The records of the \<open>StackMapTable\<close> attribute come from the
  class-file codec, which is not in the repository: the model has the variants and fields the
  expansion names. The located code is the list of the start offsets and identities of its
  instructions, and class resolution is the parameter \<open>resolve_class\<close>.
\<close>

section \<open>The numeric transfer\<close>

fun integral_signature :: "integral_opcode \<Rightarrow> verification_type list \<times> verification_type" where
  "integral_signature opcode =
     (if opcode \<in> {Iadd, Isub, Imul, Idiv, Irem, Iand, Ior, Ixor, Ishl, Ishr, Iushr} then ([IntType, IntType], IntType)
      else if opcode \<in> {Ladd, Lsub, Lmul, Ldiv, Lrem, Land, Lor, Lxor} then ([Long, Long], Long)
      else if opcode \<in> {Lshl, Lshr, Lushr} then ([Long, IntType], Long)
      else if opcode \<in> {Ineg, I2b, I2c, I2s} then ([IntType], IntType)
      else if opcode = Lneg then ([Long], Long)
      else ([Long, Long], IntType))"

fun floating_signature :: "floating_opcode \<Rightarrow> verification_type list \<times> verification_type" where
  "floating_signature Fneg = ([Float], Float)"
| "floating_signature Dneg = ([Double], Double)"
| "floating_signature I2l = ([IntType], Long)"
| "floating_signature I2f = ([IntType], Float)"
| "floating_signature I2d = ([IntType], Double)"
| "floating_signature L2i = ([Long], IntType)"
| "floating_signature L2f = ([Long], Float)"
| "floating_signature L2d = ([Long], Double)"
| "floating_signature F2i = ([Float], IntType)"
| "floating_signature F2l = ([Float], Long)"
| "floating_signature F2d = ([Float], Double)"
| "floating_signature D2i = ([Double], IntType)"
| "floating_signature D2l = ([Double], Long)"
| "floating_signature D2f = ([Double], Float)"
| "floating_signature opcode =
     (if opcode \<in> {Fadd, Fsub, Fmul, Fdiv, Frem} then ([Float, Float], Float)
      else if opcode \<in> {Dadd, Dsub, Dmul, Ddiv, Drem} then ([Double, Double], Double)
      else if opcode \<in> {Fcmpl, Fcmpg} then ([Float, Float], IntType)
      else ([Double, Double], IntType))"

fun numeric_signature :: "opcode \<Rightarrow> (verification_type list \<times> verification_type) option" where
  "numeric_signature (Integral opcode) = Some (integral_signature opcode)"
| "numeric_signature (Floating opcode) = Some (floating_signature opcode)"
| "numeric_signature _ = None"

definition transfer_numeric_kind ::
  "'i prepared_instruction \<Rightarrow> verification_state \<Rightarrow> ('d verification_transfer_kind, verification_state) outcome" where
  "transfer_numeric_kind instruction s =
     bind_outcome (ensure MalformedPreparedInput (pi_operands instruction = [])) (\<lambda>_.
     bind_outcome (ok_or MalformedPreparedInput (numeric_signature (pi_opcode instruction))) (\<lambda>(inputs, result).
     let vals = stack_values (vs_stack s) in
     if length vals < length inputs then Err StackBounds
     else
       (let split = length vals - length inputs in
        if drop split vals \<noteq> inputs then Err Category
        else bind_outcome (map_err (\<lambda>_. StackBounds)
               (stack_from_values (frame_capacity (vs_stack s)) (take split vals @ [result])))
               (\<lambda>stack. Ok (s\<lparr>vs_stack := stack\<rparr>)))))"

definition transfer_numeric_instruction ::
  "(opcode \<Rightarrow> nat) \<Rightarrow> 'i prepared_instruction \<Rightarrow> usize \<Rightarrow> verification_state \<Rightarrow>
   (('i, 'd) verification_transfer_error, verification_state) outcome" where
  "transfer_numeric_instruction byte instruction offset s =
     (if pi_opcode instruction = Iinc then transfer_storage_instruction byte (\<lambda>_. None) instruction offset s
      else map_err (\<lambda>kind. \<lparr>te_instruction = pi_id instruction, te_offset = offset, te_opcode = pi_opcode instruction, te_kind = kind\<rparr>)
             (transfer_numeric_kind instruction s))"

section \<open>Descriptors\<close>

record initial_frame_input =
  declaring_class :: string
  method_name :: string
  descriptor :: string
  is_static :: bool
  max_locals :: usize
  max_stack :: usize

record 'i expanded_stack_map_frame =
  ef_offset :: nat
  ef_instruction :: 'i
  ef_locals :: "verification_type list"
  ef_stack :: "verification_type list"

datatype stack_map_expansion_error =
    InvalidMethodDescriptor string usize
  | LocalsWidth "nat option" usize usize
  | StackWidth nat usize usize
  | ChopUnderflow nat usize usize
  | AppendCount nat usize usize
  | InvalidClass nat nat
  | OffsetOverflow
  | NotInstructionBoundary nat

definition descriptor_error :: "string \<Rightarrow> usize \<Rightarrow> stack_map_expansion_error" where
  "descriptor_error bytes offset = InvalidMethodDescriptor bytes offset"

definition is_ascii :: "string \<Rightarrow> bool" where
  "is_ascii bytes = list_all (\<lambda>c. of_char c < (128::nat)) bytes"

text \<open>The index of the \<open>;\<close> that ends the class name starting after \<open>cursor\<close>; \<open>None\<close> without one or for an empty name.\<close>

definition class_end :: "string \<Rightarrow> usize \<Rightarrow> usize option" where
  "class_end bytes cursor =
     (case position (\<lambda>c. c = CHR '';'') (drop (cursor + 1) bytes) of
        None \<Rightarrow> None
      | Some relative \<Rightarrow> if cursor + 1 + relative = cursor + 1 then None else Some (cursor + 1 + relative))"

text \<open>\<open>while bytes.get(*cursor) == Some(&b'[') { *cursor += 1; }\<close>.\<close>

function skip_dimensions :: "string \<Rightarrow> usize \<Rightarrow> usize" where
  "skip_dimensions bytes cursor =
     (if slice_get bytes cursor = Some (CHR ''['') then skip_dimensions bytes (cursor + 1) else cursor)"
  by pat_completeness auto
termination
  by (relation "measure (\<lambda>(bytes, cursor). length bytes - cursor)") (auto simp: slice_get_def split: if_splits)

declare skip_dimensions.simps [simp del]

definition slice_str :: "string \<Rightarrow> usize \<Rightarrow> usize \<Rightarrow> string" where
  "slice_str s from until = take (until - from) (drop from s)"

definition parse_array_type :: "string \<Rightarrow> usize \<Rightarrow> (stack_map_expansion_error, verification_type \<times> usize) outcome" where
  "parse_array_type bytes start =
     (let cursor = skip_dimensions bytes start in
      case slice_get bytes cursor of
        None \<Rightarrow> Err (descriptor_error bytes start)
      | Some c \<Rightarrow>
          if c \<in> set ''BCDFIJSZ'' then Ok (Reference (Array (slice_str bytes start (cursor + 1))), cursor + 1)
          else if c = CHR ''L'' then
            (case class_end bytes cursor of
               None \<Rightarrow> Err (descriptor_error bytes start)
             | Some end \<Rightarrow> Ok (Reference (Array (slice_str bytes start (end + 1))), end + 1))
          else Err (descriptor_error bytes start))"

definition parse_descriptor_type :: "string \<Rightarrow> usize \<Rightarrow> (stack_map_expansion_error, verification_type \<times> usize) outcome" where
  "parse_descriptor_type bytes cursor =
     (case slice_get bytes cursor of
        None \<Rightarrow> Err (descriptor_error bytes cursor)
      | Some c \<Rightarrow>
          if c \<in> set ''BCISZ'' then Ok (IntType, cursor + 1)
          else if c = CHR ''F'' then Ok (Float, cursor + 1)
          else if c = CHR ''J'' then Ok (Long, cursor + 1)
          else if c = CHR ''D'' then Ok (Double, cursor + 1)
          else if c = CHR ''L'' then
            (case class_end bytes cursor of
               None \<Rightarrow> Err (descriptor_error bytes cursor)
             | Some end \<Rightarrow> Ok (Reference (Class (slice_str bytes (cursor + 1) end)), end + 1))
          else if c = CHR ''['' then parse_array_type bytes cursor
          else Err (descriptor_error bytes cursor))"

lemma position_Some: "position P xs = Some i \<Longrightarrow> i < length xs \<and> P (xs ! i) \<and> (\<forall>j<i. \<not> P (xs ! j))"
proof (induction xs arbitrary: i)
  case (Cons x xs)
  show ?case
  proof (cases "P x")
    case False
    with Cons.prems obtain k where k: "position P xs = Some k" "i = Suc k" by auto
    from Cons.IH[OF k(1)] k(2) False show ?thesis by (auto simp: nth_Cons split: nat.splits)
  qed (use Cons.prems in auto)
qed simp

lemma class_end_bounds: "class_end bytes cursor = Some e \<Longrightarrow> cursor < e \<and> e < length bytes"
  by (auto simp: class_end_def split: option.splits if_splits dest!: position_Some)

lemma skip_dimensions_ge: "cursor \<le> skip_dimensions bytes cursor"
proof (induction bytes cursor rule: skip_dimensions.induct)
  case (1 bytes cursor)
  then show ?case by (subst skip_dimensions.simps) auto
qed

lemma parse_array_type_progress: "parse_array_type bytes start = Ok (v, cursor) \<Longrightarrow> start < cursor \<and> cursor \<le> length bytes"
  using skip_dimensions_ge[of start bytes]
  by (auto simp: parse_array_type_def Let_def slice_get_def split: option.splits if_splits dest!: class_end_bounds)

lemma parse_descriptor_type_progress:
  assumes "parse_descriptor_type bytes cursor = Ok (v, cursor')"
  shows "cursor < cursor' \<and> cursor' \<le> length bytes"
  using assms
  by (auto simp: parse_descriptor_type_def slice_get_def split: option.splits if_splits
      dest!: class_end_bounds parse_array_type_progress)

function parse_parameters ::
  "string \<Rightarrow> usize \<Rightarrow> verification_type list \<Rightarrow> (stack_map_expansion_error, verification_type list \<times> usize) outcome" where
  "parse_parameters bytes cursor locals =
     (if slice_get bytes cursor = Some (CHR '')'') then Ok (locals, cursor)
      else if cursor \<ge> length bytes then Err (descriptor_error bytes cursor)
      else bind_outcome (parse_descriptor_type bytes cursor) (\<lambda>(v, cursor'). parse_parameters bytes cursor' (locals @ [v])))"
  by pat_completeness auto
termination
  by (relation "measure (\<lambda>(bytes, cursor, _). length bytes - cursor)")
    (auto dest!: parse_descriptor_type_progress)

declare parse_parameters.simps [simp del]

definition verification_width :: "verification_type list \<Rightarrow> usize" where
  "verification_width vals = sum_list (map (\<lambda>v. case width v of Some Category2 \<Rightarrow> 2 | _ \<Rightarrow> 1) vals)"

text \<open>The return descriptor: \<open>V\<close> or a field type, with nothing after it.\<close>

definition parse_return :: "string \<Rightarrow> usize \<Rightarrow> (stack_map_expansion_error, unit) outcome" where
  "parse_return bytes cursor =
     (case slice_get bytes cursor of
        None \<Rightarrow> Err (descriptor_error bytes cursor)
      | Some c \<Rightarrow>
          bind_outcome (if c = CHR ''V'' then Ok (cursor + 1) else bind_outcome (parse_descriptor_type bytes cursor) (\<lambda>(_, c). Ok c)) (\<lambda>cursor.
          if cursor \<noteq> length bytes then Err (descriptor_error bytes cursor) else Ok ()))"

definition derive_initial_locals :: "initial_frame_input \<Rightarrow> (stack_map_expansion_error, verification_type list) outcome" where
  "derive_initial_locals input =
     (let receiver = (if is_static input then []
            else [if method_name input = ''<init>'' then UninitializedThis else Reference (Class (declaring_class input))]);
          bytes = descriptor input
      in
      if \<not> is_ascii bytes \<or> slice_get bytes 0 \<noteq> Some (CHR ''('') then Err (descriptor_error bytes 0)
      else
        bind_outcome (parse_parameters bytes 1 receiver) (\<lambda>(locals, cursor).
        bind_outcome (parse_return bytes (cursor + 1)) (\<lambda>_.
        if verification_width locals > max_locals input
        then Err (LocalsWidth None (verification_width locals) (max_locals input))
        else Ok locals)))"

section \<open>The entry state\<close>

fun write_locals :: "usize \<Rightarrow> verification_type list \<Rightarrow> verification_frame \<Rightarrow> ('e, verification_frame) outcome" where
  "write_locals slot [] frame = Ok frame"
| "write_locals slot (v # vs) frame =
     (case set_local slot v frame of
        Ok frame' \<Rightarrow> write_locals (slot + type_width v) vs frame'
      | _ \<Rightarrow> Panic ''derive_initial_locals already checked the physical bound'')"

definition state_initial :: "initial_frame_input \<Rightarrow> (stack_map_expansion_error, verification_state) outcome" where
  "state_initial input =
     bind_outcome (derive_initial_locals input) (\<lambda>vals.
     bind_outcome (write_locals 0 vals (frame_new Locals (max_locals input))) (\<lambda>locals.
     Ok \<lparr>vs_locals = locals, vs_stack = frame_new OperandStack (max_stack input)\<rparr>))"

section \<open>Declared frames\<close>

datatype classfile_verification_type =
  CTop | CInteger | CFloat | CDouble | CLong | CNull | CUninitializedThis | CObject nat | CUninitialized nat

datatype stack_map_frame =
    Same nat
  | SameLocalsOneStack nat classfile_verification_type
  | SameLocalsOneStackExtended nat classfile_verification_type
  | Chop nat nat
  | SameExtended nat
  | Append nat nat "classfile_verification_type list"
  | Full nat "classfile_verification_type list" "classfile_verification_type list"

text \<open>Subtraction of \<open>u8\<close> values, and the largest \<open>u32\<close>.\<close>

definition u8_sub :: "nat \<Rightarrow> nat \<Rightarrow> ('e, nat) outcome" where
  "u8_sub a b = (if b \<le> a then Ok (a - b) else Panic ''attempt to subtract with overflow'')"

definition u32_max :: nat where
  "u32_max = 2 ^ 32 - 1"

fun frame_offset_delta :: "stack_map_frame \<Rightarrow> ('e, nat) outcome" where
  "frame_offset_delta (Same frame_type) = Ok frame_type"
| "frame_offset_delta (SameLocalsOneStack frame_type _) = u8_sub frame_type 64"
| "frame_offset_delta (SameLocalsOneStackExtended offset_delta _) = Ok offset_delta"
| "frame_offset_delta (Chop _ offset_delta) = Ok offset_delta"
| "frame_offset_delta (SameExtended offset_delta) = Ok offset_delta"
| "frame_offset_delta (Append _ offset_delta _) = Ok offset_delta"
| "frame_offset_delta (Full offset_delta _ _) = Ok offset_delta"

fun convert_classfile_type ::
  "(nat \<Rightarrow> reference_type option) \<Rightarrow> nat \<Rightarrow> classfile_verification_type \<Rightarrow> (stack_map_expansion_error, verification_type) outcome" where
  "convert_classfile_type resolve_class offset CTop = Ok Unusable"
| "convert_classfile_type resolve_class offset CInteger = Ok IntType"
| "convert_classfile_type resolve_class offset CFloat = Ok Float"
| "convert_classfile_type resolve_class offset CDouble = Ok Double"
| "convert_classfile_type resolve_class offset CLong = Ok Long"
| "convert_classfile_type resolve_class offset CNull = Ok Null"
| "convert_classfile_type resolve_class offset CUninitializedThis = Ok UninitializedThis"
| "convert_classfile_type resolve_class offset (CObject index) =
     (case resolve_class index of Some r \<Rightarrow> Ok (Reference r) | None \<Rightarrow> Err (InvalidClass offset index))"
| "convert_classfile_type resolve_class offset (CUninitialized new_offset) = Ok (Uninitialized new_offset)"

fun convert_all ::
  "(nat \<Rightarrow> reference_type option) \<Rightarrow> nat \<Rightarrow> classfile_verification_type list \<Rightarrow> (stack_map_expansion_error, verification_type list) outcome" where
  "convert_all resolve_class offset [] = Ok []"
| "convert_all resolve_class offset (c # cs) =
     bind_outcome (convert_classfile_type resolve_class offset c) (\<lambda>v.
     bind_outcome (convert_all resolve_class offset cs) (\<lambda>vs. Ok (v # vs)))"

definition next_offset :: "nat option \<Rightarrow> nat \<Rightarrow> (stack_map_expansion_error, nat) outcome" where
  "next_offset previous delta =
     (case previous of
        None \<Rightarrow> Ok delta
      | Some p \<Rightarrow> if p + delta > u32_max \<or> p + delta + 1 > u32_max then Err OffsetOverflow else Ok (p + delta + 1))"

text \<open>The \<open>match encoded\<close> of the expansion: the new locals and the declared stack.\<close>

definition apply_frame ::
  "(nat \<Rightarrow> reference_type option) \<Rightarrow> nat \<Rightarrow> stack_map_frame \<Rightarrow> verification_type list \<Rightarrow>
   (stack_map_expansion_error, verification_type list \<times> verification_type list) outcome" where
  "apply_frame resolve_class offset encoded locals =
     (case encoded of
        Same _ \<Rightarrow> Ok (locals, [])
      | SameExtended _ \<Rightarrow> Ok (locals, [])
      | SameLocalsOneStack _ v \<Rightarrow> bind_outcome (convert_classfile_type resolve_class offset v) (\<lambda>v. Ok (locals, [v]))
      | SameLocalsOneStackExtended _ v \<Rightarrow> bind_outcome (convert_classfile_type resolve_class offset v) (\<lambda>v. Ok (locals, [v]))
      | Chop frame_type _ \<Rightarrow>
          bind_outcome (u8_sub 251 frame_type) (\<lambda>count.
          if count > length locals then Err (ChopUnderflow offset count (length locals))
          else Ok (take (length locals - count) locals, []))
      | Append frame_type _ appended \<Rightarrow>
          bind_outcome (u8_sub frame_type 251) (\<lambda>declared.
          if declared \<noteq> length appended then Err (AppendCount offset declared (length appended))
          else bind_outcome (convert_all resolve_class offset appended) (\<lambda>vs. Ok (locals @ vs, [])))
      | Full _ complete complete_stack \<Rightarrow>
          bind_outcome (convert_all resolve_class offset complete) (\<lambda>locals.
          bind_outcome (convert_all resolve_class offset complete_stack) (\<lambda>stack. Ok (locals, stack))))"

definition instruction_at_offset :: "(usize \<times> 'i) list \<Rightarrow> nat \<Rightarrow> 'i option" where
  "instruction_at_offset code wanted = map_option snd (find (\<lambda>(offset, _). offset = wanted) code)"

definition expand_frame ::
  "(nat \<Rightarrow> reference_type option) \<Rightarrow> initial_frame_input \<Rightarrow> (usize \<times> 'i) list \<Rightarrow> stack_map_frame \<Rightarrow>
   verification_type list \<times> nat option \<times> 'i expanded_stack_map_frame list \<Rightarrow>
   (stack_map_expansion_error, verification_type list \<times> nat option \<times> 'i expanded_stack_map_frame list) outcome" where
  "expand_frame resolve_class input code encoded = (\<lambda>(locals, previous, expanded).
     bind_outcome (frame_offset_delta encoded) (\<lambda>delta.
     bind_outcome (next_offset previous delta) (\<lambda>offset.
     bind_outcome (apply_frame resolve_class offset encoded locals) (\<lambda>(locals, stack).
     if verification_width locals > max_locals input
     then Err (LocalsWidth (Some offset) (verification_width locals) (max_locals input))
     else if verification_width stack > max_stack input
     then Err (StackWidth offset (verification_width stack) (max_stack input))
     else
       bind_outcome (ok_or (NotInstructionBoundary offset) (instruction_at_offset code offset)) (\<lambda>instruction.
       Ok (locals, Some offset,
           expanded @ [\<lparr>ef_offset = offset, ef_instruction = instruction, ef_locals = locals, ef_stack = stack\<rparr>]))))))"

definition expand_stack_map_table ::
  "stack_map_frame list \<Rightarrow> initial_frame_input \<Rightarrow> (usize \<times> 'i) list \<Rightarrow> (nat \<Rightarrow> reference_type option) \<Rightarrow>
   (stack_map_expansion_error, 'i expanded_stack_map_frame list) outcome" where
  "expand_stack_map_table table input code resolve_class =
     bind_outcome (derive_initial_locals input) (\<lambda>locals.
     bind_outcome (for_each (expand_frame resolve_class input code) table (locals, None, [])) (\<lambda>(_, _, expanded). Ok expanded))"

section \<open>The grammar of descriptors\<close>

datatype field_type = BaseType char | ClassType string | ArrayOf field_type

fun print_field :: "field_type \<Rightarrow> string" where
  "print_field (BaseType c) = [c]"
| "print_field (ClassType name) = ''L'' @ name @ '';''"
| "print_field (ArrayOf t) = CHR ''['' # print_field t"

fun wf_field :: "field_type \<Rightarrow> bool" where
  "wf_field (BaseType c) = (c \<in> set ''BCDFIJSZ'')"
| "wf_field (ClassType name) = (name \<noteq> [] \<and> CHR '';'' \<notin> set name)"
| "wf_field (ArrayOf t) = wf_field t"

fun field_verification_type :: "field_type \<Rightarrow> verification_type" where
  "field_verification_type (BaseType c) =
     (if c = CHR ''F'' then Float else if c = CHR ''J'' then Long else if c = CHR ''D'' then Double else IntType)"
| "field_verification_type (ClassType name) = Reference (Class name)"
| "field_verification_type (ArrayOf t) = Reference (Array (print_field (ArrayOf t)))"

text \<open>Each parser against the bytes at its cursor.\<close>

lemma slice_get_drop: "slice_get bytes c = Some x \<longleftrightarrow> (\<exists>suf. drop c bytes = x # suf)"
proof (cases "c < length bytes")
  case True
  then have "drop c bytes = bytes ! c # drop (Suc c) bytes" by (rule Cons_nth_drop_Suc[symmetric])
  with True show ?thesis by (auto simp: slice_get_def)
qed (simp add: slice_get_def)

lemma drop_shift: "drop c bytes = xs @ ys \<Longrightarrow> drop (c + length xs) bytes = ys"
  by (metis add.commute append_eq_conv_conj drop_drop)

lemma position_append: "\<forall>y\<in>set pre. \<not> P y \<Longrightarrow> P x \<Longrightarrow> position P (pre @ x # suf) = Some (length pre)"
  by (induction pre) simp_all

lemma position_split:
  assumes "position P xs = Some i"
  obtains pre x suf where "xs = pre @ x # suf" "i = length pre" "P x" "\<forall>y\<in>set pre. \<not> P y"
proof -
  from position_Some[OF assms] have i: "i < length xs" "P (xs ! i)" "\<forall>j<i. \<not> P (xs ! j)" by auto
  from i(1) have "xs = take i xs @ xs ! i # drop (Suc i) xs" by (rule id_take_nth_drop)
  moreover have "\<forall>y\<in>set (take i xs). \<not> P y" using i(1,3) by (auto simp: in_set_conv_nth)
  moreover have "i = length (take i xs)" using i(1) by simp
  ultimately show thesis using that i(2) by blast
qed

lemma class_endD:
  assumes "class_end bytes c = Some e"
  obtains name suf where "drop (c + 1) bytes = name @ CHR '';'' # suf" "CHR '';'' \<notin> set name" "name \<noteq> []" "e = c + 1 + length name"
proof -
  from assms obtain r where r: "position (\<lambda>c. c = CHR '';'') (drop (c + 1) bytes) = Some r" "r \<noteq> 0" "e = c + 1 + r"
    by (auto simp: class_end_def split: option.splits if_splits)
  from r(1) obtain pre x suf where "drop (c + 1) bytes = pre @ x # suf" "r = length pre" "x = CHR '';''" "\<forall>y\<in>set pre. y \<noteq> CHR '';''"
    by (rule position_split)
  with r that[of pre suf] show thesis by auto
qed

lemma class_endI:
  assumes "drop (c + 1) bytes = name @ CHR '';'' # suf" "CHR '';'' \<notin> set name" "name \<noteq> []"
  shows "class_end bytes c = Some (c + 1 + length name)"
proof -
  have "position (\<lambda>c. c = CHR '';'') (name @ CHR '';'' # suf) = Some (length name)"
    using assms(2) by (intro position_append) auto
  with assms show ?thesis by (simp add: class_end_def)
qed

lemma skip_dimensions_iff:
  "skip_dimensions bytes c = c + k \<longleftrightarrow>
    (\<exists>suf. drop c bytes = replicate k (CHR ''['') @ suf \<and> \<not> (\<exists>s. suf = CHR ''['' # s))"
proof (induction bytes c arbitrary: k rule: skip_dimensions.induct)
  case (1 bytes c)
  show ?case
  proof (cases "slice_get bytes c = Some (CHR ''['')")
    case True
    then obtain s where s: "drop c bytes = CHR ''['' # s" by (auto simp: slice_get_drop)
    then have s': "drop (c + 1) bytes = s" using drop_shift[of c bytes "[CHR ''['']" s] by simp
    from True have "skip_dimensions bytes c = skip_dimensions bytes (c + 1)" by (subst skip_dimensions.simps) simp
    with 1[OF True, of "k - 1"] s s' skip_dimensions_ge[of "c + 1" bytes] show ?thesis by (cases k) auto
  next
    case False
    then have "skip_dimensions bytes c = c" by (subst skip_dimensions.simps) simp
    moreover from False have "\<not> (\<exists>s. drop c bytes = CHR ''['' # s)" by (auto simp: slice_get_drop)
    ultimately show ?thesis by (cases k) auto
  qed
qed

lemma print_field_first: "wf_field t \<Longrightarrow> \<exists>c rest. print_field t = c # rest \<and> c \<noteq> CHR '')'' \<and> c \<noteq> CHR ''V''"
  by (cases t) auto

fun dimensions :: "field_type \<Rightarrow> nat" where
  "dimensions (ArrayOf t) = Suc (dimensions t)"
| "dimensions _ = 0"

fun element :: "field_type \<Rightarrow> field_type" where
  "element (ArrayOf t) = element t"
| "element t = t"

lemma print_dimensions: "print_field t = replicate (dimensions t) (CHR ''['') @ print_field (element t)"
  by (induction t) auto

lemma element_cases: "(\<exists>c. element t = BaseType c) \<or> (\<exists>name. element t = ClassType name)"
  by (induction t) auto

lemma wf_element [simp]: "wf_field (element t) = wf_field t"
  by (induction t) auto

definition arrays :: "nat \<Rightarrow> field_type \<Rightarrow> field_type" where
  "arrays k t = (ArrayOf ^^ k) t"

lemma print_arrays: "print_field (arrays k t) = replicate k (CHR ''['') @ print_field t" "wf_field (arrays k t) = wf_field t"
  by (induction k) (simp_all add: arrays_def)

lemma skip_dimensions_print:
  assumes "drop c bytes = print_field t @ suf" "wf_field t"
  shows "skip_dimensions bytes c = c + dimensions t" "drop (c + dimensions t) bytes = print_field (element t) @ suf"
proof -
  have d: "drop c bytes = replicate (dimensions t) (CHR ''['') @ print_field (element t) @ suf"
    using assms(1) print_dimensions[of t] by simp
  have "\<not> (\<exists>s. print_field (element t) @ suf = CHR ''['' # s)"
    using element_cases[of t] assms(2)[folded wf_element[of t]] by (auto simp del: wf_element)
  with d show "skip_dimensions bytes c = c + dimensions t" unfolding skip_dimensions_iff by blast
  from drop_shift[OF d] show "drop (c + dimensions t) bytes = print_field (element t) @ suf" by simp
qed

lemma slice_str_drop: "drop c bytes = xs @ ys \<Longrightarrow> slice_str bytes c (c + length xs) = xs"
  by (simp add: slice_str_def)

lemma parse_array_complete:
  assumes d: "drop c bytes = print_field t @ suf" and wf: "wf_field t"
  shows "parse_array_type bytes c = Ok (Reference (Array (print_field t)), c + length (print_field t))"
proof -
  note skip = skip_dimensions_print[OF d wf] and s = slice_str_drop[OF d]
  have len: "length (print_field t) = dimensions t + length (print_field (element t))"
    using arg_cong[OF print_dimensions[of t], of length] by simp
  show ?thesis
  proof (cases "\<exists>x. element t = BaseType x")
    case True
    then obtain x where x: "element t = BaseType x" by blast
    with skip(2) have "slice_get bytes (c + dimensions t) = Some x" by (simp add: slice_get_drop)
    moreover have "x \<in> set ''BCDFIJSZ''" using wf wf_element[of t] x by simp
    ultimately show ?thesis using s len x by (simp add: parse_array_type_def skip(1))
  next
    case False
    then obtain name where n: "element t = ClassType name" using element_cases[of t] by blast
    with skip(2) have g: "slice_get bytes (c + dimensions t) = Some (CHR ''L'')" by (simp add: slice_get_drop)
    have name: "CHR '';'' \<notin> set name" "name \<noteq> []" using wf wf_element[of t] n by auto
    have "drop (c + dimensions t + 1) bytes = name @ CHR '';'' # suf"
      using drop_shift[of "c + dimensions t" bytes "''L''" "name @ CHR '';'' # suf"] skip(2) n by simp
    from class_endI[OF this name] g s len n show ?thesis by (simp add: parse_array_type_def skip(1) add.assoc)
  qed
qed

lemma parse_field_complete:
  assumes d: "drop c bytes = print_field t @ suf" and wf: "wf_field t"
  shows "parse_descriptor_type bytes c = Ok (field_verification_type t, c + length (print_field t))"
proof (cases t)
  case (BaseType x)
  with d have "slice_get bytes c = Some x" by (simp add: slice_get_drop)
  with BaseType wf show ?thesis by (auto simp: parse_descriptor_type_def)
next
  case (ClassType name)
  with d have g: "slice_get bytes c = Some (CHR ''L'')" by (simp add: slice_get_drop)
  have name: "CHR '';'' \<notin> set name" "name \<noteq> []" using wf ClassType by auto
  have n: "drop (c + 1) bytes = name @ CHR '';'' # suf"
    using drop_shift[of c bytes "''L''" "name @ CHR '';'' # suf"] d ClassType by simp
  from class_endI[OF n name] slice_str_drop[OF n] g ClassType show ?thesis by (simp add: parse_descriptor_type_def)
next
  case (ArrayOf u)
  with d have "slice_get bytes c = Some (CHR ''['')" by (simp add: slice_get_drop)
  with ArrayOf parse_array_complete[OF d wf] show ?thesis by (simp add: parse_descriptor_type_def)
qed

lemma parse_array_sound:
  assumes run: "parse_array_type bytes c = Ok (v, c')" and first: "slice_get bytes c = Some (CHR ''['')"
  shows "\<exists>t suf. wf_field t \<and> drop c bytes = print_field t @ suf \<and> v = field_verification_type t \<and> c' = c + length (print_field t)"
proof -
  define k where "k = skip_dimensions bytes c - c"
  have k: "skip_dimensions bytes c = c + k" using skip_dimensions_ge[of c bytes] by (simp add: k_def)
  then obtain rest where rest: "drop c bytes = replicate k (CHR ''['') @ rest" "\<not> (\<exists>s. rest = CHR ''['' # s)"
    unfolding skip_dimensions_iff by blast
  have "k \<noteq> 0" using first rest by (cases k) (auto simp: slice_get_drop)
  then obtain j where j: "k = Suc j" by (cases k) auto
  have rest': "drop (c + k) bytes = rest" using drop_shift[OF rest(1)] by simp
  have array: "field_verification_type (arrays k e) = Reference (Array (print_field (arrays k e)))" for e
    unfolding j by (simp add: arrays_def)
  from run k obtain x where x: "slice_get bytes (c + k) = Some x" by (auto simp: parse_array_type_def Let_def split: option.splits)
  then obtain suf where suf: "rest = x # suf" unfolding slice_get_drop rest' by blast
  obtain e suf' where e: "wf_field e" "rest = print_field e @ suf'" "c' = c + k + length (print_field e)"
    and v: "v = Reference (Array (slice_str bytes c c'))"
  proof (cases "x \<in> set ''BCDFIJSZ''")
    case True
    with run k x suf that[of "BaseType x" suf] show thesis by (auto simp: parse_array_type_def Let_def)
  next
    case False
    with run k x have L: "x = CHR ''L''" by (auto simp: parse_array_type_def Let_def split: if_splits)
    with run k x obtain q where q: "class_end bytes (c + k) = Some q" "c' = q + 1" "v = Reference (Array (slice_str bytes c (q + 1)))"
      by (auto simp: parse_array_type_def Let_def split: option.splits)
    from q(1) obtain name s where n: "drop (c + k + 1) bytes = name @ CHR '';'' # s" "CHR '';'' \<notin> set name" "name \<noteq> []" "q = c + k + 1 + length name"
      by (rule class_endD)
    have "drop (c + k + 1) bytes = suf" using drop_shift[of "c + k" bytes "[x]" suf] rest' suf by simp
    with n q suf L that[of "ClassType name" s] show thesis by simp
  qed
  have d: "drop c bytes = print_field (arrays k e) @ suf'" using rest(1) e(2) by (simp add: print_arrays)
  have c': "c' = c + length (print_field (arrays k e))" using e(3) by (simp add: print_arrays)
  have "v = field_verification_type (arrays k e)" using slice_str_drop[OF d] unfolding array v c' by simp
  with d e(1) c' print_arrays(2)[of k e] show ?thesis by blast
qed

lemma parse_field_sound:
  assumes run: "parse_descriptor_type bytes c = Ok (v, c')"
  shows "\<exists>t suf. wf_field t \<and> drop c bytes = print_field t @ suf \<and> v = field_verification_type t \<and> c' = c + length (print_field t)"
proof -
  from run obtain x where x: "slice_get bytes c = Some x" by (auto simp: parse_descriptor_type_def split: option.splits)
  then obtain suf where suf: "drop c bytes = x # suf" by (auto simp: slice_get_drop)
  consider (base) "x \<in> set ''BCDFIJSZ''" | (cls) "x = CHR ''L''" | (arr) "x = CHR ''[''"
    using run x by (auto simp: parse_descriptor_type_def split: if_splits)
  then show ?thesis
  proof cases
    case base
    with run x suf show ?thesis by (intro exI[of _ "BaseType x"] exI[of _ suf]) (auto simp: parse_descriptor_type_def)
  next
    case cls
    with run x obtain q where q: "class_end bytes c = Some q" "c' = q + 1" "v = Reference (Class (slice_str bytes (c + 1) q))"
      by (auto simp: parse_descriptor_type_def split: option.splits)
    from q(1) obtain name s where n: "drop (c + 1) bytes = name @ CHR '';'' # s" "CHR '';'' \<notin> set name" "name \<noteq> []" "q = c + 1 + length name"
      by (rule class_endD)
    have "drop (c + 1) bytes = suf" using drop_shift[of c bytes "[x]" suf] suf by simp
    with n q suf cls slice_str_drop[OF n(1)] show ?thesis by (intro exI[of _ "ClassType name"] exI[of _ s]) simp
  next
    case arr
    with run x have "parse_array_type bytes c = Ok (v, c')" by (simp add: parse_descriptor_type_def)
    with parse_array_sound x arr show ?thesis by simp
  qed
qed

text \<open>The parameter list and the return descriptor.\<close>

definition print_fields :: "field_type list \<Rightarrow> string" where
  "print_fields ts = concat (map print_field ts)"

lemma print_fields_simps [simp]: "print_fields [] = []" "print_fields (t # ts) = print_field t @ print_fields ts"
  by (simp_all add: print_fields_def)

lemma parse_parameters_complete:
  assumes "drop c bytes = print_fields ts @ CHR '')'' # suf" "list_all wf_field ts"
  shows "parse_parameters bytes c locals = Ok (locals @ map field_verification_type ts, c + length (print_fields ts))"
  using assms
proof (induction ts arbitrary: c locals)
  case Nil
  then have "slice_get bytes c = Some (CHR '')'')" by (simp add: slice_get_drop)
  then show ?case by (simp add: parse_parameters.simps)
next
  case (Cons t ts)
  then have d: "drop c bytes = print_field t @ print_fields ts @ CHR '')'' # suf" and wf: "wf_field t" by simp_all
  from print_field_first[OF wf] d have "slice_get bytes c \<noteq> Some (CHR '')'')" by (auto simp: slice_get_drop)
  moreover from print_field_first[OF wf] d have "c < length bytes" by (metis Nil_is_append_conv drop_all leI list.distinct(1))
  moreover note parse_field_complete[OF d wf]
  moreover have "parse_parameters bytes (c + length (print_field t)) (locals @ [field_verification_type t]) =
      Ok ((locals @ [field_verification_type t]) @ map field_verification_type ts, c + length (print_field t) + length (print_fields ts))"
    using Cons.IH[OF drop_shift[OF d]] Cons.prems(2) by simp
  ultimately show ?case by (subst parse_parameters.simps) simp
qed

lemma parse_parameters_sound:
  assumes "parse_parameters bytes c locals = Ok (locals', c')"
  shows "\<exists>ts suf. list_all wf_field ts \<and> drop c bytes = print_fields ts @ CHR '')'' # suf \<and>
    locals' = locals @ map field_verification_type ts \<and> c' = c + length (print_fields ts)"
  using assms
proof (induction bytes c locals rule: parse_parameters.induct)
  case (1 bytes c locals)
  show ?case
  proof (cases "slice_get bytes c = Some (CHR '')'')")
    case True
    with "1.prems" have "locals' = locals" "c' = c" by (simp_all add: parse_parameters.simps)
    moreover from True obtain suf where "drop c bytes = CHR '')'' # suf" by (auto simp: slice_get_drop)
    ultimately show ?thesis by (intro exI[of _ "[]"] exI[of _ suf]) simp
  next
    case False
    with "1.prems" obtain v c1 where p: "parse_descriptor_type bytes c = Ok (v, c1)" "parse_parameters bytes c1 (locals @ [v]) = Ok (locals', c')"
      and len: "\<not> length bytes \<le> c"
      by (subst (asm) parse_parameters.simps) (auto simp: outcome_simps split: if_splits)
    from parse_field_sound[OF p(1)] obtain t s where t: "wf_field t" "drop c bytes = print_field t @ s" "v = field_verification_type t"
      "c1 = c + length (print_field t)" by blast
    from "1.IH"[OF False len p(1) refl p(2)] obtain ts suf where ts: "list_all wf_field ts" "drop c1 bytes = print_fields ts @ CHR '')'' # suf"
      "locals' = (locals @ [v]) @ map field_verification_type ts" "c' = c1 + length (print_fields ts)" by blast
    have "s = drop c1 bytes" using drop_shift[OF t(2)] t(4) by simp
    with t ts show ?thesis by (intro exI[of _ "t # ts"] exI[of _ suf]) simp
  qed
qed

definition print_return :: "field_type option \<Rightarrow> string" where
  "print_return r = (case r of None \<Rightarrow> ''V'' | Some t \<Rightarrow> print_field t)"

lemma parse_return_iff:
  "parse_return bytes c = Ok () \<longleftrightarrow> (\<exists>r. pred_option wf_field r \<and> drop c bytes = print_return r)"
proof
  assume run: "parse_return bytes c = Ok ()"
  then obtain x where x: "slice_get bytes c = Some x" by (auto simp: parse_return_def split: option.splits)
  then obtain suf where suf: "drop c bytes = x # suf" by (auto simp: slice_get_drop)
  show "\<exists>r. pred_option wf_field r \<and> drop c bytes = print_return r"
  proof (cases "x = CHR ''V''")
    case True
    with run x have "c + 1 = length bytes" by (simp add: parse_return_def split: if_splits)
    moreover have "length bytes - c = Suc (length suf)" using arg_cong[OF suf, of length] by (simp only: length_drop list.size)
    ultimately have "length suf = 0" by linarith
    with suf True show ?thesis by (intro exI[of _ None]) (simp add: print_return_def)
  next
    case False
    with run x obtain v where v: "parse_descriptor_type bytes c = Ok (v, length bytes)"
      by (auto simp: parse_return_def outcome_simps split: if_splits)
    from parse_field_sound[OF v] obtain t s where t: "wf_field t" "drop c bytes = print_field t @ s" "length bytes = c + length (print_field t)" by blast
    have "length bytes - c = length (print_field t) + length s" using arg_cong[OF t(2), of length] by (simp only: length_drop length_append)
    with t(3) have "s = []" by simp
    with t show ?thesis by (intro exI[of _ "Some t"]) (simp add: print_return_def)
  qed
next
  assume "\<exists>r. pred_option wf_field r \<and> drop c bytes = print_return r"
  then obtain r where r: "pred_option wf_field r" "drop c bytes = print_return r" by blast
  have lenr: "c + length (print_return r) = length bytes" if "print_return r \<noteq> []"
    using arg_cong[OF r(2), of length] that by (cases "c \<le> length bytes") auto
  show "parse_return bytes c = Ok ()"
  proof (cases r)
    case None
    with r(2) have "slice_get bytes c = Some (CHR ''V'')" by (simp add: slice_get_drop print_return_def)
    with lenr None show ?thesis by (simp add: parse_return_def print_return_def)
  next
    case (Some t)
    with r have wf: "wf_field t" and d: "drop c bytes = print_field t @ []" by (simp_all add: print_return_def)
    from print_field_first[OF wf] obtain x rest where x: "print_field t = x # rest" "x \<noteq> CHR ''V''" by blast
    then have "slice_get bytes c = Some x" using d by (simp add: slice_get_drop)
    with x parse_field_complete[OF d wf] lenr Some show ?thesis by (simp add: parse_return_def print_return_def)
  qed
qed

section \<open>Entry states\<close>

lemma verification_width_slots: "verification_width vals = length (slots_of vals)"
proof -
  have "(case width v of Some Category2 \<Rightarrow> 2 | _ \<Rightarrow> 1) = type_width v" for v
    by (simp add: type_width_def split: option.split verification_type_width.split)
  then show ?thesis by (simp add: verification_width_def length_slots_of)
qed

lemma field_width: "width (field_verification_type t) \<noteq> None"
  by (cases t) auto

definition receiver :: "initial_frame_input \<Rightarrow> verification_type list" where
  "receiver input = (if is_static input then []
     else [if method_name input = ''<init>'' then UninitializedThis else Reference (Class (declaring_class input))])"

lemma derive_initial_locals_iff:
  "derive_initial_locals input = Ok locals \<longleftrightarrow>
    is_ascii (descriptor input) \<and>
    (\<exists>ts r. list_all wf_field ts \<and> pred_option wf_field r \<and>
      descriptor input = ''('' @ print_fields ts @ '')'' @ print_return r \<and>
      locals = receiver input @ map field_verification_type ts \<and> verification_width locals \<le> max_locals input)"
    (is "?run = Ok locals \<longleftrightarrow> ?spec")
proof
  let ?bytes = "descriptor input"
  assume run: "?run = Ok locals"
  then obtain c where ascii: "is_ascii ?bytes" and first: "slice_get ?bytes 0 = Some (CHR ''('')"
    and p: "parse_parameters ?bytes 1 (receiver input) = Ok (locals, c)" and ret: "parse_return ?bytes (c + 1) = Ok ()"
    and w: "verification_width locals \<le> max_locals input"
    by (auto simp: derive_initial_locals_def receiver_def Let_def outcome_simps split: if_splits)
  from first obtain s where s: "?bytes = CHR ''('' # s" by (auto simp: slice_get_drop)
  from parse_parameters_sound[OF p] obtain ts suf where ts: "list_all wf_field ts" "drop 1 ?bytes = print_fields ts @ CHR '')'' # suf"
    "locals = receiver input @ map field_verification_type ts" "c = 1 + length (print_fields ts)" by blast
  have "drop (c + 1) ?bytes = suf"
    using drop_shift[of 1 ?bytes "print_fields ts @ '')''" suf] ts(2,4) by simp
  with ret obtain r where r: "pred_option wf_field r" "suf = print_return r" unfolding parse_return_iff by auto
  have "?bytes = ''('' @ print_fields ts @ '')'' @ print_return r" using s ts(2) r(2) by simp
  with ts(1,3) r(1) ascii w show ?spec by (intro conjI exI[of _ ts] exI[of _ r])
next
  let ?bytes = "descriptor input"
  assume ?spec
  then obtain ts r where ts: "list_all wf_field ts" "pred_option wf_field r" "?bytes = ''('' @ print_fields ts @ '')'' @ print_return r"
    "locals = receiver input @ map field_verification_type ts" "verification_width locals \<le> max_locals input" and ascii: "is_ascii ?bytes"
    by blast
  have d: "drop 1 ?bytes = print_fields ts @ CHR '')'' # print_return r" using ts(3) by simp
  have "parse_return ?bytes (Suc (length (print_fields ts)) + 1) = Ok ()"
    unfolding parse_return_iff using ts(2,3) by (intro exI[of _ r]) simp
  moreover have "slice_get ?bytes 0 = Some (CHR ''('')" using ts(3) by (simp add: slice_get_def)
  ultimately show "?run = Ok locals"
    using parse_parameters_complete[OF d ts(1), of "receiver input"] ascii ts(4,5)
    by (simp add: derive_initial_locals_def receiver_def Let_def)
qed

lemma derive_no_panic: "derive_initial_locals input \<noteq> Panic p"
proof -
  have a: "parse_array_type bytes c \<noteq> Panic p" for bytes c
    by (auto simp: parse_array_type_def Let_def split: option.splits)
  have f: "parse_descriptor_type bytes c \<noteq> Panic p" for bytes c
    by (auto simp: parse_descriptor_type_def a split: option.splits)
  have "parse_parameters bytes c locals \<noteq> Panic p" for bytes c locals
  proof (induction bytes c locals rule: parse_parameters.induct)
    case (1 bytes c locals)
    then show ?case by (subst parse_parameters.simps) (auto simp: outcome_simps f)
  qed
  moreover have "parse_return bytes c \<noteq> Panic p" for bytes c
    by (auto simp: parse_return_def outcome_simps f split: option.splits)
  ultimately show ?thesis by (auto simp: derive_initial_locals_def Let_def outcome_simps)
qed

lemma derived_width: "derive_initial_locals input = Ok locals \<Longrightarrow> v \<in> set locals \<Longrightarrow> width v \<noteq> None"
  using field_width by (auto simp: derive_initial_locals_iff receiver_def split: if_splits)

lemma write_locals_packed:
  assumes "length (slots_of (pre @ vs)) \<le> capacity" "\<forall>v\<in>set vs. width v \<noteq> None"
  shows "write_locals (length (slots_of pre)) vs (Reachable Locals (packed capacity pre)) = Ok (Reachable Locals (packed capacity (pre @ vs)))"
  using assms
proof (induction vs arbitrary: pre)
  case (Cons v vs)
  have total: "length (slots_of (pre @ [v])) = length (slots_of pre) + type_width v" unfolding length_slots_of by simp
  have "length (slots_of (pre @ [v])) \<le> length (slots_of (pre @ v # vs))" by simp
  with Cons.prems(1) total have fits: "length (slots_of pre) + type_width v \<le> capacity" by linarith
  note IH = Cons.IH[of "pre @ [v]"]
  with set_local_packed[OF _ fits] Cons.prems total show ?case by (simp del: slots_of_simps)
qed simp

lemma locals_ok_packed:
  assumes "length (slots_of vs) \<le> capacity" "\<forall>v\<in>set vs. width v \<noteq> None"
  shows "locals_ok (Reachable Locals (packed capacity vs))"
  using assms
proof (induction vs rule: rev_induct)
  case Nil
  then show ?case by (simp add: packed_def well_paired_def)
next
  case (snoc v vs)
  then have ok: "locals_ok (Reachable Locals (packed capacity vs))" by simp
  have total: "length (slots_of (vs @ [v])) = length (slots_of vs) + type_width v" unfolding length_slots_of by simp
  have v: "width v \<noteq> None" using snoc.prems(2) by simp
  from set_local_packed[OF v] snoc.prems(1) total
  have "set_local (length (slots_of vs)) v (Reachable Locals (packed capacity vs)) = Ok (Reachable Locals (packed capacity (vs @ [v])))" by simp
  with set_local_ok[OF ok v, of "length (slots_of vs)"] show ?case by (simp del: locals_ok.simps)
qed

section \<open>Expansion\<close>

text \<open>The tags the class-file format allows in each kind of frame, and its two-byte deltas.\<close>

fun frame_tag_ok :: "stack_map_frame \<Rightarrow> bool" where
  "frame_tag_ok (Same frame_type) = (frame_type < 64)"
| "frame_tag_ok (SameLocalsOneStack frame_type _) = (64 \<le> frame_type \<and> frame_type < 128)"
| "frame_tag_ok (Chop frame_type offset_delta) = (248 \<le> frame_type \<and> frame_type < 251)"
| "frame_tag_ok (Append frame_type offset_delta _) = (252 \<le> frame_type \<and> frame_type < 255)"
| "frame_tag_ok _ = True"

definition frame_fits :: "initial_frame_input \<Rightarrow> (usize \<times> 'i) list \<Rightarrow> 'i expanded_stack_map_frame \<Rightarrow> bool" where
  "frame_fits input code f \<longleftrightarrow> verification_width (ef_locals f) \<le> max_locals input \<and>
     verification_width (ef_stack f) \<le> max_stack input \<and> (ef_offset f, ef_instruction f) \<in> set code"

lemma instruction_at_offset_Some: "instruction_at_offset code offset = Some i \<Longrightarrow> (offset, i) \<in> set code"
  by (auto simp: instruction_at_offset_def find_Some_iff in_set_conv_nth)

lemma expand_frame_step:
  assumes "expand_frame resolve_class input code encoded (locals, previous, expanded) = Ok (locals', previous', expanded')"
  shows "\<exists>f. expanded' = expanded @ [f] \<and> previous' = Some (ef_offset f) \<and> frame_fits input code f \<and>
    (\<forall>p. previous = Some p \<longrightarrow> p < ef_offset f)"
proof -
  from assms obtain delta offset stack i where step: "next_offset previous delta = Ok offset" "instruction_at_offset code offset = Some i"
    "verification_width locals' \<le> max_locals input" "verification_width stack \<le> max_stack input" "previous' = Some offset"
    "expanded' = expanded @ [\<lparr>ef_offset = offset, ef_instruction = i, ef_locals = locals', ef_stack = stack\<rparr>]"
    by (auto simp: expand_frame_def outcome_simps split: if_splits prod.splits)
  have "p < offset" if "previous = Some p" for p
    using step(1) that by (auto simp: next_offset_def split: if_splits)
  with step instruction_at_offset_Some[OF step(2)] show ?thesis by (auto simp: frame_fits_def)
qed

lemma convert_no_panic: "convert_classfile_type resolve_class offset c \<noteq> Panic p" "convert_all resolve_class offset cs \<noteq> Panic p"
proof -
  show 1: "convert_classfile_type resolve_class offset c \<noteq> Panic p" for c by (cases c) (auto split: option.splits)
  show "convert_all resolve_class offset cs \<noteq> Panic p" by (induction cs) (auto simp: outcome_simps 1)
qed

lemma expand_frame_no_panic:
  assumes "frame_tag_ok encoded"
  shows "expand_frame resolve_class input code encoded st \<noteq> Panic p"
proof -
  have d: "frame_offset_delta encoded \<noteq> Panic p" using assms by (cases encoded) (simp_all add: u8_sub_def)
  have n: "next_offset previous delta \<noteq> Panic p" for previous delta by (simp add: next_offset_def split: option.split)
  have a: "apply_frame resolve_class offset encoded locals \<noteq> Panic p" for offset locals
    using assms by (cases encoded) (auto simp: apply_frame_def outcome_simps u8_sub_def convert_no_panic)
  show ?thesis by (auto simp: expand_frame_def outcome_simps d n a split: prod.splits)
qed

lemma expanded_invariant:
  assumes "for_each (expand_frame resolve_class input code) table (locals, None, []) = Ok (locals', previous, frames)"
  shows "length frames = length table \<and> sorted_wrt (<) (map ef_offset frames) \<and> (\<forall>f\<in>set frames. frame_fits input code f)"
proof -
  define inv where "inv = (\<lambda>(ys :: stack_map_frame list) (st :: verification_type list \<times> nat option \<times> 'a expanded_stack_map_frame list).
    case st of (_, previous, frames) \<Rightarrow>
      length frames = length ys \<and> sorted_wrt (<) (map ef_offset frames) \<and> (\<forall>f\<in>set frames. frame_fits input code f) \<and>
      (\<forall>f\<in>set frames. \<exists>p. previous = Some p \<and> ef_offset f \<le> p))"
  have "inv table (locals', previous, frames)"
  proof (rule for_each_invariant_prefix[OF assms, where prefix_of = "\<lambda>_ _ _. True"])
    fix ys x u v assume I: "inv ys u" and run: "expand_frame resolve_class input code x u = Ok v"
    obtain l p fs l' p' fs' where uv: "u = (l, p, fs)" "v = (l', p', fs')" by (cases u; cases v)
    from expand_frame_step[OF run[unfolded uv]] obtain f where
      f: "fs' = fs @ [f]" "p' = Some (ef_offset f)" "frame_fits input code f" "\<forall>q. p = Some q \<longrightarrow> q < ef_offset f" by blast
    with I show "inv (ys @ [x]) v" by (fastforce simp: inv_def uv sorted_wrt_append)
  qed (simp_all add: inv_def)
  then show ?thesis by (simp add: inv_def)
qed

lemma numeric_result_width: "numeric_signature opcode = Some (inputs, result) \<Longrightarrow> width result \<noteq> None"
proof -
  have "width (snd (integral_signature i)) \<noteq> None" "width (snd (floating_signature f)) \<noteq> None" for i f
    by simp (cases f; simp)
  then show "numeric_signature opcode = Some (inputs, result) \<Longrightarrow> ?thesis" by (cases opcode) (metis numeric_signature.simps option.inject option.distinct(1) snd_conv)+
qed

section \<open>Properties\<close>

text \<open>
  C40: The entry frame is derived exactly from the method descriptors of the class-file grammar: a
  parenthesised list of field types followed by a field type or \<open>V\<close>, in ASCII, whose parameters
  with the receiver fit the locals; the result is the receiver followed by one verification type
  per parameter. Printing a signature and deriving its locals is thereby a round trip.
\<close>

theorem initial_locals_exact:
  "derive_initial_locals input = Ok locals \<longleftrightarrow>
    is_ascii (descriptor input) \<and>
    (\<exists>ts r. list_all wf_field ts \<and> pred_option wf_field r \<and>
      descriptor input = ''('' @ print_fields ts @ '')'' @ print_return r \<and>
      locals = receiver input @ map field_verification_type ts \<and> verification_width locals \<le> max_locals input)"
  by (rule derive_initial_locals_iff)

text \<open>
  The entry state never panics: the \<open>expect\<close> on its local writes cannot fail. The state keeps the
  verifier's invariant, its stack is empty, and each derived local stands at the slot that the
  widths of the locals before it give.
\<close>

theorem initial_state_safe:
  "case state_initial input of
     Ok s \<Rightarrow> state_ok s \<and> stack_values (vs_stack s) = [] \<and>
       frame_capacity (vs_locals s) = max_locals input \<and> frame_capacity (vs_stack s) = max_stack input \<and>
       (\<exists>locals. derive_initial_locals input = Ok locals \<and>
         list_all (\<lambda>i. frame_get (vs_locals s) (sum_list (map type_width (take i locals))) = Some (locals ! i)) [0..<length locals])
   | Err e \<Rightarrow> derive_initial_locals input = Err e
   | Panic _ \<Rightarrow> False"
proof (cases "derive_initial_locals input")
  case (Ok locals)
  have fits: "length (slots_of locals) \<le> max_locals input"
    using Ok by (auto simp: derive_initial_locals_iff simp flip: verification_width_slots)
  have w: "\<forall>v\<in>set locals. width v \<noteq> None" using derived_width[OF Ok] by blast
  have empty: "frame_new kind n = Reachable kind (packed n [])" for kind n by (simp add: frame_new_def packed_def)
  have "write_locals 0 locals (Reachable Locals (packed (max_locals input) [])) =
      (Ok (Reachable Locals (packed (max_locals input) locals)) :: (stack_map_expansion_error, _) outcome)"
    using write_locals_packed[of "[]" locals "max_locals input"] fits w by simp
  then have run: "state_initial input = Ok \<lparr>vs_locals = Reachable Locals (packed (max_locals input) locals), vs_stack = frame_new OperandStack (max_stack input)\<rparr>"
    using Ok by (simp add: state_initial_def empty)
  have "sum_list (map type_width (take i locals)) < max_locals input" if "i < length locals" for i
  proof -
    have "sum_list (map type_width locals) = sum_list (map type_width (take i locals)) + sum_list (map type_width (drop i locals))"
      by (metis append_take_drop_id map_append sum_list_append)
    moreover have "drop i locals \<noteq> []" using that by simp
    then have "0 < sum_list (map type_width (drop i locals))" by (cases "drop i locals") (simp_all add: type_width_def)
    ultimately show ?thesis using fits by (simp add: length_slots_of)
  qed
  then have "list_all (\<lambda>i. frame_get (Reachable Locals (packed (max_locals input) locals)) (sum_list (map type_width (take i locals))) =
      Some (locals ! i)) [0..<length locals]"
    using fits by (simp add: list_all_iff slice_get_def length_packed packed_nth)
  moreover have "stack_ok (frame_new OperandStack (max_stack input))" unfolding empty by (rule stack_ok_packed) simp_all
  ultimately show ?thesis
    using locals_ok_packed[OF fits w] Ok length_packed[OF fits] unfolding run
    by (simp add: state_ok_def empty length_packed del: locals_ok.simps frame_get.simps)
qed (use derive_no_panic in \<open>auto simp: state_initial_def\<close>)

text \<open>
  An expanded stack-map table has one frame per record, at strictly increasing offsets, each at
  the start of an instruction of the code and within the limits of the method. The expansion does
  not panic on records whose tags the class-file format allows.
\<close>

theorem expand_sound:
  assumes "list_all frame_tag_ok table"
  shows "case expand_stack_map_table table input code resolve_class of
      Ok frames \<Rightarrow> length frames = length table \<and> sorted_wrt (<) (map ef_offset frames) \<and> list_all (frame_fits input code) frames
    | Err e \<Rightarrow> True
    | Panic _ \<Rightarrow> False"
proof (cases "derive_initial_locals input")
  case (Ok locals)
  show ?thesis
  proof (cases "for_each (expand_frame resolve_class input code) table (locals, None, [])")
    case run: (Ok st)
    obtain l p frames where st: "st = (l, p, frames)" by (cases st)
    from expanded_invariant[OF run[unfolded st]] run Ok show ?thesis by (simp add: expand_stack_map_table_def st list_all_iff)
  next
    case (Panic q)
    have "for_each (expand_frame resolve_class input code) table (locals, None, []) \<noteq> Panic q"
      using assms by (intro for_each_not_Panic[where I = "\<lambda>_. True"]) (simp_all add: list_all_iff expand_frame_no_panic)
    with Panic show ?thesis by simp
  qed (use Ok in \<open>simp add: expand_stack_map_table_def\<close>)
qed (use derive_no_panic in \<open>auto simp: expand_stack_map_table_def\<close>)

definition sample_input :: initial_frame_input where
  "sample_input = \<lparr>declaring_class = ''A'', method_name = ''m'', descriptor = ''(J)V'', is_static = False, max_locals = 4, max_stack = 2\<rparr>"

lemma sample_locals: "derive_initial_locals sample_input = Ok [Reference (Class ''A''), Long]"
  unfolding derive_initial_locals_iff
  by (intro conjI exI[of _ "[BaseType (CHR ''J'')]"] exI[of _ None])
    (simp_all add: sample_input_def is_ascii_def print_return_def receiver_def verification_width_def)

theorem expand_sound_witness:
  "\<exists>frames. expand_stack_map_table [Same 3, Append 252 4 [CInteger]] sample_input [(0, 0), (3, 1), (8, 2 :: nat)] (\<lambda>_. None) = Ok frames \<and>
     map ef_offset frames = [3, 8] \<and> list_all (frame_fits sample_input [(0, 0), (3, 1), (8, 2)]) frames"
proof -
  let ?code = "[(0, 0), (3, 1), (8, 2 :: nat)]"
  have "case expand_stack_map_table [Same 3, Append 252 4 [CInteger]] sample_input ?code (\<lambda>_. None) of
      Ok frames \<Rightarrow> map ef_offset frames = [3, 8] | _ \<Rightarrow> False"
    by code_simp
  then obtain frames where run: "expand_stack_map_table [Same 3, Append 252 4 [CInteger]] sample_input ?code (\<lambda>_. None) = Ok frames"
    "map ef_offset frames = [3, 8]" by (auto split: outcome.splits)
  have "list_all frame_tag_ok [Same 3, Append 252 4 [CInteger]]" by simp
  from expand_sound[OF this, of sample_input ?code "\<lambda>_. None"] run show ?thesis by simp
qed

text \<open>
  On a state of the verifier, a numeric instruction without operands succeeds exactly when the
  top of the stack is its signature's inputs and its result fits; then the inputs are replaced by
  the result, the locals are unchanged and the invariant is kept. It never panics.
\<close>

theorem numeric_transfer_exact:
  assumes "state_ok s" "pi_operands instruction = []" "numeric_signature (pi_opcode instruction) = Some (inputs, result)"
  shows "case (transfer_numeric_instruction byte instruction offset s :: (('i, 'd) verification_transfer_error, verification_state) outcome) of
      Ok s' \<Rightarrow> state_ok s' \<and> state_shape s s' \<and> vs_locals s' = vs_locals s \<and>
        (\<exists>pre. stack_values (vs_stack s) = pre @ inputs \<and> stack_values (vs_stack s') = pre @ [result])
    | Err e \<Rightarrow> \<not> (\<exists>pre. stack_values (vs_stack s) = pre @ inputs \<and> verification_width (pre @ [result]) \<le> frame_capacity (vs_stack s))
    | Panic _ \<Rightarrow> False"
proof -
  let ?vals = "stack_values (vs_stack s)"
  define split where "split = length ?vals - length inputs"
  have ok: "stack_ok (vs_stack s)" using assms(1) by (simp add: state_ok_def)
  have iinc: "pi_opcode instruction \<noteq> Iinc" using assms(3) by auto
  have res: "width result \<noteq> None" using numeric_result_width[OF assms(3)] .
  show ?thesis
  proof (cases "length inputs \<le> length ?vals \<and> drop split ?vals = inputs")
    case True
    define p where "p = take split ?vals"
    let ?run = "stack_from_values (frame_capacity (vs_stack s)) (p @ [result])"
    have vals: "?vals = p @ inputs" unfolding p_def using True by (metis append_take_drop_id)
    have all: "\<forall>v\<in>set (p @ [result]). width v \<noteq> None"
      using ok res by (auto simp: p_def stack_ok_def list_all_iff dest: in_set_takeD)
    have "(transfer_numeric_kind instruction s :: ('d verification_transfer_kind, _) outcome) =
        bind_outcome (map_err (\<lambda>_. StackBounds) ?run) (\<lambda>stack. Ok (s\<lparr>vs_stack := stack\<rparr>))"
      using assms(2,3) True by (simp add: transfer_numeric_kind_def ensure_def Let_def split_def p_def)
    then have go: "(transfer_numeric_instruction byte instruction offset s :: (('i, 'd) verification_transfer_error, verification_state) outcome) =
        map_err (\<lambda>kind. \<lparr>te_instruction = pi_id instruction, te_offset = offset, te_opcode = pi_opcode instruction, te_kind = kind\<rparr>)
          (bind_outcome (map_err (\<lambda>_. StackBounds) ?run) (\<lambda>stack. Ok (s\<lparr>vs_stack := stack\<rparr>)))"
      using iinc by (simp add: transfer_numeric_instruction_def)
    show ?thesis
    proof (cases ?run)
      case (Ok f)
      with stack_from_values_ok[OF ok, of "p @ [result]"] have "stack_ok f" "same_shape (vs_stack s) f" "stack_values f = p @ [result]" by simp_all
      with Ok assms(1) vals show ?thesis unfolding go by (auto simp: state_ok_def state_shape_def same_shape_def)
    next
      case (Err e)
      with stack_from_values_cases[of "frame_capacity (vs_stack s)" "p @ [result]"] all
      have "frame_capacity (vs_stack s) < verification_width (p @ [result])" by (auto simp: verification_width_slots)
      with Err vals show ?thesis unfolding go by auto
    next
      case (Panic q)
      with stack_from_values_cases[of "frame_capacity (vs_stack s)" "p @ [result]"] show ?thesis by simp
    qed
  next
    case False
    then have "\<nexists>pre. ?vals = pre @ inputs" by (auto simp: split_def)
    moreover have "\<exists>e. (transfer_numeric_instruction byte instruction offset s :: (('i, 'd) verification_transfer_error, verification_state) outcome) = Err e"
      using False iinc assms(2,3)
      by (auto simp: transfer_numeric_instruction_def transfer_numeric_kind_def ensure_def Let_def split_def)
    ultimately show ?thesis by (elim exE) simp
  qed
qed

theorem numeric_transfer_exact_witness:
  "state_ok sample_state \<and>
   (case (transfer_numeric_instruction sample_byte (sample_instruction (Integral Lneg) []) 2 sample_state
        :: ((nat, unit) verification_transfer_error, verification_state) outcome) of
      Ok s' \<Rightarrow> stack_values (vs_stack s') = [Null, Long] | _ \<Rightarrow> False)"
proof -
  have vals: "stack_values (vs_stack sample_state) = [Null, Long]"
    by (simp add: sample_state_def stack_values_def List.map_filter_def)
  have cap: "frame_capacity (vs_stack sample_state) = 5" by (simp add: sample_state_def)
  have "pi_operands (sample_instruction (Integral Lneg) []) = []"
    "numeric_signature (pi_opcode (sample_instruction (Integral Lneg) [])) = Some ([Long], Long)"
    by (simp_all add: sample_instruction_def)
  from numeric_transfer_exact[OF sample_ok this, where byte = sample_byte and offset = 2 and 'd = unit] sample_ok vals cap show ?thesis
    by (auto simp: verification_width_def split: outcome.splits)
qed

end
