(* ===== verification/Jvm_Initialization.thy ===== *)
theory Jvm_Initialization
  imports Jvm_Stack_Map
begin

text \<open>
  Object initialization and control flow in the JVM verifier (verifier/initialization.rs): \<open>new\<close>,
  constructor calls, merges and handler entries under uninitialized values, branches, switches and
  returns. Instruction identities are their numbers (\<open>InstructionId\<close>).
\<close>

section \<open>Constructors\<close>

record verification_constructor =
  vc_owner :: string
  vc_name :: string
  vc_descriptor :: string
  vc_receiver :: verification_type

definition located ::
  "'i prepared_instruction \<Rightarrow> usize \<Rightarrow> ('d verification_transfer_kind, 'a) outcome \<Rightarrow> (('i, 'd) verification_transfer_error, 'a) outcome" where
  "located instruction offset =
     map_err (\<lambda>kind. \<lparr>te_instruction = pi_id instruction, te_offset = offset, te_opcode = pi_opcode instruction, te_kind = kind\<rparr>)"

definition constant_operand :: "instruction_operand list \<Rightarrow> bool" where
  "constant_operand operands = (case operands of [Constant _] \<Rightarrow> True | _ \<Rightarrow> False)"

definition transfer_new_instruction ::
  "nat prepared_instruction \<Rightarrow> usize \<Rightarrow> verification_state \<Rightarrow> ((nat, 'd) verification_transfer_error, verification_state) outcome" where
  "transfer_new_instruction instruction offset s = located instruction offset
     (bind_outcome (ensure MalformedPreparedInput (pi_opcode instruction = New \<and> constant_operand (pi_operands instruction))) (\<lambda>_.
      bind_outcome (map_err (\<lambda>_. StackBounds) (push (Uninitialized (pi_id instruction)) (vs_stack s))) (\<lambda>stack.
      Ok (s\<lparr>vs_stack := stack\<rparr>))))"

function parse_arguments :: "string \<Rightarrow> usize \<Rightarrow> verification_type list \<Rightarrow> verification_type list option" where
  "parse_arguments bytes cursor arguments =
     (if slice_get bytes cursor = Some (CHR '')'') then Some arguments
      else case parse_descriptor_type bytes cursor of
        Ok (v, cursor') \<Rightarrow> parse_arguments bytes cursor' (arguments @ [v])
      | _ \<Rightarrow> None)"
  by pat_completeness auto
termination
  by (relation "measure (\<lambda>(bytes, cursor, _). length bytes - cursor)")
    (auto dest!: parse_descriptor_type_progress)

declare parse_arguments.simps [simp del]

definition descriptor_arguments :: "string \<Rightarrow> verification_type list option" where
  "descriptor_arguments bytes =
     (if slice_get bytes 0 \<noteq> Some (CHR ''('') then None else parse_arguments bytes 1 [])"

fun verification_category_matches :: "verification_type \<Rightarrow> verification_type \<Rightarrow> bool" where
  "verification_category_matches actual (Reference _) = (case actual of Null \<Rightarrow> True | Reference _ \<Rightarrow> True | _ \<Rightarrow> False)"
| "verification_category_matches actual wanted = (actual = wanted)"

definition categories_match :: "verification_type list \<Rightarrow> verification_type list \<Rightarrow> bool" where
  "categories_match actual wanted = list_all (\<lambda>(a, b). verification_category_matches a b) (zip actual wanted)"

fun uninitialized :: "verification_type \<Rightarrow> bool" where
  "uninitialized (Uninitialized _) = True"
| "uninitialized UninitializedThis = True"
| "uninitialized _ = False"

fun replace_alias :: "verification_type \<Rightarrow> verification_type \<Rightarrow> verification_frame \<Rightarrow> verification_frame" where
  "replace_alias from to (Reachable kind slots) = Reachable kind (map (\<lambda>slot. if slot = Value from then Value to else slot) slots)"
| "replace_alias from to (BottomFrame kind capacity) = BottomFrame kind capacity"

definition constructor_kind ::
  "'i prepared_instruction \<Rightarrow> verification_state \<Rightarrow> verification_constructor \<Rightarrow> ('d verification_transfer_kind, verification_state) outcome" where
  "constructor_kind instruction s constructor =
     bind_outcome (ensure MalformedPreparedInput (pi_opcode instruction = Invokespecial \<and> constant_operand (pi_operands instruction))) (\<lambda>_.
     bind_outcome (ensure IllegalConstructorReceiver (vc_name constructor = ''<init>'')) (\<lambda>_.
     bind_outcome (ok_or MalformedPreparedInput (descriptor_arguments (vc_descriptor constructor))) (\<lambda>arguments.
     let vals = stack_values (vs_stack s) in
     if length vals < length arguments + 1 then Err StackBounds
     else
       (let receiver_index = length vals - length arguments - 1; receiver = vals ! receiver_index in
        bind_outcome (ensure Category (categories_match (drop (receiver_index + 1) vals) arguments)) (\<lambda>_.
        bind_outcome (ensure IllegalConstructorReceiver (receiver = vc_receiver constructor \<and> uninitialized receiver)) (\<lambda>_.
        let initialized = Reference (Class (vc_owner constructor));
            vals' = map (\<lambda>v. if v = receiver then initialized else v) (take receiver_index vals);
            next = \<lparr>vs_locals = replace_alias receiver initialized (vs_locals s), vs_stack = replace_alias receiver initialized (vs_stack s)\<rparr>
        in
        bind_outcome (map_err (\<lambda>_. StackBounds) (stack_from_values (frame_capacity (vs_stack next)) vals')) (\<lambda>stack.
        Ok (next\<lparr>vs_stack := stack\<rparr>))))))))"

definition transfer_constructor_instruction ::
  "'i prepared_instruction \<Rightarrow> usize \<Rightarrow> verification_state \<Rightarrow> verification_constructor \<Rightarrow>
   (('i, 'd) verification_transfer_error, verification_state) outcome" where
  "transfer_constructor_instruction instruction offset s constructor = located instruction offset (constructor_kind instruction s constructor)"

section \<open>Merges and handlers\<close>

definition frame_has_uninitialized :: "verification_frame \<Rightarrow> bool" where
  "frame_has_uninitialized frame =
     (case normalized_slots frame of
        None \<Rightarrow> False
      | Some slots \<Rightarrow> list_ex (\<lambda>slot. case slot of Value v \<Rightarrow> uninitialized v | _ \<Rightarrow> False) slots)"

definition reject_initialization_conflict :: "verification_frame \<Rightarrow> verification_frame \<Rightarrow> bool" where
  "reject_initialization_conflict left right =
     (case (normalized_slots left, normalized_slots right) of
        (Some l, Some r) \<Rightarrow>
          list_all (\<lambda>(a, b). case (a, b) of
              (Value a, Value b) \<Rightarrow> uninitialized a = uninitialized b \<and> (\<not> uninitialized a \<or> a = b)
            | _ \<Rightarrow> True) (zip l r)
      | _ \<Rightarrow> True)"

definition join_initialization_states ::
  "'i \<Rightarrow> usize \<Rightarrow> verification_state \<Rightarrow> verification_state \<Rightarrow> (('i, 'd) verification_transfer_error, verification_state) outcome" where
  "join_initialization_states instruction offset left right =
     (let fail = \<lparr>te_instruction = instruction, te_offset = offset, te_opcode = Nop, te_kind = InitializationMerge\<rparr> in
      bind_outcome (ensure fail (reject_initialization_conflict (vs_locals left) (vs_locals right))) (\<lambda>_.
      bind_outcome (ensure fail (reject_initialization_conflict (vs_stack left) (vs_stack right))) (\<lambda>_.
      Ok \<lparr>vs_locals = frame_join (vs_locals left) (vs_locals right), vs_stack = frame_join (vs_stack left) (vs_stack right)\<rparr>)))"

definition handler_entry_state ::
  "'i \<Rightarrow> usize \<Rightarrow> verification_state \<Rightarrow> reference_type \<Rightarrow> (('i, 'd) verification_transfer_error, verification_state) outcome" where
  "handler_entry_state instruction offset s exception =
     (let fail = (\<lambda>kind. \<lparr>te_instruction = instruction, te_offset = offset, te_opcode = Athrow, te_kind = kind\<rparr>) in
      if frame_has_uninitialized (vs_locals s) \<or> frame_has_uninitialized (vs_stack s) then Err (fail UninitializedHandlerEntry)
      else
        bind_outcome (map_err (\<lambda>_. fail StackBounds)
          (push (Reference exception) (frame_new OperandStack (frame_capacity (vs_stack s))))) (\<lambda>stack.
        Ok \<lparr>vs_locals = vs_locals s, vs_stack = stack\<rparr>))"

section \<open>Control\<close>

datatype verification_return_type = VoidReturn | ValueReturn verification_type

fun branch_operand :: "instruction_operand \<Rightarrow> bool" where
  "branch_operand (Branch _) = True"
| "branch_operand _ = False"

fun lookup_pairs :: "instruction_operand list \<Rightarrow> bool" where
  "lookup_pairs [] = True"
| "lookup_pairs [_] = False"
| "lookup_pairs (LookupKey _ # Branch _ # rest) = lookup_pairs rest"
| "lookup_pairs _ = False"

definition control_operands_valid :: "control_opcode \<Rightarrow> instruction_operand list \<Rightarrow> bool" where
  "control_operands_valid opcode operands =
     (if opcode \<in> {Ireturn, Lreturn, Freturn, Dreturn, Areturn, ReturnVoid} then operands = []
      else if opcode = Tableswitch then
        (case operands of
           Branch _ # TableLow low # TableHigh high # rest \<Rightarrow> high - low + 1 = int (length rest) \<and> list_all branch_operand rest
         | _ \<Rightarrow> False)
      else if opcode = Lookupswitch then (case operands of Branch _ # rest \<Rightarrow> lookup_pairs rest | _ \<Rightarrow> False)
      else (case operands of [Branch _] \<Rightarrow> True | _ \<Rightarrow> False))"

definition control_inputs :: "control_opcode \<Rightarrow> verification_type list" where
  "control_inputs opcode =
     (if opcode \<in> {Ifeq, Ifne, Iflt, Ifge, Ifgt, Ifle, Tableswitch, Lookupswitch, Ireturn} then [IntType]
      else if opcode \<in> {IfIcmpeq, IfIcmpne, IfIcmplt, IfIcmpge, IfIcmpgt, IfIcmple} then [IntType, IntType]
      else if opcode \<in> {IfAcmpeq, IfAcmpne} then [Reference Object, Reference Object]
      else if opcode \<in> {Ifnull, Ifnonnull, Areturn} then [Reference Object]
      else if opcode = Lreturn then [Long]
      else if opcode = Freturn then [Float]
      else if opcode = Dreturn then [Double]
      else [])"

definition return_compatible :: "verification_type option \<Rightarrow> verification_return_type \<Rightarrow> bool" where
  "return_compatible actual declared =
     (case (actual, declared) of
        (None, VoidReturn) \<Rightarrow> True
      | (Some a, ValueReturn d) \<Rightarrow> join_types a d = d
      | _ \<Rightarrow> False)"

definition control_kind ::
  "control_opcode \<Rightarrow> instruction_operand list \<Rightarrow> verification_state \<Rightarrow> verification_return_type \<Rightarrow>
   ('d verification_transfer_kind, verification_state) outcome" where
  "control_kind opcode operands s return_type =
     (let expected = control_inputs opcode; vals = stack_values (vs_stack s) in
      bind_outcome (ensure MalformedPreparedInput (control_operands_valid opcode operands)) (\<lambda>_.
      if length vals < length expected then Err StackBounds
      else
        (let split = length vals - length expected;
             pop = bind_outcome (map_err (\<lambda>_. StackBounds) (stack_from_values (frame_capacity (vs_stack s)) (take split vals)))
                     (\<lambda>stack. Ok (s\<lparr>vs_stack := stack\<rparr>))
         in
         bind_outcome (ensure Category (categories_match (drop split vals) expected)) (\<lambda>_.
         if opcode \<notin> {Ireturn, Lreturn, Freturn, Dreturn, Areturn, ReturnVoid} then pop
         else
           bind_outcome (if opcode = ReturnVoid then Ok None
                         else if vals = [] then Panic ''return input was checked''
                         else Ok (Some (last vals))) (\<lambda>actual_return.
           bind_outcome (ensure UninitializedUse (\<not> frame_has_uninitialized (vs_locals s) \<and> \<not> frame_has_uninitialized (vs_stack s))) (\<lambda>_.
           bind_outcome (ensure ReturnType (return_compatible actual_return return_type)) (\<lambda>_. pop)))))))"

definition transfer_control_instruction ::
  "'i prepared_instruction \<Rightarrow> usize \<Rightarrow> verification_state \<Rightarrow> verification_return_type \<Rightarrow>
   (('i, 'd) verification_transfer_error, verification_state) outcome" where
  "transfer_control_instruction instruction offset s return_type = located instruction offset
     (case pi_opcode instruction of
        Control opcode \<Rightarrow> control_kind opcode (pi_operands instruction) s return_type
      | _ \<Rightarrow> Err MalformedPreparedInput)"

section \<open>Frames without a value\<close>

definition frame_mentions :: "verification_type \<Rightarrow> verification_frame \<Rightarrow> bool" where
  "frame_mentions v frame \<longleftrightarrow> (case normalized_slots frame of None \<Rightarrow> False | Some slots \<Rightarrow> Value v \<in> set slots)"

lemma stack_values_mentions: "frame_mentions v f \<longleftrightarrow> v \<in> set (stack_values f)"
  by (auto simp: frame_mentions_def stack_values_def List.map_filter_def image_iff split: option.splits verification_slot.splits)
    (metis verification_slot.exhaust verification_slot.inject option.sel verification_slot.simps(9-11))+

lemma has_uninitialized_iff: "frame_has_uninitialized f \<longleftrightarrow> (\<exists>v. uninitialized v \<and> frame_mentions v f)"
  by (auto simp: frame_has_uninitialized_def frame_mentions_def list_ex_iff split: option.splits verification_slot.splits)

lemma uninitialized_width: "uninitialized v \<Longrightarrow> width v = Some Category1"
  by (cases v) auto

text \<open>Renaming one one-word type to another keeps pairs whole.\<close>

lemma replace_alias_ok:
  assumes "locals_ok f" "width from = Some Category1" "width to = Some Category1"
  shows "locals_ok (replace_alias from to f)" "same_shape f (replace_alias from to f)"
    "from \<noteq> to \<Longrightarrow> \<not> frame_mentions from (replace_alias from to f)"
proof -
  from assms(1) obtain slots where f: "f = Reachable Locals slots" "well_paired slots" "Value Bottom \<notin> set slots" by (cases f) auto
  let ?g = "\<lambda>slot. if slot = Value from then Value to else slot"
  have head: "is_head (?g slot) = is_head slot" for slot using assms(2,3) by (cases slot) auto
  have tail: "?g slot = Category2Tail \<longleftrightarrow> slot = Category2Tail" for slot by (cases slot) auto
  have "well_paired (map ?g slots)" using f(2) unfolding well_paired_def by (auto simp: head tail)
  moreover have "to \<noteq> Bottom" using assms(3) by auto
  then have "Value Bottom \<notin> set (map ?g slots)" using f(3) by auto
  ultimately show "locals_ok (replace_alias from to f)" by (simp add: f(1))
  show "same_shape f (replace_alias from to f)" by (simp add: f(1) same_shape_def)
  show "\<not> frame_mentions from (replace_alias from to f)" if "from \<noteq> to" using that by (auto simp: f(1) frame_mentions_def)
qed

lemma frame_capacity_replace [simp]: "frame_capacity (replace_alias from to f) = frame_capacity f"
  by (cases f) simp_all

section \<open>Popping\<close>

text \<open>Every transfer that only rebuilds the stack below its inputs keeps the state good.\<close>

lemma stack_prefix_rebuilds:
  assumes ok: "stack_ok f" and pre: "stack_values f = vs @ ws"
  shows "\<exists>f'. stack_from_values (frame_capacity f) vs = Ok f' \<and> stack_ok f' \<and> same_shape f f' \<and> stack_values f' = vs"
proof -
  from ok obtain capacity us where f: "length (slots_of us) \<le> capacity" "list_all (\<lambda>v. width v \<noteq> None) us" "stack_values f = us" "frame_capacity f = capacity"
    by (rule stack_okE)
  have "length (slots_of vs) \<le> capacity" "\<forall>v\<in>set vs. width v \<noteq> None" using f pre by (auto simp: list_all_iff)
  with stack_from_values_cases[of capacity vs] stack_from_values_ok[OF ok, of vs] f(4) show ?thesis
    by (cases "stack_from_values capacity vs") auto
qed

lemma control_kind_good:
  assumes "state_ok s"
  shows "transfer_good s (control_kind opcode operands s return_type :: ('d verification_transfer_kind, _) outcome)"
proof -
  let ?vals = "stack_values (vs_stack s)"
  have "?vals \<noteq> []" if "length (control_inputs opcode) \<le> length ?vals" "opcode \<in> {Ireturn, Lreturn, Freturn, Dreturn, Areturn}"
    using that by (auto simp: control_inputs_def)
  then show ?thesis
    using assms unfolding control_kind_def Let_def
    by (auto simp: outcome_simps intro!: transfer_good_bind transfer_good_rebuild)
qed

lemma join_frames_initialized:
  assumes wf: "wf_frame a" "wf_frame b" "same_shape a b" and ok: "reject_initialization_conflict a b"
    and v: "uninitialized v" "frame_mentions v (frame_join a b)"
  shows "(normalized_slots a \<noteq> None \<longrightarrow> frame_mentions v a) \<and> (normalized_slots b \<noteq> None \<longrightarrow> frame_mentions v b)"
proof (cases "\<exists>k l r. a = Reachable k l \<and> b = Reachable k r")
  case True
  then obtain k l r where ab: "a = Reachable k l" "b = Reachable k r" by blast
  have len: "length l = length r" using wf(3) ab by (simp add: same_shape_def)
  from v(2) obtain i where i: "i < length l" "joined_slot l r i = Value v"
    unfolding ab frame_join_slots[OF wf(1,2)[unfolded ab] len] by (auto simp: frame_mentions_def)
  then obtain x y where xy: "l ! i = Value x" "r ! i = Value y" "v = join_types x y"
    by (auto simp: joined_slot_def split: verification_slot.splits if_splits)
  have "(Value x, Value y) \<in> set (zip l r)" using i(1) xy(1,2) len by (force simp: set_zip)
  with ok have "uninitialized x = uninitialized y" "\<not> uninitialized x \<or> x = y"
    by (auto simp: reject_initialization_conflict_def ab list_all_iff)
  moreover have "uninitialized (join_types x y) \<longrightarrow> uninitialized x \<or> uninitialized y"
    by (cases x; cases y) (auto simp: join_types_def)
  ultimately have "x = y" using v(1) unfolding xy(3) by blast
  then have "x = v" "y = v" using xy(3) by simp_all
  then have "Value v \<in> set l" "Value v \<in> set r" using nth_mem[of i l] nth_mem[of i r] xy(1,2) i(1) len by simp_all
  then show ?thesis by (simp add: ab frame_mentions_def)
next
  case False
  with wf(3) v(2) show ?thesis
    by (cases a; cases b) (auto simp: same_shape_def frame_join_def frame_mentions_def)
qed

section \<open>Argument descriptors\<close>

text \<open>The argument list of a descriptor is what the printed grammar of field types says.\<close>

lemma parse_arguments_complete:
  assumes "drop c bytes = print_fields ts @ CHR '')'' # suf" "list_all wf_field ts"
  shows "parse_arguments bytes c acc = Some (acc @ map field_verification_type ts)"
  using assms
proof (induction ts arbitrary: c acc)
  case Nil
  then have "slice_get bytes c = Some (CHR '')'')" by (simp add: slice_get_drop)
  then show ?case by (simp add: parse_arguments.simps)
next
  case (Cons t ts)
  then have d: "drop c bytes = print_field t @ print_fields ts @ CHR '')'' # suf" and wf: "wf_field t" by simp_all
  from print_field_first[OF wf] d have "slice_get bytes c \<noteq> Some (CHR '')'')" by (auto simp: slice_get_drop)
  with parse_field_complete[OF d wf] Cons.IH[OF drop_shift[OF d]] Cons.prems(2) show ?case
    by (subst parse_arguments.simps) simp
qed

lemma parse_arguments_sound:
  assumes "parse_arguments bytes c acc = Some arguments"
  shows "\<exists>ts suf. list_all wf_field ts \<and> drop c bytes = print_fields ts @ CHR '')'' # suf \<and> arguments = acc @ map field_verification_type ts"
  using assms
proof (induction bytes c acc rule: parse_arguments.induct)
  case (1 bytes c acc)
  show ?case
  proof (cases "slice_get bytes c = Some (CHR '')'')")
    case True
    with "1.prems" have "arguments = acc" by (simp add: parse_arguments.simps)
    moreover from True obtain suf where "drop c bytes = CHR '')'' # suf" by (auto simp: slice_get_drop)
    ultimately show ?thesis by (intro exI[of _ "[]"] exI[of _ suf]) simp
  next
    case False
    with "1.prems" obtain v c1 where p: "parse_descriptor_type bytes c = Ok (v, c1)" "parse_arguments bytes c1 (acc @ [v]) = Some arguments"
      by (subst (asm) parse_arguments.simps) (auto split: outcome.splits)
    from parse_field_sound[OF p(1)] obtain t s where t: "wf_field t" "drop c bytes = print_field t @ s" "v = field_verification_type t"
      "c1 = c + length (print_field t)" by blast
    from "1.IH"[OF False p(1) refl p(2)] obtain ts suf where ts: "list_all wf_field ts" "drop c1 bytes = print_fields ts @ CHR '')'' # suf"
      "arguments = (acc @ [v]) @ map field_verification_type ts" by blast
    have "s = drop c1 bytes" using drop_shift[OF t(2)] t(4) by simp
    with t ts show ?thesis by (intro exI[of _ "t # ts"] exI[of _ suf]) simp
  qed
qed

lemma descriptor_arguments_iff:
  "descriptor_arguments bytes = Some arguments \<longleftrightarrow>
    (\<exists>ts suf. bytes = ''('' @ print_fields ts @ '')'' @ suf \<and> list_all wf_field ts \<and> arguments = map field_verification_type ts)"
proof
  assume run: "descriptor_arguments bytes = Some arguments"
  then have "slice_get bytes 0 = Some (CHR ''('')" by (simp add: descriptor_arguments_def split: if_splits)
  then obtain s where s: "bytes = CHR ''('' # s" by (auto simp: slice_get_drop)
  with run have "parse_arguments bytes 1 [] = Some arguments" by (simp add: descriptor_arguments_def slice_get_def)
  from parse_arguments_sound[OF this] s
  show "\<exists>ts suf. bytes = ''('' @ print_fields ts @ '')'' @ suf \<and> list_all wf_field ts \<and> arguments = map field_verification_type ts"
    by auto
next
  assume "\<exists>ts suf. bytes = ''('' @ print_fields ts @ '')'' @ suf \<and> list_all wf_field ts \<and> arguments = map field_verification_type ts"
  then obtain ts suf where ts: "bytes = ''('' @ print_fields ts @ '')'' @ suf" "list_all wf_field ts" "arguments = map field_verification_type ts"
    by blast
  then have "drop 1 bytes = print_fields ts @ CHR '')'' # suf" by simp
  from parse_arguments_complete[OF this ts(2), of "[]"] ts(1,3) show "descriptor_arguments bytes = Some arguments"
    by (simp add: descriptor_arguments_def slice_get_def)
qed

section \<open>Constructor calls\<close>

text \<open>
  The calls the verifier is to accept: an \<open>invokespecial\<close> of \<open><init>\<close> whose descriptor begins with
  a parameter list \<open>ts\<close>, on a stack that ends in the uninitialized receiver and one argument for
  each parameter, of its category; \<open>pre\<close> is the stack below the receiver.
\<close>

definition constructor_call ::
  "'i prepared_instruction \<Rightarrow> verification_state \<Rightarrow> verification_constructor \<Rightarrow> verification_type list \<Rightarrow> bool" where
  "constructor_call instruction s constructor pre \<longleftrightarrow>
     pi_opcode instruction = Invokespecial \<and> constant_operand (pi_operands instruction) \<and>
     vc_name constructor = ''<init>'' \<and> uninitialized (vc_receiver constructor) \<and>
     (\<exists>ts suf arguments. vc_descriptor constructor = ''('' @ print_fields ts @ '')'' @ suf \<and> list_all wf_field ts \<and>
        stack_values (vs_stack s) = pre @ vc_receiver constructor # arguments \<and>
        list_all2 verification_category_matches arguments (map field_verification_type ts))"

lemma categories_match_all2:
  "length actual = length wanted \<Longrightarrow> categories_match actual wanted \<longleftrightarrow> list_all2 verification_category_matches actual wanted"
  by (simp add: categories_match_def list_all2_iff list_all_iff)

abbreviation initialized_below :: "verification_constructor \<Rightarrow> verification_type list \<Rightarrow> verification_type list" where
  "initialized_below constructor pre \<equiv> map (\<lambda>v. if v = vc_receiver constructor then Reference (Class (vc_owner constructor)) else v) pre"

lemma constructor_kind_iff:
  "constructor_kind instruction s constructor = (Ok s' :: ('d verification_transfer_kind, _) outcome) \<longleftrightarrow>
    (\<exists>pre. constructor_call instruction s constructor pre \<and>
      stack_from_values (frame_capacity (vs_stack s)) (initialized_below constructor pre) = Ok (vs_stack s') \<and>
      vs_locals s' = replace_alias (vc_receiver constructor) (Reference (Class (vc_owner constructor))) (vs_locals s))"
    (is "?run = Ok s' \<longleftrightarrow> ?spec")
proof
  let ?vals = "stack_values (vs_stack s)"
  assume Ok: "?run = Ok s'"
  then obtain arguments where arg: "descriptor_arguments (vc_descriptor constructor) = Some arguments"
    by (auto simp: constructor_kind_def outcome_simps)
  define n where "n = length ?vals - length arguments - 1"
  from Ok have a: "length arguments + 1 \<le> length ?vals" "categories_match (drop (Suc n) ?vals) arguments" "?vals ! n = vc_receiver constructor"
    and st: "stack_from_values (frame_capacity (vs_stack s)) (initialized_below constructor (take n ?vals)) = Ok (vs_stack s')"
      "vs_locals s' = replace_alias (vc_receiver constructor) (Reference (Class (vc_owner constructor))) (vs_locals s)"
    by (auto simp: constructor_kind_def outcome_simps Let_def not_less arg n_def split: if_splits)
  have n: "n < length ?vals" "length (drop (Suc n) ?vals) = length arguments" using a(1) by (auto simp: n_def)
  have "?vals = take n ?vals @ vc_receiver constructor # drop (Suc n) ?vals" using id_take_nth_drop[OF n(1)] a(3) by simp
  moreover have "list_all2 verification_category_matches (drop (Suc n) ?vals) arguments"
    using categories_match_all2[OF n(2)] a(2) by blast
  moreover from arg obtain ts suf where "vc_descriptor constructor = ''('' @ print_fields ts @ '')'' @ suf" "list_all wf_field ts"
    "arguments = map field_verification_type ts" unfolding descriptor_arguments_iff by blast
  moreover have "pi_opcode instruction = Invokespecial" "constant_operand (pi_operands instruction)" "vc_name constructor = ''<init>''"
    "uninitialized (vc_receiver constructor)"
    using Ok arg a(1) by (auto simp: constructor_kind_def outcome_simps Let_def split: if_splits)
  ultimately have "constructor_call instruction s constructor (take n ?vals)" unfolding constructor_call_def by blast
  with st show ?spec by blast
next
  let ?vals = "stack_values (vs_stack s)"
  assume ?spec
  then obtain pre ts suf arguments where call: "constructor_call instruction s constructor pre"
    and d: "vc_descriptor constructor = ''('' @ print_fields ts @ '')'' @ suf" "list_all wf_field ts"
      "?vals = pre @ vc_receiver constructor # arguments" "list_all2 verification_category_matches arguments (map field_verification_type ts)"
    and st: "stack_from_values (frame_capacity (vs_stack s)) (initialized_below constructor pre) = Ok (vs_stack s')"
      "vs_locals s' = replace_alias (vc_receiver constructor) (Reference (Class (vc_owner constructor))) (vs_locals s)"
    unfolding constructor_call_def by blast
  have arg: "descriptor_arguments (vc_descriptor constructor) = Some (map field_verification_type ts)"
    unfolding descriptor_arguments_iff using d(1,2) by blast
  have len: "length ts = length arguments" using d(4) by (simp add: list_all2_conv_all_nth)
  have "categories_match arguments (map field_verification_type ts)" using categories_match_all2 d(4) len by simp
  with call st len show "?run = Ok s'"
    by (cases s') (simp add: constructor_kind_def outcome_simps arg d(3) Let_def constructor_call_def nth_append)
qed

lemma constructor_call_uninitialized: "constructor_call instruction s constructor pre \<Longrightarrow> uninitialized (vc_receiver constructor)"
  by (simp add: constructor_call_def)

lemma slots_of_same_width: "(\<And>v. v \<in> set vs \<Longrightarrow> width (f v) = width v) \<Longrightarrow> length (slots_of (map f vs)) = length (slots_of vs)"
  by (induction vs) (simp_all add: length_slots_of type_width_def)

text \<open>Below the receiver there is always room for the initialized stack.\<close>

lemma initialized_stack_rebuilds:
  assumes ok: "stack_ok (vs_stack s)" and call: "constructor_call instruction s constructor pre"
  shows "\<exists>f. stack_from_values (frame_capacity (vs_stack s)) (initialized_below constructor pre) = Ok f \<and> stack_ok f \<and>
    same_shape (vs_stack s) f \<and> stack_values f = initialized_below constructor pre"
proof -
  define new where "new = initialized_below constructor pre"
  from call obtain arguments where vals: "stack_values (vs_stack s) = pre @ vc_receiver constructor # arguments"
    unfolding constructor_call_def by blast
  from ok obtain capacity us where f: "length (slots_of us) \<le> capacity" "list_all (\<lambda>v. width v \<noteq> None) us" "stack_values (vs_stack s) = us"
      "frame_capacity (vs_stack s) = capacity"
    by (rule stack_okE)
  have w: "width (if v = vc_receiver constructor then Reference (Class (vc_owner constructor)) else v) = width v" for v
    using uninitialized_width[OF constructor_call_uninitialized[OF call]] by simp
  have "length (slots_of new) = length (slots_of pre)" unfolding new_def by (rule slots_of_same_width) (rule w)
  then have "length (slots_of new) \<le> capacity" using f vals by auto
  moreover have "\<forall>v\<in>set new. width v \<noteq> None" unfolding new_def using f(2,3) vals w by (auto simp: list_all_iff)
  ultimately show ?thesis
    unfolding new_def [symmetric] using stack_from_values_cases[of capacity new] stack_from_values_ok[OF ok, of new] f(4)
    by (cases "stack_from_values capacity new") auto
qed

section \<open>Properties\<close>

text \<open>
  C39: The verifier accepts a constructor call exactly when it is an \<open>invokespecial\<close> of \<open><init>\<close>
  whose descriptor begins with a well-formed parameter list and the stack ends in the declared
  uninitialized receiver followed by one argument of the right category for each parameter. An
  accepted call pops exactly those arguments and that receiver, keeps the invariant and the shape
  of the state, and leaves no alias of the receiver in the locals or on the stack: each one has
  become the constructed class. A refused call is located at its offset, and no call panics.
\<close>

theorem constructor_initializes:
  assumes "state_ok s"
  shows "case (transfer_constructor_instruction instruction offset s constructor :: (('i, 'd) verification_transfer_error, verification_state) outcome) of
      Ok s' \<Rightarrow> state_ok s' \<and> state_shape s s' \<and>
        \<not> frame_mentions (vc_receiver constructor) (vs_locals s') \<and> \<not> frame_mentions (vc_receiver constructor) (vs_stack s') \<and>
        vs_locals s' = replace_alias (vc_receiver constructor) (Reference (Class (vc_owner constructor))) (vs_locals s) \<and>
        (\<exists>pre. constructor_call instruction s constructor pre \<and>
          stack_values (vs_stack s') =
            map (\<lambda>v. if v = vc_receiver constructor then Reference (Class (vc_owner constructor)) else v) pre)
    | Err e \<Rightarrow> te_offset e = offset \<and> \<not> (\<exists>pre. constructor_call instruction s constructor pre)
    | Panic _ \<Rightarrow> False"
proof -
  let ?run = "constructor_kind instruction s constructor :: ('d verification_transfer_kind, _) outcome"
  let ?new = "Reference (Class (vc_owner constructor))"
  have ok: "stack_ok (vs_stack s)" "locals_ok (vs_locals s)" using assms by (simp_all add: state_ok_def)
  have np: "?run \<noteq> Panic p" for p
  proof -
    have "stack_from_values (frame_capacity (vs_stack s)) vs \<noteq> Panic p" for vs
      using stack_from_values_ok[OF ok(1), of vs] by (cases "stack_from_values (frame_capacity (vs_stack s)) vs") auto
    then show ?thesis by (auto simp: constructor_kind_def outcome_simps Let_def)
  qed
  show ?thesis
  proof (cases ?run)
    case (Ok s')
    then obtain pre where call: "constructor_call instruction s constructor pre"
      and st: "stack_from_values (frame_capacity (vs_stack s)) (initialized_below constructor pre) = Ok (vs_stack s')"
      and loc: "vs_locals s' = replace_alias (vc_receiver constructor) ?new (vs_locals s)" unfolding constructor_kind_iff by blast
    from initialized_stack_rebuilds[OF ok(1) call] st have st': "stack_ok (vs_stack s')" "same_shape (vs_stack s) (vs_stack s')"
      "stack_values (vs_stack s') = initialized_below constructor pre" by auto
    note un = constructor_call_uninitialized[OF call]
    have new: "vc_receiver constructor \<noteq> ?new" using un by (cases "vc_receiver constructor") auto
    note r = replace_alias_ok[OF ok(2) uninitialized_width[OF un], of ?new]
    have "\<not> frame_mentions (vc_receiver constructor) (vs_stack s')" unfolding stack_values_mentions st'(3) using new by auto
    moreover have "\<exists>pre. constructor_call instruction s constructor pre \<and> stack_values (vs_stack s') = initialized_below constructor pre"
      using call st'(3) by blast
    ultimately show ?thesis
      using Ok r new st'(1,2) by (simp add: transfer_constructor_instruction_def located_def state_ok_def state_shape_def loc)
  next
    case (Err e)
    have "\<not> constructor_call instruction s constructor pre" for pre
    proof
      assume call: "constructor_call instruction s constructor pre"
      from initialized_stack_rebuilds[OF ok(1) call] obtain f where
        "stack_from_values (frame_capacity (vs_stack s)) (initialized_below constructor pre) = Ok f" by blast
      with call have "?run = Ok \<lparr>vs_locals = replace_alias (vc_receiver constructor) ?new (vs_locals s), vs_stack = f\<rparr>"
        unfolding constructor_kind_iff by (intro exI[of _ pre]) simp
      with Err show False by simp
    qed
    with Err show ?thesis by (simp add: transfer_constructor_instruction_def located_def)
  next
    case (Panic p)
    with np[of p] show ?thesis by blast
  qed
qed

text \<open>The state after \<open>new\<close>, \<open>dup\<close> and one pushed argument, with the alias also in a local.\<close>

definition allocated_state :: verification_state where
  "allocated_state = \<lparr>vs_locals = Reachable Locals [Value (Uninitialized 3), UnusableSlot],
     vs_stack = Reachable OperandStack [Value (Uninitialized 3), Value (Uninitialized 3), Value IntType, UnusableSlot]\<rparr>"

definition sample_constructor :: verification_constructor where
  "sample_constructor = \<lparr>vc_owner = ''A'', vc_name = ''<init>'', vc_descriptor = ''(I)V'', vc_receiver = Uninitialized 3\<rparr>"

lemma allocated_ok: "state_ok allocated_state"
  by (simp add: allocated_state_def state_ok_def stack_ok_def well_paired_def stack_values_def List.map_filter_def
      packed_def eval_nat_numeral less_Suc_eq)

theorem constructor_initializes_witness:
  "case (transfer_constructor_instruction (sample_instruction Invokespecial [Constant 1]) 9 allocated_state sample_constructor
      :: ((nat, unit) verification_transfer_error, verification_state) outcome) of
     Ok s' \<Rightarrow> \<not> frame_mentions (Uninitialized 3) (vs_locals s') \<and> stack_values (vs_stack s') = [Reference (Class ''A'')] | _ \<Rightarrow> False"
proof -
  let ?run = "transfer_constructor_instruction (sample_instruction Invokespecial [Constant 1]) 9 allocated_state sample_constructor
    :: ((nat, unit) verification_transfer_error, verification_state) outcome"
  have "case ?run of Ok s' \<Rightarrow> stack_values (vs_stack s') = [Reference (Class ''A'')] | _ \<Rightarrow> False" by code_simp
  with constructor_initializes[OF allocated_ok, where instruction = "sample_instruction Invokespecial [Constant 1]" and offset = 9
      and constructor = sample_constructor and 'd = unit]
  show ?thesis by (auto simp: sample_constructor_def split: outcome.splits)
qed

text \<open>
  A merge the verifier accepts never hides a live allocation: an uninitialized value in the
  merged locals or stack stands in both of the frames that met there, as far as they are reachable.
\<close>

theorem initialization_merge_sound:
  assumes "wf_frame (vs_locals a)" "wf_frame (vs_locals b)" "same_shape (vs_locals a) (vs_locals b)"
    "wf_frame (vs_stack a)" "wf_frame (vs_stack b)" "same_shape (vs_stack a) (vs_stack b)"
    "join_initialization_states instruction offset a b = (Ok s :: (('i, 'd) verification_transfer_error, _) outcome)"
    "frame \<in> {vs_locals, vs_stack}" "uninitialized v" "frame_mentions v (frame s)"
  shows "(normalized_slots (frame a) \<noteq> None \<longrightarrow> frame_mentions v (frame a)) \<and> (normalized_slots (frame b) \<noteq> None \<longrightarrow> frame_mentions v (frame b))"
proof -
  from assms(7) have s: "s = \<lparr>vs_locals = frame_join (vs_locals a) (vs_locals b), vs_stack = frame_join (vs_stack a) (vs_stack b)\<rparr>"
    and ok: "reject_initialization_conflict (vs_locals a) (vs_locals b)" "reject_initialization_conflict (vs_stack a) (vs_stack b)"
    by (auto simp: join_initialization_states_def outcome_simps Let_def)
  from assms(8) consider "frame = vs_locals" | "frame = vs_stack" by blast
  then show ?thesis
  proof cases
    case 1
    with join_frames_initialized[OF assms(1-3) ok(1) assms(9)] assms(10) s show ?thesis by simp
  next
    case 2
    with join_frames_initialized[OF assms(4-6) ok(2) assms(9)] assms(10) s show ?thesis by simp
  qed
qed

theorem initialization_merge_sound_witness: "frame_mentions (Uninitialized 3) (vs_locals allocated_state)"
proof -
  let ?join = "join_initialization_states 1 2 allocated_state allocated_state :: ((nat, unit) verification_transfer_error, _) outcome"
  have "case ?join of Ok s \<Rightarrow> frame_mentions (Uninitialized 3) (vs_locals s) | _ \<Rightarrow> False" by code_simp
  then obtain s where s: "?join = Ok s" "frame_mentions (Uninitialized 3) (vs_locals s)" by (auto split: outcome.splits)
  have wf: "wf_frame (vs_locals allocated_state)" "same_shape (vs_locals allocated_state) (vs_locals allocated_state)"
    "wf_frame (vs_stack allocated_state)" "same_shape (vs_stack allocated_state) (vs_stack allocated_state)"
    by (auto simp: allocated_state_def same_shape_def well_paired_def less_Suc_eq)
  from initialization_merge_sound[OF wf(1,1,2,3,3,4) s(1), of vs_locals "Uninitialized 3"] s(2) show ?thesis by (simp add: allocated_state_def)
qed

text \<open>A handler starts with no uninitialized value and the exception alone on its stack.\<close>

lemma handler_entry_clean:
  assumes "handler_entry_state instruction offset s exception = (Ok h :: (('i, 'd) verification_transfer_error, _) outcome)"
  shows "vs_locals h = vs_locals s \<and> \<not> frame_has_uninitialized (vs_locals h) \<and> stack_values (vs_stack h) = [Reference exception]"
proof -
  from assms have h: "vs_locals h = vs_locals s" "\<not> frame_has_uninitialized (vs_locals s)"
    "push (Reference exception) (frame_new OperandStack (frame_capacity (vs_stack s))) = Ok (vs_stack h)"
    by (auto simp: handler_entry_state_def outcome_simps Let_def split: if_splits)
  have "stack_ok (frame_new OperandStack n)" "stack_values (frame_new OperandStack n) = []" for n
    using stack_ok_packed[of "[]" n] stack_values_packed[of OperandStack n "[]"] by (simp_all add: frame_new_def packed_def)
  with push_ok[of "frame_new OperandStack (frame_capacity (vs_stack s))" "Reference exception"] h show ?thesis by simp
qed

text \<open>
  Branches, switches and returns never panic and keep the invariant and the shape of the
  state. A return is accepted only when no uninitialized value is live and the returned value is
  below the declared type in the lattice of verification types.
\<close>

theorem control_transfer_safe:
  assumes "state_ok s"
  shows "case (transfer_control_instruction instruction offset s return_type :: (('i, 'd) verification_transfer_error, verification_state) outcome) of
      Ok s' \<Rightarrow> state_ok s' \<and> state_shape s s' \<and> vs_locals s' = vs_locals s \<and>
        (\<exists>popped. stack_values (vs_stack s) = stack_values (vs_stack s') @ popped) \<and>
        (pi_opcode instruction = Control Areturn \<longrightarrow>
          (\<forall>v. uninitialized v \<longrightarrow> \<not> frame_mentions v (vs_locals s) \<and> \<not> frame_mentions v (vs_stack s)) \<and>
          (\<exists>declared. return_type = ValueReturn declared \<and> join_types (last (stack_values (vs_stack s))) declared = declared))
    | Err e \<Rightarrow> te_offset e = offset \<and> te_opcode e = pi_opcode instruction
    | Panic _ \<Rightarrow> False"
proof (cases "pi_opcode instruction")
  case (Control opcode)
  let ?run = "control_kind opcode (pi_operands instruction) s return_type :: ('d verification_transfer_kind, _) outcome"
  note good = control_kind_good[OF assms, of opcode "pi_operands instruction" return_type, where 'd = 'd]
  have run: "(transfer_control_instruction instruction offset s return_type :: (('i, 'd) verification_transfer_error, verification_state) outcome) = located instruction offset ?run"
    by (simp add: transfer_control_instruction_def Control)
  have ok: "stack_ok (vs_stack s)" using assms by (simp add: state_ok_def)
  show ?thesis
  proof (cases ?run)
    case (Ok s')
    let ?split = "length (stack_values (vs_stack s)) - length (control_inputs opcode)"
    from Ok have loc: "vs_locals s' = vs_locals s"
      and st: "stack_from_values (frame_capacity (vs_stack s)) (take ?split (stack_values (vs_stack s))) = Ok (vs_stack s')"
      by (auto simp: control_kind_def outcome_simps Let_def split: if_splits)
    from stack_from_values_ok[OF ok, of "take ?split (stack_values (vs_stack s))"] st
    have "stack_values (vs_stack s') = take ?split (stack_values (vs_stack s))" by simp
    then have pop: "\<exists>popped. stack_values (vs_stack s) = stack_values (vs_stack s') @ popped" by (metis append_take_drop_id)
    have ret: "\<not> frame_has_uninitialized (vs_locals s) \<and> \<not> frame_has_uninitialized (vs_stack s) \<and>
        (\<exists>declared. return_type = ValueReturn declared \<and> join_types (last (stack_values (vs_stack s))) declared = declared)" if "opcode = Areturn"
      using Ok that by (auto simp: control_kind_def outcome_simps Let_def return_compatible_def split: if_splits verification_return_type.splits)
    show ?thesis unfolding run using Ok good loc pop ret Control by (simp add: located_def has_uninitialized_iff)
  qed (use good run in \<open>simp_all add: located_def\<close>)
qed (simp_all add: transfer_control_instruction_def located_def)

theorem control_transfer_safe_witness:
  "case (transfer_control_instruction (sample_instruction (Control Lreturn) []) 5 sample_state (ValueReturn Long)
      :: ((nat, unit) verification_transfer_error, verification_state) outcome) of
     Ok s' \<Rightarrow> state_ok s' \<and> vs_locals s' = vs_locals sample_state \<and> stack_values (vs_stack s') = [Null] | _ \<Rightarrow> False"
proof -
  let ?run = "transfer_control_instruction (sample_instruction (Control Lreturn) []) 5 sample_state (ValueReturn Long)
    :: ((nat, unit) verification_transfer_error, verification_state) outcome"
  have "case ?run of Ok s' \<Rightarrow> stack_values (vs_stack s') = [Null] | _ \<Rightarrow> False" by code_simp
  with control_transfer_safe[OF sample_ok, where instruction = "sample_instruction (Control Lreturn) []" and offset = 5
      and return_type = "ValueReturn Long" and 'd = unit]
  show ?thesis by (simp split: outcome.splits)
qed

end
