(* ===== verification/Machine_Store.thy ===== *)
theory Machine_Store
  imports Prelude
begin

text \<open>
  The bounded storage of the decoded-instruction machine: the unit-accounted operand stack of
  \<open>sim-lib-machine/src/stack.rs\<close>, the indexed slot file of \<open>slots.rs\<close> and the logical stack
  shuffles of \<open>shuffle.rs\<close>. The trait \<open>ValueWidthPolicy\<close> of \<open>lib.rs\<close> is the argument
  \<open>width\<close> of the operations. A vector of the source is a list with its last element at the end;
  slicing and subtraction that the source leaves unchecked end in \<open>Panic\<close>.
\<close>

section \<open>Bounded last-in first-out stores\<close>

text \<open>
  What the operand stack and the activation stack both promise: a push either appends one element
  or refuses, a pop removes the last one. The lemmas on whole sequences of pushes are proved here
  once.
\<close>

locale bounded_lifo =
  fixes inv :: "'s \<Rightarrow> bool"
    and contents :: "'s \<Rightarrow> 'a list"
    and fits :: "'a list \<Rightarrow> 's \<Rightarrow> bool"
    and push :: "'a \<Rightarrow> 's \<Rightarrow> ('e, 's) outcome"
    and pop :: "'s \<Rightarrow> ('a \<times> 's) option"
  assumes push_fits: "inv s \<Longrightarrow> fits [a] s \<Longrightarrow>
      \<exists>s'. push a s = Ok s' \<and> inv s' \<and> contents s' = contents s @ [a] \<and>
           (\<forall>xs. fits xs s' \<longleftrightarrow> fits (a # xs) s)"
    and push_refuses: "inv s \<Longrightarrow> \<not> fits [a] s \<Longrightarrow> \<exists>e. push a s = Err e"
    and pop_last: "inv s \<Longrightarrow> contents s = xs @ [a] \<Longrightarrow>
      \<exists>s'. pop s = Some (a, s') \<and> inv s' \<and> contents s' = xs"
    and pop_empty: "inv s \<Longrightarrow> contents s = [] \<Longrightarrow> pop s = None"
    and fits_Nil: "inv s \<Longrightarrow> fits [] s"
    and fits_head: "inv s \<Longrightarrow> fits (a # xs) s \<Longrightarrow> fits [a] s"
begin

lemma push_all_fits:
  assumes "inv s" "fits xs s"
  shows "\<exists>s'. for_each push xs s = Ok s' \<and> inv s' \<and> contents s' = contents s @ xs"
  using assms
proof (induction xs arbitrary: s)
  case (Cons x xs)
  from push_fits[OF Cons.prems(1) fits_head[OF Cons.prems]]
  obtain u where u: "push x s = Ok u" "inv u" "contents u = contents s @ [x]" "fits xs u"
    using Cons.prems(2) by auto
  from Cons.IH[OF u(2,4)] u(1,3) show ?case by auto
qed simp

lemma push_all_refuses:
  assumes "inv s" "\<not> fits xs s"
  shows "\<exists>e. for_each push xs s = Err e"
  using assms
proof (induction xs arbitrary: s)
  case Nil
  then show ?case using fits_Nil by simp
next
  case (Cons x xs)
  show ?case
  proof (cases "fits [x] s")
    case True
    with push_fits[OF Cons.prems(1)] obtain u where "push x s = Ok u" "inv u" "\<not> fits xs u"
      using Cons.prems(2) by auto
    then show ?thesis using Cons.IH by auto
  next
    case False
    then show ?thesis using push_refuses[OF Cons.prems(1) False] by auto
  qed
qed

lemma push_pop:
  assumes "inv s" "push a s = Ok s'"
  shows "\<exists>t. pop s' = Some (a, t) \<and> inv t \<and> contents t = contents s"
proof -
  have "fits [a] s" using push_refuses[OF assms(1), of a] assms(2) by auto
  with push_fits[OF assms(1), of a] assms(2) have "inv s'" "contents s' = contents s @ [a]" by auto
  then show ?thesis by (rule pop_last)
qed

end

section \<open>Checked arithmetic\<close>

definition filter_option :: "('a \<Rightarrow> bool) \<Rightarrow> 'a option \<Rightarrow> 'a option" where
  "filter_option p x = (case x of Some a \<Rightarrow> if p a then Some a else None | None \<Rightarrow> None)"

definition sub_or_panic :: "usize \<Rightarrow> usize \<Rightarrow> ('e, usize) outcome" where
  "sub_or_panic a b = (if b \<le> a then Ok (a - b) else Panic ''attempt to subtract with overflow'')"

lemma checked_add_filter [outcome_simps]:
  "filter_option (\<lambda>n. n \<le> limit) (checked_add a b) =
     (if a + b \<le> usize_max \<and> a + b \<le> limit then Some (a + b) else None)"
  by (simp add: filter_option_def checked_add_def)

section \<open>The operand stack (stack.rs)\<close>

datatype stack_error =
  StackOverflow (overflow_depth: usize) (overflow_width: usize) (overflow_limit: usize)
| StackUnderflow usize
| StackZeroWidth usize

record 'v unit_stack =
  us_values :: "'v list"
  us_depth :: usize
  us_limit :: usize

definition stack_new :: "usize \<Rightarrow> 'v unit_stack" where
  "stack_new limit = \<lparr>us_values = [], us_depth = 0, us_limit = limit\<rparr>"

definition stack_is_empty :: "'v unit_stack \<Rightarrow> bool" where
  "stack_is_empty s = (us_values s = [])"

definition stack_top :: "'v unit_stack \<Rightarrow> (stack_error, 'v) outcome" where
  "stack_top s = ok_or (StackUnderflow (us_depth s))
     (if us_values s = [] then None else Some (last (us_values s)))"

definition stack_visit :: "('v \<Rightarrow> 'b \<Rightarrow> 'b) \<Rightarrow> 'v unit_stack \<Rightarrow> 'b \<Rightarrow> 'b" where
  "stack_visit visit s = fold visit (us_values s)"

definition stack_push :: "('v \<Rightarrow> usize) \<Rightarrow> 'v \<Rightarrow> 'v unit_stack \<Rightarrow> (stack_error, 'v unit_stack) outcome" where
  "stack_push width v s =
     (let w = width v in
      if w = 0 then Err (StackZeroWidth (us_depth s))
      else bind_outcome
        (ok_or (StackOverflow (us_depth s) w (us_limit s))
           (filter_option (\<lambda>n. n \<le> us_limit s) (checked_add (us_depth s) w)))
        (\<lambda>depth'. Ok (s\<lparr>us_values := us_values s @ [v], us_depth := depth'\<rparr>)))"

definition stack_pop :: "('v \<Rightarrow> usize) \<Rightarrow> 'v unit_stack \<Rightarrow> (stack_error, 'v \<times> 'v unit_stack) outcome" where
  "stack_pop width s =
     (if us_values s = [] then Err (StackUnderflow (us_depth s))
      else let v = last (us_values s) in
        bind_outcome (sub_or_panic (us_depth s) (width v))
          (\<lambda>depth'. Ok (v, s\<lparr>us_values := butlast (us_values s), us_depth := depth'\<rparr>)))"

lemma stack_pop_shorter [termination_simp]:
  "stack_pop width s = Ok (v, s') \<Longrightarrow> length (us_values s') < length (us_values s)"
  by (auto simp: stack_pop_def Let_def outcome_simps split: if_splits)

function stack_clear :: "('v \<Rightarrow> usize) \<Rightarrow> 'v unit_stack \<Rightarrow> (stack_error, 'v unit_stack) outcome" where
  "stack_clear width s =
     (case stack_pop width s of
        Ok (v, s') \<Rightarrow> stack_clear width s'
      | Err _ \<Rightarrow> Ok s
      | Panic p \<Rightarrow> Panic p)"
  by pat_completeness auto

termination
  by (relation "measure (\<lambda>(width, s). length (us_values s))") (auto simp: stack_pop_shorter)

declare stack_clear.simps [simp del]

text \<open>The invariant of the stack: the depth is the total width of its values, within the limit.\<close>

definition unit_stack_ok :: "('v \<Rightarrow> usize) \<Rightarrow> 'v unit_stack \<Rightarrow> bool" where
  "unit_stack_ok width s \<longleftrightarrow>
     us_depth s = sum_list (map width (us_values s)) \<and> us_depth s \<le> us_limit s \<and>
     us_limit s \<le> usize_max \<and> (\<forall>v \<in> set (us_values s). 0 < width v)"

definition stack_fits :: "('v \<Rightarrow> usize) \<Rightarrow> 'v list \<Rightarrow> 'v unit_stack \<Rightarrow> bool" where
  "stack_fits width vs s \<longleftrightarrow>
     (\<forall>v \<in> set vs. 0 < width v) \<and> us_depth s + sum_list (map width vs) \<le> us_limit s"

lemma stack_new_ok [simp]: "limit \<le> usize_max \<Longrightarrow> unit_stack_ok width (stack_new limit)"
  by (simp add: unit_stack_ok_def stack_new_def)

lemma stack_push_Ok_iff:
  "unit_stack_ok width s \<Longrightarrow> stack_push width v s = Ok s' \<longleftrightarrow>
     stack_fits width [v] s \<and>
     s' = s\<lparr>us_values := us_values s @ [v], us_depth := us_depth s + width v\<rparr>"
  by (auto simp: stack_push_def stack_fits_def unit_stack_ok_def Let_def outcome_simps split: if_splits)

lemma stack_push_refuses:
  "unit_stack_ok width s \<Longrightarrow> \<not> stack_fits width [v] s \<Longrightarrow>
     stack_push width v s =
       Err (if width v = 0 then StackZeroWidth (us_depth s)
            else StackOverflow (us_depth s) (width v) (us_limit s))"
  by (auto simp: stack_push_def stack_fits_def unit_stack_ok_def Let_def outcome_simps)

lemma stack_pop_last:
  assumes "unit_stack_ok width s" "us_values s = vs @ [v]"
  shows "stack_pop width s = Ok (v, s\<lparr>us_values := vs, us_depth := us_depth s - width v\<rparr>)"
    and "unit_stack_ok width (s\<lparr>us_values := vs, us_depth := us_depth s - width v\<rparr>)"
  using assms by (auto simp: stack_pop_def unit_stack_ok_def sub_or_panic_def)

definition stack_pop_option :: "('v \<Rightarrow> usize) \<Rightarrow> 'v unit_stack \<Rightarrow> ('v \<times> 'v unit_stack) option" where
  "stack_pop_option width s = (case stack_pop width s of Ok r \<Rightarrow> Some r | _ \<Rightarrow> None)"

interpretation unit_stack: bounded_lifo "unit_stack_ok width" us_values "stack_fits width"
  "stack_push width" "stack_pop_option width"
proof
  fix s :: "'a unit_stack" and a :: 'a and xs :: "'a list"
  assume ok: "unit_stack_ok width s"
  show "\<exists>s'. stack_push width a s = Ok s' \<and> unit_stack_ok width s' \<and> us_values s' = us_values s @ [a] \<and>
         (\<forall>xs. stack_fits width xs s' = stack_fits width (a # xs) s)" if "stack_fits width [a] s"
    using ok that by (auto simp: stack_push_Ok_iff) (auto simp: unit_stack_ok_def stack_fits_def add_ac)
  show "\<exists>e. stack_push width a s = Err e" if "\<not> stack_fits width [a] s"
    using stack_push_refuses[OF ok that] by blast
  show "\<exists>s'. stack_pop_option width s = Some (a, s') \<and> unit_stack_ok width s' \<and> us_values s' = xs"
    if "us_values s = xs @ [a]"
    using stack_pop_last[OF ok that] by (simp add: stack_pop_option_def)
  show "stack_pop_option width s = None" if "us_values s = []"
    using that by (simp add: stack_pop_option_def stack_pop_def)
  show "stack_fits width [] s" using ok by (simp add: stack_fits_def unit_stack_ok_def)
  show "stack_fits width [a] s" if "stack_fits width (a # xs) s"
    using that by (auto simp: stack_fits_def)
qed

lemma stack_clear_empties:
  "unit_stack_ok width s \<Longrightarrow> stack_clear width s = Ok (stack_new (us_limit s))"
proof (induction "us_values s" arbitrary: s rule: rev_induct)
  case Nil
  then have "s = stack_new (us_limit s)" by (simp add: stack_new_def unit_stack_ok_def)
  with Nil show ?case by (subst stack_clear.simps) (simp add: stack_pop_def)
next
  case (snoc v vs)
  from stack_pop_last[OF snoc.prems snoc.hyps(2)[symmetric]] show ?case
    by (subst stack_clear.simps) (simp add: snoc.hyps(1))
qed

section \<open>The slot file (slots.rs)\<close>

record span =
  span_start :: usize
  span_width :: usize

datatype slot_error =
  SlotOverflow (requested_slot: usize) (requested_width: usize) (slot_file_limit: usize)
| Uninitialized usize
| SlotZeroWidth usize

record 'v slot_file =
  sf_values :: "'v option list"
  sf_occupancy :: "span option list"

definition slot_file_new :: "usize \<Rightarrow> 'v slot_file" where
  "slot_file_new limit = \<lparr>sf_values = replicate limit None, sf_occupancy = replicate limit None\<rparr>"

definition slot_limit :: "'v slot_file \<Rightarrow> usize" where
  "slot_limit f = length (sf_occupancy f)"

definition get_nested :: "'a option list \<Rightarrow> usize \<Rightarrow> 'a option" where
  "get_nested xs i = (if i < length xs then xs ! i else None)"

definition slot_load :: "usize \<Rightarrow> 'v slot_file \<Rightarrow> (slot_error, 'v) outcome" where
  "slot_load slot f = ok_or (Uninitialized slot) (get_nested (sf_values f) slot)"

definition slot_is_initialized :: "usize \<Rightarrow> 'v slot_file \<Rightarrow> bool" where
  "slot_is_initialized slot f = (get_nested (sf_occupancy f) slot \<noteq> None)"

definition slot_visit :: "('v \<Rightarrow> 'b \<Rightarrow> 'b) \<Rightarrow> 'v slot_file \<Rightarrow> 'b \<Rightarrow> 'b" where
  "slot_visit visit f = fold visit (List.map_filter id (sf_values f))"

text \<open>\<open>xs[a..b].fill(x)\<close>: the range must lie in the vector.\<close>

definition fill_range :: "usize \<Rightarrow> usize \<Rightarrow> 'a \<Rightarrow> 'a list \<Rightarrow> ('e, 'a list) outcome" where
  "fill_range a b x xs =
     (if a \<le> b \<and> b \<le> length xs then Ok (take a xs @ replicate (b - a) x @ drop b xs)
      else Panic ''range out of bounds'')"

definition release_span :: "span \<Rightarrow> 'v slot_file \<Rightarrow> (slot_error, 'v option \<times> 'v slot_file) outcome" where
  "release_span sp f =
     (if span_start sp + span_width sp > usize_max then Panic ''attempt to add with overflow''
      else bind_outcome (fill_range (span_start sp) (span_start sp + span_width sp) None (sf_occupancy f))
        (\<lambda>occ. if span_start sp < length (sf_values f)
               then Ok (sf_values f ! span_start sp,
                        f\<lparr>sf_values := (sf_values f)[span_start sp := None], sf_occupancy := occ\<rparr>)
               else Panic ''index out of bounds''))"

definition overlapping_spans :: "usize \<Rightarrow> usize \<Rightarrow> 'v slot_file \<Rightarrow> span list" where
  "overlapping_spans slot stop f =
     remdups_adj (sort_key span_start (List.map_filter id (take (stop - slot) (drop slot (sf_occupancy f)))))"

definition slot_store :: "('v \<Rightarrow> usize) \<Rightarrow> usize \<Rightarrow> 'v \<Rightarrow> 'v slot_file \<Rightarrow> (slot_error, 'v slot_file) outcome" where
  "slot_store width slot v f =
     (let w = width v in
      if w = 0 then Err (SlotZeroWidth slot)
      else bind_outcome
        (ok_or (SlotOverflow slot w (slot_limit f))
           (filter_option (\<lambda>e. e \<le> slot_limit f) (checked_add slot w)))
        (\<lambda>stop. bind_outcome
           (for_each (\<lambda>sp g. bind_outcome (release_span sp g) (\<lambda>(_, g'). Ok g')) (overlapping_spans slot stop f) f)
           (\<lambda>g. if slot < length (sf_values g)
                then bind_outcome (fill_range slot stop (Some \<lparr>span_start = slot, span_width = w\<rparr>) (sf_occupancy g))
                  (\<lambda>occ. Ok (g\<lparr>sf_values := (sf_values g)[slot := Some v], sf_occupancy := occ\<rparr>))
                else Panic ''index out of bounds'')))"

definition slot_release :: "usize \<Rightarrow> 'v slot_file \<Rightarrow> (slot_error, 'v \<times> 'v slot_file) outcome" where
  "slot_release slot f =
     bind_outcome (ok_or (Uninitialized slot) (get_nested (sf_occupancy f) slot))
       (\<lambda>sp. bind_outcome (release_span sp f)
          (\<lambda>(taken, g). bind_outcome (ok_or (Uninitialized slot) taken) (\<lambda>v. Ok (v, g))))"

text \<open>
  The invariant: a unit is occupied by a span exactly when a value of that width starts at the
  span's first slot and the span covers the unit. The spans of two values are therefore disjoint.
\<close>

definition starts_value :: "('v \<Rightarrow> usize) \<Rightarrow> 'v option list \<Rightarrow> span \<Rightarrow> bool" where
  "starts_value width vals sp \<longleftrightarrow>
     (\<exists>v. get_nested vals (span_start sp) = Some v \<and> width v = span_width sp)"

definition in_span :: "usize \<Rightarrow> span \<Rightarrow> bool" where
  "in_span i sp \<longleftrightarrow> span_start sp \<le> i \<and> i < span_start sp + span_width sp"

definition slot_file_ok :: "('v \<Rightarrow> usize) \<Rightarrow> 'v slot_file \<Rightarrow> bool" where
  "slot_file_ok width f \<longleftrightarrow>
     length (sf_values f) = slot_limit f \<and> slot_limit f \<le> usize_max \<and>
     (\<forall>i v. get_nested (sf_values f) i = Some v \<longrightarrow> 0 < width v \<and> i + width v \<le> slot_limit f) \<and>
     (\<forall>i < slot_limit f. \<forall>sp. sf_occupancy f ! i = Some sp \<longleftrightarrow> in_span i sp \<and> starts_value width (sf_values f) sp)"

text \<open>The abstract contents: which value starts at which slot.\<close>

definition slot_contents :: "'v slot_file \<Rightarrow> usize \<Rightarrow> 'v option" where
  "slot_contents f i = get_nested (sf_values f) i"

definition overlaps_range :: "('v \<Rightarrow> usize) \<Rightarrow> usize \<Rightarrow> 'v \<Rightarrow> usize \<Rightarrow> usize \<Rightarrow> bool" where
  "overlaps_range width i v a b \<longleftrightarrow> i < b \<and> a < i + width v"

definition store_contents :: "('v \<Rightarrow> usize) \<Rightarrow> usize \<Rightarrow> 'v \<Rightarrow> (usize \<Rightarrow> 'v option) \<Rightarrow> usize \<Rightarrow> 'v option" where
  "store_contents width slot v m = (\<lambda>i.
     if i = slot then Some v
     else case m i of
       Some u \<Rightarrow> if overlaps_range width i u slot (slot + width v) then None else Some u
     | None \<Rightarrow> None)"

lemma get_nested_update [simp]:
  "get_nested (xs[j := x]) i = (if i = j \<and> j < length xs then x else get_nested xs i)"
  by (auto simp: get_nested_def)

lemma fill_range_nth:
  assumes "fill_range a b x xs = Ok ys"
  shows "length ys = length xs"
    and "i < length xs \<Longrightarrow> ys ! i = (if a \<le> i \<and> i < b then x else xs ! i)"
  using assms by (auto simp: fill_range_def nth_append min_def split: if_splits)

lemma slot_file_new_ok: "limit \<le> usize_max \<Longrightarrow> slot_file_ok width (slot_file_new limit)"
  by (auto simp: slot_file_ok_def slot_file_new_def slot_limit_def get_nested_def starts_value_def split: if_splits)

text \<open>Releasing the span of an initialized value removes exactly that value.\<close>

lemma starts_value_at [simp]:
  "starts_value width vals \<lparr>span_start = s, span_width = w\<rparr> \<longleftrightarrow> (\<exists>v. get_nested vals s = Some v \<and> width v = w)"
  by (simp add: starts_value_def)

lemma slot_value_bounds:
  assumes "slot_file_ok width f" "get_nested (sf_values f) i = Some v"
  shows "0 < width v" "i + width v \<le> slot_limit f"
  using assms by (auto simp: slot_file_ok_def)

lemma disjoint_spans:
  assumes "slot_file_ok width f" "starts_value width (sf_values f) sp" "starts_value width (sf_values f) sq"
    and "in_span i sp" "in_span i sq"
  shows "sp = sq"
proof -
  have "i < slot_limit f"
    using assms(1,2,4) by (fastforce simp: slot_file_ok_def starts_value_def in_span_def)
  with assms have "sf_occupancy f ! i = Some sp" "sf_occupancy f ! i = Some sq"
    by (simp_all add: slot_file_ok_def)
  then show ?thesis by simp
qed

lemma release_span_valid:
  assumes ok: "slot_file_ok width f" and sp: "starts_value width (sf_values f) sp"
  shows "\<exists>f'. release_span sp f = Ok (get_nested (sf_values f) (span_start sp), f') \<and> slot_file_ok width f' \<and>
           sf_values f' = (sf_values f)[span_start sp := None]"
proof -
  obtain v where v: "get_nested (sf_values f) (span_start sp) = Some v" "width v = span_width sp"
    using sp by (auto simp: starts_value_def)
  have len: "length (sf_values f) = slot_limit f" using ok by (simp add: slot_file_ok_def)
  have bound: "span_start sp + span_width sp \<le> slot_limit f" "slot_limit f \<le> usize_max" "0 < span_width sp"
    using slot_value_bounds[OF ok v(1)] v(2) ok by (auto simp: slot_file_ok_def)
  have start: "span_start sp < slot_limit f" using bound by simp
  have "\<exists>occ. fill_range (span_start sp) (span_start sp + span_width sp) None (sf_occupancy f) = (Ok occ :: (slot_error, span option list) outcome)"
    using bound by (simp add: fill_range_def slot_limit_def)
  then obtain occ where occ: "fill_range (span_start sp) (span_start sp + span_width sp) None (sf_occupancy f) = (Ok occ :: (slot_error, span option list) outcome)"
    by blast
  note occ_nth = fill_range_nth[OF occ]
  let ?f = "f\<lparr>sf_values := (sf_values f)[span_start sp := None], sf_occupancy := occ\<rparr>"
  have lim: "slot_limit ?f = slot_limit f" using occ_nth(1) by (simp add: slot_limit_def)
  have starts: "starts_value width (sf_values ?f) sq \<longleftrightarrow> starts_value width (sf_values f) sq \<and> sq \<noteq> sp" for sq
  proof -
    have "sq = sp" if "span_start sq = span_start sp" "starts_value width (sf_values f) sq"
      using that v by (auto simp: starts_value_def intro: span.equality)
    then show ?thesis using start len by (auto simp: starts_value_def)
  qed
  have "slot_file_ok width ?f"
    unfolding slot_file_ok_def lim starts
  proof (intro conjI allI impI)
    show "length (sf_values ?f) = slot_limit f" using len by simp
    show "slot_limit f \<le> usize_max" by (rule bound)
    fix i u assume "get_nested (sf_values ?f) i = Some u"
    then have "get_nested (sf_values f) i = Some u" by (simp split: if_splits)
    then show "0 < width u" "i + width u \<le> slot_limit f" using ok by (auto simp: slot_file_ok_def)
  next
    fix i sq assume i: "i < slot_limit f"
    have old: "sf_occupancy f ! i = Some sq \<longleftrightarrow> in_span i sq \<and> starts_value width (sf_values f) sq"
      using ok i by (simp add: slot_file_ok_def)
    have new: "occ ! i = (if in_span i sp then None else sf_occupancy f ! i)"
      using occ_nth(2)[of i] i by (simp add: slot_limit_def in_span_def)
    show "sf_occupancy ?f ! i = Some sq \<longleftrightarrow> in_span i sq \<and> starts_value width (sf_values f) sq \<and> sq \<noteq> sp"
      using old new disjoint_spans[OF ok sp, of sq i] by auto
  qed
  moreover have "release_span sp f = Ok (get_nested (sf_values f) (span_start sp), ?f)"
    using occ bound start len by (simp add: release_span_def get_nested_def)
  ultimately show ?thesis by auto
qed

lemma release_spans_valid:
  assumes "slot_file_ok width f" "distinct (map span_start sps)" "\<forall>sp \<in> set sps. starts_value width (sf_values f) sp"
  shows "\<exists>f'. for_each (\<lambda>sp g. bind_outcome (release_span sp g) (\<lambda>(_, g'). Ok g')) sps f = Ok f' \<and>
           slot_file_ok width f' \<and> slot_limit f' = slot_limit f \<and>
           (\<forall>i. get_nested (sf_values f') i =
                (if i \<in> span_start ` set sps then None else get_nested (sf_values f) i))"
  using assms
proof (induction sps arbitrary: f)
  case (Cons sp sps)
  have sp: "starts_value width (sf_values f) sp" using Cons.prems(3) by simp
  obtain g where g: "release_span sp f = Ok (get_nested (sf_values f) (span_start sp), g)" "slot_file_ok width g"
    "sf_values g = (sf_values f)[span_start sp := None]"
    using release_span_valid[OF Cons.prems(1) sp] by blast
  have lim: "slot_limit g = slot_limit f"
    using g(2,3) Cons.prems(1) by (simp add: slot_file_ok_def)
  have "span_start sp \<notin> span_start ` set sps" using Cons.prems(2) by simp
  then have "\<forall>sq \<in> set sps. span_start sq \<noteq> span_start sp" by (metis imageI)
  then have "\<forall>sq \<in> set sps. starts_value width (sf_values g) sq"
    using Cons.prems(3) g(3) by (simp add: starts_value_def)
  moreover have "distinct (map span_start sps)" using Cons.prems(2) by simp
  ultimately obtain f' where f': "for_each (\<lambda>sp g. bind_outcome (release_span sp g) (\<lambda>(_, g'). Ok g')) sps g = Ok f'"
    "slot_file_ok width f'" "slot_limit f' = slot_limit g"
    "\<forall>i. get_nested (sf_values f') i = (if i \<in> span_start ` set sps then None else get_nested (sf_values g) i)"
    using Cons.IH[OF g(2)] by blast
  have start: "span_start sp < length (sf_values f)"
    using sp by (auto simp: starts_value_def get_nested_def split: if_splits)
  show ?case
    using f' g lim start by auto
qed simp

lemma set_flatten: "set (List.map_filter id xs) = {x. Some x \<in> set xs}"
  by (force simp: List.map_filter_def)

lemma set_overlapping_spans:
  assumes "slot_file_ok width f" "stop \<le> slot_limit f"
  shows "set (overlapping_spans slot stop f) =
    {sp. starts_value width (sf_values f) sp \<and> (\<exists>i. slot \<le> i \<and> i < stop \<and> in_span i sp)}"
proof -
  have "set (overlapping_spans slot stop f) = {sp. \<exists>i. slot \<le> i \<and> i < stop \<and> sf_occupancy f ! i = Some sp}"
  proof -
    have "set (take (stop - slot) (drop slot (sf_occupancy f))) = {sf_occupancy f ! i | i. slot \<le> i \<and> i < stop}"
    proof -
      have "take (stop - slot) (drop slot (sf_occupancy f)) = map ((!) (sf_occupancy f)) [slot..<stop]"
        using assms(2) by (auto simp: slot_limit_def intro: nth_equalityI)
      then show ?thesis by (auto simp: image_iff)
    qed
    then have mem: "x \<in> set (take (stop - slot) (drop slot (sf_occupancy f))) \<longleftrightarrow> (\<exists>i. slot \<le> i \<and> i < stop \<and> sf_occupancy f ! i = x)" for x
      by auto
    show ?thesis unfolding overlapping_spans_def
      by (simp add: set_flatten mem)
  qed
  with assms show ?thesis by (auto simp: slot_file_ok_def)
qed

lemma sorted_adjacent_distinct:
  assumes "sorted (map f xs)" "inj_on f (set xs)"
  shows "distinct (map f (remdups_adj xs))"
  using assms
proof (induction xs rule: remdups_adj.induct)
  case (3 x y xs)
  show ?case
  proof (cases "x = y")
    case False
    have "f x \<noteq> f z" if "z \<in> set (y # xs)" for z
    proof
      assume "f x = f z"
      moreover from that "3.prems"(1) have "f x \<le> f y" "f y \<le> f z" by auto
      ultimately have "f x = f y" by simp
      with "3.prems"(2) False show False by (auto simp: inj_on_def)
    qed
    moreover have "inj_on f (set (y # xs))" using "3.prems"(2) by (rule inj_on_subset) auto
    ultimately show ?thesis using "3.IH"(2)[OF False] "3.prems"(1) False by auto
  qed (use 3 in auto)
qed auto

lemma distinct_overlapping_spans:
  assumes "slot_file_ok width f" "stop \<le> slot_limit f"
  shows "distinct (map span_start (overlapping_spans slot stop f))"
proof -
  have "inj_on span_start (set (overlapping_spans slot stop f))"
    unfolding set_overlapping_spans[OF assms]
    by (auto simp: inj_on_def starts_value_def intro!: span.equality)
  then show ?thesis
    unfolding overlapping_spans_def
    by (intro sorted_adjacent_distinct) (simp_all)
qed

text \<open>After the overlapped values are released, every unit of the range is free.\<close>

lemma slot_store_fits:
  assumes ok: "slot_file_ok width f" and w: "0 < width v" "slot + width v \<le> slot_limit f"
  shows "\<exists>f'. slot_store width slot v f = Ok f' \<and> slot_file_ok width f' \<and> slot_limit f' = slot_limit f \<and>
           slot_contents f' = store_contents width slot v (slot_contents f)"
proof -
  let ?stop = "slot + width v" and ?sps = "overlapping_spans slot (slot + width v) f"
  let ?sp = "\<lparr>span_start = slot, span_width = width v\<rparr>"
  note spans = set_overlapping_spans[OF ok w(2)] 
  obtain g where g: "for_each (\<lambda>sp g. bind_outcome (release_span sp g) (\<lambda>(_, g'). Ok g')) ?sps f = Ok g"
    "slot_file_ok width g" "slot_limit g = slot_limit f"
    "\<And>i. get_nested (sf_values g) i = (if i \<in> span_start ` set ?sps then None else get_nested (sf_values f) i)"
    using release_spans_valid[OF ok distinct_overlapping_spans[OF ok w(2)]] spans by blast
  have len: "length (sf_values g) = slot_limit f" "length (sf_occupancy g) = slot_limit f"
    using g(2,3) by (simp_all add: slot_file_ok_def slot_limit_def)
  have cleared: "i \<in> span_start ` set ?sps \<longleftrightarrow>
      (\<exists>u. get_nested (sf_values f) i = Some u \<and> overlaps_range width i u slot ?stop)" for i
  proof
    assume "i \<in> span_start ` set ?sps"
    then show "\<exists>u. get_nested (sf_values f) i = Some u \<and> overlaps_range width i u slot ?stop"
      unfolding spans by (auto simp: starts_value_def in_span_def overlaps_range_def)
  next
    assume "\<exists>u. get_nested (sf_values f) i = Some u \<and> overlaps_range width i u slot ?stop"
    then obtain u where u: "get_nested (sf_values f) i = Some u" "i < ?stop" "slot < i + width u"
      by (auto simp: overlaps_range_def)
    have "0 < width u" by (rule slot_value_bounds[OF ok u(1)])
    with u w have "\<lparr>span_start = i, span_width = width u\<rparr> \<in> set ?sps"
      unfolding spans by (auto simp: in_span_def intro!: exI[of _ "max i slot"])
    then show "i \<in> span_start ` set ?sps" by force
  qed
  have free: "\<not> (slot \<le> i \<and> i < ?stop \<and> in_span i sq)" if "starts_value width (sf_values g) sq" for i sq
  proof
    assume i: "slot \<le> i \<and> i < ?stop \<and> in_span i sq"
    from that have "starts_value width (sf_values f) sq" "span_start sq \<notin> span_start ` set ?sps"
      by (auto simp: starts_value_def g(4) split: if_splits)
    with i show False unfolding spans by blast
  qed
  obtain occ where occ: "fill_range slot ?stop (Some ?sp) (sf_occupancy g) = (Ok occ :: (slot_error, span option list) outcome)"
    using w len by (simp add: fill_range_def)
  let ?f = "g\<lparr>sf_values := (sf_values g)[slot := Some v], sf_occupancy := occ\<rparr>"
  have lim: "slot_limit ?f = slot_limit f" using fill_range_nth(1)[OF occ] len by (simp add: slot_limit_def)
  have slot: "slot < slot_limit f" using w by simp
  have none: "get_nested (sf_values g) slot = None"
  proof (cases "get_nested (sf_values g) slot")
    case (Some u)
    then have "starts_value width (sf_values g) \<lparr>span_start = slot, span_width = width u\<rparr>" by simp
    from free[OF this, of slot] slot_value_bounds[OF g(2) Some] w show ?thesis by (simp add: in_span_def)
  qed
  have starts: "starts_value width (sf_values ?f) sq \<longleftrightarrow> sq = ?sp \<or> starts_value width (sf_values g) sq" for sq
    using none slot len by (cases sq) (auto simp: starts_value_def)
  have "slot_file_ok width ?f"
    unfolding slot_file_ok_def lim starts
  proof (intro conjI allI impI)
    show "length (sf_values ?f) = slot_limit f" using len by simp
    show "slot_limit f \<le> usize_max" using ok by (simp add: slot_file_ok_def)
    fix i u assume "get_nested (sf_values ?f) i = Some u"
    then have "i = slot \<and> u = v \<or> get_nested (sf_values g) i = Some u" by (auto split: if_splits)
    then show "0 < width u" "i + width u \<le> slot_limit f"
      using w slot_value_bounds[OF g(2)] g(3) by auto
  next
    fix i sq assume i: "i < slot_limit f"
    have old: "sf_occupancy g ! i = Some sq \<longleftrightarrow> in_span i sq \<and> starts_value width (sf_values g) sq"
      using g(2,3) i by (simp add: slot_file_ok_def)
    have new: "occ ! i = (if slot \<le> i \<and> i < ?stop then Some ?sp else sf_occupancy g ! i)"
      using fill_range_nth(2)[OF occ, of i] i len by simp
    show "sf_occupancy ?f ! i = Some sq \<longleftrightarrow> in_span i sq \<and> (sq = ?sp \<or> starts_value width (sf_values g) sq)"
      using old new free[of sq i] by (auto simp: in_span_def)
  qed
  moreover have "slot_store width slot v f = Ok ?f"
    using w ok g(1) occ slot len
    by (simp add: slot_store_def Let_def outcome_simps slot_file_ok_def)
  moreover have "slot_contents ?f = store_contents width slot v (slot_contents f)"
    using slot len cleared
    by (auto simp: slot_contents_def store_contents_def fun_eq_iff g(4) split: option.split)
  ultimately show ?thesis using lim by blast
qed

lemma slot_store_refuses:
  assumes ok: "slot_file_ok width f" and bad: "width v = 0 \<or> \<not> slot + width v \<le> slot_limit f"
  shows "slot_store width slot v f =
    Err (if width v = 0 then SlotZeroWidth slot else SlotOverflow slot (width v) (slot_limit f))"
  using assms by (auto simp: slot_store_def Let_def outcome_simps)

lemma slot_release_cases:
  assumes ok: "slot_file_ok width f"
  shows "(\<exists>i v. slot_contents f i = Some v \<and> i \<le> slot \<and> slot < i + width v \<and>
            (\<exists>f'. slot_release slot f = Ok (v, f') \<and> slot_file_ok width f' \<and>
                  slot_contents f' = (slot_contents f)(i := None))) \<or>
         (\<forall>i v. slot_contents f i = Some v \<longrightarrow> \<not> (i \<le> slot \<and> slot < i + width v)) \<and>
           slot_release slot f = Err (Uninitialized slot)"
proof (cases "get_nested (sf_occupancy f) slot")
  case None
  have "\<not> (i \<le> slot \<and> slot < i + width v)" if "slot_contents f i = Some v" for i v
  proof
    assume r: "i \<le> slot \<and> slot < i + width v"
    with slot_value_bounds(2)[OF ok] that have s: "slot < slot_limit f"
      by (fastforce simp: slot_contents_def)
    moreover have "in_span slot \<lparr>span_start = i, span_width = width v\<rparr>"
      "starts_value width (sf_values f) \<lparr>span_start = i, span_width = width v\<rparr>"
      using r that by (auto simp: in_span_def slot_contents_def)
    ultimately have "sf_occupancy f ! slot \<noteq> None" using ok unfolding slot_file_ok_def by blast
    with None s show False by (simp add: get_nested_def slot_limit_def)
  qed
  with None show ?thesis by (auto simp: slot_release_def)
next
  case (Some sp)
  then have "slot < slot_limit f" "sf_occupancy f ! slot = Some sp"
    by (auto simp: get_nested_def slot_limit_def split: if_splits)
  then have sp: "in_span slot sp" "starts_value width (sf_values f) sp"
    using ok by (auto simp: slot_file_ok_def)
  obtain v where v: "get_nested (sf_values f) (span_start sp) = Some v" "width v = span_width sp"
    using sp(2) by (auto simp: starts_value_def)
  from release_span_valid[OF ok sp(2)] obtain g where
    g: "release_span sp f = Ok (Some v, g)" "slot_file_ok width g" "sf_values g = (sf_values f)[span_start sp := None]"
    unfolding v(1) by blast
  have "slot_contents g = (slot_contents f)(span_start sp := None)"
    using g(3) by (auto simp: slot_contents_def fun_eq_iff get_nested_def)
  moreover have "slot_release slot f = Ok (v, g)" using Some g(1) by (simp add: slot_release_def)
  ultimately show ?thesis using v sp(1) g(2) by (auto simp: slot_contents_def in_span_def)
qed

section \<open>Logical stack shuffles (shuffle.rs)\<close>

datatype shuffle_error =
  ZeroWidthGroup usize
| UnknownUnit usize
| SplitGroup usize
| LayoutMismatch (mismatch_group: usize) (mismatch_expected: usize) (mismatch_actual: usize)
| ShuffleStack stack_error

record shuffle_plan =
  input_widths :: "usize list"
  output_groups :: "usize list"

text \<open>The first loop of \<open>ShufflePlan::new\<close>: the group of every unit and the first unit of every
  group.\<close>

definition layout_group :: "usize \<times> usize \<Rightarrow> usize list \<times> usize list \<Rightarrow> (shuffle_error, usize list \<times> usize list) outcome" where
  "layout_group = (\<lambda>(group, w) (unit_to_group, starts).
     if w = 0 then Err (ZeroWidthGroup group)
     else Ok (unit_to_group @ replicate w group, starts @ [length unit_to_group]))"

definition layout_groups :: "usize list \<Rightarrow> (shuffle_error, usize list \<times> usize list) outcome" where
  "layout_groups widths = for_each layout_group (enumerate 0 widths) ([], [])"

text \<open>The second loop: the output units from \<open>cursor\<close> on, one whole group at a time. The fuel is the
  number of units left, which every round that continues lowers because widths are positive.\<close>

fun select_groups :: "usize list \<Rightarrow> usize list \<Rightarrow> usize list \<Rightarrow> nat \<Rightarrow> usize list \<Rightarrow> usize list
    \<Rightarrow> (shuffle_error, usize list) outcome" where
  "select_groups widths unit_to_group starts fuel units groups =
     (case units of
        [] \<Rightarrow> Ok groups
      | unit # _ \<Rightarrow>
          if unit < length unit_to_group then
            (let group = unit_to_group ! unit; start = starts ! group; w = widths ! group in
             if w \<le> length units \<and> take w units = [start..<start + w] then
               (case fuel of
                  0 \<Rightarrow> Panic ''fuel''
                | Suc n \<Rightarrow> select_groups widths unit_to_group starts n (drop w units) (groups @ [group]))
             else Err (SplitGroup group))
          else Err (UnknownUnit unit))"

declare select_groups.simps [simp del]

definition shuffle_new :: "usize list \<Rightarrow> usize list \<Rightarrow> (shuffle_error, shuffle_plan) outcome" where
  "shuffle_new widths units =
     bind_outcome (layout_groups widths) (\<lambda>(unit_to_group, starts).
       bind_outcome (select_groups widths unit_to_group starts (length units) units [])
         (\<lambda>groups. Ok \<lparr>input_widths = widths, output_groups = groups\<rparr>))"

definition check_layout :: "('v \<Rightarrow> usize) \<Rightarrow> shuffle_plan \<Rightarrow> 'v unit_stack \<Rightarrow> (shuffle_error, unit) outcome" where
  "check_layout width plan s =
     (let common = min (length (input_widths plan)) (length (us_values s)) in
      bind_outcome
        (for_each (\<lambda>group _. let actual = width (us_values s ! group); expected = input_widths plan ! group in
            if actual \<noteq> expected then Err (LayoutMismatch group expected actual) else Ok ()) [0..<common] ())
        (\<lambda>_. if length (input_widths plan) \<noteq> length (us_values s)
             then Err (LayoutMismatch common
                    (if common < length (input_widths plan) then input_widths plan ! common else 0)
                    (if common < length (us_values s) then width (us_values s ! common) else 0))
             else Ok ()))"

definition shuffle_execute :: "('v \<Rightarrow> usize) \<Rightarrow> shuffle_plan \<Rightarrow> 'v unit_stack \<Rightarrow> (shuffle_error, 'v unit_stack) outcome" where
  "shuffle_execute width plan s =
     bind_outcome (check_layout width plan s) (\<lambda>_.
       for_each (\<lambda>group staged.
           if group < length (us_values s)
           then map_err ShuffleStack (stack_push width (us_values s ! group) staged)
           else Panic ''index out of bounds'')
         (output_groups plan) (stack_new (us_limit s)))"

text \<open>The units of a group in the input layout, and the units of a stack's values.\<close>

definition group_units :: "usize list \<Rightarrow> usize \<Rightarrow> usize list" where
  "group_units widths g = [sum_list (take g widths)..<sum_list (take g widths) + widths ! g]"

definition stack_units :: "('v \<Rightarrow> usize) \<Rightarrow> 'v list \<Rightarrow> ('v \<times> usize) list" where
  "stack_units width vs = concat (map (\<lambda>v. map (Pair v) [0..<width v]) vs)"

lemma layout_groups_positive:
  assumes "\<forall>w \<in> set widths. 0 < w"
  shows "\<exists>u. layout_groups widths = Ok (u, map (\<lambda>g. sum_list (take g widths)) [0..<length widths]) \<and>
    length u = sum_list widths \<and> set u \<subseteq> {..<length widths} \<and>
    (\<forall>g < length widths. u ! sum_list (take g widths) = g)"
  using assms
proof (induction widths rule: rev_induct)
  case (snoc w ws)
  then obtain u where u: "layout_groups ws = Ok (u, map (\<lambda>g. sum_list (take g ws)) [0..<length ws])"
    "length u = sum_list ws" "set u \<subseteq> {..<length ws}" "\<forall>g < length ws. u ! sum_list (take g ws) = g" by auto
  have below: "sum_list (take g ws) < sum_list ws" if "g < length ws" for g
  proof -
    have "sum_list ws = sum_list (take g ws) + (ws ! g + sum_list (drop (Suc g) ws))"
      using that by (metis append_take_drop_id Cons_nth_drop_Suc sum_list_append sum_list.Cons)
    moreover have "0 < ws ! g" using snoc.prems that by simp
    ultimately show ?thesis by simp
  qed
  have "map (\<lambda>g. sum_list (take g (ws @ [w]))) [0..<length ws] = map (\<lambda>g. sum_list (take g ws)) [0..<length ws]"
    by simp
  moreover have "layout_groups (ws @ [w]) =
      Ok (u @ replicate w (length ws), map (\<lambda>g. sum_list (take g ws)) [0..<length ws] @ [length u])"
    using u(1) snoc.prems by (simp add: layout_groups_def enumerate_append_eq for_each_append layout_group_def)
  ultimately show ?case using u(2,3,4) snoc.prems below
    by (fastforce simp: nth_append less_Suc_eq)
qed (simp add: layout_groups_def)

lemma layout_groups_Ok_positive:
  assumes "layout_groups widths = Ok r"
  shows "\<forall>w \<in> set widths. 0 < w"
proof -
  have "for_each layout_group (enumerate n widths) st = Ok r \<Longrightarrow> \<forall>w \<in> set widths. 0 < w" for n st
    by (induction widths arbitrary: n st) (auto simp: layout_group_def outcome_simps split: if_splits)
  from this[of 0] assms show ?thesis by (simp add: layout_groups_def)
qed

lemma layout_groups_not_Panic: "layout_groups widths \<noteq> Panic p"
  unfolding layout_groups_def
  by (rule for_each_not_Panic[where I = "\<lambda>_. True"]) (auto simp: layout_group_def split: if_splits)

text \<open>The unit-to-group table of a layout: every unit has a group, and the first unit of a group
  names it.\<close>

definition layout_table :: "usize list \<Rightarrow> usize list \<Rightarrow> bool" where
  "layout_table widths u \<longleftrightarrow>
     (\<forall>w \<in> set widths. 0 < w) \<and> length u = sum_list widths \<and> set u \<subseteq> {..<length widths} \<and>
     (\<forall>g < length widths. u ! sum_list (take g widths) = g)"

definition group_starts :: "usize list \<Rightarrow> usize list" where
  "group_starts widths = map (\<lambda>g. sum_list (take g widths)) [0..<length widths]"

lemma group_units_Cons:
  assumes "\<forall>w \<in> set widths. 0 < w" "g < length widths"
  shows "\<exists>us. group_units widths g = sum_list (take g widths) # us"
    and "sum_list (take g widths) < sum_list widths"
proof -
  have "0 < widths ! g" using assms by simp
  then show "\<exists>us. group_units widths g = sum_list (take g widths) # us"
    by (simp add: group_units_def upt_conv_Cons)
  have "sum_list widths = sum_list (take g widths) + (widths ! g + sum_list (drop (Suc g) widths))"
    using assms(2) by (metis append_take_drop_id Cons_nth_drop_Suc sum_list_append sum_list.Cons)
  then show "sum_list (take g widths) < sum_list widths" using \<open>0 < widths ! g\<close> by simp
qed

lemma layout_table_group:
  assumes "layout_table widths u" "x < length u"
  shows "u ! x < length widths" "0 < widths ! (u ! x)"
proof -
  have "u ! x \<in> {..<length widths}" using assms nth_mem unfolding layout_table_def by blast
  then show "u ! x < length widths" by simp
  then show "0 < widths ! (u ! x)" using assms(1) by (simp add: layout_table_def)
qed

lemma no_units_no_groups:
  assumes "layout_table widths u" "\<forall>g \<in> set gs. g < length widths" "concat (map (group_units widths) gs) = []"
  shows "gs = []"
proof (cases gs)
  case (Cons g gs')
  with assms(2) have "g < length widths" by simp
  moreover have "\<forall>w \<in> set widths. 0 < w" using assms(1) by (simp add: layout_table_def)
  ultimately show ?thesis using group_units_Cons(1)[of widths g] assms(3) Cons by auto
qed

lemma select_groups_Cons:
  assumes "layout_table widths u" "units = x # xs"
  shows "select_groups widths u (group_starts widths) (Suc fuel) units groups =
    (if x < length u
     then if take (widths ! (u ! x)) units = group_units widths (u ! x)
          then select_groups widths u (group_starts widths) fuel (drop (widths ! (u ! x)) units) (groups @ [u ! x])
          else Err (SplitGroup (u ! x))
     else Err (UnknownUnit x))"
proof -
  have "u ! x < length widths" if "x < length u"
    by (rule layout_table_group[OF assms(1) that])
  moreover have "w \<le> length units" if "take w units = [n..<n + w]" for n w
  proof -
    from that have "length (take w units) = length [n..<n + w]" by simp
    then show ?thesis by simp
  qed
  ultimately show ?thesis
    using assms(2) by (auto simp: select_groups.simps group_starts_def group_units_def Let_def)
qed

lemma select_groups_iff:
  assumes table: "layout_table widths u"
  shows "length units \<le> fuel \<Longrightarrow>
    select_groups widths u (group_starts widths) fuel units groups = Ok out \<longleftrightarrow>
      (\<exists>gs. out = groups @ gs \<and> (\<forall>g \<in> set gs. g < length widths) \<and> units = concat (map (group_units widths) gs))"
proof (induction fuel arbitrary: units groups)
  case 0
  then show ?case using no_units_no_groups[OF table] by (auto simp: select_groups.simps)
next
  case (Suc fuel)
  have pos: "\<forall>w \<in> set widths. 0 < w" using table by (simp add: layout_table_def)
  show ?case
  proof (cases units)
    case Nil
    then show ?thesis using no_units_no_groups[OF table] by (auto simp: select_groups.simps)
  next
    case (Cons x xs)
    let ?g = "u ! x"
    have drop_len: "length (drop (widths ! ?g) units) \<le> fuel" if "x < length u"
    proof -
      from layout_table_group(2)[OF table that] show ?thesis using Suc.prems Cons by simp
    qed
    have head: "x < length u \<and> g = ?g \<and> take (widths ! ?g) units = group_units widths ?g \<and>
        drop (widths ! ?g) units = concat (map (group_units widths) gs)"
      if "units = concat (map (group_units widths) (g # gs))" "g < length widths" for g gs
    proof -
      from group_units_Cons[OF pos that(2)] that(1) Cons have "x = sum_list (take g widths)" "x < length u"
        using table by (auto simp: layout_table_def)
      then have "?g = g" using table that(2) by (simp add: layout_table_def)
      moreover have "length (group_units widths g) = widths ! g" by (simp add: group_units_def)
      ultimately show ?thesis using that(1) \<open>x < length u\<close> by simp
    qed
    show ?thesis (is "?sel = Ok out \<longleftrightarrow> ?rhs")
    proof
      assume "?sel = Ok out"
      then have x: "x < length u" "take (widths ! ?g) units = group_units widths ?g"
        "select_groups widths u (group_starts widths) fuel (drop (widths ! ?g) units) (groups @ [?g]) = Ok out"
        unfolding select_groups_Cons[OF table Cons] by (auto split: if_splits)
      from x(3)[unfolded Suc.IH[OF drop_len[OF x(1)]]] obtain gs where
        gs: "out = (groups @ [?g]) @ gs" "\<forall>g \<in> set gs. g < length widths"
          "drop (widths ! ?g) units = concat (map (group_units widths) gs)" by blast
      note layout_table_group(1)[OF table x(1)]
      moreover have "units = concat (map (group_units widths) (?g # gs))"
        using x(2) gs(3) append_take_drop_id[of "widths ! ?g" units] by simp
      ultimately show ?rhs using gs by (intro exI[of _ "?g # gs"]) simp
    next
      assume ?rhs
      then obtain gs where gs: "out = groups @ gs" "\<forall>g \<in> set gs. g < length widths"
        "units = concat (map (group_units widths) gs)" by blast
      with Cons obtain g gs' where gs': "gs = g # gs'" by (cases gs) auto
      have h: "x < length u" "g = ?g" "take (widths ! ?g) units = group_units widths ?g"
        "drop (widths ! ?g) units = concat (map (group_units widths) gs')"
        using head[of g gs'] gs gs' by auto
      then have "select_groups widths u (group_starts widths) fuel (drop (widths ! ?g) units) (groups @ [?g]) = Ok out"
        unfolding Suc.IH[OF drop_len[OF h(1)]] using gs gs' h by auto
      then show "?sel = Ok out" unfolding select_groups_Cons[OF table Cons] using h by simp
    qed
  qed
qed

lemma select_groups_not_Panic:
  assumes table: "layout_table widths u"
  shows "length units \<le> fuel \<Longrightarrow> select_groups widths u (group_starts widths) fuel units groups \<noteq> Panic p"
proof (induction fuel arbitrary: units groups)
  case (Suc fuel)
  show ?case
  proof (cases units)
    case (Cons x xs)
    have "length (drop (widths ! (u ! x)) units) \<le> fuel" if "x < length u"
    proof -
      from layout_table_group(2)[OF table that] show ?thesis using Suc.prems Cons by simp
    qed
    then show ?thesis unfolding select_groups_Cons[OF table Cons] using Suc.IH by auto
  qed (simp add: select_groups.simps)
qed (simp add: select_groups.simps)

lemma layout_groups_table:
  assumes "\<forall>w \<in> set widths. 0 < w"
  shows "\<exists>u. layout_groups widths = Ok (u, group_starts widths) \<and> layout_table widths u"
  using layout_groups_positive[OF assms] assms unfolding group_starts_def layout_table_def by blast

lemma shuffle_new_Ok_iff:
  "shuffle_new widths units = Ok plan \<longleftrightarrow>
     (\<forall>w \<in> set widths. 0 < w) \<and> input_widths plan = widths \<and>
     (\<forall>g \<in> set (output_groups plan). g < length widths) \<and>
     units = concat (map (group_units widths) (output_groups plan))"
proof (cases "\<forall>w \<in> set widths. 0 < w")
  case True
  from layout_groups_table[OF True] obtain u where
    u: "layout_groups widths = Ok (u, group_starts widths)" "layout_table widths u" by blast
  show ?thesis
    using True u(1) select_groups_iff[OF u(2) order_refl, of units "[]"]
    by (cases plan) (auto simp: shuffle_new_def outcome_simps)
next
  case False
  then show ?thesis using layout_groups_Ok_positive by (auto simp: shuffle_new_def outcome_simps)
qed

lemma shuffle_new_not_Panic: "shuffle_new widths units \<noteq> Panic p"
proof (cases "\<forall>w \<in> set widths. 0 < w")
  case True
  from layout_groups_table[OF True] obtain u where
    u: "layout_groups widths = Ok (u, group_starts widths)" "layout_table widths u" by blast
  show ?thesis using u(1) select_groups_not_Panic[OF u(2) order_refl]
    by (auto simp: shuffle_new_def outcome_simps)
next
  case False
  then show ?thesis using layout_groups_Ok_positive layout_groups_not_Panic
    by (fastforce simp: shuffle_new_def outcome_simps)
qed

text \<open>Executing a plan: the layout check compares the widths, and the staged pushes are a sequence
  of operand-stack pushes.\<close>

lemma check_layout_Ok_iff:
  "check_layout width plan s = Ok r \<longleftrightarrow> map width (us_values s) = input_widths plan"
proof -
  let ?body = "\<lambda>group _. let actual = width (us_values s ! group); expected = input_widths plan ! group in
            if actual \<noteq> expected then Err (LayoutMismatch group expected actual) else Ok ()"
  have loop: "for_each ?body gs () = Ok r \<longleftrightarrow> (\<forall>g \<in> set gs. width (us_values s ! g) = input_widths plan ! g)" for gs r
    by (induction gs) (auto simp: Let_def outcome_simps)
  show ?thesis
    unfolding check_layout_def Let_def[of "min _ _"] bind_outcome_Ok_iff loop list_eq_iff_nth_eq
    by (cases "length (input_widths plan) = length (us_values s)") (simp_all add: Ball_def)
qed

lemma check_layout_not_Panic: "check_layout width plan s \<noteq> Panic p"
proof -
  let ?body = "\<lambda>group _. let actual = width (us_values s ! group); expected = input_widths plan ! group in
            if actual \<noteq> expected then Err (LayoutMismatch group expected actual) else Ok ()"
  have loop: "for_each ?body gs () \<noteq> Panic p" for gs
    by (rule for_each_not_Panic[where I = "\<lambda>_. True"]) (auto simp: Let_def split: if_splits)
  show ?thesis unfolding check_layout_def Let_def[of "min _ _"] using loop by (auto simp: outcome_simps)
qed

lemma staged_pushes:
  assumes "\<forall>g \<in> set gs. g < length vs"
  shows "for_each (\<lambda>group staged. if group < length vs
            then map_err ShuffleStack (stack_push width (vs ! group) staged)
            else Panic ''index out of bounds'') gs st =
         map_err ShuffleStack (for_each (stack_push width) (map ((!) vs) gs) st)"
  using assms
proof (induction gs arbitrary: st)
  case (Cons g gs)
  then show ?case by (cases "stack_push width (vs ! g) st") auto
qed simp

lemma push_all_limit:
  assumes "for_each (stack_push width) vs st = Ok st'"
  shows "us_limit st' = us_limit st"
  by (rule for_each_invariant[OF assms, where I = "\<lambda>u. us_limit u = us_limit st"])
    (auto simp: stack_push_def Let_def outcome_simps split: if_splits)

lemma push_all_overflow:
  assumes "unit_stack_ok width st" "\<forall>v \<in> set vs. 0 < width v" "for_each (stack_push width) vs st = Err e"
  shows "\<exists>d w. e = StackOverflow d w (us_limit st)"
  using assms
proof (induction vs arbitrary: st)
  case (Cons v vs)
  show ?case
  proof (cases "stack_fits width [v] st")
    case True
    with unit_stack.push_fits[OF Cons.prems(1)] obtain st' where
      st': "stack_push width v st = Ok st'" "unit_stack_ok width st'" by blast
    with Cons.prems(3) have "for_each (stack_push width) vs st' = Err e" by simp
    moreover have "us_limit st' = us_limit st" using push_all_limit[of width "[v]" st st'] st'(1) by simp
    ultimately show ?thesis using Cons.IH[OF st'(2)] Cons.prems(2) by simp
  next
    case False
    from stack_push_refuses[OF Cons.prems(1) False] Cons.prems(2,3) show ?thesis by auto
  qed
qed simp

lemma length_stack_units: "length (stack_units width vs) = sum_list (map width vs)"
  by (simp add: stack_units_def length_concat comp_def)

lemma stack_units_simps [simp]:
  "stack_units width [] = []"
  "stack_units width (v # vs) = map (Pair v) [0..<width v] @ stack_units width vs"
  "stack_units width (us @ vs) = stack_units width us @ stack_units width vs"
  by (simp_all add: stack_units_def)

lemma stack_units_group:
  assumes "g < length vs"
  shows "map ((!) (stack_units width vs)) (group_units (map width vs) g) = map (Pair (vs ! g)) [0..<width (vs ! g)]"
proof -
  have "stack_units width vs =
      stack_units width (take g vs) @ map (Pair (vs ! g)) [0..<width (vs ! g)] @ stack_units width (drop (Suc g) vs)"
    using arg_cong[OF id_take_nth_drop[OF assms], of "stack_units width"] by simp
  moreover have "sum_list (take g (map width vs)) = length (stack_units width (take g vs))"
    by (simp add: length_stack_units take_map)
  ultimately show ?thesis
    using assms by (simp add: list_eq_iff_nth_eq group_units_def nth_append)
qed

lemma stack_units_select:
  assumes "\<forall>g \<in> set gs. g < length vs"
  shows "stack_units width (map ((!) vs) gs) =
    map ((!) (stack_units width vs)) (concat (map (group_units (map width vs)) gs))"
  using assms by (induction gs) (simp_all add: stack_units_group)

section \<open>Properties\<close>

text \<open>
  C33: storing a value in a slot file refines the abstract store. When the value has a positive
  width and fits below the limit, the store succeeds, keeps the occupancy invariant and removes
  exactly the values whose span meets the written range; otherwise it refuses with the exact
  error. It never panics.
\<close>

theorem slot_store_refines:
  assumes "slot_file_ok width f"
  shows "case slot_store width slot v f of
      Ok f' \<Rightarrow> 0 < width v \<and> slot + width v \<le> slot_limit f \<and> slot_file_ok width f' \<and>
        slot_limit f' = slot_limit f \<and> slot_contents f' = store_contents width slot v (slot_contents f)
    | Err e \<Rightarrow> (width v = 0 \<and> e = SlotZeroWidth slot) \<or>
        (0 < width v \<and> slot_limit f < slot + width v \<and> e = SlotOverflow slot (width v) (slot_limit f))
    | Panic p \<Rightarrow> False"
proof (cases "0 < width v \<and> slot + width v \<le> slot_limit f")
  case True
  with slot_store_fits[OF assms, of v slot] show ?thesis by auto
next
  case False
  with slot_store_refuses[OF assms, of v slot] show ?thesis by auto
qed

text \<open>
  A shuffle plan is accepted exactly when every input group has a positive width and the output
  units spell out whole groups in their original unit order; the accepted plan then records those
  groups. Validation never panics and always ends.
\<close>

theorem shuffle_plan_exact:
  "(shuffle_new widths units = Ok plan \<longleftrightarrow>
      (\<forall>w \<in> set widths. 0 < w) \<and> input_widths plan = widths \<and>
      (\<forall>g \<in> set (output_groups plan). g < length widths) \<and>
      units = concat (map (group_units widths) (output_groups plan))) \<and>
   shuffle_new widths units \<noteq> Panic p"
  using shuffle_new_Ok_iff shuffle_new_not_Panic by blast

text \<open>
  C34: executing a validated plan on a stack with the plan's layout performs the unit-level selection
  the plan was built from: the units of the new stack are the named units of the old one. The only
  other ending is a stack overflow, exactly when the output has more units than the stack's limit.
\<close>

theorem shuffle_moves_units:
  assumes ok: "unit_stack_ok width s" and plan: "shuffle_new (map width (us_values s)) units = Ok plan"
  shows "case shuffle_execute width plan s of
      Ok s' \<Rightarrow> unit_stack_ok width s' \<and> us_limit s' = us_limit s \<and> us_depth s' = length units \<and>
        stack_units width (us_values s') = map ((!) (stack_units width (us_values s))) units
    | Err e \<Rightarrow> us_limit s < length units \<and> (\<exists>d w. e = ShuffleStack (StackOverflow d w (us_limit s)))
    | Panic p \<Rightarrow> False"
proof -
  let ?vs = "us_values s" and ?gs = "output_groups plan"
  from plan[unfolded shuffle_new_Ok_iff] have p: "input_widths plan = map width ?vs"
    "\<forall>g \<in> set ?gs. g < length ?vs" "units = concat (map (group_units (map width ?vs)) ?gs)" by auto
  have run: "shuffle_execute width plan s =
      map_err ShuffleStack (for_each (stack_push width) (map ((!) ?vs) ?gs) (stack_new (us_limit s)))"
    using check_layout_Ok_iff[of width plan s "()"] p(1) staged_pushes[OF p(2)]
    by (simp add: shuffle_execute_def)
  have new: "unit_stack_ok width (stack_new (us_limit s) :: 'a unit_stack)"
    using ok by (simp add: unit_stack_ok_def stack_new_def)
  have len: "sum_list (map width (map ((!) ?vs) ?gs)) = length units"
    using stack_units_select[OF p(2), of width] p(3)
    by (simp add: length_stack_units[symmetric] del: map_map)
  have fits: "stack_fits width (map ((!) ?vs) ?gs) (stack_new (us_limit s)) \<longleftrightarrow> length units \<le> us_limit s"
    using ok p(2) len by (auto simp: stack_fits_def stack_new_def unit_stack_ok_def)
  show ?thesis
  proof (cases "length units \<le> us_limit s")
    case True
    with unit_stack.push_all_fits[OF new] fits obtain s' where
      s': "for_each (stack_push width) (map ((!) ?vs) ?gs) (stack_new (us_limit s)) = Ok s'"
        "unit_stack_ok width s'" "us_values s' = map ((!) ?vs) ?gs"
      by (auto simp: stack_new_def)
    have "us_depth s' = length units" using s'(2,3) len by (simp add: unit_stack_ok_def)
    moreover have "us_limit s' = us_limit s"
      using push_all_limit[OF s'(1)] by (simp add: stack_new_def)
    ultimately show ?thesis using run s' stack_units_select[OF p(2), of width] p(3) by simp
  next
    case False
    with unit_stack.push_all_refuses[OF new] fits obtain e where
      e: "for_each (stack_push width) (map ((!) ?vs) ?gs) (stack_new (us_limit s)) = Err e" by auto
    moreover have "\<forall>v \<in> set (map ((!) ?vs) ?gs). 0 < width v"
      using ok p(2) by (auto simp: unit_stack_ok_def)
    ultimately show ?thesis using run False push_all_overflow[OF new] by (fastforce simp: stack_new_def)
  qed
qed

text \<open>A concrete stack and slot file: the width of a value is the value itself.\<close>

definition wide_stack :: "nat unit_stack" where
  "wide_stack = \<lparr>us_values = [1, 2, 1], us_depth = 4, us_limit = 6\<rparr>"

definition wide_slots :: "nat slot_file" where
  "wide_slots = \<lparr>sf_values = [None, Some 2, None, Some 1],
     sf_occupancy = [None, Some \<lparr>span_start = 1, span_width = 2\<rparr>, Some \<lparr>span_start = 1, span_width = 2\<rparr>,
       Some \<lparr>span_start = 3, span_width = 1\<rparr>]\<rparr>"

lemma wide_slots_ok: "slot_file_ok id wide_slots"
proof -
  have small: "4 \<le> usize_max" by (simp add: usize_max_def)
  have "sf_occupancy wide_slots ! i = Some sp \<longleftrightarrow> in_span i sp \<and> starts_value id (sf_values wide_slots) sp"
    if "i < 4" for i sp
    using that
    by (cases sp) (auto simp: wide_slots_def in_span_def get_nested_def less_Suc_eq numeral_eq_Suc nth_Cons'
        split: if_splits)
  moreover have "0 < id v \<and> i + id v \<le> 4" if "get_nested (sf_values wide_slots) i = Some v" for i v
    using that by (auto simp: wide_slots_def get_nested_def less_Suc_eq numeral_eq_Suc nth_Cons' split: if_splits)
  moreover have "slot_limit wide_slots = 4" "length (sf_values wide_slots) = 4"
    by (simp_all add: slot_limit_def wide_slots_def)
  ultimately show ?thesis unfolding slot_file_ok_def using small by metis
qed

theorem slot_store_refines_witness:
  "slot_file_ok id wide_slots \<and>
   (case slot_store id 2 1 wide_slots of
      Ok f' \<Rightarrow> slot_file_ok id f' \<and> slot_contents f' 2 = Some 1 \<and> slot_contents f' 1 = None \<and> slot_contents f' 3 = Some 1
    | _ \<Rightarrow> False)"
proof -
  have "case slot_store id 2 1 wide_slots of Ok _ \<Rightarrow> True | _ \<Rightarrow> False" by code_simp
  then obtain f' where f': "slot_store id 2 1 wide_slots = Ok f'" by (auto split: outcome.splits)
  have "store_contents id 2 1 (slot_contents wide_slots) 2 = Some 1"
    "store_contents id 2 1 (slot_contents wide_slots) 1 = None"
    "store_contents id 2 1 (slot_contents wide_slots) 3 = Some 1" by code_simp+
  with slot_store_refines[OF wide_slots_ok, where slot = 2 and v = 1] f' wide_slots_ok show ?thesis by simp
qed

theorem shuffle_plan_exact_witness:
  "(\<forall>w \<in> set [1, 2 :: usize]. 0 < w) \<and>
   shuffle_new [1, 2] [1, 2, 0, 1, 2] = Ok \<lparr>input_widths = [1, 2], output_groups = [1, 0, 1]\<rparr>"
  by (simp add: shuffle_plan_exact group_units_def upt_rec)

theorem shuffle_moves_units_witness:
  "unit_stack_ok id wide_stack \<and>
   (case shuffle_new (map id (us_values wide_stack)) [1, 2, 3, 0, 1, 2] of
      Ok plan \<Rightarrow> (case shuffle_execute id plan wide_stack of
          Ok s' \<Rightarrow> stack_units id (us_values s') = [(2, 0), (2, 1), (1, 0), (1, 0), (2, 0), (2, 1)]
        | _ \<Rightarrow> False)
    | _ \<Rightarrow> False)"
proof -
  have ok: "unit_stack_ok id wide_stack" by (simp add: unit_stack_ok_def wide_stack_def usize_max_def)
  let ?plan = "\<lparr>input_widths = [1, 2, 1], output_groups = [1, 2, 0, 1]\<rparr>"
  have plan: "shuffle_new (map id (us_values wide_stack)) [1, 2, 3, 0, 1, 2] = Ok ?plan" by code_simp
  have "case shuffle_execute id ?plan wide_stack of Ok _ \<Rightarrow> True | _ \<Rightarrow> False" by code_simp
  then obtain s' where s': "shuffle_execute id ?plan wide_stack = Ok s'" by (auto split: outcome.splits)
  have "map ((!) (stack_units id (us_values wide_stack))) [1, 2, 3, 0, 1, 2] =
      [(2, 0), (2, 1), (1, 0), (1, 0), (2, 0), (2, 1)]" by code_simp
  with shuffle_moves_units[OF ok plan] s' ok plan show ?thesis by simp
qed

end
