(* ===== verification/Machine_Code.thy ===== *)
theory Machine_Code
  imports Machine_Store Ordered_Map "HOL-Library.Product_Lexorder"
begin

text \<open>
  Located code of the decoded-instruction machine, \<open>sim-lib-machine/src/code.rs\<close>: instructions with
  their source locations, the validation that freezes them with their branch targets and protected
  regions, and the queries on frozen code. The trait \<open>InstructionPolicy\<close> is the argument
  \<open>instruction_id\<close>. A \<open>CodeCursor\<close> is the index it wraps; the canonical datum of the code
  (\<open>semantic_datum\<close>), whose type belongs to the kernel, is not modelled here.
\<close>

section \<open>Locations and instructions\<close>

text \<open>The fields of the kernel's \<open>Origin\<close> that this component reads.\<close>

record 's origin =
  origin_source :: 's
  origin_start :: usize
  origin_end :: usize

datatype 's source_location =
  Bytes "'s origin"
| Tokens "'s origin" usize usize

datatype location_unit = ByteUnit | TokenUnit

fun location_source :: "'s source_location \<Rightarrow> 's" where
  "location_source (Bytes org) = origin_source org"
| "location_source (Tokens org _ _) = origin_source org"

fun location_range :: "'s source_location \<Rightarrow> location_unit \<times> usize \<times> usize" where
  "location_range (Bytes org) = (ByteUnit, origin_start org, origin_end org)"
| "location_range (Tokens _ start stop) = (TokenUnit, start, stop)"

record ('i, 'id, 's) located_instruction =
  li_instruction :: 'i
  li_id :: 'id
  li_location :: "'s source_location"
  li_safepoint :: bool
  li_coverage :: "u64 option"

datatype ('id, 's) target_location =
  InstructionTarget 'id
| ByteTarget 's usize
| TokenTarget 's usize

record ('id, 's) branch_target =
  bt_from :: 'id
  bt_to :: "('id, 's) target_location"

record ('id, 's) region_spec =
  rs_start :: 'id
  rs_end :: "'id option"
  rs_handler :: "('id, 's) target_location"

type_synonym code_cursor = usize

record protected_region =
  pr_start :: code_cursor
  pr_end_index :: usize
  pr_handler :: code_cursor

datatype 'id code_error =
  EmptyCode
| MalformedLocation 'id usize usize
| OverlappingLocations 'id 'id
| IdentityMismatch 'id 'id
| DuplicateIdentity 'id
| UnknownInstruction 'id
| InteriorTarget 'id usize 'id
| OutOfRangeTarget 'id usize
| MalformedRegion 'id usize
| OverlappingRegions 'id 'id

record (overloaded) ('i, 'id, 's) located_code =
  lc_instructions :: "('i, 'id::linorder, 's) located_instruction list"
  lc_cursors :: "('id, code_cursor) bmap"
  lc_targets :: "('id, code_cursor list) bmap"
  lc_regions :: "protected_region list"

section \<open>Freezing\<close>

text \<open>The overlap test of two source ranges in the same source and unit.\<close>

definition locations_overlap :: "'s source_location \<Rightarrow> 's source_location \<Rightarrow> bool" where
  "locations_overlap previous located =
     (let (previous_unit, previous_start, previous_end) = location_range previous;
          (unit, start, stop) = location_range located in
      location_source previous = location_source located \<and> previous_unit = unit \<and>
      start < previous_end \<and> previous_start < stop)"

definition check_previous :: "('i, 'id, 's) located_instruction \<Rightarrow> ('i, 'id, 's) located_instruction \<Rightarrow> unit
    \<Rightarrow> ('id code_error, unit) outcome" where
  "check_previous located previous _ =
     (if locations_overlap (li_location previous) (li_location located)
      then Err (OverlappingLocations (li_id previous) (li_id located)) else Ok ())"

definition freeze_instruction :: "('i \<Rightarrow> 'id::linorder) \<Rightarrow> ('i, 'id, 's) located_instruction list
    \<Rightarrow> usize \<times> ('i, 'id, 's) located_instruction \<Rightarrow> ('id, code_cursor) bmap
    \<Rightarrow> ('id code_error, ('id, code_cursor) bmap) outcome" where
  "freeze_instruction instruction_id instructions = (\<lambda>(index, located) cursors.
     let derived = instruction_id (li_instruction located) in
     if derived \<noteq> li_id located then Err (IdentityMismatch (li_id located) derived)
     else if bm_contains_key (li_id located) cursors then Err (DuplicateIdentity (li_id located))
     else let (_, start, stop) = location_range (li_location located) in
       if stop \<le> start then Err (MalformedLocation (li_id located) start stop)
       else bind_outcome (for_each (check_previous located) (take index instructions) ())
         (\<lambda>_. Ok (bm_insert (li_id located) index cursors)))"

definition freeze_cursors :: "('i \<Rightarrow> 'id::linorder) \<Rightarrow> ('i, 'id, 's) located_instruction list
    \<Rightarrow> ('id code_error, ('id, code_cursor) bmap) outcome" where
  "freeze_cursors instruction_id instructions =
     for_each (freeze_instruction instruction_id instructions) (enumerate 0 instructions) bm_empty"

text \<open>The scan of \<open>resolve_target\<close> for a raw position: the first instruction of the source and unit
  that starts at or strictly contains it decides.\<close>

fun resolve_position :: "'s \<Rightarrow> location_unit \<Rightarrow> usize \<Rightarrow> 'id \<Rightarrow> (usize \<times> ('i, 'id, 's) located_instruction) list
    \<Rightarrow> ('id code_error, code_cursor) outcome" where
  "resolve_position source unit position from [] = Err (OutOfRangeTarget from position)"
| "resolve_position source unit position from ((index, located) # rest) =
     (let (located_unit, start, stop) = location_range (li_location located) in
      if location_source (li_location located) = source \<and> located_unit = unit \<and> position = start then Ok index
      else if location_source (li_location located) = source \<and> located_unit = unit \<and> start < position \<and> position < stop
      then Err (InteriorTarget from position (li_id located))
      else resolve_position source unit position from rest)"

fun resolve_target :: "('id::linorder, 's) target_location \<Rightarrow> 'id \<Rightarrow> ('i, 'id, 's) located_instruction list
    \<Rightarrow> ('id, code_cursor) bmap \<Rightarrow> ('id code_error, code_cursor) outcome" where
  "resolve_target (InstructionTarget ident) from instructions cursors =
     ok_or (UnknownInstruction ident) (bm_get cursors ident)"
| "resolve_target (ByteTarget source offset) from instructions cursors =
     resolve_position source ByteUnit offset from (enumerate 0 instructions)"
| "resolve_target (TokenTarget source index) from instructions cursors =
     resolve_position source TokenUnit index from (enumerate 0 instructions)"

definition freeze_target :: "('i, 'id::linorder, 's) located_instruction list \<Rightarrow> ('id, code_cursor) bmap
    \<Rightarrow> ('id, 's) branch_target \<Rightarrow> ('id, code_cursor list) bmap \<Rightarrow> ('id code_error, ('id, code_cursor list) bmap) outcome" where
  "freeze_target instructions cursors target frozen =
     (if \<not> bm_contains_key (bt_from target) cursors then Err (UnknownInstruction (bt_from target))
      else bind_outcome (resolve_target (bt_to target) (bt_from target) instructions cursors)
        (\<lambda>cursor. Ok (bm_insert (bt_from target)
           ((case bm_get frozen (bt_from target) of Some cs \<Rightarrow> cs | None \<Rightarrow> []) @ [cursor]) frozen)))"

definition freeze_region :: "('i, 'id::linorder, 's) located_instruction list \<Rightarrow> ('id, code_cursor) bmap
    \<Rightarrow> ('id, 's) region_spec \<Rightarrow> ('id \<times> protected_region) list \<Rightarrow> ('id code_error, ('id \<times> protected_region) list) outcome" where
  "freeze_region instructions cursors region frozen =
     bind_outcome (ok_or (UnknownInstruction (rs_start region)) (bm_get cursors (rs_start region))) (\<lambda>start.
     bind_outcome (case rs_end region of
         Some stop \<Rightarrow> ok_or (UnknownInstruction stop) (bm_get cursors stop)
       | None \<Rightarrow> Ok (length instructions)) (\<lambda>end_index.
     if end_index \<le> start then Err (MalformedRegion (rs_start region) end_index)
     else bind_outcome (resolve_target (rs_handler region) (rs_start region) instructions cursors) (\<lambda>handler.
       Ok (frozen @ [(rs_start region, \<lparr>pr_start = start, pr_end_index = end_index, pr_handler = handler\<rparr>)]))))"

definition region_key :: "'id \<times> protected_region \<Rightarrow> usize \<times> usize" where
  "region_key r = (pr_start (snd r), usize_max - pr_end_index (snd r))"

fun check_windows :: "('id \<times> protected_region) list \<Rightarrow> ('id code_error, unit) outcome" where
  "check_windows ((first_id, earlier) # (second_id, later) # rest) =
     (let crosses = pr_start earlier < pr_start later \<and> pr_start later < pr_end_index earlier \<and>
                    pr_end_index earlier < pr_end_index later;
          same_start_not_nested = pr_start earlier = pr_start later \<and> pr_end_index earlier = pr_end_index later in
      if crosses \<or> same_start_not_nested then Err (OverlappingRegions first_id second_id)
      else check_windows ((second_id, later) # rest))"
| "check_windows _ = Ok ()"

definition freeze :: "('i \<Rightarrow> 'id::linorder) \<Rightarrow> ('i, 'id, 's) located_instruction list \<Rightarrow> ('id, 's) branch_target list
    \<Rightarrow> ('id, 's) region_spec list \<Rightarrow> ('id code_error, ('i, 'id, 's) located_code) outcome" where
  "freeze instruction_id instructions targets regions =
     (if instructions = [] then Err EmptyCode
      else bind_outcome (freeze_cursors instruction_id instructions) (\<lambda>cursors.
        bind_outcome (for_each (freeze_target instructions cursors) targets bm_empty) (\<lambda>frozen_targets.
        bind_outcome (for_each (freeze_region instructions cursors) regions []) (\<lambda>frozen.
        let frozen_regions = sort_key region_key frozen in
        bind_outcome (check_windows frozen_regions) (\<lambda>_.
          Ok \<lparr>lc_instructions = instructions, lc_cursors = cursors, lc_targets = frozen_targets,
              lc_regions = map snd frozen_regions\<rparr>)))))"

section \<open>Queries on frozen code\<close>

definition entry :: "('i, 'id::linorder, 's) located_code \<Rightarrow> code_cursor" where
  "entry code = 0"

definition cursor_of :: "('i, 'id::linorder, 's) located_code \<Rightarrow> 'id \<Rightarrow> code_cursor option" where
  "cursor_of code ident = bm_get (lc_cursors code) ident"

definition instruction_at :: "('i, 'id::linorder, 's) located_code \<Rightarrow> code_cursor \<Rightarrow> ('e, ('i, 'id, 's) located_instruction) outcome" where
  "instruction_at code cursor =
     (if cursor < length (lc_instructions code) then Ok (lc_instructions code ! cursor)
      else Panic ''index out of bounds'')"

definition next_cursor :: "('i, 'id::linorder, 's) located_code \<Rightarrow> code_cursor \<Rightarrow> code_cursor option" where
  "next_cursor code cursor = (if cursor + 1 < length (lc_instructions code) then Some (cursor + 1) else None)"

definition branch_targets :: "('i, 'id::linorder, 's) located_code \<Rightarrow> 'id \<Rightarrow> code_cursor list" where
  "branch_targets code from = (case bm_get (lc_targets code) from of Some cs \<Rightarrow> cs | None \<Rightarrow> [])"

text \<open>\<open>Iterator::max_by_key\<close>: the last of the elements with the greatest key.\<close>

definition max_by_key :: "('a \<Rightarrow> 'k::linorder) \<Rightarrow> 'a list \<Rightarrow> 'a option" where
  "max_by_key key xs = fold (\<lambda>x best. case best of None \<Rightarrow> Some x | Some y \<Rightarrow> if key y \<le> key x then Some x else Some y) xs None"

definition region_contains :: "code_cursor \<Rightarrow> protected_region \<Rightarrow> bool" where
  "region_contains cursor region \<longleftrightarrow> pr_start region \<le> cursor \<and> cursor < pr_end_index region"

definition innermost_protected_region :: "('i, 'id::linorder, 's) located_code \<Rightarrow> code_cursor \<Rightarrow> protected_region option" where
  "innermost_protected_region code cursor =
     max_by_key pr_start (filter (region_contains cursor) (lc_regions code))"

section \<open>What freezing guarantees\<close>

abbreviation range_start :: "'s source_location \<Rightarrow> usize" where
  "range_start l \<equiv> fst (snd (location_range l))"

abbreviation range_stop :: "'s source_location \<Rightarrow> usize" where
  "range_stop l \<equiv> snd (snd (location_range l))"

definition instructions_ok :: "('i \<Rightarrow> 'id) \<Rightarrow> ('i, 'id, 's) located_instruction list \<Rightarrow> bool" where
  "instructions_ok instruction_id ls \<longleftrightarrow>
     (\<forall>l \<in> set ls. instruction_id (li_instruction l) = li_id l \<and> range_start (li_location l) < range_stop (li_location l)) \<and>
     distinct (map li_id ls) \<and>
     sorted_wrt (\<lambda>a b. \<not> locations_overlap (li_location a) (li_location b)) ls"

definition cursors_ok :: "('i, 'id::linorder, 's) located_instruction list \<Rightarrow> ('id, code_cursor) bmap \<Rightarrow> bool" where
  "cursors_ok ls cursors \<longleftrightarrow> (\<forall>k i. bm_get cursors k = Some i \<longleftrightarrow> i < length ls \<and> li_id (ls ! i) = k)"

definition region_ok :: "nat \<Rightarrow> protected_region \<Rightarrow> bool" where
  "region_ok n r \<longleftrightarrow> pr_start r < pr_end_index r \<and> pr_end_index r \<le> n \<and> pr_handler r < n"

definition region_order :: "protected_region \<Rightarrow> protected_region \<Rightarrow> bool" where
  "region_order a b \<longleftrightarrow> pr_start a < pr_start b \<or> (pr_start a = pr_start b \<and> pr_end_index b < pr_end_index a)"

definition located_code_ok :: "('i \<Rightarrow> 'id::linorder) \<Rightarrow> ('i, 'id, 's) located_code \<Rightarrow> bool" where
  "located_code_ok instruction_id code \<longleftrightarrow>
     lc_instructions code \<noteq> [] \<and> instructions_ok instruction_id (lc_instructions code) \<and>
     cursors_ok (lc_instructions code) (lc_cursors code) \<and>
     (\<forall>from cs. bm_get (lc_targets code) from = Some cs \<longrightarrow>
        (\<exists>i. bm_get (lc_cursors code) from = Some i) \<and> cs \<noteq> [] \<and> (\<forall>c \<in> set cs. c < length (lc_instructions code))) \<and>
     (\<forall>r \<in> set (lc_regions code). region_ok (length (lc_instructions code)) r) \<and>
     sorted_wrt region_order (lc_regions code)"

lemma check_previous_loop:
  "for_each (check_previous located) ps () = Ok u \<longleftrightarrow>
     (\<forall>l \<in> set ps. \<not> locations_overlap (li_location l) (li_location located))"
  by (induction ps) (auto simp: check_previous_def outcome_simps)

lemma freeze_cursors_prefix:
  assumes "for_each (freeze_instruction instruction_id (ls @ rest)) (enumerate 0 ls) bm_empty = Ok cursors"
  shows "instructions_ok instruction_id ls \<and> cursors_ok ls cursors"
  using assms
proof (induction ls arbitrary: rest cursors rule: rev_induct)
  case Nil
  then show ?case by (auto simp: instructions_ok_def cursors_ok_def)
next
  case (snoc x ls)
  from snoc.prems obtain c where
    c: "for_each (freeze_instruction instruction_id (ls @ x # rest)) (enumerate 0 ls) bm_empty = Ok c"
    and step: "freeze_instruction instruction_id (ls @ x # rest) (length ls, x) c = Ok cursors"
    by (auto simp: enumerate_append_eq for_each_append outcome_simps)
  note IH = snoc.IH[OF c]
  from step have step: "instruction_id (li_instruction x) = li_id x" "li_id x \<notin> set (bm_keys c)"
    "range_start (li_location x) < range_stop (li_location x)"
    "\<forall>l \<in> set ls. \<not> locations_overlap (li_location l) (li_location x)"
    "cursors = bm_insert (li_id x) (length ls) c"
    by (auto simp: freeze_instruction_def Let_def check_previous_loop bm_contains_key_def outcome_simps
        split: if_splits prod.splits)
  have fresh: "li_id x \<notin> li_id ` set ls"
  proof
    assume "li_id x \<in> li_id ` set ls"
    then obtain i where "i < length ls" "li_id (ls ! i) = li_id x" by (auto simp: in_set_conv_nth)
    with IH have "bm_get c (li_id x) = Some i" by (simp add: cursors_ok_def)
    with step(2) show False by (simp add: in_bm_keys_iff)
  qed
  have "cursors_ok (ls @ [x]) cursors"
    unfolding cursors_ok_def
  proof (intro allI)
    fix k i
    have "bm_get c k = Some i \<longleftrightarrow> i < length ls \<and> li_id (ls ! i) = k" for k i
      using IH by (simp add: cursors_ok_def)
    moreover have "li_id (ls ! i) \<noteq> li_id x" if "i < length ls" for i
      using fresh that nth_mem by (metis imageI)
    ultimately show "bm_get cursors k = Some i \<longleftrightarrow> i < length (ls @ [x]) \<and> li_id ((ls @ [x]) ! i) = k"
      using step(5) by (auto simp: nth_append less_Suc_eq)
  qed
  moreover have "instructions_ok instruction_id (ls @ [x])"
    using IH step fresh by (simp add: instructions_ok_def sorted_wrt_append)
  ultimately show ?case by blast
qed

lemma freeze_cursors_ok:
  "freeze_cursors instruction_id ls = Ok cursors \<Longrightarrow> instructions_ok instruction_id ls \<and> cursors_ok ls cursors"
  using freeze_cursors_prefix[of instruction_id ls "[]"] by (simp add: freeze_cursors_def)

text \<open>A raw position at the start of a location, and strictly inside it.\<close>

definition at_start :: "'s \<Rightarrow> location_unit \<Rightarrow> usize \<Rightarrow> 's source_location \<Rightarrow> bool" where
  "at_start source unit position l \<longleftrightarrow>
     location_source l = source \<and> fst (location_range l) = unit \<and> position = range_start l"

definition strictly_inside :: "'s \<Rightarrow> location_unit \<Rightarrow> usize \<Rightarrow> 's source_location \<Rightarrow> bool" where
  "strictly_inside source unit position l \<longleftrightarrow>
     location_source l = source \<and> fst (location_range l) = unit \<and> range_start l < position \<and> position < range_stop l"

lemma resolve_position_Cons:
  "resolve_position source unit position from ((i, l) # rest) =
     (if at_start source unit position (li_location l) then Ok i
      else if strictly_inside source unit position (li_location l) then Err (InteriorTarget from position (li_id l))
      else resolve_position source unit position from rest)"
  by (cases "location_range (li_location l)") (auto simp: at_start_def strictly_inside_def)

declare resolve_position.simps(2) [simp del]

lemma resolve_position_bound:
  assumes "resolve_position source unit position from xs = Ok c"
  shows "\<exists>l. (c, l) \<in> set xs \<and> at_start source unit position (li_location l)"
  using assms
proof (induction xs)
  case (Cons x xs)
  then show ?case by (cases x) (auto simp: resolve_position_Cons split: if_splits)
qed simp

lemma resolve_position_first:
  assumes "k < length ls" "\<forall>j < k. \<not> at_start source unit position (li_location (ls ! j)) \<and>
      \<not> strictly_inside source unit position (li_location (ls ! j))"
    and "at_start source unit position (li_location (ls ! k)) \<or> strictly_inside source unit position (li_location (ls ! k))"
  shows "resolve_position source unit position from (enumerate n ls) =
    (if at_start source unit position (li_location (ls ! k)) then Ok (n + k)
     else Err (InteriorTarget from position (li_id (ls ! k))))"
  using assms
proof (induction ls arbitrary: n k)
  case (Cons l ls)
  show ?case
  proof (cases k)
    case 0
    with Cons.prems show ?thesis by (auto simp: resolve_position_Cons)
  next
    case (Suc m)
    with Cons.prems(2) have "\<not> at_start source unit position (li_location l)"
      "\<not> strictly_inside source unit position (li_location l)" by (auto dest: spec[of _ 0])
    moreover have "\<forall>j < m. \<not> at_start source unit position (li_location (ls ! j)) \<and>
      \<not> strictly_inside source unit position (li_location (ls ! j))"
      using Cons.prems(2) Suc by auto
    ultimately show ?thesis using Cons.IH[of m "Suc n"] Cons.prems Suc by (simp add: resolve_position_Cons)
  qed
qed simp

lemma resolve_position_none:
  assumes "\<forall>l \<in> set ls. \<not> at_start source unit position (li_location l) \<and> \<not> strictly_inside source unit position (li_location l)"
  shows "resolve_position source unit position from (enumerate n ls) = Err (OutOfRangeTarget from position)"
  using assms by (induction ls arbitrary: n) (auto simp: resolve_position_Cons)

lemma covering_overlap:
  assumes "at_start source unit position a \<or> strictly_inside source unit position a"
    and "at_start source unit position b \<or> strictly_inside source unit position b"
    and "range_start a < range_stop a" "range_start b < range_stop b"
  shows "locations_overlap a b" "locations_overlap b a"
  using assms
  by (auto simp: at_start_def strictly_inside_def locations_overlap_def split: prod.splits)

lemma covering_unique:
  assumes ok: "instructions_ok instruction_id ls" and ij: "i < length ls" "j < length ls"
    and "at_start source unit position (li_location (ls ! i)) \<or> strictly_inside source unit position (li_location (ls ! i))"
    and "at_start source unit position (li_location (ls ! j)) \<or> strictly_inside source unit position (li_location (ls ! j))"
  shows "i = j"
proof (rule ccontr)
  assume "i \<noteq> j"
  have "range_start (li_location (ls ! i)) < range_stop (li_location (ls ! i))"
    "range_start (li_location (ls ! j)) < range_stop (li_location (ls ! j))"
    using ok ij by (simp_all add: instructions_ok_def)
  note overlap = covering_overlap[OF assms(4,5) this]
  from \<open>i \<noteq> j\<close> consider "i < j" | "j < i" by linarith
  then show False
    using overlap ok ij by cases (auto simp: instructions_ok_def sorted_wrt_iff_nth_less)
qed

lemma resolve_target_bound:
  assumes "cursors_ok ls cursors" "resolve_target to from ls cursors = Ok c"
  shows "c < length ls"
  using assms
  by (cases to) (auto simp: cursors_ok_def outcome_simps in_set_enumerate_eq dest!: resolve_position_bound)

lemma freeze_targets_ok:
  assumes c: "cursors_ok ls cursors"
    and run: "for_each (freeze_target ls cursors) targets bm_empty = Ok frozen"
    and g: "bm_get frozen from = Some cs"
  shows "(\<exists>i. bm_get cursors from = Some i) \<and> cs \<noteq> [] \<and> (\<forall>c \<in> set cs. c < length ls)"
proof -
  let ?I = "\<lambda>fr. \<forall>from cs. bm_get fr from = Some cs \<longrightarrow>
    (\<exists>i. bm_get cursors from = Some i) \<and> cs \<noteq> [] \<and> (\<forall>c \<in> set cs. c < length ls)"
  have "?I frozen"
  proof (rule for_each_invariant[OF run, where I = ?I])
    fix x u v assume I: "?I u" and x: "freeze_target ls cursors x u = Ok v"
    from x obtain c where res: "resolve_target (bt_to x) (bt_from x) ls cursors = Ok c"
      and v: "v = bm_insert (bt_from x) ((case bm_get u (bt_from x) of Some cs \<Rightarrow> cs | None \<Rightarrow> []) @ [c]) u"
      and k: "\<exists>i. bm_get cursors (bt_from x) = Some i"
      by (auto simp: freeze_target_def outcome_simps bm_contains_key_def in_bm_keys_iff split: if_splits)
    show "?I v"
      using I k resolve_target_bound[OF c res] by (cases "bm_get u (bt_from x)") (auto simp: v)
  qed simp
  with g show ?thesis by blast
qed

lemma freeze_regions_ok:
  assumes c: "cursors_ok ls cursors"
    and run: "for_each (freeze_region ls cursors) regions [] = Ok frozen"
  shows "\<forall>r \<in> set frozen. region_ok (length ls) (snd r)"
proof (rule for_each_invariant[OF run, where I = "\<lambda>fr. \<forall>r \<in> set fr. region_ok (length ls) (snd r)"])
  fix x u v assume I: "\<forall>r \<in> set u. region_ok (length ls) (snd r)" and x: "freeze_region ls cursors x u = Ok v"
  have bound: "i \<le> length ls" if "bm_get cursors k = Some i" for k i
    using c that by (simp add: cursors_ok_def)
  from x obtain start stop handler where
    v: "v = u @ [(rs_start x, \<lparr>pr_start = start, pr_end_index = stop, pr_handler = handler\<rparr>)]"
    and r: "start < stop" "stop \<le> length ls" "resolve_target (rs_handler x) (rs_start x) ls cursors = Ok handler"
    by (cases "rs_end x") (auto simp: freeze_region_def outcome_simps split: if_splits dest!: bound)
  with I resolve_target_bound[OF c r(3)] show "\<forall>r \<in> set v. region_ok (length ls) (snd r)"
    by (simp add: region_ok_def)
qed simp

lemma check_windows_sorted:
  assumes "check_windows rs = Ok u" "sorted_wrt (\<lambda>a b. region_key a \<le> region_key b) rs"
    and "\<forall>r \<in> set rs. pr_end_index (snd r) \<le> usize_max"
  shows "sorted_wrt (\<lambda>a b. region_order (snd a) (snd b)) rs"
  using assms
proof (induction rs rule: check_windows.induct)
  case (1 i a j b rs)
  have ord: "region_order a b"
    using "1.prems" by (auto simp: region_order_def region_key_def Let_def split: if_splits)
  have IH: "sorted_wrt (\<lambda>a b. region_order (snd a) (snd b)) ((j, b) # rs)"
    using "1.IH" "1.prems" by (auto simp: Let_def split: if_splits)
  have "region_order a (snd r)" if "r \<in> set rs" for r
  proof -
    from IH that have "region_order b (snd r)" by simp
    with ord show ?thesis by (auto simp: region_order_def)
  qed
  with ord IH show ?case by auto
qed auto

lemma max_by_key_sorted:
  assumes "sorted (map key xs)"
  shows "max_by_key key xs = (if xs = [] then None else Some (last xs))"
proof -
  have "fold (\<lambda>x best. case best of None \<Rightarrow> Some x | Some y \<Rightarrow> if key y \<le> key x then Some x else Some y) xs None =
      (if xs = [] then None else Some (last xs))"
    using assms
  proof (induction xs rule: rev_induct)
    case (snoc x xs)
    then have "xs \<noteq> [] \<Longrightarrow> key (last xs) \<le> key x" by (simp add: sorted_append)
    with snoc show ?case by (auto simp: sorted_append)
  qed simp
  then show ?thesis by (simp add: max_by_key_def)
qed

lemma freeze_code_ok:
  assumes "length instructions \<le> usize_max" "freeze instruction_id instructions targets regions = Ok code"
  shows "located_code_ok instruction_id code" "lc_instructions code = instructions"
proof -
  from assms(2) obtain cursors fts frs where
    c: "freeze_cursors instruction_id instructions = Ok cursors"
    and t: "for_each (freeze_target instructions cursors) targets bm_empty = Ok fts"
    and r: "for_each (freeze_region instructions cursors) regions [] = Ok frs"
    and w: "check_windows (sort_key region_key frs) = Ok ()"
    and ne: "instructions \<noteq> []"
    and code: "code = \<lparr>lc_instructions = instructions, lc_cursors = cursors, lc_targets = fts,
        lc_regions = map snd (sort_key region_key frs)\<rparr>"
    by (auto simp: freeze_def outcome_simps Let_def split: if_splits)
  note cursors = freeze_cursors_ok[OF c]
  have regions: "\<forall>r \<in> set (sort_key region_key frs). region_ok (length instructions) (snd r)"
    using freeze_regions_ok[OF _ r] cursors by simp
  moreover have "\<forall>r \<in> set (sort_key region_key frs). pr_end_index (snd r) \<le> usize_max"
    using regions assms(1) by (auto simp: region_ok_def)
  moreover have "sorted_wrt (\<lambda>a b. region_key a \<le> region_key b) (sort_key region_key frs)"
    using sorted_sort_key[of region_key frs] by (simp add: sorted_wrt_map)
  ultimately have "sorted_wrt (\<lambda>a b. region_order (snd a) (snd b)) (sort_key region_key frs)"
    using check_windows_sorted[OF w] by blast
  then show "located_code_ok instruction_id code"
    using ne cursors regions freeze_targets_ok[OF _ t]
    by (simp add: located_code_ok_def code sorted_wrt_map)
  show "lc_instructions code = instructions" by (simp add: code)
qed

lemma innermost_last:
  assumes "located_code_ok instruction_id code"
  shows "innermost_protected_region code cursor =
    (let rs = filter (region_contains cursor) (lc_regions code) in if rs = [] then None else Some (last rs))"
    (is "_ = (let rs = ?rs in _)")
proof -
  have "sorted_wrt region_order ?rs"
    using assms by (simp add: located_code_ok_def sorted_wrt_filter)
  then have "sorted (map pr_start ?rs)"
    by (simp add: sorted_wrt_map, elim sorted_wrt_mono_rel[rotated]) (auto simp: region_order_def)
  then show ?thesis
    unfolding innermost_protected_region_def Let_def by (rule max_by_key_sorted)
qed

lemma innermost_member:
  assumes "located_code_ok instruction_id code" "innermost_protected_region code cursor = Some r"
  shows "r \<in> set (lc_regions code)" "region_contains cursor r"
proof -
  let ?rs = "filter (region_contains cursor) (lc_regions code)"
  have "?rs \<noteq> []" "r = last ?rs"
    using innermost_last[OF assms(1), of cursor] assms(2) by (auto simp: Let_def split: if_splits)
  then have "r \<in> set ?rs" using last_in_set by blast
  then show "r \<in> set (lc_regions code)" "region_contains cursor r" by auto
qed

lemma innermost_None:
  assumes "innermost_protected_region code cursor = None"
  shows "\<forall>r \<in> set (lc_regions code). \<not> region_contains cursor r"
proof -
  have "fold (\<lambda>x best. case best of None \<Rightarrow> Some x | Some y \<Rightarrow> if pr_start y \<le> pr_start x then Some x else Some y) xs (Some b) \<noteq> None"
    for xs and b :: protected_region
    by (induction xs arbitrary: b) auto
  then have "max_by_key pr_start xs = None \<Longrightarrow> xs = []" for xs :: "protected_region list"
    by (cases xs) (auto simp: max_by_key_def)
  from this[OF assms[unfolded innermost_protected_region_def]] show ?thesis by (simp add: filter_empty_conv)
qed

section \<open>Properties\<close>

text \<open>
  C32: freezing code establishes the type of frozen code: it is not empty, identities are those of the
  policy and distinct, source ranges are proper and disjoint, the cursor map is exactly the inverse
  of the identities, and every branch target, region bound and handler is an instruction boundary.
\<close>

theorem freeze_sound:
  assumes "length instructions \<le> usize_max" "freeze instruction_id instructions targets regions = Ok code"
  shows "located_code_ok instruction_id code \<and> lc_instructions code = instructions \<and>
    (\<forall>ident c. cursor_of code ident = Some c \<longleftrightarrow> c < length instructions \<and> li_id (instructions ! c) = ident) \<and>
    (\<forall>from. \<forall>c \<in> set (branch_targets code from). c < length instructions)"
proof -
  note ok = freeze_code_ok[OF assms]
  have "c < length instructions" if "c \<in> set (branch_targets code from)" for "from" c
    using ok that by (cases "bm_get (lc_targets code) from") (auto simp: branch_targets_def located_code_ok_def)
  moreover have "cursor_of code ident = Some c \<longleftrightarrow> c < length instructions \<and> li_id (instructions ! c) = ident" for ident c
    using ok by (simp add: cursor_of_def located_code_ok_def cursors_ok_def)
  ultimately show ?thesis using ok by blast
qed

text \<open>
  A raw branch target resolves exactly: on code with disjoint locations, a byte position is
  accepted as the cursor of the instruction that starts there, refused as an interior target of the
  instruction that strictly contains it, and refused as out of range otherwise, whatever the order
  in which the instructions are listed.
\<close>

theorem resolve_target_exact:
  assumes "instructions_ok instruction_id ls"
  shows "case resolve_target (ByteTarget source position) from ls cursors of
      Ok c \<Rightarrow> c < length ls \<and> at_start source ByteUnit position (li_location (ls ! c)) \<and>
        (\<forall>i < length ls. at_start source ByteUnit position (li_location (ls ! i)) \<longrightarrow> i = c)
    | Err e \<Rightarrow>
        (\<forall>l \<in> set ls. \<not> at_start source ByteUnit position (li_location l)) \<and>
        ((\<exists>l \<in> set ls. strictly_inside source ByteUnit position (li_location l) \<and> e = InteriorTarget from position (li_id l)) \<or>
         (\<forall>l \<in> set ls. \<not> strictly_inside source ByteUnit position (li_location l)) \<and> e = OutOfRangeTarget from position)
    | Panic p \<Rightarrow> False"
proof (cases "\<exists>k < length ls. at_start source ByteUnit position (li_location (ls ! k)) \<or>
    strictly_inside source ByteUnit position (li_location (ls ! k))")
  case True
  then obtain k where k: "k < length ls" "at_start source ByteUnit position (li_location (ls ! k)) \<or>
    strictly_inside source ByteUnit position (li_location (ls ! k))" by blast
  have only: "i = k" if "i < length ls" "at_start source ByteUnit position (li_location (ls ! i)) \<or>
    strictly_inside source ByteUnit position (li_location (ls ! i))" for i
    using covering_unique[OF assms that(1) k(1) that(2) k(2)] .
  have before: "\<forall>j < k. \<not> at_start source ByteUnit position (li_location (ls ! j)) \<and>
      \<not> strictly_inside source ByteUnit position (li_location (ls ! j))"
    using only k(1) by (metis less_irrefl less_trans)
  have run: "resolve_target (ByteTarget source position) from ls cursors =
    (if at_start source ByteUnit position (li_location (ls ! k)) then Ok k
     else Err (InteriorTarget from position (li_id (ls ! k))))"
    using resolve_position_first[OF k(1) before k(2), of "from" 0] by simp
  show ?thesis
  proof (cases "at_start source ByteUnit position (li_location (ls ! k))")
    case True
    with run have eq: "resolve_target (ByteTarget source position) from ls cursors = Ok k" by simp
    show ?thesis unfolding eq outcome.case using True k(1) only by blast
  next
    case False
    have "\<not> at_start source ByteUnit position (li_location l)" if "l \<in> set ls" for l
      using that only False by (auto simp: in_set_conv_nth)
    moreover have eq: "resolve_target (ByteTarget source position) from ls cursors =
        Err (InteriorTarget from position (li_id (ls ! k)))" using run False by simp
    ultimately show ?thesis unfolding eq outcome.case using False k(2) nth_mem[OF k(1)] by blast
  qed
next
  case False
  then have "\<forall>l \<in> set ls. \<not> at_start source ByteUnit position (li_location l) \<and>
    \<not> strictly_inside source ByteUnit position (li_location l)" by (auto simp: in_set_conv_nth)
  with resolve_position_none[OF this, of "from" 0] show ?thesis by simp
qed

text \<open>
  The region selected for a cursor contains it and comes after every other region that contains
  the cursor: the others start earlier, or start together with it and end later. No region is
  selected only when none contains the cursor.
\<close>

theorem innermost_region_exact:
  assumes "located_code_ok instruction_id code"
  shows "case innermost_protected_region code cursor of
      Some r \<Rightarrow> r \<in> set (lc_regions code) \<and> region_contains cursor r \<and>
        (\<forall>q \<in> set (lc_regions code). region_contains cursor q \<longrightarrow> q = r \<or> region_order q r)
    | None \<Rightarrow> (\<forall>q \<in> set (lc_regions code). \<not> region_contains cursor q)"
proof -
  let ?rs = "filter (region_contains cursor) (lc_regions code)"
  have sorted: "sorted_wrt region_order ?rs"
    using assms by (simp add: located_code_ok_def sorted_wrt_filter)
  show ?thesis
  proof (cases "?rs = []")
    case True
    then show ?thesis using innermost_last[OF assms, of cursor] by (simp add: filter_empty_conv)
  next
    case False
    then have split: "?rs = butlast ?rs @ [last ?rs]" by simp
    have "q = last ?rs \<or> region_order q (last ?rs)" if "q \<in> set ?rs" for q
    proof -
      from that split have "q \<in> set (butlast ?rs) \<or> q = last ?rs"
        by (metis UnE empty_iff list.set(1,2) insertE set_append)
      moreover have "\<forall>q \<in> set (butlast ?rs). region_order q (last ?rs)"
        using sorted split by (metis list.set_intros(1) sorted_wrt_append)
      ultimately show ?thesis by blast
    qed
    moreover have "last ?rs \<in> set ?rs" using False by (rule last_in_set)
    ultimately show ?thesis using innermost_last[OF assms, of cursor] False by auto
  qed
qed

section \<open>Concrete code\<close>

definition demo_location :: "usize \<Rightarrow> usize \<Rightarrow> string source_location" where
  "demo_location a b = Bytes \<lparr>origin_source = ''unit'', origin_start = a, origin_end = b\<rparr>"

definition demo_instruction :: "nat \<Rightarrow> usize \<Rightarrow> usize \<Rightarrow> (nat, nat, string) located_instruction" where
  "demo_instruction k a b = \<lparr>li_instruction = k, li_id = k, li_location = demo_location a b,
     li_safepoint = (k = 11), li_coverage = None\<rparr>"

definition demo_instructions :: "(nat, nat, string) located_instruction list" where
  "demo_instructions = [demo_instruction 10 0 2, demo_instruction 11 2 3, demo_instruction 12 3 6, demo_instruction 13 6 7]"

definition demo_targets :: "(nat, string) branch_target list" where
  "demo_targets = [\<lparr>bt_from = 10, bt_to = ByteTarget ''unit'' 3\<rparr>, \<lparr>bt_from = 10, bt_to = InstructionTarget 13\<rparr>]"

definition demo_region :: "nat \<Rightarrow> nat option \<Rightarrow> (nat, string) region_spec" where
  "demo_region a b = \<lparr>rs_start = a, rs_end = b, rs_handler = InstructionTarget 13\<rparr>"

definition demo_code :: "(nat, nat, string) located_code" where
  "demo_code = (case freeze id demo_instructions demo_targets [demo_region 11 (Some 12), demo_region 10 (Some 13)] of
     Ok code \<Rightarrow> code | _ \<Rightarrow> \<lparr>lc_instructions = [], lc_cursors = bm_empty, lc_targets = bm_empty, lc_regions = []\<rparr>)"

lemma demo_code_frozen:
  "freeze id demo_instructions demo_targets [demo_region 11 (Some 12), demo_region 10 (Some 13)] = Ok demo_code"
proof -
  have "case freeze id demo_instructions demo_targets [demo_region 11 (Some 12), demo_region 10 (Some 13)] of
     Ok _ \<Rightarrow> True | _ \<Rightarrow> False" by code_simp
  then show ?thesis by (auto simp: demo_code_def split: outcome.splits)
qed

lemma demo_small: "length demo_instructions \<le> usize_max"
  by (simp add: demo_instructions_def usize_max_def)

lemma demo_code_ok: "located_code_ok id demo_code" "lc_instructions demo_code = demo_instructions"
  using freeze_code_ok[OF demo_small demo_code_frozen] by blast+

theorem freeze_sound_witness:
  "located_code_ok id demo_code \<and> branch_targets demo_code 10 = [2, 3] \<and> cursor_of demo_code 12 = Some 2"
proof -
  have "branch_targets demo_code 10 = [2, 3]" by code_simp
  moreover have "2 < length demo_instructions \<and> li_id (demo_instructions ! 2) = 12" by code_simp
  ultimately show ?thesis using freeze_sound[OF demo_small demo_code_frozen] by blast
qed

theorem resolve_target_exact_witness:
  "instructions_ok id demo_instructions \<and>
   resolve_target (ByteTarget ''unit'' 5) 10 demo_instructions bm_empty = Err (InteriorTarget 10 5 12)"
proof -
  have ok: "instructions_ok id demo_instructions"
    using demo_code_ok by (simp add: located_code_ok_def)
  have "case resolve_target (ByteTarget ''unit'' 5) 10 demo_instructions bm_empty of
      Err e \<Rightarrow> e = InteriorTarget 10 5 12 | _ \<Rightarrow> False" by code_simp
  with resolve_target_exact[OF ok, of "''unit''" 5 10 bm_empty] ok show ?thesis
    by (auto split: outcome.splits)
qed

theorem innermost_region_exact_witness:
  "located_code_ok id demo_code \<and>
   innermost_protected_region demo_code 1 = Some \<lparr>pr_start = 1, pr_end_index = 2, pr_handler = 3\<rparr> \<and>
   (\<forall>q \<in> set (lc_regions demo_code). region_contains 1 q \<longrightarrow>
      q = \<lparr>pr_start = 1, pr_end_index = 2, pr_handler = 3\<rparr> \<or>
      region_order q \<lparr>pr_start = 1, pr_end_index = 2, pr_handler = 3\<rparr>)"
proof -
  have "innermost_protected_region demo_code 1 = Some \<lparr>pr_start = 1, pr_end_index = 2, pr_handler = 3\<rparr>"
    by code_simp
  with innermost_region_exact[OF demo_code_ok(1), of 1] demo_code_ok(1) show ?thesis by simp
qed

text \<open>
  The overlap check compares only regions that are neighbours after sorting. With a third region
  between them, two regions that cross are accepted, although a crossing pair alone is refused.
\<close>

definition crossing :: "protected_region \<Rightarrow> protected_region \<Rightarrow> bool" where
  "crossing a b \<longleftrightarrow> pr_start a < pr_start b \<and> pr_start b < pr_end_index a \<and> pr_end_index a < pr_end_index b"

theorem freeze_accepts_crossing_regions:
  "(case freeze id demo_instructions [] [demo_region 10 (Some 13), demo_region 11 (Some 12), demo_region 12 None] of
      Ok code \<Rightarrow> list_ex (\<lambda>a. list_ex (crossing a) (lc_regions code)) (lc_regions code)
    | _ \<Rightarrow> False) \<and>
   freeze id demo_instructions [] [demo_region 10 (Some 13), demo_region 12 None] = Err (OverlappingRegions 10 12)"
proof
  show "case freeze id demo_instructions [] [demo_region 10 (Some 13), demo_region 11 (Some 12), demo_region 12 None] of
      Ok code \<Rightarrow> list_ex (\<lambda>a. list_ex (crossing a) (lc_regions code)) (lc_regions code)
    | _ \<Rightarrow> False" by code_simp
  have "case freeze id demo_instructions [] [demo_region 10 (Some 13), demo_region 12 None] of
      Err e \<Rightarrow> e = OverlappingRegions 10 12 | _ \<Rightarrow> False" by code_simp
  then show "freeze id demo_instructions [] [demo_region 10 (Some 13), demo_region 12 None] = Err (OverlappingRegions 10 12)"
    by (auto split: outcome.splits)
qed

end
