(* ===== verification/Machine_Driver.thy ===== *)
theory Machine_Driver
  imports Machine_Code
begin

text \<open>
  Activations, admission and the bounded driver of the decoded-instruction machine:
  \<open>sim-lib-machine/src/frame.rs\<close>, \<open>managed.rs\<close>, \<open>admission.rs\<close>, \<open>driver.rs\<close>, and the cleanup
  stack of \<open>sim-lib-control/src/unwind.rs\<close> that the driver unwinds. A consumer's instruction
  policy is the argument \<open>step\<close>: it maps its own state, an instruction and the current frame to
  its next state, the changed frame and an outcome. The content identity of a machine
  description, computed by the kernel from its canonical datum, is the argument \<open>content_id\<close>.
  Allocation is not modelled.
\<close>

section \<open>Frames (frame.rs)\<close>

record ('v, 'k, 'r, 'h) activation_frame =
  fr_slots :: "'v slot_file"
  fr_operands :: "'v unit_stack"
  fr_cursor :: code_cursor
  fr_continuation :: "'k option"
  fr_roots :: 'r
  fr_handlers :: 'h

definition activation_new :: "usize \<Rightarrow> usize \<Rightarrow> code_cursor \<Rightarrow> 'k option \<Rightarrow> 'r \<Rightarrow> 'h \<Rightarrow> ('v, 'k, 'r, 'h) activation_frame" where
  "activation_new slot_lim operand_limit cursor continuation roots handlers =
     \<lparr>fr_slots = slot_file_new slot_lim, fr_operands = stack_new operand_limit, fr_cursor = cursor,
      fr_continuation = continuation, fr_roots = roots, fr_handlers = handlers\<rparr>"

definition frame_set_cursor :: "code_cursor \<Rightarrow> ('v, 'k, 'r, 'h) activation_frame \<Rightarrow> ('v, 'k, 'r, 'h) activation_frame" where
  "frame_set_cursor cursor f = f\<lparr>fr_cursor := cursor\<rparr>"

datatype frame_stack_error = DepthExhausted (exhausted_depth: usize) (exhausted_limit: usize)

record 'f frame_stack =
  fs_frames :: "'f list"
  fs_limit :: usize

definition frames_new :: "usize \<Rightarrow> 'f frame_stack" where
  "frames_new limit = \<lparr>fs_frames = [], fs_limit = limit\<rparr>"

definition frames_depth :: "'f frame_stack \<Rightarrow> usize" where
  "frames_depth s = length (fs_frames s)"

definition frames_push :: "'f \<Rightarrow> 'f frame_stack \<Rightarrow> (frame_stack_error, 'f frame_stack) outcome" where
  "frames_push f s =
     (if fs_limit s \<le> length (fs_frames s) then Err (DepthExhausted (length (fs_frames s)) (fs_limit s))
      else Ok (s\<lparr>fs_frames := fs_frames s @ [f]\<rparr>))"

definition frames_pop :: "'f frame_stack \<Rightarrow> ('f \<times> 'f frame_stack) option" where
  "frames_pop s = (if fs_frames s = [] then None
     else Some (last (fs_frames s), s\<lparr>fs_frames := butlast (fs_frames s)\<rparr>))"

definition frames_current :: "'f frame_stack \<Rightarrow> 'f option" where
  "frames_current s = (if fs_frames s = [] then None else Some (last (fs_frames s)))"

text \<open>Writing through \<open>current_mut\<close>.\<close>

definition set_current :: "'f \<Rightarrow> 'f frame_stack \<Rightarrow> 'f frame_stack" where
  "set_current f s = (if fs_frames s = [] then s else s\<lparr>fs_frames := butlast (fs_frames s) @ [f]\<rparr>)"

definition frames_visit :: "('f \<Rightarrow> 'b \<Rightarrow> 'b) \<Rightarrow> 'f frame_stack \<Rightarrow> 'b \<Rightarrow> 'b" where
  "frames_visit visit s = fold visit (fs_frames s)"

definition frame_stack_ok :: "'f frame_stack \<Rightarrow> bool" where
  "frame_stack_ok s \<longleftrightarrow> length (fs_frames s) \<le> fs_limit s"

interpretation activation_stack: bounded_lifo frame_stack_ok fs_frames
  "\<lambda>fs s. length (fs_frames s) + length fs \<le> fs_limit s" frames_push frames_pop
  by unfold_locales (auto simp: frame_stack_ok_def frames_push_def frames_pop_def)

text \<open>Transfer packets: values with one nonzero width each.\<close>

datatype transfer_error = WidthCountMismatch | TransferZeroWidth

record ('v, 'c) call_transfer =
  ct_values :: "'v list"
  ct_widths :: "usize list"
  ct_target :: 'c

record 'v return_transfer =
  rt_values :: "'v list"
  rt_widths :: "usize list"

datatype ('v, 'c) transfer = CallWith "('v, 'c) call_transfer" | ReturnWith "'v return_transfer"

definition validate_widths :: "'v list \<Rightarrow> usize list \<Rightarrow> (transfer_error, unit) outcome" where
  "validate_widths vs widths =
     (if length vs \<noteq> length widths then Err WidthCountMismatch
      else if 0 \<in> set widths then Err TransferZeroWidth else Ok ())"

definition call_transfer_new :: "'v list \<Rightarrow> usize list \<Rightarrow> 'c \<Rightarrow> (transfer_error, ('v, 'c) call_transfer) outcome" where
  "call_transfer_new vs widths target = bind_outcome (validate_widths vs widths)
     (\<lambda>_. Ok \<lparr>ct_values = vs, ct_widths = widths, ct_target = target\<rparr>)"

definition return_transfer_new :: "'v list \<Rightarrow> usize list \<Rightarrow> (transfer_error, 'v return_transfer) outcome" where
  "return_transfer_new vs widths = bind_outcome (validate_widths vs widths)
     (\<lambda>_. Ok \<lparr>rt_values = vs, rt_widths = widths\<rparr>)"

section \<open>Managed roots (managed.rs, frame.rs)\<close>

text \<open>A visitor answers whether it accepts more roots; a source stops at the first refusal.\<close>

type_synonym ('id, 's) visitor = "'id \<Rightarrow> 's \<Rightarrow> bool \<times> 's"

definition visit_managed_id :: "('id, 's) visitor \<Rightarrow> 'id \<Rightarrow> 's \<Rightarrow> bool \<times> 's" where
  "visit_managed_id visit ident s = visit ident s"

definition visit_unit :: "('id, 's) visitor \<Rightarrow> unit \<Rightarrow> 's \<Rightarrow> bool \<times> 's" where
  "visit_unit visit u s = (True, s)"

definition visit_option :: "(('id, 's) visitor \<Rightarrow> 'a \<Rightarrow> 's \<Rightarrow> bool \<times> 's) \<Rightarrow> ('id, 's) visitor \<Rightarrow> 'a option \<Rightarrow> 's \<Rightarrow> bool \<times> 's" where
  "visit_option source visit x s = (case x of Some a \<Rightarrow> source visit a s | None \<Rightarrow> (True, s))"

fun visit_vec :: "(('id, 's) visitor \<Rightarrow> 'a \<Rightarrow> 's \<Rightarrow> bool \<times> 's) \<Rightarrow> ('id, 's) visitor \<Rightarrow> 'a list \<Rightarrow> 's \<Rightarrow> bool \<times> 's" where
  "visit_vec source visit [] s = (True, s)"
| "visit_vec source visit (x # xs) s =
     (case source visit x s of (go, s') \<Rightarrow> if go then visit_vec source visit xs s' else (False, s'))"

text \<open>The closure of \<open>Frame::visit_managed_roots\<close>: \<open>complete = complete && value.visit(..)\<close>.\<close>

definition and_then :: "(('id, 's) visitor \<Rightarrow> 'v \<Rightarrow> 's \<Rightarrow> bool \<times> 's) \<Rightarrow> ('id, 's) visitor \<Rightarrow> 'v \<Rightarrow> bool \<times> 's \<Rightarrow> bool \<times> 's" where
  "and_then source visit v acc = (if fst acc then source visit v (snd acc) else acc)"

definition visit_frame :: "(('id, 's) visitor \<Rightarrow> 'v \<Rightarrow> 's \<Rightarrow> bool \<times> 's) \<Rightarrow> (('id, 's) visitor \<Rightarrow> 'k \<Rightarrow> 's \<Rightarrow> bool \<times> 's)
    \<Rightarrow> (('id, 's) visitor \<Rightarrow> 'r \<Rightarrow> 's \<Rightarrow> bool \<times> 's) \<Rightarrow> (('id, 's) visitor \<Rightarrow> 'h \<Rightarrow> 's \<Rightarrow> bool \<times> 's)
    \<Rightarrow> ('id, 's) visitor \<Rightarrow> ('v, 'k, 'r, 'h) activation_frame \<Rightarrow> 's \<Rightarrow> bool \<times> 's" where
  "visit_frame value_source continuation_source roots_source handlers_source visit f s =
     (let slots = slot_visit (and_then value_source visit) (fr_slots f) (True, s) in
      if \<not> fst slots then slots
      else let operands = stack_visit (and_then value_source visit) (fr_operands f) (True, snd slots) in
        if \<not> fst operands then operands
        else let kept = visit_option continuation_source visit (fr_continuation f) (snd operands) in
          if \<not> fst kept then kept
          else let roots = roots_source visit (fr_roots f) (snd kept) in
            if \<not> fst roots then roots else handlers_source visit (fr_handlers f) (snd roots))"

definition visit_frames :: "(('id, 's) visitor \<Rightarrow> 'f \<Rightarrow> 's \<Rightarrow> bool \<times> 's) \<Rightarrow> ('id, 's) visitor \<Rightarrow> 'f frame_stack \<Rightarrow> 's \<Rightarrow> bool \<times> 's" where
  "visit_frames source visit s = visit_vec source visit (fs_frames s)"

datatype root_scan_error = RootBudgetExhausted (visited_roots: usize) (root_limit: usize)

definition scan_visitor :: "usize \<Rightarrow> ('id, 'id list) visitor" where
  "scan_visitor budget root roots = (if length roots = budget then (False, roots) else (True, roots @ [root]))"

definition scan_roots :: "(('id, 'id list) visitor \<Rightarrow> 'a \<Rightarrow> 'id list \<Rightarrow> bool \<times> 'id list) \<Rightarrow> 'a \<Rightarrow> usize
    \<Rightarrow> (root_scan_error, 'id list) outcome" where
  "scan_roots source x budget =
     (case source (scan_visitor budget) x [] of (complete, roots) \<Rightarrow>
        if \<not> complete then Err (RootBudgetExhausted budget budget) else Ok roots)"

text \<open>
  A root source enumerates a fixed list of roots: visiting it is visiting that list. The scan of any
  such source is complete or refused, never partial.
\<close>

locale root_source =
  fixes source :: "('id, 'id list) visitor \<Rightarrow> 'a \<Rightarrow> 'id list \<Rightarrow> bool \<times> 'id list"
    and roots :: "'a \<Rightarrow> 'id list"
  assumes visits_roots: "source visit x s = visit_vec visit_managed_id visit (roots x) s"
begin

lemma scan_visits: "length acc \<le> budget \<Longrightarrow>
    visit_vec visit_managed_id (scan_visitor budget) xs acc =
      (if length acc + length xs \<le> budget then (True, acc @ xs) else (False, acc @ take (budget - length acc) xs))"
proof (induction xs arbitrary: acc)
  case (Cons x xs)
  then show ?case
    by (cases "length acc = budget") (auto simp: visit_managed_id_def scan_visitor_def take_Cons' Suc_diff_le)
qed simp

lemma scan_exact:
  "scan_roots source x budget =
     (if length (roots x) \<le> budget then Ok (roots x) else Err (RootBudgetExhausted budget budget))"
  using scan_visits[of "[]" budget "roots x"] by (simp add: scan_roots_def visits_roots)

end

lemma visit_vec_append:
  "visit_vec source visit (xs @ ys) s =
     (case visit_vec source visit xs s of (go, s') \<Rightarrow> if go then visit_vec source visit ys s' else (False, s'))"
  by (induction xs arbitrary: s) (auto split: prod.splits)

lemma and_then_simps [simp]:
  "and_then source visit v (True, s) = source visit v s"
  "and_then source visit v (False, s) = (False, s)"
  by (simp_all add: and_then_def)

lemma fold_and_then_stopped: "fold (and_then source visit) xs (False, s) = (False, s)"
  by (induction xs) simp_all

lemma fold_and_then: "fold (and_then source visit) xs (True, s) = visit_vec source visit xs s"
proof (induction xs arbitrary: s)
  case (Cons x xs)
  obtain go s' where "source visit x s = (go, s')" by (cases "source visit x s")
  then show ?case using Cons.IH fold_and_then_stopped by (cases go) simp_all
qed simp

text \<open>Sources built from sources.\<close>

locale frame_sources =
  v: root_source value_source value_roots + k: root_source continuation_source continuation_roots +
  r: root_source roots_source roots_roots + h: root_source handlers_source handlers_roots
  for value_source :: "('id, 'id list) visitor \<Rightarrow> 'v \<Rightarrow> 'id list \<Rightarrow> bool \<times> 'id list"
    and value_roots and continuation_source :: "('id, 'id list) visitor \<Rightarrow> 'k \<Rightarrow> 'id list \<Rightarrow> bool \<times> 'id list"
    and continuation_roots and roots_source :: "('id, 'id list) visitor \<Rightarrow> 'r \<Rightarrow> 'id list \<Rightarrow> bool \<times> 'id list"
    and roots_roots and handlers_source :: "('id, 'id list) visitor \<Rightarrow> 'h \<Rightarrow> 'id list \<Rightarrow> bool \<times> 'id list"
    and handlers_roots
begin

lemma vec_visits:
  "visit_vec value_source visit xs s = visit_vec visit_managed_id visit (concat (map value_roots xs)) s"
  by (induction xs arbitrary: s) (auto simp: visit_vec_append v.visits_roots split: prod.splits)

lemma option_visits:
  "visit_option continuation_source visit x s =
     visit_vec visit_managed_id visit (case x of Some c \<Rightarrow> continuation_roots c | None \<Rightarrow> []) s"
  by (cases x) (simp_all add: visit_option_def k.visits_roots)

end

definition frame_roots :: "('v \<Rightarrow> 'id list) \<Rightarrow> ('k \<Rightarrow> 'id list) \<Rightarrow> ('r \<Rightarrow> 'id list) \<Rightarrow> ('h \<Rightarrow> 'id list)
    \<Rightarrow> ('v, 'k, 'r, 'h) activation_frame \<Rightarrow> 'id list" where
  "frame_roots value_roots continuation_roots roots_roots handlers_roots f =
     concat (map value_roots (List.map_filter id (sf_values (fr_slots f)))) @
     concat (map value_roots (us_values (fr_operands f))) @
     (case fr_continuation f of Some c \<Rightarrow> continuation_roots c | None \<Rightarrow> []) @
     roots_roots (fr_roots f) @ handlers_roots (fr_handlers f)"

sublocale frame_sources \<subseteq> frame: root_source
  "visit_frame value_source continuation_source roots_source handlers_source"
  "frame_roots value_roots continuation_roots roots_roots handlers_roots"
  by unfold_locales
    (auto simp: visit_frame_def frame_roots_def slot_visit_def stack_visit_def fold_and_then vec_visits
      option_visits r.visits_roots h.visits_roots visit_vec_append Let_def split: prod.splits)

locale frame_stack_source = f: root_source frame_source one_frame_roots
  for frame_source :: "('id, 'id list) visitor \<Rightarrow> 'f \<Rightarrow> 'id list \<Rightarrow> bool \<times> 'id list" and one_frame_roots

sublocale frame_stack_source \<subseteq> stack: root_source "visit_frames frame_source"
  "\<lambda>s. concat (map one_frame_roots (fs_frames s))"
proof
  fix visit s st
  have "visit_vec frame_source visit xs st = visit_vec visit_managed_id visit (concat (map one_frame_roots xs)) st" for xs st
    by (induction xs arbitrary: st) (auto simp: visit_vec_append f.visits_roots split: prod.splits)
  then show "visit_frames frame_source visit s st =
      visit_vec visit_managed_id visit (concat (map one_frame_roots (fs_frames s))) st"
    by (simp add: visit_frames_def)
qed

text \<open>The instances of the sources: managed identities as slot and operand values and as roots,
  with no continuation and no handler state.\<close>

interpretation identity_source: root_source visit_managed_id "\<lambda>ident. [ident]"
  by unfold_locales (simp add: visit_managed_id_def split: prod.splits)

interpretation unit_source: root_source visit_unit "\<lambda>_. []"
  by unfold_locales (simp add: visit_unit_def)

interpretation identity_vec_source: root_source "visit_vec visit_managed_id" "\<lambda>xs. xs"
  by unfold_locales simp

interpretation identity_frames: frame_sources visit_managed_id "\<lambda>ident. [ident]" visit_unit "\<lambda>_. []"
  "visit_vec visit_managed_id" "\<lambda>xs. xs" visit_unit "\<lambda>_. []"
  by unfold_locales

interpretation identity_frame_stack: frame_stack_source
  "visit_frame visit_managed_id visit_unit (visit_vec visit_managed_id) visit_unit"
  "frame_roots (\<lambda>ident. [ident]) (\<lambda>_. []) (\<lambda>xs. xs) (\<lambda>_. [])"
  by unfold_locales

section \<open>Admission (admission.rs)\<close>

record admission_limits =
  lim_instructions :: usize
  lim_operand_units :: usize
  lim_slots :: usize
  lim_frames :: usize
  lim_work :: usize

record (overloaded) ('i, 'id, 's, 'm) machine_description =
  md_code :: "('i, 'id::linorder, 's) located_code"
  md_limits :: admission_limits
  md_metadata :: 'm

datatype 'r admission_error =
  ZeroLimit string
| InstructionLimit usize usize
| PolicyRefused 'r
| NonCanonical

definition validate_limits :: "('i, 'id::linorder, 's, 'm) machine_description \<Rightarrow> ('r admission_error, unit) outcome" where
  "validate_limits description =
     bind_outcome
       (for_each (\<lambda>(limit, amount) _. if amount = 0 then Err (ZeroLimit limit) else Ok ())
          [(''instructions'', lim_instructions (md_limits description)),
           (''operand_units'', lim_operand_units (md_limits description)),
           (''slots'', lim_slots (md_limits description)),
           (''frames'', lim_frames (md_limits description)),
           (''work'', lim_work (md_limits description))] ())
       (\<lambda>_. if length (lc_instructions (md_code description)) > lim_instructions (md_limits description)
             then Err (InstructionLimit (length (lc_instructions (md_code description)))
                        (lim_instructions (md_limits description)))
             else Ok ())"

definition admit_machine :: "(('i, 'id::linorder, 's, 'm) machine_description \<Rightarrow> ('r, unit) outcome) \<Rightarrow> ('i \<Rightarrow> 'm \<Rightarrow> ('r, unit) outcome)
    \<Rightarrow> (('i, 'id, 's, 'm) machine_description \<Rightarrow> 'cid option) \<Rightarrow> ('i, 'id, 's, 'm) machine_description
    \<Rightarrow> ('r admission_error, 'cid) outcome" where
  "admit_machine validate_description validate_instruction content_id description =
     bind_outcome (validate_limits description) (\<lambda>_.
     bind_outcome (map_err PolicyRefused (validate_description description)) (\<lambda>_.
     bind_outcome (for_each (\<lambda>located _. map_err PolicyRefused
           (validate_instruction (li_instruction located) (md_metadata description)))
         (lc_instructions (md_code description)) ()) (\<lambda>_.
       ok_or NonCanonical (content_id description))))"

definition permit_accepts :: "(('i, 'id::linorder, 's, 'm) machine_description \<Rightarrow> 'cid option) \<Rightarrow> 'cid
    \<Rightarrow> ('i, 'id, 's, 'm) machine_description \<Rightarrow> bool" where
  "permit_accepts content_id permit description =
     (case content_id description of Some ident \<Rightarrow> permit = ident | None \<Rightarrow> False)"

section \<open>The driver (driver.rs)\<close>

datatype ('f, 'r, 'a, 'y, 'n) step_outcome =
  StepContinue code_cursor
| StepCall 'f
| StepReturn 'r
| StepRaise 'a
| StepYield 'y
| StepInterrupt 'n

datatype step_kind = KContinue | KCall | KReturn | KRaise | KYield | KInterrupt

type_synonym 'id work_receipt = "('id \<times> step_kind) list"

definition charged :: "'id work_receipt \<Rightarrow> usize" where
  "charged receipt = length receipt"

definition append_receipt :: "'id work_receipt \<Rightarrow> 'id work_receipt \<Rightarrow> 'id work_receipt" where
  "append_receipt receipt later = receipt @ later"

datatype ('id, 'r, 'a, 'y, 'n) drive_outcome =
  DriveContinue (receipt: "'id work_receipt")
| DriveReturn 'r (receipt: "'id work_receipt")
| DriveRaise 'a (receipt: "'id work_receipt")
| DriveYield 'y (receipt: "'id work_receipt")
| DriveInterrupt 'n (receipt: "'id work_receipt")

datatype ('id, 's, 'x) drive_error =
  PermitMismatch
| EmptyFrames
| FrameLimit frame_stack_error
| DriveFault 'id "'s source_location" 'x

type_synonym ('p, 'i, 'f, 'r, 'a, 'y, 'n, 'x) driver_policy =
  "'p \<Rightarrow> 'i \<Rightarrow> 'f \<Rightarrow> 'p \<times> 'f \<times> ('x, ('f, 'r, 'a, 'y, 'n) step_outcome) outcome"

type_synonym ('p, 'id, 's, 'f, 'r, 'a, 'y, 'n, 'x) drive_result =
  "(('id, 's, 'x) drive_error, ('id, 'r, 'a, 'y, 'n) drive_outcome) outcome \<times> 'p \<times> 'f frame_stack"

text \<open>One round of the loop of \<open>Driver::drive\<close>: it goes on with the receipt so far, or ends the
  drive with a result.\<close>

definition drive_round :: "('f \<Rightarrow> code_cursor) \<Rightarrow> (code_cursor \<Rightarrow> 'f \<Rightarrow> 'f)
    \<Rightarrow> ('p, 'i, 'f, 'r, 'a, 'y, 'n, 'x) driver_policy \<Rightarrow> ('i, 'id::linorder, 's) located_code
    \<Rightarrow> 'id work_receipt \<Rightarrow> 'p \<Rightarrow> 'f frame_stack
    \<Rightarrow> ('id work_receipt \<times> 'p \<times> 'f frame_stack) + ('p, 'id, 's, 'f, 'r, 'a, 'y, 'n, 'x) drive_result" where
  "drive_round cursor set_cursor step code steps pol frames =
     (case frames_current frames of
        None \<Rightarrow> Inr (Err EmptyFrames, pol, frames)
      | Some current \<Rightarrow>
          (case instruction_at code (cursor current) of
             Panic msg \<Rightarrow> Inr (Panic msg, pol, frames)
           | Err e \<Rightarrow> Inr (Err e, pol, frames)
           | Ok located \<Rightarrow>
               (let ident = li_id located;
                    (pol', current', stepped) = step pol (li_instruction located) current;
                    frames' = set_current current' frames in
                case stepped of
                  Panic msg \<Rightarrow> Inr (Panic msg, pol', frames')
                | Err fault \<Rightarrow> Inr (Err (DriveFault ident (li_location located) fault), pol', frames')
                | Ok (StepContinue next) \<Rightarrow>
                    Inl (steps @ [(ident, KContinue)], pol', set_current (set_cursor next current') frames')
                | Ok (StepCall frame) \<Rightarrow>
                    (case frames_push frame frames' of
                       Ok frames'' \<Rightarrow> Inl (steps @ [(ident, KCall)], pol', frames'')
                     | Err e \<Rightarrow> Inr (Err (FrameLimit e), pol', frames')
                     | Panic msg \<Rightarrow> Inr (Panic msg, pol', frames'))
                | Ok (StepReturn r) \<Rightarrow>
                    (let frames'' = (case frames_pop frames' of Some (_, popped) \<Rightarrow> popped | None \<Rightarrow> frames') in
                     if frames_current frames'' = None
                     then Inr (Ok (DriveReturn r (steps @ [(ident, KReturn)])), pol', frames'')
                     else Inl (steps @ [(ident, KReturn)], pol', frames''))
                | Ok (StepRaise a) \<Rightarrow> Inr (Ok (DriveRaise a (steps @ [(ident, KRaise)])), pol', frames')
                | Ok (StepYield y) \<Rightarrow> Inr (Ok (DriveYield y (steps @ [(ident, KYield)])), pol', frames')
                | Ok (StepInterrupt n) \<Rightarrow> Inr (Ok (DriveInterrupt n (steps @ [(ident, KInterrupt)])), pol', frames'))))"

fun drive_loop :: "('f \<Rightarrow> code_cursor) \<Rightarrow> (code_cursor \<Rightarrow> 'f \<Rightarrow> 'f)
    \<Rightarrow> ('p, 'i, 'f, 'r, 'a, 'y, 'n, 'x) driver_policy \<Rightarrow> ('i, 'id::linorder, 's) located_code \<Rightarrow> nat
    \<Rightarrow> 'id work_receipt \<Rightarrow> 'p \<Rightarrow> 'f frame_stack \<Rightarrow> ('p, 'id, 's, 'f, 'r, 'a, 'y, 'n, 'x) drive_result" where
  "drive_loop cursor set_cursor step code 0 steps pol frames = (Ok (DriveContinue steps), pol, frames)"
| "drive_loop cursor set_cursor step code (Suc work) steps pol frames =
     (case drive_round cursor set_cursor step code steps pol frames of
        Inl (steps', pol', frames') \<Rightarrow> drive_loop cursor set_cursor step code work steps' pol' frames'
      | Inr result \<Rightarrow> result)"

text \<open>
  The receipt is allocated for the whole allowance up front. \<open>Vec::with_capacity\<close> panics when the
  bytes exceed \<open>isize::MAX\<close>; the size of an entry \<open>(InstructionId, StepKind)\<close> depends on the
  consumer's identity type, is at least the byte of the step kind and, as for every type, at most
  \<open>isize::MAX\<close>. Running out of memory below that bound aborts the process and is not modelled.
\<close>

definition isize_max :: nat where
  "isize_max = 2 ^ 63 - 1"

typedef entry_size = "{n::nat. 1 \<le> n \<and> n \<le> isize_max}"
  morphisms entry_bytes Entry_size
  by (rule exI[of _ 1]) (simp add: isize_max_def)

setup_lifting type_definition_entry_size

definition capacity_overflows :: "entry_size \<Rightarrow> usize \<Rightarrow> bool" where
  "capacity_overflows esize capacity \<longleftrightarrow> isize_max < capacity * entry_bytes esize"

lemma capacity_overflows_mono: "capacity_overflows esize m \<Longrightarrow> m \<le> n \<Longrightarrow> capacity_overflows esize n"
  unfolding capacity_overflows_def by (erule less_le_trans) (rule mult_le_mono1)

lemma capacity_small [simp]: "\<not> capacity_overflows esize 0" "\<not> capacity_overflows esize (Suc 0)"
  using entry_bytes[of esize] by (simp_all add: capacity_overflows_def)

definition drive :: "entry_size \<Rightarrow> (('i, 'id::linorder, 's, 'm) machine_description \<Rightarrow> 'cid option) \<Rightarrow> ('f \<Rightarrow> code_cursor)
    \<Rightarrow> (code_cursor \<Rightarrow> 'f \<Rightarrow> 'f) \<Rightarrow> ('p, 'i, 'f, 'r, 'a, 'y, 'n, 'x) driver_policy
    \<Rightarrow> ('i, 'id, 's, 'm) machine_description \<Rightarrow> 'cid \<Rightarrow> 'p \<Rightarrow> 'f frame_stack \<Rightarrow> usize
    \<Rightarrow> ('p, 'id, 's, 'f, 'r, 'a, 'y, 'n, 'x) drive_result" where
  "drive esize content_id cursor set_cursor step description permit pol frames work =
     (if \<not> permit_accepts content_id permit description then (Err PermitMismatch, pol, frames)
      else if frames_current frames = None then (Err EmptyFrames, pol, frames)
      else if capacity_overflows esize work then (Panic ''capacity overflow'', pol, frames)
      else drive_loop cursor set_cursor step (md_code description) work [] pol frames)"

text \<open>Every round charges one instruction, in order.\<close>

lemma drive_round_charges:
  "drive_round cursor set_cursor step code steps pol frames = Inl (steps', pol', frames') \<Longrightarrow>
     \<exists>entry. steps' = steps @ [entry]"
  "drive_round cursor set_cursor step code steps pol frames = Inr (Ok out, pol', frames') \<Longrightarrow>
     (\<exists>entry. receipt out = steps @ [entry]) \<and> (\<forall>r. out \<noteq> DriveContinue r)"
  by (auto simp: drive_round_def Let_def split: option.splits outcome.splits prod.splits step_outcome.splits if_splits)

lemma drive_loop_charges:
  assumes "drive_loop cursor set_cursor step code work steps pol frames = (Ok out, pol', frames')"
  shows "\<exists>more. receipt out = steps @ more \<and> length more \<le> work \<and> (0 < work \<longrightarrow> 0 < length more) \<and>
    (\<forall>r. out = DriveContinue r \<longrightarrow> length more = work)"
  using assms
proof (induction work arbitrary: steps pol frames)
  case (Suc work)
  show ?case
  proof (cases "drive_round cursor set_cursor step code steps pol frames")
    case (Inl c)
    obtain st p f where c: "c = (st, p, f)" by (cases c)
    from drive_round_charges(1)[OF Inl[unfolded c]] obtain e where st: "st = steps @ [e]" by blast
    from Suc.prems have "drive_loop cursor set_cursor step code work st p f = (Ok out, pol', frames')"
      by (simp add: Inl c)
    from Suc.IH[OF this] obtain m where "receipt out = st @ m" "length m \<le> work"
      "\<forall>r. out = DriveContinue r \<longrightarrow> length m = work" by blast
    then show ?thesis using st by (intro exI[of _ "e # m"]) auto
  next
    case (Inr b)
    with Suc.prems have "drive_round cursor set_cursor step code steps pol frames = Inr (Ok out, pol', frames')" by simp
    from drive_round_charges(2)[OF this] show ?thesis by force
  qed
qed auto

lemma drive_one_charged:
  assumes "drive esize content_id cursor set_cursor step description permit pol frames 1 = (Ok out, pol', frames')"
  shows "charged (receipt out) = 1"
proof -
  from assms have "drive_loop cursor set_cursor step (md_code description) 1 [] pol frames = (Ok out, pol', frames')"
    by (simp add: drive_def split: if_splits)
  from drive_loop_charges[OF this] obtain m where "receipt out = m" "length m \<le> 1" "0 < length m" by auto
  then show ?thesis by (cases m) (simp_all add: charged_def)
qed

datatype ('id, 's, 'x, 'se) safepoint_drive_error =
  RootScan root_scan_error
| Safepoint 'se
| SafepointDrive "('id, 's, 'x) drive_error"

fun with_receipt :: "('id work_receipt \<Rightarrow> 'id work_receipt) \<Rightarrow> ('id, 'r, 'a, 'y, 'n) drive_outcome \<Rightarrow> ('id, 'r, 'a, 'y, 'n) drive_outcome" where
  "with_receipt g (DriveContinue steps) = DriveContinue (g steps)"
| "with_receipt g (DriveReturn r steps) = DriveReturn r (g steps)"
| "with_receipt g (DriveRaise a steps) = DriveRaise a (g steps)"
| "with_receipt g (DriveYield y steps) = DriveYield y (g steps)"
| "with_receipt g (DriveInterrupt n steps) = DriveInterrupt n (g steps)"

text \<open>The publication of roots before a safepoint: the scan, then the observer.\<close>

definition publish_roots :: "(('root, 'root list) visitor \<Rightarrow> 'f frame_stack \<Rightarrow> 'root list \<Rightarrow> bool \<times> 'root list)
    \<Rightarrow> ('root list \<Rightarrow> 'o \<Rightarrow> ('se, unit) outcome \<times> 'o) \<Rightarrow> usize \<Rightarrow> bool \<Rightarrow> 'f frame_stack \<Rightarrow> 'o
    \<Rightarrow> (('id, 's, 'x, 'se) safepoint_drive_error, unit) outcome \<times> 'o" where
  "publish_roots source observe root_budget safepoint frames obs =
     (if safepoint then
        (case scan_roots source frames root_budget of
           Ok roots \<Rightarrow> (case observe roots obs of (seen, obs') \<Rightarrow> (map_err Safepoint seen, obs'))
         | Err e \<Rightarrow> (Err (RootScan e), obs)
         | Panic msg \<Rightarrow> (Panic msg, obs))
      else (Ok (), obs))"

fun safepoint_loop where
  "safepoint_loop esize content_id cursor set_cursor step source observe root_budget description permit 0 combined pol frames obs =
     (Ok (DriveContinue combined), pol, frames, obs)"
| "safepoint_loop esize content_id cursor set_cursor step source observe root_budget description permit (Suc work) combined pol frames obs =
     (case frames_current frames of
        None \<Rightarrow> (Err (SafepointDrive EmptyFrames), pol, frames, obs)
      | Some current \<Rightarrow>
          (case instruction_at (md_code description) (cursor current) of
             Panic msg \<Rightarrow> (Panic msg, pol, frames, obs)
           | Err e \<Rightarrow> (Err e, pol, frames, obs)
           | Ok located \<Rightarrow>
               (case publish_roots source observe root_budget (li_safepoint located) frames obs of
                  (Panic msg, obs') \<Rightarrow> (Panic msg, pol, frames, obs')
                | (Err e, obs') \<Rightarrow> (Err e, pol, frames, obs')
                | (Ok _, obs') \<Rightarrow>
                    (case drive esize content_id cursor set_cursor step description permit pol frames 1 of
                       (Panic msg, pol', frames') \<Rightarrow> (Panic msg, pol', frames', obs')
                     | (Err e, pol', frames') \<Rightarrow> (Err (SafepointDrive e), pol', frames', obs')
                     | (Ok (DriveContinue later), pol', frames') \<Rightarrow>
                         safepoint_loop esize content_id cursor set_cursor step source observe root_budget description permit
                           work (append_receipt combined later) pol' frames' obs'
                     | (Ok final, pol', frames') \<Rightarrow> (Ok (with_receipt (append_receipt combined) final), pol', frames', obs')))))"

definition drive_with_safepoints where
  "drive_with_safepoints esize content_id cursor set_cursor step source observe root_budget description permit pol frames work obs =
     (if \<not> permit_accepts content_id permit description then (Err (SafepointDrive PermitMismatch), pol, frames, obs)
      else if frames_current frames = None then (Err (SafepointDrive EmptyFrames), pol, frames, obs)
      else safepoint_loop esize content_id cursor set_cursor step source observe root_budget description permit work [] pol frames obs)"

text \<open>The loop of \<open>drive_protected\<close>. It ends because every drive of one instruction charges one.\<close>

function protected_loop :: "entry_size \<Rightarrow> (('i, 'id::linorder, 's, 'm) machine_description \<Rightarrow> 'cid option) \<Rightarrow> ('f \<Rightarrow> code_cursor)
    \<Rightarrow> (code_cursor \<Rightarrow> 'f \<Rightarrow> 'f) \<Rightarrow> ('p, 'i, 'f, 'r, 'a, 'y, 'n, 'x) driver_policy
    \<Rightarrow> ('i, 'id, 's, 'm) machine_description \<Rightarrow> 'cid \<Rightarrow> usize \<Rightarrow> 'id work_receipt \<Rightarrow> 'p \<Rightarrow> 'f frame_stack
    \<Rightarrow> ('p, 'id, 's, 'f, 'r, 'a, 'y, 'n, 'x) drive_result" where
  "protected_loop esize content_id cursor set_cursor step description permit left combined pol frames =
     (if left = 0 then (Ok (DriveContinue combined), pol, frames)
      else case frames_current frames of
        None \<Rightarrow> (Err EmptyFrames, pol, frames)
      | Some current \<Rightarrow>
          (case drive esize content_id cursor set_cursor step description permit pol frames 1 of
             (Panic msg, pol', frames') \<Rightarrow> (Panic msg, pol', frames')
           | (Err e, pol', frames') \<Rightarrow> (Err e, pol', frames')
           | (Ok (DriveRaise a later), pol', frames') \<Rightarrow>
               (case innermost_protected_region (md_code description) (cursor current) of
                  Some region \<Rightarrow>
                    (case frames_current frames' of
                       Some raising \<Rightarrow>
                         protected_loop esize content_id cursor set_cursor step description permit
                           (left - charged later) (append_receipt combined later) pol'
                           (set_current (set_cursor (pr_handler region) raising) frames')
                     | None \<Rightarrow> (Panic ''raising frame remains'', pol', frames'))
                | None \<Rightarrow> (Ok (DriveRaise a (append_receipt combined later)), pol', frames'))
           | (Ok (DriveContinue later), pol', frames') \<Rightarrow>
               (if left - charged later = 0 then (Ok (DriveContinue (append_receipt combined later)), pol', frames')
                else protected_loop esize content_id cursor set_cursor step description permit
                       (left - charged later) (append_receipt combined later) pol' frames')
           | (Ok final, pol', frames') \<Rightarrow> (Ok (with_receipt (append_receipt combined) final), pol', frames')))"
  by pat_completeness auto

termination
  by (relation "measure (\<lambda>(_, _, _, _, _, _, _, left, _). left)") (auto dest!: drive_one_charged[OF sym, unfolded One_nat_def])

declare protected_loop.simps [simp del]

definition drive_protected where
  "drive_protected esize content_id cursor set_cursor step description permit pol frames work =
     protected_loop esize content_id cursor set_cursor step description permit work [] pol frames"

section \<open>Cleanups (sim-lib-control unwind.rs) and checkpoints\<close>

datatype ('r, 'b, 'c, 'e) unwind =
  UnwindReturn 'r | UnwindBreak 'b | UnwindContinue 'c | UnwindException 'e | Cancelled | Closed

datatype ('a, 'n) machine_abrupt = AbruptRaise 'a | AbruptInterrupt 'n | BudgetExhausted | AbruptFault

type_synonym ('r, 'a, 'n) machine_unwind = "('r, unit, unit, ('a, 'n) machine_abrupt) unwind"

text \<open>A cleanup acts on the world \<open>'w\<close> it captures. The last pushed runs first.\<close>

definition cleanups_push :: "('u \<Rightarrow> 'w \<Rightarrow> 'w) \<Rightarrow> ('u \<Rightarrow> 'w \<Rightarrow> 'w) list \<Rightarrow> ('u \<Rightarrow> 'w \<Rightarrow> 'w) list" where
  "cleanups_push cleanup cleanups = cleanups @ [cleanup]"

function cleanups_unwind :: "('u \<Rightarrow> 'w \<Rightarrow> 'w) list \<Rightarrow> 'u \<Rightarrow> 'w \<Rightarrow> 'u \<times> 'w" where
  "cleanups_unwind cleanups reason world =
     (if cleanups = [] then (reason, world)
      else cleanups_unwind (butlast cleanups) reason ((last cleanups) reason world))"
  by pat_completeness auto

termination
  by (relation "measure (\<lambda>(cleanups, _, _). length cleanups)") auto

declare cleanups_unwind.simps [simp del]

definition drive_with_cleanup where
  "drive_with_cleanup esize content_id cursor set_cursor step description permit pol frames work cleanups world =
     (case drive_protected esize content_id cursor set_cursor step description permit pol frames work of
        (Panic msg, pol', frames') \<Rightarrow> (Panic msg, pol', frames', world)
      | (Err e, pol', frames') \<Rightarrow>
          (Err e, pol', frames', snd (cleanups_unwind cleanups (UnwindException AbruptFault) world))
      | (Ok final, pol', frames') \<Rightarrow>
          (case final of
             DriveReturn r _ \<Rightarrow> (Ok final, pol', frames', snd (cleanups_unwind cleanups (UnwindReturn r) world))
           | DriveRaise a _ \<Rightarrow>
               (Ok final, pol', frames', snd (cleanups_unwind cleanups (UnwindException (AbruptRaise a)) world))
           | DriveInterrupt n _ \<Rightarrow>
               (Ok final, pol', frames', snd (cleanups_unwind cleanups (UnwindException (AbruptInterrupt n)) world))
           | DriveContinue _ \<Rightarrow>
               (Ok final, pol', frames', snd (cleanups_unwind cleanups (UnwindException BudgetExhausted) world))
           | DriveYield _ _ \<Rightarrow> (Ok final, pol', frames', world)))"

record ('f, 'id, 'cid) machine_checkpoint =
  cp_frames :: "'f frame_stack"
  cp_content_id :: 'cid
  cp_receipt :: "'id work_receipt"

definition checkpoint_new :: "'f frame_stack \<Rightarrow> 'cid \<Rightarrow> 'id work_receipt \<Rightarrow> ('f, 'id, 'cid) machine_checkpoint" where
  "checkpoint_new frames permit steps = \<lparr>cp_frames = frames, cp_content_id = permit, cp_receipt = steps\<rparr>"

definition checkpoint_resume :: "('f, 'id, 'cid) machine_checkpoint \<Rightarrow> 'cid
    \<Rightarrow> (('f, 'id, 'cid) machine_checkpoint, 'f frame_stack \<times> 'id work_receipt) outcome" where
  "checkpoint_resume cp permit =
     (if cp_content_id cp = permit then Ok (cp_frames cp, cp_receipt cp) else Err cp)"

end
