(* ===== verification/Machine_Runs.thy ===== *)
theory Machine_Runs
  imports Machine_Driver
begin

text \<open>
  What the bounded driver guarantees: the exact conditions of admission, that slicing a run into
  drives changes nothing and that a program that finishes is finished by every large enough
  schedule, freedom from panics under a well-behaved instruction policy, the transparency of
  safepoints, the selection of handlers, and cleanups that run once each.
\<close>

section \<open>Admission\<close>

lemma validate_limits_Ok_iff:
  "validate_limits d = Ok u \<longleftrightarrow>
     0 < lim_instructions (md_limits d) \<and> 0 < lim_operand_units (md_limits d) \<and> 0 < lim_slots (md_limits d) \<and>
     0 < lim_frames (md_limits d) \<and> 0 < lim_work (md_limits d) \<and>
     length (lc_instructions (md_code d)) \<le> lim_instructions (md_limits d)"
  by (auto simp: validate_limits_def outcome_simps split: if_splits)

lemma validate_instructions_Ok_iff:
  "for_each (\<lambda>located _. map_err PolicyRefused (validate_instruction (li_instruction located) m)) ls () = Ok u \<longleftrightarrow>
     (\<forall>l \<in> set ls. validate_instruction (li_instruction l) m = Ok ())"
  by (induction ls) (auto simp: outcome_simps)

section \<open>Slices of a run\<close>

fun map_ok :: "('a \<Rightarrow> 'b) \<Rightarrow> ('e, 'a) outcome \<Rightarrow> ('e, 'b) outcome" where
  "map_ok f (Ok a) = Ok (f a)"
| "map_ok f (Err e) = Err e"
| "map_ok f (Panic p) = Panic p"

definition prefix_result :: "'id work_receipt \<Rightarrow> ('p, 'id, 's, 'f, 'r, 'a, 'y, 'n, 'x) drive_result
    \<Rightarrow> ('p, 'id, 's, 'f, 'r, 'a, 'y, 'n, 'x) drive_result" where
  "prefix_result steps res = (map_ok (with_receipt (append_receipt steps)) (fst res), snd res)"

lemma with_receipt_append [simp]:
  "with_receipt (append_receipt []) out = out"
  "with_receipt (append_receipt a) (with_receipt (append_receipt b) out) = with_receipt (append_receipt (a @ b)) out"
  by (cases out; simp add: append_receipt_def)+

lemma prefix_result_simps [simp]:
  "prefix_result [] res = res"
  "prefix_result a (prefix_result b res) = prefix_result (a @ b) res"
  "prefix_result a (Err e, st) = (Err e, st)"
  "prefix_result a (Panic q, st) = (Panic q, st)"
  "prefix_result a (Ok out, st) = (Ok (with_receipt (append_receipt a) out), st)"
  by (cases res; cases "fst res"; simp add: prefix_result_def)+

text \<open>A drive continued from a receipt is the drive from the empty receipt with that prefix.\<close>

lemma drive_round_prefix:
  "drive_round cursor set_cursor step code (pre @ steps) pol frames =
     (case drive_round cursor set_cursor step code steps pol frames of
        Inl (steps', st) \<Rightarrow> Inl (pre @ steps', st)
      | Inr res \<Rightarrow> Inr (prefix_result pre res))"
  by (auto simp: drive_round_def Let_def append_receipt_def prefix_result_def
      split: option.splits outcome.splits prod.splits step_outcome.splits if_splits)

lemma drive_loop_prefix:
  "drive_loop cursor set_cursor step code work (pre @ steps) pol frames =
     prefix_result pre (drive_loop cursor set_cursor step code work steps pol frames)"
proof (induction work arbitrary: steps pol frames)
  case (Suc work)
  show ?case
    by (cases "drive_round cursor set_cursor step code steps pol frames")
      (auto simp: drive_round_prefix Suc.IH split: prod.splits)
qed (simp add: append_receipt_def)

lemma drive_loop_from:
  "drive_loop cursor set_cursor step code work steps pol frames =
     prefix_result steps (drive_loop cursor set_cursor step code work [] pol frames)"
  using drive_loop_prefix[of cursor set_cursor step code work steps "[]"] by simp

lemma drive_loop_add:
  "drive_loop cursor set_cursor step code (m + n) steps pol frames =
     (case drive_loop cursor set_cursor step code m steps pol frames of
        (Ok (DriveContinue steps'), pol', frames') \<Rightarrow> drive_loop cursor set_cursor step code n steps' pol' frames'
      | res \<Rightarrow> res)"
proof (induction m arbitrary: steps pol frames)
  case (Suc m)
  show ?case
  proof (cases "drive_round cursor set_cursor step code steps pol frames")
    case (Inl c)
    then show ?thesis using Suc.IH by (cases c) simp
  next
    case (Inr res)
    obtain final p f where res: "res = (final, p, f)" by (cases res)
    show ?thesis
    proof (cases final)
      case (Ok out)
      from drive_round_charges(2)[OF Inr[unfolded res Ok]] have "\<forall>r. out \<noteq> DriveContinue r" by blast
      then show ?thesis by (cases out) (simp_all add: Inr res Ok)
    qed (simp_all add: Inr res)
  qed
qed simp

lemma drive_round_nonempty:
  assumes "drive_round cursor set_cursor step code steps pol frames = Inl (steps', pol', frames')"
  shows "frames_current frames' \<noteq> None"
  using assms
  by (auto simp: drive_round_def Let_def frames_current_def set_current_def frames_push_def
      split: option.splits outcome.splits prod.splits step_outcome.splits if_splits)

lemma drive_loop_nonempty:
  assumes "frames_current frames \<noteq> None"
    and "drive_loop cursor set_cursor step code work steps pol frames = (Ok (DriveContinue r), pol', frames')"
  shows "frames_current frames' \<noteq> None"
  using assms
proof (induction work arbitrary: steps pol frames)
  case (Suc work)
  show ?case
  proof (cases "drive_round cursor set_cursor step code steps pol frames")
    case (Inl c)
    obtain a b d where c: "c = (a, b, d)" by (cases c)
    from drive_round_nonempty[OF Inl[unfolded c]] have "frames_current d \<noteq> None" .
    from Suc.IH[OF this] Suc.prems(2) show ?thesis by (simp add: Inl c)
  next
    case (Inr res)
    then show ?thesis using Suc.prems(2) drive_round_charges(2) by fastforce
  qed
qed simp

text \<open>A run given to the driver in slices: every drive that exhausts its allowance is followed by the
  next one on the suspended frames, and the receipts are appended.\<close>

fun drive_slices where
  "drive_slices esize content_id cursor set_cursor step description permit [] pol frames = (Ok (DriveContinue []), pol, frames)"
| "drive_slices esize content_id cursor set_cursor step description permit (w # ws) pol frames =
     (case drive esize content_id cursor set_cursor step description permit pol frames w of
        (Ok (DriveContinue steps), pol', frames') \<Rightarrow>
          prefix_result steps (drive_slices esize content_id cursor set_cursor step description permit ws pol' frames')
      | res \<Rightarrow> res)"

lemma drive_add:
  assumes "\<not> capacity_overflows esize (m + n)"
  shows "drive esize content_id cursor set_cursor step description permit pol frames (m + n) =
     (case drive esize content_id cursor set_cursor step description permit pol frames m of
        (Ok (DriveContinue steps), pol', frames') \<Rightarrow>
          prefix_result steps (drive esize content_id cursor set_cursor step description permit pol' frames' n)
      | res \<Rightarrow> res)"
proof (cases "permit_accepts content_id permit description \<and> frames_current frames \<noteq> None")
  case True
  let ?loop = "drive_loop cursor set_cursor step (md_code description)"
  have fits: "\<not> capacity_overflows esize m" "\<not> capacity_overflows esize n"
    using assms capacity_overflows_mono[of esize m "m + n"] capacity_overflows_mono[of esize n "m + n"] by auto
  obtain final p f where m: "?loop m [] pol frames = (final, p, f)" by (cases "?loop m [] pol frames")
  have dm: "drive esize content_id cursor set_cursor step description permit pol frames m = (final, p, f)"
    "drive esize content_id cursor set_cursor step description permit pol frames (m + n) = ?loop (m + n) [] pol frames"
    using True m assms fits by (auto simp: drive_def)
  show ?thesis
  proof (cases final)
    case (Ok out)
    show ?thesis
    proof (cases out)
      case (DriveContinue r)
      have "frames_current f \<noteq> None"
        by (rule drive_loop_nonempty[OF _ m[unfolded Ok DriveContinue]]) (use True in simp)
      then have "drive esize content_id cursor set_cursor step description permit p f n = ?loop n [] p f"
        using True fits by (auto simp: drive_def)
      then show ?thesis
        using drive_loop_from[of cursor set_cursor step "md_code description" n r p f]
        by (simp add: dm m drive_loop_add Ok DriveContinue)
    qed (simp_all add: dm m drive_loop_add Ok)
  qed (simp_all add: dm m drive_loop_add)
next
  case False
  then show ?thesis by (auto simp: drive_def)
qed

lemma drive_continue_nonempty:
  assumes "drive esize content_id cursor set_cursor step description permit pol frames work = (Ok (DriveContinue r), p, f)"
  shows "frames_current f \<noteq> None"
proof -
  from assms have "frames_current frames \<noteq> None"
    "drive_loop cursor set_cursor step (md_code description) work [] pol frames = (Ok (DriveContinue r), p, f)"
    by (auto simp: drive_def split: if_splits)
  then show ?thesis by (rule drive_loop_nonempty)
qed

lemma drive_slices_sum:
  assumes "permit_accepts content_id permit description" "frames_current frames \<noteq> None" "\<forall>w\<in>set ws. \<not> capacity_overflows esize w"
  shows "drive_slices esize content_id cursor set_cursor step description permit ws pol frames =
    drive_loop cursor set_cursor step (md_code description) (sum_list ws) [] pol frames"
  using assms(2,3)
proof (induction ws arbitrary: pol frames)
  case (Cons w ws)
  let ?loop = "drive_loop cursor set_cursor step (md_code description)"
  obtain final p f where w: "?loop w [] pol frames = (final, p, f)" by (cases "?loop w [] pol frames")
  then have one: "drive esize content_id cursor set_cursor step description permit pol frames w = (final, p, f)"
    using assms(1) Cons.prems by (auto simp: drive_def)
  have rest: "drive_slices esize content_id cursor set_cursor step description permit ws p f = ?loop (sum_list ws) [] p f"
    if "final = Ok (DriveContinue r)" for r
    by (rule Cons.IH) (use drive_continue_nonempty[OF one[unfolded that]] Cons.prems(2) in auto)
  show ?case
  proof (cases "\<exists>r. final = Ok (DriveContinue r)")
    case True
    then obtain r where r: "final = Ok (DriveContinue r)" by blast
    show ?thesis
      using drive_loop_from[of cursor set_cursor step "md_code description" "sum_list ws" r p f]
      by (simp add: drive_loop_add w one r rest[OF r])
  next
    case False
    then show ?thesis by (auto simp: drive_loop_add w one split: outcome.split drive_outcome.split)
  qed
qed simp

section \<open>Frames stay on instruction boundaries\<close>

text \<open>The law of \<open>MachineFrame\<close> the driver relies on, and the demand on an instruction policy: from a
  frame on a boundary it leaves the frame on a boundary, names only boundaries and does not panic.\<close>

definition policy_inside :: "('f \<Rightarrow> code_cursor) \<Rightarrow> ('p, 'i, 'f, 'r, 'a, 'y, 'n, 'x) driver_policy \<Rightarrow> nat \<Rightarrow> bool" where
  "policy_inside cursor step n \<longleftrightarrow>
     (\<forall>pol i f. cursor f < n \<longrightarrow> (case step pol i f of (_, f', res) \<Rightarrow>
        cursor f' < n \<and>
        (case res of Ok (StepContinue c) \<Rightarrow> c < n | Ok (StepCall g) \<Rightarrow> cursor g < n | Panic _ \<Rightarrow> False | _ \<Rightarrow> True)))"

definition frames_inside :: "('f \<Rightarrow> code_cursor) \<Rightarrow> nat \<Rightarrow> 'f frame_stack \<Rightarrow> bool" where
  "frames_inside cursor n frames \<longleftrightarrow> frame_stack_ok frames \<and> (\<forall>f \<in> set (fs_frames frames). cursor f < n)"

lemma policy_insideD:
  assumes "policy_inside cursor step n" "cursor f < n" "step pol i f = (p, f', res)"
  shows "cursor f' < n \<and>
    (case res of Ok (StepContinue c) \<Rightarrow> c < n | Ok (StepCall g) \<Rightarrow> cursor g < n | Panic _ \<Rightarrow> False | _ \<Rightarrow> True)"
  using assms(1)[unfolded policy_inside_def, rule_format, OF assms(2), of pol i] unfolding assms(3) prod.case .

lemma frames_inside_ops:
  assumes "frames_inside cursor n frames"
  shows "cursor f < n \<Longrightarrow> frames_inside cursor n (set_current f frames)"
    and "cursor f < n \<Longrightarrow> frames_push f frames = Ok frames' \<Longrightarrow> frames_inside cursor n frames'"
    and "frames_pop frames = Some (f, frames') \<Longrightarrow> frames_inside cursor n frames'"
    and "frames_current frames = Some f \<Longrightarrow> cursor f < n"
proof -
  have all: "g \<in> set (butlast (fs_frames frames)) \<Longrightarrow> cursor g < n" for g
    using assms in_set_butlastD[of g "fs_frames frames"] by (simp add: frames_inside_def)
  show "cursor f < n \<Longrightarrow> frames_inside cursor n (set_current f frames)"
    "cursor f < n \<Longrightarrow> frames_push f frames = Ok frames' \<Longrightarrow> frames_inside cursor n frames'"
    "frames_pop frames = Some (f, frames') \<Longrightarrow> frames_inside cursor n frames'"
    "frames_current frames = Some f \<Longrightarrow> cursor f < n"
    using assms all
    by (auto simp: frames_inside_def frame_stack_ok_def set_current_def frames_push_def frames_pop_def
        frames_current_def split: if_splits)
qed

lemma set_current_twice: "set_current g (set_current f frames) = set_current g frames"
  by (simp add: set_current_def)

locale machine_frame =
  fixes cursor :: "'f \<Rightarrow> code_cursor" and set_cursor :: "code_cursor \<Rightarrow> 'f \<Rightarrow> 'f"
  assumes cursor_set: "cursor (set_cursor c f) = c"
begin

lemma round_inside:
  assumes frames: "frames_inside cursor n frames" "frames_current frames \<noteq> None"
    and policy: "policy_inside cursor step n" and n: "n = length (lc_instructions code)"
  shows "case drive_round cursor set_cursor step code steps pol frames of
      Inl (_, _, frames') \<Rightarrow> frames_inside cursor n frames'
    | Inr (res, _, frames') \<Rightarrow> (\<forall>msg. res \<noteq> Panic msg) \<and> frames_inside cursor n frames' \<and> res \<noteq> Err EmptyFrames \<and>
        (\<forall>a r. res = Ok (DriveRaise a r) \<longrightarrow> frames_current frames' \<noteq> None)"
proof -
  obtain f where f: "frames_current frames = Some f" using frames(2) by blast
  have c: "cursor f < n" by (rule frames_inside_ops(4)[OF frames(1) f])
  obtain p f' res where st: "step pol (li_instruction (lc_instructions code ! cursor f)) f = (p, f', res)"
    by (cases "step pol (li_instruction (lc_instructions code ! cursor f)) f")
  have inside: "cursor f' < n" "case res of Ok (StepContinue c) \<Rightarrow> c < n | Ok (StepCall g) \<Rightarrow> cursor g < n | Panic _ \<Rightarrow> False | _ \<Rightarrow> True"
    using policy_insideD[OF policy c st] by blast+
  note fr' = frames_inside_ops(1)[OF frames(1) inside(1)]
  have ne: "frames_current (set_current f' frames) \<noteq> None"
    using f by (auto simp: frames_current_def set_current_def split: if_splits)
  have at: "instruction_at code (cursor f) = Ok (lc_instructions code ! cursor f)"
    using c n by (simp add: instruction_at_def)
  show ?thesis
  proof (cases res)
    case (Ok out)
    show ?thesis
    proof (cases out)
      case (StepContinue nxt)
      with inside(2) Ok have "cursor (set_cursor nxt f') < n" by (simp add: cursor_set)
      from frames_inside_ops(1)[OF frames(1) this] show ?thesis
        by (simp add: drive_round_def f at st Ok StepContinue set_current_twice)
    next
      case (StepCall g)
      with inside(2) Ok have "cursor g < n" by simp
      note ops = frames_inside_ops(2)[OF fr' this] and out = Ok
      show ?thesis
      proof (cases "frames_push g (set_current f' frames)")
        case (Ok fr)
        then show ?thesis using ops by (simp add: drive_round_def f at st out StepCall)
      next
        case (Err e)
        then show ?thesis using fr' by (simp add: drive_round_def f at st out StepCall)
      next
        case (Panic msg)
        then show ?thesis by (simp add: frames_push_def split: if_splits)
      qed
    next
      case (StepReturn r)
      obtain g fr where pop: "frames_pop (set_current f' frames) = Some (g, fr)"
        using ne by (auto simp: frames_current_def frames_pop_def split: if_splits)
      from frames_inside_ops(3)[OF fr' pop] show ?thesis
        by (simp add: drive_round_def f at st Ok StepReturn pop Let_def)
    qed (use fr' ne in \<open>simp_all add: drive_round_def f at st Ok\<close>)
  qed (use fr' inside(2) in \<open>simp_all add: drive_round_def f at st\<close>)
qed

end

interpretation record_frame: machine_frame fr_cursor frame_set_cursor
  by unfold_locales (simp add: frame_set_cursor_def)

lemma drive_one:
  "drive esize content_id cursor set_cursor step description permit pol frames 1 =
     (if \<not> permit_accepts content_id permit description then (Err PermitMismatch, pol, frames)
      else if frames_current frames = None then (Err EmptyFrames, pol, frames)
      else case drive_round cursor set_cursor step (md_code description) [] pol frames of
          Inl (steps, pol', frames') \<Rightarrow> (Ok (DriveContinue steps), pol', frames')
        | Inr res \<Rightarrow> res)"
  by (simp add: drive_def split: sum.split prod.split)

lemma protected_loop_0 [simp]:
  "protected_loop esize content_id cursor set_cursor step description permit 0 combined pol frames =
     (Ok (DriveContinue combined), pol, frames)"
  by (simp add: protected_loop.simps)

text \<open>One round of the protected loop, with the charge of the round taken.\<close>

lemma protected_loop_Suc:
  "protected_loop esize content_id cursor set_cursor step description permit (Suc left) combined pol frames =
     (case frames_current frames of
        None \<Rightarrow> (Err EmptyFrames, pol, frames)
      | Some current \<Rightarrow>
          (case drive esize content_id cursor set_cursor step description permit pol frames 1 of
             (Ok (DriveRaise a later), pol', frames') \<Rightarrow>
               (case innermost_protected_region (md_code description) (cursor current) of
                  Some region \<Rightarrow>
                    (case frames_current frames' of
                       Some raising \<Rightarrow>
                         protected_loop esize content_id cursor set_cursor step description permit
                           left (append_receipt combined later) pol'
                           (set_current (set_cursor (pr_handler region) raising) frames')
                     | None \<Rightarrow> (Panic ''raising frame remains'', pol', frames'))
                | None \<Rightarrow> (Ok (DriveRaise a (append_receipt combined later)), pol', frames'))
           | (Ok (DriveContinue later), pol', frames') \<Rightarrow>
               protected_loop esize content_id cursor set_cursor step description permit
                       left (append_receipt combined later) pol' frames'
           | res \<Rightarrow> prefix_result combined res))"
proof (cases "frames_current frames")
  case (Some current)
  obtain final p f where d: "drive esize content_id cursor set_cursor step description permit pol frames 1 = (final, p, f)"
    by (cases "drive esize content_id cursor set_cursor step description permit pol frames 1")
  note d' = d[unfolded One_nat_def]
  show ?thesis
  proof (cases final)
    case (Ok out)
    have "charged (receipt out) = 1" by (rule drive_one_charged[OF d[unfolded Ok]])
    then show ?thesis
      by (subst protected_loop.simps) (cases out; simp add: Some d' Ok split: option.split)
  qed (subst protected_loop.simps, simp add: Some d')+
qed (simp add: protected_loop.simps)

context machine_frame
begin

lemma protected_inside:
  assumes ok: "located_code_ok instruction_id (md_code description)"
    and policy: "policy_inside cursor step n" and n: "n = length (lc_instructions (md_code description))"
  shows "frames_inside cursor n frames \<Longrightarrow>
    case protected_loop esize content_id cursor set_cursor step description permit left combined pol frames of
      (res, _, frames') \<Rightarrow> (\<forall>msg. res \<noteq> Panic msg) \<and> frames_inside cursor n frames'"
proof (induction left arbitrary: combined pol frames)
  case (Suc left)
  show ?case
  proof (cases "permit_accepts content_id permit description \<and> frames_current frames \<noteq> None")
    case True
    then obtain f where f: "frames_current frames = Some f" by blast
    note round = round_inside[OF Suc.prems _ policy n, where steps = "[]" and pol = pol]
    show ?thesis
    proof (cases "drive_round cursor set_cursor step (md_code description) [] pol frames")
      case (Inl c)
      obtain st p fr where c: "c = (st, p, fr)" by (cases c)
      have one: "drive esize content_id cursor set_cursor step description permit pol frames 1 = (Ok (DriveContinue st), p, fr)"
        using True by (simp only: drive_one Inl c) simp
      have "frames_inside cursor n fr" using round True by (simp add: Inl c)
      from Suc.IH[OF this] show ?thesis by (simp only: protected_loop_Suc f one) simp
    next
      case (Inr c)
      obtain res p fr where c: "c = (res, p, fr)" by (cases c)
      have one: "drive esize content_id cursor set_cursor step description permit pol frames 1 = (res, p, fr)"
        using True by (simp only: drive_one Inr c) simp
      have r: "\<forall>msg. res \<noteq> Panic msg" "frames_inside cursor n fr"
        "\<forall>a r. res = Ok (DriveRaise a r) \<longrightarrow> frames_current fr \<noteq> None"
        using round True by (auto simp: Inr c)
      consider (raise) a later where "res = Ok (DriveRaise a later)" | (cont) later where "res = Ok (DriveContinue later)"
        | (other) "\<forall>a later. res \<noteq> Ok (DriveRaise a later)" "\<forall>later. res \<noteq> Ok (DriveContinue later)" by blast
      then show ?thesis
      proof cases
        case raise
        with r(3) obtain g where g: "frames_current fr = Some g" by blast
        have inner: "frames_inside cursor n (set_current (set_cursor (pr_handler region) g) fr)"
          if "innermost_protected_region (md_code description) (cursor f) = Some region" for region
        proof -
          from innermost_member(1)[OF ok that] ok n have "pr_handler region < n" by (auto simp: located_code_ok_def region_ok_def)
          then show ?thesis using frames_inside_ops(1)[OF r(2)] by (simp add: cursor_set)
        qed
        show ?thesis
        proof (cases "innermost_protected_region (md_code description) (cursor f)")
          case None
          then show ?thesis using r(2) by (simp only: protected_loop_Suc f one raise) simp
        next
          case (Some region)
          from Suc.IH[OF inner[OF Some]] show ?thesis
            by (simp only: protected_loop_Suc f one raise Some g) (simp add: g Some)
        qed
      next
        case cont
        from Suc.IH[OF r(2)] show ?thesis by (simp only: protected_loop_Suc f one cont) simp
      next
        case other
        have "protected_loop esize content_id cursor set_cursor step description permit (Suc left) combined pol frames =
            prefix_result combined (res, p, fr)"
          using other by (simp only: protected_loop_Suc f one) (auto split: outcome.split drive_outcome.split)
        moreover have "\<forall>msg. fst (prefix_result combined (res, p, fr)) \<noteq> Panic msg"
          using r(1) by (cases res) simp_all
        ultimately show ?thesis using r(2) by (cases res) simp_all
      qed
    qed
  next
    case False
    then show ?thesis using Suc.prems
      by (cases "frames_current frames") (auto simp: protected_loop_Suc drive_def)
  qed
qed simp

end

section \<open>Raises, safepoints and cleanups\<close>

lemma drive_one_raise:
  assumes "drive esize content_id cursor set_cursor step description permit pol frames 1 = (Ok (DriveRaise a later), p, f)"
    and "frames_current frames = Some current"
  shows "cursor current < length (lc_instructions (md_code description))"
    and "later = [(li_id (lc_instructions (md_code description) ! cursor current), KRaise)]"
  using assms
  by (auto simp: drive_one[unfolded One_nat_def] drive_round_def instruction_at_def Let_def
      split: if_splits outcome.splits prod.splits step_outcome.splits sum.splits)

lemma protected_loop_raise:
  assumes "protected_loop esize content_id cursor set_cursor step description permit left combined pol frames =
      (Ok (DriveRaise a steps), p, f)"
  shows "\<exists>pre c. c < length (lc_instructions (md_code description)) \<and>
    steps = pre @ [(li_id (lc_instructions (md_code description) ! c), KRaise)] \<and>
    (\<forall>region \<in> set (lc_regions (md_code description)). \<not> region_contains c region)"
  using assms
proof (induction left arbitrary: combined pol frames)
  case (Suc left)
  from Suc.prems obtain current where current: "frames_current frames = Some current"
    by (cases "frames_current frames") (auto simp: protected_loop_Suc)
  obtain res q g where one: "drive esize content_id cursor set_cursor step description permit pol frames 1 = (res, q, g)"
    by (cases "drive esize content_id cursor set_cursor step description permit pol frames 1")
  consider (raise) b later where "res = Ok (DriveRaise b later)" | (cont) later where "res = Ok (DriveContinue later)"
    | (other) "\<forall>a later. res \<noteq> Ok (DriveRaise a later)" "\<forall>later. res \<noteq> Ok (DriveContinue later)" by blast
  then show ?case
  proof cases
    case raise
    note r = drive_one_raise[OF one[unfolded raise] current]
    show ?thesis
    proof (cases "innermost_protected_region (md_code description) (cursor current)")
      case None
      with Suc.prems have "steps = combined @ later"
        by (simp only: protected_loop_Suc current one raise) (simp add: append_receipt_def)
      with r innermost_None[OF None] show ?thesis by blast
    next
      case (Some region)
      show ?thesis
      proof (cases "frames_current g")
        case None
        with Suc.prems Some show ?thesis by (simp only: protected_loop_Suc current one raise) simp
      next
        case (Some h)
        with Suc.prems \<open>innermost_protected_region _ _ = Some region\<close> show ?thesis
          by (simp only: protected_loop_Suc current one raise) (simp add: Suc.IH)
      qed
    qed
  next
    case cont
    from Suc.prems show ?thesis by (simp only: protected_loop_Suc current one cont) (simp add: Suc.IH)
  next
    case other
    from Suc.prems other have "prefix_result combined (res, q, g) = (Ok (DriveRaise a steps), p, f)"
      by (simp only: protected_loop_Suc current one) (auto split: outcome.splits drive_outcome.splits)
    with other show ?thesis by (cases res; cases "case res of Ok out \<Rightarrow> out | _ \<Rightarrow> DriveContinue []") auto
  qed
qed simp

lemma cleanups_unwind_foldr: "cleanups_unwind cleanups reason world = (reason, foldr (\<lambda>c. c reason) cleanups world)"
proof (induction cleanups arbitrary: world rule: rev_induct)
  case Nil
  then show ?case by (subst cleanups_unwind.simps) simp
next
  case (snoc c cs)
  then show ?case by (subst cleanups_unwind.simps) simp
qed

fun unwind_reason :: "('e, ('id, 'r, 'a, 'y, 'n) drive_outcome) outcome \<Rightarrow> ('r, 'a, 'n) machine_unwind option" where
  "unwind_reason (Ok (DriveReturn r _)) = Some (UnwindReturn r)"
| "unwind_reason (Ok (DriveRaise a _)) = Some (UnwindException (AbruptRaise a))"
| "unwind_reason (Ok (DriveInterrupt n _)) = Some (UnwindException (AbruptInterrupt n))"
| "unwind_reason (Ok (DriveContinue _)) = Some (UnwindException BudgetExhausted)"
| "unwind_reason (Ok (DriveYield _ _)) = None"
| "unwind_reason (Err _) = Some (UnwindException AbruptFault)"
| "unwind_reason (Panic _) = None"

text \<open>The refusal of a root view, by its budget or by the observer.\<close>

fun refused :: "(('id, 's, 'x, 'se) safepoint_drive_error, 'b) outcome \<Rightarrow> bool" where
  "refused (Err (RootScan _)) = True"
| "refused (Err (Safepoint _)) = True"
| "refused _ = False"

definition publication :: "(('root, 'root list) visitor \<Rightarrow> 'f frame_stack \<Rightarrow> 'root list \<Rightarrow> bool \<times> 'root list)
    \<Rightarrow> ('root list \<Rightarrow> 'o \<Rightarrow> ('se, unit) outcome \<times> 'o) \<Rightarrow> usize \<Rightarrow> bool \<Rightarrow> 'f frame_stack \<Rightarrow> 'o
    \<Rightarrow> (root_scan_error + 'se) option \<times> 'o" where
  "publication source observe root_budget safepoint frames obs =
     (if safepoint then
        (case scan_roots source frames root_budget of
           Ok roots \<Rightarrow> (case observe roots obs of (Err e, obs') \<Rightarrow> (Some (Inr e), obs') | (_, obs') \<Rightarrow> (None, obs'))
         | Err e \<Rightarrow> (Some (Inl e), obs)
         | Panic _ \<Rightarrow> (None, obs))
      else (None, obs))"

lemma publish_publication:
  assumes "\<forall>roots obs msg. fst (observe roots obs) \<noteq> Panic msg"
  shows "publish_roots source observe root_budget safepoint frames obs =
    (case publication source observe root_budget safepoint frames obs of
       (None, obs') \<Rightarrow> (Ok (), obs')
     | (Some (Inl e), obs') \<Rightarrow> (Err (RootScan e), obs')
     | (Some (Inr e), obs') \<Rightarrow> (Err (Safepoint e), obs'))"
proof -
  have scan: "scan_roots source frames root_budget \<noteq> Panic msg" for msg
    by (simp add: scan_roots_def split: prod.split)
  show ?thesis
  proof (cases "scan_roots source frames root_budget")
    case (Ok roots)
    obtain seen obs' where o: "observe roots obs = (seen, obs')" by (cases "observe roots obs")
    have "\<forall>msg. seen \<noteq> Panic msg" using assms o by (metis fst_conv)
    with Ok o show ?thesis by (cases seen) (simp_all add: publish_roots_def publication_def)
  qed (use scan in \<open>simp_all add: publish_roots_def publication_def\<close>)
qed

definition safepoint_view where
  "safepoint_view combined whole part run \<longleftrightarrow>
     (case run of (res, p, f, _) \<Rightarrow>
        if refused res then part p f
        else (res, p, f) = (case prefix_result combined whole of (out, st) \<Rightarrow> (map_err SafepointDrive out, st)))"

lemma drive_Suc:
  assumes "\<not> capacity_overflows esize (Suc work)"
  shows "drive esize content_id cursor set_cursor step description permit pol frames (Suc work) =
     (case drive esize content_id cursor set_cursor step description permit pol frames 1 of
        (Ok (DriveContinue steps), pol', frames') \<Rightarrow>
          prefix_result steps (drive esize content_id cursor set_cursor step description permit pol' frames' work)
      | res \<Rightarrow> res)"
  using drive_add[of esize 1 work content_id cursor set_cursor step description permit pol frames] assms by simp

lemma refused_map_err [simp]: "\<not> refused (map_err SafepointDrive res)"
  by (cases res) simp_all

lemma safepoint_loop_drive:
  assumes accept: "permit_accepts content_id permit description" and quiet: "\<forall>roots obs msg. fst (observe roots obs) \<noteq> Panic msg"
  shows "frames_current frames \<noteq> None \<Longrightarrow> \<not> capacity_overflows esize work \<Longrightarrow>
    safepoint_view combined (drive esize content_id cursor set_cursor step description permit pol frames work)
      (\<lambda>p f. \<exists>k < work. \<exists>r. drive esize content_id cursor set_cursor step description permit pol frames k = (Ok (DriveContinue r), p, f))
      (safepoint_loop esize content_id cursor set_cursor step source observe root_budget description permit work combined pol frames obs)"
proof (induction work arbitrary: combined pol frames obs)
  case 0
  then show ?case using accept by (auto simp: safepoint_view_def drive_def append_receipt_def)
next
  case (Suc work)
  then obtain current where current: "frames_current frames = Some current" by blast
  have fits: "\<not> capacity_overflows esize k" if "k \<le> Suc work" for k
    using Suc.prems(2) that capacity_overflows_mono by blast
  have zero: "drive esize content_id cursor set_cursor step description permit pol frames 0 = (Ok (DriveContinue []), pol, frames)"
    using accept current by (simp add: drive_def)
  obtain res q g where one: "drive esize content_id cursor set_cursor step description permit pol frames 1 = (res, q, g)"
    by (cases "drive esize content_id cursor set_cursor step description permit pol frames 1")
  show ?case
  proof (cases "cursor current < length (lc_instructions (md_code description))")
    case True
    note step = safepoint_loop.simps(2) current option.case instruction_at_def True if_True outcome.case prod.case one drive_Suc[OF Suc.prems(2)]
    obtain verdict obs' where pub: "publication source observe root_budget
        (li_safepoint (lc_instructions (md_code description) ! cursor current)) frames obs = (verdict, obs')"
      by (cases "publication source observe root_budget
        (li_safepoint (lc_instructions (md_code description) ! cursor current)) frames obs")
    show ?thesis
    proof (cases verdict)
      case (Some e)
      have "safepoint_view combined whole part (safepoint_loop esize content_id cursor set_cursor step source observe
          root_budget description permit (Suc work) combined pol frames obs) \<longleftrightarrow> part pol frames" for whole part
        by (cases e; simp only: step publish_publication[OF quiet] pub Some sum.case safepoint_view_def; simp)
      then show ?thesis using zero by blast
    next
      case None
      note run = step publish_publication[OF quiet] pub None safepoint_view_def
      show ?thesis
      proof (cases res)
        case (Ok out)
        show ?thesis
        proof (cases out)
          case (DriveContinue later)
          have more: "\<exists>k < Suc work. \<exists>r. drive esize content_id cursor set_cursor step description permit pol frames k = (Ok (DriveContinue r), p, f)"
            if "\<exists>k < work. \<exists>r. drive esize content_id cursor set_cursor step description permit q g k = (Ok (DriveContinue r), p, f)" for p f
          proof -
            from that obtain k r where k: "k < work"
              "drive esize content_id cursor set_cursor step description permit q g k = (Ok (DriveContinue r), p, f)" by blast
            then have "drive esize content_id cursor set_cursor step description permit pol frames (Suc k) =
                (Ok (DriveContinue (later @ r)), p, f)"
              using fits[of "Suc k"] by (subst drive_Suc) (simp_all add: one[unfolded One_nat_def] Ok DriveContinue append_receipt_def)
            with k(1) show ?thesis by blast
          qed
          obtain x p f ob where rest: "safepoint_loop esize content_id cursor set_cursor step source observe root_budget
              description permit work (append_receipt combined later) q g obs' = (x, p, f, ob)"
            by (metis prod_cases4)
          have IH: "if refused x
            then \<exists>k < work. \<exists>r. drive esize content_id cursor set_cursor step description permit q g k = (Ok (DriveContinue r), p, f)
            else (x, p, f) = (case prefix_result (append_receipt combined later)
                (drive esize content_id cursor set_cursor step description permit q g work) of (out, st) \<Rightarrow> (map_err SafepointDrive out, st))"
            using Suc.IH[OF drive_continue_nonempty[OF one[unfolded Ok DriveContinue]] fits[OF le_SucI[OF order_refl]],
              where combined = "append_receipt combined later" and obs = obs' and pol = q]
            unfolding safepoint_view_def rest prod.case .
          show ?thesis
          proof (cases "refused x")
            case True
            with IH more[of p f] show ?thesis
              by (simp only: run Ok DriveContinue drive_outcome.case rest if_True)
          next
            case False
            with IH show ?thesis
              by (simp only: run Ok DriveContinue drive_outcome.case rest) (simp add: append_receipt_def)
          qed
        qed (simp_all only: run Ok drive_outcome.case, simp_all)
      qed (simp_all only: run, simp_all)
    qed
  next
    case False
    then have "drive esize content_id cursor set_cursor step description permit pol frames 1 =
        (Panic ''index out of bounds'', pol, frames)"
      by (simp only: drive_one) (simp add: accept current drive_round_def instruction_at_def)
    with False show ?thesis by (simp only: drive_Suc[OF Suc.prems(2)] safepoint_view_def) (simp add: current instruction_at_def)
  qed
qed

section \<open>Properties\<close>

text \<open>
  A description is admitted exactly when its five limits are positive, its code fits the
  instruction limit, the consumer accepts the description and every instruction, and the kernel can
  identify it; the permit is then that identity, which the permit check accepts.
\<close>

theorem admit_exact:
  "(admit_machine validate_description validate_instruction content_id d = Ok permit \<longleftrightarrow>
      0 < lim_instructions (md_limits d) \<and> 0 < lim_operand_units (md_limits d) \<and> 0 < lim_slots (md_limits d) \<and>
      0 < lim_frames (md_limits d) \<and> 0 < lim_work (md_limits d) \<and>
      length (lc_instructions (md_code d)) \<le> lim_instructions (md_limits d) \<and>
      validate_description d = Ok () \<and>
      list_all (\<lambda>l. validate_instruction (li_instruction l) (md_metadata d) = Ok ()) (lc_instructions (md_code d)) \<and>
      content_id d = Some permit) \<and>
   permit_accepts content_id permit d = (content_id d = Some permit)"
  by (auto simp: admit_machine_def outcome_simps validate_limits_Ok_iff validate_instructions_Ok_iff
      list_all_iff permit_accepts_def split: option.splits)

text \<open>
  How a run is cut into drives does not matter: for an accepted permit and a stack with a frame,
  running the slices one after the other, each on the frames the last one left, gives the outcome,
  the final state and the receipt of one drive with the whole allowance, when its receipt can be
  allocated.
\<close>

theorem slices_equal_one_drive:
  assumes "permit_accepts content_id permit description" "frames_current frames \<noteq> None"
    and "\<not> capacity_overflows esize (sum_list ws)"
  shows "drive_slices esize content_id cursor set_cursor step description permit ws pol frames =
    drive esize content_id cursor set_cursor step description permit pol frames (sum_list ws)"
proof -
  have "\<forall>w\<in>set ws. \<not> capacity_overflows esize w"
    using assms(3) capacity_overflows_mono[of esize _ "sum_list ws"] member_le_sum_list[of _ ws] by blast
  from drive_slices_sum[OF assms(1,2) this] show ?thesis using assms by (auto simp: drive_def)
qed

text \<open>
  C27: progress. If a program ends within \<open>k\<close> instructions, every schedule of slices that grants at
  least \<open>k\<close> instructions in total ends it, with the same outcome, the same state and the same receipt.
  The receipts of the slices and of the \<open>k\<close> instructions must be allocatable: an allowance whose
  receipt exceeds \<open>isize::MAX\<close> bytes panics before the first instruction (\<open>Vec::with_capacity\<close>), as
  the second part states.
\<close>

theorem drive_finishes:
  assumes "permit_accepts content_id permit description" "frames_current frames \<noteq> None"
    and "\<not> capacity_overflows esize k" "\<forall>w\<in>set ws. \<not> capacity_overflows esize w"
    and "drive esize content_id cursor set_cursor step description permit pol frames k = (res, st)"
    and "\<forall>r. res \<noteq> Ok (DriveContinue r)" and "k \<le> sum_list ws"
  shows "drive_slices esize content_id cursor set_cursor step description permit ws pol frames = (res, st) \<and>
    (capacity_overflows esize work \<longrightarrow>
       drive esize content_id cursor set_cursor step description permit pol frames work = (Panic ''capacity overflow'', pol, frames))"
proof -
  obtain n where n: "sum_list ws = k + n" using assms(7) le_Suc_ex by blast
  obtain p f where st: "st = (p, f)" by (cases st)
  have k: "drive_loop cursor set_cursor step (md_code description) k [] pol frames = (res, p, f)"
    using assms(1,2,3,5) by (auto simp: drive_def st)
  have "drive_slices esize content_id cursor set_cursor step description permit ws pol frames = (res, st)"
    unfolding drive_slices_sum[OF assms(1,2,4)] n drive_loop_add k st
    using assms(6) by (cases res; cases "case res of Ok out \<Rightarrow> out | _ \<Rightarrow> DriveContinue []") simp_all
  then show ?thesis using assms(1,2) by (auto simp: drive_def)
qed

text \<open>
  The receipt of a drive is exact: it never charges more than the allowance, charges something
  whenever the allowance is positive, and an exhausted drive has charged all of it.
\<close>

theorem drive_charges_exactly:
  assumes "drive esize content_id cursor set_cursor step description permit pol frames work = (Ok out, st)"
  shows "charged (receipt out) \<le> work \<and> (0 < work \<longrightarrow> 0 < charged (receipt out)) \<and>
    (\<forall>r. out = DriveContinue r \<longrightarrow> charged r = work)"
proof -
  obtain p f where st: "st = (p, f)" by (cases st)
  from assms have "drive_loop cursor set_cursor step (md_code description) work [] pol frames = (Ok out, p, f)"
    by (simp add: drive_def st split: if_splits)
  from drive_loop_charges[OF this] show ?thesis by (auto simp: charged_def)
qed

text \<open>
  C28: a protected drive of admitted code never panics: with frames on instruction boundaries and an
  instruction policy that stays on them, every cursor the driver dereferences is in range, the
  raising frame is still there when a handler is entered, and the frames end on boundaries within
  the frame limit.
\<close>

theorem protected_drive_safe:
  assumes "located_code_ok instruction_id (md_code description)"
    and "policy_inside fr_cursor step (length (lc_instructions (md_code description)))"
    and "frames_inside fr_cursor (length (lc_instructions (md_code description))) frames"
  shows "case drive_protected esize content_id fr_cursor frame_set_cursor step description permit pol frames work of
      (res, _, frames') \<Rightarrow> (\<forall>msg. res \<noteq> Panic msg) \<and>
        frames_inside fr_cursor (length (lc_instructions (md_code description))) frames'"
  unfolding drive_protected_def by (rule record_frame.protected_inside[OF assms(1,2) refl assms(3)])

text \<open>
  A protected drive reports a raise only when no protected region contains the raising
  instruction; the raise is the last entry of the receipt.
\<close>

theorem reported_raise_unprotected:
  assumes "drive_protected esize content_id cursor set_cursor step description permit pol frames work =
      (Ok (DriveRaise a steps), st)"
  shows "\<exists>pre c. c < length (lc_instructions (md_code description)) \<and>
    steps = pre @ [(li_id (lc_instructions (md_code description) ! c), KRaise)] \<and>
    (\<forall>region \<in> set (lc_regions (md_code description)). \<not> region_contains c region)"
proof -
  obtain p f where "st = (p, f)" by (cases st)
  with assms show ?thesis unfolding drive_protected_def by (intro protected_loop_raise) simp
qed

text \<open>
  Publishing roots at safepoints does not change a run. Unless a root view is refused, by its
  budget or by the observer, the drive with safepoints has the outcome, the state and the receipt of
  the plain drive; a refusal leaves exactly the state of a shorter plain drive.
\<close>

theorem safepoints_transparent:
  assumes "permit_accepts content_id permit description" "frames_current frames \<noteq> None"
    and "\<forall>roots obs msg. fst (observe roots obs) \<noteq> Panic msg" and "\<not> capacity_overflows esize work"
  shows "case drive_with_safepoints esize content_id cursor set_cursor step source observe root_budget description permit pol frames work obs of
      (res, p, f, _) \<Rightarrow>
        if refused res
        then \<exists>k < work. \<exists>r. drive esize content_id cursor set_cursor step description permit pol frames k = (Ok (DriveContinue r), p, f)
        else (res, p, f) =
          (case drive esize content_id cursor set_cursor step description permit pol frames work of
             (out, st) \<Rightarrow> (map_err SafepointDrive out, st))"
proof -
  have eq: "drive_with_safepoints esize content_id cursor set_cursor step source observe root_budget description permit pol frames work obs =
      safepoint_loop esize content_id cursor set_cursor step source observe root_budget description permit work [] pol frames obs"
    using assms(1,2) by (auto simp: drive_with_safepoints_def)
  show ?thesis unfolding eq
    by (rule safepoint_loop_drive[OF assms(1,3,2,4), where combined = "[]", unfolded safepoint_view_def prefix_result_simps(1)])
qed

text \<open>
  Every registered cleanup runs exactly once, the last registered first, with the reason of the
  ending, when a drive returns, raises, is interrupted, exhausts its allowance or fails; no cleanup
  runs when it yields.
\<close>

theorem cleanups_run_once:
  "drive_with_cleanup esize content_id cursor set_cursor step description permit pol frames work cleanups world =
     (case drive_protected esize content_id cursor set_cursor step description permit pol frames work of
        (res, p, f) \<Rightarrow> (res, p, f,
          case unwind_reason res of Some reason \<Rightarrow> foldr (\<lambda>cleanup. cleanup reason) cleanups world | None \<Rightarrow> world))"
  by (simp add: drive_with_cleanup_def cleanups_unwind_foldr split: prod.split outcome.split drive_outcome.split)

text \<open>
  A root scan of an activation stack is complete or refused: the view lists the managed
  identities of every frame, callers first, slots before operands before frame roots, exactly when
  they fit the budget, and is refused with the budget otherwise.
\<close>

theorem root_scan_complete:
  "scan_roots (visit_frames (visit_frame visit_managed_id visit_unit (visit_vec visit_managed_id) visit_unit)) frames budget =
     (let roots = concat (map (frame_roots (\<lambda>ident. [ident]) (\<lambda>_. []) (\<lambda>ids. ids) (\<lambda>_. [])) (fs_frames frames)) in
      if length roots \<le> budget then Ok roots else Err (RootBudgetExhausted budget budget))"
  unfolding Let_def by (rule identity_frame_stack.stack.scan_exact)

text \<open>
  A checkpoint is bound to the content it suspended: it resumes under a permit for that content,
  giving back its frames and receipt, and is returned unchanged under any other permit. Resuming an
  exhausted drive and driving on gives what one longer drive gives.
\<close>

theorem checkpoint_round_trip:
  assumes "drive esize content_id cursor set_cursor step description permit pol frames m = (Ok (DriveContinue steps), pol', frames')"
    and "\<not> capacity_overflows esize (m + n)"
  shows "checkpoint_resume (checkpoint_new frames' permit steps) permit = Ok (frames', steps) \<and>
    (\<forall>other. other \<noteq> permit \<longrightarrow>
       checkpoint_resume (checkpoint_new frames' permit steps) other = Err (checkpoint_new frames' permit steps)) \<and>
    drive esize content_id cursor set_cursor step description permit pol frames (m + n) =
      prefix_result steps (drive esize content_id cursor set_cursor step description permit pol' frames' n)"
  using assms by (simp add: checkpoint_resume_def checkpoint_new_def drive_add)

section \<open>A concrete machine\<close>

type_synonym demo_frame = "(nat, unit, nat list, unit) activation_frame"

fun demo_step :: "nat \<Rightarrow> nat \<Rightarrow> demo_frame \<Rightarrow> nat \<times> demo_frame \<times> (unit, (demo_frame, nat, string, unit, unit) step_outcome) outcome" where
  "demo_step pol i f = (Suc pol, f,
     Ok (if i = 10 then StepContinue 1 else if i = 11 then StepRaise ''boom''
         else if i = 12 then StepContinue 3 else StepReturn pol))"

lift_definition demo_entry :: entry_size is 16
  by (simp add: isize_max_def)

lemma demo_fits: "n \<le> 100 \<Longrightarrow> \<not> capacity_overflows demo_entry n"
  by (simp add: capacity_overflows_def demo_entry.rep_eq isize_max_def)

definition demo_frames :: "demo_frame frame_stack" where
  "demo_frames = \<lparr>fs_frames = [activation_new 2 2 0 None [7, 8] ()], fs_limit = 4\<rparr>"

definition demo_description :: "(nat, nat, string, unit) machine_description" where
  "demo_description = \<lparr>md_code = demo_code,
     md_limits = \<lparr>lim_instructions = 4, lim_operand_units = 2, lim_slots = 2, lim_frames = 4, lim_work = 9\<rparr>,
     md_metadata = ()\<rparr>"

definition demo_content :: "(nat, nat, string, unit) machine_description \<Rightarrow> nat option" where
  "demo_content d = Some (length (lc_instructions (md_code d)))"

lemma demo_accepts: "permit_accepts demo_content 4 demo_description"
  by (simp add: permit_accepts_def demo_content_def demo_description_def demo_code_ok demo_instructions_def)

lemma demo_current: "frames_current demo_frames \<noteq> None"
  by (simp add: demo_frames_def frames_current_def)

lemma demo_policy_inside: "policy_inside fr_cursor demo_step (length (lc_instructions (md_code demo_description)))"
  by (simp add: policy_inside_def demo_description_def demo_code_ok demo_instructions_def)

lemma demo_frames_inside: "frames_inside fr_cursor (length (lc_instructions (md_code demo_description))) demo_frames"
  by (simp add: frames_inside_def frame_stack_ok_def demo_frames_def activation_new_def demo_description_def demo_code_ok
      demo_instructions_def)

abbreviation demo_drive :: "usize \<Rightarrow> (nat, nat, string, demo_frame, nat, string, unit, unit, unit) drive_result" where
  "demo_drive \<equiv> drive demo_entry demo_content fr_cursor frame_set_cursor demo_step demo_description 4 0 demo_frames"

lemma demo_drive_2:
  "demo_drive 2 = (Ok (DriveRaise ''boom'' [(10, KContinue), (11, KRaise)]), 2, snd (snd (demo_drive 2)))"
proof -
  have "case demo_drive 2 of (Ok (DriveRaise a r), p, _) \<Rightarrow> a = ''boom'' \<and> r = [(10, KContinue), (11, KRaise)] \<and> p = 2 | _ \<Rightarrow> False"
    by code_simp
  then show ?thesis by (auto split: prod.splits outcome.splits drive_outcome.splits)
qed

lemma demo_drive_1: "demo_drive 1 = (Ok (DriveContinue [(10, KContinue)]), 1, snd (snd (demo_drive 1)))"
proof -
  have "case demo_drive 1 of (Ok (DriveContinue r), p, _) \<Rightarrow> r = [(10, KContinue)] \<and> p = 1 | _ \<Rightarrow> False"
    by code_simp
  then show ?thesis by (auto split: prod.splits outcome.splits drive_outcome.splits)
qed

theorem slices_equal_one_drive_witness:
  "permit_accepts demo_content 4 demo_description \<and> frames_current demo_frames \<noteq> None \<and>
   drive_slices demo_entry demo_content fr_cursor frame_set_cursor demo_step demo_description 4 [1, 1] 0 demo_frames = demo_drive 2"
  using slices_equal_one_drive[OF demo_accepts demo_current demo_fits, of "[1, 1]" fr_cursor frame_set_cursor demo_step 0]
    demo_accepts demo_current by (simp add: numeral_2_eq_2)

theorem drive_finishes_witness:
  "fst (drive_slices demo_entry demo_content fr_cursor frame_set_cursor demo_step demo_description 4 [1, 0, 4] 0 demo_frames) =
     Ok (DriveRaise ''boom'' [(10, KContinue), (11, KRaise)]) \<and> 2 \<le> sum_list [1, 0, 4 :: nat]"
  using drive_finishes[OF demo_accepts demo_current demo_fits _ demo_drive_2, of "[1, 0, 4]"] demo_fits by simp

theorem drive_charges_exactly_witness:
  "fst (demo_drive 1) = Ok (DriveContinue [(10, KContinue)]) \<and> charged [(10 :: nat, KContinue)] = 1"
  using drive_charges_exactly[OF demo_drive_1] arg_cong[OF demo_drive_1, of fst] by simp

theorem protected_drive_safe_witness:
  "policy_inside fr_cursor demo_step (length (lc_instructions (md_code demo_description))) \<and>
   (case drive_protected demo_entry demo_content fr_cursor frame_set_cursor demo_step demo_description 4 0 demo_frames 5 of
      (res, _, frames') \<Rightarrow> (\<forall>msg. res \<noteq> Panic msg) \<and>
        frames_inside fr_cursor (length (lc_instructions (md_code demo_description))) frames')"
  using protected_drive_safe[OF _ demo_policy_inside demo_frames_inside, of id demo_entry demo_content 4 0 5] demo_policy_inside
    demo_code_ok by (simp add: demo_description_def)

definition bare_description :: "(nat, nat, string, unit) machine_description" where
  "bare_description = demo_description\<lparr>md_code := demo_code\<lparr>lc_regions := []\<rparr>\<rparr>"

theorem reported_raise_unprotected_witness:
  "(case drive_protected demo_entry demo_content fr_cursor frame_set_cursor demo_step bare_description 4 0 demo_frames 5 of
      (Ok (DriveRaise a steps), _) \<Rightarrow> a = ''boom'' \<and>
        (\<exists>pre c. c < length (lc_instructions (md_code bare_description)) \<and>
           steps = pre @ [(li_id (lc_instructions (md_code bare_description) ! c), KRaise)] \<and>
           (\<forall>region \<in> set (lc_regions (md_code bare_description)). \<not> region_contains c region))
    | _ \<Rightarrow> False)"
proof -
  have "case drive_protected demo_entry demo_content fr_cursor frame_set_cursor demo_step bare_description 4 0 demo_frames 5 of
      (Ok (DriveRaise a steps), _) \<Rightarrow> a = ''boom'' | _ \<Rightarrow> False" by code_simp
  then obtain steps st where run: "drive_protected demo_entry demo_content fr_cursor frame_set_cursor demo_step bare_description 4 0 demo_frames 5 =
      (Ok (DriveRaise ''boom'' steps), st)" by (auto split: prod.splits outcome.splits drive_outcome.splits)
  from reported_raise_unprotected[OF run] run show ?thesis by simp
qed

definition demo_observe :: "nat list \<Rightarrow> nat list list \<Rightarrow> (unit, unit) outcome \<times> nat list list" where
  "demo_observe roots seen = (Ok (), seen @ [roots])"

theorem safepoints_transparent_witness:
  "(\<forall>roots obs msg. fst (demo_observe roots obs) \<noteq> Panic msg) \<and>
   (case drive_with_safepoints demo_entry demo_content fr_cursor frame_set_cursor demo_step
        (visit_frames (visit_frame visit_managed_id visit_unit (visit_vec visit_managed_id) visit_unit))
        demo_observe 5 demo_description 4 0 demo_frames 2 [] of
      (res, p, f, _) \<Rightarrow>
        if refused res then \<exists>k < 2. \<exists>r. demo_drive k = (Ok (DriveContinue r), p, f)
        else (res, p, f) = (case demo_drive 2 of (out, st) \<Rightarrow> (map_err SafepointDrive out, st)))"
proof -
  have quiet: "\<forall>roots obs msg. fst (demo_observe roots obs) \<noteq> Panic msg" by (simp add: demo_observe_def)
  show ?thesis by (rule conjI[OF quiet safepoints_transparent[OF demo_accepts demo_current quiet demo_fits]]) simp
qed

theorem checkpoint_round_trip_witness:
  "checkpoint_resume (checkpoint_new (snd (snd (demo_drive 1))) (4 :: nat) [(10, KContinue)]) 4 =
     Ok (snd (snd (demo_drive 1)), [(10 :: nat, KContinue)]) \<and>
   demo_drive (1 + 1) = prefix_result [(10, KContinue)]
     (drive demo_entry demo_content fr_cursor frame_set_cursor demo_step demo_description 4 1 (snd (snd (demo_drive 1))) 1)"
  using checkpoint_round_trip[OF demo_drive_1 demo_fits, of 1] by simp

end
