(* ===== verification/Managed_Node.thy ===== *)
theory Managed_Node
  imports Ordered_Map "HOL-Library.Multiset"
begin

text \<open>
  Managed objects and their edges: \<open>sim-lib-mutation/src/managed/handles.rs\<close>, \<open>edges.rs\<close> and
  \<open>object.rs\<close>. A managed identity and an edge identity are the ordinals they wrap. The trait
  \<open>ManagedObject\<close> is a record of its methods; its contract is the locale \<open>managed_object\<close>,
  which the checked node \<open>ManagedNode\<close> satisfies.
\<close>

section \<open>Identities, edges and limits\<close>

type_synonym managed_id = u64
type_synonym root_id = u64
type_synonym edge_id = nat

definition u32_limit :: nat where
  "u32_limit = 2 ^ 32 - 1"

datatype edge_kind = StrongKind | WeakKind | EphemeronKind

record edge_limits =
  el_total :: usize
  el_strong :: usize
  el_weak :: usize
  el_ephemeron :: usize

fun limit_for_kind :: "edge_limits \<Rightarrow> edge_kind \<Rightarrow> usize" where
  "limit_for_kind l StrongKind = el_strong l"
| "limit_for_kind l WeakKind = el_weak l"
| "limit_for_kind l EphemeronKind = el_ephemeron l"

definition default_edge_limits :: edge_limits where
  "default_edge_limits = \<lparr>el_total = 65536, el_strong = 65536, el_weak = 65536, el_ephemeron = 65536\<rparr>"

datatype edge_snapshot =
  StrongEdge edge_id managed_id
| WeakEdge edge_id managed_id
| EphemeronEdge edge_id managed_id managed_id

fun edge_snapshot_id :: "edge_snapshot \<Rightarrow> edge_id" where
  "edge_snapshot_id (StrongEdge e _) = e"
| "edge_snapshot_id (WeakEdge e _) = e"
| "edge_snapshot_id (EphemeronEdge e _ _) = e"

datatype edge_allocation_error =
  EdgeIdentityExhausted
| EdgeCapacityExceeded edge_kind usize

text \<open>The three mutation errors of the source have the same shape; \<open>'p\<close> is the target of a strong or
  weak edge and the key and value of an ephemeron.\<close>

datatype 'p edge_mutation_error =
  EdgeAllocation edge_allocation_error
| UnknownEdge edge_id
| WrongKind edge_id edge_kind
| TargetChanged 'p 'p

section \<open>Edge allocation\<close>

type_synonym edge_allocator = "edge_id option"

definition edge_allocator_new :: edge_allocator where
  "edge_allocator_new = Some 0"

definition edge_allocate :: "edge_allocator \<Rightarrow> (edge_allocation_error, edge_id \<times> edge_allocator) outcome" where
  "edge_allocate next =
     bind_outcome (ok_or EdgeIdentityExhausted next)
       (\<lambda>ordinal. Ok (ordinal, if ordinal < u32_limit then Some (ordinal + 1) else None))"

section \<open>Nodes\<close>

record 'r managed_node =
  mn_role :: 'r
  mn_edges :: edge_allocator
  mn_limits :: edge_limits
  mn_strong :: "(edge_id, managed_id) bmap"
  mn_weak :: "(edge_id, managed_id) bmap"
  mn_ephemerons :: "(edge_id, managed_id \<times> managed_id) bmap"

definition node_with_edge_limits :: "'r \<Rightarrow> edge_limits \<Rightarrow> 'r managed_node" where
  "node_with_edge_limits role limits =
     \<lparr>mn_role = role, mn_edges = edge_allocator_new, mn_limits = limits,
      mn_strong = bm_empty, mn_weak = bm_empty, mn_ephemerons = bm_empty\<rparr>"

definition node_new :: "'r \<Rightarrow> 'r managed_node" where
  "node_new role = node_with_edge_limits role default_edge_limits"

definition edge_snapshot_of :: "'r managed_node \<Rightarrow> edge_snapshot list" where
  "edge_snapshot_of n = sort_key edge_snapshot_id
     (map (\<lambda>(e, t). StrongEdge e t) (bm_entries (mn_strong n)) @
      map (\<lambda>(e, t). WeakEdge e t) (bm_entries (mn_weak n)) @
      map (\<lambda>(e, (k, v)). EphemeronEdge e k v) (bm_entries (mn_ephemerons n)))"

definition edge_kind_of :: "'r managed_node \<Rightarrow> edge_id \<Rightarrow> edge_kind option" where
  "edge_kind_of n e =
     (if bm_contains_key e (mn_strong n) then Some StrongKind
      else if bm_contains_key e (mn_weak n) then Some WeakKind
      else if bm_contains_key e (mn_ephemerons n) then Some EphemeronKind else None)"

fun edge_count_of :: "'r managed_node \<Rightarrow> edge_kind \<Rightarrow> usize" where
  "edge_count_of n StrongKind = bm_len (mn_strong n)"
| "edge_count_of n WeakKind = bm_len (mn_weak n)"
| "edge_count_of n EphemeronKind = bm_len (mn_ephemerons n)"

definition node_admit :: "'r managed_node \<Rightarrow> edge_kind \<Rightarrow> (edge_allocation_error, unit) outcome" where
  "node_admit n kind =
     (if el_total (mn_limits n) \<le> bm_len (mn_strong n) + bm_len (mn_weak n) + bm_len (mn_ephemerons n)
      then Err (EdgeCapacityExceeded kind (el_total (mn_limits n)))
      else if limit_for_kind (mn_limits n) kind \<le> edge_count_of n kind
      then Err (EdgeCapacityExceeded kind (limit_for_kind (mn_limits n) kind))
      else Ok ())"

definition node_replace_role :: "'r \<Rightarrow> 'r managed_node \<Rightarrow> 'r \<times> 'r managed_node" where
  "node_replace_role role n = (mn_role n, n\<lparr>mn_role := role\<rparr>)"

definition node_allocate :: "edge_kind \<Rightarrow> 'r managed_node \<Rightarrow> ('p edge_mutation_error, edge_id \<times> 'r managed_node) outcome" where
  "node_allocate kind n =
     bind_outcome (map_err EdgeAllocation (node_admit n kind)) (\<lambda>_.
     bind_outcome (map_err EdgeAllocation (edge_allocate (mn_edges n))) (\<lambda>(e, allocator).
       Ok (e, n\<lparr>mn_edges := allocator\<rparr>)))"

definition insert_strong :: "managed_id \<Rightarrow> 'r managed_node \<Rightarrow> (managed_id edge_mutation_error, edge_id \<times> 'r managed_node) outcome" where
  "insert_strong target n = bind_outcome (node_allocate StrongKind n)
     (\<lambda>(e, n'). Ok (e, n'\<lparr>mn_strong := bm_insert e target (mn_strong n')\<rparr>))"

definition insert_weak :: "managed_id \<Rightarrow> 'r managed_node \<Rightarrow> (managed_id edge_mutation_error, edge_id \<times> 'r managed_node) outcome" where
  "insert_weak target n = bind_outcome (node_allocate WeakKind n)
     (\<lambda>(e, n'). Ok (e, n'\<lparr>mn_weak := bm_insert e target (mn_weak n')\<rparr>))"

definition insert_ephemeron :: "managed_id \<times> managed_id \<Rightarrow> 'r managed_node
    \<Rightarrow> ((managed_id \<times> managed_id) edge_mutation_error, edge_id \<times> 'r managed_node) outcome" where
  "insert_ephemeron entry n = bind_outcome (node_allocate EphemeronKind n)
     (\<lambda>(e, n'). Ok (e, n'\<lparr>mn_ephemerons := bm_insert e entry (mn_ephemerons n')\<rparr>))"

definition filter_kind :: "edge_kind \<Rightarrow> edge_kind option \<Rightarrow> edge_kind option" where
  "filter_kind kind found = (case found of Some k \<Rightarrow> if k \<noteq> kind then Some k else None | None \<Rightarrow> None)"

text \<open>The checks that replacing and removing share: the kind, the identity, the expected target.\<close>

definition checked_edge :: "edge_kind \<Rightarrow> edge_id \<Rightarrow> 'p \<Rightarrow> 'r managed_node \<Rightarrow> (edge_id, 'p) bmap \<Rightarrow> ('p edge_mutation_error, 'p) outcome" where
  "checked_edge kind e expected n edges =
     (case filter_kind kind (edge_kind_of n e) of
        Some actual \<Rightarrow> Err (WrongKind e actual)
      | None \<Rightarrow>
          bind_outcome (ok_or (UnknownEdge e) (bm_get edges e)) (\<lambda>actual.
            if actual \<noteq> expected then Err (TargetChanged expected actual) else Ok actual))"

definition replace_strong :: "edge_id \<Rightarrow> managed_id \<Rightarrow> managed_id \<Rightarrow> 'r managed_node \<Rightarrow> (managed_id edge_mutation_error, 'r managed_node) outcome" where
  "replace_strong e expected replacement n =
     bind_outcome (checked_edge StrongKind e expected n (mn_strong n))
       (\<lambda>_. Ok (n\<lparr>mn_strong := bm_insert e replacement (mn_strong n)\<rparr>))"

definition remove_strong :: "edge_id \<Rightarrow> managed_id \<Rightarrow> 'r managed_node \<Rightarrow> (managed_id edge_mutation_error, managed_id \<times> 'r managed_node) outcome" where
  "remove_strong e expected n =
     bind_outcome (checked_edge StrongKind e expected n (mn_strong n))
       (\<lambda>actual. Ok (actual, n\<lparr>mn_strong := bm_remove e (mn_strong n)\<rparr>))"

definition replace_weak :: "edge_id \<Rightarrow> managed_id \<Rightarrow> managed_id \<Rightarrow> 'r managed_node \<Rightarrow> (managed_id edge_mutation_error, 'r managed_node) outcome" where
  "replace_weak e expected replacement n =
     bind_outcome (checked_edge WeakKind e expected n (mn_weak n))
       (\<lambda>_. Ok (n\<lparr>mn_weak := bm_insert e replacement (mn_weak n)\<rparr>))"

definition remove_weak :: "edge_id \<Rightarrow> managed_id \<Rightarrow> 'r managed_node \<Rightarrow> (managed_id edge_mutation_error, managed_id \<times> 'r managed_node) outcome" where
  "remove_weak e expected n =
     bind_outcome (checked_edge WeakKind e expected n (mn_weak n))
       (\<lambda>actual. Ok (actual, n\<lparr>mn_weak := bm_remove e (mn_weak n)\<rparr>))"

definition replace_ephemeron :: "edge_id \<Rightarrow> managed_id \<times> managed_id \<Rightarrow> managed_id \<times> managed_id \<Rightarrow> 'r managed_node
    \<Rightarrow> ((managed_id \<times> managed_id) edge_mutation_error, 'r managed_node) outcome" where
  "replace_ephemeron e expected replacement n =
     bind_outcome (checked_edge EphemeronKind e expected n (mn_ephemerons n))
       (\<lambda>_. Ok (n\<lparr>mn_ephemerons := bm_insert e replacement (mn_ephemerons n)\<rparr>))"

definition remove_ephemeron :: "edge_id \<Rightarrow> managed_id \<times> managed_id \<Rightarrow> 'r managed_node
    \<Rightarrow> ((managed_id \<times> managed_id) edge_mutation_error, (managed_id \<times> managed_id) \<times> 'r managed_node) outcome" where
  "remove_ephemeron e expected n =
     bind_outcome (checked_edge EphemeronKind e expected n (mn_ephemerons n))
       (\<lambda>actual. Ok (actual, n\<lparr>mn_ephemerons := bm_remove e (mn_ephemerons n)\<rparr>))"

text \<open>\<open>ManagedObject for ManagedNode\<close>: tracing visits the edges in allocation order, and a clear is
  conditional on the expected target.\<close>

definition node_trace_edges :: "'r managed_node \<Rightarrow> edge_snapshot list" where
  "node_trace_edges n =
     map (\<lambda>(e, kind, first, second). case kind of
            StrongKind \<Rightarrow> StrongEdge e first | WeakKind \<Rightarrow> WeakEdge e first | EphemeronKind \<Rightarrow> EphemeronEdge e first second)
       (sort_key fst
         (map (\<lambda>(e, t). (e, StrongKind, t, t)) (bm_entries (mn_strong n)) @
          map (\<lambda>(e, t). (e, WeakKind, t, t)) (bm_entries (mn_weak n)) @
          map (\<lambda>(e, (k, v)). (e, EphemeronKind, k, v)) (bm_entries (mn_ephemerons n))))"

definition node_clear_weak_edge :: "edge_id \<Rightarrow> managed_id \<Rightarrow> 'r managed_node \<Rightarrow> bool \<times> 'r managed_node" where
  "node_clear_weak_edge e expected n =
     (if bm_get (mn_weak n) e \<noteq> Some expected then (False, n)
      else (True, n\<lparr>mn_weak := bm_remove e (mn_weak n)\<rparr>))"

definition node_clear_ephemeron_edge :: "edge_id \<Rightarrow> managed_id \<Rightarrow> managed_id \<Rightarrow> 'r managed_node \<Rightarrow> bool \<times> 'r managed_node" where
  "node_clear_ephemeron_edge e key v n =
     (if bm_get (mn_ephemerons n) e \<noteq> Some (key, v) then (False, n)
      else (True, n\<lparr>mn_ephemerons := bm_remove e (mn_ephemerons n)\<rparr>))"

section \<open>The contract of managed objects\<close>

text \<open>
  \<open>ManagedObject\<close> as a locale: \<open>trace\<close> enumerates the edges, a successful weak or ephemeron clear
  removes exactly the named edge, and an unsuccessful one, for which no such edge existed, changes
  nothing. Repeating a successful clear fails, which gives collectors at-most-once clearing.
\<close>

locale managed_object =
  fixes ok :: "'t \<Rightarrow> bool"
    and trace :: "'t \<Rightarrow> edge_snapshot list"
    and clear_weak :: "edge_id \<Rightarrow> managed_id \<Rightarrow> 't \<Rightarrow> bool \<times> 't"
    and clear_ephemeron :: "edge_id \<Rightarrow> managed_id \<Rightarrow> managed_id \<Rightarrow> 't \<Rightarrow> bool \<times> 't"
  assumes clear_weak_edges: "ok x \<Longrightarrow> clear_weak e t x = (cleared, x') \<Longrightarrow>
      ok x' \<and> cleared = (WeakEdge e t \<in> set (trace x)) \<and> set (trace x') = set (trace x) - {WeakEdge e t}"
    and clear_ephemeron_edges: "ok x \<Longrightarrow> clear_ephemeron e k v x = (cleared, x') \<Longrightarrow>
      ok x' \<and> cleared = (EphemeronEdge e k v \<in> set (trace x)) \<and> set (trace x') = set (trace x) - {EphemeronEdge e k v}"
    and trace_once: "ok x \<Longrightarrow> distinct (trace x)"
begin

lemma clear_weak_once:
  assumes "ok x" "clear_weak e t x = (True, x')"
  shows "fst (clear_weak e t x') = False"
proof -
  from clear_weak_edges[OF assms] have x': "ok x'" "WeakEdge e t \<notin> set (trace x')" by auto
  obtain c x'' where "clear_weak e t x' = (c, x'')" by (cases "clear_weak e t x'")
  with clear_weak_edges[OF x'(1)] x'(2) show ?thesis by auto
qed

lemma clear_ephemeron_once:
  assumes "ok x" "clear_ephemeron e k v x = (True, x')"
  shows "fst (clear_ephemeron e k v x') = False"
proof -
  from clear_ephemeron_edges[OF assms] have x': "ok x'" "EphemeronEdge e k v \<notin> set (trace x')" by auto
  obtain c x'' where "clear_ephemeron e k v x' = (c, x'')" by (cases "clear_ephemeron e k v x'")
  with clear_ephemeron_edges[OF x'(1)] x'(2) show ?thesis by auto
qed

end

section \<open>The node invariant\<close>

text \<open>An identity names an edge of one kind, every live identity was allocated before the next one,
  and the numbers of edges are within the caps.\<close>

definition node_ok :: "'r managed_node \<Rightarrow> bool" where
  "node_ok n \<longleftrightarrow>
     set (bm_keys (mn_strong n)) \<inter> set (bm_keys (mn_weak n)) = {} \<and>
     set (bm_keys (mn_strong n)) \<inter> set (bm_keys (mn_ephemerons n)) = {} \<and>
     set (bm_keys (mn_weak n)) \<inter> set (bm_keys (mn_ephemerons n)) = {} \<and>
     (\<forall>e \<in> set (bm_keys (mn_strong n)) \<union> set (bm_keys (mn_weak n)) \<union> set (bm_keys (mn_ephemerons n)).
        e \<le> u32_limit \<and> (\<forall>next. mn_edges n = Some next \<longrightarrow> e < next)) \<and>
     (\<forall>next. mn_edges n = Some next \<longrightarrow> next \<le> u32_limit) \<and>
     bm_len (mn_strong n) + bm_len (mn_weak n) + bm_len (mn_ephemerons n) \<le> el_total (mn_limits n) \<and>
     (\<forall>kind. edge_count_of n kind \<le> limit_for_kind (mn_limits n) kind)"

lemma set_node_trace:
  "set (node_trace_edges n) =
     {StrongEdge e t | e t. bm_get (mn_strong n) e = Some t} \<union>
     {WeakEdge e t | e t. bm_get (mn_weak n) e = Some t} \<union>
     {EphemeronEdge e k v | e k v. bm_get (mn_ephemerons n) e = Some (k, v)}"
  by (force simp: node_trace_edges_def simp flip: bm_entries_iff)

definition edge_tuple :: "edge_id \<times> edge_kind \<times> managed_id \<times> managed_id \<Rightarrow> edge_snapshot" where
  "edge_tuple = (\<lambda>(e, kind, first, second). case kind of
     StrongKind \<Rightarrow> StrongEdge e first | WeakKind \<Rightarrow> WeakEdge e first | EphemeronKind \<Rightarrow> EphemeronEdge e first second)"

lemma edge_tuple_id: "edge_snapshot_id (edge_tuple x) = fst x"
  by (cases x) (auto simp: edge_tuple_def split: edge_kind.split)

lemma trace_ids_distinct:
  assumes "node_ok n"
  shows "distinct (map edge_snapshot_id (node_trace_edges n))"
proof -
  have keys: "map (fst \<circ> (\<lambda>(e, t). f e t)) (bm_entries m) = bm_keys m" if "\<And>e t. fst (f e t) = e"
    for m :: "(edge_id, 'c) bmap" and f :: "edge_id \<Rightarrow> 'c \<Rightarrow> edge_id \<times> 'd"
    using that by (auto simp: bm_keys_def)
  let ?xs = "map (\<lambda>(e, t). (e, StrongKind, t, t)) (bm_entries (mn_strong n)) @
          map (\<lambda>(e, t). (e, WeakKind, t, t)) (bm_entries (mn_weak n)) @
          map (\<lambda>(e, (k, v)). (e, EphemeronKind, k, v)) (bm_entries (mn_ephemerons n))"
  have "map fst ?xs = bm_keys (mn_strong n) @ bm_keys (mn_weak n) @ bm_keys (mn_ephemerons n)"
    by (auto simp: bm_keys_def)
  then have "distinct (map fst ?xs)" using assms by (auto simp: node_ok_def)
  then have "distinct (map fst (sort_key fst ?xs))"
    using mset_eq_imp_distinct_iff[of "map fst (sort_key fst ?xs)" "map fst ?xs"] by (simp del: map_append)
  moreover have "map edge_snapshot_id (node_trace_edges n) = map fst (sort_key fst ?xs)"
    unfolding node_trace_edges_def edge_tuple_def[symmetric] by (simp add: edge_tuple_id comp_def)
  ultimately show ?thesis by metis
qed

lemma bm_len_insert_fresh: "k \<notin> set (bm_keys m) \<Longrightarrow> bm_len (bm_insert k v m) = Suc (bm_len m)"
  by (simp add: bm_len_keys)

lemma bm_len_insert_known: "k \<in> set (bm_keys m) \<Longrightarrow> bm_len (bm_insert k v m) = bm_len m"
  by (simp add: bm_len_keys insert_absorb)

lemma set_bm_keys_remove [simp]: "set (bm_keys (bm_remove k m)) = set (bm_keys m) - {k}"
  by (auto simp: set_bm_keys)

lemma bm_len_remove: "bm_len (bm_remove k m) \<le> bm_len m"
  by (simp add: bm_len_keys card_Diff1_le)

lemmas node_len = bm_len_insert_fresh bm_len_insert_known bm_len_remove

lemma node_allocate_Ok:
  assumes "node_allocate kind n = Ok (e, n')" "node_ok n"
  shows "mn_edges n = Some e" "n' = n\<lparr>mn_edges := (if e < u32_limit then Some (e + 1) else None)\<rparr>"
    and "e \<notin> set (bm_keys (mn_strong n)) \<union> set (bm_keys (mn_weak n)) \<union> set (bm_keys (mn_ephemerons n))"
    and "bm_len (mn_strong n) + bm_len (mn_weak n) + bm_len (mn_ephemerons n) < el_total (mn_limits n)"
    and "edge_count_of n kind < limit_for_kind (mn_limits n) kind" "e \<le> u32_limit"
  using assms
  by (auto simp: node_allocate_def node_admit_def edge_allocate_def outcome_simps node_ok_def split: if_splits)

text \<open>The kinds of edges are kept apart, so an insertion under a fresh identity keeps the invariant.\<close>

lemma all_kinds: "(\<forall>kind. P kind) \<longleftrightarrow> P StrongKind \<and> P WeakKind \<and> P EphemeronKind"
  by (metis edge_kind.exhaust)

lemma insert_keeps_ok:
  assumes ok: "node_ok n"
  shows "insert_strong t n = Ok (e, n') \<Longrightarrow> node_ok n' \<and> bm_get (mn_strong n') e = Some t"
    and "insert_weak t n = Ok (e, n') \<Longrightarrow> node_ok n' \<and> bm_get (mn_weak n') e = Some t"
    and "insert_ephemeron p n = Ok (e, n') \<Longrightarrow> node_ok n' \<and> bm_get (mn_ephemerons n') e = Some p"
proof -
  assume "insert_strong t n = Ok (e, n')"
  then obtain m where a: "node_allocate StrongKind n = (Ok (e, m) :: (managed_id edge_mutation_error, _) outcome)"
    and n': "n' = m\<lparr>mn_strong := bm_insert e t (mn_strong m)\<rparr>"
    by (auto simp: insert_strong_def outcome_simps)
  note alloc = node_allocate_Ok[OF a ok]
  show "node_ok n' \<and> bm_get (mn_strong n') e = Some t"
    using ok alloc by (auto simp: n' node_ok_def all_kinds node_len intro: less_SucI)
next
  assume "insert_weak t n = Ok (e, n')"
  then obtain m where a: "node_allocate WeakKind n = (Ok (e, m) :: (managed_id edge_mutation_error, _) outcome)"
    and n': "n' = m\<lparr>mn_weak := bm_insert e t (mn_weak m)\<rparr>"
    by (auto simp: insert_weak_def outcome_simps)
  note alloc = node_allocate_Ok[OF a ok]
  show "node_ok n' \<and> bm_get (mn_weak n') e = Some t"
    using ok alloc by (auto simp: n' node_ok_def all_kinds node_len intro: less_SucI)
next
  assume "insert_ephemeron p n = Ok (e, n')"
  then obtain m where a: "node_allocate EphemeronKind n = (Ok (e, m) :: ((managed_id \<times> managed_id) edge_mutation_error, _) outcome)"
    and n': "n' = m\<lparr>mn_ephemerons := bm_insert e p (mn_ephemerons m)\<rparr>"
    by (auto simp: insert_ephemeron_def outcome_simps)
  note alloc = node_allocate_Ok[OF a ok]
  show "node_ok n' \<and> bm_get (mn_ephemerons n') e = Some p"
    using ok alloc by (auto simp: n' node_ok_def all_kinds node_len intro: less_SucI)
qed

lemma checked_edge_Ok:
  "checked_edge kind e expected n edges = Ok actual \<longleftrightarrow>
     filter_kind kind (edge_kind_of n e) = None \<and> actual = expected \<and> bm_get edges e = Some expected"
  by (auto simp: checked_edge_def outcome_simps split: option.splits if_splits)

text \<open>Replacing keeps the identities of a kind, removing and clearing lower them.\<close>

lemma shrink_keeps_ok:
  assumes "node_ok n"
  shows "set (bm_keys s) \<subseteq> set (bm_keys (mn_strong n)) \<Longrightarrow> node_ok (n\<lparr>mn_strong := s\<rparr>)"
    and "set (bm_keys s) \<subseteq> set (bm_keys (mn_weak n)) \<Longrightarrow> node_ok (n\<lparr>mn_weak := s\<rparr>)"
    and "set (bm_keys t) \<subseteq> set (bm_keys (mn_ephemerons n)) \<Longrightarrow> node_ok (n\<lparr>mn_ephemerons := t\<rparr>)"
proof -
  assume "set (bm_keys s) \<subseteq> set (bm_keys (mn_strong n))"
  then show "node_ok (n\<lparr>mn_strong := s\<rparr>)"
    using assms bm_len_keys[of s] bm_len_keys[of "mn_strong n"] card_mono[of "set (bm_keys (mn_strong n))" "set (bm_keys s)"]
    by (auto simp: node_ok_def all_kinds)
next
  assume "set (bm_keys s) \<subseteq> set (bm_keys (mn_weak n))"
  then show "node_ok (n\<lparr>mn_weak := s\<rparr>)"
    using assms bm_len_keys[of s] bm_len_keys[of "mn_weak n"] card_mono[of "set (bm_keys (mn_weak n))" "set (bm_keys s)"]
    by (auto simp: node_ok_def all_kinds)
next
  assume "set (bm_keys t) \<subseteq> set (bm_keys (mn_ephemerons n))"
  then show "node_ok (n\<lparr>mn_ephemerons := t\<rparr>)"
    using assms bm_len_keys[of t] bm_len_keys[of "mn_ephemerons n"]
      card_mono[of "set (bm_keys (mn_ephemerons n))" "set (bm_keys t)"]
    by (auto simp: node_ok_def all_kinds)
qed

interpretation node_object: managed_object node_ok node_trace_edges node_clear_weak_edge node_clear_ephemeron_edge
proof
  fix x x' :: "'r managed_node" and e t k v cleared
  assume ok: "node_ok x"
  show "distinct (node_trace_edges x)"
    using trace_ids_distinct[OF ok] by (simp add: distinct_map)
  show "node_ok x' \<and> cleared = (WeakEdge e t \<in> set (node_trace_edges x)) \<and>
      set (node_trace_edges x') = set (node_trace_edges x) - {WeakEdge e t}"
    if "node_clear_weak_edge e t x = (cleared, x')"
    using that ok by (auto simp: node_clear_weak_edge_def set_node_trace intro!: shrink_keeps_ok split: if_splits)
  show "node_ok x' \<and> cleared = (EphemeronEdge e k v \<in> set (node_trace_edges x)) \<and>
      set (node_trace_edges x') = set (node_trace_edges x) - {EphemeronEdge e k v}"
    if "node_clear_ephemeron_edge e k v x = (cleared, x')"
    using that ok by (auto simp: node_clear_ephemeron_edge_def set_node_trace intro!: shrink_keeps_ok split: if_splits)
qed

section \<open>Histories of a node\<close>

text \<open>One public mutation of a node.\<close>

inductive node_step :: "'r managed_node \<Rightarrow> 'r managed_node \<Rightarrow> bool" where
  insert_strong: "insert_strong t n = Ok (e, n') \<Longrightarrow> node_step n n'"
| insert_weak: "insert_weak t n = Ok (e, n') \<Longrightarrow> node_step n n'"
| insert_ephemeron: "insert_ephemeron p n = Ok (e, n') \<Longrightarrow> node_step n n'"
| replace_strong: "replace_strong e a b n = Ok n' \<Longrightarrow> node_step n n'"
| replace_weak: "replace_weak e a b n = Ok n' \<Longrightarrow> node_step n n'"
| replace_ephemeron: "replace_ephemeron e p q n = Ok n' \<Longrightarrow> node_step n n'"
| remove_strong: "remove_strong e a n = Ok (r, n') \<Longrightarrow> node_step n n'"
| remove_weak: "remove_weak e a n = Ok (r, n') \<Longrightarrow> node_step n n'"
| remove_ephemeron: "remove_ephemeron e p n = Ok (q, n') \<Longrightarrow> node_step n n'"
| clear_weak: "node_clear_weak_edge e t n = (c, n') \<Longrightarrow> node_step n n'"
| clear_ephemeron: "node_clear_ephemeron_edge e k v n = (c, n') \<Longrightarrow> node_step n n'"
| replace_role: "node_replace_role r n = (old, n') \<Longrightarrow> node_step n n'"

text \<open>The identities a node has given out, live or not.\<close>

definition allocated :: "'r managed_node \<Rightarrow> edge_id \<Rightarrow> bool" where
  "allocated n e \<longleftrightarrow> (case mn_edges n of Some next \<Rightarrow> e < next | None \<Rightarrow> e \<le> u32_limit)"

lemma node_new_ok: "node_ok (node_with_edge_limits role limits)"
  by (auto simp: node_ok_def node_with_edge_limits_def edge_allocator_new_def bm_len_keys all_kinds)

lemma node_step_ok:
  assumes "node_step n n'" "node_ok n"
  shows "node_ok n'"
  using assms
proof cases
  case insert_strong
  then show ?thesis using insert_keeps_ok(1)[OF assms(2)] by blast
next
  case insert_weak
  then show ?thesis using insert_keeps_ok(2)[OF assms(2)] by blast
next
  case insert_ephemeron
  then show ?thesis using insert_keeps_ok(3)[OF assms(2)] by blast
next
  case clear_weak
  then show ?thesis using node_object.clear_weak_edges[OF assms(2)] by blast
next
  case clear_ephemeron
  then show ?thesis using node_object.clear_ephemeron_edges[OF assms(2)] by blast
next
  case replace_role
  then show ?thesis using assms(2) by (auto simp: node_replace_role_def node_ok_def all_kinds)
qed (use assms(2) in \<open>auto simp: replace_strong_def replace_weak_def replace_ephemeron_def remove_strong_def
      remove_weak_def remove_ephemeron_def checked_edge_Ok outcome_simps in_bm_keys_iff intro!: shrink_keeps_ok\<close>)

lemma node_step_allocated:
  assumes "node_step n n'" "node_ok n" "allocated n e"
  shows "allocated n' e"
  using assms(1)
proof cases
  case (insert_strong t f)
  then obtain m where "node_allocate StrongKind n = (Ok (f, m) :: (managed_id edge_mutation_error, _) outcome)"
    "mn_edges n' = mn_edges m" by (auto simp: insert_strong_def outcome_simps)
  with node_allocate_Ok(1,2,6)[OF this(1) assms(2)] assms(3) show ?thesis by (auto simp: allocated_def)
next
  case (insert_weak t f)
  then obtain m where "node_allocate WeakKind n = (Ok (f, m) :: (managed_id edge_mutation_error, _) outcome)"
    "mn_edges n' = mn_edges m" by (auto simp: insert_weak_def outcome_simps)
  with node_allocate_Ok(1,2,6)[OF this(1) assms(2)] assms(3) show ?thesis by (auto simp: allocated_def)
next
  case (insert_ephemeron p f)
  then obtain m where "node_allocate EphemeronKind n = (Ok (f, m) :: ((managed_id \<times> managed_id) edge_mutation_error, _) outcome)"
    "mn_edges n' = mn_edges m" by (auto simp: insert_ephemeron_def outcome_simps)
  with node_allocate_Ok(1,2,6)[OF this(1) assms(2)] assms(3) show ?thesis by (auto simp: allocated_def)
qed (use assms(3) in \<open>auto simp: allocated_def replace_strong_def replace_weak_def replace_ephemeron_def remove_strong_def
      remove_weak_def remove_ephemeron_def node_clear_weak_edge_def node_clear_ephemeron_edge_def node_replace_role_def
      outcome_simps split: if_splits\<close>)

lemma node_steps:
  assumes "node_step\<^sup>*\<^sup>* n n'" "node_ok n"
  shows "node_ok n' \<and> (\<forall>e. allocated n e \<longrightarrow> allocated n' e)"
  using assms by (induction rule: rtranclp_induct) (auto intro: node_step_ok node_step_allocated)

text \<open>
  The edge identities of a node are never reused: after any history of public mutations an
  insertion returns an identity that no edge of the node ever had, live or removed, and the node
  keeps its caps and keeps the kinds of its edges apart.
\<close>

theorem edge_identities_fresh:
  assumes "node_ok n" "node_step\<^sup>*\<^sup>* n n'" "allocated n e" "insert_strong t n' = Ok (e', n'')"
  shows "e' \<noteq> e \<and> \<not> allocated n' e' \<and> allocated n'' e' \<and> node_ok n'' \<and>
    StrongEdge e' t \<in> set (node_trace_edges n'')"
proof -
  note steps = node_steps[OF assms(2,1)]
  from assms(4) obtain m where m: "node_allocate StrongKind n' = (Ok (e', m) :: (managed_id edge_mutation_error, _) outcome)"
    "mn_edges n'' = mn_edges m" by (auto simp: insert_strong_def outcome_simps)
  have ok: "node_ok n'" using steps by blast
  note alloc = node_allocate_Ok[OF m(1) ok]
  have "\<not> allocated n' e'" using alloc(1) by (simp add: allocated_def)
  moreover have "allocated n'' e'" using m(2) alloc(2,6) by (simp add: allocated_def)
  ultimately show ?thesis
    using steps assms(3) insert_keeps_ok(1)[OF ok assms(4)] by (auto simp: set_node_trace)
qed

lemma case_outcome_Ok:
  "(case m of Ok x \<Rightarrow> P x | Err e \<Rightarrow> False | Panic p \<Rightarrow> False) \<longleftrightarrow> (\<exists>x. m = Ok x \<and> P x)"
  by (cases m) simp_all

definition demo_node :: "unit managed_node" where
  "demo_node = node_with_edge_limits () \<lparr>el_total = 3, el_strong = 2, el_weak = 1, el_ephemeron = 1\<rparr>"

theorem edge_identities_fresh_witness:
  "\<exists>n1 n2 n3. insert_strong 7 demo_node = Ok (0, n1) \<and> remove_strong 0 7 n1 = Ok (7, n2) \<and>
     insert_strong 7 n2 = Ok (1, n3) \<and> allocated n1 0 \<and> (1 :: edge_id) \<noteq> 0 \<and> StrongEdge 1 7 \<in> set (node_trace_edges n3)"
proof -
  have "case insert_strong 7 demo_node of Ok (e, n1) \<Rightarrow> e = 0 \<and> allocated n1 0 \<and>
      (case remove_strong 0 7 n1 of Ok (t, n2) \<Rightarrow> t = 7 \<and> (case insert_strong 7 n2 of Ok (e', _) \<Rightarrow> e' = 1 | _ \<Rightarrow> False) | _ \<Rightarrow> False)
    | _ \<Rightarrow> False" by code_simp
  then obtain n1 n2 n3 where run: "insert_strong 7 demo_node = Ok (0, n1)" "allocated n1 0"
    "remove_strong 0 7 n1 = Ok (7, n2)" "insert_strong 7 n2 = Ok (1, n3)"
    unfolding case_outcome_Ok by (auto simp: case_outcome_Ok)
  have "node_ok demo_node" by (simp add: demo_node_def node_new_ok)
  from insert_keeps_ok(1)[OF this run(1)] have ok: "node_ok n1" ..
  have "node_step\<^sup>*\<^sup>* n1 n2" using node_step.remove_strong[OF run(3)] by blast
  from edge_identities_fresh[OF ok this run(2,4)] run show ?thesis by blast
qed

end
