(* ===== verification/Managed_Arena.thy ===== *)
theory Managed_Arena
  imports Managed_Node
begin

text \<open>
  The managed arena of \<open>sim-lib-mutation/src/managed/arena_model.rs\<close> and \<open>arena.rs\<close>: bounded
  storage of objects under allocation-ordered identities, root registrations, weak dereferences
  kept alive for one epoch, and the atomic application of a collection plan. An operation that
  returns an error has changed nothing, so an error carries no arena.
\<close>

section \<open>Data\<close>

datatype arena_error =
  InvalidCap
| CapacityExceeded usize
| IdentityExhausted
| StaleHandle managed_id
| StaleRoot root_id
| ObjectRooted managed_id
| MutationEpochChanged (expected_epoch: u64) (actual_epoch: u64)

record 't managed_arena =
  ma_cap :: usize
  ma_next_id :: u64
  ma_next_root :: u64
  ma_next_safepoint :: u64
  ma_epoch :: u64
  ma_objects :: "(managed_id, 't) bmap"
  ma_roots :: "(root_id, managed_id) bmap"
  ma_kept_alive :: "(managed_id, u64) bmap"

record rooted_handle =
  rh_root :: root_id
  rh_handle :: managed_id

record 't trace_snapshot =
  ts_roots :: "managed_id list"
  ts_kept_alive :: "managed_id list"
  ts_objects :: "(managed_id, 't) bmap"
  ts_mutation_epoch :: u64

record safepoint_receipt =
  sr_sequence :: u64
  sr_roots :: "managed_id list"
  sr_objects :: "managed_id list"

record teardown_receipt =
  tr_objects :: "managed_id list"
  tr_roots :: "root_id list"

record collection_mutation_receipt =
  cm_cleared_weak :: "(managed_id \<times> edge_id) list"
  cm_cleared_ephemerons :: "(managed_id \<times> edge_id) list"
  cm_swept :: "managed_id list"

section \<open>Operations\<close>

definition hard_capped_policy :: "usize \<Rightarrow> (arena_error, usize) outcome" where
  "hard_capped_policy max_objects = (if max_objects = 0 then Err InvalidCap else Ok max_objects)"

definition arena_new :: "usize \<Rightarrow> 't managed_arena" where
  "arena_new cap = \<lparr>ma_cap = cap, ma_next_id = 0, ma_next_root = 0, ma_next_safepoint = 0, ma_epoch = 0,
     ma_objects = bm_empty, ma_roots = bm_empty, ma_kept_alive = bm_empty\<rparr>"

definition arena_len :: "'t managed_arena \<Rightarrow> usize" where
  "arena_len a = bm_len (ma_objects a)"

definition advance_mutation_epoch :: "'t managed_arena \<Rightarrow> (arena_error, 't managed_arena) outcome" where
  "advance_mutation_epoch a = bind_outcome (ok_or IdentityExhausted (checked_add (ma_epoch a) 1))
     (\<lambda>epoch. Ok (a\<lparr>ma_epoch := epoch\<rparr>))"

definition arena_allocate :: "'t \<Rightarrow> 't managed_arena \<Rightarrow> (arena_error, managed_id \<times> 't managed_arena) outcome" where
  "arena_allocate object a =
     (if ma_cap a \<le> bm_len (ma_objects a) then Err (CapacityExceeded (ma_cap a))
      else bind_outcome (ok_or IdentityExhausted (checked_add (ma_next_id a) 1)) (\<lambda>next.
        bind_outcome (advance_mutation_epoch a) (\<lambda>b.
          Ok (ma_next_id a, b\<lparr>ma_objects := bm_insert (ma_next_id a) object (ma_objects b), ma_next_id := next\<rparr>))))"

definition arena_get :: "managed_id \<Rightarrow> 't managed_arena \<Rightarrow> (arena_error, 't) outcome" where
  "arena_get handle a = ok_or (StaleHandle handle) (bm_get (ma_objects a) handle)"

text \<open>\<open>get_mut\<close> and the change \<open>f\<close> its caller makes through the reference.\<close>

definition arena_update :: "managed_id \<Rightarrow> ('t \<Rightarrow> 't) \<Rightarrow> 't managed_arena \<Rightarrow> (arena_error, 't managed_arena) outcome" where
  "arena_update handle f a =
     (if \<not> bm_contains_key handle (ma_objects a) then Err (StaleHandle handle)
      else bind_outcome (advance_mutation_epoch a) (\<lambda>b.
        bind_outcome (expect ''validated managed id'' (bm_get (ma_objects b) handle)) (\<lambda>object.
          Ok (b\<lparr>ma_objects := bm_insert handle (f object) (ma_objects b)\<rparr>))))"

definition arena_upgrade :: "managed_id \<Rightarrow> 't managed_arena \<Rightarrow> (arena_error, managed_id \<times> 't managed_arena) outcome" where
  "arena_upgrade weak a =
     (if \<not> bm_contains_key weak (ma_objects a) then Err (StaleHandle weak)
      else Ok (weak, a\<lparr>ma_kept_alive := bm_insert weak (ma_epoch a) (ma_kept_alive a)\<rparr>))"

definition arena_handle :: "managed_id \<Rightarrow> 't managed_arena \<Rightarrow> (arena_error, managed_id) outcome" where
  "arena_handle ident a = ok_or (StaleHandle ident) (if bm_contains_key ident (ma_objects a) then Some ident else None)"

definition arena_root :: "managed_id \<Rightarrow> 't managed_arena \<Rightarrow> (arena_error, rooted_handle \<times> 't managed_arena) outcome" where
  "arena_root handle a =
     bind_outcome (arena_get handle a) (\<lambda>_.
     bind_outcome (ok_or IdentityExhausted (checked_add (ma_next_root a) 1)) (\<lambda>next.
     bind_outcome (advance_mutation_epoch a) (\<lambda>b.
       Ok (\<lparr>rh_root = ma_next_root a, rh_handle = handle\<rparr>,
           b\<lparr>ma_roots := bm_insert (ma_next_root a) handle (ma_roots b), ma_next_root := next\<rparr>))))"

definition arena_release_root :: "rooted_handle \<Rightarrow> 't managed_arena \<Rightarrow> (arena_error, managed_id \<times> 't managed_arena) outcome" where
  "arena_release_root rooted a =
     (case bm_get (ma_roots a) (rh_root rooted) of
        Some ident \<Rightarrow>
          if ident = rh_handle rooted
          then bind_outcome (advance_mutation_epoch a)
                 (\<lambda>b. Ok (rh_handle rooted, b\<lparr>ma_roots := bm_remove (rh_root rooted) (ma_roots b)\<rparr>))
          else Err (StaleRoot (rh_root rooted))
      | None \<Rightarrow> Err (StaleRoot (rh_root rooted)))"

definition arena_rooted :: "'t managed_arena \<Rightarrow> managed_id \<Rightarrow> bool" where
  "arena_rooted a ident = list_ex (\<lambda>rooted. rooted = ident) (bm_values (ma_roots a))"

definition arena_remove :: "managed_id \<Rightarrow> 't managed_arena \<Rightarrow> (arena_error, 't \<times> 't managed_arena) outcome" where
  "arena_remove handle a =
     (if arena_rooted a handle then Err (ObjectRooted handle)
      else if \<not> bm_contains_key handle (ma_objects a) then Err (StaleHandle handle)
      else bind_outcome (advance_mutation_epoch a) (\<lambda>b.
        bind_outcome (expect ''validated managed id'' (bm_get (ma_objects b) handle)) (\<lambda>removed.
          Ok (removed, b\<lparr>ma_objects := bm_remove handle (ma_objects b)\<rparr>))))"

definition arena_clear_weak_edge :: "(edge_id \<Rightarrow> managed_id \<Rightarrow> 't \<Rightarrow> bool \<times> 't) \<Rightarrow> managed_id \<Rightarrow> edge_id \<Rightarrow> managed_id
    \<Rightarrow> 't managed_arena \<Rightarrow> (arena_error, bool \<times> 't managed_arena) outcome" where
  "arena_clear_weak_edge clear_weak owner edge expected a =
     (if \<not> bm_contains_key owner (ma_objects a) then Err (StaleHandle owner)
      else bind_outcome (advance_mutation_epoch a) (\<lambda>b.
        bind_outcome (expect ''validated managed id'' (bm_get (ma_objects b) owner)) (\<lambda>object.
          case clear_weak edge expected object of (cleared, object') \<Rightarrow>
            Ok (cleared, b\<lparr>ma_objects := bm_insert owner object' (ma_objects b)\<rparr>))))"

text \<open>The check of every swept identity before the first change.\<close>

definition check_swept :: "'t managed_arena \<Rightarrow> managed_id \<Rightarrow> unit \<Rightarrow> (arena_error, unit) outcome" where
  "check_swept a ident _ =
     (if \<not> bm_contains_key ident (ma_objects a) then Err (StaleHandle ident)
      else if arena_rooted a ident then Err (ObjectRooted ident) else Ok ())"

definition remove_objects :: "managed_id list \<Rightarrow> (managed_id, 't) bmap \<Rightarrow> (managed_id, 't) bmap" where
  "remove_objects idents objects = fold bm_remove idents objects"

definition sweep_at_epoch :: "u64 \<Rightarrow> managed_id list \<Rightarrow> 't managed_arena \<Rightarrow> (arena_error, managed_id list \<times> 't managed_arena) outcome" where
  "sweep_at_epoch expected objects a =
     (if ma_epoch a \<noteq> expected then Err (MutationEpochChanged expected (ma_epoch a))
      else bind_outcome (for_each (check_swept a) objects ()) (\<lambda>_.
        bind_outcome (if objects \<noteq> [] then advance_mutation_epoch a else Ok a) (\<lambda>b.
          Ok (objects, b\<lparr>ma_objects := remove_objects objects (ma_objects b)\<rparr>))))"

text \<open>The two clearing loops of a collection: a conditional clear on every named owner that exists.\<close>

fun clear_weak_edges :: "(edge_id \<Rightarrow> managed_id \<Rightarrow> 't \<Rightarrow> bool \<times> 't) \<Rightarrow> (managed_id \<times> edge_id \<times> managed_id) list
    \<Rightarrow> (managed_id, 't) bmap \<Rightarrow> (managed_id \<times> edge_id) list \<Rightarrow> (managed_id, 't) bmap \<times> (managed_id \<times> edge_id) list" where
  "clear_weak_edges clear_weak [] objects cleared = (objects, cleared)"
| "clear_weak_edges clear_weak ((owner, edge, target) # rest) objects cleared =
     (case bm_get objects owner of
        Some object \<Rightarrow>
          (case clear_weak edge target object of (done, object') \<Rightarrow>
             clear_weak_edges clear_weak rest (bm_insert owner object' objects)
               (if done then cleared @ [(owner, edge)] else cleared))
      | None \<Rightarrow> clear_weak_edges clear_weak rest objects cleared)"

fun clear_ephemeron_edges :: "(edge_id \<Rightarrow> managed_id \<Rightarrow> managed_id \<Rightarrow> 't \<Rightarrow> bool \<times> 't)
    \<Rightarrow> (managed_id \<times> edge_id \<times> managed_id \<times> managed_id) list
    \<Rightarrow> (managed_id, 't) bmap \<Rightarrow> (managed_id \<times> edge_id) list \<Rightarrow> (managed_id, 't) bmap \<times> (managed_id \<times> edge_id) list" where
  "clear_ephemeron_edges clear_ephemeron [] objects cleared = (objects, cleared)"
| "clear_ephemeron_edges clear_ephemeron ((owner, edge, key, v) # rest) objects cleared =
     (case bm_get objects owner of
        Some object \<Rightarrow>
          (case clear_ephemeron edge key v object of (done, object') \<Rightarrow>
             clear_ephemeron_edges clear_ephemeron rest (bm_insert owner object' objects)
               (if done then cleared @ [(owner, edge)] else cleared))
      | None \<Rightarrow> clear_ephemeron_edges clear_ephemeron rest objects cleared)"

definition kept_at :: "u64 \<Rightarrow> 't managed_arena \<Rightarrow> managed_id list" where
  "kept_at epoch a = map fst (filter (\<lambda>(_, e). e = epoch) (bm_entries (ma_kept_alive a)))"

text \<open>The part of \<open>apply_collection_at_epoch\<close> after its checks, which cannot fail.\<close>

definition commit_collection :: "(edge_id \<Rightarrow> managed_id \<Rightarrow> 't \<Rightarrow> bool \<times> 't)
    \<Rightarrow> (edge_id \<Rightarrow> managed_id \<Rightarrow> managed_id \<Rightarrow> 't \<Rightarrow> bool \<times> 't) \<Rightarrow> u64
    \<Rightarrow> (managed_id \<times> edge_id \<times> managed_id) list \<Rightarrow> (managed_id \<times> edge_id \<times> managed_id \<times> managed_id) list
    \<Rightarrow> managed_id list \<Rightarrow> 't managed_arena \<Rightarrow> collection_mutation_receipt \<times> 't managed_arena" where
  "commit_collection clear_weak clear_ephemeron expected weak ephemerons actual_swept a =
     (case clear_weak_edges clear_weak weak (ma_objects a) [] of (objects1, cleared_weak) \<Rightarrow>
      case clear_ephemeron_edges clear_ephemeron ephemerons objects1 [] of (objects2, cleared_ephemerons) \<Rightarrow>
      let objects3 = remove_objects actual_swept objects2 in
        (\<lparr>cm_cleared_weak = cleared_weak, cm_cleared_ephemerons = cleared_ephemerons, cm_swept = actual_swept\<rparr>,
         a\<lparr>ma_objects := objects3,
           ma_kept_alive := bm_filter (\<lambda>ident epoch. bm_contains_key ident objects3 \<and> epoch \<noteq> expected) (ma_kept_alive a)\<rparr>))"

definition apply_collection_at_epoch :: "(edge_id \<Rightarrow> managed_id \<Rightarrow> 't \<Rightarrow> bool \<times> 't)
    \<Rightarrow> (edge_id \<Rightarrow> managed_id \<Rightarrow> managed_id \<Rightarrow> 't \<Rightarrow> bool \<times> 't) \<Rightarrow> u64
    \<Rightarrow> (managed_id \<times> edge_id \<times> managed_id) list \<Rightarrow> (managed_id \<times> edge_id \<times> managed_id \<times> managed_id) list
    \<Rightarrow> managed_id list \<Rightarrow> 't managed_arena \<Rightarrow> (arena_error, collection_mutation_receipt \<times> 't managed_arena) outcome" where
  "apply_collection_at_epoch clear_weak clear_ephemeron expected weak ephemerons swept a =
     (if ma_epoch a \<noteq> expected then Err (MutationEpochChanged expected (ma_epoch a))
      else let kept = kept_at expected a; actual_swept = filter (\<lambda>ident. ident \<notin> set kept) swept in
        bind_outcome (for_each (check_swept a) actual_swept ()) (\<lambda>_.
        bind_outcome (if weak \<noteq> [] \<or> ephemerons \<noteq> [] \<or> actual_swept \<noteq> [] then advance_mutation_epoch a else Ok a) (\<lambda>b.
          Ok (commit_collection clear_weak clear_ephemeron expected weak ephemerons actual_swept b))))"

definition arena_safepoint :: "('t trace_snapshot \<Rightarrow> 'b) \<Rightarrow> 't managed_arena \<Rightarrow> (arena_error, ('b \<times> safepoint_receipt) \<times> 't managed_arena) outcome" where
  "arena_safepoint trace a =
     bind_outcome (ok_or IdentityExhausted (checked_add (ma_next_safepoint a) 1)) (\<lambda>next.
       let roots = bm_values (ma_roots a);
           snapshot = \<lparr>ts_roots = roots, ts_kept_alive = kept_at (ma_epoch a) a, ts_objects = ma_objects a,
             ts_mutation_epoch = ma_epoch a\<rparr> in
       Ok ((trace snapshot, \<lparr>sr_sequence = ma_next_safepoint a, sr_roots = roots, sr_objects = bm_keys (ma_objects a)\<rparr>),
           a\<lparr>ma_next_safepoint := next\<rparr>))"

definition arena_teardown :: "'t managed_arena \<Rightarrow> teardown_receipt \<times> 't managed_arena" where
  "arena_teardown a =
     (\<lparr>tr_objects = bm_keys (ma_objects a), tr_roots = bm_keys (ma_roots a)\<rparr>,
      a\<lparr>ma_epoch := (if bm_len (ma_objects a) \<noteq> 0 \<or> bm_len (ma_roots a) \<noteq> 0 then saturating_add (ma_epoch a) 1 else ma_epoch a),
        ma_objects := bm_empty, ma_roots := bm_empty, ma_kept_alive := bm_empty\<rparr>)"

text \<open>Roles: evidence of the caller that the graph does not depend on.\<close>

definition arena_replace_role :: "('t \<Rightarrow> 'r \<times> 't) \<Rightarrow> managed_id \<Rightarrow> 't managed_arena \<Rightarrow> (arena_error, 'r \<times> 't managed_arena) outcome" where
  "arena_replace_role replace handle a =
     (case bm_get (ma_objects a) handle of
        Some object \<Rightarrow> (case replace object of (old, object') \<Rightarrow>
          Ok (old, a\<lparr>ma_objects := bm_insert handle object' (ma_objects a)\<rparr>))
      | None \<Rightarrow> Err (StaleHandle handle))"

datatype role_projection_error = RoleLimit usize usize | RoleArena arena_error

record 'r role_projection_receipt =
  rp_safepoint :: safepoint_receipt
  rp_mutation_epoch :: u64
  rp_roles :: "(managed_id \<times> 'r) list"

text \<open>A refused projection has taken its safepoint, so it returns the arena as well.\<close>

definition project_roles :: "('t \<Rightarrow> 'r) \<Rightarrow> usize \<Rightarrow> 't managed_arena
    \<Rightarrow> (role_projection_error, 'r role_projection_receipt) outcome \<times> 't managed_arena" where
  "project_roles role_of limit a =
     (case arena_safepoint (\<lambda>snapshot.
         if limit < bm_len (ts_objects snapshot) then Err (RoleLimit limit (bm_len (ts_objects snapshot)))
         else Ok (ts_mutation_epoch snapshot, map (\<lambda>(ident, object). (ident, role_of object)) (bm_entries (ts_objects snapshot)))) a of
        Err e \<Rightarrow> (Err (RoleArena e), a)
      | Panic msg \<Rightarrow> (Panic msg, a)
      | Ok ((traced, safepoint), b) \<Rightarrow>
          (bind_outcome traced (\<lambda>(epoch, roles).
             Ok \<lparr>rp_safepoint = safepoint, rp_mutation_epoch = epoch, rp_roles = roles\<rparr>), b))"

section \<open>The arena invariant\<close>

text \<open>Identities are below the next ordinal, roots name live objects, a weak dereference of the current
  epoch names a live object, and the live objects are within the cap.\<close>

definition kept_ok :: "u64 \<Rightarrow> managed_id set \<Rightarrow> (managed_id, u64) bmap \<Rightarrow> bool" where
  "kept_ok epoch live kept \<longleftrightarrow>
     (\<forall>i e. bm_get kept i = Some e \<longrightarrow> e \<le> epoch \<and> (e = epoch \<longrightarrow> i \<in> live))"

lemma kept_ok_advance [simp]: "kept_ok epoch live kept \<Longrightarrow> kept_ok (Suc epoch) live' kept"
  by (force simp: kept_ok_def)

lemma kept_ok_empty [simp]: "kept_ok epoch live bm_empty"
  by (simp add: kept_ok_def)

lemma kept_ok_same: "kept_ok epoch live kept \<Longrightarrow> live \<subseteq> live' \<Longrightarrow> kept_ok epoch live' kept"
  by (auto simp: kept_ok_def)

definition arena_ok :: "('t \<Rightarrow> bool) \<Rightarrow> 't managed_arena \<Rightarrow> bool" where
  "arena_ok ok a \<longleftrightarrow>
     (\<forall>i \<in> set (bm_keys (ma_objects a)). i < ma_next_id a) \<and>
     (\<forall>i x. bm_get (ma_objects a) i = Some x \<longrightarrow> ok x) \<and>
     (\<forall>r i. bm_get (ma_roots a) r = Some i \<longrightarrow> r < ma_next_root a \<and> i \<in> set (bm_keys (ma_objects a))) \<and>
     kept_ok (ma_epoch a) (set (bm_keys (ma_objects a))) (ma_kept_alive a) \<and>
     bm_len (ma_objects a) \<le> ma_cap a"

lemma arena_new_ok: "arena_ok ok (arena_new cap)"
  by (simp add: arena_ok_def arena_new_def bm_len_keys)

lemma advance_Ok_iff [outcome_simps]:
  "advance_mutation_epoch a = Ok b \<longleftrightarrow> ma_epoch a < usize_max \<and> b = a\<lparr>ma_epoch := Suc (ma_epoch a)\<rparr>"
  by (auto simp: advance_mutation_epoch_def checked_add_def outcome_simps split: if_splits)

lemma arena_rooted_iff: "arena_rooted a ident \<longleftrightarrow> (\<exists>r. bm_get (ma_roots a) r = Some ident)"
  by (auto simp: arena_rooted_def list_ex_iff in_bm_values_iff)

lemma set_kept_at: "set (kept_at epoch a) = {i. bm_get (ma_kept_alive a) i = Some epoch}"
  by (force simp: kept_at_def simp flip: bm_entries_iff)

lemma check_swept_loop:
  "for_each (check_swept a) ids () = Ok u \<longleftrightarrow>
     (\<forall>i \<in> set ids. i \<in> set (bm_keys (ma_objects a)) \<and> \<not> arena_rooted a i)"
  by (induction ids) (auto simp: check_swept_def outcome_simps)

lemma bm_get_remove_objects: "bm_get (remove_objects ids m) i = (if i \<in> set ids then None else bm_get m i)"
  by (induction ids arbitrary: m) (auto simp: remove_objects_def)

lemma remove_objects_keys [simp]: "set (bm_keys (remove_objects ids m)) = set (bm_keys m) - set ids"
  by (auto simp: set_bm_keys bm_get_remove_objects)

lemma bm_len_subset: "set (bm_keys a) \<subseteq> set (bm_keys b) \<Longrightarrow> bm_len a \<le> bm_len b"
  by (simp add: bm_len_keys card_mono)

text \<open>One call on an arena; \<open>f\<close> is any change that keeps objects well formed.\<close>

inductive arena_step :: "('t \<Rightarrow> bool) \<Rightarrow> (edge_id \<Rightarrow> managed_id \<Rightarrow> 't \<Rightarrow> bool \<times> 't)
    \<Rightarrow> (edge_id \<Rightarrow> managed_id \<Rightarrow> managed_id \<Rightarrow> 't \<Rightarrow> bool \<times> 't) \<Rightarrow> 't managed_arena \<Rightarrow> 't managed_arena \<Rightarrow> bool"
  for ok clear_weak clear_ephemeron where
  allocate: "ok x \<Longrightarrow> arena_allocate x a = Ok (i, b) \<Longrightarrow> arena_step ok clear_weak clear_ephemeron a b"
| update: "(\<And>x. ok x \<Longrightarrow> ok (f x)) \<Longrightarrow> arena_update i f a = Ok b \<Longrightarrow> arena_step ok clear_weak clear_ephemeron a b"
| upgrade: "arena_upgrade i a = Ok (j, b) \<Longrightarrow> arena_step ok clear_weak clear_ephemeron a b"
| root: "arena_root i a = Ok (rh, b) \<Longrightarrow> arena_step ok clear_weak clear_ephemeron a b"
| release: "arena_release_root rh a = Ok (i, b) \<Longrightarrow> arena_step ok clear_weak clear_ephemeron a b"
| remove: "arena_remove i a = Ok (x, b) \<Longrightarrow> arena_step ok clear_weak clear_ephemeron a b"
| clear: "arena_clear_weak_edge clear_weak i e t a = Ok (c, b) \<Longrightarrow> arena_step ok clear_weak clear_ephemeron a b"
| sweep: "sweep_at_epoch epoch ids a = Ok (swept, b) \<Longrightarrow> arena_step ok clear_weak clear_ephemeron a b"
| collection: "apply_collection_at_epoch clear_weak clear_ephemeron epoch weak ephemerons ids a = Ok (r, b) \<Longrightarrow>
    arena_step ok clear_weak clear_ephemeron a b"
| safepoint: "arena_safepoint (\<lambda>_. ()) a = Ok (r, b) \<Longrightarrow> arena_step ok clear_weak clear_ephemeron a b"
| teardown: "arena_teardown a = (r, b) \<Longrightarrow> arena_step ok clear_weak clear_ephemeron a b"
| role: "(\<And>x. ok x \<Longrightarrow> ok (f x)) \<Longrightarrow> arena_replace_role (\<lambda>x. ((), f x)) i a = Ok ((), b) \<Longrightarrow>
    arena_step ok clear_weak clear_ephemeron a b"

lemma replaced_object_ok:
  assumes "arena_ok ok a" "bm_get (ma_objects a) i = Some x" "ok x \<Longrightarrow> ok x'"
  shows "arena_ok ok (a\<lparr>ma_epoch := Suc (ma_epoch a), ma_objects := bm_insert i x' (ma_objects a)\<rparr>)"
    and "arena_ok ok (a\<lparr>ma_objects := bm_insert i x' (ma_objects a)\<rparr>)"
proof -
  have i: "i \<in> set (bm_keys (ma_objects a))" using assms(2) by (auto simp: in_bm_keys_iff)
  then have *: "insert i (set (bm_keys (ma_objects a))) = set (bm_keys (ma_objects a))" by blast
  have "ok x'" using assms by (auto simp: arena_ok_def)
  then show "arena_ok ok (a\<lparr>ma_epoch := Suc (ma_epoch a), ma_objects := bm_insert i x' (ma_objects a)\<rparr>)"
    "arena_ok ok (a\<lparr>ma_objects := bm_insert i x' (ma_objects a)\<rparr>)"
    using assms(1) i by (auto simp: arena_ok_def bm_len_insert_known *)
qed

text \<open>Removing unrooted objects and changing well-formed ones keeps the invariant once the epoch has
  advanced; with no object removed the epoch may stay.\<close>

lemma removed_objects_ok:
  assumes "arena_ok ok a" "set (bm_keys objects) \<subseteq> set (bm_keys (ma_objects a))"
    and "\<And>i x. bm_get objects i = Some x \<Longrightarrow> ok x"
    and "\<And>i. i \<in> set (bm_keys (ma_objects a)) \<Longrightarrow> i \<notin> set (bm_keys objects) \<Longrightarrow> \<not> arena_rooted a i"
    and "epoch = Suc (ma_epoch a) \<or> epoch = ma_epoch a \<and> set (bm_keys objects) = set (bm_keys (ma_objects a))"
    and "\<And>i e. bm_get kept i = Some e \<Longrightarrow> bm_get (ma_kept_alive a) i = Some e"
  shows "arena_ok ok (a\<lparr>ma_epoch := epoch, ma_objects := objects, ma_kept_alive := kept\<rparr>)"
proof -
  have "kept_ok epoch (set (bm_keys objects)) kept"
    using assms(1,5,6) by (fastforce simp: arena_ok_def kept_ok_def)
  moreover have "bm_len objects \<le> ma_cap a"
    using assms(1) bm_len_subset[OF assms(2)] by (simp add: arena_ok_def)
  moreover have "i \<in> set (bm_keys objects)" if "bm_get (ma_roots a) r = Some i" for r i
    using that assms(1) assms(4)[of i] by (auto simp: arena_ok_def arena_rooted_iff)
  ultimately show ?thesis
    using assms(1-3) by (auto simp: arena_ok_def)
qed

text \<open>The edges the object of an identity has; none without an object.\<close>

definition object_edges :: "('t \<Rightarrow> edge_snapshot list) \<Rightarrow> (managed_id, 't) bmap \<Rightarrow> managed_id \<Rightarrow> edge_snapshot set" where
  "object_edges trace objects i = (case bm_get objects i of Some x \<Rightarrow> set (trace x) | None \<Rightarrow> {})"

lemma object_edges_insert: "object_edges trace (bm_insert i x objects) = (object_edges trace objects)(i := set (trace x))"
  by (rule ext) (simp add: object_edges_def)

definition objects_ok :: "('t \<Rightarrow> bool) \<Rightarrow> (managed_id, 't) bmap \<Rightarrow> bool" where
  "objects_ok ok objects \<longleftrightarrow> (\<forall>i x. bm_get objects i = Some x \<longrightarrow> ok x)"

text \<open>The edges reported by one conditional clear and the clears after it are those of all of them.\<close>

lemma cleared_step:
  assumes "\<And>f p. mk f p = mk e q \<Longrightarrow> f = e"
  shows "(if mk e q \<in> D i then {(i, e)} else {}) \<union>
      {(j, f). \<exists>p. (j, f, p) \<in> R \<and> mk f p \<in> (D(i := D i - {mk e q})) j} =
    {(j, f). \<exists>p. (j, f, p) \<in> insert (i, e, q) R \<and> mk f p \<in> D j}" (is "?L = ?R")
proof (rule set_eqI, clarify)
  fix j f
  show "(j, f) \<in> ?L \<longleftrightarrow> (j, f) \<in> ?R"
  proof (cases "(j, f) = (i, e)")
    case True
    then show ?thesis using assms by (cases "mk e q \<in> D i") auto
  next
    case False
    then have "mk f p \<noteq> mk e q \<or> j \<noteq> i" for p using assms by auto
    with False show ?thesis by (auto split: if_splits)
  qed
qed

context managed_object
begin

lemma clear_weak_loop:
  assumes "clear_weak_edges clear_weak targets objects cleared = (objects', cleared')" "objects_ok ok objects"
  shows "set (bm_keys objects') = set (bm_keys objects) \<and> objects_ok ok objects' \<and>
    (\<forall>i. object_edges trace objects' i = object_edges trace objects i - {WeakEdge e t | e t. (i, e, t) \<in> set targets}) \<and>
    set cleared' = set cleared \<union> {(i, e). \<exists>t. (i, e, t) \<in> set targets \<and> WeakEdge e t \<in> object_edges trace objects i}"
  using assms
proof (induction targets arbitrary: objects cleared)
  case (Cons target rest)
  obtain i e t where target: "target = (i, e, t)" by (cases target)
  show ?case
  proof (cases "bm_get objects i")
    case None
    then have "object_edges trace objects i = {}" by (simp add: object_edges_def)
    moreover note Cons.IH[of objects cleared] Cons.prems None
    ultimately show ?thesis by (auto simp: target)
  next
    case (Some x)
    then have ok: "ok x" "i \<in> set (bm_keys objects)" "object_edges trace objects i = set (trace x)"
      using Cons.prems(2) by (auto simp: objects_ok_def in_bm_keys_iff object_edges_def)
    obtain c x' where c: "clear_weak e t x = (c, x')" by (cases "clear_weak e t x")
    note law = clear_weak_edges[OF ok(1) c]
    have "objects_ok ok (bm_insert i x' objects)" using Cons.prems(2) law by (auto simp: objects_ok_def)
    from Cons.IH[OF _ this, of "if c then cleared @ [(i, e)] else cleared"] Cons.prems(1) Some c
    have IH: "set (bm_keys objects') = set (bm_keys objects)" "objects_ok ok objects'"
      "\<forall>j. object_edges trace objects' j = object_edges trace (bm_insert i x' objects) j - {WeakEdge e t | e t. (j, e, t) \<in> set rest}"
      "set cleared' = set (if c then cleared @ [(i, e)] else cleared) \<union>
        {(j, e). \<exists>t. (j, e, t) \<in> set rest \<and> WeakEdge e t \<in> object_edges trace (bm_insert i x' objects) j}"
      using ok(2) by (auto simp: target insert_absorb)
    show ?thesis unfolding IH target
      using IH(2,3) law ok(3) by (auto simp: object_edges_insert split: if_splits)
  qed
qed simp

lemma clear_ephemeron_loop:
  assumes "clear_ephemeron_edges clear_ephemeron targets objects cleared = (objects', cleared')" "objects_ok ok objects"
  shows "set (bm_keys objects') = set (bm_keys objects) \<and> objects_ok ok objects' \<and>
    (\<forall>i. object_edges trace objects' i = object_edges trace objects i - {EphemeronEdge e k v | e k v. (i, e, k, v) \<in> set targets}) \<and>
    set cleared' = set cleared \<union>
      {(i, e). \<exists>k v. (i, e, k, v) \<in> set targets \<and> EphemeronEdge e k v \<in> object_edges trace objects i}"
  using assms
proof (induction targets arbitrary: objects cleared)
  case (Cons target rest)
  obtain i e k v where target: "target = (i, e, k, v)" by (cases target)
  show ?case
  proof (cases "bm_get objects i")
    case None
    then have "object_edges trace objects i = {}" by (simp add: object_edges_def)
    moreover note Cons.IH[of objects cleared] Cons.prems None
    ultimately show ?thesis by (auto simp: target)
  next
    case (Some x)
    then have ok: "ok x" "i \<in> set (bm_keys objects)" "object_edges trace objects i = set (trace x)"
      using Cons.prems(2) by (auto simp: objects_ok_def in_bm_keys_iff object_edges_def)
    obtain c x' where c: "clear_ephemeron e k v x = (c, x')" by (cases "clear_ephemeron e k v x")
    note law = clear_ephemeron_edges[OF ok(1) c]
    have "objects_ok ok (bm_insert i x' objects)" using Cons.prems(2) law by (auto simp: objects_ok_def)
    from Cons.IH[OF _ this, of "if c then cleared @ [(i, e)] else cleared"] Cons.prems(1) Some c
    have IH: "set (bm_keys objects') = set (bm_keys objects)" "objects_ok ok objects'"
      "\<forall>j. object_edges trace objects' j = object_edges trace (bm_insert i x' objects) j -
        {EphemeronEdge e k v | e k v. (j, e, k, v) \<in> set rest}"
      "set cleared' = set (if c then cleared @ [(i, e)] else cleared) \<union>
        {(j, e). \<exists>k v. (j, e, k, v) \<in> set rest \<and> EphemeronEdge e k v \<in> object_edges trace (bm_insert i x' objects) j}"
      using ok(2) by (auto simp: target insert_absorb)
    have "set cleared' = set cleared \<union>
        {(j, f). \<exists>p. (j, f, p) \<in> insert (i, e, k, v) (set rest) \<and> EphemeronEdge f (fst p) (snd p) \<in> object_edges trace objects j}"
      unfolding IH(4) using law ok(3)
      by (subst cleared_step[where mk = "\<lambda>f p. EphemeronEdge f (fst p) (snd p)" and e = e and q = "(k, v)" and i = i, symmetric])
        (simp_all add: object_edges_insert)
    then show ?thesis unfolding target
      using IH(1-3) law ok(3) by (auto simp: object_edges_insert split: if_splits)
  qed
qed simp

text \<open>
  What an applied collection does: it removes the swept objects that no weak dereference of the
  epoch kept, takes the named edges from the objects that stay, and reports exactly the edges that
  were there.
\<close>

lemma collection_applied:
  assumes ok: "arena_ok ok a"
    and run: "apply_collection_at_epoch clear_weak clear_ephemeron epoch weak ephemerons swept a = Ok (r, b)"
  shows "ma_epoch a = epoch" "cm_swept r = filter (\<lambda>i. i \<notin> set (kept_at epoch a)) swept"
    and "\<forall>i \<in> set (cm_swept r). i \<in> set (bm_keys (ma_objects a)) \<and> \<not> arena_rooted a i"
    and "set (bm_keys (ma_objects b)) = set (bm_keys (ma_objects a)) - set (cm_swept r)"
    and "i \<in> set (bm_keys (ma_objects b)) \<Longrightarrow> object_edges trace (ma_objects b) i = object_edges trace (ma_objects a) i -
      ({WeakEdge e t | e t. (i, e, t) \<in> set weak} \<union> {EphemeronEdge e k v | e k v. (i, e, k, v) \<in> set ephemerons})"
    and "set (cm_cleared_weak r) = {(i, e). \<exists>t. (i, e, t) \<in> set weak \<and> WeakEdge e t \<in> object_edges trace (ma_objects a) i}"
    and "set (cm_cleared_ephemerons r) =
      {(i, e). \<exists>k v. (i, e, k, v) \<in> set ephemerons \<and> EphemeronEdge e k v \<in> object_edges trace (ma_objects a) i}"
    and "arena_ok ok b" "ma_next_id b = ma_next_id a" "ma_next_root b = ma_next_root a" "ma_roots b = ma_roots a"
proof -
  let ?swept = "filter (\<lambda>i. i \<notin> set (kept_at epoch a)) swept"
  obtain objects1 cw where w: "clear_weak_edges clear_weak weak (ma_objects a) [] = (objects1, cw)" by fastforce
  obtain objects2 ce where e: "clear_ephemeron_edges clear_ephemeron ephemerons objects1 [] = (objects2, ce)" by fastforce
  have epoch: "ma_epoch a = epoch" using run by (auto simp: apply_collection_at_epoch_def split: if_splits)
  define c where "c = (if weak \<noteq> [] \<or> ephemerons \<noteq> [] \<or> ?swept \<noteq> [] then advance_mutation_epoch a else Ok a)"
  have checks: "bind_outcome (for_each (check_swept a) ?swept ()) (\<lambda>_. bind_outcome c (\<lambda>a'.
      Ok (commit_collection clear_weak clear_ephemeron epoch weak ephemerons ?swept a'))) = Ok (r, b)"
    using run unfolding apply_collection_at_epoch_def Let_def c_def[symmetric] by (simp add: epoch)
  from checks obtain a' where a': "c = Ok a'"
    and swept: "\<forall>i \<in> set ?swept. i \<in> set (bm_keys (ma_objects a)) \<and> \<not> arena_rooted a i"
    and commit: "commit_collection clear_weak clear_ephemeron epoch weak ephemerons ?swept a' = (r, b)"
    unfolding bind_outcome_Ok_iff check_swept_loop outcome.inject by blast
  define e' where "e' = ma_epoch a'"
  have a'': "a' = a\<lparr>ma_epoch := e'\<rparr>" "e' = Suc (ma_epoch a) \<or> e' = ma_epoch a \<and> ?swept = []"
    using a' by (auto simp: e'_def c_def outcome_simps split: if_splits)
  define kept where "kept = bm_filter (\<lambda>i x. bm_contains_key i (remove_objects ?swept objects2) \<and> x \<noteq> epoch) (ma_kept_alive a)"
  have r: "r = \<lparr>cm_cleared_weak = cw, cm_cleared_ephemerons = ce, cm_swept = ?swept\<rparr>"
    and b: "b = a\<lparr>ma_epoch := e', ma_objects := remove_objects ?swept objects2, ma_kept_alive := kept\<rparr>"
    using commit by (simp_all add: commit_collection_def a'' w e Let_def kept_def del: set_filter)
  have "objects_ok ok (ma_objects a)" using ok by (simp add: arena_ok_def objects_ok_def)
  note weak = clear_weak_loop[OF w this]
  then have "objects_ok ok objects1" by blast
  note eph = clear_ephemeron_loop[OF e this]
  show "ma_epoch a = epoch" "cm_swept r = ?swept" "\<forall>i \<in> set (cm_swept r). i \<in> set (bm_keys (ma_objects a)) \<and> \<not> arena_rooted a i"
    "ma_next_id b = ma_next_id a" "ma_next_root b = ma_next_root a" "ma_roots b = ma_roots a"
    using epoch swept by (auto simp: r b)
  show keys: "set (bm_keys (ma_objects b)) = set (bm_keys (ma_objects a)) - set (cm_swept r)"
    using weak eph by (auto simp: r b)
  show "object_edges trace (ma_objects b) i = object_edges trace (ma_objects a) i -
      ({WeakEdge e t | e t. (i, e, t) \<in> set weak} \<union> {EphemeronEdge e k v | e k v. (i, e, k, v) \<in> set ephemerons})"
    if "i \<in> set (bm_keys (ma_objects b))"
  proof -
    have "object_edges trace (ma_objects b) i = object_edges trace objects2 i"
      using that unfolding keys by (auto simp add: b r object_edges_def bm_get_remove_objects)
    then show ?thesis using weak eph by auto
  qed
  show "set (cm_cleared_weak r) = {(i, e). \<exists>t. (i, e, t) \<in> set weak \<and> WeakEdge e t \<in> object_edges trace (ma_objects a) i}"
    using weak by (simp add: r)
  show "set (cm_cleared_ephemerons r) =
      {(i, e). \<exists>k v. (i, e, k, v) \<in> set ephemerons \<and> EphemeronEdge e k v \<in> object_edges trace (ma_objects a) i}"
    using weak eph by (auto simp: r)
  show "arena_ok ok b" unfolding b
    using a''(2) swept weak eph
    by (intro removed_objects_ok[OF ok]) (auto simp: bm_get_remove_objects objects_ok_def kept_def bm_get_filter filter_empty_conv split: if_splits option.splits)
qed

lemma arena_step_ok:
  assumes "arena_step ok clear_weak clear_ephemeron a b" "arena_ok ok a"
  shows "arena_ok ok b \<and> ma_next_id a \<le> ma_next_id b \<and> ma_next_root a \<le> ma_next_root b"
  using assms
proof cases
  case (allocate x i)
  then have "bm_len (bm_insert (ma_next_id a) x (ma_objects a)) \<le> ma_cap a"
    using assms(2) by (cases "ma_next_id a \<in> set (bm_keys (ma_objects a))")
      (auto simp: arena_allocate_def arena_ok_def bm_len_insert_fresh bm_len_insert_known split: if_splits)
  moreover have "\<forall>j \<in> set (bm_keys (ma_objects a)). j < Suc (ma_next_id a)"
    using assms(2) by (auto simp: arena_ok_def intro: less_SucI)
  ultimately show ?thesis using allocate assms(2)
    by (auto simp: arena_allocate_def outcome_simps checked_add_def arena_ok_def split: if_splits)
next
  case (sweep epoch ids swept)
  then show ?thesis using assms(2) bm_len_subset[of "remove_objects ids (ma_objects a)" "ma_objects a"]
    by (auto simp: sweep_at_epoch_def outcome_simps arena_ok_def bm_get_remove_objects check_swept_loop arena_rooted_iff
        remove_objects_def[of "[]"] split: if_splits)
next
  case (collection epoch weak ephemerons ids r)
  then show ?thesis using collection_applied(8-10)[OF assms(2)] by fastforce
next
  case (remove i x)
  then show ?thesis using assms(2) bm_len_subset[of "bm_remove i (ma_objects a)" "ma_objects a"]
    by (auto simp: arena_remove_def outcome_simps arena_ok_def arena_rooted_iff split: if_splits)
next
  case (root i rh)
  moreover have "\<forall>r j. bm_get (ma_roots a) r = Some j \<longrightarrow> r < Suc (ma_next_root a)"
    using assms(2) by (auto simp: arena_ok_def intro: less_SucI)
  ultimately show ?thesis using assms(2)
    by (auto simp: arena_root_def arena_get_def outcome_simps checked_add_def arena_ok_def in_bm_keys_iff split: if_splits)
next
  case (clear i e t c)
  then obtain x x' where x: "clear_weak e t x = (c, x')" "bm_get (ma_objects a) i = Some x"
      "b = a\<lparr>ma_epoch := Suc (ma_epoch a), ma_objects := bm_insert i x' (ma_objects a)\<rparr>"
    by (cases "clear_weak e t (the (bm_get (ma_objects a) i))")
      (auto simp: arena_clear_weak_edge_def outcome_simps split: if_splits)
  then show ?thesis using replaced_object_ok(1)[OF assms(2) x(2), of x'] clear_weak_edges[OF _ x(1)] by auto
next
  case (role f i)
  then obtain x where x: "bm_get (ma_objects a) i = Some x" "b = a\<lparr>ma_objects := bm_insert i (f x) (ma_objects a)\<rparr>"
    by (auto simp: arena_replace_role_def split: option.splits)
  then show ?thesis using replaced_object_ok(2)[OF assms(2) x(1), of "f x"] role(1) by auto
next
  case (update f i)
  then obtain x where x: "bm_get (ma_objects a) i = Some x"
      "b = a\<lparr>ma_epoch := Suc (ma_epoch a), ma_objects := bm_insert i (f x) (ma_objects a)\<rparr>"
    by (auto simp: arena_update_def outcome_simps split: if_splits)
  then show ?thesis using replaced_object_ok(1)[OF assms(2) x(1), of "f x"] update(1) by auto
next
  case (upgrade i j)
  then show ?thesis using assms(2) by (auto simp: arena_upgrade_def arena_ok_def kept_ok_def split: if_splits)
next
  case (release rh i)
  then show ?thesis using assms(2)
    by (auto simp: arena_release_root_def arena_ok_def outcome_simps split: if_splits option.splits)
next
  case (safepoint r)
  then show ?thesis using assms(2)
    by (auto simp: arena_safepoint_def arena_ok_def outcome_simps checked_add_def Let_def split: if_splits)
next
  case (teardown r)
  then show ?thesis using assms(2) by (auto simp: arena_teardown_def arena_ok_def bm_len_keys)
qed

lemma arena_steps_ok:
  assumes "(arena_step ok clear_weak clear_ephemeron)\<^sup>*\<^sup>* a b" "arena_ok ok a"
  shows "arena_ok ok b \<and> ma_next_id a \<le> ma_next_id b \<and> ma_next_root a \<le> ma_next_root b"
  using assms by (induction rule: rtranclp_induct) (fastforce dest: arena_step_ok)+

lemma arena_step_keys:
  assumes "arena_step ok clear_weak clear_ephemeron a b" "arena_ok ok a"
  shows "set (bm_keys (ma_objects b)) \<subseteq> insert (ma_next_id a) (set (bm_keys (ma_objects a)))"
  using assms(1)
proof cases
  case (collection epoch weak ephemerons ids r)
  then show ?thesis using collection_applied(4)[OF assms(2)] by fastforce
next
  case (allocate x i)
  then show ?thesis by (auto simp: arena_allocate_def outcome_simps split: if_splits)
next
  case (sweep epoch ids swept)
  then show ?thesis by (auto simp: sweep_at_epoch_def outcome_simps split: if_splits)
next
  case (clear i e t c)
  then show ?thesis
    by (cases "clear_weak e t (the (bm_get (ma_objects a) i))")
      (auto simp: arena_clear_weak_edge_def outcome_simps split: if_splits)
qed (auto simp: arena_update_def arena_upgrade_def arena_root_def arena_release_root_def arena_remove_def
      arena_safepoint_def arena_teardown_def arena_replace_role_def outcome_simps Let_def in_bm_keys_iff split: if_splits option.splits)

lemma arena_steps_stale:
  assumes "(arena_step ok clear_weak clear_ephemeron)\<^sup>*\<^sup>* a b" "arena_ok ok a"
    and "i < ma_next_id a" "i \<notin> set (bm_keys (ma_objects a))"
  shows "arena_ok ok b \<and> i < ma_next_id b \<and> i \<notin> set (bm_keys (ma_objects b))"
  using assms
proof (induction rule: rtranclp_induct)
  case (step b c)
  then show ?case using arena_step_ok[OF step.hyps(2)] arena_step_keys[OF step.hyps(2)] by auto
qed simp

end

text \<open>
  C31: a handle whose object is gone stays stale: after any history of arena calls, collections and
  teardowns included, looking it up reports \<open>StaleHandle\<close> and an allocation never returns its
  identity again; and the arena stays well formed, so that every root names a live object.
\<close>

theorem stale_handles_stay_stale:
  assumes "arena_ok node_ok a" "i < ma_next_id a" "arena_get i a = Err e"
    and "(arena_step node_ok node_clear_weak_edge node_clear_ephemeron_edge)\<^sup>*\<^sup>* a b"
  shows "arena_get i b = Err (StaleHandle i) \<and> arena_ok node_ok b \<and>
    (\<forall>x j c. arena_allocate x b = Ok (j, c) \<longrightarrow> j \<noteq> i) \<and>
    (\<forall>r j. bm_get (ma_roots b) r = Some j \<longrightarrow> (\<exists>x. arena_get j b = Ok x))"
proof -
  have "i \<notin> set (bm_keys (ma_objects a))"
    using assms(3) by (auto simp: arena_get_def in_bm_keys_iff outcome_simps)
  note b = node_object.arena_steps_stale[OF assms(4,1,2) this]
  then have "arena_get i b = Err (StaleHandle i)"
    by (auto simp: arena_get_def in_bm_keys_iff outcome_simps)
  moreover have "j \<noteq> i" if "arena_allocate x b = Ok (j, c)" for x j c
    using that b by (auto simp: arena_allocate_def outcome_simps split: if_splits)
  ultimately show ?thesis using b by (auto simp: arena_ok_def arena_get_def in_bm_keys_iff outcome_simps)
qed

definition demo_arena :: "unit managed_node managed_arena" where
  "demo_arena = (case arena_allocate demo_node (arena_new 2) of Ok (i, a) \<Rightarrow>
     (case arena_remove i a of Ok (_, b) \<Rightarrow> b | _ \<Rightarrow> a) | _ \<Rightarrow> arena_new 2)"

theorem stale_handles_stay_stale_witness:
  "\<exists>b c. arena_allocate demo_node demo_arena = Ok (1, b) \<and> arena_get 0 demo_arena = Err (StaleHandle 0) \<and>
     arena_get 0 b = Err (StaleHandle 0) \<and> arena_allocate demo_node b = Ok (2, c)"
proof -
  have get: "arena_get 0 demo_arena = Err (StaleHandle 0)" "(0::managed_id) < ma_next_id demo_arena" by code_simp+
  have "case arena_allocate demo_node demo_arena of Ok (i, b) \<Rightarrow> i = 1 \<and>
      (case arena_allocate demo_node b of Ok (j, _) \<Rightarrow> j = 2 | _ \<Rightarrow> False) | _ \<Rightarrow> False" by code_simp
  then obtain b c where run: "arena_allocate demo_node demo_arena = Ok (1, b)" "arena_allocate demo_node b = Ok (2, c)"
    unfolding case_outcome_Ok by (auto simp: case_outcome_Ok)
  have "\<exists>a x. arena_allocate demo_node (arena_new 2) = Ok (0, a) \<and> arena_remove 0 a = Ok (x, demo_arena)"
  proof -
    have "case arena_allocate demo_node (arena_new 2) of Ok (i, a) \<Rightarrow> i = 0 \<and>
      (case arena_remove 0 a of Ok (_, b) \<Rightarrow> True | _ \<Rightarrow> False) | _ \<Rightarrow> False" by code_simp
    then show ?thesis by (auto simp: case_outcome_Ok demo_arena_def split: outcome.splits prod.splits)
  qed
  then obtain a x where a: "arena_allocate demo_node (arena_new 2) = Ok (0, a)" "arena_remove 0 a = Ok (x, demo_arena)" by blast
  have node: "node_ok demo_node" by (simp add: demo_node_def node_new_ok)
  let ?step = "arena_step node_ok node_clear_weak_edge node_clear_ephemeron_edge"
  have "?step (arena_new 2) a" "?step a demo_arena" "?step demo_arena b"
    using a run node by (auto intro: arena_step.intros)
  then have "arena_ok node_ok demo_arena" "?step\<^sup>*\<^sup>* demo_arena b"
    using node_object.arena_step_ok arena_new_ok by blast+
  from stale_handles_stay_stale[OF this(1) get(2,1) this(2)] run get(1) show ?thesis by blast
qed

end
