(* ===== verification/Job_Queues.thy ===== *)
theory Job_Queues
  imports Ordered_Map "HOL-Library.List_Lexorder" "HOL-Library.Char_ord"
begin

text \<open>
  The typed job queues of \<open>sim-lib-control/src/jobs.rs\<close>. A job is a closure over the queues: its
  type \<open>'j\<close> is a parameter, and \<open>run\<close> is what calling it does to the queues. The contract of a job,
  that it acts on the queues through their public operations, is the locale \<open>job_runner\<close>.
\<close>

section \<open>Data\<close>

type_synonym job_id = u64

datatype runtime_job_class = Finalization | LanguageMicrotask string

text \<open>The order the source derives: variants in declaration order, then their fields.\<close>

instantiation runtime_job_class :: linorder
begin

fun less_eq_runtime_job_class :: "runtime_job_class \<Rightarrow> runtime_job_class \<Rightarrow> bool" where
  "less_eq_runtime_job_class Finalization _ = True"
| "less_eq_runtime_job_class (LanguageMicrotask _) Finalization = False"
| "less_eq_runtime_job_class (LanguageMicrotask a) (LanguageMicrotask b) = (a \<le> b)"

definition less_runtime_job_class :: "runtime_job_class \<Rightarrow> runtime_job_class \<Rightarrow> bool" where
  "less_runtime_job_class x y \<longleftrightarrow> x \<le> y \<and> \<not> y \<le> x"

instance
proof
  fix x y z :: runtime_job_class
  show "x \<le> x" by (cases x) simp_all
  show "x \<le> y \<Longrightarrow> y \<le> z \<Longrightarrow> x \<le> z" by (cases x; cases y; cases z) auto
  show "x \<le> y \<Longrightarrow> y \<le> x \<Longrightarrow> x = y" by (cases x; cases y) auto
  show "x \<le> y \<or> y \<le> x" by (cases x; cases y) auto
qed (simp add: less_runtime_job_class_def)

end

datatype job_status = Queued | Completed | Cancelled

record job_receipt =
  jr_id :: job_id
  jr_status :: job_status

record 'k drain_receipt =
  dr_class :: 'k
  dr_completed :: "job_id list"
  dr_pending :: bool

record 'k checkpoint_receipt =
  cr_class :: 'k
  cr_completed :: "job_id list"

datatype checkpoint_error = AdmissionExhausted | WorkExhausted

record (overloaded) ('k, 'j) job_queues =
  jq_queues :: "('k::linorder, (job_id \<times> 'j) list) bmap"
  jq_cancelled :: "job_id bset"
  jq_next_id :: u64
  jq_admitted :: usize
  jq_admission :: usize

section \<open>Operations\<close>

definition job_queues_new :: "usize \<Rightarrow> ('k::linorder, 'j) job_queues" where
  "job_queues_new admission = \<lparr>jq_queues = bm_empty, jq_cancelled = bs_empty, jq_next_id = 0, jq_admitted = 0,
     jq_admission = admission\<rparr>"

definition remaining_admission :: "('k::linorder, 'j) job_queues \<Rightarrow> usize" where
  "remaining_admission q = jq_admission q - jq_admitted q"

definition queue_at :: "'k::linorder \<Rightarrow> ('k, 'j) job_queues \<Rightarrow> (job_id \<times> 'j) list" where
  "queue_at class q = (case bm_get (jq_queues q) class of Some entries \<Rightarrow> entries | None \<Rightarrow> [])"

text \<open>The increment of \<open>admitted\<close> cannot overflow: it is below the admission limit, a \<open>usize\<close>.\<close>

definition enqueue :: "'k::linorder \<Rightarrow> 'j \<Rightarrow> ('k, 'j) job_queues \<Rightarrow> (checkpoint_error, job_receipt \<times> ('k, 'j) job_queues) outcome" where
  "enqueue class job q =
     (if jq_admission q \<le> jq_admitted q then Err AdmissionExhausted
      else Ok (\<lparr>jr_id = jq_next_id q, jr_status = Queued\<rparr>,
        q\<lparr>jq_next_id := saturating_add (jq_next_id q) 1, jq_admitted := jq_admitted q + 1,
          jq_queues := bm_insert class (queue_at class q @ [(jq_next_id q, job)]) (jq_queues q)\<rparr>))"

definition job_cancel :: "job_id \<Rightarrow> ('k::linorder, 'j) job_queues \<Rightarrow> job_receipt \<times> ('k, 'j) job_queues" where
  "job_cancel ident q = (\<lparr>jr_id = ident, jr_status = Cancelled\<rparr>, q\<lparr>jq_cancelled := bs_insert ident (jq_cancelled q)\<rparr>)"

definition pop_front_entry :: "'k::linorder \<Rightarrow> ('k, 'j) job_queues \<Rightarrow> ((job_id \<times> 'j) \<times> ('k, 'j) job_queues) option" where
  "pop_front_entry class q =
     (case queue_at class q of
        [] \<Rightarrow> None
      | entry # rest \<Rightarrow> Some (entry, q\<lparr>jq_queues := bm_insert class rest (jq_queues q)\<rparr>))"

text \<open>The loop of \<open>run_selected\<close>; its number of rounds left is \<open>limit - examined\<close>.\<close>

fun run_selected :: "('j \<Rightarrow> ('k, 'j) job_queues \<Rightarrow> ('k, 'j) job_queues) \<Rightarrow> 'k::linorder \<Rightarrow> nat
    \<Rightarrow> ('k, 'j) job_queues \<Rightarrow> job_id list \<Rightarrow> job_id list \<times> ('k, 'j) job_queues" where
  "run_selected run class 0 q completed = (completed, q)"
| "run_selected run class (Suc rounds) q completed =
     (case pop_front_entry class q of
        None \<Rightarrow> (completed, q)
      | Some ((ident, job), q1) \<Rightarrow>
          if bs_contains ident (jq_cancelled q1)
          then run_selected run class rounds (q1\<lparr>jq_cancelled := bs_remove ident (jq_cancelled q1)\<rparr>) completed
          else run_selected run class rounds (run job q1) (completed @ [ident]))"

definition drain :: "('j \<Rightarrow> ('k, 'j) job_queues \<Rightarrow> ('k, 'j) job_queues) \<Rightarrow> 'k::linorder \<Rightarrow> usize
    \<Rightarrow> ('k, 'j) job_queues \<Rightarrow> 'k drain_receipt \<times> ('k, 'j) job_queues" where
  "drain run class work q =
     (case run_selected run class work q [] of (completed, q') \<Rightarrow>
        (\<lparr>dr_class = class, dr_completed = completed, dr_pending = queue_at class q' \<noteq> []\<rparr>, q'))"

text \<open>A checkpoint that fails has run jobs, so it returns the queues as well.\<close>

definition checkpoint :: "('j \<Rightarrow> ('k, 'j) job_queues \<Rightarrow> ('k, 'j) job_queues) \<Rightarrow> 'k::linorder \<Rightarrow> usize
    \<Rightarrow> ('k, 'j) job_queues \<Rightarrow> (checkpoint_error, 'k checkpoint_receipt) outcome \<times> ('k, 'j) job_queues" where
  "checkpoint run class work q =
     (case run_selected run class work q [] of (completed, q') \<Rightarrow>
        (if queue_at class q' \<noteq> [] then Err WorkExhausted
         else Ok \<lparr>cr_class = class, cr_completed = completed\<rparr>, q'))"

section \<open>The queue invariant\<close>

text \<open>Identities are the admission ordinals, each is queued at most once, and the lifetime bound holds.\<close>

definition queued :: "('k::linorder, 'j) job_queues \<Rightarrow> job_id set" where
  "queued q = (\<Union>class. fst ` set (queue_at class q))"

definition jobs_ok :: "('k::linorder, 'j) job_queues \<Rightarrow> bool" where
  "jobs_ok q \<longleftrightarrow>
     jq_next_id q = jq_admitted q \<and> jq_admitted q \<le> jq_admission q \<and> jq_admission q \<le> usize_max \<and>
     (\<forall>ident \<in> queued q. ident < jq_next_id q) \<and>
     (\<forall>class. distinct (map fst (queue_at class q))) \<and>
     (\<forall>c d. c \<noteq> d \<longrightarrow> fst ` set (queue_at c q) \<inter> fst ` set (queue_at d q) = {})"

text \<open>What a call may do to the identities: only fresh ones appear.\<close>

definition queues_extend :: "('k::linorder, 'j) job_queues \<Rightarrow> ('k, 'j) job_queues \<Rightarrow> bool" where
  "queues_extend q q' \<longleftrightarrow> jq_next_id q \<le> jq_next_id q' \<and> jq_admission q' = jq_admission q \<and>
     queued q' \<subseteq> queued q \<union> {jq_next_id q ..}"

lemma queues_extend_refl [simp]: "queues_extend q q"
  by (simp add: queues_extend_def)

lemma queues_extend_trans: "queues_extend a b \<Longrightarrow> queues_extend b c \<Longrightarrow> queues_extend a c"
  by (force simp: queues_extend_def)

lemma queue_at_set [simp]:
  "queue_at d (q\<lparr>jq_queues := bm_insert c entries (jq_queues q)\<rparr>) = (if d = c then entries else queue_at d q)"
  by (simp add: queue_at_def)

lemma queue_at_updates [simp]:
  "queue_at d (q\<lparr>jq_cancelled := s\<rparr>) = queue_at d q" "queue_at d (q\<lparr>jq_next_id := n\<rparr>) = queue_at d q"
  "queue_at d (q\<lparr>jq_admitted := k\<rparr>) = queue_at d q"
  by (simp_all add: queue_at_def)

lemma cancelled_irrelevant [simp]:
  "queued (q\<lparr>jq_cancelled := s\<rparr>) = queued q" "jobs_ok (q\<lparr>jq_cancelled := s\<rparr>) = jobs_ok q"
  "queues_extend p (q\<lparr>jq_cancelled := s\<rparr>) = queues_extend p q" "queues_extend (q\<lparr>jq_cancelled := s\<rparr>) p = queues_extend q p"
  by (simp_all add: queued_def jobs_ok_def queues_extend_def)

lemma jobs_ok_distinct: "jobs_ok q \<Longrightarrow> distinct (map fst (queue_at class q))"
  by (simp add: jobs_ok_def)

lemma jobs_ok_disjoint: "jobs_ok q \<Longrightarrow> c \<noteq> d \<Longrightarrow> fst ` set (queue_at c q) \<inter> fst ` set (queue_at d q) = {}"
  by (simp add: jobs_ok_def)

lemma job_queues_new_ok: "admission \<le> usize_max \<Longrightarrow> jobs_ok (job_queues_new admission)"
  by (simp add: jobs_ok_def job_queues_new_def queued_def queue_at_def)

lemma enqueue_ok:
  assumes "enqueue class job q = Ok (r, q')" "jobs_ok q"
  shows "jobs_ok q' \<and> queues_extend q q' \<and> jr_id r = jq_next_id q \<and> jr_id r \<notin> queued q \<and>
    queue_at class q' = queue_at class q @ [(jr_id r, job)] \<and> (\<forall>d. d \<noteq> class \<longrightarrow> queue_at d q' = queue_at d q)"
proof -
  from assms have room: "jq_admitted q < jq_admission q" and r: "r = \<lparr>jr_id = jq_next_id q, jr_status = Queued\<rparr>"
    by (auto simp: enqueue_def split: if_splits)
  have inc: "saturating_add (jq_next_id q) 1 = jq_next_id q + 1"
    using assms(2) room by (auto simp: jobs_ok_def saturating_add_def)
  have q': "q' = q\<lparr>jq_next_id := jq_next_id q + 1, jq_admitted := jq_admitted q + 1,
      jq_queues := bm_insert class (queue_at class q @ [(jq_next_id q, job)]) (jq_queues q)\<rparr>"
    using assms(1) room by (auto simp add: enqueue_def inc[unfolded One_nat_def])
  then have at: "queue_at d q' = (if d = class then queue_at class q @ [(jq_next_id q, job)] else queue_at d q)" for d
    by (simp add: queue_at_def)
  have queued': "queued q' = insert (jq_next_id q) (queued q)"
  proof
    have keys: "fst ` set (queue_at d q') = (if d = class then {jq_next_id q} else {}) \<union> fst ` set (queue_at d q)" for d
      by (simp add: at)
    show "queued q' \<subseteq> insert (jq_next_id q) (queued q)"
      unfolding queued_def keys by (intro UN_least) (auto split: if_splits)
    show "insert (jq_next_id q) (queued q) \<subseteq> queued q'"
      unfolding queued_def keys by (intro insert_subsetI UN_I[of "class"] UN_mono) auto
  qed
  have fresh: "jq_next_id q \<notin> queued q" using assms(2) by (auto simp: jobs_ok_def)
  then have fresh_at: "jq_next_id q \<notin> fst ` set (queue_at d q)" for d by (auto simp: queued_def)
  have "distinct (map fst (queue_at d q'))" for d
    using jobs_ok_distinct[OF assms(2), of d] fresh_at[of d] by (auto simp: at)
  moreover have "fst ` set (queue_at c q') \<inter> fst ` set (queue_at d q') = {}" if "c \<noteq> d" for c d
    using jobs_ok_disjoint[OF assms(2) that] fresh_at[of c] fresh_at[of d] that
    by (cases "c = class"; cases "d = class") (simp_all add: at)
  moreover have "\<forall>ident \<in> queued q'. ident < jq_next_id q'" "jq_next_id q' = jq_admitted q'"
      "jq_admitted q' \<le> jq_admission q'" "jq_admission q' \<le> usize_max"
    using assms(2) room unfolding queued' by (auto simp: jobs_ok_def q' less_Suc_eq)
  ultimately have "jobs_ok q'" unfolding jobs_ok_def by blast
  moreover have "queues_extend q q'" unfolding queues_extend_def queued' by (auto simp: q')
  ultimately show ?thesis using fresh by (simp add: r at)
qed

lemma job_cancel_ok: "jobs_ok q \<Longrightarrow> jobs_ok (snd (job_cancel ident q)) \<and> queues_extend q (snd (job_cancel ident q))"
  by (simp add: job_cancel_def)

lemma pop_front_entry_ok:
  assumes "pop_front_entry class q = Some ((ident, job), q1)" "jobs_ok q"
  shows "jobs_ok q1 \<and> queues_extend q q1 \<and> ident \<in> queued q \<and> ident \<notin> queued q1 \<and> ident < jq_next_id q1"
proof -
  obtain rest where at: "queue_at class q = (ident, job) # rest"
    and q1: "q1 = q\<lparr>jq_queues := bm_insert class rest (jq_queues q)\<rparr>"
    using assms(1) by (auto simp: pop_front_entry_def split: list.splits)
  have at1: "queue_at d q1 = (if d = class then rest else queue_at d q)" for d by (simp add: q1)
  have sub: "fst ` set (queue_at d q1) \<subseteq> fst ` set (queue_at d q)" for d by (auto simp: at1 at)
  have head: "ident \<in> fst ` set (queue_at class q)" by (simp add: at)
  then have queued: "ident \<in> queued q" by (auto simp: queued_def)
  have "ident \<notin> fst ` set (queue_at d q1)" for d
  proof (cases "d = class")
    case True
    then show ?thesis using jobs_ok_distinct[OF assms(2), of "class"] by (simp add: at1 at)
  next
    case False
    then have "fst ` set (queue_at d q) \<inter> fst ` set (queue_at class q) = {}" using assms(2) by (simp add: jobs_ok_def)
    then show ?thesis using head sub[of d] by blast
  qed
  then have gone: "ident \<notin> queued q1" by (simp add: queued_def)
  have subq: "queued q1 \<subseteq> queued q" using sub by (fastforce simp: queued_def)
  have "distinct (map fst (queue_at d q1))" for d
    using jobs_ok_distinct[OF assms(2), of "class"] jobs_ok_distinct[OF assms(2), of d] by (simp add: at1 at)
  moreover have "fst ` set (queue_at c q1) \<inter> fst ` set (queue_at d q1) = {}" if "c \<noteq> d" for c d
    using jobs_ok_disjoint[OF assms(2) that] sub[of c] sub[of d] by blast
  moreover have "\<forall>i \<in> queued q1. i < jq_next_id q1" "jq_next_id q1 = jq_admitted q1"
      "jq_admitted q1 \<le> jq_admission q1" "jq_admission q1 \<le> usize_max"
    using assms(2) subq by (auto simp: jobs_ok_def q1)
  ultimately have "jobs_ok q1" unfolding jobs_ok_def by blast
  then show ?thesis using gone queued subq assms(2) by (auto simp: queues_extend_def q1 jobs_ok_def)
qed

section \<open>Runs of jobs\<close>

text \<open>A job acts through the public operations, so it keeps the invariant and admits only fresh
  identities. Then every job of a run is executed at most once.\<close>

locale job_runner =
  fixes run :: "'j \<Rightarrow> ('k::linorder, 'j) job_queues \<Rightarrow> ('k, 'j) job_queues"
  assumes run_keeps: "jobs_ok q \<Longrightarrow> jobs_ok (run job q) \<and> queues_extend q (run job q)"
begin

lemma run_selected_once:
  assumes "run_selected run class rounds q completed = (completed', q')" "jobs_ok q"
  shows "\<exists>ran. completed' = completed @ ran \<and> length ran \<le> rounds \<and> distinct ran \<and> jobs_ok q' \<and> queues_extend q q' \<and>
    (\<forall>ident \<in> set ran. ident \<notin> queued q' \<and> (ident \<in> queued q \<or> jq_next_id q \<le> ident))"
  using assms
proof (induction rounds arbitrary: q completed)
  case (Suc rounds)
  show ?case
  proof (cases "pop_front_entry class q")
    case None
    with Suc.prems show ?thesis by simp
  next
    case (Some entry)
    then obtain ident job q1 where pop: "pop_front_entry class q = Some ((ident, job), q1)" by (cases entry) auto
    note ok = pop_front_entry_ok[OF this Suc.prems(2)]
    show ?thesis
    proof (cases "bs_contains ident (jq_cancelled q1)")
      case True
      let ?q2 = "q1\<lparr>jq_cancelled := bs_remove ident (jq_cancelled q1)\<rparr>"
      have q2: "jobs_ok ?q2" "queues_extend q ?q2" using ok by simp_all
      from Suc.IH[OF _ this(1)] Suc.prems(1) pop True obtain ran where
        "completed' = completed @ ran \<and> length ran \<le> rounds \<and> distinct ran \<and> jobs_ok q' \<and> queues_extend ?q2 q' \<and>
          (\<forall>i \<in> set ran. i \<notin> queued q' \<and> (i \<in> queued ?q2 \<or> jq_next_id ?q2 \<le> i))" by auto
      with q2 queues_extend_trans[OF q2(2)] show ?thesis by (force simp: queues_extend_def)
    next
      case False
      let ?q2 = "run job q1"
      have q2: "jobs_ok ?q2" "queues_extend q1 ?q2" using ok run_keeps by auto
      have "run_selected run class rounds ?q2 (completed @ [ident]) = (completed', q')"
        using Suc.prems(1) pop False by simp
      from Suc.IH[OF this q2(1)] obtain ran where ran:
        "completed' = (completed @ [ident]) @ ran" "length ran \<le> rounds" "distinct ran" "jobs_ok q'" "queues_extend ?q2 q'"
          "\<forall>i \<in> set ran. i \<notin> queued q' \<and> (i \<in> queued ?q2 \<or> jq_next_id ?q2 \<le> i)" by auto
      have late: "ident \<notin> queued ?q2" "ident < jq_next_id ?q2" using ok q2(2) by (auto simp: queues_extend_def)
      then have "ident \<notin> set ran" "ident \<notin> queued q'" using ran(5,6) by (auto simp: queues_extend_def)
      moreover have "i \<in> queued q \<or> jq_next_id q \<le> i" if "i \<in> set ran" for i
        using that ran(6) q2(2) ok by (fastforce simp: queues_extend_def)
      ultimately show ?thesis using ran ok q2 queues_extend_trans
        by (intro exI[of _ "ident # ran"]) (auto intro: queues_extend_trans)
    qed
  qed
qed simp

lemma drain_once:
  assumes "drain run class work q = (r, q')" "jobs_ok q"
  shows "distinct (dr_completed r) \<and> length (dr_completed r) \<le> work \<and> jobs_ok q' \<and>
    set (dr_completed r) \<inter> queued q' = {} \<and> jq_admitted q' \<le> jq_admission q"
proof -
  obtain completed q1 where run: "run_selected run class work q [] = (completed, q1)" by fastforce
  from run_selected_once[OF this assms(2)] assms(1) run show ?thesis
    by (auto simp: drain_def jobs_ok_def queues_extend_def)
qed

end

text \<open>The callbacks of the collector ignore the queues they are given.\<close>

interpretation callbacks: job_runner "\<lambda>_ q. q"
  by unfold_locales simp

text \<open>FIFO order: callbacks are examined from the front, and a cancelled one is skipped.\<close>

lemma run_selected_fifo:
  assumes "jobs_ok q"
  shows "fst (run_selected (\<lambda>_ q. q) class work q completed) =
      completed @ filter (\<lambda>i. i \<notin> bs_set (jq_cancelled q)) (map fst (take work (queue_at class q))) \<and>
    (\<forall>d. queue_at d (snd (run_selected (\<lambda>_ q. q) class work q completed)) =
      (if d = class then drop work (queue_at class q) else queue_at d q))"
  using assms
proof (induction work arbitrary: q completed)
  case (Suc work)
  show ?case
  proof (cases "queue_at class q")
    case Nil
    then show ?thesis by (simp add: pop_front_entry_def)
  next
    case (Cons entry rest)
    obtain ident job where entry: "entry = (ident, job)" by (cases entry)
    let ?q1 = "q\<lparr>jq_queues := bm_insert class rest (jq_queues q)\<rparr>"
    have pop: "pop_front_entry class q = Some ((ident, job), ?q1)" using Cons entry by (simp add: pop_front_entry_def)
    note ok = pop_front_entry_ok[OF this Suc.prems]
    have "ident \<notin> fst ` set rest" using ok by (force simp: queued_def)
    then have skip: "filter (\<lambda>i. i \<in> bs_set (jq_cancelled q) \<longrightarrow> i = ident) (map fst (take work rest)) =
        filter (\<lambda>i. i \<notin> bs_set (jq_cancelled q)) (map fst (take work rest))"
      by (intro filter_cong) (auto dest: in_set_takeD simp: image_iff)
    show ?thesis
    proof (cases "ident \<in> bs_set (jq_cancelled q)")
      case True
      let ?q2 = "?q1\<lparr>jq_cancelled := bs_remove ident (jq_cancelled q)\<rparr>"
      have "jobs_ok ?q2" using ok by simp
      from Suc.IH[OF this, of completed] show ?thesis using pop True Cons entry by (simp add: skip)
    next
      case False
      from Suc.IH[of ?q1 "completed @ [ident]"] ok show ?thesis using pop False Cons entry by simp
    qed
  qed
qed simp

end
