(* ===== verification/Tracing_Collector.thy ===== *)
theory Tracing_Collector
  imports Managed_Arena Job_Queues
begin

text \<open>
  The bounded tracing collector: \<open>collector.rs\<close>, \<open>finalization.rs\<close>, \<open>heap.rs\<close> and the data of
  \<open>lib.rs\<close> of \<open>sim-lib-gc-tracing\<close>. A collection plans at a safepoint, without changing the arena:
  it marks from the roots with an explicit stack, then repeats the ephemeron table until no value
  is added. Both loops are written with \<open>None\<close> for a loop that does not return.
\<close>

section \<open>Limits, receipts and errors\<close>

record collection_limits =
  cl_objects :: usize
  cl_edges :: usize
  cl_stack :: usize
  cl_work :: usize
  cl_clears :: usize
  cl_finalizers :: usize

datatype limit_kind = ObjectsLimit | EdgesLimit | StackLimit | WorkLimit | ClearsLimit | FinalizersLimit

record failure_receipt =
  fa_mutation_epoch :: u64
  fa_kind :: limit_kind
  fa_limit :: usize
  fa_required :: usize

datatype collection_error = LimitError failure_receipt | ArenaFailure arena_error

record finalization_record =
  fz_registration :: u64
  fz_target :: managed_id

record collection_receipt =
  co_mutation_epoch :: u64
  co_marked :: "managed_id list"
  co_swept :: "managed_id list"
  co_edges :: usize
  co_work :: usize
  co_cleared_weak :: "(managed_id \<times> edge_id) list"
  co_cleared_ephemerons :: "(managed_id \<times> edge_id) list"
  co_finalization :: "finalization_record list"

section \<open>The finalization registry\<close>

datatype registration_state = Registered | CancelledReg | Admitted

record finalization_registry =
  fr_next :: u64
  fr_entries :: "(u64, managed_id \<times> registration_state) bmap"

definition registry_default :: finalization_registry where
  "registry_default = \<lparr>fr_next = 0, fr_entries = bm_empty\<rparr>"

definition registry_register :: "managed_id \<Rightarrow> finalization_registry \<Rightarrow> u64 \<times> finalization_registry" where
  "registry_register target r =
     (fr_next r, r\<lparr>fr_next := saturating_add (fr_next r) 1,
        fr_entries := bm_insert (fr_next r) (target, Registered) (fr_entries r)\<rparr>)"

definition registry_cancel :: "u64 \<Rightarrow> finalization_registry \<Rightarrow> bool \<times> finalization_registry" where
  "registry_cancel registration r =
     (case bm_get (fr_entries r) registration of
        None \<Rightarrow> (False, r)
      | Some (target, state) \<Rightarrow>
          if state \<noteq> Registered then (False, r)
          else (True, r\<lparr>fr_entries := bm_insert registration (target, CancelledReg) (fr_entries r)\<rparr>))"

definition registry_ready :: "managed_id bset \<Rightarrow> finalization_registry \<Rightarrow> finalization_record list" where
  "registry_ready swept r =
     List.map_filter (\<lambda>(registration, (target, state)).
         if state = Registered \<and> bs_contains target swept
         then Some \<lparr>fz_registration = registration, fz_target = target\<rparr> else None) (bm_entries (fr_entries r))"

definition mark_admitted :: "finalization_record list \<Rightarrow> finalization_registry \<Rightarrow> finalization_registry" where
  "mark_admitted records r = fold (\<lambda>record r.
     case bm_get (fr_entries r) (fz_registration record) of
       Some (target, _) \<Rightarrow> r\<lparr>fr_entries := bm_insert (fz_registration record) (target, Admitted) (fr_entries r)\<rparr>
     | None \<Rightarrow> r) records r"

section \<open>Marking\<close>

record found_edges =
  fe_strong :: "managed_id list"
  fe_weak :: "(managed_id \<times> edge_id \<times> managed_id) list"
  fe_ephemerons :: "(managed_id \<times> edge_id \<times> managed_id \<times> managed_id) list"
  fe_count :: usize

text \<open>The visitor \<open>Edges\<close>, with the owner it is created for.\<close>

fun visit_edge :: "managed_id \<Rightarrow> edge_snapshot \<Rightarrow> found_edges \<Rightarrow> found_edges" where
  "visit_edge owner (StrongEdge _ target) f = f\<lparr>fe_count := fe_count f + 1, fe_strong := fe_strong f @ [target]\<rparr>"
| "visit_edge owner (WeakEdge e target) f = f\<lparr>fe_count := fe_count f + 1, fe_weak := fe_weak f @ [(owner, e, target)]\<rparr>"
| "visit_edge owner (EphemeronEdge e key v) f =
     f\<lparr>fe_count := fe_count f + 1, fe_ephemerons := fe_ephemerons f @ [(owner, e, key, v)]\<rparr>"

definition visit_edges :: "('t \<Rightarrow> edge_snapshot list) \<Rightarrow> 't trace_snapshot \<Rightarrow> managed_id \<Rightarrow> (collection_error, found_edges) outcome" where
  "visit_edges trace snapshot owner =
     bind_outcome (map_err ArenaFailure (ok_or (StaleHandle owner) (bm_get (ts_objects snapshot) owner))) (\<lambda>object.
       Ok (fold (visit_edge owner) (trace object) \<lparr>fe_strong = [], fe_weak = [], fe_ephemerons = [], fe_count = 0\<rparr>))"

definition charge_limit :: "u64 \<Rightarrow> limit_kind \<Rightarrow> usize \<Rightarrow> usize \<Rightarrow> (collection_error, unit) outcome" where
  "charge_limit epoch kind limit required =
     (if limit < required
      then Err (LimitError \<lparr>fa_mutation_epoch = epoch, fa_kind = kind, fa_limit = limit, fa_required = required\<rparr>)
      else Ok ())"

record mark_state =
  mk_marked :: "managed_id bset"
  mk_pending :: "managed_id list"
  mk_edges :: usize
  mk_work :: usize
  mk_ephemerons :: "(managed_id \<times> edge_id \<times> managed_id \<times> managed_id) list"
  mk_weak :: "(managed_id \<times> edge_id \<times> managed_id) list"

definition pop_object :: "mark_state \<Rightarrow> (managed_id \<times> mark_state) option" where
  "pop_object st = (if mk_pending st = [] then None
     else Some (last (mk_pending st), st\<lparr>mk_pending := butlast (mk_pending st)\<rparr>))"

text \<open>The body of the first mark loop.\<close>

definition mark_object :: "('t \<Rightarrow> edge_snapshot list) \<Rightarrow> collection_limits \<Rightarrow> 't trace_snapshot \<Rightarrow> managed_id \<Rightarrow> mark_state
    \<Rightarrow> (collection_error, mark_state) outcome" where
  "mark_object trace limits snapshot ident st =
     (if bs_contains ident (mk_marked st) then Ok st
      else let marked = bs_insert ident (mk_marked st) in
        bind_outcome (visit_edges trace snapshot ident) (\<lambda>found.
        let edge_count = saturating_add (mk_edges st) (fe_count found) in
        bind_outcome (charge_limit (ts_mutation_epoch snapshot) EdgesLimit (cl_edges limits) edge_count) (\<lambda>_.
        let work = saturating_add (mk_work st) (1 + fe_count found) in
        bind_outcome (charge_limit (ts_mutation_epoch snapshot) WorkLimit (cl_work limits) work) (\<lambda>_.
        let pending = mk_pending st @ filter (\<lambda>target. \<not> bs_contains target marked) (fe_strong found) in
        bind_outcome (charge_limit (ts_mutation_epoch snapshot) StackLimit (cl_stack limits) (length pending)) (\<lambda>_.
          Ok \<lparr>mk_marked = marked, mk_pending = pending, mk_edges = edge_count, mk_work = work,
              mk_ephemerons = mk_ephemerons st @ fe_ephemerons found, mk_weak = mk_weak st @ fe_weak found\<rparr>)))))"

text \<open>The body of the second mark loop, which charges the stack after it has recorded the edges.\<close>

definition mark_object_again :: "('t \<Rightarrow> edge_snapshot list) \<Rightarrow> collection_limits \<Rightarrow> 't trace_snapshot \<Rightarrow> managed_id \<Rightarrow> mark_state
    \<Rightarrow> (collection_error, mark_state) outcome" where
  "mark_object_again trace limits snapshot ident st =
     (if bs_contains ident (mk_marked st) then Ok st
      else let marked = bs_insert ident (mk_marked st) in
        bind_outcome (visit_edges trace snapshot ident) (\<lambda>found.
        let edge_count = saturating_add (mk_edges st) (fe_count found) in
        bind_outcome (charge_limit (ts_mutation_epoch snapshot) EdgesLimit (cl_edges limits) edge_count) (\<lambda>_.
        let work = saturating_add (mk_work st) (1 + fe_count found) in
        bind_outcome (charge_limit (ts_mutation_epoch snapshot) WorkLimit (cl_work limits) work) (\<lambda>_.
        let pending = mk_pending st @ filter (\<lambda>target. \<not> bs_contains target marked) (fe_strong found);
            st' = \<lparr>mk_marked = marked, mk_pending = pending, mk_edges = edge_count, mk_work = work,
              mk_ephemerons = mk_ephemerons st @ fe_ephemerons found, mk_weak = mk_weak st @ fe_weak found\<rparr> in
        bind_outcome (charge_limit (ts_mutation_epoch snapshot) StackLimit (cl_stack limits) (length (mk_pending st'))) (\<lambda>_.
          Ok st')))))"

text \<open>One entry of the ephemeron table.\<close>

definition scan_ephemeron :: "collection_limits \<Rightarrow> u64 \<Rightarrow> managed_id \<times> edge_id \<times> managed_id \<times> managed_id
    \<Rightarrow> mark_state \<times> bool \<Rightarrow> (collection_error, mark_state \<times> bool) outcome" where
  "scan_ephemeron limits epoch = (\<lambda>(_, _, key, v) (st, changed).
     let work = saturating_add (mk_work st) 1 in
     bind_outcome (charge_limit epoch WorkLimit (cl_work limits) work) (\<lambda>_.
       if bs_contains key (mk_marked st) \<and> \<not> bs_contains v (mk_marked st)
       then Ok (st\<lparr>mk_work := work, mk_pending := mk_pending st @ [v]\<rparr>, True)
       else Ok (st\<lparr>mk_work := work\<rparr>, changed)))"

partial_function (option) ephemeron_loop :: "('t \<Rightarrow> edge_snapshot list) \<Rightarrow> collection_limits \<Rightarrow> 't trace_snapshot \<Rightarrow> mark_state
    \<Rightarrow> (collection_error, mark_state) outcome option" where
  "ephemeron_loop trace limits snapshot st =
     (case for_each (scan_ephemeron limits (ts_mutation_epoch snapshot)) (mk_ephemerons st) (st, False) of
        Err e \<Rightarrow> Some (Err e)
      | Panic p \<Rightarrow> Some (Panic p)
      | Ok (st1, changed) \<Rightarrow>
          if \<not> changed then Some (Ok st1)
          else (case while_let pop_object (mark_object_again trace limits snapshot) st1 of
                  None \<Rightarrow> None
                | Some (Err e) \<Rightarrow> Some (Err e)
                | Some (Panic p) \<Rightarrow> Some (Panic p)
                | Some (Ok st2) \<Rightarrow> ephemeron_loop trace limits snapshot st2))"

declare ephemeron_loop.simps [code]

section \<open>The plan of a collection\<close>

record collection_plan =
  pl_epoch :: u64
  pl_all :: "managed_id list"
  pl_marked :: "managed_id bset"
  pl_edges :: usize
  pl_work :: usize
  pl_weak :: "(managed_id \<times> edge_id \<times> managed_id) list"
  pl_ephemerons :: "(managed_id \<times> edge_id \<times> managed_id \<times> managed_id) list"

text \<open>The plan before its loops.\<close>

definition start_plan :: "collection_limits \<Rightarrow> 't trace_snapshot \<Rightarrow> (collection_error, mark_state) outcome" where
  "start_plan limits snapshot =
     (let epoch = ts_mutation_epoch snapshot; pending = ts_roots snapshot @ ts_kept_alive snapshot in
      bind_outcome (charge_limit epoch ObjectsLimit (cl_objects limits) (bm_len (ts_objects snapshot))) (\<lambda>_.
      bind_outcome (charge_limit epoch StackLimit (cl_stack limits) (length pending)) (\<lambda>_.
      bind_outcome (charge_limit epoch WorkLimit (cl_work limits) (length pending)) (\<lambda>_.
        Ok \<lparr>mk_marked = bs_empty, mk_pending = pending, mk_edges = 0, mk_work = length pending,
            mk_ephemerons = [], mk_weak = []\<rparr>))))"

text \<open>The plan after its loops.\<close>

definition finish_plan :: "collection_limits \<Rightarrow> 't trace_snapshot \<Rightarrow> mark_state \<Rightarrow> (collection_error, collection_plan) outcome" where
  "finish_plan limits snapshot st =
     (let epoch = ts_mutation_epoch snapshot; all = bm_keys (ts_objects snapshot);
          swept = filter (\<lambda>ident. \<not> bs_contains ident (mk_marked st)) all;
          work = saturating_add (mk_work st) (length swept) in
      bind_outcome (charge_limit epoch WorkLimit (cl_work limits) work) (\<lambda>_.
      let weak_clear = filter (\<lambda>(_, _, target). \<not> bs_contains target (mk_marked st)) (mk_weak st);
          eph_clear = filter (\<lambda>(_, _, key, _). \<not> bs_contains key (mk_marked st)) (mk_ephemerons st) in
      bind_outcome (charge_limit epoch ClearsLimit (cl_clears limits) (saturating_add (length weak_clear) (length eph_clear))) (\<lambda>_.
        Ok \<lparr>pl_epoch = epoch, pl_all = all, pl_marked = mk_marked st, pl_edges = mk_edges st, pl_work = work,
            pl_weak = weak_clear, pl_ephemerons = eph_clear\<rparr>)))"

definition mark_plan :: "('t \<Rightarrow> edge_snapshot list) \<Rightarrow> collection_limits \<Rightarrow> 't trace_snapshot \<Rightarrow> mark_state
    \<Rightarrow> (collection_error, mark_state) outcome option" where
  "mark_plan trace limits snapshot st =
     (case while_let pop_object (mark_object trace limits snapshot) st of
        None \<Rightarrow> None
      | Some (Err e) \<Rightarrow> Some (Err e)
      | Some (Panic p) \<Rightarrow> Some (Panic p)
      | Some (Ok st1) \<Rightarrow> ephemeron_loop trace limits snapshot st1)"

definition plan_collection :: "('t \<Rightarrow> edge_snapshot list) \<Rightarrow> collection_limits \<Rightarrow> 't trace_snapshot
    \<Rightarrow> (collection_error, collection_plan) outcome option" where
  "plan_collection trace limits snapshot =
     (case start_plan limits snapshot of
        Err e \<Rightarrow> Some (Err e)
      | Panic p \<Rightarrow> Some (Panic p)
      | Ok st \<Rightarrow> map_option (\<lambda>r. bind_outcome r (finish_plan limits snapshot)) (mark_plan trace limits snapshot st))"

section \<open>Applying a plan\<close>

text \<open>The queue a collection admits its records to: a job is the callback applied to a record.\<close>

type_synonym finalization_jobs = "(runtime_job_class, finalization_record) job_queues"

text \<open>The jobs enqueued before an error stay enqueued.\<close>

fun admit_records :: "u64 \<Rightarrow> finalization_record list \<Rightarrow> finalization_jobs \<Rightarrow> (collection_error, unit) outcome \<times> finalization_jobs" where
  "admit_records epoch [] jobs = (Ok (), jobs)"
| "admit_records epoch (record # records) jobs =
     (case enqueue Finalization record jobs of
        Ok (_, jobs') \<Rightarrow> admit_records epoch records jobs'
      | Err _ \<Rightarrow> (Err (LimitError \<lparr>fa_mutation_epoch = epoch, fa_kind = FinalizersLimit, fa_limit = 0, fa_required = 1\<rparr>), jobs)
      | Panic p \<Rightarrow> (Panic p, jobs))"

text \<open>The objects and the queues a collection works on.\<close>

type_synonym 't collection_world = "'t managed_arena \<times> finalization_registry \<times> finalization_jobs"

definition apply_plan :: "(edge_id \<Rightarrow> managed_id \<Rightarrow> 't \<Rightarrow> bool \<times> 't)
    \<Rightarrow> (edge_id \<Rightarrow> managed_id \<Rightarrow> managed_id \<Rightarrow> 't \<Rightarrow> bool \<times> 't) \<Rightarrow> collection_limits \<Rightarrow> collection_plan \<Rightarrow> 't collection_world
    \<Rightarrow> (collection_error, collection_receipt) outcome \<times> 't collection_world" where
  "apply_plan clear_weak clear_ephemeron limits plan = (\<lambda>(arena, registry, jobs).
     let epoch = pl_epoch plan;
         swept = filter (\<lambda>ident. \<not> bs_contains ident (pl_marked plan)) (pl_all plan);
         records = registry_ready (bs_from_list swept) registry in
     case charge_limit epoch FinalizersLimit (cl_finalizers limits) (length records) of
       Err e \<Rightarrow> (Err e, arena, registry, jobs)
     | Panic p \<Rightarrow> (Panic p, arena, registry, jobs)
     | Ok _ \<Rightarrow>
         if remaining_admission jobs < length records
         then (Err (LimitError \<lparr>fa_mutation_epoch = epoch, fa_kind = FinalizersLimit,
                 fa_limit = remaining_admission jobs, fa_required = length records\<rparr>), arena, registry, jobs)
         else case map_err ArenaFailure
                (apply_collection_at_epoch clear_weak clear_ephemeron epoch (pl_weak plan) (pl_ephemerons plan) swept arena) of
           Err e \<Rightarrow> (Err e, arena, registry, jobs)
         | Panic p \<Rightarrow> (Panic p, arena, registry, jobs)
         | Ok (mutation, arena') \<Rightarrow>
             (case admit_records epoch records jobs of
                (Err e, jobs') \<Rightarrow> (Err e, arena', registry, jobs')
              | (Panic p, jobs') \<Rightarrow> (Panic p, arena', registry, jobs')
              | (Ok _, jobs') \<Rightarrow>
                  (Ok \<lparr>co_mutation_epoch = epoch, co_marked = bs_elems (pl_marked plan), co_swept = cm_swept mutation,
                       co_edges = pl_edges plan, co_work = pl_work plan, co_cleared_weak = cm_cleared_weak mutation,
                       co_cleared_ephemerons = cm_cleared_ephemerons mutation, co_finalization = records\<rparr>,
                   arena', mark_admitted records registry, jobs')))"

definition collect_with_finalization :: "('t \<Rightarrow> edge_snapshot list) \<Rightarrow> (edge_id \<Rightarrow> managed_id \<Rightarrow> 't \<Rightarrow> bool \<times> 't)
    \<Rightarrow> (edge_id \<Rightarrow> managed_id \<Rightarrow> managed_id \<Rightarrow> 't \<Rightarrow> bool \<times> 't) \<Rightarrow> collection_limits \<Rightarrow> 't collection_world
    \<Rightarrow> ((collection_error, collection_receipt) outcome \<times> 't collection_world) option" where
  "collect_with_finalization trace clear_weak clear_ephemeron limits = (\<lambda>(arena, registry, jobs).
     case arena_safepoint (plan_collection trace limits) arena of
       Err e \<Rightarrow> Some (Err (ArenaFailure e), arena, registry, jobs)
     | Panic p \<Rightarrow> Some (Panic p, arena, registry, jobs)
     | Ok ((planned, _), arena1) \<Rightarrow>
         map_option (\<lambda>r. case r of
             Err e \<Rightarrow> (Err e, arena1, registry, jobs)
           | Panic p \<Rightarrow> (Panic p, arena1, registry, jobs)
           | Ok plan \<Rightarrow> apply_plan clear_weak clear_ephemeron limits plan (arena1, registry, jobs)) planned)"

definition collect :: "('t \<Rightarrow> edge_snapshot list) \<Rightarrow> (edge_id \<Rightarrow> managed_id \<Rightarrow> 't \<Rightarrow> bool \<times> 't)
    \<Rightarrow> (edge_id \<Rightarrow> managed_id \<Rightarrow> managed_id \<Rightarrow> 't \<Rightarrow> bool \<times> 't) \<Rightarrow> collection_limits \<Rightarrow> 't managed_arena
    \<Rightarrow> ((collection_error, collection_receipt) outcome \<times> 't managed_arena) option" where
  "collect trace clear_weak clear_ephemeron limits arena =
     map_option (\<lambda>(r, arena', _). (r, arena'))
       (collect_with_finalization trace clear_weak clear_ephemeron limits (arena, registry_default, job_queues_new 0))"

section \<open>Heaps with a reclamation policy\<close>

datatype managed_heap_policy = Tracing collection_limits | Retain

record 't managed_heap =
  mh_arena :: "'t managed_arena"
  mh_policy :: managed_heap_policy

definition heap_tracing :: "usize \<Rightarrow> collection_limits \<Rightarrow> (arena_error, 't managed_heap) outcome" where
  "heap_tracing cap limits = bind_outcome (hard_capped_policy cap)
     (\<lambda>policy. Ok \<lparr>mh_arena = arena_new policy, mh_policy = Tracing limits\<rparr>)"

definition heap_retaining :: "usize \<Rightarrow> (arena_error, 't managed_heap) outcome" where
  "heap_retaining cap = bind_outcome (hard_capped_policy cap)
     (\<lambda>policy. Ok \<lparr>mh_arena = arena_new policy, mh_policy = Retain\<rparr>)"

definition heap_allocate :: "'t \<Rightarrow> 't managed_heap \<Rightarrow> (arena_error, managed_id \<times> 't managed_heap) outcome" where
  "heap_allocate x h = bind_outcome (arena_allocate x (mh_arena h)) (\<lambda>(i, a). Ok (i, h\<lparr>mh_arena := a\<rparr>))"

definition heap_root :: "managed_id \<Rightarrow> 't managed_heap \<Rightarrow> (arena_error, rooted_handle \<times> 't managed_heap) outcome" where
  "heap_root handle h = bind_outcome (arena_root handle (mh_arena h)) (\<lambda>(r, a). Ok (r, h\<lparr>mh_arena := a\<rparr>))"

definition heap_release_root :: "rooted_handle \<Rightarrow> 't managed_heap \<Rightarrow> (arena_error, managed_id \<times> 't managed_heap) outcome" where
  "heap_release_root rooted h = bind_outcome (arena_release_root rooted (mh_arena h)) (\<lambda>(i, a). Ok (i, h\<lparr>mh_arena := a\<rparr>))"

definition heap_update :: "managed_id \<Rightarrow> ('t \<Rightarrow> 't) \<Rightarrow> 't managed_heap \<Rightarrow> (arena_error, 't managed_heap) outcome" where
  "heap_update handle f h = bind_outcome (arena_update handle f (mh_arena h)) (\<lambda>a. Ok (h\<lparr>mh_arena := a\<rparr>))"

definition heap_collect :: "('t \<Rightarrow> edge_snapshot list) \<Rightarrow> (edge_id \<Rightarrow> managed_id \<Rightarrow> 't \<Rightarrow> bool \<times> 't)
    \<Rightarrow> (edge_id \<Rightarrow> managed_id \<Rightarrow> managed_id \<Rightarrow> 't \<Rightarrow> bool \<times> 't) \<Rightarrow> 't managed_heap
    \<Rightarrow> ((collection_error, collection_receipt option) outcome \<times> 't managed_heap) option" where
  "heap_collect trace clear_weak clear_ephemeron h =
     (case mh_policy h of
        Tracing limits \<Rightarrow>
          map_option (\<lambda>(r, a). (bind_outcome r (\<lambda>receipt. Ok (Some receipt)), h\<lparr>mh_arena := a\<rparr>))
            (collect trace clear_weak clear_ephemeron limits (mh_arena h))
      | Retain \<Rightarrow> Some (Ok None, h))"

definition heap_teardown :: "'t managed_heap \<Rightarrow> teardown_receipt \<times> 't managed_heap" where
  "heap_teardown h = (case arena_teardown (mh_arena h) of (r, a) \<Rightarrow> (r, h\<lparr>mh_arena := a\<rparr>))"

end
