(* ===== verification/Collector_Correct.thy ===== *)
theory Collector_Correct
  imports Tracing_Collector
begin

text \<open>
  Correctness of the tracing collector. The specification is the set \<open>live\<close>: what is reachable from
  the roots over strong edges, and over an ephemeron once its owner and its key are. A collection
  that returns a receipt has removed exactly the objects outside it.
\<close>

section \<open>Liveness\<close>

inductive_set live :: "('t \<Rightarrow> edge_snapshot list) \<Rightarrow> (managed_id, 't) bmap \<Rightarrow> managed_id set \<Rightarrow> managed_id set"
  for trace objects roots where
  live_root: "i \<in> roots \<Longrightarrow> i \<in> live trace objects roots"
| live_strong: "i \<in> live trace objects roots \<Longrightarrow> StrongEdge e t \<in> object_edges trace objects i \<Longrightarrow> t \<in> live trace objects roots"
| live_ephemeron: "i \<in> live trace objects roots \<Longrightarrow> EphemeronEdge e k v \<in> object_edges trace objects i \<Longrightarrow>
    k \<in> live trace objects roots \<Longrightarrow> v \<in> live trace objects roots"

definition snapshot_live :: "('t \<Rightarrow> edge_snapshot list) \<Rightarrow> 't trace_snapshot \<Rightarrow> managed_id set" where
  "snapshot_live trace s = live trace (ts_objects s) (set (ts_roots s) \<union> set (ts_kept_alive s))"

section \<open>One visit\<close>

lemma fold_visit:
  "fold (visit_edge i) es f = \<lparr>fe_strong = fe_strong f @ List.map_filter (\<lambda>x. case x of StrongEdge _ t \<Rightarrow> Some t | _ \<Rightarrow> None) es,
     fe_weak = fe_weak f @ List.map_filter (\<lambda>x. case x of WeakEdge e t \<Rightarrow> Some (i, e, t) | _ \<Rightarrow> None) es,
     fe_ephemerons = fe_ephemerons f @ List.map_filter (\<lambda>x. case x of EphemeronEdge e k v \<Rightarrow> Some (i, e, k, v) | _ \<Rightarrow> None) es,
     fe_count = fe_count f + length es\<rparr>"
proof (induction es arbitrary: f)
  case (Cons x es)
  then show ?case by (cases x) (simp_all add: List.map_filter_simps)
qed (simp add: List.map_filter_simps)

lemma set_map_filter: "set (List.map_filter f xs) = {y. \<exists>x \<in> set xs. f x = Some y}"
  by (force simp: List.map_filter_def)

lemma edge_of_kind:
  "(case x of StrongEdge _ t \<Rightarrow> Some t | _ \<Rightarrow> None) = Some t' \<longleftrightarrow> (\<exists>e. x = StrongEdge e t')"
  "(case x of WeakEdge e t \<Rightarrow> Some (i, e, t) | _ \<Rightarrow> None) = Some y \<longleftrightarrow> (\<exists>e t. x = WeakEdge e t \<and> y = (i, e, t))"
  "(case x of EphemeronEdge e k v \<Rightarrow> Some (i, e, k, v) | _ \<Rightarrow> None) = Some z \<longleftrightarrow>
     (\<exists>e k v. x = EphemeronEdge e k v \<and> z = (i, e, k, v))"
  by (cases x; auto)+

lemma visit_edges_Ok:
  assumes "visit_edges trace s i = Ok found"
  shows "i \<in> set (bm_keys (ts_objects s))" "set (fe_strong found) = {t. \<exists>e. StrongEdge e t \<in> object_edges trace (ts_objects s) i}"
    and "set (fe_weak found) = {(j, e, t). j = i \<and> WeakEdge e t \<in> object_edges trace (ts_objects s) i}"
    and "set (fe_ephemerons found) = {(j, e, k, v). j = i \<and> EphemeronEdge e k v \<in> object_edges trace (ts_objects s) i}"
proof -
  from assms obtain x where x: "bm_get (ts_objects s) i = Some x"
    and found: "found = fold (visit_edge i) (trace x) \<lparr>fe_strong = [], fe_weak = [], fe_ephemerons = [], fe_count = 0\<rparr>"
    by (auto simp: visit_edges_def outcome_simps map_err_iff)
  show "i \<in> set (bm_keys (ts_objects s))" using x by (auto simp: in_bm_keys_iff)
  have edges: "object_edges trace (ts_objects s) i = set (trace x)" using x by (simp add: object_edges_def)
  show "set (fe_strong found) = {t. \<exists>e. StrongEdge e t \<in> object_edges trace (ts_objects s) i}"
    unfolding edges by (auto simp: found fold_visit set_map_filter edge_of_kind)
  show "set (fe_weak found) = {(j, e, t). j = i \<and> WeakEdge e t \<in> object_edges trace (ts_objects s) i}"
    unfolding edges by (auto simp: found fold_visit set_map_filter edge_of_kind)
  show "set (fe_ephemerons found) = {(j, e, k, v). j = i \<and> EphemeronEdge e k v \<in> object_edges trace (ts_objects s) i}"
    unfolding edges by (auto simp: found fold_visit set_map_filter edge_of_kind)
qed

lemma charge_limit_Ok_iff [outcome_simps]: "charge_limit epoch kind limit required = Ok u \<longleftrightarrow> required \<le> limit"
  by (auto simp: charge_limit_def)

lemma charge_limit_no_panic [outcome_simps]: "charge_limit epoch kind limit required = Panic p \<longleftrightarrow> False"
  by (auto simp: charge_limit_def)

lemma mark_object_again_eq: "mark_object_again = mark_object"
  unfolding mark_object_again_def mark_object_def Let_def by (intro ext) simp

section \<open>The mark invariant\<close>

definition mark_inv :: "('t \<Rightarrow> edge_snapshot list) \<Rightarrow> collection_limits \<Rightarrow> 't trace_snapshot \<Rightarrow> mark_state \<Rightarrow> bool" where
  "mark_inv trace limits s st \<longleftrightarrow>
     bs_set (mk_marked st) \<union> set (mk_pending st) \<subseteq> snapshot_live trace s \<and>
     set (ts_roots s) \<union> set (ts_kept_alive s) \<subseteq> bs_set (mk_marked st) \<union> set (mk_pending st) \<and>
     bs_set (mk_marked st) \<subseteq> set (bm_keys (ts_objects s)) \<and>
     (\<forall>i \<in> bs_set (mk_marked st). \<forall>e t. StrongEdge e t \<in> object_edges trace (ts_objects s) i \<longrightarrow>
        t \<in> bs_set (mk_marked st) \<union> set (mk_pending st)) \<and>
     set (mk_weak st) = {(i, e, t). i \<in> bs_set (mk_marked st) \<and> WeakEdge e t \<in> object_edges trace (ts_objects s) i} \<and>
     set (mk_ephemerons st) = {(i, e, k, v). i \<in> bs_set (mk_marked st) \<and> EphemeronEdge e k v \<in> object_edges trace (ts_objects s) i} \<and>
     mk_edges st \<le> cl_edges limits \<and> mk_work st \<le> cl_work limits"

lemma start_plan_inv:
  assumes "start_plan limits s = Ok st"
  shows "mark_inv trace limits s st" "bm_len (ts_objects s) \<le> cl_objects limits"
  using assms
  by (auto simp: start_plan_def outcome_simps Let_def mark_inv_def snapshot_live_def intro: live_root)

lemma pop_object_Some:
  assumes "pop_object st = Some (i, st1)"
  shows "mk_pending st = mk_pending st1 @ [i]" "st1 = st\<lparr>mk_pending := mk_pending st1\<rparr>"
  using assms by (auto simp: pop_object_def split: if_splits)

lemma mark_object_Ok:
  assumes "mark_object trace limits s i st = Ok st'"
  obtains (known) "i \<in> bs_set (mk_marked st)" "st' = st"
  | (new) found where "i \<notin> bs_set (mk_marked st)" "visit_edges trace s i = Ok found"
    "mk_marked st' = bs_insert i (mk_marked st)"
    "mk_pending st' = mk_pending st @ filter (\<lambda>t. t \<notin> insert i (bs_set (mk_marked st))) (fe_strong found)"
    "mk_ephemerons st' = mk_ephemerons st @ fe_ephemerons found" "mk_weak st' = mk_weak st @ fe_weak found"
    "mk_edges st' \<le> cl_edges limits" "mk_work st' \<le> cl_work limits" "length (mk_pending st') \<le> cl_stack limits"
  using assms by (auto simp: mark_object_def outcome_simps Let_def split: if_splits)

lemma mark_object_inv:
  assumes inv: "mark_inv trace limits s st" and pop: "pop_object st = Some (i, st1)"
    and body: "mark_object trace limits s i st1 = Ok st2"
  shows "mark_inv trace limits s st2 \<and>
    bs_set (mk_marked st) \<union> set (mk_pending st) \<subseteq> bs_set (mk_marked st2) \<union> set (mk_pending st2) \<and>
    bs_set (mk_marked st) \<subseteq> bs_set (mk_marked st2) \<and>
    ((st2, st) \<in> measures [\<lambda>st. card (set (bm_keys (ts_objects s)) - bs_set (mk_marked st)), \<lambda>st. length (mk_pending st)])"
proof -
  note pending = pop_object_Some[OF pop]
  have st1: "mk_marked st1 = mk_marked st" "mk_ephemerons st1 = mk_ephemerons st" "mk_weak st1 = mk_weak st"
    "mk_edges st1 = mk_edges st" "mk_work st1 = mk_work st"
    by (subst pending(2), simp)+
  have live: "i \<in> snapshot_live trace s" using inv pending(1) by (simp add: mark_inv_def)
  from body show ?thesis
  proof (cases rule: mark_object_Ok)
    case known
    have union: "bs_set (mk_marked st) \<union> set (mk_pending st1) = bs_set (mk_marked st) \<union> set (mk_pending st)"
      using known(1) pending(1) st1 by auto
    have "mark_inv trace limits s st1" using inv unfolding mark_inv_def st1 union by blast
    then show ?thesis using known pending(1) st1 union by auto
  next
    case (new found)
    note edges = visit_edges_Ok[OF new(2)]
    have marked: "bs_set (mk_marked st2) = insert i (bs_set (mk_marked st))" by (simp add: new(3) st1)
    have "set (fe_strong found) \<subseteq> snapshot_live trace s"
      using live edges(2) by (auto simp: snapshot_live_def intro: live_strong)
    then have "bs_set (mk_marked st2) \<union> set (mk_pending st2) \<subseteq> snapshot_live trace s"
      using inv live pending(1) by (auto simp: mark_inv_def marked new(4) st1)
    moreover have mono: "bs_set (mk_marked st) \<union> set (mk_pending st) \<union> set (fe_strong found)
        \<subseteq> bs_set (mk_marked st2) \<union> set (mk_pending st2)"
      using pending(1) by (auto simp: marked new(4) st1)
    moreover have "set (mk_weak st2) = {(i, e, t). i \<in> bs_set (mk_marked st2) \<and> WeakEdge e t \<in> object_edges trace (ts_objects s) i}"
      using inv edges(3) by (auto simp: mark_inv_def marked new(6) st1)
    moreover have "set (mk_ephemerons st2) =
        {(i, e, k, v). i \<in> bs_set (mk_marked st2) \<and> EphemeronEdge e k v \<in> object_edges trace (ts_objects s) i}"
      using inv edges(4) by (auto simp: mark_inv_def marked new(5) st1)
    moreover have "\<forall>j \<in> bs_set (mk_marked st2). \<forall>e t. StrongEdge e t \<in> object_edges trace (ts_objects s) j \<longrightarrow>
        t \<in> bs_set (mk_marked st2) \<union> set (mk_pending st2)"
    proof (intro ballI allI impI)
      fix j e t
      assume j: "j \<in> bs_set (mk_marked st2)" and edge: "StrongEdge e t \<in> object_edges trace (ts_objects s) j"
      show "t \<in> bs_set (mk_marked st2) \<union> set (mk_pending st2)"
      proof (cases "j = i")
        case True
        then have "t \<in> set (fe_strong found)" using edge edges(2) by blast
        then show ?thesis using mono by blast
      next
        case False
        then have "t \<in> bs_set (mk_marked st) \<union> set (mk_pending st)"
          using inv j edge unfolding mark_inv_def marked by blast
        then show ?thesis using mono by blast
      qed
    qed
    ultimately have "mark_inv trace limits s st2"
      using inv edges(1) new(7,8) mono unfolding mark_inv_def by (auto simp: marked)
    moreover have "card (set (bm_keys (ts_objects s)) - bs_set (mk_marked st2)) < card (set (bm_keys (ts_objects s)) - bs_set (mk_marked st))"
      using edges(1) new(1) by (intro psubset_card_mono) (auto simp: marked st1)
    ultimately show ?thesis using mono by (auto simp: marked)
  qed
qed

section \<open>The loops\<close>

lemma mark_loop:
  assumes inv: "mark_inv trace limits s st"
  shows "\<exists>r. while_let pop_object (mark_object trace limits s) st = Some r \<and>
    (\<forall>st'. r = Ok st' \<longrightarrow> mark_inv trace limits s st' \<and> mk_pending st' = [] \<and>
       bs_set (mk_marked st) \<union> set (mk_pending st) \<subseteq> bs_set (mk_marked st')) \<and> (\<forall>p. r \<noteq> Panic p)"
proof -
  let ?I = "\<lambda>st'. mark_inv trace limits s st' \<and>
    bs_set (mk_marked st) \<union> set (mk_pending st) \<subseteq> bs_set (mk_marked st') \<union> set (mk_pending st')"
  let ?R = "measures [\<lambda>st. card (set (bm_keys (ts_objects s)) - bs_set (mk_marked st)), \<lambda>st. length (mk_pending st)]"
  have step: "?I s2 \<and> (s2, s0) \<in> ?R"
    if "?I s0" "pop_object s0 = Some (p, s1)" "mark_object trace limits s p s1 = Ok s2" for s0 p s1 s2
    using mark_object_inv[OF conjunct1[OF that(1)] that(2,3)] that(1) by blast
  have I0: "?I st" using inv by simp
  have "\<exists>r. while_let pop_object (mark_object trace limits s) st = Some r"
  proof (rule while_let_returns[where R = ?R and I = ?I])
    show "wf ?R" by simp
    show "?I st" by (rule I0)
  qed (rule step)
  then obtain r where r: "while_let pop_object (mark_object trace limits s) st = Some r" by blast
  have no_panic: "mark_object trace limits s p s1 \<noteq> Panic q" for p s1 q
    by (auto simp: mark_object_def visit_edges_def outcome_simps Let_def map_err_iff)
  have "(\<exists>st'. r = Ok st' \<and> ?I st' \<and> pop_object st' = None) \<or>
      ((\<forall>st'. r \<noteq> Ok st') \<and> (\<exists>s0 p s1. ?I s0 \<and> pop_object s0 = Some (p, s1) \<and> mark_object trace limits s p s1 = r))"
    by (rule while_let_result[where I = ?I, OF r I0]) (use step in blast)
  then show ?thesis using r no_panic by (fastforce simp: pop_object_def split: if_splits)
qed

lemma scan_step_Ok:
  "scan_ephemeron limits epoch (i, e, k, v) (st, changed) = Ok (st', changed') \<longleftrightarrow>
     saturating_add (mk_work st) 1 \<le> cl_work limits \<and>
     (if k \<in> bs_set (mk_marked st) \<and> v \<notin> bs_set (mk_marked st)
      then st' = st\<lparr>mk_work := saturating_add (mk_work st) 1, mk_pending := mk_pending st @ [v]\<rparr> \<and> changed'
      else st' = st\<lparr>mk_work := saturating_add (mk_work st) 1\<rparr> \<and> changed' = changed)"
  by (auto simp: scan_ephemeron_def outcome_simps Let_def)

text \<open>A scan pushes exactly the values that are due.\<close>

lemma scan_loop:
  assumes "for_each (scan_ephemeron limits epoch) table (st, changed) = Ok (st', changed')" "mk_work st \<le> cl_work limits"
  shows "mk_marked st' = mk_marked st \<and> mk_weak st' = mk_weak st \<and> mk_ephemerons st' = mk_ephemerons st \<and>
    mk_edges st' = mk_edges st \<and> mk_work st' \<le> cl_work limits \<and>
    set (mk_pending st') = set (mk_pending st) \<union>
      {v. \<exists>i e k. (i, e, k, v) \<in> set table \<and> k \<in> bs_set (mk_marked st) \<and> v \<notin> bs_set (mk_marked st)} \<and>
    changed' = (changed \<or> (\<exists>(i, e, k, v) \<in> set table. k \<in> bs_set (mk_marked st) \<and> v \<notin> bs_set (mk_marked st)))"
  using assms
proof (induction table arbitrary: st changed)
  case (Cons entry table)
  obtain i e k v where entry: "entry = (i, e, k, v)" by (cases entry)
  from Cons.prems(1) obtain st1 changed1 where step: "scan_ephemeron limits epoch (i, e, k, v) (st, changed) = Ok (st1, changed1)"
    and rest: "for_each (scan_ephemeron limits epoch) table (st1, changed1) = Ok (st', changed')"
    by (auto simp: entry outcome_simps)
  have st1: "mk_marked st1 = mk_marked st" "mk_weak st1 = mk_weak st" "mk_ephemerons st1 = mk_ephemerons st"
    "mk_edges st1 = mk_edges st" "mk_work st1 \<le> cl_work limits"
    "set (mk_pending st1) = set (mk_pending st) \<union> (if k \<in> bs_set (mk_marked st) \<and> v \<notin> bs_set (mk_marked st) then {v} else {})"
    "changed1 = (changed \<or> k \<in> bs_set (mk_marked st) \<and> v \<notin> bs_set (mk_marked st))"
    using step Cons.prems(2) by (auto simp: scan_step_Ok split: if_splits)
  from Cons.IH[OF rest st1(5)] show ?case unfolding st1 entry by auto
qed simp

lemma scan_no_panic: "for_each (scan_ephemeron limits epoch) table p \<noteq> Panic q"
proof (induction table arbitrary: p)
  case (Cons entry table)
  have "scan_ephemeron limits epoch entry p \<noteq> Panic q"
    by (cases entry; cases p) (auto simp: scan_ephemeron_def outcome_simps Let_def)
  with Cons show ?case by (auto simp: outcome_simps)
qed simp

lemma scan_inv:
  assumes inv: "mark_inv trace limits s st"
    and scan: "for_each (scan_ephemeron limits epoch) (mk_ephemerons st) (st, False) = Ok (st', changed)"
  shows "mark_inv trace limits s st'"
proof -
  have work: "mk_work st \<le> cl_work limits" using inv by (simp add: mark_inv_def)
  note loop = scan_loop[OF scan work]
  have "v \<in> snapshot_live trace s" if "(i, e, k, v) \<in> set (mk_ephemerons st)" "k \<in> bs_set (mk_marked st)" for i e k v
  proof -
    have "i \<in> bs_set (mk_marked st)" "EphemeronEdge e k v \<in> object_edges trace (ts_objects s) i"
      using that inv by (auto simp: mark_inv_def)
    moreover have "bs_set (mk_marked st) \<subseteq> snapshot_live trace s" using inv by (simp add: mark_inv_def)
    ultimately show ?thesis using that(2) unfolding snapshot_live_def by (blast intro: live_ephemeron)
  qed
  then have "set (mk_pending st) \<subseteq> set (mk_pending st')" "set (mk_pending st') \<subseteq> set (mk_pending st) \<union> snapshot_live trace s"
    using loop by auto
  moreover have same: "mk_marked st' = mk_marked st" "mk_weak st' = mk_weak st" "mk_ephemerons st' = mk_ephemerons st"
    "mk_edges st' = mk_edges st" "mk_work st' \<le> cl_work limits" using loop by auto
  ultimately show ?thesis using inv unfolding mark_inv_def same by (intro conjI) blast+
qed

text \<open>With an empty stack and no value due, the marked objects are the live ones.\<close>

lemma marked_live:
  assumes "mark_inv trace limits s st" "mk_pending st = []"
    and "\<forall>(i, e, k, v) \<in> set (mk_ephemerons st). k \<in> bs_set (mk_marked st) \<longrightarrow> v \<in> bs_set (mk_marked st)"
  shows "bs_set (mk_marked st) = snapshot_live trace s"
proof
  show "bs_set (mk_marked st) \<subseteq> snapshot_live trace s" using assms(1) by (simp add: mark_inv_def)
  show "snapshot_live trace s \<subseteq> bs_set (mk_marked st)"
  proof
    fix i
    assume "i \<in> snapshot_live trace s"
    then show "i \<in> bs_set (mk_marked st)"
      unfolding snapshot_live_def
    proof induction
      case (live_root i)
      then show ?case using assms(1,2) by (auto simp: mark_inv_def)
    next
      case (live_strong i e t)
      then show ?case using assms(1,2) unfolding mark_inv_def by fastforce
    next
      case (live_ephemeron i e k v)
      then have "(i, e, k, v) \<in> set (mk_ephemerons st)" using assms(1) by (simp add: mark_inv_def)
      then show ?case using live_ephemeron assms(3) by blast
    qed
  qed
qed

lemma ephemeron_loop_exact:
  assumes "mark_inv trace limits s st" "mk_pending st = []"
  shows "\<exists>r. ephemeron_loop trace limits s st = Some r \<and> (\<forall>p. r \<noteq> Panic p) \<and>
    (\<forall>st'. r = Ok st' \<longrightarrow> mark_inv trace limits s st' \<and> bs_set (mk_marked st') = snapshot_live trace s)"
  using assms
proof (induction "card (set (bm_keys (ts_objects s)) - bs_set (mk_marked st))" arbitrary: st rule: less_induct)
  case less
  let ?scan = "for_each (scan_ephemeron limits (ts_mutation_epoch s)) (mk_ephemerons st) (st, False)"
  show ?case
  proof (cases ?scan)
    case (Err e)
    then show ?thesis by (subst ephemeron_loop.simps) simp
  next
    case (Panic p)
    then show ?thesis using scan_no_panic by fastforce
  next
    case (Ok res)
    then obtain st1 changed where scan: "?scan = Ok (st1, changed)" by (cases res) auto
    have work: "mk_work st \<le> cl_work limits" using less.prems(1) by (simp add: mark_inv_def)
    note loop = scan_loop[OF scan work]
    note inv1 = scan_inv[OF less.prems(1) scan]
    show ?thesis
    proof (cases changed)
      case False
      have "bs_set (mk_marked st1) = snapshot_live trace s"
      proof (intro marked_live[OF inv1])
        have none: "\<not> (\<exists>(i, e, k, v) \<in> set (mk_ephemerons st). k \<in> bs_set (mk_marked st) \<and> v \<notin> bs_set (mk_marked st))"
          using loop False by blast
        then have "set (mk_pending st1) = {}" using loop less.prems(2) by auto
        then show "mk_pending st1 = []" by simp
        show "\<forall>(i, e, k, v) \<in> set (mk_ephemerons st1). k \<in> bs_set (mk_marked st1) \<longrightarrow> v \<in> bs_set (mk_marked st1)"
          using none loop by auto
      qed
      then show ?thesis using scan False inv1 by (subst ephemeron_loop.simps) simp
    next
      case True
      from mark_loop[OF inv1] obtain r where r: "while_let pop_object (mark_object trace limits s) st1 = Some r"
        "\<And>st'. r = Ok st' \<Longrightarrow> mark_inv trace limits s st' \<and> mk_pending st' = [] \<and>
           bs_set (mk_marked st1) \<union> set (mk_pending st1) \<subseteq> bs_set (mk_marked st')" "\<And>p. r \<noteq> Panic p" by blast
      show ?thesis
      proof (cases r)
        case (Ok st2)
        note st2 = r(2)[OF this]
        from True loop obtain i e k v where v: "(i, e, k, v) \<in> set (mk_ephemerons st)" "k \<in> bs_set (mk_marked st)"
          "v \<notin> bs_set (mk_marked st)" by auto
        then have "v \<in> set (mk_pending st1)" using loop by auto
        then have v2: "v \<in> bs_set (mk_marked st2)" using st2 by blast
        moreover have "bs_set (mk_marked st) \<subseteq> bs_set (mk_marked st2)" using st2 loop by auto
        moreover have "bs_set (mk_marked st2) \<subseteq> set (bm_keys (ts_objects s))" using st2 by (simp add: mark_inv_def)
        ultimately have "card (set (bm_keys (ts_objects s)) - bs_set (mk_marked st2)) <
            card (set (bm_keys (ts_objects s)) - bs_set (mk_marked st))"
          using v(3) by (intro psubset_card_mono) auto
        from less.hyps[OF this] st2 show ?thesis
          using scan True r(1) Ok by (subst ephemeron_loop.simps) (simp add: mark_object_again_eq)
      qed (use scan True r in \<open>subst ephemeron_loop.simps; simp add: mark_object_again_eq\<close>)+
    qed
  qed
qed

section \<open>Plans\<close>

definition plan_ok :: "('t \<Rightarrow> edge_snapshot list) \<Rightarrow> collection_limits \<Rightarrow> 't trace_snapshot \<Rightarrow> collection_plan \<Rightarrow> bool" where
  "plan_ok trace limits s plan \<longleftrightarrow>
     pl_epoch plan = ts_mutation_epoch s \<and> pl_all plan = bm_keys (ts_objects s) \<and>
     bs_set (pl_marked plan) = snapshot_live trace s \<and> snapshot_live trace s \<subseteq> set (bm_keys (ts_objects s)) \<and>
     set (pl_weak plan) = {(i, e, t). i \<in> snapshot_live trace s \<and> WeakEdge e t \<in> object_edges trace (ts_objects s) i \<and>
       t \<notin> snapshot_live trace s} \<and>
     set (pl_ephemerons plan) = {(i, e, k, v). i \<in> snapshot_live trace s \<and>
       EphemeronEdge e k v \<in> object_edges trace (ts_objects s) i \<and> k \<notin> snapshot_live trace s} \<and>
     bm_len (ts_objects s) \<le> cl_objects limits \<and> pl_edges plan \<le> cl_edges limits \<and> pl_work plan \<le> cl_work limits \<and>
     saturating_add (length (pl_weak plan)) (length (pl_ephemerons plan)) \<le> cl_clears limits"

lemma finish_plan_ok:
  assumes "finish_plan limits s st = Ok plan" "mark_inv trace limits s st" "bs_set (mk_marked st) = snapshot_live trace s"
    and "bm_len (ts_objects s) \<le> cl_objects limits"
  shows "plan_ok trace limits s plan"
  using assms by (auto simp: finish_plan_def outcome_simps Let_def plan_ok_def mark_inv_def)

lemma plan_exact:
  "\<exists>r. plan_collection trace limits s = Some r \<and> (\<forall>p. r \<noteq> Panic p) \<and> (\<forall>plan. r = Ok plan \<longrightarrow> plan_ok trace limits s plan)"
proof (cases "start_plan limits s")
  case (Ok st)
  note start = start_plan_inv[OF Ok]
  have finish: "finish_plan limits s st' \<noteq> Panic p" for st' p
    by (auto simp: finish_plan_def outcome_simps Let_def)
  from mark_loop[OF start(1)] obtain r where r: "while_let pop_object (mark_object trace limits s) st = Some r"
    "\<And>st'. r = Ok st' \<Longrightarrow> mark_inv trace limits s st' \<and> mk_pending st' = []" "\<And>p. r \<noteq> Panic p" by blast
  show ?thesis
  proof (cases r)
    case (Ok st1)
    with ephemeron_loop_exact[of trace limits s st1] r(2) obtain r2 where r2: "ephemeron_loop trace limits s st1 = Some r2"
      "\<And>p. r2 \<noteq> Panic p"
      "\<And>st'. r2 = Ok st' \<Longrightarrow> mark_inv trace limits s st' \<and> bs_set (mk_marked st') = snapshot_live trace s" by blast
    have "plan_collection trace limits s = Some (bind_outcome r2 (finish_plan limits s))"
      using Ok r(1) r2(1) \<open>start_plan limits s = Ok st\<close> by (simp add: plan_collection_def mark_plan_def)
    moreover have "bind_outcome r2 (finish_plan limits s) \<noteq> Panic p" for p
      using r2(2) finish by (auto simp: outcome_simps)
    moreover have "plan_ok trace limits s plan" if "bind_outcome r2 (finish_plan limits s) = Ok plan" for plan
      using that r2(3) finish_plan_ok start(2) by (auto simp: outcome_simps)
    ultimately show ?thesis by blast
  qed (use \<open>start_plan limits s = Ok st\<close> r in \<open>auto simp: plan_collection_def mark_plan_def\<close>)
next
  case (Panic p)
  then show ?thesis by (auto simp: start_plan_def outcome_simps Let_def)
qed (simp add: plan_collection_def)

section \<open>Finalization records\<close>

lemma set_registry_ready:
  "set (registry_ready swept r) =
     {f. bm_get (fr_entries r) (fz_registration f) = Some (fz_target f, Registered) \<and> fz_target f \<in> bs_set swept}"
proof (rule set_eqI)
  fix f
  have "f \<in> set (registry_ready swept r) \<longleftrightarrow>
      (\<exists>k t. bm_get (fr_entries r) k = Some (t, Registered) \<and> t \<in> bs_set swept \<and> f = \<lparr>fz_registration = k, fz_target = t\<rparr>)"
    by (auto simp: registry_ready_def set_map_filter bm_entries_iff Bex_def split: if_splits)
  then show "f \<in> set (registry_ready swept r) \<longleftrightarrow>
      f \<in> {f. bm_get (fr_entries r) (fz_registration f) = Some (fz_target f, Registered) \<and> fz_target f \<in> bs_set swept}"
    by (cases f) auto
qed

lemma admit_records_ok:
  assumes "length records \<le> remaining_admission jobs" "jobs_ok jobs"
  shows "\<exists>jobs'. admit_records epoch records jobs = (Ok (), jobs') \<and> jobs_ok jobs' \<and>
    map snd (queue_at Finalization jobs') = map snd (queue_at Finalization jobs) @ records \<and>
    (\<forall>c. c \<noteq> Finalization \<longrightarrow> queue_at c jobs' = queue_at c jobs)"
  using assms
proof (induction records arbitrary: jobs)
  case (Cons entry records)
  then have "\<not> jq_admission jobs \<le> jq_admitted jobs" by (simp add: remaining_admission_def)
  then obtain r jobs1 where step: "enqueue Finalization entry jobs = Ok (r, jobs1)"
    and room: "jq_admission jobs1 = jq_admission jobs" "jq_admitted jobs1 = jq_admitted jobs + 1"
    by (simp add: enqueue_def)
  note ok = enqueue_ok[OF step Cons.prems(2)]
  have "length records \<le> remaining_admission jobs1" using Cons.prems(1) room by (simp add: remaining_admission_def)
  from Cons.IH[OF this] ok obtain jobs' where "admit_records epoch records jobs1 = (Ok (), jobs')" "jobs_ok jobs'"
    "map snd (queue_at Finalization jobs') = map snd (queue_at Finalization jobs1) @ records"
    "\<forall>c. c \<noteq> Finalization \<longrightarrow> queue_at c jobs' = queue_at c jobs1" by blast
  then show ?case using step ok by simp
qed simp

section \<open>Collections\<close>

definition snapshot_of :: "'t managed_arena \<Rightarrow> 't trace_snapshot" where
  "snapshot_of a = \<lparr>ts_roots = bm_values (ma_roots a), ts_kept_alive = kept_at (ma_epoch a) a, ts_objects = ma_objects a,
     ts_mutation_epoch = ma_epoch a\<rparr>"

text \<open>What is live in an arena: its roots and the weak dereferences of its epoch reach it.\<close>

definition arena_live :: "('t \<Rightarrow> edge_snapshot list) \<Rightarrow> 't managed_arena \<Rightarrow> managed_id set" where
  "arena_live trace a = live trace (ma_objects a) (set (bm_values (ma_roots a)) \<union> set (kept_at (ma_epoch a) a))"

lemma snapshot_live_arena [simp]: "snapshot_live trace (snapshot_of a) = arena_live trace a"
  by (simp add: snapshot_live_def snapshot_of_def arena_live_def)

lemma snapshot_of_fields [simp]:
  "ts_objects (snapshot_of a) = ma_objects a" "ts_mutation_epoch (snapshot_of a) = ma_epoch a"
  by (simp_all add: snapshot_of_def)

lemma safepoint_irrelevant [simp]:
  "snapshot_of (a\<lparr>ma_next_safepoint := n\<rparr>) = snapshot_of a" "arena_ok ok (a\<lparr>ma_next_safepoint := n\<rparr>) = arena_ok ok a"
  "kept_at epoch (a\<lparr>ma_next_safepoint := n\<rparr>) = kept_at epoch a" "arena_live trace (a\<lparr>ma_next_safepoint := n\<rparr>) = arena_live trace a"
  by (simp_all add: snapshot_of_def arena_ok_def kept_at_def arena_live_def)

lemma arena_safepoint_eq:
  "arena_safepoint f a =
     (if ma_next_safepoint a < usize_max
      then Ok ((f (snapshot_of a), \<lparr>sr_sequence = ma_next_safepoint a, sr_roots = bm_values (ma_roots a), sr_objects = bm_keys (ma_objects a)\<rparr>),
               a\<lparr>ma_next_safepoint := ma_next_safepoint a + 1\<rparr>)
      else Err IdentityExhausted)"
  by (simp add: arena_safepoint_def checked_add_def snapshot_of_def Let_def)

text \<open>The specification of a successful collection of the arena \<open>a\<close> with the outcome \<open>b\<close>.\<close>

definition collected :: "('t \<Rightarrow> edge_snapshot list) \<Rightarrow> collection_limits \<Rightarrow> 't managed_arena \<Rightarrow> collection_receipt \<Rightarrow> 't managed_arena \<Rightarrow> bool" where
  "collected trace limits a receipt b \<longleftrightarrow>
     set (bm_keys (ma_objects b)) = arena_live trace a \<and> arena_live trace a \<subseteq> set (bm_keys (ma_objects a)) \<and>
     co_marked receipt = sorted_list_of_set (arena_live trace a) \<and>
     co_swept receipt = filter (\<lambda>i. i \<notin> arena_live trace a) (bm_keys (ma_objects a)) \<and>
     (\<forall>i \<in> arena_live trace a. object_edges trace (ma_objects b) i = object_edges trace (ma_objects a) i -
       ({WeakEdge e t | e t. t \<notin> arena_live trace a} \<union> {EphemeronEdge e k v | e k v. k \<notin> arena_live trace a})) \<and>
     set (co_cleared_weak receipt) =
       {(i, e). i \<in> arena_live trace a \<and> (\<exists>t. t \<notin> arena_live trace a \<and> WeakEdge e t \<in> object_edges trace (ma_objects a) i)} \<and>
     set (co_cleared_ephemerons receipt) =
       {(i, e). i \<in> arena_live trace a \<and> (\<exists>k v. k \<notin> arena_live trace a \<and> EphemeronEdge e k v \<in> object_edges trace (ma_objects a) i)} \<and>
     ma_roots b = ma_roots a \<and>
     bm_len (ma_objects a) \<le> cl_objects limits \<and> co_edges receipt \<le> cl_edges limits \<and> co_work receipt \<le> cl_work limits \<and>
     length (co_finalization receipt) \<le> cl_finalizers limits"

lemma kept_live: "i \<in> set (kept_at (ma_epoch a) a) \<Longrightarrow> i \<in> arena_live trace a"
  by (simp add: arena_live_def live_root)

context managed_object
begin

lemma apply_plan_exact:
  assumes ok: "arena_ok ok a" and jobs: "jobs_ok jobs" and plan: "plan_ok trace limits (snapshot_of a) plan"
    and run: "apply_plan clear_weak clear_ephemeron limits plan (a, reg, jobs) = (r, b, reg', jobs')"
  shows "(\<forall>p. r \<noteq> Panic p) \<and> (\<forall>e. r = Err e \<longrightarrow> b = a \<and> reg' = reg \<and> jobs' = jobs) \<and>
    (\<forall>receipt. r = Ok receipt \<longrightarrow> collected trace limits a receipt b \<and> arena_ok ok b \<and>
       co_finalization receipt = registry_ready (bs_from_list (co_swept receipt)) reg \<and>
       reg' = mark_admitted (co_finalization receipt) reg \<and> jobs_ok jobs' \<and>
       map snd (queue_at Finalization jobs') = map snd (queue_at Finalization jobs) @ co_finalization receipt)"
proof -
  let ?L = "arena_live trace a"
  let ?swept = "filter (\<lambda>i. \<not> bs_contains i (pl_marked plan)) (pl_all plan)"
  let ?records = "registry_ready (bs_from_list ?swept) reg"
  let ?apply = "apply_collection_at_epoch clear_weak clear_ephemeron (pl_epoch plan) (pl_weak plan) (pl_ephemerons plan) ?swept a"
  note run = run[unfolded apply_plan_def prod.case Let_def]
  have marked: "bs_set (pl_marked plan) = ?L" and epoch: "pl_epoch plan = ma_epoch a" and all: "pl_all plan = bm_keys (ma_objects a)"
    using plan by (simp_all add: plan_ok_def)
  have swept: "?swept = filter (\<lambda>i. i \<notin> ?L) (bm_keys (ma_objects a))" by (simp add: marked all)
  show ?thesis
  proof (cases "cl_finalizers limits < length ?records \<or> remaining_admission jobs < length ?records")
    case True
    then show ?thesis using run by (auto simp: charge_limit_def split: if_splits)
  next
    case False
    then have charged: "charge_limit (pl_epoch plan) FinalizersLimit (cl_finalizers limits) (length ?records) = Ok ()"
      by (simp add: charge_limit_def)
    from False admit_records_ok[OF _ jobs, of ?records "pl_epoch plan"] obtain jobs1 where
      admit: "admit_records (pl_epoch plan) ?records jobs = (Ok (), jobs1)" "jobs_ok jobs1"
        "map snd (queue_at Finalization jobs1) = map snd (queue_at Finalization jobs) @ ?records" by auto
    have no_panic: "?apply \<noteq> Panic p" for p
    proof -
      have "for_each (check_swept a) ids () \<noteq> Panic q" for ids q
        by (induction ids) (auto simp: check_swept_def outcome_simps)
      then show ?thesis
        by (auto simp: apply_collection_at_epoch_def advance_mutation_epoch_def Let_def outcome_simps split: if_splits)
    qed
    show ?thesis
    proof (cases ?apply)
      case (Ok res)
      then obtain m a' where applied: "?apply = Ok (m, a')" by (cases res) auto
      note effect = collection_applied[OF ok applied]
      have r: "r = Ok \<lparr>co_mutation_epoch = pl_epoch plan, co_marked = bs_elems (pl_marked plan), co_swept = cm_swept m,
            co_edges = pl_edges plan, co_work = pl_work plan, co_cleared_weak = cm_cleared_weak m,
            co_cleared_ephemerons = cm_cleared_ephemerons m, co_finalization = ?records\<rparr>"
        and rest: "b = a'" "reg' = mark_admitted ?records reg" "jobs' = jobs1"
        using run False charged applied admit(1) by (auto simp: map_err_iff)
      have cm_swept: "cm_swept m = ?swept"
        unfolding effect(2) using kept_live[of _ a trace] by (auto simp: marked epoch intro!: filter_cong)
      have weak: "set (pl_weak plan) = {(i, e, t). i \<in> ?L \<and> WeakEdge e t \<in> object_edges trace (ma_objects a) i \<and> t \<notin> ?L}"
        and eph: "set (pl_ephemerons plan) =
          {(i, e, k, v). i \<in> ?L \<and> EphemeronEdge e k v \<in> object_edges trace (ma_objects a) i \<and> k \<notin> ?L}"
        using plan by (simp_all add: plan_ok_def)
      have keys: "set (bm_keys (ma_objects a')) = ?L"
        unfolding effect(4) cm_swept swept using plan by (auto simp: plan_ok_def)
      have edges: "\<forall>i \<in> ?L. object_edges trace (ma_objects a') i = object_edges trace (ma_objects a) i -
          ({WeakEdge e t | e t. t \<notin> ?L} \<union> {EphemeronEdge e k v | e k v. k \<notin> ?L})"
        using effect(5) unfolding keys weak eph by auto
      have cleared: "set (cm_cleared_weak m) = {(i, e). i \<in> ?L \<and> (\<exists>t. t \<notin> ?L \<and> WeakEdge e t \<in> object_edges trace (ma_objects a) i)}"
        unfolding effect(6) weak by auto
      have cleared_eph: "set (cm_cleared_ephemerons m) =
          {(i, e). i \<in> ?L \<and> (\<exists>k v. k \<notin> ?L \<and> EphemeronEdge e k v \<in> object_edges trace (ma_objects a) i)}"
        unfolding effect(7) eph by auto
      have bounds: "?L \<subseteq> set (bm_keys (ma_objects a))" "bm_len (ma_objects a) \<le> cl_objects limits"
          "pl_edges plan \<le> cl_edges limits" "pl_work plan \<le> cl_work limits" "length ?records \<le> cl_finalizers limits"
          "bs_elems (pl_marked plan) = sorted_list_of_set ?L"
        using plan False bs_elems_from_set[OF marked] by (simp_all add: plan_ok_def)
      have "collected trace limits a receipt a'" if "r = Ok receipt" for receipt
        using that unfolding r outcome.inject collected_def
        by (elim subst, unfold collection_receipt.select_convs)
          (intro conjI keys bounds edges cleared cleared_eph effect(11) cm_swept[unfolded swept])
      then show ?thesis using effect(8) admit rest by (simp add: r cm_swept)
    next
      case (Err e)
      then show ?thesis using run False charged by auto
    next
      case (Panic p)
      then show ?thesis using no_panic by blast
    qed
  qed
qed

lemma collection_exact:
  assumes "arena_ok ok a" "jobs_ok jobs"
  shows "\<exists>r b reg' jobs'. collect_with_finalization trace clear_weak clear_ephemeron limits (a, reg, jobs) = Some (r, b, reg', jobs') \<and>
    (\<forall>p. r \<noteq> Panic p) \<and>
    (\<forall>e. r = Err e \<longrightarrow> reg' = reg \<and> jobs' = jobs \<and> (b = a \<or> b = a\<lparr>ma_next_safepoint := ma_next_safepoint a + 1\<rparr>)) \<and>
    (\<forall>receipt. r = Ok receipt \<longrightarrow> collected trace limits a receipt b \<and> arena_ok ok b \<and>
       co_finalization receipt = registry_ready (bs_from_list (co_swept receipt)) reg \<and>
       reg' = mark_admitted (co_finalization receipt) reg \<and> jobs_ok jobs' \<and>
       map snd (queue_at Finalization jobs') = map snd (queue_at Finalization jobs) @ co_finalization receipt)"
proof (cases "ma_next_safepoint a < usize_max")
  case False
  then show ?thesis by (simp add: collect_with_finalization_def arena_safepoint_eq)
next
  case True
  let ?a = "a\<lparr>ma_next_safepoint := ma_next_safepoint a + 1\<rparr>"
  from plan_exact[of trace limits "snapshot_of a"] obtain p where p: "plan_collection trace limits (snapshot_of a) = Some p"
    "\<And>q. p \<noteq> Panic q" "\<And>plan. p = Ok plan \<Longrightarrow> plan_ok trace limits (snapshot_of a) plan" by blast
  show ?thesis
  proof (cases p)
    case (Ok plan)
    obtain r b reg' jobs' where run: "apply_plan clear_weak clear_ephemeron limits plan (?a, reg, jobs) = (r, b, reg', jobs')"
      by (metis prod_cases4)
    have "plan_ok trace limits (snapshot_of ?a) plan" using p(3) Ok by simp
    from apply_plan_exact[OF _ assms(2) this run] assms(1)
    have "(\<forall>p. r \<noteq> Panic p) \<and> (\<forall>e. r = Err e \<longrightarrow> b = ?a \<and> reg' = reg \<and> jobs' = jobs) \<and>
      (\<forall>receipt. r = Ok receipt \<longrightarrow> collected trace limits ?a receipt b \<and> arena_ok ok b \<and>
       co_finalization receipt = registry_ready (bs_from_list (co_swept receipt)) reg \<and>
       reg' = mark_admitted (co_finalization receipt) reg \<and> jobs_ok jobs' \<and>
       map snd (queue_at Finalization jobs') = map snd (queue_at Finalization jobs) @ co_finalization receipt)" by simp
    moreover have "collected trace limits ?a receipt b = collected trace limits a receipt b" for receipt
      by (simp add: collected_def)
    ultimately show ?thesis
      using run True p(1) Ok by (simp add: collect_with_finalization_def arena_safepoint_eq)
  qed (use True p in \<open>auto simp: collect_with_finalization_def arena_safepoint_eq\<close>)
qed

lemma collection_result:
  assumes "arena_ok ok a" "jobs_ok jobs"
    and "collect_with_finalization trace clear_weak clear_ephemeron limits (a, reg, jobs) = Some (r, b, reg', jobs')"
  shows "r = Err e \<Longrightarrow> reg' = reg \<and> jobs' = jobs \<and> (b = a \<or> b = a\<lparr>ma_next_safepoint := ma_next_safepoint a + 1\<rparr>)"
    and "r = Ok receipt \<Longrightarrow> collected trace limits a receipt b \<and> arena_ok ok b \<and>
       co_finalization receipt = registry_ready (bs_from_list (co_swept receipt)) reg \<and>
       reg' = mark_admitted (co_finalization receipt) reg \<and> jobs_ok jobs' \<and>
       map snd (queue_at Finalization jobs') = map snd (queue_at Finalization jobs) @ co_finalization receipt"
  using collection_exact[OF assms(1,2), of limits reg] assms(3) by (auto simp del: One_nat_def)

end

text \<open>After a collection every edge of an object leads to an object that is still there.\<close>

lemma collected_closed:
  assumes "collected trace limits a receipt b" "i \<in> set (bm_keys (ma_objects b))"
  shows "StrongEdge e t \<in> object_edges trace (ma_objects b) i \<Longrightarrow> t \<in> set (bm_keys (ma_objects b))"
    and "WeakEdge e t \<in> object_edges trace (ma_objects b) i \<Longrightarrow> t \<in> set (bm_keys (ma_objects b))"
    and "EphemeronEdge e k v \<in> object_edges trace (ma_objects b) i \<Longrightarrow> k \<in> set (bm_keys (ma_objects b)) \<and> v \<in> set (bm_keys (ma_objects b))"
proof -
  have L: "set (bm_keys (ma_objects b)) = arena_live trace a" using assms(1) by (simp add: collected_def)
  then have edges: "object_edges trace (ma_objects b) i = object_edges trace (ma_objects a) i -
       ({WeakEdge e t | e t. t \<notin> arena_live trace a} \<union> {EphemeronEdge e k v | e k v. k \<notin> arena_live trace a})"
    using assms by (simp add: collected_def)
  show "StrongEdge e t \<in> object_edges trace (ma_objects b) i \<Longrightarrow> t \<in> set (bm_keys (ma_objects b))"
    using assms(2) unfolding L edges arena_live_def by (blast intro: live_strong)
  show "WeakEdge e t \<in> object_edges trace (ma_objects b) i \<Longrightarrow> t \<in> set (bm_keys (ma_objects b))"
    unfolding L edges by blast
  show "EphemeronEdge e k v \<in> object_edges trace (ma_objects b) i \<Longrightarrow> k \<in> set (bm_keys (ma_objects b)) \<and> v \<in> set (bm_keys (ma_objects b))"
    using assms(2) unfolding L edges arena_live_def by (blast intro: live_ephemeron)
qed

section \<open>Registrations\<close>

text \<open>
  The ordinals of the registrations are below the counter, and fresh as long as it has not reached its
  end, where it saturates. \<open>registry_step\<close> is any call that changes the registry: a registration, a
  cancellation, or the admission of what a collection finds ready.
\<close>

definition registry_ok :: "finalization_registry \<Rightarrow> bool" where
  "registry_ok r \<longleftrightarrow> (\<forall>k \<in> set (bm_keys (fr_entries r)). k < fr_next r)"

inductive registry_step :: "finalization_registry \<Rightarrow> finalization_registry \<Rightarrow> bool" where
  register: "registry_register target r = (k, r') \<Longrightarrow> registry_step r r'"
| cancel: "registry_cancel k r = (c, r') \<Longrightarrow> registry_step r r'"
| admit: "registry_step r (mark_admitted (registry_ready swept r) r)"

lemma mark_admitted_Cons:
  "mark_admitted (f # records) r = mark_admitted records
     (case bm_get (fr_entries r) (fz_registration f) of
        Some (target, _) \<Rightarrow> r\<lparr>fr_entries := bm_insert (fz_registration f) (target, Admitted) (fr_entries r)\<rparr> | None \<Rightarrow> r)"
  by (simp add: mark_admitted_def)

lemma mark_admitted_next [simp]: "fr_next (mark_admitted records r) = fr_next r"
  by (induction records arbitrary: r) (simp_all add: mark_admitted_Cons mark_admitted_def[of "[]"] split: option.split)

lemma mark_admitted_get:
  "bm_get (fr_entries (mark_admitted records r)) k =
     (case bm_get (fr_entries r) k of Some (t, st) \<Rightarrow> Some (t, if \<exists>f \<in> set records. fz_registration f = k then Admitted else st) | None \<Rightarrow> None)"
proof (induction records arbitrary: r)
  case (Cons f records)
  show ?case unfolding mark_admitted_Cons Cons.IH by (auto split: option.splits)
qed (simp add: mark_admitted_def split: option.split)

lemma mark_admitted_keys [simp]: "set (bm_keys (fr_entries (mark_admitted records r))) = set (bm_keys (fr_entries r))"
  by (auto simp: in_bm_keys_iff mark_admitted_get split: option.splits)

lemma registry_step_admitted:
  assumes "registry_step r r'" "registry_ok r" "fr_next r' < usize_max"
  shows "registry_ok r' \<and> (bm_get (fr_entries r) k = Some (t, Admitted) \<longrightarrow> bm_get (fr_entries r') k = Some (t, Admitted))"
  using assms
proof cases
  case (register target j)
  then have "fr_next r' = fr_next r + 1" "fr_entries r' = bm_insert (fr_next r) (target, Registered) (fr_entries r)"
    using assms(3) by (auto simp: registry_register_def saturating_add_def min_def split: if_splits)
  moreover have "bm_get (fr_entries r) (fr_next r) = None"
    using assms(2) by (cases "bm_get (fr_entries r) (fr_next r)") (auto simp: registry_ok_def in_bm_keys_iff)
  ultimately show ?thesis using assms(2) by (auto simp: registry_ok_def intro: less_SucI)
next
  case (cancel j c)
  then show ?thesis using assms(2)
    by (auto simp: registry_cancel_def registry_ok_def in_bm_keys_iff split: option.splits if_splits)
next
  case (admit swept)
  then show ?thesis using assms(2) by (auto simp: registry_ok_def mark_admitted_get)
qed

lemma registry_step_next: "registry_step r r' \<Longrightarrow> fr_next r' < usize_max \<Longrightarrow> fr_next r < usize_max"
  by (cases rule: registry_step.cases, assumption)
    (auto simp: registry_register_def registry_cancel_def saturating_add_def split: option.splits if_splits)

lemma registry_steps_admitted:
  assumes "registry_step\<^sup>*\<^sup>* r r'" "registry_ok r" "fr_next r' < usize_max" "bm_get (fr_entries r) k = Some (t, Admitted)"
  shows "registry_ok r' \<and> bm_get (fr_entries r') k = Some (t, Admitted)"
  using assms
proof (induction rule: rtranclp_induct)
  case (step y z)
  then have "registry_ok y \<and> bm_get (fr_entries y) k = Some (t, Admitted)" using registry_step_next by blast
  with step.hyps(2) step.prems(2) show ?case using registry_step_admitted by blast
qed simp

lemma registry_ready_sorted: "sorted_wrt (<) (map fz_registration (registry_ready swept r))"
proof -
  have "map fz_registration (List.map_filter (\<lambda>(k, (t, st)). if P t st then Some \<lparr>fz_registration = k, fz_target = t\<rparr> else None) xs) =
      map fst (filter (\<lambda>(k, (t, st)). P t st) xs)" for P and xs :: "(u64 \<times> managed_id \<times> registration_state) list"
    by (induction xs) (auto simp: List.map_filter_simps)
  then show ?thesis unfolding registry_ready_def
    using al_sorted_filter[OF bm_entries_sorted[of "fr_entries r"]] by (simp add: al_sorted_def)
qed

end
