(* ===== verification/Collector_Runs.thy ===== *)
theory Collector_Runs
  imports Collector_Correct
begin

text \<open>
  What the tracing collector guarantees for heaps of checked nodes: the laws of
  \<open>Collector_Correct\<close> on the interpretation of \<open>managed_object\<close> by \<open>ManagedNode\<close>.
\<close>

text \<open>The collector on nodes.\<close>

abbreviation collect_nodes :: "collection_limits \<Rightarrow> 'r managed_node collection_world
    \<Rightarrow> ((collection_error, collection_receipt) outcome \<times> 'r managed_node collection_world) option" where
  "collect_nodes \<equiv> collect_with_finalization node_trace_edges node_clear_weak_edge node_clear_ephemeron_edge"

abbreviation live_nodes :: "'r managed_node managed_arena \<Rightarrow> managed_id set" where
  "live_nodes \<equiv> arena_live node_trace_edges"

abbreviation node_edges :: "'r managed_node managed_arena \<Rightarrow> managed_id \<Rightarrow> edge_snapshot set" where
  "node_edges a \<equiv> object_edges node_trace_edges (ma_objects a)"

section \<open>A heap to collect\<close>

definition ok_or_else :: "'a \<Rightarrow> ('e, 'b \<times> 'a) outcome \<Rightarrow> 'a" where
  "ok_or_else d m = (case m of Ok (_, x) \<Rightarrow> x | _ \<Rightarrow> d)"

text \<open>Object 0 is rooted; it holds 1 strongly and 3 weakly, and an ephemeron from 1 to 2. The objects 3
  and 4 form a cycle that nothing else reaches.\<close>

definition demo_heap :: "unit managed_node managed_arena" where
  "demo_heap =
     (let n = node_new ();
          n0 = ok_or_else n (insert_ephemeron (1, 2) (ok_or_else n (insert_weak 3 (ok_or_else n (insert_strong 1 n)))));
          n3 = ok_or_else n (insert_strong 4 n); n4 = ok_or_else n (insert_strong 3 n) in
      ok_or_else (arena_new 8) (arena_root 0
        (fold (\<lambda>x a. ok_or_else a (arena_allocate x a)) [n0, n, n, n3, n4] (arena_new 8))))"

definition demo_limits :: collection_limits where
  "demo_limits = \<lparr>cl_objects = 8, cl_edges = 8, cl_stack = 4, cl_work = 32, cl_clears = 4, cl_finalizers = 4\<rparr>"

definition demo_registry :: finalization_registry where
  "demo_registry = snd (registry_register 4 (snd (registry_register 1 registry_default)))"

definition demo_world :: "unit managed_node collection_world" where
  "demo_world = (demo_heap, demo_registry, job_queues_new 4)"

lemma ok_or_else_keeps:
  assumes "P d" "\<And>r x. m = Ok (r, x) \<Longrightarrow> P x"
  shows "P (ok_or_else d m)"
  using assms by (cases m) (auto simp: ok_or_else_def)

lemma allocation_ok:
  assumes "arena_ok node_ok a" "node_ok x"
  shows "arena_ok node_ok (ok_or_else a (arena_allocate x a))"
proof (rule ok_or_else_keeps[where P = "arena_ok node_ok", OF assms(1)])
  fix i b
  assume "arena_allocate x a = Ok (i, b)"
  from node_object.arena_step_ok[OF arena_step.allocate[where ok = node_ok, OF assms(2) this] assms(1)] show "arena_ok node_ok b" by blast
qed

lemma root_ok:
  assumes "arena_ok node_ok a" "arena_ok node_ok d"
  shows "arena_ok node_ok (ok_or_else d (arena_root i a))"
proof (rule ok_or_else_keeps[where P = "arena_ok node_ok", OF assms(2)])
  fix rh b
  assume "arena_root i a = Ok (rh, b)"
  from node_object.arena_step_ok[OF arena_step.root[OF this] assms(1)] show "arena_ok node_ok b" by blast
qed

lemma insertions_ok:
  assumes "node_ok n" "node_ok d"
  shows "node_ok (ok_or_else d (insert_strong t n))" "node_ok (ok_or_else d (insert_weak t n))"
    "node_ok (ok_or_else d (insert_ephemeron p n))"
  by (rule ok_or_else_keeps[where P = node_ok, OF assms(2)], use insert_keeps_ok[OF assms(1)] in blast)+

lemma demo_heap_ok: "arena_ok node_ok demo_heap"
proof -
  have new: "node_ok (node_new ())" by (simp add: node_new_def node_new_ok)
  show ?thesis unfolding demo_heap_def Let_def fold.simps comp_def id_apply
    by (rule root_ok | rule allocation_ok | rule insertions_ok | rule arena_new_ok | rule new)+
qed

lemma demo_jobs_ok: "jobs_ok (job_queues_new 4)"
  by (rule job_queues_new_ok) (simp add: usize_max_def)

lemma demo_run:
  "\<exists>receipt b reg jobs. collect_nodes demo_limits demo_world = Some (Ok receipt, b, reg, jobs) \<and>
     co_marked receipt = [0, 1, 2] \<and> co_swept receipt = [3, 4] \<and> co_cleared_weak receipt = [(0, 1)] \<and>
     co_finalization receipt = [\<lparr>fz_registration = 1, fz_target = 4\<rparr>]"
proof -
  have "case collect_nodes demo_limits demo_world of
      Some (r, b, reg, jobs) \<Rightarrow> (case r of Ok receipt \<Rightarrow> co_marked receipt = [0, 1, 2] \<and> co_swept receipt = [3, 4] \<and>
        co_cleared_weak receipt = [(0, 1)] \<and> co_finalization receipt = [\<lparr>fz_registration = 1, fz_target = 4\<rparr>] | _ \<Rightarrow> False)
    | None \<Rightarrow> False" by code_simp
  then show ?thesis by (auto split: option.splits outcome.splits)
qed

section \<open>What a collection guarantees\<close>

text \<open>
  C4: a successful collection keeps exactly the live objects: it reports the live ones as marked and
  the others as swept, in allocation order, removes from each live object exactly the weak edges to
  dead targets and the ephemerons with dead keys, and leaves a well-formed arena in which every edge
  leads to an object that is still there.
\<close>

theorem collect_exact:
  assumes "arena_ok node_ok a" "jobs_ok jobs"
    and "collect_with_finalization node_trace_edges node_clear_weak_edge node_clear_ephemeron_edge limits (a, reg, jobs) =
      Some (Ok receipt, b, reg', jobs')"
  shows "set (bm_keys (ma_objects b)) = live_nodes a \<and>
    co_marked receipt = sorted_list_of_set (live_nodes a) \<and>
    co_swept receipt = filter (\<lambda>i. i \<notin> live_nodes a) (bm_keys (ma_objects a)) \<and>
    (\<forall>i \<in> live_nodes a. node_edges b i = node_edges a i -
      ({WeakEdge e t | e t. t \<notin> live_nodes a} \<union> {EphemeronEdge e k v | e k v. k \<notin> live_nodes a})) \<and>
    arena_ok node_ok b \<and>
    (\<forall>i \<in> live_nodes a. \<forall>e t k v.
      (StrongEdge e t \<in> node_edges b i \<or> WeakEdge e t \<in> node_edges b i \<longrightarrow> t \<in> live_nodes a) \<and>
      (EphemeronEdge e k v \<in> node_edges b i \<longrightarrow> k \<in> live_nodes a \<and> v \<in> live_nodes a))"
proof -
  note spec = node_object.collection_result(2)[OF assms refl]
  then have c: "collected node_trace_edges limits a receipt b" and ok: "arena_ok node_ok b" by blast+
  note closed = collected_closed[OF c]
  note c = c[unfolded collected_def]
  note keys = c[THEN conjunct1] and receipt = c[THEN conjunct2, THEN conjunct2, THEN conjunct1]
      c[THEN conjunct2, THEN conjunct2, THEN conjunct2, THEN conjunct1]
    and edges = c[THEN conjunct2, THEN conjunct2, THEN conjunct2, THEN conjunct2, THEN conjunct1]
  have "(StrongEdge e t \<in> node_edges b i \<or> WeakEdge e t \<in> node_edges b i \<longrightarrow> t \<in> live_nodes a) \<and>
      (EphemeronEdge e k v \<in> node_edges b i \<longrightarrow> k \<in> live_nodes a \<and> v \<in> live_nodes a)" if "i \<in> live_nodes a" for i e t k v
    using closed[of i] that unfolding keys by blast
  then show ?thesis by (intro conjI keys receipt edges ok ballI allI) blast+
qed

theorem collect_exact_witness:
  "\<exists>receipt b reg jobs. collect_nodes demo_limits demo_world = Some (Ok receipt, b, reg, jobs) \<and>
     live_nodes demo_heap = {0, 1, 2} \<and> co_swept receipt = [3, 4] \<and> set (bm_keys (ma_objects b)) = {0, 1, 2}"
proof -
  from demo_run obtain receipt b reg jobs where
    run: "collect_nodes demo_limits (demo_heap, demo_registry, job_queues_new 4) = Some (Ok receipt, b, reg, jobs)"
      "co_marked receipt = [0, 1, 2]" "co_swept receipt = [3, 4]" by (auto simp: demo_world_def)
  note exact = collect_exact[OF demo_heap_ok demo_jobs_ok run(1)]
  have "finite (live_nodes demo_heap)" using exact by (metis finite_set)
  then have live: "live_nodes demo_heap = {0, 1, 2}" using exact run(2) by (metis set_sorted_list_of_set list.set(1,2))
  have "set (bm_keys (ma_objects b)) = live_nodes demo_heap" using exact ..
  then show ?thesis unfolding demo_world_def using run(1,3) live by metis
qed

text \<open>
  C11: a collection always returns: neither the mark loop nor the ephemeron loop runs forever, on any
  arena, well formed or not, with any limits.
\<close>

theorem collect_returns:
  "\<exists>r b reg' jobs'. collect_with_finalization trace clear_weak clear_ephemeron limits (a, reg, jobs) = Some (r, b, reg', jobs')"
proof (cases "ma_next_safepoint a < usize_max")
  case True
  from plan_exact[of trace limits "snapshot_of a"] obtain p where "plan_collection trace limits (snapshot_of a) = Some p" by blast
  with True show ?thesis by (simp add: collect_with_finalization_def arena_safepoint_eq) (metis prod_cases4)
qed (simp add: collect_with_finalization_def arena_safepoint_eq)

text \<open>
  C29: a refused collection changes nothing but the safepoint counter: the objects, roots, edges,
  registrations and queues are the ones before it. A collection that succeeds is within its limits.
\<close>

theorem refused_collection_atomic:
  assumes "arena_ok node_ok a" "jobs_ok jobs"
    and "collect_with_finalization node_trace_edges node_clear_weak_edge node_clear_ephemeron_edge limits (a, reg, jobs) =
      Some (r, b, reg', jobs')"
  shows "(\<exists>e. r = Err e \<and> reg' = reg \<and> jobs' = jobs \<and> (b = a \<or> b = a\<lparr>ma_next_safepoint := ma_next_safepoint a + 1\<rparr>)) \<or>
    (\<exists>receipt. r = Ok receipt \<and> bm_len (ma_objects a) \<le> cl_objects limits \<and> co_edges receipt \<le> cl_edges limits \<and>
      co_work receipt \<le> cl_work limits \<and> length (co_finalization receipt) \<le> cl_finalizers limits)"
proof (cases r)
  case (Ok receipt)
  with node_object.collection_result(2)[OF assms] have "collected node_trace_edges limits a receipt b" by blast
  then show ?thesis using Ok unfolding collected_def by blast
next
  case (Err e)
  with node_object.collection_result(1)[OF assms] show ?thesis by blast
next
  case (Panic p)
  with node_object.collection_exact[OF assms(1,2), of limits reg] assms(3) show ?thesis by auto
qed

text \<open>One edge too many: the plan is refused, and the heap is as before.\<close>

definition tight_limits :: collection_limits where
  "tight_limits = demo_limits\<lparr>cl_edges := 2\<rparr>"

theorem refused_collection_atomic_witness:
  "\<exists>e b reg jobs. collect_nodes tight_limits demo_world = Some (Err e, b, reg, jobs) \<and> reg = demo_registry \<and>
     ma_objects b = ma_objects demo_heap \<and> ma_roots b = ma_roots demo_heap"
proof -
  have "case collect_nodes tight_limits demo_world of Some (r, b, reg, jobs) \<Rightarrow> (case r of Err e \<Rightarrow> True | _ \<Rightarrow> False)
    | None \<Rightarrow> False" by code_simp
  then obtain e b reg jobs where run: "collect_nodes tight_limits (demo_heap, demo_registry, job_queues_new 4) = Some (Err e, b, reg, jobs)"
    by (auto simp: demo_world_def split: option.splits outcome.splits)
  from refused_collection_atomic[OF demo_heap_ok demo_jobs_ok run] run show ?thesis by (auto simp: demo_world_def)
qed

text \<open>
  C30: finalization happens exactly for the swept objects, and at most once. A collection admits one job
  for every pending registration of a swept object and for no other, in registration order at the
  end of the finalization queue, and no target is live. As long as the registration counter does not
  reach its end (where it saturates and identities repeat), none of these registrations is ready
  again after any later registrations, cancellations and collections.
\<close>

theorem finalization_once:
  assumes "arena_ok node_ok a" "jobs_ok jobs" "registry_ok reg"
    and "collect_with_finalization node_trace_edges node_clear_weak_edge node_clear_ephemeron_edge limits (a, reg, jobs) =
      Some (Ok receipt, b, reg', jobs')"
  shows "set (co_finalization receipt) = {f. bm_get (fr_entries reg) (fz_registration f) = Some (fz_target f, Registered) \<and>
      fz_target f \<in> set (co_swept receipt)} \<and>
    sorted_wrt (<) (map fz_registration (co_finalization receipt)) \<and>
    fz_target ` set (co_finalization receipt) \<inter> live_nodes a = {} \<and>
    map snd (queue_at Finalization jobs') = map snd (queue_at Finalization jobs) @ co_finalization receipt \<and>
    (registry_step\<^sup>*\<^sup>* reg' reg2 \<longrightarrow> fr_next reg2 < usize_max \<longrightarrow>
       fz_registration ` set (co_finalization receipt) \<inter> fz_registration ` set (registry_ready swept reg2) = {})"
proof -
  note spec = node_object.collection_result(2)[OF assms(1,2,4) refl]
  have ready: "set (co_finalization receipt) = {f. bm_get (fr_entries reg) (fz_registration f) = Some (fz_target f, Registered) \<and>
      fz_target f \<in> set (co_swept receipt)}"
    using spec set_registry_ready[of "bs_from_list (co_swept receipt)" reg] by auto
  have once: "fz_registration f \<notin> fz_registration ` set (registry_ready swept reg2)"
    if f: "f \<in> set (co_finalization receipt)" and later: "registry_step\<^sup>*\<^sup>* reg' reg2" "fr_next reg2 < usize_max" for f
  proof -
    have "registry_ok reg'" using spec assms(3) by (simp add: registry_ok_def)
    moreover have "bm_get (fr_entries reg') (fz_registration f) = Some (fz_target f, Admitted)"
      using spec f ready by (auto simp: mark_admitted_get)
    ultimately have "bm_get (fr_entries reg2) (fz_registration f) = Some (fz_target f, Admitted)"
      using registry_steps_admitted[OF later(1) _ later(2)] by blast
    then show ?thesis by (auto simp: set_registry_ready)
  qed
  moreover have "sorted_wrt (<) (map fz_registration (co_finalization receipt))" using spec registry_ready_sorted by metis
  moreover have "fz_target ` set (co_finalization receipt) \<inter> live_nodes a = {}" using ready spec by (auto simp: collected_def)
  ultimately show ?thesis using ready spec by blast
qed

theorem finalization_once_witness:
  "\<exists>receipt b reg jobs. collect_nodes demo_limits demo_world = Some (Ok receipt, b, reg, jobs) \<and>
     co_finalization receipt = [\<lparr>fz_registration = 1, fz_target = 4\<rparr>] \<and>
     map snd (queue_at Finalization jobs) = [\<lparr>fz_registration = 1, fz_target = 4\<rparr>] \<and>
     1 \<notin> fz_registration ` set (registry_ready (bs_from_list [4]) (snd (registry_cancel 0 reg)))"
proof -
  from demo_run obtain receipt b reg jobs where
    run: "collect_nodes demo_limits (demo_heap, demo_registry, job_queues_new 4) = Some (Ok receipt, b, reg, jobs)"
      "co_finalization receipt = [\<lparr>fz_registration = 1, fz_target = 4\<rparr>]" by (auto simp: demo_world_def)
  have "registry_ok demo_registry"
    by (simp add: registry_ok_def demo_registry_def registry_register_def registry_default_def saturating_add_def usize_max_def)
  moreover have "registry_step\<^sup>*\<^sup>* reg (snd (registry_cancel 0 reg))"
    by (rule r_into_rtranclp) (rule registry_step.cancel[of 0 reg "fst (registry_cancel 0 reg)"], simp)
  moreover have "fr_next (snd (registry_cancel 0 reg)) < usize_max"
  proof -
    have "case collect_nodes demo_limits demo_world of Some (_, _, reg, _) \<Rightarrow> fr_next (snd (registry_cancel 0 reg)) < usize_max | None \<Rightarrow> False"
      by code_simp
    with run(1) show ?thesis by (simp add: demo_world_def)
  qed
  ultimately have once: "map snd (queue_at Finalization jobs) = map snd (queue_at Finalization (job_queues_new 4 :: finalization_jobs)) @ co_finalization receipt \<and>
    (\<forall>swept. 1 \<notin> fz_registration ` set (registry_ready swept (snd (registry_cancel 0 reg))))"
    using finalization_once[OF demo_heap_ok demo_jobs_ok _ run(1)] run(2) by auto
  moreover have "queue_at Finalization (job_queues_new 4 :: finalization_jobs) = []" by (simp add: queue_at_def job_queues_new_def)
  ultimately show ?thesis using run by (auto simp: demo_world_def)
qed

section \<open>Where the code and its documentation differ\<close>

text \<open>
  Refused plans are documented to leave the arena unchanged; the safepoint of a refused plan is
  taken, and the next safepoint receipt shows it.
\<close>

lemma refused_collection_takes_safepoint:
  "\<exists>e b reg jobs. collect_nodes tight_limits demo_world = Some (Err e, b, reg, jobs) \<and>
     ma_next_safepoint demo_heap = 0 \<and> ma_next_safepoint b = 1"
proof -
  have "case collect_nodes tight_limits demo_world of Some (r, b, reg, jobs) \<Rightarrow>
      (case r of Err e \<Rightarrow> ma_next_safepoint demo_heap = 0 \<and> ma_next_safepoint b = 1 | _ \<Rightarrow> False) | None \<Rightarrow> False" by code_simp
  then show ?thesis by (auto split: option.splits outcome.splits)
qed

text \<open>
  The stack limit bounds the pending mark stack, but the ephemeron scan pushes without charging:
  an object with two ephemerons on itself has a pending stack of two under a limit of one, and the
  collection succeeds.
\<close>

definition twin_heap :: "unit managed_node managed_arena" where
  "twin_heap =
     (let n = node_new (); n0 = ok_or_else n (insert_ephemeron (0, 2) (ok_or_else n (insert_ephemeron (0, 1) n))) in
      ok_or_else (arena_new 8) (arena_root 0
        (fold (\<lambda>x a. ok_or_else a (arena_allocate x a)) [n0, n, n] (arena_new 8))))"

definition one_deep :: collection_limits where
  "one_deep = demo_limits\<lparr>cl_stack := 1\<rparr>"

lemma ephemeron_scan_exceeds_stack_limit:
  "(case start_plan one_deep (snapshot_of twin_heap) of
      Ok st \<Rightarrow> (case while_let pop_object (mark_object node_trace_edges one_deep (snapshot_of twin_heap)) st of
        Some (Ok st1) \<Rightarrow> (case for_each (scan_ephemeron one_deep 0) (mk_ephemerons st1) (st1, False) of
            Ok (st2, _) \<Rightarrow> cl_stack one_deep = 1 \<and> length (mk_pending st2) = 2 | _ \<Rightarrow> False)
      | _ \<Rightarrow> False)
    | _ \<Rightarrow> False)"
  "(case collect_nodes one_deep (twin_heap, registry_default, job_queues_new 0) of
      Some (r, _) \<Rightarrow> (case r of Ok receipt \<Rightarrow> co_marked receipt = [0, 1, 2] | _ \<Rightarrow> False) | None \<Rightarrow> False)"
  by code_simp+

text \<open>
  A registration returns a stable identity, but at the end of the counter the identity repeats and
  the earlier registration is lost.
\<close>

lemma registration_identity_repeats:
  assumes "fr_next r = usize_max" "registry_register s r = (k, r1)" "registry_register t r1 = (j, r2)"
  shows "j = k \<and> bm_get (fr_entries r2) k = Some (t, Registered)"
  using assms by (auto simp: registry_register_def saturating_add_def)

end
