(* ===== verification/Pattern_Ir.thy ===== *)
theory Pattern_Ir
  imports Ordered_Map
begin

text \<open>
  The dialect-neutral pattern language of \<open>sim-lib-pattern\<close> (\<open>ir.rs\<close>): repetition bounds,
  pattern expressions, the extension policy of a target engine, and the constructor of a
  validated pattern. A capture identifier may occur once in the whole pattern, an assertion must
  be declared, an extension must be admitted, and assertion references must not form a cycle.
  The lemmas show that the validator accepts exactly these patterns, and that the cycle it
  reports is one.
\<close>

type_synonym capture_id = nat
type_synonym assertion_id = nat

datatype anchor = SubjectStart | SubjectEnd

record repeat_bounds =
  rb_min :: usize
  rb_max :: "usize option"

datatype ir_error =
    InvalidRepeatBounds usize usize
  | DuplicateCapture capture_id
  | MissingAssertion assertion_id
  | AssertionCycle "assertion_id list"
  | UnsupportedExtension string

definition repeat_bounds_new :: "usize \<Rightarrow> usize option \<Rightarrow> (ir_error, repeat_bounds) outcome" where
  "repeat_bounds_new mn mx =
     (case mx of
        Some m \<Rightarrow> if mn > m then Err (InvalidRepeatBounds mn m) else Ok \<lparr>rb_min = mn, rb_max = mx\<rparr>
      | None \<Rightarrow> Ok \<lparr>rb_min = mn, rb_max = mx\<rparr>)"

text \<open>The constructors of \<open>IrNode\<close>; the third argument of \<open>IrRepeat\<close> is the greedy flag.\<close>

datatype ('s, 'e) ir_node =
    IrSymbol 's
  | IrAny
  | IrConcat "('s, 'e) ir_node list"
  | IrAlternation "('s, 'e) ir_node list"
  | IrRepeat "('s, 'e) ir_node" repeat_bounds bool
  | IrGroup "('s, 'e) ir_node"
  | IrCapture capture_id "('s, 'e) ir_node"
  | IrAnchor anchor
  | IrAssertion assertion_id
  | IrExtension 'e

record 'e engine_policy =
  admitted_extensions :: "'e set"

definition engine_policy_new :: "'e list \<Rightarrow> 'e engine_policy" where
  "engine_policy_new admitted = \<lparr>admitted_extensions = set admitted\<rparr>"

record ('s, 'e) pattern_ir =
  ir_root :: "('s, 'e) ir_node"
  ir_assertions :: "(assertion_id, ('s, 'e) ir_node) bmap"

section \<open>Validation\<close>

text \<open>
  The captures seen so far are threaded through the traversal. The \<open>Debug\<close> rendering of an
  extension, which the error carries, is a parameter.
\<close>

fun validate_node ::
  "('e \<Rightarrow> string) \<Rightarrow> (assertion_id, ('s, 'e) ir_node) bmap \<Rightarrow> 'e engine_policy \<Rightarrow> ('s, 'e) ir_node \<Rightarrow>
   capture_id bset \<Rightarrow> (ir_error, capture_id bset) outcome" where
  "validate_node dbg assertions policy (IrConcat nodes) captures =
     for_each (validate_node dbg assertions policy) nodes captures"
| "validate_node dbg assertions policy (IrAlternation nodes) captures =
     for_each (validate_node dbg assertions policy) nodes captures"
| "validate_node dbg assertions policy (IrRepeat node _ _) captures =
     validate_node dbg assertions policy node captures"
| "validate_node dbg assertions policy (IrGroup node) captures =
     validate_node dbg assertions policy node captures"
| "validate_node dbg assertions policy (IrCapture ident node) captures =
     (if bs_contains ident captures then Err (DuplicateCapture ident)
      else validate_node dbg assertions policy node (bs_insert ident captures))"
| "validate_node dbg assertions policy (IrAssertion ident) captures =
     bind_outcome (ok_or (MissingAssertion ident) (bm_get assertions ident)) (\<lambda>_. Ok captures)"
| "validate_node dbg assertions policy (IrExtension extension) captures =
     (if extension \<notin> admitted_extensions policy then Err (UnsupportedExtension (dbg extension))
      else Ok captures)"
| "validate_node dbg assertions policy (IrSymbol _) captures = Ok captures"
| "validate_node dbg assertions policy IrAny captures = Ok captures"
| "validate_node dbg assertions policy (IrAnchor _) captures = Ok captures"

text \<open>
  The depth-first search for reference cycles. The path is extended for the recursive call and
  restored after it, so it is an argument here. The search ends because a path never repeats an
  identifier and every identifier it enters is declared.
\<close>

definition cycle_at :: "assertion_id \<Rightarrow> assertion_id list \<Rightarrow> assertion_id list" where
  "cycle_at ident path = dropWhile (\<lambda>seen. seen \<noteq> ident) path @ [ident]"

function (sequential) validate_assertion_cycles ::
  "(assertion_id, ('s, 'e) ir_node) bmap \<Rightarrow> ('s, 'e) ir_node \<Rightarrow> assertion_id list \<Rightarrow>
   (ir_error, unit) outcome" where
  "validate_assertion_cycles assertions (IrConcat nodes) path =
     for_each (\<lambda>node _. validate_assertion_cycles assertions node path) nodes ()"
| "validate_assertion_cycles assertions (IrAlternation nodes) path =
     for_each (\<lambda>node _. validate_assertion_cycles assertions node path) nodes ()"
| "validate_assertion_cycles assertions (IrRepeat node _ _) path =
     validate_assertion_cycles assertions node path"
| "validate_assertion_cycles assertions (IrGroup node) path =
     validate_assertion_cycles assertions node path"
| "validate_assertion_cycles assertions (IrCapture _ node) path =
     validate_assertion_cycles assertions node path"
| "validate_assertion_cycles assertions (IrAssertion ident) path =
     (if ident \<in> set path then Err (AssertionCycle (cycle_at ident path))
      else case bm_get assertions ident of
        None \<Rightarrow> Err (MissingAssertion ident)
      | Some node \<Rightarrow> validate_assertion_cycles assertions node (path @ [ident]))"
| "validate_assertion_cycles assertions _ path = Ok ()"
  by pat_completeness auto
termination
proof (relation "measures [\<lambda>(assertions, node, path). card (set (bm_keys assertions) - set path),
    \<lambda>(assertions, node, path). size node]", goal_cases)
  case (7 assertions ident path node)
  then have "ident \<in> set (bm_keys assertions) - set path" by (auto simp: in_bm_keys_iff)
  then have "set (bm_keys assertions) - set (path @ [ident]) \<subset> set (bm_keys assertions) - set path"
    by auto
  then have "card (set (bm_keys assertions) - set (path @ [ident])) < card (set (bm_keys assertions) - set path)"
    by (simp add: psubset_card_mono)
  then show ?case by simp
qed (auto simp: less_Suc_eq_le elim: size_list_estimation')

definition pattern_ir_new ::
  "('e \<Rightarrow> string) \<Rightarrow> ('s, 'e) ir_node \<Rightarrow> (assertion_id, ('s, 'e) ir_node) bmap \<Rightarrow> 'e engine_policy \<Rightarrow>
   (ir_error, ('s, 'e) pattern_ir) outcome" where
  "pattern_ir_new dbg root assertions policy =
     bind_outcome (validate_node dbg assertions policy root bs_empty) (\<lambda>captures.
     bind_outcome (for_each (validate_node dbg assertions policy) (bm_values assertions) captures) (\<lambda>_.
     bind_outcome (validate_assertion_cycles assertions root []) (\<lambda>_.
     bind_outcome (for_each (\<lambda>(ident, node) _. validate_assertion_cycles assertions node [ident])
       (bm_entries assertions) ()) (\<lambda>_.
     Ok \<lparr>ir_root = root, ir_assertions = assertions\<rparr>))))"

section \<open>What validation accepts\<close>

text \<open>The capture identifiers of an expression in traversal order, and what it refers to.\<close>

fun ir_captures :: "('s, 'e) ir_node \<Rightarrow> capture_id list" where
  "ir_captures (IrConcat nodes) = concat (map ir_captures nodes)"
| "ir_captures (IrAlternation nodes) = concat (map ir_captures nodes)"
| "ir_captures (IrRepeat node _ _) = ir_captures node"
| "ir_captures (IrGroup node) = ir_captures node"
| "ir_captures (IrCapture ident node) = ident # ir_captures node"
| "ir_captures _ = []"

fun ir_references :: "('s, 'e) ir_node \<Rightarrow> assertion_id set" where
  "ir_references (IrConcat nodes) = (\<Union>node\<in>set nodes. ir_references node)"
| "ir_references (IrAlternation nodes) = (\<Union>node\<in>set nodes. ir_references node)"
| "ir_references (IrRepeat node _ _) = ir_references node"
| "ir_references (IrGroup node) = ir_references node"
| "ir_references (IrCapture _ node) = ir_references node"
| "ir_references (IrAssertion ident) = {ident}"
| "ir_references _ = {}"

fun ir_extensions :: "('s, 'e) ir_node \<Rightarrow> 'e set" where
  "ir_extensions (IrConcat nodes) = (\<Union>node\<in>set nodes. ir_extensions node)"
| "ir_extensions (IrAlternation nodes) = (\<Union>node\<in>set nodes. ir_extensions node)"
| "ir_extensions (IrRepeat node _ _) = ir_extensions node"
| "ir_extensions (IrGroup node) = ir_extensions node"
| "ir_extensions (IrCapture _ node) = ir_extensions node"
| "ir_extensions (IrExtension extension) = {extension}"
| "ir_extensions _ = {}"

definition reference_edges :: "(assertion_id, ('s, 'e) ir_node) bmap \<Rightarrow> (assertion_id \<times> assertion_id) set" where
  "reference_edges assertions = {(a, b). \<exists>node. bm_get assertions a = Some node \<and> b \<in> ir_references node}"

definition node_admissible ::
  "(assertion_id, ('s, 'e) ir_node) bmap \<Rightarrow> 'e engine_policy \<Rightarrow> ('s, 'e) ir_node \<Rightarrow> bool" where
  "node_admissible assertions policy node \<longleftrightarrow>
     ir_references node \<subseteq> set (bm_keys assertions) \<and> ir_extensions node \<subseteq> admitted_extensions policy"

definition pattern_admissible ::
  "('s, 'e) ir_node \<Rightarrow> (assertion_id, ('s, 'e) ir_node) bmap \<Rightarrow> 'e engine_policy \<Rightarrow> bool" where
  "pattern_admissible root assertions policy \<longleftrightarrow>
     distinct (concat (map ir_captures (root # bm_values assertions))) \<and>
     (\<forall>node\<in>set (root # bm_values assertions). node_admissible assertions policy node) \<and>
     acyclic (reference_edges assertions)"

text \<open>A traversal that only fails or threads the captures succeeds on a whole list exactly when it
  does on the concatenation.\<close>

lemma validate_captures_list:
  assumes "\<And>node captures captures'. node \<in> set nodes \<Longrightarrow>
      f node captures = Ok captures' \<longleftrightarrow>
        P node \<and> distinct (cs node) \<and> set (cs node) \<inter> bs_set captures = {} \<and>
        bs_set captures' = set (cs node) \<union> bs_set captures"
  shows "for_each f nodes captures = Ok captures' \<longleftrightarrow>
    (\<forall>node\<in>set nodes. P node) \<and> distinct (concat (map cs nodes)) \<and>
    set (concat (map cs nodes)) \<inter> bs_set captures = {} \<and>
    bs_set captures' = set (concat (map cs nodes)) \<union> bs_set captures"
  using assms
proof (induction nodes arbitrary: captures)
  case Nil
  then show ?case by (auto intro: bs_ext)
next
  case (Cons node nodes)
  have IH: "for_each f nodes c = Ok captures' \<longleftrightarrow>
    (\<forall>node\<in>set nodes. P node) \<and> distinct (concat (map cs nodes)) \<and>
    set (concat (map cs nodes)) \<inter> bs_set c = {} \<and>
    bs_set captures' = set (concat (map cs nodes)) \<union> bs_set c" for c
    by (rule Cons.IH) (use Cons.prems in simp)
  have step: "f node captures = Ok c \<longleftrightarrow> P node \<and> distinct (cs node) \<and>
      set (cs node) \<inter> bs_set captures = {} \<and> bs_set c = set (cs node) \<union> bs_set captures" for c
    by (rule Cons.prems) simp
  have "\<exists>c. bs_set c = set (cs node) \<union> bs_set captures"
    by (rule exI[of _ "bs_extend (cs node) captures"]) simp
  then obtain c where c: "bs_set c = set (cs node) \<union> bs_set captures" ..
  have "for_each f (node # nodes) captures = Ok captures' \<longleftrightarrow>
      P node \<and> distinct (cs node) \<and> set (cs node) \<inter> bs_set captures = {} \<and>
      for_each f nodes c = Ok captures'"
    using bs_ext[of _ c] by (auto simp: outcome_simps step c)
  also have "\<dots> \<longleftrightarrow> (\<forall>node\<in>set (node # nodes). P node) \<and> distinct (concat (map cs (node # nodes))) \<and>
    set (concat (map cs (node # nodes))) \<inter> bs_set captures = {} \<and>
    bs_set captures' = set (concat (map cs (node # nodes))) \<union> bs_set captures"
    unfolding IH c by auto
  finally show ?case .
qed

lemma node_admissible_simps [simp]:
  "node_admissible assertions policy (IrConcat nodes) \<longleftrightarrow> (\<forall>node\<in>set nodes. node_admissible assertions policy node)"
  "node_admissible assertions policy (IrAlternation nodes) \<longleftrightarrow> (\<forall>node\<in>set nodes. node_admissible assertions policy node)"
  "node_admissible assertions policy (IrRepeat node bounds greedy) \<longleftrightarrow> node_admissible assertions policy node"
  "node_admissible assertions policy (IrGroup node) \<longleftrightarrow> node_admissible assertions policy node"
  "node_admissible assertions policy (IrCapture ident node) \<longleftrightarrow> node_admissible assertions policy node"
  "node_admissible assertions policy (IrAssertion ident) \<longleftrightarrow> ident \<in> set (bm_keys assertions)"
  "node_admissible assertions policy (IrExtension extension) \<longleftrightarrow> extension \<in> admitted_extensions policy"
  "node_admissible assertions policy (IrSymbol symbol)" "node_admissible assertions policy IrAny"
  "node_admissible assertions policy (IrAnchor anc)"
  by (auto simp: node_admissible_def)

lemma validate_node_Ok:
  "validate_node dbg assertions policy node captures = Ok captures' \<longleftrightarrow>
     node_admissible assertions policy node \<and> distinct (ir_captures node) \<and>
     set (ir_captures node) \<inter> bs_set captures = {} \<and>
     bs_set captures' = set (ir_captures node) \<union> bs_set captures"
proof (induction dbg assertions policy node captures arbitrary: captures' rule: validate_node.induct)
  case (1 dbg assertions policy nodes captures)
  show ?case
    unfolding validate_node.simps ir_captures.simps node_admissible_simps
    by (rule validate_captures_list) (rule 1)
next
  case (2 dbg assertions policy nodes captures)
  show ?case
    unfolding validate_node.simps ir_captures.simps node_admissible_simps
    by (rule validate_captures_list) (rule 2)
next
  case (5 dbg assertions policy ident node captures)
  show ?case
  proof (cases "ident \<in> bs_set captures")
    case False
    then have "\<not> bs_contains ident captures" by simp
    from 5[OF this] False show ?thesis by auto
  qed auto
next
  case (6 dbg assertions policy ident captures)
  show ?case by (auto simp: outcome_simps in_bm_keys_iff intro: bs_ext)
qed (auto intro: bs_ext)

lemma validate_nodes_Ok:
  "for_each (validate_node dbg assertions policy) nodes captures = Ok captures' \<longleftrightarrow>
     (\<forall>node\<in>set nodes. node_admissible assertions policy node) \<and> distinct (concat (map ir_captures nodes)) \<and>
     set (concat (map ir_captures nodes)) \<inter> bs_set captures = {} \<and>
     bs_set captures' = set (concat (map ir_captures nodes)) \<union> bs_set captures"
  by (rule validate_captures_list) (rule validate_node_Ok)

subsection \<open>Reference cycles\<close>

lemma for_each_unit_iff:
  "for_each (\<lambda>x _. f x) xs () = Ok () \<longleftrightarrow> (\<forall>x\<in>set xs. f x = Ok ())"
  by (induction xs) (auto simp: outcome_simps)

text \<open>A successful search has gone through every reference, none of them on the path.\<close>

lemma search_step:
  assumes "validate_assertion_cycles assertions node path = Ok ()" "ident \<in> ir_references node"
  shows "ident \<notin> set path \<and> (\<exists>target. bm_get assertions ident = Some target \<and>
    validate_assertion_cycles assertions target (path @ [ident]) = Ok ())"
  using assms
  by (induction assertions node path rule: validate_assertion_cycles.induct)
    (auto simp: for_each_unit_iff split: if_splits option.splits)

lemma search_avoids_path:
  assumes "validate_assertion_cycles assertions node path = Ok ()" "first \<in> set path"
    and "bm_get assertions start = Some node" "(start, ident) \<in> (reference_edges assertions)\<^sup>+"
  shows "ident \<noteq> first"
proof -
  define reached where "reached = (\<lambda>y. \<exists>target p. bm_get assertions y = Some target \<and> first \<in> set p \<and>
      validate_assertion_cycles assertions target p = Ok ())"
  have enters: "y \<noteq> first \<and> reached y"
    if "validate_assertion_cycles assertions target p = Ok ()" "first \<in> set p" "y \<in> ir_references target" for target p y
    using search_step[OF that(1,3)] that(2) unfolding reached_def
    by (metis Un_iff set_append)
  have "ident \<noteq> first \<and> reached ident"
    using assms(4)
  proof (induction rule: trancl_induct)
    case (base y)
    then have "y \<in> ir_references node" using assms(3) by (auto simp: reference_edges_def)
    with assms(1,2) show ?case by (rule enters)
  next
    case (step y z)
    then obtain target p where t: "bm_get assertions y = Some target" "first \<in> set p"
      "validate_assertion_cycles assertions target p = Ok ()" unfolding reached_def by blast
    then have "z \<in> ir_references target" using step.hyps(2) by (auto simp: reference_edges_def)
    with t(3,2) show ?case by (rule enters)
  qed
  then show ?thesis by simp
qed

text \<open>Without cycles and missing definitions the search succeeds from every path that leads to the
  expression.\<close>

lemma search_acyclic:
  assumes "acyclic (reference_edges assertions)"
    and "\<And>a. a \<in> set path \<Longrightarrow> \<forall>b\<in>ir_references node. (a, b) \<in> (reference_edges assertions)\<^sup>+"
    and "ir_references node \<subseteq> set (bm_keys assertions)"
    and "\<And>target. target \<in> set (bm_values assertions) \<Longrightarrow> ir_references target \<subseteq> set (bm_keys assertions)"
  shows "validate_assertion_cycles assertions node path = Ok ()"
  using assms
proof (induction assertions node path rule: validate_assertion_cycles.induct)
  case (6 assertions ident path)
  have fresh: "ident \<notin> set path"
    using 6(2,3) by (auto simp: acyclic_def)
  obtain target where t: "bm_get assertions ident = Some target"
    using 6(4) by (auto simp: in_bm_keys_iff)
  have edge: "(ident, b) \<in> reference_edges assertions" if "b \<in> ir_references target" for b
    using t that by (auto simp: reference_edges_def)
  have "validate_assertion_cycles assertions target (path @ [ident]) = Ok ()"
  proof (rule 6(1)[OF fresh t 6(2)])
    show "\<forall>b\<in>ir_references target. (a, b) \<in> (reference_edges assertions)\<^sup>+" if "a \<in> set (path @ [ident])" for a
      using that 6(3) edge by (auto intro: trancl_into_trancl)
    have "target \<in> set (bm_values assertions)" using t by (auto simp: in_bm_values_iff)
    then show "ir_references target \<subseteq> set (bm_keys assertions)" by (rule 6(5))
  qed (rule 6(5))
  with fresh t show ?case by simp
qed (simp_all add: for_each_unit_iff UN_subset_iff)

lemma searches_Ok_iff:
  assumes "\<And>node. node \<in> set (root # bm_values assertions) \<Longrightarrow> ir_references node \<subseteq> set (bm_keys assertions)"
  shows "validate_assertion_cycles assertions root [] = Ok () \<and>
      (\<forall>(ident, node)\<in>set (bm_entries assertions). validate_assertion_cycles assertions node [ident] = Ok ())
    \<longleftrightarrow> acyclic (reference_edges assertions)" (is "?search \<longleftrightarrow> ?acyclic")
proof
  assume ?search
  show ?acyclic
    unfolding acyclic_def
  proof (intro allI notI)
    fix ident
    assume cycle: "(ident, ident) \<in> (reference_edges assertions)\<^sup>+"
    then obtain node where node: "bm_get assertions ident = Some node"
      by (cases rule: converse_tranclE) (auto simp: reference_edges_def)
    then have "(ident, node) \<in> set (bm_entries assertions)" by (simp add: bm_entries_iff)
    with \<open>?search\<close> have "validate_assertion_cycles assertions node [ident] = Ok ()" by blast
    from search_avoids_path[OF this _ node cycle, of ident] show False by simp
  qed
next
  assume ?acyclic
  show ?search
  proof (intro conjI ballI)
    show "validate_assertion_cycles assertions root [] = Ok ()"
      by (rule search_acyclic[OF \<open>?acyclic\<close>]) (use assms in auto)
    fix entry assume "entry \<in> set (bm_entries assertions)"
    then obtain ident node where e: "entry = (ident, node)" "bm_get assertions ident = Some node"
      by (metis bm_entries_iff surj_pair)
    have "validate_assertion_cycles assertions node [ident] = Ok ()"
      by (rule search_acyclic[OF \<open>?acyclic\<close>])
        (use e(2) assms in \<open>auto simp: reference_edges_def in_bm_values_iff\<close>)
    with e(1) show "case entry of (ident, node) \<Rightarrow> validate_assertion_cycles assertions node [ident] = Ok ()"
      by simp
  qed
qed

text \<open>The cycle of an error: the search carries a path of references that leads to the expression.\<close>

lemma for_each_Err: "for_each f xs s = Err e \<Longrightarrow> \<exists>x\<in>set xs. \<exists>u. f x u = Err e"
  by (induction xs arbitrary: s) (auto simp: outcome_simps)

lemma for_each_Panic: "for_each f xs s = Panic q \<Longrightarrow> \<exists>x\<in>set xs. \<exists>u. f x u = Panic q"
  by (induction xs arbitrary: s) (auto simp: outcome_simps)

lemma cycle_at_chain:
  assumes "successively P path" "path \<noteq> []" "P (last path) ident" "ident \<in> set path"
  shows "successively P (cycle_at ident path) \<and> hd (cycle_at ident path) = ident \<and>
    last (cycle_at ident path) = ident \<and> 2 \<le> length (cycle_at ident path)"
proof -
  obtain ys zs where split: "path = ys @ ident # zs" "ident \<notin> set ys"
    using split_list_first[OF assms(4)] by blast
  then have "dropWhile (\<lambda>seen. seen \<noteq> ident) path = ident # zs"
    by (induction ys arbitrary: path) auto
  then have c: "cycle_at ident path = ident # zs @ [ident]" by (simp add: cycle_at_def)
  have "successively P (ident # zs)" "last path = last (ident # zs)"
    using assms(1) split(1) by (simp_all add: successively_append_iff)
  then have "successively P ((ident # zs) @ [ident])"
    using assms(3) by (subst successively_append_iff) simp
  with c show ?thesis by simp
qed

lemma search_reports_cycle:
  assumes "validate_assertion_cycles assertions node path = Err (AssertionCycle c)"
    and "successively (\<lambda>a b. (a, b) \<in> reference_edges assertions) path"
    and "path \<noteq> [] \<Longrightarrow> \<forall>b\<in>ir_references node. (last path, b) \<in> reference_edges assertions"
  shows "successively (\<lambda>a b. (a, b) \<in> reference_edges assertions) c \<and> hd c = last c \<and> 2 \<le> length c"
  using assms
proof (induction assertions node path rule: validate_assertion_cycles.induct)
  case (6 assertions ident path)
  show ?case
  proof (cases "ident \<in> set path")
    case True
    then have "path \<noteq> []" by auto
    with True 6(2-4) cycle_at_chain[of "\<lambda>a b. (a, b) \<in> reference_edges assertions" path ident]
    show ?thesis by auto
  next
    case False
    with 6(2) obtain target where t: "bm_get assertions ident = Some target"
      "validate_assertion_cycles assertions target (path @ [ident]) = Err (AssertionCycle c)"
      by (auto split: option.splits)
    show ?thesis
    proof (rule 6(1)[OF False t(1,2)])
      show "successively (\<lambda>a b. (a, b) \<in> reference_edges assertions) (path @ [ident])"
        using 6(3,4) by (cases "path = []") (auto simp: successively_append_iff)
    qed (use t(1) in \<open>auto simp: reference_edges_def\<close>)
  qed
next
  case (1 assertions nodes path)
  from for_each_Err[OF 1(2)[simplified]] obtain node where
    "node \<in> set nodes" "validate_assertion_cycles assertions node path = Err (AssertionCycle c)" by blast
  then show ?case by (rule 1(1)) (use 1(3,4) \<open>node \<in> set nodes\<close> in auto)
next
  case (2 assertions nodes path)
  from for_each_Err[OF 2(2)[simplified]] obtain node where
    "node \<in> set nodes" "validate_assertion_cycles assertions node path = Err (AssertionCycle c)" by blast
  then show ?case by (rule 2(1)) (use 2(3,4) \<open>node \<in> set nodes\<close> in auto)
qed auto

lemma validate_node_errors:
  "validate_node dbg assertions policy node captures \<noteq> Panic q"
  "validate_node dbg assertions policy node captures \<noteq> Err (AssertionCycle c)"
  by (induction dbg assertions policy node captures rule: validate_node.induct)
    (auto simp: outcome_simps dest: for_each_Err for_each_Panic)

lemma validate_assertion_cycles_no_panic: "validate_assertion_cycles assertions node path \<noteq> Panic q"
  by (induction assertions node path rule: validate_assertion_cycles.induct)
    (auto dest: for_each_Panic split: option.splits)

text \<open>
  The constructor never panics, and accepts exactly the admissible patterns: distinct captures over
  the root and all definitions, declared assertions, admitted extensions and acyclic references.
\<close>

lemma entries_unit_iff:
  "for_each (\<lambda>(ident, node) _. f ident node) entries () = Ok () \<longleftrightarrow>
     (\<forall>(ident, node)\<in>set entries. f ident node = Ok ())"
  using for_each_unit_iff[of "case_prod f" entries] by (simp add: case_prod_unfold)

lemma pattern_ir_new_Ok_iff:
  "pattern_ir_new dbg root assertions policy = Ok ir \<longleftrightarrow>
     pattern_admissible root assertions policy \<and> ir = \<lparr>ir_root = root, ir_assertions = assertions\<rparr>"
proof -
  let ?nodes = "root # bm_values assertions"
  have "(\<exists>captures. validate_node dbg assertions policy root bs_empty = Ok captures \<and>
      (\<exists>captures'. for_each (validate_node dbg assertions policy) (bm_values assertions) captures = Ok captures'))
    \<longleftrightarrow> (\<exists>captures'. for_each (validate_node dbg assertions policy) ?nodes bs_empty = Ok captures')"
    by (auto simp: outcome_simps)
  also have "\<dots> \<longleftrightarrow> (\<forall>node\<in>set ?nodes. node_admissible assertions policy node) \<and>
      distinct (concat (map ir_captures ?nodes))"
    unfolding validate_nodes_Ok using bs_set_from_list[of "concat (map ir_captures ?nodes)"]
    by (metis bs_set_empty inf_bot_right sup_bot_right)
  finally have nodes: "(\<exists>captures. validate_node dbg assertions policy root bs_empty = Ok captures \<and>
      (\<exists>captures'. for_each (validate_node dbg assertions policy) (bm_values assertions) captures = Ok captures'))
    \<longleftrightarrow> (\<forall>node\<in>set ?nodes. node_admissible assertions policy node) \<and>
      distinct (concat (map ir_captures ?nodes))" .
  have "pattern_ir_new dbg root assertions policy = Ok ir \<longleftrightarrow>
      (\<exists>captures. validate_node dbg assertions policy root bs_empty = Ok captures \<and>
        (\<exists>captures'. for_each (validate_node dbg assertions policy) (bm_values assertions) captures = Ok captures')) \<and>
      (validate_assertion_cycles assertions root [] = Ok () \<and>
       (\<forall>(ident, node)\<in>set (bm_entries assertions). validate_assertion_cycles assertions node [ident] = Ok ())) \<and>
      ir = \<lparr>ir_root = root, ir_assertions = assertions\<rparr>"
    by (simp add: pattern_ir_new_def outcome_simps entries_unit_iff) blast
  moreover have "(\<forall>node\<in>set ?nodes. node_admissible assertions policy node) \<Longrightarrow>
      (validate_assertion_cycles assertions root [] = Ok () \<and>
       (\<forall>(ident, node)\<in>set (bm_entries assertions). validate_assertion_cycles assertions node [ident] = Ok ()))
      \<longleftrightarrow> acyclic (reference_edges assertions)"
    by (rule searches_Ok_iff) (unfold node_admissible_def, blast)
  ultimately show ?thesis
    unfolding nodes pattern_admissible_def by blast
qed

lemma pattern_ir_new_cycle:
  assumes "pattern_ir_new dbg root assertions policy = Err (AssertionCycle c)"
  shows "successively (\<lambda>a b. (a, b) \<in> reference_edges assertions) c \<and> hd c = last c \<and> 2 \<le> length c"
proof -
  have "validate_assertion_cycles assertions root [] = Err (AssertionCycle c) \<or>
      (\<exists>(ident, node)\<in>set (bm_entries assertions). validate_assertion_cycles assertions node [ident] = Err (AssertionCycle c))"
    using assms unfolding pattern_ir_new_def
    by (fastforce simp: outcome_simps validate_node_errors dest: for_each_Err)
  then consider "validate_assertion_cycles assertions root [] = Err (AssertionCycle c)"
    | ident node where "bm_get assertions ident = Some node"
        "validate_assertion_cycles assertions node [ident] = Err (AssertionCycle c)"
    by (auto simp: bm_entries_iff)
  then show ?thesis
  proof cases
    case 1
    then show ?thesis by (rule search_reports_cycle) simp_all
  next
    case (2 ident node)
    from 2(2) show ?thesis
      by (rule search_reports_cycle) (use 2(1) in \<open>auto simp: reference_edges_def\<close>)
  qed
qed

lemma pattern_ir_new_no_panic: "pattern_ir_new dbg root assertions policy \<noteq> Panic q"
  unfolding pattern_ir_new_def
  by (auto simp: outcome_simps validate_node_errors validate_assertion_cycles_no_panic dest!: for_each_Panic)

end
