(* ===== verification/Pattern_Execute.thy ===== *)
theory Pattern_Execute
  imports Pattern_Compile
begin

text \<open>
  The executor of \<open>execute.rs\<close>: threads with their repetition counters and capture history, the
  memoised depth-first loop over one stack, the nested runs of fixed-width assertions, the
  receipts and the limits. Every run ends, because each new configuration costs a transition and
  transitions are bounded; the recursion into assertions ends because their automata are parts of
  the automaton.
\<close>

section \<open>Results and threads\<close>

record text_limits =
  max_steps :: usize
  max_states :: usize
  max_capture_history :: usize
  max_subject_symbols :: usize

definition text_limits_default :: text_limits where
  "text_limits_default = \<lparr>max_steps = 10000, max_states = 4096, max_capture_history = 10000,
     max_subject_symbols = 1000000\<rparr>"

record capture_span =
  cs_start :: usize
  cs_end :: usize

record execution_match =
  em_start :: usize
  em_end :: usize
  em_captures :: "(capture_id, capture_span) bmap"

datatype execution_limit = LimitStates | LimitTransitions | LimitCaptureHistory | LimitSubject

record execution_receipt =
  er_state_count :: usize
  er_state_visits :: usize
  er_transitions :: usize
  er_capture_history :: usize
  er_subject_symbols :: usize

definition execution_receipt_default :: execution_receipt where
  "execution_receipt_default = \<lparr>er_state_count = 0, er_state_visits = 0, er_transitions = 0,
     er_capture_history = 0, er_subject_symbols = 0\<rparr>"

datatype unsupported_feature = VariableWidthAssertion assertion_id

datatype execution_outcome =
    ExMatch execution_match execution_receipt
  | ExNoMatch execution_receipt
  | ExLimit execution_limit execution_receipt
  | ExUnsupported unsupported_feature execution_receipt

record capture_log =
  cl_open :: "(capture_id, usize) bmap"
  cl_closed :: "(capture_id, capture_span) bmap"

record pattern_thread =
  th_start :: usize
  th_state :: state_id
  th_repeats :: "(state_id, usize) bmap"
  th_history :: capture_log

definition initial_thread :: "('s, 'e) automaton \<Rightarrow> usize \<Rightarrow> pattern_thread" where
  "initial_thread aut start = \<lparr>th_start = start, th_state = au_start aut, th_repeats = bm_empty,
     th_history = \<lparr>cl_open = bm_empty, cl_closed = bm_empty\<rparr>\<rparr>"

definition state_at_id :: "('s, 'e) automaton \<Rightarrow> state_id \<Rightarrow> ('s, 'e) pattern_state option" where
  "state_at_id aut ident = (if ident < length (au_states aut) then Some (au_states aut ! ident) else None)"

text \<open>The part of the repetition counters that decides the future of a thread: an unbounded
  repetition that has met its minimum has one identity.\<close>

definition repeat_entry :: "('s, 'e) automaton \<Rightarrow> state_id \<times> usize \<Rightarrow> (state_id \<times> usize) option" where
  "repeat_entry aut entry =
     (case state_at_id aut (fst entry) of
        None \<Rightarrow> None
      | Some state \<Rightarrow> (case ps_instruction state of
          PiRepeat body exit mn mx greedy \<Rightarrow>
            Some (fst entry, case mx of None \<Rightarrow> min (snd entry) mn | Some _ \<Rightarrow> snd entry)
        | _ \<Rightarrow> None))"

definition repeat_identity :: "('s, 'e) automaton \<Rightarrow> (state_id, usize) bmap \<Rightarrow> (state_id \<times> usize) list" where
  "repeat_identity aut repeats = List.map_filter (repeat_entry aut) (bm_entries repeats)"

section \<open>One configuration\<close>

text \<open>
  The stack of the source is a vector whose last element is popped; here it is a list with that
  element first. \<open>push_at\<close> moves a thread to a state and a position.
\<close>

type_synonym thread_stack = "(usize \<times> pattern_thread) list"
type_synonym ('s, 'e) span_matcher = "'e \<Rightarrow> 's list \<Rightarrow> usize \<Rightarrow> usize option"
type_synonym ('s, 'e) assertion_runner = "('s, 'e) assertion_program \<Rightarrow> 's list \<Rightarrow> text_limits \<Rightarrow> execution_outcome"

definition push_at :: "thread_stack \<Rightarrow> usize \<Rightarrow> pattern_thread \<Rightarrow> state_id \<Rightarrow> thread_stack" where
  "push_at stack position thread state = (position, thread\<lparr>th_state := state\<rparr>) # stack"

definition tag_history :: "capture_id \<Rightarrow> tag_boundary \<Rightarrow> usize \<Rightarrow> capture_log \<Rightarrow> capture_log" where
  "tag_history capture boundary position log =
     (case boundary of
        TagStart \<Rightarrow> log\<lparr>cl_open := bm_insert capture position (cl_open log)\<rparr>
      | TagEnd \<Rightarrow>
          (case bm_get (cl_open log) capture of
             None \<Rightarrow> log
           | Some start \<Rightarrow> log\<lparr>cl_open := bm_remove capture (cl_open log),
               cl_closed := bm_insert capture \<lparr>cs_start = start, cs_end = position\<rparr> (cl_closed log)\<rparr>))"

definition anchor_holds :: "anchor \<Rightarrow> 's list \<Rightarrow> usize \<Rightarrow> bool" where
  "anchor_holds anc subject position =
     (case anc of SubjectStart \<Rightarrow> position = 0 | SubjectEnd \<Rightarrow> position = length subject)"

text \<open>The two successors of a repetition, in the order they are pushed.\<close>

definition repeat_choices ::
  "pattern_thread \<Rightarrow> state_id \<Rightarrow> state_id \<Rightarrow> usize \<Rightarrow> usize option \<Rightarrow> bool \<Rightarrow> (bool \<times> state_id \<times> pattern_thread) list" where
  "repeat_choices thread body exit mn mx greedy =
     (let count = (case bm_get (th_repeats thread) (th_state thread) of None \<Rightarrow> 0 | Some c \<Rightarrow> c);
          can_repeat = (case mx of None \<Rightarrow> True | Some maximum \<Rightarrow> count < maximum);
          can_exit = (count \<ge> mn);
          body_thread = thread\<lparr>th_repeats := bm_insert (th_state thread) (count + 1) (th_repeats thread)\<rparr>;
          exit_thread = thread\<lparr>th_repeats := bm_remove (th_state thread) (th_repeats thread)\<rparr>
      in if greedy then [(can_exit, exit, exit_thread), (can_repeat, body, body_thread)]
         else [(can_repeat, body, body_thread), (can_exit, exit, exit_thread)])"

definition push_choices :: "(bool \<times> state_id \<times> pattern_thread) list \<Rightarrow> usize \<Rightarrow> thread_stack \<Rightarrow> thread_stack" where
  "push_choices choices position stack =
     foldl (\<lambda>stack (enabled, next, thread). if enabled then push_at stack position thread next else stack) stack choices"

definition add_nested :: "execution_receipt \<Rightarrow> execution_receipt \<Rightarrow> execution_receipt" where
  "add_nested nested receipt = receipt
     \<lparr>er_state_visits := er_state_visits receipt + er_state_visits nested,
      er_transitions := er_transitions receipt + er_transitions nested,
      er_capture_history := er_capture_history receipt + er_capture_history nested\<rparr>"

definition remaining_limits :: "text_limits \<Rightarrow> execution_receipt \<Rightarrow> text_limits" where
  "remaining_limits limits receipt = limits
     \<lparr>max_steps := max_steps limits - er_transitions receipt,
      max_capture_history := max_capture_history limits - er_capture_history receipt\<rparr>"

definition run_assertion ::
  "('s, 'e) assertion_runner \<Rightarrow> ('s, 'e) automaton \<Rightarrow> 's list \<Rightarrow> text_limits \<Rightarrow> assertion_id \<Rightarrow> state_id \<Rightarrow>
   usize \<Rightarrow> pattern_thread \<Rightarrow> thread_stack \<Rightarrow> execution_receipt \<Rightarrow> execution_outcome + (thread_stack \<times> execution_receipt)" where
  "run_assertion run aut subject limits ident next position thread stack receipt =
     (case automaton_assertion aut ident of
        None \<Rightarrow> Inl (ExUnsupported (VariableWidthAssertion ident) receipt)
      | Some program \<Rightarrow>
          (let end_at = saturating_add position (ap_width program) in
           if position \<le> end_at \<and> end_at \<le> length subject then
             (let window = take (end_at - position) (drop position subject) in
              case run program window (remaining_limits limits receipt) of
                ExMatch matched nested \<Rightarrow>
                  if em_end matched = length window
                  then Inr (push_at stack position thread next, add_nested nested receipt)
                  else Inr (stack, receipt)
              | ExLimit limit nested \<Rightarrow> Inl (ExLimit limit (add_nested nested receipt))
              | _ \<Rightarrow> Inr (stack, receipt))
           else Inr (stack, receipt)))"

text \<open>The \<open>match\<close> on the instruction: an early return (\<open>Inl\<close>), or the stack and the receipt.\<close>

definition visit_state ::
  "('s, 'e) assertion_runner \<Rightarrow> ('s, 'e) automaton \<Rightarrow> 's list \<Rightarrow> text_limits \<Rightarrow> ('s, 'e) span_matcher \<Rightarrow>
   ('s, 'e) pattern_instruction \<Rightarrow> usize \<Rightarrow> pattern_thread \<Rightarrow> thread_stack \<Rightarrow> execution_receipt \<Rightarrow>
   execution_outcome + (thread_stack \<times> execution_receipt)" where
  "visit_state run aut subject limits ext instruction position thread stack receipt =
     (case instruction of
        PiAccept \<Rightarrow> Inl (ExMatch \<lparr>em_start = th_start thread, em_end = position,
          em_captures = cl_closed (th_history thread)\<rparr> receipt)
      | PiSymbol symbol next \<Rightarrow>
          Inr (if position < length subject \<and> subject ! position = symbol
               then push_at stack (position + 1) thread next else stack, receipt)
      | PiAny next \<Rightarrow>
          Inr (if position < length subject then push_at stack (position + 1) thread next else stack, receipt)
      | PiExtension extension next \<Rightarrow>
          Inr (case ext extension subject position of
                 Some end_at \<Rightarrow> if position \<le> end_at \<and> end_at \<le> length subject
                   then push_at stack end_at thread next else stack
               | None \<Rightarrow> stack, receipt)
      | PiEpsilon next \<Rightarrow> Inr (push_at stack position thread next, receipt)
      | PiSplit alternatives \<Rightarrow>
          Inr (foldl (\<lambda>stack next. push_at stack position thread next) stack (rev alternatives), receipt)
      | PiTag capture boundary next \<Rightarrow>
          (if er_capture_history receipt = max_capture_history limits then Inl (ExLimit LimitCaptureHistory receipt)
           else Inr (push_at stack position
               (thread\<lparr>th_history := tag_history capture boundary position (th_history thread)\<rparr>) next,
             receipt\<lparr>er_capture_history := er_capture_history receipt + 1\<rparr>))
      | PiAnchor anc next \<Rightarrow>
          Inr (if anchor_holds anc subject position then push_at stack position thread next else stack, receipt)
      | PiRepeat body exit mn mx greedy \<Rightarrow>
          Inr (push_choices (repeat_choices thread body exit mn mx greedy) position stack, receipt)
      | PiAssertion ident next \<Rightarrow> run_assertion run aut subject limits ident next position thread stack receipt)"

lemma visit_state_transitions:
  "visit_state run aut subject limits ext instruction position thread stack receipt = Inr (stack', receipt') \<Longrightarrow>
     er_transitions receipt \<le> er_transitions receipt'"
  by (auto simp: visit_state_def run_assertion_def add_nested_def Let_def
      split: pattern_instruction.splits if_splits option.splits execution_outcome.splits)

section \<open>The loop\<close>

type_synonym memo_key = "usize \<times> state_id \<times> (state_id \<times> usize) list"

definition thread_key :: "('s, 'e) automaton \<Rightarrow> usize \<Rightarrow> pattern_thread \<Rightarrow> memo_key" where
  "thread_key aut position thread = (position, th_state thread, repeat_identity aut (th_repeats thread))"

function pattern_loop ::
  "('s, 'e) assertion_runner \<Rightarrow> ('s, 'e) automaton \<Rightarrow> 's list \<Rightarrow> text_limits \<Rightarrow> ('s, 'e) span_matcher \<Rightarrow>
   thread_stack \<Rightarrow> memo_key set \<Rightarrow> execution_receipt \<Rightarrow> execution_outcome" where
  "pattern_loop run aut subject limits ext current seen receipt =
     (case current of
        [] \<Rightarrow> ExNoMatch receipt
      | (position, thread) # rest \<Rightarrow>
          (let receipt = receipt\<lparr>er_state_visits := er_state_visits receipt + 1\<rparr>;
               key = thread_key aut position thread in
           if key \<in> seen then pattern_loop run aut subject limits ext rest seen receipt
           else case state_at_id aut (th_state thread) of
             None \<Rightarrow> pattern_loop run aut subject limits ext rest (insert key seen) receipt
           | Some state \<Rightarrow>
               (case visit_state run aut subject limits ext (ps_instruction state) position thread rest receipt of
                  Inl result \<Rightarrow> result
                | Inr (stack, receipt) \<Rightarrow>
                    (let receipt = receipt\<lparr>er_transitions := er_transitions receipt + 1\<rparr> in
                     if er_transitions receipt \<ge> max_steps limits then ExLimit LimitTransitions receipt
                     else pattern_loop run aut subject limits ext stack (insert key seen) receipt))))"
  by pat_completeness auto
termination
proof (relation "measures [\<lambda>(run, aut, subject, limits, ext, current, seen, receipt).
      max_steps limits - er_transitions receipt,
    \<lambda>(run, aut, subject, limits, ext, current, seen, receipt). length current]", goal_cases)
  case (4 run aut subject limits ext current seen receipt x rest position thread receipt' key state y stack receipt1 receipt2)
  then have "er_transitions receipt \<le> er_transitions receipt1"
    using visit_state_transitions by fastforce
  with 4 show ?case by (simp, arith)
qed simp_all

declare pattern_loop.simps [simp del]

lemma pattern_loop_Nil [simp]: "pattern_loop run aut subject limits ext [] seen receipt = ExNoMatch receipt"
  by (subst pattern_loop.simps) simp

lemma pattern_loop_Cons:
  "pattern_loop run aut subject limits ext ((position, thread) # rest) seen receipt =
     (let receipt = receipt\<lparr>er_state_visits := er_state_visits receipt + 1\<rparr>;
          key = thread_key aut position thread in
      if key \<in> seen then pattern_loop run aut subject limits ext rest seen receipt
      else case state_at_id aut (th_state thread) of
        None \<Rightarrow> pattern_loop run aut subject limits ext rest (insert key seen) receipt
      | Some state \<Rightarrow>
          (case visit_state run aut subject limits ext (ps_instruction state) position thread rest receipt of
             Inl result \<Rightarrow> result
           | Inr (stack, receipt) \<Rightarrow>
               (let receipt = receipt\<lparr>er_transitions := er_transitions receipt + 1\<rparr> in
                if er_transitions receipt \<ge> max_steps limits then ExLimit LimitTransitions receipt
                else pattern_loop run aut subject limits ext stack (insert key seen) receipt)))"
  by (subst pattern_loop.simps) simp

text \<open>The loop runs only the assertion programs of its automaton.\<close>

lemma visit_state_cong:
  assumes "\<And>program window lim. program \<in> snd ` set (au_assertions aut) \<Longrightarrow> run program window lim = run' program window lim"
  shows "visit_state run aut subject limits ext instruction position thread stack receipt =
    visit_state run' aut subject limits ext instruction position thread stack receipt"
proof -
  have "run program window lim = run' program window lim"
    if "automaton_assertion aut ident = Some program" for ident program window lim
    using that by (intro assms) (force simp: automaton_assertion_def dest: map_of_SomeD)
  then show ?thesis
    by (auto simp: visit_state_def run_assertion_def Let_def split: pattern_instruction.splits option.splits)
qed

lemma pattern_loop_cong [fundef_cong]:
  assumes "aut = aut'" "subject = subject'" "limits = limits'" "ext = ext'" "current = current'"
    and "seen = seen'" "receipt = receipt'"
    and "\<And>program window lim. program \<in> snd ` set (au_assertions aut') \<Longrightarrow> run program window lim = run' program window lim"
  shows "pattern_loop run aut subject limits ext current seen receipt =
    pattern_loop run' aut' subject' limits' ext' current' seen' receipt'"
proof -
  have "pattern_loop run aut subject limits ext current seen receipt =
    pattern_loop run' aut subject limits ext current seen receipt"
    using assms(8)[folded assms(1)]
  proof (induction run aut subject limits ext current seen receipt rule: pattern_loop.induct)
    case (1 run aut subject limits ext current seen receipt)
    note visit = visit_state_cong[of aut run run', OF "1.prems"]
    show ?case
    proof (cases current)
      case (Cons item rest)
      obtain position thread where "item = (position, thread)" by (cases item)
      with Cons "1.IH"[OF Cons this[symmetric] refl refl] "1.prems" show ?thesis
        by (simp add: pattern_loop_Cons visit Let_def split: option.split sum.split)
    qed simp
  qed
  with assms(1-7) show ?thesis by simp
qed

section \<open>Entry points\<close>

lemma assertion_automaton_size:
  assumes "program \<in> snd ` set (au_assertions aut)"
  shows "size (ap_automaton program) < size aut"
proof -
  obtain ident where "(ident, program) \<in> set (au_assertions aut)" using assms by auto
  then have "size program < size aut"
    by (cases aut) (auto dest!: split_list)
  then show ?thesis by (cases program) simp
qed

function execute_regular_inner ::
  "('s, 'e) span_matcher \<Rightarrow> ('s, 'e) automaton \<Rightarrow> 's list \<Rightarrow> usize list \<Rightarrow> text_limits \<Rightarrow> execution_outcome" where
  "execute_regular_inner ext aut subject starts limits =
     (let receipt = execution_receipt_default
        \<lparr>er_state_count := ev_state_count (au_evidence aut), er_subject_symbols := length subject\<rparr> in
      if er_state_count receipt > max_states limits then ExLimit LimitStates receipt
      else if er_subject_symbols receipt > max_subject_symbols limits then ExLimit LimitSubject receipt
      else pattern_loop
        (\<lambda>program window lim. execute_regular_inner ext (ap_automaton program) window [0] lim)
        aut subject limits ext (map (\<lambda>start. (start, initial_thread aut start)) starts) {} receipt)"
  by pat_completeness auto
termination
  by (relation "measure (\<lambda>(ext, aut, subject, starts, limits). size aut)")
    (simp_all add: assertion_automaton_size)

declare execute_regular_inner.simps [simp del]

text \<open>An extension that consumes one symbol.\<close>

definition unit_extension :: "('e \<Rightarrow> 's \<Rightarrow> bool) \<Rightarrow> ('s, 'e) span_matcher" where
  "unit_extension matches extension subject position =
     (if position < length subject \<and> matches extension (subject ! position) then Some (position + 1) else None)"

definition execute_spanning ::
  "('s, 'e) automaton \<Rightarrow> 's list \<Rightarrow> text_limits \<Rightarrow> ('s, 'e) span_matcher \<Rightarrow> execution_outcome" where
  "execute_spanning aut subject limits ext = execute_regular_inner ext aut subject [0] limits"

definition search_spanning ::
  "('s, 'e) automaton \<Rightarrow> 's list \<Rightarrow> usize \<Rightarrow> text_limits \<Rightarrow> ('s, 'e) span_matcher \<Rightarrow> execution_outcome" where
  "search_spanning aut subject init limits ext =
     execute_regular_inner ext aut subject [init..<length subject + 1] limits"

definition execute_regular ::
  "('s, 'e) automaton \<Rightarrow> 's list \<Rightarrow> text_limits \<Rightarrow> ('e \<Rightarrow> 's \<Rightarrow> bool) \<Rightarrow> execution_outcome" where
  "execute_regular aut subject limits matches = execute_spanning aut subject limits (unit_extension matches)"

definition search_regular ::
  "('s, 'e) automaton \<Rightarrow> 's list \<Rightarrow> usize \<Rightarrow> text_limits \<Rightarrow> ('e \<Rightarrow> 's \<Rightarrow> bool) \<Rightarrow> execution_outcome" where
  "search_regular aut subject init limits matches =
     (if init > length subject then
        ExNoMatch (execution_receipt_default
          \<lparr>er_state_count := ev_state_count (au_evidence aut), er_subject_symbols := length subject\<rparr>)
      else search_spanning aut subject init limits (unit_extension matches))"

end
