(* ===== verification/Pattern_Search.thy ===== *)
theory Pattern_Search
  imports Pattern_Execute
begin

text \<open>
  The executor against paths of the automaton. The interface \<open>memo_search\<close> holds the argument of a
  memoised depth-first search: configurations with the same key have the same future, so a search
  that has expanded one representative of every reached key without accepting has shown that
  nothing is accepted. The interpretation is on the step relation of the automaton and the keys of
  the executor (position, state, repetition identity). The result: a match is an accepting path
  from the leftmost start that has one, and a rejection means that no start has one.
\<close>

section \<open>Memoised search\<close>

definition covered :: "('c \<Rightarrow> 'c \<Rightarrow> bool) \<Rightarrow> 'c set \<Rightarrow> 'c \<Rightarrow> bool" where
  "covered alike S c \<longleftrightarrow> (\<exists>d\<in>S. alike c d)"

text \<open>The expanded configurations \<open>S\<close> accept nothing and lead only to expanded or pending ones.\<close>

definition search_closed ::
  "('c \<Rightarrow> 'c \<Rightarrow> bool) \<Rightarrow> ('c \<Rightarrow> bool) \<Rightarrow> ('c \<Rightarrow> 'c \<Rightarrow> bool) \<Rightarrow> 'c set \<Rightarrow> 'c set \<Rightarrow> bool" where
  "search_closed step accepting alike S pending \<longleftrightarrow>
     (\<forall>c\<in>S. \<not> accepting c \<and> (\<forall>c'. step c c' \<longrightarrow> covered alike (S \<union> pending) c'))"

locale memo_search =
  fixes step :: "'c \<Rightarrow> 'c \<Rightarrow> bool" and accepting :: "'c \<Rightarrow> bool" and alike :: "'c \<Rightarrow> 'c \<Rightarrow> bool"
  assumes alike_refl: "alike c c"
    and alike_trans: "alike c d \<Longrightarrow> alike d e \<Longrightarrow> alike c e"
    and alike_step: "alike c d \<Longrightarrow> step c c' \<Longrightarrow> \<exists>d'. step d d' \<and> alike c' d'"
    and alike_accepting: "alike c d \<Longrightarrow> accepting c \<Longrightarrow> accepting d"
begin

lemma coveredI: "c \<in> S \<Longrightarrow> covered alike S c"
  using alike_refl by (auto simp: covered_def)

lemma covered_mono: "covered alike S c \<Longrightarrow> S \<subseteq> T \<Longrightarrow> covered alike T c"
  by (auto simp: covered_def)

lemma covered_shift:
  assumes "covered alike (insert d S) c" "covered alike T d" "S \<subseteq> T"
  shows "covered alike T c"
  using assms by (auto simp: covered_def intro: alike_trans)

lemma closed_empty: "search_closed step accepting alike {} pending"
  by (simp add: search_closed_def)

lemma closed_mono: "search_closed step accepting alike S pending \<Longrightarrow> pending \<subseteq> pending' \<Longrightarrow> search_closed step accepting alike S pending'"
  unfolding search_closed_def by (meson Un_mono covered_mono subset_refl)

lemma closed_skip:
  assumes "search_closed step accepting alike S (insert c pending)" "covered alike S c"
  shows "search_closed step accepting alike S pending"
  unfolding search_closed_def
proof (intro ballI conjI allI impI)
  fix d d' assume d: "d \<in> S"
  then show "\<not> accepting d" using assms(1) by (simp add: search_closed_def)
  assume "step d d'"
  with d assms(1) have "covered alike (insert c (S \<union> pending)) d'" by (simp add: search_closed_def)
  moreover have "covered alike (S \<union> pending) c" using assms(2) by (rule covered_mono) simp
  ultimately show "covered alike (S \<union> pending) d'" by (rule covered_shift) simp
qed

lemma closed_expand:
  assumes "search_closed step accepting alike S (insert c pending)" "\<not> accepting c" "\<And>c'. step c c' \<Longrightarrow> c' \<in> pushed"
  shows "search_closed step accepting alike (insert c S) (pushed \<union> pending)"
  unfolding search_closed_def
proof (intro ballI conjI allI impI)
  fix d d' assume d: "d \<in> insert c S"
  then show "\<not> accepting d" using assms(1,2) by (auto simp: search_closed_def)
  assume step: "step d d'"
  show "covered alike (insert c S \<union> (pushed \<union> pending)) d'"
  proof (cases "d = c")
    case True
    with step assms(3) show ?thesis by (auto intro: coveredI)
  next
    case False
    with d step assms(1) have "covered alike (S \<union> insert c pending) d'" by (simp add: search_closed_def)
    then show ?thesis by (rule covered_mono) auto
  qed
qed

lemma closed_rejects:
  assumes "search_closed step accepting alike S {}" "covered alike S c" "step\<^sup>*\<^sup>* c c'"
  shows "\<not> accepting c'"
  using assms(3,2)
proof (induction rule: converse_rtranclp_induct)
  case base
  with assms(1) show ?case unfolding search_closed_def covered_def using alike_accepting by blast
next
  case (step c c1)
  then obtain d where d: "d \<in> S" "alike c d" by (auto simp: covered_def)
  from alike_step[OF d(2) step.hyps(1)] obtain d1 where d1: "step d d1" "alike c1 d1" by blast
  with assms(1) d(1) have "covered alike S d1" by (simp add: search_closed_def)
  with d1(2) have "covered alike S c1" unfolding covered_def using alike_trans by blast
  then show ?case by (rule step.IH)
qed

end

section \<open>Paths of the automaton\<close>

text \<open>A configuration is a position, a state and the repetition counters.\<close>

type_synonym pattern_config = "usize \<times> state_id \<times> (state_id, usize) bmap"

definition pattern_instruction_at :: "('s, 'e) automaton \<Rightarrow> state_id \<Rightarrow> ('s, 'e) pattern_instruction option" where
  "pattern_instruction_at aut s = map_option ps_instruction (state_at_id aut s)"

definition repeat_count :: "(state_id, usize) bmap \<Rightarrow> state_id \<Rightarrow> usize" where
  "repeat_count r s = (case bm_get r s of None \<Rightarrow> 0 | Some c \<Rightarrow> c)"

definition below_maximum :: "usize \<Rightarrow> usize option \<Rightarrow> bool" where
  "below_maximum c mx = (case mx of None \<Rightarrow> True | Some m \<Rightarrow> c < m)"

inductive pattern_step ::
  "('s, 'e) automaton \<Rightarrow> 's list \<Rightarrow> ('s, 'e) span_matcher \<Rightarrow> (assertion_id \<Rightarrow> usize \<Rightarrow> bool) \<Rightarrow>
   pattern_config \<Rightarrow> pattern_config \<Rightarrow> bool"
  for aut subject ext holds where
  step_symbol: "pattern_instruction_at aut s = Some (PiSymbol x n) \<Longrightarrow> p < length subject \<Longrightarrow> subject ! p = x \<Longrightarrow>
    pattern_step aut subject ext holds (p, s, r) (p + 1, n, r)"
| step_any: "pattern_instruction_at aut s = Some (PiAny n) \<Longrightarrow> p < length subject \<Longrightarrow>
    pattern_step aut subject ext holds (p, s, r) (p + 1, n, r)"
| step_extension: "pattern_instruction_at aut s = Some (PiExtension e n) \<Longrightarrow> ext e subject p = Some q \<Longrightarrow>
    p \<le> q \<Longrightarrow> q \<le> length subject \<Longrightarrow> pattern_step aut subject ext holds (p, s, r) (q, n, r)"
| step_epsilon: "pattern_instruction_at aut s = Some (PiEpsilon n) \<Longrightarrow>
    pattern_step aut subject ext holds (p, s, r) (p, n, r)"
| step_split: "pattern_instruction_at aut s = Some (PiSplit ns) \<Longrightarrow> n \<in> set ns \<Longrightarrow>
    pattern_step aut subject ext holds (p, s, r) (p, n, r)"
| step_tag: "pattern_instruction_at aut s = Some (PiTag capture boundary n) \<Longrightarrow>
    pattern_step aut subject ext holds (p, s, r) (p, n, r)"
| step_anchor: "pattern_instruction_at aut s = Some (PiAnchor anc n) \<Longrightarrow> anchor_holds anc subject p \<Longrightarrow>
    pattern_step aut subject ext holds (p, s, r) (p, n, r)"
| step_assertion: "pattern_instruction_at aut s = Some (PiAssertion ident n) \<Longrightarrow> holds ident p \<Longrightarrow>
    pattern_step aut subject ext holds (p, s, r) (p, n, r)"
| step_body: "pattern_instruction_at aut s = Some (PiRepeat body exit mn mx greedy) \<Longrightarrow>
    below_maximum (repeat_count r s) mx \<Longrightarrow>
    pattern_step aut subject ext holds (p, s, r) (p, body, bm_insert s (repeat_count r s + 1) r)"
| step_exit: "pattern_instruction_at aut s = Some (PiRepeat body exit mn mx greedy) \<Longrightarrow> mn \<le> repeat_count r s \<Longrightarrow>
    pattern_step aut subject ext holds (p, s, r) (p, exit, bm_remove s r)"

inductive_simps pattern_step_iff: "pattern_step aut subject ext holds (p, s, r) c"

definition config_accepting :: "('s, 'e) automaton \<Rightarrow> pattern_config \<Rightarrow> bool" where
  "config_accepting aut c \<longleftrightarrow> pattern_instruction_at aut (fst (snd c)) = Some PiAccept"

definition pattern_accepts ::
  "('s, 'e) automaton \<Rightarrow> 's list \<Rightarrow> ('s, 'e) span_matcher \<Rightarrow> (assertion_id \<Rightarrow> usize \<Rightarrow> bool) \<Rightarrow> usize \<Rightarrow> usize \<Rightarrow> bool" where
  "pattern_accepts aut subject ext holds start end_at \<longleftrightarrow>
     (\<exists>s r. (pattern_step aut subject ext holds)\<^sup>*\<^sup>* (start, au_start aut, bm_empty) (end_at, s, r) \<and>
        pattern_instruction_at aut s = Some PiAccept)"

text \<open>Counters that clip to the same numbers have the same future.\<close>

definition clip_count :: "usize \<Rightarrow> usize option \<Rightarrow> usize \<Rightarrow> usize" where
  "clip_count mn mx c = (case mx of None \<Rightarrow> min c mn | Some _ \<Rightarrow> c)"

definition config_alike :: "('s, 'e) automaton \<Rightarrow> pattern_config \<Rightarrow> pattern_config \<Rightarrow> bool" where
  "config_alike aut c d \<longleftrightarrow>
     fst c = fst d \<and> fst (snd c) = fst (snd d) \<and>
     (\<forall>s body exit mn mx greedy. pattern_instruction_at aut s = Some (PiRepeat body exit mn mx greedy) \<longrightarrow>
        map_option (clip_count mn mx) (bm_get (snd (snd c)) s) = map_option (clip_count mn mx) (bm_get (snd (snd d)) s))"

lemma clip_count_facts:
  assumes "map_option (clip_count mn mx) x = map_option (clip_count mn mx) y"
  defines "c \<equiv> case x of None \<Rightarrow> 0 | Some c \<Rightarrow> c" and "d \<equiv> case y of None \<Rightarrow> 0 | Some d \<Rightarrow> d"
  shows "below_maximum c mx = below_maximum d mx" "mn \<le> c \<longleftrightarrow> mn \<le> d"
    "clip_count mn mx (c + 1) = clip_count mn mx (d + 1)"
  using assms by (auto simp: clip_count_def below_maximum_def min_def split: option.splits if_splits)

lemma config_alike_step:
  assumes "config_alike aut c d" "pattern_step aut subject ext holds c c'"
  shows "\<exists>d'. pattern_step aut subject ext holds d d' \<and> config_alike aut c' d'"
proof -
  obtain p s r where c: "c = (p, s, r)" by (cases c)
  obtain r' where d: "d = (p, s, r')" using assms(1) c by (cases d) (simp add: config_alike_def)
  have same: "pattern_instruction_at aut q = Some (PiRepeat body exit mn mx greedy) \<Longrightarrow>
      map_option (clip_count mn mx) (bm_get r q) = map_option (clip_count mn mx) (bm_get r' q)"
    for q body exit mn mx greedy
    using assms(1) c d by (simp add: config_alike_def)
  show ?thesis
    using assms(2) unfolding c
  proof cases
    case (step_body body exit mn mx greedy)
    note facts = clip_count_facts[OF same[OF step_body(2)], folded repeat_count_def]
    have "config_alike aut c' (p, body, bm_insert s (repeat_count r' s + 1) r')"
      using step_body(1,2) same facts(3) by (auto simp: config_alike_def)
    moreover have "pattern_step aut subject ext holds d (p, body, bm_insert s (repeat_count r' s + 1) r')"
      using step_body(3) facts(1) unfolding d by (intro pattern_step.step_body[OF step_body(2)]) simp
    ultimately show ?thesis by blast
  next
    case (step_exit body exit mn mx greedy)
    note facts = clip_count_facts[OF same[OF step_exit(2)], folded repeat_count_def]
    have "config_alike aut c' (p, exit, bm_remove s r')"
      using step_exit(1) same by (auto simp: config_alike_def)
    moreover have "pattern_step aut subject ext holds d (p, exit, bm_remove s r')"
      using step_exit(2,3) facts(2) unfolding d by (auto intro: pattern_step.step_exit)
    ultimately show ?thesis by blast
  qed (use same in \<open>auto simp: config_alike_def d pattern_step_iff\<close>)
qed

interpretation paths: memo_search "pattern_step aut subject ext holds" "config_accepting aut" "config_alike aut"
  for aut subject ext holds
proof
  show "config_alike aut c e" if "config_alike aut c d" "config_alike aut d e" for c d e
    using that unfolding config_alike_def by simp
  show "\<exists>d'. pattern_step aut subject ext holds d d' \<and> config_alike aut c' d'"
    if "config_alike aut c d" "pattern_step aut subject ext holds c c'" for c d c'
    using that by (rule config_alike_step)
qed (simp_all add: config_alike_def config_accepting_def)

abbreviation paths_closed ::
  "('s, 'e) automaton \<Rightarrow> 's list \<Rightarrow> ('s, 'e) span_matcher \<Rightarrow> (assertion_id \<Rightarrow> usize \<Rightarrow> bool) \<Rightarrow>
   pattern_config set \<Rightarrow> pattern_config set \<Rightarrow> bool" where
  "paths_closed aut subject ext holds \<equiv>
     search_closed (pattern_step aut subject ext holds) (config_accepting aut) (config_alike aut)"

text \<open>Equal keys of the executor make configurations alike.\<close>

lemma repeat_identity_lookup:
  assumes "pattern_instruction_at aut s = Some (PiRepeat body exit mn mx greedy)"
  shows "map_of (repeat_identity aut r) s = map_option (clip_count mn mx) (bm_get r s)"
proof -
  have "map_of (List.map_filter (repeat_entry aut) xs) s = map_option (clip_count mn mx) (map_of xs s)" for xs
  proof (induction xs)
    case (Cons entry xs)
    show ?case
    proof (cases "fst entry = s")
      case True
      with assms have "repeat_entry aut entry = Some (s, clip_count mn mx (snd entry))"
        by (auto simp: repeat_entry_def pattern_instruction_at_def clip_count_def)
      with True show ?thesis by (cases entry) (simp add: List.map_filter_simps)
    next
      case False
      have "\<And>k v. repeat_entry aut entry = Some (k, v) \<Longrightarrow> k = fst entry"
        by (auto simp: repeat_entry_def split: option.splits pattern_instruction.splits)
      with False Cons show ?thesis
        by (cases entry) (auto simp: List.map_filter_simps split: option.split)
    qed
  qed (simp add: List.map_filter_simps)
  then show ?thesis by (simp add: repeat_identity_def bm_get_eq_map_of)
qed

definition item_config :: "usize \<times> pattern_thread \<Rightarrow> pattern_config" where
  "item_config item = (fst item, th_state (snd item), th_repeats (snd item))"

definition config_key :: "('s, 'e) automaton \<Rightarrow> pattern_config \<Rightarrow> memo_key" where
  "config_key aut c = (fst c, fst (snd c), repeat_identity aut (snd (snd c)))"

lemma thread_key_config: "thread_key aut position thread = config_key aut (item_config (position, thread))"
  by (simp add: thread_key_def config_key_def item_config_def)

lemma same_key_alike: "config_key aut c = config_key aut d \<Longrightarrow> config_alike aut c d"
  unfolding config_alike_def config_key_def by (metis prod.inject repeat_identity_lookup)

section \<open>One visit\<close>

text \<open>
  What the executor relies on for assertions: a nested run that ends within its limits answers
  whether the assertion holds at the position, and an assertion does not hold when its window
  leaves the subject.
\<close>

definition assertions_answer ::
  "('s, 'e) assertion_runner \<Rightarrow> ('s, 'e) automaton \<Rightarrow> 's list \<Rightarrow> (assertion_id \<Rightarrow> usize \<Rightarrow> bool) \<Rightarrow> bool" where
  "assertions_answer run aut subject holds \<longleftrightarrow>
     (\<forall>ident program position lim. automaton_assertion aut ident = Some program \<longrightarrow>
        (if position + ap_width program \<le> length subject
         then (case run program (take (ap_width program) (drop position subject)) lim of
                 ExMatch matched _ \<Rightarrow> holds ident position \<longleftrightarrow> em_end matched = ap_width program
               | ExLimit _ _ \<Rightarrow> True
               | _ \<Rightarrow> \<not> holds ident position)
         else \<not> holds ident position))"

lemma push_at_config:
  "push_at stack position thread state = (position, thread\<lparr>th_state := state\<rparr>) # stack"
  by (simp add: push_at_def)

lemma push_split:
  "foldl (\<lambda>stack next. push_at stack position thread next) stack ns =
     rev (map (\<lambda>next. (position, thread\<lparr>th_state := next\<rparr>)) ns) @ stack"
  by (induction ns arbitrary: stack) (simp_all add: push_at_def)

lemma run_assertion_pushes:
  assumes "pattern_instruction_at aut (th_state thread) = Some (PiAssertion ident n)"
    and "assertions_answer run aut subject holds" "length subject < usize_max"
    and "run_assertion run aut subject limits ident n position thread rest receipt = Inr (stack, receipt')"
  shows "stack = (if holds ident position then [(position, thread\<lparr>th_state := n\<rparr>)] else []) @ rest"
proof -
  obtain program where program: "automaton_assertion aut ident = Some program"
    using assms(4) by (auto simp: run_assertion_def split: option.splits)
  let ?w = "ap_width program"
  note answer = assms(2)[unfolded assertions_answer_def, rule_format, OF program, of position "remaining_limits limits receipt"]
  show ?thesis
  proof (cases "position + ?w \<le> length subject")
    case True
    then have "saturating_add position ?w = position + ?w" using assms(3) by (simp add: saturating_add_def)
    with True answer assms(4) program show ?thesis
      by (auto simp: run_assertion_def push_at_def Let_def min_def split: execution_outcome.splits if_splits)
  next
    case False
    then have "\<not> saturating_add position ?w \<le> length subject"
      using assms(3) by (simp add: saturating_add_def)
    with False answer assms(4) program show ?thesis by (simp add: run_assertion_def Let_def)
  qed
qed

text \<open>A visit that goes on pushes exactly the successors of the configuration.\<close>

lemma visit_state_pushes:
  assumes "pattern_instruction_at aut (th_state thread) = Some instruction"
    and "assertions_answer run aut subject holds" "length subject < usize_max"
    and "visit_state run aut subject limits ext instruction position thread rest receipt = Inr (stack, receipt')"
  shows "\<exists>pushed. stack = pushed @ rest \<and> (\<forall>item\<in>set pushed. th_start (snd item) = th_start thread) \<and>
    item_config ` set pushed = {c. pattern_step aut subject ext holds (item_config (position, thread)) c}"
proof (cases instruction)
  case (PiAssertion ident n)
  with assms run_assertion_pushes[of aut thread ident n run subject holds limits position rest receipt stack receipt']
  have "stack = (if holds ident position then [(position, thread\<lparr>th_state := n\<rparr>)] else []) @ rest"
    by (simp add: visit_state_def)
  with assms(1) PiAssertion show ?thesis
    by (intro exI[of _ "if holds ident position then [(position, thread\<lparr>th_state := n\<rparr>)] else []"])
      (auto simp: item_config_def pattern_step_iff)
next
  case (PiRepeat body exit mn mx greedy)
  let ?r = "th_repeats thread" and ?s = "th_state thread"
  let ?body = "(position, thread\<lparr>th_repeats := bm_insert ?s (repeat_count ?r ?s + 1) ?r, th_state := body\<rparr>)"
  let ?exit = "(position, thread\<lparr>th_repeats := bm_remove ?s ?r, th_state := exit\<rparr>)"
  let ?bodies = "if below_maximum (repeat_count ?r ?s) mx then [?body] else []"
  let ?exits = "if mn \<le> repeat_count ?r ?s then [?exit] else []"
  have "stack = (if greedy then ?bodies @ ?exits else ?exits @ ?bodies) @ rest"
    using assms(4) PiRepeat
    by (auto simp: visit_state_def push_choices_def repeat_choices_def Let_def push_at_def
        repeat_count_def below_maximum_def)
  moreover have "item_config ` set (if greedy then ?bodies @ ?exits else ?exits @ ?bodies) =
      {c. pattern_step aut subject ext holds (item_config (position, thread)) c}"
    using assms(1) PiRepeat by (auto simp: item_config_def pattern_step_iff)
  ultimately show ?thesis
    by (intro exI[of _ "if greedy then ?bodies @ ?exits else ?exits @ ?bodies"]) auto
next
  case (PiExtension e n)
  show ?thesis
  proof (cases "\<exists>q. ext e subject position = Some q \<and> position \<le> q \<and> q \<le> length subject")
    case True
    then obtain q where "ext e subject position = Some q" "position \<le> q" "q \<le> length subject" by blast
    with assms PiExtension show ?thesis
      by (intro exI[of _ "[(q, thread\<lparr>th_state := n\<rparr>)]"])
        (auto simp: visit_state_def push_at_def item_config_def pattern_step_iff)
  next
    case False
    with assms PiExtension show ?thesis
      by (intro exI[of _ "[]"]) (auto simp: visit_state_def item_config_def pattern_step_iff split: option.splits)
  qed
next
  case (PiSplit ns)
  with assms show ?thesis
    by (intro exI[of _ "map (\<lambda>n. (position, thread\<lparr>th_state := n\<rparr>)) ns"])
      (auto simp: visit_state_def push_split item_config_def pattern_step_iff rev_map image_image)
next
  case (PiTag capture boundary n)
  with assms show ?thesis
    by (intro exI[of _ "[(position, thread\<lparr>th_history := tag_history capture boundary position (th_history thread), th_state := n\<rparr>)]"])
      (auto simp: visit_state_def push_at_def item_config_def pattern_step_iff split: if_splits)
next
  case (PiSymbol x n)
  with assms show ?thesis
    by (intro exI[of _ "if position < length subject \<and> subject ! position = x then [(position + 1, thread\<lparr>th_state := n\<rparr>)] else []"])
      (auto simp: visit_state_def push_at_def item_config_def pattern_step_iff)
next
  case (PiAny n)
  with assms show ?thesis
    by (intro exI[of _ "if position < length subject then [(position + 1, thread\<lparr>th_state := n\<rparr>)] else []"])
      (auto simp: visit_state_def push_at_def item_config_def pattern_step_iff)
next
  case (PiAnchor anc n)
  with assms show ?thesis
    by (intro exI[of _ "if anchor_holds anc subject position then [(position, thread\<lparr>th_state := n\<rparr>)] else []"])
      (auto simp: visit_state_def push_at_def item_config_def pattern_step_iff)
next
  case (PiEpsilon n)
  with assms show ?thesis
    by (intro exI[of _ "[(position, thread\<lparr>th_state := n\<rparr>)]"])
      (auto simp: visit_state_def push_at_def item_config_def pattern_step_iff)
qed (use assms in \<open>simp add: visit_state_def\<close>)

lemma visit_state_result:
  assumes "visit_state run aut subject limits ext instruction position thread rest receipt = Inl result"
  shows "(instruction = PiAccept \<and> (\<exists>captures. result = ExMatch \<lparr>em_start = th_start thread, em_end = position,
      em_captures = captures\<rparr> receipt)) \<or> (\<exists>limit r. result = ExLimit limit r) \<or> (\<exists>feature r. result = ExUnsupported feature r)"
  using assms by (auto simp: visit_state_def run_assertion_def Let_def
      split: pattern_instruction.splits if_splits option.splits execution_outcome.splits)

section \<open>The whole search\<close>

text \<open>
  The stack holds the threads of the start under way, then the starts still to come. \<open>settled\<close> are
  the configurations expanded before the current start, which lead nowhere; \<open>expanded\<close> are all
  expanded configurations, and \<open>under_way\<close> has at most one start.
\<close>

abbreviation start_config :: "('s, 'e) automaton \<Rightarrow> usize \<Rightarrow> pattern_config" where
  "start_config aut s \<equiv> (s, au_start aut, bm_empty)"

definition search_inv ::
  "('s, 'e) automaton \<Rightarrow> 's list \<Rightarrow> ('s, 'e) span_matcher \<Rightarrow> (assertion_id \<Rightarrow> usize \<Rightarrow> bool) \<Rightarrow> usize list \<Rightarrow>
   usize list \<Rightarrow> usize list \<Rightarrow> usize list \<Rightarrow> thread_stack \<Rightarrow> pattern_config set \<Rightarrow> pattern_config set \<Rightarrow> bool" where
  "search_inv aut subject ext holds starts finished under_way waiting active settled expanded \<longleftrightarrow>
     starts = finished @ under_way @ waiting \<and>
     (\<forall>item\<in>set active. [th_start (snd item)] = under_way \<and>
        (pattern_step aut subject ext holds)\<^sup>*\<^sup>* (start_config aut (th_start (snd item))) (item_config item)) \<and>
     settled \<subseteq> expanded \<and>
     paths_closed aut subject ext holds settled {} \<and> (\<forall>s\<in>set finished. covered (config_alike aut) settled (start_config aut s)) \<and>
     paths_closed aut subject ext holds expanded (item_config ` set active) \<and>
     (\<forall>s\<in>set under_way. covered (config_alike aut) (expanded \<union> item_config ` set active) (start_config aut s))"

definition search_answers ::
  "('s, 'e) automaton \<Rightarrow> 's list \<Rightarrow> ('s, 'e) span_matcher \<Rightarrow> (assertion_id \<Rightarrow> usize \<Rightarrow> bool) \<Rightarrow> usize list \<Rightarrow>
   execution_outcome \<Rightarrow> bool" where
  "search_answers aut subject ext holds starts result =
     (case result of
        ExMatch matched _ \<Rightarrow> \<exists>before later. starts = before @ em_start matched # later \<and>
          pattern_accepts aut subject ext holds (em_start matched) (em_end matched) \<and>
          (\<forall>s\<in>set before. \<forall>e. \<not> pattern_accepts aut subject ext holds s e)
      | ExNoMatch _ \<Rightarrow> \<forall>s\<in>set starts. \<forall>e. \<not> pattern_accepts aut subject ext holds s e
      | _ \<Rightarrow> True)"

lemma settled_rejects:
  assumes "paths_closed aut subject ext holds S {}" "covered (config_alike aut) S (start_config aut s)"
  shows "\<not> pattern_accepts aut subject ext holds s e"
  using paths.closed_rejects[OF assms] by (auto simp: pattern_accepts_def config_accepting_def)

lemma search_inv_advance:
  assumes "search_inv aut subject ext holds starts finished under_way (s # waiting) [] settled expanded"
  shows "search_inv aut subject ext holds starts (finished @ under_way) [s] waiting [(s, initial_thread aut s)] expanded expanded"
  using assms unfolding search_inv_def
  by (auto simp: item_config_def initial_thread_def intro: paths.closed_mono paths.covered_mono paths.coveredI)

lemma search_inv_skip:
  assumes "search_inv aut subject ext holds starts finished under_way waiting (item # active) settled expanded"
    and "covered (config_alike aut) expanded (item_config item)"
  shows "search_inv aut subject ext holds starts finished under_way waiting active settled expanded"
proof -
  let ?cover = "covered (config_alike aut) (expanded \<union> item_config ` set active)"
  have "?cover (start_config aut s)" if "s \<in> set under_way" for s
  proof (rule paths.covered_shift)
    show "covered (config_alike aut) (insert (item_config item) (expanded \<union> item_config ` set active)) (start_config aut s)"
      using assms(1) that by (simp add: search_inv_def)
    show "?cover (item_config item)" using assms(2) by (rule paths.covered_mono) simp
  qed simp
  moreover have "paths_closed aut subject ext holds expanded (item_config ` set active)"
    by (rule paths.closed_skip[OF _ assms(2)]) (use assms(1) in \<open>simp add: search_inv_def\<close>)
  ultimately show ?thesis using assms(1) by (simp add: search_inv_def)
qed

lemma search_inv_expand:
  assumes "search_inv aut subject ext holds starts finished under_way waiting (item # active) settled expanded"
    and "\<not> config_accepting aut (item_config item)"
    and "\<forall>new\<in>set pushed. th_start (snd new) = th_start (snd item)"
    and "item_config ` set pushed = {c. pattern_step aut subject ext holds (item_config item) c}"
  shows "search_inv aut subject ext holds starts finished under_way waiting (pushed @ active) settled
    (insert (item_config item) expanded)"
proof -
  have reached: "(pattern_step aut subject ext holds)\<^sup>*\<^sup>* (start_config aut (th_start (snd item))) (item_config new)"
    if "new \<in> set pushed" for new
  proof (rule rtranclp.rtrancl_into_rtrancl)
    show "pattern_step aut subject ext holds (item_config item) (item_config new)" using assms(4) that by blast
  qed (use assms(1) in \<open>simp add: search_inv_def\<close>)
  have "paths_closed aut subject ext holds (insert (item_config item) expanded)
      (item_config ` set pushed \<union> item_config ` set active)"
    by (rule paths.closed_expand) (use assms in \<open>auto simp: search_inv_def\<close>)
  moreover have "[th_start (snd new)] = under_way \<and>
      (pattern_step aut subject ext holds)\<^sup>*\<^sup>* (start_config aut (th_start (snd new))) (item_config new)"
    if "new \<in> set (pushed @ active)" for new
    using that assms(1,3) reached[of new] by (auto simp: search_inv_def)
  moreover have "covered (config_alike aut) (insert (item_config item) expanded \<union> item_config ` set (pushed @ active)) (start_config aut s)"
    if "s \<in> set under_way" for s
  proof (rule paths.covered_mono)
    show "covered (config_alike aut) (expanded \<union> item_config ` set (item # active)) (start_config aut s)"
      using assms(1) that by (simp add: search_inv_def)
  qed auto
  ultimately show ?thesis
    using assms(1) by (simp add: search_inv_def image_Un subset_insertI2)
qed

text \<open>The top of a non-empty stack is a thread of the start under way, after the next start has
  been taken up where necessary.\<close>

lemma search_inv_top:
  assumes "search_inv aut subject ext holds starts finished under_way waiting active settled expanded"
    and "active @ map (\<lambda>s. (s, initial_thread aut s)) waiting = item # rest"
  obtains finished' under_way' waiting' active' settled' where
    "search_inv aut subject ext holds starts finished' under_way' waiting' (item # active') settled' expanded"
    "rest = active' @ map (\<lambda>s. (s, initial_thread aut s)) waiting'"
proof (cases active)
  case Nil
  with assms(2) obtain s waiting' where w: "waiting = s # waiting'" "item = (s, initial_thread aut s)"
    "rest = map (\<lambda>s. (s, initial_thread aut s)) waiting'" by auto
  from assms(1) Nil w(1) have "search_inv aut subject ext holds starts (finished @ under_way) [s] waiting' [item] expanded expanded"
    by (simp add: w(2) search_inv_advance)
  from that[OF this] w(3) show thesis by simp
next
  case (Cons top active')
  with assms that show thesis by simp
qed

lemma search_inv_finished:
  assumes "search_inv aut subject ext holds starts finished under_way [] [] settled expanded" "s \<in> set starts"
  shows "\<not> pattern_accepts aut subject ext holds s e"
proof (rule settled_rejects)
  show "paths_closed aut subject ext holds expanded {}" using assms(1) by (simp add: search_inv_def)
  show "covered (config_alike aut) expanded (start_config aut s)"
    using assms by (auto simp: search_inv_def intro: paths.covered_mono)
qed

lemma search_inv_accept:
  assumes "search_inv aut subject ext holds starts finished under_way waiting (item # active) settled expanded"
    and "config_accepting aut (item_config item)"
  shows "\<exists>before later. starts = before @ th_start (snd item) # later \<and>
    pattern_accepts aut subject ext holds (th_start (snd item)) (fst item) \<and>
    (\<forall>s\<in>set before. \<forall>e. \<not> pattern_accepts aut subject ext holds s e)"
proof (intro exI conjI)
  have under: "[th_start (snd item)] = under_way" and
    path: "(pattern_step aut subject ext holds)\<^sup>*\<^sup>* (start_config aut (th_start (snd item))) (item_config item)"
    using assms(1) by (simp_all add: search_inv_def)
  then show "starts = finished @ th_start (snd item) # waiting"
    using assms(1) by (auto simp: search_inv_def)
  show "pattern_accepts aut subject ext holds (th_start (snd item)) (fst item)"
    using path assms(2) by (auto simp: pattern_accepts_def item_config_def config_accepting_def)
  show "\<forall>s\<in>set finished. \<forall>e. \<not> pattern_accepts aut subject ext holds s e"
    using assms(1) by (intro ballI allI settled_rejects[where S = settled]) (simp_all add: search_inv_def)
qed

lemma pattern_loop_answers:
  assumes "search_inv aut subject ext holds starts finished under_way waiting active settled expanded"
    and "current = active @ map (\<lambda>s. (s, initial_thread aut s)) waiting"
    and "seen = config_key aut ` expanded"
    and "assertions_answer run aut subject holds" "length subject < usize_max"
  shows "search_answers aut subject ext holds starts (pattern_loop run aut subject limits ext current seen receipt)"
  using assms
proof (induction run aut subject limits ext current seen receipt
    arbitrary: finished under_way waiting active settled expanded rule: pattern_loop.induct)
  case (1 run aut subject limits ext current seen receipt)
  show ?case
  proof (cases current)
    case Nil
    with 1 have "search_inv aut subject ext holds starts finished under_way [] [] settled expanded" by auto
    from search_inv_finished[OF this] Nil show ?thesis by (simp add: search_answers_def)
  next
    case (Cons item rest)
    obtain position thread where item: "item = (position, thread)" by (cases item)
    let ?key = "thread_key aut position thread"
    let ?receipt = "receipt\<lparr>er_state_visits := er_state_visits receipt + 1\<rparr>"
    obtain finished under_way waiting active settled where
      inv: "search_inv aut subject ext holds starts finished under_way waiting (item # active) settled expanded"
      and rest: "rest = active @ map (\<lambda>s. (s, initial_thread aut s)) waiting"
      using search_inv_top[OF "1.prems"(1)] "1.prems"(2) Cons by metis
    note IH = "1.IH"[OF Cons item[symmetric] refl refl]
    have key: "?key = config_key aut (item_config item)" by (simp add: item thread_key_config)
    show ?thesis
    proof (cases "?key \<in> seen")
      case True
      then have "covered (config_alike aut) expanded (item_config item)"
        unfolding covered_def key "1.prems"(3) by (auto intro: same_key_alike)
      from IH(1)[OF True search_inv_skip[OF inv this] rest "1.prems"(3-5)] True show ?thesis
        by (simp add: Cons item pattern_loop_Cons)
    next
      case False
      have seen: "insert ?key seen = config_key aut ` insert (item_config item) expanded"
        by (simp add: key "1.prems"(3))
      show ?thesis
      proof (cases "state_at_id aut (th_state thread)")
        case None
        then have none: "pattern_instruction_at aut (th_state thread) = None" by (simp add: pattern_instruction_at_def)
        have "search_inv aut subject ext holds starts finished under_way waiting ([] @ active) settled
            (insert (item_config item) expanded)"
          by (rule search_inv_expand[OF inv])
            (use none in \<open>auto simp: item item_config_def config_accepting_def pattern_step_iff\<close>)
        then have "search_inv aut subject ext holds starts finished under_way waiting active settled
            (insert (item_config item) expanded)" by simp
        from IH(2)[OF False None this rest seen "1.prems"(4,5)] False None show ?thesis
          by (simp add: Cons item pattern_loop_Cons)
      next
        case (Some state)
        then have at: "pattern_instruction_at aut (th_state thread) = Some (ps_instruction state)"
          by (simp add: pattern_instruction_at_def)
        show ?thesis
        proof (cases "visit_state run aut subject limits ext (ps_instruction state) position thread rest ?receipt")
          case (Inl result)
          then have loop: "pattern_loop run aut subject limits ext current seen receipt = result"
            using False Some by (simp add: Cons item pattern_loop_Cons)
          show ?thesis
          proof (cases "ps_instruction state = PiAccept")
            case True
            with at have "config_accepting aut (item_config item)"
              by (simp add: item item_config_def config_accepting_def)
            note accepted = search_inv_accept[OF inv this]
            obtain captures where "result = ExMatch \<lparr>em_start = th_start thread, em_end = position,
                em_captures = captures\<rparr> ?receipt"
              using True Inl by (auto simp: visit_state_def)
            with accepted show ?thesis by (simp add: loop search_answers_def item)
          next
            case False
            with visit_state_result[OF Inl] show ?thesis by (auto simp: loop search_answers_def)
          qed
        next
          case (Inr pair)
          obtain stack receipt' where pair: "pair = (stack, receipt')" by (cases pair)
          from visit_state_pushes[OF at "1.prems"(4,5) Inr[unfolded pair]] obtain pushed where
            pushed: "stack = pushed @ rest" "\<forall>new\<in>set pushed. th_start (snd new) = th_start (snd item)"
            "item_config ` set pushed = {c. pattern_step aut subject ext holds (item_config item) c}"
            by (auto simp: item)
          have "ps_instruction state \<noteq> PiAccept" using Inr by (auto simp: visit_state_def)
          then have "\<not> config_accepting aut (item_config item)"
            using at by (simp add: item item_config_def config_accepting_def)
          note inv' = search_inv_expand[OF inv this pushed(2,3)]
          have stack: "stack = (pushed @ active) @ map (\<lambda>s. (s, initial_thread aut s)) waiting"
            using pushed(1) rest by simp
          let ?next = "receipt'\<lparr>er_transitions := er_transitions receipt' + 1\<rparr>"
          show ?thesis
          proof (cases "max_steps limits \<le> er_transitions ?next")
            case True
            then show ?thesis using False Some Inr pair
              by (simp add: Cons item pattern_loop_Cons search_answers_def)
          next
            case less: False
            from IH(3)[OF False Some Inr pair[symmetric] refl less inv' stack seen "1.prems"(4,5)]
            show ?thesis using False Some Inr pair less by (simp add: Cons item pattern_loop_Cons)
          qed
        qed
      qed
    qed
  qed
qed

text \<open>The entry point starts with every start waiting.\<close>

lemma execute_inner_answers:
  assumes "assertions_answer (\<lambda>program window lim. execute_regular_inner ext (ap_automaton program) window [0] lim)
      aut subject holds"
    and "length subject < usize_max"
  shows "search_answers aut subject ext holds starts (execute_regular_inner ext aut subject starts limits)"
proof -
  have "search_inv aut subject ext holds starts [] [] starts [] {} {}"
    by (simp add: search_inv_def paths.closed_empty)
  from pattern_loop_answers[OF this _ _ assms, of _ "{}"] show ?thesis
    by (subst execute_regular_inner.simps) (simp add: Let_def search_answers_def)
qed

end
