(* ===== verification/Pattern_Language.thy ===== *)
theory Pattern_Language
  imports Pattern_Search
begin

text \<open>
  What a pattern means and that its compiled automaton means the same. \<open>ir_spans\<close> gives an
  expression the relation between the start and the end of what it matches: concatenation is
  composition, alternation is union, a repetition is the union of the powers its bounds allow. The
  compiler places the states of an expression in a contiguous block of the table, and the paths
  through that block are the spans of the expression, whatever the surrounding code and the
  counters of the enclosing repetitions.
\<close>

section \<open>The meaning of an expression\<close>

definition within_bounds :: "repeat_bounds \<Rightarrow> nat \<Rightarrow> bool" where
  "within_bounds bounds k \<longleftrightarrow> rb_min bounds \<le> k \<and> (case rb_max bounds of None \<Rightarrow> True | Some m \<Rightarrow> k \<le> m)"

fun ir_spans ::
  "(assertion_id \<Rightarrow> usize \<Rightarrow> bool) \<Rightarrow> ('s, 'e) span_matcher \<Rightarrow> 's list \<Rightarrow> ('s, 'e) ir_node \<Rightarrow> (usize \<times> usize) set" where
  "ir_spans holds ext subject (IrSymbol x) = {(p, q). q = p + 1 \<and> p < length subject \<and> subject ! p = x}"
| "ir_spans holds ext subject IrAny = {(p, q). q = p + 1 \<and> p < length subject}"
| "ir_spans holds ext subject (IrConcat nodes) = foldr (O) (map (ir_spans holds ext subject) nodes) Id"
| "ir_spans holds ext subject (IrAlternation nodes) = (\<Union>node\<in>set nodes. ir_spans holds ext subject node)"
| "ir_spans holds ext subject (IrRepeat node bounds _) =
     (\<Union>k\<in>{k. within_bounds bounds k}. ir_spans holds ext subject node ^^ k)"
| "ir_spans holds ext subject (IrGroup node) = ir_spans holds ext subject node"
| "ir_spans holds ext subject (IrCapture _ node) = ir_spans holds ext subject node"
| "ir_spans holds ext subject (IrAnchor anc) = {(p, q). q = p \<and> anchor_holds anc subject p}"
| "ir_spans holds ext subject (IrAssertion ident) = {(p, q). q = p \<and> holds ident p}"
| "ir_spans holds ext subject (IrExtension e) = {(p, q). ext e subject p = Some q \<and> p \<le> q \<and> q \<le> length subject}"

section \<open>The code of an expression\<close>

text \<open>The list cases of the builder as recursions over the children.\<close>

fun builder_alternatives ::
  "state_id \<Rightarrow> ('s, 'e) ir_node list \<Rightarrow> ('s, 'e) builder \<Rightarrow> (state_id list \<times> ('s, 'e) builder) building" where
  "builder_alternatives nxt [] states = Ok ([], states)"
| "builder_alternatives nxt (node # nodes) states =
     bind_outcome (builder_node node nxt states) (\<lambda>(entry, states).
     bind_outcome (builder_alternatives nxt nodes states) (\<lambda>(entries, states). Ok (entry # entries, states)))"

lemma for_each_single: "for_each f [x] = f x"
  by (rule ext, rename_tac s, case_tac "f x s") simp_all

lemma builder_alternatives_loop:
  "for_each (\<lambda>node (alternatives, states).
      bind_outcome (builder_node node nxt states) (\<lambda>(entry, states). Ok (alternatives @ [entry], states)))
    nodes (alternatives, states) =
   bind_outcome (builder_alternatives nxt nodes states) (\<lambda>(entries, states). Ok (alternatives @ entries, states))"
proof (induction nodes arbitrary: alternatives states)
  case (Cons node nodes)
  show ?case
  proof (cases "builder_node node nxt states")
    case (Ok pair)
    then show ?thesis
      by (cases pair, cases "builder_alternatives nxt nodes (snd pair)") (auto simp: Cons.IH)
  qed simp_all
qed simp

lemma builder_node_Alternation:
  "builder_node (IrAlternation nodes) nxt states =
     bind_outcome (builder_alternatives nxt nodes states)
       (\<lambda>(entries, states). builder_push (PiSplit entries) states)"
  using builder_alternatives_loop[of nxt nodes "[]" states]
  by (cases "builder_alternatives nxt nodes states") (auto simp: case_prod_unfold)

lemma builder_node_Concat_Nil: "builder_node (IrConcat []) nxt states = Ok (nxt, states)"
  by simp

lemma builder_node_Concat_Cons:
  "builder_node (IrConcat (node # nodes)) nxt states =
     bind_outcome (builder_node (IrConcat nodes) nxt states) (\<lambda>(tail, states). builder_node node tail states)"
  by (simp add: for_each_append for_each_single)

lemma builder_push_Ok:
  "builder_push instruction states = Ok (entry, states') \<longleftrightarrow> length states \<le> state_id_max \<and> entry = length states \<and>
     states' = states @ [\<lparr>ps_id = length states, ps_instruction = instruction\<rparr>]"
  by (auto simp: builder_push_def)

text \<open>The builder only appends, as many states as the expression needs.\<close>

fun node_states :: "('s, 'e) ir_node \<Rightarrow> nat" where
  "node_states (IrConcat nodes) = sum_list (map node_states nodes)"
| "node_states (IrAlternation nodes) = sum_list (map node_states nodes) + 1"
| "node_states (IrRepeat node _ _) = node_states node + 1"
| "node_states (IrGroup node) = node_states node"
| "node_states (IrCapture _ node) = node_states node + 2"
| "node_states _ = 1"

definition appends :: "('s, 'e) builder \<Rightarrow> ('s, 'e) builder \<Rightarrow> nat \<Rightarrow> bool" where
  "appends states states' n \<longleftrightarrow> (\<exists>code. states' = states @ code \<and> length code = n)"

lemma appends_trans: "appends s t m \<Longrightarrow> appends t u n \<Longrightarrow> appends s u (m + n)"
  by (auto simp: appends_def)

lemma appends_push: "builder_push instruction states = Ok (entry, states') \<Longrightarrow> appends states states' 1"
  by (auto simp: builder_push_Ok appends_def)

lemma builder_alternatives_appends:
  assumes "\<And>node nxt states entry states'. node \<in> set nodes \<Longrightarrow>
      builder_node node nxt states = Ok (entry, states') \<Longrightarrow> appends states states' (node_states node)"
    and "builder_alternatives nxt nodes states = Ok (entries, states')"
  shows "appends states states' (sum_list (map node_states nodes))"
  using assms
proof (induction nodes arbitrary: states entries)
  case (Cons node nodes)
  from Cons.prems(2) obtain entry states1 entries1 where
    "builder_node node nxt states = Ok (entry, states1)"
    "builder_alternatives nxt nodes states1 = Ok (entries1, states')"
    by (auto simp: outcome_simps)
  with Cons.IH[of states1 entries1] Cons.prems(1) have
    "appends states states1 (node_states node)" "appends states1 states' (sum_list (map node_states nodes))"
    by auto
  from appends_trans[OF this] show ?case by simp
qed (simp add: appends_def)

lemma builder_Concat_appends:
  assumes "\<And>node nxt states entry states'. node \<in> set nodes \<Longrightarrow>
      builder_node node nxt states = Ok (entry, states') \<Longrightarrow> appends states states' (node_states node)"
    and "builder_node (IrConcat nodes) nxt states = Ok (entry, states')"
  shows "appends states states' (sum_list (map node_states nodes))"
  using assms
proof (induction nodes arbitrary: entry states')
  case Nil
  then show ?case by (simp add: appends_def)
next
  case (Cons node nodes)
  from Cons.prems(2) obtain tail states1 where
    "builder_node (IrConcat nodes) nxt states = Ok (tail, states1)"
    "builder_node node tail states1 = Ok (entry, states')"
    unfolding builder_node_Concat_Cons by (auto simp: outcome_simps simp del: builder_node.simps)
  with Cons.IH[of tail states1] Cons.prems(1) have
    "appends states states1 (sum_list (map node_states nodes))" "appends states1 states' (node_states node)"
    by auto
  from appends_trans[OF this] show ?case by (simp add: add.commute)
qed

lemma builder_Repeat_code:
  assumes "builder_node (IrRepeat node bounds greedy) nxt states = Ok (entry, states')"
    and IH: "\<And>nxt states entry states'. builder_node node nxt states = Ok (entry, states') \<Longrightarrow>
      appends states states' (node_states node)"
  obtains body code where "entry = length states"
    "builder_node node entry (states @ [\<lparr>ps_id = entry, ps_instruction = PiEpsilon nxt\<rparr>]) =
       Ok (body, (states @ [\<lparr>ps_id = entry, ps_instruction = PiEpsilon nxt\<rparr>]) @ code)"
    "states' = states @ \<lparr>ps_id = entry,
       ps_instruction = PiRepeat body nxt (rb_min bounds) (rb_max bounds) greedy\<rparr> # code"
    "length code = node_states node"
proof -
  let ?open = "states @ [\<lparr>ps_id = length states, ps_instruction = PiEpsilon nxt\<rparr>]"
  from assms(1) obtain body states1 where b: "builder_node node (length states) ?open = Ok (body, states1)"
    "set_instruction (length states) (PiRepeat body nxt (rb_min bounds) (rb_max bounds) greedy) states1 = Ok states'"
    "entry = length states"
    by (auto simp: outcome_simps builder_push_Ok)
  from IH[OF b(1)] obtain code where "states1 = ?open @ code" "length code = node_states node"
    by (auto simp: appends_def)
  with b that show thesis by (auto simp: set_instruction_def list_update_append split: if_splits)
qed

lemma builder_node_appends:
  "builder_node node nxt states = Ok (entry, states') \<Longrightarrow> appends states states' (node_states node)"
proof (induction node arbitrary: nxt states entry states')
  case (IrConcat nodes)
  then show ?case using builder_Concat_appends[of nodes nxt states entry states'] by simp
next
  case (IrAlternation nodes)
  then obtain entries states1 where "builder_alternatives nxt nodes states = Ok (entries, states1)"
    "builder_push (PiSplit entries) states1 = Ok (entry, states')"
    unfolding builder_node_Alternation by (auto simp: outcome_simps)
  with builder_alternatives_appends[of nodes nxt states entries states1] IrAlternation.IH
  have "appends states states1 (sum_list (map node_states nodes))" "appends states1 states' 1"
    by (blast, blast intro: appends_push)
  from appends_trans[OF this] show ?case by simp
next
  case (IrRepeat node bounds greedy)
  from IrRepeat.prems IrRepeat.IH obtain code entry' instruction where
    "states' = states @ \<lparr>ps_id = entry', ps_instruction = instruction\<rparr> # code" "length code = node_states node"
    by (rule builder_Repeat_code) blast
  then show ?case by (simp add: appends_def)
next
  case (IrCapture ident node)
  then obtain states1 states2 body where
    "builder_push (PiTag ident TagEnd nxt) states = Ok (length states, states1)"
    "builder_node node (length states) states1 = Ok (body, states2)"
    "builder_push (PiTag ident TagStart body) states2 = Ok (entry, states')"
    by (auto simp: outcome_simps builder_push_Ok)
  then have "appends states states1 1" "appends states1 states2 (node_states node)" "appends states2 states' 1"
    using IrCapture.IH appends_push by blast+
  then have "appends states states' (1 + node_states node + 1)" by (metis appends_trans)
  then show ?case by simp
qed (use appends_push in fastforce)+

lemma alternatives_append:
  "builder_alternatives nxt nodes states = Ok (entries, states') \<Longrightarrow>
     appends states states' (sum_list (map node_states nodes))"
  by (rule builder_alternatives_appends) (rule builder_node_appends)

section \<open>Paths through a block of code\<close>

definition code_at :: "('s, 'e) automaton \<Rightarrow> state_id \<Rightarrow> ('s, 'e) pattern_state list \<Rightarrow> bool" where
  "code_at aut lo code \<longleftrightarrow> (\<forall>i<length code. pattern_instruction_at aut (lo + i) = Some (ps_instruction (code ! i)))"

lemma code_at_Nil [simp]: "code_at aut lo []"
  by (simp add: code_at_def)

lemma code_at_Cons [simp]:
  "code_at aut lo (x # code) \<longleftrightarrow> pattern_instruction_at aut lo = Some (ps_instruction x) \<and> code_at aut (Suc lo) code"
  by (auto simp: code_at_def nth_Cons less_Suc_eq_0_disj split: nat.splits)

lemma code_at_append [simp]:
  "code_at aut lo (code @ code') \<longleftrightarrow> code_at aut lo code \<and> code_at aut (lo + length code) code'"
  by (induction code arbitrary: lo) auto

text \<open>Acceptance at position \<open>e\<close> after exactly \<open>n\<close> steps.\<close>

definition accepts_in ::
  "('s, 'e) automaton \<Rightarrow> 's list \<Rightarrow> ('s, 'e) span_matcher \<Rightarrow> (assertion_id \<Rightarrow> usize \<Rightarrow> bool) \<Rightarrow>
   nat \<Rightarrow> pattern_config \<Rightarrow> usize \<Rightarrow> bool" where
  "accepts_in aut subject ext holds n c e \<longleftrightarrow>
     (\<exists>s r. (pattern_step aut subject ext holds ^^ n) c (e, s, r) \<and> pattern_instruction_at aut s = Some PiAccept)"

lemma accepts_in_stepE:
  assumes "accepts_in aut subject ext holds n (p, s, r) e" "pattern_instruction_at aut s \<noteq> Some PiAccept"
  obtains m c where "n = Suc m" "pattern_step aut subject ext holds (p, s, r) c" "accepts_in aut subject ext holds m c e"
proof (cases n)
  case 0
  with assms show thesis by (simp add: accepts_in_def)
next
  case (Suc m)
  from assms(1) obtain s' r' where
    "(pattern_step aut subject ext holds ^^ Suc m) (p, s, r) (e, s', r')" "pattern_instruction_at aut s' = Some PiAccept"
    unfolding Suc accepts_in_def by blast
  then show thesis using that[OF Suc] unfolding accepts_in_def by (metis relpowp_Suc_D2)
qed

definition counters_free :: "(state_id, usize) bmap \<Rightarrow> state_id \<Rightarrow> nat \<Rightarrow> bool" where
  "counters_free r lo n \<longleftrightarrow> (\<forall>k. lo \<le> k \<longrightarrow> k < lo + n \<longrightarrow> bm_get r k = None)"

text \<open>
  The block of states from \<open>lo\<close> realises the spans \<open>A\<close> between its entry and its continuation:
  every span is a path, and every accepting path from the entry begins with one. The counters of
  the block are clear at the entry and at the continuation, and all others are kept.
\<close>

definition block_exact ::
  "('s, 'e) automaton \<Rightarrow> 's list \<Rightarrow> ('s, 'e) span_matcher \<Rightarrow> (assertion_id \<Rightarrow> usize \<Rightarrow> bool) \<Rightarrow>
   (usize \<times> usize) set \<Rightarrow> state_id \<Rightarrow> state_id \<Rightarrow> state_id \<Rightarrow> nat \<Rightarrow> bool" where
  "block_exact aut subject ext holds A entry nxt lo n \<longleftrightarrow> (\<forall>r. counters_free r lo n \<longrightarrow>
     (\<forall>p q. (p, q) \<in> A \<longrightarrow> (pattern_step aut subject ext holds)\<^sup>*\<^sup>* (p, entry, r) (q, nxt, r)) \<and>
     (\<forall>p k e. accepts_in aut subject ext holds k (p, entry, r) e \<longrightarrow>
        (\<exists>q m. m \<le> k \<and> (p, q) \<in> A \<and> accepts_in aut subject ext holds m (q, nxt, r) e)))"

lemma block_exactI:
  assumes "\<And>r p q. counters_free r lo n \<Longrightarrow> (p, q) \<in> A \<Longrightarrow> (pattern_step aut subject ext holds)\<^sup>*\<^sup>* (p, entry, r) (q, nxt, r)"
    and "\<And>r p k e. counters_free r lo n \<Longrightarrow> accepts_in aut subject ext holds k (p, entry, r) e \<Longrightarrow>
      \<exists>q m. m \<le> k \<and> (p, q) \<in> A \<and> accepts_in aut subject ext holds m (q, nxt, r) e"
  shows "block_exact aut subject ext holds A entry nxt lo n"
  using assms by (simp add: block_exact_def)

lemma block_path:
  assumes "block_exact aut subject ext holds A entry nxt lo n" "counters_free r lo n" "(p, q) \<in> A"
  shows "(pattern_step aut subject ext holds)\<^sup>*\<^sup>* (p, entry, r) (q, nxt, r)"
  using assms unfolding block_exact_def by blast

lemma block_accepts:
  assumes "block_exact aut subject ext holds A entry nxt lo n" "counters_free r lo n"
    and "accepts_in aut subject ext holds k (p, entry, r) e"
  obtains q m where "m \<le> k" "(p, q) \<in> A" "accepts_in aut subject ext holds m (q, nxt, r) e"
  using assms unfolding block_exact_def by blast

lemma block_mono:
  assumes "block_exact aut subject ext holds A entry nxt lo n" "lo' \<le> lo" "lo + n \<le> lo' + n'"
  shows "block_exact aut subject ext holds A entry nxt lo' n'"
proof -
  have "counters_free r lo n" if "counters_free r lo' n'" for r
    using that assms(2,3) by (auto simp: counters_free_def)
  then show ?thesis using assms(1) unfolding block_exact_def by blast
qed

lemma block_Id: "block_exact aut subject ext holds Id nxt nxt lo n"
  by (rule block_exactI) auto

lemma block_comp:
  assumes A: "block_exact aut subject ext holds A entry mid lo n" and B: "block_exact aut subject ext holds B mid nxt lo n"
  shows "block_exact aut subject ext holds (A O B) entry nxt lo n"
proof (rule block_exactI)
  fix r p q assume free: "counters_free r lo n" and "(p, q) \<in> A O B"
  then obtain m where "(p, m) \<in> A" "(m, q) \<in> B" by blast
  from block_path[OF A free this(1)] block_path[OF B free this(2)]
  show "(pattern_step aut subject ext holds)\<^sup>*\<^sup>* (p, entry, r) (q, nxt, r)" by (rule rtranclp_trans)
next
  fix r p k e assume free: "counters_free r lo n" and "accepts_in aut subject ext holds k (p, entry, r) e"
  then obtain q1 k1 where 1: "k1 \<le> k" "(p, q1) \<in> A" "accepts_in aut subject ext holds k1 (q1, mid, r) e"
    by (rule block_accepts[OF A])
  from block_accepts[OF B free this(3)] obtain q2 k2 where
    "k2 \<le> k1" "(q1, q2) \<in> B" "accepts_in aut subject ext holds k2 (q2, nxt, r) e" .
  with 1 show "\<exists>q m. m \<le> k \<and> (p, q) \<in> A O B \<and> accepts_in aut subject ext holds m (q, nxt, r) e"
    by (meson le_trans relcompI)
qed

text \<open>One instruction whose steps are the pairs of \<open>A\<close>.\<close>

lemma block_single:
  assumes "pattern_instruction_at aut entry \<noteq> Some PiAccept"
    and step: "\<And>p r c. pattern_step aut subject ext holds (p, entry, r) c \<longleftrightarrow> (\<exists>q. c = (q, nxt, r) \<and> (p, q) \<in> A)"
  shows "block_exact aut subject ext holds A entry nxt lo n"
proof (rule block_exactI)
  show "(pattern_step aut subject ext holds)\<^sup>*\<^sup>* (p, entry, r) (q, nxt, r)" if "(p, q) \<in> A" for r p q
    using step that by blast
  fix r p k e assume "accepts_in aut subject ext holds k (p, entry, r) e"
  from accepts_in_stepE[OF this assms(1)] obtain m c where
    "k = Suc m" "pattern_step aut subject ext holds (p, entry, r) c" "accepts_in aut subject ext holds m c e" .
  moreover from this(2) obtain q where "c = (q, nxt, r)" "(p, q) \<in> A" using step by blast
  ultimately show "\<exists>q m. m \<le> k \<and> (p, q) \<in> A \<and> accepts_in aut subject ext holds m (q, nxt, r) e"
    by (metis le_SucI le_refl)
qed

text \<open>A split into blocks that all continue at the same state.\<close>

lemma block_split:
  assumes split: "pattern_instruction_at aut entry = Some (PiSplit entries)"
    and blocks: "list_all2 (\<lambda>e A. block_exact aut subject ext holds A e nxt lo n) entries As"
  shows "block_exact aut subject ext holds (\<Union> (set As)) entry nxt lo n"
proof (rule block_exactI)
  fix r p q assume free: "counters_free r lo n" and "(p, q) \<in> \<Union> (set As)"
  then obtain A where A: "A \<in> set As" "(p, q) \<in> A" by blast
  then obtain e where e: "e \<in> set entries" "block_exact aut subject ext holds A e nxt lo n"
    using blocks by (metis in_set_conv_nth list_all2_conv_all_nth)
  have "pattern_step aut subject ext holds (p, entry, r) (p, e, r)"
    using split e(1) by (rule step_split)
  with block_path[OF e(2) free A(2)]
  show "(pattern_step aut subject ext holds)\<^sup>*\<^sup>* (p, entry, r) (q, nxt, r)"
    by (meson converse_rtranclp_into_rtranclp)
next
  fix r p k x assume free: "counters_free r lo n" and acc: "accepts_in aut subject ext holds k (p, entry, r) x"
  have "pattern_instruction_at aut entry \<noteq> Some PiAccept" by (simp add: split)
  from accepts_in_stepE[OF acc this] obtain m c where
    c: "k = Suc m" "pattern_step aut subject ext holds (p, entry, r) c" "accepts_in aut subject ext holds m c x" .
  from c(2) split obtain e where "e \<in> set entries" "c = (p, e, r)" by (auto simp: pattern_step_iff)
  with c have m: "k = Suc m" "e \<in> set entries" "accepts_in aut subject ext holds m (p, e, r) x" by simp_all
  then obtain A where A: "A \<in> set As" "block_exact aut subject ext holds A e nxt lo n"
    using blocks by (metis in_set_conv_nth list_all2_conv_all_nth)
  from block_accepts[OF A(2) free m(3)] obtain q m' where
    "m' \<le> m" "(p, q) \<in> A" "accepts_in aut subject ext holds m' (q, nxt, r) x" .
  with m(1) A(1) show "\<exists>q m. m \<le> k \<and> (p, q) \<in> \<Union> (set As) \<and> accepts_in aut subject ext holds m (q, nxt, r) x"
    by (intro exI[of _ q] exI[of _ m']) auto
qed

text \<open>
  A repetition around a block: the counter of the repetition state is the number of bodies already
  run, it is dropped at the exit, and the body leaves it alone.
\<close>

lemma repeat_count_insert [simp]: "repeat_count (bm_insert s c r) s = c"
  by (simp add: repeat_count_def)

lemma remove_inserted: "bm_remove s (bm_insert s c r) = bm_remove s r"
  by (rule bm_ext) simp

lemma remove_absent: "bm_get r s = None \<Longrightarrow> bm_remove s r = r"
  by (rule bm_ext) simp

definition within_maximum :: "nat \<Rightarrow> usize option \<Rightarrow> bool" where
  "within_maximum k mx = (case mx of None \<Rightarrow> True | Some m \<Rightarrow> k \<le> m)"

lemma within_maximum_mono: "within_maximum k mx \<Longrightarrow> j \<le> k \<Longrightarrow> within_maximum j mx"
  by (auto simp: within_maximum_def split: option.splits)

lemma below_maximum_iff: "below_maximum c mx \<longleftrightarrow> within_maximum (Suc c) mx"
  by (auto simp: below_maximum_def within_maximum_def split: option.splits)

lemma counters_free_remove:
  "counters_free (bm_remove s r) (Suc s) n \<Longrightarrow> counters_free (bm_insert s c r) (Suc s) n"
  by (auto simp: counters_free_def)

lemma repeat_paths:
  assumes rep: "pattern_instruction_at aut s = Some (PiRepeat body nxt mn mx greedy)"
    and block: "block_exact aut subject ext holds A body s (Suc s) n"
    and free: "counters_free (bm_remove s r) (Suc s) n"
    and "(p, q) \<in> A ^^ k" "mn \<le> repeat_count r s + k" "within_maximum (repeat_count r s + k) mx"
  shows "(pattern_step aut subject ext holds)\<^sup>*\<^sup>* (p, s, r) (q, nxt, bm_remove s r)"
  using assms(3-)
proof (induction k arbitrary: p r)
  case 0
  then have "pattern_step aut subject ext holds (p, s, r) (p, nxt, bm_remove s r)"
    by (intro step_exit[OF rep]) simp
  with 0 show ?case by auto
next
  case (Suc k)
  let ?r = "bm_insert s (repeat_count r s + 1) r"
  from Suc.prems(2) obtain p1 where p1: "(p, p1) \<in> A" "(p1, q) \<in> A ^^ k" by (meson relpow_Suc_D2)
  have "within_maximum (Suc (repeat_count r s)) mx"
    using Suc.prems(4) by (rule within_maximum_mono) simp
  then have "pattern_step aut subject ext holds (p, s, r) (p, body, ?r)"
    by (intro step_body[OF rep]) (simp add: below_maximum_iff)
  also have "(pattern_step aut subject ext holds)\<^sup>*\<^sup>* (p, body, ?r) (p1, s, ?r)"
    by (rule block_path[OF block counters_free_remove[OF Suc.prems(1)] p1(1)])
  also have "(pattern_step aut subject ext holds)\<^sup>*\<^sup>* (p1, s, ?r) (q, nxt, bm_remove s ?r)"
    by (rule Suc.IH) (use Suc.prems p1(2) in \<open>simp_all add: remove_inserted\<close>)
  finally show ?case by (simp add: remove_inserted)
qed

lemma repeat_accepts:
  assumes rep: "pattern_instruction_at aut s = Some (PiRepeat body nxt mn mx greedy)"
    and block: "block_exact aut subject ext holds A body s (Suc s) n"
    and "counters_free (bm_remove s r) (Suc s) n" "accepts_in aut subject ext holds k (p, s, r) e"
    and "within_maximum (repeat_count r s) mx"
  shows "\<exists>q m j. m \<le> k \<and> (p, q) \<in> A ^^ j \<and> mn \<le> repeat_count r s + j \<and> within_maximum (repeat_count r s + j) mx \<and>
    accepts_in aut subject ext holds m (q, nxt, bm_remove s r) e"
  using assms(3-)
proof (induction k arbitrary: p r rule: less_induct)
  case (less k)
  have "pattern_instruction_at aut s \<noteq> Some PiAccept" by (simp add: rep)
  from accepts_in_stepE[OF less.prems(2) this] obtain k' c where
    c: "k = Suc k'" "pattern_step aut subject ext holds (p, s, r) c" "accepts_in aut subject ext holds k' c e" .
  let ?r = "bm_insert s (repeat_count r s + 1) r"
  from c(2) rep consider "c = (p, body, ?r)" "below_maximum (repeat_count r s) mx"
    | "c = (p, nxt, bm_remove s r)" "mn \<le> repeat_count r s"
    by (auto simp: pattern_step_iff)
  then show ?case
  proof cases
    case 1
    from block_accepts[OF block counters_free_remove[OF less.prems(1)] c(3)[unfolded 1(1)]] obtain p1 k1 where
      p1: "k1 \<le> k'" "(p, p1) \<in> A" "accepts_in aut subject ext holds k1 (p1, s, ?r) e" .
    have "\<exists>q m j. m \<le> k1 \<and> (p1, q) \<in> A ^^ j \<and> mn \<le> repeat_count ?r s + j \<and> within_maximum (repeat_count ?r s + j) mx \<and>
        accepts_in aut subject ext holds m (q, nxt, bm_remove s ?r) e"
      by (rule less.IH[OF _ _ p1(3)]) (use less.prems(1) p1(1) c(1) 1(2) in \<open>simp_all add: remove_inserted below_maximum_iff\<close>)
    then obtain q m j where q: "m \<le> k1" "(p1, q) \<in> A ^^ j" "mn \<le> repeat_count r s + Suc j"
      "within_maximum (repeat_count r s + Suc j) mx" "accepts_in aut subject ext holds m (q, nxt, bm_remove s r) e"
      by (auto simp: remove_inserted)
    have "(p, q) \<in> A ^^ Suc j" using p1(2) q(2) by (rule relpow_Suc_I2)
    moreover have "m \<le> k" using q(1) p1(1) c(1) by simp
    ultimately show ?thesis using q(3-5) by blast
  next
    case 2
    with c less.prems(3) show ?thesis by (intro exI[of _ p] exI[of _ k'] exI[of _ 0]) simp
  qed
qed

lemma block_repeat:
  assumes rep: "pattern_instruction_at aut s = Some (PiRepeat body nxt (rb_min bounds) (rb_max bounds) greedy)"
    and block: "block_exact aut subject ext holds A body s (Suc s) n"
  shows "block_exact aut subject ext holds (\<Union>k\<in>{k. within_bounds bounds k}. A ^^ k) s nxt s (Suc n)"
proof (rule block_exactI)
  fix r assume free: "counters_free r s (Suc n)"
  then have absent: "bm_get r s = None" and free': "counters_free r (Suc s) n"
    by (auto simp: counters_free_def)
  then have clear: "bm_remove s r = r" "repeat_count r s = 0"
    by (simp_all add: remove_absent repeat_count_def)
  have free: "counters_free (bm_remove s r) (Suc s) n" using free' clear(1) by simp
  show "(pattern_step aut subject ext holds)\<^sup>*\<^sup>* (p, s, r) (q, nxt, r)"
    if "(p, q) \<in> (\<Union>k\<in>{k. within_bounds bounds k}. A ^^ k)" for p q
  proof -
    from that obtain k where "(p, q) \<in> A ^^ k" "within_bounds bounds k" by blast
    then show ?thesis
      using repeat_paths[OF rep block free, of p q k] clear by (simp add: within_bounds_def within_maximum_def)
  qed
  fix p k e assume "accepts_in aut subject ext holds k (p, s, r) e"
  moreover have "within_maximum (repeat_count r s) (rb_max bounds)"
    by (simp add: clear within_maximum_def split: option.split)
  ultimately obtain q m j where "m \<le> k" "(p, q) \<in> A ^^ j" "rb_min bounds \<le> j" "within_maximum j (rb_max bounds)"
    "accepts_in aut subject ext holds m (q, nxt, r) e"
    using repeat_accepts[OF rep block free, of k p e] clear by auto
  moreover from this(3,4) have "within_bounds bounds j" by (simp add: within_bounds_def within_maximum_def)
  ultimately show "\<exists>q m. m \<le> k \<and> (p, q) \<in> (\<Union>k\<in>{k. within_bounds bounds k}. A ^^ k) \<and>
      accepts_in aut subject ext holds m (q, nxt, r) e"
    by blast
qed

section \<open>The code of an expression realises its spans\<close>

lemma simple_block:
  assumes "builder_push instruction states = Ok (entry, states @ code)" "code_at aut (length states) code"
    and "instruction \<noteq> PiAccept"
    and "\<And>p r c. pattern_instruction_at aut entry = Some instruction \<Longrightarrow>
      pattern_step aut subject ext holds (p, entry, r) c \<longleftrightarrow> (\<exists>q. c = (q, nxt, r) \<and> (p, q) \<in> A)"
  shows "block_exact aut subject ext holds A entry nxt lo n"
proof (rule block_single)
  have "pattern_instruction_at aut entry = Some instruction" using assms(1,2) by (auto simp: builder_push_Ok)
  then show "pattern_instruction_at aut entry \<noteq> Some PiAccept" using assms(3) by simp
  show "pattern_step aut subject ext holds (p, entry, r) c \<longleftrightarrow> (\<exists>q. c = (q, nxt, r) \<and> (p, q) \<in> A)" for p r c
    by (rule assms(4)) fact
qed

lemma builder_Concat_exact:
  assumes "\<And>node nxt states entry code. node \<in> set nodes \<Longrightarrow> builder_node node nxt states = Ok (entry, states @ code) \<Longrightarrow>
      code_at aut (length states) code \<Longrightarrow>
      block_exact aut subject ext holds (ir_spans holds ext subject node) entry nxt (length states) (length code)"
    and "builder_node (IrConcat nodes) nxt states = Ok (entry, states @ code)" "code_at aut (length states) code"
  shows "block_exact aut subject ext holds (ir_spans holds ext subject (IrConcat nodes)) entry nxt (length states) (length code)"
  using assms
proof (induction nodes arbitrary: entry code)
  case Nil
  then show ?case by (simp add: block_Id)
next
  case (Cons node nodes)
  from Cons.prems(2) obtain tail states1 where
    tail: "builder_node (IrConcat nodes) nxt states = Ok (tail, states1)" "builder_node node tail states1 = Ok (entry, states @ code)"
    unfolding builder_node_Concat_Cons by (auto simp: outcome_simps simp del: builder_node.simps)
  from builder_node_appends[OF tail(1)] builder_node_appends[OF tail(2)] obtain code1 code2 where
    codes: "states1 = states @ code1" "code = code1 @ code2"
    by (auto simp: appends_def)
  have "block_exact aut subject ext holds (ir_spans holds ext subject (IrConcat nodes)) tail nxt (length states) (length code1)"
    by (rule Cons.IH) (use Cons.prems tail(1) codes in auto)
  then have tails: "block_exact aut subject ext holds (ir_spans holds ext subject (IrConcat nodes)) tail nxt (length states) (length code)"
    by (rule block_mono) (simp_all add: codes(2))
  have "block_exact aut subject ext holds (ir_spans holds ext subject node) entry tail (length states1) (length code2)"
    by (rule Cons.prems(1)) (use Cons.prems(3) tail(2) codes in auto)
  then have "block_exact aut subject ext holds (ir_spans holds ext subject node) entry tail (length states) (length code)"
    by (rule block_mono) (simp_all add: codes)
  from block_comp[OF this tails] show ?case by simp
qed

lemma builder_alternatives_exact:
  assumes "\<And>node nxt states entry code. node \<in> set nodes \<Longrightarrow> builder_node node nxt states = Ok (entry, states @ code) \<Longrightarrow>
      code_at aut (length states) code \<Longrightarrow>
      block_exact aut subject ext holds (ir_spans holds ext subject node) entry nxt (length states) (length code)"
    and "builder_alternatives nxt nodes states = Ok (entries, states @ code)" "code_at aut (length states) code"
    and "lo \<le> length states" "length states + length code \<le> lo + n"
  shows "list_all2 (\<lambda>e A. block_exact aut subject ext holds A e nxt lo n) entries (map (ir_spans holds ext subject) nodes)"
  using assms
proof (induction nodes arbitrary: states entries code)
  case (Cons node nodes)
  from Cons.prems(2) obtain entry states1 entries1 where
    parts: "builder_node node nxt states = Ok (entry, states1)"
      "builder_alternatives nxt nodes states1 = Ok (entries1, states @ code)" "entries = entry # entries1"
    by (auto simp: outcome_simps)
  from builder_node_appends[OF parts(1)] alternatives_append[OF parts(2)]
  obtain code1 code2 where codes: "states1 = states @ code1" "code = code1 @ code2"
    by (auto simp: appends_def)
  have "block_exact aut subject ext holds (ir_spans holds ext subject node) entry nxt (length states) (length code1)"
    by (rule Cons.prems(1)) (use Cons.prems(3) parts(1) codes in auto)
  then have "block_exact aut subject ext holds (ir_spans holds ext subject node) entry nxt lo n"
    by (rule block_mono) (use Cons.prems(4,5) codes in auto)
  moreover have "list_all2 (\<lambda>e A. block_exact aut subject ext holds A e nxt lo n) entries1 (map (ir_spans holds ext subject) nodes)"
    by (rule Cons.IH[of states1 entries1 code2]) (use Cons.prems parts(2) codes in auto)
  ultimately show ?case by (simp add: parts(3))
qed simp

lemma builder_node_exact:
  assumes "builder_node node nxt states = Ok (entry, states @ code)" "code_at aut (length states) code"
  shows "block_exact aut subject ext holds (ir_spans holds ext subject node) entry nxt (length states) (length code)"
  using assms
proof (induction node arbitrary: nxt states entry code)
  case (IrConcat nodes)
  then show ?case by (intro builder_Concat_exact) auto
next
  case (IrAlternation nodes)
  from IrAlternation.prems(1) obtain entries states1 where
    parts: "builder_alternatives nxt nodes states = Ok (entries, states1)"
      "builder_push (PiSplit entries) states1 = Ok (entry, states @ code)"
    unfolding builder_node_Alternation by (auto simp: outcome_simps)
  from alternatives_append[OF parts(1)] obtain code1 where
    code1: "states1 = states @ code1" by (auto simp: appends_def)
  with parts(2) have code: "code = code1 @ [\<lparr>ps_id = entry, ps_instruction = PiSplit entries\<rparr>]" "entry = length states1"
    by (auto simp: builder_push_Ok)
  have "list_all2 (\<lambda>e A. block_exact aut subject ext holds A e nxt (length states) (length code)) entries
      (map (ir_spans holds ext subject) nodes)"
    by (rule builder_alternatives_exact[where states = states and code = code1])
      (use IrAlternation parts(1) code code1 in auto)
  then have "block_exact aut subject ext holds (\<Union> (set (map (ir_spans holds ext subject) nodes))) entry nxt (length states) (length code)"
    by (rule block_split[rotated]) (use IrAlternation.prems(2) code code1 in auto)
  then show ?case by simp
next
  case (IrRepeat node bounds greedy)
  from IrRepeat.prems(1) builder_node_appends obtain body code1 where
    parts: "entry = length states"
      "builder_node node entry (states @ [\<lparr>ps_id = entry, ps_instruction = PiEpsilon nxt\<rparr>]) =
        Ok (body, (states @ [\<lparr>ps_id = entry, ps_instruction = PiEpsilon nxt\<rparr>]) @ code1)"
      "states @ code = states @ \<lparr>ps_id = entry,
        ps_instruction = PiRepeat body nxt (rb_min bounds) (rb_max bounds) greedy\<rparr> # code1"
    by (rule builder_Repeat_code)
  have "block_exact aut subject ext holds (ir_spans holds ext subject node) body entry (Suc entry) (length code1)"
    using IrRepeat.IH[OF parts(2)] IrRepeat.prems(2) parts(1,3) by simp
  from block_repeat[OF _ this] IrRepeat.prems(2) parts(1,3) show ?case by simp
next
  case (IrCapture ident node)
  from IrCapture.prems(1) obtain states1 states2 body where
    parts: "builder_push (PiTag ident TagEnd nxt) states = Ok (length states, states1)"
    "builder_node node (length states) states1 = Ok (body, states2)"
    "builder_push (PiTag ident TagStart body) states2 = Ok (entry, states @ code)"
    by (auto simp: outcome_simps builder_push_Ok)
  from builder_node_appends[OF parts(2)] obtain code1 where code1: "states2 = states1 @ code1"
    by (auto simp: appends_def)
  with parts have code: "states1 = states @ [\<lparr>ps_id = length states, ps_instruction = PiTag ident TagEnd nxt\<rparr>]"
    "code = \<lparr>ps_id = length states, ps_instruction = PiTag ident TagEnd nxt\<rparr> # code1 @
      [\<lparr>ps_id = entry, ps_instruction = PiTag ident TagStart body\<rparr>]" "entry = length states2"
    by (auto simp: builder_push_Ok)
  have tags: "pattern_instruction_at aut (length states) = Some (PiTag ident TagEnd nxt)"
    "pattern_instruction_at aut entry = Some (PiTag ident TagStart body)" "code_at aut (length states1) code1"
    using IrCapture.prems(2) code code1 by auto
  let ?lo = "length states" and ?n = "length code"
  have "block_exact aut subject ext holds Id (length states) nxt ?lo ?n" "block_exact aut subject ext holds Id entry body ?lo ?n"
    by (rule block_single; use tags in \<open>auto simp: pattern_step_iff\<close>)+
  moreover have "block_exact aut subject ext holds (ir_spans holds ext subject node) body (length states) ?lo ?n"
    using IrCapture.IH[OF parts(2)[unfolded code1] tags(3)] by (rule block_mono) (simp_all add: code)
  ultimately have "block_exact aut subject ext holds (Id O ir_spans holds ext subject node O Id) entry nxt ?lo ?n"
    by (intro block_comp)
  then show ?case by simp
next
  case (IrGroup node)
  then show ?case by simp
next
  case (IrSymbol x)
  show ?case
    by (rule simple_block[OF IrSymbol.prems[simplified]]) (auto simp: pattern_step_iff)
next
  case IrAny
  show ?case
    by (rule simple_block[OF IrAny[simplified]]) (auto simp: pattern_step_iff)
next
  case (IrAnchor anc)
  show ?case
    by (rule simple_block[OF IrAnchor.prems[simplified]]) (auto simp: pattern_step_iff)
next
  case (IrAssertion ident)
  show ?case
    by (rule simple_block[OF IrAssertion.prems[simplified]]) (auto simp: pattern_step_iff)
next
  case (IrExtension e)
  show ?case
    by (rule simple_block[OF IrExtension.prems[simplified]]) (auto simp: pattern_step_iff)
qed

end
