(* ===== verification/Pattern_Correct.thy ===== *)
theory Pattern_Correct
  imports Pattern_Language
begin

text \<open>
  The pattern engine as a whole: the compiler preserves the meaning of a pattern, a search answers
  with the leftmost match or rejects rightly, nested runs decide fixed-width assertions, receipts
  stay within the limits, and the state table grows linearly.
\<close>

section \<open>Compiled automata accept the spans of the pattern\<close>

lemma code_at_states: "code_at (Automaton start states evidence programs) 0 states"
  by (simp add: code_at_def pattern_instruction_at_def state_at_id_def)

lemma built_accepts:
  assumes "builder_node node 0 [\<lparr>ps_id = 0, ps_instruction = PiAccept\<rparr>] = Ok (start, states)"
    and "au_start aut = start" "code_at aut 0 states"
  shows "pattern_accepts aut subject ext holds p e \<longleftrightarrow> (p, e) \<in> ir_spans holds ext subject node"
proof -
  let ?accept = "\<lparr>ps_id = 0, ps_instruction = PiAccept\<rparr> :: ('a, 'b) pattern_state"
  from builder_node_appends[OF assms(1)] obtain code where code: "states = [?accept] @ code"
    by (auto simp: appends_def)
  have accept: "pattern_instruction_at aut 0 = Some PiAccept" "code_at aut 1 code"
    using assms(3) code by simp_all
  have exact: "block_exact aut subject ext holds (ir_spans holds ext subject node) start 0 1 (length code)"
    using builder_node_exact[OF assms(1)[unfolded code]] accept(2) by simp
  have free: "counters_free bm_empty 1 (length code)" by (simp add: counters_free_def)
  have stuck: "\<not> pattern_step aut subject ext holds (q, 0, r) c" for q r c
    using accept(1) by (auto simp: pattern_step_iff)
  have stay: "e = q" if "accepts_in aut subject ext holds m (q, 0, bm_empty) e" for m q
  proof (cases m)
    case 0
    with that show ?thesis by (auto simp: accepts_in_def)
  next
    case (Suc n)
    with that obtain c where "pattern_step aut subject ext holds (q, 0, bm_empty) c"
      unfolding accepts_in_def by (metis relpowp_Suc_D2)
    with stuck show ?thesis by blast
  qed
  have "pattern_accepts aut subject ext holds p e \<longleftrightarrow> (\<exists>k. accepts_in aut subject ext holds k (p, start, bm_empty) e)"
    unfolding pattern_accepts_def accepts_in_def assms(2) rtranclp_power by blast
  also have "\<dots> \<longleftrightarrow> (p, e) \<in> ir_spans holds ext subject node"
  proof
    assume "\<exists>k. accepts_in aut subject ext holds k (p, start, bm_empty) e"
    then show "(p, e) \<in> ir_spans holds ext subject node"
      using block_accepts[OF exact free] stay by metis
  next
    assume "(p, e) \<in> ir_spans holds ext subject node"
    from block_path[OF exact free this] accept(1)
    show "\<exists>k. accepts_in aut subject ext holds k (p, start, bm_empty) e"
      unfolding accepts_in_def rtranclp_power by blast
  qed
  finally show ?thesis .
qed

lemma compile_node_Ok:
  assumes "compile_node node = Ok aut"
  obtains states where "builder_node node 0 [\<lparr>ps_id = 0, ps_instruction = PiAccept\<rparr>] = Ok (au_start aut, states)"
    "au_states aut = states" "au_assertions aut = []" "code_at aut 0 states"
  using assms by (auto simp: compile_node_def outcome_simps builder_push_Ok code_at_states)

lemma compile_node_accepts:
  assumes "compile_node node = Ok aut"
  shows "pattern_accepts aut subject ext holds p e \<longleftrightarrow> (p, e) \<in> ir_spans holds ext subject node"
  using assms by (rule compile_node_Ok) (rule built_accepts[OF _ refl])

lemma pattern_compile_Ok:
  assumes "pattern_compile ir = Ok aut"
  obtains states where
    "builder_node (ir_root ir) 0 [\<lparr>ps_id = 0, ps_instruction = PiAccept\<rparr>] = Ok (au_start aut, states)"
    "au_states aut = states" "code_at aut 0 states"
    "for_each compile_assertion (bm_entries (ir_assertions ir)) [] = Ok (au_assertions aut)"
  using assms by (auto simp: pattern_compile_def outcome_simps builder_push_Ok Let_def code_at_states)

lemma pattern_compile_accepts:
  assumes "pattern_compile ir = Ok aut"
  shows "pattern_accepts aut subject ext holds p e \<longleftrightarrow> (p, e) \<in> ir_spans holds ext subject (ir_root ir)"
  using assms by (rule pattern_compile_Ok) (rule built_accepts[OF _ refl])

section \<open>Fixed-width assertions\<close>

definition unit_width :: "('s, 'e) span_matcher \<Rightarrow> bool" where
  "unit_width ext \<longleftrightarrow> (\<forall>e subject p q. ext e subject p = Some q \<longrightarrow> q = p + 1)"

lemma unit_extension_width: "unit_width (unit_extension matches)"
  by (simp add: unit_width_def unit_extension_def)

lemma checked_fold_total:
  assumes "foldl (\<lambda>total node. case total of None \<Rightarrow> None
      | Some so_far \<Rightarrow> (case f node of None \<Rightarrow> None | Some w \<Rightarrow> checked_add so_far w)) start nodes = Some final"
  shows "\<exists>so_far ws. start = Some so_far \<and> map f nodes = map Some ws \<and> final = so_far + sum_list ws"
  using assms
proof (induction nodes arbitrary: start)
  case (Cons node nodes)
  from Cons.IH[OF Cons.prems[unfolded foldl_Cons]] show ?case
    by (auto simp: checked_add_def split: option.splits if_splits) (metis add.assoc list.simps(9) sum_list.Cons)
qed (auto intro: exI[of _ "[]"])

lemma map_Some_list_all2: "map f xs = map Some ws \<Longrightarrow> list_all2 (\<lambda>x w. f x = Some w) xs ws"
  by (induction xs arbitrary: ws) (auto simp: Cons_eq_map_conv)

lemma fixed_width_Concat:
  "fixed_width (IrConcat nodes) = Some w \<Longrightarrow> \<exists>ws. map fixed_width nodes = map Some ws \<and> w = sum_list ws"
  using checked_fold_total[of fixed_width "Some 0" nodes w] by auto

lemma fixed_width_Alternation:
  assumes "fixed_width (IrAlternation nodes) = Some w" "node \<in> set nodes"
  shows "fixed_width node = Some w"
  using assms by (cases nodes) (auto simp: list_all_iff split: option.splits if_splits)

lemma compose_widths:
  assumes "list_all2 (\<lambda>A w. \<forall>(p, q)\<in>A. q = p + w) As ws" "(p, q) \<in> foldr (O) As Id"
  shows "q = p + sum_list ws"
  using assms
proof (induction arbitrary: p rule: list_all2_induct)
  case (Cons A As w ws)
  then obtain m where m: "(p, m) \<in> A" "(m, q) \<in> foldr (O) As Id" by auto
  then have "m = p + w" using Cons.hyps(1) by blast
  with Cons.IH[OF m(2)] show ?case by (simp add: add.assoc)
qed simp

lemma power_width:
  assumes "\<forall>(p, q)\<in>A. q = p + w" "(p, q) \<in> A ^^ k"
  shows "q = p + w * k"
  using assms(2)
proof (induction k arbitrary: q)
  case (Suc k)
  then obtain m where "(p, m) \<in> A ^^ k" "(m, q) \<in> A" by auto
  with Suc.IH assms(1) show ?case by fastforce
qed simp

lemma fixed_width_spans:
  assumes "unit_width ext" "fixed_width node = Some w" "(p, q) \<in> ir_spans holds ext subject node"
  shows "q = p + w"
  using assms(2,3)
proof (induction node arbitrary: w p q)
  case (IrConcat nodes)
  then obtain ws where ws: "map fixed_width nodes = map Some ws" "w = sum_list ws"
    using fixed_width_Concat by blast
  then have "list_all2 (\<lambda>node w. fixed_width node = Some w) nodes ws"
    by (intro map_Some_list_all2)
  then have "list_all2 (\<lambda>A w. \<forall>(p, q)\<in>A. q = p + w) (map (ir_spans holds ext subject) nodes) ws"
    using IrConcat.IH by (auto simp: list_all2_conv_all_nth) (metis nth_mem)
  from compose_widths[OF this] IrConcat.prems(2) ws(2) show ?case by simp
next
  case (IrAlternation nodes)
  then obtain node where "node \<in> set nodes" "(p, q) \<in> ir_spans holds ext subject node" by auto
  with IrAlternation fixed_width_Alternation show ?case by blast
next
  case (IrRepeat node bounds greedy)
  from IrRepeat.prems(1) obtain v where v: "fixed_width node = Some v" "w = v * rb_min bounds"
    "rb_max bounds = Some (rb_min bounds)"
    by (auto simp: checked_mul_def split: if_splits option.splits)
  from IrRepeat.prems(2) v(3) have "(p, q) \<in> ir_spans holds ext subject node ^^ rb_min bounds"
    by (auto simp: within_bounds_def)
  with power_width[of "ir_spans holds ext subject node" v p q] IrRepeat.IH[OF v(1)] v(2) show ?case by blast
next
  case (IrExtension e)
  with assms(1) show ?case by (auto simp: unit_width_def)
qed auto

text \<open>A definition of fixed width refers to no assertion, so its code has none.\<close>

lemma fixed_width_no_references: "fixed_width node = Some w \<Longrightarrow> ir_references node = {}"
proof (induction node arbitrary: w)
  case (IrConcat nodes)
  from fixed_width_Concat[OF IrConcat.prems] obtain ws where "map fixed_width nodes = map Some ws" by blast
  then have "\<exists>w. fixed_width node = Some w" if "node \<in> set nodes" for node
    using that by (metis (no_types, lifting) ex_map_conv image_eqI list.set_map)
  with IrConcat.IH have "ir_references node = {}" if "node \<in> set nodes" for node using that by blast
  then show ?case by simp
next
  case (IrAlternation nodes)
  with fixed_width_Alternation[OF IrAlternation.prems] show ?case by auto
qed (auto split: if_splits option.splits)

text \<open>A state refers to no assertion outside the given ones.\<close>

definition asserts_only :: "assertion_id set \<Rightarrow> ('s, 'e) pattern_state \<Rightarrow> bool" where
  "asserts_only known state \<longleftrightarrow> (\<forall>ident n. ps_instruction state = PiAssertion ident n \<longrightarrow> ident \<in> known)"

lemma builder_asserts_only:
  "builder_node node nxt states = Ok (entry, states') \<Longrightarrow> ir_references node \<subseteq> known \<Longrightarrow>
     \<forall>s\<in>set states. asserts_only known s \<Longrightarrow> \<forall>s\<in>set states'. asserts_only known s"
proof (induction node nxt states arbitrary: entry states' rule: builder_node.induct)
  case (3 nodes nxt states)
  have "case (entry, states') of (_, states) \<Rightarrow> \<forall>s\<in>set states. asserts_only known s"
    by (rule for_each_invariant[OF "3.prems"(1)[unfolded builder_node.simps]])
      (use "3.IH" "3.prems"(2,3) in \<open>fastforce split: prod.splits\<close>)+
  then show ?case by simp
next
  case (4 nodes nxt states)
  from "4.prems"(1) obtain entries states1 where
    parts: "for_each (\<lambda>node (alternatives, states).
        bind_outcome (builder_node node nxt states) (\<lambda>(entry, states). Ok (alternatives @ [entry], states)))
      nodes ([], states) = Ok (entries, states1)" "builder_push (PiSplit entries) states1 = Ok (entry, states')"
    by (auto simp: outcome_simps)
  have "case (entries, states1) of (_, states) \<Rightarrow> \<forall>s\<in>set states. asserts_only known s"
    by (rule for_each_invariant[OF parts(1)])
      (use "4.IH" "4.prems"(2,3) in \<open>fastforce simp: outcome_simps split: prod.splits\<close>)+
  with parts(2) show ?case by (auto simp: builder_push_Ok asserts_only_def)
next
  case (5 node bounds greedy nxt states)
  from builder_Repeat_code[OF "5.prems"(1) builder_node_appends] obtain body code where
    parts: "entry = length states"
      "builder_node node entry (states @ [\<lparr>ps_id = entry, ps_instruction = PiEpsilon nxt\<rparr>]) =
        Ok (body, (states @ [\<lparr>ps_id = entry, ps_instruction = PiEpsilon nxt\<rparr>]) @ code)"
      "states' = states @ \<lparr>ps_id = entry,
        ps_instruction = PiRepeat body nxt (rb_min bounds) (rb_max bounds) greedy\<rparr> # code" .
  then have "builder_push (PiEpsilon nxt) states =
      Ok (entry, states @ [\<lparr>ps_id = entry, ps_instruction = PiEpsilon nxt\<rparr>])"
    using "5.prems"(1) by (auto simp: outcome_simps builder_push_Ok)
  from "5.IH"[OF this refl parts(2)] "5.prems"(2,3) parts(3) show ?case
    by (auto simp: asserts_only_def)
next
  case (7 ident node nxt states)
  from "7.prems"(1) obtain states1 states2 body where
    parts: "builder_push (PiTag ident TagEnd nxt) states = Ok (length states, states1)"
    "builder_node node (length states) states1 = Ok (body, states2)"
    "builder_push (PiTag ident TagStart body) states2 = Ok (entry, states')"
    by (auto simp: outcome_simps builder_push_Ok)
  from "7.IH"[OF parts(1) refl parts(2)] "7.prems"(2,3) parts(1,3) show ?case
    by (auto simp: builder_push_Ok asserts_only_def)
qed (auto simp: builder_push_Ok asserts_only_def)

section \<open>Nested runs decide assertions\<close>

text \<open>
  What the engine decides: the definition of the assertion matches the whole window of its width
  that starts at the position, and the window is a subject of its own.
\<close>

definition assertion_window_holds ::
  "('s, 'e) pattern_ir \<Rightarrow> ('s, 'e) span_matcher \<Rightarrow> 's list \<Rightarrow> assertion_id \<Rightarrow> usize \<Rightarrow> bool" where
  "assertion_window_holds ir ext subject ident p \<longleftrightarrow>
     (\<exists>node w. bm_get (ir_assertions ir) ident = Some node \<and> fixed_width node = Some w \<and>
        p + w \<le> length subject \<and> (0, w) \<in> ir_spans (\<lambda>_ _. False) ext (take w (drop p subject)) node)"

lemma compiled_programs:
  assumes "for_each compile_assertion entries programs = Ok programs'" "(ident, program) \<in> set programs'"
  shows "(ident, program) \<in> set programs \<or> (\<exists>node w aut. (ident, node) \<in> set entries \<and>
    fixed_width node = Some w \<and> compile_node node = Ok aut \<and> program = AssertionProgram aut w)"
  using assms
proof (induction entries arbitrary: programs)
  case (Cons entry entries)
  obtain key node where entry: "entry = (key, node)" by (cases entry)
  from Cons.prems(1) obtain programs1 where
    p1: "compile_assertion entry programs = Ok programs1" "for_each compile_assertion entries programs1 = Ok programs'"
    by (auto simp: outcome_simps)
  from Cons.IH[OF p1(2) Cons.prems(2)] p1(1) show ?case
    by (auto simp: entry compile_assertion_def outcome_simps split: option.splits)
qed simp

lemma visit_unsupported:
  "visit_state run aut subject limits ext instruction position thread stack receipt = Inl (ExUnsupported feature r) \<Longrightarrow>
     \<exists>ident n. instruction = PiAssertion ident n \<and> automaton_assertion aut ident = None"
  by (auto simp: visit_state_def run_assertion_def Let_def
      split: pattern_instruction.splits if_splits option.splits execution_outcome.splits)

lemma loop_unsupported:
  assumes "pattern_loop run aut subject limits ext current seen receipt = ExUnsupported feature r"
  shows "\<exists>s\<in>set (au_states aut). \<not> asserts_only {ident. automaton_assertion aut ident \<noteq> None} s"
  using assms
proof (induction run aut subject limits ext current seen receipt rule: pattern_loop.induct)
  case (1 run aut subject limits ext current seen receipt)
  from 1(4) obtain position thread rest where
    current: "current = (position, thread) # rest" by (cases current) auto
  note IH = "1.IH"[OF current refl refl refl]
  show ?case
  proof (cases "\<forall>s\<in>set (au_states aut). asserts_only {ident. automaton_assertion aut ident \<noteq> None} s")
    case False
    then show ?thesis by blast
  next
    case known: True
    have "\<nexists>feature r. visit_state run aut subject limits ext (ps_instruction state) position thread rest receipt' =
        Inl (ExUnsupported feature r)" if "state_at_id aut (th_state thread) = Some state" for state receipt'
      using that known visit_unsupported by (fastforce simp: state_at_id_def asserts_only_def split: if_splits)
    then show ?thesis
      using "1.prems" IH unfolding current pattern_loop_Cons Let_def
      by (auto split: if_splits option.splits sum.splits prod.splits)
  qed
qed

text \<open>A run is never unsupported when every assertion the pattern refers to has a program.\<close>

lemma built_supported:
  assumes "builder_node node 0 [\<lparr>ps_id = 0, ps_instruction = PiAccept\<rparr>] = Ok (start, au_states aut)"
    and "ir_references node \<subseteq> {ident. automaton_assertion aut ident \<noteq> None}"
  shows "execute_regular_inner ext aut subject starts limits \<noteq> ExUnsupported feature r"
proof -
  have "\<forall>s\<in>set (au_states aut). asserts_only {ident. automaton_assertion aut ident \<noteq> None} s"
    by (rule builder_asserts_only[OF assms]) (simp add: asserts_only_def)
  then have "pattern_loop run aut subject limits ext current seen receipt \<noteq> ExUnsupported feature r"
    for run current seen receipt
    using loop_unsupported by blast
  then show ?thesis by (subst execute_regular_inner.simps) (simp add: Let_def)
qed

lemma nested_decides:
  assumes "compile_node node = Ok aut" "fixed_width node = Some w" "unit_width ext" "length window < usize_max"
  shows "case execute_regular_inner ext aut window [0] lim of
      ExMatch matched _ \<Rightarrow> em_end matched = w \<and> (0, w) \<in> ir_spans (\<lambda>_ _. False) ext window node
    | ExLimit _ _ \<Rightarrow> True
    | ExNoMatch _ \<Rightarrow> (0, w) \<notin> ir_spans (\<lambda>_ _. False) ext window node
    | ExUnsupported _ _ \<Rightarrow> False"
proof -
  from assms(1) obtain states where built:
    "builder_node node 0 [\<lparr>ps_id = 0, ps_instruction = PiAccept\<rparr>] = Ok (au_start aut, states)"
    "au_states aut = states" "au_assertions aut = []" by (rule compile_node_Ok)
  have "execute_regular_inner ext aut window [0] lim \<noteq> ExUnsupported feature r" for feature r
    by (rule built_supported) (use built fixed_width_no_references[OF assms(2)] in auto)
  moreover have "search_answers aut window ext (\<lambda>_ _. False) [0] (execute_regular_inner ext aut window [0] lim)"
    by (rule execute_inner_answers) (use built(3) assms(4) in \<open>simp_all add: assertions_answer_def automaton_assertion_def\<close>)
  ultimately show ?thesis
    using fixed_width_spans[OF assms(3,2), of 0 _ "\<lambda>_ _. False" window]
    by (auto simp: search_answers_def compile_node_accepts[OF assms(1)] Cons_eq_append_conv split: execution_outcome.splits)
qed

lemma compiled_assertions_answer:
  assumes "pattern_compile ir = Ok aut" "unit_width ext" "length subject < usize_max"
  shows "assertions_answer (\<lambda>program window lim. execute_regular_inner ext (ap_automaton program) window [0] lim)
    aut subject (assertion_window_holds ir ext subject)"
  unfolding assertions_answer_def
proof (intro allI impI)
  fix ident program position lim
  assume "automaton_assertion aut ident = Some program"
  then have "(ident, program) \<in> set (au_assertions aut)"
    by (simp add: automaton_assertion_def map_of_SomeD)
  moreover from assms(1) have "for_each compile_assertion (bm_entries (ir_assertions ir)) [] = Ok (au_assertions aut)"
    by (rule pattern_compile_Ok)
  ultimately obtain node nested where
    parts: "bm_get (ir_assertions ir) ident = Some node" "fixed_width node = Some (ap_width program)"
      "compile_node node = Ok nested" "ap_automaton program = nested"
    using compiled_programs by (fastforce simp: bm_entries_iff)
  let ?w = "ap_width program"
  let ?window = "take ?w (drop position subject)"
  have holds: "assertion_window_holds ir ext subject ident position \<longleftrightarrow>
      position + ?w \<le> length subject \<and> (0, ?w) \<in> ir_spans (\<lambda>_ _. False) ext ?window node"
    using parts(1,2) by (auto simp: assertion_window_holds_def)
  have "length ?window < usize_max" using assms(3) by simp
  from nested_decides[OF parts(3,2) assms(2) this, of lim] parts(4)
  show "if position + ?w \<le> length subject
        then case execute_regular_inner ext (ap_automaton program) ?window [0] lim of
            ExMatch matched _ \<Rightarrow> assertion_window_holds ir ext subject ident position \<longleftrightarrow> em_end matched = ?w
          | ExLimit _ _ \<Rightarrow> True
          | _ \<Rightarrow> \<not> assertion_window_holds ir ext subject ident position
        else \<not> assertion_window_holds ir ext subject ident position"
    by (auto simp: holds split: execution_outcome.splits)
qed

section \<open>What an assertion means\<close>

text \<open>Spans only grow with the assertions that hold, and depend only on those the expression refers to.\<close>

lemma relcomp_foldr_mono: "list_all2 (\<subseteq>) As Bs \<Longrightarrow> foldr (O) As Id \<subseteq> foldr (O) Bs Id"
  by (induction rule: list_all2_induct) (auto intro: relcomp_mono)

lemma relpow_subset: "(A :: ('a \<times> 'a) set) \<subseteq> B \<Longrightarrow> A ^^ k \<subseteq> B ^^ k"
  by (induction k) (auto intro: relcomp_mono)

lemma ir_spans_mono:
  assumes "\<And>ident p. ident \<in> ir_references node \<Longrightarrow> holds ident p \<Longrightarrow> holds' ident p"
  shows "ir_spans holds ext subject node \<subseteq> ir_spans holds' ext subject node"
  using assms
proof (induction node)
  case (IrConcat nodes)
  then have "list_all2 (\<subseteq>) (map (ir_spans holds ext subject) nodes) (map (ir_spans holds' ext subject) nodes)"
    by (auto simp: list_all2_conv_all_nth) (metis (no_types, lifting) nth_mem subsetD)
  from relcomp_foldr_mono[OF this] show ?case by simp
next
  case (IrAlternation nodes)
  then show ?case by simp blast
next
  case (IrRepeat node bounds greedy)
  then have "ir_spans holds ext subject node \<subseteq> ir_spans holds' ext subject node" by simp
  from relpow_subset[OF this] show ?case by auto
qed auto

lemma ir_spans_holds_mono [mono]:
  "(\<And>ident p. holds ident p \<longrightarrow> holds' ident p) \<Longrightarrow> x \<in> ir_spans holds ext subject node \<longrightarrow> x \<in> ir_spans holds' ext subject node"
  using ir_spans_mono[of node holds holds' ext subject] by blast

text \<open>
  The documented meaning: an assertion holds at a position of the subject when its definition
  matches there, over the same subject, whose start and end are those of the anchors, and with the
  assertions the definition refers to in turn.
\<close>

inductive assertion_matches ::
  "('s, 'e) pattern_ir \<Rightarrow> ('s, 'e) span_matcher \<Rightarrow> 's list \<Rightarrow> assertion_id \<Rightarrow> usize \<Rightarrow> bool"
  for ir ext subject where
  matches_at: "bm_get (ir_assertions ir) ident = Some node \<Longrightarrow> p \<le> length subject \<Longrightarrow>
    (p, q) \<in> ir_spans (assertion_matches ir ext subject) ext subject node \<Longrightarrow> assertion_matches ir ext subject ident p"

inductive_simps assertion_matches_iff: "assertion_matches ir ext subject ident p"

text \<open>The definitions of fixed width that have no anchor, for which the window makes no difference.\<close>

fun anchor_free :: "('s, 'e) ir_node \<Rightarrow> bool" where
  "anchor_free (IrConcat nodes) = list_all anchor_free nodes"
| "anchor_free (IrAlternation nodes) = list_all anchor_free nodes"
| "anchor_free (IrRepeat node _ _) = anchor_free node"
| "anchor_free (IrGroup node) = anchor_free node"
| "anchor_free (IrCapture _ node) = anchor_free node"
| "anchor_free (IrAnchor _) = False"
| "anchor_free _ = True"

definition assertions_anchor_free :: "('s, 'e) pattern_ir \<Rightarrow> bool" where
  "assertions_anchor_free ir \<longleftrightarrow> list_all (\<lambda>(_, node). fixed_width node = None \<or> anchor_free node) (bm_entries (ir_assertions ir))"

definition forward :: "nat \<Rightarrow> (nat \<times> nat) set \<Rightarrow> bool" where
  "forward n A \<longleftrightarrow> (\<forall>(p, q)\<in>A. p \<le> q \<and> (p \<le> n \<longrightarrow> q \<le> n))"

lemma forward_relcomp: "forward n A \<Longrightarrow> forward n B \<Longrightarrow> forward n (A O B)"
  by (fastforce simp: forward_def)

lemma forward_Id [simp]: "forward n Id"
  by (auto simp: forward_def)

lemma forward_relpow: "forward n A \<Longrightarrow> forward n (A ^^ k)"
  by (induction k) (auto intro: forward_relcomp)

lemma forward_foldr: "list_all (forward n) As \<Longrightarrow> forward n (foldr (O) As Id)"
  by (induction As) (auto intro: forward_relcomp)

lemma ir_spans_forward: "forward (length subject) (ir_spans holds ext subject node)"
proof (induction node)
  case (IrConcat nodes)
  then show ?case by (auto simp: list_all_iff intro!: forward_foldr)
next
  case (IrAlternation nodes)
  then show ?case by (auto simp: forward_def)
next
  case (IrRepeat node bounds greedy)
  then show ?case using forward_relpow by (fastforce simp: forward_def)
qed (auto simp: forward_def)

text \<open>\<open>A'\<close> is what \<open>A\<close> relates inside the window of width \<open>w\<close> at \<open>p\<close>.\<close>

definition windowed :: "nat \<Rightarrow> nat \<Rightarrow> (nat \<times> nat) set \<Rightarrow> (nat \<times> nat) set \<Rightarrow> bool" where
  "windowed p w A A' \<longleftrightarrow> (\<forall>i j. i \<le> w \<longrightarrow> ((i, j) \<in> A' \<longleftrightarrow> (p + i, p + j) \<in> A \<and> j \<le> w))"

lemma windowed_Id [simp]: "windowed p w Id Id"
  by (auto simp: windowed_def)

lemma windowed_relcomp:
  assumes "windowed p w A A'" "windowed p w B B'" "forward n A" "forward n B"
  shows "windowed p w (A O B) (A' O B')"
  unfolding windowed_def
proof (intro allI impI)
  fix i j
  assume i: "i \<le> w"
  have split: "\<exists>m. k = p + m \<and> m \<le> j" if "(p + i, k) \<in> A" "(k, p + j) \<in> B" for k
    using that assms(3,4) by (intro exI[of _ "k - p"]) (fastforce simp: forward_def)
  show "(i, j) \<in> A' O B' \<longleftrightarrow> (p + i, p + j) \<in> A O B \<and> j \<le> w"
  proof
    assume "(i, j) \<in> A' O B'"
    then obtain k where "(i, k) \<in> A'" "(k, j) \<in> B'" by blast
    with assms(1,2) i show "(p + i, p + j) \<in> A O B \<and> j \<le> w" unfolding windowed_def by blast
  next
    assume ab: "(p + i, p + j) \<in> A O B \<and> j \<le> w"
    then obtain k where k: "(p + i, k) \<in> A" "(k, p + j) \<in> B" by blast
    from split[OF k] obtain m where "k = p + m" "m \<le> j" by blast
    with k ab i assms(1,2) have "(i, m) \<in> A'" "(m, j) \<in> B'" unfolding windowed_def by auto
    then show "(i, j) \<in> A' O B'" by blast
  qed
qed

lemma windowed_relpow: "windowed p w A A' \<Longrightarrow> forward n A \<Longrightarrow> windowed p w (A ^^ k) (A' ^^ k)"
  by (induction k) (auto intro: windowed_relcomp forward_relpow)

lemma windowed_foldr:
  "list_all2 (windowed p w) As As' \<Longrightarrow> list_all (forward n) As \<Longrightarrow> windowed p w (foldr (O) As Id) (foldr (O) As' Id)"
  by (induction rule: list_all2_induct) (auto intro: windowed_relcomp forward_foldr)

text \<open>An expression without anchors matches inside a window as it does in the whole subject.\<close>

lemma ir_spans_windowed:
  assumes "p + w \<le> length subject" "anchor_free node" "ir_references node = {}"
  shows "windowed p w (ir_spans holds (unit_extension matches) subject node)
    (ir_spans holds' (unit_extension matches) (take w (drop p subject)) node)"
  using assms(2,3)
proof (induction node)
  case (IrConcat nodes)
  let ?A = "map (ir_spans holds (unit_extension matches) subject) nodes"
  have "list_all2 (windowed p w) ?A (map (ir_spans holds' (unit_extension matches) (take w (drop p subject))) nodes)"
    using IrConcat by (auto simp: list_all2_conv_all_nth list_all_iff)
  moreover have "list_all (forward (length subject)) ?A" by (simp add: list_all_iff ir_spans_forward)
  ultimately show ?case using windowed_foldr by fastforce
next
  case (IrAlternation nodes)
  then have "windowed p w (ir_spans holds (unit_extension matches) subject node)
      (ir_spans holds' (unit_extension matches) (take w (drop p subject)) node)" if "node \<in> set nodes" for node
    using that by (auto simp: list_all_iff)
  then show ?case unfolding windowed_def by simp
next
  case (IrRepeat node bounds greedy)
  then have "windowed p w (ir_spans holds (unit_extension matches) subject node ^^ k)
      (ir_spans holds' (unit_extension matches) (take w (drop p subject)) node ^^ k)" for k
    using windowed_relpow[OF _ ir_spans_forward] by simp
  then show ?case unfolding windowed_def by simp
qed (use assms(1) in \<open>auto simp: windowed_def unit_extension_def split: if_splits\<close>)

lemma assertion_window_exact:
  assumes node: "bm_get (ir_assertions ir) ident = Some node" "fixed_width node = Some w" and free: "assertions_anchor_free ir"
  shows "assertion_window_holds ir (unit_extension matches) subject ident p \<longleftrightarrow> assertion_matches ir (unit_extension matches) subject ident p"
proof -
  let ?ext = "unit_extension matches"
  let ?holds = "assertion_matches ir ?ext subject"
  have "(ident, node) \<in> set (bm_entries (ir_assertions ir))" using node(1) by (simp add: bm_entries_iff)
  then have anchors: "anchor_free node" using free node(2) by (auto simp: assertions_anchor_free_def list_all_iff)
  note windowed = ir_spans_windowed[OF _ anchors fixed_width_no_references[OF node(2)], where p = p and w = w and subject = subject
    and holds = ?holds and holds' = "\<lambda>_ _. False" and matches = matches]
  have width: "q = p + w" if "(p, q) \<in> ir_spans ?holds ?ext subject node" for q
    using fixed_width_spans[OF unit_extension_width node(2) that] .
  have "?holds ident p \<longleftrightarrow> p \<le> length subject \<and> (p, p + w) \<in> ir_spans ?holds ?ext subject node"
    unfolding assertion_matches_iff[of ir ?ext subject ident p] using node(1) width by auto
  also have "\<dots> \<longleftrightarrow> p + w \<le> length subject \<and> (p, p + w) \<in> ir_spans ?holds ?ext subject node"
    using ir_spans_forward[of subject ?holds ?ext node] unfolding forward_def by fastforce
  also have "\<dots> \<longleftrightarrow> p + w \<le> length subject \<and> (0, w) \<in> ir_spans (\<lambda>_ _. False) ?ext (take w (drop p subject)) node"
    using windowed unfolding windowed_def by auto
  also have "\<dots> \<longleftrightarrow> assertion_window_holds ir ?ext subject ident p" using node by (auto simp: assertion_window_holds_def)
  finally show ?thesis by simp
qed

lemma compiled_assertions_match:
  assumes "pattern_compile ir = Ok aut" "assertions_anchor_free ir" "length subject < usize_max"
  shows "assertions_answer (\<lambda>program window lim. execute_regular_inner (unit_extension matches) (ap_automaton program) window [0] lim)
    aut subject (assertion_matches ir (unit_extension matches) subject)"
proof -
  have same: "assertion_window_holds ir (unit_extension matches) subject ident p = assertion_matches ir (unit_extension matches) subject ident p"
    if "automaton_assertion aut ident = Some program" for ident program p
  proof -
    from that have "(ident, program) \<in> set (au_assertions aut)" by (simp add: automaton_assertion_def map_of_SomeD)
    moreover from assms(1) have "for_each compile_assertion (bm_entries (ir_assertions ir)) [] = Ok (au_assertions aut)"
      by (rule pattern_compile_Ok)
    ultimately obtain node where "bm_get (ir_assertions ir) ident = Some node" "fixed_width node = Some (ap_width program)"
      using compiled_programs by (fastforce simp: bm_entries_iff)
    from assertion_window_exact[OF this assms(2)] show ?thesis .
  qed
  note answer = compiled_assertions_answer[OF assms(1) unit_extension_width[of matches] assms(3), unfolded assertions_answer_def, rule_format]
  show ?thesis
    unfolding assertions_answer_def
  proof (intro allI impI, goal_cases)
    case (1 ident program position lim)
    from answer[OF 1, of position lim] show ?case unfolding same[OF 1] .
  qed
qed

section \<open>Searching\<close>

text \<open>The spans of a validated pattern under a predicate for its one-symbol extensions.\<close>

definition pattern_spans ::
  "('s, 'e) pattern_ir \<Rightarrow> ('s, 'e) span_matcher \<Rightarrow> 's list \<Rightarrow> (usize \<times> usize) set" where
  "pattern_spans ir ext subject = ir_spans (assertion_matches ir ext subject) ext subject (ir_root ir)"

lemma execute_inner_exact:
  assumes "pattern_compile ir = Ok aut" "assertions_anchor_free ir" "length subject < usize_max"
  shows "case execute_regular_inner (unit_extension matches) aut subject starts limits of
      ExMatch matched _ \<Rightarrow> \<exists>before later. starts = before @ em_start matched # later \<and>
        (em_start matched, em_end matched) \<in> pattern_spans ir (unit_extension matches) subject \<and>
        (\<forall>s\<in>set before. \<forall>e. (s, e) \<notin> pattern_spans ir (unit_extension matches) subject)
    | ExNoMatch _ \<Rightarrow> \<forall>s\<in>set starts. \<forall>e. (s, e) \<notin> pattern_spans ir (unit_extension matches) subject
    | _ \<Rightarrow> True"
  using execute_inner_answers[OF compiled_assertions_match[OF assms, of matches] assms(3), where starts = starts and limits = limits]
  by (cases "execute_regular_inner (unit_extension matches) aut subject starts limits")
    (simp_all add: search_answers_def pattern_compile_accepts[OF assms(1)] pattern_spans_def)

lemma search_spans:
  assumes "pattern_compile ir = Ok aut" "assertions_anchor_free ir" "length subject < usize_max"
  shows "case search_regular aut subject init limits matches of
      ExMatch matched _ \<Rightarrow> init \<le> em_start matched \<and> em_start matched \<le> length subject \<and>
        (em_start matched, em_end matched) \<in> pattern_spans ir (unit_extension matches) subject \<and>
        (\<forall>s e. init \<le> s \<longrightarrow> s < em_start matched \<longrightarrow> (s, e) \<notin> pattern_spans ir (unit_extension matches) subject)
    | ExNoMatch _ \<Rightarrow> \<forall>s e. init \<le> s \<longrightarrow> s \<le> length subject \<longrightarrow> (s, e) \<notin> pattern_spans ir (unit_extension matches) subject
    | _ \<Rightarrow> True"
proof (cases "init > length subject")
  case True
  then show ?thesis by (simp add: search_regular_def)
next
  case False
  let ?starts = "[init..<length subject + 1]"
  have before: "s \<in> set before \<longleftrightarrow> init \<le> s \<and> s < m" "init \<le> m" "m \<le> length subject" if "?starts = before @ m # later" for before m later s
  proof -
    have "length before < length ?starts" using that by (metis length_append length_Cons less_add_Suc1 add_Suc_right)
    then have "before = take (length before) ?starts" "m = ?starts ! length before"
      using that by (metis append_eq_conv_conj) (metis that nth_append_length)
    with \<open>length before < length ?starts\<close> have bounds: "before = [init..<init + length before]" "m = init + length before"
      by (simp_all add: take_upt nth_upt del: upt_Suc)
    then show "s \<in> set before \<longleftrightarrow> init \<le> s \<and> s < m" by (metis atLeastLessThan_iff set_upt)
    show "init \<le> m" by (simp add: bounds(2))
    show "m \<le> length subject" using \<open>length before < length ?starts\<close> bounds(2) by (simp del: upt_Suc)
  qed
  from execute_inner_exact[OF assms, where matches = matches and starts = ?starts and limits = limits]
  show ?thesis
    using False before by (fastforce simp: search_regular_def search_spanning_def split: execution_outcome.splits simp del: upt_Suc)
qed

section \<open>Receipts and limits\<close>

fun outcome_receipt :: "execution_outcome \<Rightarrow> execution_receipt" where
  "outcome_receipt (ExMatch _ receipt) = receipt"
| "outcome_receipt (ExNoMatch receipt) = receipt"
| "outcome_receipt (ExLimit _ receipt) = receipt"
| "outcome_receipt (ExUnsupported _ receipt) = receipt"

text \<open>
  The work of a run under its limits. Transitions are checked after each of them, so a run makes
  one even under a limit of zero; the capture history is checked before a record is made.
\<close>

definition receipt_open :: "text_limits \<Rightarrow> execution_receipt \<Rightarrow> bool" where
  "receipt_open limits receipt \<longleftrightarrow>
     (er_transitions receipt < max_steps limits \<or> er_transitions receipt = 0) \<and>
     er_capture_history receipt \<le> max_capture_history limits"

definition within_limits :: "text_limits \<Rightarrow> execution_outcome \<Rightarrow> bool" where
  "within_limits limits result =
     (case result of
        ExLimit limit receipt \<Rightarrow>
          er_transitions receipt \<le> max 1 (max_steps limits) \<and>
          er_capture_history receipt \<le> max_capture_history limits \<and>
          (limit = LimitTransitions \<longrightarrow> er_transitions receipt = max 1 (max_steps limits)) \<and>
          (limit = LimitCaptureHistory \<longrightarrow> er_capture_history receipt = max_capture_history limits)
      | _ \<Rightarrow> receipt_open limits (outcome_receipt result))"

lemma within_limits_simps [simp]:
  "within_limits limits (ExMatch matched receipt) = receipt_open limits receipt"
  "within_limits limits (ExNoMatch receipt) = receipt_open limits receipt"
  "within_limits limits (ExUnsupported feature receipt) = receipt_open limits receipt"
  by (simp_all add: within_limits_def)

lemma within_limits_nested:
  assumes "within_limits (remaining_limits limits receipt) (ExLimit limit nested)" "receipt_open limits receipt"
  shows "within_limits limits (ExLimit limit (add_nested nested receipt))"
  using assms by (auto simp: within_limits_def receipt_open_def remaining_limits_def add_nested_def max_def split: if_splits)

lemma receipt_open_nested:
  assumes "receipt_open (remaining_limits limits receipt) nested" "receipt_open limits receipt"
  shows "receipt_open limits (add_nested nested receipt)"
  using assms by (auto simp: receipt_open_def remaining_limits_def add_nested_def)

lemma visit_state_within:
  assumes "\<And>program window lim. program \<in> snd ` set (au_assertions aut) \<Longrightarrow> within_limits lim (run program window lim)"
    and "receipt_open limits receipt"
  shows "case visit_state run aut subject limits ext instruction position thread stack receipt of
      Inl result \<Rightarrow> within_limits limits result
    | Inr (stack', receipt') \<Rightarrow> receipt_open limits receipt'"
proof (cases instruction)
  case (PiAssertion ident n)
  have "within_limits lim (run program window lim)"
    if "automaton_assertion aut ident = Some program" for program window lim
    using that by (intro assms(1)) (force simp: automaton_assertion_def dest: map_of_SomeD)
  note run = this[where lim = "remaining_limits limits receipt"]
  show ?thesis
  proof (cases "automaton_assertion aut ident")
    case None
    with PiAssertion assms(2) show ?thesis by (simp add: visit_state_def run_assertion_def within_limits_def)
  next
    case (Some program)
    let ?stop = "saturating_add position (ap_width program)"
    let ?window = "take (?stop - position) (drop position subject)"
    show ?thesis
      using PiAssertion Some assms(2) run[OF Some, where window = ?window] within_limits_nested receipt_open_nested
      by (cases "run program ?window (remaining_limits limits receipt)")
        (simp_all add: visit_state_def run_assertion_def Let_def)
  qed
next
  case (PiTag capture boundary n)
  with assms(2) show ?thesis by (auto simp: visit_state_def within_limits_def receipt_open_def)
qed (use assms(2) in \<open>auto simp: visit_state_def within_limits_def\<close>)

lemma pattern_loop_within:
  assumes "\<And>program window lim. program \<in> snd ` set (au_assertions aut) \<Longrightarrow> within_limits lim (run program window lim)"
    and "receipt_open limits receipt"
  shows "within_limits limits (pattern_loop run aut subject limits ext current seen receipt)"
  using assms
proof (induction run aut subject limits ext current seen receipt rule: pattern_loop.induct)
  case (1 run aut subject limits ext current seen receipt)
  show ?case
  proof (cases current)
    case Nil
    with "1.prems"(2) show ?thesis by (simp add: within_limits_def)
  next
    case (Cons item rest)
    obtain position thread where item: "item = (position, thread)" by (cases item)
    let ?receipt = "receipt\<lparr>er_state_visits := er_state_visits receipt + 1\<rparr>"
    have open_receipt: "receipt_open limits ?receipt" using "1.prems"(2) by (simp add: receipt_open_def)
    note IH = "1.IH"[OF Cons item[symmetric] refl refl]
    show ?thesis
    proof (cases "thread_key aut position thread \<in> seen \<or> state_at_id aut (th_state thread) = None")
      case True
      with IH(1,2) "1.prems"(1) open_receipt show ?thesis
        by (auto simp: Cons item pattern_loop_Cons Let_def)
    next
      case False
      then obtain state where state: "state_at_id aut (th_state thread) = Some state"
        "thread_key aut position thread \<notin> seen" by auto
      note visit = visit_state_within[of aut run limits ?receipt subject ext "ps_instruction state" position thread rest,
          OF "1.prems"(1) open_receipt]
      show ?thesis
      proof (cases "visit_state run aut subject limits ext (ps_instruction state) position thread rest ?receipt")
        case (Inl result)
        with visit state show ?thesis by (simp add: Cons item pattern_loop_Cons)
      next
        case (Inr pair)
        obtain stack receipt' where pair: "pair = (stack, receipt')" by (cases pair)
        with visit Inr have after: "receipt_open limits receipt'" by simp
        let ?next = "receipt'\<lparr>er_transitions := er_transitions receipt' + 1\<rparr>"
        show ?thesis
        proof (cases "max_steps limits \<le> er_transitions ?next")
          case True
          with after have "within_limits limits (ExLimit LimitTransitions ?next)"
            by (auto simp: within_limits_def receipt_open_def)
          with True state Inr pair show ?thesis by (simp add: Cons item pattern_loop_Cons)
        next
          case less: False
          then have "receipt_open limits ?next" using after by (simp add: receipt_open_def)
          from IH(3)[OF state(2,1) Inr pair[symmetric] refl less "1.prems"(1) this]
          show ?thesis using less state Inr pair by (simp add: Cons item pattern_loop_Cons)
        qed
      qed
    qed
  qed
qed

lemma execute_inner_within:
  "within_limits limits (execute_regular_inner ext aut subject starts limits)"
proof (induction ext aut subject starts limits rule: execute_regular_inner.induct)
  case (1 ext aut subject starts limits)
  let ?receipt = "execution_receipt_default
    \<lparr>er_state_count := ev_state_count (au_evidence aut), er_subject_symbols := length subject\<rparr>"
  have fresh: "receipt_open limits ?receipt" by (simp add: receipt_open_def execution_receipt_default_def)
  show ?case
  proof (cases "er_state_count ?receipt > max_states limits \<or> er_subject_symbols ?receipt > max_subject_symbols limits")
    case True
    then show ?thesis
      by (subst execute_regular_inner.simps) (auto simp: Let_def within_limits_def execution_receipt_default_def)
  next
    case False
    then have "within_limits limits (pattern_loop
        (\<lambda>program window lim. execute_regular_inner ext (ap_automaton program) window [0] lim)
        aut subject limits ext (map (\<lambda>start. (start, initial_thread aut start)) starts) {} ?receipt)"
      by (intro pattern_loop_within fresh 1) auto
    with False show ?thesis by (subst execute_regular_inner.simps) (simp add: Let_def)
  qed
qed

section \<open>The size of the table\<close>

fun node_count :: "('s, 'e) ir_node \<Rightarrow> nat" where
  "node_count (IrConcat nodes) = 1 + sum_list (map node_count nodes)"
| "node_count (IrAlternation nodes) = 1 + sum_list (map node_count nodes)"
| "node_count (IrRepeat node _ _) = 1 + node_count node"
| "node_count (IrGroup node) = 1 + node_count node"
| "node_count (IrCapture _ node) = 1 + node_count node"
| "node_count _ = 1"

lemma sum_list_le: "(\<And>x. x \<in> set xs \<Longrightarrow> f x \<le> 2 * g x) \<Longrightarrow> sum_list (map f xs) \<le> 2 * sum_list (map g xs)" for g :: "'a \<Rightarrow> nat"
  by (induction xs) (simp_all add: add_mono)

lemma node_states_linear: "node_states node \<le> 2 * node_count node"
proof (induction node)
  case (IrConcat nodes)
  from sum_list_le[of nodes node_states node_count, OF IrConcat] show ?case by simp
next
  case (IrAlternation nodes)
  from sum_list_le[of nodes node_states node_count, OF IrAlternation] show ?case by simp
qed simp_all

end
