(* ===== verification/Pattern_Text.thy ===== *)
theory Pattern_Text
  imports Pattern_Correct
begin

text \<open>
  The text-program layer of \<open>text_vm.rs\<close>: character classes, the operations of a text program,
  lowering a program into the pattern IR, the extension matcher for classes, balanced delimiters
  and frontiers, the translation between byte offsets and scalar positions, and the search. A
  subject is a list of Unicode scalar values; its byte length follows from UTF-8.
\<close>

type_synonym scalar = nat

abbreviation chr :: "char \<Rightarrow> scalar" where
  "chr c \<equiv> of_char c"

section \<open>Character classes\<close>

datatype text_class =
    CAlpha | CDigit | CLower | CUpper | CAlnum | CSpace | CPunct | CHex | CZero
  | CSet "scalar list" "(scalar \<times> scalar) list" "text_class list" bool
  | CNot text_class

definition is_ascii_lowercase :: "scalar \<Rightarrow> bool" where
  "is_ascii_lowercase ch \<longleftrightarrow> 97 \<le> ch \<and> ch \<le> 122"

definition is_ascii_uppercase :: "scalar \<Rightarrow> bool" where
  "is_ascii_uppercase ch \<longleftrightarrow> 65 \<le> ch \<and> ch \<le> 90"

definition is_ascii_digit :: "scalar \<Rightarrow> bool" where
  "is_ascii_digit ch \<longleftrightarrow> 48 \<le> ch \<and> ch \<le> 57"

definition is_ascii_alphabetic :: "scalar \<Rightarrow> bool" where
  "is_ascii_alphabetic ch \<longleftrightarrow> is_ascii_lowercase ch \<or> is_ascii_uppercase ch"

definition is_ascii_whitespace :: "scalar \<Rightarrow> bool" where
  "is_ascii_whitespace ch \<longleftrightarrow> ch \<in> {9, 10, 12, 13, 32}"

definition is_ascii_punctuation :: "scalar \<Rightarrow> bool" where
  "is_ascii_punctuation ch \<longleftrightarrow>
     33 \<le> ch \<and> ch \<le> 47 \<or> 58 \<le> ch \<and> ch \<le> 64 \<or> 91 \<le> ch \<and> ch \<le> 96 \<or> 123 \<le> ch \<and> ch \<le> 126"

definition is_ascii_hexdigit :: "scalar \<Rightarrow> bool" where
  "is_ascii_hexdigit ch \<longleftrightarrow> is_ascii_digit ch \<or> 65 \<le> ch \<and> ch \<le> 70 \<or> 97 \<le> ch \<and> ch \<le> 102"

fun class_matches :: "text_class \<Rightarrow> scalar \<Rightarrow> bool" where
  "class_matches CAlpha ch = is_ascii_alphabetic ch"
| "class_matches CDigit ch = is_ascii_digit ch"
| "class_matches CLower ch = is_ascii_lowercase ch"
| "class_matches CUpper ch = is_ascii_uppercase ch"
| "class_matches CAlnum ch = (is_ascii_alphabetic ch \<or> is_ascii_digit ch)"
| "class_matches CSpace ch = is_ascii_whitespace ch"
| "class_matches CPunct ch = is_ascii_punctuation ch"
| "class_matches CHex ch = is_ascii_hexdigit ch"
| "class_matches CZero ch = (ch = 0)"
| "class_matches (CSet chars ranges classes negated) ch =
     (let found = ch \<in> set chars \<or> list_ex (\<lambda>(first, last). first \<le> ch \<and> ch \<le> last) ranges \<or>
        list_ex (\<lambda>c. class_matches c ch) classes
      in if negated then \<not> found else found)"
| "class_matches (CNot c) ch = (\<not> class_matches c ch)"

section \<open>Text programs and their lowering\<close>

datatype text_op =
    OpClass text_class
  | OpLiteral scalar
  | OpAny
  | OpCaptureStart
  | OpCaptureEnd
  | OpRepeat usize "usize option" bool
  | OpBalanced scalar scalar
  | OpFrontier text_class
  | OpAnchorStart
  | OpAnchorEnd

datatype text_extension =
    TxClass text_class
  | TxBalanced scalar scalar
  | TxFrontier text_class

type_synonym text_node = "(scalar, text_extension) ir_node"

text \<open>
  The frames of open captures; the innermost frame, the last one of the vector, comes first here.
  Each frame holds its nodes in order. \<open>None\<close> is the early return of \<open>?\<close>.
\<close>

type_synonym 'n capture_frames = "'n list list"

definition push_node :: "'n \<Rightarrow> 'n capture_frames \<Rightarrow> 'n capture_frames option" where
  "push_node node frames = (case frames of [] \<Rightarrow> None | nodes # outer \<Rightarrow> Some ((nodes @ [node]) # outer))"

definition lower_op :: "text_op \<Rightarrow> text_node capture_frames \<times> capture_id \<Rightarrow> (text_node capture_frames \<times> capture_id) option" where
  "lower_op op state =
     (case state of (frames, next_capture) \<Rightarrow>
       (case op of
          OpClass c \<Rightarrow> map_option (\<lambda>fs. (fs, next_capture)) (push_node (IrExtension (TxClass c)) frames)
        | OpLiteral ch \<Rightarrow> map_option (\<lambda>fs. (fs, next_capture)) (push_node (IrSymbol ch) frames)
        | OpAny \<Rightarrow> map_option (\<lambda>fs. (fs, next_capture)) (push_node IrAny frames)
        | OpBalanced opening closing \<Rightarrow>
            map_option (\<lambda>fs. (fs, next_capture)) (push_node (IrExtension (TxBalanced opening closing)) frames)
        | OpRepeat mn mx greedy \<Rightarrow>
            (case frames of
               [] \<Rightarrow> None
             | nodes # outer \<Rightarrow>
                 if nodes = [] then None
                 else (case repeat_bounds_new mn mx of
                   Ok bounds \<Rightarrow> Some ((butlast nodes @ [IrRepeat (last nodes) bounds greedy]) # outer, next_capture)
                 | _ \<Rightarrow> None))
        | OpCaptureStart \<Rightarrow> Some ([] # frames, next_capture)
        | OpCaptureEnd \<Rightarrow>
            (if length frames = 1 then None
             else (case frames of
               [] \<Rightarrow> None
             | nodes # outer \<Rightarrow>
                 map_option (\<lambda>fs. (fs, next_capture + 1)) (push_node (IrCapture next_capture (IrConcat nodes)) outer)))
        | OpFrontier c \<Rightarrow> map_option (\<lambda>fs. (fs, next_capture)) (push_node (IrExtension (TxFrontier c)) frames)
        | OpAnchorStart \<Rightarrow> map_option (\<lambda>fs. (fs, next_capture)) (push_node (IrAnchor SubjectStart) frames)
        | OpAnchorEnd \<Rightarrow> map_option (\<lambda>fs. (fs, next_capture)) (push_node (IrAnchor SubjectEnd) frames)))"

fun lower_ops :: "text_op list \<Rightarrow> text_node capture_frames \<times> capture_id \<Rightarrow> (text_node capture_frames \<times> capture_id) option" where
  "lower_ops [] state = Some state"
| "lower_ops (op # ops) state = (case lower_op op state of None \<Rightarrow> None | Some state' \<Rightarrow> lower_ops ops state')"

definition op_extension :: "text_op \<Rightarrow> text_extension option" where
  "op_extension op =
     (case op of
        OpClass c \<Rightarrow> Some (TxClass c)
      | OpBalanced opening closing \<Rightarrow> Some (TxBalanced opening closing)
      | OpFrontier c \<Rightarrow> Some (TxFrontier c)
      | _ \<Rightarrow> None)"

text \<open>The error of the IR constructor is discarded by \<open>ok()\<close>, so its rendering does not matter.\<close>

definition lower_text_program :: "text_op list \<Rightarrow> (scalar, text_extension) pattern_ir option" where
  "lower_text_program ops =
     (case lower_ops ops ([[]], 0) of
        Some ([nodes], _) \<Rightarrow>
          (case pattern_ir_new (\<lambda>_. []) (IrConcat nodes) bm_empty
             (engine_policy_new (List.map_filter op_extension ops)) of
             Ok ir \<Rightarrow> Some ir
           | _ \<Rightarrow> None)
      | _ \<Rightarrow> None)"

section \<open>Extensions\<close>

fun balanced_scan :: "scalar list \<Rightarrow> usize \<Rightarrow> usize \<Rightarrow> scalar \<Rightarrow> scalar \<Rightarrow> usize option" where
  "balanced_scan [] index depth opening closing = None"
| "balanced_scan (ch # rest) index depth opening closing =
     (let depth = (if ch = opening then depth + 1 else depth) in
      if ch = closing
      then (let depth = depth - 1 in
            if depth = 0 then Some (index + 1) else balanced_scan rest (index + 1) depth opening closing)
      else balanced_scan rest (index + 1) depth opening closing)"

definition match_balanced :: "scalar list \<Rightarrow> usize \<Rightarrow> scalar \<Rightarrow> scalar \<Rightarrow> usize option" where
  "match_balanced text cursor opening closing =
     (if cursor < length text \<and> text ! cursor = opening
      then balanced_scan (drop cursor text) cursor 0 opening closing
      else None)"

definition class_at :: "text_class \<Rightarrow> scalar list \<Rightarrow> usize \<Rightarrow> bool" where
  "class_at c subject position \<longleftrightarrow> position < length subject \<and> class_matches c (subject ! position)"

definition text_extension_match :: "(scalar, text_extension) span_matcher" where
  "text_extension_match extension subject position =
     (case extension of
        TxClass c \<Rightarrow> if class_at c subject position then Some (position + 1) else None
      | TxBalanced opening closing \<Rightarrow> match_balanced subject position opening closing
      | TxFrontier c \<Rightarrow>
          (let previous = (position > 0 \<and> class_at c subject (position - 1));
               current = class_at c subject position
           in if \<not> previous \<and> current then Some position else None))"

section \<open>Byte offsets\<close>

record cursor_text =
  ct_chars :: "scalar list"
  ct_offsets :: "usize list"
  ct_len_bytes :: usize

definition utf8_len :: "scalar \<Rightarrow> usize" where
  "utf8_len ch = (if ch < 128 then 1 else if ch < 2048 then 2 else if ch < 65536 then 3 else 4)"

fun char_offsets :: "usize \<Rightarrow> scalar list \<Rightarrow> usize list" where
  "char_offsets offset [] = []"
| "char_offsets offset (ch # rest) = offset # char_offsets (offset + utf8_len ch) rest"

definition cursor_text_new :: "scalar list \<Rightarrow> cursor_text" where
  "cursor_text_new subject = \<lparr>ct_chars = subject, ct_offsets = char_offsets 0 subject,
     ct_len_bytes = sum_list (map utf8_len subject)\<rparr>"

fun position_of :: "usize \<Rightarrow> usize list \<Rightarrow> usize option" where
  "position_of byte [] = None"
| "position_of byte (offset # offsets) = (if offset = byte then Some 0 else map_option Suc (position_of byte offsets))"

definition cursor_for_byte :: "cursor_text \<Rightarrow> usize \<Rightarrow> usize option" where
  "cursor_for_byte text byte =
     (if byte = ct_len_bytes text then Some (length (ct_chars text)) else position_of byte (ct_offsets text))"

definition byte_for_cursor :: "cursor_text \<Rightarrow> usize \<Rightarrow> usize" where
  "byte_for_cursor text cursor =
     (if cursor < length (ct_offsets text) then ct_offsets text ! cursor else ct_len_bytes text)"

section \<open>Running a program\<close>

record text_match =
  tm_start :: usize
  tm_end :: usize
  tm_captures :: "(usize \<times> usize) list"

datatype 'm pattern_search_outcome =
    PsMatch 'm execution_receipt
  | PsNoMatch execution_receipt
  | PsLimit execution_limit execution_receipt
  | PsUnsupported unsupported_feature execution_receipt

definition text_match_of :: "cursor_text \<Rightarrow> execution_match \<Rightarrow> text_match" where
  "text_match_of text matched =
     \<lparr>tm_start = byte_for_cursor text (em_start matched), tm_end = byte_for_cursor text (em_end matched),
      tm_captures = map (\<lambda>span. (byte_for_cursor text (cs_start span), byte_for_cursor text (cs_end span)))
        (bm_values (em_captures matched))\<rparr>"

definition text_outcome :: "cursor_text \<Rightarrow> execution_outcome \<Rightarrow> text_match pattern_search_outcome" where
  "text_outcome text result =
     (case result of
        ExMatch matched receipt \<Rightarrow> PsMatch (text_match_of text matched) receipt
      | ExNoMatch receipt \<Rightarrow> PsNoMatch receipt
      | ExLimit limit receipt \<Rightarrow> PsLimit limit receipt
      | ExUnsupported feature receipt \<Rightarrow> PsUnsupported feature receipt)"

definition run_text_pattern ::
  "text_op list \<Rightarrow> scalar list \<Rightarrow> usize \<Rightarrow> text_limits \<Rightarrow> text_match pattern_search_outcome building" where
  "run_text_pattern ops subject init limits =
     (case lower_text_program ops of
        None \<Rightarrow> Ok (PsNoMatch execution_receipt_default)
      | Some ir \<Rightarrow>
          bind_outcome (pattern_compile ir) (\<lambda>aut.
            let text = cursor_text_new subject in
            case cursor_for_byte text init of
              None \<Rightarrow> Ok (PsNoMatch execution_receipt_default)
            | Some cursor \<Rightarrow>
                Ok (text_outcome text (search_spanning aut (ct_chars text) cursor limits text_extension_match))))"

section \<open>Balanced delimiters\<close>

text \<open>The nesting depth of a stretch of text.\<close>

definition balance :: "scalar \<Rightarrow> scalar \<Rightarrow> scalar list \<Rightarrow> int" where
  "balance opening closing chars = int (count_list chars opening) - int (count_list chars closing)"

lemma balance_simps [simp]:
  "balance opening closing [] = 0"
  "balance opening closing (ch # chars) =
     (if ch = opening then 1 else 0) - (if ch = closing then 1 else 0) + balance opening closing chars"
  by (simp_all add: balance_def)

text \<open>
  With distinct delimiters the scan stops at the first prefix that closes what is open: depth plus
  balance is positive on every shorter prefix and zero there.
\<close>

lemma balanced_scan_Some:
  assumes "opening \<noteq> closing" "0 < depth \<or> (\<exists>rest. chars = opening # rest)"
  shows "balanced_scan chars index depth opening closing = Some stop \<longleftrightarrow>
    (\<exists>n. 0 < n \<and> n \<le> length chars \<and> stop = index + n \<and> int depth + balance opening closing (take n chars) = 0 \<and>
      (\<forall>k. 0 < k \<longrightarrow> k < n \<longrightarrow> int depth + balance opening closing (take k chars) > 0))" (is "_ \<longleftrightarrow> ?stops chars index depth")
  using assms
proof (induction chars arbitrary: index depth)
  case (Cons ch rest)
  let ?d = "(if ch = opening then depth + 1 else depth) - (if ch = closing then 1 else 0)"
  have d: "int ?d = int depth + balance opening closing [ch]" using Cons.prems by auto
  show ?case
  proof (cases "ch = closing \<and> ?d = 0")
    case True
    then have "balanced_scan (ch # rest) index depth opening closing = Some (index + 1)"
      using Cons.prems by (auto simp: Let_def)
    moreover have "?stops (ch # rest) index depth \<longleftrightarrow> stop = index + 1"
    proof
      assume "?stops (ch # rest) index depth"
      then obtain n where n: "0 < n" "stop = index + n"
        "\<forall>k. 0 < k \<longrightarrow> k < n \<longrightarrow> int depth + balance opening closing (take k (ch # rest)) > 0" by blast
      have "\<not> 1 < n" using n(3)[rule_format, of 1] d True by auto
      with n show "stop = index + 1" by auto
    next
      assume "stop = index + 1"
      with d True show "?stops (ch # rest) index depth" by (intro exI[of _ 1]) auto
    qed
    ultimately show ?thesis by auto
  next
    case False
    then have pos: "0 < ?d" using Cons.prems by auto
    have scan: "balanced_scan (ch # rest) index depth opening closing = balanced_scan rest (index + 1) ?d opening closing"
      using False Cons.prems by (auto simp: Let_def)
    have tail: "balanced_scan rest (index + 1) ?d opening closing = Some stop \<longleftrightarrow> ?stops rest (index + 1) ?d"
      by (rule Cons.IH) (use Cons.prems(1) pos in auto)
    have shift: "?stops rest (index + 1) ?d \<longleftrightarrow> ?stops (ch # rest) index depth"
    proof
      assume "?stops rest (index + 1) ?d"
      then obtain n where n: "0 < n" "n \<le> length rest" "stop = index + 1 + n" "int ?d + balance opening closing (take n rest) = 0"
        "\<forall>k. 0 < k \<longrightarrow> k < n \<longrightarrow> int ?d + balance opening closing (take k rest) > 0" by blast
      have "int depth + balance opening closing (take k (ch # rest)) > 0" if "0 < k" "k < Suc n" for k
      proof (cases "k = 1")
        case True
        with d pos show ?thesis by simp
      next
        case False
        with that obtain j where "k = Suc j" "0 < j" "j < n" by (cases k) auto
        with n(5) d show ?thesis by (simp add: algebra_simps)
      qed
      with n d show "?stops (ch # rest) index depth" by (intro exI[of _ "Suc n"]) (auto simp: algebra_simps)
    next
      assume "?stops (ch # rest) index depth"
      then obtain n where n: "0 < n" "n \<le> Suc (length rest)" "stop = index + n"
        "int depth + balance opening closing (take n (ch # rest)) = 0"
        "\<forall>k. 0 < k \<longrightarrow> k < n \<longrightarrow> int depth + balance opening closing (take k (ch # rest)) > 0" by auto
      have "n \<noteq> 1" using n(4) d pos by auto
      with n(1) obtain m where m: "n = Suc m" "0 < m" by (cases n) auto
      have "int ?d + balance opening closing (take k rest) > 0" if "0 < k" "k < m" for k
        using n(5)[rule_format, of "Suc k"] that m d by (simp add: algebra_simps)
      with n m d show "?stops rest (index + 1) ?d" by (intro exI[of _ m]) (auto simp: algebra_simps)
    qed
    show ?thesis unfolding scan tail shift ..
  qed
qed simp

lemma match_balanced_Some:
  assumes "opening \<noteq> closing"
  shows "match_balanced chars cursor opening closing = Some stop \<longleftrightarrow>
    cursor < stop \<and> stop \<le> length chars \<and> chars ! cursor = opening \<and>
    balance opening closing (take (stop - cursor) (drop cursor chars)) = 0 \<and>
    (\<forall>k. cursor < k \<longrightarrow> k < stop \<longrightarrow> balance opening closing (take (k - cursor) (drop cursor chars)) > 0)"
    (is "_ \<longleftrightarrow> ?right")
proof (cases "cursor < length chars \<and> chars ! cursor = opening")
  case True
  then have "\<exists>rest. drop cursor chars = opening # rest" by (metis Cons_nth_drop_Suc)
  note scanned = balanced_scan_Some[OF assms disjI2[OF this], of cursor 0 stop]
  have scan: "match_balanced chars cursor opening closing = Some stop \<longleftrightarrow>
    (\<exists>n. 0 < n \<and> n \<le> length chars - cursor \<and> stop = cursor + n \<and> balance opening closing (take n (drop cursor chars)) = 0 \<and>
      (\<forall>k. 0 < k \<longrightarrow> k < n \<longrightarrow> balance opening closing (take k (drop cursor chars)) > 0))"
    using scanned True by (simp add: match_balanced_def)
  show ?thesis
  proof
    assume "match_balanced chars cursor opening closing = Some stop"
    then obtain n where n: "0 < n" "n \<le> length chars - cursor" "stop = cursor + n"
      "balance opening closing (take n (drop cursor chars)) = 0"
      "\<forall>k. 0 < k \<longrightarrow> k < n \<longrightarrow> balance opening closing (take k (drop cursor chars)) > 0" using scan by blast
    then show ?right using True by auto
  next
    assume right: ?right
    have "balance opening closing (take k (drop cursor chars)) > 0" if "0 < k" "k < stop - cursor" for k
      using right that by (auto dest!: spec[of _ "cursor + k"])
    with right show "match_balanced chars cursor opening closing = Some stop"
      unfolding scan by (intro exI[of _ "stop - cursor"]) auto
  qed
next
  case False
  then show ?thesis by (auto simp: match_balanced_def)
qed

text \<open>With equal delimiters one symbol is balanced already.\<close>

lemma match_balanced_same:
  "match_balanced chars cursor quote quote =
     (if cursor < length chars \<and> chars ! cursor = quote then Some (cursor + 1) else None)"
proof (cases "cursor < length chars \<and> chars ! cursor = quote")
  case True
  then have "drop cursor chars = quote # drop (Suc cursor) chars" by (metis Cons_nth_drop_Suc)
  with True show ?thesis by (simp add: match_balanced_def)
qed (auto simp: match_balanced_def)

section \<open>Offsets round trip\<close>

lemma char_offsets_nth:
  "i < length chars \<Longrightarrow> char_offsets start chars ! i = start + sum_list (map utf8_len (take i chars))"
proof (induction chars arbitrary: start i)
  case (Cons ch chars)
  then show ?case by (cases i) auto
qed simp

lemma char_offsets_length [simp]: "length (char_offsets start chars) = length chars"
  by (induction chars arbitrary: start) auto

lemma utf8_len_pos: "0 < utf8_len ch"
  by (simp add: utf8_len_def)

lemma byte_for_cursor_new:
  "i \<le> length subject \<Longrightarrow> byte_for_cursor (cursor_text_new subject) i = sum_list (map utf8_len (take i subject))"
  by (simp add: byte_for_cursor_def cursor_text_new_def char_offsets_nth)

lemma prefix_bytes_strict:
  assumes "i < j" "j \<le> length subject"
  shows "sum_list (map utf8_len (take i subject)) < sum_list (map utf8_len (take j subject))"
proof -
  have "take j subject = take i subject @ take (j - i) (drop i subject)"
    using assms by (metis less_imp_le_nat le_add_diff_inverse take_add)
  moreover have "take (j - i) (drop i subject) = subject ! i # take (j - Suc i) (drop (Suc i) subject)"
    using assms by (simp add: Cons_nth_drop_Suc[symmetric] take_Cons' Suc_diff_Suc)
  ultimately show ?thesis using utf8_len_pos[of "subject ! i"] by simp
qed

lemma position_of_nth: "distinct offsets \<Longrightarrow> i < length offsets \<Longrightarrow> position_of (offsets ! i) offsets = Some i"
proof (induction offsets arbitrary: i)
  case (Cons offset offsets)
  then show ?case by (cases i) (auto simp: nth_mem)
qed simp

lemma position_of_Some: "position_of byte offsets = Some i \<Longrightarrow> i < length offsets \<and> offsets ! i = byte"
  by (induction offsets arbitrary: i) (auto split: if_splits)

lemma char_offsets_distinct: "distinct (char_offsets 0 subject)"
proof -
  have "sorted_wrt (<) (char_offsets 0 subject)"
    unfolding sorted_wrt_iff_nth_less
    by (auto simp: char_offsets_nth intro: prefix_bytes_strict)
  then show ?thesis using strict_sorted_iff by blast
qed

lemma cursor_byte_round_trip:
  assumes "i \<le> length subject"
  shows "cursor_for_byte (cursor_text_new subject) (byte_for_cursor (cursor_text_new subject) i) = Some i"
proof (cases "i = length subject")
  case True
  then show ?thesis by (simp add: cursor_for_byte_def byte_for_cursor_def cursor_text_new_def)
next
  case False
  with assms have i: "i < length subject" by simp
  then have "sum_list (map utf8_len (take i subject)) < sum_list (map utf8_len subject)"
    using prefix_bytes_strict[of i "length subject" subject] by simp
  with i show ?thesis
    using position_of_nth[OF char_offsets_distinct, of i subject]
    by (simp add: cursor_for_byte_def byte_for_cursor_def cursor_text_new_def char_offsets_nth)
qed

lemma cursor_for_byte_Some:
  assumes "cursor_for_byte (cursor_text_new subject) byte = Some i"
  shows "i \<le> length subject \<and> byte_for_cursor (cursor_text_new subject) i = byte"
  using assms position_of_Some[of byte "char_offsets 0 subject" i]
  by (auto simp: cursor_for_byte_def byte_for_cursor_def cursor_text_new_def split: if_splits)

end
