(* ===== verification/Pattern_Dialect.thy ===== *)
theory Pattern_Dialect
  imports Pattern_Text "HOL-Library.Multiset"
begin

text \<open>
  The two dialects that compile to text programs: shell globs (\<open>glob_dialect.rs\<close>) and Lua patterns
  (\<open>lua_dialect.rs\<close>). Each parses its syntax into validated IR and projects the IR into a
  text program for the shared machine. The position in the pattern is the suffix still to read.
  The lemmas show that projecting and lowering again gives back the pattern that was parsed, and
  that a glob matches as a whole.
\<close>

section \<open>Errors and character sets\<close>

text \<open>\<open>Error::Eval\<close> with its message; a rendered \<open>IrError\<close> is kept as the error itself.\<close>

datatype dialect_error = EvalError string | EvalIrError string ir_error

definition glob_malformed :: "string \<Rightarrow> dialect_error" where
  "glob_malformed message = EvalError (''malformed glob pattern: '' @ message)"

definition lua_malformed :: "string \<Rightarrow> dialect_error" where
  "lua_malformed message = EvalError (''malformed Lua pattern: '' @ message)"

datatype set_item = SetLiteral scalar | SetClass text_class

definition set_escape :: "scalar \<Rightarrow> set_item" where
  "set_escape ch =
     (if ch = chr CHR ''a'' then SetClass CAlpha
      else if ch = chr CHR ''d'' then SetClass CDigit
      else if ch = chr CHR ''l'' then SetClass CLower
      else if ch = chr CHR ''u'' then SetClass CUpper
      else if ch = chr CHR ''w'' then SetClass CAlnum
      else if ch = chr CHR ''s'' then SetClass CSpace
      else if ch = chr CHR ''p'' then SetClass CPunct
      else if ch = chr CHR ''x'' then SetClass CHex
      else if ch = chr CHR ''z'' then SetClass CZero
      else SetLiteral ch)"

text \<open>One item of a set after its first character, and the end of a range that follows a literal.\<close>

definition read_set_item :: "scalar \<Rightarrow> scalar list \<Rightarrow> (set_item \<times> scalar list) option" where
  "read_set_item ch rest =
     (if ch = chr CHR ''%'' then (case rest of [] \<Rightarrow> None | escaped # rest' \<Rightarrow> Some (set_escape escaped, rest'))
      else Some (SetLiteral ch, rest))"

definition read_range_end :: "scalar list \<Rightarrow> (scalar \<times> scalar list) option" where
  "read_range_end rest =
     (case rest of
        dash # stop # rest' \<Rightarrow> if dash = chr CHR ''-'' \<and> stop \<noteq> chr CHR '']'' then Some (stop, rest') else None
      | _ \<Rightarrow> None)"

lemma read_set_item_length: "read_set_item ch rest = Some (item, rest') \<Longrightarrow> length rest' \<le> length rest"
  by (auto simp: read_set_item_def split: if_splits list.splits)

lemma read_range_end_length: "read_range_end rest = Some (stop, rest') \<Longrightarrow> length rest' \<le> length rest"
  by (auto simp: read_range_end_def split: if_splits list.splits)

function (sequential) parse_set_body ::
  "string \<Rightarrow> bool \<Rightarrow> scalar list \<Rightarrow> bool \<Rightarrow> scalar list \<Rightarrow> (scalar \<times> scalar) list \<Rightarrow> text_class list \<Rightarrow>
   (dialect_error, text_class \<times> scalar list) outcome" where
  "parse_set_body unterminated negated [] first literals ranges classes = Err (lua_malformed unterminated)"
| "parse_set_body unterminated negated (ch # rest) first literals ranges classes =
     (if ch = chr CHR '']'' \<and> \<not> first then Ok (CSet literals ranges classes negated, rest)
      else case read_set_item ch rest of
        None \<Rightarrow> Err (lua_malformed ''dangling set escape'')
      | Some (SetClass c, rest') \<Rightarrow>
          parse_set_body unterminated negated rest' False literals ranges (classes @ [c])
      | Some (SetLiteral start, rest') \<Rightarrow>
          (case read_range_end rest' of
             Some (stop, rest'') \<Rightarrow>
               parse_set_body unterminated negated rest'' False literals (ranges @ [(start, stop)]) classes
           | None \<Rightarrow> parse_set_body unterminated negated rest' False (literals @ [start]) ranges classes))"
  by pat_completeness auto
termination
  by (relation "measure (\<lambda>(unterminated, negated, rest, first, literals, ranges, classes). length rest)")
    (auto dest!: read_set_item_length read_range_end_length)

lemma parse_set_body_length:
  "parse_set_body unterminated negated rest first literals ranges classes = Ok (c, rest') \<Longrightarrow>
     length rest' \<le> length rest"
  by (induction unterminated negated rest first literals ranges classes rule: parse_set_body.induct)
    (fastforce split: if_splits option.splits set_item.splits prod.splits dest!: read_set_item_length read_range_end_length)+

fun collect_extensions :: "('s, 'e) ir_node \<Rightarrow> 'e list" where
  "collect_extensions (IrConcat nodes) = concat (map collect_extensions nodes)"
| "collect_extensions (IrAlternation nodes) = concat (map collect_extensions nodes)"
| "collect_extensions (IrRepeat node _ _) = collect_extensions node"
| "collect_extensions (IrGroup node) = collect_extensions node"
| "collect_extensions (IrCapture _ node) = collect_extensions node"
| "collect_extensions (IrExtension extension) = [extension]"
| "collect_extensions _ = []"

section \<open>Globs\<close>

datatype glob_extension = GlobClass text_class

type_synonym glob_node = "(scalar, glob_extension) ir_node"

definition glob_negation :: "scalar list \<Rightarrow> bool \<times> scalar list" where
  "glob_negation rest =
     (case rest of
        ch # rest' \<Rightarrow> if ch = chr CHR ''!'' \<or> ch = chr CHR ''^'' then (True, rest') else (False, rest)
      | [] \<Rightarrow> (False, []))"

lemma glob_negation_length: "length (snd (glob_negation rest)) \<le> length rest"
  by (auto simp: glob_negation_def split: list.split)

function (sequential) glob_loop :: "scalar list \<Rightarrow> glob_node list \<Rightarrow> (dialect_error, glob_node list) outcome" where
  "glob_loop [] nodes = Ok nodes"
| "glob_loop (ch # rest) nodes =
     (if ch = chr CHR ''*'' then glob_loop rest (nodes @ [IrRepeat IrAny \<lparr>rb_min = 0, rb_max = None\<rparr> True])
      else if ch = chr CHR ''?'' then glob_loop rest (nodes @ [IrAny])
      else if ch = chr CHR ''['' then
        bind_outcome (parse_set_body ''unterminated glob character set'' (fst (glob_negation rest))
            (snd (glob_negation rest)) True [] [] [])
          (\<lambda>(c, rest'). glob_loop rest' (nodes @ [IrExtension (GlobClass c)]))
      else if ch = chr (CHR 0x5C) then
        (case rest of
           [] \<Rightarrow> Err (glob_malformed ''dangling escape'')
         | literal # rest' \<Rightarrow> glob_loop rest' (nodes @ [IrSymbol literal]))
      else glob_loop rest (nodes @ [IrSymbol ch]))"
  by pat_completeness auto
termination
proof (relation "measure (\<lambda>(rest, nodes). length rest)", goal_cases)
  case (4 ch rest nodes pair c rest')
  then have "length rest' \<le> length (snd (glob_negation rest))" by (auto intro: parse_set_body_length)
  with 4 glob_negation_length[of rest] show ?case by simp
qed auto

definition glob_compile_ir ::
  "(glob_extension \<Rightarrow> string) \<Rightarrow> scalar list \<Rightarrow> (dialect_error, (scalar, glob_extension) pattern_ir) outcome" where
  "glob_compile_ir dbg pattern =
     bind_outcome (glob_loop pattern [IrAnchor SubjectStart]) (\<lambda>nodes.
       let root = IrConcat (nodes @ [IrAnchor SubjectEnd]) in
       map_err (EvalIrError ''malformed glob pattern: '')
         (pattern_ir_new dbg root bm_empty (engine_policy_new (collect_extensions root))))"

fun glob_project :: "glob_node \<Rightarrow> text_op list \<Rightarrow> (dialect_error, text_op list) outcome" where
  "glob_project (IrSymbol ch) ops = Ok (ops @ [OpLiteral ch])"
| "glob_project IrAny ops = Ok (ops @ [OpAny])"
| "glob_project (IrConcat nodes) ops = for_each glob_project nodes ops"
| "glob_project (IrAlternation nodes) ops = for_each glob_project nodes ops"
| "glob_project (IrRepeat node bounds greedy) ops =
     bind_outcome (glob_project node ops) (\<lambda>ops. Ok (ops @ [OpRepeat (rb_min bounds) (rb_max bounds) greedy]))"
| "glob_project (IrGroup node) ops = glob_project node ops"
| "glob_project (IrCapture _ node) ops = glob_project node ops"
| "glob_project (IrAnchor SubjectStart) ops = Ok (ops @ [OpAnchorStart])"
| "glob_project (IrAnchor SubjectEnd) ops = Ok (ops @ [OpAnchorEnd])"
| "glob_project (IrExtension (GlobClass c)) ops = Ok (ops @ [OpClass c])"
| "glob_project (IrAssertion _) ops = Panic ''glob lowering does not create assertions''"

definition compile_glob_pattern :: "(glob_extension \<Rightarrow> string) \<Rightarrow> scalar list \<Rightarrow> (dialect_error, text_op list) outcome" where
  "compile_glob_pattern dbg pattern =
     bind_outcome (glob_compile_ir dbg pattern) (\<lambda>ir. glob_project (ir_root ir) [])"

section \<open>Lua patterns\<close>

datatype lua_extension =
    LuaClass text_class
  | LuaBalanced scalar scalar
  | LuaFrontier text_class

type_synonym lua_node = "(scalar, lua_extension) ir_node"

datatype escaped = EscAtom lua_node | EscZeroWidth lua_node

definition class_atom :: "text_class \<Rightarrow> escaped" where
  "class_atom c = EscAtom (IrExtension (LuaClass c))"

definition lua_quantifier :: "scalar \<Rightarrow> (usize \<times> usize option \<times> bool) option" where
  "lua_quantifier ch =
     (if ch = chr CHR ''*'' then Some (0, None, True)
      else if ch = chr CHR ''+'' then Some (1, None, True)
      else if ch = chr CHR ''-'' then Some (0, None, False)
      else if ch = chr CHR ''?'' then Some (0, Some 1, True)
      else None)"

definition lua_push :: "lua_node \<Rightarrow> lua_node capture_frames \<Rightarrow> (dialect_error, lua_node capture_frames) outcome" where
  "lua_push node frames = expect ''root frame exists'' (push_node node frames)"

text \<open>\<open>push_atom\<close>: the node with the quantifier that follows it.\<close>

definition quantify :: "lua_node \<Rightarrow> scalar list \<Rightarrow> lua_node \<times> scalar list" where
  "quantify node rest =
     (case rest of
        ch # rest' \<Rightarrow>
          (case lua_quantifier ch of
             Some (mn, mx, greedy) \<Rightarrow> (IrRepeat node \<lparr>rb_min = mn, rb_max = mx\<rparr> greedy, rest')
           | None \<Rightarrow> (node, rest))
      | [] \<Rightarrow> (node, []))"

definition push_atom ::
  "lua_node \<Rightarrow> scalar list \<Rightarrow> lua_node capture_frames \<Rightarrow> (dialect_error, lua_node capture_frames \<times> scalar list) outcome" where
  "push_atom node rest frames =
     bind_outcome (lua_push (fst (quantify node rest)) frames) (\<lambda>frames. Ok (frames, snd (quantify node rest)))"

definition lua_parse_set :: "scalar list \<Rightarrow> (dialect_error, text_class \<times> scalar list) outcome" where
  "lua_parse_set rest =
     (case rest of
        ch # rest' \<Rightarrow>
          if ch = chr CHR ''^'' then parse_set_body ''unterminated character set'' True rest' True [] [] []
          else parse_set_body ''unterminated character set'' False rest True [] [] []
      | [] \<Rightarrow> parse_set_body ''unterminated character set'' False [] True [] [] [])"

definition percent_class :: "scalar \<Rightarrow> text_class option" where
  "percent_class ch =
     (if ch = chr CHR ''a'' then Some CAlpha else if ch = chr CHR ''A'' then Some (CNot CAlpha)
      else if ch = chr CHR ''d'' then Some CDigit else if ch = chr CHR ''D'' then Some (CNot CDigit)
      else if ch = chr CHR ''l'' then Some CLower else if ch = chr CHR ''L'' then Some (CNot CLower)
      else if ch = chr CHR ''u'' then Some CUpper else if ch = chr CHR ''U'' then Some (CNot CUpper)
      else if ch = chr CHR ''w'' then Some CAlnum else if ch = chr CHR ''W'' then Some (CNot CAlnum)
      else if ch = chr CHR ''s'' then Some CSpace else if ch = chr CHR ''S'' then Some (CNot CSpace)
      else if ch = chr CHR ''p'' then Some CPunct else if ch = chr CHR ''P'' then Some (CNot CPunct)
      else if ch = chr CHR ''x'' then Some CHex else if ch = chr CHR ''X'' then Some (CNot CHex)
      else if ch = chr CHR ''z'' then Some CZero else None)"

definition parse_percent :: "scalar list \<Rightarrow> (dialect_error, escaped \<times> scalar list) outcome" where
  "parse_percent rest =
     (case rest of
        [] \<Rightarrow> Err (lua_malformed ''dangling percent escape'')
      | ch # rest \<Rightarrow>
          (case percent_class ch of
             Some c \<Rightarrow> Ok (class_atom c, rest)
           | None \<Rightarrow>
               if ch = chr CHR ''b'' then
                 (case rest of
                    [] \<Rightarrow> Err (lua_malformed ''balanced pattern missing open delimiter'')
                  | [opening] \<Rightarrow> Err (lua_malformed ''balanced pattern missing close delimiter'')
                  | opening # closing # rest' \<Rightarrow> Ok (EscAtom (IrExtension (LuaBalanced opening closing)), rest'))
               else if ch = chr CHR ''f'' then
                 (case rest of
                    bracket # rest' \<Rightarrow>
                      if bracket = chr CHR ''['' then
                        bind_outcome (lua_parse_set rest') (\<lambda>(c, rest''). Ok (EscZeroWidth (IrExtension (LuaFrontier c)), rest''))
                      else Err (lua_malformed ''frontier pattern requires a character set'')
                  | [] \<Rightarrow> Err (lua_malformed ''frontier pattern requires a character set''))
               else Ok (EscAtom (IrSymbol ch), rest)))"

lemma quantify_length: "length (snd (quantify node rest)) \<le> length rest"
  by (auto simp: quantify_def split: list.splits option.splits)

lemma push_atom_length: "push_atom node rest frames = Ok (frames', rest') \<Longrightarrow> length rest' \<le> length rest"
  using quantify_length by (auto simp: push_atom_def outcome_simps)

lemma lua_parse_set_length: "lua_parse_set rest = Ok (c, rest') \<Longrightarrow> length rest' \<le> length rest"
  by (cases rest) (auto simp: lua_parse_set_def simp del: parse_set_body.simps split: if_splits dest!: parse_set_body_length)

lemma parse_percent_length: "parse_percent rest = Ok (item, rest') \<Longrightarrow> length rest' \<le> length rest"
  by (fastforce simp: parse_percent_def outcome_simps split: list.splits if_splits option.splits dest!: lua_parse_set_length)

text \<open>\<open>)\<close> closes the innermost frame into a capture of its parent.\<close>

definition close_capture :: "lua_node capture_frames \<Rightarrow> capture_id \<Rightarrow> (dialect_error, lua_node capture_frames) outcome" where
  "close_capture frames next_capture =
     (if length frames = 1 then Err (lua_malformed ''capture close without open'')
      else case frames of
        [] \<Rightarrow> Panic ''capture frame exists''
      | nodes # outer \<Rightarrow>
          expect ''parent frame exists'' (push_node (IrCapture next_capture (IrConcat nodes)) outer))"

function (sequential) lua_loop ::
  "scalar list \<Rightarrow> lua_node capture_frames \<Rightarrow> capture_id \<Rightarrow> (dialect_error, lua_node capture_frames) outcome" where
  "lua_loop [] frames next_capture = Ok frames"
| "lua_loop (ch # rest) frames next_capture =
     (if ch = chr CHR ''^'' \<and> frames = [[]] then lua_loop rest [[IrAnchor SubjectStart]] next_capture
      else if ch = chr CHR ''$'' \<and> rest = [] then
        bind_outcome (lua_push (IrAnchor SubjectEnd) frames) (\<lambda>frames. lua_loop rest frames next_capture)
      else if ch = chr CHR ''.'' then
        bind_outcome (push_atom IrAny rest frames) (\<lambda>(frames, rest). lua_loop rest frames next_capture)
      else if ch = chr CHR ''('' then lua_loop rest ([] # frames) next_capture
      else if ch = chr CHR '')'' then
        bind_outcome (close_capture frames next_capture) (\<lambda>frames. lua_loop rest frames (next_capture + 1))
      else if ch = chr CHR ''['' then
        bind_outcome (lua_parse_set rest) (\<lambda>(c, rest).
          bind_outcome (push_atom (IrExtension (LuaClass c)) rest frames) (\<lambda>(frames, rest). lua_loop rest frames next_capture))
      else if ch = chr CHR ''%'' then
        bind_outcome (parse_percent rest) (\<lambda>(item, rest).
          case item of
            EscAtom node \<Rightarrow>
              bind_outcome (push_atom node rest frames) (\<lambda>(frames, rest). lua_loop rest frames next_capture)
          | EscZeroWidth node \<Rightarrow>
              bind_outcome (lua_push node frames) (\<lambda>frames. lua_loop rest frames next_capture))
      else if ch = chr CHR ''*'' \<or> ch = chr CHR ''+'' \<or> ch = chr CHR ''-'' \<or> ch = chr CHR ''?'' then
        Err (lua_malformed ''quantifier without atom'')
      else bind_outcome (push_atom (IrSymbol ch) rest frames) (\<lambda>(frames, rest). lua_loop rest frames next_capture))"
  by pat_completeness auto
termination
  by (relation "measure (\<lambda>(rest, frames, next_capture). length rest)")
    (auto dest!: push_atom_length lua_parse_set_length parse_percent_length)

definition lua_compile_ir ::
  "(lua_extension \<Rightarrow> string) \<Rightarrow> scalar list \<Rightarrow> (dialect_error, (scalar, lua_extension) pattern_ir) outcome" where
  "lua_compile_ir dbg pattern =
     bind_outcome (lua_loop pattern [[]] 0) (\<lambda>frames.
       case frames of
         [nodes] \<Rightarrow>
           (let root = IrConcat nodes in
            map_err (EvalIrError ''malformed Lua pattern: '')
              (pattern_ir_new dbg root bm_empty (engine_policy_new (collect_extensions root))))
       | _ \<Rightarrow> Err (lua_malformed ''unterminated capture''))"

fun lua_project :: "lua_node \<Rightarrow> text_op list \<Rightarrow> (dialect_error, text_op list) outcome" where
  "lua_project (IrSymbol ch) ops = Ok (ops @ [OpLiteral ch])"
| "lua_project IrAny ops = Ok (ops @ [OpAny])"
| "lua_project (IrConcat nodes) ops = for_each lua_project nodes ops"
| "lua_project (IrAlternation nodes) ops = for_each lua_project nodes ops"
| "lua_project (IrRepeat node bounds greedy) ops =
     bind_outcome (lua_project node ops) (\<lambda>ops. Ok (ops @ [OpRepeat (rb_min bounds) (rb_max bounds) greedy]))"
| "lua_project (IrGroup node) ops = lua_project node ops"
| "lua_project (IrCapture _ node) ops =
     bind_outcome (lua_project node (ops @ [OpCaptureStart])) (\<lambda>ops. Ok (ops @ [OpCaptureEnd]))"
| "lua_project (IrAnchor SubjectStart) ops = Ok (ops @ [OpAnchorStart])"
| "lua_project (IrAnchor SubjectEnd) ops = Ok (ops @ [OpAnchorEnd])"
| "lua_project (IrExtension (LuaClass c)) ops = Ok (ops @ [OpClass c])"
| "lua_project (IrExtension (LuaBalanced opening closing)) ops = Ok (ops @ [OpBalanced opening closing])"
| "lua_project (IrExtension (LuaFrontier c)) ops = Ok (ops @ [OpFrontier c])"
| "lua_project (IrAssertion _) ops = Panic ''Lua lowering does not create assertions''"

definition compile_lua_pattern :: "(lua_extension \<Rightarrow> string) \<Rightarrow> scalar list \<Rightarrow> (dialect_error, text_op list) outcome" where
  "compile_lua_pattern dbg pattern =
     bind_outcome (lua_compile_ir dbg pattern) (\<lambda>ir. lua_project (ir_root ir) [])"

section \<open>Projecting and lowering\<close>

text \<open>The text program of an expression, and the expressions a text program can express.\<close>

fun text_ops :: "text_node \<Rightarrow> text_op list" where
  "text_ops (IrSymbol ch) = [OpLiteral ch]"
| "text_ops IrAny = [OpAny]"
| "text_ops (IrConcat nodes) = concat (map text_ops nodes)"
| "text_ops (IrAlternation nodes) = concat (map text_ops nodes)"
| "text_ops (IrRepeat node bounds greedy) = text_ops node @ [OpRepeat (rb_min bounds) (rb_max bounds) greedy]"
| "text_ops (IrGroup node) = text_ops node"
| "text_ops (IrCapture _ node) = OpCaptureStart # text_ops node @ [OpCaptureEnd]"
| "text_ops (IrAnchor SubjectStart) = [OpAnchorStart]"
| "text_ops (IrAnchor SubjectEnd) = [OpAnchorEnd]"
| "text_ops (IrExtension (TxClass c)) = [OpClass c]"
| "text_ops (IrExtension (TxBalanced opening closing)) = [OpBalanced opening closing]"
| "text_ops (IrExtension (TxFrontier c)) = [OpFrontier c]"
| "text_ops (IrAssertion _) = []"

fun ir_atom :: "('s, 'e) ir_node \<Rightarrow> bool" where
  "ir_atom (IrSymbol _) = True"
| "ir_atom IrAny = True"
| "ir_atom (IrExtension _) = True"
| "ir_atom _ = False"

definition bounds_valid :: "repeat_bounds \<Rightarrow> bool" where
  "bounds_valid bounds = (case rb_max bounds of None \<Rightarrow> True | Some m \<Rightarrow> rb_min bounds \<le> m)"

fun lowerable :: "('s, 'e) ir_node \<Rightarrow> bool" where
  "lowerable (IrRepeat node bounds _) = (ir_atom node \<and> bounds_valid bounds)"
| "lowerable (IrCapture _ (IrConcat nodes)) = list_all lowerable nodes"
| "lowerable (IrAnchor _) = True"
| "lowerable node = ir_atom node"

text \<open>Capture identifiers in the order their captures close.\<close>

fun closing_captures :: "('s, 'e) ir_node \<Rightarrow> capture_id list" where
  "closing_captures (IrConcat nodes) = concat (map closing_captures nodes)"
| "closing_captures (IrAlternation nodes) = concat (map closing_captures nodes)"
| "closing_captures (IrRepeat node _ _) = closing_captures node"
| "closing_captures (IrGroup node) = closing_captures node"
| "closing_captures (IrCapture ident node) = closing_captures node @ [ident]"
| "closing_captures _ = []"

abbreviation closings :: "('s, 'e) ir_node list \<Rightarrow> capture_id list" where
  "closings nodes \<equiv> concat (map closing_captures nodes)"

lemma lower_ops_append:
  "lower_ops (xs @ ys) state = (case lower_ops xs state of None \<Rightarrow> None | Some state' \<Rightarrow> lower_ops ys state')"
  by (induction xs arbitrary: state) (auto split: option.split)

lemma upt_split: "xs @ ys = [k..<m] \<Longrightarrow> xs = [k..<k + length xs] \<and> ys = [k + length xs..<k + length xs + length ys]"
proof -
  assume eq: "xs @ ys = [k..<m]"
  then have len: "length xs + length ys = m - k" by (metis length_append length_upt)
  from eq have "xs = take (length xs) [k..<m]" "ys = drop (length xs) [k..<m]" by (metis append_eq_conv_conj)+
  with len show ?thesis by (cases "k \<le> m") (simp_all add: take_upt drop_upt)
qed

lemma repeat_bounds_again: "bounds_valid bounds \<Longrightarrow> repeat_bounds_new (rb_min bounds) (rb_max bounds) = Ok bounds"
  by (cases bounds) (auto simp: bounds_valid_def repeat_bounds_new_def split: option.splits)

lemma lower_atom:
  "ir_atom node \<Longrightarrow> lower_ops (text_ops node) (nodes # outer, k) = Some ((nodes @ [node]) # outer, k)"
  by (cases node rule: text_ops.cases) (auto simp: lower_op_def push_node_def)

lemma lower_nodes:
  assumes "\<And>node nodes outer k. node \<in> set ns \<Longrightarrow> closing_captures node = [k..<k + length (closing_captures node)] \<Longrightarrow>
      lower_ops (text_ops node) (nodes # outer, k) = Some ((nodes @ [node]) # outer, k + length (closing_captures node))"
    and "closings ns = [k..<k + length (closings ns)]"
  shows "lower_ops (concat (map text_ops ns)) (nodes # outer, k) = Some ((nodes @ ns) # outer, k + length (closings ns))"
  using assms
proof (induction ns arbitrary: nodes k)
  case (Cons node ns)
  have "closing_captures node @ closings ns = [k..<k + length (closings (node # ns))]"
    using Cons.prems(2) by simp
  from upt_split[OF this] have
    order: "closing_captures node = [k..<k + length (closing_captures node)]"
      "closings ns = [k + length (closing_captures node)..<k + length (closing_captures node) + length (closings ns)]"
    by simp_all
  have "lower_ops (text_ops node) (nodes # outer, k) = Some ((nodes @ [node]) # outer, k + length (closing_captures node))"
    by (rule Cons.prems(1)) (use order(1) in simp_all)
  moreover have "lower_ops (concat (map text_ops ns)) ((nodes @ [node]) # outer, k + length (closing_captures node)) =
      Some (((nodes @ [node]) @ ns) # outer, k + length (closing_captures node) + length (closings ns))"
    by (rule Cons.IH) (use Cons.prems(1) order(2) in auto)
  ultimately show ?case by (simp add: lower_ops_append)
qed simp

lemma lower_node:
  assumes "lowerable node" "closing_captures node = [k..<k + length (closing_captures node)]"
  shows "lower_ops (text_ops node) (nodes # outer, k) = Some ((nodes @ [node]) # outer, k + length (closing_captures node))"
  using assms
proof (induction node arbitrary: nodes outer k rule: lowerable.induct)
  case (1 node bounds greedy)
  then have "closing_captures node = []" by (cases node) auto
  with 1 lower_atom[of node nodes outer k] repeat_bounds_again show ?case
    by (simp add: lower_ops_append lower_op_def)
next
  case (2 ident body)
  have "closings body @ [ident] = [k..<k + length (closings body @ [ident])]" using "2.prems"(2) by simp
  from upt_split[OF this] have order: "closings body = [k..<k + length (closings body)]" "ident = k + length (closings body)"
    by (simp_all add: upt_rec)
  have "lower_ops (concat (map text_ops body)) ([] # nodes # outer, k) =
      Some (([] @ body) # nodes # outer, k + length (closings body))"
    by (rule lower_nodes) (use 2 order(1) in \<open>auto simp: list_all_iff\<close>)
  with order(2) show ?case by (simp add: lower_ops_append lower_op_def push_node_def)
next
  case (3 anc)
  then show ?case by (cases anc) (auto simp: lower_op_def push_node_def)
qed (simp_all add: lower_atom del: text_ops.simps)

text \<open>A lowered program passes the validation it is given: its captures are numbered in closing order
  and every extension comes from an operation.\<close>

lemma captures_mset: "mset (ir_captures node) = mset (closing_captures node)"
proof (induction node)
  case (IrConcat nodes)
  then show ?case by (induction nodes) simp_all
next
  case (IrAlternation nodes)
  then show ?case by (induction nodes) simp_all
qed simp_all

lemma text_filter_append: "List.map_filter f (xs @ ys) = List.map_filter f xs @ List.map_filter f ys"
  by (simp add: List.map_filter_def)

lemma text_filter_concat: "List.map_filter f (concat xss) = concat (map (List.map_filter f) xss)"
  by (induction xss) (simp_all add: text_filter_append List.map_filter_simps)

lemma op_extensions: "set (List.map_filter op_extension (text_ops node)) = ir_extensions node"
proof (induction node)
  case (IrAnchor anc)
  then show ?case by (cases anc) (simp_all add: List.map_filter_simps op_extension_def)
next
  case (IrExtension e)
  then show ?case by (cases e) (simp_all add: List.map_filter_simps op_extension_def)
qed (auto simp: text_filter_append text_filter_concat List.map_filter_simps op_extension_def)

lemma lowerable_no_references: "lowerable node \<Longrightarrow> ir_references node = {}"
proof (induction node rule: lowerable.induct)
  case (1 node bounds greedy)
  then show ?case by (cases node) auto
next
  case (2 ident nodes)
  then show ?case by (auto simp: list_all_iff)
qed auto

lemma lower_program:
  assumes "list_all lowerable nodes" "closings nodes = [0..<length (closings nodes)]"
  shows "lower_text_program (concat (map text_ops nodes)) = Some \<lparr>ir_root = IrConcat nodes, ir_assertions = bm_empty\<rparr>"
proof -
  let ?ops = "concat (map text_ops nodes)"
  let ?policy = "engine_policy_new (List.map_filter op_extension ?ops)"
  have lowered: "lower_ops ?ops ([[]], 0) = Some ([nodes], length (closings nodes))"
    using lower_nodes[of nodes 0 "[]" "[]"] lower_node assms by (simp add: list_all_iff)
  have "distinct (closing_captures (IrConcat nodes))" using assms(2) by (simp, metis distinct_upt)
  then have "distinct (ir_captures (IrConcat nodes))"
    using mset_eq_imp_distinct_iff[OF captures_mset[of "IrConcat nodes"]] by blast
  moreover have "node_admissible bm_empty ?policy (IrConcat nodes)"
    using op_extensions[of "IrConcat nodes"] lowerable_no_references assms(1)
    by (auto simp: node_admissible_def engine_policy_new_def list_all_iff)
  moreover have "acyclic (reference_edges bm_empty)" by (simp add: reference_edges_def acyclic_def)
  ultimately have "pattern_admissible (IrConcat nodes) bm_empty ?policy"
    by (simp add: pattern_admissible_def bm_values_def)
  then have "pattern_ir_new (\<lambda>_. []) (IrConcat nodes) bm_empty ?policy = Ok \<lparr>ir_root = IrConcat nodes, ir_assertions = bm_empty\<rparr>"
    by (simp add: pattern_ir_new_Ok_iff)
  with lowered show ?thesis by (simp add: lower_text_program_def)
qed

lemma for_each_appends:
  assumes "\<And>x s. x \<in> set xs \<Longrightarrow> f x s = Ok (s @ g x)"
  shows "for_each f xs s = Ok (s @ concat (map g xs))"
  using assms by (induction xs arbitrary: s) simp_all

subsection \<open>Lua\<close>

fun tx_of_lua :: "lua_extension \<Rightarrow> text_extension" where
  "tx_of_lua (LuaClass c) = TxClass c"
| "tx_of_lua (LuaBalanced opening closing) = TxBalanced opening closing"
| "tx_of_lua (LuaFrontier c) = TxFrontier c"

lemma map_ir_facts [simp]:
  "ir_atom (map_ir_node f g node) = ir_atom node"
  "lowerable (map_ir_node f g node) = lowerable node"
  "closing_captures (map_ir_node f g node) = closing_captures node"
proof -
  show atom: "ir_atom (map_ir_node f g node) = ir_atom node" for node by (cases node) auto
  show "lowerable (map_ir_node f g node) = lowerable node"
    by (induction node rule: lowerable.induct) (auto simp: list_all_iff atom)
  show "closing_captures (map_ir_node f g node) = closing_captures node"
    by (induction node) (auto simp: o_def cong: map_cong)
qed

lemma lua_project_extension: "lua_project (IrExtension e) ops = Ok (ops @ text_ops (IrExtension (tx_of_lua e)))"
  by (cases e) simp_all

lemma lua_project_ops:
  "lowerable node \<Longrightarrow> lua_project node ops = Ok (ops @ text_ops (map_ir_node (\<lambda>s. s) tx_of_lua node))"
proof (induction node arbitrary: ops rule: lowerable.induct)
  case (1 node bounds greedy)
  have "lua_project node ops = Ok (ops @ text_ops (map_ir_node (\<lambda>s. s) tx_of_lua node))"
  proof (cases node)
    case (IrExtension e)
    then show ?thesis by (cases e) simp_all
  qed (use 1 in auto)
  then show ?case by simp
next
  case (2 ident nodes)
  have "for_each lua_project nodes (ops @ [OpCaptureStart]) =
      Ok ((ops @ [OpCaptureStart]) @ concat (map (\<lambda>node. text_ops (map_ir_node (\<lambda>s. s) tx_of_lua node)) nodes))"
    by (rule for_each_appends) (use 2 in \<open>simp add: list_all_iff\<close>)
  then show ?case by (simp add: o_def)
next
  case (3 anc)
  then show ?case by (cases anc) simp_all
qed (simp_all add: lua_project_extension)

text \<open>
  What the parser keeps: every frame holds expressions a text program can express, and reading the
  frames from the outermost inwards the closed captures are numbered from zero.
\<close>

definition lua_frames_ok :: "lua_node capture_frames \<Rightarrow> capture_id \<Rightarrow> bool" where
  "lua_frames_ok frames next_capture \<longleftrightarrow>
     frames \<noteq> [] \<and> (\<forall>nodes\<in>set frames. list_all lowerable nodes) \<and>
     closings (concat (rev frames)) = [0..<next_capture]"

lemma lua_push_ok:
  assumes "lua_frames_ok frames k" "lowerable node" "closing_captures node = []"
  shows "\<exists>frames'. lua_push node frames = Ok frames' \<and> lua_frames_ok frames' k"
  using assms by (cases frames) (auto simp: lua_push_def push_node_def lua_frames_ok_def)

lemma push_atom_ok:
  assumes "lua_frames_ok frames k" "ir_atom node"
  shows "\<exists>frames' rest'. push_atom node rest frames = Ok (frames', rest') \<and> lua_frames_ok frames' k"
proof -
  let ?node = "fst (quantify node rest)"
  have "lowerable node" "closing_captures node = []" using assms(2) by (cases node; simp)+
  then have "lowerable ?node" "closing_captures ?node = []"
    using assms(2) by (auto simp: quantify_def lua_quantifier_def bounds_valid_def split: list.splits option.splits if_splits)
  from lua_push_ok[OF assms(1) this] show ?thesis by (auto simp: push_atom_def)
qed

lemma close_capture_ok:
  assumes "lua_frames_ok frames k"
  shows "(\<exists>e. close_capture frames k = Err e) \<or>
    (\<exists>frames'. close_capture frames k = Ok frames' \<and> lua_frames_ok frames' (k + 1))"
proof (cases "length frames = 1")
  case True
  then show ?thesis by (simp add: close_capture_def)
next
  case False
  with assms obtain nodes parent outer where frames: "frames = nodes # parent # outer"
    by (cases frames rule: remdups_adj.cases) (auto simp: lua_frames_ok_def)
  then show ?thesis using assms
    by (auto simp: close_capture_def push_node_def lua_frames_ok_def)
qed

lemma parse_percent_ok:
  assumes "parse_percent rest = Ok (item, rest')"
  shows "case item of EscAtom node \<Rightarrow> ir_atom node | EscZeroWidth node \<Rightarrow> ir_atom node"
  using assms
  by (auto simp: parse_percent_def class_atom_def outcome_simps split: list.splits if_splits option.splits)

lemma parse_set_body_no_panic: "parse_set_body u negated rest first literals ranges classes \<noteq> Panic q"
  by (induction u negated rest first literals ranges classes rule: parse_set_body.induct)
    (auto split: option.splits set_item.splits)

lemma lua_parse_set_no_panic: "lua_parse_set rest \<noteq> Panic q"
  by (auto simp: lua_parse_set_def parse_set_body_no_panic simp del: parse_set_body.simps split: list.splits)

lemma parse_percent_no_panic: "parse_percent rest \<noteq> Panic q"
  by (auto simp: parse_percent_def outcome_simps lua_parse_set_no_panic split: list.splits option.splits)

text \<open>The parser never panics and ends in frames of that kind.\<close>

definition lua_ends :: "(dialect_error, lua_node capture_frames) outcome \<Rightarrow> bool" where
  "lua_ends result \<longleftrightarrow> (\<exists>e. result = Err e) \<or> (\<exists>frames k. result = Ok frames \<and> lua_frames_ok frames k)"

lemma lua_ends_Err [simp]: "lua_ends (Err e)"
  by (simp add: lua_ends_def)

lemma lua_loop_ok: "lua_frames_ok frames k \<Longrightarrow> lua_ends (lua_loop rest frames k)"
proof (induction rest arbitrary: frames k rule: length_induct)
  case (1 input)
  show ?case
  proof (cases input)
    case Nil
    with "1.prems" show ?thesis by (auto simp: lua_ends_def)
  next
    case (Cons ch rest)
    have again: "lua_ends (lua_loop rest' frames' k')" if "length rest' \<le> length rest" "lua_frames_ok frames' k'" for rest' frames' k'
      using 1 that Cons by simp
    have atom: "lua_ends (bind_outcome (push_atom node rest' frames) (\<lambda>(frames, rest). lua_loop rest frames k))"
      if shape: "ir_atom node" "length rest' \<le> length rest" for node rest'
    proof -
      obtain frames' rest'' where push: "push_atom node rest' frames = Ok (frames', rest'')" "lua_frames_ok frames' k"
        using push_atom_ok[OF "1.prems" shape(1)] by blast
      with push_atom_length[OF push(1)] shape(2) again[of rest'' frames' k] show ?thesis by simp
    qed
    have push: "lua_ends (bind_outcome (lua_push node frames) (\<lambda>frames. lua_loop rest' frames k))"
      if "lowerable node" "closing_captures node = []" "length rest' \<le> length rest" for node rest'
      using lua_push_ok[OF "1.prems" that(1,2)] again[OF that(3)] by auto
    have start: "lua_ends (lua_loop rest [[IrAnchor SubjectStart]] k)" if "frames = [[]]"
      using that "1.prems" by (intro again) (simp_all add: lua_frames_ok_def)
    have opened: "lua_ends (lua_loop rest ([] # frames) k)"
      using "1.prems" by (intro again) (auto simp: lua_frames_ok_def)
    have closed: "lua_ends (bind_outcome (close_capture frames k) (\<lambda>frames. lua_loop rest frames (k + 1)))"
      using close_capture_ok[OF "1.prems"] again[OF le_refl] by auto
    have class_set: "lua_ends (bind_outcome (lua_parse_set rest) (\<lambda>(c, rest).
          bind_outcome (push_atom (IrExtension (LuaClass c)) rest frames) (\<lambda>(frames, rest). lua_loop rest frames k)))"
    proof (cases "lua_parse_set rest")
      case (Ok pair)
      with lua_parse_set_length[of rest "fst pair" "snd pair"] atom show ?thesis by (cases pair) simp
    qed (simp_all add: lua_parse_set_no_panic)
    have percent: "lua_ends (bind_outcome (parse_percent rest) (\<lambda>(item, rest).
          case item of
            EscAtom node \<Rightarrow> bind_outcome (push_atom node rest frames) (\<lambda>(frames, rest). lua_loop rest frames k)
          | EscZeroWidth node \<Rightarrow> bind_outcome (lua_push node frames) (\<lambda>frames. lua_loop rest frames k)))"
    proof (cases "parse_percent rest")
      case (Ok pair)
      obtain item rest' where pair: "pair = (item, rest')" by (cases pair)
      note length = parse_percent_length[OF Ok[unfolded pair]] and shape = parse_percent_ok[OF Ok[unfolded pair]]
      show ?thesis
      proof (cases item)
        case (EscAtom node)
        with Ok pair shape length atom show ?thesis by simp
      next
        case (EscZeroWidth node)
        then have "lowerable node" "closing_captures node = []" using shape by (cases node; simp)+
        with Ok pair length push EscZeroWidth show ?thesis by simp
      qed
    qed (simp_all add: parse_percent_no_panic)
    show ?thesis
      unfolding Cons lua_loop.simps
      using start push[of "IrAnchor SubjectEnd" "[]"] atom[of IrAny rest] opened closed class_set percent
        atom[of "IrSymbol ch" rest]
      by (simp del: lua_loop.simps)
  qed
qed

lemma lua_compile_Ok:
  assumes "lua_compile_ir dbg pattern = Ok ir"
  obtains nodes where "ir = \<lparr>ir_root = IrConcat nodes, ir_assertions = bm_empty\<rparr>"
    "list_all lowerable nodes" "closings nodes = [0..<length (closings nodes)]"
proof -
  from assms obtain frames where "lua_loop pattern [[]] 0 = Ok frames"
    by (auto simp: lua_compile_ir_def outcome_simps)
  with assms obtain nodes where nodes: "lua_loop pattern [[]] 0 = Ok [nodes]"
    "ir = \<lparr>ir_root = IrConcat nodes, ir_assertions = bm_empty\<rparr>"
    by (cases frames rule: remdups_adj.cases)
      (auto simp: lua_compile_ir_def outcome_simps Let_def pattern_ir_new_Ok_iff)
  moreover have "lua_ends (lua_loop pattern [[]] 0)"
    by (rule lua_loop_ok) (simp add: lua_frames_ok_def)
  ultimately obtain k where "lua_frames_ok [nodes] k" by (auto simp: lua_ends_def)
  then have "list_all lowerable nodes" "closings nodes = [0..<k]" by (auto simp: lua_frames_ok_def)
  with nodes(2) that show thesis by (metis length_upt diff_zero)
qed

lemma lua_lowering:
  assumes "lua_compile_ir dbg pattern = Ok ir"
  shows "\<exists>ops. compile_lua_pattern dbg pattern = Ok ops \<and>
    lower_text_program ops = Some \<lparr>ir_root = map_ir_node (\<lambda>s. s) tx_of_lua (ir_root ir), ir_assertions = bm_empty\<rparr>"
proof -
  from assms obtain nodes where nodes: "ir = \<lparr>ir_root = IrConcat nodes, ir_assertions = bm_empty\<rparr>"
    "list_all lowerable nodes" "closings nodes = [0..<length (closings nodes)]" by (rule lua_compile_Ok)
  let ?tx = "map_ir_node (\<lambda>s. s) tx_of_lua"
  have "for_each lua_project nodes [] = Ok ([] @ concat (map (\<lambda>node. text_ops (?tx node)) nodes))"
    by (rule for_each_appends) (use nodes(2) in \<open>simp add: list_all_iff lua_project_ops\<close>)
  then have "compile_lua_pattern dbg pattern = Ok (concat (map text_ops (map ?tx nodes)))"
    using assms nodes(1) by (simp add: compile_lua_pattern_def o_def)
  moreover have "lower_text_program (concat (map text_ops (map ?tx nodes))) =
      Some \<lparr>ir_root = IrConcat (map ?tx nodes), ir_assertions = bm_empty\<rparr>"
    by (rule lower_program) (use nodes(2,3) in \<open>simp_all add: list_all_iff o_def\<close>)
  ultimately show ?thesis using nodes(1) by simp
qed

subsection \<open>Globs\<close>

fun tx_of_glob :: "glob_extension \<Rightarrow> text_extension" where
  "tx_of_glob (GlobClass c) = TxClass c"

text \<open>The expressions a glob is made of.\<close>

fun glob_item :: "glob_node \<Rightarrow> bool" where
  "glob_item (IrRepeat IrAny bounds greedy) = (rb_min bounds = 0 \<and> rb_max bounds = None)"
| "glob_item node = ir_atom node"

lemma glob_item_facts:
  assumes "glob_item node"
  shows "lowerable node" "closing_captures node = []" "ir_references node = {}" "ir_captures node = []"
    "glob_project node ops = Ok (ops @ text_ops (map_ir_node (\<lambda>s. s) tx_of_glob node))"
proof -
  have "glob_project (IrExtension e) ops = Ok (ops @ text_ops (IrExtension (tx_of_glob e)))" for e
    by (cases e) simp
  then show "lowerable node" "closing_captures node = []" "ir_references node = {}" "ir_captures node = []"
    "glob_project node ops = Ok (ops @ text_ops (map_ir_node (\<lambda>s. s) tx_of_glob node))"
    using assms by (cases node rule: glob_item.cases; simp add: bounds_valid_def)+
qed

lemma glob_loop_items:
  "glob_loop rest nodes = Ok nodes' \<Longrightarrow> \<exists>items. nodes' = nodes @ items \<and> list_all glob_item items"
proof (induction rest arbitrary: nodes rule: length_induct)
  case (1 input)
  have more: "\<exists>items. nodes' = nodes @ items \<and> list_all glob_item items"
    if "glob_loop rest' (nodes @ [item]) = Ok nodes'" "glob_item item" "length rest' < length input" for rest' item
  proof -
    from 1(1) that(1,3) obtain items where "nodes' = (nodes @ [item]) @ items" "list_all glob_item items" by blast
    with that(2) show ?thesis by (intro exI[of _ "item # items"]) simp
  qed
  show ?case
  proof (cases input)
    case Nil
    with "1.prems" show ?thesis by simp
  next
    case (Cons ch rest)
    note prems = "1.prems"[unfolded Cons glob_loop.simps]
    consider "ch = chr CHR ''[''" | "ch = chr (CHR 0x5C)" | "ch \<noteq> chr CHR ''[''" "ch \<noteq> chr (CHR 0x5C)" by blast
    then show ?thesis
    proof cases
      case 1
      with prems obtain c rest' where set: "parse_set_body ''unterminated glob character set'' (fst (glob_negation rest))
          (snd (glob_negation rest)) True [] [] [] = Ok (c, rest')"
        "glob_loop rest' (nodes @ [IrExtension (GlobClass c)]) = Ok nodes'"
        by (auto simp: outcome_simps simp del: parse_set_body.simps glob_loop.simps)
      have "length rest' \<le> length rest"
        using parse_set_body_length[OF set(1)] glob_negation_length[of rest] by (rule le_trans)
      with more[OF set(2)] show ?thesis by (simp add: Cons)
    next
      case 2
      with prems obtain literal rest' where "rest = literal # rest'" "glob_loop rest' (nodes @ [IrSymbol literal]) = Ok nodes'"
        by (auto simp del: glob_loop.simps split: list.splits)
      with more[of rest' "IrSymbol literal"] show ?thesis by (simp add: Cons)
    next
      case 3
      with prems more[of rest] show ?thesis
        by (auto simp: Cons simp del: glob_loop.simps split: if_splits)
    qed
  qed
qed

text \<open>
  What a glob accepts: a star any stretch, a question mark one symbol, a set one of its members, a
  literal itself, and nothing else.
\<close>

fun glob_accepts :: "glob_node list \<Rightarrow> scalar list \<Rightarrow> bool" where
  "glob_accepts [] subject \<longleftrightarrow> subject = []"
| "glob_accepts (IrSymbol ch # items) subject \<longleftrightarrow> (\<exists>rest. subject = ch # rest \<and> glob_accepts items rest)"
| "glob_accepts (IrAny # items) subject \<longleftrightarrow> (\<exists>first rest. subject = first # rest \<and> glob_accepts items rest)"
| "glob_accepts (IrExtension (GlobClass c) # items) subject \<longleftrightarrow>
     (\<exists>first rest. subject = first # rest \<and> class_matches c first \<and> glob_accepts items rest)"
| "glob_accepts (IrRepeat IrAny bounds greedy # items) subject \<longleftrightarrow>
     (\<exists>skipped rest. subject = skipped @ rest \<and> glob_accepts items rest)"
| "glob_accepts (_ # items) subject \<longleftrightarrow> False"

lemma any_power:
  "(p, q) \<in> {(p, q). q = p + 1 \<and> p < n} ^^ k \<longleftrightarrow> q = p + k \<and> (0 < k \<longrightarrow> q \<le> n)" for n :: nat
proof (induction k arbitrary: q)
  case (Suc k)
  have "(p, q) \<in> {(p, q). q = p + 1 \<and> p < n} ^^ Suc k \<longleftrightarrow>
      (\<exists>m. (p, m) \<in> {(p, q). q = p + 1 \<and> p < n} ^^ k \<and> q = m + 1 \<and> m < n)" by auto
  also have "\<dots> \<longleftrightarrow> q = p + Suc k \<and> (0 < Suc k \<longrightarrow> q \<le> n)" unfolding Suc.IH by auto
  finally show ?case .
qed auto

lemma star_spans:
  assumes "rb_min bounds = 0" "rb_max bounds = None" "p \<le> length subject"
  shows "(p, q) \<in> ir_spans holds ext subject (IrRepeat IrAny bounds greedy) \<longleftrightarrow> p \<le> q \<and> q \<le> length subject"
proof -
  have "(p, q) \<in> ir_spans holds ext subject (IrRepeat IrAny bounds greedy) \<longleftrightarrow>
      (\<exists>k. q = p + k \<and> (0 < k \<longrightarrow> q \<le> length subject))"
    using any_power[where n = "length subject" and p = p and q = q] assms(1,2) by (simp add: within_bounds_def)
  also have "\<dots> \<longleftrightarrow> p \<le> q \<and> q \<le> length subject"
    using assms(3) by (auto intro: exI[of _ "q - p"])
  finally show ?thesis .
qed

abbreviation glob_text :: "glob_node \<Rightarrow> text_node" where
  "glob_text \<equiv> map_ir_node (\<lambda>s. s) tx_of_glob"

abbreviation text_spans :: "scalar list \<Rightarrow> text_node \<Rightarrow> (usize \<times> usize) set" where
  "text_spans subject \<equiv> ir_spans (\<lambda>_ _. False) text_extension_match subject"

fun item_matches :: "glob_node \<Rightarrow> scalar \<Rightarrow> bool" where
  "item_matches (IrSymbol ch) x = (x = ch)"
| "item_matches IrAny x = True"
| "item_matches (IrExtension (GlobClass c)) x = class_matches c x"
| "item_matches _ x = False"

lemma atom_spans:
  assumes "ir_atom item"
  shows "(p, m) \<in> text_spans subject (glob_text item) \<longleftrightarrow> m = Suc p \<and> p < length subject \<and> item_matches item (subject ! p)"
proof (cases item)
  case (IrExtension e)
  then show ?thesis by (cases e) (auto simp: text_extension_match_def class_at_def)
qed (use assms in auto)

lemma atom_accepts:
  assumes "ir_atom item"
  shows "glob_accepts (item # items) subject \<longleftrightarrow>
    (\<exists>first rest. subject = first # rest \<and> item_matches item first \<and> glob_accepts items rest)"
proof (cases item)
  case (IrExtension e)
  then show ?thesis by (cases e) auto
qed (use assms in auto)

lemma glob_items_spans:
  assumes "list_all glob_item items" "p \<le> length subject"
  shows "(p, q) \<in> foldr (O) (map (text_spans subject \<circ> glob_text) items) (text_spans subject (IrAnchor SubjectEnd)) \<longleftrightarrow>
    q = length subject \<and> glob_accepts items (drop p subject)"
  using assms
proof (induction items arbitrary: p)
  case Nil
  then show ?case by (auto simp: anchor_holds_def)
next
  case (Cons item items)
  let ?tail = "foldr (O) (map (text_spans subject \<circ> glob_text) items) (text_spans subject (IrAnchor SubjectEnd))"
  have IH: "(m, q) \<in> ?tail \<longleftrightarrow> q = length subject \<and> glob_accepts items (drop m subject)" if "m \<le> length subject" for m
    by (rule Cons.IH) (use Cons.prems(1) that in simp_all)
  have head: "(p, q) \<in> foldr (O) (map (text_spans subject \<circ> glob_text) (item # items)) (text_spans subject (IrAnchor SubjectEnd)) \<longleftrightarrow>
      (\<exists>m. (p, m) \<in> text_spans subject (glob_text item) \<and> (m, q) \<in> ?tail)" by auto
  show ?case
  proof (cases "ir_atom item")
    case False
    with Cons.prems(1) obtain bounds greedy where 1: "item = IrRepeat IrAny bounds greedy"
      by (cases item rule: glob_item.cases) auto
    then have bounds: "rb_min bounds = 0" "rb_max bounds = None" using Cons.prems(1) by simp_all
    have "(\<exists>m. p \<le> m \<and> m \<le> length subject \<and> (m, q) \<in> ?tail) \<longleftrightarrow>
        q = length subject \<and> (\<exists>skipped rest. drop p subject = skipped @ rest \<and> glob_accepts items rest)"
    proof (intro iffI; elim exE conjE)
      fix m assume m: "p \<le> m" "m \<le> length subject" "(m, q) \<in> ?tail"
      have "drop p subject = take (m - p) (drop p subject) @ drop m subject"
        using m(1) by (metis append_take_drop_id drop_drop le_add_diff_inverse2)
      with IH[OF m(2)] m(3) show "q = length subject \<and> (\<exists>skipped rest. drop p subject = skipped @ rest \<and> glob_accepts items rest)"
        by blast
    next
      fix skipped rest assume rest: "q = length subject" "drop p subject = skipped @ rest" "glob_accepts items rest"
      have "rest = drop (length skipped) (drop p subject)" by (simp add: rest(2))
      then have "rest = drop (p + length skipped) subject" by (simp add: add.commute)
      moreover have "p + length skipped \<le> length subject"
        using arg_cong[OF rest(2), of length] Cons.prems(2) by simp
      ultimately show "\<exists>m\<ge>p. m \<le> length subject \<and> (m, q) \<in> ?tail"
        using IH rest(1,3) by (intro exI[of _ "p + length skipped"]) simp
    qed
    moreover have "(p, m) \<in> text_spans subject (glob_text item) \<longleftrightarrow> p \<le> m \<and> m \<le> length subject" for m
      using star_spans[OF bounds Cons.prems(2), of m "\<lambda>_ _. False" text_extension_match greedy]
      by (simp add: 1 del: ir_spans.simps)
    ultimately show ?thesis unfolding head by (simp only: 1 glob_accepts.simps conj_assoc)
  next
    case True
    have "(\<exists>m. (m = Suc p \<and> p < length subject \<and> item_matches item (subject ! p)) \<and> (m, q) \<in> ?tail) \<longleftrightarrow>
        p < length subject \<and> item_matches item (subject ! p) \<and> q = length subject \<and> glob_accepts items (drop (Suc p) subject)"
      using IH[of "Suc p"] by (auto simp only: Suc_le_eq)
    also have "\<dots> \<longleftrightarrow> q = length subject \<and> glob_accepts (item # items) (drop p subject)"
      unfolding atom_accepts[OF True]
      by (cases "p < length subject") (auto simp: Cons_nth_drop_Suc[symmetric])
    finally show ?thesis unfolding head atom_spans[OF True] .
  qed
qed

text \<open>Patterns without assertions are searched exactly under any extension matcher.\<close>

lemma plain_search:
  assumes "pattern_compile ir = Ok aut" "ir_assertions ir = bm_empty" "ir_references (ir_root ir) = {}"
    and "length subject < usize_max"
  shows "case execute_regular_inner ext aut subject starts limits of
      ExMatch matched _ \<Rightarrow> \<exists>before later. starts = before @ em_start matched # later \<and>
        (em_start matched, em_end matched) \<in> ir_spans (\<lambda>_ _. False) ext subject (ir_root ir) \<and>
        (\<forall>s\<in>set before. \<forall>e. (s, e) \<notin> ir_spans (\<lambda>_ _. False) ext subject (ir_root ir))
    | ExNoMatch _ \<Rightarrow> \<forall>s\<in>set starts. \<forall>e. (s, e) \<notin> ir_spans (\<lambda>_ _. False) ext subject (ir_root ir)
    | ExLimit _ _ \<Rightarrow> True
    | ExUnsupported _ _ \<Rightarrow> False"
proof -
  from assms(1) obtain states where built:
    "builder_node (ir_root ir) 0 [\<lparr>ps_id = 0, ps_instruction = PiAccept\<rparr>] = Ok (au_start aut, states)"
    "au_states aut = states"
    "for_each compile_assertion (bm_entries (ir_assertions ir)) [] = Ok (au_assertions aut)" by (rule pattern_compile_Ok)
  then have none: "au_assertions aut = []" using assms(2) by simp
  have "execute_regular_inner ext aut subject starts limits \<noteq> ExUnsupported feature r" for feature r
    by (rule built_supported) (use built assms(3) in auto)
  moreover have "search_answers aut subject ext (\<lambda>_ _. False) starts (execute_regular_inner ext aut subject starts limits)"
    by (rule execute_inner_answers) (use none assms(4) in \<open>simp_all add: assertions_answer_def automaton_assertion_def\<close>)
  ultimately show ?thesis
    by (cases "execute_regular_inner ext aut subject starts limits")
      (auto simp: search_answers_def pattern_compile_accepts[OF assms(1)])
qed

lemma glob_lowering:
  assumes "glob_compile_ir dbg pattern = Ok ir"
  shows "\<exists>items ops. ir_root ir = IrConcat (IrAnchor SubjectStart # items @ [IrAnchor SubjectEnd]) \<and> list_all glob_item items \<and>
    compile_glob_pattern dbg pattern = Ok ops \<and>
    lower_text_program ops = Some \<lparr>ir_root = glob_text (ir_root ir), ir_assertions = bm_empty\<rparr>"
proof -
  from assms obtain nodes where "glob_loop pattern [IrAnchor SubjectStart] = Ok nodes"
    "ir_root ir = IrConcat (nodes @ [IrAnchor SubjectEnd])"
    by (auto simp: glob_compile_ir_def outcome_simps Let_def pattern_ir_new_Ok_iff)
  with glob_loop_items obtain items where
    items: "ir_root ir = IrConcat (IrAnchor SubjectStart # items @ [IrAnchor SubjectEnd])" "list_all glob_item items"
    by fastforce
  let ?nodes = "IrAnchor SubjectStart # items @ [IrAnchor SubjectEnd]"
  have node: "glob_project node ops = Ok (ops @ text_ops (glob_text node))" "lowerable node" "closing_captures node = []"
    if "node \<in> set ?nodes" for node ops
    using that items(2) glob_item_facts[of node] by (auto simp: list_all_iff)
  have "for_each glob_project ?nodes [] = Ok ([] @ concat (map (\<lambda>node. text_ops (glob_text node)) ?nodes))"
    by (rule for_each_appends) (rule node)
  then have "compile_glob_pattern dbg pattern = Ok (concat (map text_ops (map glob_text ?nodes)))"
    using assms items(1) by (simp add: compile_glob_pattern_def o_def)
  moreover have "lower_text_program (concat (map text_ops (map glob_text ?nodes))) =
      Some \<lparr>ir_root = IrConcat (map glob_text ?nodes), ir_assertions = bm_empty\<rparr>"
    by (rule lower_program) (use node(2,3) in \<open>auto simp: list_all_iff o_def\<close>)
  ultimately show ?thesis using items by simp
qed

lemma glob_root_spans:
  assumes "list_all glob_item items" "p \<le> length subject"
  shows "(p, q) \<in> text_spans subject (glob_text (IrConcat (IrAnchor SubjectStart # items @ [IrAnchor SubjectEnd]))) \<longleftrightarrow>
    p = 0 \<and> q = length subject \<and> glob_accepts items subject"
proof -
  have "(p, q) \<in> text_spans subject (glob_text (IrConcat (IrAnchor SubjectStart # items @ [IrAnchor SubjectEnd]))) \<longleftrightarrow>
      p = 0 \<and> (p, q) \<in> foldr (O) (map (text_spans subject \<circ> glob_text) items) (text_spans subject (IrAnchor SubjectEnd))"
    by (auto simp: anchor_holds_def o_def)
  also have "\<dots> \<longleftrightarrow> p = 0 \<and> q = length subject \<and> glob_accepts items subject"
    using glob_items_spans[OF assms] by (auto simp del: foldr_map)
  finally show ?thesis .
qed

text \<open>The run of a lowered glob from the start of the subject.\<close>

lemma cursor_for_start: "cursor_for_byte (cursor_text_new subject) 0 = Some 0"
  using cursor_byte_round_trip[of 0 subject] byte_for_cursor_new[of 0 subject] by simp

lemma glob_run:
  assumes root: "ir_root ir = IrConcat (IrAnchor SubjectStart # items @ [IrAnchor SubjectEnd])" "list_all glob_item items"
    and lowered: "lower_text_program ops = Some \<lparr>ir_root = glob_text (ir_root ir), ir_assertions = bm_empty\<rparr>"
    and "length subject < usize_max" "run_text_pattern ops subject 0 limits = Ok result"
  shows "case result of
      PsMatch matched _ \<Rightarrow> glob_accepts items subject \<and> tm_start matched = 0 \<and> tm_end matched = sum_list (map utf8_len subject)
    | PsNoMatch _ \<Rightarrow> \<not> glob_accepts items subject
    | PsLimit _ _ \<Rightarrow> True
    | PsUnsupported _ _ \<Rightarrow> False"
proof -
  let ?ir = "\<lparr>ir_root = glob_text (ir_root ir), ir_assertions = bm_empty\<rparr>"
  let ?text = "cursor_text_new subject" and ?starts = "[0..<length subject + 1]"
  from assms(5) lowered cursor_for_start obtain aut where
    aut: "pattern_compile ?ir = Ok aut"
    and result: "result = text_outcome ?text (execute_regular_inner text_extension_match aut subject ?starts limits)"
    by (auto simp: run_text_pattern_def outcome_simps Let_def search_spanning_def cursor_text_new_def)
  have refs: "ir_references (ir_root ?ir) = {}"
    using root(2) lowerable_no_references[of "glob_text node" for node] glob_item_facts(1)
    by (auto simp: root(1) list_all_iff simp del: map_ir_facts) (metis empty_iff map_ir_facts(2))
  have spans: "(p, q) \<in> text_spans subject (glob_text (ir_root ir)) \<longleftrightarrow> p = 0 \<and> q = length subject \<and> glob_accepts items subject"
    if "p \<le> length subject" for p q
    using glob_root_spans[OF root(2) that] by (simp add: root(1) del: ir_spans.simps)
  have zero: "0 \<in> set ?starts" by simp
  from plain_search[OF aut _ refs assms(4), where ext = text_extension_match and starts = ?starts and limits = limits]
  have "case execute_regular_inner text_extension_match aut subject ?starts limits of
      ExMatch matched _ \<Rightarrow> em_start matched \<in> set ?starts \<and> (em_start matched, em_end matched) \<in> text_spans subject (ir_root ?ir)
    | ExNoMatch _ \<Rightarrow> (0, length subject) \<notin> text_spans subject (ir_root ?ir)
    | ExLimit _ _ \<Rightarrow> True
    | ExUnsupported _ _ \<Rightarrow> False"
    using zero
    by (cases "execute_regular_inner text_extension_match aut subject ?starts limits")
      (simp_all del: upt_Suc ir_spans.simps set_upt, metis in_set_conv_decomp)
  then show ?thesis
    unfolding result
    by (cases "execute_regular_inner text_extension_match aut subject ?starts limits")
      (auto simp: text_outcome_def text_match_of_def byte_for_cursor_new spans less_Suc_eq_le simp del: upt_Suc ir_spans.simps)
qed

end
