(* ===== verification/Pattern_Extension.thy ===== *)
theory Pattern_Extension
  imports Pattern_Execute
begin

text \<open>
  The separately metered lane for non-regular constructs (\<open>extension.rs\<close>) and the adapters that
  give a result the offset type of its symbol domain (\<open>domain_execute.rs\<close>). An extension is a
  parameter: what it starts with and what one item of work does. The lane runs its items in
  arrival order under its own two limits and always ends; a decision is exact, because every item
  that can arise has been evaluated before a rejection.
\<close>

section \<open>The bounded lane\<close>

text \<open>The count of work items never passes its limit, so the equality test of the source is an
  inequality here, which makes the loop total on every receipt.\<close>

datatype extension_kind = Backreference capture_id | VariableWidth assertion_id

record extension_limits =
  max_capture_units :: usize
  max_work_items :: usize

record extension_receipt =
  xr_capture_units :: usize
  xr_work_items :: usize

definition extension_receipt_default :: extension_receipt where
  "extension_receipt_default = \<lparr>xr_capture_units = 0, xr_work_items = 0\<rparr>"

datatype extension_refusal = UnsupportedKind extension_kind | RefusedCaptureUnits | RefusedWorkItems

record 'w extension_work =
  xw_payload :: 'w
  xw_capture_units :: usize

datatype extension_outcome =
    XMatch extension_receipt
  | XNoMatch extension_receipt
  | XRefused extension_refusal extension_receipt

datatype 'w extension_step = WorkMatch | WorkNoMatch | WorkContinue "'w extension_work list"

function extension_loop ::
  "('w \<Rightarrow> 'w extension_step) \<Rightarrow> extension_limits \<Rightarrow> 'w extension_work list \<Rightarrow> extension_receipt \<Rightarrow> extension_outcome" where
  "extension_loop step limits queue receipt =
     (case queue of
        [] \<Rightarrow> XNoMatch receipt
      | work # rest \<Rightarrow>
          if xr_work_items receipt \<ge> max_work_items limits then XRefused RefusedWorkItems receipt
          else if xw_capture_units work > max_capture_units limits - xr_capture_units receipt
          then XRefused RefusedCaptureUnits receipt
          else
            (let receipt = receipt\<lparr>xr_work_items := xr_work_items receipt + 1,
                   xr_capture_units := xr_capture_units receipt + xw_capture_units work\<rparr> in
             case step (xw_payload work) of
               WorkMatch \<Rightarrow> XMatch receipt
             | WorkNoMatch \<Rightarrow> extension_loop step limits rest receipt
             | WorkContinue added \<Rightarrow> extension_loop step limits (rest @ added) receipt))"
  by pat_completeness auto
termination
  by (relation "measure (\<lambda>(step, limits, queue, receipt). max_work_items limits - xr_work_items receipt)") auto

declare extension_loop.simps [simp del]

definition execute_extension ::
  "(extension_kind \<Rightarrow> 'w extension_work list option) \<Rightarrow> ('w \<Rightarrow> 'w extension_step) \<Rightarrow> extension_kind \<Rightarrow>
   extension_limits \<Rightarrow> extension_outcome" where
  "execute_extension start step kind limits =
     (case start kind of
        None \<Rightarrow> XRefused (UnsupportedKind kind) extension_receipt_default
      | Some initial \<Rightarrow> extension_loop step limits initial extension_receipt_default)"

text \<open>The work that can arise from a list of items.\<close>

inductive_set work_reachable :: "('w \<Rightarrow> 'w extension_step) \<Rightarrow> 'w extension_work list \<Rightarrow> 'w set" for step initial where
  work_initial: "work \<in> set initial \<Longrightarrow> xw_payload work \<in> work_reachable step initial"
| work_step: "payload \<in> work_reachable step initial \<Longrightarrow> step payload = WorkContinue added \<Longrightarrow> work \<in> set added \<Longrightarrow>
    xw_payload work \<in> work_reachable step initial"

definition lane_receipt_ok :: "extension_limits \<Rightarrow> extension_receipt \<Rightarrow> bool" where
  "lane_receipt_ok limits receipt \<longleftrightarrow>
     xr_work_items receipt \<le> max_work_items limits \<and> xr_capture_units receipt \<le> max_capture_units limits"

text \<open>
  The queue holds reachable work, and what has been evaluated leads only to work that has been
  evaluated or is queued.
\<close>

definition lane_inv :: "('w \<Rightarrow> 'w extension_step) \<Rightarrow> 'w extension_work list \<Rightarrow> 'w set \<Rightarrow> 'w extension_work list \<Rightarrow> bool" where
  "lane_inv step initial finished queue \<longleftrightarrow>
     xw_payload ` set queue \<subseteq> work_reachable step initial \<and>
     xw_payload ` set initial \<subseteq> finished \<union> xw_payload ` set queue \<and>
     (\<forall>payload\<in>finished. step payload \<noteq> WorkMatch \<and>
        (\<forall>added. step payload = WorkContinue added \<longrightarrow> xw_payload ` set added \<subseteq> finished \<union> xw_payload ` set queue))"

definition lane_answers :: "('w \<Rightarrow> 'w extension_step) \<Rightarrow> 'w extension_work list \<Rightarrow> extension_limits \<Rightarrow> extension_outcome \<Rightarrow> bool" where
  "lane_answers step initial limits result =
     (case result of
        XMatch receipt \<Rightarrow> lane_receipt_ok limits receipt \<and> (\<exists>payload\<in>work_reachable step initial. step payload = WorkMatch)
      | XNoMatch receipt \<Rightarrow> lane_receipt_ok limits receipt \<and> (\<forall>payload\<in>work_reachable step initial. step payload \<noteq> WorkMatch)
      | XRefused reason receipt \<Rightarrow> lane_receipt_ok limits receipt \<and>
          (reason = RefusedWorkItems \<longrightarrow> xr_work_items receipt = max_work_items limits))"

lemma lane_inv_finished:
  assumes "lane_inv step initial finished []"
  shows "work_reachable step initial \<subseteq> finished"
proof
  fix payload assume "payload \<in> work_reachable step initial"
  then show "payload \<in> finished"
  proof induction
    case (work_step payload added work)
    then have "xw_payload ` set added \<subseteq> finished" using assms by (simp add: lane_inv_def)
    with work_step.hyps(3) show ?case by auto
  qed (use assms in \<open>auto simp: lane_inv_def\<close>)
qed

lemma lane_inv_evaluate:
  assumes "lane_inv step initial finished (work # rest)" "step (xw_payload work) \<noteq> WorkMatch"
    and "step (xw_payload work) = WorkNoMatch \<and> added = [] \<or> step (xw_payload work) = WorkContinue added"
  shows "lane_inv step initial (insert (xw_payload work) finished) (rest @ added)"
proof -
  have reach: "xw_payload work \<in> work_reachable step initial" using assms(1) by (simp add: lane_inv_def)
  then have "xw_payload ` set added \<subseteq> work_reachable step initial"
    using assms(3) by (auto intro: work_step)
  moreover have "xw_payload ` set later \<subseteq> insert (xw_payload work) finished \<union> xw_payload ` set (rest @ added)"
    if "payload \<in> insert (xw_payload work) finished" "step payload = WorkContinue later" for payload later
  proof (cases "payload = xw_payload work")
    case True
    with that(2) assms(3) show ?thesis by auto
  next
    case False
    with that assms(1) have "xw_payload ` set later \<subseteq> finished \<union> xw_payload ` set (work # rest)"
      by (simp add: lane_inv_def)
    then show ?thesis by (rule subset_trans) auto
  qed
  ultimately show ?thesis using assms(1,2) by (auto simp: lane_inv_def)
qed

lemma extension_loop_answers:
  assumes "lane_inv step initial finished queue" "lane_receipt_ok limits receipt"
  shows "lane_answers step initial limits (extension_loop step limits queue receipt)"
  using assms
proof (induction step limits queue receipt arbitrary: finished rule: extension_loop.induct)
  case (1 step limits queue receipt)
  show ?case
  proof (cases queue)
    case Nil
    with "1.prems" lane_inv_finished[of step initial finished] show ?thesis
      by (subst extension_loop.simps) (auto simp: lane_answers_def lane_inv_def)
  next
    case (Cons work rest)
    let ?refused = "xr_work_items receipt \<ge> max_work_items limits \<or>
      xw_capture_units work > max_capture_units limits - xr_capture_units receipt"
    let ?receipt = "receipt\<lparr>xr_work_items := xr_work_items receipt + 1,
      xr_capture_units := xr_capture_units receipt + xw_capture_units work\<rparr>"
    show ?thesis
    proof (cases ?refused)
      case True
      with "1.prems"(2) Cons show ?thesis
        by (subst extension_loop.simps) (auto simp: lane_answers_def lane_receipt_ok_def)
    next
      case False
      then have charged: "lane_receipt_ok limits ?receipt" using "1.prems"(2) by (auto simp: lane_receipt_ok_def)
      note inv = "1.prems"(1)[unfolded Cons]
      have loop: "extension_loop step limits queue receipt = (case step (xw_payload work) of
          WorkMatch \<Rightarrow> XMatch ?receipt
        | WorkNoMatch \<Rightarrow> extension_loop step limits rest ?receipt
        | WorkContinue added \<Rightarrow> extension_loop step limits (rest @ added) ?receipt)"
        using False by (subst extension_loop.simps) (auto simp: Cons Let_def split: extension_step.split)
      show ?thesis
      proof (cases "step (xw_payload work)")
        case WorkMatch
        then have "\<exists>payload\<in>work_reachable step initial. step payload = WorkMatch"
          using inv by (auto simp: lane_inv_def)
        with WorkMatch charged show ?thesis unfolding loop by (simp add: lane_answers_def)
      next
        case WorkNoMatch
        then have "lane_inv step initial (insert (xw_payload work) finished) (rest @ [])"
          by (intro lane_inv_evaluate[OF inv]) simp_all
        with "1.IH"(1)[OF Cons _ _ refl WorkNoMatch _ charged] False show ?thesis
          unfolding loop by (simp add: WorkNoMatch)
      next
        case (WorkContinue added)
        then have "lane_inv step initial (insert (xw_payload work) finished) (rest @ added)"
          by (intro lane_inv_evaluate[OF inv]) simp_all
        with "1.IH"(2)[OF Cons _ _ refl WorkContinue _ charged] False show ?thesis
          unfolding loop by (simp add: WorkContinue)
      qed
    qed
  qed
qed

lemma execute_extension_answers:
  assumes "start kind = Some initial"
  shows "lane_answers step initial limits (execute_extension start step kind limits)"
proof -
  have "lane_inv step initial {} initial" by (auto simp: lane_inv_def intro: work_initial)
  moreover have "lane_receipt_ok limits extension_receipt_default"
    by (simp add: lane_receipt_ok_def extension_receipt_default_def)
  ultimately show ?thesis using assms by (simp add: execute_extension_def extension_loop_answers)
qed

section \<open>Domain adapters\<close>

text \<open>The offset constructor of the domain (\<open>ByteOffset\<close>, \<open>ScalarOffset::new\<close>, \<open>CodeUnitOffset::new\<close>)
  is a parameter.\<close>

record 'o domain_capture_span =
  dc_start :: 'o
  dc_end :: 'o

record 'o domain_match =
  dm_start :: 'o
  dm_end :: 'o
  dm_captures :: "(capture_id, 'o domain_capture_span) bmap"

datatype 'o domain_execution_outcome =
    DomainMatch "'o domain_match" execution_receipt
  | DomainNoMatch execution_receipt
  | DomainLimit execution_limit execution_receipt
  | DomainUnsupported unsupported_feature execution_receipt

definition typed :: "(usize \<Rightarrow> 'o) \<Rightarrow> execution_outcome \<Rightarrow> 'o domain_execution_outcome" where
  "typed offset result =
     (case result of
        ExMatch matched receipt \<Rightarrow>
          DomainMatch \<lparr>dm_start = offset (em_start matched), dm_end = offset (em_end matched),
            dm_captures = bm_map (\<lambda>_ span. \<lparr>dc_start = offset (cs_start span), dc_end = offset (cs_end span)\<rparr>)
              (em_captures matched)\<rparr> receipt
      | ExNoMatch receipt \<Rightarrow> DomainNoMatch receipt
      | ExLimit limit receipt \<Rightarrow> DomainLimit limit receipt
      | ExUnsupported feature receipt \<Rightarrow> DomainUnsupported feature receipt)"

definition execute_domain ::
  "(usize \<Rightarrow> 'o) \<Rightarrow> ('s, 'e) automaton \<Rightarrow> 's list \<Rightarrow> text_limits \<Rightarrow> ('e \<Rightarrow> 's \<Rightarrow> bool) \<Rightarrow> 'o domain_execution_outcome" where
  "execute_domain offset aut subject limits matches = typed offset (execute_regular aut subject limits matches)"

definition search_domain ::
  "(usize \<Rightarrow> 'o) \<Rightarrow> ('s, 'e) automaton \<Rightarrow> 's list \<Rightarrow> usize \<Rightarrow> text_limits \<Rightarrow> ('e \<Rightarrow> 's \<Rightarrow> bool) \<Rightarrow> 'o domain_execution_outcome" where
  "search_domain offset aut subject init limits matches = typed offset (search_regular aut subject init limits matches)"

end
