(* ===== verification/Pattern_Bounds.thy ===== *)
theory Pattern_Bounds
  imports Pattern_Correct "HOL-Library.FuncSet"
begin

text \<open>
  How much work a run of the pattern executor can take. A memo key is a position, a state and the
  clipped counters of the repetitions, so their number is linear in the length of the subject;
  every expanded key costs one transition and at most one capture record or one nested run. The
  bound holds whatever the limits are. With limits above it, a run of a compiled pattern whose
  assertions have a fixed width decides.
\<close>

section \<open>Keys\<close>

text \<open>The largest clipped count of a repetition, and what a counter can be at a state.\<close>

definition repeat_cap :: "usize \<Rightarrow> usize option \<Rightarrow> usize" where
  "repeat_cap mn mx = (case mx of None \<Rightarrow> mn | Some m \<Rightarrow> m)"

definition counter_choices :: "('s, 'e) automaton \<Rightarrow> state_id \<Rightarrow> usize option set" where
  "counter_choices aut s =
     (case pattern_instruction_at aut s of
        Some (PiRepeat _ _ mn mx _) \<Rightarrow> insert None (Some ` {..repeat_cap mn mx})
      | _ \<Rightarrow> {None})"

definition counter_factor :: "('s, 'e) automaton \<Rightarrow> state_id \<Rightarrow> nat" where
  "counter_factor aut s =
     (case pattern_instruction_at aut s of Some (PiRepeat _ _ mn mx _) \<Rightarrow> repeat_cap mn mx + 2 | _ \<Rightarrow> 1)"

lemma counter_choices_card: "finite (counter_choices aut s)" "card (counter_choices aut s) = counter_factor aut s"
  by (auto simp: counter_choices_def counter_factor_def card_image image_iff split: option.split pattern_instruction.split)

text \<open>The keys within a subject of \<open>n\<close> symbols, listed from a choice of counters.\<close>

definition counter_list :: "nat \<Rightarrow> (state_id \<Rightarrow> usize option) \<Rightarrow> (state_id \<times> usize) list" where
  "counter_list n f = map (\<lambda>s. (s, the (f s))) (filter (\<lambda>s. f s \<noteq> None) [0..<n])"

definition key_space :: "('s, 'e) automaton \<Rightarrow> nat \<Rightarrow> memo_key set" where
  "key_space aut n = (\<lambda>(p, s, f). (p, s, counter_list (length (au_states aut)) f)) `
     ({..n} \<times> {..<length (au_states aut)} \<times> PiE {..<length (au_states aut)} (counter_choices aut))"

definition key_bound :: "('s, 'e) automaton \<Rightarrow> nat \<Rightarrow> nat" where
  "key_bound aut n = (n + 1) * length (au_states aut) * (\<Prod>s<length (au_states aut). counter_factor aut s)"

lemma key_space_card: "finite (key_space aut n)" "card (key_space aut n) \<le> key_bound aut n"
proof -
  let ?S = "length (au_states aut)"
  let ?D = "{..n} \<times> {..<?S} \<times> PiE {..<?S} (counter_choices aut)"
  have "card ?D = key_bound aut n"
    by (simp add: card_cartesian_product card_PiE counter_choices_card key_bound_def algebra_simps)
  moreover have fin: "finite ?D" by (intro finite_cartesian_product finite_PiE) (simp_all add: counter_choices_card)
  ultimately show "finite (key_space aut n)" "card (key_space aut n) \<le> key_bound aut n"
    unfolding key_space_def by (auto intro: order_trans[OF card_image_le])
qed

lemma counter_list_map_of:
  assumes "al_sorted xs" "fst ` set xs \<subseteq> {..<n}"
  shows "counter_list n (map_of xs) = xs"
proof -
  have keys: "filter (\<lambda>s. map_of xs s \<noteq> None) [0..<n] = map fst xs"
  proof (rule sorted_distinct_set_unique)
    show "set (filter (\<lambda>s. map_of xs s \<noteq> None) [0..<n]) = set (map fst xs)"
      using assms(2) by (auto simp: map_of_eq_None_iff)
    show "sorted (map fst xs)" "distinct (map fst xs)"
      using assms(1) unfolding al_sorted_def by (simp_all add: strict_sorted_iff)
  qed (simp_all add: sorted_wrt_filter)
  have "map (\<lambda>s. (s, the (map_of xs s))) (map fst xs) = xs"
    using al_sorted_distinct[OF assms(1)] by (auto intro!: map_idI)
  then show ?thesis unfolding counter_list_def keys .
qed

text \<open>Counters that belong to repetitions and respect their maxima.\<close>

definition counters_ok :: "('s, 'e) automaton \<Rightarrow> (state_id, usize) bmap \<Rightarrow> bool" where
  "counters_ok aut r \<longleftrightarrow> (\<forall>s c. bm_get r s = Some c \<longrightarrow>
     (\<exists>body exit mn mx greedy. pattern_instruction_at aut s = Some (PiRepeat body exit mn mx greedy) \<and>
        (\<forall>m. mx = Some m \<longrightarrow> c \<le> m)))"

definition item_ok :: "('s, 'e) automaton \<Rightarrow> nat \<Rightarrow> usize \<times> pattern_thread \<Rightarrow> bool" where
  "item_ok aut n item \<longleftrightarrow> fst item \<le> n \<and> counters_ok aut (th_repeats (snd item))"

lemma al_sorted_map_filter:
  assumes "al_sorted xs" "\<And>x y. f x = Some y \<Longrightarrow> fst y = fst x"
  shows "al_sorted (List.map_filter f xs)"
  using assms(1)
proof (induction xs)
  case (Cons x xs)
  have "fst y \<in> fst ` set xs" if "y \<in> set (List.map_filter f xs)" for y
    using that assms(2) by (force simp: List.map_filter_def)
  with Cons assms(2)[of x] show ?case
    by (fastforce simp: al_sorted_def List.map_filter_simps split: option.split)
qed (simp add: List.map_filter_simps al_sorted_def)

lemma repeat_entry_key: "repeat_entry aut entry = Some y \<Longrightarrow> fst y = fst entry"
  by (auto simp: repeat_entry_def split: option.splits pattern_instruction.splits)

lemma repeat_entry_instruction:
  "repeat_entry aut entry = Some y \<Longrightarrow>
     \<exists>body exit mn mx greedy. pattern_instruction_at aut (fst y) = Some (PiRepeat body exit mn mx greedy)"
  by (auto simp: repeat_entry_def pattern_instruction_at_def split: option.splits pattern_instruction.splits)

lemma in_map_filter: "y \<in> set (List.map_filter f xs) \<longleftrightarrow> (\<exists>x\<in>set xs. f x = Some y)"
  by (induction xs) (auto simp: List.map_filter_simps split: option.split)

lemma repeat_identity_keys:
  assumes "k \<in> fst ` set (repeat_identity aut r)"
  shows "\<exists>body exit mn mx greedy. pattern_instruction_at aut k = Some (PiRepeat body exit mn mx greedy)"
proof -
  obtain y where "y \<in> set (repeat_identity aut r)" "k = fst y" using assms by blast
  then show ?thesis using repeat_entry_instruction unfolding repeat_identity_def in_map_filter by blast
qed

lemma repeat_identity_list:
  "repeat_identity aut r = counter_list (length (au_states aut)) (map_of (repeat_identity aut r))"
proof (rule counter_list_map_of[symmetric])
  show "al_sorted (repeat_identity aut r)"
    unfolding repeat_identity_def using bm_entries_sorted repeat_entry_key by (rule al_sorted_map_filter)
  show "fst ` set (repeat_identity aut r) \<subseteq> {..<length (au_states aut)}"
    by (auto simp: pattern_instruction_at_def state_at_id_def dest!: repeat_identity_keys split: if_splits)
qed

lemma counter_list_restrict: "counter_list n (restrict f {..<n}) = counter_list n f"
  unfolding counter_list_def by (rule map_cong) (auto intro: filter_cong)

lemma repeat_identity_choice:
  assumes "counters_ok aut r"
  shows "map_of (repeat_identity aut r) s \<in> counter_choices aut s"
proof (cases "\<exists>body exit mn mx greedy. pattern_instruction_at aut s = Some (PiRepeat body exit mn mx greedy)")
  case True
  then obtain body exit mn mx greedy where at: "pattern_instruction_at aut s = Some (PiRepeat body exit mn mx greedy)" by blast
  with assms have "\<forall>c m. bm_get r s = Some c \<longrightarrow> mx = Some m \<longrightarrow> c \<le> m" by (fastforce simp: counters_ok_def)
  with at show ?thesis
    by (cases "bm_get r s"; cases mx)
      (auto simp: repeat_identity_lookup[OF at] counter_choices_def clip_count_def repeat_cap_def)
next
  case False
  then have "s \<notin> fst ` set (repeat_identity aut r)" using repeat_identity_keys[of s aut r] by argo
  then have "map_of (repeat_identity aut r) s = None" by (simp add: map_of_eq_None_iff)
  then show ?thesis by (auto simp: counter_choices_def split: option.split pattern_instruction.split)
qed

lemma item_key_in_space:
  assumes "item_ok aut n (position, thread)" "state_at_id aut (th_state thread) \<noteq> None"
  shows "thread_key aut position thread \<in> key_space aut n"
proof -
  let ?S = "length (au_states aut)" and ?r = "repeat_identity aut (th_repeats thread)"
  have "restrict (map_of ?r) {..<?S} \<in> PiE {..<?S} (counter_choices aut)"
    using assms(1) by (auto simp: item_ok_def intro: repeat_identity_choice)
  moreover have "thread_key aut position thread =
      (position, th_state thread, counter_list ?S (restrict (map_of ?r) {..<?S}))"
    using repeat_identity_list[of aut "th_repeats thread"] by (simp add: thread_key_def counter_list_restrict)
  moreover have "position \<le> n" "th_state thread < ?S"
    using assms by (auto simp: item_ok_def state_at_id_def split: if_splits)
  ultimately show ?thesis
    unfolding key_space_def by (intro image_eqI[of _ _ "(position, th_state thread, restrict (map_of ?r) {..<?S})"]) simp_all
qed

section \<open>Work\<close>

lemma counters_ok_empty [simp]: "counters_ok aut bm_empty"
  by (simp add: counters_ok_def)

lemma counters_ok_remove: "counters_ok aut r \<Longrightarrow> counters_ok aut (bm_remove s r)"
  by (simp add: counters_ok_def)

lemma counters_ok_insert:
  "counters_ok aut r \<Longrightarrow> pattern_instruction_at aut s = Some (PiRepeat body exit mn mx greedy) \<Longrightarrow>
     \<forall>m. mx = Some m \<longrightarrow> c \<le> m \<Longrightarrow> counters_ok aut (bm_insert s c r)"
  by (auto simp: counters_ok_def)

text \<open>A visit keeps the threads on the stack within the subject and their counters in range.\<close>

lemma push_at_ok [simp]:
  "list_all (item_ok aut n) (push_at stack position thread state) \<longleftrightarrow>
     position \<le> n \<and> counters_ok aut (th_repeats thread) \<and> list_all (item_ok aut n) stack"
  by (simp add: push_at_def item_ok_def)

lemma push_split_ok:
  assumes "list_all (item_ok aut n) stack" "position \<le> n" "counters_ok aut (th_repeats thread)"
  shows "list_all (item_ok aut n) (foldl (\<lambda>stack next. push_at stack position thread next) stack ns)"
  using assms by (auto simp: push_split list_all_iff item_ok_def)

lemma push_choices_ok:
  assumes "pattern_instruction_at aut (th_state thread) = Some (PiRepeat body exit mn mx greedy)"
    and "list_all (item_ok aut n) stack" "position \<le> n" "counters_ok aut (th_repeats thread)"
  shows "list_all (item_ok aut n) (push_choices (repeat_choices thread body exit mn mx greedy) position stack)"
  using assms by (auto simp: push_choices_def repeat_choices_def Let_def Suc_le_eq
      intro!: counters_ok_remove counters_ok_insert[OF _ assms(1)] split: option.splits)

lemma run_assertion_ok:
  assumes "run_assertion run aut subject limits ident nxt position thread stack receipt = Inr (stack', receipt')"
    and "list_all (item_ok aut n) stack" "position \<le> n" "counters_ok aut (th_repeats thread)"
  shows "list_all (item_ok aut n) stack'"
  using assms by (auto simp: run_assertion_def Let_def split: option.splits if_splits execution_outcome.splits)

lemma visit_state_ok:
  assumes "pattern_instruction_at aut (th_state thread) = Some instruction"
    and "visit_state run aut subject limits ext instruction position thread stack receipt = Inr (stack', receipt')"
    and "list_all (item_ok aut (length subject)) stack" "item_ok aut (length subject) (position, thread)"
  shows "list_all (item_ok aut (length subject)) stack'"
proof (cases instruction)
  case (PiAssertion ident nxt)
  with assms show ?thesis by (auto simp: visit_state_def item_ok_def dest: run_assertion_ok)
next
  case (PiRepeat body exit mn mx greedy)
  with assms show ?thesis by (auto simp: visit_state_def item_ok_def intro: push_choices_ok)
next
  case (PiSplit ns)
  with assms show ?thesis by (auto simp: visit_state_def item_ok_def intro: push_split_ok)
qed (use assms in \<open>auto simp: visit_state_def item_ok_def split: if_splits option.splits\<close>)

text \<open>The transitions and the capture records of a receipt are both at most \<open>m\<close>.\<close>

definition work_within :: "nat \<Rightarrow> execution_receipt \<Rightarrow> bool" where
  "work_within m receipt \<longleftrightarrow> er_transitions receipt \<le> m \<and> er_capture_history receipt \<le> m"

definition runs_within :: "('s, 'e) assertion_runner \<Rightarrow> ('s, 'e) automaton \<Rightarrow> nat \<Rightarrow> nat \<Rightarrow> bool" where
  "runs_within run aut n b \<longleftrightarrow> (\<forall>program window lim. program \<in> snd ` set (au_assertions aut) \<longrightarrow>
     length window \<le> n \<longrightarrow> work_within b (outcome_receipt (run program window lim)))"

lemma run_assertion_work:
  assumes "runs_within run aut (length subject) b" "work_within m receipt"
  shows "case run_assertion run aut subject limits ident nxt position thread stack receipt of
      Inl result \<Rightarrow> work_within (m + b) (outcome_receipt result)
    | Inr (_, receipt') \<Rightarrow> work_within (m + b) receipt'"
proof (cases "automaton_assertion aut ident")
  case None
  with assms(2) show ?thesis by (simp add: run_assertion_def work_within_def)
next
  case (Some program)
  let ?stop = "saturating_add position (ap_width program)"
  let ?window = "take (?stop - position) (drop position subject)"
  have "program \<in> snd ` set (au_assertions aut)"
    using Some by (force simp: automaton_assertion_def dest: map_of_SomeD)
  with assms(1) have "work_within b (outcome_receipt (run program ?window (remaining_limits limits receipt)))"
    unfolding runs_within_def by simp
  with Some assms(2) show ?thesis
    by (cases "run program ?window (remaining_limits limits receipt)")
      (auto simp: run_assertion_def Let_def work_within_def add_nested_def)
qed

lemma visit_state_work:
  assumes "runs_within run aut (length subject) b" "work_within m receipt"
  shows "case visit_state run aut subject limits ext instruction position thread stack receipt of
      Inl result \<Rightarrow> work_within (m + b + 1) (outcome_receipt result)
    | Inr (_, receipt') \<Rightarrow> work_within (m + b + 1) (receipt'\<lparr>er_transitions := er_transitions receipt' + 1\<rparr>)"
proof (cases instruction)
  case (PiAssertion ident nxt)
  with run_assertion_work[OF assms, of limits ident nxt position thread stack] show ?thesis
    by (auto simp: visit_state_def work_within_def split: sum.splits prod.splits)
qed (use assms(2) in \<open>auto simp: visit_state_def work_within_def\<close>)

lemma pattern_loop_work:
  assumes "runs_within run aut (length subject) b" "list_all (item_ok aut (length subject)) current"
    and "work_within m receipt"
  shows "work_within (m + card (key_space aut (length subject) - seen) * (b + 1))
    (outcome_receipt (pattern_loop run aut subject limits ext current seen receipt))"
  using assms
proof (induction run aut subject limits ext current seen receipt arbitrary: m rule: pattern_loop.induct)
  case (1 run aut subject limits ext current seen receipt)
  let ?K = "key_space aut (length subject)"
  show ?case
  proof (cases current)
    case Nil
    with "1.prems"(3) show ?thesis by (simp add: work_within_def)
  next
    case (Cons item rest)
    obtain position thread where item: "item = (position, thread)" by (cases item)
    let ?key = "thread_key aut position thread"
    let ?receipt = "receipt\<lparr>er_state_visits := er_state_visits receipt + 1\<rparr>"
    have receipt: "work_within m ?receipt" using "1.prems"(3) by (simp add: work_within_def)
    have ok: "list_all (item_ok aut (length subject)) rest" "item_ok aut (length subject) (position, thread)"
      using "1.prems"(2) by (simp_all add: Cons item)
    note IH = "1.IH"[OF Cons item[symmetric] refl refl]
    have fewer: "card (?K - insert ?key seen) \<le> card (?K - seen)"
      by (intro card_mono) (auto simp: key_space_card)
    show ?thesis
    proof (cases "?key \<in> seen \<or> state_at_id aut (th_state thread) = None")
      case True
      consider "?key \<in> seen" | "?key \<notin> seen" "state_at_id aut (th_state thread) = None" using True by argo
      then show ?thesis
      proof cases
        case 1
        with IH(1)[OF 1 "1.prems"(1) ok(1) receipt] show ?thesis by (simp add: Cons item pattern_loop_Cons)
      next
        case 2
        from IH(2)[OF 2 "1.prems"(1) ok(1) receipt] have
          "work_within (m + card (?K - insert ?key seen) * (b + 1))
            (outcome_receipt (pattern_loop run aut subject limits ext rest (insert ?key seen) ?receipt))" .
        with mult_le_mono1[OF fewer, of "b + 1"] 2 show ?thesis
          by (auto simp: Cons item pattern_loop_Cons work_within_def)
      qed
    next
      case False
      then obtain state where state: "?key \<notin> seen" "state_at_id aut (th_state thread) = Some state" by auto
      have "?key \<in> ?K - seen" using item_key_in_space[OF ok(2)] state by simp
      then have "card (?K - seen) = Suc (card (?K - insert ?key seen))"
        unfolding Diff_insert[of ?K] by (intro card_Suc_Diff1[symmetric] finite_Diff key_space_card)
      then have spend: "m + card (?K - seen) * (b + 1) = (m + b + 1) + card (?K - insert ?key seen) * (b + 1)"
        by simp
      note visit = visit_state_work[OF "1.prems"(1) receipt, of limits ext "ps_instruction state" position thread rest]
      show ?thesis
      proof (cases "visit_state run aut subject limits ext (ps_instruction state) position thread rest ?receipt")
        case (Inl result)
        with visit state show ?thesis
          unfolding spend by (auto simp: Cons item pattern_loop_Cons work_within_def)
      next
        case (Inr pair)
        obtain stack receipt' where pair: "pair = (stack, receipt')" by (cases pair)
        let ?next = "receipt'\<lparr>er_transitions := er_transitions receipt' + 1\<rparr>"
        from visit Inr pair have after: "work_within (m + b + 1) ?next" by simp
        have "list_all (item_ok aut (length subject)) stack"
          by (rule visit_state_ok[OF _ Inr[unfolded pair] ok]) (simp add: pattern_instruction_at_def state)
        note rec = IH(3)[OF state Inr pair[symmetric] refl _ "1.prems"(1) this after]
        show ?thesis
        proof (cases "max_steps limits \<le> er_transitions ?next")
          case True
          with after state Inr pair show ?thesis
            unfolding spend by (auto simp: Cons item pattern_loop_Cons work_within_def)
        next
          case less: False
          from rec[OF less] less state Inr pair show ?thesis
            unfolding spend by (simp add: Cons item pattern_loop_Cons)
        qed
      qed
    qed
  qed
qed

text \<open>The work of a run: one unit for every key and the runs of its assertions.\<close>

function work_bound :: "('s, 'e) automaton \<Rightarrow> nat \<Rightarrow> nat" where
  "work_bound aut n = key_bound aut n *
     (sum_list (map (\<lambda>program. work_bound (ap_automaton program) n) (map snd (au_assertions aut))) + 1)"
  by pat_completeness auto
termination
  by (relation "measure (\<lambda>(aut, n). size aut)") (auto simp: assertion_automaton_size)

declare work_bound.simps [simp del]

lemma work_within_mono: "work_within m receipt \<Longrightarrow> m \<le> m' \<Longrightarrow> work_within m' receipt"
  by (auto simp: work_within_def)

lemma key_bound_mono: "n \<le> n' \<Longrightarrow> key_bound aut n \<le> key_bound aut n'"
  by (simp add: key_bound_def)

lemma work_bound_mono: "n \<le> n' \<Longrightarrow> work_bound aut n \<le> work_bound aut n'"
proof (induction aut n rule: work_bound.induct)
  case (1 aut n)
  have "sum_list (map (\<lambda>program. work_bound (ap_automaton program) n) (map snd (au_assertions aut))) \<le>
      sum_list (map (\<lambda>program. work_bound (ap_automaton program) n') (map snd (au_assertions aut)))"
    by (rule sum_list_mono) (use 1 in auto)
  with key_bound_mono[OF "1.prems", of aut] show ?case
    unfolding work_bound.simps[of aut] by (intro mult_le_mono add_mono) simp_all
qed

lemma execute_inner_work:
  assumes "list_all (\<lambda>start. start \<le> length subject) starts"
  shows "work_within (work_bound aut (length subject)) (outcome_receipt (execute_regular_inner ext aut subject starts limits))"
  using assms
proof (induction ext aut subject starts limits rule: execute_regular_inner.induct)
  case (1 ext aut subject starts limits)
  let ?run = "\<lambda>program window lim. execute_regular_inner ext (ap_automaton program) window [0] lim"
  let ?receipt = "execution_receipt_default
    \<lparr>er_state_count := ev_state_count (au_evidence aut), er_subject_symbols := length subject\<rparr>"
  let ?n = "length subject"
  let ?b = "sum_list (map (\<lambda>program. work_bound (ap_automaton program) ?n) (map snd (au_assertions aut)))"
  have fresh: "work_within 0 ?receipt" by (simp add: work_within_def execution_receipt_default_def)
  show ?case
  proof (cases "er_state_count ?receipt > max_states limits \<or> er_subject_symbols ?receipt > max_subject_symbols limits")
    case True
    with work_within_mono[OF fresh] show ?thesis by (subst execute_regular_inner.simps) (auto simp: Let_def)
  next
    case False
    have "runs_within ?run aut ?n ?b"
      unfolding runs_within_def
    proof (intro allI impI)
      fix program and window :: "'a list" and lim
      assume program: "program \<in> snd ` set (au_assertions aut)" and "length window \<le> ?n"
      with "1.IH"[of ?receipt program window lim] False
      have "work_within (work_bound (ap_automaton program) (length window)) (outcome_receipt (?run program window lim))"
        by auto
      moreover have "work_bound (ap_automaton program) (length window) \<le> ?b"
        using program \<open>length window \<le> ?n\<close>
        by (intro order_trans[OF work_bound_mono member_le_sum_list]) auto
      ultimately show "work_within ?b (outcome_receipt (?run program window lim))" by (rule work_within_mono)
    qed
    moreover have "list_all (item_ok aut ?n) (map (\<lambda>start. (start, initial_thread aut start)) starts)"
      using "1.prems" by (auto simp: list_all_iff item_ok_def initial_thread_def)
    ultimately have "work_within (0 + card (key_space aut ?n - {}) * (?b + 1)) (outcome_receipt
        (pattern_loop ?run aut subject limits ext (map (\<lambda>start. (start, initial_thread aut start)) starts) {} ?receipt))"
      using fresh by (rule pattern_loop_work)
    then have "work_within (work_bound aut ?n) (outcome_receipt
        (pattern_loop ?run aut subject limits ext (map (\<lambda>start. (start, initial_thread aut start)) starts) {} ?receipt))"
      unfolding work_bound.simps[of aut] by (rule work_within_mono) (simp only: Diff_empty add_0 mult_le_mono1 key_space_card)
    with False show ?thesis by (subst execute_regular_inner.simps) (simp add: Let_def)
  qed
qed

lemma search_work:
  "work_within (work_bound aut (length subject)) (outcome_receipt (search_regular aut subject init limits matches))"
proof (cases "init > length subject")
  case True
  then show ?thesis by (simp add: search_regular_def work_within_def execution_receipt_default_def)
next
  case False
  then show ?thesis
    by (simp add: search_regular_def search_spanning_def execute_inner_work list_all_iff del: upt_Suc)
qed

text \<open>Without assertions the work is linear in the subject.\<close>

lemma work_bound_linear: "au_assertions aut = [] \<Longrightarrow> work_bound aut n = (n + 1) * work_bound aut 0"
  by (simp add: work_bound.simps[of aut] key_bound_def algebra_simps)

section \<open>Decisions\<close>

text \<open>A limit is reported for the work of the run itself or by a nested run.\<close>

definition nested_limit ::
  "('s, 'e) assertion_runner \<Rightarrow> ('s, 'e) automaton \<Rightarrow> 's list \<Rightarrow> text_limits \<Rightarrow> execution_limit \<Rightarrow> bool" where
  "nested_limit run aut subject limits limit \<longleftrightarrow>
     (\<exists>program window lim r. program \<in> snd ` set (au_assertions aut) \<and> length window \<le> length subject \<and>
        max_states lim = max_states limits \<and> max_subject_symbols lim = max_subject_symbols limits \<and>
        run program window lim = ExLimit limit r)"

lemma run_assertion_limit:
  assumes "run_assertion run aut subject limits ident nxt position thread stack receipt = Inl (ExLimit limit r)"
  shows "nested_limit run aut subject limits limit"
proof -
  obtain program where program: "automaton_assertion aut ident = Some program"
    using assms by (auto simp: run_assertion_def split: option.splits)
  let ?stop = "saturating_add position (ap_width program)"
  let ?window = "take (?stop - position) (drop position subject)"
  have "program \<in> snd ` set (au_assertions aut)"
    using program by (force simp: automaton_assertion_def dest: map_of_SomeD)
  moreover obtain nested where "run program ?window (remaining_limits limits receipt) = ExLimit limit nested"
    using assms program by (auto simp: run_assertion_def Let_def split: if_splits execution_outcome.splits)
  ultimately show ?thesis
    unfolding nested_limit_def
    by (intro exI[of _ program] exI[of _ ?window] exI[of _ "remaining_limits limits receipt"] exI[of _ nested])
      (simp add: remaining_limits_def)
qed

lemma visit_state_limit:
  assumes "visit_state run aut subject limits ext instruction position thread stack receipt = Inl (ExLimit limit r)"
  shows "limit = LimitCaptureHistory \<or> nested_limit run aut subject limits limit"
  using assms by (cases instruction) (auto simp: visit_state_def split: if_splits dest: run_assertion_limit)

lemma pattern_loop_limit:
  assumes "pattern_loop run aut subject limits ext current seen receipt = ExLimit limit r"
  shows "limit \<in> {LimitTransitions, LimitCaptureHistory} \<or> nested_limit run aut subject limits limit"
  using assms
proof (induction run aut subject limits ext current seen receipt rule: pattern_loop.induct)
  case (1 run aut subject limits ext current seen receipt)
  from 1(4) obtain position thread rest where
    current: "current = (position, thread) # rest" by (cases current) auto
  note IH = "1.IH"[OF current refl refl refl]
  show ?case
    using "1.prems" IH visit_state_limit[of run aut subject limits ext] unfolding current pattern_loop_Cons Let_def
    by (auto split: if_splits option.splits sum.splits prod.splits)
qed

function states_within :: "('s, 'e) automaton \<Rightarrow> nat \<Rightarrow> bool" where
  "states_within aut m \<longleftrightarrow> ev_state_count (au_evidence aut) \<le> m \<and>
     (\<forall>program\<in>snd ` set (au_assertions aut). states_within (ap_automaton program) m)"
  by pat_completeness auto
termination
  by (relation "measure (\<lambda>(aut, m). size aut)") (auto simp: assertion_automaton_size)

declare states_within.simps [simp del]

lemma execute_inner_limit:
  assumes "states_within aut (max_states limits)" "length subject \<le> max_subject_symbols limits"
    and "execute_regular_inner ext aut subject starts limits = ExLimit limit r"
  shows "limit \<in> {LimitTransitions, LimitCaptureHistory}"
  using assms
proof (induction ext aut subject starts limits arbitrary: r rule: execute_regular_inner.induct)
  case (1 ext aut subject starts limits)
  let ?run = "\<lambda>program window lim. execute_regular_inner ext (ap_automaton program) window [0] lim"
  let ?receipt = "execution_receipt_default
    \<lparr>er_state_count := ev_state_count (au_evidence aut), er_subject_symbols := length subject\<rparr>"
  have admitted: "\<not> max_states limits < er_state_count ?receipt" "\<not> max_subject_symbols limits < er_subject_symbols ?receipt"
    using "1.prems"(1,2) by (simp_all add: states_within.simps[of aut])
  then have "pattern_loop ?run aut subject limits ext (map (\<lambda>start. (start, initial_thread aut start)) starts) {} ?receipt =
      ExLimit limit r"
    using "1.prems"(3) by (subst (asm) execute_regular_inner.simps) (simp add: Let_def)
  from pattern_loop_limit[OF this] show ?case
  proof
    assume "nested_limit ?run aut subject limits limit"
    then obtain program window lim nested where nested: "program \<in> snd ` set (au_assertions aut)"
      "length window \<le> length subject" "max_states lim = max_states limits"
      "max_subject_symbols lim = max_subject_symbols limits" "?run program window lim = ExLimit limit nested"
      unfolding nested_limit_def by blast
    show ?thesis
      by (rule "1.IH"[OF refl admitted nested(1) _ _ nested(5)])
        (use "1.prems"(1,2) nested in \<open>auto simp: states_within.simps[of aut]\<close>)
  qed
qed

text \<open>Limits that no run on a subject of \<open>n\<close> symbols reaches, and patterns the regular executor supports.\<close>

definition ample_limits :: "text_limits \<Rightarrow> ('s, 'e) automaton \<Rightarrow> nat \<Rightarrow> bool" where
  "ample_limits limits aut n \<longleftrightarrow>
     work_bound aut n < max_steps limits \<and> work_bound aut n < max_capture_history limits \<and>
     ev_state_count (au_evidence aut) \<le> max_states limits \<and> n \<le> max_subject_symbols limits"

definition assertions_fixed :: "('s, 'e) pattern_ir \<Rightarrow> bool" where
  "assertions_fixed ir \<longleftrightarrow> (\<forall>ident\<in>ir_references (ir_root ir).
     \<exists>node w. bm_get (ir_assertions ir) ident = Some node \<and> fixed_width node = Some w)"

lemma compiled_entries:
  assumes "for_each compile_assertion entries programs = Ok programs'"
  shows "fst ` set programs' = fst ` set programs \<union> {ident. \<exists>node w. (ident, node) \<in> set entries \<and> fixed_width node = Some w}"
  using assms
proof (induction entries arbitrary: programs)
  case (Cons entry entries)
  from Cons.prems obtain programs1 where
    p1: "compile_assertion entry programs = Ok programs1" "for_each compile_assertion entries programs1 = Ok programs'"
    by (auto simp: outcome_simps)
  from p1(1) have "fst ` set programs1 = fst ` set programs \<union> {ident. \<exists>node w. (ident, node) = entry \<and> fixed_width node = Some w}"
    by (cases entry) (auto simp: compile_assertion_def outcome_simps split: option.splits)
  with Cons.IH[OF p1(2)] show ?case by auto
qed simp

lemma compiled_states_within:
  assumes "pattern_compile ir = Ok aut"
  shows "states_within aut (ev_state_count (au_evidence aut))"
proof -
  have "ev_state_count (au_evidence (ap_automaton program)) \<le> ev_state_count (au_evidence aut) \<and>
      au_assertions (ap_automaton program) = []"
    if member: "program \<in> snd ` set (au_assertions aut)" for program
  proof
    obtain ident where entry: "(ident, program) \<in> set (au_assertions aut)" using member by auto
    from assms have "for_each compile_assertion (bm_entries (ir_assertions ir)) [] = Ok (au_assertions aut)"
      by (rule pattern_compile_Ok)
    from compiled_programs[OF this entry] show "au_assertions (ap_automaton program) = []"
      by (auto elim: compile_node_Ok)
    have "ev_state_count (au_evidence (ap_automaton program)) \<le>
        sum_list (map (\<lambda>(_, program). ev_state_count (au_evidence (ap_automaton program))) (au_assertions aut))"
      using entry by (intro member_le_sum_list) (force, simp)
    then show "ev_state_count (au_evidence (ap_automaton program)) \<le> ev_state_count (au_evidence aut)"
      using assms by (auto simp: pattern_compile_def outcome_simps Let_def)
  qed
  then have "states_within (ap_automaton program) (ev_state_count (au_evidence aut))"
    if "program \<in> snd ` set (au_assertions aut)" for program
    using that by (subst states_within.simps) simp
  then show ?thesis unfolding states_within.simps[of aut] by blast
qed

lemma states_within_mono: "states_within aut m \<Longrightarrow> m \<le> m' \<Longrightarrow> states_within aut m'"
proof (induction aut m rule: states_within.induct)
  case (1 aut m)
  then show ?case unfolding states_within.simps[of aut] by auto
qed

lemma execute_inner_decides:
  assumes "pattern_compile ir = Ok aut" "assertions_fixed ir" "ample_limits limits aut (length subject)"
    and "list_all (\<lambda>start. start \<le> length subject) starts"
  shows "(\<exists>matched r. execute_regular_inner ext aut subject starts limits = ExMatch matched r) \<or>
    (\<exists>r. execute_regular_inner ext aut subject starts limits = ExNoMatch r)"
proof (cases "execute_regular_inner ext aut subject starts limits")
  case (ExLimit limit r)
  have "limit \<in> {LimitTransitions, LimitCaptureHistory}"
    by (rule execute_inner_limit[OF states_within_mono[OF compiled_states_within[OF assms(1)]] _ ExLimit])
      (use assms(3) in \<open>simp_all add: ample_limits_def\<close>)
  moreover have "within_limits limits (ExLimit limit r)"
    using execute_inner_within[of limits ext aut subject starts] ExLimit by simp
  moreover have "work_within (work_bound aut (length subject)) r"
    using execute_inner_work[OF assms(4), of aut ext limits] ExLimit by simp
  ultimately show ?thesis using assms(3) by (auto simp: within_limits_def work_within_def ample_limits_def)
next
  case (ExUnsupported feature r)
  from assms(1) obtain states where built:
    "builder_node (ir_root ir) 0 [\<lparr>ps_id = 0, ps_instruction = PiAccept\<rparr>] = Ok (au_start aut, states)" "au_states aut = states"
    "for_each compile_assertion (bm_entries (ir_assertions ir)) [] = Ok (au_assertions aut)"
    by (rule pattern_compile_Ok)
  have "ir_references (ir_root ir) \<subseteq> fst ` set (au_assertions aut)"
    using assms(2) unfolding compiled_entries[OF built(3)] by (auto simp: assertions_fixed_def bm_entries_iff)
  then have "ir_references (ir_root ir) \<subseteq> {ident. automaton_assertion aut ident \<noteq> None}"
    by (auto simp: automaton_assertion_def map_of_eq_None_iff)
  with built_supported[OF built(1)[folded built(2)]] ExUnsupported show ?thesis by blast
qed auto

lemma search_regular_decides:
  assumes "pattern_compile ir = Ok aut" "assertions_fixed ir" "ample_limits limits aut (length subject)"
  shows "(\<exists>matched r. search_regular aut subject init limits matches = ExMatch matched r) \<or>
    (\<exists>r. search_regular aut subject init limits matches = ExNoMatch r)"
proof (cases "init > length subject")
  case False
  have "list_all (\<lambda>start. start \<le> length subject) [init..<length subject + 1]" by (auto simp: list_all_iff simp del: upt_Suc)
  from execute_inner_decides[OF assms this] False show ?thesis
    by (simp add: search_regular_def search_spanning_def del: upt_Suc)
qed (simp add: search_regular_def)

end
