(* ===== verification/Pattern_Runs.thy ===== *)
theory Pattern_Runs
  imports Pattern_Dialect Pattern_Extension Pattern_Bounds
begin

text \<open>
  The properties of the pattern organ, each with the run that witnesses it, and runs that show
  where the engine and its documentation part.
\<close>

section \<open>Validation, compilation and search\<close>

text \<open>
  C23: \<open>PatternIr::new\<close> accepts exactly the patterns whose captures are distinct over the root and
  every definition, whose assertions are declared, whose extensions are admitted and whose
  assertion references are acyclic; it never panics, and a cycle it reports is a closed chain of
  references.
\<close>

theorem pattern_ir_new_exact:
  "(pattern_ir_new dbg root assertions policy = Ok ir \<longleftrightarrow>
      pattern_admissible root assertions policy \<and> ir = \<lparr>ir_root = root, ir_assertions = assertions\<rparr>) \<and>
   pattern_ir_new dbg root assertions policy \<noteq> Panic q \<and>
   (pattern_ir_new dbg root assertions policy = Err (AssertionCycle c) \<longrightarrow>
      successively (\<lambda>a b. (a, b) \<in> reference_edges assertions) c \<and> hd c = last c \<and> 2 \<le> length c)"
  by (rule conjI[OF pattern_ir_new_Ok_iff conjI[OF pattern_ir_new_no_panic impI[OF pattern_ir_new_cycle]]])

definition cyclic_definitions :: "(assertion_id, (nat, unit) ir_node) bmap" where
  "cyclic_definitions = bm_from_list [(1, IrAssertion 2), (2, IrAssertion 1)]"

theorem pattern_ir_new_exact_witness:
  "successively (\<lambda>a b. (a, b) \<in> reference_edges cyclic_definitions) [1, 2, 1] \<and> hd [1, 2, 1 :: nat] = last [1, 2, 1 :: nat]"
proof -
  have "(case pattern_ir_new (\<lambda>_. []) (IrAssertion 1) cyclic_definitions (engine_policy_new []) of
      Err e \<Rightarrow> e = AssertionCycle [1, 2, 1] | _ \<Rightarrow> False)"
    by code_simp
  then have "pattern_ir_new (\<lambda>_. []) (IrAssertion 1) cyclic_definitions (engine_policy_new []) = Err (AssertionCycle [1, 2, 1])"
    by (auto split: outcome.splits)
  with pattern_ir_new_exact[of "\<lambda>_. []" "IrAssertion 1" cyclic_definitions "engine_policy_new []" _ _ "[1, 2, 1]"]
  show ?thesis by blast
qed

text \<open>
  C20: The compiler preserves meaning: the automaton of a pattern has an accepting path from one
  position to another exactly when the pattern matches that span, for every subject, every
  extension matcher and every truth of its assertions; nested and counted repetitions included.
\<close>

theorem compiled_automaton_exact:
  assumes "pattern_compile ir = Ok aut"
  shows "pattern_accepts aut subject ext holds start stop \<longleftrightarrow> (start, stop) \<in> ir_spans holds ext subject (ir_root ir)"
  using assms by (rule pattern_compile_accepts)

text \<open>The pattern \<open>(?=.)(a|bc){1,2}\<close> with the repetition captured.\<close>

definition demo_pattern :: "(nat, unit) pattern_ir" where
  "demo_pattern = \<lparr>ir_root = IrConcat [IrAssertion 0,
      IrCapture 1 (IrRepeat (IrAlternation [IrSymbol 97, IrConcat [IrSymbol 98, IrSymbol 99]])
        \<lparr>rb_min = 1, rb_max = Some 2\<rparr> True)],
    ir_assertions = bm_from_list [(0, IrAny)]\<rparr>"

definition demo_automaton :: "(nat, unit) automaton" where
  "demo_automaton = (case pattern_compile demo_pattern of Ok aut \<Rightarrow> aut | _ \<Rightarrow> Automaton 0 [] \<lparr>ev_state_count = 0, ev_capture_count = 0, ev_work_per_symbol = 0\<rparr> [])"

lemma demo_compiles: "pattern_compile demo_pattern = Ok demo_automaton"
proof -
  have "(case pattern_compile demo_pattern of Ok _ \<Rightarrow> True | _ \<Rightarrow> False)" by code_simp
  then show ?thesis by (auto simp: demo_automaton_def split: outcome.splits)
qed

theorem compiled_automaton_exact_witness:
  "pattern_accepts demo_automaton [120, 97, 98, 99] (\<lambda>_ _ _. None) (\<lambda>_ _. True) 1 4"
proof -
  have "(1, 2) \<in> {(p, q). q = p + 1 \<and> p < 4 \<and> [120, 97, 98, 99 :: nat] ! p = 97}" by simp
  moreover have "(2, 4) \<in> {(p, q). q = p + 1 \<and> p < 4 \<and> [120, 97, 98, 99 :: nat] ! p = 98} O
      {(p, q). q = p + 1 \<and> p < 4 \<and> [120, 97, 98, 99 :: nat] ! p = 99}" by (auto intro!: relcompI[of 2 3])
  ultimately have "(1, 4) \<in> ir_spans (\<lambda>_ _. True) (\<lambda>_ _ _. None) [120, 97, 98, 99]
      (IrAlternation [IrSymbol 97, IrConcat [IrSymbol 98, IrSymbol 99]] :: (nat, unit) ir_node) ^^ 2"
    by (auto simp: numeral_2_eq_2 intro!: relcompI[of 1 2])
  then have "(1, 4) \<in> ir_spans (\<lambda>_ _. True) (\<lambda>_ _ _. None) [120, 97, 98, 99]
      (IrRepeat (IrAlternation [IrSymbol 97, IrConcat [IrSymbol 98, IrSymbol 99]]) \<lparr>rb_min = 1, rb_max = Some 2\<rparr> True :: (nat, unit) ir_node)"
    unfolding ir_spans.simps(5) by (rule UN_I[rotated]) (simp add: within_bounds_def)
  then have "(1, 4) \<in> ir_spans (\<lambda>_ _. True) (\<lambda>_ _ _. None) [120, 97, 98, 99] (ir_root demo_pattern)"
    by (auto simp: demo_pattern_def simp del: ir_spans.simps(5))
  then show ?thesis using compiled_automaton_exact[OF demo_compiles] by simp
qed

text \<open>
  C5: \<open>search_regular\<close> on a compiled pattern whose fixed-width assertions contain no anchor: a match
  is a span of the pattern, it starts at the leftmost position from \<open>init\<close> on that has any, and
  \<open>NoMatch\<close> is reported only when no position from \<open>init\<close> on has one, whatever the limits. The
  anchors of the pattern are the start and the end of the subject, and an assertion holds where its
  definition matches in the subject. The hypothesis is needed: an anchor inside an assertion is
  tested against the window of the assertion (\<open>anchored_assertion_sees_window\<close> below).
\<close>

theorem search_regular_exact:
  assumes "pattern_compile ir = Ok aut" "assertions_anchor_free ir" "length subject < usize_max"
  shows "case search_regular aut subject init limits matches of
      ExMatch matched _ \<Rightarrow> init \<le> em_start matched \<and> em_start matched \<le> length subject \<and>
        (em_start matched, em_end matched) \<in> pattern_spans ir (unit_extension matches) subject \<and>
        (\<forall>s e. init \<le> s \<longrightarrow> s < em_start matched \<longrightarrow> (s, e) \<notin> pattern_spans ir (unit_extension matches) subject)
    | ExNoMatch _ \<Rightarrow> \<forall>s e. init \<le> s \<longrightarrow> s \<le> length subject \<longrightarrow> (s, e) \<notin> pattern_spans ir (unit_extension matches) subject
    | _ \<Rightarrow> True"
  using assms by (rule search_spans)

lemma demo_anchor_free: "assertions_anchor_free demo_pattern"
  by code_simp

theorem search_regular_exact_witness:
  "(1, 4) \<in> pattern_spans demo_pattern (unit_extension (\<lambda>_ _. False)) [120, 97, 98, 99, 97] \<and>
   (0, 1) \<notin> pattern_spans demo_pattern (unit_extension (\<lambda>_ _. False)) [120, 97, 98, 99, 97]"
proof -
  let ?subject = "[120, 97, 98, 99, 97]"
  have "(case search_regular demo_automaton ?subject 0 text_limits_default (\<lambda>_ _. False) of
      ExMatch matched _ \<Rightarrow> em_start matched = 1 \<and> em_end matched = 4 | _ \<Rightarrow> False)"
    by code_simp
  then show ?thesis
    using search_regular_exact[OF demo_compiles demo_anchor_free, where subject = ?subject and init = 0 and
        limits = text_limits_default and matches = "\<lambda>_ _. False"]
    by (auto simp: usize_max_def split: execution_outcome.splits)
qed

text \<open>
  C21: A search never blows up: whatever the limits, its transitions and capture records are at most
  the number of memo keys (positions of the subject times states times the clipped counters of the
  repetitions), each with the work of the assertions it can run.
\<close>

theorem search_work_bounded:
  "er_transitions (outcome_receipt (search_regular aut subject init limits matches)) \<le> work_bound aut (length subject) \<and>
   er_capture_history (outcome_receipt (search_regular aut subject init limits matches)) \<le> work_bound aut (length subject)"
  using search_work[of aut subject init limits matches] by (simp add: work_within_def)

text \<open>
  C6: With limits above the work bound a search decides: for a compiled pattern whose assertions all
  have a fixed width and contain no anchor, \<open>search_regular\<close> returns a match when some position from
  \<open>init\<close> on has a span of the pattern and \<open>NoMatch\<close> otherwise; no limit is reported and nothing is
  unsupported.
\<close>

theorem search_regular_total:
  assumes "pattern_compile ir = Ok aut" "assertions_fixed ir" "ample_limits limits aut (length subject)"
    and "assertions_anchor_free ir" "length subject < usize_max"
  shows "if \<exists>s e. init \<le> s \<and> s \<le> length subject \<and> (s, e) \<in> pattern_spans ir (unit_extension matches) subject
    then \<exists>matched receipt. search_regular aut subject init limits matches = ExMatch matched receipt
    else \<exists>receipt. search_regular aut subject init limits matches = ExNoMatch receipt"
  using search_regular_decides[OF assms(1-3), of init matches] search_spans[OF assms(1,4,5), where init = init and limits = limits and matches = matches]
  by (auto split: if_splits)

lemma demo_automaton_eq:
  "demo_automaton = Automaton 8
     [\<lparr>ps_id = 0, ps_instruction = PiAccept\<rparr>, \<lparr>ps_id = 1, ps_instruction = PiTag 1 TagEnd 0\<rparr>,
      \<lparr>ps_id = 2, ps_instruction = PiRepeat 6 1 1 (Some 2) True\<rparr>, \<lparr>ps_id = 3, ps_instruction = PiSymbol 97 2\<rparr>,
      \<lparr>ps_id = 4, ps_instruction = PiSymbol 99 2\<rparr>, \<lparr>ps_id = 5, ps_instruction = PiSymbol 98 4\<rparr>,
      \<lparr>ps_id = 6, ps_instruction = PiSplit [3, 5]\<rparr>, \<lparr>ps_id = 7, ps_instruction = PiTag 1 TagStart 2\<rparr>,
      \<lparr>ps_id = 8, ps_instruction = PiAssertion 0 7\<rparr>]
     \<lparr>ev_state_count = 11, ev_capture_count = 1, ev_work_per_symbol = 11\<rparr>
     [(0, AssertionProgram (Automaton 1
        [\<lparr>ps_id = 0, ps_instruction = PiAccept\<rparr>, \<lparr>ps_id = 1, ps_instruction = PiAny 0\<rparr>]
        \<lparr>ev_state_count = 2, ev_capture_count = 0, ev_work_per_symbol = 2\<rparr> []) 1)]"
  by code_simp

lemma demo_ample: "ample_limits text_limits_default demo_automaton 3"
proof -
  note steps = key_bound_def counter_factor_def pattern_instruction_at_def state_at_id_def repeat_cap_def
    lessThan_nat_numeral lessThan_Suc
  have nested: "work_bound (Automaton 1
      [\<lparr>ps_id = 0, ps_instruction = PiAccept\<rparr>, \<lparr>ps_id = 1, ps_instruction = PiAny 0\<rparr>] ev [] :: (nat, unit) automaton) 3 = 8" for ev
    by (subst work_bound.simps) (simp add: steps)
  have "work_bound demo_automaton 3 = 1296"
    unfolding demo_automaton_eq by (subst work_bound.simps) (simp add: steps nested[simplified])
  then show ?thesis by (simp add: ample_limits_def text_limits_default_def demo_automaton_eq)
qed

theorem search_regular_total_witness:
  "\<exists>s e. s \<le> 3 \<and> (s, e) \<in> pattern_spans demo_pattern (unit_extension (\<lambda>_ _. False)) [120, 98, 97]"
proof -
  let ?subject = "[120, 98, 97 :: nat]"
  have "assertions_fixed demo_pattern" by (simp add: assertions_fixed_def demo_pattern_def bm_from_list_def)
  moreover have "ample_limits text_limits_default demo_automaton (length ?subject)" using demo_ample by (simp add: eval_nat_numeral)
  moreover note demo_anchor_free
  moreover have "length ?subject < usize_max" by (simp add: usize_max_def)
  ultimately have total: "if \<exists>s e. 0 \<le> s \<and> s \<le> length ?subject \<and> (s, e) \<in> pattern_spans demo_pattern (unit_extension (\<lambda>_ _. False)) ?subject
    then \<exists>matched receipt. search_regular demo_automaton ?subject 0 text_limits_default (\<lambda>_ _. False) = ExMatch matched receipt
    else \<exists>receipt. search_regular demo_automaton ?subject 0 text_limits_default (\<lambda>_ _. False) = ExNoMatch receipt"
    by (rule search_regular_total[OF demo_compiles])
  moreover have "(case search_regular demo_automaton ?subject 0 text_limits_default (\<lambda>_ _. False) of ExNoMatch _ \<Rightarrow> False | _ \<Rightarrow> True)"
    by code_simp
  ultimately show ?thesis by (auto simp: numeral_3_eq_3 split: if_splits)
qed

section \<open>Dialects\<close>

text \<open>
  C24: The text program a Lua pattern compiles to expresses the pattern: projecting the validated IR
  into operations and lowering the operations again gives the same expression with the same
  capture numbers, and neither step fails or panics.
\<close>

theorem lua_program_round_trip:
  assumes "lua_compile_ir dbg pattern = Ok ir"
  shows "\<exists>ops. compile_lua_pattern dbg pattern = Ok ops \<and>
    lower_text_program ops = Some \<lparr>ir_root = map_ir_node (\<lambda>s. s) tx_of_lua (ir_root ir), ir_assertions = bm_empty\<rparr>"
  using assms by (rule lua_lowering)

definition scalars :: "string \<Rightarrow> scalar list" where
  "scalars cs = map of_char cs"

theorem lua_program_round_trip_witness:
  "\<exists>ir ops. lua_compile_ir (\<lambda>_. []) (scalars ''(%a+)=%b()$'') = Ok ir \<and>
     compile_lua_pattern (\<lambda>_. []) (scalars ''(%a+)=%b()$'') = Ok ops \<and>
     lower_text_program ops = Some \<lparr>ir_root = map_ir_node (\<lambda>s. s) tx_of_lua (ir_root ir), ir_assertions = bm_empty\<rparr>"
proof -
  have "(case lua_compile_ir (\<lambda>_. []) (scalars ''(%a+)=%b()$'') of Ok _ \<Rightarrow> True | _ \<Rightarrow> False)" by code_simp
  then obtain ir where "lua_compile_ir (\<lambda>_. []) (scalars ''(%a+)=%b()$'') = Ok ir" by (auto split: outcome.splits)
  with lua_program_round_trip[OF this] show ?thesis by blast
qed

text \<open>
  C25: A glob matches the whole subject or not at all: running the text program of a glob from byte 0
  finds a match exactly over all bytes when the items of the glob accept the subject, and reports
  no match only when they do not; it is never unsupported.
\<close>

theorem glob_search_exact:
  assumes "glob_compile_ir dbg pattern = Ok ir" "length subject < usize_max"
  shows "\<exists>items ops. ir_root ir = IrConcat (IrAnchor SubjectStart # items @ [IrAnchor SubjectEnd]) \<and>
    compile_glob_pattern dbg pattern = Ok ops \<and>
    (\<forall>limits result. run_text_pattern ops subject 0 limits = Ok result \<longrightarrow>
      (case result of
         PsMatch matched _ \<Rightarrow> glob_accepts items subject \<and> tm_start matched = 0 \<and>
           tm_end matched = sum_list (map utf8_len subject)
       | PsNoMatch _ \<Rightarrow> \<not> glob_accepts items subject
       | PsLimit _ _ \<Rightarrow> True
       | PsUnsupported _ _ \<Rightarrow> False))"
proof -
  from glob_lowering[OF assms(1)] obtain items ops where
    root: "ir_root ir = IrConcat (IrAnchor SubjectStart # items @ [IrAnchor SubjectEnd])" "list_all glob_item items"
    and ops: "compile_glob_pattern dbg pattern = Ok ops"
      "lower_text_program ops = Some \<lparr>ir_root = glob_text (ir_root ir), ir_assertions = bm_empty\<rparr>" by blast
  have "case result of
         PsMatch matched _ \<Rightarrow> glob_accepts items subject \<and> tm_start matched = 0 \<and>
           tm_end matched = sum_list (map utf8_len subject)
       | PsNoMatch _ \<Rightarrow> \<not> glob_accepts items subject
       | PsLimit _ _ \<Rightarrow> True
       | PsUnsupported _ _ \<Rightarrow> False"
    if run: "run_text_pattern ops subject 0 limits = Ok result" for limits result
    using glob_run[OF root ops(2) assms(2) run] .
  with root(1) ops(1) show ?thesis by blast
qed

theorem glob_search_exact_witness:
  "\<exists>ir items. glob_compile_ir (\<lambda>_. []) (scalars ''*.r[s-t]'') = Ok ir \<and>
     ir_root ir = IrConcat (IrAnchor SubjectStart # items @ [IrAnchor SubjectEnd]) \<and> glob_accepts items (scalars ''a.rs'')"
proof -
  let ?glob = "scalars ''*.r[s-t]''" and ?subject = "scalars ''a.rs''"
  have "(case glob_compile_ir (\<lambda>_. []) ?glob of Ok _ \<Rightarrow> True | _ \<Rightarrow> False)" by code_simp
  then obtain ir where ir: "glob_compile_ir (\<lambda>_. []) ?glob = Ok ir" by (auto split: outcome.splits)
  have "length ?subject < usize_max" by code_simp
  from glob_search_exact[OF ir this] obtain items ops where
    root: "ir_root ir = IrConcat (IrAnchor SubjectStart # items @ [IrAnchor SubjectEnd])"
    and ops: "compile_glob_pattern (\<lambda>_. []) ?glob = Ok ops"
    and exact: "\<And>limits matched receipt. run_text_pattern ops ?subject 0 limits = Ok (PsMatch matched receipt) \<Longrightarrow>
      glob_accepts items ?subject" by fastforce
  have "(case compile_glob_pattern (\<lambda>_. []) ?glob of
      Ok ops \<Rightarrow> (case run_text_pattern ops ?subject 0 text_limits_default of Ok (PsMatch _ _) \<Rightarrow> True | _ \<Rightarrow> False)
    | _ \<Rightarrow> False)" by code_simp
  then obtain matched receipt where "run_text_pattern ops ?subject 0 text_limits_default = Ok (PsMatch matched receipt)"
    using ops by (auto split: outcome.splits pattern_search_outcome.splits)
  with exact ir root show ?thesis by blast
qed

section \<open>The extension lane\<close>

text \<open>
  C26: The metered lane always ends within its two limits, and what it decides is right: a match means
  that some work reachable from the start matches, a rejection that none does, and a refusal for
  work items is reported only when the limit is used up.
\<close>

theorem extension_lane_exact:
  assumes "start kind = Some initial"
  shows "lane_answers step initial limits (execute_extension start step kind limits)"
  using assms by (rule execute_extension_answers)

definition demo_start :: "extension_kind \<Rightarrow> nat extension_work list option" where
  "demo_start kind = (case kind of Backreference _ \<Rightarrow> Some [\<lparr>xw_payload = 0, xw_capture_units = 3\<rparr>] | _ \<Rightarrow> None)"

definition demo_work :: "nat \<Rightarrow> nat extension_step" where
  "demo_work offset = (if offset = 3 then WorkMatch else WorkContinue [\<lparr>xw_payload = offset + 1, xw_capture_units = 3\<rparr>])"

theorem extension_lane_exact_witness:
  "\<exists>payload\<in>work_reachable demo_work [\<lparr>xw_payload = 0, xw_capture_units = 3\<rparr>]. demo_work payload = WorkMatch"
proof -
  let ?limits = "\<lparr>max_capture_units = 20, max_work_items = 8\<rparr>"
  have "demo_start (Backreference 1) = Some [\<lparr>xw_payload = 0, xw_capture_units = 3\<rparr>]" by (simp add: demo_start_def)
  from extension_lane_exact[where start = demo_start and kind = "Backreference 1" and step = demo_work and limits = ?limits, OF this]
  have "lane_answers demo_work [\<lparr>xw_payload = 0, xw_capture_units = 3\<rparr>] ?limits
    (execute_extension demo_start demo_work (Backreference 1) ?limits)" .
  moreover have "(case execute_extension demo_start demo_work (Backreference 1) ?limits of XMatch _ \<Rightarrow> True | _ \<Rightarrow> False)"
    by code_simp
  ultimately show ?thesis by (auto simp: lane_answers_def split: extension_outcome.splits)
qed

section \<open>Runs that depart from the documentation\<close>

text \<open>An anchor inside a fixed-width assertion is tested against the window of the assertion, so
  \<open>(?=a$)a\<close> matches at the start of \<open>ab\<close>.\<close>

definition anchored_lookahead :: "(nat, unit) pattern_ir" where
  "anchored_lookahead = \<lparr>ir_root = IrConcat [IrAssertion 0, IrSymbol 97],
     ir_assertions = bm_from_list [(0, IrConcat [IrSymbol 97, IrAnchor SubjectEnd])]\<rparr>"

lemma anchored_assertion_sees_window:
  "case pattern_compile anchored_lookahead of
     Ok aut \<Rightarrow> (case execute_regular aut [97, 98] text_limits_default (\<lambda>_ _. False) of
       ExMatch matched _ \<Rightarrow> em_start matched = 0 \<and> em_end matched = 1 | _ \<Rightarrow> False)
   | _ \<Rightarrow> False"
  by code_simp

text \<open>The work of an assertion that does not hold is not in the receipt: the run below reports one
  visit, and its nested run has made one as well.\<close>

definition failing_lookahead :: "(nat, unit) pattern_ir" where
  "failing_lookahead = \<lparr>ir_root = IrAssertion 0, ir_assertions = bm_from_list [(0, IrSymbol 97)]\<rparr>"

lemma failed_assertion_uncharged:
  "case pattern_compile failing_lookahead of
     Ok aut \<Rightarrow> (case execute_regular aut [98] text_limits_default (\<lambda>_ _. False) of
       ExNoMatch receipt \<Rightarrow> er_state_visits receipt = 1 \<and> er_transitions receipt = 1 | _ \<Rightarrow> False) \<and>
       (case automaton_assertion aut 0 of
          Some program \<Rightarrow> (case execute_regular (ap_automaton program) [98] text_limits_default (\<lambda>_ _. False) of
            ExNoMatch nested \<Rightarrow> er_state_visits nested = 1 \<and> er_transitions nested = 1 | _ \<Rightarrow> False)
        | None \<Rightarrow> False)
   | _ \<Rightarrow> False"
  by code_simp

text \<open>A malformed set in a glob is reported as a malformed Lua pattern.\<close>

lemma glob_set_error_names_lua:
  "case compile_glob_pattern (\<lambda>_. []) (scalars ''[a'') of
     Err e \<Rightarrow> e = EvalError ''malformed Lua pattern: unterminated glob character set'' | _ \<Rightarrow> False"
  by code_simp

text \<open>Nested Lua captures are numbered in the order they close, so the inner one comes first.\<close>

lemma lua_captures_in_closing_order:
  "case compile_lua_pattern (\<lambda>_. []) (scalars ''((a)b)'') of
     Ok ops \<Rightarrow> (case run_text_pattern ops (scalars ''ab'') 0 text_limits_default of
       Ok (PsMatch matched _) \<Rightarrow> tm_captures matched = [(0, 1), (0, 2)] | _ \<Rightarrow> False)
   | _ \<Rightarrow> False"
  by code_simp

text \<open>A frontier never holds at the end of the subject.\<close>

lemma frontier_fails_at_end: "text_extension_match (TxFrontier c) subject (length subject) = None"
  by (simp add: text_extension_match_def class_at_def)

end
