(* ===== verification/Projection_Closure.thy ===== *)
theory Projection_Closure
  imports Ordered_Map "HOL-Library.List_Lexorder"
begin

text \<open>
  The federated conclusion graph of the projection organ (\<open>projection/graph.rs\<close>, with the identifiers
  and explanations of \<open>projection/model.rs\<close>). Owners declare which facts their conclusions consume;
  sealing joins the declarations of all owners into one closure with an inverse index from facts to
  consumers. The lemmas show when sealing succeeds, that the index is the inverse of the
  declarations, and that the affected conclusions of a change and their explanations are exact.
\<close>

section \<open>Identifiers\<close>

text \<open>
  A string is the list of its Unicode scalar values; the order of these lists is the byte order of
  the strings. \<open>blank\<close> is \<open>trim().is_empty()\<close> with the white space of Unicode.
\<close>

type_synonym label = "nat list"

definition lit :: "string \<Rightarrow> label" where
  "lit cs = map of_char cs"

lemma lit_inject [simp]: "lit a = lit b \<longleftrightarrow> a = b"
  unfolding lit_def by (rule inj_map_eq_map) (simp add: inj_on_def)

definition is_whitespace :: "nat \<Rightarrow> bool" where
  "is_whitespace ch \<longleftrightarrow> 9 \<le> ch \<and> ch \<le> 13 \<or> ch = 32 \<or> ch = 0x85 \<or> ch = 0xA0 \<or> ch = 0x1680 \<or>
     0x2000 \<le> ch \<and> ch \<le> 0x200A \<or> ch = 0x2028 \<or> ch = 0x2029 \<or> ch = 0x202F \<or> ch = 0x205F \<or> ch = 0x3000"

definition blank :: "label \<Rightarrow> bool" where
  "blank value \<longleftrightarrow> list_all is_whitespace value"

type_synonym fact_id = label
type_synonym conclusion_id = label

record closure_explanation =
  ce_conclusion :: conclusion_id
  ce_fact :: fact_id
  ce_path :: "label list"

section \<open>Owner graphs\<close>

datatype closure_error =
    EmptyOwner
  | EmptyOwnerGraph label
  | ConclusionWithoutFacts conclusion_id
  | DuplicateConclusion conclusion_id
  | DuplicateOwner conclusion_id label label
  | UnknownFact conclusion_id fact_id
  | EmptyClosure
  | UnknownConclusion conclusion_id
  | Unrelated conclusion_id fact_id

type_synonym conclusion_map = "(conclusion_id, fact_id bset) bmap"

record owner_projection_graph =
  og_owner :: label
  og_dependencies :: conclusion_map

definition declare_conclusion ::
  "conclusion_id \<times> fact_id bset \<Rightarrow> conclusion_map \<Rightarrow> (closure_error, conclusion_map) outcome" where
  "declare_conclusion item canonical =
     (if bs_elems (snd item) = [] then Err (ConclusionWithoutFacts (fst item))
      else if bm_contains_key (fst item) canonical then Err (DuplicateConclusion (fst item))
      else Ok (bm_insert (fst item) (snd item) canonical))"

definition owner_graph_new ::
  "label \<Rightarrow> (conclusion_id \<times> fact_id bset) list \<Rightarrow> (closure_error, owner_projection_graph) outcome" where
  "owner_graph_new owner dependencies =
     (if blank owner then Err EmptyOwner
      else bind_outcome (for_each declare_conclusion dependencies bm_empty) (\<lambda>canonical.
        if bm_entries canonical = [] then Err (EmptyOwnerGraph owner)
        else Ok \<lparr>og_owner = owner, og_dependencies = canonical\<rparr>))"

section \<open>Sealing\<close>

record federated_closure =
  fc_owners :: "(conclusion_id, label) bmap"
  fc_dependencies :: conclusion_map
  fc_consumers :: "(fact_id, conclusion_id bset) bmap"

definition seal_fact ::
  "conclusion_id \<Rightarrow> fact_id \<Rightarrow> (fact_id, conclusion_id bset) bmap \<Rightarrow>
   (closure_error, (fact_id, conclusion_id bset) bmap) outcome" where
  "seal_fact conclusion leaf consumers =
     (case bm_get consumers leaf of
        None \<Rightarrow> Err (UnknownFact conclusion leaf)
      | Some known \<Rightarrow> Ok (bm_insert leaf (bs_insert conclusion known) consumers))"

definition seal_conclusion ::
  "label \<Rightarrow> conclusion_id \<times> fact_id bset \<Rightarrow> federated_closure \<Rightarrow> (closure_error, federated_closure) outcome" where
  "seal_conclusion owner item c =
     (case bm_get (fc_owners c) (fst item) of
        Some first \<Rightarrow> Err (DuplicateOwner (fst item) first owner)
      | None \<Rightarrow>
          bind_outcome (for_each (seal_fact (fst item)) (bs_elems (snd item)) (fc_consumers c)) (\<lambda>consumers.
            Ok \<lparr>fc_owners = bm_insert (fst item) owner (fc_owners c),
                fc_dependencies = bm_insert (fst item) (snd item) (fc_dependencies c),
                fc_consumers = consumers\<rparr>))"

definition seal_graph ::
  "owner_projection_graph \<Rightarrow> federated_closure \<Rightarrow> (closure_error, federated_closure) outcome" where
  "seal_graph graph c = for_each (seal_conclusion (og_owner graph)) (bm_entries (og_dependencies graph)) c"

definition unsealed :: "fact_id list \<Rightarrow> federated_closure" where
  "unsealed facts = \<lparr>fc_owners = bm_empty, fc_dependencies = bm_empty,
     fc_consumers = bm_from_list (map (\<lambda>leaf. (leaf, bs_empty)) (bs_elems (bs_from_list facts)))\<rparr>"

definition closure_seal ::
  "fact_id list \<Rightarrow> owner_projection_graph list \<Rightarrow> (closure_error, federated_closure) outcome" where
  "closure_seal facts graphs =
     bind_outcome (for_each seal_graph graphs (unsealed facts)) (\<lambda>c.
       if bm_entries (fc_dependencies c) = [] then Err EmptyClosure else Ok c)"

section \<open>Queries\<close>

definition closure_affected :: "federated_closure \<Rightarrow> fact_id list \<Rightarrow> conclusion_id list" where
  "closure_affected c changed =
     bs_elems (bs_from_list (concat (map (\<lambda>leaf.
       case bm_get (fc_consumers c) leaf of None \<Rightarrow> [] | Some known \<Rightarrow> bs_elems known) changed)))"

definition closure_conclusions :: "federated_closure \<Rightarrow> conclusion_id list" where
  "closure_conclusions c = bm_keys (fc_dependencies c)"

definition closure_depends_on :: "federated_closure \<Rightarrow> conclusion_id \<Rightarrow> fact_id \<Rightarrow> bool" where
  "closure_depends_on c conclusion leaf \<longleftrightarrow>
     (case bm_get (fc_dependencies c) conclusion of None \<Rightarrow> False | Some facts \<Rightarrow> bs_contains leaf facts)"

definition closure_contains_fact :: "federated_closure \<Rightarrow> fact_id \<Rightarrow> bool" where
  "closure_contains_fact c leaf \<longleftrightarrow> bm_contains_key leaf (fc_consumers c)"

definition closure_explain ::
  "federated_closure \<Rightarrow> conclusion_id \<Rightarrow> fact_id \<Rightarrow> (closure_error, closure_explanation) outcome" where
  "closure_explain c conclusion leaf =
     (case bm_get (fc_dependencies c) conclusion of
        None \<Rightarrow> Err (UnknownConclusion conclusion)
      | Some required \<Rightarrow>
          if \<not> bs_contains leaf required then Err (Unrelated conclusion leaf)
          else bind_outcome (expect ''no entry found for key'' (bm_get (fc_owners c) conclusion)) (\<lambda>owner.
            Ok \<lparr>ce_conclusion = conclusion, ce_fact = leaf,
                ce_path = [lit ''owner/'' @ owner, lit ''conclusion/'' @ conclusion, lit ''fact/'' @ leaf]\<rparr>))"

section \<open>What sealing establishes\<close>

text \<open>
  The closure of the declarations made so far: an owner and a fact set for every conclusion, and for
  every fact the conclusions that consume it.
\<close>

definition closure_ok :: "federated_closure \<Rightarrow> bool" where
  "closure_ok c \<longleftrightarrow>
     (\<forall>conclusion. bm_get (fc_owners c) conclusion = None \<longleftrightarrow> bm_get (fc_dependencies c) conclusion = None) \<and>
     (\<forall>conclusion leaf. closure_depends_on c conclusion leaf \<longrightarrow> closure_contains_fact c leaf) \<and>
     (\<forall>leaf known. bm_get (fc_consumers c) leaf = Some known \<longrightarrow>
        bs_set known = {conclusion. closure_depends_on c conclusion leaf})"

text \<open>The effect of sealing one more conclusion.\<close>

lemma seal_facts_Ok:
  "for_each (seal_fact conclusion) facts consumers = Ok consumers' \<longleftrightarrow>
     (\<forall>leaf\<in>set facts. bm_get consumers leaf \<noteq> None) \<and>
     (\<forall>leaf. bm_get consumers' leaf =
        (if leaf \<in> set facts then map_option (bs_insert conclusion) (bm_get consumers leaf) else bm_get consumers leaf))"
proof (induction facts arbitrary: consumers)
  case Nil
  then show ?case by (auto intro: bm_ext)
next
  case (Cons leaf facts)
  show ?case
  proof (cases "bm_get consumers leaf")
    case None
    then show ?thesis by (simp add: seal_fact_def)
  next
    case (Some known)
    have twice: "bs_insert conclusion (bs_insert conclusion s) = bs_insert conclusion s" for s
      by (rule bs_ext) simp
    have "seal_fact conclusion leaf consumers = Ok (bm_insert leaf (bs_insert conclusion known) consumers)"
      using Some by (simp add: seal_fact_def)
    with Some twice show ?thesis by (auto simp: Cons.IH)
  qed
qed

lemma seal_facts_cases:
  "(\<exists>consumers'. for_each (seal_fact conclusion) facts consumers = Ok consumers') \<or>
   (\<exists>leaf\<in>set facts. bm_get consumers leaf = None \<and>
      for_each (seal_fact conclusion) facts consumers = Err (UnknownFact conclusion leaf))"
proof (induction facts arbitrary: consumers)
  case (Cons leaf facts)
  show ?case
  proof (cases "bm_get consumers leaf")
    case (Some known)
    from Cons.IH[of "bm_insert leaf (bs_insert conclusion known) consumers"] Some show ?thesis
      by (auto simp: seal_fact_def split: if_splits)
  qed (simp add: seal_fact_def)
qed simp

lemma depends_on_insert:
  "closure_depends_on (c\<lparr>fc_dependencies := bm_insert k facts (fc_dependencies c)\<rparr>) conclusion leaf \<longleftrightarrow>
     (if conclusion = k then leaf \<in> bs_set facts else closure_depends_on c conclusion leaf)"
  by (simp add: closure_depends_on_def)

lemma seal_conclusion_Ok:
  assumes "closure_ok c" "seal_conclusion owner (k, facts) c = Ok c'"
  shows "closure_ok c'" "\<And>j. bm_get (fc_dependencies c') j = (if j = k then Some facts else bm_get (fc_dependencies c) j)"
    "\<And>j. bm_get (fc_owners c') j = (if j = k then Some owner else bm_get (fc_owners c) j)"
    "\<And>leaf. closure_contains_fact c' leaf = closure_contains_fact c leaf"
proof -
  from assms(2) obtain consumers where new: "bm_get (fc_owners c) k = None"
    and sealed: "for_each (seal_fact k) (bs_elems facts) (fc_consumers c) = Ok consumers"
    and c': "c' = \<lparr>fc_owners = bm_insert k owner (fc_owners c), fc_dependencies = bm_insert k facts (fc_dependencies c),
      fc_consumers = consumers\<rparr>"
    by (auto simp: seal_conclusion_def outcome_simps split: option.splits)
  from sealed have known: "\<forall>leaf\<in>bs_set facts. bm_get (fc_consumers c) leaf \<noteq> None"
    and get: "\<And>leaf. bm_get consumers leaf = (if leaf \<in> bs_set facts
      then map_option (bs_insert k) (bm_get (fc_consumers c) leaf) else bm_get (fc_consumers c) leaf)"
    by (simp_all add: seal_facts_Ok)
  show "bm_get (fc_dependencies c') j = (if j = k then Some facts else bm_get (fc_dependencies c) j)"
    "bm_get (fc_owners c') j = (if j = k then Some owner else bm_get (fc_owners c) j)" for j
    by (simp_all add: c')
  show contains: "closure_contains_fact c' leaf = closure_contains_fact c leaf" for leaf
    using get[of leaf] known by (auto simp: c' closure_contains_fact_def in_bm_keys_iff)
  have depends: "closure_depends_on c' conclusion leaf \<longleftrightarrow>
      (if conclusion = k then leaf \<in> bs_set facts else closure_depends_on c conclusion leaf)" for conclusion leaf
    by (simp add: c' closure_depends_on_def)
  have fresh: "\<not> closure_depends_on c k leaf" for leaf
    using assms(1) new by (simp add: closure_ok_def closure_depends_on_def)
  show "closure_ok c'"
    unfolding closure_ok_def
  proof (intro conjI allI impI)
    show "closure_contains_fact c' leaf" if "closure_depends_on c' conclusion leaf" for conclusion leaf
      using that assms(1) known unfolding contains depends
      by (auto simp: closure_ok_def closure_contains_fact_def in_bm_keys_iff split: if_splits)
    show "bs_set consuming = {conclusion. closure_depends_on c' conclusion leaf}"
      if "bm_get (fc_consumers c') leaf = Some consuming" for leaf consuming
      using that assms(1) fresh get[of leaf] unfolding depends closure_ok_def
      by (auto simp: c' split: if_splits)
    show "bm_get (fc_owners c') conclusion = None \<longleftrightarrow> bm_get (fc_dependencies c') conclusion = None" for conclusion
      using assms(1) by (simp add: c' closure_ok_def)
  qed
qed

lemma seal_conclusion_result:
  "case seal_conclusion owner (k, facts) c of
     Ok _ \<Rightarrow> bm_get (fc_owners c) k = None \<and> bs_set facts \<subseteq> {leaf. closure_contains_fact c leaf}
   | Err (DuplicateOwner conclusion first second) \<Rightarrow> conclusion = k \<and> second = owner \<and> bm_get (fc_owners c) k = Some first
   | Err (UnknownFact conclusion leaf) \<Rightarrow> conclusion = k \<and> leaf \<in> bs_set facts \<and> \<not> closure_contains_fact c leaf
   | _ \<Rightarrow> False"
proof (cases "bm_get (fc_owners c) k")
  case None
  consider consumers where "for_each (seal_fact k) (bs_elems facts) (fc_consumers c) = Ok consumers"
    | leaf where "leaf \<in> bs_set facts" "bm_get (fc_consumers c) leaf = None"
      "for_each (seal_fact k) (bs_elems facts) (fc_consumers c) = Err (UnknownFact k leaf)"
    using seal_facts_cases[of k "bs_elems facts" "fc_consumers c"] by auto
  then show ?thesis
  proof cases
    case (1 consumers)
    then have "\<forall>leaf\<in>bs_set facts. bm_get (fc_consumers c) leaf \<noteq> None"
      by (simp add: seal_facts_Ok)
    with 1 None show ?thesis by (auto simp: seal_conclusion_def closure_contains_fact_def in_bm_keys_iff)
  next
    case (2 leaf)
    with None show ?thesis by (auto simp: seal_conclusion_def closure_contains_fact_def in_bm_keys_iff)
  qed
qed (simp add: seal_conclusion_def)

text \<open>All declarations of a list of graphs, in the order they are sealed.\<close>

definition declarations :: "owner_projection_graph list \<Rightarrow> (label \<times> conclusion_id \<times> fact_id bset) list" where
  "declarations graphs = concat (map (\<lambda>graph. map (Pair (og_owner graph)) (bm_entries (og_dependencies graph))) graphs)"

lemma for_each_map: "for_each f (map g xs) s = for_each (\<lambda>x. f (g x)) xs s"
  by (induction xs arbitrary: s) (auto intro: bind_outcome_cong)

lemma seal_declarations:
  "for_each seal_graph graphs c = for_each (\<lambda>(owner, item). seal_conclusion owner item) (declarations graphs) c"
proof (induction graphs arbitrary: c)
  case (Cons graph graphs)
  have "for_each seal_graph graphs = for_each (\<lambda>(owner, item). seal_conclusion owner item) (declarations graphs)"
    using Cons.IH by (rule ext)
  then have "for_each seal_graph (graph # graphs) c = bind_outcome
      (for_each (\<lambda>(owner, item). seal_conclusion owner item) (declarations [graph]) c)
      (for_each (\<lambda>(owner, item). seal_conclusion owner item) (declarations graphs))"
    by (simp add: declarations_def for_each_map seal_graph_def[of graph])
  then show ?case by (simp add: declarations_def for_each_append)
qed (simp add: declarations_def)

abbreviation seal_items where
  "seal_items \<equiv> for_each (\<lambda>(owner, item). seal_conclusion owner item)"

lemma seal_items_Ok:
  assumes "seal_items items c = Ok c'" "closure_ok c"
  shows "closure_ok c'" "distinct (map (fst \<circ> snd) items)"
    "\<forall>(owner, k, facts)\<in>set items. bm_get (fc_owners c) k = None \<and> (\<forall>leaf\<in>bs_set facts. closure_contains_fact c leaf)"
    "closure_contains_fact c' leaf = closure_contains_fact c leaf"
    "bm_get (fc_dependencies c') j = Some required \<longleftrightarrow>
       bm_get (fc_dependencies c) j = Some required \<or> (\<exists>owner. (owner, j, required) \<in> set items)"
    "bm_get (fc_owners c') j = Some holder \<longleftrightarrow>
       bm_get (fc_owners c) j = Some holder \<or> (\<exists>facts. (holder, j, facts) \<in> set items)"
proof -
  have "closure_ok c' \<and> distinct (map (fst \<circ> snd) items) \<and>
    (\<forall>(owner, k, facts)\<in>set items. bm_get (fc_owners c) k = None \<and> (\<forall>leaf\<in>bs_set facts. closure_contains_fact c leaf)) \<and>
    (\<forall>leaf. closure_contains_fact c' leaf = closure_contains_fact c leaf) \<and>
    (\<forall>j required. bm_get (fc_dependencies c') j = Some required \<longleftrightarrow>
       bm_get (fc_dependencies c) j = Some required \<or> (\<exists>owner. (owner, j, required) \<in> set items)) \<and>
    (\<forall>j holder. bm_get (fc_owners c') j = Some holder \<longleftrightarrow>
       bm_get (fc_owners c) j = Some holder \<or> (\<exists>facts. (holder, j, facts) \<in> set items))"
    using assms
  proof (induction items arbitrary: c)
    case (Cons item items)
    obtain owner k facts where item: "item = (owner, k, facts)" by (cases item)
    from Cons.prems(1) obtain c1 where step: "seal_conclusion owner (k, facts) c = Ok c1" and rest: "seal_items items c1 = Ok c'"
      by (auto simp: item outcome_simps)
    note c1 = seal_conclusion_Ok[OF Cons.prems(2) step]
    have new: "bm_get (fc_owners c) k = None" "\<forall>leaf\<in>bs_set facts. closure_contains_fact c leaf"
      using seal_conclusion_result[where owner = owner and k = k and facts = facts and c = c] step by auto
    then have "bm_get (fc_dependencies c) k = None" using Cons.prems(2) by (simp add: closure_ok_def)
    moreover note IH = Cons.IH[OF rest c1(1), unfolded c1(2,3,4)]
    moreover have "k \<noteq> k'" if "(owner', k', facts') \<in> set items" for owner' k' facts'
      using IH that by (auto split: if_splits)
    ultimately show ?case using new unfolding item by (auto split: if_splits)
  qed simp
  then show "closure_ok c'" "distinct (map (fst \<circ> snd) items)"
    "\<forall>(owner, k, facts)\<in>set items. bm_get (fc_owners c) k = None \<and> (\<forall>leaf\<in>bs_set facts. closure_contains_fact c leaf)"
    "closure_contains_fact c' leaf = closure_contains_fact c leaf"
    "bm_get (fc_dependencies c') j = Some required \<longleftrightarrow>
       bm_get (fc_dependencies c) j = Some required \<or> (\<exists>owner. (owner, j, required) \<in> set items)"
    "bm_get (fc_owners c') j = Some holder \<longleftrightarrow>
       bm_get (fc_owners c) j = Some holder \<or> (\<exists>facts. (holder, j, facts) \<in> set items)"
    by blast+
qed

lemma seal_items_total:
  assumes "closure_ok c" "distinct (map (fst \<circ> snd) items)"
    and "\<forall>(owner, k, facts)\<in>set items. bm_get (fc_owners c) k = None \<and> (\<forall>leaf\<in>bs_set facts. closure_contains_fact c leaf)"
  shows "\<exists>c'. seal_items items c = Ok c'"
  using assms
proof (induction items arbitrary: c)
  case (Cons item items)
  obtain owner k facts where item: "item = (owner, k, facts)" by (cases item)
  note result = seal_conclusion_result[where owner = owner and k = k and facts = facts and c = c]
  obtain c1 where step: "seal_conclusion owner (k, facts) c = Ok c1"
    using result Cons.prems(3) by (cases "seal_conclusion owner (k, facts) c") (auto simp: item split: closure_error.splits)
  note c1 = seal_conclusion_Ok[OF Cons.prems(1) step]
  have "\<forall>(owner, k, facts)\<in>set items. bm_get (fc_owners c1) k = None \<and> (\<forall>leaf\<in>bs_set facts. closure_contains_fact c1 leaf)"
    unfolding c1(3,4) using Cons.prems(2,3) by (force simp: item)
  from Cons.IH[OF c1(1) _ this] Cons.prems(2) step show ?case by (simp add: item)
qed simp

lemma seal_items_no_panic: "seal_items items c \<noteq> Panic p"
proof (rule for_each_not_Panic[where I = "\<lambda>_. True"])
  show "(case item of (owner, item) \<Rightarrow> seal_conclusion owner item) s \<noteq> Panic q" for item s q
    using seal_conclusion_result[where owner = "fst item" and k = "fst (snd item)" and facts = "snd (snd item)" and c = s]
    by (auto split: prod.splits)
qed simp_all

lemma unsealed_ok: "closure_ok (unsealed facts)"
  by (auto simp: closure_ok_def unsealed_def closure_depends_on_def bm_get_from_list dest!: map_of_SomeD)

lemma unsealed_contains: "closure_contains_fact (unsealed facts) leaf \<longleftrightarrow> leaf \<in> set facts"
proof -
  have "(\<exists>v. map_of (rev (map (\<lambda>leaf. (leaf, bs_empty :: conclusion_id bset)) xs)) leaf = Some v) \<longleftrightarrow> leaf \<in> set xs"
    for xs :: "fact_id list"
    unfolding not_None_eq[symmetric] map_of_eq_None_iff by (auto simp: image_image)
  then show ?thesis by (simp add: unsealed_def closure_contains_fact_def in_bm_keys_iff bm_get_from_list)
qed

lemma closure_seal_Ok:
  assumes "closure_seal facts graphs = Ok c"
  shows "closure_ok c" "distinct (map (fst \<circ> snd) (declarations graphs))"
    "\<forall>(owner, k, required)\<in>set (declarations graphs). bs_set required \<subseteq> set facts" "declarations graphs \<noteq> []"
    "bm_get (fc_dependencies c) j = Some required \<longleftrightarrow> (\<exists>owner. (owner, j, required) \<in> set (declarations graphs))"
    "bm_get (fc_owners c) j = Some holder \<longleftrightarrow> (\<exists>required. (holder, j, required) \<in> set (declarations graphs))"
    "closure_contains_fact c leaf \<longleftrightarrow> leaf \<in> set facts"
proof -
  from assms have sealed: "seal_items (declarations graphs) (unsealed facts) = Ok c"
    and some: "bm_entries (fc_dependencies c) \<noteq> []"
    by (auto simp: closure_seal_def seal_declarations outcome_simps split: if_splits)
  note ok = seal_items_Ok[OF sealed unsealed_ok]
  show "closure_ok c" "distinct (map (fst \<circ> snd) (declarations graphs))" by (rule ok)+
  show "\<forall>(owner, k, required)\<in>set (declarations graphs). bs_set required \<subseteq> set facts"
    using ok(3) unfolding unsealed_contains by blast
  show deps: "bm_get (fc_dependencies c) j = Some required \<longleftrightarrow> (\<exists>owner. (owner, j, required) \<in> set (declarations graphs))" for j required
    using ok(5) by (simp add: unsealed_def)
  show "bm_get (fc_owners c) j = Some holder \<longleftrightarrow> (\<exists>required. (holder, j, required) \<in> set (declarations graphs))"
    using ok(6) by (simp add: unsealed_def)
  show "closure_contains_fact c leaf \<longleftrightarrow> leaf \<in> set facts" using ok(4) by (simp add: unsealed_contains)
  obtain j required where "(j, required) \<in> set (bm_entries (fc_dependencies c))"
    using some by (metis list.set_sel(1) prod.exhaust)
  with deps show "declarations graphs \<noteq> []" by (auto simp: bm_entries_iff)
qed

lemma closure_seal_total:
  assumes "distinct (map (fst \<circ> snd) (declarations graphs))" "declarations graphs \<noteq> []"
    and "\<forall>(owner, k, required)\<in>set (declarations graphs). bs_set required \<subseteq> set facts"
  shows "\<exists>c. closure_seal facts graphs = Ok c"
proof -
  have "\<forall>(owner, k, required)\<in>set (declarations graphs). bm_get (fc_owners (unsealed facts)) k = None \<and>
      (\<forall>leaf\<in>bs_set required. closure_contains_fact (unsealed facts) leaf)"
    using assms(3) unfolding unsealed_contains by (auto simp: unsealed_def)
  from seal_items_total[OF unsealed_ok assms(1) this] obtain c where
    sealed: "seal_items (declarations graphs) (unsealed facts) = Ok c" by blast
  obtain owner k required where "(owner, k, required) \<in> set (declarations graphs)"
    using assms(2) by (metis list.set_sel(1) prod.exhaust)
  then have "bm_get (fc_dependencies c) k = Some required" using seal_items_Ok(5)[OF sealed unsealed_ok] by blast
  then have "bm_entries (fc_dependencies c) \<noteq> []" by (auto simp: bm_get_eq_map_of)
  with sealed show ?thesis by (simp add: closure_seal_def seal_declarations)
qed

lemma closure_seal_no_panic: "closure_seal facts graphs \<noteq> Panic p"
  by (auto simp: closure_seal_def seal_declarations outcome_simps seal_items_no_panic)

section \<open>What the queries answer\<close>

lemma closure_affected_set:
  assumes "closure_ok c"
  shows "set (closure_affected c changed) = {conclusion. \<exists>leaf\<in>set changed. closure_depends_on c conclusion leaf}"
proof -
  have "set (case bm_get (fc_consumers c) leaf of None \<Rightarrow> [] | Some known \<Rightarrow> bs_elems known) =
      {conclusion. closure_depends_on c conclusion leaf}" for leaf
  proof (cases "bm_get (fc_consumers c) leaf")
    case None
    then have "\<not> closure_contains_fact c leaf" by (simp add: closure_contains_fact_def in_bm_keys_iff)
    with None assms show ?thesis by (auto simp: closure_ok_def)
  qed (use assms in \<open>auto simp: closure_ok_def\<close>)
  then show ?thesis by (auto simp: closure_affected_def)
qed

lemma closure_affected_sorted: "sorted_wrt (<) (closure_affected c changed)"
  by (simp add: closure_affected_def)

lemma closure_explain_exact:
  assumes "closure_ok c"
  shows "closure_explain c conclusion leaf \<noteq> Panic p"
    "(\<exists>e. closure_explain c conclusion leaf = Ok e) \<longleftrightarrow> closure_depends_on c conclusion leaf"
    "closure_explain c conclusion leaf = Ok e \<Longrightarrow> ce_conclusion e = conclusion \<and> ce_fact e = leaf"
proof -
  have "\<exists>owner. bm_get (fc_owners c) conclusion = Some owner" if "closure_depends_on c conclusion leaf"
    using assms that by (force simp: closure_ok_def closure_depends_on_def split: option.splits)
  then show "closure_explain c conclusion leaf \<noteq> Panic p"
    "(\<exists>e. closure_explain c conclusion leaf = Ok e) \<longleftrightarrow> closure_depends_on c conclusion leaf"
    by (auto simp: closure_explain_def closure_depends_on_def outcome_simps split: option.splits)
  show "ce_conclusion e = conclusion \<and> ce_fact e = leaf" if "closure_explain c conclusion leaf = Ok e"
    using that by (auto simp: closure_explain_def outcome_simps split: option.splits if_splits)
qed

end
