(* ===== verification/Projection_Assay.thy ===== *)
theory Projection_Assay
  imports Projection_Closure "HOL-Library.Product_Lexorder"
begin

text \<open>
  The predicted-closure assay (\<open>projection/assay.rs\<close>) and its repair sets
  (\<open>projection/assay_repair.rs\<close>): controlled deltas, the frozen table of expected closures, the
  prediction of what a delta affects with the repairs it calls for, the stage-one qualification and
  the tracker of repeated findings. Content identities come from the kernel: the identity of a set
  is a parameter applied to what the source encodes. The lemmas show that a prediction passes exactly
  when the delta meets its contract, that the repairs name exactly the deviations, and that the
  tracker asks for direction at the third equal finding in a row.
\<close>

section \<open>Deltas and expectations\<close>

datatype controlled_delta_class =
    NoSemanticChange | PrivateImplementation | PublicApi | PublicHeadsAndPins
  | ProofAndCheckerImplementation | PresentationOnly

record controlled_delta =
  cd_id :: label
  cd_class :: controlled_delta_class
  cd_changed_facts :: "fact_id bset"
  cd_revision_delta :: nat
  cd_carried_state :: bool

datatype expected_closure_violation =
    InconsistentDenominatorOrCeiling | NoChangeContract | UnaffectedFloor | PresentationOnlyContract

datatype assay_contract =
    DeltaClass | UnknownChangedFact | Denominator | AffectedCeiling | RevisionDelta | CarriedState
  | D1UnaffectedFloor | D2UnaffectedFloor | D4UnaffectedFloor | D6CarriedState | SemanticNoOpWork

datatype projection_repair_item =
    RepairDeclaration conclusion_id
  | RepairGraphEdge conclusion_id fact_id
  | RepairContract assay_contract

text \<open>The derived order: by variant, then by the fields.\<close>

fun contract_rank :: "assay_contract \<Rightarrow> nat" where
  "contract_rank DeltaClass = 0" | "contract_rank UnknownChangedFact = 1" | "contract_rank Denominator = 2"
| "contract_rank AffectedCeiling = 3" | "contract_rank RevisionDelta = 4" | "contract_rank CarriedState = 5"
| "contract_rank D1UnaffectedFloor = 6" | "contract_rank D2UnaffectedFloor = 7" | "contract_rank D4UnaffectedFloor = 8"
| "contract_rank D6CarriedState = 9" | "contract_rank SemanticNoOpWork = 10"

fun repair_rank :: "projection_repair_item \<Rightarrow> nat \<times> label \<times> label" where
  "repair_rank (RepairDeclaration conclusion) = (0, conclusion, [])"
| "repair_rank (RepairGraphEdge conclusion leaf) = (1, conclusion, leaf)"
| "repair_rank (RepairContract contract) = (2, [contract_rank contract], [])"

lemma contract_rank_inject [simp]: "contract_rank a = contract_rank b \<longleftrightarrow> a = b"
  by (cases a; cases b) simp_all

lemma repair_rank_inject: "repair_rank a = repair_rank b \<Longrightarrow> a = b"
  by (cases a; cases b) simp_all

instantiation projection_repair_item :: linorder
begin

definition less_eq_projection_repair_item :: "projection_repair_item \<Rightarrow> projection_repair_item \<Rightarrow> bool" where
  "less_eq_projection_repair_item a b \<longleftrightarrow> repair_rank a \<le> repair_rank b"

definition less_projection_repair_item :: "projection_repair_item \<Rightarrow> projection_repair_item \<Rightarrow> bool" where
  "less_projection_repair_item a b \<longleftrightarrow> repair_rank a < repair_rank b"

instance
  by standard
    (auto simp: less_eq_projection_repair_item_def less_projection_repair_item_def intro: repair_rank_inject)

end

record 'i projection_repair_set =
  rs_delta :: label
  rs_items :: "projection_repair_item bset"
  rs_id :: 'i

datatype 'i assay_error =
    InvalidDeltaId
  | DuplicateDelta
  | IncompleteDeltaSet label
  | UnknownDelta label
  | InvalidExpectedClosure label expected_closure_violation
  | SemanticNoOpCarriesChangedFacts label
  | AssayCanonical label
  | RepairRequired "'i projection_repair_set"

definition controlled_delta_new ::
  "label \<Rightarrow> controlled_delta_class \<Rightarrow> fact_id list \<Rightarrow> nat \<Rightarrow> bool \<Rightarrow> ('i assay_error, controlled_delta) outcome" where
  "controlled_delta_new ident cls changed revision carried =
     (if blank ident then Err InvalidDeltaId
      else let changed_facts = bs_from_list changed in
        if (cls = NoSemanticChange \<or> cls = PresentationOnly) \<and> bs_elems changed_facts \<noteq> []
        then Err (SemanticNoOpCarriesChangedFacts ident)
        else Ok \<lparr>cd_id = ident, cd_class = cls, cd_changed_facts = changed_facts,
          cd_revision_delta = revision, cd_carried_state = carried\<rparr>)"

record expected_closure =
  ec_delta :: label
  ec_denominator :: usize
  ec_max_affected :: usize
  ec_max_revision_delta :: nat
  ec_carried_state :: bool
  ec_affected :: "conclusion_id bset"

record 'i expected_closure_set =
  ecs_source :: 'i
  ecs_id :: 'i
  ecs_rows :: "(label, expected_closure) bmap"

text \<open>What the two identities of the assay are computed from.\<close>

datatype 'i assay_preimage =
    ExpectedPreimage 'i "(label, expected_closure) bmap"
  | RepairPreimage label "projection_repair_item bset"

type_synonym 'i digester = "'i assay_preimage \<Rightarrow> (label, 'i) outcome"

definition required_deltas :: "label list" where
  "required_deltas = map lit [''D1'', ''D2'', ''D3'', ''D4'', ''D5'', ''D6'']"

fun join_labels :: "label list \<Rightarrow> label" where
  "join_labels [] = []"
| "join_labels [x] = x"
| "join_labels (x # xs) = x @ lit '','' @ join_labels xs"

definition unaffected_basis_points :: "usize \<Rightarrow> usize \<Rightarrow> nat" where
  "unaffected_basis_points denominator affected =
     (if denominator = 0 \<or> affected > denominator then 0
      else let points = saturating_mul (denominator - affected) 10000 div denominator in
        if points < 2 ^ 16 then points else 10000)"

definition freeze_expectation ::
  "expected_closure \<Rightarrow> (label, expected_closure) bmap \<Rightarrow> ('i assay_error, (label, expected_closure) bmap) outcome" where
  "freeze_expectation row canonical =
     (if bm_contains_key (ec_delta row) canonical then Err DuplicateDelta
      else Ok (bm_insert (ec_delta row) row canonical))"

definition expectation_at :: "(label, expected_closure) bmap \<Rightarrow> string \<Rightarrow> ('i assay_error, expected_closure) outcome" where
  "expectation_at canonical delta = expect ''no entry found for key'' (bm_get canonical (lit delta))"

definition check_ceiling :: "usize \<Rightarrow> expected_closure \<Rightarrow> unit \<Rightarrow> ('i assay_error, unit) outcome" where
  "check_ceiling denominator row _ =
     (if ec_denominator row = 0 \<or> ec_denominator row \<noteq> denominator \<or> ec_max_affected row > ec_denominator row \<or>
         length (bs_elems (ec_affected row)) > ec_max_affected row
      then Err (InvalidExpectedClosure (ec_delta row) InconsistentDenominatorOrCeiling) else Ok ())"

definition check_expectation ::
  "bool \<Rightarrow> string \<Rightarrow> expected_closure_violation \<Rightarrow> ('i assay_error, unit) outcome" where
  "check_expectation violated delta reason = (if violated then Err (InvalidExpectedClosure (lit delta) reason) else Ok ())"

definition expected_closure_freeze ::
  "'i digester \<Rightarrow> 'i \<Rightarrow> expected_closure list \<Rightarrow> ('i assay_error, 'i expected_closure_set) outcome" where
  "expected_closure_freeze digest source rows =
     bind_outcome (for_each freeze_expectation rows bm_empty) (\<lambda>canonical.
     if bm_keys canonical \<noteq> required_deltas then Err (IncompleteDeltaSet (join_labels (bm_keys canonical)))
     else
       bind_outcome (expectation_at canonical ''D1'') (\<lambda>d1.
       bind_outcome (for_each (check_ceiling (ec_denominator d1)) (bm_values canonical) ()) (\<lambda>_.
       bind_outcome (check_expectation (bs_elems (ec_affected d1) \<noteq> [] \<or> ec_max_affected d1 \<noteq> 0 \<or>
           ec_max_revision_delta d1 \<noteq> 0 \<or> ec_carried_state d1) ''D1'' NoChangeContract) (\<lambda>_.
       bind_outcome (expectation_at canonical ''D2'') (\<lambda>d2.
       bind_outcome (check_expectation (unaffected_basis_points (ec_denominator d2) (length (bs_elems (ec_affected d2))) < 9500)
           ''D2'' UnaffectedFloor) (\<lambda>_.
       bind_outcome (expectation_at canonical ''D4'') (\<lambda>d4.
       bind_outcome (check_expectation (unaffected_basis_points (ec_denominator d4) (length (bs_elems (ec_affected d4))) < 7000)
           ''D4'' UnaffectedFloor) (\<lambda>_.
       bind_outcome (expectation_at canonical ''D6'') (\<lambda>d6.
       bind_outcome (check_expectation (bs_elems (ec_affected d6) \<noteq> [] \<or> ec_max_affected d6 \<noteq> 0 \<or>
           ec_max_revision_delta d6 > 1 \<or> ec_carried_state d6) ''D6'' PresentationOnlyContract) (\<lambda>_.
       bind_outcome (map_err AssayCanonical (digest (ExpectedPreimage source canonical))) (\<lambda>ident.
       Ok \<lparr>ecs_source = source, ecs_id = ident, ecs_rows = canonical\<rparr>)))))))))))"

section \<open>Prediction\<close>

record predicted_work =
  pw_decisions :: usize
  pw_changed_facts :: usize
  pw_explanations :: usize
  pw_journal_records :: usize
  pw_planned_starts :: usize

record predicted_closure_report =
  pr_delta :: label
  pr_affected :: "conclusion_id bset"
  pr_unaffected :: "conclusion_id bset"
  pr_denominator :: usize
  pr_unaffected_basis_points :: nat
  pr_revision_delta :: nat
  pr_carried_state :: bool
  pr_explanations :: "closure_explanation list"
  pr_work :: predicted_work

datatype 'i assay_outcome =
    AssayPassed predicted_closure_report
  | AssayRepair predicted_closure_report "'i projection_repair_set"

record 'i stage_one_qualification =
  sq_oracle :: 'i
  sq_reports :: "predicted_closure_report list"

text \<open>The explanations of all pairs that have one; errors are dropped, a panic is not.\<close>

definition explain_pair ::
  "federated_closure \<Rightarrow> conclusion_id \<times> fact_id \<Rightarrow> closure_explanation list \<Rightarrow> ('e, closure_explanation list) outcome" where
  "explain_pair c pair found =
     (case closure_explain c (fst pair) (snd pair) of
        Ok explanation \<Rightarrow> Ok (found @ [explanation]) | Err _ \<Rightarrow> Ok found | Panic p \<Rightarrow> Panic p)"

definition explain_pairs ::
  "federated_closure \<Rightarrow> conclusion_id list \<Rightarrow> fact_id list \<Rightarrow> ('e, closure_explanation list) outcome" where
  "explain_pairs c conclusions facts = for_each (explain_pair c) (List.product conclusions facts) []"

definition expected_delta_class :: "label \<Rightarrow> controlled_delta_class option" where
  "expected_delta_class delta =
     (if delta = lit ''D1'' then Some NoSemanticChange
      else if delta = lit ''D2'' then Some PrivateImplementation
      else if delta = lit ''D3'' then Some PublicApi
      else if delta = lit ''D4'' then Some PublicHeadsAndPins
      else if delta = lit ''D5'' then Some ProofAndCheckerImplementation
      else if delta = lit ''D6'' then Some PresentationOnly
      else None)"

definition bs_difference :: "'k::linorder bset \<Rightarrow> 'k bset \<Rightarrow> 'k bset" where
  "bs_difference s t = bs_from_list (filter (\<lambda>x. \<not> bs_contains x t) (bs_elems s))"

definition contract_if :: "bool \<Rightarrow> assay_contract \<Rightarrow> projection_repair_item list" where
  "contract_if violated contract = (if violated then [RepairContract contract] else [])"

definition floor_repairs :: "predicted_closure_report \<Rightarrow> projection_repair_item list" where
  "floor_repairs report =
     (if pr_delta report = lit ''D1'' then contract_if (pr_unaffected_basis_points report \<noteq> 10000) D1UnaffectedFloor
      else if pr_delta report = lit ''D2'' then contract_if (pr_unaffected_basis_points report < 9500) D2UnaffectedFloor
      else if pr_delta report = lit ''D4'' then contract_if (pr_unaffected_basis_points report < 7000) D4UnaffectedFloor
      else if pr_delta report = lit ''D6'' then contract_if (pr_carried_state report) D6CarriedState
      else [])"

text \<open>The repairs, in the order they are inserted.\<close>

definition predicted_repairs ::
  "federated_closure \<Rightarrow> controlled_delta \<Rightarrow> expected_closure \<Rightarrow> predicted_closure_report \<Rightarrow> projection_repair_item bset" where
  "predicted_repairs c delta row report =
     (let changed = bs_elems (cd_changed_facts delta); affected = pr_affected report in
      bs_from_list
        (contract_if (expected_delta_class (cd_id delta) \<noteq> Some (cd_class delta)) DeltaClass @
         contract_if (list_ex (\<lambda>leaf. \<not> closure_contains_fact c leaf) changed) UnknownChangedFact @
         contract_if (ec_denominator row \<noteq> pr_denominator report) Denominator @
         concat (map (\<lambda>conclusion. map (RepairGraphEdge conclusion) (filter (closure_depends_on c conclusion) changed))
           (bs_elems (bs_difference affected (ec_affected row)))) @
         map RepairDeclaration (bs_elems (bs_difference (ec_affected row) affected)) @
         contract_if (length (bs_elems affected) > ec_max_affected row) AffectedCeiling @
         contract_if (cd_revision_delta delta > ec_max_revision_delta row) RevisionDelta @
         contract_if (cd_carried_state delta \<noteq> ec_carried_state row) CarriedState @
         floor_repairs report @
         contract_if (changed = [] \<and> (pw_planned_starts (pr_work report) \<noteq> 0 \<or> pw_journal_records (pr_work report) \<noteq> 0))
           SemanticNoOpWork))"

definition predicted_report ::
  "federated_closure \<Rightarrow> controlled_delta \<Rightarrow> closure_explanation list \<Rightarrow> predicted_closure_report" where
  "predicted_report c delta explanations =
     (let conclusions = bs_from_list (closure_conclusions c);
          changed = bs_elems (cd_changed_facts delta);
          affected = bs_from_list (closure_affected c changed) in
      \<lparr>pr_delta = cd_id delta, pr_affected = affected, pr_unaffected = bs_difference conclusions affected,
       pr_denominator = length (bs_elems conclusions),
       pr_unaffected_basis_points = unaffected_basis_points (length (bs_elems conclusions)) (length (bs_elems affected)),
       pr_revision_delta = cd_revision_delta delta, pr_carried_state = cd_carried_state delta,
       pr_explanations = explanations,
       pr_work = \<lparr>pw_decisions = length (bs_elems affected), pw_changed_facts = length changed,
         pw_explanations = length explanations, pw_journal_records = (if changed \<noteq> [] then 1 else 0) * length changed,
         pw_planned_starts = length (bs_elems affected)\<rparr>\<rparr>)"

definition repair_set_new ::
  "'i digester \<Rightarrow> label \<Rightarrow> projection_repair_item bset \<Rightarrow> ('i assay_error, 'i projection_repair_set) outcome" where
  "repair_set_new digest delta items =
     bind_outcome (map_err AssayCanonical (digest (RepairPreimage delta items))) (\<lambda>ident.
       Ok \<lparr>rs_delta = delta, rs_items = items, rs_id = ident\<rparr>)"

definition predict ::
  "'i digester \<Rightarrow> federated_closure \<Rightarrow> controlled_delta \<Rightarrow> 'i expected_closure_set \<Rightarrow>
   ('i assay_error, 'i assay_outcome) outcome" where
  "predict digest c delta expected =
     bind_outcome (ok_or (UnknownDelta (cd_id delta)) (bm_get (ecs_rows expected) (cd_id delta))) (\<lambda>row.
     bind_outcome (explain_pairs c
         (bs_elems (bs_from_list (closure_affected c (bs_elems (cd_changed_facts delta))))) (bs_elems (cd_changed_facts delta)))
       (\<lambda>explanations.
     let report = predicted_report c delta explanations;
         repairs = predicted_repairs c delta row report in
     if bs_elems repairs = [] then Ok (AssayPassed report)
     else bind_outcome (repair_set_new digest (cd_id delta) repairs) (\<lambda>set. Ok (AssayRepair report set))))"

definition qualify_delta ::
  "'i digester \<Rightarrow> federated_closure \<Rightarrow> 'i expected_closure_set \<Rightarrow> controlled_delta \<Rightarrow> predicted_closure_report list \<Rightarrow>
   ('i assay_error, predicted_closure_report list) outcome" where
  "qualify_delta digest c expected delta reports =
     bind_outcome (predict digest c delta expected) (\<lambda>result.
       case result of
         AssayPassed report \<Rightarrow> Ok (reports @ [report])
       | AssayRepair _ repairs \<Rightarrow> Err (RepairRequired repairs))"

definition qualify ::
  "'i digester \<Rightarrow> federated_closure \<Rightarrow> controlled_delta list \<Rightarrow> 'i expected_closure_set \<Rightarrow>
   ('i assay_error, 'i stage_one_qualification) outcome" where
  "qualify digest c deltas expected =
     (if map cd_id deltas \<noteq> required_deltas then Err (IncompleteDeltaSet (join_labels (map cd_id deltas)))
      else bind_outcome (for_each (qualify_delta digest c expected) deltas []) (\<lambda>reports.
        Ok \<lparr>sq_oracle = ecs_id expected, sq_reports = reports\<rparr>))"

section \<open>Repeated findings\<close>

record 'i architecture_fault_review =
  fr_finding :: 'i
  fr_epochs :: nat

datatype 'i repair_disposition = RepairEpoch nat | NeedDirection "'i architecture_fault_review"

record 'i projection_repair_tracker =
  rt_finding :: "'i option"
  rt_epochs :: nat

definition tracker_default :: "'i projection_repair_tracker" where
  "tracker_default = \<lparr>rt_finding = None, rt_epochs = 0\<rparr>"

text \<open>\<open>epochs\<close> is a \<open>u8\<close>; its sum saturates before it is cut at 3.\<close>

definition tracker_record ::
  "'i projection_repair_set \<Rightarrow> 'i projection_repair_tracker \<Rightarrow> 'i repair_disposition \<times> 'i projection_repair_tracker" where
  "tracker_record repairs tracker =
     (let tracker' = (if rt_finding tracker = Some (rs_id repairs)
                      then tracker\<lparr>rt_epochs := min (min (rt_epochs tracker + 1) 255) 3\<rparr>
                      else \<lparr>rt_finding = Some (rs_id repairs), rt_epochs = 1\<rparr>) in
      (if rt_epochs tracker' \<ge> 3
       then NeedDirection \<lparr>fr_finding = rs_id repairs, fr_epochs = rt_epochs tracker'\<rparr>
       else RepairEpoch (rt_epochs tracker'), tracker'))"

definition tracker_clear :: "'i projection_repair_tracker \<Rightarrow> 'i projection_repair_tracker" where
  "tracker_clear tracker = tracker\<lparr>rt_finding := None, rt_epochs := 0\<rparr>"

section \<open>What a prediction decides\<close>

text \<open>The conclusions a delta affects, and the contract of a delta with its row of the table.\<close>

definition touched :: "federated_closure \<Rightarrow> controlled_delta \<Rightarrow> conclusion_id set" where
  "touched c delta = {conclusion. \<exists>leaf\<in>bs_set (cd_changed_facts delta). closure_depends_on c conclusion leaf}"

definition delta_contract :: "federated_closure \<Rightarrow> controlled_delta \<Rightarrow> expected_closure \<Rightarrow> bool" where
  "delta_contract c delta row \<longleftrightarrow>
     expected_delta_class (cd_id delta) = Some (cd_class delta) \<and>
     (\<forall>leaf\<in>bs_set (cd_changed_facts delta). closure_contains_fact c leaf) \<and>
     ec_denominator row = length (closure_conclusions c) \<and>
     touched c delta = bs_set (ec_affected row) \<and>
     card (touched c delta) \<le> ec_max_affected row \<and>
     cd_revision_delta delta \<le> ec_max_revision_delta row \<and>
     cd_carried_state delta = ec_carried_state row \<and>
     (let points = unaffected_basis_points (length (closure_conclusions c)) (card (touched c delta)) in
       (cd_id delta = lit ''D1'' \<longrightarrow> points = 10000) \<and> (cd_id delta = lit ''D2'' \<longrightarrow> 9500 \<le> points) \<and>
       (cd_id delta = lit ''D4'' \<longrightarrow> 7000 \<le> points)) \<and>
     (cd_id delta = lit ''D6'' \<longrightarrow> \<not> cd_carried_state delta)"

lemma bs_set_difference [simp]: "bs_set (bs_difference s t) = bs_set s - bs_set t"
  by (auto simp: bs_difference_def)

lemma bs_elems_length: "length (bs_elems s) = card (bs_set s)"
  by (simp add: distinct_card)

lemma explain_pairs_total:
  assumes "closure_ok c"
  shows "\<exists>found. explain_pairs c conclusions facts = Ok found \<and>
    (\<forall>e\<in>set found. closure_depends_on c (ce_conclusion e) (ce_fact e))"
proof -
  have "\<exists>found'. for_each (explain_pair c) pairs found = Ok found' \<and>
      (\<forall>e\<in>set found'. closure_depends_on c (ce_conclusion e) (ce_fact e))"
    if "\<forall>e\<in>set found. closure_depends_on c (ce_conclusion e) (ce_fact e)" for pairs found
    using that
  proof (induction pairs arbitrary: found)
    case (Cons pair pairs)
    note explain = closure_explain_exact[OF assms, of "fst pair" "snd pair"]
    show ?case
    proof (cases "closure_explain c (fst pair) (snd pair)")
      case (Ok e)
      with explain(2,3) have "closure_depends_on c (ce_conclusion e) (ce_fact e)" by auto
      with Cons.IH[of "found @ [e]"] Cons.prems Ok show ?thesis by (simp add: explain_pair_def)
    next
      case (Err e)
      with Cons.IH[of found] Cons.prems show ?thesis by (simp add: explain_pair_def)
    next
      case (Panic q)
      with explain(1) show ?thesis by blast
    qed
  qed simp
  from this[of "[]"] show ?thesis by (simp add: explain_pairs_def)
qed

lemma report_affected: "closure_ok c \<Longrightarrow> bs_set (pr_affected (predicted_report c delta es)) = touched c delta"
  by (simp add: predicted_report_def Let_def closure_affected_set touched_def)

lemma conclusions_distinct: "length (bs_elems (bs_from_list (closure_conclusions c))) = length (closure_conclusions c)"
  unfolding bs_elems_length by (simp add: closure_conclusions_def distinct_card)

text \<open>The repairs of a report name exactly its deviations.\<close>

lemma contract_if_facts [simp]:
  "RepairGraphEdge conclusion leaf \<notin> set (contract_if violated contract)"
  "RepairDeclaration conclusion \<notin> set (contract_if violated contract)"
  "contract_if violated contract = [] \<longleftrightarrow> \<not> violated"
  by (simp_all add: contract_if_def)

lemma floor_repairs_facts [simp]:
  "RepairGraphEdge conclusion leaf \<notin> set (floor_repairs report)" "RepairDeclaration conclusion \<notin> set (floor_repairs report)"
  by (simp_all add: floor_repairs_def)

lemma floor_repairs_empty:
  "floor_repairs report = [] \<longleftrightarrow>
     (pr_delta report = lit ''D1'' \<longrightarrow> pr_unaffected_basis_points report = 10000) \<and>
     (pr_delta report = lit ''D2'' \<longrightarrow> 9500 \<le> pr_unaffected_basis_points report) \<and>
     (pr_delta report = lit ''D4'' \<longrightarrow> 7000 \<le> pr_unaffected_basis_points report) \<and>
     (pr_delta report = lit ''D6'' \<longrightarrow> \<not> pr_carried_state report)"
  by (simp add: floor_repairs_def not_less)

lemma predicted_repairs_items:
  assumes "closure_ok c" and report_def: "report = predicted_report c delta es"
  shows "RepairGraphEdge conclusion leaf \<in> bs_set (predicted_repairs c delta row report) \<longleftrightarrow>
      conclusion \<notin> bs_set (ec_affected row) \<and> leaf \<in> bs_set (cd_changed_facts delta) \<and> closure_depends_on c conclusion leaf"
    "RepairDeclaration conclusion \<in> bs_set (predicted_repairs c delta row report) \<longleftrightarrow>
      conclusion \<in> bs_set (ec_affected row) \<and> conclusion \<notin> touched c delta"
  using report_affected[OF assms(1), of delta es]
  by (auto simp: predicted_repairs_def Let_def report_def touched_def)

lemma predicted_repairs_empty:
  assumes "closure_ok c" and report_def: "report = predicted_report c delta es"
  shows "bs_elems (predicted_repairs c delta row report) = [] \<longleftrightarrow> delta_contract c delta row"
proof -
  have affected: "bs_set (pr_affected report) = touched c delta" unfolding report_def by (rule report_affected[OF assms(1)])
  then have size: "length (bs_elems (pr_affected report)) = card (touched c delta)" by (simp add: bs_elems_length)
  have fields: "pr_denominator report = length (closure_conclusions c)" "pr_delta report = cd_id delta"
    "pr_carried_state report = cd_carried_state delta"
    "pr_unaffected_basis_points report = unaffected_basis_points (length (closure_conclusions c)) (card (touched c delta))"
    "pw_planned_starts (pr_work report) = card (touched c delta)"
    using conclusions_distinct[of c] size by (simp_all add: report_def predicted_report_def Let_def)
  have idle: "pw_journal_records (pr_work report) = 0 \<and> card (touched c delta) = 0" if "bs_elems (cd_changed_facts delta) = []"
    using that by (simp add: report_def predicted_report_def Let_def touched_def)
  have edges: "concat (map (\<lambda>conclusion. map (RepairGraphEdge conclusion)
        (filter (closure_depends_on c conclusion) (bs_elems (cd_changed_facts delta))))
      (bs_elems (bs_difference (pr_affected report) (ec_affected row)))) = [] \<longleftrightarrow> touched c delta \<subseteq> bs_set (ec_affected row)"
    unfolding set_empty[symmetric] using affected by (auto simp: touched_def filter_empty_conv)
  have missing: "map RepairDeclaration (bs_elems (bs_difference (ec_affected row) (pr_affected report))) = [] \<longleftrightarrow>
      bs_set (ec_affected row) \<subseteq> touched c delta"
    unfolding set_empty[symmetric] using affected by auto
  have known: "list_ex (\<lambda>leaf. \<not> closure_contains_fact c leaf) (bs_elems (cd_changed_facts delta)) \<longleftrightarrow>
      \<not> (\<forall>leaf\<in>bs_set (cd_changed_facts delta). closure_contains_fact c leaf)"
    by (simp add: list_ex_iff)
  have none: "bs_elems (bs_from_list xs) = [] \<longleftrightarrow> xs = []" for xs :: "projection_repair_item list"
    by (metis bs_set_from_list set_empty)
  show ?thesis
    unfolding predicted_repairs_def Let_def none append_is_Nil_conv edges missing known floor_repairs_empty contract_if_facts
      delta_contract_def fields size
    using idle by auto
qed


lemma predict_cases:
  assumes "closure_ok c"
  obtains (unknown) "bm_get (ecs_rows expected) (cd_id delta) = None"
      "predict digest c delta expected = Err (UnknownDelta (cd_id delta))"
    | (passed) row es where "bm_get (ecs_rows expected) (cd_id delta) = Some row" "delta_contract c delta row"
      "\<forall>e\<in>set es. closure_depends_on c (ce_conclusion e) (ce_fact e)"
      "predict digest c delta expected = Ok (AssayPassed (predicted_report c delta es))"
    | (repair) row es where "bm_get (ecs_rows expected) (cd_id delta) = Some row" "\<not> delta_contract c delta row"
      "predict digest c delta expected =
         (case digest (RepairPreimage (cd_id delta) (predicted_repairs c delta row (predicted_report c delta es))) of
            Ok ident \<Rightarrow> Ok (AssayRepair (predicted_report c delta es) \<lparr>rs_delta = cd_id delta,
              rs_items = predicted_repairs c delta row (predicted_report c delta es), rs_id = ident\<rparr>)
          | Err e \<Rightarrow> Err (AssayCanonical e) | Panic q \<Rightarrow> Panic q)"
proof (cases "bm_get (ecs_rows expected) (cd_id delta)")
  case None
  with unknown show thesis by (simp add: predict_def)
next
  case (Some row)
  from explain_pairs_total[OF assms] obtain es where
    es: "explain_pairs c (bs_elems (bs_from_list (closure_affected c (bs_elems (cd_changed_facts delta)))))
        (bs_elems (cd_changed_facts delta)) = (Ok es :: ('a assay_error, _) outcome)"
      "\<forall>e\<in>set es. closure_depends_on c (ce_conclusion e) (ce_fact e)" by blast
  show thesis
  proof (cases "delta_contract c delta row")
    case True
    with Some es show thesis
      by (intro passed[of row es]) (simp_all add: predict_def Let_def predicted_repairs_empty[OF assms refl])
  next
    case False
    with Some es(1) show thesis
      by (intro repair[of row es])
        (simp_all add: predict_def Let_def predicted_repairs_empty[OF assms refl] repair_set_new_def split: outcome.split)
  qed
qed

lemma predict_passes:
  assumes "closure_ok c"
  shows "(\<exists>report. predict digest c delta expected = Ok (AssayPassed report)) \<longleftrightarrow>
    (\<exists>row. bm_get (ecs_rows expected) (cd_id delta) = Some row \<and> delta_contract c delta row)"
  by (rule predict_cases[OF assms, of expected delta digest]) (auto split: outcome.splits)

lemma predict_report:
  assumes "closure_ok c" "predict digest c delta expected = Ok (AssayPassed report)"
  shows "bs_set (pr_affected report) = touched c delta"
    "bs_set (pr_unaffected report) = set (closure_conclusions c) - touched c delta"
    "\<forall>e\<in>set (pr_explanations report). closure_depends_on c (ce_conclusion e) (ce_fact e)"
proof -
  obtain es where
    report: "report = predicted_report c delta es" and es: "\<forall>e\<in>set es. closure_depends_on c (ce_conclusion e) (ce_fact e)"
    using assms(2) by (cases rule: predict_cases[OF assms(1), of expected delta digest]) (auto split: outcome.splits)
  show affected: "bs_set (pr_affected report) = touched c delta" unfolding report by (rule report_affected[OF assms(1)])
  have "pr_unaffected report = bs_difference (bs_from_list (closure_conclusions c)) (pr_affected report)"
    by (simp add: report predicted_report_def Let_def)
  with affected show "bs_set (pr_unaffected report) = set (closure_conclusions c) - touched c delta" by simp
  show "\<forall>e\<in>set (pr_explanations report). closure_depends_on c (ce_conclusion e) (ce_fact e)"
    using es by (simp add: report predicted_report_def Let_def)
qed

lemma predict_repairs:
  assumes "closure_ok c" "predict digest c delta expected = Ok (AssayRepair report repairs)"
    and "bm_get (ecs_rows expected) (cd_id delta) = Some row"
  shows "RepairGraphEdge conclusion leaf \<in> bs_set (rs_items repairs) \<longleftrightarrow>
      conclusion \<notin> bs_set (ec_affected row) \<and> leaf \<in> bs_set (cd_changed_facts delta) \<and> closure_depends_on c conclusion leaf"
    "RepairDeclaration conclusion \<in> bs_set (rs_items repairs) \<longleftrightarrow>
      conclusion \<in> bs_set (ec_affected row) \<and> conclusion \<notin> touched c delta"
    "bs_set (rs_items repairs) \<noteq> {}"
proof -
  obtain es where
    broken: "\<not> delta_contract c delta row" and
    items: "rs_items repairs = predicted_repairs c delta row (predicted_report c delta es)"
    using assms(2,3) by (cases rule: predict_cases[OF assms(1), of expected delta digest]) (auto split: outcome.splits)
  note exact = predicted_repairs_items[OF assms(1), where report = "predicted_report c delta es", OF refl]
  show "RepairGraphEdge conclusion leaf \<in> bs_set (rs_items repairs) \<longleftrightarrow>
      conclusion \<notin> bs_set (ec_affected row) \<and> leaf \<in> bs_set (cd_changed_facts delta) \<and> closure_depends_on c conclusion leaf"
    "RepairDeclaration conclusion \<in> bs_set (rs_items repairs) \<longleftrightarrow>
      conclusion \<in> bs_set (ec_affected row) \<and> conclusion \<notin> touched c delta"
    unfolding items by (rule exact)+
  show "bs_set (rs_items repairs) \<noteq> {}"
    using broken unfolding items set_empty predicted_repairs_empty[OF assms(1) refl] .
qed

lemma predict_no_panic:
  assumes "closure_ok c" "\<And>preimage q. digest preimage \<noteq> Panic q"
  shows "predict digest c delta expected \<noteq> Panic p"
  using assms(2) by (cases rule: predict_cases[OF assms(1), of expected delta digest]) (auto split: outcome.splits)

section \<open>Qualification\<close>

lemma qualify_deltas:
  assumes "closure_ok c"
  shows "(\<exists>reports'. for_each (qualify_delta digest c expected) deltas reports = Ok reports') \<longleftrightarrow>
    (\<forall>delta\<in>set deltas. \<exists>row. bm_get (ecs_rows expected) (cd_id delta) = Some row \<and> delta_contract c delta row)"
proof (induction deltas arbitrary: reports)
  case (Cons delta deltas)
  show ?case
  proof (cases "\<exists>report. predict digest c delta expected = Ok (AssayPassed report)")
    case True
    then obtain report where "predict digest c delta expected = Ok (AssayPassed report)" by blast
    then have "qualify_delta digest c expected delta reports = Ok (reports @ [report])" by (simp add: qualify_delta_def)
    with Cons.IH[of "reports @ [report]"] True predict_passes[OF assms, of digest delta expected] show ?thesis by simp
  next
    case False
    then have "\<nexists>reports'. qualify_delta digest c expected delta reports = Ok reports'"
      by (auto simp: qualify_delta_def outcome_simps split: assay_outcome.splits)
    with False predict_passes[OF assms, of digest delta expected] show ?thesis by (auto simp: outcome_simps)
  qed
qed simp

lemma qualify_Ok_iff:
  assumes "closure_ok c"
  shows "(\<exists>q. qualify digest c deltas expected = Ok q) \<longleftrightarrow> map cd_id deltas = required_deltas \<and>
    (\<forall>delta\<in>set deltas. \<exists>row. bm_get (ecs_rows expected) (cd_id delta) = Some row \<and> delta_contract c delta row)"
  using qualify_deltas[OF assms, of digest expected deltas "[]"] by (auto simp: qualify_def outcome_simps)

section \<open>The tracker over time\<close>

text \<open>A history of findings (\<open>Some\<close>) and clearings (\<open>None\<close>), oldest first, and the run of equal
  findings at its end.\<close>

definition tracker_step ::
  "'i projection_repair_tracker \<Rightarrow> 'i projection_repair_set option \<Rightarrow> 'i projection_repair_tracker" where
  "tracker_step tracker event =
     (case event of None \<Rightarrow> tracker_clear tracker | Some repairs \<Rightarrow> snd (tracker_record repairs tracker))"

definition tracker_after :: "'i projection_repair_set option list \<Rightarrow> 'i projection_repair_tracker" where
  "tracker_after events = foldl tracker_step tracker_default events"

definition streak :: "'i projection_repair_set option list \<Rightarrow> 'i \<Rightarrow> nat" where
  "streak events ident = length (takeWhile (\<lambda>event. map_option rs_id event = Some ident) (rev events))"

lemma streak_snoc:
  "streak (events @ [event]) ident = (if map_option rs_id event = Some ident then streak events ident + 1 else 0)"
  by (simp add: streak_def)

lemma tracker_after_snoc: "tracker_after (events @ [event]) = tracker_step (tracker_after events) event"
  by (simp add: tracker_after_def)

lemma tracker_streak:
  "case rt_finding (tracker_after events) of
     None \<Rightarrow> \<forall>ident. streak events ident = 0
   | Some finding \<Rightarrow> rt_epochs (tracker_after events) = min (streak events finding) 3 \<and> 0 < streak events finding \<and>
       (\<forall>ident. ident \<noteq> finding \<longrightarrow> streak events ident = 0)"
proof (induction events rule: rev_induct)
  case Nil
  then show ?case by (simp add: tracker_after_def tracker_default_def streak_def)
next
  case (snoc event events)
  then show ?case
    by (cases event)
      (auto simp: tracker_after_snoc tracker_step_def tracker_clear_def tracker_record_def Let_def streak_snoc split: option.splits)
qed

lemma tracker_record_streak:
  "fst (tracker_record repairs (tracker_after events)) =
     (if 2 \<le> streak events (rs_id repairs) then NeedDirection \<lparr>fr_finding = rs_id repairs, fr_epochs = 3\<rparr>
      else RepairEpoch (streak events (rs_id repairs) + 1))"
  using tracker_streak[of events] by (auto simp: tracker_record_def Let_def min_def split: option.splits if_splits)

end
