(* ===== verification/Projection_Engine.thy ===== *)
theory Projection_Engine
  imports Projection_Assay
begin

text \<open>
  Semantic projections over observed facts: the model of \<open>projection/model.rs\<close>, the admission of
  projectors (\<open>admission.rs\<close>), the registry and the engine (\<open>engine.rs\<close>) and the built-in selection
  of facts (\<open>builtin.rs\<close>). Data and content identities belong to the kernel: their types are
  parameters, and so are canonical lengths, digests, the shape verifier, the live checker of the
  conformance crate and the rendering of an error. A provider is arbitrary code that can only read its
  inputs: it is an interaction tree over the two read operations. The lemmas show that a result depends
  on nothing but the facts it reports, and what a successful projection has been checked for.
\<close>

section \<open>Facts and inputs\<close>

datatype projection_error =
    InvalidIdentifier string
  | DuplicateFact fact_id
  | MissingFact fact_id
  | UnknownProvider label
  | DuplicateProvider label
  | ConfigShapeMismatch
  | InvalidConfig label
  | InvalidPathSelection label
  | CodeIdentityMismatch
  | UnqualifiedProjector label
  | UnavailableConfinement label
  | UndeclaredAccess fact_id
  | UnreadDependency fact_id
  | ProjectionBudgetExceeded string
  | ProjectionCanonical label
  | MissingExplanation conclusion_id fact_id

definition identifier_new :: "string \<Rightarrow> label \<Rightarrow> (projection_error, label) outcome" where
  "identifier_new name value = (if blank value then Err (InvalidIdentifier name) else Ok value)"

record 'i package_identity =
  pk_name :: label
  pk_version :: label
  pk_code :: 'i

record 'd observed_fact =
  of_semantic :: 'd
  of_envelope :: "'d option"

record 'd observed_world =
  ow_facts :: "(fact_id, 'd observed_fact) bmap"

definition observe_fact ::
  "fact_id \<times> 'd observed_fact \<Rightarrow> 'd observed_world \<Rightarrow> (projection_error, 'd observed_world) outcome" where
  "observe_fact item world =
     (if bm_contains_key (fst item) (ow_facts world) then Err (DuplicateFact (fst item))
      else Ok (world\<lparr>ow_facts := bm_insert (fst item) (snd item) (ow_facts world)\<rparr>))"

definition observed_world_new ::
  "(fact_id \<times> 'd observed_fact) list \<Rightarrow> (projection_error, 'd observed_world) outcome" where
  "observed_world_new facts = for_each observe_fact facts \<lparr>ow_facts = bm_empty\<rparr>"

record declared_input_selector =
  ds_facts :: "fact_id bset"

definition declared_input_selector_new :: "fact_id list \<Rightarrow> declared_input_selector" where
  "declared_input_selector_new facts = \<lparr>ds_facts = bs_from_list facts\<rparr>"

record 'd projection_inputs =
  pi_facts :: "(fact_id, 'd) bmap"
  pi_accessed :: "fact_id bset"

definition select_fact ::
  "'d observed_world \<Rightarrow> fact_id \<Rightarrow> (fact_id, 'd) bmap \<Rightarrow> (projection_error, (fact_id, 'd) bmap) outcome" where
  "select_fact world ident selected =
     bind_outcome (ok_or (MissingFact ident) (bm_get (ow_facts world) ident)) (\<lambda>observed.
       Ok (bm_insert ident (of_semantic observed) selected))"

definition world_select ::
  "'d observed_world \<Rightarrow> declared_input_selector \<Rightarrow> (projection_error, 'd projection_inputs) outcome" where
  "world_select world selector =
     bind_outcome (for_each (select_fact world) (bs_elems (ds_facts selector)) bm_empty) (\<lambda>selected.
       Ok \<lparr>pi_facts = selected, pi_accessed = bs_empty\<rparr>)"

text \<open>The two reads record what they hand out; the poisoning of the lock is not modelled.\<close>

definition inputs_get :: "fact_id \<Rightarrow> 'd projection_inputs \<Rightarrow> 'd option \<times> 'd projection_inputs" where
  "inputs_get ident inputs =
     (case bm_get (pi_facts inputs) ident of
        None \<Rightarrow> (None, inputs)
      | Some v \<Rightarrow> (Some v, inputs\<lparr>pi_accessed := bs_insert ident (pi_accessed inputs)\<rparr>))"

definition inputs_iter :: "'d projection_inputs \<Rightarrow> (fact_id \<times> 'd) list \<times> 'd projection_inputs" where
  "inputs_iter inputs =
     (bm_entries (pi_facts inputs), inputs\<lparr>pi_accessed := bs_extend (bm_keys (pi_facts inputs)) (pi_accessed inputs)\<rparr>)"

record 'd projection_output =
  po_value :: 'd
  po_dependencies :: "fact_id bset"

datatype 'd projector =
    ProjectGet fact_id "'d option \<Rightarrow> 'd projector"
  | ProjectIter "(fact_id \<times> 'd) list \<Rightarrow> 'd projector"
  | ProjectDone "(projection_error, 'd projection_output) outcome"

primrec run_projector ::
  "'d projector \<Rightarrow> 'd projection_inputs \<Rightarrow> (projection_error, 'd projection_output) outcome \<times> 'd projection_inputs" where
  "run_projector (ProjectGet ident continue) inputs =
     (case inputs_get ident inputs of (v, inputs') \<Rightarrow> run_projector (continue v) inputs')"
| "run_projector (ProjectIter continue) inputs =
     (case inputs_iter inputs of (entries, inputs') \<Rightarrow> run_projector (continue entries) inputs')"
| "run_projector (ProjectDone result) inputs = (result, inputs)"

record ('d, 'i) projection_provider =
  pp_kind :: label
  pp_config_shape :: 'i
  pp_project :: "'d \<Rightarrow> 'd projector"

record ('d, 'i) projection_spec =
  sp_id :: 'i
  sp_kind :: label
  sp_config :: 'd
  sp_config_shape :: 'i
  sp_provider :: "'i package_identity"

section \<open>Policies and admission\<close>

record projection_budget =
  max_inputs :: usize
  max_output_bytes :: usize
  max_fuel :: nat
  max_memory_bytes :: usize

record execution_semantics =
  xs_id :: label
  xs_canonical_nan :: bool
  xs_canonical_collections :: bool
  xs_fresh_instance :: bool

record 'i projector_policy =
  pl_input_shape :: 'i
  pl_reads :: declared_input_selector
  pl_imports :: "label bset"
  pl_execution :: execution_semantics
  pl_budgets :: projection_budget
  pl_requires_confinement :: bool

record 'i qualified_source_closure =
  qs_code :: 'i
  qs_dependencies :: 'i
  qs_review :: 'i

record 'i qualified_runtime =
  qr_code :: 'i
  qr_semantics :: execution_semantics

datatype 'i projector_qualification =
    TrustedNative "'i qualified_source_closure" 'i
  | ClosedWasm 'i 'i "'i qualified_runtime" "label bset" 'i

definition qualification_implementation :: "'i projector_qualification \<Rightarrow> 'i" where
  "qualification_implementation q =
     (case q of TrustedNative source _ \<Rightarrow> qs_code source | ClosedWasm module _ _ _ _ \<Rightarrow> module)"

definition qualification_policy :: "'i projector_qualification \<Rightarrow> 'i" where
  "qualification_policy q =
     (case q of TrustedNative _ policy \<Rightarrow> policy | ClosedWasm _ policy _ _ _ \<Rightarrow> policy)"

datatype qualification_error =
    NativeCodeMismatch
  | WrongCheckerScope
  | WrongCheckerSubject
  | InsufficientEvidenceGrade
  | CheckerUnavailable label
  | CheckerFailed label
  | IncompleteImportManifest
  | ImportManifestMismatch
  | ForbiddenImport label
  | StartBehaviorUnchecked
  | RuntimeSemanticsUnqualified
  | RuntimeBudgetsUnenforced
  | CanonicalPolicy label

text \<open>
  The calls into the conformance crate: whether a receipt is current, its scope, subject, grade and
  identity, the review scope, the subject of a code and its dependencies, and issuing a receipt.
\<close>

record ('i, 'r, 'x) checker_ops =
  ck_verify_current :: "'r \<Rightarrow> (label, unit) outcome"
  ck_scope :: "'r \<Rightarrow> 'x"
  ck_subject :: "'r \<Rightarrow> 'x"
  ck_grade :: "'r \<Rightarrow> nat"
  ck_bootstrap_grade :: nat
  ck_review :: "'r \<Rightarrow> 'i"
  ck_review_scope :: "(label, 'x) outcome"
  ck_reviewed_subject :: "'i \<Rightarrow> 'i \<Rightarrow> (label, 'x) outcome"
  ck_issue :: "'i \<Rightarrow> 'i \<Rightarrow> (qualification_error, 'r) outcome"

record ('i, 'r) native_source_evidence =
  ne_code :: 'i
  ne_dependencies :: 'i
  ne_receipt :: 'r

definition require :: "bool \<Rightarrow> 'e \<Rightarrow> ('e, unit) outcome" where
  "require condition e = (if condition then Ok () else Err e)"

definition trusted_native ::
  "('i, 'r, 'x) checker_ops \<Rightarrow> ('i projector_policy \<Rightarrow> (label, 'i) outcome) \<Rightarrow> 'i projector_policy \<Rightarrow>
   ('i, 'r) native_source_evidence \<Rightarrow> (qualification_error, 'i projector_qualification) outcome" where
  "trusted_native checker policy_id policy evidence =
     bind_outcome (map_err CheckerUnavailable (ck_verify_current checker (ne_receipt evidence))) (\<lambda>_.
     bind_outcome (map_err CheckerFailed (ck_review_scope checker)) (\<lambda>scope.
     bind_outcome (require (ck_scope checker (ne_receipt evidence) = scope) WrongCheckerScope) (\<lambda>_.
     bind_outcome (map_err CheckerFailed (ck_reviewed_subject checker (ne_code evidence) (ne_dependencies evidence))) (\<lambda>subject.
     bind_outcome (require (ck_subject checker (ne_receipt evidence) = subject) WrongCheckerSubject) (\<lambda>_.
     bind_outcome (require (ck_bootstrap_grade checker \<le> ck_grade checker (ne_receipt evidence)) InsufficientEvidenceGrade) (\<lambda>_.
     bind_outcome (map_err CanonicalPolicy (policy_id policy)) (\<lambda>ident.
     Ok (TrustedNative \<lparr>qs_code = ne_code evidence, qs_dependencies = ne_dependencies evidence,
       qs_review = ck_review checker (ne_receipt evidence)\<rparr> ident))))))))"

record 'i closed_wasm_evidence =
  we_module :: 'i
  we_imports :: "label bset"
  we_runtime :: "'i qualified_runtime"
  we_admission :: 'i
  we_import_manifest_complete :: bool
  we_start_behavior_checked :: bool
  we_budgets_enforced :: bool

definition forbidden_fragments :: "label list" where
  "forbidden_fragments = map lit [''wasi'', ''filesystem'', ''path_'', ''proc'', ''environment'', ''environ'', ''clock'',
     ''time'', ''random'', ''network'', ''socket'', ''thread'', ''shared-memory'']"

definition to_ascii_lowercase :: "label \<Rightarrow> label" where
  "to_ascii_lowercase = map (\<lambda>ch. if 65 \<le> ch \<and> ch \<le> 90 then ch + 32 else ch)"

definition starts_with :: "label \<Rightarrow> label \<Rightarrow> bool" where
  "starts_with needle value \<longleftrightarrow> take (length needle) value = needle"

fun contains_fragment :: "label \<Rightarrow> label \<Rightarrow> bool" where
  "contains_fragment needle [] \<longleftrightarrow> needle = []"
| "contains_fragment needle (ch # rest) \<longleftrightarrow> starts_with needle (ch # rest) \<or> contains_fragment needle rest"

definition is_forbidden_import :: "label \<Rightarrow> bool" where
  "is_forbidden_import import \<longleftrightarrow>
     list_ex (\<lambda>needle. contains_fragment needle (to_ascii_lowercase import)) forbidden_fragments"

definition check_import :: "label \<Rightarrow> unit \<Rightarrow> (qualification_error, unit) outcome" where
  "check_import import _ = (if is_forbidden_import import then Err (ForbiddenImport import) else Ok ())"

definition closed_wasm ::
  "('i projector_policy \<Rightarrow> (label, 'i) outcome) \<Rightarrow> 'i projector_policy \<Rightarrow> 'i closed_wasm_evidence \<Rightarrow>
   (qualification_error, 'i projector_qualification) outcome" where
  "closed_wasm policy_id policy evidence =
     bind_outcome (require (we_import_manifest_complete evidence) IncompleteImportManifest) (\<lambda>_.
     bind_outcome (require (we_imports evidence = pl_imports policy) ImportManifestMismatch) (\<lambda>_.
     bind_outcome (for_each check_import (bs_elems (we_imports evidence)) ()) (\<lambda>_.
     bind_outcome (require (we_start_behavior_checked evidence) StartBehaviorUnchecked) (\<lambda>_.
     let semantics = qr_semantics (we_runtime evidence) in
     bind_outcome (require (xs_canonical_nan semantics \<and> xs_canonical_collections semantics \<and> xs_fresh_instance semantics)
       RuntimeSemanticsUnqualified) (\<lambda>_.
     bind_outcome (require (we_budgets_enforced evidence) RuntimeBudgetsUnenforced) (\<lambda>_.
     bind_outcome (map_err CanonicalPolicy (policy_id policy)) (\<lambda>ident.
     Ok (ClosedWasm (we_module evidence) ident (we_runtime evidence) (we_imports evidence) (we_admission evidence)))))))))"

section \<open>The registry\<close>

record ('i, 'r) bootstrap_admission =
  ba_receipt :: 'r
  ba_dependencies :: 'i

record ('d, 'i, 'r) registered_provider =
  rp_identity :: "'i package_identity"
  rp_provider :: "('d, 'i) projection_provider"
  rp_bootstrap :: "('i, 'r) bootstrap_admission option"

record ('d, 'i, 'r) projection_registry =
  pg_providers :: "(label, ('d, 'i, 'r) registered_provider) bmap"

definition provider_register ::
  "'i package_identity \<Rightarrow> ('d, 'i) projection_provider \<Rightarrow> ('d, 'i, 'r) projection_registry \<Rightarrow>
   (projection_error, ('d, 'i, 'r) projection_registry) outcome" where
  "provider_register identity provider registry =
     (if bm_contains_key (pp_kind provider) (pg_providers registry) then Err (DuplicateProvider (pp_kind provider))
      else Ok (registry\<lparr>pg_providers := bm_insert (pp_kind provider)
        \<lparr>rp_identity = identity, rp_provider = provider, rp_bootstrap = None\<rparr> (pg_providers registry)\<rparr>))"

text \<open>\<open>bootstrap_native_source\<close> compares the two codes and issues a receipt through the checker.\<close>

definition bootstrap_native_source ::
  "('i, 'r, 'x) checker_ops \<Rightarrow> 'i \<Rightarrow> 'i \<Rightarrow> 'i \<Rightarrow> (qualification_error, 'r) outcome" where
  "bootstrap_native_source checker declared loaded dependencies =
     (if declared \<noteq> loaded then Err NativeCodeMismatch else ck_issue checker declared dependencies)"

definition admit_bootstrap_native ::
  "('i, 'r, 'x) checker_ops \<Rightarrow> label \<Rightarrow> label \<Rightarrow> 'i \<Rightarrow> 'i \<Rightarrow> ('d, 'i, 'r) projection_registry \<Rightarrow>
   (qualification_error, ('d, 'i, 'r) projection_registry) outcome" where
  "admit_bootstrap_native checker unknown kind code dependencies registry =
     bind_outcome (ok_or (CheckerFailed unknown) (bm_get (pg_providers registry) kind)) (\<lambda>registered.
     bind_outcome (bootstrap_native_source checker code (pk_code (rp_identity registered)) dependencies) (\<lambda>receipt.
     Ok (registry\<lparr>pg_providers := bm_insert kind
       (registered\<lparr>rp_bootstrap := Some \<lparr>ba_receipt = receipt, ba_dependencies = dependencies\<rparr>\<rparr>) (pg_providers registry)\<rparr>)))"

definition qualification_for ::
  "('i, 'r, 'x) checker_ops \<Rightarrow> ('i projector_policy \<Rightarrow> (label, 'i) outcome) \<Rightarrow> ('d, 'i, 'r) projection_registry \<Rightarrow> label \<Rightarrow>
   'i projector_policy \<Rightarrow> (qualification_error, 'i projector_qualification) outcome option" where
  "qualification_for checker policy_id registry kind policy =
     (case bm_get (pg_providers registry) kind of
        None \<Rightarrow> None
      | Some registered \<Rightarrow>
          (case rp_bootstrap registered of
             None \<Rightarrow> None
           | Some bootstrap \<Rightarrow> Some (trusted_native checker policy_id policy
               \<lparr>ne_code = pk_code (rp_identity registered), ne_dependencies = ba_dependencies bootstrap,
                ne_receipt = ba_receipt bootstrap\<rparr>)))"

section \<open>The engine\<close>

record 'i confinement_evidence =
  cf_membrane :: label
  cf_policy :: 'i
  cf_live :: bool

record mediated_access_witness =
  ma_selected :: "fact_id bset"
  ma_accessed :: "fact_id bset"

text \<open>What the digest of a projection is computed from.\<close>

record ('d, 'i) projection_preimage =
  px_kind :: label
  px_package :: label
  px_version :: label
  px_implementation :: 'i
  px_policy :: 'i
  px_config :: 'd
  px_inputs :: "(fact_id \<times> 'd) list"
  px_projection :: 'd

record ('d, 'i) projection_result =
  res_projection :: 'd
  res_mediated_access :: mediated_access_witness
  res_qualification :: "'i projector_qualification"
  res_confinement :: "'i confinement_evidence option"
  res_digest :: 'i
  res_affected :: "conclusion_id list"
  res_explanations :: "closure_explanation list"

record ('d, 'i, 'r, 'x) projection_env =
  en_checker :: "('i, 'r, 'x) checker_ops"
  en_policy_id :: "'i projector_policy \<Rightarrow> (label, 'i) outcome"
  en_verify_shape :: "'i \<Rightarrow> 'd \<Rightarrow> (label, unit) outcome"
  en_canonical_len :: "'d \<Rightarrow> (label, usize) outcome"
  en_content_id :: "('d, 'i) projection_preimage \<Rightarrow> (label, 'i) outcome"
  en_render :: "qualification_error \<Rightarrow> label"

definition digest_input ::
  "'d projection_inputs \<Rightarrow> fact_id \<Rightarrow> (fact_id \<times> 'd) list \<Rightarrow> (projection_error, (fact_id \<times> 'd) list) outcome" where
  "digest_input inputs ident facts =
     bind_outcome (expect ''provider dependency was validated as an accessed selected fact'' (fst (inputs_get ident inputs)))
       (\<lambda>v. Ok (facts @ [(ident, v)]))"

definition projection_digest ::
  "(('d, 'i) projection_preimage \<Rightarrow> (label, 'i) outcome) \<Rightarrow> ('d, 'i) projection_spec \<Rightarrow> 'i projector_qualification \<Rightarrow>
   'd projection_inputs \<Rightarrow> fact_id bset \<Rightarrow> 'd \<Rightarrow> (projection_error, 'i) outcome" where
  "projection_digest content_id spec qualification inputs dependencies result =
     bind_outcome (for_each (digest_input inputs) (bs_elems dependencies) []) (\<lambda>facts.
       map_err ProjectionCanonical (content_id
         \<lparr>px_kind = sp_kind spec, px_package = pk_name (sp_provider spec), px_version = pk_version (sp_provider spec),
          px_implementation = qualification_implementation qualification, px_policy = qualification_policy qualification,
          px_config = sp_config spec, px_inputs = facts, px_projection = result\<rparr>))"

definition check_accessed :: "fact_id bset \<Rightarrow> fact_id \<Rightarrow> unit \<Rightarrow> (projection_error, unit) outcome" where
  "check_accessed dependencies ident _ = (if bs_contains ident dependencies then Ok () else Err (UndeclaredAccess ident))"

definition check_dependency :: "fact_id bset \<Rightarrow> fact_id \<Rightarrow> unit \<Rightarrow> (projection_error, unit) outcome" where
  "check_dependency accessed ident _ = (if bs_contains ident accessed then Ok () else Err (UnreadDependency ident))"

definition check_confinement ::
  "'i projector_policy \<Rightarrow> 'i confinement_evidence option \<Rightarrow> (projection_error, unit) outcome" where
  "check_confinement policy confinement =
     (if pl_requires_confinement policy then
        bind_outcome (ok_or (UnavailableConfinement (lit ''required membrane absent'')) confinement) (\<lambda>evidence.
          if \<not> cf_live evidence
          then Err (UnavailableConfinement (lit ''required membrane unavailable on selected host''))
          else Ok ())
      else Ok ())"

text \<open>Everything that is checked before a fact is read.\<close>

definition admit_projection ::
  "('d, 'i, 'r, 'x) projection_env \<Rightarrow> ('d, 'i, 'r) projection_registry \<Rightarrow> ('d, 'i) projection_spec \<Rightarrow> 'i projector_policy \<Rightarrow>
   'i confinement_evidence option \<Rightarrow>
   (projection_error, ('d, 'i) projection_provider \<times> 'i projector_qualification) outcome" where
  "admit_projection env registry spec policy confinement =
     bind_outcome (ok_or (UnknownProvider (sp_kind spec)) (bm_get (pg_providers registry) (sp_kind spec))) (\<lambda>registered.
     bind_outcome (require (rp_identity registered = sp_provider spec) CodeIdentityMismatch) (\<lambda>_.
     bind_outcome (require (pp_config_shape (rp_provider registered) = sp_config_shape spec) ConfigShapeMismatch) (\<lambda>_.
     bind_outcome (map_err InvalidConfig (en_verify_shape env (sp_config_shape spec) (sp_config spec))) (\<lambda>_.
     bind_outcome (ok_or (UnqualifiedProjector (lit ''this provider was never granted admission''))
       (qualification_for (en_checker env) (en_policy_id env) registry (sp_kind spec) policy)) (\<lambda>attempt.
     bind_outcome (map_err (\<lambda>e. UnqualifiedProjector (en_render env e)) attempt) (\<lambda>qualification.
     bind_outcome (require (qualification_implementation qualification = pk_code (sp_provider spec)) CodeIdentityMismatch) (\<lambda>_.
     bind_outcome (check_confinement policy confinement) (\<lambda>_.
     bind_outcome (require (length (bs_elems (ds_facts (pl_reads policy))) \<le> max_inputs (pl_budgets policy))
       (ProjectionBudgetExceeded ''selected inputs'')) (\<lambda>_.
     Ok (rp_provider registered, qualification))))))))))"

definition engine_project ::
  "('d, 'i, 'r, 'x) projection_env \<Rightarrow> ('d, 'i, 'r) projection_registry \<Rightarrow> federated_closure \<Rightarrow> 'd observed_world \<Rightarrow>
   ('d, 'i) projection_spec \<Rightarrow> 'i projector_policy \<Rightarrow> 'i confinement_evidence option \<Rightarrow>
   (projection_error, ('d, 'i) projection_result) outcome" where
  "engine_project env registry c world spec policy confinement =
     bind_outcome (admit_projection env registry spec policy confinement) (\<lambda>(provider, qualification).
     bind_outcome (world_select world (pl_reads policy)) (\<lambda>inputs.
     case run_projector (pp_project provider (sp_config spec)) inputs of (attempt, inputs) \<Rightarrow>
     bind_outcome attempt (\<lambda>result.
     let accessed = pi_accessed inputs; dependencies = po_dependencies result in
     bind_outcome (for_each (check_accessed dependencies) (bs_elems accessed) ()) (\<lambda>_.
     bind_outcome (for_each (check_dependency accessed) (bs_elems dependencies) ()) (\<lambda>_.
     bind_outcome (map_err ProjectionCanonical (en_canonical_len env (po_value result))) (\<lambda>len.
     bind_outcome (require (len \<le> max_output_bytes (pl_budgets policy)) (ProjectionBudgetExceeded ''projection output'')) (\<lambda>_.
     bind_outcome (projection_digest (en_content_id env) spec qualification inputs dependencies (po_value result)) (\<lambda>digest.
     let affected = closure_affected c (bs_elems dependencies) in
     bind_outcome (explain_pairs c affected (bs_elems dependencies)) (\<lambda>explanations.
     Ok \<lparr>res_projection = po_value result,
         res_mediated_access = \<lparr>ma_selected = bs_from_list (bs_elems (ds_facts (pl_reads policy))), ma_accessed = accessed\<rparr>,
         res_qualification = qualification, res_confinement = confinement, res_digest = digest,
         res_affected = affected, res_explanations = explanations\<rparr>)))))))))"

section \<open>Built-in selection\<close>

text \<open>\<open>selected\<close> builds the output datum from the kind, the configuration and the facts.\<close>

definition select_facts_provider ::
  "(label \<Rightarrow> 'd \<Rightarrow> (fact_id \<times> 'd) list \<Rightarrow> 'd) \<Rightarrow> label \<Rightarrow> 'i \<Rightarrow> (projection_error, ('d, 'i) projection_provider) outcome" where
  "select_facts_provider selected kind shape =
     bind_outcome (identifier_new ''ProjectionKindRef'' kind) (\<lambda>kind.
       Ok \<lparr>pp_kind = kind, pp_config_shape = shape,
           pp_project = (\<lambda>config. ProjectIter (\<lambda>entries. ProjectDone (Ok
             \<lparr>po_value = selected kind config entries, po_dependencies = bs_from_list (map fst entries)\<rparr>)))\<rparr>)"

definition baseline_projection_kinds :: "label list" where
  "baseline_projection_kinds = map lit [''world/path-set-v1'', ''world/manifest-dependencies-v1'', ''world/public-api-v1'',
     ''world/exact-command-environment-v1'', ''world/generated-ownership-v1'', ''world/package-assembly-v1'',
     ''world/git-refs-v1'', ''world/index-routes-v1'', ''world/external-release-facts-v1'', ''no-v3/disclosure-policy-v1'']"

text \<open>
  The identities of the compiled sources and of the dependencies, and the owner binding, are given as
  they come out of the libraries; \<open>describe\<close> renders the name of an unknown kind.
\<close>

record ('d, 'i) baseline_ops =
  bo_selected :: "label \<Rightarrow> 'd \<Rightarrow> (fact_id \<times> 'd) list \<Rightarrow> 'd"
  bo_source_identity :: "(projection_error, 'i) outcome"
  bo_dependency_identity :: "(projection_error, 'i) outcome"
  bo_owner_binding :: "(label, unit) outcome"
  bo_describe :: "label \<Rightarrow> label"

definition install_baseline_kind ::
  "('i, 'r, 'x) checker_ops \<Rightarrow> (qualification_error \<Rightarrow> label) \<Rightarrow> ('d, 'i) baseline_ops \<Rightarrow> 'i \<Rightarrow> 'i package_identity \<Rightarrow> 'i \<Rightarrow> label \<Rightarrow>
   ('d, 'i, 'r) projection_registry \<Rightarrow> (projection_error, ('d, 'i, 'r) projection_registry) outcome" where
  "install_baseline_kind checker render ops shape registered dependencies kind registry =
     bind_outcome (identifier_new ''ProjectionKindRef'' kind) (\<lambda>kind_ref.
     bind_outcome (select_facts_provider (bo_selected ops) kind shape) (\<lambda>provider.
     bind_outcome (provider_register registered provider registry) (\<lambda>registry.
     map_err (\<lambda>e. UnqualifiedProjector (render e))
       (admit_bootstrap_native checker (bo_describe ops kind_ref) kind_ref (pk_code registered) dependencies registry))))"

definition install_baseline_providers ::
  "('i, 'r, 'x) checker_ops \<Rightarrow> (qualification_error \<Rightarrow> label) \<Rightarrow> ('d, 'i) baseline_ops \<Rightarrow> 'i \<Rightarrow> 'i package_identity \<Rightarrow>
   ('d, 'i, 'r) projection_registry \<Rightarrow> (projection_error, 'i package_identity \<times> ('d, 'i, 'r) projection_registry) outcome" where
  "install_baseline_providers checker render ops shape package registry =
     bind_outcome (bo_source_identity ops) (\<lambda>code.
     bind_outcome (bo_dependency_identity ops) (\<lambda>dependencies.
     bind_outcome (map_err UnqualifiedProjector (bo_owner_binding ops)) (\<lambda>_.
     let registered = package\<lparr>pk_code := code\<rparr> in
     bind_outcome (for_each (install_baseline_kind checker render ops shape registered dependencies) baseline_projection_kinds registry)
       (\<lambda>registry. Ok (registered, registry)))))"

fun split_path :: "label \<Rightarrow> label list" where
  "split_path [] = [[]]"
| "split_path (ch # rest) = (if ch = 47 then [] # split_path rest
     else case split_path rest of part # parts \<Rightarrow> (ch # part) # parts | [] \<Rightarrow> [[ch]])"

definition validate_logical_path :: "label \<Rightarrow> (projection_error, unit) outcome" where
  "validate_logical_path path =
     (if path = [] \<or> starts_with (lit ''/'') path \<or> 92 \<in> set path \<or>
         list_ex (\<lambda>part. part = [] \<or> part = lit ''.'' \<or> part = lit ''..'') (split_path path)
      then Err (InvalidPathSelection (lit ''path is not a canonical relative logical path: '' @ path))
      else Ok ())"

record path_selection_rules =
  psr_includes :: "label list"
  psr_ignores :: "label list"

text \<open>The glob engine is a library: \<open>build\<close> parses one pattern, \<open>build_set\<close> makes the matcher of a set.\<close>

record 'g glob_ops =
  go_build :: "label \<Rightarrow> (label, 'g) outcome"
  go_build_set :: "'g list \<Rightarrow> (label, label \<Rightarrow> bool) outcome"

definition compile_glob ::
  "'g glob_ops \<Rightarrow> label \<Rightarrow> 'g list \<Rightarrow> (projection_error, 'g list) outcome" where
  "compile_glob globs pattern builder =
     (if starts_with (lit ''/'') pattern \<or> 92 \<in> set pattern
      then Err (InvalidPathSelection (lit ''glob is not a canonical logical path pattern: '' @ pattern))
      else bind_outcome (map_err InvalidPathSelection (go_build globs pattern)) (\<lambda>glob. Ok (builder @ [glob])))"

definition compile_globs :: "'g glob_ops \<Rightarrow> label list \<Rightarrow> (projection_error, label \<Rightarrow> bool) outcome" where
  "compile_globs globs patterns =
     bind_outcome (for_each (compile_glob globs) patterns []) (\<lambda>builder. map_err InvalidPathSelection (go_build_set globs builder))"

definition path_rules_new ::
  "'g glob_ops \<Rightarrow> label list \<Rightarrow> label list \<Rightarrow> (projection_error, path_selection_rules) outcome" where
  "path_rules_new globs includes ignores =
     (if includes = [] then Err (InvalidPathSelection (lit ''at least one include glob is required''))
      else bind_outcome (compile_globs globs includes) (\<lambda>_.
        bind_outcome (compile_globs globs ignores) (\<lambda>_.
        Ok \<lparr>psr_includes = includes, psr_ignores = ignores\<rparr>)))"

definition select_path ::
  "(label \<Rightarrow> bool) \<Rightarrow> (label \<Rightarrow> bool) \<Rightarrow> label \<Rightarrow> fact_id bset \<Rightarrow> (projection_error, fact_id bset) outcome" where
  "select_path includes ignores path selected =
     bind_outcome (validate_logical_path path) (\<lambda>_.
       if includes path \<and> \<not> ignores path
       then bind_outcome (identifier_new ''FactId'' (lit ''path/'' @ path)) (\<lambda>ident. Ok (bs_insert ident selected))
       else Ok selected)"

definition path_rules_select ::
  "'g glob_ops \<Rightarrow> path_selection_rules \<Rightarrow> label list \<Rightarrow> (projection_error, fact_id bset) outcome" where
  "path_rules_select globs rules paths =
     bind_outcome (compile_globs globs (psr_includes rules)) (\<lambda>includes.
     bind_outcome (compile_globs globs (psr_ignores rules)) (\<lambda>ignores.
     for_each (select_path includes ignores) paths bs_empty))"

section \<open>What a projector can depend on\<close>

lemma select_facts_Ok:
  "for_each (select_fact world) idents selected = Ok selected' \<longleftrightarrow>
     (\<forall>ident\<in>set idents. bm_get (ow_facts world) ident \<noteq> None) \<and>
     (\<forall>ident. bm_get selected' ident =
        (if ident \<in> set idents then map_option of_semantic (bm_get (ow_facts world) ident) else bm_get selected ident))"
proof (induction idents arbitrary: selected)
  case Nil
  then show ?case by (auto intro: bm_ext)
next
  case (Cons ident idents)
  show ?case
  proof (cases "bm_get (ow_facts world) ident")
    case (Some observed)
    then have "select_fact world ident selected = Ok (bm_insert ident (of_semantic observed) selected)"
      by (simp add: select_fact_def)
    with Some show ?thesis by (auto simp: Cons.IH)
  qed (simp add: select_fact_def)
qed

lemma world_select_Ok:
  "world_select world selector = Ok inputs \<longleftrightarrow>
     (\<forall>ident\<in>bs_set (ds_facts selector). bm_get (ow_facts world) ident \<noteq> None) \<and> pi_accessed inputs = bs_empty \<and>
     (\<forall>ident. bm_get (pi_facts inputs) ident =
        (if ident \<in> bs_set (ds_facts selector) then map_option of_semantic (bm_get (ow_facts world) ident) else None))"
  by (cases inputs) (auto simp: world_select_def outcome_simps select_facts_Ok)

lemma world_select_exists:
  assumes "\<forall>ident\<in>bs_set (ds_facts selector). bm_get (ow_facts world) ident \<noteq> None"
  shows "\<exists>inputs. world_select world selector = Ok inputs"
proof -
  have "\<exists>selected'. for_each (select_fact world) (bs_elems (ds_facts selector)) bm_empty = Ok selected' \<and> True"
    by (rule for_each_total) (use assms in \<open>auto simp: select_fact_def\<close>)
  then show ?thesis by (auto simp: world_select_def)
qed

lemma world_select_no_panic: "world_select world selector \<noteq> Panic p"
proof -
  have "for_each (select_fact world) idents selected \<noteq> Panic p" for idents selected
    by (rule for_each_not_Panic[where I = "\<lambda>_. True"]) (simp_all add: select_fact_def outcome_simps)
  then show ?thesis by (simp add: world_select_def outcome_simps)
qed

text \<open>Reading never changes the facts, only grows the record of what was read, and reads selected facts.\<close>

lemma run_projector_reads:
  assumes "run_projector projector inputs = (result, inputs')"
  shows "pi_facts inputs' = pi_facts inputs \<and> bs_set (pi_accessed inputs) \<subseteq> bs_set (pi_accessed inputs') \<and>
    bs_set (pi_accessed inputs') \<subseteq> bs_set (pi_accessed inputs) \<union> set (bm_keys (pi_facts inputs))"
  using assms
proof (induction projector arbitrary: inputs)
  case (ProjectGet ident continue)
  obtain v inputs1 where get: "inputs_get ident inputs = (v, inputs1)" by fastforce
  with ProjectGet.prems have "run_projector (continue v) inputs1 = (result, inputs')" by simp
  from ProjectGet.IH[OF rangeI this]
  have reads: "pi_facts inputs' = pi_facts inputs1 \<and> bs_set (pi_accessed inputs1) \<subseteq> bs_set (pi_accessed inputs') \<and>
    bs_set (pi_accessed inputs') \<subseteq> bs_set (pi_accessed inputs1) \<union> set (bm_keys (pi_facts inputs1))" .
  show ?case
  proof (cases "bm_get (pi_facts inputs) ident")
    case (Some w)
    then have "ident \<in> set (bm_keys (pi_facts inputs))" by (simp add: in_bm_keys_iff)
    moreover have "inputs1 = inputs\<lparr>pi_accessed := bs_insert ident (pi_accessed inputs)\<rparr>"
      using get Some by (simp add: inputs_get_def)
    ultimately show ?thesis using reads by auto
  qed (use get reads in \<open>auto simp: inputs_get_def\<close>)
next
  case (ProjectIter continue)
  then have "run_projector (continue (fst (inputs_iter inputs))) (snd (inputs_iter inputs)) = (result, inputs')"
    by (simp add: case_prod_unfold)
  from ProjectIter.IH[OF rangeI this] show ?case by (auto simp: inputs_iter_def)
qed simp

text \<open>
  A projector does the same on two inputs with the same keys that agree on the facts it reads: the
  record of the reads determines the run.
\<close>

lemma run_projector_agree:
  assumes "run_projector projector inputs = (result, inputs')"
    and "pi_accessed other = pi_accessed inputs" "set (bm_keys (pi_facts other)) = set (bm_keys (pi_facts inputs))"
    and "\<forall>ident\<in>bs_set (pi_accessed inputs'). bm_get (pi_facts other) ident = bm_get (pi_facts inputs) ident"
  shows "run_projector projector other = (result, inputs'\<lparr>pi_facts := pi_facts other\<rparr>)"
  using assms
proof (induction projector arbitrary: inputs other)
  case (ProjectGet ident continue)
  show ?case
  proof (cases "bm_get (pi_facts inputs) ident")
    case None
    with ProjectGet.prems(3) have "bm_get (pi_facts other) ident = None"
      by (metis in_bm_keys_iff not_None_eq)
    moreover have "run_projector (continue None) other = (result, inputs'\<lparr>pi_facts := pi_facts other\<rparr>)"
      by (rule ProjectGet.IH) (use ProjectGet.prems None in \<open>auto simp: inputs_get_def\<close>)
    ultimately show ?thesis by (simp add: inputs_get_def)
  next
    case (Some v)
    define after where "after = inputs\<lparr>pi_accessed := bs_insert ident (pi_accessed inputs)\<rparr>"
    from ProjectGet.prems(1) Some have run: "run_projector (continue (Some v)) after = (result, inputs')"
      by (simp add: inputs_get_def after_def)
    then have "ident \<in> bs_set (pi_accessed inputs')"
      using run_projector_reads[OF run] by (auto simp: after_def)
    with ProjectGet.prems(4) Some have "bm_get (pi_facts other) ident = Some v" by simp
    moreover have "run_projector (continue (Some v)) (other\<lparr>pi_accessed := bs_insert ident (pi_accessed other)\<rparr>) =
        (result, inputs'\<lparr>pi_facts := pi_facts (other\<lparr>pi_accessed := bs_insert ident (pi_accessed other)\<rparr>)\<rparr>)"
      by (rule ProjectGet.IH[OF rangeI run]) (use ProjectGet.prems in \<open>simp_all add: after_def\<close>)
    ultimately show ?thesis by (simp add: inputs_get_def)
  qed
next
  case (ProjectIter continue)
  from ProjectIter.prems(1) have run: "run_projector (continue (fst (inputs_iter inputs))) (snd (inputs_iter inputs)) = (result, inputs')"
    by (simp add: case_prod_unfold)
  have all_read: "set (bm_keys (pi_facts inputs)) \<subseteq> bs_set (pi_accessed inputs')"
    using run_projector_reads[OF run] by (auto simp: inputs_iter_def)
  have "pi_facts other = pi_facts inputs"
  proof (rule bm_ext)
    show "bm_get (pi_facts other) ident = bm_get (pi_facts inputs) ident" for ident
      using ProjectIter.prems(3,4) all_read by (metis in_bm_keys_iff not_None_eq subset_eq)
  qed
  with ProjectIter.prems(2) have same: "other = inputs" by simp
  from run_projector_reads[OF ProjectIter.prems(1)] ProjectIter.prems(1) show ?case
    unfolding same by simp
qed simp

lemma digest_inputs_agree:
  assumes "\<forall>ident\<in>set idents. bm_get (pi_facts inputs) ident = bm_get (pi_facts inputs') ident"
  shows "for_each (digest_input inputs) idents facts = for_each (digest_input inputs') idents facts"
  by (rule for_each_cong) (use assms in \<open>auto simp: digest_input_def inputs_get_def split: option.splits\<close>)

lemma digest_inputs_Ok:
  assumes "\<forall>ident\<in>set idents. bm_get (pi_facts inputs) ident \<noteq> None"
  shows "for_each (digest_input inputs) idents facts = Ok (facts @ map (\<lambda>ident. (ident, the (bm_get (pi_facts inputs) ident))) idents)"
  using assms by (induction idents arbitrary: facts) (auto simp: digest_input_def inputs_get_def)

section \<open>What a successful projection has been checked for\<close>

lemma check_loops_Ok:
  "for_each (check_accessed dependencies) idents () = Ok u \<longleftrightarrow> set idents \<subseteq> bs_set dependencies"
  "for_each (check_dependency accessed) idents () = Ok u \<longleftrightarrow> set idents \<subseteq> bs_set accessed"
  by (induction idents) (auto simp: check_accessed_def check_dependency_def)

lemma check_loops_no_panic:
  "for_each (check_accessed dependencies) idents u \<noteq> Panic p" "for_each (check_dependency accessed) idents u \<noteq> Panic p"
  by (rule for_each_not_Panic[where I = "\<lambda>_. True"]; simp add: check_accessed_def check_dependency_def)+

lemma require_iff [outcome_simps]:
  "require condition e = Ok u \<longleftrightarrow> condition" "require condition e = Err e' \<longleftrightarrow> \<not> condition \<and> e' = e"
  "require condition e = Panic p \<longleftrightarrow> False"
  by (auto simp: require_def)

lemma trusted_native_Ok:
  assumes "trusted_native checker policy_id policy evidence = Ok q"
  shows "ck_verify_current checker (ne_receipt evidence) = Ok ()" "qualification_implementation q = ne_code evidence"
    "policy_id policy = Ok (qualification_policy q)"
    "ck_review_scope checker = Ok (ck_scope checker (ne_receipt evidence))"
    "ck_reviewed_subject checker (ne_code evidence) (ne_dependencies evidence) = Ok (ck_subject checker (ne_receipt evidence))"
    "ck_bootstrap_grade checker \<le> ck_grade checker (ne_receipt evidence)"
  using assms
  by (auto simp: trusted_native_def outcome_simps qualification_implementation_def qualification_policy_def)

lemma admit_projection_Ok:
  assumes "admit_projection env registry spec policy confinement = Ok (provider, q)"
  shows "\<exists>registered bootstrap. bm_get (pg_providers registry) (sp_kind spec) = Some registered \<and>
      rp_provider registered = provider \<and> rp_identity registered = sp_provider spec \<and>
      rp_bootstrap registered = Some bootstrap \<and> ck_verify_current (en_checker env) (ba_receipt bootstrap) = Ok ()"
    "pp_config_shape provider = sp_config_shape spec" "en_verify_shape env (sp_config_shape spec) (sp_config spec) = Ok ()"
    "qualification_implementation q = pk_code (sp_provider spec)" "en_policy_id env policy = Ok (qualification_policy q)"
    "pl_requires_confinement policy \<Longrightarrow> \<exists>evidence. confinement = Some evidence \<and> cf_live evidence"
    "length (bs_elems (ds_facts (pl_reads policy))) \<le> max_inputs (pl_budgets policy)"
proof -
  from assms obtain registered bootstrap where
    registered: "bm_get (pg_providers registry) (sp_kind spec) = Some registered" "rp_provider registered = provider"
      "rp_identity registered = sp_provider spec" "rp_bootstrap registered = Some bootstrap"
    and native: "trusted_native (en_checker env) (en_policy_id env) policy \<lparr>ne_code = pk_code (sp_provider spec),
      ne_dependencies = ba_dependencies bootstrap, ne_receipt = ba_receipt bootstrap\<rparr> = Ok q"
    and rest: "pp_config_shape provider = sp_config_shape spec" "en_verify_shape env (sp_config_shape spec) (sp_config spec) = Ok ()"
      "pl_requires_confinement policy \<Longrightarrow> \<exists>evidence. confinement = Some evidence \<and> cf_live evidence"
      "length (bs_elems (ds_facts (pl_reads policy))) \<le> max_inputs (pl_budgets policy)"
    by (auto simp: admit_projection_def outcome_simps qualification_for_def check_confinement_def split: option.splits if_splits)
  from registered trusted_native_Ok[OF native] rest show
    "\<exists>registered bootstrap. bm_get (pg_providers registry) (sp_kind spec) = Some registered \<and>
      rp_provider registered = provider \<and> rp_identity registered = sp_provider spec \<and>
      rp_bootstrap registered = Some bootstrap \<and> ck_verify_current (en_checker env) (ba_receipt bootstrap) = Ok ()"
    "pp_config_shape provider = sp_config_shape spec" "en_verify_shape env (sp_config_shape spec) (sp_config spec) = Ok ()"
    "qualification_implementation q = pk_code (sp_provider spec)" "en_policy_id env policy = Ok (qualification_policy q)"
    "pl_requires_confinement policy \<Longrightarrow> \<exists>evidence. confinement = Some evidence \<and> cf_live evidence"
    "length (bs_elems (ds_facts (pl_reads policy))) \<le> max_inputs (pl_budgets policy)"
    by simp_all
qed

lemma engine_project_Ok:
  assumes "engine_project env registry c world spec policy confinement = Ok res"
  obtains provider inputs inputs' result len where
    "admit_projection env registry spec policy confinement = Ok (provider, res_qualification res)"
    "world_select world (pl_reads policy) = Ok inputs"
    "run_projector (pp_project provider (sp_config spec)) inputs = (Ok result, inputs')"
    "po_dependencies result = pi_accessed inputs'"
    "en_canonical_len env (po_value result) = Ok len" "len \<le> max_output_bytes (pl_budgets policy)"
    "projection_digest (en_content_id env) spec (res_qualification res) inputs' (pi_accessed inputs') (po_value result) = Ok (res_digest res)"
    "explain_pairs c (res_affected res) (bs_elems (pi_accessed inputs')) = (Ok (res_explanations res) :: (projection_error, _) outcome)"
    "res_projection res = po_value result" "ma_accessed (res_mediated_access res) = pi_accessed inputs'"
    "ma_selected (res_mediated_access res) = ds_facts (pl_reads policy)" "res_confinement res = confinement"
    "res_affected res = closure_affected c (bs_elems (pi_accessed inputs'))"
proof -
  have collect: "bs_from_list (bs_elems s) = s" for s :: "fact_id bset" by (rule bs_ext) simp
  from assms obtain provider q inputs where admit: "admit_projection env registry spec policy confinement = Ok (provider, q)"
    and select: "world_select world (pl_reads policy) = Ok inputs"
    by (auto simp: engine_project_def outcome_simps)
  obtain attempt inputs' where run: "run_projector (pp_project provider (sp_config spec)) inputs = (attempt, inputs')" by fastforce
  note rest = assms[unfolded engine_project_def admit select run bind_outcome.simps prod.case Let_def]
  from rest obtain result where result: "attempt = Ok result" by (auto simp: outcome_simps)
  from rest have same: "po_dependencies result = pi_accessed inputs'"
    by (intro bs_ext) (auto simp: result outcome_simps check_loops_Ok)
  from rest obtain len digest explanations where
    "en_canonical_len env (po_value result) = Ok len" "len \<le> max_output_bytes (pl_budgets policy)"
    "projection_digest (en_content_id env) spec q inputs' (pi_accessed inputs') (po_value result) = Ok digest"
    "explain_pairs c (closure_affected c (bs_elems (pi_accessed inputs'))) (bs_elems (pi_accessed inputs')) =
       (Ok explanations :: (projection_error, _) outcome)"
    "res = \<lparr>res_projection = po_value result,
       res_mediated_access = \<lparr>ma_selected = ds_facts (pl_reads policy), ma_accessed = pi_accessed inputs'\<rparr>,
       res_qualification = q, res_confinement = confinement, res_digest = digest,
       res_affected = closure_affected c (bs_elems (pi_accessed inputs')), res_explanations = explanations\<rparr>"
    by (auto simp: result same collect outcome_simps)
  with admit select run same show thesis
    by (intro that[of provider inputs result inputs' len]) (simp_all add: result)
qed

text \<open>
  The run on another world: with every selected fact present and the accessed facts unchanged, the
  projection gives the same result, whatever happened to the other facts and to the envelopes.
\<close>

lemma engine_project_again:
  assumes "engine_project env registry c world spec policy confinement = Ok res"
    and "\<forall>ident\<in>bs_set (ds_facts (pl_reads policy)). bm_get (ow_facts world') ident \<noteq> None"
    and "\<forall>ident\<in>bs_set (ma_accessed (res_mediated_access res)).
      map_option of_semantic (bm_get (ow_facts world') ident) = map_option of_semantic (bm_get (ow_facts world) ident)"
  shows "engine_project env registry c world' spec policy confinement = Ok res"
  using assms(1)
proof (rule engine_project_Ok)
  fix provider inputs inputs' result len
  assume admit: "admit_projection env registry spec policy confinement = Ok (provider, res_qualification res)"
    and select: "world_select world (pl_reads policy) = Ok inputs"
    and run: "run_projector (pp_project provider (sp_config spec)) inputs = (Ok result, inputs')"
    and same: "po_dependencies result = pi_accessed inputs'"
    and accessed: "ma_accessed (res_mediated_access res) = pi_accessed inputs'"
  obtain other where other: "world_select world' (pl_reads policy) = Ok other" using world_select_exists[OF assms(2)] by blast
  note facts = world_select_Ok[THEN iffD1, OF select] world_select_Ok[THEN iffD1, OF other]
  have agree: "\<forall>ident\<in>bs_set (pi_accessed inputs'). bm_get (pi_facts other) ident = bm_get (pi_facts inputs) ident"
    using assms(3) facts unfolding accessed by simp
  have keys: "set (bm_keys (pi_facts other)) = set (bm_keys (pi_facts inputs))"
    using facts by (auto simp: set_bm_keys)
  have run': "run_projector (pp_project provider (sp_config spec)) other = (Ok result, inputs'\<lparr>pi_facts := pi_facts other\<rparr>)"
    by (rule run_projector_agree[OF run _ keys agree]) (use facts in simp)
  have digest: "projection_digest (en_content_id env) spec q (inputs'\<lparr>pi_facts := pi_facts other\<rparr>) (pi_accessed inputs') v =
      projection_digest (en_content_id env) spec q inputs' (pi_accessed inputs') v" for q v
    unfolding projection_digest_def
    by (rule bind_outcome_cong[OF digest_inputs_agree]) (use agree run_projector_reads[OF run] in simp_all)
  from assms(1) show ?thesis
    unfolding engine_project_def admit select other run run' bind_outcome.simps prod.case Let_def same
    by (simp add: digest)
qed

text \<open>
  The code outside the repository returns: with that and a projector that returns, the panics of the
  engine (an unvalidated dependency, a conclusion without an owner) are never raised.
\<close>

definition env_returns :: "('d, 'i, 'r, 'x) projection_env \<Rightarrow> bool" where
  "env_returns env \<longleftrightarrow>
     (\<forall>p receipt. ck_verify_current (en_checker env) receipt \<noteq> Panic p) \<and> (\<forall>p. ck_review_scope (en_checker env) \<noteq> Panic p) \<and>
     (\<forall>p code dependencies. ck_reviewed_subject (en_checker env) code dependencies \<noteq> Panic p) \<and>
     (\<forall>p policy. en_policy_id env policy \<noteq> Panic p) \<and> (\<forall>p shape config. en_verify_shape env shape config \<noteq> Panic p) \<and>
     (\<forall>p v. en_canonical_len env v \<noteq> Panic p) \<and> (\<forall>p preimage. en_content_id env preimage \<noteq> Panic p)"

lemma admit_projection_no_panic:
  assumes "env_returns env"
  shows "admit_projection env registry spec policy confinement \<noteq> Panic p"
proof -
  have "trusted_native (en_checker env) (en_policy_id env) policy evidence \<noteq> Panic p" for evidence
    using assms by (auto simp: trusted_native_def env_returns_def outcome_simps)
  moreover have "check_confinement policy confinement \<noteq> Panic p"
    by (auto simp: check_confinement_def outcome_simps)
  ultimately show ?thesis
    using assms
    by (auto simp: admit_projection_def qualification_for_def env_returns_def outcome_simps split: option.splits)
qed

lemma projection_digest_known:
  assumes "bs_set dependencies \<subseteq> set (bm_keys (pi_facts inputs))"
  shows "\<exists>preimage. projection_digest content_id spec q inputs dependencies v = map_err ProjectionCanonical (content_id preimage)"
proof -
  have "\<forall>ident\<in>bs_set dependencies. bm_get (pi_facts inputs) ident \<noteq> None" using assms by (auto simp: set_bm_keys)
  from digest_inputs_Ok[OF this] show ?thesis by (auto simp: projection_digest_def)
qed

lemma engine_project_no_panic:
  assumes "env_returns env" "closure_ok c"
    and "\<And>registered inputs p. bm_get (pg_providers registry) (sp_kind spec) = Some registered \<Longrightarrow>
      fst (run_projector (pp_project (rp_provider registered) (sp_config spec)) inputs) \<noteq> Panic p"
  shows "engine_project env registry c world spec policy confinement \<noteq> Panic p"
proof
  assume panic: "engine_project env registry c world spec policy confinement = Panic p"
  then obtain provider q inputs where admit: "admit_projection env registry spec policy confinement = Ok (provider, q)"
    and select: "world_select world (pl_reads policy) = Ok inputs"
    by (auto simp: engine_project_def outcome_simps admit_projection_no_panic[OF assms(1)] world_select_no_panic)
  obtain attempt inputs' where run: "run_projector (pp_project provider (sp_config spec)) inputs = (attempt, inputs')" by fastforce
  note rest = panic[unfolded engine_project_def admit select run bind_outcome.simps prod.case Let_def]
  have "attempt \<noteq> Panic p" using admit_projection_Ok(1)[OF admit] assms(3)[of _ inputs p] run by auto
  with rest obtain result where result: "attempt = Ok result" by (auto simp: outcome_simps)
  obtain es where es: "explain_pairs c (closure_affected c (bs_elems (po_dependencies result))) (bs_elems (po_dependencies result)) =
      (Ok es :: (projection_error, _) outcome)"
    using explain_pairs_total[OF assms(2)] by blast
  have digest: "projection_digest (en_content_id env) spec q inputs' (po_dependencies result) (po_value result) \<noteq> Panic p"
    if "bs_set (po_dependencies result) \<subseteq> bs_set (pi_accessed inputs')"
  proof -
    have "bs_set (po_dependencies result) \<subseteq> set (bm_keys (pi_facts inputs'))"
      using that run_projector_reads[OF run] select by (auto simp: world_select_Ok)
    from projection_digest_known[OF this] obtain preimage where "projection_digest (en_content_id env) spec q inputs' (po_dependencies result) (po_value result) =
        map_err ProjectionCanonical (en_content_id env preimage)"
      by blast
    then show ?thesis using assms(1) by (simp add: env_returns_def outcome_simps)
  qed
  from rest digest assms(1) show False
    by (auto simp: result es outcome_simps check_loops_Ok check_loops_no_panic env_returns_def)
qed

section \<open>The baseline providers\<close>

definition baseline_provider :: "('d, 'i) baseline_ops \<Rightarrow> 'i \<Rightarrow> label \<Rightarrow> ('d, 'i) projection_provider" where
  "baseline_provider ops shape kind =
     \<lparr>pp_kind = kind, pp_config_shape = shape,
      pp_project = (\<lambda>config. ProjectIter (\<lambda>entries. ProjectDone (Ok
        \<lparr>po_value = bo_selected ops kind config entries, po_dependencies = bs_from_list (map fst entries)\<rparr>)))\<rparr>"

text \<open>One kind: it must be new and not blank, and it ends up registered with an issued receipt.\<close>

lemma install_baseline_kind_Ok:
  "install_baseline_kind checker render ops shape registered dependencies kind registry = Ok registry' \<longleftrightarrow>
     \<not> blank kind \<and> bm_get (pg_providers registry) kind = None \<and>
     (\<exists>receipt. ck_issue checker (pk_code registered) dependencies = Ok receipt \<and>
        registry' = registry\<lparr>pg_providers := bm_insert kind \<lparr>rp_identity = registered, rp_provider = baseline_provider ops shape kind,
          rp_bootstrap = Some \<lparr>ba_receipt = receipt, ba_dependencies = dependencies\<rparr>\<rparr> (pg_providers registry)\<rparr>)"
  by (auto simp: install_baseline_kind_def outcome_simps identifier_new_def select_facts_provider_def provider_register_def
      admit_bootstrap_native_def bootstrap_native_source_def baseline_provider_def set_bm_keys bmap_impl.insert_twice)

lemma install_baseline_kinds_Ok:
  assumes "for_each (install_baseline_kind checker render ops shape registered dependencies) kinds registry = Ok registry'"
  shows "kind \<in> set kinds \<Longrightarrow> bm_get (pg_providers registry) kind = None \<and>
      (\<exists>receipt. ck_issue checker (pk_code registered) dependencies = Ok receipt \<and>
        bm_get (pg_providers registry') kind = Some \<lparr>rp_identity = registered, rp_provider = baseline_provider ops shape kind,
          rp_bootstrap = Some \<lparr>ba_receipt = receipt, ba_dependencies = dependencies\<rparr>\<rparr>)"
    "kind \<notin> set kinds \<Longrightarrow> bm_get (pg_providers registry') kind = bm_get (pg_providers registry) kind"
    "distinct kinds"
proof -
  have "(\<forall>kind. kind \<in> set kinds \<longrightarrow> bm_get (pg_providers registry) kind = None \<and>
      (\<exists>receipt. ck_issue checker (pk_code registered) dependencies = Ok receipt \<and>
        bm_get (pg_providers registry') kind = Some \<lparr>rp_identity = registered, rp_provider = baseline_provider ops shape kind,
          rp_bootstrap = Some \<lparr>ba_receipt = receipt, ba_dependencies = dependencies\<rparr>\<rparr>)) \<and>
    (\<forall>kind. kind \<notin> set kinds \<longrightarrow> bm_get (pg_providers registry') kind = bm_get (pg_providers registry) kind) \<and> distinct kinds"
    using assms
  proof (induction kinds arbitrary: registry)
    case (Cons k kinds)
    then obtain receipt registry1 where
      step: "install_baseline_kind checker render ops shape registered dependencies k registry = Ok registry1"
        "for_each (install_baseline_kind checker render ops shape registered dependencies) kinds registry1 = Ok registry'"
      by (auto simp: outcome_simps)
    from Cons.IH[OF step(2)] step(1)[unfolded install_baseline_kind_Ok] show ?case
      by (auto split: if_splits)
  qed simp
  then show "kind \<in> set kinds \<Longrightarrow> bm_get (pg_providers registry) kind = None \<and>
      (\<exists>receipt. ck_issue checker (pk_code registered) dependencies = Ok receipt \<and>
        bm_get (pg_providers registry') kind = Some \<lparr>rp_identity = registered, rp_provider = baseline_provider ops shape kind,
          rp_bootstrap = Some \<lparr>ba_receipt = receipt, ba_dependencies = dependencies\<rparr>\<rparr>)"
    "kind \<notin> set kinds \<Longrightarrow> bm_get (pg_providers registry') kind = bm_get (pg_providers registry) kind"
    "distinct kinds"
    by blast+
qed

lemma install_baseline_kinds_total:
  assumes "distinct kinds" "\<forall>kind\<in>set kinds. \<not> blank kind \<and> bm_get (pg_providers registry) kind = None"
    and "ck_issue checker (pk_code registered) dependencies = Ok receipt"
  shows "\<exists>registry'. for_each (install_baseline_kind checker render ops shape registered dependencies) kinds registry = Ok registry'"
  using assms(1,2)
proof (induction kinds arbitrary: registry)
  case (Cons kind kinds)
  let ?after = "registry\<lparr>pg_providers := bm_insert kind \<lparr>rp_identity = registered, rp_provider = baseline_provider ops shape kind,
    rp_bootstrap = Some \<lparr>ba_receipt = receipt, ba_dependencies = dependencies\<rparr>\<rparr> (pg_providers registry)\<rparr>"
  have "install_baseline_kind checker render ops shape registered dependencies kind registry = Ok ?after"
    using Cons.prems(2) assms(3) by (simp add: install_baseline_kind_Ok)
  moreover have "\<exists>registry'. for_each (install_baseline_kind checker render ops shape registered dependencies) kinds ?after = Ok registry'"
    by (rule Cons.IH) (use Cons.prems in auto)
  ultimately show ?case by simp
qed simp

lemma baseline_kinds_usable: "distinct baseline_projection_kinds" "\<forall>kind\<in>set baseline_projection_kinds. \<not> blank kind"
  by (simp_all add: baseline_projection_kinds_def blank_def is_whitespace_def lit_def)

section \<open>Path rules\<close>

definition logical_path :: "label \<Rightarrow> bool" where
  "logical_path path \<longleftrightarrow> 92 \<notin> set path \<and> (\<forall>part\<in>set (split_path path). part \<noteq> [] \<and> part \<noteq> lit ''.'' \<and> part \<noteq> lit ''..'')"

lemma validate_logical_path_iff:
  "validate_logical_path path = Ok u \<longleftrightarrow> logical_path path" "validate_logical_path path \<noteq> Panic p"
proof -
  have "[] \<in> set (split_path path)" if "path = [] \<or> starts_with (lit ''/'') path"
    using that by (cases path) (auto simp: starts_with_def lit_def)
  then show "validate_logical_path path = Ok u \<longleftrightarrow> logical_path path" "validate_logical_path path \<noteq> Panic p"
    by (auto simp: validate_logical_path_def logical_path_def list_ex_iff)
qed

lemma select_paths_Ok:
  "for_each (select_path includes ignores) paths selected = Ok selected' \<longleftrightarrow>
     (\<forall>path\<in>set paths. logical_path path) \<and>
     selected' = bs_extend (map (\<lambda>path. lit ''path/'' @ path) (filter (\<lambda>path. includes path \<and> \<not> ignores path) paths)) selected"
proof (induction paths arbitrary: selected)
  case (Cons path paths)
  have "\<not> blank (lit ''path/'' @ path)" by (simp add: blank_def lit_def is_whitespace_def)
  with Cons.IH show ?case
    by (auto simp: select_path_def outcome_simps validate_logical_path_iff identifier_new_def bs_extend_def)
qed (auto simp: bs_extend_def)

text \<open>The selection of a rule set: the canonical paths that are included and not ignored, as facts.\<close>

lemma path_rules_select_exact:
  assumes "path_rules_select globs rules paths = Ok selected"
  shows "\<exists>includes ignores. compile_globs globs (psr_includes rules) = Ok includes \<and> compile_globs globs (psr_ignores rules) = Ok ignores \<and>
    bs_set selected = {lit ''path/'' @ path |path. path \<in> set paths \<and> logical_path path \<and> includes path \<and> \<not> ignores path}"
  using assms by (auto simp: path_rules_select_def outcome_simps select_paths_Ok)

section \<open>A baseline projection runs to its end\<close>

text \<open>What the live checker documents: a receipt it issues for a code and its dependencies is current,
  has the review scope and that subject, and at least the bootstrap grade.\<close>

definition issues_current :: "('i, 'r, 'x) checker_ops \<Rightarrow> 'i \<Rightarrow> 'i \<Rightarrow> bool" where
  "issues_current checker code dependencies \<longleftrightarrow>
     (\<forall>receipt. ck_issue checker code dependencies = Ok receipt \<longrightarrow>
        ck_verify_current checker receipt = Ok () \<and> ck_review_scope checker = Ok (ck_scope checker receipt) \<and>
        ck_reviewed_subject checker code dependencies = Ok (ck_subject checker receipt) \<and>
        ck_bootstrap_grade checker \<le> ck_grade checker receipt)"

lemma trusted_native_issued:
  assumes "issues_current checker code dependencies" "ck_issue checker code dependencies = Ok receipt" "policy_id policy = Ok ident"
  shows "trusted_native checker policy_id policy \<lparr>ne_code = code, ne_dependencies = dependencies, ne_receipt = receipt\<rparr> =
    Ok (TrustedNative \<lparr>qs_code = code, qs_dependencies = dependencies, qs_review = ck_review checker receipt\<rparr> ident)"
  using assms by (simp add: issues_current_def trusted_native_def require_def)

lemma bm_entries_keys: "bm_entries m = map (\<lambda>k. (k, the (bm_get m k))) (bm_keys m)"
proof -
  have "map (\<lambda>k. (k, the (bm_get m k))) (bm_keys m) = map (\<lambda>entry. entry) (bm_entries m)"
    unfolding bm_keys_def map_map by (rule map_cong) (auto simp: bm_entries_iff)
  then show ?thesis by simp
qed

lemma selected_entries:
  assumes "world_select world selector = Ok inputs"
  shows "bm_keys (pi_facts inputs) = bs_elems (ds_facts selector)"
    "bm_entries (pi_facts inputs) =
       map (\<lambda>ident. (ident, of_semantic (the (bm_get (ow_facts world) ident)))) (bs_elems (ds_facts selector))"
proof -
  note facts = world_select_Ok[THEN iffD1, OF assms]
  show keys: "bm_keys (pi_facts inputs) = bs_elems (ds_facts selector)"
    by (rule strict_sorted_equal) (use facts in \<open>auto simp: set_bm_keys\<close>)
  show "bm_entries (pi_facts inputs) =
      map (\<lambda>ident. (ident, of_semantic (the (bm_get (ow_facts world) ident)))) (bs_elems (ds_facts selector))"
    unfolding bm_entries_keys keys using facts by (intro map_cong) auto
qed

lemma run_baseline:
  assumes "world_select world selector = Ok inputs"
  shows "run_projector (pp_project (baseline_provider ops shape kind) config) inputs =
    (Ok \<lparr>po_value = bo_selected ops kind config
         (map (\<lambda>ident. (ident, of_semantic (the (bm_get (ow_facts world) ident)))) (bs_elems (ds_facts selector))),
       po_dependencies = ds_facts selector\<rparr>, inputs\<lparr>pi_accessed := ds_facts selector\<rparr>)"
proof -
  have "bs_from_list (bs_elems (ds_facts selector)) = ds_facts selector"
    "bs_extend (bs_elems (ds_facts selector)) bs_empty = ds_facts selector" by (rule bs_ext; simp)+
  then show ?thesis
    using world_select_Ok[THEN iffD1, OF assms] selected_entries[OF assms]
    by (simp add: baseline_provider_def inputs_iter_def comp_def)
qed

end
