(* ===== verification/Projection_Runs.thy ===== *)
theory Projection_Runs
  imports Projection_Engine
begin

text \<open>
  The properties of the projection organ: what sealing and predicting decide, that a projection
  depends on nothing but the facts it reports, what a successful projection has been checked for, and
  that the baseline providers project; each with the run that witnesses it.
\<close>

section \<open>The closure in terms of the declarations\<close>

lemma closure_depends_declared:
  assumes "closure_seal facts graphs = Ok c"
  shows "closure_depends_on c conclusion leaf \<longleftrightarrow>
    (\<exists>owner required. (owner, conclusion, required) \<in> set (declarations graphs) \<and> leaf \<in> bs_set required)"
proof -
  have "closure_depends_on c conclusion leaf \<longleftrightarrow>
      (\<exists>required. bm_get (fc_dependencies c) conclusion = Some required \<and> leaf \<in> bs_set required)"
    by (simp add: closure_depends_on_def split: option.splits)
  then show ?thesis unfolding closure_seal_Ok(5)[OF assms] by blast
qed

lemma closure_explain_declared:
  assumes "closure_seal facts graphs = Ok c"
  shows "closure_explain c conclusion leaf = Ok e \<longleftrightarrow>
    (\<exists>owner required. (owner, conclusion, required) \<in> set (declarations graphs) \<and> leaf \<in> bs_set required \<and>
       e = \<lparr>ce_conclusion = conclusion, ce_fact = leaf,
         ce_path = [lit ''owner/'' @ owner, lit ''conclusion/'' @ conclusion, lit ''fact/'' @ leaf]\<rparr>)"
proof -
  note sealed = closure_seal_Ok(5,6)[OF assms, of conclusion]
  have one: "owner = owner' \<and> required = required'" if "(owner, conclusion, required) \<in> set (declarations graphs)"
    "(owner', conclusion, required') \<in> set (declarations graphs)" for owner required owner' required'
    using inj_onD[of "fst \<circ> snd" "set (declarations graphs)" "(owner, conclusion, required)" "(owner', conclusion, required')"]
      that closure_seal_Ok(2)[OF assms] by (simp add: distinct_map)
  show ?thesis
  proof (cases "bm_get (fc_dependencies c) conclusion")
    case None
    with sealed(1) show ?thesis by (auto simp: closure_explain_def)
  next
    case (Some required)
    with sealed(1) obtain owner where declared: "(owner, conclusion, required) \<in> set (declarations graphs)" by blast
    with sealed(2) have "bm_get (fc_owners c) conclusion = Some owner" by blast
    with Some declared one show ?thesis by (auto simp: closure_explain_def)
  qed
qed

text \<open>
  \<open>FederatedClosure::seal\<close> never panics and succeeds exactly when there is a declaration, no two
  owners or graphs declare the same conclusion and every required fact is known. On the sealed
  closure \<open>affected\<close> lists exactly the declared consumers of the changed facts in strict order, and
  \<open>explain\<close> answers exactly for a declared dependency, with its owner.
\<close>

theorem closure_seal_exact:
  "closure_seal facts graphs \<noteq> Panic p \<and>
   ((\<exists>c. closure_seal facts graphs = Ok c) \<longleftrightarrow>
      declarations graphs \<noteq> [] \<and> distinct (map (fst \<circ> snd) (declarations graphs)) \<and>
      (\<forall>(owner, conclusion, required)\<in>set (declarations graphs). bs_set required \<subseteq> set facts)) \<and>
   (closure_seal facts graphs = Ok c \<longrightarrow>
      (set (closure_affected c changed) = {conclusion. \<exists>owner required.
         (owner, conclusion, required) \<in> set (declarations graphs) \<and> set changed \<inter> bs_set required \<noteq> {}} \<and>
       sorted_wrt (<) (closure_affected c changed)) \<and>
      (closure_explain c conclusion leaf = Ok e \<longleftrightarrow>
         (\<exists>owner required. (owner, conclusion, required) \<in> set (declarations graphs) \<and> leaf \<in> bs_set required \<and>
            e = \<lparr>ce_conclusion = conclusion, ce_fact = leaf,
              ce_path = [lit ''owner/'' @ owner, lit ''conclusion/'' @ conclusion, lit ''fact/'' @ leaf]\<rparr>)))"
proof (intro conjI impI)
  show "(\<exists>c. closure_seal facts graphs = Ok c) \<longleftrightarrow>
      declarations graphs \<noteq> [] \<and> distinct (map (fst \<circ> snd) (declarations graphs)) \<and>
      (\<forall>(owner, conclusion, required)\<in>set (declarations graphs). bs_set required \<subseteq> set facts)"
    using closure_seal_Ok(2,3,4) closure_seal_total by blast
  assume sealed: "closure_seal facts graphs = Ok c"
  show "set (closure_affected c changed) = {conclusion. \<exists>owner required.
      (owner, conclusion, required) \<in> set (declarations graphs) \<and> set changed \<inter> bs_set required \<noteq> {}}"
    unfolding closure_affected_set[OF closure_seal_Ok(1)[OF sealed]] closure_depends_declared[OF sealed] by blast
  show "closure_explain c conclusion leaf = Ok e \<longleftrightarrow>
      (\<exists>owner required. (owner, conclusion, required) \<in> set (declarations graphs) \<and> leaf \<in> bs_set required \<and>
         e = \<lparr>ce_conclusion = conclusion, ce_fact = leaf,
           ce_path = [lit ''owner/'' @ owner, lit ''conclusion/'' @ conclusion, lit ''fact/'' @ leaf]\<rparr>)"
    by (rule closure_explain_declared[OF sealed])
qed (simp_all add: closure_seal_no_panic closure_affected_sorted)

definition demo_graphs :: "owner_projection_graph list" where
  "demo_graphs =
     [\<lparr>og_owner = lit ''build'', og_dependencies = bm_from_list
        [(lit ''compiles'', bs_from_list [lit ''a'', lit ''b'']), (lit ''links'', bs_from_list [lit ''b''])]\<rparr>,
      \<lparr>og_owner = lit ''docs'', og_dependencies = bm_from_list [(lit ''renders'', bs_from_list [lit ''c''])]\<rparr>]"

definition demo_closure :: federated_closure where
  "demo_closure = (case closure_seal [lit ''a'', lit ''b'', lit ''c''] demo_graphs of Ok c \<Rightarrow> c | _ \<Rightarrow> unsealed [])"

lemma demo_sealed: "closure_seal [lit ''a'', lit ''b'', lit ''c''] demo_graphs = Ok demo_closure"
  by code_simp

theorem closure_seal_exact_witness:
  "closure_seal [lit ''a'', lit ''b'', lit ''c''] demo_graphs = Ok demo_closure \<and>
   set (closure_affected demo_closure [lit ''b'']) = {conclusion. \<exists>owner required.
      (owner, conclusion, required) \<in> set (declarations demo_graphs) \<and> set [lit ''b''] \<inter> bs_set required \<noteq> {}} \<and>
   closure_affected demo_closure [lit ''b''] = [lit ''compiles'', lit ''links'']"
proof -
  have "closure_affected demo_closure [lit ''b''] = [lit ''compiles'', lit ''links'']" by code_simp
  with closure_seal_exact[where facts = "[lit ''a'', lit ''b'', lit ''c'']" and graphs = demo_graphs and c = demo_closure and
      changed = "[lit ''b'']"] demo_sealed
  show ?thesis by blast
qed

section \<open>Predictions\<close>

text \<open>
  The assay decides its contract: \<open>predict\<close> passes a delta exactly when its class, facts,
  affected conclusions, ceilings, revision and carried state are what the frozen row demands; a
  report names exactly the touched and the untouched conclusions; a repair set is never empty and
  its edge and declaration repairs are exactly the unexpected dependencies and the conclusions that
  were expected but not touched; and \<open>qualify\<close> accepts exactly the six deltas that all pass.
\<close>

theorem prediction_exact:
  assumes "closure_seal facts graphs = Ok c" "bm_get (ecs_rows expected) (cd_id delta) = Some row"
  shows "((\<exists>report. predict digest c delta expected = Ok (AssayPassed report)) \<longleftrightarrow> delta_contract c delta row) \<and>
    (predict digest c delta expected = Ok (AssayPassed report) \<longrightarrow>
       bs_set (pr_affected report) = touched c delta \<and>
       bs_set (pr_unaffected report) = set (closure_conclusions c) - touched c delta) \<and>
    (predict digest c delta expected = Ok (AssayRepair report repairs) \<longrightarrow>
       bs_set (rs_items repairs) \<noteq> {} \<and>
       (RepairGraphEdge conclusion leaf \<in> bs_set (rs_items repairs) \<longleftrightarrow>
          conclusion \<notin> bs_set (ec_affected row) \<and> leaf \<in> bs_set (cd_changed_facts delta) \<and> closure_depends_on c conclusion leaf) \<and>
       (RepairDeclaration conclusion \<in> bs_set (rs_items repairs) \<longleftrightarrow>
          conclusion \<in> bs_set (ec_affected row) \<and> conclusion \<notin> touched c delta)) \<and>
    ((\<exists>q. qualify digest c deltas expected = Ok q) \<longleftrightarrow> map cd_id deltas = required_deltas \<and>
       (\<forall>d\<in>set deltas. \<exists>r. bm_get (ecs_rows expected) (cd_id d) = Some r \<and> delta_contract c d r))"
proof -
  note ok = closure_seal_Ok(1)[OF assms(1)]
  show ?thesis
    using predict_passes[OF ok, of digest delta expected] predict_report[OF ok, of digest delta expected report]
      predict_repairs[OF ok _ assms(2), of digest report repairs] qualify_Ok_iff[OF ok, of digest deltas expected] assms(2)
    by simp
qed

text \<open>A private change of \<open>c\<close>, expected to touch \<open>renders\<close> only, and one that touches too much.\<close>

definition demo_row :: expected_closure where
  "demo_row = \<lparr>ec_delta = lit ''D3'', ec_denominator = 3, ec_max_affected = 1, ec_max_revision_delta = 1,
     ec_carried_state = False, ec_affected = bs_from_list [lit ''renders'']\<rparr>"

definition demo_expected :: "nat expected_closure_set" where
  "demo_expected = \<lparr>ecs_source = 0, ecs_id = 1, ecs_rows = bm_from_list [(lit ''D3'', demo_row)]\<rparr>"

definition demo_delta :: "label \<Rightarrow> controlled_delta" where
  "demo_delta leaf = \<lparr>cd_id = lit ''D3'', cd_class = PublicApi, cd_changed_facts = bs_from_list [leaf],
     cd_revision_delta = 1, cd_carried_state = False\<rparr>"

lemma demo_row_frozen: "bm_get (ecs_rows demo_expected) (cd_id (demo_delta leaf)) = Some demo_row"
  by (simp add: demo_expected_def demo_delta_def bm_get_from_list)

definition demo_digest :: "nat digester" where
  "demo_digest preimage = Ok 7"

definition demo_repairs :: "nat projection_repair_set" where
  "demo_repairs = \<lparr>rs_delta = lit ''D3'', rs_items = bs_from_list
     [RepairDeclaration (lit ''renders''), RepairGraphEdge (lit ''compiles'') (lit ''a'')], rs_id = 7\<rparr>"

theorem prediction_exact_witness:
  "delta_contract demo_closure (demo_delta (lit ''c'')) demo_row \<and> \<not> delta_contract demo_closure (demo_delta (lit ''a'')) demo_row"
proof -
  have "\<exists>report. predict demo_digest demo_closure (demo_delta (lit ''c'')) demo_expected = Ok (AssayPassed report)"
    (is "\<exists>report. ?run = _")
  proof -
    have "(case ?run of Ok (AssayPassed _) \<Rightarrow> True | _ \<Rightarrow> False)" by code_simp
    then show ?thesis by (auto split: outcome.splits assay_outcome.splits)
  qed
  moreover have "\<nexists>report. predict demo_digest demo_closure (demo_delta (lit ''a'')) demo_expected = Ok (AssayPassed report)"
    (is "\<nexists>report. ?run = _")
  proof -
    have "(case ?run of Ok (AssayRepair _ repairs) \<Rightarrow> rs_items repairs = rs_items demo_repairs | _ \<Rightarrow> False)" by code_simp
    then show ?thesis by (auto split: outcome.splits assay_outcome.splits)
  qed
  ultimately show ?thesis
    using prediction_exact[OF demo_sealed demo_row_frozen[of "lit ''c''"], of demo_digest]
      prediction_exact[OF demo_sealed demo_row_frozen[of "lit ''a''"], of demo_digest] by blast
qed

section \<open>Projections\<close>

text \<open>
  C22: A projection depends on nothing but the facts it reports as accessed. When it has succeeded on
  one world, it gives the same result (value, digest, affected conclusions, explanations) on every
  world that still has the selected facts and the same semantic values of the accessed ones: other
  facts and all diagnostic envelopes may change. This holds for every provider, since a provider
  reads through its inputs only.
\<close>

theorem projection_reusable:
  assumes "engine_project env registry c world spec policy confinement = Ok res"
    and "\<forall>ident\<in>bs_set (ds_facts (pl_reads policy)). bm_get (ow_facts world') ident \<noteq> None"
    and "\<forall>ident\<in>bs_set (ma_accessed (res_mediated_access res)).
      map_option of_semantic (bm_get (ow_facts world') ident) = map_option of_semantic (bm_get (ow_facts world) ident)"
  shows "engine_project env registry c world' spec policy confinement = Ok res"
  using assms by (rule engine_project_again)

text \<open>A provider that reads \<open>a\<close> only, and worlds that differ in \<open>b\<close> and in the envelope of \<open>a\<close>.\<close>

definition demo_provider :: "(nat, nat) projection_provider" where
  "demo_provider = \<lparr>pp_kind = lit ''first'', pp_config_shape = 4, pp_project = (\<lambda>config. ProjectGet (lit ''a'') (\<lambda>v.
     ProjectDone (case v of None \<Rightarrow> Err (MissingFact (lit ''a''))
       | Some d \<Rightarrow> Ok \<lparr>po_value = d + config, po_dependencies = bs_from_list [lit ''a'']\<rparr>)))\<rparr>"

definition demo_identity :: "nat package_identity" where
  "demo_identity = \<lparr>pk_name = lit ''demo'', pk_version = lit ''1'', pk_code = 3\<rparr>"

definition demo_projectors :: "(nat, nat, nat) projection_registry" where
  "demo_projectors = \<lparr>pg_providers = bm_from_list [(lit ''first'', \<lparr>rp_identity = demo_identity, rp_provider = demo_provider,
     rp_bootstrap = Some \<lparr>ba_receipt = 5, ba_dependencies = 6\<rparr>\<rparr>)]\<rparr>"

definition demo_checker :: "(nat, nat, nat) checker_ops" where
  "demo_checker = \<lparr>ck_verify_current = (\<lambda>_. Ok ()), ck_scope = (\<lambda>_. 0), ck_subject = (\<lambda>_. 9), ck_grade = (\<lambda>_. 1),
     ck_bootstrap_grade = 1, ck_review = (\<lambda>receipt. receipt), ck_review_scope = Ok 0,
     ck_reviewed_subject = (\<lambda>code dependencies. Ok (code + dependencies)), ck_issue = (\<lambda>_ _. Ok 5)\<rparr>"

definition demo_env :: "(nat, nat, nat, nat) projection_env" where
  "demo_env = \<lparr>en_checker = demo_checker, en_policy_id = (\<lambda>_. Ok 11), en_verify_shape = (\<lambda>_ _. Ok ()), en_canonical_len = (\<lambda>_. Ok 8),
     en_content_id = (\<lambda>preimage. Ok (px_projection preimage)), en_render = (\<lambda>_. lit ''refused'')\<rparr>"

definition demo_policy :: "nat projector_policy" where
  "demo_policy = \<lparr>pl_input_shape = 4, pl_reads = declared_input_selector_new [lit ''a'', lit ''b''], pl_imports = bs_empty,
     pl_execution = \<lparr>xs_id = lit ''native'', xs_canonical_nan = True, xs_canonical_collections = True, xs_fresh_instance = True\<rparr>,
     pl_budgets = \<lparr>max_inputs = 2, max_output_bytes = 8, max_fuel = 0, max_memory_bytes = 0\<rparr>, pl_requires_confinement = False\<rparr>"

definition demo_spec :: "(nat, nat) projection_spec" where
  "demo_spec = \<lparr>sp_id = 0, sp_kind = lit ''first'', sp_config = 1, sp_config_shape = 4, sp_provider = demo_identity\<rparr>"

definition demo_observed :: "nat \<Rightarrow> nat observed_world" where
  "demo_observed n = \<lparr>ow_facts = bm_from_list [(lit ''a'', \<lparr>of_semantic = 20, of_envelope = Some n\<rparr>),
     (lit ''b'', \<lparr>of_semantic = n, of_envelope = None\<rparr>)]\<rparr>"

theorem projection_reusable_witness:
  "\<exists>res. engine_project demo_env demo_projectors demo_closure (demo_observed 1) demo_spec demo_policy None = Ok res \<and>
     engine_project demo_env demo_projectors demo_closure (demo_observed 2) demo_spec demo_policy None = Ok res \<and> res_projection res = 21"
proof -
  let ?run = "engine_project demo_env demo_projectors demo_closure (demo_observed 1) demo_spec demo_policy None"
  have "case ?run of Ok res \<Rightarrow> bs_elems (ma_accessed (res_mediated_access res)) = [lit ''a''] \<and> res_projection res = 21 | _ \<Rightarrow> False"
    by code_simp
  then obtain res where run: "?run = Ok res" and res: "bs_elems (ma_accessed (res_mediated_access res)) = [lit ''a'']" "res_projection res = 21"
    by (auto split: outcome.splits)
  have "list_all (\<lambda>ident. bm_contains_key ident (ow_facts (demo_observed 2))) (bs_elems (ds_facts (pl_reads demo_policy)))" by code_simp
  then have present: "\<forall>ident\<in>bs_set (ds_facts (pl_reads demo_policy)). bm_get (ow_facts (demo_observed 2)) ident \<noteq> None"
    by (simp add: list_all_iff in_bm_keys_iff)
  have "map_option of_semantic (bm_get (ow_facts (demo_observed 2)) (lit ''a'')) =
      map_option of_semantic (bm_get (ow_facts (demo_observed 1)) (lit ''a''))" by code_simp
  then have "\<forall>ident\<in>bs_set (ma_accessed (res_mediated_access res)).
      map_option of_semantic (bm_get (ow_facts (demo_observed 2)) ident) = map_option of_semantic (bm_get (ow_facts (demo_observed 1)) ident)"
    by (simp add: res(1))
  from projection_reusable[OF run present this] run res(2) show ?thesis by blast
qed

text \<open>
  What a successful projection has been checked for: the provider is loaded under the requested
  identity and holds a current receipt, the qualification is for its code and for this policy, the
  configuration has its shape, required confinement is live, the budgets hold, the provider read only
  selected facts and declared exactly what it read, and the reported conclusions are those that
  depend on what was read, each explanation being a dependency of the closure.
\<close>

theorem projection_checked:
  assumes "engine_project env registry c world spec policy confinement = Ok res" "closure_ok c"
  shows "(\<exists>registered bootstrap. bm_get (pg_providers registry) (sp_kind spec) = Some registered \<and>
      rp_identity registered = sp_provider spec \<and> rp_bootstrap registered = Some bootstrap \<and>
      ck_verify_current (en_checker env) (ba_receipt bootstrap) = Ok ()) \<and>
    qualification_implementation (res_qualification res) = pk_code (sp_provider spec) \<and>
    en_policy_id env policy = Ok (qualification_policy (res_qualification res)) \<and>
    en_verify_shape env (sp_config_shape spec) (sp_config spec) = Ok () \<and>
    (pl_requires_confinement policy \<longrightarrow> (\<exists>evidence. res_confinement res = Some evidence \<and> cf_live evidence)) \<and>
    length (bs_elems (ds_facts (pl_reads policy))) \<le> max_inputs (pl_budgets policy) \<and>
    (\<exists>len. en_canonical_len env (res_projection res) = Ok len \<and> len \<le> max_output_bytes (pl_budgets policy)) \<and>
    ma_selected (res_mediated_access res) = ds_facts (pl_reads policy) \<and>
    bs_set (ma_accessed (res_mediated_access res)) \<subseteq> bs_set (ds_facts (pl_reads policy)) \<and>
    set (res_affected res) = {conclusion. \<exists>leaf\<in>bs_set (ma_accessed (res_mediated_access res)). closure_depends_on c conclusion leaf} \<and>
    (\<forall>e\<in>set (res_explanations res). closure_depends_on c (ce_conclusion e) (ce_fact e))"
  using assms(1)
proof (rule engine_project_Ok)
  fix provider inputs inputs' result len
  assume admit: "admit_projection env registry spec policy confinement = Ok (provider, res_qualification res)"
    and select: "world_select world (pl_reads policy) = Ok inputs"
    and run: "run_projector (pp_project provider (sp_config spec)) inputs = (Ok result, inputs')"
    and len: "en_canonical_len env (po_value result) = Ok len" "len \<le> max_output_bytes (pl_budgets policy)"
    and es: "explain_pairs c (res_affected res) (bs_elems (pi_accessed inputs')) = (Ok (res_explanations res) :: (projection_error, _) outcome)"
    and res: "res_projection res = po_value result" "ma_accessed (res_mediated_access res) = pi_accessed inputs'"
      "ma_selected (res_mediated_access res) = ds_facts (pl_reads policy)" "res_confinement res = confinement"
      "res_affected res = closure_affected c (bs_elems (pi_accessed inputs'))"
  have "bs_set (pi_accessed inputs') \<subseteq> bs_set (ds_facts (pl_reads policy))"
    using run_projector_reads[OF run] select unfolding world_select_Ok by (auto simp: set_bm_keys split: if_splits)
  moreover obtain found where
    "explain_pairs c (res_affected res) (bs_elems (pi_accessed inputs')) = (Ok found :: (projection_error, _) outcome)"
    and "\<forall>e\<in>set found. closure_depends_on c (ce_conclusion e) (ce_fact e)"
    using explain_pairs_total[OF assms(2)] by blast
  then have "\<forall>e\<in>set (res_explanations res). closure_depends_on c (ce_conclusion e) (ce_fact e)" using es by simp
  ultimately show ?thesis
    using admit_projection_Ok[OF admit] len closure_affected_set[OF assms(2)] unfolding res by blast
qed

text \<open>
  The baseline providers work: after \<open>install_baseline_providers\<close>, a projection of any baseline
  kind for the returned identity succeeds on every world that has the selected facts, as long as the
  issued receipt is current, the shape, policy and content identities can be computed, required
  confinement is live and the budgets suffice. Its value is built from all selected facts, in order,
  and it reports all of them as accessed.
\<close>

theorem baseline_projection_total:
  assumes installed: "install_baseline_providers (en_checker env) (en_render env) ops shape package registry0 = Ok (identity, registry)"
    and spec: "sp_kind spec \<in> set baseline_projection_kinds" "sp_provider spec = identity" "sp_config_shape spec = shape"
      "en_verify_shape env shape (sp_config spec) = Ok ()"
    and checker: "\<forall>code dependencies. issues_current (en_checker env) code dependencies"
    and policy: "en_policy_id env policy = Ok ident" "check_confinement policy confinement = Ok ()"
      "length (bs_elems (ds_facts (pl_reads policy))) \<le> max_inputs (pl_budgets policy)"
    and world: "\<forall>ident\<in>bs_set (ds_facts (pl_reads policy)). bm_get (ow_facts world) ident \<noteq> None"
    and v_def: "v = bo_selected ops (sp_kind spec) (sp_config spec)
      (map (\<lambda>ident. (ident, of_semantic (the (bm_get (ow_facts world) ident)))) (bs_elems (ds_facts (pl_reads policy))))"
    and canonical: "en_canonical_len env v = Ok len" "len \<le> max_output_bytes (pl_budgets policy)"
      "\<forall>preimage. \<exists>digest. en_content_id env preimage = Ok digest"
    and closed: "closure_ok c"
  shows "\<exists>res. engine_project env registry c world spec policy confinement = Ok res \<and> res_projection res = v \<and>
    ma_accessed (res_mediated_access res) = ds_facts (pl_reads policy)"
proof -
  obtain code dependencies where identity: "identity = package\<lparr>pk_code := code\<rparr>"
    and kinds: "for_each (install_baseline_kind (en_checker env) (en_render env) ops shape identity dependencies)
      baseline_projection_kinds registry0 = Ok registry"
    using installed by (auto simp: install_baseline_providers_def Let_def outcome_simps)
  from install_baseline_kinds_Ok(1)[OF kinds spec(1)] obtain receipt where
    issued: "ck_issue (en_checker env) code dependencies = Ok receipt" and
    loaded: "bm_get (pg_providers registry) (sp_kind spec) = Some \<lparr>rp_identity = identity,
      rp_provider = baseline_provider ops shape (sp_kind spec),
      rp_bootstrap = Some \<lparr>ba_receipt = receipt, ba_dependencies = dependencies\<rparr>\<rparr>"
    by (auto simp: identity)
  have admit: "admit_projection env registry spec policy confinement = Ok (baseline_provider ops shape (sp_kind spec),
      TrustedNative \<lparr>qs_code = code, qs_dependencies = dependencies, qs_review = ck_review (en_checker env) receipt\<rparr> ident)"
    using loaded spec policy trusted_native_issued[where policy_id = "en_policy_id env", OF checker[rule_format] issued policy(1)]
    by (simp add: admit_projection_def qualification_for_def require_def identity qualification_implementation_def baseline_provider_def)
  obtain inputs where select: "world_select world (pl_reads policy) = Ok inputs" using world_select_exists[OF world] by blast
  have known: "bs_set (ds_facts (pl_reads policy)) \<subseteq> set (bm_keys (pi_facts (inputs\<lparr>pi_accessed := ds_facts (pl_reads policy)\<rparr>)))"
    using selected_entries(1)[OF select] by simp
  obtain digest where digest: "projection_digest (en_content_id env) spec
      (TrustedNative \<lparr>qs_code = code, qs_dependencies = dependencies, qs_review = ck_review (en_checker env) receipt\<rparr> ident)
      (inputs\<lparr>pi_accessed := ds_facts (pl_reads policy)\<rparr>) (ds_facts (pl_reads policy)) v = Ok digest"
    using projection_digest_known[OF known] canonical(3) by (metis map_err.simps(1))
  obtain es where es: "explain_pairs c (closure_affected c (bs_elems (ds_facts (pl_reads policy)))) (bs_elems (ds_facts (pl_reads policy))) =
      (Ok es :: (projection_error, _) outcome)"
    using explain_pairs_total[OF closed] by blast
  have checks: "for_each (check_accessed (ds_facts (pl_reads policy))) (bs_elems (ds_facts (pl_reads policy))) () = Ok ()"
    "for_each (check_dependency (ds_facts (pl_reads policy))) (bs_elems (ds_facts (pl_reads policy))) () = Ok ()"
    by (simp_all add: check_loops_Ok)
  show ?thesis
    unfolding engine_project_def admit select
    using canonical(1,2) digest es checks run_baseline[OF select, of ops shape "sp_kind spec" "sp_config spec", folded v_def]
    by (simp add: Let_def require_def)
qed

end
