(* ===== verification/Spec2Isabelle.thy ===== *)
theory Spec2Isabelle
  imports Definite_Assignment Query_Specimen Jvm_Initialization Machine_Runs Collector_Runs Pattern_Runs Projection_Runs
begin

text \<open>
  A verification development for sim-runtime, the loadable runtime organs of SIM. It models the
  parts of the repository that carry their own logic: \<open>sim-incremental-core\<close>, the incremental
  query engine, the generic dataflow engine and the projection organ; the verifier of \<open>sim-lib-lang-jvm\<close>, whose lattice
  and transfer functions are clients of the dataflow contracts; \<open>sim-lib-machine\<close>, the contracts of
  decoded-instruction machines; the managed heap of \<open>sim-lib-mutation\<close> with the tracing
  collector \<open>sim-lib-gc-tracing\<close> and the job queues and cleanup stack of \<open>sim-lib-control\<close>; and the
  pattern engine of \<open>sim-lib-pattern\<close> with its glob and Lua dialects.

  \<^bold>\<open>How the program is put together.\<close> A client describes a program as a graph of located nodes and
  classified edges (dataflow/graph.rs), a join semilattice of facts and a transfer function, which
  the engine admits only after a suite of laws held on given samples (dataflow/lattice.rs). The
  fixpoint engine (dataflow/engine/) solves for the least facts, either at once, in resumable
  slices of bounded visits, or incrementally from a proven earlier solution. Beside it stands the
  query engine (engine.rs, query.rs, state.rs): callbacks registered under keys, memoised with the
  observations they made, marked dirty along the reverse dependencies and reused when the
  observations are still current. Snapshots (snapshot.rs) export and import its memo graph. The
  JVM verifier (verifier/) instantiates the semilattice with verification types and frames.

  The projection organ (projection/) lets owners declare which observed facts their conclusions
  consume (graph.rs), predicts what a controlled change affects and compares it with a frozen table
  (assay.rs, assay_repair.rs), and runs admitted providers over recorded reads of the observed world
  (model.rs, admission.rs, engine.rs, builtin.rs).

  A machine (sim-lib-machine) freezes located code into instruction boundaries, keeps its values in
  bounded operand stacks and slot files measured in units, and drives an instruction policy for a
  bounded number of steps, with frames, protected regions, cleanups and safepoints at which it
  publishes its roots. The managed arena (sim-lib-mutation/src/managed/) stores objects under
  identities that are never reused; the tracing collector plans at a safepoint of the arena, without
  changing it, and applies the plan at the epoch it was made for. Finalization records of swept
  objects become jobs of a typed queue, which its owner drains after the collection.

  A pattern dialect (glob_dialect.rs, lua_dialect.rs) parses its syntax into expressions of a common
  language, which are validated (ir.rs), compiled into a tagged Thompson automaton (compile.rs) and
  run by a memoising search with explicit limits and a receipt (execute.rs). The dialects also
  project their expressions into text programs, which text_vm.rs lowers again and runs on strings
  with byte offsets. Constructs that are not regular run in a lane with limits of its own
  (extension.rs).

  \<^bold>\<open>Conventions.\<close> A Rust call that may return an error or panic is an \<open>outcome\<close>: \<open>Ok\<close>, \<open>Err\<close> or
  \<open>Panic\<close>. Every \<open>expect\<close>, slice index and unchecked addition of the sources is a branch that can
  panic. \<open>usize\<close> and \<open>u64\<close> are natural numbers with saturation or overflow written out;
  \<open>BTreeMap\<close> and \<open>BTreeSet\<close> are the sorted association lists of Ordered_Map. Loops over a worklist
  are \<open>while_let\<close>, a partial function whose \<open>None\<close> is divergence, so that returning is proved
  where it is claimed. The query engine's recursion through callbacks takes fuel; one more than
  the number of registered queries is enough, because a key on the stack is never entered again
  (\<open>verify_returns\<close>). The pattern executor needs no fuel: its loop is a total function because every
  round pops a thread or uses one of the transitions the limits grant.

  \<^bold>\<open>Theories.\<close>
  \<^item> Prelude: outcomes, \<open>for_each\<close> and worklist loops with their invariant rules, machine arithmetic.
  \<^item> Ordered_Map: maps and sets in key order, and the interface \<open>ordered_map\<close> they satisfy.
  \<^item> Incremental_Types: budget.rs, fingerprint.rs, observation.rs, error.rs.
  \<^item> Lattice_Laws: dataflow/lattice.rs; the locales \<open>join_semilattice\<close> and \<open>monotone_transfer\<close>
    state what the law suite samples. Admission succeeds exactly when every sampled law holds, and
    on exhaustive samples it establishes the locales' laws.
  \<^item> Dataflow_Graph: dataflow/graph.rs; checked construction, its refusals, the index invariant and
    independence of the input order.
  \<^item> Worklist, Dataflow_Solve, Dataflow_Accounting, Dataflow_Causes: \<open>FixpointEngine::solve\<close> of
    dataflow/engine/execution.rs with the helpers of proof.rs. A returned solution is the least one;
    the solver returns under finite height or a work budget, never panics on built graphs, accounts
    its usage exactly, and its explanations are the beginning of a causal history of real
    propagations that does not depend on the causality budget.
  \<^item> Dataflow_Resume: \<open>start_resumable\<close> and \<open>resume\<close>; slices compose and together equal \<open>solve\<close>.
  \<^item> Dataflow_Incremental, Incremental_Correct: \<open>solve_proven\<close>, \<open>present\<close>, \<open>solve_incremental\<close>; for
    transfers that keep bottom the incremental states equal a clean solve and carry a certificate.
  \<^item> Query_Engine, Query_Soundness, Query_Runs: the query engine. Callbacks are interaction trees over
    the frame calls, hashing and the external contents are parameters. On engines used with
    discipline (\<open>disciplined_reachable\<close>: callbacks pass errors on, no key is registered twice or
    removed while a memo depends on it) a verification returns what the callbacks denote from
    scratch, clean memos are current and an invalidation reaches exactly the recorded dependents;
    on every engine budgets bound a run and a verification ends.
  \<^item> Snapshot: export and import of the memo graph; exactness, round trip, and soundness of rolling
    back to an earlier snapshot.
  \<^item> Projection_Closure, Projection_Assay, Projection_Engine, Projection_Runs: the projection organ.
    Sealing accepts exactly the consistent declarations and indexes them exactly; a prediction passes
    exactly when the delta meets its contract; a projection depends on nothing but the facts it
    reports, has been checked for what its policy demands, and the baseline providers project.
    Providers are interaction trees over the reads; data, identities and the checker are parameters.
  \<^item> Definite_Assignment, Query_Specimen: concrete programs on which the properties are applied, and
    the runs that show behaviour outside the engines' discipline.
  \<^item> Jvm_Types, Jvm_Frame: verifier/types.rs and verifier/frame.rs with the join of
    verifier/environment_tests.rs; frames of one shape form a semilattice and keep two-word pairs whole.
  \<^item> Jvm_Transfer, Jvm_Stack_Map, Jvm_Initialization: the storage, numeric, initialization and control
    transfers, method-entry frames and stack-map expansion. No transfer panics on a state that keeps
    the frame invariant, and every one keeps it; descriptors are parsed exactly by the class-file
    grammar; a constructor call is accepted exactly on the arguments its descriptor asks for and
    leaves no alias of its receiver.

  \<^item> Machine_Store: stack.rs, slots.rs, shuffle.rs; stores refine an abstract store, validated plans move
    units. Machine_Code: code.rs; what freezing establishes, exact target resolution and regions.
  \<^item> Machine_Driver, Machine_Runs: frame.rs, managed.rs, admission.rs, driver.rs and unwind.rs of
    \<open>sim-lib-control\<close>. Slices of a drive compose and finish while their receipts can be allocated (a
    larger allowance panics, as \<open>Vec::with_capacity\<close> does), protected drives do not panic, safepoints do
    not change a run, root scans are complete, cleanups run once, checkpoints resume. Instruction
    policies and the size of a receipt entry are parameters; the locale \<open>machine_frame\<close> states what the
    drives need of frames.
  \<^item> Managed_Node, Managed_Arena: managed/handles.rs, edges.rs, object.rs, arena_model.rs, arena.rs. The
    locale \<open>managed_object\<close> is the contract of the trait; nodes satisfy it. Histories of calls keep the
    arena invariant, and neither edge nor object identities are reused.
  \<^item> Job_Queues: jobs.rs of \<open>sim-lib-control\<close>; jobs run in order and at most once.
  \<^item> Tracing_Collector, Collector_Correct, Collector_Runs: \<open>sim-lib-gc-tracing\<close>. The mark and ephemeron
    loops return on every arena; a successful collection keeps exactly the live objects and leaves no
    dangling edge, a refused one changes only the safepoint counter, finalization happens for every
    pending registration of a swept object, in order and once.
  \<^item> Pattern_Ir, Pattern_Compile, Pattern_Execute: ir.rs, compile.rs and execute.rs of
    \<open>sim-lib-pattern\<close>. Pattern_Language gives every expression the set of its spans in a subject and
    shows that the emitted code has exactly these paths; Pattern_Search shows, in the locale
    \<open>memo_search\<close> interpreted on the automaton, that a search which skips configurations it has seen
    alike misses nothing; Pattern_Correct joins the two, with the assertions that have no anchors
    matched in the subject, and bounds the receipt of a run by its limits (the receipt leaves out
    the work of assertions that fail);
    Pattern_Bounds bounds the work independently of the limits and shows that ample limits decide.
  \<^item> Pattern_Text, Pattern_Dialect, Pattern_Extension: text_vm.rs, glob_dialect.rs, lua_dialect.rs,
    extension.rs, domain_execute.rs. Text programs express the patterns they come from, byte offsets
    and positions correspond, globs match whole subjects, the metered lane decides rightly.
  \<^item> Pattern_Runs: the properties of the pattern engine with their witnesses, and runs where the engine
    and its documentation part.

  \<^bold>\<open>Not modelled.\<close> Hash functions, \<open>Display\<close> and \<open>Debug\<close> text, timing. Opcodes and class-file records
  come from a codec outside the repository: the model has the variants the verifier names. The class
  hierarchy environment, method invocation, and the method and class proofs of the verifier rest on
  class loading. Of the pattern crate, matching of kernel values (adt.rs, matching.rs, match_form.rs,
  shapes.rs, claims.rs, runtime.rs) is left out; capture identifiers (\<open>u32\<close>, whose unchecked increments
  need 2^32 captures in one pattern, more than the compiler has states) and the work counters are natural
  numbers, and the rendering of an extension in an error is a parameter. In the projection organ the
  encodings into data of the kernel and the calls into the conformance crate are parameters. The
  operation gate, and the logic, control and language crates are not modelled; most of the latter
  evaluate expressions of a kernel outside the repository.
\<close>

end
